(* ===== verification/Prelude.thy ===== *)
theory Prelude
  imports Main "HOL-Library.Word"
begin

text \<open>
  What the component theories share: names for the machine types of the code
  (lib/include/stdint.h, lib/include/types.h), byte buffers as lists of 8-bit words with the
  little-endian accessors of lib/include/mem.h, sub-buffer copies (the memcpy into or out of a
  local array), and the word lemmas the proofs of the other theories use.
\<close>

unbundle bit_operations_syntax

type_synonym u8 = "8 word"
type_synonym u16 = "16 word"
type_synonym u32 = "32 word"
type_synonym u64 = "64 word"

named_theorems buf_simps \<open>length and indexing facts on byte buffers\<close>
named_theorems word_facts \<open>word arithmetic moved to nat\<close>

section \<open>Words\<close>

lemma unat_less_2p32 [simp]: "unat (w :: u32) < 4294967296"
  using unsigned_less [of w, where ?'a = nat] by simp

lemma unat_less_2p8 [simp]: "unat (w :: u8) < 256"
  using unsigned_less [of w, where ?'a = nat] by simp

lemma ff_mask: "(0xFF :: u16) = mask 8" "(0xFF :: u32) = mask 8" "(0xFF :: u8) = mask 8"
  by (simp_all add: mask_eq_exp_minus_1)

lemma unat_add_no_wrap [word_facts]:
  "unat (a :: u32) + unat b < 4294967296 \<Longrightarrow> unat (a + b) = unat a + unat b"
  by (simp add: unat_word_ariths)

lemma unat_mult_no_wrap [word_facts]:
  "unat (a :: u32) * unat b < 4294967296 \<Longrightarrow> unat (a * b) = unat a * unat b"
  by (simp add: unat_word_ariths)

lemma unat_sub_le [word_facts]: "b \<le> a \<Longrightarrow> unat (a - b :: u32) = unat a - unat b"
  by (rule unat_sub)

lemma unat_of_nat_u32 [word_facts]: "n < 4294967296 \<Longrightarrow> unat (of_nat n :: u32) = n"
  by (simp add: unat_of_nat)

lemma unat_two_power [word_facts]:
  assumes "i < 32"
  shows "unat ((2 :: u32) ^ i) = 2 ^ i"
proof -
  have "(2 :: nat) ^ i < 2 ^ 32" using assms by (intro power_strict_increasing) simp_all
  then have "unat (of_nat (2 ^ i) :: u32) = 2 ^ i" by (intro unat_of_nat_u32) simp
  then show ?thesis by simp
qed

lemma u32_eq_nat_iff: "(a :: u32) = b \<longleftrightarrow> unat a = unat b"
  by (simp add: word_unat_eq_iff)

lemma word_mod_zero_iff: "(a :: u32) mod b = 0 \<longleftrightarrow> unat b dvd unat a"
  by (simp only: u32_eq_nat_iff unat_mod_distrib unsigned_0 mod_eq_0_iff_dvd)

section \<open>Byte buffers\<close>

text \<open>\<open>blit buf i xs\<close> is the buffer after copying \<open>xs\<close> over the bytes from index \<open>i\<close>.\<close>

definition blit :: "'a list \<Rightarrow> nat \<Rightarrow> 'a list \<Rightarrow> 'a list" where
  "blit buf i xs = take i buf @ xs @ drop (i + length xs) buf"

text \<open>\<open>slice buf i n\<close> is the \<open>n\<close> bytes of the buffer from index \<open>i\<close>.\<close>

definition slice :: "'a list \<Rightarrow> nat \<Rightarrow> nat \<Rightarrow> 'a list" where
  "slice buf i n = take n (drop i buf)"

lemma length_blit [simp]: "i + length xs \<le> length buf \<Longrightarrow> length (blit buf i xs) = length buf"
  by (simp add: blit_def)

lemma length_slice [simp]: "i + n \<le> length buf \<Longrightarrow> length (slice buf i n) = n"
  by (simp add: slice_def)

lemma nth_blit [buf_simps]:
  "i + length xs \<le> length buf \<Longrightarrow> k < length buf \<Longrightarrow>
   blit buf i xs ! k = (if i \<le> k \<and> k < i + length xs then xs ! (k - i) else buf ! k)"
  by (auto simp: blit_def nth_append)

lemma nth_slice [buf_simps]: "i + n \<le> length buf \<Longrightarrow> k < n \<Longrightarrow> slice buf i n ! k = buf ! (i + k)"
  by (simp add: slice_def)

lemma slice_blit_same [simp]:
  "i + length xs \<le> length buf \<Longrightarrow> n = length xs \<Longrightarrow> slice (blit buf i xs) i n = xs"
  by (simp add: slice_def blit_def)

lemma slice_blit_other:
  assumes "i + length xs \<le> length buf" "j + n \<le> length buf" "j + n \<le> i \<or> i + length xs \<le> j"
  shows "slice (blit buf i xs) j n = slice buf j n"
  using assms by (intro nth_equalityI) (auto simp: nth_slice nth_blit)

lemma blit_blit: "p + length xs + length ys \<le> length buf \<Longrightarrow> blit (blit buf p xs) (p + length xs) ys = blit buf p (xs @ ys)"
  by (rule nth_equalityI) (auto simp: nth_blit nth_append)

lemma blit_nil [simp]: "blit buf p [] = buf"
  by (simp add: blit_def)

lemma blit_whole [simp]: "length xs = length buf \<Longrightarrow> blit buf 0 xs = xs"
  by (simp add: blit_def)

lemma slice_whole [simp]: "n = length buf \<Longrightarrow> slice buf 0 n = buf"
  by (simp add: slice_def)

lemma slice_add: "slice buf i (m + n) = slice buf i m @ slice buf (i + m) n"
  by (simp add: slice_def take_add add.commute)

section \<open>Little-endian accessors (lib/include/mem.h)\<close>

definition read_u16 :: "u8 list \<Rightarrow> nat \<Rightarrow> u16" where
  "read_u16 p i = ucast (p ! i) OR push_bit 8 (ucast (p ! (i + 1)))"

definition write_u16 :: "u8 list \<Rightarrow> nat \<Rightarrow> u16 \<Rightarrow> u8 list" where
  "write_u16 p i v = p[i := ucast (v AND 0xFF), i + 1 := ucast (drop_bit 8 v AND 0xFF)]"

definition read_u32 :: "u8 list \<Rightarrow> nat \<Rightarrow> u32" where
  "read_u32 p i = ucast (p ! i) OR push_bit 8 (ucast (p ! (i + 1)))
     OR push_bit 16 (ucast (p ! (i + 2))) OR push_bit 24 (ucast (p ! (i + 3)))"

definition write_u32 :: "u8 list \<Rightarrow> nat \<Rightarrow> u32 \<Rightarrow> u8 list" where
  "write_u32 p i v = p[i := ucast (v AND 0xFF), i + 1 := ucast (drop_bit 8 v AND 0xFF),
     i + 2 := ucast (drop_bit 16 v AND 0xFF), i + 3 := ucast (drop_bit 24 v AND 0xFF)]"

lemma length_write_u16 [simp]: "length (write_u16 p i v) = length p"
  by (simp add: write_u16_def)

lemma length_write_u32 [simp]: "length (write_u32 p i v) = length p"
  by (simp add: write_u32_def)

lemma u16_bytes_join:
  "(ucast (ucast (v AND 0xFF) :: u8) OR push_bit 8 (ucast (ucast (drop_bit 8 v AND 0xFF) :: u8)) :: u16) = v"
  unfolding ff_mask by (rule bit_word_eqI) (auto simp: bit_simps)

lemma u32_bytes_join:
  "(ucast (ucast (v AND 0xFF) :: u8) OR push_bit 8 (ucast (ucast (drop_bit 8 v AND 0xFF) :: u8))
     OR push_bit 16 (ucast (ucast (drop_bit 16 v AND 0xFF) :: u8))
     OR push_bit 24 (ucast (ucast (drop_bit 24 v AND 0xFF) :: u8)) :: u32) = v" (is "?w = v")
proof (rule bit_word_eqI)
  fix n assume "n < LENGTH(32)"
  then consider "n < 8" | "8 \<le> n" "n < 16" | "16 \<le> n" "n < 24" | "24 \<le> n" "n < 32"
    by fastforce
  then show "bit ?w n = bit v n"
    by cases (auto simp: ff_mask bit_simps)
qed

lemma u8_bit_ge: "8 \<le> n \<Longrightarrow> \<not> bit (w :: u8) n"
  by (simp add: impossible_bit)

lemma u32_bytes_split:
  fixes a b c d :: u8
  defines "w \<equiv> ucast a OR push_bit 8 (ucast b) OR push_bit 16 (ucast c) OR push_bit 24 (ucast d) :: u32"
  shows "ucast (w AND 0xFF) = a" "ucast (drop_bit 8 w AND 0xFF) = b"
    "ucast (drop_bit 16 w AND 0xFF) = c" "ucast (drop_bit 24 w AND 0xFF) = d"
  unfolding w_def ff_mask by (rule bit_word_eqI; simp add: bit_simps u8_bit_ge; fail)+

lemma read_write_u16_same: "i + 2 \<le> length p \<Longrightarrow> read_u16 (write_u16 p i v) i = v"
  using u16_bytes_join [of v] by (simp add: read_u16_def write_u16_def nth_list_update)

lemma read_write_u32_same: "i + 4 \<le> length p \<Longrightarrow> read_u32 (write_u32 p i v) i = v"
  using u32_bytes_join [of v] by (simp add: read_u32_def write_u32_def nth_list_update)

lemma read_write_u32_other:
  "j + 4 \<le> i \<or> i + 4 \<le> j \<Longrightarrow> read_u32 (write_u32 p i v) j = read_u32 p j"
  by (auto simp: read_u32_def write_u32_def nth_list_update)

lemma nth_write_u32_other:
  "k < i \<or> i + 4 \<le> k \<Longrightarrow> write_u32 p i v ! k = p ! k"
  by (auto simp: write_u32_def nth_list_update)

lemma write_u32_read_id: "i + 4 \<le> length p \<Longrightarrow> write_u32 p i (read_u32 p i) = p"
proof -
  assume "i + 4 \<le> length p"
  then show ?thesis unfolding write_u32_def read_u32_def u32_bytes_split by simp
qed

end
