(* ===== verification/Pimath.thy ===== *)
theory Pimath
  imports Prelude
begin

text \<open>
  lib/src/pimath.c: 32-bit unsigned division by shift and subtract, and the run-time helpers of
  the ABI built on it. The loop counter runs from 31 down to 0, here \<open>Suc i\<close> iterations left
  means the source's counter is \<open>i\<close>.
\<close>

fun udivmod_loop :: "nat \<Rightarrow> u32 \<Rightarrow> u32 \<Rightarrow> u32 \<Rightarrow> u32 \<Rightarrow> u32 \<times> u32" where
  "udivmod_loop 0 n d q r = (q, r)"
| "udivmod_loop (Suc i) n d q r =
     (let r' = push_bit 1 r OR (drop_bit i n AND 1)
      in if d \<le> r' then udivmod_loop i n d (q OR push_bit i 1) (r' - d)
         else udivmod_loop i n d q r')"

definition udivmod :: "u32 \<Rightarrow> u32 \<Rightarrow> u32 \<times> u32" where
  "udivmod n d = udivmod_loop 32 n d 0 0"

definition math_div :: "u32 \<Rightarrow> u32 \<Rightarrow> u32" where
  "math_div num den = fst (udivmod num den)"

definition math_mod :: "u32 \<Rightarrow> u32 \<Rightarrow> u32" where
  "math_mod num den = snd (udivmod num den)"

text \<open>The result of \<open>__aeabi_uidivmod\<close> is the pair of registers r0, r1.\<close>

definition aeabi_uidiv :: "u32 \<Rightarrow> u32 \<Rightarrow> u32" where
  "aeabi_uidiv num den = fst (udivmod num den)"

definition aeabi_uidivmod :: "u32 \<Rightarrow> u32 \<Rightarrow> u32 \<times> u32" where
  "aeabi_uidivmod num den = udivmod num den"

definition divsi3 :: "u32 \<Rightarrow> u32 \<Rightarrow> u32" where
  "divsi3 num den = math_div num den"

definition udivsi3 :: "u32 \<Rightarrow> u32 \<Rightarrow> u32" where
  "udivsi3 num den = math_div num den"

definition modsi3 :: "u32 \<Rightarrow> u32 \<Rightarrow> u32" where
  "modsi3 num den = math_mod num den"

definition umodsi3 :: "u32 \<Rightarrow> u32 \<Rightarrow> u32" where
  "umodsi3 num den = math_mod num den"

definition divdi3 :: "u32 \<Rightarrow> u32 \<Rightarrow> u32" where
  "divdi3 num den = math_div num den"

section \<open>Correctness\<close>

lemma nat_bit_step: "n div 2 ^ i = 2 * (n div 2 ^ Suc i) + (n div 2 ^ i) mod (2 :: nat)"
  by (simp add: div_mult2_eq mult.commute [of 2] power_Suc2 del: power_Suc)

lemma unat_bit_at: "unat (drop_bit i n AND 1 :: u32) = (unat n div 2 ^ i) mod 2"
proof -
  have "unat (drop_bit i n AND 1 :: u32) = unat (drop_bit i n) mod 2"
    by (simp add: and_one_eq unat_mod_distrib)
  then show ?thesis by (simp add: unat_drop_bit_eq drop_bit_eq_div [where 'a = nat])
qed

lemma or_shifted_bit:
  assumes "2 * unat r + unat b < 4294967296" and "b = drop_bit i n AND (1 :: u32)"
  shows "unat (push_bit 1 r OR b) = 2 * unat r + unat b"
proof -
  have "b = 0 \<or> b = 1" unfolding assms(2)
    by (simp add: and_one_eq mod_2_eq_odd)
  moreover have "push_bit 1 r = 2 * r" by (simp add: push_bit_eq_mult)
  ultimately have "push_bit 1 r OR b = 2 * r + b" by (auto simp: or_one_eq)
  with assms(1) show ?thesis by (simp add: unat_word_ariths)
qed

lemma or_push_bit_add:
  assumes "2 ^ Suc i dvd unat q" "i < 32"
  shows "q OR push_bit i 1 = q + (push_bit i 1 :: u32)"
proof -
  have "take_bit (Suc i) (unat q) = 0" using assms(1) by (simp add: take_bit_eq_mod dvd_imp_mod_0)
  then have "take_bit (Suc i) q = 0"
    by (metis unsigned_eq_0_iff unsigned_take_bit_eq)
  then have "\<not> bit q i" by (metis bit_0_eq bit_take_bit_iff bot_apply bot_bool_def lessI)
  then have "q AND push_bit i 1 = 0"
    by (intro bit_word_eqI) (auto simp: bit_simps simp flip: push_bit_eq_mult)
  then show ?thesis using word_plus_and_or [of q "push_bit i 1"] by simp
qed

text \<open>
  With \<open>i\<close> iterations left, the quotient bits found so far and the partial remainder divide the
  prefix of the dividend that has been shifted in.
\<close>

lemma udivmod_loop_correct:
  assumes "i \<le> 32" "unat n div 2 ^ i = (unat q div 2 ^ i) * unat d + unat r"
    "2 ^ i dvd unat q" "r < d" "udivmod_loop i n d q r = (q', r')"
  shows "unat n = unat q' * unat d + unat r' \<and> r' < d"
  using assms
proof (induction i arbitrary: q r)
  case 0
  then show ?case by simp
next
  case (Suc i)
  define b where "b = drop_bit i n AND (1 :: u32)"
  define r1 where "r1 = push_bit 1 r OR b"
  have b: "unat b = (unat n div 2 ^ i) mod 2" unfolding b_def by (rule unat_bit_at)
  have pre: "unat n div 2 ^ i = 2 * ((unat q div 2 ^ Suc i) * unat d + unat r) + unat b"
    using nat_bit_step [of "unat n" i] Suc.prems(2) b by simp
  have "unat n div 2 ^ i < 4294967296"
    by (rule le_less_trans [OF div_le_dividend]) simp
  with pre have "2 * unat r + unat b < 4294967296" by simp
  then have r1: "unat r1 = 2 * unat r + unat b"
    unfolding r1_def by (rule or_shifted_bit) (rule b_def)
  have qd: "unat q div 2 ^ i = 2 * (unat q div 2 ^ Suc i)"
    using Suc.prems(3) by (auto elim!: dvdE)
  have dv: "2 ^ i dvd unat q"
    using Suc.prems(3) by (meson dvd_trans le_imp_power_dvd le_SucI order_refl)
  have i32: "i < 32" using Suc.prems(1) by simp
  show ?case
  proof (cases "d \<le> r1")
    case True
    define q1 where "q1 = q OR push_bit i (1 :: u32)"
    have p1: "unat (push_bit i (1 :: u32)) = 2 ^ i"
      using i32 by (simp add: push_bit_eq_mult unat_two_power)
    obtain k where k: "unat q = 2 ^ Suc i * k" using Suc.prems(3) by (auto elim!: dvdE)
    have two: "2 ^ Suc i * 2 ^ (31 - i) = (4294967296 :: nat)"
    proof -
      have "Suc i + (31 - i) = 32" using i32 by simp
      then have "(2 :: nat) ^ Suc i * 2 ^ (31 - i) = 2 ^ 32" by (metis power_add)
      then show ?thesis by simp
    qed
    have "2 ^ Suc i * k < 2 ^ Suc i * 2 ^ (31 - i)"
      using k two unat_less_2p32 [of q] by argo
    then have "k < 2 ^ (31 - i)" by (rule mult_less_cancel1 [THEN iffD1, THEN conjunct2])
    then have "2 ^ Suc i * Suc k \<le> 2 ^ Suc i * 2 ^ (31 - i)" by (intro mult_le_mono2) simp
    then have "unat q + 2 ^ Suc i \<le> 4294967296" using two k by simp
    moreover have "(2 :: nat) ^ i < 2 ^ Suc i" by simp
    ultimately have "unat q + 2 ^ i < 4294967296" by linarith
    then have q1: "unat q1 = unat q + 2 ^ i"
      unfolding q1_def or_push_bit_add [OF Suc.prems(3) i32] using p1
      by (simp add: unat_word_ariths)
    have step: "udivmod_loop i n d q1 (r1 - d) = (q', r')"
      using Suc.prems(5) True by (simp add: Let_def r1_def b_def q1_def)
    have "unat q1 div 2 ^ i = Suc (unat q div 2 ^ i)"
      unfolding q1 using div_add_self2 [of "2 ^ i" "unat q"] by simp
    moreover have rd: "unat (r1 - d) = unat r1 - unat d" using True by (rule unat_sub)
    moreover have "unat d \<le> unat r1" using True by (simp add: word_le_nat_alt)
    ultimately have "unat n div 2 ^ i = (unat q1 div 2 ^ i) * unat d + unat (r1 - d)"
      using pre qd r1 by (simp add: algebra_simps)
    moreover have "2 ^ i dvd unat q1" unfolding q1 using dv by simp
    moreover have "r1 - d < d"
    proof -
      have "unat b \<le> 1" unfolding b by simp
      moreover have "unat r < unat d" using Suc.prems(4) by (simp add: word_less_nat_alt)
      ultimately show ?thesis using r1 rd by (simp add: word_less_nat_alt)
    qed
    ultimately show ?thesis using Suc.IH [of q1 "r1 - d"] step i32 by simp
  next
    case False
    then have step: "udivmod_loop i n d q r1 = (q', r')"
      using Suc.prems(5) by (simp add: Let_def r1_def b_def)
    have "unat n div 2 ^ i = (unat q div 2 ^ i) * unat d + unat r1"
      using pre qd r1 by (simp add: algebra_simps)
    with Suc.IH [of q r1] dv False step i32 show ?thesis by simp
  qed
qed

lemma udivmod_div_mod:
  assumes "d \<noteq> 0"
  shows "udivmod n d = (n div d, n mod d)"
proof -
  obtain q r where qr: "udivmod n d = (q, r)" by fastforce
  have "unat n < 4294967296" by simp
  then have "unat n = unat q * unat d + unat r \<and> r < d"
    using udivmod_loop_correct [of 32 n 0 d 0 q r] assms qr
    by (simp add: udivmod_def word_gt_0)
  then have "unat q = unat n div unat d" "unat r = unat n mod unat d"
    by (auto simp: word_less_nat_alt)
  then show ?thesis
    using qr by (simp add: u32_eq_nat_iff unat_div_distrib unat_mod_distrib)
qed

lemma udivmod_loop_zero:
  "i \<le> 32 \<Longrightarrow> r = drop_bit i n \<Longrightarrow> udivmod_loop i n 0 q r = (q OR mask i, n)"
proof (induction i arbitrary: q r)
  case 0
  then show ?case by simp
next
  case (Suc i)
  have "push_bit 1 (drop_bit (Suc i) n) OR (drop_bit i n AND 1) = drop_bit i n"
    by (rule bit_word_eqI) (auto simp: bit_simps simp del: One_nat_def)
  moreover have "(q OR push_bit i 1) OR mask i = q OR (mask (Suc i) :: u32)"
    by (rule bit_word_eqI) (auto simp: bit_simps less_Suc_eq)
  ultimately show ?case using Suc by (simp add: Let_def)
qed

lemma udivmod_by_zero: "udivmod n 0 = (0xFFFFFFFF, n)"
proof -
  have "drop_bit 32 n = 0" by (rule bit_word_eqI) (auto simp: bit_simps dest: bit_imp_le_length)
  then show ?thesis using udivmod_loop_zero [of 32 0 n 0] by (simp add: udivmod_def mask_eq_exp_minus_1)
qed

text \<open>The shift-and-subtract loop is unsigned division: for every nonzero divisor it gives quotient
  and remainder, and division by zero returns all ones and the dividend instead of trapping. So the
  unsigned helpers of the ABI are right, and the signed helper built on them treats its arguments as
  unsigned.\<close>
theorem udivmod_total:
  "udivmod n d = (if d = 0 then (0xFFFFFFFF, n) else (n div d, n mod d))"
  by (simp add: udivmod_by_zero udivmod_div_mod)

lemma divsi3_negative: "divsi3 (- 6) 3 = 0x55555553"
  by (simp add: divsi3_def math_div_def udivmod_div_mod)

end
