(* ===== verification/LinkedList.thy ===== *)
theory LinkedList
  imports Prelude
begin

text \<open>
  The intrusive doubly-linked circular lists of lib/include/ll.h. A \<open>list_head\<close> is a pair of
  addresses; the store maps every address to the \<open>list_head\<close> held there, and each operation is
  the sequence of pointer assignments of the source, in its order. The null pointer is address 0,
  which the kernel maps like any other, so an assignment through it is an update of address 0.
  The abstract view is \<open>dlist h head xs\<close>: the ring through the sentinel \<open>head\<close> visits exactly \<open>xs\<close>.
\<close>

record list_head =
  lnext :: u32
  lprev :: u32

type_synonym store = "u32 \<Rightarrow> list_head"

definition set_next :: "u32 \<Rightarrow> u32 \<Rightarrow> store \<Rightarrow> store" where
  "set_next a v h = h(a := (h a)\<lparr>lnext := v\<rparr>)"

definition set_prev :: "u32 \<Rightarrow> u32 \<Rightarrow> store \<Rightarrow> store" where
  "set_prev a v h = h(a := (h a)\<lparr>lprev := v\<rparr>)"

definition INIT_LIST_HEAD :: "u32 \<Rightarrow> store \<Rightarrow> store" where
  "INIT_LIST_HEAD l h = set_prev l l (set_next l l h)"

definition list_add_between :: "u32 \<Rightarrow> u32 \<Rightarrow> u32 \<Rightarrow> store \<Rightarrow> store" where
  "list_add_between add prv nxt h =
     set_next prv add (set_prev add prv (set_next add nxt (set_prev nxt add h)))"

definition list_del_between :: "u32 \<Rightarrow> u32 \<Rightarrow> store \<Rightarrow> store" where
  "list_del_between prv nxt h = set_next prv nxt (set_prev nxt prv h)"

definition list_add :: "u32 \<Rightarrow> u32 \<Rightarrow> store \<Rightarrow> store" where
  "list_add add head h = list_add_between add head (lnext (h head)) h"

definition list_add_tail :: "u32 \<Rightarrow> u32 \<Rightarrow> store \<Rightarrow> store" where
  "list_add_tail add head h = list_add_between add (lprev (h head)) head h"

definition list_del :: "u32 \<Rightarrow> store \<Rightarrow> store" where
  "list_del entry h =
     set_next entry 0 (set_prev entry 0 (list_del_between (lprev (h entry)) (lnext (h entry)) h))"

definition list_splice_tail :: "u32 \<Rightarrow> u32 \<Rightarrow> store \<Rightarrow> store" where
  "list_splice_tail l head h =
     (if lnext (h l) = l then h
      else let first = lnext (h l); lst = lprev (h l); tl_head = lprev (h head);
               h1 = set_next tl_head first (set_prev first tl_head h);
               h2 = set_prev head lst (set_next lst head h1)
           in set_prev l l (set_next l l h2))"

section \<open>Rings\<close>

fun chain :: "store \<Rightarrow> u32 list \<Rightarrow> bool" where
  "chain h (x # y # zs) \<longleftrightarrow> lnext (h x) = y \<and> lprev (h y) = x \<and> chain h (y # zs)"
| "chain h _ \<longleftrightarrow> True"

definition dlist :: "store \<Rightarrow> u32 \<Rightarrow> u32 list \<Rightarrow> bool" where
  "dlist h head xs \<longleftrightarrow> distinct (head # xs) \<and> chain h (head # xs @ [head])"

lemma next_set [simp]:
  "lnext (set_next a v h b) = (if b = a then v else lnext (h b))"
  "lnext (set_prev a v h b) = lnext (h b)"
  "lprev (set_next a v h b) = lprev (h b)"
  "lprev (set_prev a v h b) = (if b = a then v else lprev (h b))"
  by (simp_all add: set_next_def set_prev_def)

lemma set_other [simp]:
  "b \<noteq> a \<Longrightarrow> set_next a v h b = h b" "b \<noteq> a \<Longrightarrow> set_prev a v h b = h b"
  by (simp_all add: set_next_def set_prev_def)

lemma chain_append: "chain h (xs @ y # ys) \<longleftrightarrow> chain h (xs @ [y]) \<and> chain h (y # ys)"
  by (induction h xs rule: chain.induct) (auto simp: neq_Nil_conv split: list.splits)

lemma chain_cong:
  assumes "chain h xs" "\<And>x. x \<in> set (butlast xs) \<Longrightarrow> lnext (h' x) = lnext (h x)"
    "\<And>x. x \<in> set (tl xs) \<Longrightarrow> lprev (h' x) = lprev (h x)"
  shows "chain h' xs"
  using assms by (induction h xs rule: chain.induct) (auto split: if_splits)

lemma dlist_cong:
  assumes "dlist h head xs" "\<And>x. x \<in> insert head (set xs) \<Longrightarrow> h' x = h x"
  shows "dlist h' head xs"
proof -
  have "chain h' (head # xs @ [head])"
    by (rule chain_cong [of h]) (use assms in \<open>auto simp: dlist_def butlast_append\<close>)
  with assms(1) show ?thesis by (simp add: dlist_def)
qed

lemma dlist_empty_iff: "dlist h head xs \<Longrightarrow> lnext (h head) = head \<longleftrightarrow> xs = []"
  by (cases xs) (auto simp: dlist_def)

lemma dlist_first: "dlist h head (x # xs) \<Longrightarrow> lnext (h head) = x"
  by (simp add: dlist_def)

lemma dlist_last: "dlist h head (xs @ [x]) \<Longrightarrow> lprev (h head) = x"
  using chain_append [of h "head # xs" x "[head]"] by (simp add: dlist_def)

lemma dlist_prev_nil: "dlist h head [] \<Longrightarrow> lprev (h head) = head"
  by (simp add: dlist_def)

lemma dlist_init: "dlist (INIT_LIST_HEAD l h) l []"
  by (simp add: dlist_def INIT_LIST_HEAD_def)

lemma INIT_LIST_HEAD_other: "x \<noteq> l \<Longrightarrow> INIT_LIST_HEAD l h x = h x"
  by (simp add: INIT_LIST_HEAD_def)

lemma chain_join:
  "chain h (as @ [a]) \<Longrightarrow> chain h (b # bs) \<Longrightarrow> lnext (h a) = b \<Longrightarrow> lprev (h b) = a
   \<Longrightarrow> chain h (as @ a # b # bs)"
  using chain_append [of h as a "b # bs"] by simp

text \<open>Linking a new node between two neighbours of a chain, and unlinking one.\<close>

lemma chain_insert:
  assumes "chain h (xs @ a # b # ys)" "n \<notin> set (xs @ a # b # ys)"
    "distinct (xs @ [a])" "distinct (b # ys)" "a \<notin> set (butlast (b # ys))" "b \<notin> set (tl (xs @ [a]))"
  shows "chain (list_add_between n a b h) (xs @ a # n # b # ys)"
proof -
  let ?h = "list_add_between n a b h"
  have parts: "chain h (xs @ [a])" "chain h (b # ys)"
    using assms(1) chain_append [of h xs a "b # ys"] by auto
  have sub: "set (tl (xs @ [a])) \<subseteq> set (xs @ [a])" by (cases xs) auto
  have "chain ?h (xs @ [a])"
  proof (rule chain_cong [OF parts(1)])
    fix x assume "x \<in> set (butlast (xs @ [a]))"
    then show "lnext (?h x) = lnext (h x)" using assms by (auto simp: list_add_between_def)
  next
    fix x assume x: "x \<in> set (tl (xs @ [a]))"
    with sub have "x \<in> set (xs @ [a])" by blast
    with x show "lprev (?h x) = lprev (h x)" using assms by (auto simp: list_add_between_def)
  qed
  moreover have "chain ?h (b # ys)"
    by (rule chain_cong [OF parts(2)]) (use assms in \<open>auto simp: list_add_between_def dest: in_set_butlastD split: if_splits\<close>)
  moreover have "lnext (?h a) = n" "lprev (?h n) = a" "lnext (?h n) = b" "lprev (?h b) = n"
    using assms(2) by (auto simp: list_add_between_def)
  ultimately show ?thesis
    using chain_append [of ?h xs a "n # b # ys"] by simp
qed

lemma chain_remove:
  assumes "chain h (xs @ a # n # b # ys)" 
    "a \<notin> set xs" "b \<notin> set ys" "a \<notin> set (butlast (b # ys))" "b \<notin> set (tl (xs @ [a]))"
  shows "chain (list_del_between a b h) (xs @ a # b # ys)"
proof -
  let ?h = "list_del_between a b h"
  have parts: "chain h (xs @ [a])" "chain h (b # ys)"
    using assms(1) chain_append [of h xs a "n # b # ys"] by auto
  have "chain ?h (xs @ [a])"
    by (rule chain_cong [OF parts(1)]) (use assms in \<open>auto simp: list_del_between_def butlast_append\<close>)
  moreover have "chain ?h (b # ys)"
    by (rule chain_cong [OF parts(2)]) (use assms in \<open>auto simp: list_del_between_def split: if_splits\<close>)
  ultimately show ?thesis
    using chain_append [of ?h xs a "b # ys"] by (simp add: list_del_between_def)
qed

section \<open>The operations on rings\<close>

lemma list_add_tail_dlist:
  assumes "dlist h head xs" "n \<notin> insert head (set xs)"
  shows "dlist (list_add_tail n head h) head (xs @ [n])"
proof (cases xs rule: rev_cases)
  case Nil
  with assms chain_insert [of h "[]" head head "[]" n] show ?thesis
    by (simp add: dlist_def list_add_tail_def)
next
  case (snoc ys y)
  then have y: "lprev (h head) = y" using assms(1) by (simp add: dlist_last)
  have "chain (list_add_between n y head h) ((head # ys) @ y # n # head # [])"
    by (rule chain_insert) (use assms snoc in \<open>auto simp: dlist_def\<close>)
  with assms snoc y show ?thesis by (auto simp: dlist_def list_add_tail_def)
qed

lemma list_add_dlist:
  assumes "dlist h head xs" "n \<notin> insert head (set xs)"
  shows "dlist (list_add n head h) head (n # xs)"
proof (cases xs)
  case Nil
  with assms chain_insert [of h "[]" head head "[]" n] show ?thesis
    by (simp add: dlist_def list_add_def)
next
  case (Cons y ys)
  then have y: "lnext (h head) = y" using assms(1) by (simp add: dlist_first)
  have "chain (list_add_between n head y h) ([] @ head # n # y # ys @ [head])"
    by (rule chain_insert) (use assms Cons in \<open>auto simp: dlist_def butlast_append\<close>)
  with assms Cons y show ?thesis by (auto simp: dlist_def list_add_def)
qed

lemma list_add_tail_frame:
  "dlist h head xs \<Longrightarrow> z \<notin> insert n (insert head (set xs)) \<Longrightarrow> list_add_tail n head h z = h z"
  by (cases xs rule: rev_cases)
    (auto simp: list_add_tail_def list_add_between_def dlist_last dlist_prev_nil)

text \<open>Only the head of a ring is removed by the code (the free list is a queue).\<close>

lemma list_del_first_dlist:
  assumes "dlist h head (x # xs)"
  shows "dlist (list_del x h) head xs" "lnext (list_del x h x) = 0" "lprev (list_del x h x) = 0"
proof -
  have d: "distinct (head # x # xs)" using assms by (simp add: dlist_def)
  have px: "lprev (h x) = head" using assms by (simp add: dlist_def)
  obtain y ys where y: "xs @ [head] = y # ys" by (cases xs) auto
  with assms have nx: "lnext (h x) = y" by (simp add: dlist_def)
  have "chain h ([] @ head # x # y # ys)" using assms y by (simp add: dlist_def)
  moreover have "head \<notin> set (butlast (y # ys))" "y \<notin> set ys"
    using d unfolding y [symmetric] by (cases xs; use y in auto)+
  ultimately have "chain (list_del_between head y h) ([] @ head # y # ys)"
    by (intro chain_remove) auto
  then have c: "chain (list_del_between head y h) (head # xs @ [head])"
    using y by simp
  have "chain (list_del x h) (head # xs @ [head])"
    by (rule chain_cong [OF c]) (use d px nx in \<open>auto simp: list_del_def butlast_append\<close>)
  with d show "dlist (list_del x h) head xs" by (simp add: dlist_def)
  show "lnext (list_del x h x) = 0" "lprev (list_del x h x) = 0"
    by (simp_all add: list_del_def)
qed

lemma list_del_first_frame:
  assumes "dlist h head (x # xs)" "z \<notin> insert head (set (x # xs))"
  shows "list_del x h z = h z"
  using assms by (cases xs) (auto simp: list_del_def list_del_between_def dlist_def)

text \<open>Splicing empties the source ring and appends its nodes, in order, to the target ring.\<close>

lemma list_splice_tail_dlist:
  assumes src: "dlist h l xs" and dst: "dlist h head ys"
    and dis: "insert l (set xs) \<inter> insert head (set ys) = {}"
  shows "dlist (list_splice_tail l head h) head (ys @ xs)" "dlist (list_splice_tail l head h) l []"
proof -
  have goal: "dlist (list_splice_tail l head h) head (ys @ xs) \<and> dlist (list_splice_tail l head h) l []"
  proof (cases "xs = []")
    case True
    then have "list_splice_tail l head h = h"
      using src by (simp add: list_splice_tail_def dlist_def)
    with True assms show ?thesis by simp
  next
    case False
    obtain x xs' where x: "xs = x # xs'" using False by (cases xs) auto
    obtain zs z where z: "xs = zs @ [z]" using False by (cases xs rule: rev_cases) auto
    obtain ws w where w: "head # ys = ws @ [w]" by (cases "head # ys" rule: rev_cases) auto
    have fx: "lnext (h l) = x" using src x by (simp add: dlist_def)
    have lz: "lprev (h l) = z" using src z by (simp add: dlist_last)
    have tw: "lprev (h head) = w"
      using dst w by (cases ys rule: rev_cases) (auto simp: dlist_last dlist_prev_nil)
    have dw: "distinct (ws @ [w])" unfolding w [symmetric] using dst by (simp add: dlist_def)
    have ww: "insert w (set ws) = insert head (set ys)" using arg_cong [OF w, of set] by simp
    have dx: "distinct xs" "l \<notin> set xs" "head \<notin> set ys" "l \<noteq> head"
      using src dst dis by (auto simp: dlist_def)
    have zx: "insert z (set zs) = set xs" unfolding z by simp
    have xx: "insert x (set xs') = set xs" unfolding x by simp
    have notin: "x \<notin> set xs'" "w \<notin> set ws" using dx dw x by auto
    have zz: "z \<notin> set zs" using dx(1) unfolding z by simp
    have ne: "x \<noteq> l" using dx xx by blast
    define h' where "h' = list_splice_tail l head h"
    have upd: "h' = set_prev l l (set_next l l (set_prev head z (set_next z head
                 (set_next w x (set_prev x w h)))))"
      unfolding h'_def list_splice_tail_def Let_def fx lz tw using ne by simp
    have "chain h (ws @ w # [head])"
      using dst w unfolding dlist_def by (metis append.assoc append_Cons append_Nil)
    then have c1: "chain h (ws @ [w])" using chain_append [of h ws w "[head]"] by simp
    have "chain h (l # xs @ [l])" using src by (simp add: dlist_def)
    then have "chain h (x # xs' @ [l])" using x by simp
    then have "chain h (zs @ z # [l])" using x z by (metis append.assoc append_Cons append_Nil)
    then have c2: "chain h (zs @ [z])" using chain_append [of h zs z "[l]"] by simp
    have out: "z \<notin> set ws" "l \<notin> set ws" "w \<notin> set zs" "l \<notin> set zs" "x \<notin> set ys" "l \<notin> set ys"
      using dis dx zx xx ww by blast+
    have wsb: "set (butlast (ws @ [w])) = set ws" "set (tl (ws @ [w])) = set ys"
      unfolding w [symmetric] by (simp_all add: w) (simp flip: w)
    have zsb: "set (butlast (zs @ [z])) = set zs" "set (tl (zs @ [z])) = set xs'"
      unfolding z [symmetric] by (simp_all add: z) (simp add: x flip: z)
    have hx: "head \<notin> set xs'" "l \<notin> set xs'" using dis dx xx by blast+
    have c1': "chain h' (ws @ [w])"
      by (rule chain_cong [OF c1]; unfold wsb) (use out notin zz dx in \<open>auto simp: upd\<close>)
    have c2': "chain h' (zs @ [z])"
      by (rule chain_cong [OF c2]; unfold zsb) (use out notin zz dx hx in \<open>auto simp: upd\<close>)
    have ne2: "x \<noteq> head" "w \<noteq> z" "w \<noteq> l" "z \<noteq> l" "x \<noteq> l" "z \<noteq> w"
      using dis dx zx xx ww by blast+
    have links: "lnext (h' w) = x" "lprev (h' x) = w" "lnext (h' z) = head" "lprev (h' head) = z"
      "lnext (h' l) = l" "lprev (h' l) = l"
      using ne2 dx by (auto simp: upd)
    have c3: "chain h' (x # xs' @ [head])"
    proof -
      have "chain h' (zs @ z # [head])" by (rule chain_join [OF c2']) (use links in auto)
      then have "chain h' (xs @ [head])" unfolding z by simp
      then show ?thesis unfolding x by simp
    qed
    have "chain h' (ws @ w # x # xs' @ [head])"
      by (rule chain_join [OF c1' c3]) (use links in auto)
    then have "chain h' (head # ys @ xs @ [head])"
      using w x by (metis append.assoc append_Cons append_Nil)
    moreover have "distinct (head # ys @ xs)" using dis dx dst by (auto simp: dlist_def)
    ultimately show ?thesis using links unfolding h'_def [symmetric] by (simp add: dlist_def)
  qed
  then show "dlist (list_splice_tail l head h) head (ys @ xs)" "dlist (list_splice_tail l head h) l []"
    by auto
qed

text \<open>Splicing moves a ring: after \<open>list_splice_tail\<close> the target ring holds its own elements and then
  the elements of the source ring, in order, and the source ring is empty, provided that the two rings
  share no node.\<close>
theorem list_splice_tail_moves:
  assumes "dlist h l xs" "dlist h head ys" "insert l (set xs) \<inter> insert head (set ys) = {}"
  shows "dlist (list_splice_tail l head h) head (ys @ xs) \<and> dlist (list_splice_tail l head h) l []"
  using list_splice_tail_dlist [OF assms] by simp

definition two_rings :: store where
  "two_rings = (\<lambda>a. if a = 0x10 then \<lparr>lnext = 0x14, lprev = 0x18\<rparr> else if a = 0x14 then \<lparr>lnext = 0x18, lprev = 0x10\<rparr>
     else if a = 0x18 then \<lparr>lnext = 0x10, lprev = 0x14\<rparr> else if a = 0x20 then \<lparr>lnext = 0x24, lprev = 0x24\<rparr>
     else \<lparr>lnext = 0x20, lprev = 0x20\<rparr>)"

theorem list_splice_tail_moves_witness:
  "dlist (list_splice_tail 0x10 0x20 two_rings) 0x20 [0x24, 0x14, 0x18] \<and> dlist (list_splice_tail 0x10 0x20 two_rings) 0x10 []"
proof -
  have "dlist two_rings 0x10 [0x14, 0x18]" "dlist two_rings 0x20 [0x24]" by (simp_all add: dlist_def two_rings_def)
  from list_splice_tail_moves [OF this] show ?thesis by simp
qed

end
