(* ===== verification/Kalloc.thy ===== *)
theory Kalloc
  imports LinkedList
begin

text \<open>
  The size-class allocator of lib/src/mem.c (\<open>kalloc\<close>, \<open>kfree\<close>, \<open>kalloc_init\<close> are the macro names
  lib/include/mem.h gives its three functions). A class has an arena and a bump pointer; freed
  blocks are linked through their own first bytes into the ring of the class, whose sentinel sits
  in the static array \<open>size_classes\<close>. The address of that array is fixed by the linker, so it is the
  field \<open>sc_base\<close> of the state, which no operation changes.
\<close>

record size_class =
  block_size :: u32
  arena_start :: u32
  arena_end :: u32
  current :: u32

record kalloc_state =
  size_classes :: "size_class list"
  heap :: store
  sc_base :: u32

definition NUM_SIZE_CLASSES :: nat where "NUM_SIZE_CLASSES = 21"

definition ALIGNED_ALLOC_BASE :: u32 where "ALIGNED_ALLOC_BASE = 0xC1010000"

definition BLOCKS_PER_ARENA :: u32 where "BLOCKS_PER_ARENA = 8192"

definition size_class_sizes :: "u32 list" where
  "size_class_sizes =
     [16, 32, 64, 128, 256, 512, 1024, 2048, 4096, 8192, 16384, 32768, 65536, 131072, 262144,
      524288, 1048576, 1048576 * 2, 1048576 * 4, 1048576 * 8, 1048576 * 16]"

definition size_class_arena_sizes :: "u32 list" where
  "size_class_arena_sizes =
     [16 * BLOCKS_PER_ARENA, 32 * BLOCKS_PER_ARENA, 64 * BLOCKS_PER_ARENA, 128 * BLOCKS_PER_ARENA,
      256 * BLOCKS_PER_ARENA, 512 * BLOCKS_PER_ARENA, 1024 * BLOCKS_PER_ARENA,
      2048 * BLOCKS_PER_ARENA, push_bit 1 (4096 * BLOCKS_PER_ARENA),
      drop_bit 3 (8192 * BLOCKS_PER_ARENA), drop_bit 3 (16384 * BLOCKS_PER_ARENA),
      32768 * 4, 65536 * 4, 131072 * 4, 262144 * 4, 524288 * 4, 1048576 * 4, 1048576 * 2 * 2,
      1048576 * 4 * 2, 1048576 * 8 * 2, 1048576 * 16 * 2]"

text \<open>\<open>&size_classes[i].freelist.free_list\<close>: entries of 24 bytes, the ring head at offset 16.\<close>

definition freelist_addr :: "u32 \<Rightarrow> nat \<Rightarrow> u32" where
  "freelist_addr base i = base + 24 * of_nat i + 16"

fun kalloc_init_loop :: "nat \<Rightarrow> u32 \<Rightarrow> (u32 \<times> u32) list \<Rightarrow> kalloc_state \<Rightarrow> kalloc_state" where
  "kalloc_init_loop i base [] s = s"
| "kalloc_init_loop i base ((bs, asz) # rest) s =
     (let c = \<lparr>block_size = bs, arena_start = base, arena_end = base + asz, current = base\<rparr>
      in kalloc_init_loop (Suc i) (arena_end c) rest
           (s\<lparr>size_classes := (size_classes s) @ [c],
              heap := INIT_LIST_HEAD (freelist_addr (sc_base s) i) (heap s)\<rparr>))"

definition kalloc_init :: "kalloc_state \<Rightarrow> kalloc_state" where
  "kalloc_init s = kalloc_init_loop 0 ALIGNED_ALLOC_BASE
     (zip size_class_sizes size_class_arena_sizes) (s\<lparr>size_classes := []\<rparr>)"

fun find_class :: "u32 \<Rightarrow> size_class list \<Rightarrow> nat option" where
  "find_class sz [] = None"
| "find_class sz (c # cs) =
     (if sz \<le> block_size c then Some 0 else map_option Suc (find_class sz cs))"

text \<open>
  \<open>None\<close> is the reboot on an oversized request; \<open>Some (0, s)\<close> is the null pointer of an
  exhausted class.
\<close>

definition kalloc :: "u32 \<Rightarrow> kalloc_state \<Rightarrow> (u32 \<times> kalloc_state) option" where
  "kalloc sz s =
     (case find_class sz (size_classes s) of
        None \<Rightarrow> None
      | Some i \<Rightarrow>
          (let sc = size_classes s ! i; fl = freelist_addr (sc_base s) i in
           if lnext (heap s fl) \<noteq> fl then
             (let entry = lnext (heap s fl) in Some (entry, s\<lparr>heap := list_del entry (heap s)\<rparr>))
           else if current sc + block_size sc \<le> arena_end sc then
             Some (current sc,
               s\<lparr>size_classes := (size_classes s)[i := sc\<lparr>current := current sc + block_size sc\<rparr>]\<rparr>)
           else Some (0, s)))"

fun find_arena :: "u32 \<Rightarrow> size_class list \<Rightarrow> nat option" where
  "find_arena a [] = None"
| "find_arena a (c # cs) =
     (if arena_start c \<le> a \<and> a < arena_end c then Some 0 else map_option Suc (find_arena a cs))"

definition kfree :: "u32 \<Rightarrow> kalloc_state \<Rightarrow> kalloc_state" where
  "kfree ptr s =
     (case find_arena ptr (size_classes s) of
        None \<Rightarrow> s
      | Some i \<Rightarrow>
          (let sc = size_classes s ! i in
           if (ptr - arena_start sc) mod block_size sc \<noteq> 0 then s
           else s\<lparr>heap := list_add_tail ptr (freelist_addr (sc_base s) i) (heap s)\<rparr>))"

section \<open>The layout of the arenas\<close>

definition boot_classes :: "size_class list" where
  "boot_classes = size_classes (kalloc_init \<lparr>size_classes = [], heap = \<lambda>_. \<lparr>lnext = 0, lprev = 0\<rparr>, sc_base = 0\<rparr>)"

lemma boot_classes_eval: "boot_classes =
  [\<lparr>block_size = 16, arena_start = 0xC1010000, arena_end = 0xC1030000, current = 0xC1010000\<rparr>,
   \<lparr>block_size = 32, arena_start = 0xC1030000, arena_end = 0xC1070000, current = 0xC1030000\<rparr>,
   \<lparr>block_size = 64, arena_start = 0xC1070000, arena_end = 0xC10F0000, current = 0xC1070000\<rparr>,
   \<lparr>block_size = 128, arena_start = 0xC10F0000, arena_end = 0xC11F0000, current = 0xC10F0000\<rparr>,
   \<lparr>block_size = 256, arena_start = 0xC11F0000, arena_end = 0xC13F0000, current = 0xC11F0000\<rparr>,
   \<lparr>block_size = 512, arena_start = 0xC13F0000, arena_end = 0xC17F0000, current = 0xC13F0000\<rparr>,
   \<lparr>block_size = 1024, arena_start = 0xC17F0000, arena_end = 0xC1FF0000, current = 0xC17F0000\<rparr>,
   \<lparr>block_size = 2048, arena_start = 0xC1FF0000, arena_end = 0xC2FF0000, current = 0xC1FF0000\<rparr>,
   \<lparr>block_size = 4096, arena_start = 0xC2FF0000, arena_end = 0xC6FF0000, current = 0xC2FF0000\<rparr>,
   \<lparr>block_size = 8192, arena_start = 0xC6FF0000, arena_end = 0xC77F0000, current = 0xC6FF0000\<rparr>,
   \<lparr>block_size = 16384, arena_start = 0xC77F0000, arena_end = 0xC87F0000, current = 0xC77F0000\<rparr>,
   \<lparr>block_size = 32768, arena_start = 0xC87F0000, arena_end = 0xC8810000, current = 0xC87F0000\<rparr>,
   \<lparr>block_size = 65536, arena_start = 0xC8810000, arena_end = 0xC8850000, current = 0xC8810000\<rparr>,
   \<lparr>block_size = 131072, arena_start = 0xC8850000, arena_end = 0xC88D0000, current = 0xC8850000\<rparr>,
   \<lparr>block_size = 262144, arena_start = 0xC88D0000, arena_end = 0xC89D0000, current = 0xC88D0000\<rparr>,
   \<lparr>block_size = 524288, arena_start = 0xC89D0000, arena_end = 0xC8BD0000, current = 0xC89D0000\<rparr>,
   \<lparr>block_size = 1048576, arena_start = 0xC8BD0000, arena_end = 0xC8FD0000, current = 0xC8BD0000\<rparr>,
   \<lparr>block_size = 2097152, arena_start = 0xC8FD0000, arena_end = 0xC93D0000, current = 0xC8FD0000\<rparr>,
   \<lparr>block_size = 4194304, arena_start = 0xC93D0000, arena_end = 0xC9BD0000, current = 0xC93D0000\<rparr>,
   \<lparr>block_size = 8388608, arena_start = 0xC9BD0000, arena_end = 0xCABD0000, current = 0xC9BD0000\<rparr>,
   \<lparr>block_size = 16777216, arena_start = 0xCABD0000, arena_end = 0xCCBD0000, current = 0xCABD0000\<rparr>]"
  by (simp add: boot_classes_def kalloc_init_def size_class_sizes_def size_class_arena_sizes_def
      BLOCKS_PER_ARENA_def ALIGNED_ALLOC_BASE_def Let_def)

definition layout_ok :: "size_class \<Rightarrow> bool" where
  "layout_ok c \<longleftrightarrow> 16 \<le> block_size c \<and> block_size c \<le> 0x1000000 \<and> 0xC1010000 \<le> arena_start c
     \<and> arena_start c < arena_end c \<and> arena_end c \<le> 0xCCBD0000
     \<and> (arena_end c - arena_start c) mod block_size c = 0"

lemma boot_layout: "list_all layout_ok boot_classes"
  by (simp add: boot_classes_eval layout_ok_def)

lemma boot_sorted: "sorted_wrt (\<lambda>c d. arena_end c \<le> arena_start d \<and> block_size c < block_size d) boot_classes"
  by (simp add: boot_classes_eval)

section \<open>The invariant\<close>

text \<open>
  \<open>used c\<close> are the blocks of a class handed out at least once (below the bump pointer). Ghost
  state: \<open>fl i\<close> is the free queue of class \<open>i\<close>, \<open>live\<close> the blocks owned by callers. Every used
  block is in exactly one of the two, and every ring of the store is the queue of its class.
\<close>

definition used :: "size_class \<Rightarrow> u32 set" where
  "used c = {p. arena_start c \<le> p \<and> p < current c
     \<and> unat (block_size c) dvd unat (p - arena_start c)}"

definition static :: "size_class \<Rightarrow> u32 \<times> u32 \<times> u32" where
  "static c = (block_size c, arena_start c, arena_end c)"

definition cur_ok :: "size_class \<Rightarrow> bool" where
  "cur_ok c \<longleftrightarrow> arena_start c \<le> current c \<and> current c \<le> arena_end c
     \<and> unat (block_size c) dvd unat (current c - arena_start c)"

definition classes_ok :: "kalloc_state \<Rightarrow> bool" where
  "classes_ok s \<longleftrightarrow> map static (size_classes s) = map static boot_classes
     \<and> unat (sc_base s) + 504 \<le> 0xC1010000 \<and> (\<forall>c \<in> set (size_classes s). cur_ok c)"

abbreviation cls :: "kalloc_state \<Rightarrow> nat \<Rightarrow> size_class" where
  "cls s i \<equiv> size_classes s ! i"

abbreviation fhead :: "kalloc_state \<Rightarrow> nat \<Rightarrow> u32" where
  "fhead s i \<equiv> freelist_addr (sc_base s) i"

definition kinv :: "kalloc_state \<Rightarrow> (nat \<Rightarrow> u32 list) \<Rightarrow> u32 set \<Rightarrow> bool" where
  "kinv s fl live \<longleftrightarrow> classes_ok s
     \<and> (\<forall>i < 21. dlist (heap s) (fhead s i) (fl i)
          \<and> set (fl i) \<subseteq> used (cls s i) \<and> set (fl i) \<inter> live = {}
          \<and> used (cls s i) \<subseteq> set (fl i) \<union> live)
     \<and> live \<subseteq> (\<Union>i < 21. used (cls s i))"

lemma kinv_class:
  assumes "kinv s fl live" "i < 21"
  shows "dlist (heap s) (fhead s i) (fl i)" "set (fl i) \<subseteq> used (cls s i)"
    "set (fl i) \<inter> live = {}" "used (cls s i) \<subseteq> set (fl i) \<union> live"
  using assms by (simp_all add: kinv_def)

lemma length_boot [simp]: "length boot_classes = 21"
  by (simp add: boot_classes_eval)

lemma classes_ok_length: "classes_ok s \<Longrightarrow> length (size_classes s) = 21"
  unfolding classes_ok_def by (metis length_boot length_map)

lemma static_boot:
  assumes "classes_ok s" "i < 21"
  shows "block_size (cls s i) = block_size (boot_classes ! i)"
    "arena_start (cls s i) = arena_start (boot_classes ! i)"
    "arena_end (cls s i) = arena_end (boot_classes ! i)"
proof -
  have "map static (size_classes s) ! i = map static boot_classes ! i"
    using assms(1) by (simp add: classes_ok_def)
  then have "static (cls s i) = static (boot_classes ! i)"
    using assms classes_ok_length [OF assms(1)] by simp
  then show "block_size (cls s i) = block_size (boot_classes ! i)"
    "arena_start (cls s i) = arena_start (boot_classes ! i)"
    "arena_end (cls s i) = arena_end (boot_classes ! i)"
    by (simp_all add: static_def)
qed

lemma class_layout: "classes_ok s \<Longrightarrow> i < 21 \<Longrightarrow> layout_ok (cls s i)"
  using boot_layout by (simp add: layout_ok_def static_boot list_all_length)

lemma class_cur_ok: "classes_ok s \<Longrightarrow> i < 21 \<Longrightarrow> cur_ok (cls s i)"
  using classes_ok_length [of s] by (simp add: classes_ok_def)

lemma class_sorted:
  "classes_ok s \<Longrightarrow> i < j \<Longrightarrow> j < 21 \<Longrightarrow>
   arena_end (cls s i) \<le> arena_start (cls s j) \<and> block_size (cls s i) < block_size (cls s j)"
  using boot_sorted by (simp add: static_boot sorted_wrt_iff_nth_less)

lemma used_in_arena:
  "classes_ok s \<Longrightarrow> i < 21 \<Longrightarrow> p \<in> used (cls s i) \<Longrightarrow>
   arena_start (cls s i) \<le> p \<and> p < arena_end (cls s i)"
  using class_cur_ok [of s i] by (auto simp: used_def cur_ok_def)

lemma used_disjoint:
  assumes "classes_ok s" "i < 21" "j < 21" "p \<in> used (cls s i)" "p \<in> used (cls s j)"
  shows "i = j"
proof (rule ccontr)
  assume "i \<noteq> j"
  then consider "i < j" | "j < i" by linarith
  then show False
    using class_sorted [OF assms(1)] used_in_arena [OF assms(1)] assms(2-)
    by cases (meson leD le_less_trans less_le_trans)+
qed

lemma freelist_addr_unat:
  assumes "unat base + 504 \<le> 0xC1010000" "i < 21"
  shows "unat (freelist_addr base i) = unat base + 24 * i + 16"
proof -
  have "unat (24 * of_nat i :: u32) = 24 * i"
    using assms(2) unat_mult_no_wrap [of 24 "of_nat i"] by (simp add: unat_of_nat_u32)
  then have "unat (base + 24 * of_nat i) = unat base + 24 * i"
    using assms by (subst unat_add_no_wrap) simp_all
  then show ?thesis
    unfolding freelist_addr_def using assms by (subst unat_add_no_wrap) simp_all
qed

lemma fhead_facts:
  assumes "classes_ok s" "i < 21"
  shows "fhead s i < 0xC1010000" "j < 21 \<Longrightarrow> fhead s i = fhead s j \<Longrightarrow> i = j"
  using assms freelist_addr_unat [of "sc_base s"]
  by (auto simp: classes_ok_def word_less_nat_alt u32_eq_nat_iff)

lemma fhead_not_used: "classes_ok s \<Longrightarrow> i < 21 \<Longrightarrow> j < 21 \<Longrightarrow> fhead s i \<notin> used (cls s j)"
  using fhead_facts(1) [of s i] class_layout [of s j]
  by (fastforce simp: layout_ok_def used_def)

lemma rings_disjoint:
  assumes "kinv s fl live" "i < 21" "j < 21" "i \<noteq> j" "x \<in> insert (fhead s j) (set (fl j))"
  shows "x \<notin> insert (fhead s i) (set (fl i))"
proof -
  have ok: "classes_ok s" and sub: "set (fl i) \<subseteq> used (cls s i)" "set (fl j) \<subseteq> used (cls s j)"
    using assms(1-3) by (auto simp: kinv_def)
  then show ?thesis
    using assms(2-) fhead_not_used [OF ok] fhead_facts(2) [OF ok] used_disjoint [OF ok]
    by blast
qed

section \<open>Allocation\<close>

lemma find_class_Some:
  "find_class sz cs = Some i \<Longrightarrow> i < length cs \<and> sz \<le> block_size (cs ! i)
     \<and> (\<forall>j < i. block_size (cs ! j) < sz)"
proof (induction cs arbitrary: i)
  case Nil
  then show ?case by simp
next
  case (Cons c cs)
  show ?case
  proof (cases "sz \<le> block_size c")
    case True
    with Cons.prems show ?thesis by simp
  next
    case False
    with Cons.prems obtain k where k: "i = Suc k" "find_class sz cs = Some k" by auto
    with Cons.IH [OF k(2)] False show ?thesis by (auto simp: less_Suc_eq_0_disj)
  qed
qed

lemma find_class_None: "find_class sz cs = None \<longleftrightarrow> (\<forall>c \<in> set cs. block_size c < sz)"
  by (induction cs) auto

lemma multiple_below:
  assumes "(d :: nat) dvd m" "d dvd k" "k < m + d"
  shows "k \<le> m"
proof -
  obtain a where a: "m = d * a" using assms(1) by (rule dvdE)
  obtain b where b: "k = d * b" using assms(2) by (rule dvdE)
  have "d * b < d * Suc a" using assms(3) a b by simp
  then have "b < Suc a" by (rule mult_less_cancel1 [THEN iffD1, THEN conjunct2])
  with a b show ?thesis by simp
qed

lemma used_bump:
  assumes "layout_ok c" "cur_ok c" "current c + block_size c \<le> arena_end c"
  shows "used (c\<lparr>current := current c + block_size c\<rparr>) = insert (current c) (used c)"
    "current c \<notin> used c" "cur_ok (c\<lparr>current := current c + block_size c\<rparr>)"
proof -
  have b: "unat (current c) \<le> 0xCCBD0000" "unat (block_size c) \<le> 0x1000000" "block_size c \<noteq> 0"
    "unat (arena_start c) \<le> unat (current c)" "arena_start c \<le> current c"
    using assms by (auto simp: layout_ok_def cur_ok_def word_le_nat_alt)
  have nw: "unat (current c + block_size c) = unat (current c) + unat (block_size c)"
    using b by (intro unat_add_no_wrap) simp
  then have le: "current c < current c + block_size c"
    using b(3) by (simp add: word_less_nat_alt unat_gt_0)
  have sub: "unat (current c - arena_start c) = unat (current c) - unat (arena_start c)"
    using b(5) by (rule unat_sub_le)
  have cm: "unat (block_size c) dvd unat (current c - arena_start c)"
    using assms(2) by (simp add: cur_ok_def)
  show "current c \<notin> used c" by (simp add: used_def)
  have step: "p = current c \<or> p < current c"
    if p: "arena_start c \<le> p" "p < current c + block_size c" "unat (block_size c) dvd unat (p - arena_start c)" for p
  proof -
    have ps: "unat (p - arena_start c) = unat p - unat (arena_start c)" using p(1) by (rule unat_sub_le)
    then have "unat (p - arena_start c) < unat (current c - arena_start c) + unat (block_size c)"
      using p(1,2) b(4) sub nw by (simp add: word_less_nat_alt word_le_nat_alt)
    with cm p(3) have "unat (p - arena_start c) \<le> unat (current c - arena_start c)"
      by (rule multiple_below)
    then have "unat p \<le> unat (current c)" using ps sub p(1) b(4) by (simp add: word_le_nat_alt)
    then show ?thesis by (auto simp: word_less_nat_alt u32_eq_nat_iff)
  qed
  show "used (c\<lparr>current := current c + block_size c\<rparr>) = insert (current c) (used c)"
    using step le b(5) cm by (force simp: used_def)
  have "unat (current c + block_size c - arena_start c) = unat (current c - arena_start c) + unat (block_size c)"
    using unat_sub_le [of "arena_start c" "current c + block_size c"] le b(4,5) nw sub by simp
  then show "cur_ok (c\<lparr>current := current c + block_size c\<rparr>)"
    using assms(3) le b(5) cm by (simp add: cur_ok_def)
qed

text \<open>Which class serves a request: the smallest that is large enough.\<close>

lemma find_class_boot:
  assumes "classes_ok s" "sz \<le> 0x1000000"
  obtains i where "find_class sz (size_classes s) = Some i" "i < 21" "sz \<le> block_size (cls s i)"
    "\<And>j. j < i \<Longrightarrow> block_size (cls s j) < sz"
proof (cases "find_class sz (size_classes s)")
  case None
  have "length (size_classes s) = 21" by (rule classes_ok_length [OF assms(1)])
  then have "cls s 20 \<in> set (size_classes s)" by (intro nth_mem) simp
  moreover have "\<forall>c \<in> set (size_classes s). block_size c < sz"
    using None by (simp only: find_class_None)
  moreover have "block_size (cls s 20) = 0x1000000"
    using static_boot(1) [OF assms(1), of 20] by (simp add: boot_classes_eval)
  ultimately have "0x1000000 < sz" by metis
  with assms(2) show ?thesis by simp
next
  case (Some i)
  then have "i < 21" "sz \<le> block_size (cls s i)" "\<forall>j < i. block_size (cls s j) < sz"
    using find_class_Some [OF Some] unfolding classes_ok_length [OF assms(1)] by blast+
  with Some that show ?thesis by blast
qed

lemma classes_ok_bump:
  assumes "classes_ok s" "i < 21" "current (cls s i) + block_size (cls s i) \<le> arena_end (cls s i)"
  shows "classes_ok (s\<lparr>size_classes := (size_classes s)[i := (cls s i)\<lparr>current := current (cls s i) + block_size (cls s i)\<rparr>]\<rparr>)"
proof -
  let ?c = "(cls s i)\<lparr>current := current (cls s i) + block_size (cls s i)\<rparr>"
  have "static ?c = static (cls s i)" by (simp add: static_def)
  then have "map static ((size_classes s)[i := ?c]) = map static (size_classes s)"
    by (metis list_update_id map_update)
  moreover have "cur_ok ?c"
    by (rule used_bump(3)) (use assms class_layout class_cur_ok in auto)
  ultimately show ?thesis
    using assms(1) set_update_subset_insert [of "size_classes s" i ?c] by (auto simp: classes_ok_def)
qed

lemma kalloc_from_ring:
  assumes inv: "kinv s fl live" and i: "i < 21" and fl: "fl i = p # rest"
  shows "kinv (s\<lparr>heap := list_del p (heap s)\<rparr>) (fl(i := rest)) (insert p live)"
proof -
  have ring: "dlist (heap s) (fhead s i) (p # rest)" and ok: "classes_ok s"
    and sub: "set (p # rest) \<subseteq> used (cls s i)" and live: "live \<subseteq> (\<Union>i < 21. used (cls s i))"
    using inv i fl by (force simp: kinv_def)+
  have d: "p \<notin> set rest" using ring by (simp add: dlist_def)
  have other: "dlist (list_del p (heap s)) (fhead s j) (fl j)" if j: "j < 21" "j \<noteq> i" for j
  proof (rule dlist_cong)
    show "dlist (heap s) (fhead s j) (fl j)" using inv j by (simp add: kinv_def)
    fix x assume "x \<in> insert (fhead s j) (set (fl j))"
    then have "x \<notin> insert (fhead s i) (set (fl i))" using rings_disjoint [OF inv i] j by blast
    then show "list_del p (heap s) x = heap s x" using list_del_first_frame [OF ring] fl by simp
  qed
  have pn: "p \<notin> set (fl j)" if "j < 21" "j \<noteq> i" for j
    using rings_disjoint [OF inv i, of j] that fl by auto
  have each: "dlist (list_del p (heap s)) (fhead s j) ((fl(i := rest)) j)
      \<and> set ((fl(i := rest)) j) \<subseteq> used (cls s j) \<and> set ((fl(i := rest)) j) \<inter> insert p live = {}
      \<and> used (cls s j) \<subseteq> set ((fl(i := rest)) j) \<union> insert p live" if j: "j < 21" for j
  proof (cases "j = i")
    case True
    with d kinv_class(2-4) [OF inv i] list_del_first_dlist(1) [OF ring] show ?thesis
      unfolding fl by auto
  next
    case False
    with inv j pn [of j] other [of j] show ?thesis by (auto simp: kinv_def)
  qed
  have "insert p live \<subseteq> (\<Union>i < 21. used (cls s i))" using live sub i by auto
  with ok each show ?thesis by (simp add: kinv_def classes_ok_def)
qed

lemma kalloc_from_arena:
  assumes inv: "kinv s fl live" and i: "i < 21"
    and room: "current (cls s i) + block_size (cls s i) \<le> arena_end (cls s i)"
  defines "p \<equiv> current (cls s i)"
  defines "s' \<equiv> s\<lparr>size_classes := (size_classes s)[i := (cls s i)\<lparr>current := p + block_size (cls s i)\<rparr>]\<rparr>"
  shows "kinv s' fl (insert p live)" "p \<notin> live"
proof -
  have ok: "classes_ok s" and live: "live \<subseteq> (\<Union>i < 21. used (cls s i))" using inv by (auto simp: kinv_def)
  have lay: "layout_ok (cls s i)" "cur_ok (cls s i)" using ok i by (rule class_layout, intro class_cur_ok)
  note b = used_bump [OF lay room]
  have cls': "cls s' j = (if j = i then (cls s i)\<lparr>current := p + block_size (cls s i)\<rparr> else cls s j)"
    if "j < 21" for j
    using that classes_ok_length [OF ok] by (simp add: s'_def)
  have u: "used (cls s' j) = (if j = i then insert p (used (cls s i)) else used (cls s j))" if "j < 21" for j
    using that b(1) by (simp add: cls' p_def)
  have lo: "arena_start (cls s i) \<le> p" "p < arena_end (cls s i)"
  proof -
    show "arena_start (cls s i) \<le> p" using lay(2) by (simp add: p_def cur_ok_def)
    have "0 < unat (block_size (cls s i))" "unat (block_size (cls s i)) \<le> 0x1000000"
      "unat p \<le> 0xCCBD0000"
      using lay by (auto simp: layout_ok_def cur_ok_def p_def word_le_nat_alt)
    then have "unat p < unat (p + block_size (cls s i))" by (simp add: unat_add_no_wrap)
    with room show "p < arena_end (cls s i)"
      by (simp add: p_def word_less_nat_alt word_le_nat_alt)
  qed
  have pu: "p \<notin> used (cls s j)" if j: "j < 21" for j
  proof (cases "j = i")
    case True
    with b(2) show ?thesis by (simp add: p_def)
  next
    case False
    then consider "i < j" | "j < i" by linarith
    then show ?thesis
      using class_sorted [OF ok] used_in_arena [OF ok j] i j lo
      by cases (meson leD le_less_trans less_le_trans)+
  qed
  with live show pl: "p \<notin> live" by blast
  have "classes_ok s'" unfolding s'_def p_def by (rule classes_ok_bump [OF ok i room])
  moreover have "insert p live \<subseteq> (\<Union>i < 21. used (cls s' i))"
    using live i by (auto simp: u split: if_splits)
  moreover have "dlist (heap s') (fhead s' j) (fl j) \<and> set (fl j) \<subseteq> used (cls s' j)
      \<and> set (fl j) \<inter> insert p live = {} \<and> used (cls s' j) \<subseteq> set (fl j) \<union> insert p live"
    if j: "j < 21" for j
  proof -
    have "dlist (heap s) (fhead s j) (fl j) \<and> set (fl j) \<subseteq> used (cls s j) \<and> set (fl j) \<inter> live = {}
      \<and> used (cls s j) \<subseteq> set (fl j) \<union> live" using inv j by (simp add: kinv_def)
    moreover have "heap s' = heap s" "fhead s' j = fhead s j" by (simp_all add: s'_def)
    ultimately show ?thesis using pu [OF j] u [OF j] by (auto split: if_splits)
  qed
  ultimately show "kinv s' fl (insert p live)" by (simp add: kinv_def)
qed

text \<open>What a successful call does to the ghost state: pop the queue of the class, or bump it.\<close>

lemma kalloc_cases:
  assumes inv: "kinv s fl live" and res: "kalloc sz s = Some (p, s')"
  obtains (ring) i rest where "find_class sz (size_classes s) = Some i" "i < 21" "fl i = p # rest"
      "s' = s\<lparr>heap := list_del p (heap s)\<rparr>"
  | (arena) i where "find_class sz (size_classes s) = Some i" "i < 21" "fl i = []"
      "p = current (cls s i)" "current (cls s i) + block_size (cls s i) \<le> arena_end (cls s i)"
      "s' = s\<lparr>size_classes := (size_classes s)[i := (cls s i)\<lparr>current := p + block_size (cls s i)\<rparr>]\<rparr>"
  | (full) i where "find_class sz (size_classes s) = Some i" "i < 21" "fl i = []" "p = 0" "s' = s"
      "\<not> current (cls s i) + block_size (cls s i) \<le> arena_end (cls s i)"
proof -
  have ok: "classes_ok s" using inv by (simp add: kinv_def)
  from res obtain i where i: "find_class sz (size_classes s) = Some i"
    by (auto simp: kalloc_def split: option.splits)
  then have lt: "i < 21" using find_class_Some [OF i] classes_ok_length [OF ok] by simp
  have ring: "dlist (heap s) (fhead s i) (fl i)" using kinv_class(1) [OF inv lt] .
  show thesis
  proof (cases "fl i")
    case Nil
    with ring have "lnext (heap s (fhead s i)) = fhead s i" by (simp add: dlist_empty_iff)
    with res i have r: "if current (cls s i) + block_size (cls s i) \<le> arena_end (cls s i)
        then p = current (cls s i) \<and> s' = s\<lparr>size_classes := (size_classes s)[i := (cls s i)\<lparr>current := p + block_size (cls s i)\<rparr>]\<rparr>
        else p = 0 \<and> s' = s"
      by (auto simp: kalloc_def Let_def split: if_splits)
    show thesis
    proof (cases "current (cls s i) + block_size (cls s i) \<le> arena_end (cls s i)")
      case True
      with r Nil show thesis by (intro that(2) [OF i lt]) simp_all
    next
      case False
      with r Nil show thesis by (intro that(3) [OF i lt]) simp_all
    qed
  next
    case (Cons q rest)
    with ring have "lnext (heap s (fhead s i)) = q" "q \<noteq> fhead s i"
      by (auto simp: dlist_def)
    then have "kalloc sz s = Some (q, s\<lparr>heap := list_del q (heap s)\<rparr>)"
      unfolding kalloc_def i by (simp add: Let_def)
    with res have "q = p" "s' = s\<lparr>heap := list_del p (heap s)\<rparr>" by auto
    with Cons show thesis using that(1) [OF i lt] by blast
  qed
qed

lemma used_nonzero: "classes_ok s \<Longrightarrow> i < 21 \<Longrightarrow> p \<in> used (cls s i) \<Longrightarrow> p \<noteq> 0"
  using class_layout [of s i] by (auto simp: used_def layout_ok_def)

lemma kalloc_step:
  assumes inv: "kinv s fl live" and res: "kalloc sz s = Some (p, s')" and "p \<noteq> 0"
  shows "p \<notin> live" "\<exists>fl'. kinv s' fl' (insert p live)"
    "\<exists>i < 21. p \<in> used (cls s' i) \<and> sz \<le> block_size (cls s' i)"
proof -
  have ok: "classes_ok s" using inv by (simp add: kinv_def)
  have "p \<notin> live \<and> (\<exists>fl'. kinv s' fl' (insert p live)) \<and>
    (\<exists>i < 21. p \<in> used (cls s' i) \<and> sz \<le> block_size (cls s' i))"
    using inv res
  proof (cases rule: kalloc_cases)
    case (ring i rest)
    have "p \<notin> live" "p \<in> used (cls s i)" using kinv_class(2,3) [OF inv ring(2)] ring(3) by auto
    moreover have "sz \<le> block_size (cls s i)" using find_class_Some [OF ring(1)] by simp
    ultimately show ?thesis using kalloc_from_ring [OF inv ring(2,3)] ring(2,4) by auto
  next
    case (arena i)
    have len: "i < length (size_classes s)" using classes_ok_length [OF ok] arena(2) by simp
    have "p \<in> used (cls s' i)"
      using used_bump(1) [OF class_layout [OF ok arena(2)] class_cur_ok [OF ok arena(2)] arena(5)]
        arena(4,6) len by simp
    moreover have "sz \<le> block_size (cls s' i)"
      using find_class_Some [OF arena(1)] arena(6) len by simp
    ultimately show ?thesis
      using kalloc_from_arena [OF inv arena(2,5)] arena(2,4,6) by blast
  next
    case (full i)
    with \<open>p \<noteq> 0\<close> show ?thesis by simp
  qed
  then show "p \<notin> live" "\<exists>fl'. kinv s' fl' (insert p live)"
    "\<exists>i < 21. p \<in> used (cls s' i) \<and> sz \<le> block_size (cls s' i)" by simp_all
qed

lemma kalloc_null:
  assumes "kinv s fl live" "kalloc sz s = Some (0, s')"
  shows "s' = s"
  using assms
proof (cases rule: kalloc_cases)
  case (ring i rest)
  then have "0 \<in> used (cls s i)" using kinv_class(2) [OF assms(1) ring(2)] by auto
  then show ?thesis using used_nonzero [of s i 0] assms(1) ring(2) by (simp add: kinv_def)
next
  case (arena i)
  have "0xC1010000 \<le> current (cls s i)"
    using class_layout [of s i] class_cur_ok [of s i] assms(1) arena(2)
    by (auto simp: kinv_def layout_ok_def cur_ok_def)
  with arena(4) show ?thesis by simp
qed

lemma kalloc_None_iff:
  assumes "classes_ok s"
  shows "kalloc sz s = None \<longleftrightarrow> 0x1000000 < sz"
proof (cases "sz \<le> 0x1000000")
  case True
  with assms obtain i where "find_class sz (size_classes s) = Some i" by (rule find_class_boot)
  with True show ?thesis by (auto simp: kalloc_def Let_def)
next
  case False
  have "block_size c < sz" if "c \<in> set (size_classes s)" for c
  proof -
    obtain i where i: "i < 21" "c = cls s i"
      using \<open>c \<in> set (size_classes s)\<close> classes_ok_length [OF assms] by (auto simp: in_set_conv_nth)
    have "block_size c \<le> 0x1000000" using class_layout [OF assms i(1)] i(2) by (simp add: layout_ok_def)
    also have "\<dots> < sz" using False by simp
    finally show ?thesis .
  qed
  then have "find_class sz (size_classes s) = None" by (simp add: find_class_None)
  with False show ?thesis by (simp add: kalloc_def)
qed

section \<open>Deallocation\<close>

lemma find_arena_used:
  assumes "classes_ok s" "i < 21" "p \<in> used (cls s i)"
  shows "find_arena p (size_classes s) = Some i"
proof -
  have gen: "find_arena p cs = Some i"
    if "i < length cs" "arena_start (cs ! i) \<le> p" "p < arena_end (cs ! i)"
      "\<forall>j < i. \<not> (arena_start (cs ! j) \<le> p \<and> p < arena_end (cs ! j))" for cs i
    using that
  proof (induction cs arbitrary: i)
    case (Cons c cs)
    show ?case
    proof (cases i)
      case (Suc k)
      with Cons.prems(4) have "\<not> (arena_start c \<le> p \<and> p < arena_end c)" by auto
      moreover have "find_arena p cs = Some k"
        using Cons.prems Suc by (intro Cons.IH) auto
      ultimately show ?thesis using Suc by simp
    qed (use Cons.prems in simp)
  qed simp
  have "\<not> p < arena_end (cls s j)" if "j < i" for j
    using class_sorted [OF assms(1) that assms(2)] used_in_arena [OF assms]
    by (meson leD less_le_trans)
  then show ?thesis
    using used_in_arena [OF assms] assms(2) classes_ok_length [OF assms(1)] by (intro gen) auto
qed

lemma kfree_queue:
  assumes inv: "kinv s fl live" and p: "p \<in> live" "p \<in> used (cls s i)" "i < 21"
  shows "kinv (kfree p s) (fl(i := fl i @ [p])) (live - {p})"
proof -
  have ok: "classes_ok s" using inv by (simp add: kinv_def)
  have "kfree p s = s\<lparr>heap := list_add_tail p (fhead s i) (heap s)\<rparr>"
    using find_arena_used [OF ok p(3,2)] p(2) by (simp add: kfree_def word_mod_zero_iff used_def)
  moreover have "kinv (s\<lparr>heap := list_add_tail p (fhead s i) (heap s)\<rparr>) (fl(i := fl i @ [p])) (live - {p})"
    (is "kinv ?s ?fl ?live")
  proof -
    note ring = kinv_class(1) [OF inv p(3)]
    have notin: "p \<notin> insert (fhead s i) (set (fl i))"
      using kinv_class(3) [OF inv p(3)] p fhead_not_used [OF ok p(3,3)] by auto
    have pn: "p \<notin> insert (fhead s j) (set (fl j))" if "j < 21" for j
      using that kinv_class(3) [OF inv that] p fhead_not_used [OF ok that p(3)] by auto
    have other: "dlist (heap ?s) (fhead s j) (fl j)" if j: "j < 21" "j \<noteq> i" for j
    proof (rule dlist_cong)
      show "dlist (heap s) (fhead s j) (fl j)" using inv j by (simp add: kinv_def)
      fix x assume x: "x \<in> insert (fhead s j) (set (fl j))"
      then have "x \<notin> insert (fhead s i) (set (fl i))" using rings_disjoint [OF inv p(3)] j by blast
      with x pn [OF j(1)] show "heap ?s x = heap s x"
        using list_add_tail_frame [OF ring, of x p] by auto
    qed
    have nu: "p \<notin> used (cls s j)" if "j < 21" "j \<noteq> i" for j
      using used_disjoint [OF ok that(1) p(3)] p(2) that(2) by blast
    have "dlist (heap ?s) (fhead ?s j) (?fl j) \<and> set (?fl j) \<subseteq> used (cls ?s j)
        \<and> set (?fl j) \<inter> ?live = {} \<and> used (cls ?s j) \<subseteq> set (?fl j) \<union> ?live" if j: "j < 21" for j
    proof (cases "j = i")
      case True
      with list_add_tail_dlist [OF ring notin] kinv_class(2-4) [OF inv p(3)] p show ?thesis by auto
    next
      case False
      with other [of j] kinv_class(2-4) [OF inv j] nu [OF j] j show ?thesis by auto
    qed
    with inv show ?thesis by (auto simp: kinv_def classes_ok_def)
  qed
  ultimately show ?thesis by simp
qed

lemma kfree_step:
  assumes "kinv s fl live" "p \<in> live"
  shows "\<exists>fl'. kinv (kfree p s) fl' (live - {p})"
proof -
  obtain i where "i < 21" "p \<in> used (cls s i)" using assms by (auto simp: kinv_def)
  with assms kfree_queue show ?thesis by blast
qed

section \<open>Initialisation\<close>

lemma range_Cons: "{i..<i + length (c # cs)} = insert i {Suc i..<Suc i + length cs}"
  by auto

lemma kalloc_init_loop_base [simp]: "sc_base (kalloc_init_loop i b cs s) = sc_base s"
  by (induction i b cs s rule: kalloc_init_loop.induct) (auto simp: Let_def)

lemma kalloc_init_loop_frame:
  "x \<notin> freelist_addr (sc_base s) ` {i..<i + length cs} \<Longrightarrow> heap (kalloc_init_loop i b cs s) x = heap s x"
proof (induction i b cs s rule: kalloc_init_loop.induct)
  case (2 i base bs asz rest s)
  from 2(2) have "x \<noteq> freelist_addr (sc_base s) i"
    "x \<notin> freelist_addr (sc_base s) ` {Suc i..<Suc i + length rest}"
    unfolding range_Cons by auto
  with 2(1) show ?case by (simp add: Let_def INIT_LIST_HEAD_other)
qed simp

fun mk_classes :: "u32 \<Rightarrow> (u32 \<times> u32) list \<Rightarrow> size_class list" where
  "mk_classes base [] = []"
| "mk_classes base ((bs, asz) # rest) =
     \<lparr>block_size = bs, arena_start = base, arena_end = base + asz, current = base\<rparr>
       # mk_classes (base + asz) rest"

lemma kalloc_init_loop_classes:
  "size_classes (kalloc_init_loop i b cs s) = size_classes s @ mk_classes b cs"
  by (induction i b cs s rule: kalloc_init_loop.induct) (auto simp: Let_def)

lemma kalloc_init_loop_rings:
  assumes "inj_on (freelist_addr (sc_base s)) {i..<i + length cs}" "k \<in> {i..<i + length cs}"
  shows "dlist (heap (kalloc_init_loop i b cs s)) (freelist_addr (sc_base s) k) []"
  using assms
proof (induction i b cs s rule: kalloc_init_loop.induct)
  case (1 i base s)
  then show ?case by simp
next
  case (2 i base bs asz rest s)
  let ?s = "s\<lparr>size_classes := size_classes s @ [\<lparr>block_size = bs, arena_start = base, arena_end = base + asz, current = base\<rparr>],
              heap := INIT_LIST_HEAD (freelist_addr (sc_base s) i) (heap s)\<rparr>"
  from 2(2) have inj: "inj_on (freelist_addr (sc_base s)) {Suc i..<Suc i + length rest}"
    and ni: "freelist_addr (sc_base s) i \<notin> freelist_addr (sc_base s) ` {Suc i..<Suc i + length rest}"
    unfolding range_Cons by (auto simp: inj_on_insert)
  show ?case
  proof (cases "k = i")
    case True
    have "heap (kalloc_init_loop (Suc i) (base + asz) rest ?s) (freelist_addr (sc_base s) i) = heap ?s (freelist_addr (sc_base s) i)"
      using ni by (intro kalloc_init_loop_frame) simp
    then show ?thesis using True dlist_init [of "freelist_addr (sc_base s) i" "heap s"]
      by (simp add: Let_def dlist_def)
  next
    case False
    with 2(3) have "k \<in> {Suc i..<Suc i + length rest}" by auto
    with 2(1) inj show ?thesis by (simp add: Let_def)
  qed
qed

lemma boot_used: "c \<in> set boot_classes \<Longrightarrow> used c = {} \<and> cur_ok c"
  by (auto simp: boot_classes_eval used_def cur_ok_def)

lemma kalloc_init_classes: "size_classes (kalloc_init s) = boot_classes"
  by (simp add: boot_classes_def kalloc_init_def kalloc_init_loop_classes)

lemma kalloc_init_inv:
  assumes "unat (sc_base s) + 504 \<le> 0xC1010000"
  shows "kinv (kalloc_init s) (\<lambda>_. []) {}"
proof -
  have base: "sc_base (kalloc_init s) = sc_base s"
    by (simp add: kalloc_init_def kalloc_init_loop_base)
  have cls: "size_classes (kalloc_init s) = boot_classes" by (rule kalloc_init_classes)
  have ok: "classes_ok (kalloc_init s)"
    using assms boot_used by (simp add: classes_ok_def cls base)
  have len: "length (zip size_class_sizes size_class_arena_sizes) = 21"
    by (simp add: size_class_sizes_def size_class_arena_sizes_def)
  have inj: "inj_on (freelist_addr (sc_base s)) {0..<0 + length (zip size_class_sizes size_class_arena_sizes)}"
    unfolding len using freelist_addr_unat [OF assms] by (auto simp: inj_on_def u32_eq_nat_iff)
  have "dlist (heap (kalloc_init s)) (freelist_addr (sc_base s) i) []" if "i < 21" for i
  proof -
    have "i \<in> {0..<0 + length (zip size_class_sizes size_class_arena_sizes)}" using that len by simp
    with kalloc_init_loop_rings [of "s\<lparr>size_classes := []\<rparr>" 0 "zip size_class_sizes size_class_arena_sizes" i] inj
    show ?thesis by (simp add: kalloc_init_def)
  qed
  moreover have "used (cls (kalloc_init s) i) = {}" if "i < 21" for i
    using boot_used [of "boot_classes ! i"] that cls by simp
  ultimately show ?thesis using ok by (simp add: kinv_def base)
qed

section \<open>The allocator's contract\<close>

text \<open>
  What the rest of the kernel relies on: a block that is not null is new, and freeing a live
  block gives it back. \<open>alloc_seq\<close> is a run of requests, as the code makes when it builds an open
  file or a thread.
\<close>

fun alloc_seq :: "(u32 \<Rightarrow> 's \<Rightarrow> (u32 \<times> 's) option) \<Rightarrow> u32 list \<Rightarrow> 's \<Rightarrow> (u32 list \<times> 's) option" where
  "alloc_seq al [] s = Some ([], s)"
| "alloc_seq al (n # ns) s =
     (case al n s of None \<Rightarrow> None
      | Some (p, s') \<Rightarrow> (case alloc_seq al ns s' of None \<Rightarrow> None
                        | Some (ps, s'') \<Rightarrow> Some (p # ps, s'')))"

locale allocator =
  fixes alloc :: "u32 \<Rightarrow> 's \<Rightarrow> (u32 \<times> 's) option"
    and free :: "u32 \<Rightarrow> 's \<Rightarrow> 's"
    and owned :: "'s \<Rightarrow> u32 set \<Rightarrow> bool"
  assumes alloc_new: "owned s L \<Longrightarrow> alloc n s = Some (p, s') \<Longrightarrow> p \<noteq> 0 \<Longrightarrow> p \<notin> L"
    and alloc_owned: "owned s L \<Longrightarrow> alloc n s = Some (p, s') \<Longrightarrow> p \<noteq> 0 \<Longrightarrow> owned s' (insert p L)"
    and alloc_null: "owned s L \<Longrightarrow> alloc n s = Some (0, s') \<Longrightarrow> s' = s"
    and free_owned: "owned s L \<Longrightarrow> p \<in> L \<Longrightarrow> owned (free p s) (L - {p})"
begin

lemma alloc_seq_fresh:
  "owned s L \<Longrightarrow> alloc_seq alloc ns s = Some (ps, s') \<Longrightarrow> 0 \<notin> set ps \<Longrightarrow>
   distinct ps \<and> set ps \<inter> L = {} \<and> owned s' (set ps \<union> L)"
proof (induction ns arbitrary: s L ps)
  case Nil
  then show ?case by simp
next
  case (Cons n ns)
  then obtain p t qs where p: "alloc n s = Some (p, t)" "alloc_seq alloc ns t = Some (qs, s')" "ps = p # qs"
    by (auto split: option.splits prod.splits)
  have "p \<noteq> 0" "0 \<notin> set qs" using Cons.prems(3) p(3) by auto
  then have "p \<notin> L" "owned t (insert p L)"
    using alloc_new [OF Cons.prems(1) p(1)] alloc_owned [OF Cons.prems(1) p(1)] by auto
  with Cons.IH [OF this(2) p(2)] \<open>0 \<notin> set qs\<close> p(3) show ?case by auto
qed

lemma alloc_free_owned:
  "owned s L \<Longrightarrow> alloc n s = Some (p, s') \<Longrightarrow> p \<noteq> 0 \<Longrightarrow> owned (free p s') L"
  using alloc_new alloc_owned free_owned [of s' "insert p L" p] by (metis Diff_insert_absorb insertI1)

end

definition kowned :: "kalloc_state \<Rightarrow> u32 set \<Rightarrow> bool" where
  "kowned s L \<longleftrightarrow> (\<exists>fl. kinv s fl L)"

interpretation ka: allocator kalloc kfree kowned
proof unfold_locales
  fix s :: kalloc_state and L n p s'
  assume a: "kowned s L" "kalloc n s = Some (p, s')" "p \<noteq> 0"
  then show "p \<notin> L" "kowned s' (insert p L)"
    unfolding kowned_def using kalloc_step by blast+
next
  fix s :: kalloc_state and L n s'
  assume "kowned s L" "kalloc n s = Some (0, s')"
  then show "s' = s" unfolding kowned_def using kalloc_null by blast
next
  fix s :: kalloc_state and L p
  assume "kowned s L" "p \<in> L"
  then show "kowned (kfree p s) (L - {p})" unfolding kowned_def using kfree_step by blast
qed

section \<open>Properties\<close>

text \<open>Booting the allocator establishes its invariant, with nothing live and every free queue
  empty, wherever the linker put the class table below the first arena.\<close>
theorem kalloc_init_kinv:
  "unat (sc_base s) + 504 \<le> 0xC1010000 \<Longrightarrow> kinv (kalloc_init s) (\<lambda>_. []) {}"
  by (rule kalloc_init_inv)

definition boot_state :: kalloc_state where
  "boot_state = kalloc_init \<lparr>size_classes = [], heap = \<lambda>_. \<lparr>lnext = 0, lprev = 0\<rparr>, sc_base = 0xC0100000\<rparr>"

lemma boot_state_inv: "kinv boot_state (\<lambda>_. []) {}"
  unfolding boot_state_def by (rule kalloc_init_inv) simp

theorem kalloc_init_kinv_witness:
  "kinv (kalloc_init \<lparr>size_classes = [], heap = \<lambda>_. \<lparr>lnext = 0, lprev = 0\<rparr>, sc_base = 0xC0100000\<rparr>) (\<lambda>_. []) {}"
  by (rule kalloc_init_kinv) simp

text \<open>C1: An allocation that returns a non-null pointer returns a block no caller owns, keeps the
  invariant with that block added to the live ones, and the block belongs to a class at least as
  large as the request.\<close>
theorem kalloc_fresh:
  assumes "kinv s fl live" "kalloc sz s = Some (p, s')" "p \<noteq> 0"
  shows "p \<notin> live \<and> (\<exists>fl'. kinv s' fl' (insert p live))
    \<and> (\<exists>i < 21. p \<in> used (cls s' i) \<and> sz \<le> block_size (cls s' i))"
  using kalloc_step [OF assms] by blast

lemma kalloc_boot_100: "kalloc 100 boot_state = Some (0xC10F0000,
   boot_state\<lparr>size_classes := (size_classes boot_state)[3 := (cls boot_state 3)\<lparr>current := 0xC10F0080\<rparr>]\<rparr>)"
proof -
  have c: "size_classes boot_state = boot_classes" by (simp add: boot_state_def kalloc_init_classes)
  have "dlist (heap boot_state) (fhead boot_state 3) []" using kinv_class(1) [OF boot_state_inv, of 3] by simp
  then have "lnext (heap boot_state (fhead boot_state 3)) = fhead boot_state 3" by (simp add: dlist_def)
  moreover have "find_class 100 (size_classes boot_state) = Some 3" by (simp add: c boot_classes_eval)
  moreover have "cls boot_state 3 = \<lparr>block_size = 128, arena_start = 0xC10F0000, arena_end = 0xC11F0000, current = 0xC10F0000\<rparr>"
    by (simp add: c boot_classes_eval)
  ultimately show ?thesis by (simp add: kalloc_def Let_def)
qed

theorem kalloc_fresh_witness:
  "\<exists>fl'. kinv (boot_state\<lparr>size_classes := (size_classes boot_state)[3 := (cls boot_state 3)\<lparr>current := 0xC10F0080\<rparr>]\<rparr>)
     fl' {0xC10F0000}"
  using kalloc_fresh [OF boot_state_inv kalloc_boot_100] by auto

text \<open>Freeing a live block keeps the invariant: the block leaves the live set and goes to the
  tail of the free queue of its own class, every other queue is unchanged.\<close>
theorem kfree_to_queue:
  assumes "kinv s fl live" "p \<in> live"
  shows "\<exists>i < 21. p \<in> used (cls s i) \<and> kinv (kfree p s) (fl(i := fl i @ [p])) (live - {p})"
proof -
  obtain i where "i < 21" "p \<in> used (cls s i)" using assms by (auto simp: kinv_def)
  with assms kfree_queue show ?thesis by blast
qed

lemma boot_100_inv:
  "\<exists>fl. kinv (boot_state\<lparr>size_classes := (size_classes boot_state)[3 := (cls boot_state 3)\<lparr>current := 0xC10F0080\<rparr>]\<rparr>)
     fl {0xC10F0000}"
  using kalloc_step(2) [OF boot_state_inv kalloc_boot_100] by simp

theorem kfree_to_queue_witness:
  "\<exists>fl i. kinv (kfree 0xC10F0000 (boot_state\<lparr>size_classes :=
      (size_classes boot_state)[3 := (cls boot_state 3)\<lparr>current := 0xC10F0080\<rparr>]\<rparr>)) (fl(i := fl i @ [0xC10F0000])) {}"
proof -
  obtain fl where "kinv (boot_state\<lparr>size_classes := (size_classes boot_state)[3 := (cls boot_state 3)\<lparr>current := 0xC10F0080\<rparr>]\<rparr>)
     fl {0xC10F0000}" using boot_100_inv by blast
  from kfree_to_queue [OF this, of "0xC10F0000"] show ?thesis by auto
qed

definition block_bytes :: "size_class \<Rightarrow> u32 \<Rightarrow> nat set" where
  "block_bytes c p = {unat p..<unat p + unat (block_size c)}"

lemma used_gap:
  assumes "layout_ok c" "cur_ok c" "p \<in> used c" "q \<in> used c" "p < q"
  shows "unat p + unat (block_size c) \<le> unat q"
proof (rule ccontr)
  assume "\<not> ?thesis"
  moreover have "unat (p - arena_start c) = unat p - unat (arena_start c)"
    "unat (q - arena_start c) = unat q - unat (arena_start c)"
    "unat (arena_start c) \<le> unat p" "unat (arena_start c) \<le> unat q"
    using assms(3,4) by (auto simp: used_def unat_sub_le word_le_nat_alt)
  ultimately have "unat (q - arena_start c) < unat (p - arena_start c) + unat (block_size c)" by linarith
  moreover have "unat (block_size c) dvd unat (p - arena_start c)" "unat (block_size c) dvd unat (q - arena_start c)"
    using assms(3,4) by (simp_all add: used_def)
  ultimately have "unat (q - arena_start c) \<le> unat (p - arena_start c)" by (intro multiple_below)
  then show False
    using assms(5) \<open>unat (p - arena_start c) = _\<close> \<open>unat (q - arena_start c) = _\<close>
      \<open>unat (arena_start c) \<le> unat p\<close> \<open>unat (arena_start c) \<le> unat q\<close>
    by (simp add: word_less_nat_alt)
qed

lemma used_fits:
  assumes ok: "classes_ok s" and i: "i < 21" and p: "p \<in> used (cls s i)"
  shows "unat p + unat (block_size (cls s i)) \<le> unat (current (cls s i))"
proof (rule ccontr)
  let ?c = "cls s i"
  assume n: "\<not> ?thesis"
  have pa: "arena_start ?c \<le> p" "p < current ?c" "unat (block_size ?c) dvd unat (p - arena_start ?c)"
    using p by (auto simp: used_def)
  have ca: "arena_start ?c \<le> current ?c" "unat (block_size ?c) dvd unat (current ?c - arena_start ?c)"
    using class_cur_ok [OF ok i] by (auto simp: cur_ok_def)
  have "unat (current ?c - arena_start ?c) < unat (p - arena_start ?c) + unat (block_size ?c)"
    using n pa(1,2) ca(1) by (simp add: unat_sub_le word_le_nat_alt word_less_nat_alt)
  then have "unat (current ?c - arena_start ?c) \<le> unat (p - arena_start ?c)"
    using pa(3) ca(2) by (intro multiple_below)
  then show False using pa(1,2) ca(1) by (simp add: unat_sub_le word_le_nat_alt word_less_nat_alt)
qed

lemma blocks_disjoint_law:
  assumes "kinv s fl live" "i < 21" "j < 21" "p \<in> used (cls s i)" "q \<in> used (cls s j)" "p \<noteq> q"
  shows "block_bytes (cls s i) p \<inter> block_bytes (cls s j) q = {}"
proof -
  have ok: "classes_ok s" using assms(1) by (simp add: kinv_def)
  have far: "unat x + unat (block_size (cls s m)) \<le> unat y"
    if "m < n" "n < 21" "x \<in> used (cls s m)" "y \<in> used (cls s n)" for m n x y
  proof -
    have m: "m < 21" using that by simp
    have "unat x + unat (block_size (cls s m)) \<le> unat (current (cls s m))"
      by (rule used_fits [OF ok m that(3)])
    moreover have "current (cls s m) \<le> arena_end (cls s m)" using class_cur_ok [OF ok m] by (simp add: cur_ok_def)
    moreover have "arena_end (cls s m) \<le> arena_start (cls s n)" using class_sorted [OF ok that(1,2)] by simp
    moreover have "arena_start (cls s n) \<le> y" using used_in_arena [OF ok that(2,4)] by simp
    ultimately show ?thesis by (simp add: word_le_nat_alt)
  qed
  consider "i = j" "p < q" | "i = j" "q < p" | "i < j" | "j < i"
    using assms(6) by fastforce
  then show ?thesis
  proof cases
    case 1
    with used_gap [OF class_layout class_cur_ok, OF ok assms(2) ok assms(2), of p q] assms(4,5) show ?thesis
      by (auto simp: block_bytes_def)
  next
    case 2
    with used_gap [OF class_layout class_cur_ok, OF ok assms(2) ok assms(2), of q p] assms(4,5) show ?thesis
      by (auto simp: block_bytes_def)
  next
    case 3
    with far [OF 3 assms(3-5)] show ?thesis by (auto simp: block_bytes_def)
  next
    case 4
    with far [OF 4 assms(2) assms(5,4)] show ?thesis by (auto simp: block_bytes_def)
  qed
qed

text \<open>The byte ranges of two different blocks handed out by the allocator never overlap,
  whichever classes they come from.\<close>
theorem kalloc_blocks_disjoint:
  assumes "kinv s fl live" "i < 21" "j < 21" "p \<in> used (cls s i)" "q \<in> used (cls s j)" "p \<noteq> q"
  shows "block_bytes (cls s i) p \<inter> block_bytes (cls s j) q = {}"
  by (rule blocks_disjoint_law [OF assms])

text \<open>A state with two blocks out: a 16-byte and a 32-byte one.\<close>

definition two_out :: kalloc_state where
  "two_out = snd (the (kalloc 20 (snd (the (kalloc 16 boot_state)))))"

lemma boot_ring_empty: "i < 21 \<Longrightarrow> lnext (heap boot_state (freelist_addr (sc_base boot_state) i)) = freelist_addr (sc_base boot_state) i"
  using kinv_class(1) [OF boot_state_inv, of i] by (simp add: dlist_def)

lemma two_out_eval:
  "kalloc 16 boot_state = Some (0xC1010000, boot_state\<lparr>size_classes := (size_classes boot_state)[0 := (cls boot_state 0)\<lparr>current := 0xC1010010\<rparr>]\<rparr>)"
  "kalloc 20 (snd (the (kalloc 16 boot_state))) = Some (0xC1030000, two_out)"
  "size_classes two_out = (boot_classes[0 := (boot_classes ! 0)\<lparr>current := 0xC1010010\<rparr>])[1 := (boot_classes ! 1)\<lparr>current := 0xC1030020\<rparr>]"
proof -
  have c: "size_classes boot_state = boot_classes" by (simp add: boot_state_def kalloc_init_classes)
  show a: "kalloc 16 boot_state = Some (0xC1010000, boot_state\<lparr>size_classes := (size_classes boot_state)[0 := (cls boot_state 0)\<lparr>current := 0xC1010010\<rparr>]\<rparr>)"
    using boot_ring_empty [of 0] by (simp add: kalloc_def Let_def c boot_classes_eval)
  show "kalloc 20 (snd (the (kalloc 16 boot_state))) = Some (0xC1030000, two_out)"
    "size_classes two_out = (boot_classes[0 := (boot_classes ! 0)\<lparr>current := 0xC1010010\<rparr>])[1 := (boot_classes ! 1)\<lparr>current := 0xC1030020\<rparr>]"
    unfolding two_out_def a using boot_ring_empty [of 1] by (simp_all add: kalloc_def Let_def c boot_classes_eval)
qed

lemma two_out_inv: "\<exists>fl. kinv two_out fl {0xC1030000, 0xC1010000}"
proof -
  obtain fl where "kinv (snd (the (kalloc 16 boot_state))) fl {0xC1010000}"
    using kalloc_step(2) [OF boot_state_inv two_out_eval(1)] two_out_eval(1) by auto
  from kalloc_step(2) [OF this two_out_eval(2)] show ?thesis by simp
qed

theorem kalloc_blocks_disjoint_witness:
  "block_bytes (cls two_out 0) 0xC1010000 \<inter> block_bytes (cls two_out 1) 0xC1030000 = {}"
proof -
  obtain fl where inv: "kinv two_out fl {0xC1030000, 0xC1010000}" using two_out_inv by blast
  have "0xC1010000 \<in> used (cls two_out 0)" "0xC1030000 \<in> used (cls two_out 1)"
    by (simp_all add: two_out_eval(3) used_def boot_classes_eval)
  with kalloc_blocks_disjoint [OF inv, of 0 1] show ?thesis by simp
qed

lemma alignment_law:
  assumes "kinv s fl live" "i < 21" "p \<in> used (cls s i)"
  shows "unat (block_size (cls s i)) dvd unat p \<longleftrightarrow> i \<le> 12"
proof -
  have ok: "classes_ok s" using assms(1) by (simp add: kinv_def)
  let ?b = "unat (block_size (cls s i))" and ?a = "unat (arena_start (cls s i))"
  have starts: "list_all (\<lambda>k. unat (block_size (boot_classes ! k)) dvd unat (arena_start (boot_classes ! k)) \<longleftrightarrow> k \<le> 12) [0..<21]"
    by (simp add: boot_classes_eval upt_rec dvd_eq_mod_eq_0)
  then have start: "?b dvd ?a \<longleftrightarrow> i \<le> 12"
    using assms(2) by (simp add: static_boot [OF ok assms(2)] list_all_iff)
  have "arena_start (cls s i) \<le> p" "?b dvd unat (p - arena_start (cls s i))"
    using assms(3) by (auto simp: used_def)
  then have "unat p = ?a + unat (p - arena_start (cls s i))"
    by (simp add: unat_sub_le word_le_nat_alt)
  with \<open>?b dvd unat (p - arena_start (cls s i))\<close> have "?b dvd unat p \<longleftrightarrow> ?b dvd ?a"
    by (simp add: dvd_add_left_iff)
  with start show ?thesis by simp
qed

text \<open>The allocator is named aligned, and up to class 65536 every block is aligned to its own
  size, so a coarse page table, a page and a first-level table are aligned as the MMU needs; from
  class 131072 on no block ever is, the 1 MB class included.\<close>
theorem kalloc_alignment:
  assumes "kinv s fl live" "i < 21" "p \<in> used (cls s i)"
  shows "unat (block_size (cls s i)) dvd unat p \<longleftrightarrow> i \<le> 12"
  by (rule alignment_law [OF assms])

theorem kalloc_alignment_witness:
  "unat (block_size (cls two_out 1)) dvd unat (0xC1030000 :: u32)"
proof -
  obtain fl where inv: "kinv two_out fl {0xC1030000, 0xC1010000}" using two_out_inv by blast
  have "0xC1030000 \<in> used (cls two_out 1)"
    by (simp add: two_out_eval(3) used_def boot_classes_eval)
  from kalloc_alignment [OF inv _ this] show ?thesis by (rule iffD2) simp_all
qed

end
