(* ===== verification/MemOps.thy ===== *)
theory MemOps
  imports Prelude
begin

text \<open>
  The block operations of lib/src/mem.c on a byte-addressed memory: \<open>memset\<close>, \<open>memset_fast\<close>,
  \<open>memcpy\<close>, \<open>memmove_fast\<close> and the linear allocator \<open>klalloc\<close>. The loops keep the source's shape:
  an alignment loop, a loop over aligned words, a byte loop for the rest; the remaining count is
  a natural number, which the loops only decrease. Addresses wrap at 32 bits.
\<close>

type_synonym memory = "u32 \<Rightarrow> u8"

definition load32 :: "memory \<Rightarrow> u32 \<Rightarrow> u32" where
  "load32 m a = ucast (m a) OR push_bit 8 (ucast (m (a + 1))) OR push_bit 16 (ucast (m (a + 2)))
     OR push_bit 24 (ucast (m (a + 3)))"

definition store32 :: "u32 \<Rightarrow> u32 \<Rightarrow> memory \<Rightarrow> memory" where
  "store32 a v m = m(a := ucast (v AND 0xFF), a + 1 := ucast (drop_bit 8 v AND 0xFF),
     a + 2 := ucast (drop_bit 16 v AND 0xFF), a + 3 := ucast (drop_bit 24 v AND 0xFF))"

section \<open>The code\<close>

fun memset_loop :: "u32 \<Rightarrow> u8 \<Rightarrow> nat \<Rightarrow> nat \<Rightarrow> memory \<Rightarrow> memory" where
  "memset_loop p v i 0 m = m"
| "memset_loop p v i (Suc n) m = memset_loop p v (Suc i) n (m(p + of_nat i := v))"

definition memset :: "u32 \<Rightarrow> u8 \<Rightarrow> u32 \<Rightarrow> memory \<Rightarrow> memory" where
  "memset ptr v num m = memset_loop ptr v 0 (unat num) m"

fun set_align :: "u32 \<Rightarrow> u8 \<Rightarrow> nat \<Rightarrow> memory \<Rightarrow> u32 \<times> nat \<times> memory" where
  "set_align p v 0 m = (p, 0, m)"
| "set_align p v (Suc n) m =
     (if p mod 4 \<noteq> 0 then set_align (p + 1) v n (m(p := v)) else (p, Suc n, m))"

fun set_words :: "u32 \<Rightarrow> u32 \<Rightarrow> nat \<Rightarrow> memory \<Rightarrow> u32 \<times> nat \<times> memory" where
  "set_words p v4 n m =
     (if 4 \<le> n then set_words (p + 4) v4 (n - 4) (store32 p v4 m) else (p, n, m))"

fun set_bytes :: "u32 \<Rightarrow> u8 \<Rightarrow> nat \<Rightarrow> memory \<Rightarrow> memory" where
  "set_bytes p v 0 m = m"
| "set_bytes p v (Suc n) m = set_bytes (p + 1) v n (m(p := v))"

definition memset_fast :: "u32 \<Rightarrow> u8 \<Rightarrow> u32 \<Rightarrow> memory \<Rightarrow> memory" where
  "memset_fast ptr v num m =
     (case set_align ptr v (unat num) m of (p1, n1, m1) \<Rightarrow>
      let val4 = push_bit 24 (ucast v) OR push_bit 16 (ucast v) OR push_bit 8 (ucast v) OR ucast v in
      case set_words p1 val4 n1 m1 of (p2, n2, m2) \<Rightarrow> set_bytes p2 v n2 m2)"

fun copy_align :: "u32 \<Rightarrow> u32 \<Rightarrow> nat \<Rightarrow> memory \<Rightarrow> u32 \<times> u32 \<times> nat \<times> memory" where
  "copy_align d s 0 m = (d, s, 0, m)"
| "copy_align d s (Suc n) m =
     (if d AND 3 \<noteq> 0 \<or> s AND 3 \<noteq> 0 then copy_align (d + 1) (s + 1) n (m(d := m s))
      else (d, s, Suc n, m))"

fun copy_words :: "u32 \<Rightarrow> u32 \<Rightarrow> nat \<Rightarrow> memory \<Rightarrow> u32 \<times> u32 \<times> nat \<times> memory" where
  "copy_words d s n m =
     (if 4 \<le> n then copy_words (d + 4) (s + 4) (n - 4) (store32 d (load32 m s) m) else (d, s, n, m))"

fun copy_bytes :: "u32 \<Rightarrow> u32 \<Rightarrow> nat \<Rightarrow> memory \<Rightarrow> memory" where
  "copy_bytes d s 0 m = m"
| "copy_bytes d s (Suc n) m = copy_bytes (d + 1) (s + 1) n (m(d := m s))"

definition copy_forward :: "u32 \<Rightarrow> u32 \<Rightarrow> nat \<Rightarrow> memory \<Rightarrow> memory" where
  "copy_forward d s n m =
     (case copy_align d s n m of (d1, s1, n1, m1) \<Rightarrow>
      case copy_words d1 s1 n1 m1 of (d2, s2, n2, m2) \<Rightarrow> copy_bytes d2 s2 n2 m2)"

text \<open>The alignment test of \<open>memcpy\<close> is written with a remainder, that of \<open>memmove_fast\<close> with a mask.\<close>

definition memcpy :: "u32 \<Rightarrow> u32 \<Rightarrow> u32 \<Rightarrow> memory \<Rightarrow> memory" where
  "memcpy dest src num m = (if dest = 0 \<or> src = 0 then m else copy_forward dest src (unat num) m)"

fun back_align :: "u32 \<Rightarrow> u32 \<Rightarrow> nat \<Rightarrow> memory \<Rightarrow> u32 \<times> u32 \<times> nat \<times> memory" where
  "back_align d s 0 m = (d, s, 0, m)"
| "back_align d s (Suc n) m =
     (if d AND 3 \<noteq> 0 \<or> s AND 3 \<noteq> 0 then back_align (d - 1) (s - 1) n (m(d - 1 := m (s - 1)))
      else (d, s, Suc n, m))"

fun back_words :: "u32 \<Rightarrow> u32 \<Rightarrow> nat \<Rightarrow> memory \<Rightarrow> u32 \<times> u32 \<times> nat \<times> memory" where
  "back_words d s n m =
     (if 4 \<le> n then back_words (d - 4) (s - 4) (n - 4) (store32 (d - 4) (load32 m (s - 4)) m)
      else (d, s, n, m))"

fun back_bytes :: "u32 \<Rightarrow> u32 \<Rightarrow> nat \<Rightarrow> memory \<Rightarrow> memory" where
  "back_bytes d s 0 m = m"
| "back_bytes d s (Suc n) m = back_bytes (d - 1) (s - 1) n (m(d - 1 := m (s - 1)))"

definition memmove_fast :: "u32 \<Rightarrow> u32 \<Rightarrow> u32 \<Rightarrow> memory \<Rightarrow> u32 \<times> memory" where
  "memmove_fast dst src n m =
     (if dst = src \<or> n = 0 then (dst, m)
      else if dst < src then (dst, copy_forward dst src (unat n) m)
      else (case back_align (dst + n) (src + n) (unat n) m of (d1, s1, n1, m1) \<Rightarrow>
            case back_words d1 s1 n1 m1 of (d2, s2, n2, m2) \<Rightarrow> (dst, back_bytes d2 s2 n2 m2)))"

definition memmove :: "u32 \<Rightarrow> u32 \<Rightarrow> u32 \<Rightarrow> memory \<Rightarrow> u32 \<times> memory" where
  "memmove dst src n m = memmove_fast dst src n m"

declare set_words.simps [simp del] copy_words.simps [simp del] back_words.simps [simp del]

section \<open>Filling\<close>

definition filled :: "u32 \<Rightarrow> u8 \<Rightarrow> nat \<Rightarrow> memory \<Rightarrow> memory" where
  "filled p v n m = (\<lambda>a. if unat (a - p) < n then v else m a)"

lemma unat_sub_cases:
  "unat (x - y :: u32) = (if unat y \<le> unat x then unat x - unat y else unat x + 4294967296 - unat y)"
  using unat_sub_if' [of x y] by simp

lemma unat_sub_shift:
  fixes a p :: u32
  assumes "k < 4294967296"
  shows "unat (a - (p + of_nat k)) = (if k \<le> unat (a - p) then unat (a - p) - k else unat (a - p) + 4294967296 - k)"
proof -
  have "unat (a - (p + of_nat k)) = unat ((a - p) - of_nat k)" by (simp add: algebra_simps)
  then show ?thesis unfolding unat_sub_cases [of "a - p"] unat_of_nat_u32 [OF assms] .
qed

lemma filled_add:
  assumes "k + j \<le> 4294967296"
  shows "filled (p + of_nat k) v j (filled p v k m) = filled p v (k + j) m"
proof (cases "k = 4294967296")
  case True
  with assms show ?thesis by (auto simp: filled_def fun_eq_iff)
next
  case False
  show ?thesis
  proof
    fix a
    show "filled (p + of_nat k) v j (filled p v k m) a = filled p v (k + j) m a"
      using assms False unat_sub_shift [of k a p] unat_less_2p32 [of "a - p"]
      by (auto simp: filled_def split: if_splits)
  qed
qed

lemma unat_diff_less_one: "unat (a - p :: u32) < 1 \<longleftrightarrow> a = p"
  by (simp add: unat_eq_0)

lemma filled_one: "m(p := v) = filled p v 1 m"
  by (rule ext) (simp only: filled_def unat_diff_less_one fun_upd_apply)

lemma filled_zero [simp]: "filled p v 0 m = m"
  by (simp add: filled_def)

lemma of_nat_numeral_u32: "(of_nat 1 :: u32) = 1" "(of_nat 4 :: u32) = 4"
  by simp_all

lemma near_iff: "unat (a - p :: u32) < 4 \<longleftrightarrow> a = p \<or> a = p + 1 \<or> a = p + 2 \<or> a = p + 3"
proof
  assume "unat (a - p) < 4"
  then consider "unat (a - p) = 0" | "unat (a - p) = 1" | "unat (a - p) = 2" | "unat (a - p) = 3" by linarith
  then show "a = p \<or> a = p + 1 \<or> a = p + 2 \<or> a = p + 3"
  proof cases
    case 1
    then show ?thesis by (simp add: unat_eq_0)
  next
    case 2
    then have "a - p = 1" by (simp add: u32_eq_nat_iff)
    then show ?thesis by (simp add: algebra_simps)
  next
    case 3
    then have "a - p = 2" by (simp add: u32_eq_nat_iff)
    then show ?thesis by (simp add: algebra_simps)
  next
    case 4
    then have "a - p = 3" by (simp add: u32_eq_nat_iff)
    then show ?thesis by (simp add: algebra_simps)
  qed
qed auto

lemma store32_same:
  "ucast (w AND 0xFF) = b0 \<Longrightarrow> ucast (drop_bit 8 w AND 0xFF) = b1 \<Longrightarrow> ucast (drop_bit 16 w AND 0xFF) = b2
   \<Longrightarrow> ucast (drop_bit 24 w AND 0xFF) = b3
   \<Longrightarrow> store32 p w m = m(p := b0, p + 1 := b1, p + 2 := b2, p + 3 := b3)"
  by (simp add: store32_def)

lemma four_distinct: "(p :: u32) \<noteq> p + 1" "p \<noteq> p + 2" "p \<noteq> p + 3" "p + 1 \<noteq> p + 2" "p + 1 \<noteq> p + 3" "p + 2 \<noteq> p + 3"
  by simp_all

lemma store32_fill:
  "store32 p (push_bit 24 (ucast v) OR push_bit 16 (ucast v) OR push_bit 8 (ucast v) OR ucast v) m = filled p v 4 m"
proof -
  let ?w = "push_bit 24 (ucast v) OR push_bit 16 (ucast v) OR push_bit 8 (ucast v) OR ucast v :: u32"
  have w: "?w = ucast v OR push_bit 8 (ucast v) OR push_bit 16 (ucast v) OR push_bit 24 (ucast v)"
    by (simp add: or.assoc or.commute or.left_commute)
  have "store32 p ?w m = m(p := v, p + 1 := v, p + 2 := v, p + 3 := v)"
    unfolding w by (rule store32_same) (rule u32_bytes_split)+
  also have "\<dots> = filled p v 4 m"
    by (rule ext) (simp add: filled_def near_iff)
  finally show ?thesis .
qed

lemma memset_loop_filled:
  "i + n \<le> 4294967296 \<Longrightarrow> memset_loop p v i n (filled p v i m) = filled p v (i + n) m"
proof (induction n arbitrary: i)
  case 0
  then show ?case by simp
next
  case (Suc n)
  have "filled (p + of_nat i) v 1 (filled p v i m) = filled p v (i + 1) m"
    using Suc.prems by (intro filled_add) simp
  then have "(filled p v i m)(p + of_nat i := v) = filled p v (Suc i) m"
    by (simp add: filled_one)
  with Suc show ?case by simp
qed

lemma memset_filled: "memset p v num m = filled p v (unat num) m"
  using memset_loop_filled [of 0 "unat num" p v m] unat_less_2p32 [of num] by (simp add: memset_def)

lemma set_bytes_filled: "n \<le> 4294967296 \<Longrightarrow> set_bytes p v n m = filled p v n m"
proof (induction n arbitrary: p m)
  case 0
  then show ?case by simp
next
  case (Suc n)
  have "filled (p + of_nat 1) v n (filled p v 1 m) = filled p v (1 + n) m"
    using Suc.prems by (intro filled_add) simp
  with Suc show ?case by (simp add: filled_one)
qed

lemma set_align_filled:
  assumes "set_align p v n m = (p', n', m')" "n \<le> 4294967296"
  shows "n' \<le> n \<and> p' = p + of_nat (n - n') \<and> m' = filled p v (n - n') m"
  using assms
proof (induction p v n m arbitrary: p' n' m' rule: set_align.induct)
  case (1 p v m)
  then show ?case by simp
next
  case (2 p v n m)
  show ?case
  proof (cases "p mod 4 \<noteq> 0")
    case True
    then have eq: "set_align (p + 1) v n (m(p := v)) = (p', n', m')" using 2(2) by simp
    have "n \<le> 4294967296" using 2(3) by simp
    note IH = 2(1) [OF True eq this]
    have "filled (p + of_nat 1) v (n - n') (filled p v 1 m) = filled p v (1 + (n - n')) m"
      using 2(3) by (intro filled_add) simp
    then have "m' = filled p v (Suc n - n') m"
      using IH unfolding filled_one by (simp add: Suc_diff_le)
    then show ?thesis using IH by (simp add: Suc_diff_le)
  next
    case False
    with 2 show ?thesis by simp
  qed
qed

lemma set_words_filled:
  assumes "set_words p w n m = (p', n', m')" "n \<le> 4294967296"
    and "\<And>p m. store32 p w m = filled p v 4 m"
  shows "n' \<le> n \<and> p' = p + of_nat (n - n') \<and> m' = filled p v (n - n') m"
  using assms(1,2)
proof (induction n arbitrary: p m rule: less_induct)
  case (less n)
  show ?case
  proof (cases "4 \<le> n")
    case True
    then have eq: "set_words (p + 4) w (n - 4) (filled p v 4 m) = (p', n', m')"
      using less.prems(1) assms(3) by (simp add: set_words.simps [of p])
    have IH: "n' \<le> n - 4 \<and> p' = p + 4 + of_nat (n - 4 - n') \<and> m' = filled (p + 4) v (n - 4 - n') (filled p v 4 m)"
      using less.IH [OF _ eq] less.prems(2) True by simp
    moreover have "filled (p + of_nat 4) v (n - 4 - n') (filled p v 4 m) = filled p v (4 + (n - 4 - n')) m"
      using less.prems(2) True by (intro filled_add) simp
    moreover have e: "n - n' = 4 + (n - 4 - n')" using IH True by linarith
    ultimately have "m' = filled p v (n - n') m" "p' = p + of_nat (n - n')"
      unfolding e by (simp_all add: add.assoc)
    moreover have "n' \<le> n" using IH by linarith
    ultimately show ?thesis by simp
  next
    case False
    with less.prems show ?thesis by (simp add: set_words.simps [of p])
  qed
qed

lemma memset_fast_filled: "memset_fast p v num m = filled p v (unat num) m"
proof -
  let ?n = "unat num"
  let ?w = "push_bit 24 (ucast v) OR push_bit 16 (ucast v) OR push_bit 8 (ucast v) OR ucast v :: u32"
  obtain p1 n1 m1 where 1: "set_align p v ?n m = (p1, n1, m1)" by (metis prod_cases3)
  obtain p2 n2 m2 where 2: "set_words p1 ?w n1 m1 = (p2, n2, m2)" by (metis prod_cases3)
  have n: "?n \<le> 4294967296" using unat_less_2p32 [of num] by linarith
  have s1: "n1 \<le> ?n" "p1 = p + of_nat (?n - n1)" "m1 = filled p v (?n - n1) m"
    using set_align_filled [OF 1 n] by simp_all
  have s2: "n2 \<le> n1" "p2 = p1 + of_nat (n1 - n2)" "m2 = filled p1 v (n1 - n2) m1"
    using set_words_filled [OF 2 _ store32_fill] s1(1) n by simp_all
  have "m2 = filled p v ((?n - n1) + (n1 - n2)) m"
    using filled_add [of "?n - n1" "n1 - n2" p v m] s1 s2 n by simp
  moreover have e: "(?n - n1) + (n1 - n2) = ?n - n2" using s1(1) s2(1) by linarith
  ultimately have m2: "m2 = filled p v (?n - n2) m" by simp
  have p2: "p2 = p + of_nat (?n - n2)" unfolding e [symmetric] s2(2) s1(2) by simp
  have "set_bytes p2 v n2 m2 = filled p2 v n2 m2" using s1(1) s2(1) n by (intro set_bytes_filled) linarith
  also have "\<dots> = filled p v ((?n - n2) + n2) m"
    unfolding m2 p2 using s1(1) s2(1) n by (intro filled_add) linarith
  finally show ?thesis using 1 2 s1(1) s2(1) by (simp add: memset_fast_def Let_def)
qed

section \<open>Copying\<close>

text \<open>\<open>moved d s n m\<close>: the \<open>n\<close> bytes at \<open>d\<close> are what the memory held at \<open>s\<close> before, all at once.\<close>

definition moved :: "u32 \<Rightarrow> u32 \<Rightarrow> nat \<Rightarrow> memory \<Rightarrow> memory" where
  "moved d s n m = (\<lambda>a. if unat (a - d) < n then m (s + (a - d)) else m a)"

lemma moved_zero [simp]: "moved d s 0 m = m"
  by (simp add: moved_def)

lemma moved_same [simp]: "moved d d n m = m"
  by (auto simp: moved_def fun_eq_iff)

lemma moved_one: "m(d := m s) = moved d s 1 m"
  by (rule ext) (simp only: moved_def unat_diff_less_one fun_upd_apply, simp)

lemma store32_load32: "store32 d (load32 m s) m = moved d s 4 m"
proof -
  have "store32 d (load32 m s) m = m(d := m s, d + 1 := m (s + 1), d + 2 := m (s + 2), d + 3 := m (s + 3))"
    unfolding load32_def by (rule store32_same) (rule u32_bytes_split)+
  also have "\<dots> = moved d s 4 m"
    by (rule ext) (auto simp: moved_def near_iff)
  finally show ?thesis .
qed

lemma moved_forward:
  assumes "k + j \<le> 4294967296" "d = s \<or> k + j \<le> unat (d - s)"
  shows "moved (d + of_nat k) (s + of_nat k) j (moved d s k m) = moved d s (k + j) m"
proof (cases "d = s \<or> k = 4294967296")
  case True
  then show ?thesis using assms by (auto simp: moved_def fun_eq_iff)
next
  case False
  then have D: "k + j \<le> unat (d - s)" and k: "k < 4294967296" using assms by auto
  show ?thesis
  proof
    fix a
    define x where "x = a - d"
    have eq: "s + of_nat k + (a - (d + of_nat k)) = s + x" "s + x - d = x - (d - s)"
      by (simp_all add: x_def)
    have sh: "unat (a - (d + of_nat k)) = (if k \<le> unat x then unat x - k else unat x + 4294967296 - k)"
      unfolding x_def by (rule unat_sub_shift [OF k])
    have xb: "unat x < 4294967296" "unat (d - s) < 4294967296" by simp_all
    have key: "k \<le> unat (x - (d - s))" if "k \<le> unat x" "unat x < k + j"
      using that D xb by (simp add: unat_sub_cases)
    show "moved (d + of_nat k) (s + of_nat k) j (moved d s k m) a = moved d s (k + j) m a"
    proof (cases "k \<le> unat x \<and> unat x < k + j")
      case True
      with key have r: "\<not> unat (s + x - d) < k" unfolding eq by linarith
      have l: "unat (a - (d + of_nat k)) < j" using True sh by auto
      have "moved (d + of_nat k) (s + of_nat k) j (moved d s k m) a = moved d s k m (s + x)"
        using l unfolding moved_def [of "d + of_nat k"] by (simp only: eq(1) if_True)
      also have "\<dots> = m (s + x)" using r by (simp only: moved_def if_False)
      also have "\<dots> = moved d s (k + j) m a" using True by (simp add: moved_def x_def)
      finally show ?thesis .
    next
      case False
      then consider "unat x < k" | "k + j \<le> unat x" by linarith
      then show ?thesis
      proof cases
        case 1
        have "\<not> unat (a - (d + of_nat k)) < j" using 1 sh assms(1) by simp
        with 1 show ?thesis by (simp add: moved_def x_def)
      next
        case 2
        have "\<not> unat (a - (d + of_nat k)) < j" using 2 sh by simp
        with 2 show ?thesis by (simp add: moved_def x_def)
      qed
    qed
  qed
qed

lemma unat_add_cases: "unat (a + b :: u32) = unat a + unat b \<or> unat (a + b) + 4294967296 = unat a + unat b"
proof -
  have m: "unat (a + b) = (unat a + unat b) mod 4294967296" by (subst unat_word_ariths(1)) simp
  show ?thesis
  proof (cases "unat a + unat b < 4294967296")
    case True
    with m show ?thesis by simp
  next
    case False
    then obtain c where c: "unat a + unat b = c + 4294967296"
      using nat_le_iff_add [of 4294967296 "unat a + unat b"] by (metis add.commute not_less)
    have "c < 4294967296" using c unat_less_2p32 [of a] unat_less_2p32 [of b] by linarith
    with m c show ?thesis by simp
  qed
qed

lemma add_diff_eq_swap: "s + x - d = (s - d) + (x :: u32)"
  by simp

lemma moved_backward:
  assumes "k + j \<le> 4294967296" "d = s \<or> k + j \<le> unat (s - d)"
  shows "moved d s k (moved (d + of_nat k) (s + of_nat k) j m) = moved d s (k + j) m"
proof (cases "d = s \<or> k = 4294967296")
  case True
  then show ?thesis using assms by (auto simp: moved_def fun_eq_iff)
next
  case False
  then have D: "k + j \<le> unat (s - d)" and k: "k < 4294967296" using assms by auto
  show ?thesis
  proof
    fix a
    define x where "x = a - d"
    have eq: "s + of_nat k + (a - (d + of_nat k)) = s + x" by (simp add: x_def)
    have sh: "unat (a - (d + of_nat k)) = (if k \<le> unat x then unat x - k else unat x + 4294967296 - k)"
      unfolding x_def by (rule unat_sub_shift [OF k])
    have xb: "unat x < 4294967296" "unat (s - d) < 4294967296" by simp_all
    have key: "\<not> unat (s + x - (d + of_nat k)) < j" if "unat x < k"
    proof -
      have xs: "unat (s + x - d) = unat (s - d) + unat x \<or> unat (s + x - d) + 4294967296 = unat (s - d) + unat x"
        unfolding add_diff_eq_swap by (rule unat_add_cases)
      have y: "unat (s + x - (d + of_nat k)) = (if k \<le> unat (s + x - d) then unat (s + x - d) - k else unat (s + x - d) + 4294967296 - k)"
        by (rule unat_sub_shift [OF k])
      show ?thesis
      proof (cases "k \<le> unat (s + x - d)")
        case True
        then show ?thesis using xs D that xb y by (simp; linarith)
      next
        case False
        then show ?thesis using xs D that xb y k by (simp; linarith)
      qed
    qed
    show "moved d s k (moved (d + of_nat k) (s + of_nat k) j m) a = moved d s (k + j) m a"
    proof (cases "unat x < k")
      case True
      with key show ?thesis by (simp add: moved_def x_def)
    next
      case False
      have inner: "moved d s k M a = M a" for M using False by (simp add: moved_def x_def)
      show ?thesis
      proof (cases "unat x < k + j")
        case True
        then have "unat (a - (d + of_nat k)) < j" using sh False by auto
        then have "moved (d + of_nat k) (s + of_nat k) j m a = m (s + x)"
          unfolding moved_def [of "d + of_nat k"] by (simp only: eq if_True)
        then show ?thesis unfolding inner using True by (simp add: moved_def x_def)
      next
        case False
        then have "\<not> unat (a - (d + of_nat k)) < j" using sh by simp
        then show ?thesis unfolding inner using False by (simp add: moved_def x_def)
      qed
    qed
  qed
qed

lemma copy_bytes_moved:
  "n \<le> 4294967296 \<Longrightarrow> d = s \<or> n \<le> unat (d - s) \<Longrightarrow> copy_bytes d s n m = moved d s n m"
proof (induction n arbitrary: d s m)
  case 0
  then show ?case by simp
next
  case (Suc n)
  have "copy_bytes (d + 1) (s + 1) n (m(d := m s)) = moved (d + 1) (s + 1) n (m(d := m s))"
    using Suc.prems by (intro Suc.IH) auto
  also have "\<dots> = moved (d + of_nat 1) (s + of_nat 1) n (moved d s 1 m)" unfolding moved_one by simp
  also have "\<dots> = moved d s (1 + n) m" using Suc.prems by (intro moved_forward) auto
  finally show ?case by simp
qed

text \<open>The alignment loop and the word loop: an invariant of what has been copied so far.\<close>

definition copied :: "u32 \<Rightarrow> u32 \<Rightarrow> nat \<Rightarrow> memory \<Rightarrow> u32 \<times> u32 \<times> nat \<times> memory \<Rightarrow> bool" where
  "copied d s n m r \<longleftrightarrow> (case r of (d', s', n', m') \<Rightarrow>
     n' \<le> n \<and> d' = d + of_nat (n - n') \<and> s' = s + of_nat (n - n') \<and> m' = moved d s (n - n') m)"

lemma copied_refl: "copied d s n m (d, s, n, m)"
  by (simp add: copied_def)

lemma copied_step:
  assumes c: "copied (d + of_nat k) (s + of_nat k) (n - k) (moved d s k m) r"
    and "k \<le> n" "n \<le> 4294967296" "d = s \<or> n \<le> unat (d - s)"
  shows "copied d s n m r"
proof -
  obtain d' s' n' m' where r: "r = (d', s', n', m')" by (metis prod_cases4)
  have c': "n' \<le> n - k" "d' = d + of_nat k + of_nat (n - k - n')" "s' = s + of_nat k + of_nat (n - k - n')"
    "m' = moved (d + of_nat k) (s + of_nat k) (n - k - n') (moved d s k m)"
    using c by (simp_all add: copied_def r)
  have e: "n - n' = k + (n - k - n')" using c'(1) assms(2) by linarith
  have "m' = moved d s (n - n') m"
    unfolding e c'(4) using assms(3,4) c'(1) assms(2) by (intro moved_forward) auto
  moreover have "d' = d + of_nat (n - n')" "s' = s + of_nat (n - n')"
    unfolding e using c'(2,3) by (simp_all add: add.assoc)
  moreover have "n' \<le> n" using c'(1) by linarith
  ultimately show ?thesis by (simp add: copied_def r)
qed

lemma copy_align_copied:
  "n \<le> 4294967296 \<Longrightarrow> d = s \<or> n \<le> unat (d - s) \<Longrightarrow> copied d s n m (copy_align d s n m)"
proof (induction n arbitrary: d s m)
  case 0
  then show ?case by (simp add: copied_refl)
next
  case (Suc n)
  show ?case
  proof (cases "d AND 3 \<noteq> 0 \<or> s AND 3 \<noteq> 0")
    case True
    have "copied (d + 1) (s + 1) n (m(d := m s)) (copy_align (d + 1) (s + 1) n (m(d := m s)))"
      using Suc.prems by (intro Suc.IH) auto
    moreover have "copy_align d s (Suc n) m = copy_align (d + 1) (s + 1) n (m(d := m s))" using True by simp
    ultimately have "copied (d + of_nat 1) (s + of_nat 1) (Suc n - 1) (moved d s 1 m) (copy_align d s (Suc n) m)"
      by (simp only: of_nat_1 diff_Suc_1 moved_one [symmetric])
    then show ?thesis by (rule copied_step) (use Suc.prems in auto)
  next
    case False
    then show ?thesis using copied_refl by auto
  qed
qed

lemma copy_words_copied:
  "n \<le> 4294967296 \<Longrightarrow> d = s \<or> n \<le> unat (d - s) \<Longrightarrow> copied d s n m (copy_words d s n m)"
proof (induction n arbitrary: d s m rule: less_induct)
  case (less n)
  show ?case
  proof (cases "4 \<le> n")
    case True
    have "copied (d + 4) (s + 4) (n - 4) (moved d s 4 m) (copy_words (d + 4) (s + 4) (n - 4) (moved d s 4 m))"
      using less.prems True by (intro less.IH) auto
    then have "copied (d + of_nat 4) (s + of_nat 4) (n - 4) (moved d s 4 m) (copy_words d s n m)"
      using True unfolding copy_words.simps [of d s n m] store32_load32 by simp
    then show ?thesis using True less.prems by (rule copied_step)
  next
    case False
    then show ?thesis unfolding copy_words.simps [of d s n m] using copied_refl by simp
  qed
qed

lemma copied_trans:
  assumes "copied d s n m (d1, s1, n1, m1)" "copied d1 s1 n1 m1 r" "n \<le> 4294967296" "d = s \<or> n \<le> unat (d - s)"
  shows "copied d s n m r"
proof (rule copied_step [of d "n - n1"])
  show "copied (d + of_nat (n - n1)) (s + of_nat (n - n1)) (n - (n - n1)) (moved d s (n - n1) m) r"
    using assms(1,2) by (simp add: copied_def)
qed (use assms in auto)

lemma copy_forward_moved:
  assumes "n \<le> 4294967296" "d = s \<or> n \<le> unat (d - s)"
  shows "copy_forward d s n m = moved d s n m"
proof -
  obtain d1 s1 n1 m1 where 1: "copy_align d s n m = (d1, s1, n1, m1)" by (metis prod_cases4)
  obtain d2 s2 n2 m2 where 2: "copy_words d1 s1 n1 m1 = (d2, s2, n2, m2)" by (metis prod_cases4)
  have c1: "copied d s n m (d1, s1, n1, m1)" using copy_align_copied [OF assms, of m] 1 by simp
  then have b1: "n1 \<le> n" "d1 - s1 = d - s" by (simp_all add: copied_def)
  then have p1: "n1 \<le> 4294967296" "d1 = s1 \<or> n1 \<le> unat (d1 - s1)" using assms by auto
  have c2: "copied d1 s1 n1 m1 (d2, s2, n2, m2)" using copy_words_copied [OF p1, of m1] 2 by simp
  then have b2: "n2 \<le> n1" "d2 - s2 = d1 - s1" by (simp_all add: copied_def)
  then have p2: "n2 \<le> 4294967296" "d2 = s2 \<or> n2 \<le> unat (d2 - s2)" using p1 by auto
  have c: "copied d s n m (d2, s2, n2, m2)" by (rule copied_trans [OF c1 c2 assms])
  have "copy_forward d s n m = moved d2 s2 n2 m2"
    using 1 2 copy_bytes_moved [OF p2] by (simp add: copy_forward_def)
  also have "\<dots> = moved (d + of_nat (n - n2)) (s + of_nat (n - n2)) n2 (moved d s (n - n2) m)"
    using c by (simp add: copied_def)
  also have "\<dots> = moved d s ((n - n2) + n2) m"
    using assms c by (intro moved_forward) (auto simp: copied_def)
  finally show ?thesis using c by (simp add: copied_def)
qed

text \<open>Backwards: the tail is moved first, down to the bytes that are left.\<close>

definition back_copied :: "u32 \<Rightarrow> u32 \<Rightarrow> nat \<Rightarrow> memory \<Rightarrow> u32 \<times> u32 \<times> nat \<times> memory \<Rightarrow> bool" where
  "back_copied d s n m r \<longleftrightarrow> (case r of (d', s', n', m') \<Rightarrow>
     n' \<le> n \<and> d' = d + of_nat n' \<and> s' = s + of_nat n' \<and> moved d s n' m' = moved d s n m)"

lemma back_moved_step:
  assumes "k \<le> n" "n \<le> 4294967296" "d = s \<or> n \<le> unat (s - d)"
  shows "moved d s (n - k) (moved (d + of_nat (n - k)) (s + of_nat (n - k)) k m) = moved d s n m"
  using moved_backward [of "n - k" k d s m] assms by simp

lemma back_align_copied:
  "n \<le> 4294967296 \<Longrightarrow> d = s \<or> n \<le> unat (s - d) \<Longrightarrow>
   back_copied d s n m (back_align (d + of_nat n) (s + of_nat n) n m)"
proof (induction n arbitrary: m)
  case 0
  then show ?case by (simp add: back_copied_def)
next
  case (Suc n)
  let ?D = "d + of_nat (Suc n)" and ?S = "s + of_nat (Suc n)"
  have e: "?D - 1 = d + of_nat n" "?S - 1 = s + of_nat n" by simp_all
  show ?case
  proof (cases "?D AND 3 \<noteq> 0 \<or> ?S AND 3 \<noteq> 0")
    case True
    have m1: "m(d + of_nat n := m (s + of_nat n)) = moved (d + of_nat n) (s + of_nat n) 1 m" by (rule moved_one)
    have bk: "moved d s n (moved (d + of_nat n) (s + of_nat n) 1 m) = moved d s (Suc n) m"
      using back_moved_step [of 1 "Suc n" d s m] Suc.prems by simp
    have "back_copied d s n (moved (d + of_nat n) (s + of_nat n) 1 m)
        (back_align (d + of_nat n) (s + of_nat n) n (moved (d + of_nat n) (s + of_nat n) 1 m))"
      using Suc.prems by (intro Suc.IH) auto
    moreover have "back_align ?D ?S (Suc n) m
        = back_align (d + of_nat n) (s + of_nat n) n (moved (d + of_nat n) (s + of_nat n) 1 m)"
      unfolding back_align.simps e m1 using True by (simp only: if_True)
    ultimately show ?thesis using bk by (auto simp: back_copied_def)
  next
    case False
    then have "back_align ?D ?S (Suc n) m = (?D, ?S, Suc n, m)" by (simp only: back_align.simps if_False)
    then show ?thesis by (simp add: back_copied_def)
  qed
qed

lemma back_words_copied:
  "n \<le> 4294967296 \<Longrightarrow> d = s \<or> n \<le> unat (s - d) \<Longrightarrow>
   back_copied d s n m (back_words (d + of_nat n) (s + of_nat n) n m)"
proof (induction n arbitrary: m rule: less_induct)
  case (less n)
  show ?case
  proof (cases "4 \<le> n")
    case True
    then obtain j where j: "n = j + 4" by (metis add.commute le_Suc_ex)
    have e: "d + of_nat n - 4 = d + of_nat j" "s + of_nat n - 4 = s + of_nat j" "n - 4 = j" by (simp_all add: j)
    let ?m = "moved (d + of_nat j) (s + of_nat j) 4 m"
    have "back_copied d s j ?m (back_words (d + of_nat j) (s + of_nat j) j ?m)"
      using less.prems j by (intro less.IH) auto
    moreover have "back_words (d + of_nat n) (s + of_nat n) n m = back_words (d + of_nat j) (s + of_nat j) j ?m"
      unfolding back_words.simps [of "d + of_nat n"] e store32_load32 using True by simp
    moreover have "moved d s j ?m = moved d s n m"
      using back_moved_step [of 4 n d s m] less.prems True e(3) by simp
    ultimately show ?thesis using e(3) by (auto simp: back_copied_def)
  next
    case False
    then have "back_words (d + of_nat n) (s + of_nat n) n m = (d + of_nat n, s + of_nat n, n, m)"
      by (simp add: back_words.simps [of "d + of_nat n"])
    then show ?thesis by (simp add: back_copied_def)
  qed
qed

lemma back_bytes_moved:
  "n \<le> 4294967296 \<Longrightarrow> d = s \<or> n \<le> unat (s - d) \<Longrightarrow>
   back_bytes (d + of_nat n) (s + of_nat n) n m = moved d s n m"
proof (induction n arbitrary: m)
  case 0
  then show ?case by simp
next
  case (Suc n)
  have e: "d + of_nat (Suc n) - 1 = d + of_nat n" "s + of_nat (Suc n) - 1 = s + of_nat n" by simp_all
  have "back_bytes (d + of_nat (Suc n)) (s + of_nat (Suc n)) (Suc n) m
      = back_bytes (d + of_nat n) (s + of_nat n) n (moved (d + of_nat n) (s + of_nat n) 1 m)"
    unfolding back_bytes.simps e moved_one ..
  also have "\<dots> = moved d s n (moved (d + of_nat n) (s + of_nat n) 1 m)"
    using Suc.prems by (intro Suc.IH) auto
  also have "\<dots> = moved d s (Suc n) m"
    using back_moved_step [of 1 "Suc n" d s m] Suc.prems by simp
  finally show ?case .
qed

lemma copy_backward_moved:
  assumes n: "n \<le> 4294967296" "d = s \<or> n \<le> unat (s - d)"
    and 1: "back_align (d + of_nat n) (s + of_nat n) n m = (d1, s1, n1, m1)"
    and 2: "back_words d1 s1 n1 m1 = (d2, s2, n2, m2)"
  shows "back_bytes d2 s2 n2 m2 = moved d s n m"
proof -
  have c1: "n1 \<le> n" "d1 = d + of_nat n1" "s1 = s + of_nat n1" "moved d s n1 m1 = moved d s n m"
    using back_align_copied [OF n, of m] 1 by (simp_all add: back_copied_def)
  then have p1: "n1 \<le> 4294967296" "d = s \<or> n1 \<le> unat (s - d)" using n by auto
  have c2: "n2 \<le> n1" "d2 = d + of_nat n2" "s2 = s + of_nat n2" "moved d s n2 m2 = moved d s n1 m1"
    using back_words_copied [OF p1, of m1] 2 c1 by (simp_all add: back_copied_def)
  then have p2: "n2 \<le> 4294967296" "d = s \<or> n2 \<le> unat (s - d)" using p1 by auto
  show ?thesis using back_bytes_moved [OF p2, of m2] c1 c2 by simp
qed

section \<open>The functions against their specification\<close>

lemma memcpy_moved:
  assumes "dest \<noteq> 0" "src \<noteq> 0" "dest = src \<or> unat n \<le> unat (dest - src)"
  shows "memcpy dest src n m = moved dest src (unat n) m"
  using assms copy_forward_moved [of "unat n" dest src m] unat_less_2p32 [of n]
  by (simp add: memcpy_def less_imp_le)

lemma memcpy_null: "dest = 0 \<or> src = 0 \<Longrightarrow> memcpy dest src n m = m"
  by (simp add: memcpy_def)

lemma memmove_fast_dest: "fst (memmove_fast dst src n m) = dst"
  by (simp add: memmove_fast_def split: prod.splits)

text \<open>\<open>memset_fast\<close>, with its alignment, word and tail loops, is \<open>memset\<close>: on every pointer,
  count and memory it leaves the same bytes, wrap-around of the address included.\<close>
theorem memset_fast_eq_memset: "memset_fast p v n m = memset p v n m"
  by (simp add: memset_fast_filled memset_filled)

text \<open>C6: \<open>memmove\<close> is right for every overlap: if neither range wraps around the address space,
  the \<open>n\<close> bytes at \<open>dst\<close> become what the memory held at \<open>src\<close> before the call, every other
  byte is kept, and \<open>dst\<close> is returned.\<close>
theorem memmove_correct:
  assumes "unat dst + unat n \<le> 2 ^ 32" "unat src + unat n \<le> 2 ^ 32"
  shows "memmove dst src n m = (dst, moved dst src (unat n) m)"
proof -
  consider "dst = src \<or> n = 0" | "dst \<noteq> src" "n \<noteq> 0" "dst < src" | "dst \<noteq> src" "n \<noteq> 0" "src < dst"
    by fastforce
  then show ?thesis
  proof cases
    case 1
    then show ?thesis by (auto simp: memmove_def memmove_fast_def)
  next
    case 2
    then have "unat n \<le> unat (dst - src)"
      using assms unat_sub_cases [of dst src] by (simp add: word_less_nat_alt)
    then have "copy_forward dst src (unat n) m = moved dst src (unat n) m"
      by (intro copy_forward_moved) (simp_all add: less_imp_le)
    with 2 show ?thesis by (simp add: memmove_def memmove_fast_def)
  next
    case 3
    then have "unat n \<le> unat (src - dst)"
      using assms unat_sub_cases [of src dst] by (simp add: word_less_nat_alt)
    note bk = copy_backward_moved [OF less_imp_le [OF unat_less_2p32] disjI2 [OF this]]
    obtain d1 s1 n1 m1 where 1: "back_align (dst + n) (src + n) (unat n) m = (d1, s1, n1, m1)" by (metis prod_cases4)
    obtain d2 s2 n2 m2 where 2: "back_words d1 s1 n1 m1 = (d2, s2, n2, m2)" by (metis prod_cases4)
    have "back_bytes d2 s2 n2 m2 = moved dst src (unat n) m" using bk [of m] 1 2 by simp
    moreover have "\<not> dst < src" using 3(3) by simp
    ultimately show ?thesis using 3 1 2 by (simp add: memmove_def memmove_fast_def)
  qed
qed

text \<open>Five bytes moved up by two over themselves, at an odd address.\<close>

theorem memmove_correct_witness:
  "memmove 0x103 0x101 5 (\<lambda>a. ucast a) = (0x103, moved 0x101 0x0FF 0 (\<lambda>a. if unat (a - 0x103) < 5 then ucast (a - 2) else ucast a))"
  using memmove_correct [of "0x103" 5 "0x101" "\<lambda>a. ucast a"]
  by (simp add: moved_def fun_eq_iff)

section \<open>Words and blocks in memory\<close>

definition in_block :: "u32 \<Rightarrow> nat \<Rightarrow> u32 \<Rightarrow> bool" where
  "in_block p n x \<longleftrightarrow> unat p \<le> unat x \<and> unat x < unat p + n"

lemma load32_cong:
  assumes "m' a = m a" "m' (a + 1) = m (a + 1)" "m' (a + 2) = m (a + 2)" "m' (a + 3) = m (a + 3)"
  shows "load32 m' a = load32 m a"
  using assms by (simp add: load32_def)

lemma unat_plus_small: "unat a + k < 4294967296 \<Longrightarrow> unat (a + of_nat k :: u32) = unat a + k"
  by (subst unat_add_no_wrap) (simp_all add: unat_of_nat_u32)

lemma load32_block:
  assumes "\<And>x. in_block p n x \<Longrightarrow> m' x = m x" "in_block p n a" "unat a + 3 < unat p + n" "unat p + n \<le> 4294967296"
  shows "load32 m' a = load32 m a"
proof -
  have "in_block p n (a + of_nat k)" if "k \<le> 3" for k
    using assms(2-4) that by (simp add: in_block_def unat_plus_small)
  from this [of 0] this [of 1] this [of 2] this [of 3] show ?thesis
    by (intro load32_cong assms(1)) simp_all
qed

lemma store32_outside:
  assumes "unat a + 4 \<le> 4294967296" "unat x < unat a \<or> unat a + 4 \<le> unat x"
  shows "store32 a v m x = m x"
proof -
  have "x \<noteq> a + of_nat k" if "k \<le> 3" for k
    using assms that unat_plus_small [of a k] by auto
  from this [of 0] this [of 1] this [of 2] this [of 3] show ?thesis by (simp add: store32_def)
qed

lemma load32_store32: "load32 (store32 a v m) a = v"
  using u32_bytes_join [of v] by (simp add: load32_def store32_def)

lemma slot_unat:
  fixes p i :: u32
  assumes "unat p + 4 * n \<le> 4294967296" "unat i < n"
  shows "unat (p + 4 * i) = unat p + 4 * unat i"
proof -
  have "unat (4 * i) = 4 * unat i" using assms unat_mult_no_wrap [of 4 i] by simp
  then show ?thesis using assms by (subst unat_add_no_wrap) simp_all
qed

lemma slot_in_block:
  fixes p i :: u32
  assumes "unat p + 4 * n \<le> 4294967296" "unat i < n"
  shows "in_block p (4 * n) (p + 4 * i)" "unat (p + 4 * i) + 3 < unat p + 4 * n"
  using slot_unat [OF assms] assms(2) by (simp_all add: in_block_def)

text \<open>Storing into one slot of a table.\<close>

lemma store_slot_other:
  fixes p i i' :: u32
  assumes "unat p + 4 * n \<le> 4294967296" "unat i < n" "unat i' < n" "i \<noteq> i'"
  shows "load32 (store32 (p + 4 * i) v m) (p + 4 * i') = load32 m (p + 4 * i')"
proof -
  note u = slot_unat [OF assms(1,2)] slot_unat [OF assms(1,3)]
  have ne: "unat i \<noteq> unat i'" using assms(4) by (simp add: u32_eq_nat_iff)
  have "store32 (p + 4 * i) v m (p + 4 * i' + of_nat k) = m (p + 4 * i' + of_nat k)" if "k \<le> 3" for k
  proof (rule store32_outside)
    have "unat (p + 4 * i' + of_nat k) = unat p + 4 * unat i' + k"
      using u(2) assms(1,3) that by (subst unat_plus_small) simp_all
    then show "unat (p + 4 * i' + of_nat k) < unat (p + 4 * i) \<or> unat (p + 4 * i) + 4 \<le> unat (p + 4 * i' + of_nat k)"
      using u(1) ne that by linarith
    show "unat (p + 4 * i) + 4 \<le> 4294967296" using u(1) assms(1,2) by linarith
  qed
  from this [of 0] this [of 1] this [of 2] this [of 3] show ?thesis by (intro load32_cong) simp_all
qed

lemma store_slot_outside:
  fixes p i :: u32
  assumes "unat p + 4 * n \<le> 4294967296" "unat i < n" "\<not> in_block p (4 * n) x"
  shows "store32 (p + 4 * i) v m x = m x"
  using slot_unat [OF assms(1,2)] assms by (intro store32_outside) (auto simp: in_block_def)

section \<open>The linear allocator\<close>

definition INIT_KLALLOC_ADDR :: u32 where
  "INIT_KLALLOC_ADDR = 0xC1000000"

definition klalloc :: "u32 \<Rightarrow> u32 \<Rightarrow> u32 \<times> u32" where
  "klalloc sz current_alloc =
     (let a = (if current_alloc mod 8 \<noteq> 0 then current_alloc + (8 - current_alloc mod 8) else current_alloc)
      in (a, a + sz))"

definition klfreeall :: "u32 \<Rightarrow> u32" where
  "klfreeall current_alloc = INIT_KLALLOC_ADDR"

lemma klalloc_bump:
  assumes "klalloc sz cur = (a, cur')" "unat cur + 7 + unat sz < 2 ^ 32"
  shows "8 dvd unat a \<and> unat cur \<le> unat a \<and> unat a < unat cur + 8 \<and> unat cur' = unat a + unat sz"
proof -
  have m: "unat (cur mod 8) = unat cur mod 8" by (simp add: unat_mod_distrib)
  have lt: "unat cur mod 8 < 8" by simp
  have s: "unat (8 - cur mod 8) = 8 - unat cur mod 8"
    using unat_sub_le [of "cur mod 8" 8] m lt by (simp add: word_le_nat_alt)
  show ?thesis
  proof (cases "cur mod 8 = 0")
    case True
    then have "a = cur" "cur' = cur + sz" using assms(1) by (auto simp: klalloc_def)
    moreover have "8 dvd unat cur" using True word_mod_zero_iff [of cur 8] by simp
    ultimately show ?thesis using assms(2) by (simp add: unat_add_no_wrap)
  next
    case False
    then have a: "a = cur + (8 - cur mod 8)" and c: "cur' = a + sz" using assms(1) by (auto simp: klalloc_def Let_def)
    have nz: "unat cur mod 8 \<noteq> 0" using False m by (metis unat_eq_0)
    have ua: "unat a = unat cur + (8 - unat cur mod 8)" unfolding a using assms(2) s lt nz
      by (subst unat_add_no_wrap) (simp_all, linarith?)
    have "8 dvd unat a" unfolding ua using lt by presburger
    moreover have "unat cur' = unat a + unat sz" unfolding c using ua assms(2) nz lt
      by (intro unat_add_no_wrap) (simp, linarith?)
    ultimately show ?thesis using ua nz lt by simp
  qed
qed

end
