(* ===== verification/Cstr.thy ===== *)
theory Cstr
  imports Pimath
begin

text \<open>
  The string routines of lib/src/cstr.c and the checksum of lib/include/crc32.h. A \<open>char *\<close> is
  the list of the bytes from the pointer on; the string ends at the first NUL byte of the list or
  at the end of the list, and a possibly null pointer is an option. A growing output pointer
  \<open>char **buf\<close> is the list of the bytes written through it so far. \<open>char\<close> is unsigned on this target.
\<close>

type_synonym bytes = "u8 list"

section \<open>The code\<close>

fun strlen_from :: "bytes \<Rightarrow> u32" where
  "strlen_from [] = 0"
| "strlen_from (c # s) = (if c = 0 then 0 else 1 + strlen_from s)"

definition strlen :: "bytes option \<Rightarrow> u32" where
  "strlen s = (case s of None \<Rightarrow> 0 | Some t \<Rightarrow> strlen_from t)"

definition first_byte :: "bytes \<Rightarrow> u8" where
  "first_byte s = (case s of [] \<Rightarrow> 0 | c # _ \<Rightarrow> c)"

fun str_eq :: "bytes \<Rightarrow> bytes \<Rightarrow> bool" where
  "str_eq (x # a) (y # b) =
     (if x \<noteq> 0 \<and> y \<noteq> 0 then (if x \<noteq> y then False else str_eq a b) else x = 0 \<and> y = 0)"
| "str_eq a b = (first_byte a = 0 \<and> first_byte b = 0)"

fun strn_eq :: "bytes \<Rightarrow> bytes \<Rightarrow> nat \<Rightarrow> bool" where
  "strn_eq (x # a) (y # b) (Suc n) =
     (if x \<noteq> 0 \<and> y \<noteq> 0 then (if x \<noteq> y then False else strn_eq a b n) else True)"
| "strn_eq a b n = True"

fun match_needle :: "bytes \<Rightarrow> bytes \<Rightarrow> bool" where
  "match_needle (x # h) (y # n) =
     (if x \<noteq> 0 \<and> y \<noteq> 0 \<and> x = y then match_needle h n else y = 0)"
| "match_needle h n = (first_byte n = 0)"

fun strstr_from :: "bytes \<Rightarrow> bytes \<Rightarrow> nat \<Rightarrow> nat option" where
  "strstr_from [] needle i = None"
| "strstr_from (c # h) needle i =
     (if c = 0 then None
      else if match_needle (c # h) needle then Some i
      else strstr_from h needle (i + 1))"

definition strstr :: "bytes \<Rightarrow> bytes \<Rightarrow> nat option" where
  "strstr haystack needle = (if first_byte needle = 0 then Some 0 else strstr_from haystack needle 0)"

fun strrchr_from :: "bytes \<Rightarrow> u8 \<Rightarrow> nat \<Rightarrow> nat option \<Rightarrow> nat option" where
  "strrchr_from [] c i found = found"
| "strrchr_from (x # s) c i found =
     (if x = 0 then found else strrchr_from s c (i + 1) (if x = c then Some i else found))"

definition strrchr :: "bytes option \<Rightarrow> u32 \<Rightarrow> nat option" where
  "strrchr s c = (case s of None \<Rightarrow> None | Some t \<Rightarrow> strrchr_from t (ucast c) 0 None)"

text \<open>The digit loop of \<open>sprint_uint\<close>: \<open>temp\<close> has room for 33 characters, a write past it has no value.\<close>

definition digit_char :: "u32 \<Rightarrow> u8" where
  "digit_char rem = (if rem < 10 then ucast (rem + 48) else ucast (rem - 10 + 97))"

fun digit_loop :: "nat \<Rightarrow> u32 \<Rightarrow> u32 \<Rightarrow> bytes \<Rightarrow> bytes option" where
  "digit_loop room num base temp =
     (if num = 0 then Some temp
      else case room of 0 \<Rightarrow> None
      | Suc r \<Rightarrow> (case udivmod num base of (quot, rem) \<Rightarrow> digit_loop r quot base (temp @ [digit_char rem])))"

definition sprint_uint :: "bytes \<Rightarrow> u32 \<Rightarrow> u32 \<Rightarrow> bytes option" where
  "sprint_uint buf num base =
     (if num = 0 then Some (buf @ [48])
      else case digit_loop 33 num base [] of None \<Rightarrow> None | Some temp \<Rightarrow> Some (buf @ rev temp))"

definition sprint_int :: "bytes \<Rightarrow> u32 \<Rightarrow> u32 \<Rightarrow> bytes option" where
  "sprint_int buf num base =
     (if num <s 0 \<and> base = 10 then sprint_uint (buf @ [45]) (- num) base else sprint_uint buf num base)"

definition sprint_char :: "bytes \<Rightarrow> u8 \<Rightarrow> bytes" where
  "sprint_char buf c = buf @ [c]"

fun sprint_str :: "bytes \<Rightarrow> bytes \<Rightarrow> bytes" where
  "sprint_str buf [] = buf"
| "sprint_str buf (c # s) = (if c = 0 then buf else sprint_str (buf @ [c]) s)"

text \<open>The variable arguments: a machine word, or a pointer to a string. Reading an argument that
  is not there, or reading a word as a string, has no value, and so has a format that ends in a
  lone percent sign, since the loop then steps over the terminator.\<close>

datatype va_arg = VWord u32 | VStr bytes

definition conv_spec :: "u8 \<Rightarrow> bytes \<Rightarrow> va_arg list \<Rightarrow> (bytes \<times> va_arg list) option" where
  "conv_spec c buf args =
     (if c = 100 then (case args of VWord v # r \<Rightarrow> map_option (\<lambda>b. (b, r)) (sprint_int buf v 10) | _ \<Rightarrow> None)
      else if c = 98 then (case args of VWord v # r \<Rightarrow> map_option (\<lambda>b. (b, r)) (sprint_int buf v 2) | _ \<Rightarrow> None)
      else if c = 117 then (case args of VWord v # r \<Rightarrow> map_option (\<lambda>b. (b, r)) (sprint_uint buf v 10) | _ \<Rightarrow> None)
      else if c = 120 then (case args of VWord v # r \<Rightarrow>
        map_option (\<lambda>b. (b, r)) (sprint_uint (sprint_str buf [48, 120]) v 16) | _ \<Rightarrow> None)
      else if c = 99 then (case args of VWord v # r \<Rightarrow> Some (sprint_char buf (ucast v), r) | _ \<Rightarrow> None)
      else if c = 115 then (case args of VStr s # r \<Rightarrow> Some (sprint_str buf s, r) | _ \<Rightarrow> None)
      else if c = 112 then (case args of VWord v # r \<Rightarrow>
        map_option (\<lambda>b. (b, r)) (sprint_uint (sprint_str buf [48, 120]) v 16) | _ \<Rightarrow> None)
      else if c = 37 then Some (sprint_char buf 37, args)
      else Some (sprint_char buf c, args))"

fun vsprintf_loop :: "bytes \<Rightarrow> bytes \<Rightarrow> va_arg list \<Rightarrow> bytes option" where
  "vsprintf_loop buf [] args = Some buf"
| "vsprintf_loop buf (f # fmt) args =
     (if f = 0 then Some buf
      else if f = 37 then
        (case fmt of [] \<Rightarrow> None
         | c # rest \<Rightarrow> if c = 0 then None
             else (case conv_spec c buf args of None \<Rightarrow> None | Some (buf', args') \<Rightarrow> vsprintf_loop buf' rest args'))
      else vsprintf_loop (sprint_char buf f) fmt args)"

definition vsprintf :: "bytes \<Rightarrow> va_arg list \<Rightarrow> bytes option" where
  "vsprintf fmt args = map_option (\<lambda>b. b @ [0]) (vsprintf_loop [] fmt args)"

definition sprintf :: "bytes \<Rightarrow> va_arg list \<Rightarrow> bytes option" where
  "sprintf fmt args = vsprintf fmt args"

text \<open>\<open>vnprintk\<close> formats into a local array of \<open>len\<close> bytes and prints the string in it; the output
  is what goes to the UART. Output that does not fit the array has no value.\<close>

definition vnprintk :: "bytes \<Rightarrow> nat \<Rightarrow> va_arg list \<Rightarrow> bytes option" where
  "vnprintk fmt len args =
     (case vsprintf fmt args of None \<Rightarrow> None
      | Some b \<Rightarrow> if length b \<le> len then Some (takeWhile (\<lambda>c. c \<noteq> 0) b) else None)"

definition printk :: "bytes \<Rightarrow> va_arg list \<Rightarrow> bytes option" where
  "printk fmt args = vnprintk fmt 1024 args"

definition force_printk :: "bytes \<Rightarrow> va_arg list \<Rightarrow> bytes option" where
  "force_printk fmt args = vnprintk fmt 1024 args"

declare digit_loop.simps [simp del]

section \<open>Comparison and search\<close>

definition cstring :: "bytes \<Rightarrow> bytes" where
  "cstring s = takeWhile (\<lambda>c. c \<noteq> 0) s"

lemma cstring_simps [simp]:
  "cstring [] = []" "cstring (c # s) = (if c = 0 then [] else c # cstring s)"
  by (simp_all add: cstring_def)

lemma first_byte_simps [simp]: "first_byte [] = 0" "first_byte (c # s) = c"
  by (simp_all add: first_byte_def)

lemma first_byte_zero: "first_byte s = 0 \<longleftrightarrow> cstring s = []"
  by (cases s) auto

lemma strlen_length: "strlen (Some s) = of_nat (length (cstring s))"
proof -
  have "strlen_from s = of_nat (length (cstring s))" by (induction s) auto
  then show ?thesis by (simp add: strlen_def)
qed

lemma str_eq_cstring: "str_eq a b \<longleftrightarrow> cstring a = cstring b"
  by (induction a b rule: str_eq.induct) (auto simp: first_byte_zero)

lemma strn_eq_cstring:
  "strn_eq a b n \<longleftrightarrow>
   (let k = min n (min (length (cstring a)) (length (cstring b))) in take k (cstring a) = take k (cstring b))"
  by (induction a b n rule: strn_eq.induct) (auto simp: Let_def)

lemma strn_eq_same_length:
  "length (cstring a) = length (cstring b) \<Longrightarrow> strn_eq a b n \<longleftrightarrow> take n (cstring a) = take n (cstring b)"
  unfolding strn_eq_cstring Let_def by (cases "n \<le> length (cstring b)") simp_all

lemma match_needle_prefix: "match_needle h n \<longleftrightarrow> take (length (cstring n)) (cstring h) = cstring n"
  by (induction h n rule: match_needle.induct) (auto simp: first_byte_zero)

lemma strstr_from_Some:
  "strstr_from h n i = Some j \<longleftrightarrow>
   (\<exists>k < length (cstring h). j = i + k \<and> match_needle (drop k h) n \<and> (\<forall>l < k. \<not> match_needle (drop l h) n))"
proof (induction h arbitrary: i)
  case Nil
  then show ?case by simp
next
  case (Cons c h)
  show ?case
  proof (cases "c = 0 \<or> match_needle (c # h) n")
    case True
    then show ?thesis
    proof (cases "c = 0")
      case False
      with True have m: "match_needle (c # h) n" by simp
      show ?thesis
      proof
        assume "strstr_from (c # h) n i = Some j"
        with False m show "\<exists>k < length (cstring (c # h)). j = i + k \<and> match_needle (drop k (c # h)) n
            \<and> (\<forall>l < k. \<not> match_needle (drop l (c # h)) n)"
          by (intro exI [of _ 0]) simp
      next
        assume "\<exists>k < length (cstring (c # h)). j = i + k \<and> match_needle (drop k (c # h)) n
            \<and> (\<forall>l < k. \<not> match_needle (drop l (c # h)) n)"
        then obtain k where k: "j = i + k" "\<forall>l < k. \<not> match_needle (drop l (c # h)) n" by blast
        with m have "k = 0" by (metis drop0 gr0I)
        with False m k show "strstr_from (c # h) n i = Some j" by simp
      qed
    qed simp
  next
    case False
    then have "strstr_from (c # h) n i = Some j \<longleftrightarrow> strstr_from h n (i + 1) = Some j" by simp
    also have "\<dots> \<longleftrightarrow> (\<exists>k < length (cstring h). j = i + 1 + k \<and> match_needle (drop k h) n
        \<and> (\<forall>l < k. \<not> match_needle (drop l h) n))" by (rule Cons.IH)
    also have "\<dots> \<longleftrightarrow> (\<exists>k < length (cstring (c # h)). j = i + k \<and> match_needle (drop k (c # h)) n
        \<and> (\<forall>l < k. \<not> match_needle (drop l (c # h)) n))" (is "?A \<longleftrightarrow> ?B")
    proof
      assume ?A
      then obtain k where "k < length (cstring h)" "j = i + 1 + k" "match_needle (drop k h) n"
        "\<forall>l < k. \<not> match_needle (drop l h) n" by blast
      with False show ?B by (intro exI [of _ "Suc k"]) (auto simp: less_Suc_eq_0_disj)
    next
      assume ?B
      then obtain k where k: "k < length (cstring (c # h))" "j = i + k" "match_needle (drop k (c # h)) n"
        "\<forall>l < k. \<not> match_needle (drop l (c # h)) n" by blast
      with False obtain k' where "k = Suc k'" by (cases k) auto
      with False k show ?A by (intro exI [of _ k']) auto
    qed
    finally show ?thesis .
  qed
qed

lemma cstring_drop: "k \<le> length (cstring h) \<Longrightarrow> cstring (drop k h) = drop k (cstring h)"
proof (induction h arbitrary: k)
  case (Cons c h)
  then show ?case by (cases k) auto
qed simp

text \<open>\<open>occurs h n k\<close>: the string \<open>n\<close> stands at offset \<open>k\<close> of the string \<open>h\<close>.\<close>

definition occurs :: "bytes \<Rightarrow> bytes \<Rightarrow> nat \<Rightarrow> bool" where
  "occurs h n k \<longleftrightarrow> k \<le> length h \<and> take (length n) (drop k h) = n"

lemma occurs_match: "k \<le> length (cstring h) \<Longrightarrow> occurs (cstring h) (cstring n) k \<longleftrightarrow> match_needle (drop k h) n"
  by (simp add: occurs_def match_needle_prefix cstring_drop)

text \<open>\<open>strstr\<close> finds the first occurrence: it returns offset \<open>j\<close> exactly when the needle stands
  at offset \<open>j\<close> of the string and at no offset before it, and null exactly when there is none.\<close>
theorem strstr_first:
  "strstr h n = Some j \<longleftrightarrow> occurs (cstring h) (cstring n) j \<and> (\<forall>i < j. \<not> occurs (cstring h) (cstring n) i)"
proof (cases "cstring n = []")
  case True
  then show ?thesis by (auto simp: strstr_def first_byte_zero occurs_def)
next
  case False
  have bound: "occurs (cstring h) (cstring n) k \<Longrightarrow> k < length (cstring h)" for k
    using False by (cases "k < length (cstring h)") (auto simp: occurs_def)
  have "strstr h n = Some j \<longleftrightarrow> (\<exists>k < length (cstring h). j = k \<and> match_needle (drop k h) n
      \<and> (\<forall>l < k. \<not> match_needle (drop l h) n))"
    using False by (simp add: strstr_def first_byte_zero strstr_from_Some)
  also have "\<dots> \<longleftrightarrow> j < length (cstring h) \<and> occurs (cstring h) (cstring n) j
      \<and> (\<forall>i < j. \<not> occurs (cstring h) (cstring n) i)"
    by (auto simp: occurs_match)
  finally show ?thesis using bound by blast
qed

theorem strstr_first_witness: "strstr [97, 98, 99, 98, 99, 100, 0] [98, 99, 100, 0] = Some 3"
  using strstr_first [of "[97, 98, 99, 98, 99, 100, 0]" "[98, 99, 100, 0]" 3]
  by (simp add: occurs_def less_Suc_eq numeral_3_eq_3)

section \<open>Numbers\<close>

definition digit_val :: "u8 \<Rightarrow> nat" where
  "digit_val c = (if unat c < 58 then unat c - 48 else unat c - 87)"

fun value_of :: "nat \<Rightarrow> bytes \<Rightarrow> nat" where
  "value_of b [] = 0"
| "value_of b (c # ds) = digit_val c + b * value_of b ds"

lemma digit_val_char:
  assumes "unat d < 36"
  shows "digit_val (digit_char d) = unat d"
proof (cases "unat d < 10")
  case True
  have "unat (d + 48) = unat d + 48" using True by (subst unat_add_no_wrap) simp_all
  then have "unat (ucast (d + 48) :: u8) = unat d + 48" using True by (simp add: unsigned_ucast_eq take_bit_eq_mod)
  then show ?thesis using True by (simp add: digit_char_def digit_val_def word_less_nat_alt)
next
  case False
  have "unat (d - 10 + 97) = unat d + 87"
  proof -
    have "unat (d - 10) = unat d - 10" using False by (simp add: unat_sub_le word_le_nat_alt)
    then show ?thesis using False assms by (subst unat_add_no_wrap) simp_all
  qed
  then have "unat (ucast (d - 10 + 97) :: u8) = unat d + 87" using assms by (simp add: unsigned_ucast_eq take_bit_eq_mod)
  then show ?thesis using False by (simp add: digit_char_def digit_val_def word_less_nat_alt)
qed

lemma digit_loop_value:
  assumes "2 \<le> unat base" "unat base \<le> 36"
  shows "unat num < 2 ^ room \<Longrightarrow>
    \<exists>ds. digit_loop room num base temp = Some (temp @ ds) \<and> value_of (unat base) ds = unat num \<and> length ds \<le> room
      \<and> (ds \<noteq> [] \<longrightarrow> digit_val (last ds) \<noteq> 0)"
proof (induction room arbitrary: num temp)
  case 0
  then have "num = 0" by (simp add: unat_eq_0)
  then show ?case by (simp add: digit_loop.simps [of 0])
next
  case (Suc room)
  show ?case
  proof (cases "num = 0")
    case True
    then show ?thesis by (simp add: digit_loop.simps [of "Suc room"])
  next
    case False
    have nz: "base \<noteq> 0" using assms by auto
    have "unat (num div base) = unat num div unat base" by (simp add: unat_div_distrib)
    also have "\<dots> \<le> unat num div 2" using assms(1) by (intro div_le_mono2) simp_all
    finally have q: "unat (num div base) < 2 ^ room" using Suc.prems by simp
    let ?t = "temp @ [digit_char (num mod base)]"
    obtain ds where ds: "digit_loop room (num div base) base ?t = Some (?t @ ds)"
      "value_of (unat base) ds = unat (num div base)" "length ds \<le> room" "ds \<noteq> [] \<longrightarrow> digit_val (last ds) \<noteq> 0"
      using Suc.IH [OF q] by blast
    have step: "digit_loop (Suc room) num base temp = Some (temp @ (digit_char (num mod base) # ds))"
      using False ds(1) by (simp add: digit_loop.simps [of "Suc room"] udivmod_div_mod [OF nz])
    have m: "unat (num mod base) = unat num mod unat base" by (simp add: unat_mod_distrib)
    have "unat (num mod base) < 36"
      using assms m mod_less_divisor [of "unat base" "unat num"] by linarith
    then have d: "digit_val (digit_char (num mod base)) = unat num mod unat base"
      using m by (simp add: digit_val_char)
    have v: "value_of (unat base) (digit_char (num mod base) # ds) = unat num"
      using ds(2) d by (simp add: unat_div_distrib)
    have l: "digit_val (last (digit_char (num mod base) # ds)) \<noteq> 0"
    proof (cases "ds = []")
      case True
      with v d False show ?thesis by (simp add: unat_eq_0)
    next
      case False
      with ds(4) show ?thesis by simp
    qed
    show ?thesis using step v l ds(3) by (intro exI [of _ "digit_char (num mod base) # ds"]) simp
  qed
qed

text \<open>Printing a number and reading it back gives the number, in every base from 2 to 36: the
  routine never overruns its 33-character scratch array, appends between one and 32 digits to the
  buffer, and their value, most significant digit first, is the number. There is no leading zero,
  but for zero itself.\<close>
theorem sprint_uint_roundtrip:
  assumes "2 \<le> unat base" "unat base \<le> 36"
  shows "\<exists>ds. sprint_uint buf num base = Some (buf @ ds) \<and> value_of (unat base) (rev ds) = unat num
    \<and> 1 \<le> length ds \<and> length ds \<le> 32 \<and> (num \<noteq> 0 \<longrightarrow> digit_val (hd ds) \<noteq> 0)"
proof (cases "num = 0")
  case True
  have "digit_val 48 = 0" by (simp add: digit_val_def)
  then show ?thesis using True by (intro exI [of _ "[48]"]) (simp add: sprint_uint_def)
next
  case False
  obtain ds where ds: "digit_loop 32 num base [] = Some ds" "value_of (unat base) ds = unat num" "length ds \<le> 32"
    "ds \<noteq> [] \<longrightarrow> digit_val (last ds) \<noteq> 0"
    using digit_loop_value [OF assms, of num 32 "[]"] by auto
  obtain es where es: "digit_loop 33 num base [] = Some es" "value_of (unat base) es = unat num"
    "es \<noteq> [] \<longrightarrow> digit_val (last es) \<noteq> 0"
    using digit_loop_value [OF assms, of num 33 "[]"] unat_less_2p32 [of num] by auto
  have mono: "digit_loop r n base t = Some ds' \<Longrightarrow> digit_loop (Suc r) n base t = Some ds'" for r n t ds'
  proof (induction r arbitrary: n t)
    case 0
    then show ?case by (simp add: digit_loop.simps split: if_splits)
  next
    case (Suc r)
    then show ?case
      by (simp add: digit_loop.simps [of "Suc r" n] digit_loop.simps [of "Suc (Suc r)" n] split: if_splits prod.splits)
  qed
  have eq: "digit_loop 33 num base [] = Some ds" using mono [OF ds(1)] by (simp add: eval_nat_numeral)
  have "ds \<noteq> []" using ds(2) False by (auto simp: unat_eq_0)
  with eq ds False show ?thesis
    by (intro exI [of _ "rev ds"]) (auto simp: sprint_uint_def hd_rev Suc_le_eq)
qed

theorem sprint_uint_roundtrip_witness:
  "\<exists>ds. sprint_uint [120] 48879 16 = Some ([120] @ ds) \<and> value_of 16 (rev ds) = 48879"
  using sprint_uint_roundtrip [of 16 "[120]" 48879] by auto

text \<open>The remaining format features on concrete input.\<close>

lemma vsprintf_mixed:
  "vsprintf [37, 100, 32, 37, 120, 37, 115, 37, 37, 0] [VWord (- 7), VWord 255, VStr [33, 0]]
     = Some [45, 55, 32, 48, 120, 102, 102, 33, 37, 0]"
  by code_simp

lemma vsprintf_lone_percent: "vsprintf [97, 37, 0] [] = None"
  by (simp add: vsprintf_def)

end
