(* ===== verification/Crc32.thy ===== *)
theory Crc32
  imports Prelude
begin

text \<open>
  The CRC-32 of lib/include/crc32.h: the table-driven routine, and the bitwise division by the
  reflected polynomial 0xEDB88320 it is an optimisation of.
\<close>

section \<open>The code\<close>

definition crc32_tab :: "u32 list" where
  "crc32_tab = [
    0x00000000, 0x77073096, 0xee0e612c, 0x990951ba, 0x076dc419, 0x706af48f, 0xe963a535, 0x9e6495a3,
    0x0edb8832, 0x79dcb8a4, 0xe0d5e91e, 0x97d2d988, 0x09b64c2b, 0x7eb17cbd, 0xe7b82d07, 0x90bf1d91,
    0x1db71064, 0x6ab020f2, 0xf3b97148, 0x84be41de, 0x1adad47d, 0x6ddde4eb, 0xf4d4b551, 0x83d385c7,
    0x136c9856, 0x646ba8c0, 0xfd62f97a, 0x8a65c9ec, 0x14015c4f, 0x63066cd9, 0xfa0f3d63, 0x8d080df5,
    0x3b6e20c8, 0x4c69105e, 0xd56041e4, 0xa2677172, 0x3c03e4d1, 0x4b04d447, 0xd20d85fd, 0xa50ab56b,
    0x35b5a8fa, 0x42b2986c, 0xdbbbc9d6, 0xacbcf940, 0x32d86ce3, 0x45df5c75, 0xdcd60dcf, 0xabd13d59,
    0x26d930ac, 0x51de003a, 0xc8d75180, 0xbfd06116, 0x21b4f4b5, 0x56b3c423, 0xcfba9599, 0xb8bda50f,
    0x2802b89e, 0x5f058808, 0xc60cd9b2, 0xb10be924, 0x2f6f7c87, 0x58684c11, 0xc1611dab, 0xb6662d3d,
    0x76dc4190, 0x01db7106, 0x98d220bc, 0xefd5102a, 0x71b18589, 0x06b6b51f, 0x9fbfe4a5, 0xe8b8d433,
    0x7807c9a2, 0x0f00f934, 0x9609a88e, 0xe10e9818, 0x7f6a0dbb, 0x086d3d2d, 0x91646c97, 0xe6635c01,
    0x6b6b51f4, 0x1c6c6162, 0x856530d8, 0xf262004e, 0x6c0695ed, 0x1b01a57b, 0x8208f4c1, 0xf50fc457,
    0x65b0d9c6, 0x12b7e950, 0x8bbeb8ea, 0xfcb9887c, 0x62dd1ddf, 0x15da2d49, 0x8cd37cf3, 0xfbd44c65,
    0x4db26158, 0x3ab551ce, 0xa3bc0074, 0xd4bb30e2, 0x4adfa541, 0x3dd895d7, 0xa4d1c46d, 0xd3d6f4fb,
    0x4369e96a, 0x346ed9fc, 0xad678846, 0xda60b8d0, 0x44042d73, 0x33031de5, 0xaa0a4c5f, 0xdd0d7cc9,
    0x5005713c, 0x270241aa, 0xbe0b1010, 0xc90c2086, 0x5768b525, 0x206f85b3, 0xb966d409, 0xce61e49f,
    0x5edef90e, 0x29d9c998, 0xb0d09822, 0xc7d7a8b4, 0x59b33d17, 0x2eb40d81, 0xb7bd5c3b, 0xc0ba6cad,
    0xedb88320, 0x9abfb3b6, 0x03b6e20c, 0x74b1d29a, 0xead54739, 0x9dd277af, 0x04db2615, 0x73dc1683,
    0xe3630b12, 0x94643b84, 0x0d6d6a3e, 0x7a6a5aa8, 0xe40ecf0b, 0x9309ff9d, 0x0a00ae27, 0x7d079eb1,
    0xf00f9344, 0x8708a3d2, 0x1e01f268, 0x6906c2fe, 0xf762575d, 0x806567cb, 0x196c3671, 0x6e6b06e7,
    0xfed41b76, 0x89d32be0, 0x10da7a5a, 0x67dd4acc, 0xf9b9df6f, 0x8ebeeff9, 0x17b7be43, 0x60b08ed5,
    0xd6d6a3e8, 0xa1d1937e, 0x38d8c2c4, 0x4fdff252, 0xd1bb67f1, 0xa6bc5767, 0x3fb506dd, 0x48b2364b,
    0xd80d2bda, 0xaf0a1b4c, 0x36034af6, 0x41047a60, 0xdf60efc3, 0xa867df55, 0x316e8eef, 0x4669be79,
    0xcb61b38c, 0xbc66831a, 0x256fd2a0, 0x5268e236, 0xcc0c7795, 0xbb0b4703, 0x220216b9, 0x5505262f,
    0xc5ba3bbe, 0xb2bd0b28, 0x2bb45a92, 0x5cb36a04, 0xc2d7ffa7, 0xb5d0cf31, 0x2cd99e8b, 0x5bdeae1d,
    0x9b64c2b0, 0xec63f226, 0x756aa39c, 0x026d930a, 0x9c0906a9, 0xeb0e363f, 0x72076785, 0x05005713,
    0x95bf4a82, 0xe2b87a14, 0x7bb12bae, 0x0cb61b38, 0x92d28e9b, 0xe5d5be0d, 0x7cdcefb7, 0x0bdbdf21,
    0x86d3d2d4, 0xf1d4e242, 0x68ddb3f8, 0x1fda836e, 0x81be16cd, 0xf6b9265b, 0x6fb077e1, 0x18b74777,
    0x88085ae6, 0xff0f6a70, 0x66063bca, 0x11010b5c, 0x8f659eff, 0xf862ae69, 0x616bffd3, 0x166ccf45,
    0xa00ae278, 0xd70dd2ee, 0x4e048354, 0x3903b3c2, 0xa7672661, 0xd06016f7, 0x4969474d, 0x3e6e77db,
    0xaed16a4a, 0xd9d65adc, 0x40df0b66, 0x37d83bf0, 0xa9bcae53, 0xdebb9ec5, 0x47b2cf7f, 0x30b5ffe9,
    0xbdbdf21c, 0xcabac28a, 0x53b39330, 0x24b4a3a6, 0xbad03605, 0xcdd70693, 0x54de5729, 0x23d967bf,
    0xb3667a2e, 0xc4614ab8, 0x5d681b02, 0x2a6f2b94, 0xb40bbe37, 0xc30c8ea1, 0x5a05df1b, 0x2d02ef8d]"

fun crc32_loop :: "u8 list \<Rightarrow> u32 \<Rightarrow> u32" where
  "crc32_loop [] crc = crc"
| "crc32_loop (p # ps) crc =
     crc32_loop ps (crc32_tab ! unat ((crc XOR ucast p) AND 0xFF) XOR drop_bit 8 crc)"

definition crc32_inc :: "u8 list \<Rightarrow> u32 \<Rightarrow> u32" where
  "crc32_inc buf crc = crc32_loop buf (crc XOR NOT 0) XOR NOT 0"

definition crc32 :: "u8 list \<Rightarrow> u32" where
  "crc32 buf = crc32_inc buf 0"

section \<open>The bitwise reference\<close>

definition crc_bit :: "u32 \<Rightarrow> u32" where
  "crc_bit c = (if bit c 0 then drop_bit 1 c XOR 0xEDB88320 else drop_bit 1 c)"

fun crc_bits :: "nat \<Rightarrow> u32 \<Rightarrow> u32" where
  "crc_bits 0 c = c"
| "crc_bits (Suc k) c = crc_bits k (crc_bit c)"

definition crc32_bitwise :: "u8 list \<Rightarrow> u32" where
  "crc32_bitwise buf = foldl (\<lambda>c p. crc_bits 8 (c XOR ucast p)) (NOT 0) buf XOR NOT 0"

lemma crc_bit_xor: "crc_bit (a XOR b) = crc_bit a XOR crc_bit b"
  by (rule bit_word_eqI) (auto simp: crc_bit_def bit_simps)

lemma crc_bits_xor: "crc_bits k (a XOR b) = crc_bits k a XOR crc_bits k b"
  by (induction k arbitrary: a b) (simp_all add: crc_bit_xor)

lemma crc_bits_high: "(\<forall>i < k. \<not> bit c i) \<Longrightarrow> crc_bits k c = drop_bit k c"
proof (induction k arbitrary: c)
  case (Suc k)
  then have "crc_bit c = drop_bit 1 c" by (simp add: crc_bit_def)
  moreover have "\<forall>i < k. \<not> bit (drop_bit 1 c) i" using Suc.prems by (auto simp: bit_simps)
  ultimately show ?case using Suc.IH [of "drop_bit 1 c"] by simp
qed simp

lemma crc32_tab_length: "length crc32_tab = 256"
  by (simp add: crc32_tab_def)

lemma crc_bits_8:
  "crc_bits 8 c = crc_bit (crc_bit (crc_bit (crc_bit (crc_bit (crc_bit (crc_bit (crc_bit c)))))))"
  by (simp add: eval_nat_numeral)

lemma crc32_row0:
   "crc_bits 8 0 = 0x00000000" "crc_bits 8 1 = 0x77073096" "crc_bits 8 2 = 0xee0e612c" "crc_bits 8 3 = 0x990951ba"
   "crc_bits 8 4 = 0x076dc419" "crc_bits 8 5 = 0x706af48f" "crc_bits 8 6 = 0xe963a535" "crc_bits 8 7 = 0x9e6495a3"
   "crc_bits 8 8 = 0x0edb8832" "crc_bits 8 9 = 0x79dcb8a4" "crc_bits 8 10 = 0xe0d5e91e" "crc_bits 8 11 = 0x97d2d988"
   "crc_bits 8 12 = 0x09b64c2b" "crc_bits 8 13 = 0x7eb17cbd" "crc_bits 8 14 = 0xe7b82d07" "crc_bits 8 15 = 0x90bf1d91"
   "crc_bits 8 16 = 0x1db71064" "crc_bits 8 17 = 0x6ab020f2" "crc_bits 8 18 = 0xf3b97148" "crc_bits 8 19 = 0x84be41de"
   "crc_bits 8 20 = 0x1adad47d" "crc_bits 8 21 = 0x6ddde4eb" "crc_bits 8 22 = 0xf4d4b551" "crc_bits 8 23 = 0x83d385c7"
   "crc_bits 8 24 = 0x136c9856" "crc_bits 8 25 = 0x646ba8c0" "crc_bits 8 26 = 0xfd62f97a" "crc_bits 8 27 = 0x8a65c9ec"
   "crc_bits 8 28 = 0x14015c4f" "crc_bits 8 29 = 0x63066cd9" "crc_bits 8 30 = 0xfa0f3d63" "crc_bits 8 31 = 0x8d080df5"
  by (simp_all add: crc_bits_8 crc_bit_def)

lemma crc32_row1:
   "crc_bits 8 32 = 0x3b6e20c8" "crc_bits 8 33 = 0x4c69105e" "crc_bits 8 34 = 0xd56041e4" "crc_bits 8 35 = 0xa2677172"
   "crc_bits 8 36 = 0x3c03e4d1" "crc_bits 8 37 = 0x4b04d447" "crc_bits 8 38 = 0xd20d85fd" "crc_bits 8 39 = 0xa50ab56b"
   "crc_bits 8 40 = 0x35b5a8fa" "crc_bits 8 41 = 0x42b2986c" "crc_bits 8 42 = 0xdbbbc9d6" "crc_bits 8 43 = 0xacbcf940"
   "crc_bits 8 44 = 0x32d86ce3" "crc_bits 8 45 = 0x45df5c75" "crc_bits 8 46 = 0xdcd60dcf" "crc_bits 8 47 = 0xabd13d59"
   "crc_bits 8 48 = 0x26d930ac" "crc_bits 8 49 = 0x51de003a" "crc_bits 8 50 = 0xc8d75180" "crc_bits 8 51 = 0xbfd06116"
   "crc_bits 8 52 = 0x21b4f4b5" "crc_bits 8 53 = 0x56b3c423" "crc_bits 8 54 = 0xcfba9599" "crc_bits 8 55 = 0xb8bda50f"
   "crc_bits 8 56 = 0x2802b89e" "crc_bits 8 57 = 0x5f058808" "crc_bits 8 58 = 0xc60cd9b2" "crc_bits 8 59 = 0xb10be924"
   "crc_bits 8 60 = 0x2f6f7c87" "crc_bits 8 61 = 0x58684c11" "crc_bits 8 62 = 0xc1611dab" "crc_bits 8 63 = 0xb6662d3d"
  by (simp_all add: crc_bits_8 crc_bit_def)

lemma crc32_row2:
   "crc_bits 8 64 = 0x76dc4190" "crc_bits 8 65 = 0x01db7106" "crc_bits 8 66 = 0x98d220bc" "crc_bits 8 67 = 0xefd5102a"
   "crc_bits 8 68 = 0x71b18589" "crc_bits 8 69 = 0x06b6b51f" "crc_bits 8 70 = 0x9fbfe4a5" "crc_bits 8 71 = 0xe8b8d433"
   "crc_bits 8 72 = 0x7807c9a2" "crc_bits 8 73 = 0x0f00f934" "crc_bits 8 74 = 0x9609a88e" "crc_bits 8 75 = 0xe10e9818"
   "crc_bits 8 76 = 0x7f6a0dbb" "crc_bits 8 77 = 0x086d3d2d" "crc_bits 8 78 = 0x91646c97" "crc_bits 8 79 = 0xe6635c01"
   "crc_bits 8 80 = 0x6b6b51f4" "crc_bits 8 81 = 0x1c6c6162" "crc_bits 8 82 = 0x856530d8" "crc_bits 8 83 = 0xf262004e"
   "crc_bits 8 84 = 0x6c0695ed" "crc_bits 8 85 = 0x1b01a57b" "crc_bits 8 86 = 0x8208f4c1" "crc_bits 8 87 = 0xf50fc457"
   "crc_bits 8 88 = 0x65b0d9c6" "crc_bits 8 89 = 0x12b7e950" "crc_bits 8 90 = 0x8bbeb8ea" "crc_bits 8 91 = 0xfcb9887c"
   "crc_bits 8 92 = 0x62dd1ddf" "crc_bits 8 93 = 0x15da2d49" "crc_bits 8 94 = 0x8cd37cf3" "crc_bits 8 95 = 0xfbd44c65"
  by (simp_all add: crc_bits_8 crc_bit_def)

lemma crc32_row3:
   "crc_bits 8 96 = 0x4db26158" "crc_bits 8 97 = 0x3ab551ce" "crc_bits 8 98 = 0xa3bc0074" "crc_bits 8 99 = 0xd4bb30e2"
   "crc_bits 8 100 = 0x4adfa541" "crc_bits 8 101 = 0x3dd895d7" "crc_bits 8 102 = 0xa4d1c46d" "crc_bits 8 103 = 0xd3d6f4fb"
   "crc_bits 8 104 = 0x4369e96a" "crc_bits 8 105 = 0x346ed9fc" "crc_bits 8 106 = 0xad678846" "crc_bits 8 107 = 0xda60b8d0"
   "crc_bits 8 108 = 0x44042d73" "crc_bits 8 109 = 0x33031de5" "crc_bits 8 110 = 0xaa0a4c5f" "crc_bits 8 111 = 0xdd0d7cc9"
   "crc_bits 8 112 = 0x5005713c" "crc_bits 8 113 = 0x270241aa" "crc_bits 8 114 = 0xbe0b1010" "crc_bits 8 115 = 0xc90c2086"
   "crc_bits 8 116 = 0x5768b525" "crc_bits 8 117 = 0x206f85b3" "crc_bits 8 118 = 0xb966d409" "crc_bits 8 119 = 0xce61e49f"
   "crc_bits 8 120 = 0x5edef90e" "crc_bits 8 121 = 0x29d9c998" "crc_bits 8 122 = 0xb0d09822" "crc_bits 8 123 = 0xc7d7a8b4"
   "crc_bits 8 124 = 0x59b33d17" "crc_bits 8 125 = 0x2eb40d81" "crc_bits 8 126 = 0xb7bd5c3b" "crc_bits 8 127 = 0xc0ba6cad"
  by (simp_all add: crc_bits_8 crc_bit_def)

lemma crc32_row4:
   "crc_bits 8 128 = 0xedb88320" "crc_bits 8 129 = 0x9abfb3b6" "crc_bits 8 130 = 0x03b6e20c" "crc_bits 8 131 = 0x74b1d29a"
   "crc_bits 8 132 = 0xead54739" "crc_bits 8 133 = 0x9dd277af" "crc_bits 8 134 = 0x04db2615" "crc_bits 8 135 = 0x73dc1683"
   "crc_bits 8 136 = 0xe3630b12" "crc_bits 8 137 = 0x94643b84" "crc_bits 8 138 = 0x0d6d6a3e" "crc_bits 8 139 = 0x7a6a5aa8"
   "crc_bits 8 140 = 0xe40ecf0b" "crc_bits 8 141 = 0x9309ff9d" "crc_bits 8 142 = 0x0a00ae27" "crc_bits 8 143 = 0x7d079eb1"
   "crc_bits 8 144 = 0xf00f9344" "crc_bits 8 145 = 0x8708a3d2" "crc_bits 8 146 = 0x1e01f268" "crc_bits 8 147 = 0x6906c2fe"
   "crc_bits 8 148 = 0xf762575d" "crc_bits 8 149 = 0x806567cb" "crc_bits 8 150 = 0x196c3671" "crc_bits 8 151 = 0x6e6b06e7"
   "crc_bits 8 152 = 0xfed41b76" "crc_bits 8 153 = 0x89d32be0" "crc_bits 8 154 = 0x10da7a5a" "crc_bits 8 155 = 0x67dd4acc"
   "crc_bits 8 156 = 0xf9b9df6f" "crc_bits 8 157 = 0x8ebeeff9" "crc_bits 8 158 = 0x17b7be43" "crc_bits 8 159 = 0x60b08ed5"
  by (simp_all add: crc_bits_8 crc_bit_def)

lemma crc32_row5:
   "crc_bits 8 160 = 0xd6d6a3e8" "crc_bits 8 161 = 0xa1d1937e" "crc_bits 8 162 = 0x38d8c2c4" "crc_bits 8 163 = 0x4fdff252"
   "crc_bits 8 164 = 0xd1bb67f1" "crc_bits 8 165 = 0xa6bc5767" "crc_bits 8 166 = 0x3fb506dd" "crc_bits 8 167 = 0x48b2364b"
   "crc_bits 8 168 = 0xd80d2bda" "crc_bits 8 169 = 0xaf0a1b4c" "crc_bits 8 170 = 0x36034af6" "crc_bits 8 171 = 0x41047a60"
   "crc_bits 8 172 = 0xdf60efc3" "crc_bits 8 173 = 0xa867df55" "crc_bits 8 174 = 0x316e8eef" "crc_bits 8 175 = 0x4669be79"
   "crc_bits 8 176 = 0xcb61b38c" "crc_bits 8 177 = 0xbc66831a" "crc_bits 8 178 = 0x256fd2a0" "crc_bits 8 179 = 0x5268e236"
   "crc_bits 8 180 = 0xcc0c7795" "crc_bits 8 181 = 0xbb0b4703" "crc_bits 8 182 = 0x220216b9" "crc_bits 8 183 = 0x5505262f"
   "crc_bits 8 184 = 0xc5ba3bbe" "crc_bits 8 185 = 0xb2bd0b28" "crc_bits 8 186 = 0x2bb45a92" "crc_bits 8 187 = 0x5cb36a04"
   "crc_bits 8 188 = 0xc2d7ffa7" "crc_bits 8 189 = 0xb5d0cf31" "crc_bits 8 190 = 0x2cd99e8b" "crc_bits 8 191 = 0x5bdeae1d"
  by (simp_all add: crc_bits_8 crc_bit_def)

lemma crc32_row6:
   "crc_bits 8 192 = 0x9b64c2b0" "crc_bits 8 193 = 0xec63f226" "crc_bits 8 194 = 0x756aa39c" "crc_bits 8 195 = 0x026d930a"
   "crc_bits 8 196 = 0x9c0906a9" "crc_bits 8 197 = 0xeb0e363f" "crc_bits 8 198 = 0x72076785" "crc_bits 8 199 = 0x05005713"
   "crc_bits 8 200 = 0x95bf4a82" "crc_bits 8 201 = 0xe2b87a14" "crc_bits 8 202 = 0x7bb12bae" "crc_bits 8 203 = 0x0cb61b38"
   "crc_bits 8 204 = 0x92d28e9b" "crc_bits 8 205 = 0xe5d5be0d" "crc_bits 8 206 = 0x7cdcefb7" "crc_bits 8 207 = 0x0bdbdf21"
   "crc_bits 8 208 = 0x86d3d2d4" "crc_bits 8 209 = 0xf1d4e242" "crc_bits 8 210 = 0x68ddb3f8" "crc_bits 8 211 = 0x1fda836e"
   "crc_bits 8 212 = 0x81be16cd" "crc_bits 8 213 = 0xf6b9265b" "crc_bits 8 214 = 0x6fb077e1" "crc_bits 8 215 = 0x18b74777"
   "crc_bits 8 216 = 0x88085ae6" "crc_bits 8 217 = 0xff0f6a70" "crc_bits 8 218 = 0x66063bca" "crc_bits 8 219 = 0x11010b5c"
   "crc_bits 8 220 = 0x8f659eff" "crc_bits 8 221 = 0xf862ae69" "crc_bits 8 222 = 0x616bffd3" "crc_bits 8 223 = 0x166ccf45"
  by (simp_all add: crc_bits_8 crc_bit_def)

lemma crc32_row7:
   "crc_bits 8 224 = 0xa00ae278" "crc_bits 8 225 = 0xd70dd2ee" "crc_bits 8 226 = 0x4e048354" "crc_bits 8 227 = 0x3903b3c2"
   "crc_bits 8 228 = 0xa7672661" "crc_bits 8 229 = 0xd06016f7" "crc_bits 8 230 = 0x4969474d" "crc_bits 8 231 = 0x3e6e77db"
   "crc_bits 8 232 = 0xaed16a4a" "crc_bits 8 233 = 0xd9d65adc" "crc_bits 8 234 = 0x40df0b66" "crc_bits 8 235 = 0x37d83bf0"
   "crc_bits 8 236 = 0xa9bcae53" "crc_bits 8 237 = 0xdebb9ec5" "crc_bits 8 238 = 0x47b2cf7f" "crc_bits 8 239 = 0x30b5ffe9"
   "crc_bits 8 240 = 0xbdbdf21c" "crc_bits 8 241 = 0xcabac28a" "crc_bits 8 242 = 0x53b39330" "crc_bits 8 243 = 0x24b4a3a6"
   "crc_bits 8 244 = 0xbad03605" "crc_bits 8 245 = 0xcdd70693" "crc_bits 8 246 = 0x54de5729" "crc_bits 8 247 = 0x23d967bf"
   "crc_bits 8 248 = 0xb3667a2e" "crc_bits 8 249 = 0xc4614ab8" "crc_bits 8 250 = 0x5d681b02" "crc_bits 8 251 = 0x2a6f2b94"
   "crc_bits 8 252 = 0xb40bbe37" "crc_bits 8 253 = 0xc30c8ea1" "crc_bits 8 254 = 0x5a05df1b" "crc_bits 8 255 = 0x2d02ef8d"
  by (simp_all add: crc_bits_8 crc_bit_def)

lemma crc32_tab_bits:
  "crc32_tab = map (crc_bits 8)
    [0, 1, 2, 3, 4, 5, 6, 7, 8, 9, 10, 11, 12, 13, 14, 15, 16, 17, 18, 19, 20, 21, 22, 23, 24,
     25, 26, 27, 28, 29, 30, 31, 32, 33, 34, 35, 36, 37, 38, 39, 40, 41, 42, 43, 44, 45, 46,
     47, 48, 49, 50, 51, 52, 53, 54, 55, 56, 57, 58, 59, 60, 61, 62, 63, 64, 65, 66, 67, 68,
     69, 70, 71, 72, 73, 74, 75, 76, 77, 78, 79, 80, 81, 82, 83, 84, 85, 86, 87, 88, 89, 90,
     91, 92, 93, 94, 95, 96, 97, 98, 99, 100, 101, 102, 103, 104, 105, 106, 107, 108, 109, 110,
     111, 112, 113, 114, 115, 116, 117, 118, 119, 120, 121, 122, 123, 124, 125, 126, 127, 128,
     129, 130, 131, 132, 133, 134, 135, 136, 137, 138, 139, 140, 141, 142, 143, 144, 145, 146,
     147, 148, 149, 150, 151, 152, 153, 154, 155, 156, 157, 158, 159, 160, 161, 162, 163, 164,
     165, 166, 167, 168, 169, 170, 171, 172, 173, 174, 175, 176, 177, 178, 179, 180, 181, 182,
     183, 184, 185, 186, 187, 188, 189, 190, 191, 192, 193, 194, 195, 196, 197, 198, 199, 200,
     201, 202, 203, 204, 205, 206, 207, 208, 209, 210, 211, 212, 213, 214, 215, 216, 217, 218,
     219, 220, 221, 222, 223, 224, 225, 226, 227, 228, 229, 230, 231, 232, 233, 234, 235, 236,
     237, 238, 239, 240, 241, 242, 243, 244, 245, 246, 247, 248, 249, 250, 251, 252, 253, 254,
     255]"
  by (simp only: crc32_tab_def list.map crc32_row0 crc32_row1 crc32_row2 crc32_row3
      crc32_row4 crc32_row5 crc32_row6 crc32_row7)

lemma byte_words:
  "map (\<lambda>i. of_nat i :: u32) [0..<256] =
    [0, 1, 2, 3, 4, 5, 6, 7, 8, 9, 10, 11, 12, 13, 14, 15, 16, 17, 18, 19, 20, 21, 22, 23, 24,
     25, 26, 27, 28, 29, 30, 31, 32, 33, 34, 35, 36, 37, 38, 39, 40, 41, 42, 43, 44, 45, 46,
     47, 48, 49, 50, 51, 52, 53, 54, 55, 56, 57, 58, 59, 60, 61, 62, 63, 64, 65, 66, 67, 68,
     69, 70, 71, 72, 73, 74, 75, 76, 77, 78, 79, 80, 81, 82, 83, 84, 85, 86, 87, 88, 89, 90,
     91, 92, 93, 94, 95, 96, 97, 98, 99, 100, 101, 102, 103, 104, 105, 106, 107, 108, 109, 110,
     111, 112, 113, 114, 115, 116, 117, 118, 119, 120, 121, 122, 123, 124, 125, 126, 127, 128,
     129, 130, 131, 132, 133, 134, 135, 136, 137, 138, 139, 140, 141, 142, 143, 144, 145, 146,
     147, 148, 149, 150, 151, 152, 153, 154, 155, 156, 157, 158, 159, 160, 161, 162, 163, 164,
     165, 166, 167, 168, 169, 170, 171, 172, 173, 174, 175, 176, 177, 178, 179, 180, 181, 182,
     183, 184, 185, 186, 187, 188, 189, 190, 191, 192, 193, 194, 195, 196, 197, 198, 199, 200,
     201, 202, 203, 204, 205, 206, 207, 208, 209, 210, 211, 212, 213, 214, 215, 216, 217, 218,
     219, 220, 221, 222, 223, 224, 225, 226, 227, 228, 229, 230, 231, 232, 233, 234, 235, 236,
     237, 238, 239, 240, 241, 242, 243, 244, 245, 246, 247, 248, 249, 250, 251, 252, 253, 254,
     255]"
  by (simp add: upt_conv_Cons)

lemma crc32_tab_nth:
  assumes "unat c < 256"
  shows "crc32_tab ! unat c = crc_bits 8 c"
proof -
  have "crc32_tab ! unat c = map (crc_bits 8) (map (\<lambda>i. of_nat i) [0..<256]) ! unat c"
    by (simp only: crc32_tab_bits byte_words)
  also have "\<dots> = crc_bits 8 (of_nat (unat c))" using assms by simp
  finally show ?thesis by simp
qed

lemma crc_byte_step:
  "crc_bits 8 (c XOR ucast (p :: u8)) = crc32_tab ! unat ((c XOR ucast p) AND 0xFF) XOR drop_bit 8 c"
proof -
  let ?x = "c XOR ucast p"
  have split: "?x = (?x AND 0xFF) XOR (?x AND NOT 0xFF)" by (rule bit_word_eqI) (auto simp: bit_simps)
  have "unat (?x AND 0xFF) < 256"
    using word_and_le1 [of ?x "0xFF"] by (simp add: word_le_nat_alt)
  then have low: "crc_bits 8 (?x AND 0xFF) = crc32_tab ! unat (?x AND 0xFF)" by (simp add: crc32_tab_nth)
  have "crc_bits 8 (?x AND NOT 0xFF) = drop_bit 8 (?x AND NOT 0xFF)"
    by (rule crc_bits_high) (auto simp: ff_mask bit_simps)
  also have "\<dots> = drop_bit 8 c"
    by (rule bit_word_eqI) (auto simp: ff_mask bit_simps u8_bit_ge dest: bit_imp_le_length)
  finally show ?thesis using low by (subst split) (simp only: crc_bits_xor)
qed

lemma crc32_loop_bits: "crc32_loop buf c = foldl (\<lambda>c p. crc_bits 8 (c XOR ucast p)) c buf"
  by (induction buf arbitrary: c) (simp_all add: crc_byte_step)

text \<open>C7: the table-driven checksum is the bitwise CRC-32 of the buffer, so all 256 constants of the
  table are right.\<close>
theorem crc32_is_bitwise: "crc32 buf = crc32_bitwise buf"
  by (simp add: crc32_def crc32_inc_def crc32_bitwise_def crc32_loop_bits)

text \<open>A checksum can be continued: the second part starts from the checksum of the first.\<close>

lemma crc32_inc_append: "crc32_inc (a @ b) c = crc32_inc b (crc32_inc a c)"
proof -
  have "crc32_loop (a @ b) d = crc32_loop b (crc32_loop a d)" for d
    by (induction a arbitrary: d) simp_all
  then show ?thesis by (simp add: crc32_inc_def xor.assoc)
qed

lemma crc32_check_value: "crc32 [49, 50, 51, 52, 53, 54, 55, 56, 57] = 0xCBF43926"
  by code_simp

end
