(* ===== verification/Emmc.thy ===== *)
theory Emmc
  imports Pimath
begin

text \<open>
  The data path of lib/src/emmc.c: the command table, the checks of \<open>emmc_command\<close>, the command
  selection and retries of \<open>do_data_command\<close>, and the block-device calls on top of it. The host
  controller and the card are hardware: a card is its blocks of 512 bytes and the way it is
  addressed, and each command issued to it takes its outcome from a script (an exhausted script
  means that the card answers). Here a command is that outcome and the transfer of the blocks;
  \<open>EmmcHost\<close> has the register protocol of \<open>emmc_issue_command\<close>, and \<open>EmmcProto\<close> relates the two.
\<close>

section \<open>Commands\<close>

record emmc_cmd =
  resp_a :: u32
  block_count :: u32
  auto_command :: u32
  direction :: u32
  multiblock :: u32
  resp_b :: u32
  response_type :: u32
  res0 :: u32
  crc_enable :: u32
  idx_enable :: u32
  is_data :: u32
  cmd_type_field :: u32
  cmd_index :: u32
  res1 :: u32

definition mk_cmd where
  "mk_cmd a b c d e f g h i j k l m n = \<lparr> resp_a = a, block_count = b, auto_command = c, direction = d,
     multiblock = e, resp_b = f, response_type = g, res0 = h, crc_enable = i, idx_enable = j, is_data = k,
     cmd_type_field = l, cmd_index = m, res1 = n \<rparr>"

text \<open>\<open>TO_REG\<close> reads the bit fields as the register they are packed into.\<close>

definition TO_REG :: "emmc_cmd \<Rightarrow> u32" where
  "TO_REG c = resp_a c OR push_bit 1 (block_count c) OR push_bit 2 (auto_command c) OR push_bit 4 (direction c)
     OR push_bit 5 (multiblock c) OR push_bit 6 (resp_b c) OR push_bit 16 (response_type c) OR push_bit 18 (res0 c)
     OR push_bit 19 (crc_enable c) OR push_bit 20 (idx_enable c) OR push_bit 21 (is_data c)
     OR push_bit 22 (cmd_type_field c) OR push_bit 24 (cmd_index c) OR push_bit 30 (res1 c)"

definition RES_CMD :: emmc_cmd where
  "RES_CMD = mk_cmd 1 1 3 1 1 0xF 3 1 1 1 1 3 0xF 3"

definition RT136 :: u32 where "RT136 = 1"
definition RT48 :: u32 where "RT48 = 2"
definition RT48Busy :: u32 where "RT48Busy = 3"

definition CTReadBlock :: u32 where "CTReadBlock = 17"
definition CTReadMultiple :: u32 where "CTReadMultiple = 18"
definition CTWriteBlock :: u32 where "CTWriteBlock = 24"
definition CTWriteMultiple :: u32 where "CTWriteMultiple = 25"

definition commands :: "emmc_cmd list" where
  "commands =
    [mk_cmd 0 0 0 0 0 0 0 0 0 0 0 0 0 0,
     RES_CMD,
     mk_cmd 0 0 0 0 0 0 RT136 0 1 0 0 0 2 0,
     mk_cmd 0 0 0 0 0 0 RT48 0 1 0 0 0 3 0,
     mk_cmd 0 0 0 0 0 0 0 0 0 0 0 0 4 0,
     mk_cmd 0 0 0 0 0 0 RT136 0 0 0 0 0 5 0,
     mk_cmd 0 0 0 0 0 0 RT48 0 1 0 0 0 6 0,
     mk_cmd 0 0 0 0 0 0 RT48Busy 0 1 0 0 0 7 0,
     mk_cmd 0 0 0 0 0 0 RT48 0 1 0 0 0 8 0,
     mk_cmd 0 0 0 0 0 0 RT136 0 1 0 0 0 9 0,
     RES_CMD, RES_CMD, RES_CMD,
     mk_cmd 0 0 0 0 0 0 RT48 0 1 0 0 0 13 0,
     RES_CMD, RES_CMD,
     mk_cmd 0 0 0 0 0 0 RT48 0 1 0 0 0 16 0,
     mk_cmd 0 0 0 1 0 0 RT48 0 1 0 1 0 17 0,
     mk_cmd 0 1 1 1 1 0 RT48 0 1 0 1 0 18 0,
     RES_CMD, RES_CMD, RES_CMD, RES_CMD, RES_CMD,
     mk_cmd 0 0 0 0 0 0 RT48 0 1 0 1 0 24 0]
    @ replicate 16 RES_CMD
    @ [mk_cmd 0 0 0 0 0 0 RT48 0 0 0 0 0 41 0]
    @ replicate 9 RES_CMD
    @ [mk_cmd 0 0 0 1 0 0 RT48 0 1 0 1 0 51 0,
     RES_CMD, RES_CMD, RES_CMD,
     mk_cmd 0 0 0 0 0 0 RT48 0 1 0 0 0 55 0]"

section \<open>The card and the device state\<close>

record card =
  blocks :: "u32 \<Rightarrow> u8 list"
  byte_addressed :: bool
  outcomes :: "bool list"

record emmc_device =
  transfer_blocks :: u32
  block_size :: u32
  sdhc :: bool
  dev_offset :: u64
  sd_card :: card

definition card_block_no :: "card \<Rightarrow> u32 \<Rightarrow> u32" where
  "card_block_no c arg = (if byte_addressed c then arg div 512 else arg)"

definition card_answers :: "card \<Rightarrow> bool \<times> card" where
  "card_answers c = (case outcomes c of [] \<Rightarrow> (True, c) | r # rs \<Rightarrow> (r, c\<lparr>outcomes := rs\<rparr>))"

fun card_read :: "card \<Rightarrow> u32 \<Rightarrow> nat \<Rightarrow> u8 list" where
  "card_read c b 0 = []"
| "card_read c b (Suc n) = blocks c b @ card_read c (b + 1) n"

fun card_write :: "(u32 \<Rightarrow> u8 list) \<Rightarrow> u32 \<Rightarrow> nat \<Rightarrow> u8 list \<Rightarrow> (u32 \<Rightarrow> u8 list)" where
  "card_write bs b 0 buf = bs"
| "card_write bs b (Suc n) buf = card_write (bs(b := take 512 buf)) (b + 1) n (drop 512 buf)"

definition emmc_issue_command :: "emmc_cmd \<Rightarrow> u32 \<Rightarrow> u8 list \<Rightarrow> emmc_device \<Rightarrow> bool \<times> u8 list \<times> emmc_device" where
  "emmc_issue_command cmd arg buf d =
     (if 0xFFFF < transfer_blocks d then (False, buf, d)
      else case card_answers (sd_card d) of (ok, c) \<Rightarrow>
        if \<not> ok then (False, buf, d\<lparr>sd_card := c\<rparr>)
        else if is_data cmd = 0 then (True, buf, d\<lparr>sd_card := c\<rparr>)
        else let b = card_block_no c arg; n = unat (transfer_blocks d) in
          if direction cmd \<noteq> 0
          then (True, blit buf 0 (card_read c b n), d\<lparr>sd_card := c\<rparr>)
          else (True, buf, d\<lparr>sd_card := c\<lparr>blocks := card_write (blocks c) b n buf\<rparr>\<rparr>))"

definition emmc_command :: "u32 \<Rightarrow> u32 \<Rightarrow> u8 list \<Rightarrow> emmc_device \<Rightarrow> bool \<times> u8 list \<times> emmc_device" where
  "emmc_command command arg buf d =
     (if command AND 0x80000000 \<noteq> 0 then (False, buf, d)
      else let last_command = commands ! unat command in
        if TO_REG last_command = TO_REG RES_CMD then (False, buf, d)
        else emmc_issue_command last_command arg buf d)"

fun command_retry :: "nat \<Rightarrow> u32 \<Rightarrow> u32 \<Rightarrow> u8 list \<Rightarrow> emmc_device \<Rightarrow> bool \<times> u8 list \<times> emmc_device" where
  "command_retry 0 command arg buf d = (False, buf, d)"
| "command_retry (Suc n) command arg buf d =
     (case emmc_command command arg buf d of (ok, buf', d') \<Rightarrow>
        if ok then (True, buf', d') else command_retry n command arg buf' d')"

definition do_data_command :: "bool \<Rightarrow> u8 list \<Rightarrow> u32 \<Rightarrow> u32 \<Rightarrow> emmc_device \<Rightarrow> bool \<times> u8 list \<times> emmc_device" where
  "do_data_command write b bsize block_no0 d =
     (let block_no = (if \<not> sdhc d then block_no0 * 512 else block_no0) in
      if bsize < block_size d then (False, b, d)
      else let d1 = d\<lparr>transfer_blocks := math_div bsize (block_size d)\<rparr> in
        if math_mod bsize (block_size d) \<noteq> 0 then (False, b, d1)
        else let command = (if write \<and> 1 < transfer_blocks d1 then CTWriteMultiple
                            else if write then CTWriteBlock
                            else if \<not> write \<and> 1 < transfer_blocks d1 then CTReadMultiple
                            else CTReadBlock)
             in command_retry 3 command block_no b d1)"

section \<open>Block device calls\<close>

definition do_read :: "u8 list \<Rightarrow> u32 \<Rightarrow> u32 \<Rightarrow> emmc_device \<Rightarrow> u32 \<times> u8 list \<times> emmc_device" where
  "do_read b bsize block_no d =
     (case do_data_command False b bsize block_no d of (ok, b', d') \<Rightarrow>
        if \<not> ok then (- 1, b', d') else (bsize, b', d'))"

definition do_write :: "u8 list \<Rightarrow> u32 \<Rightarrow> u32 \<Rightarrow> emmc_device \<Rightarrow> u32 \<times> emmc_device" where
  "do_write b bsize block_no d =
     (case do_data_command True b bsize block_no d of (ok, b', d') \<Rightarrow>
        if \<not> ok then (- 1, d') else (bsize, d'))"

definition emmc_read :: "u8 list \<Rightarrow> u32 \<Rightarrow> emmc_device \<Rightarrow> u32 \<times> u8 list \<times> emmc_device" where
  "emmc_read buffer sz d =
     (if dev_offset d mod 512 \<noteq> 0 then (- 1, buffer, d)
      else let block = ucast (dev_offset d div 512) in
        case do_read buffer sz block d of (r, b', d') \<Rightarrow>
          if r \<noteq> sz then (- 1, b', d') else (sz, b', d'))"

definition emmc_write :: "u8 list \<Rightarrow> u32 \<Rightarrow> emmc_device \<Rightarrow> u32 \<times> emmc_device" where
  "emmc_write buffer sz d =
     (if dev_offset d mod 512 \<noteq> 0 then (- 1, d)
      else let block = ucast (dev_offset d div 512) in
        case do_write buffer sz block d of (r, d') \<Rightarrow>
          if r \<noteq> sz then (- 1, d') else (sz, d'))"

definition emmc_seek :: "u64 \<Rightarrow> emmc_device \<Rightarrow> emmc_device" where
  "emmc_seek off d = d\<lparr>dev_offset := off\<rparr>"

definition emmc_io_read :: "u8 list \<Rightarrow> u32 \<Rightarrow> emmc_device \<Rightarrow> u32 \<times> u8 list \<times> emmc_device" where
  "emmc_io_read b sz d = emmc_read b sz d"

definition emmc_io_seek :: "u64 \<Rightarrow> emmc_device \<Rightarrow> emmc_device" where
  "emmc_io_seek off d = emmc_seek off d"

section \<open>A working card\<close>

definition emmc_ok :: "emmc_device \<Rightarrow> bool" where
  "emmc_ok d \<longleftrightarrow> block_size d = 512 \<and> outcomes (sd_card d) = [] \<and> (sdhc d \<longleftrightarrow> \<not> byte_addressed (sd_card d))
     \<and> (\<forall>b. length (blocks (sd_card d) b) = 512)"

lemma math_div_512: "math_div 512 512 = 1" "math_mod 512 512 = 0"
  by (simp_all add: math_div_def math_mod_def udivmod_div_mod)

lemma read_command_valid: "TO_REG (commands ! 17) \<noteq> TO_REG RES_CMD" "is_data (commands ! 17) = 1" "direction (commands ! 17) = 1"
  by (simp_all add: commands_def mk_cmd_def RES_CMD_def TO_REG_def RT48_def)

lemma write_command_valid: "TO_REG (commands ! 24) \<noteq> TO_REG RES_CMD" "is_data (commands ! 24) = 1" "direction (commands ! 24) = 0"
  by (simp_all add: commands_def mk_cmd_def RES_CMD_def TO_REG_def RT48_def)

lemma write_multiple_invalid: "commands ! 25 = RES_CMD"
  by (simp add: commands_def eval_nat_numeral)

definition block_arg :: "emmc_device \<Rightarrow> u32 \<Rightarrow> u32" where
  "block_arg d b = (if sdhc d then b else b * 512)"

lemma block_arg_no:
  assumes "emmc_ok d" "unat b < 2 ^ 23"
  shows "card_block_no (sd_card d) (block_arg d b) = b"
proof -
  have "unat (b * 512) = unat b * 512" using assms(2) by (subst unat_mult_no_wrap) simp_all
  then have "unat (b * 512 div 512) = unat b" by (simp add: unat_div_distrib)
  then have "b * 512 div 512 = b" by (simp add: u32_eq_nat_iff)
  then show ?thesis using assms(1) by (simp add: emmc_ok_def block_arg_def card_block_no_def)
qed

lemma do_data_command_read:
  assumes "emmc_ok d" "unat b < 2 ^ 23" "length buf = 512"
  shows "do_data_command False buf 512 b d = (True, blocks (sd_card d) b, d\<lparr>transfer_blocks := 1\<rparr>)"
proof -
  let ?d = "d\<lparr>transfer_blocks := 1\<rparr>"
  have a: "card_answers (sd_card d) = (True, sd_card d)" using assms(1) by (simp add: card_answers_def emmc_ok_def)
  have bs: "block_size d = 512" "length (blocks (sd_card d) b) = 512" using assms(1) by (simp_all add: emmc_ok_def)
  have sub: "card_block_no (sd_card d) (if \<not> sdhc d then b * 512 else b) = b"
    using block_arg_no [OF assms(1,2)] by (cases "sdhc d") (simp_all add: block_arg_def)
  have "emmc_issue_command (commands ! 17) (if \<not> sdhc d then b * 512 else b) buf ?d = (True, blocks (sd_card d) b, ?d)"
    unfolding emmc_issue_command_def using a bs sub assms(3)
    by (simp add: read_command_valid Let_def)
  then have "emmc_command CTReadBlock (if \<not> sdhc d then b * 512 else b) buf ?d = (True, blocks (sd_card d) b, ?d)"
    by (simp add: emmc_command_def CTReadBlock_def read_command_valid)
  then show ?thesis
    unfolding do_data_command_def using bs(1) by (simp add: math_div_512 Let_def eval_nat_numeral)
qed

lemma do_data_command_write:
  assumes "emmc_ok d" "unat b < 2 ^ 23" "length buf = 512"
  shows "do_data_command True buf 512 b d = (True, buf,
    d\<lparr>transfer_blocks := 1, sd_card := (sd_card d)\<lparr>blocks := (blocks (sd_card d))(b := buf)\<rparr>\<rparr>)"
proof -
  let ?d = "d\<lparr>transfer_blocks := 1\<rparr>"
  let ?d' = "?d\<lparr>sd_card := (sd_card d)\<lparr>blocks := (blocks (sd_card d))(b := buf)\<rparr>\<rparr>"
  have a: "card_answers (sd_card d) = (True, sd_card d)" using assms(1) by (simp add: card_answers_def emmc_ok_def)
  have bs: "block_size d = 512" using assms(1) by (simp add: emmc_ok_def)
  have sub: "card_block_no (sd_card d) (if \<not> sdhc d then b * 512 else b) = b"
    using block_arg_no [OF assms(1,2)] by (cases "sdhc d") (simp_all add: block_arg_def)
  have "emmc_issue_command (commands ! 24) (if \<not> sdhc d then b * 512 else b) buf ?d = (True, buf, ?d')"
    unfolding emmc_issue_command_def using a bs sub assms(3)
    by (simp add: write_command_valid Let_def)
  then have "emmc_command CTWriteBlock (if \<not> sdhc d then b * 512 else b) buf ?d = (True, buf, ?d')"
    by (simp add: emmc_command_def CTWriteBlock_def write_command_valid)
  then show ?thesis
    unfolding do_data_command_def using bs(1) by (simp add: math_div_512 Let_def eval_nat_numeral)
qed

lemma sector_offset:
  assumes "unat (s :: u32) < 2 ^ 23"
  shows "ucast (s * 512) mod (512 :: u64) = 0" "ucast (ucast (s * 512) div (512 :: u64)) = s"
proof -
  have n: "unat (s * 512) = unat s * 512" using assms by (subst unat_mult_no_wrap) simp_all
  have u: "unat (ucast (s * 512) :: u64) = unat s * 512"
    using n assms by (simp add: unsigned_ucast_eq take_bit_nat_eq_self)
  have "unat (ucast (s * 512) mod (512 :: u64)) = 0" by (simp add: unat_mod_distrib u)
  then show "ucast (s * 512) mod (512 :: u64) = 0" by (simp add: unat_eq_0)
  have d: "unat (ucast (s * 512) div (512 :: u64)) = unat s" by (simp add: unat_div_distrib u)
  have "unat (ucast (ucast (s * 512) div (512 :: u64)) :: u32) = unat s"
    by (simp add: unsigned_ucast_eq d take_bit_nat_eq_self)
  then show "ucast (ucast (s * 512) div (512 :: u64)) = s" by (simp add: u32_eq_nat_iff)
qed

lemma emmc_read_block:
  assumes "emmc_ok d" "unat s < 2 ^ 23" "length buf = 512"
  shows "emmc_read buf 512 (emmc_seek (ucast (s * 512)) d)
    = (512, blocks (sd_card d) s, d\<lparr>dev_offset := ucast (s * 512), transfer_blocks := 1\<rparr>)"
proof -
  let ?d = "emmc_seek (ucast (s * 512)) d"
  have ok: "emmc_ok ?d" using assms(1) by (simp add: emmc_seek_def emmc_ok_def)
  have c: "sd_card ?d = sd_card d" "dev_offset ?d = ucast (s * 512)" by (simp_all add: emmc_seek_def)
  show ?thesis
    unfolding emmc_read_def do_read_def c(2) Let_def sector_offset(2) [OF assms(2)]
      do_data_command_read [OF ok assms(2,3)]
    using sector_offset(1) [OF assms(2)] by (simp add: emmc_seek_def)
qed

lemma emmc_write_block:
  assumes "emmc_ok d" "unat s < 2 ^ 23" "length buf = 512"
  shows "emmc_write buf 512 (emmc_seek (ucast (s * 512)) d)
    = (512, d\<lparr>dev_offset := ucast (s * 512), transfer_blocks := 1,
        sd_card := (sd_card d)\<lparr>blocks := (blocks (sd_card d))(s := buf)\<rparr>\<rparr>)"
proof -
  let ?d = "emmc_seek (ucast (s * 512)) d"
  have ok: "emmc_ok ?d" using assms(1) by (simp add: emmc_seek_def emmc_ok_def)
  have c: "sd_card ?d = sd_card d" "dev_offset ?d = ucast (s * 512)" by (simp_all add: emmc_seek_def)
  show ?thesis
    unfolding emmc_write_def do_write_def c(2) Let_def sector_offset(2) [OF assms(2)]
      do_data_command_write [OF ok assms(2,3)]
    using sector_offset(1) [OF assms(2)] by (simp add: emmc_seek_def)
qed

text \<open>Entry 25 of the command table, the multiple-block write, is the reserved command, which
  \<open>emmc_command\<close> rejects: writing more than one block fails after three attempts, whatever the card
  does, and nothing is written.\<close>

lemma multi_block_write_fails:
  assumes "block_size d = 512" "bsize = of_nat (512 * n)" "1 < n" "n < 8388608"
  shows "\<exists>d'. do_data_command True b bsize blk d = (False, b, d') \<and> sd_card d' = sd_card d"
proof -
  have u: "unat bsize = 512 * n" unfolding assms(2) using assms(4) by (intro unat_of_nat_u32) simp
  have dm: "math_div bsize 512 = bsize div 512" "math_mod bsize 512 = bsize mod 512"
    by (simp_all add: math_div_def math_mod_def udivmod_div_mod)
  have q: "unat (bsize div 512) = n" by (simp add: unat_div_distrib u)
  have m: "bsize mod 512 = 0" using word_mod_zero_iff [of bsize 512] u by simp
  have gt: "1 < bsize div 512" using q assms(3) by (simp add: word_less_nat_alt)
  have ge: "\<not> bsize < 512" using u assms(3) by (simp add: word_less_nat_alt)
  have fail: "emmc_command CTWriteMultiple a buf e = (False, buf, e)" for a buf e
    by (simp add: emmc_command_def CTWriteMultiple_def write_multiple_invalid)
  have "command_retry k CTWriteMultiple a buf e = (False, buf, e)" for k a buf e
    by (induction k) (simp_all add: fail)
  then show ?thesis
    unfolding do_data_command_def assms(1) dm Let_def using ge m gt by simp
qed

end
