(* ===== verification/FatCache.thy ===== *)
theory FatCache
  imports Emmc
begin

text \<open>
  The sector cache of lib/src/pifat.c: \<open>fs_read_sector\<close>, \<open>fs_write_sector\<close> and
  \<open>fs_read_mult_sector\<close> over the block device, with 2048 * 16 direct-mapped slots (the data, tag and
  valid arrays are functions of the slot). An uninitialised local buffer holds arbitrary bytes, which
  the state supplies. The contract of a sector store is a locale, interpreted on the cached device;
  the file-system theories use its lemmas and never look at the cache again.
\<close>

section \<open>The code\<close>

record fs_state =
  dev :: emmc_device
  fs_cache_data :: "u32 \<Rightarrow> u8 list"
  fs_cache_tag :: "u32 \<Rightarrow> u32"
  fs_cache_valid :: "u32 \<Rightarrow> u8"
  uninit :: "nat \<Rightarrow> u8"

definition FS_SECTOR_SIZE :: u32 where "FS_SECTOR_SIZE = 512"
definition FS_CACHE_SLOTS :: u32 where "FS_CACHE_SLOTS = 2048 * 16"
definition FS_CACHE_MASK :: u32 where "FS_CACHE_MASK = FS_CACHE_SLOTS - 1"

definition local_buf :: "nat \<Rightarrow> fs_state \<Rightarrow> u8 list" where
  "local_buf n fs = map (uninit fs) [0..<n]"

definition cache_hit :: "u32 \<Rightarrow> fs_state \<Rightarrow> bool" where
  "cache_hit sector fs \<longleftrightarrow> fs_cache_valid fs (sector AND FS_CACHE_MASK) \<noteq> 0
     \<and> fs_cache_tag fs (sector AND FS_CACHE_MASK) = sector"

definition cache_fill :: "u32 \<Rightarrow> u8 list \<Rightarrow> fs_state \<Rightarrow> fs_state" where
  "cache_fill sector buf fs = fs\<lparr>
     fs_cache_data := (fs_cache_data fs)(sector AND FS_CACHE_MASK := take 512 buf),
     fs_cache_tag := (fs_cache_tag fs)(sector AND FS_CACHE_MASK := sector),
     fs_cache_valid := (fs_cache_valid fs)(sector AND FS_CACHE_MASK := 1)\<rparr>"

definition fs_read_sector :: "u8 list \<Rightarrow> u32 \<Rightarrow> fs_state \<Rightarrow> u8 list \<times> fs_state" where
  "fs_read_sector buf sector fs =
     (if cache_hit sector fs then (blit buf 0 (fs_cache_data fs (sector AND FS_CACHE_MASK)), fs)
      else case emmc_read buf FS_SECTOR_SIZE (emmc_seek (ucast (sector * FS_SECTOR_SIZE)) (dev fs)) of
        (r, buf', d) \<Rightarrow> (buf', cache_fill sector buf' (fs\<lparr>dev := d\<rparr>)))"

definition fs_write_sector :: "u8 list \<Rightarrow> u32 \<Rightarrow> fs_state \<Rightarrow> fs_state" where
  "fs_write_sector buf sector fs =
     (let fs1 = (if cache_hit sector fs
                 then fs\<lparr>fs_cache_valid := (fs_cache_valid fs)(sector AND FS_CACHE_MASK := 0)\<rparr> else fs)
      in case emmc_write buf FS_SECTOR_SIZE (emmc_seek (ucast (sector * FS_SECTOR_SIZE)) (dev fs1)) of
           (r, d) \<Rightarrow> fs1\<lparr>dev := d\<rparr>)"

fun read_mult_loop :: "nat \<Rightarrow> nat \<Rightarrow> u8 list \<Rightarrow> u32 \<Rightarrow> fs_state \<Rightarrow> u8 list \<times> fs_state" where
  "read_mult_loop s 0 buf sector fs = (buf, fs)"
| "read_mult_loop s (Suc n) buf sector fs =
     (let cur_sector = sector + of_nat s in
      if cache_hit cur_sector fs
      then read_mult_loop (s + 1) n (blit buf (s * 512) (fs_cache_data fs (cur_sector AND FS_CACHE_MASK))) sector fs
      else case emmc_read (slice buf (s * 512) 512) FS_SECTOR_SIZE
                  (emmc_seek (ucast (cur_sector * FS_SECTOR_SIZE)) (dev fs)) of
        (r, b, d) \<Rightarrow> read_mult_loop (s + 1) n (blit buf (s * 512) b) sector (cache_fill cur_sector b (fs\<lparr>dev := d\<rparr>)))"

definition fs_read_mult_sector :: "u8 list \<Rightarrow> u32 \<Rightarrow> u32 \<Rightarrow> fs_state \<Rightarrow> u8 list \<times> fs_state" where
  "fs_read_mult_sector buf sector count fs = read_mult_loop 0 (unat count) buf sector fs"

section \<open>The contract of a sector store\<close>

locale sector_store =
  fixes rd :: "u8 list \<Rightarrow> u32 \<Rightarrow> 's \<Rightarrow> u8 list \<times> 's"
    and wr :: "u8 list \<Rightarrow> u32 \<Rightarrow> 's \<Rightarrow> 's"
    and view :: "'s \<Rightarrow> u32 \<Rightarrow> u8 list"
    and inv :: "'s \<Rightarrow> bool"
    and addr_ok :: "u32 \<Rightarrow> bool"
  assumes rd_law: "inv s \<Longrightarrow> addr_ok a \<Longrightarrow> length b = 512 \<Longrightarrow>
      fst (rd b a s) = view s a \<and> view (snd (rd b a s)) = view s \<and> inv (snd (rd b a s))"
    and wr_law: "inv s \<Longrightarrow> addr_ok a \<Longrightarrow> length b = 512 \<Longrightarrow>
      view (wr b a s) = (view s)(a := b) \<and> inv (wr b a s)"
    and view_length: "inv s \<Longrightarrow> length (view s a) = 512"
begin

lemma rd_cases:
  assumes "inv s" "addr_ok a" "length b = 512"
  obtains s' where "rd b a s = (view s a, s')" "view s' = view s" "inv s'"
  using rd_law [OF assms] by (metis prod.collapse)

lemma rd_after_wr:
  assumes "inv s" "addr_ok a" "addr_ok a'" "length b = 512" "length j = 512"
  shows "fst (rd j a' (wr b a s)) = (if a' = a then b else view s a')"
  using rd_law [of "wr b a s" a' j] wr_law [of s a b] assms by simp

lemma read_modify_write:
  assumes "inv s" "addr_ok a" "length j = 512" "rd j a s = (b, s1)" "length (f (view s a)) = 512"
  shows "b = view s a" "view (wr (f b) a s1) = (view s)(a := f (view s a))" "inv (wr (f b) a s1)"
proof -
  obtain s' where s': "rd j a s = (view s a, s')" "view s' = view s" "inv s'"
    using assms(1-3) by (rule rd_cases)
  with assms(4) have e: "b = view s a" "s1 = s'" by simp_all
  show "b = view s a" by (rule e(1))
  show "view (wr (f b) a s1) = (view s)(a := f (view s a))" "inv (wr (f b) a s1)"
    unfolding e using wr_law [OF s'(3) assms(2,5)] s'(2) by simp_all
qed

end

section \<open>The cached device is a sector store\<close>

definition disk :: "fs_state \<Rightarrow> u32 \<Rightarrow> u8 list" where
  "disk fs = blocks (sd_card (dev fs))"

definition sector_ok :: "u32 \<Rightarrow> bool" where
  "sector_ok s \<longleftrightarrow> unat s < 2 ^ 23"

definition coherent :: "fs_state \<Rightarrow> bool" where
  "coherent fs \<longleftrightarrow> emmc_ok (dev fs) \<and>
     (\<forall>slot. fs_cache_valid fs slot \<noteq> 0 \<longrightarrow>
        fs_cache_tag fs slot AND FS_CACHE_MASK = slot \<and> sector_ok (fs_cache_tag fs slot)
        \<and> fs_cache_data fs slot = disk fs (fs_cache_tag fs slot))"

lemma coherent_ok: "coherent fs \<Longrightarrow> emmc_ok (dev fs)"
  by (simp add: coherent_def)

lemma disk_length: "coherent fs \<Longrightarrow> length (disk fs s) = 512"
  by (simp add: coherent_def emmc_ok_def disk_def)

lemma coherent_hit:
  "coherent fs \<Longrightarrow> cache_hit s fs \<Longrightarrow> fs_cache_data fs (s AND FS_CACHE_MASK) = disk fs s"
  by (auto simp: coherent_def cache_hit_def)

lemma coherent_dev_update:
  assumes "coherent fs" "emmc_ok d" "blocks (sd_card d) = disk fs"
  shows "coherent (fs\<lparr>dev := d\<rparr>)" "disk (fs\<lparr>dev := d\<rparr>) = disk fs"
  using assms by (auto simp: coherent_def disk_def)

lemma coherent_cache_fill:
  assumes "coherent fs" "sector_ok s"
  shows "coherent (cache_fill s (disk fs s) fs)" "disk (cache_fill s b fs) = disk fs"
  using assms disk_length [OF assms(1), of s] by (auto simp: coherent_def cache_fill_def disk_def)

lemma fs_read_miss:
  assumes "coherent fs" "sector_ok s" "length buf = 512"
    and "emmc_read buf FS_SECTOR_SIZE (emmc_seek (ucast (s * FS_SECTOR_SIZE)) (dev fs)) = (r, b, d)"
  shows "b = disk fs s" "disk (cache_fill s b (fs\<lparr>dev := d\<rparr>)) = disk fs" "coherent (cache_fill s b (fs\<lparr>dev := d\<rparr>))"
proof -
  have e: "b = disk fs s" "d = (dev fs)\<lparr>dev_offset := ucast (s * 512), transfer_blocks := 1\<rparr>"
    using emmc_read_block [OF coherent_ok [OF assms(1)], of s buf] assms(2-4)
    by (simp_all add: FS_SECTOR_SIZE_def sector_ok_def disk_def)
  have ok: "emmc_ok d" "blocks (sd_card d) = disk fs"
    using coherent_ok [OF assms(1)] by (simp_all add: e(2) emmc_ok_def disk_def)
  note c = coherent_dev_update [OF assms(1) ok]
  show "b = disk fs s" by (rule e(1))
  show "disk (cache_fill s b (fs\<lparr>dev := d\<rparr>)) = disk fs"
    using coherent_cache_fill(2) [OF c(1) assms(2)] c(2) by simp
  show "coherent (cache_fill s b (fs\<lparr>dev := d\<rparr>))"
    using coherent_cache_fill(1) [OF c(1) assms(2)] c(2) e(1) by simp
qed

lemma fs_read_sector_law:
  assumes "coherent fs" "sector_ok s" "length buf = 512"
  shows "fst (fs_read_sector buf s fs) = disk fs s \<and> disk (snd (fs_read_sector buf s fs)) = disk fs
    \<and> coherent (snd (fs_read_sector buf s fs))"
proof (cases "cache_hit s fs")
  case True
  then show ?thesis
    using assms coherent_hit [OF assms(1) True] disk_length [OF assms(1), of s] by (simp add: fs_read_sector_def)
next
  case False
  obtain r b d where e: "emmc_read buf FS_SECTOR_SIZE (emmc_seek (ucast (s * FS_SECTOR_SIZE)) (dev fs)) = (r, b, d)"
    by (metis prod_cases3)
  show ?thesis using fs_read_miss [OF assms e] False e by (simp add: fs_read_sector_def)
qed

lemma fs_write_sector_law:
  assumes "coherent fs" "sector_ok s" "length buf = 512"
  shows "disk (fs_write_sector buf s fs) = (disk fs)(s := buf) \<and> coherent (fs_write_sector buf s fs)"
proof -
  let ?fs1 = "if cache_hit s fs then fs\<lparr>fs_cache_valid := (fs_cache_valid fs)(s AND FS_CACHE_MASK := 0)\<rparr> else fs"
  let ?d = "(dev fs)\<lparr>dev_offset := ucast (s * 512), transfer_blocks := 1,
        sd_card := (sd_card (dev fs))\<lparr>blocks := (blocks (sd_card (dev fs)))(s := buf)\<rparr>\<rparr>"
  have d1: "dev ?fs1 = dev fs" by simp
  have w: "fs_write_sector buf s fs = ?fs1\<lparr>dev := ?d\<rparr>"
    using emmc_write_block [OF coherent_ok [OF assms(1)], of s buf] assms(2,3)
    unfolding fs_write_sector_def Let_def d1 by (simp add: FS_SECTOR_SIZE_def sector_ok_def)
  have ok: "emmc_ok ?d" using coherent_ok [OF assms(1)] assms(3) by (simp add: emmc_ok_def)
  have "coherent (?fs1\<lparr>dev := ?d\<rparr>)"
    using assms(1) ok by (auto simp: coherent_def cache_hit_def disk_def)
  then show ?thesis unfolding w by (simp add: disk_def)
qed

interpretation fs: sector_store fs_read_sector fs_write_sector disk coherent sector_ok
  by unfold_locales (auto simp: fs_read_sector_law fs_write_sector_law disk_length)

text \<open>C8: on a coherent cache a read returns what the disk holds, hit or miss, and after a write a
  read of the same sector returns what was written and a read of any other sector what the disk
  held before.\<close>
theorem fs_read_after_write:
  assumes "coherent fs" "sector_ok a" "sector_ok a'" "length b = 512" "length j = 512"
  shows "fst (fs_read_sector j a' (fs_write_sector b a fs)) = (if a' = a then b else disk fs a')"
  using assms by (rule fs.rd_after_wr)

definition blank_device :: emmc_device where
  "blank_device = \<lparr>transfer_blocks = 0, block_size = 512, sdhc = True, dev_offset = 0,
     sd_card = \<lparr>blocks = (\<lambda>b. replicate 512 0), byte_addressed = False, outcomes = []\<rparr>\<rparr>"

definition blank_fs :: fs_state where
  "blank_fs = \<lparr>dev = blank_device, fs_cache_data = (\<lambda>s. []), fs_cache_tag = (\<lambda>s. 0), fs_cache_valid = (\<lambda>s. 0),
     uninit = (\<lambda>n. 0)\<rparr>"

lemma blank_coherent: "coherent blank_fs"
  by (simp add: coherent_def blank_fs_def blank_device_def emmc_ok_def)

text \<open>Two sectors that share a cache slot.\<close>

theorem fs_read_after_write_witness:
  "fst (fs_read_sector (replicate 512 9) 32773 (fs_write_sector (replicate 512 7) 5 blank_fs)) = replicate 512 0
   \<and> fst (fs_read_sector (replicate 512 9) 5 (fs_write_sector (replicate 512 7) 5 blank_fs)) = replicate 512 7"
  using fs_read_after_write [OF blank_coherent, of 5 32773 "replicate 512 7" "replicate 512 9"]
    fs_read_after_write [OF blank_coherent, of 5 5 "replicate 512 7" "replicate 512 9"]
  by (simp add: sector_ok_def disk_def blank_fs_def blank_device_def)

section \<open>Reading several sectors\<close>

text \<open>\<open>sectors d a n\<close>: the bytes of \<open>n\<close> consecutive sectors of a disk.\<close>

fun sectors :: "(u32 \<Rightarrow> u8 list) \<Rightarrow> u32 \<Rightarrow> nat \<Rightarrow> u8 list" where
  "sectors d a 0 = []"
| "sectors d a (Suc n) = d a @ sectors d (a + 1) n"

lemma length_sectors: "(\<And>a. length (d a) = 512) \<Longrightarrow> length (sectors d a n) = 512 * n"
  by (induction n arbitrary: a) simp_all

lemma sectors_append: "sectors d a (m + n) = sectors d a m @ sectors d (a + of_nat m) n"
  by (induction m arbitrary: a) (simp_all add: add.commute add.left_commute add.assoc)

lemma blit_prefix:
  assumes "length pre = i" "length xs = 512" "512 \<le> length rest"
  shows "blit (pre @ rest) i xs = (pre @ xs) @ drop 512 rest"
  using assms by (simp add: blit_def)

lemma read_mult_loop_sectors:
  assumes "coherent fs" "length pre = s * 512" "length rest = n * 512"
    "\<And>i. s \<le> i \<Longrightarrow> i < s + n \<Longrightarrow> sector_ok (sector + of_nat i)"
  shows "\<exists>fs'. read_mult_loop s n (pre @ rest) sector fs = (pre @ sectors (disk fs) (sector + of_nat s) n, fs')
    \<and> disk fs' = disk fs \<and> coherent fs'"
  using assms
proof (induction n arbitrary: s pre rest fs)
  case 0
  then show ?case by simp
next
  case (Suc n)
  let ?c = "sector + of_nat s"
  have ok: "sector_ok ?c" using Suc.prems(4) by simp
  have pl: "length (pre @ disk fs ?c) = (s + 1) * 512" using Suc.prems(2) disk_length [OF Suc.prems(1)] by simp
  have rl: "length (drop 512 rest) = n * 512" using Suc.prems(3) by simp
  have b: "blit (pre @ rest) (s * 512) (disk fs ?c) = (pre @ disk fs ?c) @ drop 512 rest"
    using Suc.prems(2,3) disk_length [OF Suc.prems(1)] by (intro blit_prefix) simp_all
  have "\<exists>fs1. read_mult_loop s (Suc n) (pre @ rest) sector fs = read_mult_loop (s + 1) n ((pre @ disk fs ?c) @ drop 512 rest) sector fs1
      \<and> disk fs1 = disk fs \<and> coherent fs1"
  proof (cases "cache_hit ?c fs")
    case True
    then have "read_mult_loop s (Suc n) (pre @ rest) sector fs = read_mult_loop (s + 1) n ((pre @ disk fs ?c) @ drop 512 rest) sector fs"
      using coherent_hit [OF Suc.prems(1) True] b by (simp add: Let_def)
    with Suc.prems(1) show ?thesis by blast
  next
    case False
    obtain r bf d where e: "emmc_read (slice (pre @ rest) (s * 512) 512) FS_SECTOR_SIZE
        (emmc_seek (ucast (?c * FS_SECTOR_SIZE)) (dev fs)) = (r, bf, d)"
      by (metis prod_cases3)
    have "length (slice (pre @ rest) (s * 512) 512) = 512" using Suc.prems(2,3) by simp
    note m = fs_read_miss [OF Suc.prems(1) ok this e]
    have "read_mult_loop s (Suc n) (pre @ rest) sector fs
        = read_mult_loop (s + 1) n ((pre @ disk fs ?c) @ drop 512 rest) sector (cache_fill ?c bf (fs\<lparr>dev := d\<rparr>))"
      using False e b m(1) by (simp add: Let_def)
    with m(2,3) show ?thesis by blast
  qed
  then obtain fs1 where fs1: "read_mult_loop s (Suc n) (pre @ rest) sector fs
        = read_mult_loop (s + 1) n ((pre @ disk fs ?c) @ drop 512 rest) sector fs1"
      "disk fs1 = disk fs" "coherent fs1" by blast
  have "\<exists>fs'. read_mult_loop (s + 1) n ((pre @ disk fs ?c) @ drop 512 rest) sector fs1
      = ((pre @ disk fs ?c) @ sectors (disk fs1) (sector + of_nat (s + 1)) n, fs') \<and> disk fs' = disk fs1 \<and> coherent fs'"
    using fs1(3) pl rl Suc.prems(4) by (intro Suc.IH) simp_all
  then show ?case using fs1 by (auto simp: add.assoc add.commute add.left_commute)
qed

lemma fs_read_mult_sector_law:
  assumes "coherent fs" "length buf = 512 * unat count" "\<And>i. i < unat count \<Longrightarrow> sector_ok (sector + of_nat i)"
  shows "fst (fs_read_mult_sector buf sector count fs) = sectors (disk fs) sector (unat count)
    \<and> disk (snd (fs_read_mult_sector buf sector count fs)) = disk fs
    \<and> coherent (snd (fs_read_mult_sector buf sector count fs))"
  using read_mult_loop_sectors [of fs "[]" 0 buf "unat count" sector] assms
  by (auto simp: fs_read_mult_sector_def mult.commute)

end
