(* ===== verification/FatTable.thy ===== *)
theory FatTable
  imports FatCache
begin

text \<open>
  The on-disk structures and the allocation table of lib/src/pifat.c: the partition table and the
  BIOS parameter block (\<open>fs_parse_mbr_section\<close>, \<open>fat32_parse_bpb_section\<close>, \<open>fat32_init\<close>), the table
  entries (\<open>fat32_fat_next_cluster\<close>, \<open>fat32_write_fat_cluster_entry\<close>), cluster chains
  (\<open>fat32_free_cluster_chain\<close>) and the search for free clusters. A packed structure is decoded from
  the bytes it lies over; the loops over a chain take fuel, and None is running out of it.
\<close>

section \<open>On-disk structures\<close>

record mbr_part_entry =
  part_status :: u8
  part_chs_first :: "u8 list"
  part_type :: u8
  part_chs_last :: "u8 list"
  part_lba_first :: u32
  part_sectors :: u32

record mbr_table =
  mbr_part :: "mbr_part_entry list"
  mbr_sig :: "u8 list"

record fat32_bpb =
  bpb_jmp :: "u8 list"
  bpb_oem :: "u8 list"
  bpb_bytes_per_sec :: u16
  bpb_sec_per_clus :: u8
  bpb_rsvd_sec_cnt :: u16
  bpb_num_fats :: u8
  bpb_root_ent_cnt :: u16
  bpb_tot_sec16 :: u16
  bpb_media :: u8
  bpb_fat_sz16 :: u16
  bpb_sec_per_trk :: u16
  bpb_num_heads :: u16
  bpb_hidd_sec :: u32
  bpb_tot_sec32 :: u32
  bpb_fat_sz32 :: u32
  bpb_ext_flags :: u16
  bpb_fs_ver :: u16
  bpb_root_clus :: u32
  bpb_fs_info :: u16
  bpb_bk_boot_sec :: u16

record fat_meta =
  bytes_per_sec :: u32
  sec_per_clus :: u32
  fat_start_lba :: u32
  data_start_lba :: u32
  meta_bpb :: fat32_bpb
  meta_mbr :: mbr_table

definition mbr_part_at :: "u8 list \<Rightarrow> nat \<Rightarrow> mbr_part_entry" where
  "mbr_part_at buf i = \<lparr>part_status = buf ! i, part_chs_first = slice buf (i + 1) 3,
     part_type = buf ! (i + 4), part_chs_last = slice buf (i + 5) 3, part_lba_first = read_u32 buf (i + 8),
     part_sectors = read_u32 buf (i + 12)\<rparr>"

definition fs_parse_mbr_section :: "u8 list \<Rightarrow> mbr_table option" where
  "fs_parse_mbr_section buf =
     (let t = \<lparr>mbr_part = map (\<lambda>k. mbr_part_at buf (446 + 16 * k)) [0, 1, 2, 3], mbr_sig = [buf ! 510, buf ! 511]\<rparr>
      in if mbr_sig t ! 0 \<noteq> 0x55 \<or> mbr_sig t ! 1 \<noteq> 0xaa then None else Some t)"

definition bpb_at :: "u8 list \<Rightarrow> fat32_bpb" where
  "bpb_at buf = \<lparr>bpb_jmp = slice buf 0 3, bpb_oem = slice buf 3 8, bpb_bytes_per_sec = read_u16 buf 11,
     bpb_sec_per_clus = buf ! 13, bpb_rsvd_sec_cnt = read_u16 buf 14, bpb_num_fats = buf ! 16,
     bpb_root_ent_cnt = read_u16 buf 17, bpb_tot_sec16 = read_u16 buf 19, bpb_media = buf ! 21,
     bpb_fat_sz16 = read_u16 buf 22, bpb_sec_per_trk = read_u16 buf 24, bpb_num_heads = read_u16 buf 26,
     bpb_hidd_sec = read_u32 buf 28, bpb_tot_sec32 = read_u32 buf 32, bpb_fat_sz32 = read_u32 buf 36,
     bpb_ext_flags = read_u16 buf 40, bpb_fs_ver = read_u16 buf 42, bpb_root_clus = read_u32 buf 44,
     bpb_fs_info = read_u16 buf 48, bpb_bk_boot_sec = read_u16 buf 50\<rparr>"

definition fat32_parse_bpb_section :: "u8 list \<Rightarrow> fat32_bpb option" where
  "fat32_parse_bpb_section buf =
     (let t = bpb_at buf in
      if ucast (bpb_bytes_per_sec t) \<noteq> FS_SECTOR_SIZE \<or> bpb_root_ent_cnt t \<noteq> 0 \<or> bpb_fat_sz16 t \<noteq> 0
         \<or> bpb_fat_sz32 t = 0 \<or> bpb_root_clus t < 2 then None
      else if buf ! 510 \<noteq> 0x55 \<or> buf ! 511 \<noteq> 0xaa then None
      else Some t)"

definition meta_of :: "mbr_table \<Rightarrow> u32 \<Rightarrow> fat32_bpb \<Rightarrow> fat_meta" where
  "meta_of t lba b =
     (let fat_start = lba + ucast (bpb_rsvd_sec_cnt b) in
      \<lparr>bytes_per_sec = ucast (bpb_bytes_per_sec b), sec_per_clus = ucast (bpb_sec_per_clus b),
       fat_start_lba = fat_start, data_start_lba = fat_start + ucast (bpb_num_fats b) * bpb_fat_sz32 b,
       meta_bpb = b, meta_mbr = t\<rparr>)"

text \<open>The loop over the four partitions: only type 0x0B is mounted, and a partition of that type with
  a bad parameter block ends the search.\<close>

fun init_parts :: "mbr_table \<Rightarrow> mbr_part_entry list \<Rightarrow> fs_state \<Rightarrow> fat_meta option \<times> fs_state" where
  "init_parts t [] fs = (None, fs)"
| "init_parts t (p # ps) fs =
     (if part_type p = 0x0B then
        (case fs_read_sector (local_buf 512 fs) (part_lba_first p) fs of (buf2, fs') \<Rightarrow>
           (case fat32_parse_bpb_section buf2 of None \<Rightarrow> (None, fs')
            | Some b \<Rightarrow> (Some (meta_of t (part_lba_first p) b), fs')))
      else init_parts t ps fs)"

text \<open>The cache arrays are allocated on the first call, with every slot invalid.\<close>

definition fat32_init :: "bool \<Rightarrow> fs_state \<Rightarrow> fat_meta option \<times> fs_state" where
  "fat32_init have_cache fs0 =
     (let fs = (if \<not> have_cache then fs0\<lparr>fs_cache_valid := (\<lambda>s. 0)\<rparr> else fs0) in
      case fs_read_sector (local_buf 512 fs) 0 fs of (buf, fs1) \<Rightarrow>
        (case fs_parse_mbr_section buf of None \<Rightarrow> (None, fs1)
         | Some t \<Rightarrow> init_parts t (mbr_part t) fs1))"

section \<open>Table entries\<close>

definition fat32_cluster_to_lba :: "fat_meta \<Rightarrow> u32 \<Rightarrow> u32" where
  "fat32_cluster_to_lba meta clus = data_start_lba meta + (clus - 2) * sec_per_clus meta"

definition fat_sector :: "fat_meta \<Rightarrow> u32 \<Rightarrow> u32" where
  "fat_sector meta clus = fat_start_lba meta + (clus * 4) div bytes_per_sec meta"

definition fat_index :: "fat_meta \<Rightarrow> u32 \<Rightarrow> nat" where
  "fat_index meta clus = unat ((clus * 4) mod bytes_per_sec meta)"

definition fat32_fat_next_cluster :: "fat_meta \<Rightarrow> u32 \<Rightarrow> fs_state \<Rightarrow> u32 \<times> fs_state" where
  "fat32_fat_next_cluster meta clus fs =
     (case fs_read_sector (local_buf 512 fs) (fat_sector meta clus) fs of (buf, fs') \<Rightarrow>
        (read_u32 buf (fat_index meta clus) AND 0x0FFFFFFF, fs'))"

definition fat32_write_fat_cluster_entry :: "fat_meta \<Rightarrow> u32 \<Rightarrow> u32 \<Rightarrow> fs_state \<Rightarrow> fs_state" where
  "fat32_write_fat_cluster_entry meta clus value fs =
     (case fs_read_sector (local_buf 512 fs) (fat_sector meta clus) fs of (buf, fs1) \<Rightarrow>
        let old = read_u32 buf (fat_index meta clus);
            buf' = write_u32 buf (fat_index meta clus) ((old AND 0xF0000000) OR (value AND 0x0FFFFFFF))
        in fs_write_sector buf' (fat_sector meta clus) fs1)"

fun fat32_free_cluster_chain :: "nat \<Rightarrow> fat_meta \<Rightarrow> u32 \<Rightarrow> fs_state \<Rightarrow> fs_state option" where
  "fat32_free_cluster_chain fuel meta clus fs =
     (if clus < 0x0FFFFFF8 \<and> clus \<noteq> 0 then
        (case fuel of 0 \<Rightarrow> None
         | Suc n \<Rightarrow> (case fat32_fat_next_cluster meta clus fs of (next_clus, fs1) \<Rightarrow>
             fat32_free_cluster_chain n meta next_clus (fat32_write_fat_cluster_entry meta clus 0 fs1)))
      else Some fs)"

declare fat32_free_cluster_chain.simps [simp del]

section \<open>The search for free clusters\<close>

definition total_clusters :: "fat_meta \<Rightarrow> u32" where
  "total_clusters meta =
     (let b = meta_bpb meta in
      (bpb_tot_sec32 b - (data_start_lba meta - (bpb_hidd_sec b + ucast (bpb_rsvd_sec_cnt b)
        + ucast (bpb_num_fats b) * bpb_fat_sz32 b))) div sec_per_clus meta)"

text \<open>One look at the table, through the one-sector buffer of the search.\<close>

definition cached_entry :: "fat_meta \<Rightarrow> u32 \<Rightarrow> u8 list \<Rightarrow> u32 \<Rightarrow> fs_state \<Rightarrow> u32 \<times> u8 list \<times> u32 \<times> fs_state" where
  "cached_entry meta clus cache_buf cache_sector fs =
     (if fat_sector meta clus \<noteq> cache_sector
      then (case fs_read_sector cache_buf (fat_sector meta clus) fs of (buf, fs') \<Rightarrow>
              (read_u32 buf (fat_index meta clus) AND 0x0FFFFFFF, buf, fat_sector meta clus, fs'))
      else (read_u32 cache_buf (fat_index meta clus) AND 0x0FFFFFFF, cache_buf, cache_sector, fs))"

fun find_free_loop :: "nat \<Rightarrow> fat_meta \<Rightarrow> u32 \<Rightarrow> u32 list \<Rightarrow> u32 \<Rightarrow> u8 list \<Rightarrow> u32 \<Rightarrow> fs_state \<Rightarrow> bool \<times> u32 list \<times> fs_state" where
  "find_free_loop 0 meta clus found n cache_buf cache_sector fs = (False, found, fs)"
| "find_free_loop (Suc k) meta clus found n cache_buf cache_sector fs =
     (case cached_entry meta clus cache_buf cache_sector fs of (val, buf, sec, fs') \<Rightarrow>
        if val = 0 then
          (let found' = found @ [clus] in
           if of_nat (length found') = n then (True, found', fs')
           else find_free_loop k meta (clus + 1) found' n buf sec fs')
        else find_free_loop k meta (clus + 1) found n buf sec fs')"

text \<open>The flag is the source's return value 0; the list is what was stored in the output array.\<close>

definition fat32_find_free_clusters :: "fat_meta \<Rightarrow> u32 \<Rightarrow> fs_state \<Rightarrow> bool \<times> u32 list \<times> fs_state" where
  "fat32_find_free_clusters meta n fs =
     find_free_loop (unat (total_clusters meta + 2) - 2) meta 2 [] n (local_buf 512 fs) 0xFFFFFFFF fs"

fun next_free_loop :: "nat \<Rightarrow> fat_meta \<Rightarrow> u32 \<Rightarrow> u32 \<Rightarrow> u8 list \<Rightarrow> u32 \<Rightarrow> fs_state \<Rightarrow> u32 \<times> fs_state" where
  "next_free_loop 0 meta cur clus cache_buf cache_sector fs = (- 1, fs)"
| "next_free_loop (Suc k) meta cur clus cache_buf cache_sector fs =
     (case cached_entry meta clus cache_buf cache_sector fs of (val, buf, sec, fs1) \<Rightarrow>
        if val = 0 then
          (let fs2 = (if cur \<noteq> 0 then fat32_write_fat_cluster_entry meta cur clus fs1 else fs1)
           in (clus, fat32_write_fat_cluster_entry meta clus 0x0FFFFFFF fs2))
        else next_free_loop k meta cur (clus + 1) buf sec fs1)"

definition fat32_give_me_next_free_cluster_please :: "fat_meta \<Rightarrow> u32 \<Rightarrow> fs_state \<Rightarrow> u32 \<times> fs_state" where
  "fat32_give_me_next_free_cluster_please meta cur fs =
     next_free_loop (unat (total_clusters meta + 2) - 2) meta cur 2 (local_buf 512 fs) 0xFFFFFFFF fs"

section \<open>Entries as a map on clusters\<close>

definition clus_ok :: "fat_meta \<Rightarrow> u32 \<Rightarrow> bool" where
  "clus_ok meta c \<longleftrightarrow> bytes_per_sec meta = 512 \<and> unat c < 2 ^ 28 \<and> unat (fat_start_lba meta) + unat c div 128 < 2 ^ 23"

definition fat_entry :: "fat_meta \<Rightarrow> (u32 \<Rightarrow> u8 list) \<Rightarrow> u32 \<Rightarrow> u32" where
  "fat_entry meta d c = read_u32 (d (fat_sector meta c)) (fat_index meta c)"

definition next_of :: "fat_meta \<Rightarrow> (u32 \<Rightarrow> u8 list) \<Rightarrow> u32 \<Rightarrow> u32" where
  "next_of meta d c = fat_entry meta d c AND 0x0FFFFFFF"

lemma length_local_buf [simp]: "length (local_buf n fs) = n"
  by (simp add: local_buf_def)

lemma clus_times_4: "clus_ok meta c \<Longrightarrow> unat (c * 4) = unat c * 4"
  by (subst unat_mult_no_wrap) (simp_all add: clus_ok_def)

lemma fat_sector_unat:
  assumes "clus_ok meta c"
  shows "unat (fat_sector meta c) = unat (fat_start_lba meta) + unat c div 128"
proof -
  have "unat (c * 4 div 512) = unat c div 128"
    by (simp add: unat_div_distrib clus_times_4 [OF assms])
  then show ?thesis using assms unfolding fat_sector_def clus_ok_def
    by (subst unat_add_no_wrap) simp_all
qed

lemma fat_index_unat:
  assumes "clus_ok meta c"
  shows "fat_index meta c = 4 * (unat c mod 128)"
proof -
  have "fat_index meta c = unat c * 4 mod 512"
    using assms by (simp add: fat_index_def clus_ok_def unat_mod_distrib clus_times_4 [OF assms])
  also have "\<dots> = 4 * (unat c mod 128)" using mult_mod_right [of 4 "unat c" 128] by (simp add: mult.commute)
  finally show ?thesis .
qed

lemma fat_sector_ok: "clus_ok meta c \<Longrightarrow> sector_ok (fat_sector meta c)"
  using fat_sector_unat [of meta c] by (simp add: sector_ok_def clus_ok_def)

lemma fat_index_bound:
  assumes "clus_ok meta c"
  shows "fat_index meta c + 4 \<le> 512"
  unfolding fat_index_unat [OF assms] using mod_less_divisor [of 128 "unat c"] by linarith

lemma fat_slots_differ:
  assumes "clus_ok meta c" "clus_ok meta c'" "c \<noteq> c'" "fat_sector meta c = fat_sector meta c'"
  shows "fat_index meta c + 4 \<le> fat_index meta c' \<or> fat_index meta c' + 4 \<le> fat_index meta c"
proof -
  have "unat c div 128 = unat c' div 128"
    using assms(4) fat_sector_unat [OF assms(1)] fat_sector_unat [OF assms(2)] by simp
  moreover have "unat c \<noteq> unat c'" using assms(3) by (simp add: u32_eq_nat_iff)
  ultimately have "unat c mod 128 \<noteq> unat c' mod 128" by (metis div_mult_mod_eq)
  then show ?thesis unfolding fat_index_unat [OF assms(1)] fat_index_unat [OF assms(2)] by linarith
qed

lemma next_cluster_law:
  assumes "coherent fs" "clus_ok meta c"
  obtains fs' where "fat32_fat_next_cluster meta c fs = (next_of meta (disk fs) c, fs')"
    "disk fs' = disk fs" "coherent fs'"
proof -
  obtain fs' where "fs_read_sector (local_buf 512 fs) (fat_sector meta c) fs = (disk fs (fat_sector meta c), fs')"
    "disk fs' = disk fs" "coherent fs'"
    using fs.rd_cases [OF assms(1) fat_sector_ok [OF assms(2)] length_local_buf] .
  then show thesis by (intro that) (simp_all add: fat32_fat_next_cluster_def next_of_def fat_entry_def)
qed

definition merge_entry :: "u32 \<Rightarrow> u32 \<Rightarrow> u32" where
  "merge_entry old v = (old AND 0xF0000000) OR (v AND 0x0FFFFFFF)"

definition set_entry :: "fat_meta \<Rightarrow> u32 \<Rightarrow> u32 \<Rightarrow> (u32 \<Rightarrow> u8 list) \<Rightarrow> (u32 \<Rightarrow> u8 list)" where
  "set_entry meta c v d = d(fat_sector meta c :=
     write_u32 (d (fat_sector meta c)) (fat_index meta c) (merge_entry (fat_entry meta d c) v))"

lemma write_entry_law:
  assumes "coherent fs" "clus_ok meta c"
  shows "disk (fat32_write_fat_cluster_entry meta c v fs) = set_entry meta c v (disk fs)"
    "coherent (fat32_write_fat_cluster_entry meta c v fs)"
proof -
  let ?a = "fat_sector meta c" and ?i = "fat_index meta c"
  let ?f = "\<lambda>b. write_u32 b ?i ((read_u32 b ?i AND 0xF0000000) OR (v AND 0x0FFFFFFF))"
  obtain b s1 where r: "fs_read_sector (local_buf 512 fs) ?a fs = (b, s1)" by (metis surj_pair)
  have len: "length (?f (disk fs ?a)) = 512" using disk_length [OF assms(1)] by simp
  note rmw = fs.read_modify_write [OF assms(1) fat_sector_ok [OF assms(2)] length_local_buf r, of ?f, OF len]
  have w: "fat32_write_fat_cluster_entry meta c v fs = fs_write_sector (?f b) ?a s1"
    by (simp add: fat32_write_fat_cluster_entry_def r Let_def)
  show "disk (fat32_write_fat_cluster_entry meta c v fs) = set_entry meta c v (disk fs)"
    unfolding w rmw(2) by (simp add: set_entry_def merge_entry_def fat_entry_def)
  show "coherent (fat32_write_fat_cluster_entry meta c v fs)"
    unfolding w by (rule rmw(3))
qed

lemma fat_entry_set:
  assumes "\<And>a. length (d a) = 512" "clus_ok meta c" "clus_ok meta c'"
  shows "fat_entry meta (set_entry meta c v d) c' = (if c' = c then merge_entry (fat_entry meta d c) v else fat_entry meta d c')"
proof (cases "c' = c")
  case True
  then show ?thesis using assms(1) fat_index_bound [OF assms(2)]
    by (simp add: fat_entry_def set_entry_def read_write_u32_same)
next
  case False
  then have nc: "c \<noteq> c'" by simp
  show ?thesis
  proof (cases "fat_sector meta c = fat_sector meta c'")
    case True
    have "fat_index meta c' + 4 \<le> fat_index meta c \<or> fat_index meta c + 4 \<le> fat_index meta c'"
      using fat_slots_differ [OF assms(2,3) nc True] by blast
    then have "read_u32 (write_u32 b (fat_index meta c) w) (fat_index meta c') = read_u32 b (fat_index meta c')" for b w
      by (rule read_write_u32_other)
    with True False show ?thesis by (simp add: fat_entry_def set_entry_def)
  next
    case False
    then show ?thesis using nc by (simp add: fat_entry_def set_entry_def)
  qed
qed

lemma merge_entry_low: "merge_entry old v AND 0x0FFFFFFF = v AND 0x0FFFFFFF"
  by (simp add: merge_entry_def bit.conj_disj_distrib2 and.assoc)

lemma merge_entry_high: "merge_entry old v AND 0xF0000000 = old AND 0xF0000000"
  by (simp add: merge_entry_def bit.conj_disj_distrib2 and.assoc)

lemma next_of_set:
  assumes "\<And>a. length (d a) = 512" "clus_ok meta c" "clus_ok meta c'"
  shows "next_of meta (set_entry meta c v d) c' = (if c' = c then v AND 0x0FFFFFFF else next_of meta d c')"
  using fat_entry_set [OF assms] by (simp add: next_of_def merge_entry_low)

section \<open>Cluster chains\<close>

text \<open>\<open>is_chain meta d c cs\<close>: following the table from \<open>c\<close> visits exactly \<open>cs\<close> and then meets an
  end-of-chain mark.\<close>

fun is_chain :: "fat_meta \<Rightarrow> (u32 \<Rightarrow> u8 list) \<Rightarrow> u32 \<Rightarrow> u32 list \<Rightarrow> bool" where
  "is_chain meta d c [] \<longleftrightarrow> 0x0FFFFFF8 \<le> c"
| "is_chain meta d c (x # xs) \<longleftrightarrow> c = x \<and> c < 0x0FFFFFF8 \<and> c \<noteq> 0 \<and> clus_ok meta c \<and> is_chain meta d (next_of meta d c) xs"

lemma is_chain_unique: "is_chain meta d c xs \<Longrightarrow> is_chain meta d c ys \<Longrightarrow> xs = ys"
proof (induction xs arbitrary: c ys)
  case Nil
  then show ?case by (cases ys) auto
next
  case (Cons x xs)
  then show ?case by (cases ys) auto
qed

lemma is_chain_suffix: "is_chain meta d c (xs @ y # ys) \<Longrightarrow> is_chain meta d y (y # ys)"
  by (induction xs arbitrary: c) auto

lemma is_chain_distinct: "is_chain meta d c cs \<Longrightarrow> distinct cs"
proof (induction cs arbitrary: c)
  case (Cons x xs)
  have "x \<notin> set xs"
  proof
    assume "x \<in> set xs"
    then obtain ys zs where xs: "xs = ys @ x # zs" by (meson split_list)
    have "is_chain meta d x (x # zs)" using Cons.prems is_chain_suffix [of meta d _ ys x zs] xs by auto
    moreover have "is_chain meta d x (x # xs)" using Cons.prems by auto
    ultimately have "x # zs = x # xs" by (rule is_chain_unique)
    with xs show False by (metis append_Cons append_self_conv2 length_append length_Cons less_add_Suc2 not_less_eq add_eq_self_zero
          add_Suc_right list.inject list.size(4) less_irrefl_nat)
  qed
  with Cons show ?case by auto
qed simp

lemma is_chain_clus_ok: "is_chain meta d c cs \<Longrightarrow> x \<in> set cs \<Longrightarrow> clus_ok meta x"
  by (induction cs arbitrary: c) auto

lemma is_chain_cong:
  "is_chain meta d c cs \<Longrightarrow> (\<And>x. x \<in> set cs \<Longrightarrow> next_of meta d' x = next_of meta d x) \<Longrightarrow> is_chain meta d' c cs"
  by (induction cs arbitrary: c) auto

lemma set_entry_other_sector: "a \<noteq> fat_sector meta c \<Longrightarrow> set_entry meta c v d a = d a"
  by (simp add: set_entry_def)

lemma free_chain_step:
  assumes "coherent fs" "is_chain meta (disk fs) c cs" "length cs \<le> fuel"
  shows "\<exists>fs'. fat32_free_cluster_chain fuel meta c fs = Some fs' \<and> coherent fs'
    \<and> (\<forall>x. clus_ok meta x \<longrightarrow> next_of meta (disk fs') x = (if x \<in> set cs then 0 else next_of meta (disk fs) x))
    \<and> (\<forall>a. a \<notin> fat_sector meta ` set cs \<longrightarrow> disk fs' a = disk fs a)"
  using assms
proof (induction cs arbitrary: c fs fuel)
  case Nil
  then have "\<not> c < 0x0FFFFFF8" by auto
  with Nil show ?case by (simp add: fat32_free_cluster_chain.simps [of fuel])
next
  case (Cons x xs)
  from Cons.prems(2) have c: "x = c" "c < 0x0FFFFFF8" "c \<noteq> 0" and ok: "clus_ok meta c"
    and ch: "is_chain meta (disk fs) (next_of meta (disk fs) c) xs" by auto
  obtain n where fuel: "fuel = Suc n" using Cons.prems(3) by (cases fuel) auto
  obtain fs1 where fs1: "fat32_fat_next_cluster meta c fs = (next_of meta (disk fs) c, fs1)" "disk fs1 = disk fs" "coherent fs1"
    using Cons.prems(1) ok by (rule next_cluster_law)
  define fs2 where "fs2 = fat32_write_fat_cluster_entry meta c 0 fs1"
  have fs2: "disk fs2 = set_entry meta c 0 (disk fs)" "coherent fs2"
    unfolding fs2_def using write_entry_law [OF fs1(3) ok] fs1(2) by simp_all
  have nx: "next_of meta (disk fs2) y = (if y = c then 0 else next_of meta (disk fs) y)" if "clus_ok meta y" for y
    unfolding fs2(1) using next_of_set [OF _ ok that, of "disk fs" 0] disk_length [OF Cons.prems(1)] by simp
  have "c \<notin> set xs" using is_chain_distinct [OF Cons.prems(2)] c(1) by simp
  then have "is_chain meta (disk fs2) (next_of meta (disk fs) c) xs"
    using ch nx is_chain_clus_ok [OF ch] by (intro is_chain_cong [OF ch]) auto
  then obtain fs' where fs': "fat32_free_cluster_chain n meta (next_of meta (disk fs) c) fs2 = Some fs'" "coherent fs'"
    "\<And>y. clus_ok meta y \<Longrightarrow> next_of meta (disk fs') y = (if y \<in> set xs then 0 else next_of meta (disk fs2) y)"
    "\<And>a. a \<notin> fat_sector meta ` set xs \<Longrightarrow> disk fs' a = disk fs2 a"
    using Cons.IH [OF fs2(2), of "next_of meta (disk fs) c" n] Cons.prems(3) fuel by auto
  have "fat32_free_cluster_chain fuel meta c fs = Some fs'"
    using c fs1(1) fs'(1) fuel by (simp add: fat32_free_cluster_chain.simps [of "Suc n"] fs2_def)
  moreover have "disk fs' a = disk fs a" if "a \<notin> fat_sector meta ` set (x # xs)" for a
    using that fs'(4) [of a] c(1) set_entry_other_sector [of a meta c 0 "disk fs"] fs2(1) by simp
  ultimately show ?case using fs'(2,3) nx c(1) by auto
qed

text \<open>A small volume: 64 clusters of two sectors, the table at sector 1. \<open>two_chain\<close> holds the chain of
  clusters 5 and 9.\<close>

definition small_bpb :: fat32_bpb where
  "small_bpb = \<lparr>bpb_jmp = [0, 0, 0], bpb_oem = replicate 8 0, bpb_bytes_per_sec = 512, bpb_sec_per_clus = 2,
     bpb_rsvd_sec_cnt = 1, bpb_num_fats = 1, bpb_root_ent_cnt = 0, bpb_tot_sec16 = 0, bpb_media = 0, bpb_fat_sz16 = 0,
     bpb_sec_per_trk = 0, bpb_num_heads = 0, bpb_hidd_sec = 0, bpb_tot_sec32 = 128, bpb_fat_sz32 = 1, bpb_ext_flags = 0,
     bpb_fs_ver = 0, bpb_root_clus = 2, bpb_fs_info = 0, bpb_bk_boot_sec = 0\<rparr>"

definition small_meta :: fat_meta where
  "small_meta = \<lparr>bytes_per_sec = 512, sec_per_clus = 2, fat_start_lba = 1, data_start_lba = 2,
     meta_bpb = small_bpb, meta_mbr = \<lparr>mbr_part = [], mbr_sig = []\<rparr>\<rparr>"

definition two_chain :: fs_state where
  "two_chain = fat32_write_fat_cluster_entry small_meta 9 0x0FFFFFFF (fat32_write_fat_cluster_entry small_meta 5 9 blank_fs)"

lemma small_clus_ok: "unat c < 2 ^ 28 \<Longrightarrow> clus_ok small_meta c"
  by (simp add: clus_ok_def small_meta_def)

lemma two_chain_coherent: "coherent two_chain"
  unfolding two_chain_def by (intro write_entry_law blank_coherent small_clus_ok) simp_all

lemma two_chain_disk:
  "disk two_chain = set_entry small_meta 9 0x0FFFFFFF (set_entry small_meta 5 9 (disk blank_fs))"
  unfolding two_chain_def
  by (subst write_entry_law(1), intro write_entry_law blank_coherent small_clus_ok, simp_all add: small_clus_ok)
    (subst write_entry_law(1), simp_all add: small_clus_ok blank_coherent)

lemma length_set_entry: "(\<And>a. length (d a) = 512) \<Longrightarrow> length (set_entry meta c v d a) = 512"
  by (simp add: set_entry_def)

lemma two_chain_is_chain: "is_chain small_meta (disk two_chain) 5 [5, 9]"
proof -
  have l: "length (disk blank_fs a) = 512" for a by (rule disk_length [OF blank_coherent])
  have l': "length (set_entry small_meta 5 9 (disk blank_fs) a) = 512" for a by (rule length_set_entry [OF l])
  have n9: "next_of small_meta (disk two_chain) 9 = 0x0FFFFFFF"
    unfolding two_chain_disk by (subst next_of_set [OF l']) (simp_all add: small_clus_ok)
  have n5: "next_of small_meta (disk two_chain) 5 = 9"
    unfolding two_chain_disk
    by (subst next_of_set [OF l'], simp_all add: small_clus_ok)
      (subst next_of_set [OF l], simp_all add: small_clus_ok)
  show ?thesis by (simp add: n5 n9 small_clus_ok)
qed

text \<open>\<open>fat32_write_fat_cluster_entry\<close> changes one entry and no other: following the table from the
  written cluster gives the new value, every other entry reads as before, the top four bits of the
  written entry are kept, and no sector but the entry's own is changed.\<close>
theorem fat_entry_write:
  assumes "coherent fs" "clus_ok meta c" "clus_ok meta c'"
  shows "fst (fat32_fat_next_cluster meta c' (fat32_write_fat_cluster_entry meta c v fs))
      = (if c' = c then v AND 0x0FFFFFFF else next_of meta (disk fs) c')
    \<and> fat_entry meta (disk (fat32_write_fat_cluster_entry meta c v fs)) c AND 0xF0000000 = fat_entry meta (disk fs) c AND 0xF0000000
    \<and> (\<forall>a. a = fat_sector meta c \<or> disk (fat32_write_fat_cluster_entry meta c v fs) a = disk fs a)"
proof -
  note w = write_entry_law [OF assms(1,2), of v]
  obtain fs' where n: "fat32_fat_next_cluster meta c' (fat32_write_fat_cluster_entry meta c v fs)
      = (next_of meta (disk (fat32_write_fat_cluster_entry meta c v fs)) c', fs')"
    using w(2) assms(3) by (rule next_cluster_law)
  have len: "length (disk fs a) = 512" for a by (rule disk_length [OF assms(1)])
  show ?thesis
    using n next_of_set [OF len assms(2,3), of v] fat_entry_set [OF len assms(2,2), of v]
      set_entry_other_sector [of _ meta c v "disk fs"]
    by (auto simp: w(1) merge_entry_high)
qed

theorem fat_entry_write_witness:
  "fst (fat32_fat_next_cluster small_meta 9 (fat32_write_fat_cluster_entry small_meta 5 0xFABCDEF0 two_chain)) = next_of small_meta (disk two_chain) 9
   \<and> fst (fat32_fat_next_cluster small_meta 5 (fat32_write_fat_cluster_entry small_meta 5 0xFABCDEF0 two_chain)) = 0x0ABCDEF0"
  using fat_entry_write [where fs = two_chain and meta = small_meta and c = 5 and c' = 9 and v = "0xFABCDEF0"]
    fat_entry_write [where fs = two_chain and meta = small_meta and c = 5 and c' = 5 and v = "0xFABCDEF0"]
  by (simp add: small_clus_ok two_chain_coherent)

text \<open>C9: \<open>fat32_free_cluster_chain\<close> returns on every well-formed chain, with as much fuel as the chain
  has clusters, and frees exactly the chain: each of its entries is 0 afterwards, every other entry
  is as before, and no sector outside the table is touched.\<close>
theorem free_chain_exact:
  assumes "coherent fs" "is_chain meta (disk fs) c cs"
  shows "\<exists>fs'. fat32_free_cluster_chain (length cs) meta c fs = Some fs' \<and> coherent fs'
    \<and> (\<forall>x. clus_ok meta x \<longrightarrow> next_of meta (disk fs') x = (if x \<in> set cs then 0 else next_of meta (disk fs) x))
    \<and> (\<forall>a. a \<notin> fat_sector meta ` set cs \<longrightarrow> disk fs' a = disk fs a)"
  using free_chain_step [OF assms, of "length cs"] by simp

theorem free_chain_exact_witness:
  "\<exists>fs'. fat32_free_cluster_chain 2 small_meta 5 two_chain = Some fs' \<and> coherent fs'
    \<and> next_of small_meta (disk fs') 5 = 0 \<and> next_of small_meta (disk fs') 9 = 0"
proof -
  obtain fs' where "fat32_free_cluster_chain (length [5, 9 :: u32]) small_meta 5 two_chain = Some fs'" "coherent fs'"
    "\<forall>x. clus_ok small_meta x \<longrightarrow> next_of small_meta (disk fs') x = (if x \<in> set [5, 9] then 0 else next_of small_meta (disk two_chain) x)"
    using free_chain_exact [OF two_chain_coherent two_chain_is_chain] by blast
  moreover have "clus_ok small_meta 5" "clus_ok small_meta 9" by (simp_all add: small_clus_ok)
  ultimately show ?thesis by (intro exI [of _ fs']) (simp add: numeral_2_eq_2)
qed

end
