(* ===== verification/FatSearch.thy ===== *)
theory FatSearch
  imports FatTable
begin

text \<open>
  What the searches for free clusters return, against the scan of the table they implement, and what
  mounting reads. The two searches keep a one-sector copy of the table; the invariant says that the
  copy is the sector it claims to be.
\<close>

section \<open>The search against the table\<close>

fun free_from :: "fat_meta \<Rightarrow> (u32 \<Rightarrow> u8 list) \<Rightarrow> u32 \<Rightarrow> nat \<Rightarrow> u32 list" where
  "free_from meta d c 0 = []"
| "free_from meta d c (Suc k) =
     (if next_of meta d c = 0 then c # free_from meta d (c + 1) k else free_from meta d (c + 1) k)"

definition range_ok :: "fat_meta \<Rightarrow> u32 \<Rightarrow> nat \<Rightarrow> bool" where
  "range_ok meta c k \<longleftrightarrow> (\<forall>i < k. clus_ok meta (c + of_nat i))"

lemma range_ok_Suc: "range_ok meta c (Suc k) \<Longrightarrow> clus_ok meta c \<and> range_ok meta (c + 1) k"
proof -
  assume r: "range_ok meta c (Suc k)"
  have "clus_ok meta (c + 1 + of_nat i)" if "i < k" for i
    using r that unfolding range_ok_def by (auto dest!: spec [of _ "Suc i"] simp: add.assoc)
  moreover have "clus_ok meta c" using r unfolding range_ok_def by (auto dest!: spec [of _ 0])
  ultimately show ?thesis by (simp add: range_ok_def)
qed

definition copy_ok :: "fs_state \<Rightarrow> u8 list \<Rightarrow> u32 \<Rightarrow> bool" where
  "copy_ok fs buf sec \<longleftrightarrow> length buf = 512 \<and> (sec = 0xFFFFFFFF \<or> buf = disk fs sec)"

lemma cached_entry_law:
  assumes "coherent fs" "clus_ok meta c" "copy_ok fs buf sec"
  obtains buf' sec' fs' where "cached_entry meta c buf sec fs = (next_of meta (disk fs) c, buf', sec', fs')"
    "disk fs' = disk fs" "coherent fs'" "copy_ok fs' buf' sec'"
proof (cases "fat_sector meta c = sec")
  case True
  have "sector_ok sec" using fat_sector_ok [OF assms(2)] True by simp
  then have "sec \<noteq> 0xFFFFFFFF" by (auto simp: sector_ok_def)
  with assms(3) True have "buf = disk fs (fat_sector meta c)" by (simp add: copy_ok_def)
  with True assms show thesis
    by (intro that [of buf sec fs]) (simp_all add: cached_entry_def next_of_def fat_entry_def)
next
  case False
  obtain fs' where fs': "fs_read_sector buf (fat_sector meta c) fs = (disk fs (fat_sector meta c), fs')"
    "disk fs' = disk fs" "coherent fs'"
    using fs.rd_cases [OF assms(1) fat_sector_ok [OF assms(2)], of buf] assms(3) by (auto simp: copy_ok_def)
  with False show thesis
    by (intro that [of "disk fs (fat_sector meta c)" "fat_sector meta c" fs'])
      (simp_all add: cached_entry_def next_of_def fat_entry_def copy_ok_def disk_length [OF assms(1)])
qed

lemma find_free_loop_scan:
  assumes "coherent fs" "range_ok meta c k" "copy_ok fs buf sec" "length found < unat n"
  shows "\<exists>fs'. find_free_loop k meta c found n buf sec fs =
      (unat n \<le> length found + length (free_from meta (disk fs) c k),
       found @ take (unat n - length found) (free_from meta (disk fs) c k), fs')
    \<and> disk fs' = disk fs \<and> coherent fs'"
  using assms
proof (induction k arbitrary: c found buf sec fs)
  case 0
  then show ?case by simp
next
  case (Suc k)
  from range_ok_Suc [OF Suc.prems(2)] have ok: "clus_ok meta c" "range_ok meta (c + 1) k" by simp_all
  obtain buf' sec' fs1 where e: "cached_entry meta c buf sec fs = (next_of meta (disk fs) c, buf', sec', fs1)"
    "disk fs1 = disk fs" "coherent fs1" "copy_ok fs1 buf' sec'"
    using Suc.prems(1) ok(1) Suc.prems(3) by (rule cached_entry_law)
  show ?case
  proof (cases "next_of meta (disk fs) c = 0")
    case False
    with Suc.IH [OF e(3) ok(2) e(4) Suc.prems(4)] e show ?thesis by simp
  next
    case True
    have lt: "length (found @ [c]) < 4294967296" using Suc.prems(4) unat_less_2p32 [of n]
      unfolding length_append by (simp del: unat_less_2p32; linarith)
    have eq: "of_nat (length (found @ [c])) = n \<longleftrightarrow> length (found @ [c]) = unat n"
      unfolding u32_eq_nat_iff [of _ n] unat_of_nat_u32 [OF lt] ..
    show ?thesis
    proof (cases "length (found @ [c]) = unat n")
      case T: True
      then have "unat n - length found = Suc 0" by simp
      with T True e eq show ?thesis by (auto simp: Let_def)
    next
      case F: False
      then have "length (found @ [c]) < unat n" using Suc.prems(4) by simp
      from Suc.IH [OF e(3) ok(2) e(4) this]
      obtain fs' where fs': "find_free_loop k meta (c + 1) (found @ [c]) n buf' sec' fs1 =
        (unat n \<le> length (found @ [c]) + length (free_from meta (disk fs) (c + 1) k),
         (found @ [c]) @ take (unat n - length (found @ [c])) (free_from meta (disk fs) (c + 1) k), fs')"
        "disk fs' = disk fs" "coherent fs'" using e(2) by auto
      have t: "take (unat n - length found) (c # xs) = c # take (unat n - length (found @ [c])) xs" for xs
      proof -
        have "unat n - length found = Suc (unat n - length (found @ [c]))" using F Suc.prems(4) by simp
        then show ?thesis by (simp only: take_Suc_Cons)
      qed
      show ?thesis using True F e eq fs' t by (auto simp: Let_def)
    qed
  qed
qed

lemma free_from_props:
  assumes "unat c + k \<le> 2 ^ 32"
  shows "x \<in> set (free_from meta d c k) \<longleftrightarrow> (unat c \<le> unat x \<and> unat x < unat c + k \<and> next_of meta d x = 0)"
  using assms
proof (induction k arbitrary: c)
  case 0
  then show ?case by simp
next
  case (Suc k)
  show ?case
  proof (cases "k = 0")
    case True
    have "x = c \<longleftrightarrow> unat c \<le> unat x \<and> unat x < unat c + 1" by (auto simp: u32_eq_nat_iff)
    with True show ?thesis by auto
  next
    case False
    have c1: "unat (c + 1) = unat c + 1" using Suc.prems False by (subst unat_add_no_wrap) simp_all
    have "x \<in> set (free_from meta d (c + 1) k) \<longleftrightarrow> (unat c + 1 \<le> unat x \<and> unat x < unat c + 1 + k \<and> next_of meta d x = 0)"
      using Suc.IH [of "c + 1"] Suc.prems c1 by simp
    moreover have "x = c \<longleftrightarrow> unat x = unat c" by (rule u32_eq_nat_iff)
    ultimately show ?thesis by (cases "x = c") auto
  qed
qed

lemma free_from_distinct: "unat c + k \<le> 2 ^ 32 \<Longrightarrow> distinct (free_from meta d c k)"
proof (induction k arbitrary: c)
  case 0
  then show ?case by simp
next
  case (Suc k)
  show ?case
  proof (cases "k = 0")
    case True
    then show ?thesis by simp
  next
    case False
    have c1: "unat (c + 1) = unat c + 1" using Suc.prems False by (subst unat_add_no_wrap) simp_all
    then have "c \<notin> set (free_from meta d (c + 1) k)"
      using free_from_props [of "c + 1" k c meta d] Suc.prems by simp
    with Suc.IH [of "c + 1"] Suc.prems c1 show ?thesis by simp
  qed
qed

definition scan_count :: "fat_meta \<Rightarrow> nat" where
  "scan_count meta = unat (total_clusters meta + 2) - 2"

text \<open>The clusters with a zero table entry that the search considers, in order.\<close>

definition free_clusters :: "fat_meta \<Rightarrow> fs_state \<Rightarrow> u32 list" where
  "free_clusters meta fs = free_from meta (disk fs) 2 (scan_count meta)"

lemma scan_count_bound: "2 + scan_count meta \<le> 2 ^ 32"
proof -
  have "unat (total_clusters meta + 2) < 4294967296" by (rule unat_less_2p32)
  moreover have "(2 :: nat) ^ 32 = 4294967296" by simp
  ultimately show ?thesis unfolding scan_count_def by linarith
qed

lemma free_clusters_set:
  "x \<in> set (free_clusters meta fs) \<longleftrightarrow> 2 \<le> unat x \<and> unat x < 2 + scan_count meta \<and> next_of meta (disk fs) x = 0"
  using free_from_props [of 2 "scan_count meta" x meta "disk fs"] scan_count_bound [of meta] by (simp add: free_clusters_def)

lemma free_clusters_distinct: "distinct (free_clusters meta fs)"
  using free_from_distinct [of 2 "scan_count meta" meta "disk fs"] scan_count_bound [of meta] by (simp add: free_clusters_def)

text \<open>A table the search can scan: whole sectors of 512 bytes, inside the addressable part of the card,
  and no cluster number that collides with the end-of-chain marks.\<close>

definition table_ok :: "fat_meta \<Rightarrow> bool" where
  "table_ok meta \<longleftrightarrow> bytes_per_sec meta = 512 \<and> 2 + scan_count meta \<le> 0x0FFFFFF8
     \<and> unat (fat_start_lba meta) + (2 + scan_count meta) div 128 < 2 ^ 23"

lemma table_ok_clus:
  assumes "table_ok meta" "unat c < 2 + scan_count meta"
  shows "clus_ok meta c" "c < 0x0FFFFFF8"
proof -
  have "unat c div 128 \<le> (2 + scan_count meta) div 128" using assms(2) by (intro div_le_mono) simp
  then show "clus_ok meta c" using assms by (simp add: table_ok_def clus_ok_def)
  show "c < 0x0FFFFFF8" using assms by (simp add: table_ok_def word_less_nat_alt)
qed

lemma table_ok_range: "table_ok meta \<Longrightarrow> range_ok meta 2 (scan_count meta)"
  unfolding range_ok_def
proof (intro allI impI)
  fix i assume t: "table_ok meta" and i: "i < scan_count meta"
  have b: "2 + i < 4294967296" using t i by (simp add: table_ok_def)
  then have "unat (of_nat (2 + i) :: u32) = 2 + i" by (rule unat_of_nat_u32)
  then show "clus_ok meta (2 + of_nat i)" using table_ok_clus(1) [OF t, of "2 + of_nat i"] i by simp
qed

text \<open>The allocation search is exact: asked for \<open>n\<close> clusters it returns the first \<open>n\<close> clusters whose
  table entry is zero, all different and within the volume, and it fails exactly when there are
  fewer than \<open>n\<close>; the disk is not changed.\<close>
theorem find_free_clusters_exact:
  assumes "coherent fs" "table_ok meta" "n \<noteq> 0"
  shows "\<exists>fs'. fat32_find_free_clusters meta n fs =
      (unat n \<le> length (free_clusters meta fs), take (unat n) (free_clusters meta fs), fs')
    \<and> disk fs' = disk fs \<and> coherent fs' \<and> distinct (free_clusters meta fs)
    \<and> (\<forall>x. x \<in> set (free_clusters meta fs) \<longleftrightarrow>
         2 \<le> unat x \<and> unat x < 2 + scan_count meta \<and> next_of meta (disk fs) x = 0)"
proof -
  have "copy_ok fs (local_buf 512 fs) 0xFFFFFFFF" by (simp add: copy_ok_def)
  from find_free_loop_scan [OF assms(1) table_ok_range [OF assms(2)] this, of "[]" n] assms(3)
  show ?thesis
    using free_clusters_distinct [of meta fs] free_clusters_set [of _ meta fs]
    by (auto simp: fat32_find_free_clusters_def free_clusters_def [symmetric] scan_count_def [symmetric] unat_gt_0)
qed

definition small_fs :: fs_state where
  "small_fs = two_chain"

lemma small_scan_count: "scan_count small_meta = 64"
  by (simp add: scan_count_def total_clusters_def small_meta_def small_bpb_def)

lemma small_table_ok: "table_ok small_meta"
  unfolding table_ok_def small_scan_count by (simp add: small_meta_def)

theorem find_free_clusters_exact_witness:
  "\<exists>fs'. fat32_find_free_clusters small_meta 3 two_chain =
      (3 \<le> length (free_clusters small_meta two_chain), take 3 (free_clusters small_meta two_chain), fs') \<and> coherent fs'"
  using find_free_clusters_exact [OF two_chain_coherent small_table_ok, of 3] by auto

section \<open>Extending a chain\<close>

lemma next_free_loop_scan:
  assumes "coherent fs" "range_ok meta c k" "copy_ok fs buf sec" "cur = 0 \<or> clus_ok meta cur"
  shows "\<exists>fs'. next_free_loop k meta cur c buf sec fs =
      (case free_from meta (disk fs) c k of [] \<Rightarrow> - 1 | x # _ \<Rightarrow> x, fs') \<and> coherent fs'
    \<and> disk fs' = (case free_from meta (disk fs) c k of [] \<Rightarrow> disk fs
        | x # _ \<Rightarrow> set_entry meta x 0x0FFFFFFF (if cur \<noteq> 0 then set_entry meta cur x (disk fs) else disk fs))"
  using assms
proof (induction k arbitrary: c buf sec fs)
  case 0
  then show ?case by simp
next
  case (Suc k)
  from range_ok_Suc [OF Suc.prems(2)] have ok: "clus_ok meta c" "range_ok meta (c + 1) k" by simp_all
  obtain buf' sec' fs1 where e: "cached_entry meta c buf sec fs = (next_of meta (disk fs) c, buf', sec', fs1)"
    "disk fs1 = disk fs" "coherent fs1" "copy_ok fs1 buf' sec'"
    using Suc.prems(1) ok(1) Suc.prems(3) by (rule cached_entry_law)
  show ?case
  proof (cases "next_of meta (disk fs) c = 0")
    case False
    with Suc.IH [OF e(3) ok(2) e(4) Suc.prems(4), unfolded e(2)] e(1) show ?thesis by simp
  next
    case True
    define fs2 where "fs2 = (if cur \<noteq> 0 then fat32_write_fat_cluster_entry meta cur c fs1 else fs1)"
    have fs2: "coherent fs2" "disk fs2 = (if cur \<noteq> 0 then set_entry meta cur c (disk fs) else disk fs)"
      using write_entry_law [OF e(3), of meta cur c] Suc.prems(4) e(2,3) by (auto simp: fs2_def)
    have r: "next_free_loop (Suc k) meta cur c buf sec fs = (c, fat32_write_fat_cluster_entry meta c 0x0FFFFFFF fs2)"
      using True e(1) by (simp add: fs2_def Let_def)
    show ?thesis
      using write_entry_law [OF fs2(1) ok(1), of "0x0FFFFFFF"] fs2(2) True unfolding r by simp
  qed
qed

lemma next_free_law:
  assumes "coherent fs" "table_ok meta" "cur = 0 \<or> clus_ok meta cur"
  shows "\<exists>fs'. fat32_give_me_next_free_cluster_please meta cur fs =
      (case free_clusters meta fs of [] \<Rightarrow> - 1 | x # _ \<Rightarrow> x, fs') \<and> coherent fs'
    \<and> disk fs' = (case free_clusters meta fs of [] \<Rightarrow> disk fs
        | x # _ \<Rightarrow> set_entry meta x 0x0FFFFFFF (if cur \<noteq> 0 then set_entry meta cur x (disk fs) else disk fs))"
proof -
  have "copy_ok fs (local_buf 512 fs) 0xFFFFFFFF" by (simp add: copy_ok_def)
  from next_free_loop_scan [OF assms(1) table_ok_range [OF assms(2)] this assms(3)]
  show ?thesis
    by (simp add: fat32_give_me_next_free_cluster_please_def free_clusters_def scan_count_def)
qed

lemma chain_next_nonzero: "is_chain meta d c cs \<Longrightarrow> x \<in> set cs \<Longrightarrow> next_of meta d x \<noteq> 0"
proof (induction cs arbitrary: c)
  case (Cons y ys)
  then show ?case by (cases ys) (auto simp: word_le_nat_alt)
qed simp

lemma is_chain_extend:
  assumes "is_chain meta d c (cs @ [cur])" "\<And>y. y \<in> set cs \<Longrightarrow> next_of meta d' y = next_of meta d y"
    "next_of meta d' cur = x" "is_chain meta d' x ys"
  shows "is_chain meta d' c (cs @ cur # ys)"
  using assms by (induction cs arbitrary: c) auto

text \<open>C10: when a file grows, \<open>fat32_give_me_next_free_cluster_please\<close> appends a cluster to its chain:
  if the search succeeds, the chain that ended in \<open>cur\<close> now ends in the cluster returned, which was
  free and was not part of it, and every other entry of the table is as before.\<close>
theorem next_free_extends_chain:
  assumes "coherent fs" "table_ok meta" "is_chain meta (disk fs) c (cs @ [cur])" "free_clusters meta fs \<noteq> []"
  shows "\<exists>x fs'. fat32_give_me_next_free_cluster_please meta cur fs = (x, fs') \<and> coherent fs'
    \<and> is_chain meta (disk fs') c (cs @ [cur, x]) \<and> next_of meta (disk fs) x = 0 \<and> x \<notin> set (cs @ [cur])
    \<and> (\<forall>y. clus_ok meta y \<longrightarrow> y \<noteq> cur \<longrightarrow> y \<noteq> x \<longrightarrow> next_of meta (disk fs') y = next_of meta (disk fs) y)"
proof -
  have cur: "clus_ok meta cur" using is_chain_clus_ok [OF assms(3), of cur] by simp
  have "is_chain meta (disk fs) cur [cur]" using is_chain_suffix [of meta "disk fs" c cs cur "[]"] assms(3) by simp
  then have nz: "cur \<noteq> 0" by auto
  obtain x xs where xs: "free_clusters meta fs = x # xs" using assms(4) by (cases "free_clusters meta fs") auto
  have x: "2 \<le> unat x" "unat x < 2 + scan_count meta" "next_of meta (disk fs) x = 0"
    using free_clusters_set [of x meta fs] xs by simp_all
  note xok = table_ok_clus [OF assms(2) x(2)]
  have xnew: "x \<notin> set (cs @ [cur])" using chain_next_nonzero [OF assms(3)] x(3) by blast
  then have xc: "x \<noteq> cur" by auto
  obtain fs' where fs': "fat32_give_me_next_free_cluster_please meta cur fs = (x, fs')" "coherent fs'"
    "disk fs' = set_entry meta x 0x0FFFFFFF (set_entry meta cur x (disk fs))"
    using next_free_law [OF assms(1,2) disjI2 [OF cur]] xs nz by auto
  have l: "length (disk fs a) = 512" for a by (rule disk_length [OF assms(1)])
  have l': "length (set_entry meta cur x (disk fs) a) = 512" for a by (rule length_set_entry [OF l])
  have n: "next_of meta (disk fs') y = (if y = x then 0x0FFFFFFF else if y = cur then x AND 0x0FFFFFFF else next_of meta (disk fs) y)"
    if "clus_ok meta y" for y
    unfolding fs'(3) using next_of_set [OF l' xok(1) that] next_of_set [OF l cur that] by simp
  have x28: "x AND 0x0FFFFFFF = x"
  proof -
    have "unat x < 2 ^ 28" using xok(1) by (simp add: clus_ok_def)
    then have "x < 2 ^ 28" by (simp add: word_less_nat_alt)
    then have "x AND mask 28 = x" by (rule less_mask_eq)
    then show ?thesis by (simp add: mask_eq_exp_minus_1)
  qed
  have "is_chain meta (disk fs') c (cs @ cur # [x])"
  proof (rule is_chain_extend [OF assms(3)])
    have "distinct (cs @ [cur])" by (rule is_chain_distinct [OF assms(3)])
    then show "next_of meta (disk fs') y = next_of meta (disk fs) y" if "y \<in> set cs" for y
      using n [of y] is_chain_clus_ok [OF assms(3), of y] xnew that by auto
    show "next_of meta (disk fs') cur = x" using n [OF cur] xc x28 by simp
    have "x \<noteq> 0" using x(1) by auto
    then show "is_chain meta (disk fs') x [x]" using n [OF xok(1)] xok by simp
  qed
  with fs'(1,2) n x(3) xnew show ?thesis by auto
qed

lemma blank_entry:
  assumes "clus_ok meta c"
  shows "next_of meta (disk blank_fs) c = 0"
proof -
  have "fat_index meta c + 3 < 512" using fat_index_bound [OF assms] by simp
  then show ?thesis
    by (simp add: next_of_def fat_entry_def read_u32_def disk_def blank_fs_def blank_device_def)
qed

theorem next_free_extends_chain_witness:
  "\<exists>x fs'. fat32_give_me_next_free_cluster_please small_meta 9 two_chain = (x, fs') \<and> is_chain small_meta (disk fs') 5 [5, 9, x]"
proof -
  have l: "length (disk blank_fs a) = 512" for a by (rule disk_length [OF blank_coherent])
  have l': "length (set_entry small_meta 5 9 (disk blank_fs) a) = 512" for a by (rule length_set_entry [OF l])
  have "next_of small_meta (disk two_chain) 2 = 0"
    unfolding two_chain_disk
    by (subst next_of_set [OF l'], simp_all add: small_clus_ok)
      (subst next_of_set [OF l], simp_all add: small_clus_ok blank_entry)
  then have "2 \<in> set (free_clusters small_meta two_chain)"
    by (simp add: free_clusters_set small_scan_count)
  then have ne: "free_clusters small_meta two_chain \<noteq> []" by auto
  have ch: "is_chain small_meta (disk two_chain) 5 ([5] @ [9])" using two_chain_is_chain by (simp only: append.simps)
  show ?thesis using next_free_extends_chain [OF two_chain_coherent small_table_ok ch ne]
    by (auto simp del: is_chain.simps)
qed

section \<open>Mounting\<close>

text \<open>The number of clusters is computed from the whole volume: with the hidden sectors of the parameter
  block equal to the start of the partition, as the format prescribes, the reserved sectors and the
  tables cancel out of the formula, so the count exceeds the clusters of the data region.\<close>

lemma total_clusters_whole_volume:
  "bpb_hidd_sec b = lba \<Longrightarrow> total_clusters (meta_of t lba b) = bpb_tot_sec32 b div ucast (bpb_sec_per_clus b)"
  by (simp add: total_clusters_def meta_of_def Let_def)

lemma total_clusters_small_excess:
  "total_clusters small_meta = 64 \<and> (bpb_tot_sec32 small_bpb - data_start_lba small_meta) div sec_per_clus small_meta = 63"
  by (simp add: total_clusters_def small_meta_def small_bpb_def)

lemma init_parts_Some:
  assumes "coherent fs" "\<And>p. p \<in> set ps \<Longrightarrow> part_type p = 0x0B \<Longrightarrow> sector_ok (part_lba_first p)"
    "init_parts t ps fs = (Some meta, fs')"
  shows "coherent fs' \<and> disk fs' = disk fs \<and>
    (\<exists>p \<in> set ps. part_type p = 0x0B \<and> fat32_parse_bpb_section (disk fs (part_lba_first p)) = Some (meta_bpb meta)
       \<and> meta = meta_of t (part_lba_first p) (meta_bpb meta))"
  using assms
proof (induction ps arbitrary: fs)
  case Nil
  then show ?case by simp
next
  case (Cons p ps)
  show ?case
  proof (cases "part_type p = 0x0B")
    case True
    then have "sector_ok (part_lba_first p)" using Cons.prems(2) by simp
    then obtain fs1 where "fs_read_sector (local_buf 512 fs) (part_lba_first p) fs = (disk fs (part_lba_first p), fs1)"
      "disk fs1 = disk fs" "coherent fs1"
      using fs.rd_cases [OF Cons.prems(1) _ length_local_buf] by blast
    then show ?thesis using True Cons.prems(3) by (auto simp: meta_of_def Let_def split: option.splits)
  next
    case False
    then show ?thesis using Cons.IH [OF Cons.prems(1)] Cons.prems(2,3) by auto
  qed
qed

lemma parse_mbr_Some:
  "fs_parse_mbr_section buf = Some t \<Longrightarrow> mbr_part t = map (\<lambda>k. mbr_part_at buf (446 + 16 * k)) [0, 1, 2, 3]"
  by (auto simp: fs_parse_mbr_section_def Let_def split: if_splits)

lemma parse_bpb_Some:
  "fat32_parse_bpb_section buf = Some b \<Longrightarrow> b = bpb_at buf \<and> ucast (bpb_bytes_per_sec b) = (512 :: u32)
     \<and> bpb_fat_sz32 b \<noteq> 0 \<and> 2 \<le> bpb_root_clus b"
  by (auto simp: fat32_parse_bpb_section_def FS_SECTOR_SIZE_def Let_def split: if_splits)

text \<open>A volume that \<open>fat32_init\<close> mounts has a boot signature, a partition of type 0x0B and a parameter
  block at its first sector with 512-byte sectors, a table and a root cluster of at least 2; the
  tables start after the reserved sectors and the data after the tables. The disk is only read, and
  whatever the cache held before the first call, it is coherent afterwards.\<close>
theorem fat32_init_mounts:
  assumes "emmc_ok (dev fs)" "\<not> have_cache \<or> coherent fs" "fat32_init have_cache fs = (Some meta, fs')"
    "\<And>k. k < 4 \<Longrightarrow> sector_ok (part_lba_first (mbr_part_at (disk fs 0) (446 + 16 * k)))"
  shows "coherent fs' \<and> disk fs' = disk fs \<and> bytes_per_sec meta = 512 \<and> 2 \<le> bpb_root_clus (meta_bpb meta)
    \<and> (\<exists>k < 4. let p = mbr_part_at (disk fs 0) (446 + 16 * k); b = bpb_at (disk fs (part_lba_first p)) in
         part_type p = 0x0B \<and> meta_bpb meta = b
         \<and> fat_start_lba meta = part_lba_first p + ucast (bpb_rsvd_sec_cnt b)
         \<and> data_start_lba meta = fat_start_lba meta + ucast (bpb_num_fats b) * bpb_fat_sz32 b)"
proof -
  let ?fs = "if \<not> have_cache then fs\<lparr>fs_cache_valid := (\<lambda>s. 0)\<rparr> else fs"
  have coh: "coherent ?fs" "disk ?fs = disk fs" using assms(1,2) by (auto simp: coherent_def disk_def)
  obtain fs1 where r: "fs_read_sector (local_buf 512 ?fs) 0 ?fs = (disk fs 0, fs1)" "disk fs1 = disk fs" "coherent fs1"
    using fs.rd_cases [OF coh(1) _ length_local_buf, of 0] coh(2) by (auto simp: sector_ok_def)
  let ?ps = "map (\<lambda>k. mbr_part_at (disk fs 0) (446 + 16 * k)) [0, 1, 2, 3]"
  obtain t where parse: "fs_parse_mbr_section (disk fs 0) = Some t"
  proof (cases "fs_parse_mbr_section (disk fs 0)")
    case None
    then have False using assms(3) r(1) by (simp add: fat32_init_def)
    then show thesis ..
  qed
  have t: "init_parts t ?ps fs1 = (Some meta, fs')"
    using assms(3) r(1) parse parse_mbr_Some [OF parse] by (simp add: fat32_init_def del: init_parts.simps list.map)
  have ok: "sector_ok (part_lba_first p)" if "p \<in> set ?ps" for p
    using that assms(4) [of 0] assms(4) [of 1] assms(4) [of 2] assms(4) [of 3] by auto
  obtain p where p: "p \<in> set ?ps" "part_type p = 0x0B" "fat32_parse_bpb_section (disk fs1 (part_lba_first p)) = Some (meta_bpb meta)"
    "meta = meta_of t (part_lba_first p) (meta_bpb meta)" "coherent fs'" "disk fs' = disk fs1"
    using init_parts_Some [OF r(3) _ t] ok by blast
  obtain k where k0: "k \<in> set [0, 1, 2, 3 :: nat]" "p = mbr_part_at (disk fs 0) (446 + 16 * k)"
    using p(1) by (simp only: set_map) blast
  then have k: "k < 4" "p = mbr_part_at (disk fs 0) (446 + 16 * k)" by auto
  note b = parse_bpb_Some [OF p(3)]
  have "bytes_per_sec meta = 512" "fat_start_lba meta = part_lba_first p + ucast (bpb_rsvd_sec_cnt (meta_bpb meta))"
    "data_start_lba meta = fat_start_lba meta + ucast (bpb_num_fats (meta_bpb meta)) * bpb_fat_sz32 (meta_bpb meta)"
    using b by (subst p(4), simp add: meta_of_def Let_def)+
  with b p(2,5,6) k r(2) show ?thesis by (auto simp: Let_def)
qed

definition volume_blocks :: "u32 \<Rightarrow> u8 list" where
  "volume_blocks b = (if b = 0 then (replicate 512 0)[450 := 0x0B, 454 := 1, 510 := 0x55, 511 := 0xaa]
     else if b = 1 then (replicate 512 0)[12 := 2, 13 := 2, 14 := 1, 16 := 1, 28 := 1, 32 := 128, 36 := 1, 44 := 2,
       510 := 0x55, 511 := 0xaa]
     else replicate 512 0)"

definition volume_fs :: fs_state where
  "volume_fs = blank_fs\<lparr>dev := blank_device\<lparr>sd_card := \<lparr>blocks = volume_blocks, byte_addressed = False, outcomes = []\<rparr>\<rparr>\<rparr>"

lemma volume_coherent: "coherent volume_fs" "emmc_ok (dev volume_fs)" "disk volume_fs = volume_blocks"
  by (simp_all add: coherent_def volume_fs_def blank_fs_def blank_device_def emmc_ok_def volume_blocks_def disk_def)

lemma volume_lba: "part_lba_first (mbr_part_at (volume_blocks 0) 446) = 1" "part_type (mbr_part_at (volume_blocks 0) 446) = 0x0B"
  by (simp_all add: volume_blocks_def mbr_part_at_def read_u32_def)

lemma volume_parts: "k < 4 \<Longrightarrow> sector_ok (part_lba_first (mbr_part_at (volume_blocks 0) (446 + 16 * k)))"
proof -
  assume "k < 4"
  then consider "k = 0" | "k = 1" | "k = 2" | "k = 3" by linarith
  then show ?thesis by cases (simp_all add: volume_blocks_def mbr_part_at_def read_u32_def sector_ok_def)
qed

lemma volume_parse: "fat32_parse_bpb_section (volume_blocks 1) \<noteq> None" "fs_parse_mbr_section (volume_blocks 0) \<noteq> None"
  by (simp_all add: volume_blocks_def fat32_parse_bpb_section_def bpb_at_def read_u16_def read_u32_def FS_SECTOR_SIZE_def
      Let_def fs_parse_mbr_section_def)

theorem fat32_init_mounts_witness:
  "\<exists>meta fs'. fat32_init True volume_fs = (Some meta, fs') \<and> coherent fs' \<and> bytes_per_sec meta = 512"
proof -
  obtain t where t: "fs_parse_mbr_section (volume_blocks 0) = Some t" using volume_parse(2) by blast
  obtain b where b: "fat32_parse_bpb_section (volume_blocks 1) = Some b" using volume_parse(1) by blast
  obtain fs1 where r: "fs_read_sector (local_buf 512 volume_fs) 0 volume_fs = (volume_blocks 0, fs1)"
    "disk fs1 = volume_blocks" "coherent fs1"
    using fs.rd_cases [OF volume_coherent(1) _ length_local_buf, of 0] volume_coherent(3) by (auto simp: sector_ok_def)
  obtain fs2 where r2: "fs_read_sector (local_buf 512 fs1) 1 fs1 = (volume_blocks 1, fs2)"
    using fs.rd_cases [OF r(3) _ length_local_buf, of 1] r(2) by (auto simp: sector_ok_def)
  have "fat32_init True volume_fs = (Some (meta_of t 1 b), fs2)"
    using r(1) r2 t b parse_mbr_Some [OF t] volume_lba by (simp add: fat32_init_def)
  then show ?thesis
    using fat32_init_mounts [of volume_fs True "meta_of t 1 b" fs2] volume_coherent volume_parts by simp
qed

end
