(* ===== verification/FatFile.thy ===== *)
theory FatFile
  imports FatSearch
begin

text \<open>
  File contents in lib/src/pifat.c: \<open>fat32_read_file\<close>, \<open>fat32_read_file_with_offset\<close> and
  \<open>fat32_write_with_offset\<close>, each a walk of the cluster chain with a cluster-sized local buffer. A loop
  over a chain takes fuel and has no value when it runs out; the lemmas give the fuel that is enough.
  The abstract file is the bytes of its clusters in chain order.
\<close>

section \<open>The code\<close>

definition clus_bytes :: "fat_meta \<Rightarrow> u32" where
  "clus_bytes meta = sec_per_clus meta * bytes_per_sec meta"

definition cluster_buf :: "fat_meta \<Rightarrow> fs_state \<Rightarrow> u8 list" where
  "cluster_buf meta fs = local_buf (512 * unat (sec_per_clus meta)) fs"

fun skip_clusters :: "nat \<Rightarrow> fat_meta \<Rightarrow> u32 \<Rightarrow> u32 \<Rightarrow> fs_state \<Rightarrow> (u32 \<times> u32 \<times> fs_state) option" where
  "skip_clusters fuel meta clus offset fs =
     (if clus_bytes meta \<le> offset then
        (case fuel of 0 \<Rightarrow> None
         | Suc n \<Rightarrow> (case fat32_fat_next_cluster meta clus fs of (clus', fs') \<Rightarrow>
             skip_clusters n meta clus' (offset - clus_bytes meta) fs'))
      else Some (clus, offset, fs))"

fun read_clusters :: "nat \<Rightarrow> fat_meta \<Rightarrow> u32 \<Rightarrow> u8 list \<Rightarrow> u32 \<Rightarrow> u32 \<Rightarrow> u32 \<Rightarrow> u8 list \<Rightarrow> fs_state
    \<Rightarrow> (u32 \<times> u8 list \<times> fs_state) option" where
  "read_clusters fuel meta clus output sz offset bytes_read buf fs =
     (if clus < 0x0FFFFFF8 \<and> bytes_read < sz then
        (case fuel of 0 \<Rightarrow> None
         | Suc n \<Rightarrow>
             (case fs_read_mult_sector buf (fat32_cluster_to_lba meta clus) (sec_per_clus meta) fs of (buf', fs1) \<Rightarrow>
              let to_copy0 = bytes_per_sec meta * sec_per_clus meta - offset;
                  to_copy = (if bytes_read + to_copy0 > sz then sz - bytes_read else to_copy0);
                  output' = blit output (unat bytes_read) (slice buf' (unat offset) (unat to_copy))
              in case fat32_fat_next_cluster meta clus fs1 of (clus', fs2) \<Rightarrow>
                   read_clusters n meta clus' output' sz 0 (bytes_read + to_copy) buf' fs2))
      else Some (bytes_read, output, fs))"

definition fat32_read_file_with_offset :: "nat \<Rightarrow> fat_meta \<Rightarrow> u32 \<Rightarrow> u8 list \<Rightarrow> u32 \<Rightarrow> u32 \<Rightarrow> fs_state
    \<Rightarrow> (u32 \<times> u8 list \<times> fs_state) option" where
  "fat32_read_file_with_offset fuel meta start_clus output sz offset fs =
     (case skip_clusters fuel meta start_clus offset fs of None \<Rightarrow> None
      | Some (clus, off, fs1) \<Rightarrow> read_clusters fuel meta clus output sz off 0 (cluster_buf meta fs1) fs1)"

text \<open>\<open>fat32_read_file\<close>: the inner loop reads \<open>sec_per_clus\<close> sectors at a time. A file larger than
  the largest class of the allocator has no buffer.\<close>

fun read_one_cluster :: "nat \<Rightarrow> fat_meta \<Rightarrow> u32 \<Rightarrow> u32 \<Rightarrow> u32 \<Rightarrow> u32 \<Rightarrow> u8 list \<Rightarrow> u8 list \<Rightarrow> fs_state
    \<Rightarrow> (u32 \<times> u8 list \<times> u8 list \<times> fs_state) option" where
  "read_one_cluster fuel meta dlba read_for file_size bytes_read buf file_data fs =
     (if read_for < sec_per_clus meta * bytes_per_sec meta \<and> bytes_read < file_size then
        (case fuel of 0 \<Rightarrow> None
         | Suc n \<Rightarrow>
             (case fs_read_mult_sector buf (dlba + read_for div bytes_per_sec meta) (sec_per_clus meta) fs of (buf', fs1) \<Rightarrow>
              let to_copy0 = bytes_per_sec meta * sec_per_clus meta;
                  to_copy = (if bytes_read + to_copy0 > file_size then file_size - bytes_read else to_copy0)
              in read_one_cluster n meta dlba (read_for + to_copy) file_size (bytes_read + to_copy) buf'
                   (blit file_data (unat bytes_read) (slice buf' 0 (unat to_copy))) fs1))
      else Some (bytes_read, buf, file_data, fs))"

fun read_file_loop :: "nat \<Rightarrow> fat_meta \<Rightarrow> u32 \<Rightarrow> u32 \<Rightarrow> u32 \<Rightarrow> u8 list \<Rightarrow> u8 list \<Rightarrow> fs_state
    \<Rightarrow> (u8 list \<times> fs_state) option" where
  "read_file_loop fuel meta clus file_size bytes_read buf file_data fs =
     (if clus < 0x0FFFFFF8 \<and> bytes_read < file_size then
        (case fuel of 0 \<Rightarrow> None
         | Suc n \<Rightarrow>
             (case read_one_cluster fuel meta (fat32_cluster_to_lba meta clus) 0 file_size bytes_read buf file_data fs of
                None \<Rightarrow> None
              | Some (bytes_read', buf', file_data', fs1) \<Rightarrow>
                  (case fat32_fat_next_cluster meta clus fs1 of (clus', fs2) \<Rightarrow>
                     read_file_loop n meta clus' file_size bytes_read' buf' file_data' fs2)))
      else Some (file_data, fs))"

definition fat32_read_file :: "nat \<Rightarrow> fat_meta \<Rightarrow> u32 \<Rightarrow> u32 \<Rightarrow> fs_state \<Rightarrow> (u8 list \<times> fs_state) option" where
  "fat32_read_file fuel meta start_clus file_size fs =
     (if 0x1000000 < file_size then None
      else read_file_loop fuel meta start_clus file_size 0 (cluster_buf meta fs) (local_buf (unat file_size) fs) fs)"

text \<open>Writing: the buffer is written back sector by sector.\<close>

fun write_sectors :: "nat \<Rightarrow> u8 list \<Rightarrow> u32 \<Rightarrow> fs_state \<Rightarrow> fs_state" where
  "write_sectors 0 buf dlba fs = fs"
| "write_sectors (Suc n) buf dlba fs = write_sectors n (drop 512 buf) (dlba + 1) (fs_write_sector (take 512 buf) dlba fs)"

fun write_clusters :: "nat \<Rightarrow> fat_meta \<Rightarrow> u32 \<Rightarrow> u8 list \<Rightarrow> u32 \<Rightarrow> u32 \<Rightarrow> u32 \<Rightarrow> u8 list \<Rightarrow> fs_state
    \<Rightarrow> (u32 \<times> fs_state) option" where
  "write_clusters fuel meta clus input sz offset bytes_written buf fs =
     (if clus < 0x0FFFFFF8 \<and> bytes_written < sz then
        (case fuel of 0 \<Rightarrow> None
         | Suc n \<Rightarrow>
             (let dlba = fat32_cluster_to_lba meta clus;
                  to_copy0 = bytes_per_sec meta * sec_per_clus meta - offset;
                  to_copy = (if bytes_written + to_copy0 > sz then sz - bytes_written else to_copy0)
              in case (if offset > 0 \<or> to_copy < bytes_per_sec meta * sec_per_clus meta
                       then fs_read_mult_sector buf dlba (sec_per_clus meta) fs else (buf, fs)) of (buf1, fs1) \<Rightarrow>
                 let buf2 = blit buf1 (unat offset) (slice input (unat bytes_written) (unat to_copy));
                     fs2 = write_sectors (unat (sec_per_clus meta)) buf2 dlba fs1;
                     bytes_written' = bytes_written + to_copy
                 in case fat32_fat_next_cluster meta clus fs2 of (clus', fs3) \<Rightarrow>
                    if clus' \<ge> 0x0FFFFFF8 \<and> bytes_written' < sz then
                      (case fat32_give_me_next_free_cluster_please meta clus fs3 of (clus'', fs4) \<Rightarrow>
                         if clus'' \<ge> 0x0FFFFFF8 then Some (bytes_written', fs4)
                         else write_clusters n meta clus'' input sz 0 bytes_written' buf2 fs4)
                    else write_clusters n meta clus' input sz 0 bytes_written' buf2 fs3))
      else Some (bytes_written, fs))"

definition fat32_write_with_offset :: "nat \<Rightarrow> fat_meta \<Rightarrow> u32 \<Rightarrow> u8 list \<Rightarrow> u32 \<Rightarrow> u32 \<Rightarrow> fs_state
    \<Rightarrow> (u32 \<times> fs_state) option" where
  "fat32_write_with_offset fuel meta start_clus input sz offset fs =
     (case skip_clusters fuel meta start_clus offset fs of None \<Rightarrow> None
      | Some (clus, off, fs1) \<Rightarrow> write_clusters fuel meta clus input sz off 0 (cluster_buf meta fs1) fs1)"

declare skip_clusters.simps [simp del] read_clusters.simps [simp del] read_one_cluster.simps [simp del]
  read_file_loop.simps [simp del] write_clusters.simps [simp del]

section \<open>The bytes of a cluster\<close>

abbreviation spc :: "fat_meta \<Rightarrow> nat" where
  "spc meta \<equiv> unat (sec_per_clus meta)"

definition geom_ok :: "fat_meta \<Rightarrow> bool" where
  "geom_ok meta \<longleftrightarrow> bytes_per_sec meta = 512 \<and> 0 < spc meta \<and> spc meta < 256"

definition data_ok :: "fat_meta \<Rightarrow> u32 \<Rightarrow> bool" where
  "data_ok meta c \<longleftrightarrow> clus_ok meta c \<and> 2 \<le> unat c
     \<and> unat (fat_start_lba meta) + unat c div 128 < unat (data_start_lba meta)
     \<and> unat (data_start_lba meta) + (unat c - 2) * spc meta + spc meta \<le> 2 ^ 23"

definition cluster_content :: "fat_meta \<Rightarrow> (u32 \<Rightarrow> u8 list) \<Rightarrow> u32 \<Rightarrow> u8 list" where
  "cluster_content meta d c = sectors d (fat32_cluster_to_lba meta c) (spc meta)"

definition file_content :: "fat_meta \<Rightarrow> (u32 \<Rightarrow> u8 list) \<Rightarrow> u32 list \<Rightarrow> u8 list" where
  "file_content meta d cs = concat (map (cluster_content meta d) cs)"

definition file_chain :: "fat_meta \<Rightarrow> (u32 \<Rightarrow> u8 list) \<Rightarrow> u32 \<Rightarrow> u32 list \<Rightarrow> bool" where
  "file_chain meta d c cs \<longleftrightarrow> is_chain meta d c cs \<and> (\<forall>x \<in> set cs. data_ok meta x)"

lemma file_chain_simps:
  "file_chain meta d c [] \<longleftrightarrow> 0x0FFFFFF8 \<le> c"
  "file_chain meta d c (x # xs) \<longleftrightarrow> c = x \<and> c < 0x0FFFFFF8 \<and> c \<noteq> 0 \<and> data_ok meta c \<and> file_chain meta d (next_of meta d c) xs"
  by (auto simp: file_chain_def data_ok_def)

lemma clus_bytes_unat: "geom_ok meta \<Longrightarrow> unat (clus_bytes meta) = 512 * spc meta"
  by (simp add: clus_bytes_def geom_ok_def unat_mult_no_wrap)

lemma lba_unat:
  assumes "data_ok meta c"
  shows "unat (fat32_cluster_to_lba meta c) = unat (data_start_lba meta) + (unat c - 2) * spc meta"
proof -
  have b: "unat (data_start_lba meta) + (unat c - 2) * spc meta + spc meta \<le> 8388608" "2 \<le> unat c"
    using assms by (simp_all add: data_ok_def)
  have c2: "unat (c - 2) = unat c - 2" using b(2) by (simp add: unat_sub_le word_le_nat_alt)
  have m: "unat ((c - 2) * sec_per_clus meta) = (unat c - 2) * spc meta"
    using b c2 by (subst unat_mult_no_wrap) simp_all
  show ?thesis unfolding fat32_cluster_to_lba_def using b m by (subst unat_add_no_wrap) simp_all
qed

lemma lba_sector:
  assumes "data_ok meta c" "i < spc meta"
  shows "unat (fat32_cluster_to_lba meta c + of_nat i) = unat (fat32_cluster_to_lba meta c) + i"
    "sector_ok (fat32_cluster_to_lba meta c + of_nat i)"
proof -
  have b: "unat (fat32_cluster_to_lba meta c) + spc meta \<le> 8388608"
    using assms(1) lba_unat [OF assms(1)] by (simp add: data_ok_def)
  have i: "unat (of_nat i :: u32) = i" using assms(2) b by (intro unat_of_nat_u32) linarith
  show u: "unat (fat32_cluster_to_lba meta c + of_nat i) = unat (fat32_cluster_to_lba meta c) + i"
    using i b assms(2) by (subst unat_add_no_wrap) simp_all
  show "sector_ok (fat32_cluster_to_lba meta c + of_nat i)" using u b assms(2) by (simp add: sector_ok_def)
qed

lemma length_cluster_content: "coherent fs \<Longrightarrow> length (cluster_content meta (disk fs) c) = 512 * spc meta"
  unfolding cluster_content_def by (rule length_sectors) (rule disk_length)

lemma length_file_content: "coherent fs \<Longrightarrow> length (file_content meta (disk fs) cs) = length cs * (512 * spc meta)"
  by (induction cs) (simp_all add: file_content_def length_cluster_content)

lemma read_cluster_law:
  assumes "coherent fs" "data_ok meta c" "length buf = 512 * spc meta"
  obtains fs' where "fs_read_mult_sector buf (fat32_cluster_to_lba meta c) (sec_per_clus meta) fs = (cluster_content meta (disk fs) c, fs')"
    "disk fs' = disk fs" "coherent fs'"
  using fs_read_mult_sector_law [OF assms(1,3) lba_sector(2) [OF assms(2)]]
  unfolding cluster_content_def by (metis prod.collapse)

lemma next_data_law:
  assumes "coherent fs" "data_ok meta c"
  obtains fs' where "fat32_fat_next_cluster meta c fs = (next_of meta (disk fs) c, fs')" "disk fs' = disk fs" "coherent fs'"
  using assms(1) assms(2) [unfolded data_ok_def] by (meson next_cluster_law)

section \<open>Skipping to an offset\<close>

lemma skip_clusters_law:
  assumes "coherent fs" "geom_ok meta" "file_chain meta (disk fs) c cs" "unat ofs div (512 * spc meta) \<le> length cs"
    "unat ofs div (512 * spc meta) \<le> fuel"
  shows "\<exists>c' ofs' fs'. skip_clusters fuel meta c ofs fs = Some (c', ofs', fs')
    \<and> unat ofs' = unat ofs mod (512 * spc meta) \<and> file_chain meta (disk fs) c' (drop (unat ofs div (512 * spc meta)) cs)
    \<and> disk fs' = disk fs \<and> coherent fs'"
  using assms(1,3-5)
proof (induction cs arbitrary: c ofs fs fuel)
  case Nil
  have p: "0 < 512 * spc meta" using assms(2) by (simp add: geom_ok_def)
  from Nil p have lt: "unat ofs < 512 * spc meta" by (simp add: div_eq_0_iff)
  then have "\<not> clus_bytes meta \<le> ofs" using clus_bytes_unat [OF assms(2)] by (simp add: word_le_nat_alt)
  with Nil lt show ?case by (simp add: skip_clusters.simps [of fuel])
next
  case (Cons x xs)
  let ?n = "512 * spc meta"
  have p: "0 < ?n" using assms(2) by (simp add: geom_ok_def)
  show ?case
  proof (cases "clus_bytes meta \<le> ofs")
    case False
    then have lt: "unat ofs < ?n" using clus_bytes_unat [OF assms(2)] by (simp add: word_le_nat_alt)
    with Cons.prems False show ?thesis by (simp add: skip_clusters.simps [of fuel])
  next
    case True
    then have ge: "?n \<le> unat ofs" using clus_bytes_unat [OF assms(2)] by (simp add: word_le_nat_alt)
    have ofs: "unat (ofs - clus_bytes meta) = unat ofs - ?n"
      using True by (simp add: unat_sub_le clus_bytes_unat [OF assms(2)])
    have dm: "unat ofs div ?n = Suc ((unat ofs - ?n) div ?n)" "unat ofs mod ?n = (unat ofs - ?n) mod ?n"
      using le_div_geq [OF p ge] le_mod_geq [OF ge] by simp_all
    obtain n where fuel: "fuel = Suc n" using Cons.prems(4) dm(1) by (cases fuel) auto
    have x: "c = x" "data_ok meta c" "file_chain meta (disk fs) (next_of meta (disk fs) c) xs"
      using Cons.prems(2) by (auto simp: file_chain_simps)
    obtain fs1 where fs1: "fat32_fat_next_cluster meta c fs = (next_of meta (disk fs) c, fs1)" "disk fs1 = disk fs" "coherent fs1"
      using Cons.prems(1) x(2) by (rule next_data_law)
    from Cons.IH [OF fs1(3), of "next_of meta (disk fs) c" "ofs - clus_bytes meta" n] x(3) Cons.prems(3,4) fs1(2) dm ofs fuel
    have "\<exists>c' ofs' fs'. skip_clusters n meta (next_of meta (disk fs) c) (ofs - clus_bytes meta) fs1 = Some (c', ofs', fs')
      \<and> unat ofs' = unat ofs mod ?n \<and> file_chain meta (disk fs) c' (drop (unat ofs div ?n) (x # xs))
      \<and> disk fs' = disk fs \<and> coherent fs'" by simp
    then show ?thesis using True fs1(1) fuel by (simp add: skip_clusters.simps [of "Suc n"])
  qed
qed

lemma drop_concat_blocks:
  "(\<And>x. x \<in> set cs \<Longrightarrow> length (f x) = n) \<Longrightarrow> drop (q * n) (concat (map f cs)) = concat (map f (drop q cs))"
proof (induction cs arbitrary: q)
  case (Cons x xs)
  then show ?case by (cases q) simp_all
qed simp

lemma slice_drop: "slice (drop q xs) r n = slice xs (q + r) n"
  by (simp add: slice_def add.commute)

lemma slice_file_content:
  assumes "coherent fs"
  shows "slice (file_content meta (disk fs) (drop (k div (512 * spc meta)) cs)) (k mod (512 * spc meta)) n
    = slice (file_content meta (disk fs) cs) k n"
proof -
  have "file_content meta (disk fs) (drop (k div (512 * spc meta)) cs)
      = drop (k div (512 * spc meta) * (512 * spc meta)) (file_content meta (disk fs) cs)"
    unfolding file_content_def by (rule drop_concat_blocks [symmetric]) (rule length_cluster_content [OF assms])
  then show ?thesis by (simp only: slice_drop div_mult_mod_eq)
qed

section \<open>Reading\<close>

lemma blit_blit_adjacent:
  assumes "i + length xs + length ys \<le> length buf"
  shows "blit (blit buf i xs) (i + length xs) ys = blit buf i (xs @ ys)"
  using assms by (intro nth_equalityI) (auto simp: nth_blit nth_append)

lemma slice_append_left: "r + n \<le> length xs \<Longrightarrow> slice (xs @ ys) r n = slice xs r n"
  by (simp add: slice_def)

lemma slice_across:
  assumes "r \<le> length xs" "length xs - r \<le> n"
  shows "slice (xs @ ys) r n = slice xs r (length xs - r) @ slice ys 0 (n - (length xs - r))"
  using assms by (simp add: slice_def)

text \<open>How much of a chunk of \<open>avail\<close> bytes fits when \<open>r\<close> of \<open>n\<close> bytes are done.\<close>

lemma to_copy_unat:
  fixes sz r ofs :: u32
  assumes "geom_ok meta" "unat ofs < 512 * spc meta" "r < sz" "unat sz + 512 * spc meta < 4294967296"
  defines "k0 \<equiv> bytes_per_sec meta * sec_per_clus meta - ofs"
  shows "unat k0 = 512 * spc meta - unat ofs"
    and "unat (if r + k0 > sz then sz - r else k0) = min (512 * spc meta - unat ofs) (unat sz - unat r)"
    and "unat (r + (if r + k0 > sz then sz - r else k0)) = unat r + min (512 * spc meta - unat ofs) (unat sz - unat r)"
proof -
  have cb: "unat (bytes_per_sec meta * sec_per_clus meta) = 512 * spc meta"
    using clus_bytes_unat [OF assms(1)] by (simp add: clus_bytes_def mult.commute)
  show k0: "unat k0 = 512 * spc meta - unat ofs"
    unfolding k0_def using cb assms(2) by (simp add: unat_sub_le word_le_nat_alt)
  have r: "unat r < unat sz" using assms(3) by (simp add: word_less_nat_alt)
  have rk: "unat (r + k0) = unat r + (512 * spc meta - unat ofs)"
    using k0 r assms(4) by (subst unat_add_no_wrap) simp_all
  have d: "unat (sz - r) = unat sz - unat r" using assms(3) by (simp add: unat_sub_le)
  show m: "unat (if r + k0 > sz then sz - r else k0) = min (512 * spc meta - unat ofs) (unat sz - unat r)"
    using rk k0 d r by (auto simp: word_less_nat_alt min_def)
  show "unat (r + (if r + k0 > sz then sz - r else k0)) = unat r + min (512 * spc meta - unat ofs) (unat sz - unat r)"
    using m r assms(4) by (subst unat_add_no_wrap) simp_all
qed

lemma read_clusters_law:
  assumes "geom_ok meta" "unat sz + 512 * spc meta < 4294967296"
  shows "coherent fs \<Longrightarrow> file_chain meta (disk fs) c cs \<Longrightarrow> unat ofs < 512 * spc meta \<Longrightarrow> unat r \<le> unat sz \<Longrightarrow>
    length buf = 512 * spc meta \<Longrightarrow> unat sz \<le> length out \<Longrightarrow> length cs \<le> fuel \<Longrightarrow>
    n = min (unat sz - unat r) (length (file_content meta (disk fs) cs) - unat ofs) \<Longrightarrow>
    \<exists>r' fs'. read_clusters fuel meta c out sz ofs r buf fs = Some (r', blit out (unat r) (slice (file_content meta (disk fs) cs) (unat ofs) n), fs')
      \<and> unat r' = unat r + n \<and> disk fs' = disk fs \<and> coherent fs'"
proof (induction cs arbitrary: c ofs r buf out fs fuel n)
  case Nil
  then have "\<not> c < 0x0FFFFFF8" by (simp add: file_chain_simps)
  with Nil show ?case by (simp add: read_clusters.simps [of fuel] file_content_def slice_def blit_def)
next
  case (Cons x xs)
  let ?cs = "512 * spc meta"
  from Cons.prems(2) have x: "c = x" "c < 0x0FFFFFF8" "data_ok meta c" "file_chain meta (disk fs) (next_of meta (disk fs) c) xs"
    by (auto simp: file_chain_simps)
  have lc: "length (cluster_content meta (disk fs) c) = ?cs" by (rule length_cluster_content [OF Cons.prems(1)])
  have fc: "file_content meta (disk fs) (x # xs) = cluster_content meta (disk fs) c @ file_content meta (disk fs) xs"
    by (simp add: file_content_def x(1))
  show ?case
  proof (cases "r < sz")
    case False
    then have "unat r = unat sz" using Cons.prems(4) by (simp add: word_less_nat_alt)
    with False Cons.prems(8) show ?thesis
      using Cons.prems(1) by (simp add: read_clusters.simps [of fuel] slice_def blit_def)
  next
    case True
    obtain m where fuel: "fuel = Suc m" using Cons.prems(7) by (cases fuel) auto
    obtain fs1 where fs1: "fs_read_mult_sector buf (fat32_cluster_to_lba meta c) (sec_per_clus meta) fs = (cluster_content meta (disk fs) c, fs1)"
      "disk fs1 = disk fs" "coherent fs1"
      using Cons.prems(1) x(3) Cons.prems(5) by (rule read_cluster_law)
    obtain fs2 where fs2: "fat32_fat_next_cluster meta c fs1 = (next_of meta (disk fs) c, fs2)" "disk fs2 = disk fs" "coherent fs2"
      using fs1(3) x(3) by (rule next_data_law) (simp_all add: fs1(2))
    define tc where "tc = (if r + (bytes_per_sec meta * sec_per_clus meta - ofs) > sz then sz - r
        else bytes_per_sec meta * sec_per_clus meta - ofs)"
    define k where "k = min (?cs - unat ofs) (unat sz - unat r)"
    note tcu = to_copy_unat(2,3) [OF assms(1) Cons.prems(3) True assms(2), folded tc_def k_def]
    define out1 where "out1 = blit out (unat r) (slice (cluster_content meta (disk fs) c) (unat ofs) k)"
    have ls: "length (slice (cluster_content meta (disk fs) c) (unat ofs) k) = k"
      using lc Cons.prems(3) by (intro length_slice) (simp add: k_def)
    have fits: "unat r + k \<le> unat sz" using True by (simp add: k_def word_less_nat_alt)
    have lo: "length out1 = length out" unfolding out1_def using ls fits Cons.prems(6) by (intro length_blit) simp
    have step: "read_clusters fuel meta c out sz ofs r buf fs
        = read_clusters m meta (next_of meta (disk fs) c) out1 sz 0 (r + tc) (cluster_content meta (disk fs) c) fs2"
      using x(2) True fs1(1) fs2(1) fuel tcu(1)
      by (simp add: read_clusters.simps [of "Suc m"] Let_def tc_def [symmetric] out1_def)
    define n' where "n' = min (unat sz - unat (r + tc)) (length (file_content meta (disk fs) xs) - unat (0 :: u32))"
    have "0 < ?cs" using assms(1) by (simp add: geom_ok_def)
    then obtain r' fs' where IH: "read_clusters m meta (next_of meta (disk fs) c) out1 sz 0 (r + tc) (cluster_content meta (disk fs) c) fs2
        = Some (r', blit out1 (unat (r + tc)) (slice (file_content meta (disk fs) xs) 0 n'), fs')"
      "unat r' = unat (r + tc) + n'" "disk fs' = disk fs" "coherent fs'"
      using Cons.IH [OF fs2(3), of "next_of meta (disk fs) c" 0 "r + tc" "cluster_content meta (disk fs) c" out1 m n']
        x(4) fs2(2) fits tcu(2) lc lo Cons.prems(6,7) fuel n'_def by auto
    have n: "n = k + n'"
      using Cons.prems(3,8) tcu(2) fits unfolding n'_def k_def fc length_append lc unsigned_0 by linarith
    have sl: "slice (file_content meta (disk fs) (x # xs)) (unat ofs) n
        = slice (cluster_content meta (disk fs) c) (unat ofs) k @ slice (file_content meta (disk fs) xs) 0 n'"
    proof (cases "k = ?cs - unat ofs")
      case True
      then show ?thesis unfolding fc n using lc Cons.prems(3) by (subst slice_across) simp_all
    next
      case False
      then have z: "n' = 0" using tcu(2) by (simp add: n'_def k_def min_def split: if_splits)
      show ?thesis unfolding fc n z using lc Cons.prems(3)
        by (subst slice_append_left) (simp_all add: k_def slice_def)
    qed
    have ln': "length (slice (file_content meta (disk fs) xs) 0 n') = n'" by (intro length_slice) (simp add: n'_def)
    have "blit out1 (unat (r + tc)) (slice (file_content meta (disk fs) xs) 0 n')
        = blit out (unat r) (slice (file_content meta (disk fs) (x # xs)) (unat ofs) n)"
      using blit_blit_adjacent [of "unat r" "slice (cluster_content meta (disk fs) c) (unat ofs) k"
          "slice (file_content meta (disk fs) xs) 0 n'" out] ls ln' fits Cons.prems(6) tcu(2)
      unfolding sl out1_def by (simp add: n'_def)
    then show ?thesis using step IH n tcu(2) by simp
  qed
qed

lemma read_with_offset_law:
  assumes "coherent fs" "geom_ok meta" "file_chain meta (disk fs) c cs" "unat sz \<le> length out"
    "unat sz + 512 * spc meta < 2 ^ 32" "unat ofs \<le> length (file_content meta (disk fs) cs)"
  shows "\<exists>r fs'. let n = min (unat sz) (length (file_content meta (disk fs) cs) - unat ofs) in
      fat32_read_file_with_offset (length cs) meta c out sz ofs fs
        = Some (r, blit out 0 (slice (file_content meta (disk fs) cs) (unat ofs) n), fs')
      \<and> unat r = n \<and> disk fs' = disk fs \<and> coherent fs'"
proof -
  let ?cs = "512 * spc meta"
  have p: "0 < ?cs" using assms(2) by (simp add: geom_ok_def)
  have "unat ofs div ?cs \<le> length cs * ?cs div ?cs"
    using assms(6) unfolding length_file_content [OF assms(1)] by (intro div_le_mono)
  then have q: "unat ofs div ?cs \<le> length cs" using p by simp
  obtain c' ofs' fs1 where s: "skip_clusters (length cs) meta c ofs fs = Some (c', ofs', fs1)"
    "unat ofs' = unat ofs mod ?cs" "file_chain meta (disk fs) c' (drop (unat ofs div ?cs) cs)" "disk fs1 = disk fs" "coherent fs1"
    using skip_clusters_law [OF assms(1-3) q q] by blast
  define n where "n = min (unat sz) (length (file_content meta (disk fs) cs) - unat ofs)"
  have "length (file_content meta (disk fs) (drop (unat ofs div ?cs) cs)) - unat ofs mod ?cs
      = length (file_content meta (disk fs) cs) - unat ofs"
    unfolding length_file_content [OF assms(1)] length_drop diff_mult_distrib
    using div_mult_mod_eq [of "unat ofs" ?cs] by linarith
  then have n: "n = min (unat sz - unat (0 :: u32)) (length (file_content meta (disk fs1) (drop (unat ofs div ?cs) cs)) - unat ofs')"
    by (simp add: n_def s(2,4))
  have ofs: "unat ofs' < ?cs" unfolding s(2) using p by (rule mod_less_divisor)
  obtain r fs' where "read_clusters (length cs) meta c' out sz ofs' 0 (cluster_buf meta fs1) fs1
      = Some (r, blit out (unat (0 :: u32)) (slice (file_content meta (disk fs1) (drop (unat ofs div ?cs) cs)) (unat ofs') n), fs')"
    "unat r = unat (0 :: u32) + n" "disk fs' = disk fs1" "coherent fs'"
    using read_clusters_law [OF assms(2) _ s(5) _ ofs _ _ assms(4) _ n, of c' "cluster_buf meta fs1" "length cs"] assms(5) s(3,4)
    by (auto simp: cluster_buf_def)
  then show ?thesis
    using s(1,4) slice_file_content [OF assms(1), of meta "unat ofs" cs n]
    by (auto simp: fat32_read_file_with_offset_def n_def s(2) Let_def)
qed

text \<open>C11: \<open>fat32_read_file_with_offset\<close> reads the file: on a well-formed chain whose clusters hold the bytes
  \<open>file_content\<close>, it copies the bytes from the offset on, as many as were asked for or are there, to the
  start of the output buffer, returns their number, leaves the rest of the buffer and the disk alone,
  and needs no more fuel than the chain has clusters.\<close>
theorem read_with_offset_correct:
  assumes "coherent fs" "geom_ok meta" "file_chain meta (disk fs) c cs" "unat sz \<le> length out"
    "unat sz + 512 * spc meta < 2 ^ 32" "unat ofs \<le> length (file_content meta (disk fs) cs)"
  shows "\<exists>r fs'. let n = min (unat sz) (length (file_content meta (disk fs) cs) - unat ofs) in
      fat32_read_file_with_offset (length cs) meta c out sz ofs fs
        = Some (r, blit out 0 (slice (file_content meta (disk fs) cs) (unat ofs) n), fs')
      \<and> unat r = n \<and> disk fs' = disk fs \<and> coherent fs'"
  by (rule read_with_offset_law [OF assms])

lemma small_geom: "geom_ok small_meta"
  by (simp add: geom_ok_def small_meta_def)

lemma small_data_ok: "2 \<le> unat c \<Longrightarrow> unat c < 64 \<Longrightarrow> data_ok small_meta c"
  by (simp add: data_ok_def clus_ok_def small_meta_def)

lemma two_chain_file: "file_chain small_meta (disk two_chain) 5 [5, 9]"
proof -
  have "data_ok small_meta 5" "data_ok small_meta 9" by (rule small_data_ok; simp)+
  then show ?thesis using two_chain_is_chain unfolding file_chain_def by (simp del: is_chain.simps)
qed

lemma two_chain_length: "length (file_content small_meta (disk two_chain) [5, 9]) = 2048"
  by (simp add: length_file_content [OF two_chain_coherent]) (simp add: small_meta_def)

text \<open>Sixteen bytes from offset 2040 of a file of 2048 bytes: eight are there.\<close>

theorem read_with_offset_correct_witness:
  "\<exists>r out' fs'. fat32_read_file_with_offset 2 small_meta 5 (replicate 16 1) 16 2040 two_chain = Some (r, out', fs') \<and> unat r = 8"
proof -
  have "\<exists>r fs'. let n = min (unat (16 :: u32)) (length (file_content small_meta (disk two_chain) [5, 9]) - unat (2040 :: u32)) in
      fat32_read_file_with_offset (length [5, 9 :: u32]) small_meta 5 (replicate 16 1) 16 2040 two_chain
        = Some (r, blit (replicate 16 1) 0 (slice (file_content small_meta (disk two_chain) [5, 9]) (unat (2040 :: u32)) n), fs')
      \<and> unat r = n \<and> disk fs' = disk two_chain \<and> coherent fs'"
  proof (rule read_with_offset_correct [OF two_chain_coherent small_geom two_chain_file])
    show "unat (16 :: u32) + 512 * spc small_meta < 2 ^ 32" by (simp add: small_meta_def)
    show "unat (2040 :: u32) \<le> length (file_content small_meta (disk two_chain) [5, 9])" by (simp add: two_chain_length)
  qed simp
  moreover have "length [5, 9 :: u32] = 2" by simp
  ultimately show ?thesis unfolding Let_def two_chain_length by (auto simp del: list.size)
qed

section \<open>Reading a whole file\<close>

text \<open>\<open>fat32_read_file\<close> does what the reader with an offset does from offset 0: each round of its outer loop reads one cluster.\<close>

lemma read_one_cluster_once:
  assumes "geom_ok meta" "r < sz" "unat sz + 512 * spc meta < 4294967296"
  shows "read_one_cluster (Suc n) meta dlba 0 sz r buf out fs =
    (case fs_read_mult_sector buf dlba (sec_per_clus meta) fs of (buf', fs1) \<Rightarrow>
       let k0 = bytes_per_sec meta * sec_per_clus meta; k = (if r + k0 > sz then sz - r else k0)
       in Some (r + k, buf', blit out (unat r) (slice buf' 0 (unat k)), fs1))"
proof -
  obtain buf' fs1 where b: "fs_read_mult_sector buf dlba (sec_per_clus meta) fs = (buf', fs1)" by fastforce
  define k0 where "k0 = bytes_per_sec meta * sec_per_clus meta"
  define k where "k = (if r + k0 > sz then sz - r else k0)"
  have p: "0 < spc meta" using assms(1) by (simp add: geom_ok_def)
  have cb: "unat k0 = 512 * spc meta" using clus_bytes_unat [OF assms(1)] by (simp add: clus_bytes_def k0_def mult.commute)
  then have go: "0 < k0" using p by (simp add: word_less_nat_alt)
  have stop: "\<not> (k < sec_per_clus meta * bytes_per_sec meta \<and> r + k < sz)"
    by (auto simp: k_def k0_def mult.commute)
  have rec: "read_one_cluster n meta dlba k sz (r + k) buf' (blit out (unat r) (slice buf' 0 (unat k))) fs1
      = Some (r + k, buf', blit out (unat r) (slice buf' 0 (unat k)), fs1)"
    by (subst read_one_cluster.simps) (simp only: if_not_P [OF stop])
  have go2: "0 < sec_per_clus meta * bytes_per_sec meta" using go by (simp add: k0_def mult.commute)
  show ?thesis
    unfolding read_one_cluster.simps [of "Suc n"] Let_def div_0 add_0_right b prod.case nat.case k0_def [symmetric] k_def [symmetric]
    using go2 assms(2) rec by simp
qed

lemma read_file_loop_eq:
  assumes "geom_ok meta" "unat sz + 512 * spc meta < 4294967296"
  shows "unat r \<le> unat sz \<Longrightarrow> read_file_loop n meta c sz r buf out fs
    = map_option (\<lambda>(r, out, fs). (out, fs)) (read_clusters n meta c out sz 0 r buf fs)"
proof (induction n arbitrary: c r buf out fs)
  case 0
  then show ?case by (simp add: read_file_loop.simps [of 0] read_clusters.simps [of 0])
next
  case (Suc n)
  show ?case
  proof (cases "c < 0x0FFFFFF8 \<and> r < sz")
    case False
    show ?thesis by (subst read_file_loop.simps, subst read_clusters.simps) (simp only: if_not_P [OF False] option.map prod.case)
  next
    case True
    define k where "k = (if r + bytes_per_sec meta * sec_per_clus meta > sz then sz - r else bytes_per_sec meta * sec_per_clus meta)"
    have p: "unat (0 :: u32) < 512 * spc meta" using assms(1) by (simp add: geom_ok_def)
    have rk: "unat (r + k) \<le> unat sz"
      using to_copy_unat(3) [OF assms(1) p, of r sz] True assms(2) by (simp add: k_def word_less_nat_alt)
    obtain buf' fs1 where b: "fs_read_mult_sector buf (fat32_cluster_to_lba meta c) (sec_per_clus meta) fs = (buf', fs1)" by fastforce
    obtain c' fs2 where c: "fat32_fat_next_cluster meta c fs1 = (c', fs2)" by fastforce
    show ?thesis
      using True b c Suc.IH [OF rk, of c' buf' "blit out (unat r) (slice buf' 0 (unat k))" fs2] read_one_cluster_once [OF assms(1) _ assms(2), of r]
      by (simp add: read_file_loop.simps [of "Suc n"] read_clusters.simps [of "Suc n"] Let_def k_def)
  qed
qed

lemma read_file_law:
  assumes "coherent fs" "geom_ok meta" "file_chain meta (disk fs) c cs" "unat sz \<le> length (file_content meta (disk fs) cs)"
    "sz \<le> 0x1000000" "length cs \<le> fuel"
  obtains fs' where "fat32_read_file fuel meta c sz fs = Some (take (unat sz) (file_content meta (disk fs) cs), fs')"
    "disk fs' = disk fs" "coherent fs'"
proof -
  have g: "0 < spc meta" "spc meta < 256" using assms(2) by (simp_all add: geom_ok_def)
  have s: "unat sz \<le> 0x1000000" using assms(5) by (simp add: word_le_nat_alt)
  have w: "unat sz + 512 * spc meta < 4294967296" using s g(2) by simp
  obtain r fs' where r: "read_clusters fuel meta c (local_buf (unat sz) fs) sz 0 0 (cluster_buf meta fs) fs
      = Some (r, blit (local_buf (unat sz) fs) (unat (0 :: u32)) (slice (file_content meta (disk fs) cs) (unat (0 :: u32)) (unat sz)), fs')"
    "disk fs' = disk fs" "coherent fs'"
    using read_clusters_law [OF assms(2) w assms(1,3), of 0 0 "cluster_buf meta fs" "local_buf (unat sz) fs" fuel "unat sz"] g(1) assms(4,6)
    by (auto simp: cluster_buf_def)
  have "blit (local_buf (unat sz) fs) 0 (slice (file_content meta (disk fs) cs) 0 (unat sz)) = take (unat sz) (file_content meta (disk fs) cs)"
    using assms(4) by (simp add: blit_def slice_def)
  moreover have "\<not> 0x1000000 < sz" using assms(5) by simp
  ultimately show thesis
    using that r read_file_loop_eq [OF assms(2) w, of 0 fuel c "cluster_buf meta fs" "local_buf (unat sz) fs" fs]
    by (simp add: fat32_read_file_def)
qed

end
