(* ===== verification/FatWrite.thy ===== *)
theory FatWrite
  imports FatFile
begin

text \<open>
  What writing does to the abstract file: \<open>fat32_write_with_offset\<close> inside the allocated chain replaces
  the bytes at the offset and nothing else, and reading them back returns them.
\<close>

section \<open>Writing the sectors of a cluster\<close>

lemma unat_diff_step:
  fixes a b :: u32
  assumes "b \<noteq> a"
  shows "unat (b - (a + 1)) = unat (b - a) - 1" "0 < unat (b - a)"
proof -
  have "b - a \<noteq> 0" using assms by simp
  then show p: "0 < unat (b - a)" by (simp add: unat_gt_0)
  have e: "b - (a + 1) = (b - a) - 1" by simp
  show "unat (b - (a + 1)) = unat (b - a) - 1"
    unfolding e using p unat_sub_le [of 1 "b - a"] by (simp add: word_le_nat_alt)
qed

lemma card_write_other: "n \<le> unat (b - a) \<Longrightarrow> card_write d a n buf b = d b"
proof (induction n arbitrary: d a buf)
  case (Suc n)
  then have ne: "b \<noteq> a" by auto
  have "card_write (d(a := take 512 buf)) (a + 1) n (drop 512 buf) b = (d(a := take 512 buf)) b"
    using Suc.prems unat_diff_step [OF ne] by (intro Suc.IH) simp
  with ne show ?case by simp
qed simp

lemma sectors_cong: "(\<And>i. i < n \<Longrightarrow> d (a + of_nat i) = d' (a + of_nat i)) \<Longrightarrow> sectors d a n = sectors d' a n"
proof (induction n arbitrary: a)
  case (Suc n)
  have "d (a + 1 + of_nat i) = d' (a + 1 + of_nat i)" if "i < n" for i
    using Suc.prems [of "Suc i"] that by (simp add: add.assoc)
  then have "sectors d (a + 1) n = sectors d' (a + 1) n" by (rule Suc.IH)
  with Suc.prems [of 0] show ?case by simp
qed simp

lemma sectors_card_write:
  "length buf = 512 * n \<Longrightarrow> n < 4294967296 \<Longrightarrow> sectors (card_write d a n buf) a n = buf"
proof (induction n arbitrary: d a buf)
  case (Suc n)
  have "a - (a + 1) = 0xFFFFFFFF" by simp
  then have "n \<le> unat (a - (a + 1))" using Suc.prems(2) by (simp only:) simp
  then have "card_write (d(a := take 512 buf)) (a + 1) n (drop 512 buf) a = take 512 buf"
    by (simp add: card_write_other)
  then show ?case using Suc.IH [of "drop 512 buf"] Suc.prems by simp
qed simp

lemma write_sectors_law:
  "coherent fs \<Longrightarrow> length buf = 512 * n \<Longrightarrow> (\<And>i. i < n \<Longrightarrow> sector_ok (a + of_nat i)) \<Longrightarrow>
   disk (write_sectors n buf a fs) = card_write (disk fs) a n buf \<and> coherent (write_sectors n buf a fs)"
proof (induction n arbitrary: buf a fs)
  case (Suc n)
  have l: "length (take 512 buf) = 512" using Suc.prems(2) by simp
  have ok: "sector_ok a" using Suc.prems(3) [of 0] by simp
  have ok': "sector_ok (a + 1 + of_nat i)" if "i < n" for i using Suc.prems(3) [of "Suc i"] that by (simp add: add.assoc)
  note w = fs.wr_law [OF Suc.prems(1) ok l]
  have "length (drop 512 buf) = 512 * n" using Suc.prems(2) by simp
  note IH = Suc.IH [OF conjunct2 [OF w] this ok', unfolded conjunct1 [OF w]]
  then show ?case by (simp only: write_sectors.simps card_write.simps simp_thms)
qed simp

section \<open>Regions\<close>

definition in_cluster :: "fat_meta \<Rightarrow> u32 \<Rightarrow> u32 \<Rightarrow> bool" where
  "in_cluster meta c a \<longleftrightarrow> unat (a - fat32_cluster_to_lba meta c) < spc meta"

lemma in_cluster_range:
  assumes "data_ok meta c"
  shows "in_cluster meta c a \<longleftrightarrow> unat (fat32_cluster_to_lba meta c) \<le> unat a
      \<and> unat a < unat (fat32_cluster_to_lba meta c) + spc meta"
proof -
  have b: "unat (fat32_cluster_to_lba meta c) + spc meta \<le> 8388608"
    using assms lba_unat [OF assms] by (simp add: data_ok_def)
  have big: "unat (x - y) = unat x + 4294967296 - unat y" if "\<not> unat y \<le> unat x" for x y :: u32
    using that unat_sub_if' [of x y] by simp
  show ?thesis
  proof (cases "unat (fat32_cluster_to_lba meta c) \<le> unat a")
    case True
    then have "unat (a - fat32_cluster_to_lba meta c) = unat a - unat (fat32_cluster_to_lba meta c)"
      by (simp add: unat_sub_le word_le_nat_alt)
    then show ?thesis using True by (auto simp: in_cluster_def)
  next
    case False
    then show ?thesis using b big [OF False] by (simp add: in_cluster_def)
  qed
qed

lemma clusters_disjoint:
  assumes "data_ok meta c" "data_ok meta c'" "in_cluster meta c a" "in_cluster meta c' a"
  shows "c = c'"
proof (rule ccontr)
  let ?l = "\<lambda>x. (unat x - 2) * spc meta"
  assume "c \<noteq> c'"
  then have ne: "unat c \<noteq> unat c'" by (simp add: u32_eq_nat_iff)
  have r: "unat (data_start_lba meta) + ?l c \<le> unat a" "unat a < unat (data_start_lba meta) + ?l c + spc meta"
    "unat (data_start_lba meta) + ?l c' \<le> unat a" "unat a < unat (data_start_lba meta) + ?l c' + spc meta"
    using assms(3,4) in_cluster_range [OF assms(1)] in_cluster_range [OF assms(2)] lba_unat [OF assms(1)] lba_unat [OF assms(2)]
    by simp_all
  have g: "2 \<le> unat c" "2 \<le> unat c'" using assms(1,2) by (simp_all add: data_ok_def)
  from ne consider "unat c < unat c'" | "unat c' < unat c" by linarith
  then show False
  proof cases
    case 1
    then have "Suc (unat c - 2) \<le> unat c' - 2" using g by linarith
    then have "Suc (unat c - 2) * spc meta \<le> ?l c'" by (rule mult_le_mono1)
    with r show False by simp
  next
    case 2
    then have "Suc (unat c' - 2) \<le> unat c - 2" using g by linarith
    then have "Suc (unat c' - 2) * spc meta \<le> ?l c" by (rule mult_le_mono1)
    with r show False by simp
  qed
qed

text \<open>Clusters whose table entry lies before the data region.\<close>

definition entry_ok :: "fat_meta \<Rightarrow> u32 \<Rightarrow> bool" where
  "entry_ok meta c \<longleftrightarrow> clus_ok meta c \<and> unat (fat_start_lba meta) + unat c div 128 < unat (data_start_lba meta)"

lemma data_entry_ok: "data_ok meta c \<Longrightarrow> entry_ok meta c"
  by (simp add: data_ok_def entry_ok_def)

lemma fat_sector_not_data:
  assumes "data_ok meta c" "entry_ok meta x"
  shows "\<not> in_cluster meta c (fat_sector meta x)"
proof -
  have "unat (fat_sector meta x) < unat (data_start_lba meta)"
    using assms(2) fat_sector_unat [of meta x] by (simp add: entry_ok_def)
  then show ?thesis using in_cluster_range [OF assms(1)] lba_unat [OF assms(1)] by simp
qed

definition put_cluster :: "fat_meta \<Rightarrow> u32 \<Rightarrow> u8 list \<Rightarrow> (u32 \<Rightarrow> u8 list) \<Rightarrow> (u32 \<Rightarrow> u8 list)" where
  "put_cluster meta c b d = card_write d (fat32_cluster_to_lba meta c) (spc meta) b"

lemma put_cluster_other: "\<not> in_cluster meta c a \<Longrightarrow> put_cluster meta c b d a = d a"
  unfolding put_cluster_def in_cluster_def by (intro card_write_other) simp

lemma content_unchanged:
  assumes "data_ok meta x" "\<And>a. in_cluster meta x a \<Longrightarrow> d' a = d a"
  shows "cluster_content meta d' x = cluster_content meta d x"
  unfolding cluster_content_def
proof (rule sectors_cong)
  fix i assume "i < spc meta"
  then have "in_cluster meta x (fat32_cluster_to_lba meta x + of_nat i)"
    using lba_sector(1) [OF assms(1)] by (simp add: in_cluster_range [OF assms(1)])
  then show "d' (fat32_cluster_to_lba meta x + of_nat i) = d (fat32_cluster_to_lba meta x + of_nat i)" by (rule assms(2))
qed

lemma content_put_same:
  "length b = 512 * spc meta \<Longrightarrow> cluster_content meta (put_cluster meta c b d) c = b"
  unfolding cluster_content_def put_cluster_def by (intro sectors_card_write) simp_all

lemma content_put_other:
  assumes "data_ok meta c" "data_ok meta x" "x \<noteq> c"
  shows "cluster_content meta (put_cluster meta c b d) x = cluster_content meta d x"
  using assms clusters_disjoint [OF assms(1,2)] by (intro content_unchanged put_cluster_other) auto

lemma next_unchanged:
  assumes "entry_ok meta x" "\<And>a. a = fat_sector meta x \<Longrightarrow> d' a = d a"
  shows "next_of meta d' x = next_of meta d x"
  using assms by (simp add: next_of_def fat_entry_def)

lemma file_chain_unchanged:
  assumes "file_chain meta d c cs" "\<And>x. entry_ok meta x \<Longrightarrow> d' (fat_sector meta x) = d (fat_sector meta x)"
  shows "file_chain meta d' c cs"
proof -
  have "next_of meta d' x = next_of meta d x" if "x \<in> set cs" for x
    using assms that by (intro next_unchanged) (auto simp: file_chain_def data_entry_ok)
  then show ?thesis using assms(1) is_chain_cong [of meta d c cs d'] by (auto simp: file_chain_def)
qed

lemma write_cluster_law:
  assumes "coherent fs" "data_ok meta c" "length b = 512 * spc meta"
  shows "disk (write_sectors (spc meta) b (fat32_cluster_to_lba meta c) fs) = put_cluster meta c b (disk fs)"
    "coherent (write_sectors (spc meta) b (fat32_cluster_to_lba meta c) fs)"
  using write_sectors_law [OF assms(1,3) lba_sector(2) [OF assms(2)]] by (simp_all add: put_cluster_def)

section \<open>Writing within the chain\<close>

lemma blit_append_left: "i + length xs \<le> length a \<Longrightarrow> blit (a @ b) i xs = blit a i xs @ b"
  by (simp add: blit_def)

lemma blit_across:
  "i + length xs = length a \<Longrightarrow> blit (a @ b) i (xs @ ys) = blit a i xs @ blit b 0 ys"
  by (subgoal_tac "i + (length xs + length ys) - length a = length ys") (simp_all add: blit_def)

lemma blit_append_right: "blit (a @ b) (length a + i) xs = a @ blit b i xs"
  by (simp add: blit_def)

lemma blit_full: "length xs = length a \<Longrightarrow> blit a 0 xs = xs"
  by (simp add: blit_def)

text \<open>Sectors of no cluster in \<open>cs\<close> keep their contents.\<close>

definition same_outside :: "fat_meta \<Rightarrow> u32 list \<Rightarrow> (u32 \<Rightarrow> u8 list) \<Rightarrow> (u32 \<Rightarrow> u8 list) \<Rightarrow> bool" where
  "same_outside meta cs d d' \<longleftrightarrow> (\<forall>a. (\<forall>x \<in> set cs. \<not> in_cluster meta x a) \<longrightarrow> d' a = d a)"

lemma same_outside_content:
  assumes "same_outside meta cs d d'" "\<forall>y \<in> set cs. data_ok meta y" "data_ok meta x" "x \<notin> set cs"
  shows "cluster_content meta d' x = cluster_content meta d x"
  using assms clusters_disjoint [OF assms(3)] by (intro content_unchanged) (auto simp: same_outside_def)

lemma same_outside_fat:
  assumes "same_outside meta cs d d'" "\<forall>y \<in> set cs. data_ok meta y" "entry_ok meta x"
  shows "d' (fat_sector meta x) = d (fat_sector meta x)"
  using assms fat_sector_not_data by (auto simp: same_outside_def)

lemma write_clusters_law:
  assumes "geom_ok meta" "unat sz + 512 * spc meta < 4294967296" "unat sz \<le> length input"
  shows "coherent fs \<Longrightarrow> file_chain meta (disk fs) c cs \<Longrightarrow> unat ofs < 512 * spc meta \<Longrightarrow> unat r \<le> unat sz \<Longrightarrow>
    length buf = 512 * spc meta \<Longrightarrow> length cs \<le> fuel \<Longrightarrow>
    unat ofs + (unat sz - unat r) \<le> length (file_content meta (disk fs) cs) \<or> r = sz \<Longrightarrow>
    \<exists>fs'. write_clusters fuel meta c input sz ofs r buf fs = Some (sz, fs') \<and> coherent fs'
      \<and> file_content meta (disk fs') cs =
          (if r = sz then file_content meta (disk fs) cs
           else blit (file_content meta (disk fs) cs) (unat ofs) (slice input (unat r) (unat sz - unat r)))
      \<and> same_outside meta cs (disk fs) (disk fs')"
proof (induction cs arbitrary: c ofs r buf fs fuel)
  case Nil
  have c: "\<not> c < 0x0FFFFFF8" using Nil(2) by (simp add: file_chain_simps)
  have "r = sz" using Nil(4,7) by (auto simp: file_content_def u32_eq_nat_iff)
  with c Nil(1) show ?case by (simp add: write_clusters.simps [of fuel] file_content_def same_outside_def)
next
  case (Cons x xs)
  let ?cs = "512 * spc meta"
  show ?case
  proof (cases "r = sz")
    case True
    with Cons.prems(1) show ?thesis by (simp add: write_clusters.simps [of fuel] same_outside_def)
  next
    case False
    then have lt: "r < sz" using Cons.prems(4) by (simp add: word_less_nat_alt u32_eq_nat_iff)
    from Cons.prems(2) have x: "c = x" "c < 0x0FFFFFF8" "data_ok meta c" "file_chain meta (disk fs) (next_of meta (disk fs) c) xs"
      by (auto simp: file_chain_simps)
    have dok: "\<forall>y \<in> set (x # xs). data_ok meta y" using Cons.prems(2) by (simp add: file_chain_def)
    have nin: "c \<notin> set xs" using Cons.prems(2) is_chain_distinct [of meta "disk fs" c "x # xs"] x(1) by (simp add: file_chain_def)
    have lc: "length (cluster_content meta (disk fs) c) = ?cs" by (rule length_cluster_content [OF Cons.prems(1)])
    have fc: "file_content meta (disk fs) (x # xs) = cluster_content meta (disk fs) c @ file_content meta (disk fs) xs"
      by (simp add: file_content_def x(1))
    obtain m where fuel: "fuel = Suc m" using Cons.prems(6) by (cases fuel) auto
    define k0 where "k0 = bytes_per_sec meta * sec_per_clus meta - ofs"
    define tc where "tc = (if r + k0 > sz then sz - r else k0)"
    define k where "k = min (?cs - unat ofs) (unat sz - unat r)"
    note tcu = to_copy_unat(2,3) [OF assms(1) Cons.prems(3) lt assms(2), folded k0_def, folded tc_def k_def]
    have fits: "unat r + k \<le> unat sz" "0 < k" using lt Cons.prems(3) by (simp_all add: k_def word_less_nat_alt)
    define new where "new = blit (cluster_content meta (disk fs) c) (unat ofs) (slice input (unat r) k)"
    have li: "length (slice input (unat r) k) = k" using fits assms(3) by (intro length_slice) simp
    have ln: "length new = ?cs" unfolding new_def using li lc Cons.prems(3) by (subst length_blit) (simp_all add: k_def)
    have part: "(ofs > 0 \<or> tc < bytes_per_sec meta * sec_per_clus meta) \<or> (unat ofs = 0 \<and> k = ?cs)"
    proof (cases "ofs = 0 \<and> k = ?cs")
      case False
      have cb: "unat (bytes_per_sec meta * sec_per_clus meta) = ?cs"
        using clus_bytes_unat [OF assms(1)] by (simp add: clus_bytes_def mult.commute)
      show ?thesis using False tcu(1) cb by (auto simp: word_less_nat_alt k_def unat_gt_0)
    qed auto
    obtain b1 fs1 where b1: "(if ofs > 0 \<or> tc < bytes_per_sec meta * sec_per_clus meta
          then fs_read_mult_sector buf (fat32_cluster_to_lba meta c) (sec_per_clus meta) fs else (buf, fs)) = (b1, fs1)"
      "blit b1 (unat ofs) (slice input (unat r) k) = new" "disk fs1 = disk fs" "coherent fs1"
    proof (cases "ofs > 0 \<or> tc < bytes_per_sec meta * sec_per_clus meta")
      case True
      obtain fs1 where "fs_read_mult_sector buf (fat32_cluster_to_lba meta c) (sec_per_clus meta) fs = (cluster_content meta (disk fs) c, fs1)"
        "disk fs1 = disk fs" "coherent fs1"
        using Cons.prems(1) x(3) Cons.prems(5) by (rule read_cluster_law)
      with True show thesis by (intro that) (simp_all add: new_def)
    next
      case False
      with part have f: "unat ofs = 0" "k = ?cs" by simp_all
      show thesis
        using False f li lc Cons.prems(1,5) by (intro that [of buf fs]) (simp_all add: new_def blit_full)
    qed
    define fs2 where "fs2 = write_sectors (spc meta) new (fat32_cluster_to_lba meta c) fs1"
    have fs2: "disk fs2 = put_cluster meta c new (disk fs)" "coherent fs2"
      unfolding fs2_def using write_cluster_law [OF b1(4) x(3) ln] b1(3) by simp_all
    have out2: "disk fs2 a = disk fs a" if "\<not> in_cluster meta c a" for a
      unfolding fs2(1) by (rule put_cluster_other [OF that])
    have nx: "next_of meta (disk fs2) c = next_of meta (disk fs) c"
      using fat_sector_not_data [OF x(3) data_entry_ok [OF x(3)]] out2 by (intro next_unchanged data_entry_ok x(3)) auto
    obtain fs3 where fs3: "fat32_fat_next_cluster meta c fs2 = (next_of meta (disk fs) c, fs3)" "disk fs3 = disk fs2" "coherent fs3"
      using fs2(2) x(3) nx by (metis next_data_law)
    have xs3: "file_chain meta (disk fs3) (next_of meta (disk fs) c) xs"
      unfolding fs3(2) using x(4) by (rule file_chain_unchanged) (use fat_sector_not_data [OF x(3)] out2 in auto)
    have c3: "file_content meta (disk fs3) xs = file_content meta (disk fs) xs"
      unfolding file_content_def fs3(2) fs2(1) using nin dok x(3) content_put_other
      by (intro arg_cong [where f = concat] map_cong refl) (metis list.set_intros(2))
    have more: "next_of meta (disk fs) c < 0x0FFFFFF8 \<or> \<not> r + tc < sz"
    proof (cases xs)
      case Nil
      then have "unat ofs + (unat sz - unat r) \<le> ?cs" using Cons.prems(7) False fc lc by (simp add: file_content_def)
      then have "k = unat sz - unat r" by (simp add: k_def)
      then show ?thesis using tcu(2) fits by (simp add: word_less_nat_alt)
    next
      case (Cons y ys)
      with x(4) show ?thesis by (auto simp: file_chain_simps)
    qed
    have more': "(0x0FFFFFF8 \<le> next_of meta (disk fs) c \<and> r + tc < sz) = False" using more by (auto simp: not_le)
    have step: "write_clusters fuel meta c input sz ofs r buf fs
        = write_clusters m meta (next_of meta (disk fs) c) input sz 0 (r + tc) new fs3"
      unfolding fuel write_clusters.simps [of "Suc m"] Let_def k0_def [symmetric] tc_def [symmetric] b1(1) prod.case tcu(1) b1(2)
        fs2_def [symmetric] fs3(1) more' using x(2) lt by simp
    define B where "B = slice input (unat (r + tc)) (unat sz - unat (r + tc))"
    have p: "0 < ?cs" using assms(1) by (simp add: geom_ok_def)
    have room: "unat (0 :: u32) + (unat sz - unat (r + tc)) \<le> length (file_content meta (disk fs3) xs) \<or> r + tc = sz"
    proof (cases "k = unat sz - unat r")
      case True
      then show ?thesis using tcu(2) fits(1) by (simp add: u32_eq_nat_iff)
    next
      case F: False
      then have k: "k = ?cs - unat ofs" by (simp add: k_def min_def split: if_splits)
      have "unat ofs + (unat sz - unat r) \<le> ?cs + length (file_content meta (disk fs) xs)"
        using Cons.prems(7) \<open>r \<noteq> sz\<close> fc lc by simp
      then have "unat sz - unat (r + tc) \<le> length (file_content meta (disk fs) xs)"
        using k tcu(2) Cons.prems(3) by linarith
      then show ?thesis by (simp add: c3)
    qed
    obtain fs' where IH: "write_clusters m meta (next_of meta (disk fs) c) input sz 0 (r + tc) new fs3 = Some (sz, fs')"
      "coherent fs'" "file_content meta (disk fs') xs = (if r + tc = sz then file_content meta (disk fs) xs else blit (file_content meta (disk fs) xs) 0 B)"
      "same_outside meta xs (disk fs3) (disk fs')"
      using Cons.IH [OF fs3(3) xs3, of 0 "r + tc" new m] p fits(1) tcu(2) ln Cons.prems(6) fuel room by (auto simp: B_def c3)
    have dxs: "\<forall>y \<in> set xs. data_ok meta y" using dok by simp
    have cc: "cluster_content meta (disk fs') c = new"
      using same_outside_content [OF IH(4) dxs x(3) nin] content_put_same [OF ln] by (simp add: fs3(2) fs2(1))
    have so: "same_outside meta (x # xs) (disk fs) (disk fs')"
      using IH(4) out2 x(1) by (auto simp: same_outside_def fs3(2))
    have fin: "file_content meta (disk fs') (x # xs) = blit (file_content meta (disk fs) (x # xs)) (unat ofs) (slice input (unat r) (unat sz - unat r))"
    proof (cases "r + tc = sz")
      case True
      then have k: "k = unat sz - unat r" using tcu(2) by simp
      have "file_content meta (disk fs') (x # xs) = new @ file_content meta (disk fs) xs"
        using IH(3) True cc x(1) by (simp add: file_content_def)
      then show ?thesis unfolding fc new_def k [symmetric] using li lc Cons.prems(3)
        by (subst blit_append_left) (simp_all add: k_def)
    next
      case F: False
      then have "unat r + k \<noteq> unat sz" using tcu(2) by (simp add: u32_eq_nat_iff)
      then have k: "k = ?cs - unat ofs" using fits(1) by (simp add: k_def min_def split: if_splits)
      have "slice input (unat r) (unat sz - unat r) = slice input (unat r) k @ B"
        unfolding B_def tcu(2) using slice_add [of input "unat r" k "unat sz - (unat r + k)"] fits(1) by simp
      moreover have "file_content meta (disk fs') (x # xs) = new @ blit (file_content meta (disk fs) xs) 0 B"
        using IH(3) F cc x(1) by (simp add: file_content_def)
      ultimately show ?thesis unfolding fc new_def using li lc Cons.prems(3) k
        by (simp add: blit_across)
    qed
    show ?thesis using step IH(1,2) fin so False by auto
  qed
qed

lemma write_with_offset_law:
  assumes "coherent fs" "geom_ok meta" "file_chain meta (disk fs) c cs" "unat sz \<le> length input"
    "unat sz + 512 * spc meta < 2 ^ 32" "unat ofs + unat sz \<le> length (file_content meta (disk fs) cs)"
  shows "\<exists>fs'. fat32_write_with_offset (length cs) meta c input sz ofs fs = Some (sz, fs') \<and> coherent fs'
    \<and> file_content meta (disk fs') cs = blit (file_content meta (disk fs) cs) (unat ofs) (take (unat sz) input)
    \<and> file_chain meta (disk fs') c cs \<and> same_outside meta cs (disk fs) (disk fs')"
proof -
  let ?cs = "512 * spc meta"
  let ?q = "unat ofs div ?cs"
  let ?F = "file_content meta (disk fs)"
  have p: "0 < ?cs" using assms(2) by (simp add: geom_ok_def)
  have "?q \<le> length cs * ?cs div ?cs"
    using assms(6) unfolding length_file_content [OF assms(1)] by (intro div_le_mono) linarith
  then have q: "?q \<le> length cs" using p by simp
  obtain c' ofs' fs1 where s: "skip_clusters (length cs) meta c ofs fs = Some (c', ofs', fs1)"
    "unat ofs' = unat ofs mod ?cs" "file_chain meta (disk fs) c' (drop ?q cs)" "disk fs1 = disk fs" "coherent fs1"
    using skip_clusters_law [OF assms(1-3) q q] by blast
  have ofs: "unat ofs' < ?cs" unfolding s(2) using p by (rule mod_less_divisor)
  have split: "?F cs = ?F (take ?q cs) @ ?F (drop ?q cs)"
    by (simp add: file_content_def flip: concat_append map_append)
  have lt: "length (?F (take ?q cs)) = ?q * ?cs" using q by (simp add: length_file_content [OF assms(1)])
  have eq: "unat ofs = ?q * ?cs + unat ofs'" unfolding s(2) by (rule div_mult_mod_eq [symmetric])
  have room: "unat ofs' + (unat sz - unat (0 :: u32)) \<le> length (file_content meta (disk fs1) (drop ?q cs)) \<or> 0 = sz"
    using assms(6) eq lt split s(4) by simp
  have sz: "unat sz + 512 * spc meta < 4294967296" using assms(5) by simp
  obtain fs' where w: "write_clusters (length cs) meta c' input sz ofs' 0 (cluster_buf meta fs1) fs1 = Some (sz, fs')" "coherent fs'"
    "file_content meta (disk fs') (drop ?q cs) = (if 0 = sz then ?F (drop ?q cs)
       else blit (?F (drop ?q cs)) (unat ofs') (slice input (unat (0 :: u32)) (unat sz - unat (0 :: u32))))"
    "same_outside meta (drop ?q cs) (disk fs) (disk fs')"
    using write_clusters_law [OF assms(2) sz assms(4) s(5), of c' "drop ?q cs" ofs' 0 "cluster_buf meta fs1" "length cs"]
      s(3,4) ofs room by (auto simp: cluster_buf_def)
  have dok: "\<forall>x \<in> set cs. data_ok meta x" "distinct cs"
    using assms(3) is_chain_distinct by (auto simp: file_chain_def)
  then have dok': "\<forall>x \<in> set (drop ?q cs). data_ok meta x" by (auto dest: in_set_dropD)
  have so: "same_outside meta cs (disk fs) (disk fs')"
    using w(4) by (auto simp: same_outside_def dest: in_set_dropD)
  have "cluster_content meta (disk fs') x = cluster_content meta (disk fs) x" if "x \<in> set (take ?q cs)" for x
  proof (rule same_outside_content [OF w(4) dok'])
    show "data_ok meta x" using that dok by (auto dest: in_set_takeD)
    show "x \<notin> set (drop ?q cs)" using that dok(2) set_take_disj_set_drop_if_distinct [of cs ?q ?q] by auto
  qed
  then have front: "file_content meta (disk fs') (take ?q cs) = ?F (take ?q cs)"
    by (auto simp: file_content_def intro!: arg_cong [where f = concat])
  have sl: "slice input 0 (unat sz) = take (unat sz) input" by (simp add: slice_def)
  have "file_content meta (disk fs') cs = ?F (take ?q cs) @ file_content meta (disk fs') (drop ?q cs)"
    by (simp add: front [symmetric]) (simp add: file_content_def flip: concat_append map_append)
  also have "\<dots> = blit (?F cs) (unat ofs) (take (unat sz) input)"
  proof (cases "sz = 0")
    case True
    then show ?thesis using w(3) split assms(6) by simp
  next
    case False
    then have "file_content meta (disk fs') (drop ?q cs) = blit (?F (drop ?q cs)) (unat ofs') (take (unat sz) input)"
      using w(3) sl by simp
    moreover have "blit (?F (take ?q cs) @ ?F (drop ?q cs)) (length (?F (take ?q cs)) + unat ofs') (take (unat sz) input)
        = ?F (take ?q cs) @ blit (?F (drop ?q cs)) (unat ofs') (take (unat sz) input)" by (rule blit_append_right)
    ultimately show ?thesis by (simp only: lt eq [symmetric] split [symmetric])
  qed
  finally have fc: "file_content meta (disk fs') cs = blit (?F cs) (unat ofs) (take (unat sz) input)" .
  have "file_chain meta (disk fs') c cs"
    using assms(3) by (rule file_chain_unchanged) (rule same_outside_fat [OF so dok(1)])
  then show ?thesis using s(1) w(1,2) fc so by (auto simp: fat32_write_with_offset_def)
qed

text \<open>C12: \<open>fat32_write_with_offset\<close> inside the allocated chain is an update of the abstract file: all the
  bytes are written, the file reads as before with the input in place of the bytes at the offset, its
  chain is the same, and no sector outside the clusters of the file changes, so neither does any other
  file or the table. The chain's length is enough fuel.\<close>
theorem write_with_offset_correct:
  assumes "coherent fs" "geom_ok meta" "file_chain meta (disk fs) c cs" "unat sz \<le> length input"
    "unat sz + 512 * spc meta < 2 ^ 32" "unat ofs + unat sz \<le> length (file_content meta (disk fs) cs)"
  shows "\<exists>fs'. fat32_write_with_offset (length cs) meta c input sz ofs fs = Some (sz, fs') \<and> coherent fs'
    \<and> file_content meta (disk fs') cs = blit (file_content meta (disk fs) cs) (unat ofs) (take (unat sz) input)
    \<and> file_chain meta (disk fs') c cs \<and> same_outside meta cs (disk fs) (disk fs')"
  by (rule write_with_offset_law [OF assms])

text \<open>Four bytes across the boundary of the two clusters.\<close>

theorem write_with_offset_correct_witness:
  "\<exists>fs'. fat32_write_with_offset 2 small_meta 5 [1, 2, 3, 4] 4 1022 two_chain = Some (4, fs')
    \<and> file_content small_meta (disk fs') [5, 9] = blit (file_content small_meta (disk two_chain) [5, 9]) 1022 [1, 2, 3, 4]"
proof -
  have "\<exists>fs'. fat32_write_with_offset (length [5, 9 :: u32]) small_meta 5 [1, 2, 3, 4] 4 1022 two_chain = Some (4, fs') \<and> coherent fs'
    \<and> file_content small_meta (disk fs') [5, 9] = blit (file_content small_meta (disk two_chain) [5, 9]) (unat (1022 :: u32)) (take (unat (4 :: u32)) [1, 2, 3, 4])
    \<and> file_chain small_meta (disk fs') 5 [5, 9] \<and> same_outside small_meta [5, 9] (disk two_chain) (disk fs')"
  proof (rule write_with_offset_correct [OF two_chain_coherent small_geom two_chain_file])
    show "unat (4 :: u32) + 512 * spc small_meta < 2 ^ 32" by (simp add: small_meta_def)
    show "unat (1022 :: u32) + unat (4 :: u32) \<le> length (file_content small_meta (disk two_chain) [5, 9])"
      by (simp add: two_chain_length)
  qed simp
  moreover have "length [5, 9 :: u32] = 2" "take (unat (4 :: u32)) [1, 2, 3, 4 :: u8] = [1, 2, 3, 4]" "unat (1022 :: u32) = 1022" by simp_all
  ultimately show ?thesis by (auto simp del: list.size)
qed

end
