(* ===== verification/FatDir.thy ===== *)
theory FatDir
  imports FatWrite Cstr
begin

text \<open>
  Directories in lib/src/pifat.c: the 32-byte entry, listing (\<open>fat32_list_data_lba\<close>,
  \<open>fat32_list_fat\<close>), creating, unlinking and updating an entry, and creating a file with its contents.
  Long names are not built in (ENABLE_LFN is 0), only counted. The allocated list of entries is a list;
  appending a cluster's entries is the list splice of lib/include/ll.h.
\<close>

section \<open>Directory entries\<close>

record fat_dirent =
  de_name :: "u8 list"
  de_attr :: u8
  de_ntres :: u8
  de_crt_time_tenth :: u8
  de_crt_time :: u16
  de_crt_date :: u16
  de_lst_acc_date :: u16
  de_fst_clus_hi :: u16
  de_wrt_time :: u16
  de_wrt_date :: u16
  de_fst_clus_lo :: u16
  de_file_size :: u32

definition dirent_at :: "u8 list \<Rightarrow> nat \<Rightarrow> fat_dirent" where
  "dirent_at buf off = \<lparr>de_name = slice buf off 11, de_attr = buf ! (off + 11), de_ntres = buf ! (off + 12),
     de_crt_time_tenth = buf ! (off + 13), de_crt_time = read_u16 buf (off + 14), de_crt_date = read_u16 buf (off + 16),
     de_lst_acc_date = read_u16 buf (off + 18), de_fst_clus_hi = read_u16 buf (off + 20),
     de_wrt_time = read_u16 buf (off + 22), de_wrt_date = read_u16 buf (off + 24),
     de_fst_clus_lo = read_u16 buf (off + 26), de_file_size = read_u32 buf (off + 28)\<rparr>"

definition u16_bytes :: "u16 \<Rightarrow> u8 list" where
  "u16_bytes v = [ucast (v AND 0xFF), ucast (drop_bit 8 v AND 0xFF)]"

definition u32_bytes :: "u32 \<Rightarrow> u8 list" where
  "u32_bytes v = [ucast (v AND 0xFF), ucast (drop_bit 8 v AND 0xFF), ucast (drop_bit 16 v AND 0xFF), ucast (drop_bit 24 v AND 0xFF)]"

definition dirent_bytes :: "fat_dirent \<Rightarrow> u8 list" where
  "dirent_bytes e = de_name e @ [de_attr e, de_ntres e, de_crt_time_tenth e] @ u16_bytes (de_crt_time e)
     @ u16_bytes (de_crt_date e) @ u16_bytes (de_lst_acc_date e) @ u16_bytes (de_fst_clus_hi e)
     @ u16_bytes (de_wrt_time e) @ u16_bytes (de_wrt_date e) @ u16_bytes (de_fst_clus_lo e) @ u32_bytes (de_file_size e)"

definition dirent_cluster :: "fat_dirent \<Rightarrow> u32" where
  "dirent_cluster e = push_bit 16 (ucast (de_fst_clus_hi e)) OR ucast (de_fst_clus_lo e)"

definition FAT_ATTR_VOLUMEID :: u8 where "FAT_ATTR_VOLUMEID = 0x08"
definition FAT_ATTR_DIRECTORY :: u8 where "FAT_ATTR_DIRECTORY = 0x10"
definition FAT_ATTR_ARCHIVE :: u8 where "FAT_ATTR_ARCHIVE = 0x20"
definition FAT_ATTR_LFN :: u8 where "FAT_ATTR_LFN = 0x0F"

section \<open>Listing\<close>

record list_entry =
  le_dirent :: fat_dirent
  le_lfn_count :: nat

text \<open>One sector: the flag says that the end mark was met.\<close>

fun list_sector :: "nat \<Rightarrow> u8 list \<Rightarrow> nat \<Rightarrow> nat \<Rightarrow> list_entry list \<Rightarrow> bool \<times> nat \<times> list_entry list" where
  "list_sector 0 buf off lfn acc = (False, lfn, acc)"
| "list_sector (Suc n) buf off lfn acc =
     (if buf ! off = 0 then (True, lfn, acc)
      else if buf ! off = 0xE5 then list_sector n buf (off + 32) 0 acc
      else if buf ! (off + 11) = FAT_ATTR_LFN then list_sector n buf (off + 32) (lfn + 1) acc
      else if buf ! (off + 11) AND FAT_ATTR_VOLUMEID \<noteq> 0 then list_sector n buf (off + 32) 0 acc
      else list_sector n buf (off + 32) 0 (acc @ [\<lparr>le_dirent = dirent_at buf off, le_lfn_count = lfn\<rparr>]))"

fun list_sectors :: "nat \<Rightarrow> u32 \<Rightarrow> u8 list \<Rightarrow> nat \<Rightarrow> list_entry list \<Rightarrow> fs_state \<Rightarrow> list_entry list \<times> fs_state" where
  "list_sectors 0 lba buf lfn acc fs = (acc, fs)"
| "list_sectors (Suc n) lba buf lfn acc fs =
     (case fs_read_sector buf lba fs of (buf', fs') \<Rightarrow>
        (case list_sector 16 buf' 0 lfn acc of (fin, lfn', acc') \<Rightarrow>
           if fin then (acc', fs') else list_sectors n (lba + 1) buf' lfn' acc' fs'))"

definition fat32_list_data_lba :: "fat_meta \<Rightarrow> u32 \<Rightarrow> fs_state \<Rightarrow> list_entry list \<times> fs_state" where
  "fat32_list_data_lba meta dlba fs = list_sectors (unat (sec_per_clus meta)) dlba (local_buf 512 fs) 0 [] fs"

fun list_fat_loop :: "nat \<Rightarrow> fat_meta \<Rightarrow> u32 \<Rightarrow> list_entry list \<Rightarrow> fs_state \<Rightarrow> (list_entry list \<times> fs_state) option" where
  "list_fat_loop fuel meta clus acc fs =
     (if clus < 0x0FFFFFF8 then
        (case fuel of 0 \<Rightarrow> None
         | Suc n \<Rightarrow> (case fat32_list_data_lba meta (fat32_cluster_to_lba meta clus) fs of (entries, fs1) \<Rightarrow>
             (case fat32_fat_next_cluster meta clus fs1 of (clus', fs2) \<Rightarrow>
                list_fat_loop n meta clus' (acc @ entries) fs2)))
      else Some (acc, fs))"

definition fat32_list_fat :: "nat \<Rightarrow> fat_meta \<Rightarrow> u32 \<Rightarrow> fs_state \<Rightarrow> (list_entry list \<times> fs_state) option" where
  "fat32_list_fat fuel meta start_clus fs = list_fat_loop fuel meta start_clus [] fs"

section \<open>Creating an entry\<close>

fun find_slot :: "nat \<Rightarrow> u8 list \<Rightarrow> nat \<Rightarrow> nat option" where
  "find_slot 0 buf off = None"
| "find_slot (Suc n) buf off = (if buf ! off = 0 \<or> buf ! off = 0xE5 then Some off else find_slot n buf (off + 32))"

fun create_in_sectors :: "nat \<Rightarrow> u32 \<Rightarrow> fat_dirent \<Rightarrow> fs_state \<Rightarrow> bool \<times> fs_state" where
  "create_in_sectors 0 lba e fs = (False, fs)"
| "create_in_sectors (Suc n) lba e fs =
     (case fs_read_sector (local_buf 512 fs) lba fs of (buf, fs1) \<Rightarrow>
        (case find_slot 16 buf 0 of
           Some off \<Rightarrow> (True, fs_write_sector (blit buf off (dirent_bytes e)) lba fs1)
         | None \<Rightarrow> create_in_sectors n (lba + 1) e fs1))"

fun clear_sectors :: "nat \<Rightarrow> u32 \<Rightarrow> fs_state \<Rightarrow> fs_state" where
  "clear_sectors 0 lba fs = fs"
| "clear_sectors (Suc n) lba fs = clear_sectors n (lba + 1) (fs_write_sector (replicate 512 0) lba fs)"

text \<open>No free entry: a cluster is added to the directory. The \<open>int\<close> is the source's return value.\<close>

definition extend_directory :: "fat_meta \<Rightarrow> u32 \<Rightarrow> fat_dirent \<Rightarrow> fs_state \<Rightarrow> int \<times> fs_state" where
  "extend_directory meta clus e fs =
     (case fat32_find_free_clusters meta 1 fs of (ok, free, fs1) \<Rightarrow>
        if \<not> ok then (2, fs1)
        else let f = free ! 0;
                 fs2 = fat32_write_fat_cluster_entry meta clus f fs1;
                 fs3 = fat32_write_fat_cluster_entry meta f 0x0FFFFFFF fs2;
                 new_dlba = fat32_cluster_to_lba meta f;
                 fs4 = clear_sectors (unat (sec_per_clus meta)) new_dlba fs3
             in (0, fs_write_sector (blit (replicate 512 0) 0 (dirent_bytes e)) new_dlba fs4))"

fun create_loop :: "nat \<Rightarrow> fat_meta \<Rightarrow> u32 \<Rightarrow> u32 \<Rightarrow> fat_dirent \<Rightarrow> fs_state \<Rightarrow> (int \<times> fs_state) option" where
  "create_loop fuel meta clus last_clus e fs =
     (if clus < 0x0FFFFFF8 \<and> clus \<noteq> 0 then
        (case fuel of 0 \<Rightarrow> None
         | Suc n \<Rightarrow> (case create_in_sectors (unat (sec_per_clus meta)) (fat32_cluster_to_lba meta clus) e fs of (fin, fs1) \<Rightarrow>
             if fin then Some (0, fs1)
             else (case fat32_fat_next_cluster meta clus fs1 of (clus', fs2) \<Rightarrow> create_loop n meta clus' clus e fs2)))
      else Some (extend_directory meta last_clus e fs))"

definition fat32_write_create_directory_entry :: "nat \<Rightarrow> fat_meta \<Rightarrow> u32 \<Rightarrow> fat_dirent \<Rightarrow> fs_state \<Rightarrow> (int \<times> fs_state) option" where
  "fat32_write_create_directory_entry fuel meta dir_clus e fs = create_loop fuel meta dir_clus dir_clus e fs"

section \<open>Finding an entry by name\<close>

datatype scan_result = ScanEnd | ScanHit nat | ScanNone

fun scan_names :: "nat \<Rightarrow> u8 list \<Rightarrow> nat \<Rightarrow> bytes \<Rightarrow> scan_result" where
  "scan_names 0 buf off filename = ScanNone"
| "scan_names (Suc n) buf off filename =
     (if buf ! off = 0 then ScanEnd
      else if buf ! off = 0xE5 then scan_names n buf (off + 32) filename
      else if strn_eq (drop off buf) filename 11 then ScanHit off
      else scan_names n buf (off + 32) filename)"

text \<open>\<open>fat32_unlink_file\<close> and \<open>fat32_update_dirent\<close> share their walk; \<open>act\<close> is what they do to the
  buffer of the sector with the match.\<close>

fun walk_sectors :: "nat \<Rightarrow> u32 \<Rightarrow> bytes \<Rightarrow> (u8 list \<Rightarrow> nat \<Rightarrow> u32 \<Rightarrow> fs_state \<Rightarrow> fs_state option) \<Rightarrow> fs_state
    \<Rightarrow> (int option \<times> fs_state) option" where
  "walk_sectors 0 lba filename act fs = Some (None, fs)"
| "walk_sectors (Suc n) lba filename act fs =
     (case fs_read_sector (local_buf 512 fs) lba fs of (buf, fs1) \<Rightarrow>
        (case scan_names 16 buf 0 filename of
           ScanEnd \<Rightarrow> Some (Some (- 1), fs1)
         | ScanHit off \<Rightarrow> map_option (\<lambda>fs2. (Some 0, fs2)) (act buf off lba fs1)
         | ScanNone \<Rightarrow> walk_sectors n (lba + 1) filename act fs1))"

fun walk_dir :: "nat \<Rightarrow> fat_meta \<Rightarrow> u32 \<Rightarrow> bytes \<Rightarrow> (u8 list \<Rightarrow> nat \<Rightarrow> u32 \<Rightarrow> fs_state \<Rightarrow> fs_state option) \<Rightarrow> fs_state
    \<Rightarrow> (int \<times> fs_state) option" where
  "walk_dir fuel meta clus filename act fs =
     (if clus < 0x0FFFFFF8 \<and> clus \<noteq> 0 then
        (case fuel of 0 \<Rightarrow> None
         | Suc n \<Rightarrow> (case walk_sectors (unat (sec_per_clus meta)) (fat32_cluster_to_lba meta clus) filename act fs of
             None \<Rightarrow> None
           | Some (Some r, fs1) \<Rightarrow> Some (r, fs1)
           | Some (None, fs1) \<Rightarrow> (case fat32_fat_next_cluster meta clus fs1 of (clus', fs2) \<Rightarrow>
               walk_dir n meta clus' filename act fs2)))
      else Some (- 1, fs))"

definition unlink_at :: "nat \<Rightarrow> fat_meta \<Rightarrow> u8 list \<Rightarrow> nat \<Rightarrow> u32 \<Rightarrow> fs_state \<Rightarrow> fs_state option" where
  "unlink_at fuel meta buf off lba fs =
     (case fat32_free_cluster_chain fuel meta (dirent_cluster (dirent_at buf off)) fs of None \<Rightarrow> None
      | Some fs' \<Rightarrow> Some (fs_write_sector (buf[off := 0xE5]) lba fs'))"

definition fat32_unlink_file :: "nat \<Rightarrow> fat_meta \<Rightarrow> u32 \<Rightarrow> bytes \<Rightarrow> fs_state \<Rightarrow> (int \<times> fs_state) option" where
  "fat32_unlink_file fuel meta dir_clus filename fs = walk_dir fuel meta dir_clus filename (unlink_at fuel meta) fs"

definition update_at :: "fat_dirent \<Rightarrow> u8 list \<Rightarrow> nat \<Rightarrow> u32 \<Rightarrow> fs_state \<Rightarrow> fs_state option" where
  "update_at e buf off lba fs = Some (fs_write_sector (blit buf off (dirent_bytes e)) lba fs)"

definition fat32_update_dirent :: "nat \<Rightarrow> fat_meta \<Rightarrow> u32 \<Rightarrow> bytes \<Rightarrow> fat_dirent \<Rightarrow> fs_state \<Rightarrow> (int \<times> fs_state) option" where
  "fat32_update_dirent fuel meta dir_clus filename e fs = walk_dir fuel meta dir_clus filename (update_at e) fs"

section \<open>Creating a file\<close>

fun write_chain :: "fat_meta \<Rightarrow> u32 list \<Rightarrow> fs_state \<Rightarrow> fs_state" where
  "write_chain meta [] fs = fs"
| "write_chain meta [c] fs = fat32_write_fat_cluster_entry meta c 0x0FFFFFFF fs"
| "write_chain meta (c # c' # cs) fs = write_chain meta (c' # cs) (fat32_write_fat_cluster_entry meta c c' fs)"

fun create_sectors :: "nat \<Rightarrow> u32 \<Rightarrow> u8 list \<Rightarrow> u32 \<Rightarrow> u32 \<Rightarrow> fs_state \<Rightarrow> u32 \<times> fs_state" where
  "create_sectors 0 lba data sz written fs = (written, fs)"
| "create_sectors (Suc n) lba data sz written fs =
     (let to_write = (if written + FS_SECTOR_SIZE > sz then sz - written else FS_SECTOR_SIZE);
          buf = blit (replicate 512 0) 0 (slice data (unat written) (unat to_write));
          fs1 = fs_write_sector buf lba fs;
          written' = written + to_write
      in if sz \<le> written' then (written', fs1) else create_sectors n (lba + 1) data sz written' fs1)"

fun create_data :: "fat_meta \<Rightarrow> u32 list \<Rightarrow> u8 list \<Rightarrow> u32 \<Rightarrow> u32 \<Rightarrow> fs_state \<Rightarrow> u32 \<times> fs_state" where
  "create_data meta [] data sz written fs = (written, fs)"
| "create_data meta (c # cs) data sz written fs =
     (case create_sectors (unat (sec_per_clus meta)) (fat32_cluster_to_lba meta c) data sz written fs of (w, fs1) \<Rightarrow>
        create_data meta cs data sz w fs1)"

definition fat32_write_file_create :: "nat \<Rightarrow> fat_meta \<Rightarrow> u32 \<Rightarrow> u8 list \<Rightarrow> u32 \<Rightarrow> bytes \<Rightarrow> fs_state \<Rightarrow> (int \<times> fs_state) option" where
  "fat32_write_file_create fuel meta dir_clus data sz filename fs =
     (let n0 = (sz + clus_bytes meta - 1) div clus_bytes meta;
          n = (if n0 = 0 then 1 else n0)
      in case fat32_find_free_clusters meta n fs of (ok, free, fs1) \<Rightarrow>
        if \<not> ok then Some (2, fs1)
        else (case create_data meta free data sz 0 (write_chain meta free fs1) of (written, fs2) \<Rightarrow>
          if written \<noteq> sz then Some (3, fs2)
          else fat32_write_create_directory_entry fuel meta dir_clus
            \<lparr>de_name = take 11 filename, de_attr = FAT_ATTR_ARCHIVE, de_ntres = 0, de_crt_time_tenth = 0, de_crt_time = 0,
             de_crt_date = 0, de_lst_acc_date = 0, de_fst_clus_hi = ucast (drop_bit 16 (free ! 0) AND 0xFFFF),
             de_wrt_time = 0, de_wrt_date = 0, de_fst_clus_lo = ucast (free ! 0 AND 0xFFFF), de_file_size = sz\<rparr> fs2))"

declare list_fat_loop.simps [simp del] create_loop.simps [simp del] walk_dir.simps [simp del]

section \<open>Entries as bytes\<close>

lemma length_dirent_bytes [simp]: "length (de_name e) = 11 \<Longrightarrow> length (dirent_bytes e) = 32"
  by (simp add: dirent_bytes_def u16_bytes_def u32_bytes_def)

lemma read_u16_slice: "i + 2 \<le> length b \<Longrightarrow> slice b i 2 = u16_bytes v \<Longrightarrow> read_u16 b i = v"
proof -
  assume i: "i + 2 \<le> length b" and s: "slice b i 2 = u16_bytes v"
  have "b ! i = slice b i 2 ! 0" "b ! (i + 1) = slice b i 2 ! 1" using i by (simp_all add: nth_slice)
  then show ?thesis using u16_bytes_join [of v] s by (simp add: read_u16_def u16_bytes_def)
qed

lemma read_u32_slice: "i + 4 \<le> length b \<Longrightarrow> slice b i 4 = u32_bytes v \<Longrightarrow> read_u32 b i = v"
proof -
  assume i: "i + 4 \<le> length b" and s: "slice b i 4 = u32_bytes v"
  have "b ! i = slice b i 4 ! 0" "b ! (i + 1) = slice b i 4 ! 1" "b ! (i + 2) = slice b i 4 ! 2" "b ! (i + 3) = slice b i 4 ! 3"
    using i by (simp_all add: nth_slice)
  then show ?thesis using u32_bytes_join [of v] s by (simp add: read_u32_def u32_bytes_def numeral_3_eq_3 numeral_2_eq_2)
qed

lemma slice_slice: "j + k \<le> n \<Longrightarrow> slice (slice b i n) j k = slice b (i + j) k"
  unfolding slice_def drop_take take_take drop_drop by (simp add: min_def add.commute)

lemma nth_slice_off: "j < n \<Longrightarrow> i + n \<le> length b \<Longrightarrow> b ! (i + j) = slice b i n ! j"
  by (simp add: nth_slice)

lemma dirent_at_bytes:
  assumes "length (de_name e) = 11" "off + 32 \<le> length b" "slice b off 32 = dirent_bytes e"
  shows "dirent_at b off = e"
proof -
  have s: "slice b (off + j) k = slice (dirent_bytes e) j k" if "j + k \<le> 32" for j k
    using slice_slice [OF that, of b off] assms(3) by simp
  have n: "b ! (off + j) = dirent_bytes e ! j" if "j < 32" for j
    using nth_slice_off [OF that assms(2)] assms(3) by simp
  have r16: "read_u16 b (off + j) = v" if "slice (dirent_bytes e) j 2 = u16_bytes v" "j + 2 \<le> 32" for j v
    using that assms(2) s [of j 2] by (intro read_u16_slice) simp_all
  have r32: "read_u32 b (off + 28) = v" if "slice (dirent_bytes e) 28 4 = u32_bytes v" for v
    using that assms(2) s [of 28 4] by (intro read_u32_slice) simp_all
  note parts = dirent_bytes_def slice_def u16_bytes_def u32_bytes_def assms(1)
  have "slice b off 11 = de_name e" using s [of 0 11] by (simp add: parts)
  moreover have "b ! (off + 11) = de_attr e" "b ! (off + 12) = de_ntres e" "b ! (off + 13) = de_crt_time_tenth e"
    by (simp_all add: n dirent_bytes_def nth_append assms(1))
  moreover have "read_u16 b (off + 14) = de_crt_time e" "read_u16 b (off + 16) = de_crt_date e"
    "read_u16 b (off + 18) = de_lst_acc_date e" "read_u16 b (off + 20) = de_fst_clus_hi e"
    "read_u16 b (off + 22) = de_wrt_time e" "read_u16 b (off + 24) = de_wrt_date e" "read_u16 b (off + 26) = de_fst_clus_lo e"
    by (rule r16; simp add: parts)+
  moreover have "read_u32 b (off + 28) = de_file_size e" by (rule r32) (simp add: parts)
  ultimately show ?thesis by (simp add: dirent_at_def)
qed

text \<open>An entry written into a directory sector is read back field by field, and every other entry of
  the sector is unchanged.\<close>
theorem dirent_roundtrip:
  assumes "length (de_name e) = 11" "off + 32 \<le> length b"
  shows "dirent_at (blit b off (dirent_bytes e)) off = e
    \<and> (\<forall>o'. o' + 32 \<le> length b \<longrightarrow> o' + 32 \<le> off \<or> off + 32 \<le> o' \<longrightarrow>
      slice (blit b off (dirent_bytes e)) o' 32 = slice b o' 32)"
proof (intro conjI)
  have l: "off + length (dirent_bytes e) \<le> length b" using assms by simp
  show "dirent_at (blit b off (dirent_bytes e)) off = e"
    using assms l by (intro dirent_at_bytes) (simp_all only: length_blit slice_blit_same length_dirent_bytes)
  show "\<forall>o'. o' + 32 \<le> length b \<longrightarrow> o' + 32 \<le> off \<or> off + 32 \<le> o' \<longrightarrow>
      slice (blit b off (dirent_bytes e)) o' 32 = slice b o' 32"
    using l assms(1) by (intro allI impI slice_blit_other) simp_all
qed

definition sample_dirent :: fat_dirent where
  "sample_dirent = \<lparr>de_name = [65, 32, 32, 32, 32, 32, 32, 32, 84, 88, 84], de_attr = 0x20, de_ntres = 0, de_crt_time_tenth = 7,
     de_crt_time = 0x1234, de_crt_date = 0xABCD, de_lst_acc_date = 1, de_fst_clus_hi = 2, de_wrt_time = 3, de_wrt_date = 4,
     de_fst_clus_lo = 5, de_file_size = 0xDEADBEEF\<rparr>"

theorem dirent_roundtrip_witness:
  "dirent_at (blit (replicate 512 0) 64 (dirent_bytes sample_dirent)) 64 = sample_dirent"
  using dirent_roundtrip [of sample_dirent 64 "replicate 512 0"] by (simp add: sample_dirent_def)

section \<open>Scans over several sectors\<close>

lemma find_slot_append: "off + 32 * n \<le> length a \<Longrightarrow> find_slot n (a @ b) off = find_slot n a off"
  by (induction n arbitrary: off) (simp_all add: nth_append)

lemma find_slot_shift: "find_slot n (a @ b) (length a + off) = map_option (\<lambda>k. length a + k) (find_slot n b off)"
proof (induction n arbitrary: off)
  case (Suc n)
  then show ?case using Suc [of "off + 32"] by (simp add: nth_append add.assoc)
qed simp

lemma find_slot_add:
  "find_slot (m + n) b off = (case find_slot m b off of Some k \<Rightarrow> Some k | None \<Rightarrow> find_slot n b (off + 32 * m))"
proof (induction m arbitrary: off)
  case (Suc m)
  have e: "off + 32 * Suc m = off + 32 + 32 * m" by simp
  show ?case unfolding e using Suc by simp
qed simp

lemma find_slot_Some: "find_slot n b off = Some k \<Longrightarrow> (b ! k = 0 \<or> b ! k = 0xE5) \<and> off \<le> k \<and> k + 32 \<le> off + 32 * n"
proof (induction n arbitrary: off)
  case (Suc n)
  then show ?case by (fastforce split: if_splits)
qed simp

lemma list_sector_append: "off + 32 * n \<le> length a \<Longrightarrow> list_sector n (a @ b) off l acc = list_sector n a off l acc"
proof (induction n arbitrary: off l acc)
  case (Suc n)
  have "dirent_at (a @ b) off = dirent_at a off" using Suc.prems
    by (simp add: dirent_at_def read_u16_def read_u32_def nth_append slice_def)
  with Suc show ?case by (simp add: nth_append)
qed simp

lemma dirent_at_shift: "dirent_at (a @ b) (length a + off) = dirent_at b off"
  by (simp add: dirent_at_def read_u16_def read_u32_def nth_append slice_def add.assoc)

lemma list_sector_shift: "list_sector n (a @ b) (length a + off) l acc = list_sector n b off l acc"
proof (induction n arbitrary: off l acc)
  case (Suc n)
  show ?case using Suc [of "off + 32"] by (simp add: nth_append add.assoc dirent_at_shift)
qed simp

lemma list_sector_add:
  "list_sector (m + n) b off l acc = (case list_sector m b off l acc of (fin, l', acc') \<Rightarrow>
     if fin then (True, l', acc') else list_sector n b (off + 32 * m) l' acc')"
proof (induction m arbitrary: off l acc)
  case (Suc m)
  have e: "off + 32 * Suc m = off + 32 + 32 * m" by simp
  show ?case unfolding e using Suc by simp
qed simp

section \<open>Listing a directory\<close>

lemma list_sectors_law:
  "coherent fs \<Longrightarrow> length buf = 512 \<Longrightarrow> (\<And>i. i < n \<Longrightarrow> sector_ok (lba + of_nat i)) \<Longrightarrow>
   \<exists>fs'. list_sectors n lba buf l acc fs = (snd (snd (list_sector (16 * n) (sectors (disk fs) lba n) 0 l acc)), fs')
     \<and> disk fs' = disk fs \<and> coherent fs'"
proof (induction n arbitrary: lba buf l acc fs)
  case 0
  then show ?case by simp
next
  case (Suc n)
  have ok: "sector_ok lba" using Suc.prems(3) [of 0] by simp
  have ok': "sector_ok (lba + 1 + of_nat i)" if "i < n" for i using Suc.prems(3) [of "Suc i"] that by (simp add: add.assoc)
  obtain fs1 where r: "fs_read_sector buf lba fs = (disk fs lba, fs1)" "disk fs1 = disk fs" "coherent fs1"
    using fs.rd_cases [OF Suc.prems(1) ok Suc.prems(2)] .
  have len: "length (disk fs lba) = 512" by (rule disk_length [OF Suc.prems(1)])
  obtain fin l' acc' where e: "list_sector 16 (disk fs lba) 0 l acc = (fin, l', acc')" by (metis prod_cases3)
  let ?rest = "sectors (disk fs) (lba + 1) n"
  have a: "list_sector 16 (disk fs lba @ ?rest) 0 l acc = (fin, l', acc')"
    using list_sector_append [of 0 16 "disk fs lba" ?rest l acc] e len by simp
  have sh: "list_sector (16 * n) (disk fs lba @ ?rest) (0 + 32 * 16) l' acc' = list_sector (16 * n) ?rest 0 l' acc'"
    using list_sector_shift [of "16 * n" "disk fs lba" ?rest 0 l' acc'] len by simp
  have m: "16 * Suc n = 16 + 16 * n" by simp
  show ?case
  proof (cases fin)
    case True
    then show ?thesis using r e unfolding m sectors.simps list_sector_add a by simp
  next
    case False
    obtain fs' where "list_sectors n (lba + 1) (disk fs lba) l' acc' fs1
        = (snd (snd (list_sector (16 * n) (sectors (disk fs1) (lba + 1) n) 0 l' acc')), fs')" "disk fs' = disk fs1" "coherent fs'"
      using Suc.IH [OF r(3) len ok'] by blast
    then show ?thesis using False r e sh unfolding m sectors.simps list_sector_add a by simp
  qed
qed

text \<open>The entries of one cluster: those before the end mark that are not deleted, long-name or volume
  entries.\<close>

definition dir_entries :: "fat_meta \<Rightarrow> (u32 \<Rightarrow> u8 list) \<Rightarrow> u32 \<Rightarrow> list_entry list" where
  "dir_entries meta d c = snd (snd (list_sector (16 * spc meta) (cluster_content meta d c) 0 0 []))"

lemma list_data_law:
  assumes "coherent fs" "data_ok meta c"
  obtains fs' where "fat32_list_data_lba meta (fat32_cluster_to_lba meta c) fs = (dir_entries meta (disk fs) c, fs')"
    "disk fs' = disk fs" "coherent fs'"
  using list_sectors_law [OF assms(1) length_local_buf lba_sector(2) [OF assms(2)]]
  unfolding fat32_list_data_lba_def dir_entries_def cluster_content_def by metis

lemma list_fat_loop_law:
  "coherent fs \<Longrightarrow> file_chain meta (disk fs) c cs \<Longrightarrow> length cs \<le> fuel \<Longrightarrow>
   \<exists>fs'. list_fat_loop fuel meta c acc fs = Some (acc @ concat (map (dir_entries meta (disk fs)) cs), fs')
     \<and> disk fs' = disk fs \<and> coherent fs'"
proof (induction cs arbitrary: c acc fs fuel)
  case Nil
  then show ?case by (simp add: list_fat_loop.simps [of fuel] file_chain_simps not_less [symmetric] del: not_less)
next
  case (Cons x xs)
  from Cons.prems(2) have x: "c = x" "c < 0x0FFFFFF8" "data_ok meta c" "file_chain meta (disk fs) (next_of meta (disk fs) c) xs"
    by (auto simp: file_chain_simps)
  obtain n where fuel: "fuel = Suc n" using Cons.prems(3) by (cases fuel) auto
  obtain fs1 where fs1: "fat32_list_data_lba meta (fat32_cluster_to_lba meta c) fs = (dir_entries meta (disk fs) c, fs1)"
    "disk fs1 = disk fs" "coherent fs1"
    using Cons.prems(1) x(3) by (rule list_data_law)
  obtain fs2 where fs2: "fat32_fat_next_cluster meta c fs1 = (next_of meta (disk fs) c, fs2)" "disk fs2 = disk fs" "coherent fs2"
    using fs1(3) x(3) fs1(2) by (metis next_data_law)
  obtain fs' where "list_fat_loop n meta (next_of meta (disk fs) c) (acc @ dir_entries meta (disk fs) c) fs2
      = Some ((acc @ dir_entries meta (disk fs) c) @ concat (map (dir_entries meta (disk fs2)) xs), fs')" "disk fs' = disk fs2" "coherent fs'"
    using Cons.IH [OF fs2(3), of "next_of meta (disk fs) c" n "acc @ dir_entries meta (disk fs) c"] x(4) fs2(2) Cons.prems(3) fuel
    by auto
  then show ?case using fs1(1) fs2(1,2) x fuel by (simp add: list_fat_loop.simps [of "Suc n"])
qed

text \<open>Listing a directory returns, cluster by cluster along its chain, the live entries of each cluster
  in order, reads only, and needs as much fuel as the chain has clusters. An end mark ends its cluster,
  not the walk.\<close>
theorem list_fat_correct:
  assumes "coherent fs" "file_chain meta (disk fs) c cs"
  shows "\<exists>fs'. fat32_list_fat (length cs) meta c fs = Some (concat (map (dir_entries meta (disk fs)) cs), fs')
    \<and> disk fs' = disk fs \<and> coherent fs'"
  using list_fat_loop_law [OF assms, of "length cs" "[]"] by (simp add: fat32_list_fat_def)

theorem list_fat_correct_witness:
  "\<exists>fs'. fat32_list_fat 2 small_meta 5 two_chain
     = Some (dir_entries small_meta (disk two_chain) 5 @ dir_entries small_meta (disk two_chain) 9, fs')"
  using list_fat_correct [OF two_chain_coherent two_chain_file] by (auto simp: numeral_2_eq_2)

section \<open>Creating an entry in a free slot\<close>

definition dir_bytes_ok :: "fat_dirent \<Rightarrow> bool" where
  "dir_bytes_ok e \<longleftrightarrow> length (de_name e) = 11"

lemma create_in_sectors_law:
  assumes "dir_bytes_ok e"
  shows "coherent fs \<Longrightarrow> (\<And>i. i < n \<Longrightarrow> sector_ok (lba + of_nat i)) \<Longrightarrow> n < 4294967296 \<Longrightarrow>
   (case find_slot (16 * n) (sectors (disk fs) lba n) 0 of
      None \<Rightarrow> \<exists>fs'. create_in_sectors n lba e fs = (False, fs') \<and> disk fs' = disk fs \<and> coherent fs'
    | Some off \<Rightarrow> \<exists>fs'. create_in_sectors n lba e fs = (True, fs') \<and> coherent fs'
        \<and> sectors (disk fs') lba n = blit (sectors (disk fs) lba n) off (dirent_bytes e)
        \<and> (\<forall>a. n \<le> unat (a - lba) \<longrightarrow> disk fs' a = disk fs a))"
proof (induction n arbitrary: lba fs)
  case 0
  then show ?case by simp
next
  case (Suc n)
  have ok: "sector_ok lba" using Suc.prems(2) [of 0] by simp
  have ok': "sector_ok (lba + 1 + of_nat i)" if "i < n" for i using Suc.prems(2) [of "Suc i"] that by (simp add: add.assoc)
  obtain fs1 where r: "fs_read_sector (local_buf 512 fs) lba fs = (disk fs lba, fs1)" "disk fs1 = disk fs" "coherent fs1"
    using fs.rd_cases [OF Suc.prems(1) ok length_local_buf] .
  have len: "length (disk fs lba) = 512" by (rule disk_length [OF Suc.prems(1)])
  have el: "length (dirent_bytes e) = 32" using assms by (simp add: dir_bytes_ok_def)
  let ?rest = "sectors (disk fs) (lba + 1) n"
  have m: "16 * Suc n = 16 + 16 * n" by simp
  have a: "find_slot 16 (disk fs lba @ ?rest) 0 = find_slot 16 (disk fs lba) 0"
    using find_slot_append [of 0 16 "disk fs lba" ?rest] len by simp
  have sh: "find_slot (16 * n) (disk fs lba @ ?rest) (0 + 32 * 16) = map_option (\<lambda>k. 512 + k) (find_slot (16 * n) ?rest 0)"
    using find_slot_shift [of "16 * n" "disk fs lba" ?rest 0] len by simp
  show ?case
  proof (cases "find_slot 16 (disk fs lba) 0")
    case (Some off)
    have b: "off + 32 \<le> 512" using find_slot_Some [OF Some] by simp
    have bl: "length (blit (disk fs lba) off (dirent_bytes e)) = 512" using len el b by simp
    note w = fs.wr_law [OF r(3) ok bl]
    have "sectors (disk (fs_write_sector (blit (disk fs lba) off (dirent_bytes e)) lba fs1)) (lba + 1) n = ?rest"
      unfolding conjunct1 [OF w] r(2)
    proof (rule sectors_cong)
      fix i assume "i < n"
      then have "lba + 1 + of_nat i \<noteq> lba"
      proof -
        have "unat (of_nat (Suc i) :: u32) = Suc i" using \<open>i < n\<close> Suc.prems(3) by (intro unat_of_nat_u32) simp
        then have "of_nat (Suc i) \<noteq> (0 :: u32)" by (metis nat.distinct(1) unsigned_0)
        then show ?thesis by (simp add: add.assoc)
      qed
      then show "((disk fs)(lba := blit (disk fs lba) off (dirent_bytes e))) (lba + 1 + of_nat i) = disk fs (lba + 1 + of_nat i)" by simp
    qed
    then show ?thesis
      using r Some w el b len unfolding m sectors.simps find_slot_add a by (auto simp: blit_append_left)
  next
    case None
    from Suc.IH [OF r(3) ok', unfolded r(2)] Suc.prems(3)
    have IH: "case find_slot (16 * n) ?rest 0 of
      None \<Rightarrow> \<exists>fs'. create_in_sectors n (lba + 1) e fs1 = (False, fs') \<and> disk fs' = disk fs \<and> coherent fs'
    | Some off \<Rightarrow> \<exists>fs'. create_in_sectors n (lba + 1) e fs1 = (True, fs') \<and> coherent fs'
        \<and> sectors (disk fs') (lba + 1) n = blit ?rest off (dirent_bytes e)
        \<and> (\<forall>a. n \<le> unat (a - (lba + 1)) \<longrightarrow> disk fs' a = disk fs a)" by simp
    show ?thesis
    proof (cases "find_slot (16 * n) ?rest 0")
      case N: None
      with IH None r sh show ?thesis unfolding m sectors.simps find_slot_add a by simp
    next
      case (Some k)
      with IH obtain fs' where fs': "create_in_sectors n (lba + 1) e fs1 = (True, fs')" "coherent fs'"
        "sectors (disk fs') (lba + 1) n = blit ?rest k (dirent_bytes e)" "\<And>a. n \<le> unat (a - (lba + 1)) \<Longrightarrow> disk fs' a = disk fs a"
        by auto
      have "lba - (lba + 1) = 0xFFFFFFFF" by simp
      then have "n \<le> unat (lba - (lba + 1))" using Suc.prems(3) by (simp only:) simp
      then have s: "disk fs' lba = disk fs lba" by (rule fs'(4))
      have o: "disk fs' b = disk fs b" if "Suc n \<le> unat (b - lba)" for b
      proof -
        have "b \<noteq> lba" using that by auto
        then show ?thesis using unat_diff_step [of b lba] that by (intro fs'(4)) simp
      qed
      show ?thesis using None Some r fs'(1-3) s o sh len blit_append_right [of "disk fs lba" ?rest k "dirent_bytes e"]
        unfolding m sectors.simps find_slot_add a by simp
    qed
  qed
qed

lemma create_in_cluster_law:
  assumes "coherent fs" "data_ok meta c" "dir_bytes_ok e"
  shows "case find_slot (16 * spc meta) (cluster_content meta (disk fs) c) 0 of
      None \<Rightarrow> \<exists>fs'. create_in_sectors (spc meta) (fat32_cluster_to_lba meta c) e fs = (False, fs') \<and> disk fs' = disk fs \<and> coherent fs'
    | Some off \<Rightarrow> \<exists>fs'. create_in_sectors (spc meta) (fat32_cluster_to_lba meta c) e fs = (True, fs') \<and> coherent fs'
        \<and> cluster_content meta (disk fs') c = blit (cluster_content meta (disk fs) c) off (dirent_bytes e)
        \<and> same_outside meta [c] (disk fs) (disk fs')"
proof (cases "find_slot (16 * spc meta) (cluster_content meta (disk fs) c) 0")
  case None
  then show ?thesis
    using create_in_sectors_law [OF assms(3,1), of "spc meta" "fat32_cluster_to_lba meta c", OF lba_sector(2) [OF assms(2)] unat_less_2p32] by (simp add: cluster_content_def)
next
  case (Some off)
  then show ?thesis
    using create_in_sectors_law [OF assms(3,1), of "spc meta" "fat32_cluster_to_lba meta c", OF lba_sector(2) [OF assms(2)] unat_less_2p32]
    by (fastforce simp: cluster_content_def same_outside_def in_cluster_def not_less)
qed

lemma create_loop_law:
  assumes "dir_bytes_ok e"
  shows "coherent fs \<Longrightarrow> file_chain meta (disk fs) c cs \<Longrightarrow> length cs \<le> fuel \<Longrightarrow>
   find_slot (16 * spc meta * length cs) (file_content meta (disk fs) cs) 0 = Some off \<Longrightarrow>
   \<exists>fs'. create_loop fuel meta c lst e fs = Some (0, fs') \<and> coherent fs'
     \<and> file_content meta (disk fs') cs = blit (file_content meta (disk fs) cs) off (dirent_bytes e)
     \<and> same_outside meta cs (disk fs) (disk fs')"
proof (induction cs arbitrary: c lst fs fuel off)
  case Nil
  then show ?case by simp
next
  case (Cons x xs)
  let ?C = "cluster_content meta (disk fs) c" and ?X = "file_content meta (disk fs) xs"
  from Cons.prems(2) have x: "c = x" "c < 0x0FFFFFF8" "c \<noteq> 0" "data_ok meta c" "file_chain meta (disk fs) (next_of meta (disk fs) c) xs"
    by (auto simp: file_chain_simps)
  have dok: "\<forall>y \<in> set xs. data_ok meta y" "c \<notin> set xs"
    using Cons.prems(2) is_chain_distinct [of meta "disk fs" c "x # xs"] x(1) by (auto simp: file_chain_def)
  obtain n where fuel: "fuel = Suc n" using Cons.prems(3) by (cases fuel) auto
  have lc: "length ?C = 32 * (16 * spc meta)" using length_cluster_content [OF Cons.prems(1)] by simp
  have fc: "file_content meta (disk fs) (x # xs) = ?C @ ?X" by (simp add: file_content_def x(1))
  have fcd: "file_content meta d (x # xs) = cluster_content meta d c @ file_content meta d xs" for d
    by (simp add: file_content_def x(1))
  have el: "length (dirent_bytes e) = 32" using assms by (simp add: dir_bytes_ok_def)
  have num: "16 * spc meta * length (x # xs) = 16 * spc meta + 16 * spc meta * length xs" by simp
  have fs0: "find_slot (16 * spc meta) (?C @ ?X) 0 = find_slot (16 * spc meta) ?C 0"
    using find_slot_append [of 0 "16 * spc meta" ?C ?X] lc by simp
  note law = create_in_cluster_law [OF Cons.prems(1) x(4) assms]
  show ?case
  proof (cases "find_slot (16 * spc meta) ?C 0")
    case (Some k)
    then have k: "k = off" using Cons.prems(4) unfolding num fc find_slot_add fs0 by simp
    obtain fs' where fs': "create_in_sectors (spc meta) (fat32_cluster_to_lba meta c) e fs = (True, fs')" "coherent fs'"
      "cluster_content meta (disk fs') c = blit ?C off (dirent_bytes e)" "same_outside meta [c] (disk fs) (disk fs')"
      using law Some k by auto
    have "file_content meta (disk fs') xs = ?X"
      unfolding file_content_def using same_outside_content [OF fs'(4)] x(4) dok
      by (intro arg_cong [where f = concat] map_cong refl) auto
    moreover have "off + 32 \<le> length ?C" using find_slot_Some [OF Some] k lc by simp
    ultimately have "file_content meta (disk fs') (x # xs) = blit (?C @ ?X) off (dirent_bytes e)"
      unfolding fcd using fs'(3) el by (simp add: blit_append_left)
    moreover have "same_outside meta (x # xs) (disk fs) (disk fs')" using fs'(4) x(1) by (simp add: same_outside_def)
    ultimately show ?thesis using fs'(1,2) x(2,3) fuel fc by (simp add: create_loop.simps [of "Suc n"])
  next
    case None
    then obtain fs1 where fs1: "create_in_sectors (spc meta) (fat32_cluster_to_lba meta c) e fs = (False, fs1)" "disk fs1 = disk fs" "coherent fs1"
      using law by auto
    obtain fs2 where fs2: "fat32_fat_next_cluster meta c fs1 = (next_of meta (disk fs) c, fs2)" "disk fs2 = disk fs" "coherent fs2"
      using fs1(3) x(4) fs1(2) by (metis next_data_law)
    have "find_slot (16 * spc meta * length xs) (?C @ ?X) (0 + 32 * (16 * spc meta)) = Some off"
      using Cons.prems(4) None unfolding num fc find_slot_add fs0 by simp
    then have "map_option (\<lambda>k. length ?C + k) (find_slot (16 * spc meta * length xs) ?X 0) = Some off"
      using find_slot_shift [of "16 * spc meta * length xs" ?C ?X 0] lc by simp
    then obtain k where k: "find_slot (16 * spc meta * length xs) ?X 0 = Some k" "off = length ?C + k" by auto
    obtain fs' where fs': "create_loop n meta (next_of meta (disk fs) c) c e fs2 = Some (0, fs')" "coherent fs'"
      "file_content meta (disk fs') xs = blit ?X k (dirent_bytes e)" "same_outside meta xs (disk fs) (disk fs')"
      using Cons.IH [OF fs2(3), of "next_of meta (disk fs) c" n k c] x(5) fs2(2) Cons.prems(3) fuel k(1) by auto
    have "cluster_content meta (disk fs') c = ?C"
      by (rule same_outside_content [OF fs'(4) dok(1) x(4) dok(2)])
    then have "file_content meta (disk fs') (x # xs) = blit (?C @ ?X) off (dirent_bytes e)"
      unfolding fcd using fs'(3) k(2) blit_append_right [of ?C ?X k "dirent_bytes e"] by simp
    moreover have "same_outside meta (x # xs) (disk fs) (disk fs')" using fs'(4) by (simp add: same_outside_def)
    ultimately show ?thesis using fs1(1) fs2(1) fs'(1,2) x(2,3) fuel fc by (simp add: create_loop.simps [of "Suc n"])
  qed
qed

text \<open>Creating an entry in a directory with room puts it in the first free slot: the directory's bytes
  are as before but for the 32 bytes of the first deleted or unused entry, which are the new entry; the
  chain is the same and no sector outside the directory changes.\<close>
theorem create_entry_correct:
  assumes "coherent fs" "file_chain meta (disk fs) c cs" "length (de_name e) = 11"
    "find_slot (16 * spc meta * length cs) (file_content meta (disk fs) cs) 0 = Some off"
  shows "\<exists>fs'. fat32_write_create_directory_entry (length cs) meta c e fs = Some (0, fs') \<and> coherent fs'
     \<and> file_content meta (disk fs') cs = blit (file_content meta (disk fs) cs) off (dirent_bytes e)
     \<and> file_chain meta (disk fs') c cs \<and> same_outside meta cs (disk fs) (disk fs')"
proof -
  have ok: "dir_bytes_ok e" using assms(3) by (simp add: dir_bytes_ok_def)
  obtain fs' where fs': "create_loop (length cs) meta c c e fs = Some (0, fs')" "coherent fs'"
     "file_content meta (disk fs') cs = blit (file_content meta (disk fs) cs) off (dirent_bytes e)"
     "same_outside meta cs (disk fs) (disk fs')"
    using create_loop_law [OF ok assms(1,2) order_refl assms(4), of c] by blast
  have "\<forall>x \<in> set cs. data_ok meta x" using assms(2) by (simp add: file_chain_def)
  then have "file_chain meta (disk fs') c cs"
    using file_chain_unchanged [OF assms(2)] same_outside_fat [OF fs'(4)] by blast
  with fs' show ?thesis by (auto simp: fat32_write_create_directory_entry_def)
qed

lemma two_chain_first_byte: "file_content small_meta (disk two_chain) [5, 9] ! 0 = 0"
proof -
  have "fat_sector small_meta 9 = 1" "fat_sector small_meta 5 = 1" by (simp_all add: fat_sector_def small_meta_def)
  then have "disk two_chain 8 = replicate 512 0"
    unfolding two_chain_disk by (simp add: set_entry_def disk_def blank_fs_def blank_device_def)
  moreover have "fat32_cluster_to_lba small_meta 5 = 8" "spc small_meta = 2"
    by (simp_all add: fat32_cluster_to_lba_def small_meta_def)
  ultimately show ?thesis by (simp add: file_content_def cluster_content_def nth_append numeral_2_eq_2)
qed

theorem create_entry_correct_witness:
  "\<exists>fs'. fat32_write_create_directory_entry 2 small_meta 5 sample_dirent two_chain = Some (0, fs')
     \<and> dirent_at (file_content small_meta (disk fs') [5, 9]) 0 = sample_dirent"
proof -
  have n: "16 * spc small_meta * length [5, 9 :: u32] = Suc 63" by (simp add: small_meta_def)
  have s: "find_slot (16 * spc small_meta * length [5, 9 :: u32]) (file_content small_meta (disk two_chain) [5, 9]) 0 = Some 0"
    unfolding n find_slot.simps using two_chain_first_byte by simp
  have nm: "length (de_name sample_dirent) = 11" by (simp add: sample_dirent_def)
  obtain fs' where "fat32_write_create_directory_entry (length [5, 9 :: u32]) small_meta 5 sample_dirent two_chain = Some (0, fs')"
    "file_content small_meta (disk fs') [5, 9] = blit (file_content small_meta (disk two_chain) [5, 9]) 0 (dirent_bytes sample_dirent)"
    using create_entry_correct [OF two_chain_coherent two_chain_file nm s] by blast
  moreover have "dirent_at (blit (file_content small_meta (disk two_chain) [5, 9]) 0 (dirent_bytes sample_dirent)) 0 = sample_dirent"
    using nm two_chain_length by (intro dirent_at_bytes) simp_all
  ultimately show ?thesis by (intro exI [of _ fs']) (simp add: numeral_2_eq_2)
qed

end
