(* ===== verification/Names.thy ===== *)
theory Names
  imports Cstr
begin

text \<open>
  Names and paths in final/src/mount.c: the translation between 8.3 and POSIX names, \<open>split_path\<close>,
  \<open>safe_path\<close> and \<open>get_basename\<close>. A string argument is the list of its bytes before the terminator, and
  so is what a function leaves in an output buffer. The passes of \<open>safe_path\<close> run in place with the
  write pointer never ahead of the read pointer, so each is a function from the string to its result.
\<close>

section \<open>8.3 names\<close>

definition to_upper :: "u8 \<Rightarrow> u8" where
  "to_upper c = (if 97 \<le> c \<and> c \<le> 122 then c AND NOT 0x20 else c)"

text \<open>The result is the return value and the 12-byte buffer, whose terminator is only written on
  success.\<close>

definition translate_filename_posix_to_fat :: "bytes \<Rightarrow> int \<times> bytes" where
  "translate_filename_posix_to_fat posix_name =
     (let fat0 = replicate 11 32;
          dot = strrchr (Some posix_name) 46;
          name_len = (case dot of Some d \<Rightarrow> d | None \<Rightarrow> unat (strlen (Some posix_name)));
          ext = (case dot of Some d \<Rightarrow> drop (d + 1) posix_name | None \<Rightarrow> []);
          ext_len = (case dot of Some d \<Rightarrow> unat (strlen (Some ext)) | None \<Rightarrow> 0)
      in if 3 < ext_len then (- 1, fat0)
         else let fat1 = (if 8 < name_len
                          then blit fat0 0 (map to_upper (take 6 posix_name) @ [126, 49])
                          else blit fat0 0 (map to_upper (take name_len posix_name)));
                  fat2 = blit fat1 8 (map to_upper (take ext_len ext))
              in (0, fat2 @ [0]))"

definition translate_filename_fat_to_posix :: "bytes \<Rightarrow> bytes" where
  "translate_filename_fat_to_posix fat_name =
     (let name = takeWhile (\<lambda>c. c \<noteq> 32) (take 8 fat_name);
          ext = dropWhile (\<lambda>c. c = 32) (take 3 (drop 8 fat_name))
      in if ext \<noteq> [] then name @ [46] @ takeWhile (\<lambda>c. c \<noteq> 32) ext else name)"

section \<open>Paths\<close>

definition EINVAL :: int where "EINVAL = 22"

definition split_path :: "bytes \<Rightarrow> int \<times> bytes \<times> bytes" where
  "split_path path =
     (if str_eq path [47] then (0, [47], [])
      else case strrchr (Some path) 47 of
        None \<Rightarrow> (- EINVAL, [], [])
      | Some slash \<Rightarrow>
          if slash = 0 then (0, [47], drop 1 path)
          else (0, take slash path, drop (slash + 1) path))"

definition get_basename :: "bytes \<Rightarrow> bytes" where
  "get_basename path = (case strrchr (Some path) 47 of None \<Rightarrow> path | Some slash \<Rightarrow> drop (slash + 1) path)"

text \<open>Duplicate slashes; then \<open>/.\<close> before a slash or the end; then \<open>/..\<close>, which goes back to the last
  slash written, if there is one.\<close>

fun dedup_slashes :: "bytes \<Rightarrow> bytes" where
  "dedup_slashes [] = []"
| "dedup_slashes (c # s) = (if c = 47 \<and> first_byte s = 47 then dedup_slashes s else c # dedup_slashes s)"

definition dot_here :: "bytes \<Rightarrow> bool" where
  "dot_here s \<longleftrightarrow> (case s of a # b # r \<Rightarrow> a = 47 \<and> b = 46 \<and> (first_byte r = 47 \<or> first_byte r = 0) | _ \<Rightarrow> False)"

fun drop_dots :: "bytes \<Rightarrow> bytes" where
  "drop_dots [] = []"
| "drop_dots (c # s) = (if dot_here (c # s) then drop_dots (drop 1 s) else c # drop_dots s)"

definition dotdot_here :: "bytes \<Rightarrow> bool" where
  "dotdot_here s \<longleftrightarrow> (case s of a # b # c # r \<Rightarrow> a = 47 \<and> b = 46 \<and> c = 46 \<and> (first_byte r = 47 \<or> first_byte r = 0) | _ \<Rightarrow> False)"

fun last_slash_from :: "bytes \<Rightarrow> nat \<Rightarrow> nat option \<Rightarrow> nat option" where
  "last_slash_from [] i found = found"
| "last_slash_from (c # s) i found = last_slash_from s (i + 1) (if c = 47 then Some i else found)"

fun resolve_dots :: "bytes \<Rightarrow> bytes \<Rightarrow> nat option \<Rightarrow> bytes" where
  "resolve_dots [] out last_slash = out"
| "resolve_dots (c # s) out last_slash =
     (if dotdot_here (c # s) then
        (case last_slash of
           None \<Rightarrow> resolve_dots (drop 2 s) out None
         | Some k \<Rightarrow> let out' = take k out in resolve_dots (drop 2 s) out' (last_slash_from out' 0 None))
      else resolve_dots s (out @ [c]) (if c = 47 then Some (length out) else last_slash))"

definition safe_path :: "bytes \<Rightarrow> bytes" where
  "safe_path path =
     (let d = resolve_dots (drop_dots (dedup_slashes path)) [] None in if d = [] then [47] else d)"

declare drop_dots.simps(2) [simp del] resolve_dots.simps(2) [simp del]

section \<open>Paths as components\<close>

text \<open>An absolute path is rendered from its components, each preceded by a slash; a trailing slash is
  an empty last component.\<close>

definition render :: "bytes list \<Rightarrow> bytes" where
  "render cs = concat (map (\<lambda>c. 47 # c) cs)"

definition comp_ok :: "bytes \<Rightarrow> bool" where
  "comp_ok c \<longleftrightarrow> 47 \<notin> set c \<and> 0 \<notin> set c"

fun drop_empty :: "bytes list \<Rightarrow> bytes list" where
  "drop_empty (c # d # cs) = (if c = [] then drop_empty (d # cs) else c # drop_empty (d # cs))"
| "drop_empty cs = cs"

definition pop_push :: "bytes list \<Rightarrow> bytes \<Rightarrow> bytes list" where
  "pop_push st c = (if c = [46, 46] then butlast st else st @ [c])"

lemma render_simps [simp]: "render [] = []" "render (c # cs) = 47 # c @ render cs"
  by (simp_all add: render_def)

lemma render_append: "render (a @ b) = render a @ render b"
  by (simp add: render_def)

lemma first_byte_render: "first_byte (render cs) = (if cs = [] then 0 else 47)"
  by (cases cs) simp_all

lemma first_byte_append: "first_byte (a @ b) = (if a = [] then first_byte b else first_byte a)"
  by (cases a) simp_all

lemma dedup_prefix: "47 \<notin> set c \<Longrightarrow> dedup_slashes (c @ s) = c @ dedup_slashes s"
  by (induction c) auto

lemma dedup_render: "\<forall>c \<in> set cs. comp_ok c \<Longrightarrow> dedup_slashes (render cs) = render (drop_empty cs)"
proof (induction cs rule: drop_empty.induct)
  case (1 c d cs)
  then have ok: "47 \<notin> set c" "first_byte c \<noteq> 47" by (auto simp: comp_ok_def first_byte_def split: list.splits)
  have IH: "dedup_slashes (render (d # cs)) = render (drop_empty (d # cs))" using 1 by (cases "c = []") auto
  show ?case
  proof (cases "c = []")
    case True
    with IH show ?thesis by simp
  next
    case False
    have "dedup_slashes (render (c # d # cs)) = 47 # dedup_slashes (c @ render (d # cs))"
      using False ok(2) by (simp add: first_byte_append)
    then show ?thesis using False IH dedup_prefix [OF ok(1)] by simp
  qed
qed (use dedup_prefix [of _ "[]"] in \<open>auto simp: comp_ok_def first_byte_def split: list.splits\<close>)

lemma drop_dots_step: "\<not> dot_here (c # s) \<Longrightarrow> drop_dots (c # s) = c # drop_dots s"
  by (simp add: drop_dots.simps)

lemma drop_dots_prefix: "47 \<notin> set c \<Longrightarrow> drop_dots (c @ s) = c @ drop_dots s"
proof (induction c)
  case (Cons x c)
  then have "\<not> dot_here ((x # c) @ s)" by (auto simp: dot_here_def split: list.splits)
  with Cons show ?case by (simp add: drop_dots_step)
qed simp

lemma drop_dots_render:
  "\<forall>c \<in> set cs. comp_ok c \<Longrightarrow> drop_dots (render cs) = render (filter (\<lambda>c. c \<noteq> [46]) cs)"
proof (induction cs)
  case (Cons c cs)
  then have ok: "47 \<notin> set c" "0 \<notin> set c" by (auto simp: comp_ok_def)
  show ?case
  proof (cases "c = [46]")
    case True
    then have "dot_here (render (c # cs))" by (simp add: dot_here_def first_byte_render)
    then have "drop_dots (render (c # cs)) = drop_dots (render cs)"
      using True by (simp add: drop_dots.simps)
    with True Cons show ?thesis by simp
  next
    case False
    have "\<not> dot_here (47 # c @ render cs)"
    proof (cases c)
      case Nil
      then show ?thesis by (cases cs) (simp_all add: dot_here_def)
    next
      case (Cons x d)
      with False ok show ?thesis by (cases d) (auto simp: dot_here_def)
    qed
    then show ?thesis using False Cons drop_dots_prefix [OF ok(1)] by (simp add: drop_dots_step)
  qed
qed simp

lemma last_slash_none: "47 \<notin> set c \<Longrightarrow> last_slash_from c i found = found"
  by (induction c arbitrary: i found) auto

lemma last_slash_append: "last_slash_from (a @ b) i found = last_slash_from b (i + length a) (last_slash_from a i found)"
  by (induction a arbitrary: i found) (simp_all add: add.assoc)

definition last_mark :: "bytes list \<Rightarrow> nat option" where
  "last_mark st = (if st = [] then None else Some (length (render (butlast st))))"

lemma last_slash_render:
  assumes "\<forall>c \<in> set st. comp_ok c"
  shows "last_slash_from (render st) 0 None = last_mark st"
proof (cases st rule: rev_cases)
  case (snoc st' c)
  then have "47 \<notin> set c" using assms by (auto simp: comp_ok_def)
  then show ?thesis using snoc by (simp add: last_mark_def render_append last_slash_append last_slash_none)
qed (simp add: last_mark_def)

lemma resolve_prefix:
  "47 \<notin> set c \<Longrightarrow> resolve_dots (c @ s) out k = resolve_dots s (out @ c) k"
proof (induction c arbitrary: out)
  case (Cons x c)
  then have "\<not> dotdot_here ((x # c) @ s)" by (auto simp: dotdot_here_def split: list.splits)
  with Cons show ?case by (simp add: resolve_dots.simps)
qed simp

lemma resolve_render:
  assumes "\<forall>c \<in> set cs. comp_ok c" "\<forall>c \<in> set st. comp_ok c"
  shows "resolve_dots (render cs) (render st) (last_mark st) = render (foldl pop_push st cs)"
  using assms
proof (induction cs arbitrary: st)
  case Nil
  then show ?case by simp
next
  case (Cons c cs)
  then have ok: "47 \<notin> set c" "0 \<notin> set c" by (auto simp: comp_ok_def)
  show ?case
  proof (cases "c = [46, 46]")
    case True
    then have e: "render (c # cs) = 47 # 46 # 46 # render cs" by simp
    have here: "dotdot_here (47 # 46 # 46 # render cs)" by (simp add: dotdot_here_def first_byte_render)
    have step: "resolve_dots (render (c # cs)) (render st) (last_mark st)
        = (case last_mark st of None \<Rightarrow> resolve_dots (render cs) (render st) None
           | Some k \<Rightarrow> resolve_dots (render cs) (take k (render st)) (last_slash_from (take k (render st)) 0 None))"
      unfolding e by (subst resolve_dots.simps) (simp add: here numeral_2_eq_2 Let_def split: option.split)
    show ?thesis
    proof (cases st rule: rev_cases)
      case Nil
      then show ?thesis using step True Cons.IH [of "[]"] Cons.prems by (simp add: last_mark_def pop_push_def)
    next
      case (snoc st' x)
      then have "take (length (render st')) (render st) = render st'" by (simp add: render_append)
      moreover have "\<forall>c \<in> set st'. comp_ok c" using snoc Cons.prems(2) by simp
      ultimately show ?thesis
        using step True Cons snoc last_slash_render [of st'] by (simp add: last_mark_def pop_push_def)
    qed
  next
    case False
    have nh: "\<not> dotdot_here (47 # c @ render cs)"
    proof (cases c)
      case Nil
      then show ?thesis by (cases cs) (simp_all add: dotdot_here_def split: list.splits)
    next
      case (Cons x d)
      show ?thesis
      proof (cases d)
        case Nil
        with Cons show ?thesis by (cases cs) (simp_all add: dotdot_here_def split: list.splits)
      next
        case C2: (Cons y e)
        with Cons False ok show ?thesis by (cases e) (auto simp: dotdot_here_def)
      qed
    qed
    have "resolve_dots (render (c # cs)) (render st) (last_mark st)
        = resolve_dots (c @ render cs) (render st @ [47]) (Some (length (render st)))"
      using nh by (simp add: resolve_dots.simps)
    also have "\<dots> = resolve_dots (render cs) (render (st @ [c])) (last_mark (st @ [c]))"
      using resolve_prefix [OF ok(1)] by (simp add: render_append last_mark_def)
    also have "\<dots> = render (foldl pop_push (st @ [c]) cs)" using Cons by simp
    finally show ?thesis using False by (simp add: pop_push_def [of st c])
  qed
qed

text \<open>What the three passes compute, on the components of the path.\<close>

definition resolve :: "bytes list \<Rightarrow> bytes list" where
  "resolve cs = foldl pop_push [] (filter (\<lambda>c. c \<noteq> [46]) (drop_empty cs))"

lemma drop_empty_subset: "set (drop_empty cs) \<subseteq> set cs"
  by (induction cs rule: drop_empty.induct) auto

lemma safe_path_render:
  assumes "\<forall>c \<in> set cs. comp_ok c"
  shows "safe_path (render cs) = (if resolve cs = [] then [47] else render (resolve cs))"
proof -
  let ?d = "filter (\<lambda>c. c \<noteq> [46]) (drop_empty cs)"
  have ok1: "\<forall>c \<in> set (drop_empty cs). comp_ok c" using assms drop_empty_subset by blast
  then have ok: "\<forall>c \<in> set ?d. comp_ok c" by simp
  have "resolve_dots (drop_dots (dedup_slashes (render cs))) [] None = resolve_dots (render ?d) (render []) (last_mark [])"
    by (simp add: dedup_render [OF assms] drop_dots_render [OF ok1] last_mark_def)
  also have "\<dots> = render (resolve cs)" unfolding resolve_def using ok by (intro resolve_render) simp_all
  finally have r: "resolve_dots (drop_dots (dedup_slashes (render cs))) [] None = render (resolve cs)" .
  have "render (resolve cs) = [] \<longleftrightarrow> resolve cs = []" by (cases "resolve cs") simp_all
  then show ?thesis by (simp add: safe_path_def r Let_def)
qed

lemma pop_push_in: "x \<in> set (pop_push st c) \<Longrightarrow> x \<in> set st \<or> (x = c \<and> c \<noteq> [46, 46])"
  unfolding pop_push_def using in_set_butlastD [of x st] by (cases "c = [46, 46]"; simp; blast)

lemma foldl_pop_push_in: "x \<in> set (foldl pop_push st cs) \<Longrightarrow> x \<in> set st \<or> (x \<in> set cs \<and> x \<noteq> [46, 46])"
proof (induction cs arbitrary: st)
  case (Cons c cs)
  have "x \<in> set (pop_push st c) \<or> (x \<in> set cs \<and> x \<noteq> [46, 46])" using Cons by simp
  then show ?case using pop_push_in [of x st c] unfolding list.set by blast
qed simp

lemma resolve_clean: "c \<in> set (resolve cs) \<Longrightarrow> c \<noteq> [46, 46] \<and> c \<noteq> [46]"
  unfolding resolve_def using foldl_pop_push_in [of c "[]" "filter (\<lambda>c. c \<noteq> [46]) (drop_empty cs)"]
  unfolding set_filter list.set by blast

text \<open>C13: \<open>safe_path\<close> resolves an absolute path: its three in-place passes drop empty components (but a
  trailing slash stays), drop \<open>.\<close>, and let each \<open>..\<close> remove the component before it, or nothing at the
  root; the result is \<open>/\<close> when no component is left, and no \<open>.\<close> or \<open>..\<close> survives in it.\<close>
theorem safe_path_resolves:
  assumes "\<forall>c \<in> set cs. comp_ok c"
  shows "safe_path (render cs) = (if resolve cs = [] then [47] else render (resolve cs))
    \<and> (\<forall>c \<in> set (resolve cs). c \<noteq> [46] \<and> c \<noteq> [46, 46])"
  using safe_path_render [OF assms] resolve_clean by blast

text \<open>The path \<open>/a//./b/../../../c\<close> is \<open>/c\<close>.\<close>

theorem safe_path_resolves_witness:
  "safe_path [47, 97, 47, 47, 46, 47, 98, 47, 46, 46, 47, 46, 46, 47, 46, 46, 47, 99] = [47, 99]"
proof -
  let ?cs = "[[97], [], [46], [98], [46, 46], [46, 46], [46, 46], [99]] :: bytes list"
  have ok: "\<forall>c \<in> set ?cs. comp_ok c" by (simp add: comp_ok_def)
  have r: "resolve ?cs = [[99]]" "render ?cs = [47, 97, 47, 47, 46, 47, 98, 47, 46, 46, 47, 46, 46, 47, 46, 46, 47, 99]"
    by code_simp+
  show ?thesis using safe_path_resolves [OF ok] unfolding r by simp
qed

text \<open>A relative path has no slash to go back to: \<open>a/../b\<close> becomes \<open>a/b\<close>.\<close>

lemma safe_path_relative: "safe_path [97, 47, 46, 46, 47, 98] = [97, 47, 98]"
  by code_simp

section \<open>8.3 names and back\<close>

definition part_ok :: "bytes \<Rightarrow> bool" where
  "part_ok s \<longleftrightarrow> (\<forall>c \<in> set s. c \<noteq> 0 \<and> c \<noteq> 46 \<and> c \<noteq> 32)"

lemma to_upper_space: "c \<noteq> 32 \<Longrightarrow> to_upper c \<noteq> 32"
proof
  assume c: "c \<noteq> 32" and u: "to_upper c = 32"
  then have "c AND NOT 0x20 = 32" by (auto simp: to_upper_def split: if_splits)
  then have "bit (c AND NOT 0x20) 5 = bit (32 :: u8) 5" by simp
  then show False by (simp add: bit_and_iff bit_not_iff)
qed

lemma strrchr_from_absent: "c \<notin> set s \<Longrightarrow> strrchr_from s c i found = found"
  by (induction s arbitrary: i found) auto

lemma strrchr_from_append:
  "0 \<notin> set a \<Longrightarrow> strrchr_from (a @ b) c i found = strrchr_from b c (i + length a) (strrchr_from a c i found)"
  by (induction a arbitrary: i found) (auto simp: add.assoc)

lemma strrchr_last: "0 \<notin> set a \<Longrightarrow> c \<noteq> 0 \<Longrightarrow> c \<notin> set b \<Longrightarrow> strrchr_from (a @ c # b) c 0 None = Some (length a)"
  by (simp add: strrchr_from_append strrchr_from_absent)

lemma cstring_id: "0 \<notin> set s \<Longrightarrow> cstring s = s"
  by (induction s) auto

lemma strlen_nat: "0 \<notin> set s \<Longrightarrow> length s < 4294967296 \<Longrightarrow> unat (strlen (Some s)) = length s"
  by (simp add: strlen_length cstring_id unat_of_nat_u32)

lemma blit_pad:
  assumes "length xs \<le> n"
  shows "blit (replicate n c) 0 xs = xs @ replicate (n - length xs) c"
  using assms by (simp add: blit_def)

text \<open>The 11 bytes of a name and an extension, padded with spaces.\<close>

definition fat_name :: "bytes \<Rightarrow> bytes \<Rightarrow> bytes" where
  "fat_name base ext = map to_upper base @ replicate (8 - length base) 32 @ map to_upper ext @ replicate (3 - length ext) 32"

lemma to_fat_plain:
  assumes "part_ok s" "length s \<le> 8"
  shows "translate_filename_posix_to_fat s = (0, fat_name s [] @ [0])"
proof -
  have z: "0 \<notin> set s" "46 \<notin> set s" using assms(1) by (auto simp: part_ok_def)
  have d: "strrchr (Some s) 46 = None" using strrchr_from_absent [OF z(2)] by (simp add: strrchr_def)
  have l: "unat (strlen (Some s)) = length s" using assms(2) z(1) by (intro strlen_nat) auto
  have "11 - length s = (8 - length s) + 3" using assms(2) by simp
  then have r: "replicate (11 - length s) (32 :: u8) = replicate (8 - length s) 32 @ replicate 3 32" by (simp only: replicate_add)
  show ?thesis using assms(2)
    by (simp add: translate_filename_posix_to_fat_def d l Let_def blit_pad fat_name_def r blit_def)
qed

lemma to_fat_ext:
  assumes "part_ok base" "part_ok ext" "length base \<le> 8" "length ext \<le> 3"
  shows "translate_filename_posix_to_fat (base @ 46 # ext) = (0, fat_name base ext @ [0])"
proof -
  have z: "0 \<notin> set base" "46 \<notin> set ext" "0 \<notin> set ext" using assms(1,2) by (auto simp: part_ok_def)
  have d: "strrchr (Some (base @ 46 # ext)) 46 = Some (length base)"
    using strrchr_last [OF z(1) _ z(2), of] by (simp add: strrchr_def)
  have l: "unat (strlen (Some ext)) = length ext" using assms(4) z(3) by (intro strlen_nat) auto
  have "11 - length base = (8 - length base) + 3" using assms(3) by simp
  then have r: "replicate (11 - length base) (32 :: u8) = replicate (8 - length base) 32 @ replicate 3 32" by (simp only: replicate_add)
  have b: "blit (map to_upper base @ replicate (8 - length base) 32 @ replicate 3 32) 8 (map to_upper ext)
      = map to_upper base @ replicate (8 - length base) 32 @ map to_upper ext @ replicate (3 - length ext) 32"
    using assms(3,4) by (simp add: blit_def)
  show ?thesis using assms(3,4)
    by (simp add: translate_filename_posix_to_fat_def d l Let_def blit_pad fat_name_def r b)
qed

lemma takeWhile_pad: "(\<forall>c \<in> set a. c \<noteq> 32) \<Longrightarrow> takeWhile (\<lambda>c. c \<noteq> 32) (a @ replicate n (32 :: u8)) = a"
  by (induction a) (cases n; simp)+

lemma upper_no_space: "part_ok s \<Longrightarrow> \<forall>c \<in> set (map to_upper s). c \<noteq> 32"
  using to_upper_space by (auto simp: part_ok_def)

lemma fat_to_posix_name:
  assumes "part_ok base" "part_ok ext" "length base \<le> 8" "length ext \<le> 3"
  shows "translate_filename_fat_to_posix (fat_name base ext @ [0])
    = map to_upper base @ (if ext = [] then [] else 46 # map to_upper ext)"
proof -
  let ?n = "fat_name base ext @ [0]"
  have t: "take 8 ?n = map to_upper base @ replicate (8 - length base) 32" using assms(3) by (simp add: fat_name_def)
  have e: "take 3 (drop 8 ?n) = map to_upper ext @ replicate (3 - length ext) 32" using assms(3,4) by (simp add: fat_name_def)
  have nb: "takeWhile (\<lambda>c. c \<noteq> 32) (take 8 ?n) = map to_upper base"
    unfolding t by (rule takeWhile_pad [OF upper_no_space [OF assms(1)]])
  show ?thesis
  proof (cases ext)
    case Nil
    then have "dropWhile (\<lambda>c. c = 32) (take 3 (drop 8 ?n)) = []" unfolding e by simp
    with nb Nil show ?thesis unfolding translate_filename_fat_to_posix_def Let_def by simp
  next
    case (Cons x xs)
    then have ne: "to_upper x \<noteq> 32" using upper_no_space [OF assms(2)] by simp
    have "dropWhile (\<lambda>c. c = 32) (take 3 (drop 8 ?n)) = map to_upper ext @ replicate (3 - length ext) 32"
      unfolding e using Cons ne by simp
    then show ?thesis using nb Cons takeWhile_pad [OF upper_no_space [OF assms(2)], of "3 - length ext"]
      unfolding translate_filename_fat_to_posix_def Let_def by simp
  qed
qed

text \<open>C14: an 8.3 name survives the translation to a directory entry and back, up to upper case: for a base
  of at most eight characters and an extension of at most three, free of dots, spaces and NULs, both
  translations succeed and compose to upper-casing.\<close>
theorem name_roundtrip:
  assumes "part_ok base" "part_ok ext" "length base \<le> 8" "length ext \<le> 3"
  shows "fst (translate_filename_posix_to_fat (base @ (if ext = [] then [] else 46 # ext))) = 0
    \<and> translate_filename_fat_to_posix (snd (translate_filename_posix_to_fat (base @ (if ext = [] then [] else 46 # ext))))
      = map to_upper base @ (if ext = [] then [] else 46 # map to_upper ext)"
  using to_fat_plain [OF assms(1,3)] to_fat_ext [OF assms] fat_to_posix_name [OF assms] by auto

theorem name_roundtrip_witness:
  "translate_filename_fat_to_posix (snd (translate_filename_posix_to_fat [107, 101, 114, 110, 101, 108, 46, 105, 109, 103]))
    = [75, 69, 82, 78, 69, 76, 46, 73, 77, 71]"
  using name_roundtrip [of "[107, 101, 114, 110, 101, 108]" "[105, 109, 103]"]
  by (simp add: part_ok_def to_upper_def)

text \<open>Long names keep six characters and get \<open>~1\<close>, so they can collide; longer extensions are refused.\<close>

lemma long_names_collide:
  "snd (translate_filename_posix_to_fat [108, 111, 110, 103, 110, 97, 109, 101, 49]) = snd (translate_filename_posix_to_fat [108, 111, 110, 103, 110, 97, 120, 120, 50])"
  by code_simp

end
