(* ===== verification/Mount.thy ===== *)
theory Mount
  imports FatDir Names "HOL-Library.Monad_Syntax"
begin

text \<open>
  The file layer of final/src/mount.c over the FAT volume: looking a path up, directory entries and
  status for user programs, and the operations of an open file. The volume's metadata (the global
  \<open>fat_meta_obj\<close>) is an argument. A function has no value (\<open>None\<close>) where the code leaves C's defined
  behaviour or stops the machine: a path too long for a 256-byte local buffer, a null pointer that is
  read, a chain longer than the fuel, a reboot. Return values are 32-bit words, errors negated.
\<close>

section \<open>Constants and structures\<close>

definition ENOENT :: u32 where "ENOENT = 2"
definition EBADF :: u32 where "EBADF = 9"
definition EACCES :: u32 where "EACCES = 13"
definition EMFILE :: u32 where "EMFILE = 24"
definition ENOSYS :: u32 where "ENOSYS = 38"

definition AT_FDCWD :: u32 where "AT_FDCWD = - 100"
definition O_RDWR :: u32 where "O_RDWR = 2"
definition O_CREAT :: u32 where "O_CREAT = 64"

text \<open>The status structure of fstatat64 (padding and the time fields, which stay zero, included).\<close>

record stat64 =
  st_dev :: u64
  old_st_ino :: u32
  st_mode :: u32
  st_nlink :: u32
  st_uid :: u32
  st_gid :: u32
  st_rdev :: u64
  st_size :: u64
  st_blksize :: u32
  st_blocks :: u64
  st_atime :: u32
  st_atime_nsec :: u32
  st_mtime :: u32
  st_mtime_nsec :: u32
  st_ctime :: u32
  st_ctime_nsec :: u32
  st_ino :: u64

definition zero_stat :: stat64 where
  "zero_stat = \<lparr>st_dev = 0, old_st_ino = 0, st_mode = 0, st_nlink = 0, st_uid = 0, st_gid = 0, st_rdev = 0, st_size = 0,
     st_blksize = 0, st_blocks = 0, st_atime = 0, st_atime_nsec = 0, st_mtime = 0, st_mtime_nsec = 0, st_ctime = 0,
     st_ctime_nsec = 0, st_ino = 0\<rparr>"

text \<open>What an open file points to: its own entry and its parent directory's, each possibly null. An
  entry belongs to one open file, so it is held by value.\<close>

record open_file_priv =
  priv_dirent :: "fat_dirent option"
  priv_parent :: "fat_dirent option"

datatype file_ops = TtyOps | MountOps

record kfile =
  refcnt :: u32
  flags :: u32
  pos :: u32
  priv :: "open_file_priv option"
  ops :: file_ops

section \<open>Looking names up\<close>

text \<open>\<open>get_dir_cluster_number\<close> compares the 11 bytes of an entry, \<open>get_entry_from_directory\<close> the entry's
  name without its trailing spaces.\<close>

definition dir_match :: "bytes \<Rightarrow> list_entry \<Rightarrow> bool" where
  "dir_match name e \<longleftrightarrow> \<not> (de_name (le_dirent e) ! 0 = 0xE5 \<or> de_attr (le_dirent e) AND 0x0F = 0x0F)
     \<and> strn_eq (de_name (le_dirent e) @ [0]) name 11"

lemma strrchr_from_bound: "strrchr_from s c i found = Some k \<Longrightarrow> found = Some k \<or> k < i + length s"
  by (induction s c i found rule: strrchr_from.induct) (auto split: if_splits)

lemma split_path_shorter:
  assumes "\<not> str_eq path [47]" "split_path path = (0, parent, name)"
  shows "length parent < length path" "length name \<le> length path"
proof -
  obtain k where k: "strrchr (Some path) 47 = Some k"
    using assms by (auto simp: split_path_def EINVAL_def split: option.splits)
  then have b: "k < length path" using strrchr_from_bound [of path 47 0 None k] by (simp add: strrchr_def)
  show "length name \<le> length path" using assms k by (auto simp: split_path_def split: if_splits)
  show "length parent < length path"
  proof (cases "k = 0")
    case True
    have "path \<noteq> [x]" for x using assms(1) k by (auto simp: strrchr_def split: if_splits)
    then have "2 \<le> length path" using b by (cases path; cases "tl path") auto
    then show ?thesis using assms k True by (auto simp: split_path_def)
  next
    case False
    then show ?thesis using assms k b by (auto simp: split_path_def)
  qed
qed

function get_dir_cluster_number :: "nat \<Rightarrow> fat_meta \<Rightarrow> bytes \<Rightarrow> fs_state \<Rightarrow> (u32 \<times> fs_state) option" where
  "get_dir_cluster_number fuel meta path fs =
     (if str_eq path [47] then Some (bpb_root_clus (meta_bpb meta), fs)
      else (case split_path path of (r, parent, name_) \<Rightarrow>
        if r \<noteq> 0 then Some (0, fs)
        else if 256 \<le> length parent \<or> 256 \<le> length name_ then None
        else (case translate_filename_posix_to_fat name_ of (t, name) \<Rightarrow>
          if t \<noteq> 0 then Some (0, fs)
          else do {
            (parent_clus, fs1) \<leftarrow> get_dir_cluster_number fuel meta parent fs;
            if parent_clus = 0 then Some (0, fs1)
            else do {
              (entries, fs2) \<leftarrow> fat32_list_fat fuel meta parent_clus fs1;
              Some (case find (dir_match name) entries of Some e \<Rightarrow> dirent_cluster (le_dirent e) | None \<Rightarrow> 0, fs2)
            }
          })))"
  by pat_completeness auto

termination
  by (relation "measure (\<lambda>(fuel, meta, path, fs). length path)") (auto dest: split_path_shorter(1) [OF _ sym])

declare get_dir_cluster_number.simps [simp del]

definition trim_spaces :: "bytes \<Rightarrow> bytes" where
  "trim_spaces name = rev (dropWhile (\<lambda>c. c = 32) (rev name))"

definition entry_match :: "bytes \<Rightarrow> list_entry \<Rightarrow> bool" where
  "entry_match tmp_name e \<longleftrightarrow> strn_eq (trim_spaces (de_name (le_dirent e))) tmp_name 11"

definition get_entry_from_directory :: "nat \<Rightarrow> fat_meta \<Rightarrow> u32 \<Rightarrow> bytes \<Rightarrow> bool \<Rightarrow> fs_state
    \<Rightarrow> (fat_dirent option \<times> fs_state) option" where
  "get_entry_from_directory fuel meta dir_clus name name_is_fat fs =
     (case (if name_is_fat then (0, take 12 name) else translate_filename_posix_to_fat name) of (t, tmp_name) \<Rightarrow>
        if t \<noteq> 0 then Some (None, fs)
        else do {
          (entries, fs1) \<leftarrow> fat32_list_fat fuel meta dir_clus fs;
          Some (map_option le_dirent (find (entry_match tmp_name) entries), fs1)
        })"

section \<open>Paths\<close>

definition mount_probe :: "nat \<Rightarrow> fat_meta \<Rightarrow> bytes \<Rightarrow> fs_state \<Rightarrow> (u32 \<times> fs_state) option" where
  "mount_probe fuel meta path fs =
     (if 256 \<le> length path then None
      else let safe = safe_path path in
      if str_eq safe [47] then Some (0, fs)
      else (case split_path safe of (r, parent, name) \<Rightarrow>
        if r \<noteq> 0 then Some (- ENOENT, fs)
        else do {
          (parent_clus, fs1) \<leftarrow> get_dir_cluster_number fuel meta parent fs;
          if parent_clus = 0 then Some (- ENOENT, fs1)
          else do {
            (entry, fs2) \<leftarrow> get_entry_from_directory fuel meta parent_clus name False fs1;
            Some (case entry of None \<Rightarrow> - ENOENT | Some e \<Rightarrow> 0, fs2)
          }
        }))"

text \<open>The path a call starts from: relative paths are appended to the working directory. The last
  argument of the callers is a null path.\<close>

definition init_path :: "bool \<Rightarrow> bytes \<Rightarrow> bytes option \<Rightarrow> bytes option" where
  "init_path use_cwd cwd path =
     (let p = (if use_cwd \<and> (case path of None \<Rightarrow> True | Some q \<Rightarrow> first_byte q \<noteq> 47)
               then Some (case path of None \<Rightarrow> cwd | Some q \<Rightarrow> cwd @ [47] @ q) else path)
      in case p of None \<Rightarrow> None | Some q \<Rightarrow> if 256 \<le> length q then None else Some q)"

definition root_dirent :: "fat_meta \<Rightarrow> fat_dirent" where
  "root_dirent meta = \<lparr>de_name = replicate 11 0, de_attr = 0x10, de_ntres = 0, de_crt_time_tenth = 0, de_crt_time = 0,
     de_crt_date = 0, de_lst_acc_date = 0,
     de_fst_clus_hi = ucast (drop_bit 16 (bpb_root_clus (meta_bpb meta)) AND 0xFFFF), de_wrt_time = 0, de_wrt_date = 0,
     de_fst_clus_lo = ucast (bpb_root_clus (meta_bpb meta) AND 0xFFFF), de_file_size = 0\<rparr>"

definition mount_get_dirent :: "nat \<Rightarrow> fat_meta \<Rightarrow> bytes \<Rightarrow> bytes option \<Rightarrow> bool \<Rightarrow> bool \<Rightarrow> fs_state
    \<Rightarrow> (fat_dirent option \<times> fs_state) option" where
  "mount_get_dirent fuel meta cwd path use_cwd use_parent fs =
     do {
       p \<leftarrow> init_path use_cwd cwd path;
       let safe = safe_path p in
       if str_eq safe [47] then Some (Some (root_dirent meta), fs)
       else (case split_path safe of (r, parent0, name0) \<Rightarrow>
         if r \<noteq> 0 then Some (None, fs)
         else (case (if use_parent then split_path parent0 else (0, parent0, name0)) of (r', parent, name) \<Rightarrow>
           if r' \<noteq> 0 then Some (None, fs)
           else do {
             (parent_clus, fs1) \<leftarrow> get_dir_cluster_number fuel meta parent fs;
             if parent_clus = 0 then Some (None, fs1)
             else get_entry_from_directory fuel meta parent_clus name False fs1
           }))
     }"

definition mount_read_w_offset :: "nat \<Rightarrow> fat_meta \<Rightarrow> bytes \<Rightarrow> u8 list \<Rightarrow> u32 \<Rightarrow> u32 \<Rightarrow> fs_state
    \<Rightarrow> (u32 \<times> u8 list \<times> fs_state) option" where
  "mount_read_w_offset fuel meta path buf sz offset fs =
     (if 256 \<le> length path then None
      else (case split_path (safe_path path) of (r, parent, name) \<Rightarrow>
        if r \<noteq> 0 then Some (- ENOENT, buf, fs)
        else do {
          (parent_clus, fs1) \<leftarrow> get_dir_cluster_number fuel meta parent fs;
          if parent_clus = 0 then Some (- ENOENT, buf, fs1)
          else do {
            (entry, fs2) \<leftarrow> get_entry_from_directory fuel meta parent_clus name False fs1;
            case entry of None \<Rightarrow> Some (- ENOENT, buf, fs2)
            | Some e \<Rightarrow>
                let start_clus = dirent_cluster e; fsize = de_file_size e in
                if fsize \<le> offset then Some (0, buf, fs2)
                else let n = (if fsize < offset + sz then fsize - offset else sz) in do {
                  (file_data, fs3) \<leftarrow> fat32_read_file fuel meta start_clus fsize fs2;
                  Some (n, blit buf 0 (slice file_data (unat offset) (unat n)), fs3)
                }
          }
        }))"

section \<open>Directory entries for user programs\<close>

text \<open>One \<open>linux_dirent64\<close> in the caller's buffer: the bytes after the name up to the record length are
  not written. The header is 24 bytes with its padding, the name starts at byte 19.\<close>

definition dirent64_reclen :: "bytes \<Rightarrow> u32" where
  "dirent64_reclen entry_name = (24 + strlen (Some entry_name) + 1 + 7) AND NOT 7"

definition put_dirent64 :: "u8 list \<Rightarrow> u32 \<Rightarrow> u32 \<Rightarrow> u8 \<Rightarrow> bytes \<Rightarrow> u8 list" where
  "put_dirent64 dirp bytes_written reclen d_type entry_name =
     blit dirp (unat bytes_written)
       ([1, 0, 0, 0, 0, 0, 0, 0] @ u32_bytes (bytes_written + reclen) @ [0, 0, 0, 0]
         @ u16_bytes (ucast reclen) @ [d_type] @ entry_name @ [0])"

definition skip_dirent :: "list_entry \<Rightarrow> bool" where
  "skip_dirent e \<longleftrightarrow> de_name (le_dirent e) ! 0 = 0xE5 \<or> de_attr (le_dirent e) AND 0x0F = 0x0F"

fun dirents_loop :: "list_entry list \<Rightarrow> u32 \<Rightarrow> u32 \<Rightarrow> u32 \<Rightarrow> u32 \<Rightarrow> u8 list \<Rightarrow> u32 \<times> u32 \<times> u8 list" where
  "dirents_loop [] count bytes_to_skip bytes_written fpos dirp = (bytes_written, fpos, dirp)"
| "dirents_loop (e # es) count bytes_to_skip bytes_written fpos dirp =
     (if skip_dirent e then dirents_loop es count bytes_to_skip bytes_written fpos dirp
      else let entry_name = translate_filename_fat_to_posix (de_name (le_dirent e));
               reclen = dirent64_reclen entry_name
      in if reclen \<le> bytes_to_skip then dirents_loop es count (bytes_to_skip - reclen) bytes_written fpos dirp
         else if count < bytes_written + reclen then (bytes_written, fpos, dirp)
         else dirents_loop es count bytes_to_skip (bytes_written + reclen) (fpos + reclen)
                (put_dirent64 dirp bytes_written reclen
                   (if de_attr (le_dirent e) AND 0x10 \<noteq> 0 then 4 else 8) entry_name))"

text \<open>\<open>f\<close> is the file \<open>fd_get\<close> found.\<close>

definition mount_get_dirents64 :: "nat \<Rightarrow> fat_meta \<Rightarrow> kfile option \<Rightarrow> u8 list \<Rightarrow> u32 \<Rightarrow> fs_state
    \<Rightarrow> (u32 \<times> kfile option \<times> u8 list \<times> fs_state) option" where
  "mount_get_dirents64 fuel meta f dirp count fs =
     (case f of None \<Rightarrow> Some (- EBADF, f, dirp, fs)
      | Some fl \<Rightarrow> do {
          p \<leftarrow> priv fl;
          de \<leftarrow> priv_dirent p;
          (entries, fs1) \<leftarrow> fat32_list_fat fuel meta (dirent_cluster de) fs;
          case dirents_loop entries count (pos fl) 0 (pos fl) dirp of (n, p', dirp') \<Rightarrow>
            Some (n, Some (fl\<lparr>pos := p'\<rparr>), dirp', fs1)
        })"

section \<open>Status\<close>

definition S_DIR :: u32 where "S_DIR = 0x41ED"
definition S_REG :: u32 where "S_REG = 0x81ED"

definition stat_base :: stat64 where
  "stat_base = zero_stat\<lparr>st_dev := 1, st_blksize := 512, st_nlink := 1, st_ino := 1, old_st_ino := 1\<rparr>"

definition mount_fstatat64 :: "nat \<Rightarrow> fat_meta \<Rightarrow> bytes \<Rightarrow> u32 \<Rightarrow> bytes \<Rightarrow> stat64 \<Rightarrow> fs_state
    \<Rightarrow> (u32 \<times> stat64 \<times> fs_state) option" where
  "mount_fstatat64 fuel meta cwd dirfd path statbuf fs =
     do {
       p \<leftarrow> init_path (dirfd = AT_FDCWD) cwd (Some path);
       let safe = safe_path p in
       if str_eq safe [47] then Some (0, stat_base\<lparr>st_mode := S_DIR\<rparr>, fs)
       else do {
         (entry, fs1) \<leftarrow> mount_get_dirent fuel meta cwd (Some safe) False False fs;
         Some (case entry of None \<Rightarrow> (- ENOENT, statbuf, fs1)
           | Some e \<Rightarrow> (0, stat_base\<lparr>st_size := ucast (de_file_size e), st_blocks := (ucast (de_file_size e) + 511) div 512,
                st_mode := if de_attr e AND 0x10 \<noteq> 0 then S_DIR else S_REG\<rparr>, fs1))
       }
     }"

section \<open>Opening\<close>

text \<open>A null path with the working directory writes past the terminator and then copies from null:
  \<open>memcpy\<close> takes one byte from address 0, so the path is the working directory, a slash and whatever
  address 0 holds; such a call has no value here.\<close>

definition mount_openat :: "nat \<Rightarrow> fat_meta \<Rightarrow> bytes \<Rightarrow> u32 \<Rightarrow> bytes option \<Rightarrow> u32 \<Rightarrow> fs_state
    \<Rightarrow> (u32 \<times> fs_state) option" where
  "mount_openat fuel meta cwd dfd path flgs fs =
     do {
       q \<leftarrow> path;
       p \<leftarrow> init_path (dfd = AT_FDCWD) cwd (Some q);
       let safe = safe_path p in
       if str_eq safe [47] then Some (bpb_root_clus (meta_bpb meta), fs)
       else (case split_path safe of (r, parent, name) \<Rightarrow>
         if r \<noteq> 0 then Some (- ENOENT, fs)
         else do {
           (parent_clus, fs1) \<leftarrow> get_dir_cluster_number fuel meta parent fs;
           (entry, fs2) \<leftarrow> get_entry_from_directory fuel meta parent_clus name False fs1;
           case entry of
             Some e \<Rightarrow> Some (parent_clus, fs2)
           | None \<Rightarrow>
               if flgs AND O_CREAT \<noteq> 0 then
                 (case translate_filename_posix_to_fat name of (t, fname) \<Rightarrow>
                   if t \<noteq> 0 then Some (- 22, fs2)
                   else do {
                     (w, fs3) \<leftarrow> fat32_write_file_create fuel meta parent_clus [] 0 fname fs2;
                     Some (parent_clus, fs3)
                   })
               else Some (- ENOENT, fs2)
         })
     }"

section \<open>Open files\<close>

definition mount_close :: "kfile \<Rightarrow> u32" where
  "mount_close f = 0"

definition mount_read :: "nat \<Rightarrow> fat_meta \<Rightarrow> kfile \<Rightarrow> u8 list \<Rightarrow> u32 \<Rightarrow> fs_state
    \<Rightarrow> (u32 \<times> kfile \<times> u8 list \<times> fs_state) option" where
  "mount_read fuel meta f buf n fs =
     do {
       p \<leftarrow> priv f;
       de \<leftarrow> priv_dirent p;
       let offset = pos f in
       if de_file_size de \<le> offset then Some (0, f, buf, fs)
       else let to_read = (if de_file_size de < offset + n then de_file_size de - offset else n) in do {
         (r, buf', fs1) \<leftarrow> fat32_read_file_with_offset fuel meta (dirent_cluster de) buf to_read offset fs;
         Some (to_read, f\<lparr>pos := pos f + to_read\<rparr>, buf', fs1)
       }
     }"

text \<open>The entry is looked up again after an update with its raw name; not finding it reboots.\<close>

definition mount_write :: "nat \<Rightarrow> fat_meta \<Rightarrow> kfile \<Rightarrow> u8 list \<Rightarrow> u32 \<Rightarrow> fs_state
    \<Rightarrow> (u32 \<times> kfile \<times> fs_state) option" where
  "mount_write fuel meta f buf n fs =
     do {
       p \<leftarrow> priv f;
       de \<leftarrow> priv_dirent p;
       let offset = pos f in do {
         (written, fs1) \<leftarrow> fat32_write_with_offset fuel meta (dirent_cluster de) buf n offset fs;
         let new_size = offset + written in
         if de_file_size de < new_size then do {
           pd \<leftarrow> priv_parent p;
           let de' = de\<lparr>de_file_size := new_size\<rparr> in do {
             (u, fs2) \<leftarrow> fat32_update_dirent fuel meta (dirent_cluster pd) (de_name de' @ [de_attr de']) de' fs1;
             (entry, fs3) \<leftarrow> get_entry_from_directory fuel meta (dirent_cluster pd) (de_name de' @ [de_attr de']) True fs2;
             fresh \<leftarrow> entry;
             Some (written, f\<lparr>priv := Some (p\<lparr>priv_dirent := Some fresh\<rparr>), pos := pos f + written\<rparr>, fs3)
           }
         }
         else Some (written, f\<lparr>pos := pos f + written\<rparr>, fs1)
       }
     }"

definition SEEK_SET :: u32 where "SEEK_SET = 0"
definition SEEK_CUR :: u32 where "SEEK_CUR = 1"
definition SEEK_END :: u32 where "SEEK_END = 2"

definition mount_lseek :: "kfile \<Rightarrow> u32 \<Rightarrow> u32 \<Rightarrow> (u32 \<times> kfile) option" where
  "mount_lseek f offset whence =
     (if whence = SEEK_SET then Some (offset, f\<lparr>pos := offset\<rparr>)
      else if whence = SEEK_CUR then Some (pos f + offset, f\<lparr>pos := pos f + offset\<rparr>)
      else if whence = SEEK_END then do {
        p \<leftarrow> priv f;
        de \<leftarrow> priv_dirent p;
        Some (de_file_size de + offset, f\<lparr>pos := de_file_size de + offset\<rparr>)
      }
      else Some (- 22, f))"

definition mount_ioctl :: "kfile \<Rightarrow> u32 \<Rightarrow> u32 \<Rightarrow> u32" where
  "mount_ioctl f cmd arg = - ENOSYS"

section \<open>Looking up: what the code computes\<close>

text \<open>Comparing with \<open>strn_eq\<close> stops at the end of the shorter string: an entry matches when its name
  without trailing spaces is a prefix of the name looked up.\<close>

definition clean_name :: "bytes \<Rightarrow> bool" where
  "clean_name n \<longleftrightarrow> length n = 11 \<and> 0 \<notin> set n"

lemma set_trim_spaces: "set (trim_spaces n) \<subseteq> set n"
  using set_dropWhileD [of _ "\<lambda>c. c = 32" "rev n"] by (auto simp: trim_spaces_def)

lemma length_trim_spaces: "length (trim_spaces n) \<le> length n"
  using length_dropWhile_le [of "\<lambda>c. c = 32" "rev n"] by (simp add: trim_spaces_def)

lemma trim_spaces_pad: "n = trim_spaces n @ replicate (length n - length (trim_spaces n)) 32"
proof -
  have "takeWhile (\<lambda>c. c = 32) (rev n) = replicate (length (takeWhile (\<lambda>c. c = 32) (rev n))) 32"
    by (intro replicate_eqI) (auto dest: set_takeWhileD)
  then obtain k where k: "takeWhile (\<lambda>c. c = 32) (rev n) = replicate k 32" by blast
  have "rev n = replicate k 32 @ dropWhile (\<lambda>c. c = 32) (rev n)" using takeWhile_dropWhile_id [of "\<lambda>c. c = 32" "rev n"] k by simp
  then have "n = trim_spaces n @ replicate k 32"
    by (metis rev_append rev_replicate rev_rev_ident trim_spaces_def)
  then have "length n = length (trim_spaces n) + k" by (metis length_append length_replicate)
  with \<open>n = trim_spaces n @ replicate k 32\<close> show ?thesis by simp
qed

lemma trim_spaces_inj: "length a = length b \<Longrightarrow> trim_spaces a = trim_spaces b \<longleftrightarrow> a = b"
  by (metis trim_spaces_pad)

lemma strn_eq_clean:
  assumes "0 \<notin> set a" "0 \<notin> set b" "length a \<le> n" "length a \<le> length b"
  shows "strn_eq a (b @ [0]) n \<longleftrightarrow> take (length a) b = a"
proof -
  have "cstring (b @ [0]) = b" using assms(2) by (induction b) auto
  then show ?thesis using assms cstring_id [OF assms(1)] by (auto simp: strn_eq_cstring Let_def min_def)
qed

lemma entry_match_prefix:
  assumes "clean_name (de_name (le_dirent e))" "clean_name f"
  shows "entry_match (f @ [0]) e \<longleftrightarrow> take (length (trim_spaces (de_name (le_dirent e)))) f = trim_spaces (de_name (le_dirent e))"
  using assms strn_eq_clean [of "trim_spaces (de_name (le_dirent e))" f 11]
    set_trim_spaces [of "de_name (le_dirent e)"] length_trim_spaces [of "de_name (le_dirent e)"]
  by (auto simp: entry_match_def clean_name_def)

lemma dir_match_name:
  assumes "clean_name (de_name (le_dirent e))" "clean_name f"
  shows "dir_match (f @ [0]) e \<longleftrightarrow> de_name (le_dirent e) = f \<and> \<not> skip_dirent e"
proof -
  have "strn_eq (de_name (le_dirent e) @ [0]) (f @ [0]) 11 \<longleftrightarrow> de_name (le_dirent e) = f"
  proof -
    have "cstring (f @ [0]) = f" "cstring (de_name (le_dirent e) @ [0]) = de_name (le_dirent e)"
      using assms by (auto simp: clean_name_def cstring_def takeWhile_append intro!: takeWhile_eq_all_conv [THEN iffD2])
    then show ?thesis using assms by (auto simp: strn_eq_cstring clean_name_def)
  qed
  then show ?thesis by (auto simp: dir_match_def skip_dirent_def)
qed

section \<open>The directory tree on the volume\<close>

text \<open>A directory at cluster \<open>c\<close> lists \<open>es\<close>: its chain is well formed, within the fuel, and the names in it
  have no NUL. A path of component names leads to a cluster when each component is the first live entry
  with that name in the directory before it.\<close>

definition dir_lists :: "nat \<Rightarrow> fat_meta \<Rightarrow> (u32 \<Rightarrow> u8 list) \<Rightarrow> u32 \<Rightarrow> list_entry list \<Rightarrow> bool" where
  "dir_lists fuel meta d c es \<longleftrightarrow>
     (\<exists>cs. file_chain meta d c cs \<and> length cs \<le> fuel \<and> es = concat (map (dir_entries meta d) cs))
     \<and> (\<forall>e \<in> set es. clean_name (de_name (le_dirent e)))"

definition named :: "bytes \<Rightarrow> list_entry \<Rightarrow> bool" where
  "named f e \<longleftrightarrow> de_name (le_dirent e) = f \<and> \<not> skip_dirent e"

inductive leads_to :: "nat \<Rightarrow> fat_meta \<Rightarrow> (u32 \<Rightarrow> u8 list) \<Rightarrow> bytes list \<Rightarrow> u32 \<Rightarrow> bool"
  for fuel :: nat and meta :: fat_meta and d :: "u32 \<Rightarrow> u8 list" where
  root: "leads_to fuel meta d [] (bpb_root_clus (meta_bpb meta))"
| child: "leads_to fuel meta d ds c \<Longrightarrow> c \<noteq> 0 \<Longrightarrow> dir_lists fuel meta d c es \<Longrightarrow> comp_ok n \<Longrightarrow> n \<noteq> []
     \<Longrightarrow> translate_filename_posix_to_fat n = (0, f @ [0]) \<Longrightarrow> clean_name f \<Longrightarrow> find (named f) es = Some e
     \<Longrightarrow> leads_to fuel meta d (ds @ [n]) (dirent_cluster (le_dirent e))"

lemma list_fat_law:
  assumes "coherent fs" "dir_lists fuel meta (disk fs) c es"
  obtains fs' where "fat32_list_fat fuel meta c fs = Some (es, fs')" "disk fs' = disk fs" "coherent fs'"
proof -
  obtain cs where "file_chain meta (disk fs) c cs" "length cs \<le> fuel" "es = concat (map (dir_entries meta (disk fs)) cs)"
    using assms(2) by (auto simp: dir_lists_def)
  then show ?thesis using that list_fat_loop_law [OF assms(1), of meta c cs fuel "[]"] by (auto simp: fat32_list_fat_def)
qed

lemma find_dir_match:
  assumes "dir_lists fuel meta d c es" "clean_name f"
  shows "find (dir_match (f @ [0])) es = find (named f) es"
proof (rule find_cong [OF refl])
  fix e assume "e \<in> set es"
  then have "clean_name (de_name (le_dirent e))" using assms(1) by (simp add: dir_lists_def)
  then show "dir_match (f @ [0]) e = named f e" using dir_match_name [OF _ assms(2)] by (simp add: named_def)
qed

definition path_string :: "bytes list \<Rightarrow> bytes" where
  "path_string ds = (if ds = [] then [47] else render ds)"

lemma render_no_nul: "\<forall>c \<in> set ds. comp_ok c \<Longrightarrow> 0 \<notin> set (render ds)"
  by (induction ds) (auto simp: comp_ok_def)

lemma str_eq_slash: "0 \<notin> set p \<Longrightarrow> str_eq p [47] \<longleftrightarrow> p = [47]"
  by (simp add: str_eq_cstring cstring_id)

lemma render_nonempty: "n \<noteq> [] \<Longrightarrow> render (ds @ [n]) \<noteq> [47]"
  by (cases ds) (auto simp: render_append)

lemma split_path_render:
  assumes "\<forall>c \<in> set ds. comp_ok c" "comp_ok n" "n \<noteq> []"
  shows "\<not> str_eq (render (ds @ [n])) [47]" "split_path (render (ds @ [n])) = (0, path_string ds, n)"
proof -
  have z: "0 \<notin> set (render (ds @ [n]))" using assms(1,2) by (intro render_no_nul) auto
  show ne: "\<not> str_eq (render (ds @ [n])) [47]" using str_eq_slash [OF z] render_nonempty [OF assms(3)] by simp
  have "strrchr (Some (render (ds @ [n]))) 47 = Some (length (render ds))"
    using strrchr_last [of "render ds" 47 n] render_no_nul [OF assms(1)] assms(2)
    by (simp add: strrchr_def render_append comp_ok_def)
  then show "split_path (render (ds @ [n])) = (0, path_string ds, n)"
    using ne by (cases ds) (simp_all add: split_path_def path_string_def render_append)
qed

lemma leads_to_comps: "leads_to fuel meta d ds c \<Longrightarrow> \<forall>n \<in> set ds. comp_ok n"
  by (induction rule: leads_to.induct) auto

lemma length_render_append: "length (render (ds @ [n])) = length (render ds) + length n + 1"
  by (simp add: render_append)

lemma get_dir_cluster_law:
  assumes "leads_to fuel meta (disk fs) ds c" "coherent fs" "length (render ds) < 256"
  obtains fs' where "get_dir_cluster_number fuel meta (path_string ds) fs = Some (c, fs')" "disk fs' = disk fs" "coherent fs'"
proof -
  have "\<exists>fs'. get_dir_cluster_number fuel meta (path_string ds) fs = Some (c, fs') \<and> disk fs' = disk fs \<and> coherent fs'"
    using assms(1,3)
  proof (induction rule: leads_to.induct)
    case root
    then show ?case using assms(2) by (simp add: get_dir_cluster_number.simps path_string_def)
  next
    case (child ds c es n f e)
    have l: "length (render ds) < 256" "length n < 256" using child.prems by (simp_all add: length_render_append)
    then have lp: "length (path_string ds) < 256" by (simp add: path_string_def)
    obtain fs1 where fs1: "get_dir_cluster_number fuel meta (path_string ds) fs = Some (c, fs1)" "disk fs1 = disk fs" "coherent fs1"
      using child.IH [OF l(1)] by blast
    obtain fs2 where fs2: "fat32_list_fat fuel meta c fs1 = Some (es, fs2)" "disk fs2 = disk fs1" "coherent fs2"
      using list_fat_law [OF fs1(3)] child.hyps(3) fs1(2) by metis
    have "path_string (ds @ [n]) = render (ds @ [n])" by (simp add: path_string_def)
    then show ?case
      using split_path_render [OF leads_to_comps [OF child.hyps(1)] child.hyps(4,5)] lp l(2) fs1 fs2 child.hyps(2,6,8)
        find_dir_match [OF child.hyps(3,7)]
      by (simp add: get_dir_cluster_number.simps [of _ _ "render (ds @ [n])"])
  qed
  then show ?thesis using that by blast
qed

text \<open>The first entry whose name without trailing spaces is a prefix of the name looked up.\<close>

definition shadows :: "bytes \<Rightarrow> list_entry \<Rightarrow> bool" where
  "shadows f e \<longleftrightarrow> take (length (trim_spaces (de_name (le_dirent e)))) f = trim_spaces (de_name (le_dirent e))"

lemma get_entry_law:
  assumes "coherent fs" "dir_lists fuel meta (disk fs) c es" "translate_filename_posix_to_fat n = (0, f @ [0])" "clean_name f"
  obtains fs' where "get_entry_from_directory fuel meta c n False fs = Some (map_option le_dirent (find (shadows f) es), fs')"
    "disk fs' = disk fs" "coherent fs'"
proof -
  obtain fs' where fs': "fat32_list_fat fuel meta c fs = Some (es, fs')" "disk fs' = disk fs" "coherent fs'"
    using list_fat_law [OF assms(1,2)] .
  have "find (entry_match (f @ [0])) es = find (shadows f) es"
  proof (rule find_cong [OF refl])
    fix e assume "e \<in> set es"
    then have "clean_name (de_name (le_dirent e))" using assms(2) by (simp add: dir_lists_def)
    then show "entry_match (f @ [0]) e = shadows f e" using entry_match_prefix [OF _ assms(4)] by (simp add: shadows_def)
  qed
  then show ?thesis using that [OF _ fs'(2,3)] fs'(1) assms(3) by (simp add: get_entry_from_directory_def)
qed

lemma shadows_exact:
  assumes "clean_name f" "clean_name (de_name (le_dirent e))" "trim_spaces (de_name (le_dirent e)) = trim_spaces f"
  shows "de_name (le_dirent e) = f"
  using assms trim_spaces_inj [of "de_name (le_dirent e)" f] by (simp add: clean_name_def)

lemma shadows_self: "de_name (le_dirent e) = f \<Longrightarrow> shadows f e"
  by (metis append_eq_conv_conj shadows_def trim_spaces_pad)

section \<open>Looking a path up\<close>

lemma mount_get_dirent_law:
  assumes "coherent fs" "\<forall>c \<in> set cs. comp_ok c" "resolve cs = ds @ [n]" "n \<noteq> []" "length (render cs) < 256"
    "\<forall>c \<in> set (ds @ [n]). comp_ok c" "length (render ds) < 256"
    "leads_to fuel meta (disk fs) ds c" "c \<noteq> 0" "dir_lists fuel meta (disk fs) c es"
    "translate_filename_posix_to_fat n = (0, f @ [0])" "clean_name f"
  obtains fs' where "mount_get_dirent fuel meta cwd (Some (render cs)) False False fs
      = Some (map_option le_dirent (find (shadows f) es), fs')" "disk fs' = disk fs" "coherent fs'"
proof -
  have sp: "safe_path (render cs) = render (ds @ [n])" using safe_path_render [OF assms(2)] assms(3) by simp
  have "\<forall>c \<in> set ds. comp_ok c" "comp_ok n" using assms(6) by simp_all
  note split = split_path_render [OF this assms(4)]
  obtain fs1 where fs1: "get_dir_cluster_number fuel meta (path_string ds) fs = Some (c, fs1)" "disk fs1 = disk fs" "coherent fs1"
    using get_dir_cluster_law [OF assms(8,1,7)] .
  obtain fs2 where fs2: "get_entry_from_directory fuel meta c n False fs1 = Some (map_option le_dirent (find (shadows f) es), fs2)"
    "disk fs2 = disk fs1" "coherent fs2"
    using get_entry_law [OF fs1(3) _ assms(11,12)] assms(10) fs1(2) by metis
  show ?thesis
    using that [OF _ _ fs2(3)] fs1 fs2 assms(5,9) split
    by (simp add: mount_get_dirent_def init_path_def sp)
qed

lemma comp_ok_resolve: "\<forall>c \<in> set cs. comp_ok c \<Longrightarrow> c \<in> set (resolve cs) \<Longrightarrow> comp_ok c"
  using foldl_pop_push_in [of c "[]" "filter (\<lambda>c. c \<noteq> [46]) (drop_empty cs)"] drop_empty_subset [of cs]
  unfolding resolve_def by auto

lemma length_render_pop: "length (render (foldl pop_push st cs)) \<le> length (render st) + length (render cs)"
proof (induction cs arbitrary: st)
  case (Cons c cs)
  have b: "length (render (butlast st)) \<le> length (render st)"
    by (cases st rule: rev_cases) (simp_all add: length_render_append)
  have "length (render (pop_push st c)) \<le> length (render st) + length (render [c])"
    using b by (simp add: pop_push_def length_render_append)
  then show ?case using Cons [of "pop_push st c"] by simp
qed simp

lemma length_render_filter: "length (render (filter P cs)) \<le> length (render cs)"
  by (induction cs) simp_all

lemma length_render_drop_empty: "length (render (drop_empty cs)) \<le> length (render cs)"
  by (induction cs rule: drop_empty.induct) (auto intro: le_SucI)

lemma length_render_resolve: "length (render (resolve cs)) \<le> length (render cs)"
  using length_render_pop [of "[]" "filter (\<lambda>c. c \<noteq> [46]) (drop_empty cs)"]
    length_render_filter [of "\<lambda>c. c \<noteq> [46]" "drop_empty cs"] length_render_drop_empty [of cs]
  by (simp add: resolve_def)

text \<open>C15: looking up an absolute path. When the path's components resolve to the directories \<open>ds\<close> and a last
  name, \<open>ds\<close> leads to the directory at \<open>c\<close> on the volume and \<open>c\<close> lists \<open>es\<close>, \<open>mount_get_dirent\<close> returns
  the first entry of \<open>es\<close> whose name without trailing spaces is a prefix of the 8.3 name looked up, or
  null when there is none. When no entry of the directory has a proper prefix of the name as its name,
  that is the entry with exactly this name. The volume is not changed.\<close>
theorem mount_get_dirent_finds:
  assumes "coherent fs" "\<forall>c \<in> set cs. comp_ok c" "resolve cs = ds @ [n]" "n \<noteq> []" "length (render cs) < 256"
    "leads_to fuel meta (disk fs) ds c" "c \<noteq> 0" "dir_lists fuel meta (disk fs) c es"
    "translate_filename_posix_to_fat n = (0, f @ [0])" "clean_name f"
  shows "\<exists>fs'. mount_get_dirent fuel meta cwd (Some (render cs)) False False fs
      = Some (map_option le_dirent (find (shadows f) es), fs') \<and> disk fs' = disk fs \<and> coherent fs'
    \<and> ((\<forall>e \<in> set es. shadows f e \<longrightarrow> trim_spaces (de_name (le_dirent e)) = trim_spaces f) \<longrightarrow>
        find (shadows f) es = find (\<lambda>e. de_name (le_dirent e) = f) es)"
proof -
  have "length (render ds) < 256" using length_render_resolve [of cs] assms(3,5) by (simp add: length_render_append)
  moreover have "\<forall>c \<in> set (ds @ [n]). comp_ok c" using comp_ok_resolve [OF assms(2)] assms(3) by simp
  moreover have "find (shadows f) es = find (\<lambda>e. de_name (le_dirent e) = f) es"
    if "\<forall>e \<in> set es. shadows f e \<longrightarrow> trim_spaces (de_name (le_dirent e)) = trim_spaces f"
    using that assms(8,10) shadows_exact [of f] shadows_self by (intro find_cong) (auto simp: dir_lists_def)
  ultimately show ?thesis using mount_get_dirent_law [OF assms(1-5) _ _ assms(6-10)] by metis
qed

section \<open>A small tree\<close>

text \<open>A volume whose root directory (cluster 2) holds the directory \<open>BIN\<close> (cluster 3), which holds \<open>SH.ELF\<close>
  of 700 bytes in cluster 4.\<close>

definition bin_entry :: fat_dirent where
  "bin_entry = \<lparr>de_name = [66, 73, 78] @ replicate 8 32, de_attr = 0x10, de_ntres = 0, de_crt_time_tenth = 0,
     de_crt_time = 0, de_crt_date = 0, de_lst_acc_date = 0, de_fst_clus_hi = 0, de_wrt_time = 0, de_wrt_date = 0,
     de_fst_clus_lo = 3, de_file_size = 0\<rparr>"

definition sh_entry :: fat_dirent where
  "sh_entry = \<lparr>de_name = [83, 72, 32, 32, 32, 32, 32, 32, 69, 76, 70], de_attr = 0x20, de_ntres = 0, de_crt_time_tenth = 0,
     de_crt_time = 0, de_crt_date = 0, de_lst_acc_date = 0, de_fst_clus_hi = 0, de_wrt_time = 0, de_wrt_date = 0,
     de_fst_clus_lo = 4, de_file_size = 700\<rparr>"

definition tree_blocks :: "u32 \<Rightarrow> u8 list" where
  "tree_blocks b = (if b = 1 then replicate 8 0 @ [0xFF, 0xFF, 0xFF, 0x0F, 0xFF, 0xFF, 0xFF, 0x0F, 0xFF, 0xFF, 0xFF, 0x0F] @ replicate 492 0
     else if b = 2 then dirent_bytes bin_entry @ replicate 480 0
     else if b = 4 then dirent_bytes sh_entry @ replicate 480 0
     else replicate 512 (ucast b))"

definition tree_fs :: fs_state where
  "tree_fs = blank_fs\<lparr>dev := blank_device\<lparr>sd_card := (sd_card blank_device)\<lparr>blocks := tree_blocks\<rparr>\<rparr>\<rparr>"

lemma tree_disk: "disk tree_fs = tree_blocks"
  by (simp add: disk_def tree_fs_def)

lemma tree_coherent: "coherent tree_fs"
proof -
  have "length (tree_blocks b) = 512" for b
    by (simp add: tree_blocks_def bin_entry_def sh_entry_def)
  then show ?thesis by (simp add: coherent_def tree_fs_def blank_fs_def blank_device_def emmc_ok_def)
qed

lemma tree_next: "next_of small_meta tree_blocks 2 = 0x0FFFFFFF" "next_of small_meta tree_blocks 3 = 0x0FFFFFFF"
    "next_of small_meta tree_blocks 4 = 0x0FFFFFFF"
  by code_simp+

lemma tree_chain: "file_chain small_meta tree_blocks 2 [2]" "file_chain small_meta tree_blocks 3 [3]" "file_chain small_meta tree_blocks 4 [4]"
  by (simp_all add: file_chain_simps tree_next small_data_ok)

lemma tree_entries: "dir_entries small_meta tree_blocks 2 = [\<lparr>le_dirent = bin_entry, le_lfn_count = 0\<rparr>]"
    "dir_entries small_meta tree_blocks 3 = [\<lparr>le_dirent = sh_entry, le_lfn_count = 0\<rparr>]"
  by code_simp+

lemma tree_lists: "dir_lists 1 small_meta tree_blocks 2 [\<lparr>le_dirent = bin_entry, le_lfn_count = 0\<rparr>]"
    "dir_lists 1 small_meta tree_blocks 3 [\<lparr>le_dirent = sh_entry, le_lfn_count = 0\<rparr>]"
proof -
  have c: "clean_name (de_name bin_entry)" "clean_name (de_name sh_entry)"
    by (simp_all add: clean_name_def bin_entry_def sh_entry_def)
  show "dir_lists 1 small_meta tree_blocks 2 [\<lparr>le_dirent = bin_entry, le_lfn_count = 0\<rparr>]"
    using tree_chain(1) c by (auto simp: dir_lists_def tree_entries intro!: exI [of _ "[2]"])
  show "dir_lists 1 small_meta tree_blocks 3 [\<lparr>le_dirent = sh_entry, le_lfn_count = 0\<rparr>]"
    using tree_chain(2) c by (auto simp: dir_lists_def tree_entries intro!: exI [of _ "[3]"])
qed

lemma tree_bin: "leads_to 1 small_meta tree_blocks [[98, 105, 110]] 3"
proof -
  have t: "translate_filename_posix_to_fat [98, 105, 110] = (0, ([66, 73, 78] @ replicate 8 32) @ [0])" by code_simp
  have r: "leads_to 1 small_meta tree_blocks [] 2"
    using leads_to.root [of 1 small_meta tree_blocks] by (simp add: small_meta_def small_bpb_def)
  have "leads_to 1 small_meta tree_blocks ([] @ [[98, 105, 110]]) (dirent_cluster (le_dirent \<lparr>le_dirent = bin_entry, le_lfn_count = 0\<rparr>))"
    by (rule leads_to.child [OF r _ tree_lists(1) _ _ t]) (simp_all add: comp_ok_def clean_name_def named_def skip_dirent_def bin_entry_def)
  then show ?thesis by (simp add: dirent_cluster_def bin_entry_def)
qed

text \<open>\<open>/bin//../bin/sh.elf\<close>.\<close>

theorem mount_get_dirent_finds_witness:
  "\<exists>fs'. mount_get_dirent 1 small_meta [47] (Some [47, 98, 105, 110, 47, 47, 46, 46, 47, 98, 105, 110, 47, 115, 104, 46, 101, 108, 102]) False False tree_fs
     = Some (Some sh_entry, fs')"
proof -
  let ?cs = "[[98, 105, 110], [], [46, 46], [98, 105, 110], [115, 104, 46, 101, 108, 102]] :: bytes list"
  have ok: "\<forall>c \<in> set ?cs. comp_ok c" by (simp add: comp_ok_def)
  have r: "resolve ?cs = [[98, 105, 110]] @ [[115, 104, 46, 101, 108, 102]]"
    "render ?cs = [47, 98, 105, 110, 47, 47, 46, 46, 47, 98, 105, 110, 47, 115, 104, 46, 101, 108, 102]" by code_simp+
  have t: "translate_filename_posix_to_fat [115, 104, 46, 101, 108, 102] = (0, de_name sh_entry @ [0])" by code_simp
  have "shadows (de_name sh_entry) \<lparr>le_dirent = sh_entry, le_lfn_count = 0\<rparr>" by (rule shadows_self) simp
  then have f: "find (shadows (de_name sh_entry)) [\<lparr>le_dirent = sh_entry, le_lfn_count = 0\<rparr>] = Some \<lparr>le_dirent = sh_entry, le_lfn_count = 0\<rparr>" by simp
  have "clean_name (de_name sh_entry)" by (simp add: clean_name_def sh_entry_def)
  from mount_get_dirent_finds [OF tree_coherent ok r(1) _ _ tree_bin [folded tree_disk] _ tree_lists(2) [folded tree_disk] t this, of "[47]"]
  show ?thesis unfolding f r(2) by auto
qed

text \<open>An entry \<open>A\<close> before an entry \<open>AB\<close> is found when \<open>AB\<close> is looked up.\<close>

lemma prefix_entry_shadows:
  "entry_match [65, 66, 32, 32, 32, 32, 32, 32, 32, 32, 32, 0] \<lparr>le_dirent = sh_entry\<lparr>de_name := 65 # replicate 10 32\<rparr>, le_lfn_count = 0\<rparr>"
  by code_simp

section \<open>Reading and writing an open file\<close>

text \<open>The contents of a file: the first \<open>file_size\<close> bytes along its chain. \<open>opened\<close> says that an open file's
  entry describes the chain \<open>cs\<close>.\<close>

definition file_bytes :: "fat_meta \<Rightarrow> (u32 \<Rightarrow> u8 list) \<Rightarrow> u32 list \<Rightarrow> fat_dirent \<Rightarrow> u8 list" where
  "file_bytes meta d cs de = take (unat (de_file_size de)) (file_content meta d cs)"

definition opened :: "fat_meta \<Rightarrow> (u32 \<Rightarrow> u8 list) \<Rightarrow> kfile \<Rightarrow> fat_dirent \<Rightarrow> u32 list \<Rightarrow> bool" where
  "opened meta d f de cs \<longleftrightarrow> (case priv f of None \<Rightarrow> False | Some p \<Rightarrow> priv_dirent p = Some de)
     \<and> file_chain meta d (dirent_cluster de) cs \<and> unat (de_file_size de) \<le> length (file_content meta d cs)"

lemma opened_pos [simp]: "opened meta d (f\<lparr>pos := q\<rparr>) de cs = opened meta d f de cs"
  by (simp add: opened_def)

lemma mount_read_law:
  assumes "coherent fs" "geom_ok meta" "opened meta (disk fs) f de cs" "unat n \<le> length buf"
    "unat n + 512 * spc meta < 2 ^ 32" "unat (pos f) + unat n < 2 ^ 32"
  defines "k \<equiv> min (unat n) (unat (de_file_size de) - unat (pos f))"
  obtains fs' where "mount_read (length cs) meta f buf n fs
      = Some (of_nat k, f\<lparr>pos := pos f + of_nat k\<rparr>, blit buf 0 (slice (file_bytes meta (disk fs) cs de) (unat (pos f)) k), fs')"
    "disk fs' = disk fs" "coherent fs'"
proof -
  obtain p where p: "priv f = Some p" "priv_dirent p = Some de" using assms(3) by (auto simp: opened_def split: option.splits)
  have ch: "file_chain meta (disk fs) (dirent_cluster de) cs" "unat (de_file_size de) \<le> length (file_content meta (disk fs) cs)"
    using assms(3) by (simp_all add: opened_def)
  show ?thesis
  proof (cases "de_file_size de \<le> pos f")
    case True
    then have "k = 0" by (simp add: k_def word_le_nat_alt)
    then show ?thesis using that [of fs] p True assms(1) by (simp add: mount_read_def slice_def blit_def)
  next
    case False
    then have lt: "unat (pos f) < unat (de_file_size de)" by (simp add: word_le_nat_alt)
    define m where "m = (if de_file_size de < pos f + n then de_file_size de - pos f else n)"
    have a: "unat (pos f + n) = unat (pos f) + unat n" using assms(6) by (intro unat_add_no_wrap) simp
    have m: "unat m = k" using lt a unat_sub_le [of "pos f" "de_file_size de"]
      by (simp add: m_def k_def word_less_nat_alt word_le_nat_alt)
    have mn: "unat m \<le> unat n" unfolding m k_def by simp
    have mb: "unat m \<le> length buf" "unat m + 512 * spc meta < 2 ^ 32" using mn assms(4,5) by linarith+
    have ob: "unat (pos f) \<le> length (file_content meta (disk fs) cs)" using lt ch(2) by linarith
    obtain r fs' where r: "fat32_read_file_with_offset (length cs) meta (dirent_cluster de) buf m (pos f) fs
        = Some (r, blit buf 0 (slice (file_content meta (disk fs) cs) (unat (pos f))
            (min (unat m) (length (file_content meta (disk fs) cs) - unat (pos f)))), fs')" "disk fs' = disk fs" "coherent fs'"
      using read_with_offset_law [OF assms(1,2) ch(1) mb ob] unfolding Let_def by blast
    have "min (unat m) (length (file_content meta (disk fs) cs) - unat (pos f)) = k"
      using lt ch(2) unfolding m by (simp add: k_def)
    moreover have "slice (file_content meta (disk fs) cs) (unat (pos f)) k = slice (file_bytes meta (disk fs) cs de) (unat (pos f)) k"
      using lt unfolding file_bytes_def slice_def k_def by (simp add: drop_take min_def)
    moreover have mk: "m = of_nat k" by (simp flip: m)
    moreover have "mount_read (length cs) meta f buf n fs = Some (m, f\<lparr>pos := pos f + m\<rparr>,
        blit buf 0 (slice (file_content meta (disk fs) cs) (unat (pos f))
            (min (unat m) (length (file_content meta (disk fs) cs) - unat (pos f)))), fs')"
      using r(1) p False by (simp add: mount_read_def Let_def flip: m_def)
    ultimately show ?thesis using that [OF _ r(2,3)] by simp
  qed
qed

text \<open>A client that reads a file in pieces of \<open>n\<close> bytes until a read returns nothing.\<close>

fun read_until_eof :: "nat \<Rightarrow> nat \<Rightarrow> fat_meta \<Rightarrow> kfile \<Rightarrow> u32 \<Rightarrow> fs_state \<Rightarrow> (u8 list \<times> kfile \<times> fs_state) option" where
  "read_until_eof 0 fuel meta f n fs = None"
| "read_until_eof (Suc calls) fuel meta f n fs = do {
     (r, f', buf, fs') \<leftarrow> mount_read fuel meta f (replicate (unat n) 0) n fs;
     if r = 0 then Some ([], f', fs')
     else do {
       (rest, f'', fs'') \<leftarrow> read_until_eof calls fuel meta f' n fs';
       Some (take (unat r) buf @ rest, f'', fs'')
     }
   }"

lemma unat_of_nat_le: "k \<le> unat (w :: u32) \<Longrightarrow> unat (of_nat k :: u32) = k"
  by (intro unat_of_nat_u32 le_less_trans [OF _ unat_less_2p32 [of w]])

lemma read_until_eof_law:
  "coherent fs \<Longrightarrow> geom_ok meta \<Longrightarrow> opened meta (disk fs) f de cs \<Longrightarrow> 0 < n \<Longrightarrow> unat n + 512 * spc meta < 2 ^ 32 \<Longrightarrow>
   unat (de_file_size de) + unat n < 2 ^ 32 \<Longrightarrow> unat (pos f) \<le> unat (de_file_size de) \<Longrightarrow>
   unat (de_file_size de) - unat (pos f) \<le> calls * unat n \<Longrightarrow>
   \<exists>fs'. read_until_eof (Suc calls) (length cs) meta f n fs
       = Some (drop (unat (pos f)) (file_bytes meta (disk fs) cs de), f\<lparr>pos := de_file_size de\<rparr>, fs')
     \<and> disk fs' = disk fs \<and> coherent fs'"
proof (induction calls arbitrary: f fs)
  case (0 f fs)
  then have p: "unat (pos f) = unat (de_file_size de)" by simp
  have nb: "unat n \<le> length (replicate (unat n) (0 :: u8))" "unat (pos f) + unat n < 2 ^ 32" using 0 by simp_all
  obtain fs' where r: "mount_read (length cs) meta f (replicate (unat n) 0) n fs
      = Some (of_nat (min (unat n) (unat (de_file_size de) - unat (pos f))), f\<lparr>pos := pos f + of_nat (min (unat n) (unat (de_file_size de) - unat (pos f)))\<rparr>,
          blit (replicate (unat n) 0) 0 (slice (file_bytes meta (disk fs) cs de) (unat (pos f)) (min (unat n) (unat (de_file_size de) - unat (pos f)))), fs')"
    "disk fs' = disk fs" "coherent fs'"
    using mount_read_law [OF 0(1-3) nb(1) 0(5) nb(2)] .
  have "pos f = de_file_size de" using p by (simp add: u32_eq_nat_iff)
  then have "f = f\<lparr>pos := de_file_size de\<rparr>" by simp
  moreover have "drop (unat (pos f)) (file_bytes meta (disk fs) cs de) = []" using p by (simp add: file_bytes_def)
  ultimately show ?case using r p by simp
next
  case (Suc calls f fs)
  let ?k = "min (unat n) (unat (de_file_size de) - unat (pos f))"
  let ?B = "file_bytes meta (disk fs) cs de"
  have nb: "unat n \<le> length (replicate (unat n) (0 :: u8))" "unat (pos f) + unat n < 2 ^ 32" using Suc.prems(6,7) by simp_all
  obtain fs1 where r: "mount_read (length cs) meta f (replicate (unat n) 0) n fs
      = Some (of_nat ?k, f\<lparr>pos := pos f + of_nat ?k\<rparr>, blit (replicate (unat n) 0) 0 (slice ?B (unat (pos f)) ?k), fs1)"
    "disk fs1 = disk fs" "coherent fs1"
    using mount_read_law [OF Suc.prems(1-3) nb(1) Suc.prems(5) nb(2)] .
  have k: "unat (of_nat ?k :: u32) = ?k" by (rule unat_of_nat_le [of _ n]) simp
  have lB: "length ?B = unat (de_file_size de)" using Suc.prems(3) by (simp add: file_bytes_def opened_def)
  show ?case
  proof (cases "unat (pos f) = unat (de_file_size de)")
    case True
    then have "pos f = de_file_size de" by (simp add: u32_eq_nat_iff)
    then have "f = f\<lparr>pos := de_file_size de\<rparr>" by simp
    then show ?thesis using r True lB by simp
  next
    case False
    then have kp: "0 < ?k" using Suc.prems(4,7) by (simp add: word_less_nat_alt)
    then have nz: "(of_nat ?k :: u32) \<noteq> 0" using k by (metis less_irrefl unsigned_0)
    let ?f = "f\<lparr>pos := pos f + of_nat ?k\<rparr>"
    have "unat (pos f) + unat (of_nat ?k :: u32) < 4294967296"
      unfolding k using Suc.prems(7) unat_less_2p32 [of "de_file_size de"] by linarith
    then have up: "unat (pos ?f) = unat (pos f) + ?k" using k by (simp add: unat_add_no_wrap)
    have le: "unat (pos ?f) \<le> unat (de_file_size de)" unfolding up using Suc.prems(7) by simp
    have rem: "unat (de_file_size de) - unat (pos ?f) \<le> calls * unat n" unfolding up using Suc.prems(8) by (auto simp: min_def)
    have op: "opened meta (disk fs1) ?f de cs" using Suc.prems(3) r(2) by simp
    obtain fs2 where fs2: "read_until_eof (Suc calls) (length cs) meta ?f n fs1
        = Some (drop (unat (pos ?f)) (file_bytes meta (disk fs1) cs de), ?f\<lparr>pos := de_file_size de\<rparr>, fs2)"
      "disk fs2 = disk fs1" "coherent fs2"
      using Suc.IH [OF r(3) Suc.prems(2) op Suc.prems(4-6) le rem] by blast
    have t: "take ?k (blit (replicate (unat n) 0) 0 (slice ?B (unat (pos f)) ?k)) = take ?k (drop (unat (pos f)) ?B)"
      using lB by (simp add: blit_def slice_def)
    have app: "take ?k (drop (unat (pos f)) ?B) @ drop (unat (pos f) + ?k) ?B = drop (unat (pos f)) ?B"
      using append_take_drop_id [of ?k "drop (unat (pos f)) ?B"] by (simp only: drop_drop add.commute)
    define k where "k = ?k"
    note r' = r [folded k_def] and fs2' = fs2 [folded k_def] and t' = t [folded k_def] and app' = app [folded k_def]
    have "read_until_eof (Suc (Suc calls)) (length cs) meta f n fs = Some (take (unat (of_nat k :: u32))
        (blit (replicate (unat n) 0) 0 (slice ?B (unat (pos f)) k)) @ drop (unat (pos f) + k) ?B, f\<lparr>pos := de_file_size de\<rparr>, fs2)"
      using nz up r'(2) unfolding read_until_eof.simps(2) [of "Suc calls"] r'(1) k_def [symmetric]
      by (simp add: fs2'(1) del: read_until_eof.simps)
    then show ?thesis using fs2(2,3) r(2) t' app' k [folded k_def] by (simp del: read_until_eof.simps)
  qed
qed

text \<open>C16: reading an open file to the end. A client that starts at the beginning and reads pieces of any
  positive size until a read returns 0 obtains exactly the bytes of the file, in order, after at most
  the number of pieces plus one calls; the volume is not changed.\<close>
theorem read_until_eof_whole:
  assumes "coherent fs" "geom_ok meta" "opened meta (disk fs) f de cs" "pos f = 0" "0 < n"
    "unat n + 512 * spc meta < 2 ^ 32" "unat (de_file_size de) + unat n < 2 ^ 32" "unat (de_file_size de) \<le> calls * unat n"
  shows "\<exists>fs'. read_until_eof (Suc calls) (length cs) meta f n fs
       = Some (file_bytes meta (disk fs) cs de, f\<lparr>pos := de_file_size de\<rparr>, fs')
     \<and> disk fs' = disk fs \<and> coherent fs'"
  using read_until_eof_law [OF assms(1-3,5-7), of calls] assms(4,8) by simp

definition sh_file :: kfile where
  "sh_file = \<lparr>refcnt = 1, flags = 0, pos = 0, priv = Some \<lparr>priv_dirent = Some sh_entry, priv_parent = Some bin_entry\<rparr>, ops = MountOps\<rparr>"

lemma sh_cluster: "dirent_cluster sh_entry = 4"
  by (simp add: dirent_cluster_def sh_entry_def)

lemma sh_opened: "opened small_meta (disk tree_fs) sh_file sh_entry [4]"
  using tree_chain(3) length_file_content [OF tree_coherent, of small_meta "[4]"]
  by (simp add: opened_def sh_file_def sh_cluster tree_disk) (simp add: sh_entry_def small_meta_def)

theorem read_until_eof_whole_witness:
  "\<exists>fs'. read_until_eof 8 1 small_meta sh_file 100 tree_fs
     = Some (take 700 (file_content small_meta (disk tree_fs) [4]), sh_file\<lparr>pos := 700\<rparr>, fs')"
proof -
  have s: "de_file_size sh_entry = 700" by (simp add: sh_entry_def)
  have "unat (100 :: u32) + 512 * spc small_meta < 2 ^ 32" "pos sh_file = 0" by (simp_all add: small_meta_def sh_file_def)
  then show ?thesis
    using read_until_eof_whole [OF tree_coherent small_geom sh_opened, of 100 7] by (simp add: s file_bytes_def eval_nat_numeral(3) [symmetric]) metis
qed

section \<open>Listing in several calls\<close>

definition entry_len :: "list_entry \<Rightarrow> u32" where
  "entry_len e = dirent64_reclen (translate_filename_fat_to_posix (de_name (le_dirent e)))"

definition visible :: "list_entry list \<Rightarrow> list_entry list" where
  "visible es = filter (\<lambda>e. \<not> skip_dirent e) es"

definition total_len :: "list_entry list \<Rightarrow> nat" where
  "total_len es = (\<Sum>e\<leftarrow>es. unat (entry_len e))"

text \<open>The longest prefix whose records fit in \<open>count\<close> bytes, and the buffer with these records.\<close>

fun fitting :: "u32 \<Rightarrow> u32 \<Rightarrow> list_entry list \<Rightarrow> list_entry list" where
  "fitting count w [] = []"
| "fitting count w (e # es) = (if count < w + entry_len e then [] else e # fitting count (w + entry_len e) es)"

fun put_all :: "u32 \<Rightarrow> list_entry list \<Rightarrow> u8 list \<Rightarrow> u8 list" where
  "put_all w [] dirp = dirp"
| "put_all w (e # es) dirp = put_all (w + entry_len e) es
     (put_dirent64 dirp w (entry_len e) (if de_attr (le_dirent e) AND 0x10 \<noteq> 0 then 4 else 8)
        (translate_filename_fat_to_posix (de_name (le_dirent e))))"

lemma to_posix_length: "length (translate_filename_fat_to_posix n) \<le> 12"
proof -
  have a: "length (takeWhile (\<lambda>c. c \<noteq> 32) (take 8 n)) \<le> 8"
    using length_takeWhile_le [of "\<lambda>c. c \<noteq> 32" "take 8 n"] by simp
  have b: "length (takeWhile (\<lambda>c. c \<noteq> 32) (dropWhile (\<lambda>c. c = 32) (take 3 (drop 8 n)))) \<le> 3"
    using length_takeWhile_le [of "\<lambda>c. c \<noteq> 32" "dropWhile (\<lambda>c. c = 32) (take 3 (drop 8 n))"]
      length_dropWhile_le [of "\<lambda>c. c = 32" "take 3 (drop 8 n)"] by simp
  show ?thesis using a b by (simp add: translate_filename_fat_to_posix_def Let_def)
qed

lemma reclen_cases: "n < 24 \<Longrightarrow> (24 + of_nat n + 1 + 7 :: u32) AND NOT 7 = (if n < 8 then 32 else if n < 16 then 40 else 48)"
proof -
  assume "n < 24"
  then have "n \<in> set [0..<24]" by simp
  moreover have "\<forall>n \<in> set [0..<24]. (24 + of_nat n + 1 + 7 :: u32) AND NOT 7 = (if n < 8 then 32 else if n < 16 then 40 else 48)"
    by code_simp
  ultimately show ?thesis by blast
qed

lemma entry_len_cases: "entry_len e = 32 \<or> entry_len e = 40"
proof -
  have "length (cstring (translate_filename_fat_to_posix (de_name (le_dirent e)))) \<le> 12"
    using to_posix_length [of "de_name (le_dirent e)"]
      length_takeWhile_le [of "\<lambda>c. c \<noteq> 0" "translate_filename_fat_to_posix (de_name (le_dirent e))"]
    unfolding cstring_def by linarith
  then show ?thesis unfolding entry_len_def dirent64_reclen_def strlen_length by (subst (1 2) reclen_cases) auto
qed

lemma dirents_loop_fit:
  "dirents_loop es count 0 w p dirp
    = (w + sum_list (map entry_len (fitting count w (visible es))), p + sum_list (map entry_len (fitting count w (visible es))),
       put_all w (fitting count w (visible es)) dirp)"
proof (induction es arbitrary: w p dirp)
  case (Cons e es)
  have "\<not> entry_len e \<le> 0" using entry_len_cases [of e] by auto
  with Cons show ?case by (simp add: visible_def entry_len_def Let_def add.assoc)
qed (simp add: visible_def)

lemma dirents_loop_skip:
  "unat s = total_len (take k (visible es)) \<Longrightarrow> k \<le> length (visible es) \<Longrightarrow>
   dirents_loop es count s w p dirp
    = (w + sum_list (map entry_len (fitting count w (drop k (visible es)))), p + sum_list (map entry_len (fitting count w (drop k (visible es)))),
       put_all w (fitting count w (drop k (visible es))) dirp)"
proof (induction es arbitrary: s k)
  case Nil
  then show ?case by (simp add: visible_def)
next
  case (Cons e es)
  show ?case
  proof (cases "k = 0")
    case True
    then have "s = 0" using Cons.prems(1) by (simp add: total_len_def unat_eq_zero)
    then show ?thesis using True dirents_loop_fit [of "e # es"] by (simp del: dirents_loop.simps)
  next
    case False
    show ?thesis
    proof (cases "skip_dirent e")
      case True
      then show ?thesis using Cons by (simp add: visible_def)
    next
      case nsk: False
      obtain m where m: "k = Suc m" using False by (cases k) auto
      have v: "visible (e # es) = e # visible es" using nsk by (simp add: visible_def)
      have us: "unat s = unat (entry_len e) + total_len (take m (visible es))"
        using Cons.prems(1) unfolding v m by (simp add: total_len_def)
      then have le: "entry_len e \<le> s" by (simp add: word_le_nat_alt)
      then have "unat (s - entry_len e) = total_len (take m (visible es))" using us by (simp add: unat_sub_le)
      then show ?thesis using Cons.IH [of "s - entry_len e" m] Cons.prems(2) nsk le unfolding v m
        by (simp add: entry_len_def Let_def)
    qed
  qed
qed

lemma fitting_prefix: "fitting count w es = take (length (fitting count w es)) es"
  by (induction es arbitrary: w) auto

lemma fitting_total:
  "unat count + 40 < 2 ^ 32 \<Longrightarrow> w \<le> count \<Longrightarrow> unat w + total_len (fitting count w es) \<le> unat count
    \<and> (fitting count w es = es \<or> unat count < unat w + total_len (take (Suc (length (fitting count w es))) es))"
proof (induction es arbitrary: w)
  case (Cons e es)
  have e40: "unat (entry_len e) \<le> 40" using entry_len_cases [of e] by auto
  have a: "unat (w + entry_len e) = unat w + unat (entry_len e)"
    using Cons.prems e40 by (intro unat_add_no_wrap) (simp add: word_le_nat_alt)
  show ?case
  proof (cases "count < w + entry_len e")
    case True
    then show ?thesis using Cons.prems a by (simp add: total_len_def word_less_nat_alt word_le_nat_alt)
  next
    case False
    then have "w + entry_len e \<le> count" by simp
    with Cons.IH [OF Cons.prems(1) this] False a show ?thesis by (auto simp: total_len_def)
  qed
qed (simp add: total_len_def word_le_nat_alt)

lemma sum_entry_len: "unat (sum_list (map entry_len es)) = total_len es" if "total_len es < 2 ^ 32"
  using that
proof (induction es)
  case (Cons e es)
  then have "unat (entry_len e) + unat (sum_list (map entry_len es)) < 4294967296" by (simp add: total_len_def)
  with Cons show ?case by (simp add: total_len_def unat_add_no_wrap)
qed (simp add: total_len_def)

lemma total_len_append: "total_len (a @ b) = total_len a + total_len b"
  by (simp add: total_len_def)

lemma total_len_take: "total_len (take k es) \<le> total_len es"
  using total_len_append [of "take k es" "drop k es"] by simp

text \<open>C17: a directory is listed in order over several calls. When a file's position is the length of the
  first \<open>k\<close> records of the directory's visible entries, the next call writes the records of the entries
  from \<open>k\<close> on, as many as fit in \<open>count\<close> bytes, returns their total length and moves the position past
  them; with room for 40 bytes a call before the end lists at least one entry, so every entry is listed
  exactly once.\<close>
theorem getdents_resumes:
  assumes "coherent fs" "dir_lists fuel meta (disk fs) (dirent_cluster de) es" "priv f = Some p" "priv_dirent p = Some de"
    "unat (pos f) = total_len (take k (visible es))" "k \<le> length (visible es)" "unat count + 40 < 2 ^ 32"
    "total_len (visible es) < 2 ^ 32"
  shows "\<exists>j n q fs'. mount_get_dirents64 fuel meta (Some f) dirp count fs
      = Some (n, Some (f\<lparr>pos := q\<rparr>), put_all 0 (take j (drop k (visible es))) dirp, fs')
    \<and> unat n = total_len (take j (drop k (visible es))) \<and> n \<le> count
    \<and> unat q = total_len (take (k + j) (visible es)) \<and> k + j \<le> length (visible es)
    \<and> (40 \<le> count \<and> k < length (visible es) \<longrightarrow> 0 < j) \<and> disk fs' = disk fs \<and> coherent fs'"
proof -
  let ?v = "visible es"
  let ?F = "fitting count 0 (drop k ?v)"
  let ?j = "length ?F"
  obtain fs' where fs': "fat32_list_fat fuel meta (dirent_cluster de) fs = Some (es, fs')" "disk fs' = disk fs" "coherent fs'"
    using list_fat_law [OF assms(1,2)] .
  have F: "?F = take ?j (drop k ?v)" by (rule fitting_prefix)
  have tk: "take k ?v @ take ?j (drop k ?v) = take (k + ?j) ?v" by (simp add: take_add)
  have small: "total_len (take (k + ?j) ?v) < 2 ^ 32" using total_len_take [of "k + ?j" ?v] assms(8) by linarith
  then have "total_len ?F < 2 ^ 32" using total_len_append [of "take k ?v" ?F] F tk by simp
  note n = sum_entry_len [OF this]
  have q: "unat (pos f + sum_list (map entry_len ?F)) = total_len (take (k + ?j) ?v)"
    using n small assms(5) total_len_append [of "take k ?v" ?F] F tk by (subst unat_add_no_wrap) simp_all
  note ft = fitting_total [OF assms(7), of 0 "drop k ?v"]
  have "length ?F \<le> length (drop k ?v)" by (subst F) simp
  then have le: "k + ?j \<le> length ?v" using assms(6) by simp
  have prog: "0 < ?j" if "40 \<le> count" "k < length ?v"
  proof (rule ccontr)
    assume "\<not> 0 < ?j"
    then have "?F = []" by simp
    then have "unat count < total_len (take 1 (drop k ?v))" using ft that(2) by (simp add: One_nat_def)
    moreover have "total_len (take 1 (drop k ?v)) \<le> 40"
      using that(2) entry_len_cases [of "?v ! k"] by (auto simp: total_len_def take_Suc hd_drop_conv_nth)
    ultimately show False using that(1) by (simp add: word_le_nat_alt)
  qed
  have "mount_get_dirents64 fuel meta (Some f) dirp count fs
      = Some (sum_list (map entry_len ?F), Some (f\<lparr>pos := pos f + sum_list (map entry_len ?F)\<rparr>), put_all 0 ?F dirp, fs')"
    using fs'(1) assms(3,4) dirents_loop_skip [OF assms(5,6), of count 0] by (simp add: mount_get_dirents64_def)
  then show ?thesis using n q ft le prog fs'(2,3) F
    by (intro exI [of _ ?j] exI [of _ "sum_list (map entry_len ?F)"] exI [of _ "pos f + sum_list (map entry_len ?F)"] exI [of _ fs'])
      (simp add: word_le_nat_alt)
qed

text \<open>The root of the small tree is one record of 32 bytes.\<close>

definition root_file :: kfile where
  "root_file = sh_file\<lparr>priv := Some \<lparr>priv_dirent = Some (root_dirent small_meta), priv_parent = None\<rparr>\<rparr>"

theorem getdents_resumes_witness:
  "\<exists>n f fs'. mount_get_dirents64 1 small_meta (Some root_file) (replicate 64 0) 64 tree_fs
      = Some (n, Some f, put_all 0 [\<lparr>le_dirent = bin_entry, le_lfn_count = 0\<rparr>] (replicate 64 0), fs') \<and> unat n = 32"
proof -
  let ?e = "\<lparr>le_dirent = bin_entry, le_lfn_count = 0\<rparr>"
  have c: "dirent_cluster (root_dirent small_meta) = 2" by (simp add: dirent_cluster_def root_dirent_def small_meta_def small_bpb_def)
  have v: "visible [?e] = [?e]" by (simp add: visible_def skip_dirent_def bin_entry_def)
  have l: "total_len [?e] = 32" by (simp add: total_len_def) code_simp
  have d: "dir_lists 1 small_meta (disk tree_fs) (dirent_cluster (root_dirent small_meta)) [?e]"
    unfolding c tree_disk by (rule tree_lists)
  have p: "unat (pos root_file) = total_len (take 0 (visible [?e]))" by (simp add: root_file_def sh_file_def total_len_def)
  obtain j n q fs' where g: "mount_get_dirents64 1 small_meta (Some root_file) (replicate 64 0) 64 tree_fs
      = Some (n, Some (root_file\<lparr>pos := q\<rparr>), put_all 0 (take j (drop 0 (visible [?e]))) (replicate 64 0), fs')"
    "unat n = total_len (take j (drop 0 (visible [?e])))" "0 + j \<le> length (visible [?e])"
    "40 \<le> (64 :: u32) \<and> 0 < length (visible [?e]) \<longrightarrow> 0 < j"
    using getdents_resumes [OF tree_coherent d _ _ p, of _ 64 "replicate 64 0"] l v by (auto simp: root_file_def)
  then have "j = 1" by (simp add: v)
  then show ?thesis using g(1,2) l by (auto simp: v)
qed

section \<open>Opening\<close>

lemma mount_openat_law:
  assumes "coherent fs" "\<forall>c \<in> set cs. comp_ok c" "resolve cs = ds @ [n]" "n \<noteq> []" "length (render cs) < 256"
    "leads_to fuel meta (disk fs) ds c" "dir_lists fuel meta (disk fs) c es"
    "translate_filename_posix_to_fat n = (0, f @ [0])" "clean_name f" "cs \<noteq> []"
    "flgs AND O_CREAT = 0 \<or> find (shadows f) es \<noteq> None"
  shows "\<exists>fs'. mount_openat fuel meta cwd dfd (Some (render cs)) flgs fs
      = Some (if find (shadows f) es = None then - ENOENT else c, fs') \<and> disk fs' = disk fs \<and> coherent fs'"
proof -
  have sp: "safe_path (render cs) = render (ds @ [n])" using safe_path_render [OF assms(2)] assms(3) by simp
  have ok: "\<forall>c \<in> set ds. comp_ok c" "comp_ok n" using comp_ok_resolve [OF assms(2)] assms(3) by simp_all
  note split = split_path_render [OF ok assms(4)]
  have l: "length (render ds) < 256" using length_render_resolve [of cs] assms(3,5) by (simp add: length_render_append)
  have slash: "first_byte (render cs) = 47" using assms(10) by (simp add: first_byte_render)
  obtain fs1 where fs1: "get_dir_cluster_number fuel meta (path_string ds) fs = Some (c, fs1)" "disk fs1 = disk fs" "coherent fs1"
    using get_dir_cluster_law [OF assms(6,1) l] .
  obtain fs2 where fs2: "get_entry_from_directory fuel meta c n False fs1 = Some (map_option le_dirent (find (shadows f) es), fs2)"
    "disk fs2 = disk fs1" "coherent fs2"
    using get_entry_law [OF fs1(3) _ assms(8,9)] assms(7) fs1(2) by metis
  show ?thesis
    using fs1 fs2 assms(5,11) split slash
    by (cases "find (shadows f) es") (auto simp: mount_openat_def init_path_def sp)
qed

text \<open>Opening an absolute path. If the directory has an entry for the name, \<open>mount_openat\<close> returns the
  parent directory's cluster; if it has none and O_CREAT is not given, it returns -ENOENT; neither
  changes the volume. A working directory that is no directory of the volume does not matter.\<close>
theorem mount_openat_outcome:
  assumes "coherent fs" "\<forall>c \<in> set cs. comp_ok c" "resolve cs = ds @ [n]" "n \<noteq> []" "length (render cs) < 256"
    "leads_to fuel meta (disk fs) ds c" "dir_lists fuel meta (disk fs) c es"
    "translate_filename_posix_to_fat n = (0, f @ [0])" "clean_name f" "cs \<noteq> []"
    "flgs AND O_CREAT = 0 \<or> find (shadows f) es \<noteq> None"
  shows "\<exists>fs'. mount_openat fuel meta cwd dfd (Some (render cs)) flgs fs
      = Some (if find (shadows f) es = None then - ENOENT else c, fs') \<and> disk fs' = disk fs \<and> coherent fs'"
  by (rule mount_openat_law [OF assms])

text \<open>\<open>/bin/x\<close> is not there; \<open>/bin/sh.elf\<close> is.\<close>

theorem mount_openat_outcome_witness:
  "(\<exists>fs'. mount_openat 1 small_meta [47] AT_FDCWD (Some [47, 98, 105, 110, 47, 120]) 0 tree_fs = Some (- 2, fs'))
   \<and> (\<exists>fs'. mount_openat 1 small_meta [47] AT_FDCWD (Some [47, 98, 105, 110, 47, 115, 104, 46, 101, 108, 102]) 0 tree_fs = Some (3, fs'))"
proof -
  let ?a = "[[98, 105, 110], [120]] :: bytes list" and ?b = "[[98, 105, 110], [115, 104, 46, 101, 108, 102]] :: bytes list"
  let ?es = "[\<lparr>le_dirent = sh_entry, le_lfn_count = 0\<rparr>]" and ?x = "88 # replicate 10 32 :: u8 list"
  have ok: "\<forall>c \<in> set ?a. comp_ok c" "\<forall>c \<in> set ?b. comp_ok c" by (simp_all add: comp_ok_def)
  have ra: "resolve ?a = [[98, 105, 110]] @ [[120]]" "render ?a = [47, 98, 105, 110, 47, 120]" by code_simp+
  have rb: "resolve ?b = [[98, 105, 110]] @ [[115, 104, 46, 101, 108, 102]]"
    "render ?b = [47, 98, 105, 110, 47, 115, 104, 46, 101, 108, 102]" by code_simp+
  have ta: "translate_filename_posix_to_fat [120] = (0, ?x @ [0])" by code_simp
  have tb: "translate_filename_posix_to_fat [115, 104, 46, 101, 108, 102] = (0, de_name sh_entry @ [0])" by code_simp
  have ca: "clean_name ?x" "clean_name (de_name sh_entry)" by (simp_all add: clean_name_def sh_entry_def)
  have fa: "find (shadows ?x) ?es = None" by code_simp
  have "shadows (de_name sh_entry) \<lparr>le_dirent = sh_entry, le_lfn_count = 0\<rparr>" by (rule shadows_self) simp
  then have fb: "find (shadows (de_name sh_entry)) ?es \<noteq> None" by simp
  have "\<exists>fs'. mount_openat 1 small_meta [47] AT_FDCWD (Some (render ?a)) 0 tree_fs
      = Some (if find (shadows ?x) ?es = None then - ENOENT else 3, fs') \<and> disk fs' = disk tree_fs \<and> coherent fs'"
    by (rule mount_openat_outcome [OF tree_coherent ok(1) ra(1) _ _ tree_bin [folded tree_disk] tree_lists(2) [folded tree_disk] ta ca(1)])
      (simp_all add: ra(2))
  moreover have "\<exists>fs'. mount_openat 1 small_meta [47] AT_FDCWD (Some (render ?b)) 0 tree_fs
      = Some (if find (shadows (de_name sh_entry)) ?es = None then - ENOENT else 3, fs') \<and> disk fs' = disk tree_fs \<and> coherent fs'"
    by (rule mount_openat_outcome [OF tree_coherent ok(2) rb(1) _ _ tree_bin [folded tree_disk] tree_lists(2) [folded tree_disk] tb ca(2)])
      (simp_all add: rb(2))
  ultimately show ?thesis using fa fb by (auto simp: ra(2) rb(2) ENOENT_def)
qed

text \<open>The parent's entry is looked up the same way; whatever it finds, the call returns.\<close>

inductive_cases leads_to_snoc: "leads_to fuel meta d (ds @ [n]) c"

lemma mount_get_parent_law:
  assumes "coherent fs" "\<forall>c \<in> set cs. comp_ok c" "resolve cs = ds @ [n]" "n \<noteq> []" "length (render cs) < 256"
    "leads_to fuel meta (disk fs) ds c" "c \<noteq> 0" "dir_lists fuel meta (disk fs) c es"
  obtains pd fs' where "mount_get_dirent fuel meta cwd (Some (render cs)) False True fs = Some (pd, fs')" "disk fs' = disk fs" "coherent fs'"
proof -
  have sp: "safe_path (render cs) = render (ds @ [n])" using safe_path_render [OF assms(2)] assms(3) by simp
  have ok: "\<forall>c \<in> set ds. comp_ok c" "comp_ok n" using comp_ok_resolve [OF assms(2)] assms(3) by simp_all
  note split = split_path_render [OF ok assms(4)]
  have l: "length (render ds) < 256" using length_render_resolve [of cs] assms(3,5) by (simp add: length_render_append)
  show ?thesis
  proof (cases ds rule: rev_cases)
    case Nil
    have c: "c = bpb_root_clus (meta_bpb meta)" using assms(6) Nil by (auto elim: leads_to.cases)
    have a: "str_eq [47] [47]" "split_path [47] = (0, [47], [])" "translate_filename_posix_to_fat [] = (0, replicate 11 32 @ [0])" by code_simp+
    have r: "get_dir_cluster_number fuel meta [47] fs = Some (c, fs)" using c by (simp add: get_dir_cluster_number.simps)
    have "clean_name (replicate 11 32)" by (simp add: clean_name_def)
    then obtain pd fs' where "get_entry_from_directory fuel meta c [] False fs = Some (pd, fs')" "disk fs' = disk fs" "coherent fs'"
      using get_entry_law [OF assms(1,8) a(3)] by blast
    then show ?thesis using that split assms(5,7) Nil a r
      by (simp add: mount_get_dirent_def init_path_def sp path_string_def)
  next
    case (snoc ds' m)
    have lt: "leads_to fuel meta (disk fs) (ds' @ [m]) c" using assms(6) snoc by simp
    obtain c' es' f e where p: "leads_to fuel meta (disk fs) ds' c'" "c' \<noteq> 0" "dir_lists fuel meta (disk fs) c' es'" "comp_ok m"
      "m \<noteq> []" "translate_filename_posix_to_fat m = (0, f @ [0])" "clean_name f"
      using lt by (elim leads_to_snoc) auto
    note split' = split_path_render [OF leads_to_comps [OF p(1)] p(4,5)]
    have l': "length (render ds') < 256" using l snoc by (simp add: length_render_append)
    obtain fs1 where fs1: "get_dir_cluster_number fuel meta (path_string ds') fs = Some (c', fs1)" "disk fs1 = disk fs" "coherent fs1"
      using get_dir_cluster_law [OF p(1) assms(1) l'] .
    obtain pd fs' where g: "get_entry_from_directory fuel meta c' m False fs1 = Some (pd, fs')" "disk fs' = disk fs1" "coherent fs'"
      using get_entry_law [OF fs1(3) _ p(6,7)] p(3) fs1(2) by metis
    have "split_path (path_string ds) = (0, path_string ds', m)" using split'(2) snoc by (simp add: path_string_def)
    then show ?thesis using that [OF _ _ g(3)] split assms(5) p(2) fs1 g(1,2)
      by (simp add: mount_get_dirent_def init_path_def sp)
  qed
qed

text \<open>A file of the root directory has no parent entry: its parent's path \<open>/\<close> splits into \<open>/\<close> and the empty
  name, which no entry has. A write that makes such a file grow reads through that null pointer.\<close>

lemma root_parent_missing:
  "\<exists>fs'. mount_get_dirent 1 small_meta [47] (Some [47, 98, 105, 110]) False True tree_fs = Some (None, fs')"
proof -
  have a: "safe_path [47, 98, 105, 110] = [47, 98, 105, 110]" "\<not> str_eq [47, 98, 105, 110] [47]"
    "split_path [47, 98, 105, 110] = (0, [47], [98, 105, 110])" "split_path [47] = (0, [47], [])"
    "translate_filename_posix_to_fat [] = (0, replicate 11 32 @ [0])" by code_simp+
  have r: "get_dir_cluster_number 1 small_meta [47] tree_fs = Some (2, tree_fs)"
    by (simp add: get_dir_cluster_number.simps small_meta_def small_bpb_def)
  have "clean_name (replicate 11 32)" by (simp add: clean_name_def)
  then obtain fs' where "get_entry_from_directory 1 small_meta 2 [] False tree_fs
      = Some (map_option le_dirent (find (shadows (replicate 11 32)) [\<lparr>le_dirent = bin_entry, le_lfn_count = 0\<rparr>]), fs')"
    using get_entry_law [OF tree_coherent tree_lists(1) [folded tree_disk] a(5)] by blast
  moreover have "find (shadows (replicate 11 32)) [\<lparr>le_dirent = bin_entry, le_lfn_count = 0\<rparr>] = None" by code_simp
  ultimately show ?thesis using a r by (simp add: mount_get_dirent_def init_path_def)
qed

end
