(* ===== verification/Tty.thy ===== *)
theory Tty
  imports Mount
begin

text \<open>
  The line discipline of final/src/tty.c: the input and output queues, reads in canonical and raw mode,
  writes, ioctl, and the work done at every timer tick. A blocked read waits for interrupts; what each
  interrupt brings is a list of the keys it reads from the keyboard, and a read has no value when the
  interrupts run out while it is still waiting. The bytes given to the screen are returned as a list.
\<close>

section \<open>State\<close>

text \<open>The control structure is kept as its 36 bytes: four 32-bit words of flags, 19 control characters and
  one byte of padding.\<close>

record tty_state =
  tty_in_buf :: "u8 list"
  tty_out_buf :: "u8 list"
  avail_in :: u8
  avail_out :: u8
  tty_ctrl :: "u8 list"

definition NCCS :: nat where "NCCS = 19"
definition termios_size :: nat where "termios_size = 4 * 4 + NCCS + 1"
definition c_lflag :: "u8 list \<Rightarrow> u32" where "c_lflag t = read_u32 t 12"

definition TERMIOS_LF_ISIG :: u32 where "TERMIOS_LF_ISIG = 0x0001"
definition TERMIOS_LF_ICANON :: u32 where "TERMIOS_LF_ICANON = 0x0002"
definition TERMIOS_LF_ECHO :: u32 where "TERMIOS_LF_ECHO = 0x0008"

definition TERMIOS_CMD_TCGETS :: u32 where "TERMIOS_CMD_TCGETS = 0x5401"
definition TERMIOS_CMD_TCSETS :: u32 where "TERMIOS_CMD_TCSETS = 0x5402"
definition TERMIOS_CMD_TCSETSW :: u32 where "TERMIOS_CMD_TCSETSW = 0x5403"
definition TERMIOS_CMD_TCSETSF :: u32 where "TERMIOS_CMD_TCSETSF = 0x5404"
definition TERMIOS_CMD_TIOCGWINSZ :: u32 where "TERMIOS_CMD_TIOCGWINSZ = 0x5413"

text \<open>\<open>struct winsize\<close>: rows, columns and two unused words.\<close>

definition winsize_bytes :: "u16 \<Rightarrow> u16 \<Rightarrow> u8 list" where
  "winsize_bytes row col = u16_bytes row @ u16_bytes col @ u16_bytes 0 @ u16_bytes 0"

definition tty_init :: "tty_state \<times> kfile \<times> kfile \<times> kfile" where
  "tty_init =
     (let fd0 = \<lparr>refcnt = - 1, flags = 0, pos = 0, priv = None, ops = TtyOps\<rparr>
      in (\<lparr>tty_in_buf = replicate 128 0, tty_out_buf = replicate 128 0, avail_in = 0, avail_out = 0,
           tty_ctrl = write_u32 (replicate termios_size 0) 12 (TERMIOS_LF_ECHO OR TERMIOS_LF_ISIG OR TERMIOS_LF_ICANON)\<rparr>,
          fd0, fd0\<lparr>flags := 1\<rparr>, fd0\<lparr>flags := 1\<rparr>))"

section \<open>The queues\<close>

definition tty_system_tty_input :: "u8 \<Rightarrow> tty_state \<Rightarrow> tty_state" where
  "tty_system_tty_input c st =
     (if unat (avail_in st) < 128
      then st\<lparr>tty_in_buf := (tty_in_buf st)[unat (avail_in st) := c], avail_in := avail_in st + 1\<rparr> else st)"

definition tty_system_tty_output_getchar :: "tty_state \<Rightarrow> u8 \<times> tty_state" where
  "tty_system_tty_output_getchar st =
     (if avail_out st = 0 then (0, st)
      else let n = avail_out st - 1
           in (tty_out_buf st ! 0, st\<lparr>avail_out := n, tty_out_buf := blit (tty_out_buf st) 0 (slice (tty_out_buf st) 1 (unat n))\<rparr>))"

definition tty_system_tty_output_available :: "tty_state \<Rightarrow> u8" where
  "tty_system_tty_output_available st = avail_out st"

definition tty_system_tty_input_available :: "tty_state \<Rightarrow> u8" where
  "tty_system_tty_input_available st = avail_in st"

fun find_newline_from :: "u8 list \<Rightarrow> nat \<Rightarrow> nat option" where
  "find_newline_from [] i = None"
| "find_newline_from (c # s) i = (if c = 10 \<or> c = 13 then Some i else find_newline_from s (i + 1))"

definition tty_find_newline :: "tty_state \<Rightarrow> nat option" where
  "tty_find_newline st = find_newline_from (take (unat (avail_in st)) (tty_in_buf st)) 0"

text \<open>Taking \<open>k\<close> bytes off the front of the input, as both kinds of read do.\<close>

definition tty_consume :: "nat \<Rightarrow> tty_state \<Rightarrow> tty_state" where
  "tty_consume k st =
     (let n = avail_in st - of_nat k
      in st\<lparr>avail_in := n, tty_in_buf := blit (tty_in_buf st) 0 (slice (tty_in_buf st) k (unat n))\<rparr>)"

section \<open>Every tick\<close>

definition echo_on :: "tty_state \<Rightarrow> bool" where
  "echo_on st \<longleftrightarrow> c_lflag (tty_ctrl st) AND TERMIOS_LF_ECHO \<noteq> 0"

fun process_keys :: "u8 list \<Rightarrow> tty_state \<Rightarrow> u8 list \<times> tty_state" where
  "process_keys [] st = ([], st)"
| "process_keys (c # cs) st =
     (if c = 0x08 \<or> c = 0x7F then
        (if avail_in st > 0 then
           (let st1 = st\<lparr>avail_in := avail_in st - 1\<rparr>;
                out = (if echo_on st then [8, 32, 8] else [])
            in case process_keys cs st1 of (rest, st2) \<Rightarrow> (out @ rest, st2))
         else process_keys cs st)
      else
        (let st1 = tty_system_tty_input c st;
             out = (if echo_on st then [c] else [])
         in case process_keys cs st1 of (rest, st2) \<Rightarrow> (out @ rest, st2)))"

text \<open>The loop over the output makes at most as many rounds as there are bytes; a NUL ends it.\<close>

fun drain_output :: "nat \<Rightarrow> tty_state \<Rightarrow> u8 list \<times> tty_state" where
  "drain_output 0 st = ([], st)"
| "drain_output (Suc n) st =
     (case tty_system_tty_output_getchar st of (c, st1) \<Rightarrow>
        if c = 0 then ([], st1)
        else case drain_output n st1 of (rest, st2) \<Rightarrow> (c # rest, st2))"

definition tty_system_process_tty :: "u8 list \<Rightarrow> tty_state \<Rightarrow> u8 list \<times> tty_state" where
  "tty_system_process_tty keys st =
     (case process_keys keys st of (echoed, st1) \<Rightarrow>
        case drain_output (unat (avail_out st1)) st1 of (written, st2) \<Rightarrow> (echoed @ written, st2))"

section \<open>Reading and writing\<close>

text \<open>Each element of \<open>ticks\<close> is what one interrupt finds on the keyboard. The result is what is left of
  them, the bytes shown meanwhile, and the state.\<close>

fun tty_wait :: "(tty_state \<Rightarrow> bool) \<Rightarrow> u8 list list \<Rightarrow> u8 list \<Rightarrow> tty_state \<Rightarrow> (u8 list list \<times> u8 list \<times> tty_state) option" where
  "tty_wait ready ticks shown st =
     (if ready st then Some (ticks, shown, st)
      else case ticks of [] \<Rightarrow> None
        | keys # ticks' \<Rightarrow> (case tty_system_process_tty keys st of (out, st') \<Rightarrow> tty_wait ready ticks' (shown @ out) st'))"

definition canonical :: "tty_state \<Rightarrow> bool" where
  "canonical st \<longleftrightarrow> c_lflag (tty_ctrl st) AND TERMIOS_LF_ICANON \<noteq> 0"

definition tty_read :: "u8 list \<Rightarrow> u32 \<Rightarrow> u8 list list \<Rightarrow> tty_state
    \<Rightarrow> (u32 \<times> u8 list \<times> u8 list list \<times> u8 list \<times> tty_state) option" where
  "tty_read buf n ticks st =
     (if canonical st then do {
        (ticks', shown, st1) \<leftarrow> tty_wait (\<lambda>s. tty_find_newline s \<noteq> None) ticks [] st;
        nl \<leftarrow> tty_find_newline st1;
        let line_len = nl + 1; to_copy = (if line_len < unat n then line_len else unat n)
        in Some (of_nat to_copy, blit buf 0 (slice (tty_in_buf st1) 0 to_copy), ticks', shown, tty_consume line_len st1)
      }
      else do {
        (ticks', shown, st1) \<leftarrow> tty_wait (\<lambda>s. \<not> (ucast (avail_in s) < n)) ticks [] st;
        Some (if n = 0 then - 1 else n, blit buf 0 (slice (tty_in_buf st1) 0 (unat n)), ticks', shown, tty_consume (unat n) st1)
      })"

definition tty_write :: "u8 list \<Rightarrow> u32 \<Rightarrow> tty_state \<Rightarrow> u32 \<times> tty_state" where
  "tty_write buf n st =
     (let m = (if n > 128 - ucast (avail_out st) then 128 - ucast (avail_out st) else n)
      in (m, st\<lparr>tty_out_buf := blit (tty_out_buf st) (unat (avail_out st)) (slice buf 0 (unat m)), avail_out := avail_out st + ucast m\<rparr>))"

text \<open>\<open>arg\<close> is the memory the third argument points to.\<close>

definition tty_ioctl :: "u32 \<Rightarrow> u8 list \<Rightarrow> tty_state \<Rightarrow> u32 \<times> u8 list \<times> tty_state" where
  "tty_ioctl req arg st =
     (if req = TERMIOS_CMD_TCGETS then (0, blit arg 0 (tty_ctrl st), st)
      else if req = TERMIOS_CMD_TCSETS \<or> req = TERMIOS_CMD_TCSETSW \<or> req = TERMIOS_CMD_TCSETSF
        then (0, arg, st\<lparr>tty_ctrl := take termios_size arg\<rparr>)
      else if req = TERMIOS_CMD_TIOCGWINSZ then (0, blit arg 0 (winsize_bytes 28 79), st)
      else (0, arg, st))"

definition tty_lseek :: "u32 \<Rightarrow> u32 \<Rightarrow> u32" where "tty_lseek off whence = 0"
definition tty_close :: u32 where "tty_close = 0"
definition tty_fcntl :: "u32 \<Rightarrow> u32 \<Rightarrow> u32" where "tty_fcntl cmd arg = 0"

declare tty_wait.simps [simp del]

section \<open>The queues as bounded FIFOs\<close>

text \<open>What the two queues promise their users: bytes come out in the order they went in, and bytes that do
  not fit are dropped from the end.\<close>

locale bounded_fifo =
  fixes view :: "'s \<Rightarrow> u8 list"
    and inv :: "'s \<Rightarrow> bool"
    and cap :: nat
    and put :: "u8 list \<Rightarrow> 's \<Rightarrow> 's"
    and take_off :: "nat \<Rightarrow> 's \<Rightarrow> 's"
  assumes put_law: "inv s \<Longrightarrow> view (put xs s) = take cap (view s @ xs) \<and> inv (put xs s)"
    and take_off_law: "inv s \<Longrightarrow> k \<le> length (view s) \<Longrightarrow> view (take_off k s) = drop k (view s) \<and> inv (take_off k s)"
    and view_bound: "inv s \<Longrightarrow> length (view s) \<le> cap"
begin

lemma take_take_append: "take n (take n a @ b) = take n (a @ b)"
  by (cases "length a \<le> n") (simp_all add: min_def)

lemma put_put: "inv s \<Longrightarrow> view (put ys (put xs s)) = view (put (xs @ ys) s)"
  using put_law [of s xs] put_law [of "put xs s" ys] put_law [of s "xs @ ys"] take_take_append [of cap "view s @ xs" ys]
  by (simp only: append_assoc)

lemma put_fits: "inv s \<Longrightarrow> length (view s) + length xs \<le> cap \<Longrightarrow> view (put xs s) = view s @ xs"
  using put_law [of s xs] by simp

lemma put_lost: "inv s \<Longrightarrow> length (view s) = cap \<Longrightarrow> view (put xs s) = view s"
  using put_law [of s xs] by simp

lemma in_order:
  assumes "inv s" "length (view s) + length xs \<le> cap"
  shows "view (take_off (length (view s)) (put xs s)) = xs"
proof -
  have "inv (put xs s)" "view (put xs s) = view s @ xs" using put_law [OF assms(1)] put_fits [OF assms] by auto
  then show ?thesis using take_off_law [of "put xs s" "length (view s)"] by simp
qed

end

definition in_q :: "tty_state \<Rightarrow> u8 list" where
  "in_q st = take (unat (avail_in st)) (tty_in_buf st)"

definition out_q :: "tty_state \<Rightarrow> u8 list" where
  "out_q st = take (unat (avail_out st)) (tty_out_buf st)"

definition tty_inv :: "tty_state \<Rightarrow> bool" where
  "tty_inv st \<longleftrightarrow> length (tty_in_buf st) = 128 \<and> length (tty_out_buf st) = 128 \<and> unat (avail_in st) \<le> 128
     \<and> unat (avail_out st) \<le> 128 \<and> length (tty_ctrl st) = termios_size"

lemma tty_u8: "n \<le> 128 \<Longrightarrow> unat (of_nat n :: u8) = n"
  by (simp add: unat_of_nat)

lemma length_in_q: "tty_inv st \<Longrightarrow> length (in_q st) = unat (avail_in st)"
  by (simp add: in_q_def tty_inv_def)

lemma length_out_q: "tty_inv st \<Longrightarrow> length (out_q st) = unat (avail_out st)"
  by (simp add: out_q_def tty_inv_def)

lemma unat_inc_u8: "unat (a :: u8) < 128 \<Longrightarrow> unat (a + 1) = unat a + 1"
  by (simp add: unat_word_ariths)

lemma unat_dec_u8: "0 < a \<Longrightarrow> unat (a - 1 :: u8) = unat a - 1"
  by (subst unat_sub) (simp_all add: word_less_nat_alt word_le_nat_alt)

lemma input_law:
  assumes "tty_inv st"
  shows "in_q (tty_system_tty_input c st) = take 128 (in_q st @ [c])" "tty_inv (tty_system_tty_input c st)"
    "out_q (tty_system_tty_input c st) = out_q st" "tty_ctrl (tty_system_tty_input c st) = tty_ctrl st"
  using assms length_in_q [OF assms] unat_inc_u8 [of "avail_in st"]
  by (auto simp: tty_system_tty_input_def in_q_def out_q_def tty_inv_def take_Suc_conv_app_nth take_update_swap list_update_append)

lemma consume_law:
  assumes "tty_inv st" "k \<le> length (in_q st)"
  shows "in_q (tty_consume k st) = drop k (in_q st)" "tty_inv (tty_consume k st)" "out_q (tty_consume k st) = out_q st"
    "tty_ctrl (tty_consume k st) = tty_ctrl st"
proof -
  have k: "k \<le> unat (avail_in st)" "unat (avail_in st) \<le> 128" using assms length_in_q [OF assms(1)] by (simp_all add: tty_inv_def)
  then have "unat (of_nat k :: u8) = k" by (intro tty_u8) simp
  then have n: "unat (avail_in st - of_nat k) = unat (avail_in st) - k" using k by (subst unat_sub) (simp_all add: word_le_nat_alt)
  show "in_q (tty_consume k st) = drop k (in_q st)" "tty_inv (tty_consume k st)" "out_q (tty_consume k st) = out_q st"
    "tty_ctrl (tty_consume k st) = tty_ctrl st"
    using assms k by (simp_all add: tty_consume_def Let_def in_q_def out_q_def tty_inv_def n blit_def slice_def drop_take min_def)
qed

lemma getchar_law:
  assumes "tty_inv st"
  shows "fst (tty_system_tty_output_getchar st) = first_byte (out_q st)"
    "out_q (snd (tty_system_tty_output_getchar st)) = tl (out_q st)" "tty_inv (snd (tty_system_tty_output_getchar st))"
    "in_q (snd (tty_system_tty_output_getchar st)) = in_q st" "tty_ctrl (snd (tty_system_tty_output_getchar st)) = tty_ctrl st"
proof -
  let ?r = "tty_system_tty_output_getchar st"
  have "fst ?r = first_byte (out_q st) \<and> out_q (snd ?r) = tl (out_q st) \<and> tty_inv (snd ?r) \<and> in_q (snd ?r) = in_q st
    \<and> tty_ctrl (snd ?r) = tty_ctrl st"
  proof (cases "avail_out st = 0")
    case True
    then show ?thesis using assms by (simp add: tty_system_tty_output_getchar_def out_q_def)
  next
    case False
    then have a: "unat (avail_out st - 1) = unat (avail_out st) - 1" by (intro unat_dec_u8) (simp add: word_neq_0_conv)
    have p: "0 < unat (avail_out st)" using False by (simp add: unat_gt_0)
    have l: "length (tty_out_buf st) = 128" "unat (avail_out st) \<le> 128" using assms by (simp_all add: tty_inv_def)
    then obtain x xs where x: "tty_out_buf st = x # xs" by (cases "tty_out_buf st") auto
    obtain m where m: "unat (avail_out st) = Suc m" using p by (cases "unat (avail_out st)") auto
    show ?thesis using False assms l
      by (simp add: tty_system_tty_output_getchar_def Let_def out_q_def in_q_def tty_inv_def a m x blit_def slice_def)
  qed
  then show "fst ?r = first_byte (out_q st)" "out_q (snd ?r) = tl (out_q st)" "tty_inv (snd ?r)" "in_q (snd ?r) = in_q st"
    "tty_ctrl (snd ?r) = tty_ctrl st" by simp_all
qed

lemma write_law:
  assumes "tty_inv st" "unat n \<le> length buf"
  shows "out_q (snd (tty_write buf n st)) = take 128 (out_q st @ take (unat n) buf)" "tty_inv (snd (tty_write buf n st))"
    "in_q (snd (tty_write buf n st)) = in_q st" "tty_ctrl (snd (tty_write buf n st)) = tty_ctrl st"
    "unat (fst (tty_write buf n st)) = min (unat n) (128 - length (out_q st))"
proof -
  let ?a = "unat (avail_out st)"
  define m :: u32 where "m = (if n > 128 - ucast (avail_out st) then 128 - ucast (avail_out st) else n)"
  have l: "length (tty_in_buf st) = 128" "length (tty_out_buf st) = 128" "?a \<le> 128" "unat (avail_in st) \<le> 128"
    "length (tty_ctrl st) = termios_size" using assms(1) by (simp_all add: tty_inv_def)
  have u: "unat (ucast (avail_out st) :: u32) = ?a" using l(3) by (simp add: unsigned_ucast_eq take_bit_nat_eq_self)
  have "unat (128 - ucast (avail_out st) :: u32) = 128 - ?a" using l(3) u by (subst unat_sub) (simp_all add: word_le_nat_alt)
  then have m: "unat m = min (unat n) (128 - ?a)" by (simp add: m_def word_less_nat_alt min_def)
  then have mb: "unat m \<le> length buf" "?a + unat m \<le> 128" using assms(2) l(3) by simp_all
  then have "unat (ucast m :: u8) = unat m" by (simp add: unsigned_ucast_eq take_bit_nat_eq_self)
  then have s: "unat (avail_out st + ucast m) = ?a + unat m" using mb by (simp add: unat_word_ariths)
  have w: "tty_write buf n st = (m, st\<lparr>tty_out_buf := blit (tty_out_buf st) ?a (slice buf 0 (unat m)), avail_out := avail_out st + ucast m\<rparr>)"
    by (simp add: tty_write_def m_def Let_def)
  have o: "out_q (snd (tty_write buf n st)) = out_q st @ take (unat m) buf"
    using l mb by (simp add: w out_q_def s blit_def slice_def)
  show "out_q (snd (tty_write buf n st)) = take 128 (out_q st @ take (unat n) buf)"
    unfolding o using l length_out_q [OF assms(1)] by (simp add: m min_def)
  show "tty_inv (snd (tty_write buf n st))" "in_q (snd (tty_write buf n st)) = in_q st" "tty_ctrl (snd (tty_write buf n st)) = tty_ctrl st"
    using l mb by (simp_all add: w tty_inv_def s in_q_def)
  show "unat (fst (tty_write buf n st)) = min (unat n) (128 - length (out_q st))" by (simp add: w m length_out_q [OF assms(1)])
qed

section \<open>Both queues are bounded FIFOs\<close>

definition input_all :: "u8 list \<Rightarrow> tty_state \<Rightarrow> tty_state" where
  "input_all cs st = fold tty_system_tty_input cs st"

definition write_all :: "u8 list \<Rightarrow> tty_state \<Rightarrow> tty_state" where
  "write_all cs st = fold (\<lambda>c s. snd (tty_write [c] 1 s)) cs st"

definition getchar_times :: "nat \<Rightarrow> tty_state \<Rightarrow> tty_state" where
  "getchar_times k st = ((\<lambda>s. snd (tty_system_tty_output_getchar s)) ^^ k) st"

lemma take_grow: "take n (take n a @ b) = take n (a @ b)"
  by (cases "length a \<le> n") (simp_all add: min_def)

lemma input_all_law: "tty_inv st \<Longrightarrow> in_q (input_all xs st) = take 128 (in_q st @ xs) \<and> tty_inv (input_all xs st)
    \<and> out_q (input_all xs st) = out_q st \<and> tty_ctrl (input_all xs st) = tty_ctrl st"
proof (induction xs arbitrary: st)
  case Nil
  then have "length (in_q st) \<le> 128" using length_in_q [of st] by (simp add: tty_inv_def)
  then show ?case using Nil by (simp add: input_all_def)
next
  case (Cons x xs)
  then show ?case using input_law [OF Cons.prems, of x] Cons.IH [of "tty_system_tty_input x st"]
    take_grow [of 128 "in_q st @ [x]" xs] by (simp add: input_all_def del: take_append)
qed

lemma write_all_law: "tty_inv st \<Longrightarrow> out_q (write_all xs st) = take 128 (out_q st @ xs) \<and> tty_inv (write_all xs st)"
proof (induction xs arbitrary: st)
  case Nil
  then have "length (out_q st) \<le> 128" using length_out_q [of st] by (simp add: tty_inv_def)
  then show ?case using Nil by (simp add: write_all_def)
next
  case (Cons x xs)
  then show ?case using write_law [OF Cons.prems, of 1 "[x]"] Cons.IH [of "snd (tty_write [x] 1 st)"]
    take_grow [of 128 "out_q st @ [x]" xs] by (simp add: write_all_def del: take_append)
qed

lemma getchar_times_law: "tty_inv st \<Longrightarrow> out_q (getchar_times k st) = drop k (out_q st) \<and> tty_inv (getchar_times k st)
    \<and> in_q (getchar_times k st) = in_q st \<and> tty_ctrl (getchar_times k st) = tty_ctrl st"
  by (induction k) (simp_all add: getchar_times_def getchar_law tl_drop drop_Suc)

interpretation tin: bounded_fifo in_q tty_inv 128 input_all tty_consume
  by unfold_locales (use input_all_law consume_law in auto, simp add: length_in_q tty_inv_def)

interpretation tout: bounded_fifo out_q tty_inv 128 write_all getchar_times
  by unfold_locales (use write_all_law getchar_times_law in auto, simp add: length_out_q tty_inv_def)

section \<open>Ticks\<close>

definition plain_key :: "u8 \<Rightarrow> bool" where
  "plain_key c \<longleftrightarrow> c \<noteq> 0x08 \<and> c \<noteq> 0x7F"

lemma process_keys_plain:
  "\<forall>c \<in> set keys. plain_key c \<Longrightarrow> tty_inv st \<Longrightarrow>
   process_keys keys st = (if echo_on st then keys else [], input_all keys st)"
proof (induction keys arbitrary: st)
  case (Cons c cs)
  have "echo_on (tty_system_tty_input c st) = echo_on st" using input_law(4) [OF Cons.prems(2)] by (simp add: echo_on_def)
  with Cons input_law(2) [OF Cons.prems(2), of c] show ?case by (auto simp: plain_key_def input_all_def)
qed (simp add: input_all_def)

lemma drain_output_law:
  "tty_inv st \<Longrightarrow> n = length (out_q st) \<Longrightarrow>
   drain_output n st = (takeWhile (\<lambda>c. c \<noteq> 0) (out_q st), getchar_times (min n (length (takeWhile (\<lambda>c. c \<noteq> 0) (out_q st)) + 1)) st)"
proof (induction n arbitrary: st)
  case 0
  then show ?case by (simp add: getchar_times_def)
next
  case (Suc n)
  obtain c s1 where g: "tty_system_tty_output_getchar st = (c, s1)" by (cases "tty_system_tty_output_getchar st")
  note l = getchar_law [OF Suc.prems(1), unfolded g, simplified]
  obtain x xs where x: "out_q st = x # xs" using Suc.prems(2) by (cases "out_q st") auto
  have IH: "drain_output n s1 = (takeWhile (\<lambda>c. c \<noteq> 0) xs, getchar_times (min n (length (takeWhile (\<lambda>c. c \<noteq> 0) xs) + 1)) s1)"
    using Suc.IH [OF l(3)] l(2) x Suc.prems(2) by simp
  have f: "getchar_times (Suc m) st = getchar_times m s1" for m
    by (simp add: getchar_times_def funpow_Suc_right g del: funpow.simps)
  have c: "c = x" using l(1) x by simp
  show ?case
  proof (cases "c = 0")
    case True
    then show ?thesis using g c x f [of 0] Suc.prems(2) by (simp add: getchar_times_def)
  next
    case False
    then show ?thesis using g c x IH by (simp add: f)
  qed
qed

lemma process_tty_law:
  assumes "tty_inv st" "\<forall>c \<in> set keys. plain_key c"
  shows "fst (tty_system_process_tty keys st) = (if echo_on st then keys else []) @ takeWhile (\<lambda>c. c \<noteq> 0) (out_q st)"
    "in_q (snd (tty_system_process_tty keys st)) = take 128 (in_q st @ keys)" "tty_inv (snd (tty_system_process_tty keys st))"
    "out_q (snd (tty_system_process_tty keys st)) = drop (length (takeWhile (\<lambda>c. c \<noteq> 0) (out_q st)) + 1) (out_q st)"
    "tty_ctrl (snd (tty_system_process_tty keys st)) = tty_ctrl st"
proof -
  note k = process_keys_plain [OF assms(2,1)]
  have i: "tty_inv (input_all keys st)" "out_q (input_all keys st) = out_q st" "in_q (input_all keys st) = take 128 (in_q st @ keys)"
    "tty_ctrl (input_all keys st) = tty_ctrl st"
    using input_all_law [OF assms(1)] by auto
  have n: "unat (avail_out (input_all keys st)) = length (out_q (input_all keys st))" using length_out_q [OF i(1)] by simp
  let ?m = "min (length (out_q st)) (length (takeWhile (\<lambda>c. c \<noteq> 0) (out_q st)) + 1)"
  have t: "tty_system_process_tty keys st = ((if echo_on st then keys else []) @ takeWhile (\<lambda>c. c \<noteq> 0) (out_q st),
      getchar_times ?m (input_all keys st))"
    using drain_output_law [OF i(1) n] unfolding i(2) by (simp add: tty_system_process_tty_def k n i(2))
  have d: "drop ?m (out_q st) = drop (length (takeWhile (\<lambda>c. c \<noteq> 0) (out_q st)) + 1) (out_q st)" by (simp add: min_def)
  show "fst (tty_system_process_tty keys st) = (if echo_on st then keys else []) @ takeWhile (\<lambda>c. c \<noteq> 0) (out_q st)"
    "in_q (snd (tty_system_process_tty keys st)) = take 128 (in_q st @ keys)" "tty_inv (snd (tty_system_process_tty keys st))"
    "out_q (snd (tty_system_process_tty keys st)) = drop (length (takeWhile (\<lambda>c. c \<noteq> 0) (out_q st)) + 1) (out_q st)"
    "tty_ctrl (snd (tty_system_process_tty keys st)) = tty_ctrl st"
    unfolding t d [symmetric] using getchar_times_law [OF i(1), of ?m] i by simp_all
qed

lemma process_keys_inv: "tty_inv st \<Longrightarrow> tty_inv (snd (process_keys keys st))"
proof (induction keys arbitrary: st)
  case (Cons c cs)
  have "tty_inv (st\<lparr>avail_in := avail_in st - 1\<rparr>)" if "avail_in st > 0"
    using Cons.prems unat_dec_u8 [OF that] unfolding tty_inv_def by simp linarith?
  with Cons input_law(2) [OF Cons.prems, of c] show ?case by (simp add: Let_def split: prod.splits) (metis prod.collapse snd_conv)?
qed simp

lemma process_tty_inv: "tty_inv st \<Longrightarrow> tty_inv (snd (tty_system_process_tty keys st))"
proof -
  assume "tty_inv st"
  then have i: "tty_inv (snd (process_keys keys st))" by (rule process_keys_inv)
  have "unat (avail_out (snd (process_keys keys st))) = length (out_q (snd (process_keys keys st)))" using length_out_q [OF i] by simp
  from drain_output_law [OF i this] show ?thesis
    using getchar_times_law [OF i] by (cases "process_keys keys st") (simp add: tty_system_process_tty_def)
qed

section \<open>Reads\<close>

lemma find_newline_law:
  "find_newline_from s i = (if \<exists>c \<in> set s. c = 10 \<or> c = 13 then Some (i + length (takeWhile (\<lambda>c. c \<noteq> 10 \<and> c \<noteq> 13) s)) else None)"
  by (induction s arbitrary: i) auto

lemma find_newline_none: "tty_find_newline st = None \<longleftrightarrow> (\<forall>c \<in> set (in_q st). c \<noteq> 10 \<and> c \<noteq> 13)"
  by (auto simp: tty_find_newline_def in_q_def find_newline_law)

lemma find_newline_at:
  assumes "in_q st = l @ c # rest" "\<forall>c \<in> set l. c \<noteq> 10 \<and> c \<noteq> 13" "c = 10 \<or> c = 13"
  shows "tty_find_newline st = Some (length l)"
proof -
  have "takeWhile (\<lambda>c. c \<noteq> 10 \<and> c \<noteq> 13) (l @ c # rest) = l" using assms(2,3) by (auto simp: takeWhile_append)
  then show ?thesis using assms unfolding tty_find_newline_def in_q_def [symmetric] find_newline_law by auto
qed

lemma slice_in_q: "tty_inv st \<Longrightarrow> k \<le> length (in_q st) \<Longrightarrow> slice (tty_in_buf st) 0 k = take k (in_q st)"
  by (auto simp: slice_def in_q_def tty_inv_def min_def split: if_splits)

lemma canonical_read_ready:
  fixes n :: u32 and l :: "u8 list"
  assumes "tty_inv st" "canonical st" "in_q st = l @ c # rest" "\<forall>c \<in> set l. c \<noteq> 10 \<and> c \<noteq> 13" "c = 10 \<or> c = 13"
  defines "k \<equiv> min (length l + 1) (unat n)"
  shows "tty_read buf n ticks st = Some (of_nat k, blit buf 0 (take k (l @ [c])), ticks, [], tty_consume (length l + 1) st)"
    "in_q (tty_consume (length l + 1) st) = rest" "tty_inv (tty_consume (length l + 1) st)"
proof -
  have f: "tty_find_newline st = Some (length l)" by (rule find_newline_at [OF assms(3-5)])
  have "slice (tty_in_buf st) 0 k = take k (l @ [c])"
    using slice_in_q [OF assms(1), of k] assms(3) by (cases "k \<le> length l") (simp_all add: k_def min_def split: if_splits)
  moreover have "(if length l + 1 < unat n then length l + 1 else unat n) = k" by (simp add: k_def)
  ultimately show "tty_read buf n ticks st = Some (of_nat k, blit buf 0 (take k (l @ [c])), ticks, [], tty_consume (length l + 1) st)"
    using f assms(2) unfolding tty_read_def Let_def
    by (simp only: tty_wait.simps [of _ ticks] if_True bind.bind_lunit option.case prod.case option.distinct not_False_eq_True)
  show "in_q (tty_consume (length l + 1) st) = rest" "tty_inv (tty_consume (length l + 1) st)"
    using consume_law [OF assms(1), of "length l + 1"] assms(3) by simp_all
qed

text \<open>A blocked canonical read: a tick without a newline only queues its keys.\<close>

lemma wait_step:
  "\<not> ready st \<Longrightarrow> tty_wait ready (keys # ticks) shown st
     = tty_wait ready ticks (shown @ fst (tty_system_process_tty keys st)) (snd (tty_system_process_tty keys st))"
  by (simp add: tty_wait.simps [of _ "keys # ticks"] split: prod.split)

lemma full_line_waits:
  "tty_inv st \<Longrightarrow> length (in_q st) = 128 \<Longrightarrow> \<forall>c \<in> set (in_q st). c \<noteq> 10 \<and> c \<noteq> 13 \<Longrightarrow> \<forall>ks \<in> set ticks. \<forall>c \<in> set ks. plain_key c \<Longrightarrow>
   tty_wait (\<lambda>s. tty_find_newline s \<noteq> None) ticks shown st = None"
proof (induction ticks arbitrary: st shown)
  case Nil
  then show ?case by (simp add: tty_wait.simps find_newline_none)
next
  case (Cons keys ticks)
  have pk: "\<forall>c \<in> set keys. plain_key c" using Cons.prems(4) by simp
  note p = process_tty_law [OF Cons.prems(1) pk]
  have same: "in_q (snd (tty_system_process_tty keys st)) = in_q st" using p(2) Cons.prems(2) by simp
  have "\<not> (tty_find_newline st \<noteq> None)" using Cons.prems(3) by (simp add: find_newline_none)
  from wait_step [of "\<lambda>s. tty_find_newline s \<noteq> None", OF this] show ?case
    using Cons.IH [OF p(3)] Cons.prems(2-4) same by simp
qed

lemma line_arrives:
  "tty_inv st \<Longrightarrow> canonical st \<Longrightarrow> \<forall>c \<in> set (in_q st). c \<noteq> 10 \<and> c \<noteq> 13 \<Longrightarrow>
   \<forall>ks' \<in> set ticks. \<forall>c \<in> set ks'. plain_key c \<and> c \<noteq> 10 \<and> c \<noteq> 13 \<Longrightarrow>
   \<forall>c \<in> set (ks @ aft). plain_key c \<Longrightarrow> \<forall>c \<in> set ks. c \<noteq> 10 \<and> c \<noteq> 13 \<Longrightarrow> nl = 10 \<or> nl = 13 \<Longrightarrow>
   length (in_q st) + length (concat ticks) + length (ks @ nl # aft) \<le> 128 \<Longrightarrow>
   \<exists>shown' st'. tty_wait (\<lambda>s. tty_find_newline s \<noteq> None) (ticks @ (ks @ nl # aft) # later) shown st = Some (later, shown', st')
     \<and> in_q st' = in_q st @ concat ticks @ ks @ nl # aft \<and> tty_inv st'"
proof (induction ticks arbitrary: st shown)
  case Nil
  have pk: "\<forall>c \<in> set (ks @ nl # aft). plain_key c" using Nil.prems(5,7) by (auto simp: plain_key_def)
  note p = process_tty_law [OF Nil.prems(1) pk]
  have q: "in_q (snd (tty_system_process_tty (ks @ nl # aft) st)) = (in_q st @ ks) @ nl # aft" using p(2) Nil.prems(8) by simp
  have f: "tty_find_newline (snd (tty_system_process_tty (ks @ nl # aft) st)) \<noteq> None"
    using find_newline_at [OF q] Nil.prems(3,6,7) by auto
  have "\<not> (tty_find_newline st \<noteq> None)" using Nil.prems(3) by (simp add: find_newline_none)
  from wait_step [of "\<lambda>s. tty_find_newline s \<noteq> None", OF this] f show ?case
    using q p(3) by (auto simp: tty_wait.simps [of _ later])
next
  case (Cons keys ticks)
  have pk: "\<forall>c \<in> set keys. plain_key c" using Cons.prems(4) by simp
  note p = process_tty_law [OF Cons.prems(1) pk]
  let ?s = "snd (tty_system_process_tty keys st)"
  have q: "in_q ?s = in_q st @ keys" using p(2) Cons.prems(8) by simp
  have "canonical ?s" using Cons.prems(2) p(5) by (simp add: canonical_def)
  moreover have "\<forall>c \<in> set (in_q ?s). c \<noteq> 10 \<and> c \<noteq> 13" using Cons.prems(3,4) unfolding q by auto
  moreover have "length (in_q ?s) + length (concat ticks) + length (ks @ nl # aft) \<le> 128" using Cons.prems(8) unfolding q by simp
  moreover have "\<forall>ks' \<in> set ticks. \<forall>c \<in> set ks'. plain_key c \<and> c \<noteq> 10 \<and> c \<noteq> 13" using Cons.prems(4) by simp
  ultimately obtain shown' st' where "tty_wait (\<lambda>s. tty_find_newline s \<noteq> None) (ticks @ (ks @ nl # aft) # later)
      (shown @ fst (tty_system_process_tty keys st)) ?s = Some (later, shown', st')"
    "in_q st' = in_q ?s @ concat ticks @ ks @ nl # aft" "tty_inv st'"
    using Cons.IH [OF p(3) _ _ _ Cons.prems(5-7)] by blast
  moreover have "\<not> (tty_find_newline st \<noteq> None)" using Cons.prems(3) by (simp add: find_newline_none)
  ultimately show ?case using wait_step [of "\<lambda>s. tty_find_newline s \<noteq> None" st keys "ticks @ (ks @ nl # aft) # later" shown] q by simp
qed

text \<open>C18: a canonical read takes one line off the input queue. When the queue holds a line \<open>l\<close> ended by a
  newline or carriage return, the read returns at once with the line and its end, cut to the \<open>n\<close> bytes
  asked for, and the whole line leaves the queue: what did not fit in the buffer is lost, what follows
  the line stays.\<close>
theorem canonical_read_line:
  assumes "tty_inv st" "canonical st" "in_q st = l @ c # rest" "\<forall>c \<in> set l. c \<noteq> 10 \<and> c \<noteq> 13" "c = 10 \<or> c = 13"
  shows "\<exists>st'. tty_read buf n ticks st = Some (of_nat (min (length l + 1) (unat n)),
      blit buf 0 (take (min (length l + 1) (unat n)) (l @ [c])), ticks, [], st') \<and> in_q st' = rest \<and> tty_inv st'"
  using canonical_read_ready [OF assms] by blast

definition sample_tty :: tty_state where
  "sample_tty = (fst tty_init)\<lparr>tty_in_buf := [104, 105, 10, 120] @ replicate 124 0, avail_in := 4\<rparr>"

lemma sample_tty_inv: "tty_inv sample_tty" "canonical sample_tty" "in_q sample_tty = [104, 105] @ 10 # [120]"
  by (simp_all add: sample_tty_def tty_init_def tty_inv_def termios_size_def NCCS_def in_q_def) code_simp

theorem canonical_read_line_witness:
  "\<exists>st'. tty_read [0, 0] 2 [] sample_tty = Some (2, [104, 105], [], [], st') \<and> in_q st' = [120]"
  using canonical_read_line [OF sample_tty_inv, of "[0, 0]" 2 "[]"] by (auto simp: blit_def numeral_2_eq_2 [symmetric])

lemma blocked_read_returns:
  assumes "tty_inv st" "canonical st" "\<forall>c \<in> set (in_q st). c \<noteq> 10 \<and> c \<noteq> 13"
    and t: "\<forall>ks' \<in> set ticks. \<forall>c \<in> set ks'. plain_key c \<and> c \<noteq> 10 \<and> c \<noteq> 13" "\<forall>c \<in> set ks. plain_key c \<and> c \<noteq> 10 \<and> c \<noteq> 13"
    "length (in_q st) + length (concat ticks) + length ks < 128" "length (in_q st @ concat ticks @ ks) < unat n"
  shows "\<exists>r shown st'. tty_read buf n (ticks @ (ks @ [10]) # later) st
    = Some (r, blit buf 0 (in_q st @ concat ticks @ ks @ [10]), later, shown, st') \<and> in_q st' = []"
proof -
  let ?l = "in_q st @ concat ticks @ ks"
  obtain shown st1 where w: "tty_wait (\<lambda>s. tty_find_newline s \<noteq> None) (ticks @ (ks @ [10]) # later) [] st = Some (later, shown, st1)"
    "in_q st1 = ?l @ 10 # []" "tty_inv st1"
    using line_arrives [OF assms(1,2,3) t(1), of ks "[]" 10 later "[]"] t(2,3) by auto
  have nn: "\<forall>c \<in> set ?l. c \<noteq> 10 \<and> c \<noteq> 13" using assms(3) t(1,2) by auto
  have f: "tty_find_newline st1 = Some (length ?l)" using find_newline_at [OF w(2) nn] by simp
  have k: "length ?l + 1 \<le> unat n" using t(4) by simp
  have sl: "slice (tty_in_buf st1) 0 (length ?l + 1) = ?l @ [10]"
    using slice_in_q [OF w(3), of "length ?l + 1"] w(2) by simp
  have e: "in_q (tty_consume (length ?l + 1) st1) = []" using consume_law(1) [OF w(3), of "length ?l + 1"] w(2) by simp
  define m where "m = (if length ?l + 1 < unat n then length ?l + 1 else unat n)"
  have m: "m = length ?l + 1" using k by (simp add: m_def)
  have "tty_read buf n (ticks @ (ks @ [10]) # later) st
      = Some (of_nat m, blit buf 0 (slice (tty_in_buf st1) 0 m), later, shown, tty_consume (length ?l + 1) st1)"
    using assms(2) w(1) f by (simp add: tty_read_def m_def Let_def)
  then show ?thesis
    using e unfolding m sl by auto
qed

text \<open>A blocked canonical read ends with the line. Keys that arrive over any number of ticks, the last of
  them bringing the newline, are returned in the order typed as long as they fit in the 128 bytes of
  the queue. But a full queue without a newline ends no read, however long it waits, unless something is
  erased.\<close>
theorem canonical_read_waits:
  assumes "tty_inv st" "canonical st" "\<forall>c \<in> set (in_q st). c \<noteq> 10 \<and> c \<noteq> 13"
  shows "((\<forall>ks' \<in> set ticks. \<forall>c \<in> set ks'. plain_key c \<and> c \<noteq> 10 \<and> c \<noteq> 13) \<longrightarrow> (\<forall>c \<in> set ks. plain_key c \<and> c \<noteq> 10 \<and> c \<noteq> 13) \<longrightarrow>
      length (in_q st) + length (concat ticks) + length ks < 128 \<longrightarrow> length (in_q st @ concat ticks @ ks) < unat n \<longrightarrow>
      (\<exists>r shown st'. tty_read buf n (ticks @ (ks @ [10]) # later) st
        = Some (r, blit buf 0 (in_q st @ concat ticks @ ks @ [10]), later, shown, st') \<and> in_q st' = []))
    \<and> (length (in_q st) = 128 \<longrightarrow> (\<forall>ks \<in> set ticks. \<forall>c \<in> set ks. plain_key c) \<longrightarrow> tty_read buf n ticks st = None)"
proof (intro conjI impI)
  assume "\<forall>ks' \<in> set ticks. \<forall>c \<in> set ks'. plain_key c \<and> c \<noteq> 10 \<and> c \<noteq> 13" "\<forall>c \<in> set ks. plain_key c \<and> c \<noteq> 10 \<and> c \<noteq> 13"
    "length (in_q st) + length (concat ticks) + length ks < 128" "length (in_q st @ concat ticks @ ks) < unat n"
  then show "\<exists>r shown st'. tty_read buf n (ticks @ (ks @ [10]) # later) st
      = Some (r, blit buf 0 (in_q st @ concat ticks @ ks @ [10]), later, shown, st') \<and> in_q st' = []"
    by (rule blocked_read_returns [OF assms])
next
  assume "length (in_q st) = 128" "\<forall>ks \<in> set ticks. \<forall>c \<in> set ks. plain_key c"
  then show "tty_read buf n ticks st = None"
    using full_line_waits [OF assms(1) _ assms(3)] assms(2) by (simp add: tty_read_def)
qed

definition full_tty :: tty_state where
  "full_tty = (fst tty_init)\<lparr>tty_in_buf := replicate 128 97, avail_in := 128\<rparr>"

theorem canonical_read_waits_witness:
  "(\<exists>r shown st'. tty_read [0, 0, 0, 0] 4 [[104], [105, 10]] (fst tty_init) = Some (r, [104, 105, 10, 0], [], shown, st'))
   \<and> tty_read [0, 0, 0, 0] 4 [[98], [10]] full_tty = None"
proof -
  have i: "tty_inv (fst tty_init)" "canonical (fst tty_init)" "in_q (fst tty_init) = []"
    by (simp_all add: tty_init_def tty_inv_def termios_size_def NCCS_def in_q_def) code_simp
  have f: "tty_inv full_tty" "canonical full_tty" "in_q full_tty = replicate 128 97"
    by (simp_all add: full_tty_def tty_init_def tty_inv_def termios_size_def NCCS_def in_q_def) code_simp
  have "\<exists>r shown st'. tty_read [0, 0, 0, 0] 4 [[104], [105, 10]] (fst tty_init) = Some (r, [104, 105, 10, 0], [], shown, st') \<and> in_q st' = []"
    using canonical_read_waits [OF i(1,2), of "[[104]]" "[105]" 4 "[0, 0, 0, 0]" "[]"] i(3) by (simp add: plain_key_def blit_def)
  moreover have "tty_read [0, 0, 0, 0] 4 [[98], [10]] full_tty = None"
    using canonical_read_waits [OF f(1,2), of "[[98], [10]]" "[]" 4 "[0, 0, 0, 0]" "[]"] f(3) by (simp add: plain_key_def)
  ultimately show ?thesis by blast
qed

section \<open>Output\<close>

text \<open>What is written reaches the screen in order. \<open>tty_write\<close> accepts as many bytes as the output queue
  has room for and says so; at the next tick the keys typed are echoed if echo is on, then everything
  queued is shown in the order written, up to a NUL, and the queue is empty.\<close>
theorem tty_output_in_order:
  assumes "tty_inv st" "unat n \<le> length buf" "\<forall>c \<in> set (out_q st) \<union> set (take (unat n) buf). c \<noteq> 0" "\<forall>c \<in> set keys. plain_key c"
  shows "unat (fst (tty_write buf n st)) = min (unat n) (128 - length (out_q st))
    \<and> fst (tty_system_process_tty keys (snd (tty_write buf n st)))
      = (if echo_on st then keys else []) @ out_q st @ take (unat (fst (tty_write buf n st))) buf
    \<and> out_q (snd (tty_system_process_tty keys (snd (tty_write buf n st)))) = []"
proof -
  note w = write_law [OF assms(1,2)]
  note p = process_tty_law [OF w(2) assms(4)]
  have l: "length (out_q st) \<le> 128" using length_out_q [OF assms(1)] assms(1) by (simp add: tty_inv_def)
  have q: "out_q (snd (tty_write buf n st)) = out_q st @ take (unat (fst (tty_write buf n st))) buf"
    using w(1,5) l by (simp add: min_def)
  have "set (take (unat (fst (tty_write buf n st))) buf) \<subseteq> set (take (unat n) buf)"
    unfolding w(5) by (rule set_take_subset_set_take) simp
  then have nz: "takeWhile (\<lambda>c. c \<noteq> 0) (out_q (snd (tty_write buf n st))) = out_q (snd (tty_write buf n st))"
    unfolding q using assms(3) by (intro takeWhile_eq_all_conv [THEN iffD2]) auto
  have "echo_on (snd (tty_write buf n st)) = echo_on st" using w(4) by (simp add: echo_on_def)
  then show ?thesis using p(1,4) w(5) unfolding nz by (simp add: q)
qed

theorem tty_output_in_order_witness:
  "fst (tty_system_process_tty [120] (snd (tty_write [104, 105] 2 (fst tty_init)))) = [120, 104, 105]"
proof -
  have i: "tty_inv (fst tty_init)" "out_q (fst tty_init) = []" "echo_on (fst tty_init)"
    by (simp_all add: tty_init_def tty_inv_def termios_size_def NCCS_def out_q_def) code_simp
  show ?thesis using tty_output_in_order [OF i(1), of 2 "[104, 105]" "[120]"] i(2,3) by (simp add: plain_key_def)
qed

section \<open>Every operation keeps the state well formed\<close>

lemma tty_wait_inv:
  "tty_wait ready ticks shown st = Some (ticks', shown', st') \<Longrightarrow> tty_inv st \<Longrightarrow> tty_inv st' \<and> ready st'"
proof (induction ready ticks shown st rule: tty_wait.induct)
  case (1 ready ticks shown st)
  show ?case
  proof (cases "ready st")
    case True
    then show ?thesis using "1.prems" by (simp add: tty_wait.simps)
  next
    case False
    then obtain keys rest where t: "ticks = keys # rest" using "1.prems" by (cases ticks) (auto simp: tty_wait.simps)
    obtain out s1 where o: "tty_system_process_tty keys st = (out, s1)" by (cases "tty_system_process_tty keys st")
    have "tty_inv s1" using process_tty_inv [OF "1.prems"(2), of keys] o by simp
    then show ?thesis using "1.IH" [OF False t o [symmetric]] "1.prems" wait_step [of ready st keys rest shown] False t o by simp
  qed
qed

lemma takeWhile_shorter: "\<exists>c \<in> set s. \<not> P c \<Longrightarrow> length (takeWhile P s) < length s"
  by (induction s) auto

lemma tty_read_inv:
  assumes "tty_inv st" "tty_read buf n ticks st = Some (r, buf', ticks', shown, st')"
  shows "tty_inv st'"
proof (cases "canonical st")
  case True
  then obtain st1 nl where w: "tty_wait (\<lambda>s. tty_find_newline s \<noteq> None) ticks [] st = Some (ticks', shown, st1)"
    "tty_find_newline st1 = Some nl" "st' = tty_consume (nl + 1) st1"
    using assms(2) by (auto simp: tty_read_def Let_def bind_eq_Some_conv)
  have i: "tty_inv st1" using tty_wait_inv [OF w(1) assms(1)] by simp
  have "nl < length (in_q st1)"
  proof -
    have "nl = length (takeWhile (\<lambda>c. c \<noteq> 10 \<and> c \<noteq> 13) (in_q st1))" "\<exists>c \<in> set (in_q st1). c = 10 \<or> c = 13"
      using w(2) unfolding tty_find_newline_def in_q_def [symmetric] find_newline_law by (auto split: if_splits)
    then show ?thesis using takeWhile_shorter [of "in_q st1" "\<lambda>c. c \<noteq> 10 \<and> c \<noteq> 13"] by auto
  qed
  then show ?thesis using consume_law(2) [OF i, of "nl + 1"] w(3) by simp
next
  case False
  then obtain st1 where w: "tty_wait (\<lambda>s. \<not> (ucast (avail_in s) < n)) ticks [] st = Some (ticks', shown, st1)"
    "st' = tty_consume (unat n) st1"
    using assms(2) by (auto simp: tty_read_def bind_eq_Some_conv)
  have i: "tty_inv st1" "\<not> (ucast (avail_in st1) < n)" using tty_wait_inv [OF w(1) assms(1)] by auto
  then have "unat n \<le> unat (ucast (avail_in st1) :: u32)" by (simp add: word_less_nat_alt)
  also have "\<dots> = unat (avail_in st1)" using i(1) by (simp add: unsigned_ucast_eq take_bit_nat_eq_self tty_inv_def)
  finally have "unat n \<le> length (in_q st1)" using length_in_q [OF i(1)] by simp
  then show ?thesis using consume_law(2) [OF i(1)] w(2) by simp
qed

text \<open>C19: every operation of the terminal keeps its state well formed: both fill counts stay within the 128
  bytes of their buffers, whatever keys arrive, whatever is written or read, and the control structure
  keeps its size.\<close>
theorem tty_ops_typed:
  assumes "tty_inv st"
  shows "tty_inv (tty_system_tty_input c st) \<and> tty_inv (snd (tty_system_tty_output_getchar st))
    \<and> tty_inv (snd (tty_system_process_tty keys st))
    \<and> (unat n \<le> length buf \<longrightarrow> tty_inv (snd (tty_write buf n st)))
    \<and> (\<forall>r buf' ticks' shown st'. tty_read buf n ticks st = Some (r, buf', ticks', shown, st') \<longrightarrow> tty_inv st')
    \<and> (termios_size \<le> length arg \<longrightarrow> tty_inv (snd (snd (tty_ioctl req arg st))))"
proof -
  have "tty_inv (snd (snd (tty_ioctl req arg st)))" if "termios_size \<le> length arg"
    using assms that by (simp add: tty_ioctl_def tty_inv_def)
  then show ?thesis
    using input_law(2) [OF assms] getchar_law(3) [OF assms] process_tty_inv [OF assms] write_law(2) [OF assms] tty_read_inv [OF assms]
    by blast
qed

theorem tty_ops_typed_witness:
  "tty_inv (snd (tty_system_process_tty [8, 104, 8, 8, 10] (fst tty_init)))"
proof -
  have "tty_inv (fst tty_init)" by (simp add: tty_init_def tty_inv_def termios_size_def NCCS_def)
  from tty_ops_typed [OF this] show ?thesis by blast
qed

text \<open>A raw read of nothing says -1, and one of more than 128 bytes waits for ever.\<close>

lemma raw_read_none: "\<not> canonical st \<Longrightarrow> \<exists>st'. tty_read buf 0 ticks st = Some (- 1, blit buf 0 [], ticks, [], st')"
  by (simp add: tty_read_def tty_wait.simps [of _ ticks] slice_def)

lemma raw_read_too_long:
  assumes "tty_inv st" "\<not> canonical st" "128 < n"
  shows "tty_read buf n ticks st = None"
proof (rule ccontr)
  assume "tty_read buf n ticks st \<noteq> None"
  then obtain ticks' shown st1 where w: "tty_wait (\<lambda>s. \<not> (ucast (avail_in s) < n)) ticks [] st = Some (ticks', shown, st1)"
    using assms(2) by (auto simp: tty_read_def bind_eq_None_conv split: bind_splits)
  have i: "tty_inv st1" "\<not> (ucast (avail_in st1) < n)" using tty_wait_inv [OF w assms(1)] by auto
  then have "unat n \<le> unat (ucast (avail_in st1) :: u32)" by (simp add: word_less_nat_alt)
  also have "\<dots> = unat (avail_in st1)" using i(1) by (simp add: unsigned_ucast_eq take_bit_nat_eq_self tty_inv_def)
  finally show False using i(1) assms(3) by (simp add: tty_inv_def word_less_nat_alt)
qed

end
