(* ===== verification/Fd.thy ===== *)
theory Fd
  imports Tty
begin

text \<open>
  File descriptors: final/src/fd.c and \<open>mount_fcntl\<close> of mount.c. A descriptor table is the list of its 64
  pointers; file structures live in a store, so that two slots, or the tables of two threads, can point
  to one file. Memory for a file structure is taken from a supply of fresh addresses (that kalloc hands
  out blocks nobody owns is proved of the allocator) and given back by removing it from the store:
  following a pointer to a file that was freed has no value.
\<close>

section \<open>State\<close>

definition MAX_FD :: nat where "MAX_FD = 64"

text \<open>What the descriptor calls work on: the current thread's table and working directory, the files, the
  terminal with the bytes shown so far, and the volume.\<close>

record io_state =
  io_fdt :: "nat list"
  io_files :: "nat \<Rightarrow> kfile option"
  io_next :: nat
  io_tty :: tty_state
  io_screen :: "u8 list"
  io_fs :: fs_state
  io_cwd :: bytes

definition fd0 :: nat where "fd0 = 1"
definition fd1 :: nat where "fd1 = 2"
definition fd2 :: nat where "fd2 = 3"

definition init_fdtable :: "nat list" where
  "init_fdtable = (replicate MAX_FD 0)[0 := fd0, 1 := fd1, 2 := fd2]"

fun alloc_from :: "nat list \<Rightarrow> nat \<Rightarrow> nat option" where
  "alloc_from [] i = None"
| "alloc_from (a # t) i = (if a = 0 then Some i else alloc_from t (i + 1))"

definition alloc_fd :: "nat list \<Rightarrow> nat \<Rightarrow> u32 \<times> nat list" where
  "alloc_fd t f = (case alloc_from t 0 of Some i \<Rightarrow> (of_nat i, t[i := f]) | None \<Rightarrow> (- 24, t))"

definition fd_get :: "nat list \<Rightarrow> u32 \<Rightarrow> nat" where
  "fd_get t fd = (if sint fd < 0 \<or> sint fd \<ge> int MAX_FD then 0 else t ! unat fd)"

definition put_file :: "nat \<Rightarrow> kfile \<Rightarrow> io_state \<Rightarrow> io_state" where
  "put_file a f st = st\<lparr>io_files := (io_files st)(a := Some f)\<rparr>"

section \<open>Calls on a descriptor\<close>

definition sys_close :: "u32 \<Rightarrow> io_state \<Rightarrow> (u32 \<times> io_state) option" where
  "sys_close fd st =
     (let a = fd_get (io_fdt st) fd in
      if a = 0 then Some (- 9, st)
      else do {
        f \<leftarrow> io_files st a;
        let st1 = st\<lparr>io_fdt := (io_fdt st)[unat fd := 0]\<rparr>; r = refcnt f - 1
        in Some (0, if r = 0 then st1\<lparr>io_files := (io_files st1)(a := None)\<rparr> else put_file a (f\<lparr>refcnt := r\<rparr>) st1)
      })"

definition sys_read :: "nat \<Rightarrow> fat_meta \<Rightarrow> u32 \<Rightarrow> u8 list \<Rightarrow> u32 \<Rightarrow> u8 list list \<Rightarrow> io_state
    \<Rightarrow> (u32 \<times> u8 list \<times> u8 list list \<times> io_state) option" where
  "sys_read fuel meta fd buf n ticks st =
     (let a = fd_get (io_fdt st) fd in
      if a = 0 then Some (- 9, buf, ticks, st)
      else do {
        f \<leftarrow> io_files st a;
        case ops f of
          TtyOps \<Rightarrow> do {
            (r, buf', ticks', shown, t) \<leftarrow> tty_read buf n ticks (io_tty st);
            Some (r, buf', ticks', st\<lparr>io_tty := t, io_screen := io_screen st @ shown\<rparr>)
          }
        | MountOps \<Rightarrow> do {
            (r, f', buf', fs) \<leftarrow> mount_read fuel meta f buf n (io_fs st);
            Some (r, buf', ticks, put_file a f' (st\<lparr>io_fs := fs\<rparr>))
          }
      })"

definition sys_write :: "nat \<Rightarrow> fat_meta \<Rightarrow> u32 \<Rightarrow> u8 list \<Rightarrow> u32 \<Rightarrow> io_state \<Rightarrow> (u32 \<times> io_state) option" where
  "sys_write fuel meta fd buf n st =
     (let a = fd_get (io_fdt st) fd in
      if a = 0 then Some (- 9, st)
      else do {
        f \<leftarrow> io_files st a;
        case ops f of
          TtyOps \<Rightarrow> (case tty_write buf n (io_tty st) of (r, t) \<Rightarrow> Some (r, st\<lparr>io_tty := t\<rparr>))
        | MountOps \<Rightarrow> do {
            (r, f', fs) \<leftarrow> mount_write fuel meta f buf n (io_fs st);
            Some (r, put_file a f' (st\<lparr>io_fs := fs\<rparr>))
          }
      })"

definition sys_lseek :: "u32 \<Rightarrow> u32 \<Rightarrow> u32 \<Rightarrow> io_state \<Rightarrow> (u32 \<times> io_state) option" where
  "sys_lseek fd offset whence st =
     (let a = fd_get (io_fdt st) fd in
      if a = 0 then Some (- 9, st)
      else do {
        f \<leftarrow> io_files st a;
        case ops f of
          TtyOps \<Rightarrow> Some (tty_lseek offset whence, st)
        | MountOps \<Rightarrow> do {
            (r, f') \<leftarrow> mount_lseek f offset whence;
            Some (r, put_file a f' st)
          }
      })"

text \<open>\<open>arg\<close> is the memory the third argument points to.\<close>

definition sys_ioctl :: "u32 \<Rightarrow> u32 \<Rightarrow> u8 list \<Rightarrow> io_state \<Rightarrow> (u32 \<times> u8 list \<times> io_state) option" where
  "sys_ioctl fd req arg st =
     (let a = fd_get (io_fdt st) fd in
      if a = 0 then Some (- 9, arg, st)
      else do {
        f \<leftarrow> io_files st a;
        case ops f of
          TtyOps \<Rightarrow> (case tty_ioctl req arg (io_tty st) of (r, arg', t) \<Rightarrow> Some (r, arg', st\<lparr>io_tty := t\<rparr>))
        | MountOps \<Rightarrow> Some (mount_ioctl f req 0, arg, st)
      })"

text \<open>\<open>F_GETFL\<close> is 3, \<open>F_DUPFD_CLOEXEC\<close> is 1030.\<close>

definition mount_fcntl :: "nat \<Rightarrow> kfile \<Rightarrow> u32 \<Rightarrow> u32 \<Rightarrow> io_state \<Rightarrow> u32 \<times> io_state" where
  "mount_fcntl a f cmd arg st =
     (if cmd = 3 then (O_RDWR, st)
      else if cmd = 1030 then
        (case alloc_fd (io_fdt st) a of (new_fd, t) \<Rightarrow>
           if sint new_fd < 0 then (- EMFILE, st)
           else (new_fd, put_file a (f\<lparr>refcnt := refcnt f + 1\<rparr>) (st\<lparr>io_fdt := t\<rparr>)))
      else (0, st))"

definition sys_fcntl :: "u32 \<Rightarrow> u32 \<Rightarrow> u32 \<Rightarrow> io_state \<Rightarrow> (u32 \<times> io_state) option" where
  "sys_fcntl fd cmd arg st =
     (let a = fd_get (io_fdt st) fd in
      if a = 0 then Some (- 9, st)
      else do {
        f \<leftarrow> io_files st a;
        Some (case ops f of TtyOps \<Rightarrow> (tty_fcntl cmd arg, st) | MountOps \<Rightarrow> mount_fcntl a f cmd arg st)
      })"

section \<open>Opening and duplicating\<close>

definition dev_prefix :: bytes where "dev_prefix = [47, 100, 101, 118]"

text \<open>The new file points to its own entry and to its parent's, which may be null. A table without room
  frees the file structure again, not its entries.\<close>

definition sys_openat :: "nat \<Rightarrow> fat_meta \<Rightarrow> u32 \<Rightarrow> bytes option \<Rightarrow> u32 \<Rightarrow> u32 \<Rightarrow> io_state \<Rightarrow> (u32 \<times> io_state) option" where
  "sys_openat fuel meta dfd path flgs mode st =
     (if (case path of None \<Rightarrow> False | Some q \<Rightarrow> strn_eq q dev_prefix 4) then Some (- ENOSYS, st)
      else do {
        (clus, fs1) \<leftarrow> mount_openat fuel meta (io_cwd st) dfd path flgs (io_fs st);
        if sint clus < 0 then Some (clus, st\<lparr>io_fs := fs1\<rparr>)
        else do {
          (de, fs2) \<leftarrow> mount_get_dirent fuel meta (io_cwd st) path (dfd = AT_FDCWD) False fs1;
          if de = None then Some (- 22, st\<lparr>io_fs := fs2\<rparr>)
          else do {
            (pd, fs3) \<leftarrow> mount_get_dirent fuel meta (io_cwd st) path (dfd = AT_FDCWD) True fs2;
            let f = \<lparr>refcnt = 1, flags = flgs, pos = 0, priv = Some \<lparr>priv_dirent = de, priv_parent = pd\<rparr>, ops = MountOps\<rparr>;
                a = io_next st; st1 = st\<lparr>io_fs := fs3, io_next := a + 1\<rparr>
            in case alloc_fd (io_fdt st) a of (fd, t) \<Rightarrow>
                 if sint fd < 0 then Some (fd, st1) else Some (fd, put_file a f (st1\<lparr>io_fdt := t\<rparr>))
          }
        }
      })"

definition sys_create :: "nat \<Rightarrow> fat_meta \<Rightarrow> bytes option \<Rightarrow> u32 \<Rightarrow> io_state \<Rightarrow> (u32 \<times> io_state) option" where
  "sys_create fuel meta pathname mode st = sys_openat fuel meta AT_FDCWD pathname (O_CREAT OR O_RDWR) mode st"

definition sys_dup2 :: "u32 \<Rightarrow> u32 \<Rightarrow> io_state \<Rightarrow> (u32 \<times> io_state) option" where
  "sys_dup2 oldfd newfd st =
     (if sint oldfd < 0 \<or> sint oldfd \<ge> int MAX_FD \<or> sint newfd < 0 \<or> sint newfd \<ge> int MAX_FD then Some (- EACCES, st)
      else let a = fd_get (io_fdt st) oldfd in
        if a = 0 then Some (- EBADF, st)
        else if newfd = oldfd then Some (newfd, st)
        else do {
          st1 \<leftarrow> (if io_fdt st ! unat newfd \<noteq> 0 then map_option snd (sys_close newfd st) else Some st);
          f \<leftarrow> io_files st1 a;
          Some (newfd, put_file a (f\<lparr>refcnt := refcnt f + 1\<rparr>) (st1\<lparr>io_fdt := (io_fdt st1)[unat newfd := a]\<rparr>))
        })"

section \<open>Polling\<close>

record pollfd =
  pl_fd :: u32
  pl_events :: u16
  pl_revents :: u16

text \<open>The last component says that the thread sleeps for a tick and then makes the call again.\<close>

fun poll_loop :: "pollfd list \<Rightarrow> tty_state \<Rightarrow> pollfd list \<times> nat" where
  "poll_loop [] t = ([], 0)"
| "poll_loop (p # ps) t =
     (let rdy = (pl_fd p = 0 \<and> tty_system_tty_input_available t \<noteq> 0)
      in case poll_loop ps t of (ps', k) \<Rightarrow>
           (p\<lparr>pl_revents := if rdy then 1 else 0\<rparr> # ps', if rdy then k + 1 else k))"

definition sys_fd_poll :: "pollfd list \<Rightarrow> u32 \<Rightarrow> io_state \<Rightarrow> u32 \<times> pollfd list \<times> bool" where
  "sys_fd_poll fds timeout st =
     (case poll_loop fds (io_tty st) of (fds', rdy) \<Rightarrow>
        if 0 < rdy \<or> 0 \<le> sint timeout then (of_nat rdy, fds', False)
        else (of_nat (length fds), fds', True))"

section \<open>Reference counts\<close>

text \<open>A table agrees with the files: it has 64 slots, every slot in use points to a file, the count of a
  file of the volume is the number of slots that point to it, and no such file is without a slot.\<close>

definition refs_ok :: "io_state \<Rightarrow> bool" where
  "refs_ok st \<longleftrightarrow> length (io_fdt st) = MAX_FD \<and> 0 < io_next st \<and> io_files st 0 = None
     \<and> (\<forall>a. io_next st \<le> a \<longrightarrow> io_files st a = None)
     \<and> (\<forall>a \<in> set (io_fdt st). a = 0 \<or> io_files st a \<noteq> None)
     \<and> (\<forall>a f. io_files st a = Some f \<longrightarrow> ops f = MountOps \<longrightarrow> unat (refcnt f) = count_list (io_fdt st) a \<and> a \<in> set (io_fdt st))"

lemma count_update: "i < length xs \<Longrightarrow> count_list (xs[i := y]) a + (if xs ! i = a then 1 else 0) = count_list xs a + (if y = a then 1 else 0)"
proof (induction xs arbitrary: i)
  case (Cons x xs)
  show ?case
  proof (cases i)
    case 0
    then show ?thesis by simp
  next
    case (Suc k)
    then show ?thesis using Cons.IH [of k] Cons.prems by (simp split: if_splits)
  qed
qed simp

lemma count_pos: "a \<in> set xs \<Longrightarrow> 0 < count_list xs a"
  using count_list_0_iff [of xs a] by simp

lemma sint_u32: "sint (w :: u32) = (if unat w < 2147483648 then int (unat w) else int (unat w) - 4294967296)"
proof -
  define n where "n = unat w"
  have u: "uint w = int n" and n: "n < 4294967296" by (simp_all add: n_def)
  have "int n div 2147483648 = (if n < 2147483648 then 0 else 1)"
  proof (cases "n < 2147483648")
    case False
    then have "int n = 2147483648 + (int n - 2147483648)" "0 \<le> int n - 2147483648" "int n - 2147483648 < 2147483648"
      using n by linarith+
    then show ?thesis using False by (simp add: int_div_pos_eq)
  qed simp
  then have b: "bit (int n) 31 \<longleftrightarrow> \<not> n < 2147483648" by (simp add: bit_iff_odd)
  have "take_bit 32 (int n) = int n" using n by (intro take_bit_int_eq_self) simp_all
  moreover have "sint w = take_bit 32 (int n) - 2 ^ 32 * of_bool (bit (int n) 31)"
    using signed_take_bit_eq_take_bit_minus [of 31 "int n"] by (simp add: sint_uint u)
  ultimately show ?thesis using b unfolding n_def [symmetric] by simp
qed

lemma set_update_iff: "i < length xs \<Longrightarrow> b \<in> set (xs[i := y]) \<longleftrightarrow> b = y \<or> (\<exists>j < length xs. j \<noteq> i \<and> xs ! j = b)"
  by (auto simp: in_set_conv_nth nth_list_update)

lemma fd_range: "\<not> (sint fd < 0 \<or> sint fd \<ge> int MAX_FD) \<longleftrightarrow> unat (fd :: u32) < MAX_FD"
proof -
  define n where "n = unat fd"
  have "n < 4294967296" by (simp add: n_def)
  then show ?thesis unfolding sint_u32 MAX_FD_def n_def [symmetric] by auto
qed

lemma fd_get_in: "unat fd < MAX_FD \<Longrightarrow> fd_get t fd = t ! unat fd"
  using fd_range [of fd] by (auto simp: fd_get_def)

lemma fd_get_nonzero: "fd_get t fd \<noteq> 0 \<Longrightarrow> unat fd < MAX_FD \<and> fd_get t fd = t ! unat fd"
  using fd_range [of fd] by (auto simp: fd_get_def split: if_splits)

lemma alloc_from_law:
  "alloc_from t i = (if 0 \<in> set t then Some (i + length (takeWhile (\<lambda>a. a \<noteq> 0) t)) else None)"
  by (induction t arbitrary: i) auto

lemma first_zero:
  assumes "0 \<in> set (t :: nat list)"
  defines "k \<equiv> length (takeWhile (\<lambda>a. a \<noteq> 0) t)"
  shows "k < length t" "t ! k = 0" "\<forall>j < k. t ! j \<noteq> 0"
proof -
  have "takeWhile (\<lambda>a. a \<noteq> 0) t \<noteq> t"
  proof
    assume "takeWhile (\<lambda>a. a \<noteq> 0) t = t"
    then have "\<forall>x \<in> set t. x \<noteq> 0" by (simp add: takeWhile_eq_all_conv)
    with assms(1) show False by blast
  qed
  then show kl: "k < length t" unfolding k_def
    using takeWhile_shorter [of t "\<lambda>a. a \<noteq> 0"] assms(1) by blast
  show "t ! k = 0" using nth_length_takeWhile [of "\<lambda>a. a \<noteq> 0" t] kl by (simp add: k_def)
  show "\<forall>j < k. t ! j \<noteq> 0"
  proof (intro allI impI)
    fix j assume j: "j < k"
    then have "t ! j = takeWhile (\<lambda>a. a \<noteq> 0) t ! j" by (simp add: k_def takeWhile_nth)
    moreover have "takeWhile (\<lambda>a. a \<noteq> 0) t ! j \<in> set (takeWhile (\<lambda>a. a \<noteq> 0) t)" using j by (simp add: k_def)
    ultimately show "t ! j \<noteq> 0" using set_takeWhileD by fastforce
  qed
qed

section \<open>Closing and duplicating\<close>

lemma refs_okD:
  assumes "refs_ok st" "io_fdt st ! k = a" "k < MAX_FD" "a \<noteq> 0"
  obtains f where "io_files st a = Some f" "a \<in> set (io_fdt st)"
proof -
  have "a \<in> set (io_fdt st)" using assms by (metis nth_mem refs_ok_def)
  then show ?thesis using assms that by (auto simp: refs_ok_def)
qed

lemma count_le: "count_list (io_fdt st) a \<le> length (io_fdt st)"
  by (rule count_le_length)

lemma sys_close_law:
  assumes "refs_ok st" "fd_get (io_fdt st) fd = a" "a \<noteq> 0" "io_files st a = Some f" "ops f = MountOps"
  defines "t \<equiv> (io_fdt st)[unat fd := 0]"
  obtains st' where "sys_close fd st = Some (0, st')" "io_fdt st' = t" "refs_ok st'"
    "io_files st' = (io_files st)(a := if a \<in> set t then Some (f\<lparr>refcnt := refcnt f - 1\<rparr>) else None)"
    "io_next st' = io_next st"
proof -
  have fd: "unat fd < MAX_FD" "io_fdt st ! unat fd = a" using fd_get_nonzero [of "io_fdt st" fd] assms(2,3) by auto
  have l: "length (io_fdt st) = MAX_FD" "length t = MAX_FD" using assms(1) by (simp_all add: refs_ok_def t_def)
  have c: "unat (refcnt f) = count_list (io_fdt st) a" "a \<in> set (io_fdt st)" using assms(1,4,5) by (auto simp: refs_ok_def)
  have ca: "count_list t b + (if a = b then 1 else 0) = count_list (io_fdt st) b + (if 0 = b then 1 else 0)" for b
    using count_update [of "unat fd" "io_fdt st" 0 b] fd l by (simp add: t_def)
  have c1: "count_list t a + 1 = unat (refcnt f)" using ca [of a] assms(3) c(1) by simp
  have r: "unat (refcnt f - 1) = count_list t a" using c1 by (subst unat_sub_le) (simp_all add: word_le_nat_alt)
  have z: "refcnt f - 1 = 0 \<longleftrightarrow> a \<notin> set t" using r count_list_0_iff [of t a] by (metis unat_eq_zero)
  define st' where "st' = (if refcnt f - 1 = 0 then st\<lparr>io_fdt := t, io_files := (io_files st)(a := None)\<rparr>
      else put_file a (f\<lparr>refcnt := refcnt f - 1\<rparr>) (st\<lparr>io_fdt := t\<rparr>))"
  have files: "io_files st' = (io_files st)(a := if a \<in> set t then Some (f\<lparr>refcnt := refcnt f - 1\<rparr>) else None)"
    using z by (simp add: st'_def put_file_def)
  have ft: "io_fdt st' = t" "io_next st' = io_next st" by (simp_all add: st'_def put_file_def)
  have st: "b \<in> set (io_fdt st)" if "b \<in> set t" "b \<noteq> 0" for b
  proof -
    have "b = 0 \<or> b \<in> set (io_fdt st)" using set_update_subset_insert [of "io_fdt st" "unat fd" 0] that(1) unfolding t_def by blast
    then show ?thesis using that(2) by simp
  qed
  have mem: "b \<in> set t \<longleftrightarrow> b \<in> set (io_fdt st)" if "b \<noteq> 0" "b \<noteq> a" for b
    using ca [of b] that count_list_0_iff [of t b] count_list_0_iff [of "io_fdt st" b] by auto
  have an: "a < io_next st" using assms(1,4) by (metis leI option.distinct(1) refs_ok_def)
  have "refs_ok st'"
    unfolding refs_ok_def ft files
  proof (intro conjI allI impI ballI)
    fix b g assume g: "((io_files st)(a := if a \<in> set t then Some (f\<lparr>refcnt := refcnt f - 1\<rparr>) else None)) b = Some g" "ops g = MountOps"
    have b0: "b \<noteq> 0" using g(1) assms(1,3) by (cases "b = 0") (simp_all add: refs_ok_def)
    show "unat (refcnt g) = count_list t b" "b \<in> set t"
      using g assms(1) r ca [of b] mem [OF b0] b0 by (auto simp: refs_ok_def split: if_splits)
  qed (use assms(1,3) l st an in \<open>auto simp: refs_ok_def split: if_splits\<close>)
  moreover have "sys_close fd st = Some (0, st')"
    using assms(2-4) by (simp add: sys_close_def st'_def t_def Let_def)
  ultimately show ?thesis using that ft files by blast
qed

lemma add_ref_law:
  assumes "refs_ok st" "k < MAX_FD" "io_fdt st ! k = 0" "a \<noteq> 0" "io_files st a = Some f" "ops f = MountOps"
  defines "st' \<equiv> put_file a (f\<lparr>refcnt := refcnt f + 1\<rparr>) (st\<lparr>io_fdt := (io_fdt st)[k := a]\<rparr>)"
  shows "refs_ok st'"
proof -
  let ?t = "(io_fdt st)[k := a]"
  have l: "length (io_fdt st) = MAX_FD" using assms(1) by (simp add: refs_ok_def)
  have c: "unat (refcnt f) = count_list (io_fdt st) a" using assms(1,5,6) by (auto simp: refs_ok_def)
  have ca: "count_list ?t b + (if 0 = b then 1 else 0) = count_list (io_fdt st) b + (if a = b then 1 else 0)" for b
    using count_update [of k "io_fdt st" a b] assms(2,3) l by simp
  have "count_list (io_fdt st) a \<le> 64" using count_le [of st a] l by (simp add: MAX_FD_def)
  then have r: "unat (refcnt f + 1) = count_list ?t a" using ca [of a] assms(4) c by (simp add: unat_add_no_wrap)
  have an: "a < io_next st" using assms(1,5) by (metis leI option.distinct(1) refs_ok_def)
  have sub: "b \<in> set ?t \<Longrightarrow> b = a \<or> b \<in> set (io_fdt st)" for b
    using set_update_subset_insert [of "io_fdt st" k a] by blast
  have sup: "b \<in> set (io_fdt st) \<Longrightarrow> b \<noteq> 0 \<Longrightarrow> b \<in> set ?t" for b
    using ca [of b] count_list_0_iff [of ?t b] count_list_0_iff [of "io_fdt st" b] by auto
  have at: "a \<in> set ?t" using assms(2) l by (simp add: set_update_memI)
  have ft: "io_fdt st' = ?t" "io_next st' = io_next st" "io_files st' = (io_files st)(a := Some (f\<lparr>refcnt := refcnt f + 1\<rparr>))"
    by (simp_all add: st'_def put_file_def)
  show ?thesis unfolding refs_ok_def ft
  proof (intro conjI allI impI ballI)
    fix b g assume g: "((io_files st)(a := Some (f\<lparr>refcnt := refcnt f + 1\<rparr>))) b = Some g" "ops g = MountOps"
    have b0: "b \<noteq> 0" using g(1) assms(1,4) by (cases "b = 0") (simp_all add: refs_ok_def)
    show "unat (refcnt g) = count_list ?t b"
      using g assms(1) r ca [of b] b0 by (cases "b = a") (auto simp: refs_ok_def)
    show "b \<in> set ?t" using g assms(1) at sup [OF _ b0] by (cases "b = a") (auto simp: refs_ok_def)
  next
    fix b assume "b \<in> set ?t"
    then show "b = 0 \<or> ((io_files st)(a := Some (f\<lparr>refcnt := refcnt f + 1\<rparr>))) b \<noteq> None"
      using sub assms(1) by (auto simp: refs_ok_def)
  qed (use assms(1,4) an l in \<open>auto simp: refs_ok_def\<close>)
qed

text \<open>C20: closing a descriptor of a file on the volume empties its slot and no other, frees the file exactly
  when no other slot points to it, and keeps the counts right; every other file is untouched.\<close>
theorem sys_close_refcount:
  assumes "refs_ok st" "fd_get (io_fdt st) fd = a" "a \<noteq> 0" "io_files st a = Some f" "ops f = MountOps"
  shows "\<exists>st'. sys_close fd st = Some (0, st') \<and> io_fdt st' = (io_fdt st)[unat fd := 0]
    \<and> (io_files st' a = None \<longleftrightarrow> a \<notin> set ((io_fdt st)[unat fd := 0]))
    \<and> (\<forall>b. b \<noteq> a \<longrightarrow> io_files st' b = io_files st b) \<and> refs_ok st'"
proof -
  obtain st' where "sys_close fd st = Some (0, st')" "io_fdt st' = (io_fdt st)[unat fd := 0]" "refs_ok st'"
    "io_files st' = (io_files st)(a := if a \<in> set ((io_fdt st)[unat fd := 0]) then Some (f\<lparr>refcnt := refcnt f - 1\<rparr>) else None)"
    using sys_close_law [OF assms] .
  then show ?thesis by auto
qed

text \<open>Three descriptors on two files.\<close>

definition sample_io :: io_state where
  "sample_io = \<lparr>io_fdt = (replicate MAX_FD 0)[3 := 4, 4 := 5, 7 := 4],
     io_files = (\<lambda>a. None)(4 := Some (sh_file\<lparr>refcnt := 2\<rparr>), 5 := Some (root_file)), io_next = 6, io_tty = fst tty_init,
     io_screen = [], io_fs = tree_fs, io_cwd = [47]\<rparr>"

lemma sample_fdt: "io_fdt sample_io = [0, 0, 0, 4, 5, 0, 0, 4] @ replicate 56 0"
  unfolding sample_io_def MAX_FD_def by simp code_simp

lemma sample_files: "io_files sample_io = (\<lambda>a. None)(4 := Some (sh_file\<lparr>refcnt := 2\<rparr>), 5 := Some (root_file))" "io_next sample_io = 6"
  by (simp_all add: sample_io_def)

lemma sample_refs: "refs_ok sample_io"
proof -
  have c: "count_list (io_fdt sample_io) 4 = 2" "count_list (io_fdt sample_io) 5 = 1" "set (io_fdt sample_io) = {0, 4, 5}"
    "length (io_fdt sample_io) = MAX_FD"
    unfolding sample_fdt MAX_FD_def by auto
  show ?thesis unfolding refs_ok_def c(3,4) sample_files
    by (auto simp: sh_file_def root_file_def c(1,2))
qed

theorem sys_close_refcount_witness:
  "\<exists>st'. sys_close 3 sample_io = Some (0, st') \<and> io_files st' 4 \<noteq> None \<and> refs_ok st'"
proof -
  have g: "fd_get (io_fdt sample_io) 3 = 4" by (subst fd_get_in) (simp_all add: sample_fdt MAX_FD_def)
  have "4 \<in> set ((io_fdt sample_io)[unat (3 :: u32) := 0])" unfolding sample_fdt by simp
  then show ?thesis
    using sys_close_refcount [OF sample_refs g, of "sh_file\<lparr>refcnt := 2\<rparr>"] by (auto simp: sample_io_def sh_file_def)
qed

text \<open>\<open>dup2\<close> makes the new descriptor point to the file of the old one: whatever file of the volume the new
  descriptor had is closed first, the other slots do not change, and the counts stay right.\<close>
theorem sys_dup2_shares:
  assumes "refs_ok st" "unat oldfd < MAX_FD" "unat newfd < MAX_FD" "newfd \<noteq> oldfd" "a \<noteq> 0"
    "io_fdt st ! unat oldfd = a" "io_files st a = Some f" "ops f = MountOps"
    "\<forall>g. io_files st (io_fdt st ! unat newfd) = Some g \<longrightarrow> ops g = MountOps"
  shows "\<exists>st'. sys_dup2 oldfd newfd st = Some (newfd, st') \<and> io_fdt st' = (io_fdt st)[unat newfd := a] \<and> refs_ok st'
    \<and> (let b = io_fdt st ! unat newfd in b \<noteq> 0 \<and> b \<noteq> a \<longrightarrow> (io_files st' b = None \<longleftrightarrow> b \<notin> set ((io_fdt st)[unat newfd := a])))"
proof -
  let ?n = "unat newfd" and ?b = "io_fdt st ! unat newfd"
  have l: "length (io_fdt st) = MAX_FD" using assms(1) by (simp add: refs_ok_def)
  have ne: "unat oldfd \<noteq> ?n" using assms(4) by (simp add: u32_eq_nat_iff)
  have r: "\<not> (sint oldfd < 0 \<or> sint oldfd \<ge> int MAX_FD \<or> sint newfd < 0 \<or> sint newfd \<ge> int MAX_FD)"
    using fd_range [of oldfd] fd_range [of newfd] assms(2,3) by auto
  show ?thesis
  proof (cases "?b = 0")
    case True
    have "sys_dup2 oldfd newfd st = Some (newfd, put_file a (f\<lparr>refcnt := refcnt f + 1\<rparr>) (st\<lparr>io_fdt := (io_fdt st)[?n := a]\<rparr>))"
      using r True assms(4-7) fd_get_in [OF assms(2)] by (simp add: sys_dup2_def)
    then show ?thesis using add_ref_law [OF assms(1,3) True assms(5,7,8)] True by (auto simp: put_file_def)
  next
    case False
    obtain g where g: "io_files st ?b = Some g" using refs_okD [OF assms(1) refl assms(3) False] by blast
    obtain st1 where c: "sys_close newfd st = Some (0, st1)" "io_fdt st1 = (io_fdt st)[?n := 0]" "refs_ok st1"
      "io_files st1 = (io_files st)(?b := if ?b \<in> set ((io_fdt st)[?n := 0]) then Some (g\<lparr>refcnt := refcnt g - 1\<rparr>) else None)"
      using sys_close_law [OF assms(1) fd_get_in [OF assms(3)] False g] assms(9) g by blast
    have old: "io_fdt st1 ! unat oldfd = a" using c(2) ne assms(6) by simp
    obtain f1 where f1: "io_files st1 a = Some f1" using refs_okD [OF c(3) old assms(2,5)] by blast
    have m: "ops f1 = MountOps" using f1 c(4) assms(7,8) g by (auto split: if_splits)
    have z: "io_fdt st1 ! ?n = 0" using c(2) l assms(3) by simp
    have e: "sys_dup2 oldfd newfd st = Some (newfd, put_file a (f1\<lparr>refcnt := refcnt f1 + 1\<rparr>) (st1\<lparr>io_fdt := (io_fdt st1)[?n := a]\<rparr>))"
      using r False assms(4-6) fd_get_in [OF assms(2)] c(1) f1 by (simp add: sys_dup2_def)
    have t: "(io_fdt st1)[?n := a] = (io_fdt st)[?n := a]" using c(2) by simp
    have "?b \<in> set ((io_fdt st)[?n := 0]) \<longleftrightarrow> ?b \<in> set ((io_fdt st)[?n := a])" if "?b \<noteq> a"
      using set_update_iff [of ?n "io_fdt st"] l assms(3) False that by auto
    then show ?thesis
      using e add_ref_law [OF c(3) assms(3) z assms(5) f1 m] t c(4) by (auto simp: put_file_def Let_def)
  qed
qed

theorem sys_dup2_shares_witness:
  "\<exists>st'. sys_dup2 3 4 sample_io = Some (4, st') \<and> io_fdt st' = (io_fdt sample_io)[4 := 4] \<and> refs_ok st'"
proof -
  have "io_fdt sample_io ! unat (3 :: u32) = 4" by (simp add: sample_fdt)
  moreover have "\<forall>g. io_files sample_io (io_fdt sample_io ! unat (4 :: u32)) = Some g \<longrightarrow> ops g = MountOps"
    unfolding sample_fdt by (simp add: sample_io_def root_file_def sh_file_def)
  ultimately show ?thesis
    using sys_dup2_shares [OF sample_refs, of 3 4 4 "sh_file\<lparr>refcnt := 2\<rparr>"] by (auto simp: MAX_FD_def sample_io_def sh_file_def)
qed

section \<open>Opening\<close>

lemma mount_get_dirent_abs:
  "cs \<noteq> [] \<Longrightarrow> mount_get_dirent fuel meta cwd (Some (render cs)) u p fs = mount_get_dirent fuel meta cwd (Some (render cs)) False p fs"
  by (simp add: mount_get_dirent_def init_path_def first_byte_render)

lemma alloc_fd_law:
  assumes "0 \<in> set t" "length t = MAX_FD"
  defines "k \<equiv> length (takeWhile (\<lambda>a. a \<noteq> 0) t)"
  shows "alloc_fd t a = (of_nat k, t[k := a])" "k < MAX_FD" "t ! k = 0" "\<forall>j < k. t ! j \<noteq> 0" "\<not> sint (of_nat k :: u32) < 0"
    "unat (of_nat k :: u32) = k"
proof -
  show "alloc_fd t a = (of_nat k, t[k := a])" using assms(1) by (simp add: alloc_fd_def alloc_from_law k_def)
  show kl: "k < MAX_FD" "t ! k = 0" "\<forall>j < k. t ! j \<noteq> 0" using first_zero [OF assms(1)] assms(2) by (simp_all add: k_def)
  show u: "unat (of_nat k :: u32) = k" using kl by (intro unat_of_nat_u32) (simp add: MAX_FD_def)
  show "\<not> sint (of_nat k :: u32) < 0" using fd_range [of "of_nat k"] kl(1) u by auto
qed

lemma new_file_refs:
  assumes "refs_ok st" "k < MAX_FD" "io_fdt st ! k = 0" "refcnt f = 1" "ops f = MountOps"
  shows "refs_ok (put_file (io_next st) f (st\<lparr>io_next := io_next st + 1, io_fdt := (io_fdt st)[k := io_next st]\<rparr>))"
proof -
  let ?a = "io_next st" and ?t = "(io_fdt st)[k := io_next st]"
  have l: "length (io_fdt st) = MAX_FD" and a0: "0 < ?a" and an: "io_files st ?a = None" using assms(1) by (auto simp: refs_ok_def)
  have ca: "count_list ?t b + (if 0 = b then 1 else 0) = count_list (io_fdt st) b + (if ?a = b then 1 else 0)" for b
    using count_update [of k "io_fdt st" ?a b] assms(2,3) l by simp
  have nin: "?a \<notin> set (io_fdt st)" using assms(1) a0 an by (auto simp: refs_ok_def)
  then have c1: "count_list ?t ?a = 1" using ca [of ?a] a0 count_list_0_iff [of "io_fdt st" ?a] by simp
  have at: "?a \<in> set ?t" using assms(2) l by (simp add: set_update_memI)
  have sub: "b \<in> set ?t \<Longrightarrow> b = ?a \<or> b \<in> set (io_fdt st)" for b
    using set_update_subset_insert [of "io_fdt st" k ?a] by blast
  have sup: "b \<in> set (io_fdt st) \<Longrightarrow> b \<noteq> 0 \<Longrightarrow> b \<in> set ?t" for b
    using ca [of b] count_list_0_iff [of ?t b] count_list_0_iff [of "io_fdt st" b] by auto
  define st' where "st' = put_file ?a f (st\<lparr>io_next := ?a + 1, io_fdt := ?t\<rparr>)"
  have ft: "io_fdt st' = ?t" "io_next st' = ?a + 1" "io_files st' = (io_files st)(?a := Some f)" by (simp_all add: st'_def put_file_def)
  have "refs_ok st'" unfolding refs_ok_def ft
  proof (intro conjI allI impI ballI)
    fix b g assume g: "((io_files st)(?a := Some f)) b = Some g" "ops g = MountOps"
    have b0: "b \<noteq> 0" using g(1) assms(1) a0 by (cases "b = 0") (simp_all add: refs_ok_def)
    show "unat (refcnt g) = count_list ?t b" using g assms(1,4) ca [of b] c1 b0 by (cases "b = ?a") (auto simp: refs_ok_def)
    show "b \<in> set ?t" using g assms(1) at sup [OF _ b0] by (cases "b = ?a") (auto simp: refs_ok_def)
  next
    fix b assume "b \<in> set ?t"
    then show "b = 0 \<or> ((io_files st)(?a := Some f)) b \<noteq> None" using sub assms(1) by (auto simp: refs_ok_def)
  qed (use assms(1) l a0 in \<open>auto simp: refs_ok_def\<close>)
  then show ?thesis by (simp add: st'_def)
qed

lemma sys_openat_law:
  assumes "coherent (io_fs st)" "\<forall>c \<in> set cs. comp_ok c" "resolve cs = ds @ [n]" "n \<noteq> []" "length (render cs) < 256" "cs \<noteq> []"
    "leads_to fuel meta (disk (io_fs st)) ds c" "c \<noteq> 0" "sint c \<ge> 0" "dir_lists fuel meta (disk (io_fs st)) c es"
    "translate_filename_posix_to_fat n = (0, f @ [0])" "clean_name f" "find (shadows f) es = Some e"
    "\<not> strn_eq (render cs) dev_prefix 4" "length (io_fdt st) = MAX_FD"
  obtains pd fs' where "sys_openat fuel meta dfd (Some (render cs)) flgs mode st =
      (let g = \<lparr>refcnt = 1, flags = flgs, pos = 0, priv = Some \<lparr>priv_dirent = Some (le_dirent e), priv_parent = pd\<rparr>, ops = MountOps\<rparr>;
           a = io_next st; st1 = st\<lparr>io_fs := fs', io_next := a + 1\<rparr>
       in case alloc_fd (io_fdt st) a of (fd, t) \<Rightarrow>
            Some (fd, if sint fd < 0 then st1 else put_file a g (st1\<lparr>io_fdt := t\<rparr>)))"
    "disk fs' = disk (io_fs st)" "coherent fs'"
proof -
  obtain fs1 where fs1: "mount_openat fuel meta (io_cwd st) dfd (Some (render cs)) flgs (io_fs st) = Some (c, fs1)"
    "disk fs1 = disk (io_fs st)" "coherent fs1"
    using mount_openat_law [OF assms(1-5,7,10-12,6), of flgs "io_cwd st" dfd] assms(13) by auto
  obtain fs2 where fs2: "mount_get_dirent fuel meta (io_cwd st) (Some (render cs)) False False fs1 = Some (Some (le_dirent e), fs2)"
    "disk fs2 = disk fs1" "coherent fs2"
  proof -
    have "length (render ds) < 256" using length_render_resolve [of cs] assms(3,5) by (simp add: length_render_append)
    moreover have "\<forall>c \<in> set (ds @ [n]). comp_ok c" using comp_ok_resolve [OF assms(2)] assms(3) by simp
    ultimately show ?thesis
      using that mount_get_dirent_law [OF fs1(3) assms(2-5), of fuel meta c es f "io_cwd st"] assms(7,8,10-13) fs1(2) by auto
  qed
  obtain pd fs3 where fs3: "mount_get_dirent fuel meta (io_cwd st) (Some (render cs)) False True fs2 = Some (pd, fs3)"
    "disk fs3 = disk fs2" "coherent fs3"
    using mount_get_parent_law [OF fs2(3) assms(2-5), of fuel meta c es "io_cwd st"] assms(7,8,10) fs1(2) fs2(2) by auto
  show ?thesis
    by (rule that [of pd fs3], insert fs1 fs2 fs3 assms(9,14))
      (auto simp: sys_openat_def mount_get_dirent_abs [OF assms(6), of _ _ _ "dfd = AT_FDCWD"] Let_def split: prod.split)
qed

text \<open>C21: opening a file by its absolute path. When the path names an entry of a directory of the volume,
  \<open>sys_openat\<close> takes the lowest free descriptor and makes it point to a new file with this entry, at
  position 0 and counted once; the volume, the other slots and the other files do not change and the
  counts stay right. When no descriptor is free it returns -24 and leaves table and files alone.\<close>
theorem sys_openat_opens:
  assumes "coherent (io_fs st)" "\<forall>c \<in> set cs. comp_ok c" "resolve cs = ds @ [n]" "n \<noteq> []" "length (render cs) < 256" "cs \<noteq> []"
    "leads_to fuel meta (disk (io_fs st)) ds c" "c \<noteq> 0" "sint c \<ge> 0" "dir_lists fuel meta (disk (io_fs st)) c es"
    "translate_filename_posix_to_fat n = (0, f @ [0])" "clean_name f" "find (shadows f) es = Some e"
    "\<not> strn_eq (render cs) dev_prefix 4" "refs_ok st"
  shows "\<exists>fd st'. sys_openat fuel meta dfd (Some (render cs)) flgs mode st = Some (fd, st') \<and> disk (io_fs st') = disk (io_fs st)
    \<and> coherent (io_fs st') \<and> refs_ok st'
    \<and> (if 0 \<in> set (io_fdt st)
       then unat fd < MAX_FD \<and> io_fdt st ! unat fd = 0 \<and> (\<forall>j < unat fd. io_fdt st ! j \<noteq> 0)
         \<and> io_fdt st' = (io_fdt st)[unat fd := io_next st]
         \<and> (\<exists>g pd. io_files st' = (io_files st)(io_next st := Some g) \<and> refcnt g = 1 \<and> pos g = 0 \<and> ops g = MountOps
              \<and> priv g = Some \<lparr>priv_dirent = Some (le_dirent e), priv_parent = pd\<rparr>)
       else fd = - 24 \<and> io_fdt st' = io_fdt st \<and> io_files st' = io_files st)"
proof -
  have l: "length (io_fdt st) = MAX_FD" using assms(15) by (simp add: refs_ok_def)
  obtain pd fs' where o: "sys_openat fuel meta dfd (Some (render cs)) flgs mode st =
      (let g = \<lparr>refcnt = 1, flags = flgs, pos = 0, priv = Some \<lparr>priv_dirent = Some (le_dirent e), priv_parent = pd\<rparr>, ops = MountOps\<rparr>;
           a = io_next st; st1 = st\<lparr>io_fs := fs', io_next := a + 1\<rparr>
       in case alloc_fd (io_fdt st) a of (fd, t) \<Rightarrow>
            Some (fd, if sint fd < 0 then st1 else put_file a g (st1\<lparr>io_fdt := t\<rparr>)))"
    "disk fs' = disk (io_fs st)" "coherent fs'"
    using sys_openat_law [OF assms(1-14) l] .
  let ?g = "\<lparr>refcnt = 1, flags = flgs, pos = 0, priv = Some \<lparr>priv_dirent = Some (le_dirent e), priv_parent = pd\<rparr>, ops = MountOps\<rparr>"
  show ?thesis
  proof (cases "0 \<in> set (io_fdt st)")
    case True
    note k = alloc_fd_law [OF True l]
    have "refs_ok (put_file (io_next st) ?g (st\<lparr>io_next := io_next st + 1, io_fdt := (io_fdt st)[length (takeWhile (\<lambda>a. a \<noteq> 0) (io_fdt st)) := io_next st]\<rparr>))"
      using new_file_refs [OF assms(15) k(2,3), of ?g] by simp
    then show ?thesis using o k True by (auto simp: Let_def put_file_def refs_ok_def)
  next
    case False
    then have "alloc_fd (io_fdt st) (io_next st) = (- 24, io_fdt st)" by (simp add: alloc_fd_def alloc_from_law)
    then show ?thesis using o False assms(15) by (auto simp: Let_def refs_ok_def)
  qed
qed

lemma sample_fs: "io_fs sample_io = tree_fs"
  by (simp add: sample_io_def)

theorem sys_openat_opens_witness:
  "\<exists>st'. sys_openat 1 small_meta AT_FDCWD (Some [47, 98, 105, 110, 47, 115, 104, 46, 101, 108, 102]) 0 0 sample_io = Some (0, st')
    \<and> io_fdt st' = (io_fdt sample_io)[0 := 6] \<and> refs_ok st'"
proof -
  let ?cs = "[[98, 105, 110], [115, 104, 46, 101, 108, 102]] :: bytes list"
  let ?e = "\<lparr>le_dirent = sh_entry, le_lfn_count = 0\<rparr>"
  have ok: "\<forall>c \<in> set ?cs. comp_ok c" by (simp add: comp_ok_def)
  have r: "resolve ?cs = [[98, 105, 110]] @ [[115, 104, 46, 101, 108, 102]]" "length (render ?cs) < 256" "?cs \<noteq> []"
    "render ?cs = [47, 98, 105, 110, 47, 115, 104, 46, 101, 108, 102]" "\<not> strn_eq (render ?cs) dev_prefix 4"
    "[115, 104, 46, 101, 108, 102] \<noteq> ([] :: bytes)" by code_simp+
  have t: "translate_filename_posix_to_fat [115, 104, 46, 101, 108, 102] = (0, de_name sh_entry @ [0])" by code_simp
  have "shadows (de_name sh_entry) ?e" by (rule shadows_self) simp
  then have f: "find (shadows (de_name sh_entry)) [?e] = Some ?e" by simp
  have c: "clean_name (de_name sh_entry)" by (simp add: clean_name_def sh_entry_def)
  have d: "coherent (io_fs sample_io)" "leads_to 1 small_meta (disk (io_fs sample_io)) [[98, 105, 110]] 3"
    "dir_lists 1 small_meta (disk (io_fs sample_io)) 3 [?e]"
    unfolding sample_fs tree_disk using tree_coherent tree_bin tree_lists(2) by auto
  have z: "0 \<in> set (io_fdt sample_io)" by (simp add: sample_fdt)
  obtain fd st' where o: "sys_openat 1 small_meta AT_FDCWD (Some (render ?cs)) 0 0 sample_io = Some (fd, st')" "refs_ok st'"
    "\<forall>j < unat fd. io_fdt sample_io ! j \<noteq> 0" "io_fdt st' = (io_fdt sample_io)[unat fd := io_next sample_io]"
    using sys_openat_opens [OF d(1) ok r(1,6,2,3) d(2) _ _ d(3) t c f r(5) sample_refs, of AT_FDCWD 0 0] z by auto
  have "unat fd = 0" using o(3) by (cases "unat fd") (auto simp: sample_fdt)
  then have "fd = 0" by (simp add: unat_eq_zero)
  then show ?thesis using o sample_files(2) unfolding r(4) by (intro exI [of _ st']) simp
qed

section \<open>The terminal's files\<close>

text \<open>Their count starts at -1, to be never freed. Two duplicates bring it to 1, and closing one of them frees
  the file while three slots still point to it: the next write through standard output has no value.\<close>

definition tty_io :: io_state where
  "tty_io = sample_io\<lparr>io_fdt := [fd0, fd1, fd2] @ replicate 61 0,
     io_files := (\<lambda>a. None)(fd0 := Some (fst (snd tty_init)), fd1 := Some (fst (snd (snd tty_init))), fd2 := Some (snd (snd (snd tty_init)))), io_next := 4\<rparr>"

definition dup_twice_close :: "io_state \<Rightarrow> io_state option" where
  "dup_twice_close st = do {
     (r1, st1) \<leftarrow> sys_dup2 1 10 st;
     (r2, st2) \<leftarrow> sys_dup2 1 11 st1;
     (r3, st3) \<leftarrow> sys_close 11 st2;
     Some st3
   }"

lemma sint_small: "unat (w :: u32) < 64 \<Longrightarrow> sint w = int (unat w)"
  unfolding sint_u32 by simp

lemma tty_dup_frees_stdout:
  "\<exists>st. dup_twice_close tty_io = Some st \<and> io_fdt st ! 1 = fd1 \<and> io_files st fd1 = None
    \<and> sys_write fuel meta 1 [104, 105] 2 st = None"
  by (simp add: dup_twice_close_def sys_dup2_def sys_close_def sys_write_def fd_get_def sint_small MAX_FD_def tty_io_def put_file_def
      tty_init_def fd0_def fd1_def fd2_def nth_append sample_io_def list_update_append)

end
