(* ===== verification/Vm.thy ===== *)
theory Vm
  imports Kalloc MemOps "HOL-Library.Monad_Syntax"
begin

text \<open>
  Page tables: final/src/vm.c and \<open>kuser_init\<close> of final/src/kuser.c. Physical memory is a byte memory, the
  kernel's own addresses are physical (its sections are identity maps), and tables and pages come from
  the modelled allocator. Cache and TLB maintenance has no effect on this memory and is left out; a
  function has no value when the allocator reboots. \<open>translate\<close> is the walk the ARM1176 makes through a
  table: sections, and coarse tables of small pages.
\<close>

section \<open>State\<close>

record vm_state =
  vm_mem :: memory
  vm_ka :: kalloc_state
  vm_kuser :: "u8 list"
  vm_active :: u32

definition valloc :: "u32 \<Rightarrow> vm_state \<Rightarrow> (u32 \<times> vm_state) option" where
  "valloc n vm = map_option (\<lambda>(p, k). (p, vm\<lparr>vm_ka := k\<rparr>)) (kalloc n (vm_ka vm))"

definition vfree :: "u32 \<Rightarrow> vm_state \<Rightarrow> vm_state" where
  "vfree p vm = vm\<lparr>vm_ka := kfree p (vm_ka vm)\<rparr>"

fun put_bytes :: "u32 \<Rightarrow> u8 list \<Rightarrow> memory \<Rightarrow> memory" where
  "put_bytes a [] m = m"
| "put_bytes a (b # bs) m = put_bytes (a + 1) bs (m(a := b))"

section \<open>The code\<close>

definition make_L2_page_entry :: "u32 \<Rightarrow> u32 \<Rightarrow> u8 \<Rightarrow> u8 \<Rightarrow> u32" where
  "make_L2_page_entry pa perms cacheable bufferable =
     (pa AND 0xFFFFF000) OR push_bit 4 (perms AND 0xFF) OR push_bit 3 (ucast (cacheable AND 1))
       OR push_bit 2 (ucast (bufferable AND 1)) OR 2"

fun fill_sections :: "nat \<Rightarrow> u32 \<Rightarrow> u32 \<Rightarrow> u32 \<Rightarrow> memory \<Rightarrow> memory" where
  "fill_sections 0 i flgs l1 m = m"
| "fill_sections (Suc n) i flgs l1 m =
     fill_sections n (i + 1) flgs l1 (store32 (l1 + 4 * i) (push_bit 20 i OR push_bit 10 1 OR flgs) m)"

fun fill_last_table :: "nat \<Rightarrow> u32 \<Rightarrow> u32 \<Rightarrow> u32 \<Rightarrow> memory \<Rightarrow> memory" where
  "fill_last_table 0 j l2 kuser_page m = m"
| "fill_last_table (Suc n) j l2 kuser_page m =
     (let va = push_bit 20 4095 OR push_bit 12 j
      in fill_last_table n (j + 1) l2 kuser_page
           (store32 (l2 + 4 * j)
             (if va = 0xFFFF0000 then make_L2_page_entry kuser_page 0xFF 1 1 else make_L2_page_entry va 0x55 1 1) m))"

definition kuser_init :: "vm_state \<Rightarrow> (u32 \<times> vm_state) option" where
  "kuser_init vm = do {
     (kuser_page, vm1) \<leftarrow> valloc 4096 vm;
     Some (kuser_page, vm1\<lparr>vm_mem := put_bytes kuser_page (vm_kuser vm1) (vm_mem vm1)\<rparr>)
   }"

definition make_initial_L1_table :: "vm_state \<Rightarrow> (u32 \<times> vm_state) option" where
  "make_initial_L1_table vm = do {
     (l1, vm1) \<leftarrow> valloc 16384 vm;
     let m1 = fill_sections 512 0 2 l1 (vm_mem vm1);
         m2 = fill_sections 2560 512 2 l1 m1;
         m3 = fill_sections 1023 3072 0xE l1 m2
     in do {
       (l2, vm2) \<leftarrow> valloc 1024 (vm1\<lparr>vm_mem := m3\<rparr>);
       let m4 = store32 (l1 + 4 * 4095) ((l2 AND 0xFFFFFC00) OR 1) (vm_mem vm2) in do {
         (kuser_page, vm3) \<leftarrow> kuser_init (vm2\<lparr>vm_mem := m4\<rparr>);
         Some (l1, vm3\<lparr>vm_mem := fill_last_table 256 0 l2 kuser_page (vm_mem vm3)\<rparr>)
       }
     }
   }"

text \<open>One round of the loop of \<open>make_sure_user_space\<close>.\<close>

definition map_page :: "u32 \<Rightarrow> u32 \<Rightarrow> vm_state \<Rightarrow> vm_state option" where
  "map_page l1 va vm =
     (let l1_index = drop_bit 20 va AND 0xFFF;
          l1_entry = load32 (vm_mem vm) (l1 + 4 * l1_index);
          l2_index = drop_bit 12 va AND 0xFF
      in do {
        vm1 \<leftarrow> (if l1_entry AND 3 \<noteq> 1
                then do {
                  (l2_table, vm') \<leftarrow> valloc 1024 vm;
                  Some (vm'\<lparr>vm_mem := store32 (l1 + 4 * l1_index) ((l2_table AND 0xFFFFFC00) OR 1)
                    (memset l2_table 0 1024 (vm_mem vm'))\<rparr>)
                }
                else Some vm);
        let l2_base = load32 (vm_mem vm1) (l1 + 4 * l1_index) AND 0xFFFFFC00;
            slot = l2_base + 4 * l2_index;
            l2_entry = load32 (vm_mem vm1) slot
        in if l2_entry AND 3 = 0
           then do {
             (new_page, vm2) \<leftarrow> valloc 4096 vm1;
             Some (vm2\<lparr>vm_mem := store32 slot (make_L2_page_entry new_page 0xFF 1 1)
               (memset new_page 0 4096 (vm_mem vm2))\<rparr>)
           }
           else Some (vm1\<lparr>vm_mem := store32 slot ((l2_entry AND NOT (push_bit 4 0xFF)) OR push_bit 4 0xFF) (vm_mem vm1)\<rparr>)
      })"

fun map_pages :: "nat \<Rightarrow> u32 \<Rightarrow> u32 \<Rightarrow> vm_state \<Rightarrow> vm_state option" where
  "map_pages 0 l1 va vm = Some vm"
| "map_pages (Suc n) l1 va vm = do { vm1 \<leftarrow> map_page l1 va vm; map_pages n l1 (va + 0x1000) vm1 }"

text \<open>Both bounds are multiples of 4096, so the number of rounds is their distance in pages, and none when
  the end wraps below the start.\<close>

definition make_sure_user_space :: "u32 \<Rightarrow> u32 \<Rightarrow> u32 \<Rightarrow> vm_state \<Rightarrow> vm_state option" where
  "make_sure_user_space l1 user_va_start sz vm =
     (let start_va = user_va_start AND NOT 0xFFF; end_va = (user_va_start + sz + 0xFFF) AND NOT 0xFFF
      in map_pages (if start_va < end_va then unat (drop_bit 12 (end_va - start_va)) else 0) l1 start_va vm)"

definition make_L2_page_on_the_fly_and_make_valid :: "u32 \<Rightarrow> vm_state \<Rightarrow> (u32 \<times> vm_state) option" where
  "make_L2_page_on_the_fly_and_make_valid VA vm =
     map_option (\<lambda>vm'. (vm_active vm, vm')) (make_sure_user_space (vm_active vm) (VA AND NOT 0xFFF) 4096 vm)"

text \<open>Freeing: the last table, with the kernel helpers, is not visited.\<close>

fun free_pages :: "nat \<Rightarrow> u32 \<Rightarrow> u32 \<Rightarrow> vm_state \<Rightarrow> vm_state" where
  "free_pages 0 j l2 vm = vm"
| "free_pages (Suc n) j l2 vm =
     (let l2_entry = load32 (vm_mem vm) (l2 + 4 * j)
      in free_pages n (j + 1) l2
           (if l2_entry AND 3 = 2 \<and> (l2_entry AND 0xFFFFF000) < 0xFFF00000 then vfree (l2_entry AND 0xFFFFF000) vm else vm))"

fun free_tables :: "nat \<Rightarrow> u32 \<Rightarrow> u32 \<Rightarrow> vm_state \<Rightarrow> vm_state" where
  "free_tables 0 i l1 vm = vm"
| "free_tables (Suc n) i l1 vm =
     (let l1_entry = load32 (vm_mem vm) (l1 + 4 * i)
      in free_tables n (i + 1) l1
           (if l1_entry AND 3 = 1
            then let l2_base = l1_entry AND 0xFFFFFC00 in vfree l2_base (free_pages 256 0 l2_base vm)
            else vm))"

definition free_L1_page_table :: "u32 \<Rightarrow> vm_state \<Rightarrow> vm_state" where
  "free_L1_page_table l1 vm = vfree l1 (free_tables 4095 0 l1 vm)"

text \<open>Copying: every small page of the tables but the last gets a page of its own.\<close>

fun fork_pages :: "nat \<Rightarrow> u32 \<Rightarrow> u32 \<Rightarrow> vm_state \<Rightarrow> vm_state option" where
  "fork_pages 0 j new_l2 vm = Some vm"
| "fork_pages (Suc n) j new_l2 vm =
     (let l2_entry = load32 (vm_mem vm) (new_l2 + 4 * j)
      in do {
        vm1 \<leftarrow> (if l2_entry AND 3 = 2
                then do {
                  (new_page, vm') \<leftarrow> valloc 4096 vm;
                  Some (vm'\<lparr>vm_mem := store32 (new_l2 + 4 * j) (make_L2_page_entry new_page 0xFF 1 1)
                    (memcpy new_page (l2_entry AND 0xFFFFF000) 4096 (vm_mem vm'))\<rparr>)
                }
                else Some vm);
        fork_pages n (j + 1) new_l2 vm1
      })"

fun fork_tables :: "nat \<Rightarrow> u32 \<Rightarrow> u32 \<Rightarrow> vm_state \<Rightarrow> vm_state option" where
  "fork_tables 0 i new_l1 vm = Some vm"
| "fork_tables (Suc n) i new_l1 vm =
     (let l1_entry = load32 (vm_mem vm) (new_l1 + 4 * i)
      in do {
        vm1 \<leftarrow> (if \<not> (512 \<le> i \<and> i < 516) \<and> l1_entry AND 3 = 1
                then do {
                  (new_l2, vm') \<leftarrow> valloc 1024 vm;
                  vm2 \<leftarrow> fork_pages 256 0 new_l2 (vm'\<lparr>vm_mem := memcpy new_l2 (l1_entry AND 0xFFFFFC00) 1024 (vm_mem vm')\<rparr>);
                  Some (vm2\<lparr>vm_mem := store32 (new_l1 + 4 * i) ((new_l2 AND 0xFFFFFC00) OR (l1_entry AND 0x3FF)) (vm_mem vm2)\<rparr>)
                }
                else Some vm);
        fork_tables n (i + 1) new_l1 vm1
      })"

definition fork_page_table :: "u32 \<Rightarrow> vm_state \<Rightarrow> (u32 \<times> vm_state) option" where
  "fork_page_table l1 vm = do {
     (new_l1, vm1) \<leftarrow> valloc 16384 vm;
     vm2 \<leftarrow> fork_tables 4095 0 new_l1 (vm1\<lparr>vm_mem := memcpy new_l1 l1 16384 (vm_mem vm1)\<rparr>);
     Some (new_l1, vm2)
   }"

definition mmu_init :: "vm_state \<Rightarrow> (u32 \<times> vm_state) option" where
  "mmu_init vm = do {
     (l1, vm1) \<leftarrow> make_initial_L1_table vm;
     Some (l1, vm1\<lparr>vm_active := l1\<rparr>)
   }"

text \<open>\<open>switch_L1_page_table\<close> is assembly: it loads the table base and the context id.\<close>

definition switch_L1_page_table :: "u32 \<Rightarrow> vm_state \<Rightarrow> vm_state" where
  "switch_L1_page_table l1 vm = vm\<lparr>vm_active := l1\<rparr>"

section \<open>The hardware's walk\<close>

text \<open>The physical address and the access bits (3 is read and write for the user).\<close>

definition translate :: "memory \<Rightarrow> u32 \<Rightarrow> u32 \<Rightarrow> (u32 \<times> u32) option" where
  "translate m l1 va =
     (let e = load32 m (l1 + 4 * (drop_bit 20 va AND 0xFFF)) in
      if e AND 3 = 2 then Some ((e AND 0xFFF00000) OR (va AND 0xFFFFF), drop_bit 10 e AND 3)
      else if e AND 3 = 1
      then let e2 = load32 m ((e AND 0xFFFFFC00) + 4 * (drop_bit 12 va AND 0xFF))
           in if e2 AND 2 \<noteq> 0 then Some ((e2 AND 0xFFFFF000) OR (va AND 0xFFF), drop_bit 4 e2 AND 3) else None
      else None)"

text \<open>Reading and writing through the active table. An address it does not map is a data abort, which stops
  the kernel.\<close>

definition user_load :: "vm_state \<Rightarrow> u32 \<Rightarrow> u8 option" where
  "user_load vm va = map_option (\<lambda>(pa, ap). vm_mem vm pa) (translate (vm_mem vm) (vm_active vm) va)"

definition user_store :: "u32 \<Rightarrow> u8 \<Rightarrow> vm_state \<Rightarrow> vm_state option" where
  "user_store va b vm = map_option (\<lambda>(pa, ap). vm\<lparr>vm_mem := (vm_mem vm)(pa := b)\<rparr>) (translate (vm_mem vm) (vm_active vm) va)"

fun user_read :: "nat \<Rightarrow> u32 \<Rightarrow> vm_state \<Rightarrow> u8 list option" where
  "user_read 0 va vm = Some []"
| "user_read (Suc n) va vm = do { b \<leftarrow> user_load vm va; bs \<leftarrow> user_read n (va + 1) vm; Some (b # bs) }"

fun user_write :: "u32 \<Rightarrow> u8 list \<Rightarrow> vm_state \<Rightarrow> vm_state option" where
  "user_write va [] vm = Some vm"
| "user_write va (b # bs) vm = do { vm' \<leftarrow> user_store va b vm; user_write (va + 1) bs vm' }"

end
