(* ===== verification/Sched.thy ===== *)
theory Sched
  imports Vm Fd
begin

text \<open>
  The scheduler of final/src/sched.c: threads, the ready queue and the queue of sleeping threads, the
  switch, sleeping and waking, fork and exit. Threads live in a store of fresh addresses, the nodes of
  the two queues are the elements of lists. Waiting for an interrupt in the scheduler is one timer tick,
  which only wakes threads there (the interrupted mode is not user mode). What the scheduler returns to
  is the user context of the current thread; \<open>Panic\<close> is the reboot when nothing can run any more.
\<close>

section \<open>State\<close>

text \<open>A thread's working directory is a pointer to a string: a forked thread has its parent's pointer.\<close>

record saved_context =
  user_sp :: u32
  user_lr :: u32
  cpsr :: u32
  regs :: "u32 list"
  resume_pc :: u32

record rpi_thread =
  tid :: u32
  exited :: bool
  ready :: bool
  ctx :: saved_context
  l1_pt :: u32
  tls_base :: u32
  brk :: u32
  brk_min :: u32
  clear_tid :: u32
  fdt :: "nat list"
  cwd :: nat
  svc_sp :: u32
  ppid :: u32

record sched =
  threads :: "nat \<Rightarrow> rpi_thread"
  next_thread :: nat
  ready_q :: "nat list"
  sleeping_q :: "(nat \<times> u32) list"
  cur :: nat
  next_tid :: u32
  svm :: vm_state
  tls_reg :: u32
  strings :: "nat \<Rightarrow> bytes option"
  next_string :: nat

definition upd_thread :: "nat \<Rightarrow> (rpi_thread \<Rightarrow> rpi_thread) \<Rightarrow> sched \<Rightarrow> sched" where
  "upd_thread t f s = s\<lparr>threads := (threads s)(t := f (threads s t))\<rparr>"

abbreviation cur_thread :: "sched \<Rightarrow> rpi_thread" where
  "cur_thread s \<equiv> threads s (cur s)"

section \<open>The queues\<close>

definition t_pop :: "sched \<Rightarrow> nat option \<times> sched" where
  "t_pop s = (case ready_q s of [] \<Rightarrow> (None, s) | t # q \<Rightarrow> (Some t, s\<lparr>ready_q := q\<rparr>))"

definition t_push :: "nat \<Rightarrow> sched \<Rightarrow> sched" where
  "t_push x s = s\<lparr>ready_q := ready_q s @ [x]\<rparr>"

text \<open>\<open>s_pop\<close>, which nothing calls, tests the ready queue: with a thread ready and none sleeping it follows a
  null pointer.\<close>

definition s_pop :: "sched \<Rightarrow> ((nat \<times> u32) option \<times> sched) option" where
  "s_pop s = (if ready_q s \<noteq> [] then (case sleeping_q s of [] \<Rightarrow> None | x # q \<Rightarrow> Some (Some x, s\<lparr>sleeping_q := q\<rparr>))
     else Some (None, s))"

definition s_push :: "nat \<times> u32 \<Rightarrow> sched \<Rightarrow> sched" where
  "s_push x s = s\<lparr>sleeping_q := sleeping_q s @ [x]\<rparr>"

section \<open>Waking\<close>

text \<open>The walk over the sleeping queue keeps the entries that go on sleeping.\<close>

fun wake_loop :: "(nat \<times> u32) list \<Rightarrow> (nat \<times> u32) list \<Rightarrow> sched \<Rightarrow> sched" where
  "wake_loop [] kept s = s\<lparr>sleeping_q := kept\<rparr>"
| "wake_loop ((t, n) # q) kept s =
     (if n - 1 = 0 then wake_loop q kept (t_push t (upd_thread t (\<lambda>th. th\<lparr>ready := True\<rparr>) s))
      else wake_loop q (kept @ [(t, n - 1)]) s)"

definition tick_try_to_wake_up :: "sched \<Rightarrow> sched" where
  "tick_try_to_wake_up s = wake_loop (sleeping_q s) [] s"

section \<open>Switching\<close>

datatype outcome = Resume sched | Panic

text \<open>\<open>while (sleeping_q && !ready_q)\<close>, one tick a round.\<close>

fun idle_loop :: "nat \<Rightarrow> sched \<Rightarrow> sched option" where
  "idle_loop ticks s =
     (if sleeping_q s \<noteq> [] \<and> ready_q s = []
      then (case ticks of 0 \<Rightarrow> None | Suc n \<Rightarrow> idle_loop n (tick_try_to_wake_up s))
      else Some s)"

definition switch_to :: "nat \<Rightarrow> sched \<Rightarrow> sched" where
  "switch_to t s =
     (let s1 = (if \<not> exited (cur_thread s) \<and> ready (cur_thread s) then t_push (cur s) s else s)
      in s1\<lparr>cur := t, svm := switch_L1_page_table (l1_pt (threads s1 t)) (svm s1), tls_reg := tls_base (threads s1 t)\<rparr>)"

text \<open>Saving the interrupted context: \<open>saved_sp\<close> is \<open>None\<close> when it points to the current thread's own context.\<close>

definition save_ctx :: "saved_context option \<Rightarrow> sched \<Rightarrow> sched" where
  "save_ctx saved_sp s = (case saved_sp of None \<Rightarrow> s | Some c \<Rightarrow> upd_thread (cur s) (\<lambda>th. th\<lparr>ctx := c\<rparr>) s)"

text \<open>\<open>fuel\<close> bounds the recursion and \<open>ticks\<close> each wait.\<close>

fun cs_do_sched :: "nat \<Rightarrow> nat \<Rightarrow> saved_context option \<Rightarrow> sched \<Rightarrow> outcome option" where
  "cs_do_sched fuel ticks saved_sp s =
     (case t_pop (save_ctx saved_sp s) of (nxt, s1) \<Rightarrow>
        (if (case nxt of None \<Rightarrow> False | Some t \<Rightarrow> \<not> exited (threads s1 t) \<and> ready (threads s1 t))
         then Some (Resume (switch_to (the nxt) s1))
         else if exited (cur_thread s1) \<or> \<not> ready (cur_thread s1) then
           (case idle_loop ticks s1 of None \<Rightarrow> None
            | Some s2 \<Rightarrow>
                if ready_q s2 \<noteq> [] then (case fuel of 0 \<Rightarrow> None | Suc n \<Rightarrow> cs_do_sched n ticks saved_sp s2)
                else Some Panic)
         else Some (Resume s1)))"

declare idle_loop.simps [simp del] cs_do_sched.simps [simp del]

text \<open>Sleeping does not return: the scheduler resumes a user context, or waits for one.\<close>

definition cs_svc_sleep :: "nat \<Rightarrow> nat \<Rightarrow> u32 \<Rightarrow> sched \<Rightarrow> outcome option" where
  "cs_svc_sleep fuel ticks n s =
     cs_do_sched fuel ticks None (s_push (cur s, n) (upd_thread (cur s) (\<lambda>th. th\<lparr>ready := False\<rparr>) s))"

section \<open>Process tables\<close>

definition live_pid :: "sched \<Rightarrow> u32 \<Rightarrow> nat \<Rightarrow> bool" where
  "live_pid s pid t \<longleftrightarrow> tid (threads s t) = pid \<and> \<not> exited (threads s t)"

definition see_if_pid_still_exists :: "u32 \<Rightarrow> sched \<Rightarrow> bool" where
  "see_if_pid_still_exists pid s \<longleftrightarrow> live_pid s pid (cur s) \<or> list_ex (live_pid s pid) (ready_q s)
     \<or> list_ex (\<lambda>(t, n). live_pid s pid t) (sleeping_q s)"

definition number_of_childs :: "u32 \<Rightarrow> sched \<Rightarrow> nat" where
  "number_of_childs parent s =
     (let child = (\<lambda>t. ppid (threads s t) = parent \<and> \<not> exited (threads s t))
      in (if child (cur s) then 1 else 0) + length (filter child (ready_q s)) + length (filter (\<lambda>(t, n). child t) (sleeping_q s)))"

definition rpi_cur_thread :: "sched \<Rightarrow> nat" where
  "rpi_cur_thread s = cur s"

definition rpi_exit :: "nat \<Rightarrow> nat \<Rightarrow> saved_context \<Rightarrow> sched \<Rightarrow> outcome option" where
  "rpi_exit fuel ticks c s =
     (let s1 = upd_thread (cur s) (\<lambda>th. th\<lparr>exited := True\<rparr>) s
      in cs_do_sched fuel ticks (Some c) (s1\<lparr>svm := free_L1_page_table (l1_pt (cur_thread s1)) (svm s1)\<rparr>))"

text \<open>The child is a copy with the context passed, a fresh id and page table, 0 in its r0, and the parent's
  file pointers: the counts of the files are not changed. The parent's own context gets the child's id.\<close>

definition rpi_fork :: "saved_context \<Rightarrow> sched \<Rightarrow> sched option" where
  "rpi_fork c s = do {
     (pt, vm) \<leftarrow> fork_page_table (l1_pt (cur_thread s)) (svm s);
     let t = next_thread s;
         parent = cur_thread s;
         child = parent\<lparr>ctx := c\<lparr>regs := (regs c)[0 := 0]\<rparr>, tid := next_tid s, exited := False, ready := True, l1_pt := pt,
           ppid := tid parent\<rparr>;
         s1 = upd_thread (cur s) (\<lambda>th. th\<lparr>ctx := (ctx th)\<lparr>regs := (regs (ctx th))[0 := next_tid s]\<rparr>\<rparr>) s
     in Some (t_push t (s1\<lparr>threads := (threads s1)(t := child), next_thread := t + 1, next_tid := next_tid s + 1, svm := vm\<rparr>))
   }"

section \<open>What the queues hold\<close>

text \<open>The threads created so far are those below \<open>next_thread\<close>. Every one that has not exited is running,
  ready or asleep; the sleeping ones are those that are not ready, each once.\<close>

definition asleep :: "sched \<Rightarrow> nat set" where
  "asleep s = fst ` set (sleeping_q s)"

definition sched_inv :: "sched \<Rightarrow> bool" where
  "sched_inv s \<longleftrightarrow> cur s < next_thread s \<and> (\<forall>t \<in> set (ready_q s) \<union> asleep s. t < next_thread s)
     \<and> distinct (map fst (sleeping_q s))
     \<and> (\<forall>t < next_thread s. \<not> exited (threads s t) \<longrightarrow> t = cur s \<or> t \<in> set (ready_q s) \<or> t \<in> asleep s)
     \<and> (\<forall>t < next_thread s. t \<in> asleep s \<longleftrightarrow> \<not> exited (threads s t) \<and> \<not> ready (threads s t))"

lemma sched_invD:
  assumes "sched_inv s"
  shows "cur s < next_thread s" "t \<in> set (ready_q s) \<Longrightarrow> t < next_thread s" "t \<in> asleep s \<Longrightarrow> t < next_thread s"
    "distinct (map fst (sleeping_q s))"
    "t < next_thread s \<Longrightarrow> \<not> exited (threads s t) \<Longrightarrow> t = cur s \<or> t \<in> set (ready_q s) \<or> t \<in> asleep s"
    "t < next_thread s \<Longrightarrow> t \<in> asleep s \<longleftrightarrow> \<not> exited (threads s t) \<and> \<not> ready (threads s t)"
  using assms unfolding sched_inv_def by blast+

text \<open>One tick: who wakes, and what stays the same.\<close>

definition wakes :: "(nat \<times> u32) list \<Rightarrow> nat list" where
  "wakes q = map fst (filter (\<lambda>(t, n). n = 1) q)"

definition sleeps_on :: "(nat \<times> u32) list \<Rightarrow> (nat \<times> u32) list" where
  "sleeps_on q = map (\<lambda>(t, n). (t, n - 1)) (filter (\<lambda>(t, n). n \<noteq> 1) q)"

lemma wakes_simps:
  "wakes [] = []" "sleeps_on [] = []"
  "wakes ((t, n) # q) = (if n = 1 then t # wakes q else wakes q)"
  "sleeps_on ((t, n) # q) = (if n = 1 then sleeps_on q else (t, n - 1) # sleeps_on q)"
  by (simp_all add: wakes_def sleeps_on_def)

lemma wake_loop_law:
  "wake_loop q kept s = s\<lparr>sleeping_q := kept @ sleeps_on q, ready_q := ready_q s @ wakes q,
     threads := (\<lambda>t. if t \<in> set (wakes q) then (threads s t)\<lparr>ready := True\<rparr> else threads s t)\<rparr>"
proof (induction q arbitrary: kept s)
  case Nil
  then show ?case by (simp add: wakes_simps)
next
  case (Cons x q)
  obtain t n where x: "x = (t, n)" by (cases x)
  have z: "n - 1 = 0 \<longleftrightarrow> n = (1 :: u32)" by simp
  show ?case
  proof (cases "n = 1")
    case True
    have f: "(\<lambda>u. if u \<in> set (wakes q) then (threads (t_push t (upd_thread t (\<lambda>th. th\<lparr>ready := True\<rparr>) s)) u)\<lparr>ready := True\<rparr>
          else threads (t_push t (upd_thread t (\<lambda>th. th\<lparr>ready := True\<rparr>) s)) u)
        = (\<lambda>u. if u \<in> set (wakes (x # q)) then (threads s u)\<lparr>ready := True\<rparr> else threads s u)"
      using True x by (auto simp: wakes_simps t_push_def upd_thread_def fun_eq_iff)
    have w: "wakes (x # q) = t # wakes q" "sleeps_on (x # q) = sleeps_on q" using True x by (simp_all add: wakes_simps)
    have "wake_loop (x # q) kept s = wake_loop q kept (t_push t (upd_thread t (\<lambda>th. th\<lparr>ready := True\<rparr>) s))"
      using True x by simp
    then show ?thesis unfolding Cons f unfolding w by (simp add: t_push_def upd_thread_def)
  next
    case False
    then show ?thesis using Cons x z by (simp add: wakes_simps)
  qed
qed

lemma tick_law:
  "tick_try_to_wake_up s = s\<lparr>sleeping_q := sleeps_on (sleeping_q s), ready_q := ready_q s @ wakes (sleeping_q s),
     threads := (\<lambda>t. if t \<in> set (wakes (sleeping_q s)) then (threads s t)\<lparr>ready := True\<rparr> else threads s t)\<rparr>"
  by (simp add: tick_try_to_wake_up_def wake_loop_law)

lemma wakes_sleeps: "fst ` set q = set (wakes q) \<union> fst ` set (sleeps_on q)"
proof (induction q)
  case (Cons x q)
  then show ?case by (cases x; cases "snd x = 1") (simp_all add: wakes_simps insert_commute)
qed (simp add: wakes_simps)

lemma wakes_not_sleeps: "distinct (map fst q) \<Longrightarrow> set (wakes q) \<inter> fst ` set (sleeps_on q) = {}"
proof (induction q)
  case (Cons x q)
  with wakes_sleeps [of q] show ?case by (cases x) (auto simp: wakes_simps)
qed (simp add: wakes_simps)

lemma sleeps_on_distinct: "distinct (map fst q) \<Longrightarrow> distinct (map fst (sleeps_on q))"
proof (induction q)
  case (Cons x q)
  have "fst ` set (sleeps_on q) \<subseteq> fst ` set q" using wakes_sleeps [of q] by blast
  with Cons show ?case by (cases x) (auto simp: wakes_simps)
qed (simp add: wakes_simps)

lemma tick_fields:
  "cur (tick_try_to_wake_up s) = cur s" "next_thread (tick_try_to_wake_up s) = next_thread s"
  "ready_q (tick_try_to_wake_up s) = ready_q s @ wakes (sleeping_q s)"
  "sleeping_q (tick_try_to_wake_up s) = sleeps_on (sleeping_q s)"
  "svm (tick_try_to_wake_up s) = svm s" "tls_reg (tick_try_to_wake_up s) = tls_reg s"
  "ready (threads (tick_try_to_wake_up s) t) \<longleftrightarrow> ready (threads s t) \<or> t \<in> set (wakes (sleeping_q s))"
  "exited (threads (tick_try_to_wake_up s) t) = exited (threads s t)"
  "l1_pt (threads (tick_try_to_wake_up s) t) = l1_pt (threads s t)"
  "tls_base (threads (tick_try_to_wake_up s) t) = tls_base (threads s t)"
  "ctx (threads (tick_try_to_wake_up s) t) = ctx (threads s t)"
  by (simp_all add: tick_law)

lemma tick_inv:
  assumes "sched_inv s"
  shows "sched_inv (tick_try_to_wake_up s)"
proof -
  let ?q = "sleeping_q s"
  note d = sched_invD [OF assms]
  have a: "asleep s = set (wakes ?q) \<union> fst ` set (sleeps_on ?q)" unfolding asleep_def by (rule wakes_sleeps)
  note w = wakes_not_sleeps [OF d(4)]
  have l: "\<And>t. t \<in> set (wakes ?q) \<Longrightarrow> t < next_thread s" "\<And>t. t \<in> fst ` set (sleeps_on ?q) \<Longrightarrow> t < next_thread s"
    using a d(3) by blast+
  have b: "\<forall>t < next_thread s. t \<in> fst ` set (sleeps_on ?q)
      \<longleftrightarrow> \<not> exited (threads s t) \<and> \<not> (ready (threads s t) \<or> t \<in> set (wakes ?q))"
    using d(6) a w by blast
  have c: "\<forall>t < next_thread s. \<not> exited (threads s t) \<longrightarrow>
      t = cur s \<or> t \<in> set (ready_q s) \<union> set (wakes ?q) \<or> t \<in> fst ` set (sleeps_on ?q)"
    using d(5) a by blast
  show ?thesis unfolding sched_inv_def asleep_def tick_fields set_append
    using d(1,2) l b c sleeps_on_distinct [OF d(4)] by blast
qed

section \<open>Waiting\<close>

text \<open>The rounds until a counter is used up: a counter of 0 wraps around.\<close>

definition wait :: "u32 \<Rightarrow> nat" where
  "wait n = (if n = 0 then 2 ^ 32 else unat n)"

lemma wait_less_one: "n \<noteq> 1 \<Longrightarrow> wait n = Suc (wait (n - 1))"
proof -
  assume n: "n \<noteq> 1"
  show ?thesis
  proof (cases "n = 0")
    case True
    moreover have "unat (- 1 :: u32) = 2 ^ 32 - 1" by (simp add: unsigned_minus_1_eq_mask mask_eq_exp_minus_1)
    ultimately show ?thesis by (simp add: wait_def)
  next
    case False
    then have "unat n \<noteq> 0" "n - 1 \<noteq> 0" using n by (simp_all add: unat_eq_0)
    moreover have "unat (n - 1) = unat n - 1" using False by (rule unat_minus_one)
    ultimately show ?thesis using False by (simp add: wait_def)
  qed
qed

lemma wait_pos: "0 < wait n"
  by (simp add: wait_def unat_gt_0)

lemma idle_loop_none: "sleeping_q s = [] \<or> ready_q s \<noteq> [] \<Longrightarrow> idle_loop ticks s = Some s"
  by (subst idle_loop.simps) auto

lemma idle_loop_total:
  assumes "\<And>t n. (t, n) \<in> set (sleeping_q s) \<Longrightarrow> wait n \<le> ticks"
  shows "\<exists>s'. idle_loop ticks s = Some s'"
  using assms
proof (induction ticks arbitrary: s)
  case 0
  have "sleeping_q s = []"
  proof (cases "sleeping_q s")
    case (Cons x q)
    then have "wait (snd x) \<le> 0" using 0(1) [of "fst x" "snd x"] by simp
    then show ?thesis using wait_pos [of "snd x"] by simp
  qed
  then show ?case by (simp add: idle_loop_none)
next
  case (Suc n)
  show ?case
  proof (cases "sleeping_q s \<noteq> [] \<and> ready_q s = []")
    case False
    then show ?thesis by (subst idle_loop.simps) auto
  next
    case True
    have "\<And>t m. (t, m) \<in> set (sleeping_q (tick_try_to_wake_up s)) \<Longrightarrow> wait m \<le> n"
      using Suc.prems wait_less_one unfolding tick_fields sleeps_on_def by fastforce
    then have "\<exists>s'. idle_loop n (tick_try_to_wake_up s) = Some s'" by (rule Suc.IH)
    then show ?thesis using True by (subst idle_loop.simps) simp
  qed
qed

lemma idle_loop_law:
  assumes "idle_loop ticks s = Some s'" "sched_inv s"
  shows "\<exists>k. s' = (tick_try_to_wake_up ^^ k) s" "sched_inv s'"
    "ready_q s = [] \<Longrightarrow> sleeping_q s \<noteq> [] \<Longrightarrow> \<exists>t q. ready_q s' = t # q \<and> t \<in> asleep s \<and> ready (threads s' t)"
proof -
  have "(\<exists>k. s' = (tick_try_to_wake_up ^^ k) s) \<and> sched_inv s'
    \<and> (ready_q s = [] \<longrightarrow> sleeping_q s \<noteq> [] \<longrightarrow> (\<exists>t q. ready_q s' = t # q \<and> t \<in> asleep s \<and> ready (threads s' t)))"
    using assms
  proof (induction ticks arbitrary: s)
    case 0
    then have "s' = s" "sleeping_q s = [] \<or> ready_q s \<noteq> []" by (subst (asm) idle_loop.simps, auto split: if_splits)+
    moreover have "s = (tick_try_to_wake_up ^^ 0) s" by simp
    ultimately show ?case using 0 by blast
  next
    case (Suc n)
    show ?case
    proof (cases "sleeping_q s \<noteq> [] \<and> ready_q s = []")
      case False
      then have "s' = s" using Suc.prems by (subst (asm) idle_loop.simps) auto
      moreover have "s = (tick_try_to_wake_up ^^ 0) s" by simp
      ultimately show ?thesis using Suc.prems(2) False by blast
    next
      case True
      let ?s = "tick_try_to_wake_up s"
      have step: "idle_loop n ?s = Some s'" using True Suc.prems(1) by (subst (asm) idle_loop.simps) simp
      have inv: "sched_inv ?s" by (rule tick_inv [OF Suc.prems(2)])
      note r = Suc.IH [OF step inv]
      have a: "asleep s = set (wakes (sleeping_q s)) \<union> asleep ?s"
        unfolding asleep_def tick_fields by (rule wakes_sleeps)
      have "\<exists>t q. ready_q s' = t # q \<and> t \<in> asleep s \<and> ready (threads s' t)"
      proof (cases "ready_q ?s")
        case Nil
        then have "wakes (sleeping_q s) = []" using True by (simp add: tick_fields)
        then have "asleep ?s \<noteq> {}" using a True unfolding asleep_def by auto
        then have "sleeping_q ?s \<noteq> []" by (auto simp: asleep_def)
        then show ?thesis using r Nil a by blast
      next
        case (Cons t q)
        then have "s' = ?s" using step by (simp add: idle_loop_none)
        moreover have "t \<in> set (wakes (sleeping_q s))" using Cons True by (simp add: tick_fields)
        ultimately show ?thesis using Cons a by (auto simp: tick_fields)
      qed
      moreover obtain k where "s' = (tick_try_to_wake_up ^^ k) ?s" using r by blast
      then have "s' = (tick_try_to_wake_up ^^ Suc k) s" by (simp add: funpow_swap1)
      ultimately show ?thesis using r by blast
    qed
  qed
  then show "\<exists>k. s' = (tick_try_to_wake_up ^^ k) s" "sched_inv s'"
    "ready_q s = [] \<Longrightarrow> sleeping_q s \<noteq> [] \<Longrightarrow> \<exists>t q. ready_q s' = t # q \<and> t \<in> asleep s \<and> ready (threads s' t)"
    by blast+
qed

lemma ticks_fields:
  "cur ((tick_try_to_wake_up ^^ k) s) = cur s" "next_thread ((tick_try_to_wake_up ^^ k) s) = next_thread s"
  "svm ((tick_try_to_wake_up ^^ k) s) = svm s" "tls_reg ((tick_try_to_wake_up ^^ k) s) = tls_reg s"
  "exited (threads ((tick_try_to_wake_up ^^ k) s) t) = exited (threads s t)"
  "l1_pt (threads ((tick_try_to_wake_up ^^ k) s) t) = l1_pt (threads s t)"
  "tls_base (threads ((tick_try_to_wake_up ^^ k) s) t) = tls_base (threads s t)"
  "ctx (threads ((tick_try_to_wake_up ^^ k) s) t) = ctx (threads s t)"
  by (induction k) (simp_all add: tick_fields)

section \<open>The scheduler's contract\<close>

text \<open>The table in use is the current thread's; a running system has a current thread that can run.\<close>

definition sched_ok :: "sched \<Rightarrow> bool" where
  "sched_ok s \<longleftrightarrow> sched_inv s \<and> vm_active (svm s) = l1_pt (cur_thread s)"

definition running :: "sched \<Rightarrow> bool" where
  "running s \<longleftrightarrow> sched_ok s \<and> \<not> exited (cur_thread s) \<and> ready (cur_thread s)"

text \<open>The threads are the same but for who is awake.\<close>

definition same_threads :: "sched \<Rightarrow> sched \<Rightarrow> bool" where
  "same_threads a b \<longleftrightarrow> next_thread b = next_thread a \<and> (\<forall>t. threads b t = (threads a t)\<lparr>ready := ready (threads b t)\<rparr>)"

lemma same_threads_refl: "same_threads a a"
  by (simp add: same_threads_def)

lemma same_threads_trans: "same_threads a b \<Longrightarrow> same_threads b c \<Longrightarrow> same_threads a c"
  unfolding same_threads_def by (metis (no_types, lifting) rpi_thread.update_convs(3) rpi_thread.surjective)

lemma same_threads_tick: "same_threads s ((tick_try_to_wake_up ^^ k) s)"
proof (induction k)
  case (Suc k)
  have "same_threads u (tick_try_to_wake_up u)" for u by (simp add: same_threads_def tick_law)
  then show ?case using Suc same_threads_trans by (metis funpow.simps(2) o_apply)
qed (simp add: same_threads_refl)

lemma save_ctx_fields:
  "cur (save_ctx c s) = cur s" "next_thread (save_ctx c s) = next_thread s" "ready_q (save_ctx c s) = ready_q s"
  "sleeping_q (save_ctx c s) = sleeping_q s" "svm (save_ctx c s) = svm s" "tls_reg (save_ctx c s) = tls_reg s"
  "ready (threads (save_ctx c s) t) = ready (threads s t)" "exited (threads (save_ctx c s) t) = exited (threads s t)"
  "l1_pt (threads (save_ctx c s) t) = l1_pt (threads s t)" "tls_base (threads (save_ctx c s) t) = tls_base (threads s t)"
  "save_ctx c (save_ctx c s) = save_ctx c s"
  by (auto simp: save_ctx_def upd_thread_def split: option.splits)

lemma save_ctx_ok: "sched_ok s \<Longrightarrow> sched_ok (save_ctx c s)"
  unfolding sched_ok_def sched_inv_def asleep_def save_ctx_fields by blast

lemma t_pop_law: "t_pop s = (if ready_q s = [] then None else Some (hd (ready_q s)), s\<lparr>ready_q := tl (ready_q s)\<rparr>)"
  by (simp add: t_pop_def split: list.splits)

text \<open>A thread at the head of the queue that can run gets the processor.\<close>

lemma cs_do_sched_head:
  assumes "ready_q s = t # q" "\<not> exited (threads s t)" "ready (threads s t)"
  shows "cs_do_sched fuel ticks c s = Some (Resume (switch_to t ((save_ctx c s)\<lparr>ready_q := q\<rparr>)))"
  using assms by (subst cs_do_sched.simps) (simp add: t_pop_law save_ctx_fields)

text \<open>Any other head is dropped, and a current thread that can run goes on.\<close>

lemma cs_do_sched_continue:
  assumes "ready_q s = [] \<or> exited (threads s (hd (ready_q s))) \<or> \<not> ready (threads s (hd (ready_q s)))"
    "\<not> exited (cur_thread s)" "ready (cur_thread s)"
  shows "cs_do_sched fuel ticks c s = Some (Resume ((save_ctx c s)\<lparr>ready_q := tl (ready_q s)\<rparr>))"
  using assms by (subst cs_do_sched.simps) (auto simp: t_pop_law save_ctx_fields)

lemma cs_do_sched_wait:
  assumes "ready_q s = [] \<or> exited (threads s (hd (ready_q s))) \<or> \<not> ready (threads s (hd (ready_q s)))"
    "exited (cur_thread s) \<or> \<not> ready (cur_thread s)"
  shows "cs_do_sched fuel ticks c s = (case idle_loop ticks ((save_ctx c s)\<lparr>ready_q := tl (ready_q s)\<rparr>) of None \<Rightarrow> None
    | Some s2 \<Rightarrow> if ready_q s2 \<noteq> [] then (case fuel of 0 \<Rightarrow> None | Suc n \<Rightarrow> cs_do_sched n ticks c s2) else Some Panic)"
  using assms by (subst cs_do_sched.simps) (auto simp: t_pop_law save_ctx_fields)

text \<open>What every call returns, from a consistent state.\<close>

definition sched_result :: "saved_context option \<Rightarrow> sched \<Rightarrow> outcome \<Rightarrow> bool" where
  "sched_result c s r = (case r of
     Panic \<Rightarrow> \<forall>t < next_thread s. exited (threads s t)
   | Resume s' \<Rightarrow> running s' \<and> same_threads (save_ctx c s) s')"

lemma pop_ok:
  assumes "sched_ok s" "ready_q s = [] \<or> exited (threads s (hd (ready_q s))) \<or> \<not> ready (threads s (hd (ready_q s)))"
  shows "sched_ok (s\<lparr>ready_q := tl (ready_q s)\<rparr>)"
proof (cases "ready_q s")
  case (Cons t q)
  have i: "sched_inv s" using assms(1) by (simp add: sched_ok_def)
  note d = sched_invD [OF i]
  have t: "t < next_thread s" "exited (threads s t) \<or> t \<in> asleep s"
    using d(2) [of t] d(6) [of t] assms(2) Cons by auto
  have "sched_inv (s\<lparr>ready_q := q\<rparr>)"
    unfolding sched_inv_def asleep_def using d t Cons by (auto simp: asleep_def)
  then show ?thesis using assms(1) Cons by (simp add: sched_ok_def)
next
  case Nil
  then have "s\<lparr>ready_q := tl (ready_q s)\<rparr> = s" by simp
  then show ?thesis using assms(1) by simp
qed

lemma switch_running:
  assumes "sched_ok s" "ready_q s = t # q" "\<not> exited (threads s t)" "ready (threads s t)"
  shows "running (switch_to t (s\<lparr>ready_q := q\<rparr>))"
proof -
  have i: "sched_inv s" using assms(1) by (simp add: sched_ok_def)
  note d = sched_invD [OF i]
  have "t < next_thread s" using d(2) assms(2) by simp
  moreover have "cur s \<in> asleep s \<or> exited (cur_thread s) \<or> ready (cur_thread s)" using d(1) d(6) by blast
  ultimately have "sched_inv (switch_to t (s\<lparr>ready_q := q\<rparr>))"
    unfolding sched_inv_def asleep_def switch_to_def Let_def using d assms(2)
    by (auto simp: asleep_def t_push_def)
  then show ?thesis using assms(3,4)
    by (simp add: running_def sched_ok_def switch_to_def Let_def t_push_def switch_L1_page_table_def)
qed

lemma switch_same: "same_threads s (switch_to t (s\<lparr>ready_q := q\<rparr>))"
  by (simp add: same_threads_def switch_to_def Let_def t_push_def)

lemma save_ctx_same:
  assumes "same_threads (save_ctx c s) u" "cur u = cur s"
  shows "same_threads (save_ctx c s) (save_ctx c u)"
proof -
  have "threads (save_ctx c u) t = (threads (save_ctx c s) t)\<lparr>ready := ready (threads (save_ctx c u) t)\<rparr>" for t
  proof -
    have "threads u t = (threads (save_ctx c s) t)\<lparr>ready := ready (threads u t)\<rparr>" using assms(1) unfolding same_threads_def by blast
    then obtain r where "threads u t = (threads (save_ctx c s) t)\<lparr>ready := r\<rparr>" by blast
    then show ?thesis using assms(2) by (cases c; cases "t = cur s") (simp_all add: save_ctx_def upd_thread_def)
  qed
  then show ?thesis using assms(1) by (simp add: same_threads_def save_ctx_fields)
qed

text \<open>The three ways through the scheduler.\<close>

lemma cs_do_sched_cases:
  obtains (switch) t q where "ready_q s = t # q" "\<not> exited (threads s t)" "ready (threads s t)"
    | (go) "ready_q s = [] \<or> exited (threads s (hd (ready_q s))) \<or> \<not> ready (threads s (hd (ready_q s)))"
        "\<not> exited (cur_thread s)" "ready (cur_thread s)"
    | (stop) "ready_q s = [] \<or> exited (threads s (hd (ready_q s))) \<or> \<not> ready (threads s (hd (ready_q s)))"
        "exited (cur_thread s) \<or> \<not> ready (cur_thread s)"
  by (cases "ready_q s") auto

lemma drop_ok:
  assumes "sched_ok s" "ready_q s = [] \<or> exited (threads s (hd (ready_q s))) \<or> \<not> ready (threads s (hd (ready_q s)))"
  shows "sched_ok ((save_ctx c s)\<lparr>ready_q := tl (ready_q s)\<rparr>)"
  using pop_ok [OF save_ctx_ok [OF assms(1), of c]] assms(2) by (simp add: save_ctx_fields)

lemma sched_waited:
  assumes "sched_ok s" "ready_q s = [] \<or> exited (threads s (hd (ready_q s))) \<or> \<not> ready (threads s (hd (ready_q s)))"
    "exited (cur_thread s) \<or> \<not> ready (cur_thread s)"
    "idle_loop ticks ((save_ctx c s)\<lparr>ready_q := tl (ready_q s)\<rparr>) = Some s2"
  shows "sched_ok s2" "sched_result c s2 r \<Longrightarrow> sched_result c s r"
    "ready_q s2 = [] \<Longrightarrow> t < next_thread s \<Longrightarrow> exited (threads s t)"
    "ready_q s2 = [] \<or> (\<exists>t q. ready_q s2 = t # q \<and> \<not> exited (threads s2 t) \<and> ready (threads s2 t))
      \<or> (ready_q s2 = tl (ready_q s) \<and> sleeping_q s2 = sleeping_q s)"
proof -
  let ?s = "save_ctx c s"
  let ?p = "?s\<lparr>ready_q := tl (ready_q s)\<rparr>"
  have ok: "sched_ok ?p" by (rule drop_ok [OF assms(1,2)])
  then have inv: "sched_inv ?p" by (simp add: sched_ok_def)
  note r = idle_loop_law [OF assms(4) inv]
  obtain k where k: "s2 = (tick_try_to_wake_up ^^ k) ?p" using r(1) by blast
  have n2: "next_thread s2 = next_thread s" "cur s2 = cur s" by (simp_all add: k ticks_fields save_ctx_fields)
  have ex: "exited (threads s2 t) = exited (threads s t)" for t by (simp add: k ticks_fields save_ctx_fields)
  have sp: "same_threads ?s ?p" by (simp add: same_threads_def)
  have st: "same_threads ?s s2" unfolding k by (rule same_threads_trans [OF sp same_threads_tick])
  have st2: "same_threads ?s (save_ctx c s2)" by (rule save_ctx_same [OF st n2(2)])
  show "sched_ok s2" using ok r(2) unfolding k sched_ok_def by (simp add: ticks_fields)
  show "sched_result c s r" if "sched_result c s2 r"
  proof (cases r)
    case (Resume s')
    then show ?thesis using that same_threads_trans [OF st2] by (simp add: sched_result_def)
  next
    case Panic
    then show ?thesis using that by (simp add: sched_result_def n2 ex)
  qed
  have same: "s2 = ?p" if "sleeping_q ?p = [] \<or> ready_q ?p \<noteq> []"
    using assms(4) idle_loop_none [OF that] by simp
  show "exited (threads s t)" if "ready_q s2 = []" "t < next_thread s"
  proof -
    have "sleeping_q ?p = []" using r(3) same that(1) by (cases "ready_q ?p = []") auto
    moreover have "ready_q ?p = []" using same that(1) calculation by simp
    ultimately show ?thesis
      using sched_invD(5) [OF inv, of t] sched_invD(6) [OF inv, of t] sched_invD(6) [OF inv sched_invD(1) [OF inv]] assms(3) that(2)
      by (auto simp: asleep_def save_ctx_fields)
  qed
  show "ready_q s2 = [] \<or> (\<exists>t q. ready_q s2 = t # q \<and> \<not> exited (threads s2 t) \<and> ready (threads s2 t))
      \<or> (ready_q s2 = tl (ready_q s) \<and> sleeping_q s2 = sleeping_q s)"
  proof (cases "sleeping_q ?p = [] \<or> ready_q ?p \<noteq> []")
    case True
    then show ?thesis using same by (simp add: save_ctx_fields)
  next
    case False
    then obtain t q where t: "ready_q s2 = t # q" "t \<in> asleep ?p" "ready (threads s2 t)" using r(3) by auto
    have "\<not> exited (threads s2 t)"
      using sched_invD(6) [OF inv sched_invD(3) [OF inv t(2)]] t(2) by (simp add: ex save_ctx_fields)
    then show ?thesis using t by blast
  qed
qed

lemma cs_do_sched_law:
  assumes "cs_do_sched fuel ticks c s = Some r" "sched_ok s"
  shows "sched_result c s r"
  using assms
proof (induction fuel arbitrary: s rule: less_induct)
  case (less fuel)
  show ?case
  proof (cases s rule: cs_do_sched_cases)
    case (switch t q)
    have "running (switch_to t ((save_ctx c s)\<lparr>ready_q := q\<rparr>))"
      by (rule switch_running [OF save_ctx_ok [OF less.prems(2)]]) (use switch in \<open>simp_all add: save_ctx_fields\<close>)
    then show ?thesis using less.prems(1) cs_do_sched_head [OF switch] switch_same by (auto simp: sched_result_def)
  next
    case go
    have "same_threads (save_ctx c s) ((save_ctx c s)\<lparr>ready_q := tl (ready_q s)\<rparr>)" by (simp add: same_threads_def)
    then show ?thesis using less.prems(1) cs_do_sched_continue [OF go] drop_ok [OF less.prems(2) go(1), of c] go(2,3)
      by (auto simp: sched_result_def running_def save_ctx_fields)
  next
    case stop
    obtain s2 where s2: "idle_loop ticks ((save_ctx c s)\<lparr>ready_q := tl (ready_q s)\<rparr>) = Some s2"
      using less.prems(1) cs_do_sched_wait [OF stop] by (cases "idle_loop ticks ((save_ctx c s)\<lparr>ready_q := tl (ready_q s)\<rparr>)") auto
    note w = sched_waited [OF less.prems(2) stop s2]
    show ?thesis
    proof (cases "ready_q s2 = []")
      case True
      then show ?thesis using less.prems(1) cs_do_sched_wait [OF stop] s2 w(3) by (auto simp: sched_result_def)
    next
      case False
      then obtain n where "fuel = Suc n" "cs_do_sched n ticks c s2 = Some r"
        using less.prems(1) cs_do_sched_wait [OF stop] s2 by (auto split: nat.splits)
      then show ?thesis using less.IH [of n s2] w(1,2) by simp
    qed
  qed
qed

lemma cs_do_sched_total_law:
  assumes "sched_ok s" "length (ready_q s) < fuel" "\<And>t n. (t, n) \<in> set (sleeping_q s) \<Longrightarrow> wait n \<le> ticks"
  shows "\<exists>r. cs_do_sched fuel ticks c s = Some r"
  using assms
proof (induction fuel arbitrary: s)
  case 0
  then show ?case by simp
next
  case (Suc n)
  show ?case
  proof (cases s rule: cs_do_sched_cases)
    case (switch t q)
    then show ?thesis using cs_do_sched_head by blast
  next
    case go
    then show ?thesis using cs_do_sched_continue by blast
  next
    case stop
    let ?p = "(save_ctx c s)\<lparr>ready_q := tl (ready_q s)\<rparr>"
    have "\<And>t m. (t, m) \<in> set (sleeping_q ?p) \<Longrightarrow> wait m \<le> ticks" using Suc.prems(3) by (simp add: save_ctx_fields)
    then obtain s2 where s2: "idle_loop ticks ?p = Some s2" using idle_loop_total by blast
    note w = sched_waited [OF Suc.prems(1) stop s2]
    have e: "cs_do_sched (Suc n) ticks c s = (if ready_q s2 \<noteq> [] then cs_do_sched n ticks c s2 else Some Panic)"
      using cs_do_sched_wait [OF stop] s2 by simp
    consider "ready_q s2 = []" | t q where "ready_q s2 = t # q" "\<not> exited (threads s2 t)" "ready (threads s2 t)"
      | "ready_q s2 \<noteq> []" "ready_q s2 = tl (ready_q s)" "sleeping_q s2 = sleeping_q s" using w(4) by blast
    then show ?thesis
    proof cases
      case 2
      then show ?thesis using e cs_do_sched_head by fastforce
    next
      case 3
      then have "length (ready_q s2) < n" using Suc.prems(2) by (cases "ready_q s") auto
      then show ?thesis using e 3(3) Suc.IH [OF w(1)] Suc.prems(3) by auto
    qed (use e in simp)
  qed
qed

section \<open>The operations\<close>

lemma vm_active_simps:
  "vm_active (vfree p vm) = vm_active vm" "vm_active (free_pages n j l2 vm) = vm_active vm"
  "vm_active (free_tables n j l2 vm) = vm_active vm" "vm_active (free_L1_page_table l1 vm) = vm_active vm"
proof -
  show 1: "vm_active (vfree p vm) = vm_active vm" for p vm by (simp add: vfree_def)
  show 2: "vm_active (free_pages n j l2 vm) = vm_active vm" for n j l2 vm
    by (induction n arbitrary: j vm) (simp_all add: Let_def 1)
  show 3: "vm_active (free_tables n j l2 vm) = vm_active vm" for n j l2 vm
    by (induction n arbitrary: j vm) (simp_all add: Let_def 1 2)
  show "vm_active (free_L1_page_table l1 vm) = vm_active vm" by (simp add: free_L1_page_table_def 1 3)
qed

lemma valloc_active: "valloc n vm = Some (p, vm') \<Longrightarrow> vm_active vm' = vm_active vm"
  by (auto simp: valloc_def)

lemma fork_pages_active: "fork_pages n j l2 vm = Some vm' \<Longrightarrow> vm_active vm' = vm_active vm"
proof (induction n arbitrary: j vm)
  case (Suc n)
  then show ?case by (fastforce simp: Let_def bind_eq_Some_conv split: if_splits dest: valloc_active)
qed simp

lemma fork_tables_active: "fork_tables n i l1 vm = Some vm' \<Longrightarrow> vm_active vm' = vm_active vm"
proof (induction n arbitrary: i vm)
  case (Suc n)
  then show ?case by (fastforce simp: Let_def bind_eq_Some_conv split: if_splits dest: valloc_active fork_pages_active)
qed simp

lemma fork_active: "fork_page_table l1 vm = Some (p, vm') \<Longrightarrow> vm_active vm' = vm_active vm"
  unfolding fork_page_table_def by (fastforce simp: bind_eq_Some_conv dest: valloc_active fork_tables_active)

lemma sleep_ok:
  assumes "running s"
  shows "sched_ok (s_push (cur s, n) (upd_thread (cur s) (\<lambda>th. th\<lparr>ready := False\<rparr>) s))"
proof -
  let ?s = "s_push (cur s, n) (upd_thread (cur s) (\<lambda>th. th\<lparr>ready := False\<rparr>) s)"
  have i: "sched_inv s" using assms by (simp add: running_def sched_ok_def)
  note d = sched_invD [OF i]
  have c: "cur s \<notin> asleep s" using d(1) d(6) assms by (auto simp: running_def)
  have a: "asleep ?s = insert (cur s) (asleep s)" by (simp add: asleep_def s_push_def upd_thread_def)
  have f: "cur ?s = cur s" "next_thread ?s = next_thread s" "ready_q ?s = ready_q s" "exited (threads ?s t) = exited (threads s t)"
    "ready (threads ?s t) \<longleftrightarrow> t \<noteq> cur s \<and> ready (threads s t)" for t
    by (simp_all add: s_push_def upd_thread_def)
  have "distinct (map fst (sleeping_q ?s))" using d(4) c by (simp add: s_push_def upd_thread_def asleep_def)
  moreover have "\<forall>t < next_thread s. t \<in> insert (cur s) (asleep s) \<longleftrightarrow> \<not> exited (threads s t) \<and> \<not> (t \<noteq> cur s \<and> ready (threads s t))"
    using d(6) assms unfolding running_def by blast
  moreover have "\<forall>t < next_thread s. \<not> exited (threads s t) \<longrightarrow> t = cur s \<or> t \<in> set (ready_q s) \<or> t \<in> insert (cur s) (asleep s)"
    using d(5) by blast
  moreover have "\<forall>t \<in> set (ready_q s) \<union> insert (cur s) (asleep s). t < next_thread s" using d(1,2,3) by blast
  ultimately have "sched_inv ?s" unfolding sched_inv_def a f using d(1) by simp
  then show ?thesis using assms by (simp add: sched_ok_def running_def s_push_def upd_thread_def)
qed

lemma exit_ok:
  assumes "running s"
  shows "sched_ok ((upd_thread (cur s) (\<lambda>th. th\<lparr>exited := True\<rparr>) s)\<lparr>svm := free_L1_page_table l1 (svm s)\<rparr>)"
proof -
  have i: "sched_inv s" using assms by (simp add: running_def sched_ok_def)
  note d = sched_invD [OF i]
  have c: "cur s \<notin> asleep s" using d(1) d(6) assms by (auto simp: running_def)
  have "sched_inv ((upd_thread (cur s) (\<lambda>th. th\<lparr>exited := True\<rparr>) s)\<lparr>svm := free_L1_page_table l1 (svm s)\<rparr>)"
    unfolding sched_inv_def asleep_def using d c by (auto simp: upd_thread_def asleep_def)
  then show ?thesis using assms by (simp add: sched_ok_def running_def upd_thread_def vm_active_simps)
qed

lemma fork_running:
  assumes "running s" "rpi_fork c s = Some s'"
  shows "running s'"
proof -
  have i: "sched_inv s" using assms(1) by (simp add: running_def sched_ok_def)
  note d = sched_invD [OF i]
  obtain pt vm where f: "fork_page_table (l1_pt (cur_thread s)) (svm s) = Some (pt, vm)"
    using assms(2) by (auto simp: rpi_fork_def bind_eq_Some_conv)
  have n: "cur s \<noteq> next_thread s" "next_thread s \<notin> asleep s" using d(1) d(3) [of "next_thread s"] by auto
  have q: "ready_q s' = ready_q s @ [next_thread s]" "asleep s' = asleep s" "cur s' = cur s" "next_thread s' = next_thread s + 1"
    "sleeping_q s' = sleeping_q s" "svm s' = vm"
    "ready (threads s' t) \<longleftrightarrow> t = next_thread s \<or> ready (threads s t)"
    "exited (threads s' t) \<longleftrightarrow> t \<noteq> next_thread s \<and> exited (threads s t)"
    "l1_pt (threads s' (cur s)) = l1_pt (cur_thread s)" for t
    using assms(2) f n by (auto simp: rpi_fork_def Let_def t_push_def upd_thread_def asleep_def split: if_splits)
  have "sched_inv s'" unfolding sched_inv_def q(1-5,7,8) using d n by (auto simp: less_Suc_eq)
  then show ?thesis using assms(1) n fork_active [OF f] by (simp add: running_def sched_ok_def q)
qed

section \<open>The machine\<close>

text \<open>The events that reach the scheduler while a user thread runs.\<close>

inductive sched_step :: "sched \<Rightarrow> sched \<Rightarrow> bool" where
  tick: "sched_step s (tick_try_to_wake_up s)"
| preempt: "cs_do_sched fuel ticks (Some c) s = Some (Resume s') \<Longrightarrow> sched_step s s'"
| sleep: "cs_svc_sleep fuel ticks n s = Some (Resume s') \<Longrightarrow> sched_step s s'"
| exit: "rpi_exit fuel ticks c s = Some (Resume s') \<Longrightarrow> sched_step s s'"
| fork: "rpi_fork c s = Some s' \<Longrightarrow> sched_step s s'"

lemma sched_step_running:
  assumes "sched_step s s'" "running s"
  shows "running s'"
  using assms
proof cases
  case tick
  then show ?thesis using assms(2) tick_inv by (auto simp: running_def sched_ok_def tick_fields)
next
  case (preempt fuel ticks c)
  then show ?thesis using cs_do_sched_law [OF preempt] assms(2) by (simp add: running_def sched_result_def)
next
  case (sleep fuel ticks n)
  then show ?thesis using cs_do_sched_law [OF _ sleep_ok [OF assms(2)]] by (fastforce simp: cs_svc_sleep_def sched_result_def)
next
  case (exit fuel ticks c)
  then have "cs_do_sched fuel ticks (Some c) ((upd_thread (cur s) (\<lambda>th. th\<lparr>exited := True\<rparr>) s)
      \<lparr>svm := free_L1_page_table (l1_pt (cur_thread s)) (svm s)\<rparr>) = Some (Resume s')"
    by (simp add: rpi_exit_def Let_def upd_thread_def)
  then show ?thesis using cs_do_sched_law [OF _ exit_ok [OF assms(2)]] by (fastforce simp: sched_result_def)
next
  case (fork c)
  then show ?thesis using fork_running [OF assms(2)] by simp
qed

lemma sched_steps_running:
  assumes "sched_step\<^sup>*\<^sup>* s s'" "running s"
  shows "running s'"
  using assms by (induction rule: rtranclp_induct) (blast intro: sched_step_running)+

text \<open>What a call of the scheduler changes of a thread.\<close>

lemma same_threadsD:
  assumes "same_threads a b"
  shows "next_thread b = next_thread a" "exited (threads b t) = exited (threads a t)" "ctx (threads b t) = ctx (threads a t)"
    "tid (threads b t) = tid (threads a t)" "l1_pt (threads b t) = l1_pt (threads a t)"
proof -
  have "threads b t = (threads a t)\<lparr>ready := ready (threads b t)\<rparr>" using assms unfolding same_threads_def by blast
  then obtain r where "threads b t = (threads a t)\<lparr>ready := r\<rparr>" by blast
  then show "exited (threads b t) = exited (threads a t)" "ctx (threads b t) = ctx (threads a t)"
    "tid (threads b t) = tid (threads a t)" "l1_pt (threads b t) = l1_pt (threads a t)" by simp_all
qed (use assms in \<open>simp add: same_threads_def\<close>)

text \<open>Sleeping always ends: the sleeper is alive, so there is no panic.\<close>

lemma sleep_resumes:
  assumes "running s" "length (ready_q s) < fuel" "\<And>t m. (t, m) \<in> insert (cur s, n) (set (sleeping_q s)) \<Longrightarrow> wait m \<le> ticks"
  shows "\<exists>s'. cs_svc_sleep fuel ticks n s = Some (Resume s') \<and> running s' \<and> (\<forall>t. ctx (threads s' t) = ctx (threads s t))"
proof -
  let ?s = "s_push (cur s, n) (upd_thread (cur s) (\<lambda>th. th\<lparr>ready := False\<rparr>) s)"
  have f: "ready_q ?s = ready_q s" "sleeping_q ?s = sleeping_q s @ [(cur s, n)]" "next_thread ?s = next_thread s"
    "exited (threads ?s t) = exited (threads s t)" "ctx (threads ?s t) = ctx (threads s t)" for t
    by (simp_all add: s_push_def upd_thread_def)
  obtain r where r: "cs_do_sched fuel ticks None ?s = Some r"
    using cs_do_sched_total_law [OF sleep_ok [OF assms(1), of n], where fuel = fuel and ticks = ticks and c = None]
      assms(2,3) f(1,2) by auto
  note res = cs_do_sched_law [OF r sleep_ok [OF assms(1)]]
  have c: "cur s < next_thread s" "\<not> exited (cur_thread s)" using assms(1) by (auto simp: running_def sched_ok_def sched_inv_def)
  show ?thesis
  proof (cases r)
    case (Resume s')
    then have "running s'" "same_threads ?s s'" using res by (simp_all add: sched_result_def save_ctx_def)
    then show ?thesis using Resume r same_threadsD(3) f(5) by (fastforce simp: cs_svc_sleep_def)
  next
    case Panic
    then have False using res c f(3,4) by (auto simp: sched_result_def)
    then show ?thesis ..
  qed
qed

lemma exit_law:
  assumes "running s" "length (ready_q s) < fuel" "\<And>t n. (t, n) \<in> set (sleeping_q s) \<Longrightarrow> wait n \<le> ticks"
  shows "(rpi_exit fuel ticks c s = Some Panic \<and> (\<forall>t < next_thread s. t \<noteq> cur s \<longrightarrow> exited (threads s t)))
    \<or> (\<exists>s'. rpi_exit fuel ticks c s = Some (Resume s') \<and> running s' \<and> cur s' \<noteq> cur s \<and> exited (threads s' (cur s))
        \<and> \<not> exited (threads s (cur s')) \<and> ctx (cur_thread s') = ctx (threads s (cur s')))"
proof -
  let ?s = "(upd_thread (cur s) (\<lambda>th. th\<lparr>exited := True\<rparr>) s)\<lparr>svm := free_L1_page_table (l1_pt (cur_thread s)) (svm s)\<rparr>"
  have f: "ready_q ?s = ready_q s" "sleeping_q ?s = sleeping_q s" "next_thread ?s = next_thread s" "cur ?s = cur s"
    "exited (threads ?s t) \<longleftrightarrow> t = cur s \<or> exited (threads s t)" "ctx (threads ?s t) = ctx (threads s t)" for t
    by (simp_all add: upd_thread_def)
  have e: "rpi_exit fuel ticks c s = cs_do_sched fuel ticks (Some c) ?s"
    by (simp add: rpi_exit_def Let_def upd_thread_def)
  note ok = exit_ok [OF assms(1), of "l1_pt (cur_thread s)"]
  obtain r where r: "cs_do_sched fuel ticks (Some c) ?s = Some r"
    using cs_do_sched_total_law [OF ok, of fuel ticks "Some c"] assms(2,3) f(1,2) by auto
  note res = cs_do_sched_law [OF r ok]
  show ?thesis
  proof (cases r)
    case (Resume s')
    then have s': "running s'" "same_threads (save_ctx (Some c) ?s) s'" using res by (simp_all add: sched_result_def)
    have ex: "exited (threads s' t) \<longleftrightarrow> t = cur s \<or> exited (threads s t)" for t
      using same_threadsD(2) [OF s'(2)] f(5) by (simp add: save_ctx_fields)
    have "cur s' \<noteq> cur s" "\<not> exited (threads s (cur s'))" using s'(1) ex by (auto simp: running_def)
    moreover have "ctx (cur_thread s') = ctx (threads s (cur s'))"
      using same_threadsD(3) [OF s'(2), of "cur s'"] calculation(1) by (simp add: save_ctx_def upd_thread_def)
    ultimately show ?thesis using Resume r e s'(1) ex by auto
  next
    case Panic
    then have "\<forall>t < next_thread s. t \<noteq> cur s \<longrightarrow> exited (threads s t)" using res f(3,5) unfolding sched_result_def by auto
    then show ?thesis using Panic r e by simp
  qed
qed

text \<open>The search for a process sees every live thread.\<close>

lemma see_if_pid_still_exists_law:
  assumes "sched_inv s"
  shows "see_if_pid_still_exists pid s \<longleftrightarrow> (\<exists>t < next_thread s. tid (threads s t) = pid \<and> \<not> exited (threads s t))"
proof -
  note d = sched_invD [OF assms]
  have "see_if_pid_still_exists pid s \<longleftrightarrow> (\<exists>t. (t = cur s \<or> t \<in> set (ready_q s) \<or> t \<in> asleep s) \<and> live_pid s pid t)"
    by (auto simp: see_if_pid_still_exists_def list_ex_iff asleep_def)
  then show ?thesis using d(1,2,3,5) unfolding live_pid_def by blast
qed

section \<open>Claims\<close>

text \<open>Two threads: one runs, one sleeps for three ticks.\<close>

definition demo_thread :: rpi_thread where
  "demo_thread = \<lparr>tid = 1, exited = False, ready = True,
     ctx = \<lparr>user_sp = 0, user_lr = 0, cpsr = 0x10, regs = replicate 13 0, resume_pc = 0x8000\<rparr>,
     l1_pt = 0x4000, tls_base = 0, brk = 0, brk_min = 0, clear_tid = 0, fdt = replicate 64 0, cwd = 1, svc_sp = 0, ppid = 0\<rparr>"

definition demo_sched :: sched where
  "demo_sched = \<lparr>threads = (\<lambda>t. if t = 0 then demo_thread else demo_thread\<lparr>tid := 2, ready := False, l1_pt := 0x8000, ppid := 1\<rparr>),
     next_thread = 2, ready_q = [], sleeping_q = [(1, 3)], cur = 0, next_tid = 3,
     svm = \<lparr>vm_mem = (\<lambda>_. 0), vm_ka = boot_state, vm_kuser = [], vm_active = 0x4000\<rparr>,
     tls_reg = 0, strings = [1 \<mapsto> [47]], next_string = 2\<rparr>"

lemma demo_running: "running demo_sched"
  by (auto simp: running_def sched_ok_def sched_inv_def asleep_def demo_sched_def demo_thread_def less_Suc_eq numeral_2_eq_2)

text \<open>Whatever sequence of ticks, preemptions, sleeps, exits and forks reaches the scheduler while user code
  runs, it resumes a thread that has not exited and is awake, with that thread's page table active, and no
  live thread is lost: each is running, in the ready queue or asleep, and is asleep exactly when it is not
  ready, in one entry of the sleeping queue.\<close>

theorem sched_steps_safe:
  assumes "sched_step\<^sup>*\<^sup>* s s'" "running s"
  shows "\<not> exited (cur_thread s') \<and> ready (cur_thread s') \<and> vm_active (svm s') = l1_pt (cur_thread s') \<and> sched_inv s'"
  using sched_steps_running [OF assms] by (simp_all add: running_def sched_ok_def)

theorem sched_steps_safe_witness:
  "\<exists>s'. sched_step\<^sup>*\<^sup>* demo_sched s' \<and> ready (cur_thread s') \<and> sleeping_q s' = [(1, 1)]"
proof -
  let ?s' = "tick_try_to_wake_up (tick_try_to_wake_up demo_sched)"
  have r: "sched_step\<^sup>*\<^sup>* demo_sched ?s'" by (rule rtranclp.rtrancl_into_rtrancl [OF r_into_rtranclp]) (rule sched_step.tick)+
  have "sleeping_q ?s' = [(1, 1)]" by (simp add: tick_fields demo_sched_def wakes_simps)
  then show ?thesis using sched_steps_safe [OF r demo_running] r by blast
qed

text \<open>A thread that exits gives the processor away: with enough fuel for the ready queue and enough ticks for
  the sleepers the call ends, either in the panic, when every other thread has exited, or resuming another,
  live thread exactly where that thread was interrupted.\<close>

theorem exit_hands_over:
  assumes "running s" "length (ready_q s) < fuel" "\<And>t n. (t, n) \<in> set (sleeping_q s) \<Longrightarrow> wait n \<le> ticks"
  shows "(rpi_exit fuel ticks c s = Some Panic \<and> (\<forall>t < next_thread s. t \<noteq> cur s \<longrightarrow> exited (threads s t)))
    \<or> (\<exists>s'. rpi_exit fuel ticks c s = Some (Resume s') \<and> running s' \<and> cur s' \<noteq> cur s \<and> exited (threads s' (cur s))
        \<and> \<not> exited (threads s (cur s')) \<and> ctx (cur_thread s') = ctx (threads s (cur s')))"
  by (rule exit_law [OF assms])

theorem exit_hands_over_witness:
  "\<exists>s'. rpi_exit 1 3 (ctx demo_thread) demo_sched = Some (Resume s') \<and> cur s' \<noteq> 0"
proof -
  have w: "(t, n) \<in> set (sleeping_q demo_sched) \<Longrightarrow> wait n \<le> 3" for t n
    by (simp add: demo_sched_def wait_def)
  have "\<not> (\<forall>t < next_thread demo_sched. t \<noteq> cur demo_sched \<longrightarrow> exited (threads demo_sched t))"
    by (auto simp: demo_sched_def demo_thread_def intro: exI [of _ 1])
  moreover have "(rpi_exit 1 3 (ctx demo_thread) demo_sched = Some Panic
      \<and> (\<forall>t < next_thread demo_sched. t \<noteq> cur demo_sched \<longrightarrow> exited (threads demo_sched t)))
    \<or> (\<exists>s'. rpi_exit 1 3 (ctx demo_thread) demo_sched = Some (Resume s') \<and> running s' \<and> cur s' \<noteq> cur demo_sched
        \<and> exited (threads s' (cur demo_sched)) \<and> \<not> exited (threads demo_sched (cur s'))
        \<and> ctx (cur_thread s') = ctx (threads demo_sched (cur s')))"
    by (rule exit_hands_over [OF demo_running _ w]) (simp_all add: demo_sched_def)
  ultimately show ?thesis by (auto simp: demo_sched_def)
qed

end
