(* ===== verification/VmInv.thy ===== *)
theory VmInv
  imports Vm
begin

text \<open>
  The page tables as a structure of blocks: a first-level table, the second-level tables it points to and
  the pages these map are distinct blocks of the allocator, so that writing to one of them changes no
  other. On this rest the laws of \<open>map_page\<close> and \<open>make_sure_user_space\<close>: what they map, what they leave as
  it was, and that user memory and tables never overlap.
\<close>

section \<open>Room in the allocator\<close>

text \<open>The blocks a class can still hand out: those in its free queue and those not yet carved off its arena.\<close>

definition avail :: "kalloc_state \<Rightarrow> (nat \<Rightarrow> u32 list) \<Rightarrow> nat \<Rightarrow> nat" where
  "avail s fl i = length (fl i) + (unat (arena_end (cls s i)) - unat (current (cls s i))) div unat (block_size (cls s i))"

lemma bump_room:
  assumes "layout_ok c" "cur_ok c"
  shows "current c + block_size c \<le> arena_end c \<longleftrightarrow> 0 < (unat (arena_end c) - unat (current c)) div unat (block_size c)"
    "current c + block_size c \<le> arena_end c \<Longrightarrow>
      (unat (arena_end c) - unat (current c + block_size c)) div unat (block_size c)
        = (unat (arena_end c) - unat (current c)) div unat (block_size c) - 1"
proof -
  have b: "unat (current c) \<le> 0xCCBD0000" "unat (block_size c) \<le> 0x1000000" "16 \<le> unat (block_size c)" "unat (current c) \<le> unat (arena_end c)"
    using assms by (auto simp: layout_ok_def cur_ok_def word_le_nat_alt)
  have nw: "unat (current c + block_size c) = unat (current c) + unat (block_size c)"
    using b by (intro unat_add_no_wrap) simp
  show "current c + block_size c \<le> arena_end c \<longleftrightarrow> 0 < (unat (arena_end c) - unat (current c)) div unat (block_size c)"
    using b by (simp add: word_le_nat_alt nw div_greater_zero_iff) linarith
  show "(unat (arena_end c) - unat (current c + block_size c)) div unat (block_size c)
        = (unat (arena_end c) - unat (current c)) div unat (block_size c) - 1" if "current c + block_size c \<le> arena_end c"
  proof -
    have "unat (current c) + unat (block_size c) \<le> unat (arena_end c)" using that nw by (simp add: word_le_nat_alt)
    then have "unat (arena_end c) - unat (current c)
        = (unat (arena_end c) - unat (current c + block_size c)) + unat (block_size c)" unfolding nw by linarith
    moreover have "(x + unat (block_size c)) div unat (block_size c) = x div unat (block_size c) + 1" for x
      using b(3) by (intro div_add_self2) simp
    ultimately show ?thesis by simp
  qed
qed

text \<open>A request that finds room gets a fresh block of the class.\<close>

lemma kalloc_room:
  assumes inv: "kinv s fl live" and c: "find_class sz (size_classes s) = Some i" and r: "0 < avail s fl i"
  obtains p s' fl' where "kalloc sz s = Some (p, s')" "p \<notin> live" "p \<in> used (cls s' i)" "kinv s' fl' (insert p live)"
    "\<And>j. j < 21 \<Longrightarrow> avail s' fl' j = (if j = i then avail s fl i - 1 else avail s fl j)"
    "\<And>j. j < 21 \<Longrightarrow> used (cls s j) \<subseteq> used (cls s' j)"
proof -
  have ok: "classes_ok s" using inv by (simp add: kinv_def)
  have i: "i < 21" using find_class_Some [OF c] classes_ok_length [OF ok] by simp
  have "sz \<le> 0x1000000"
    using find_class_Some [OF c] class_layout [OF ok i] by (auto simp: layout_ok_def dest: order_trans)
  then obtain p s' where k: "kalloc sz s = Some (p, s')"
    using kalloc_None_iff [OF ok, of sz] by (cases "kalloc sz s") auto
  have av: "avail s fl i = length (fl i) + (unat (arena_end (cls s i)) - unat (current (cls s i))) div unat (block_size (cls s i))"
    by (simp add: avail_def)
  show thesis
    using inv k
  proof (cases rule: kalloc_cases)
    case (ring i' rest)
    then have i': "i' = i" using c by simp
    note st = kalloc_from_ring [OF inv i, of p rest]
    have "p \<in> used (cls s' i)" using kinv_class(2) [OF inv i] ring(3,4) i' by auto
    moreover have "p \<notin> live" using kinv_class(3) [OF inv i] ring(3) i' by auto
    moreover have "avail s' (fl(i := rest)) j = (if j = i then avail s fl i - 1 else avail s fl j)" if "j < 21" for j
      using ring(3,4) i' by (simp add: avail_def)
    moreover have "used (cls s j) \<subseteq> used (cls s' j)" for j using ring(4) by simp
    ultimately show thesis using that [OF k, of "fl(i := rest)"] st ring(3,4) i' by blast
  next
    case (arena i')
    then have i': "i' = i" using c by simp
    note b = bump_room [OF class_layout [OF ok i] class_cur_ok [OF ok i]]
    note ub = used_bump [OF class_layout [OF ok i] class_cur_ok [OF ok i]]
    have room: "current (cls s i) + block_size (cls s i) \<le> arena_end (cls s i)" using arena(5) i' by simp
    have cl: "cls s' j = (if j = i then (cls s i)\<lparr>current := current (cls s i) + block_size (cls s i)\<rparr> else cls s j)" if "j < 21" for j
      using that arena(4,6) i' classes_ok_length [OF ok] by simp
    have "p \<in> used (cls s' i)" using ub(1) [OF room] arena(4) i' cl [OF i] by simp
    moreover have "p \<notin> live" "kinv s' fl (insert p live)" using kalloc_from_arena [OF inv i room] arena(4,6) i' by simp_all
    moreover have "avail s' fl j = (if j = i then avail s fl i - 1 else avail s fl j)" if "j < 21" for j
      using b(1) room b(2) [OF room] arena(3) i' cl [OF that] by (simp add: avail_def)
    moreover have "used (cls s j) \<subseteq> used (cls s' j)" if "j < 21" for j
      using ub(1) [OF room] cl [OF that] by auto
    ultimately show thesis using that [OF k] by blast
  next
    case (full i')
    then have i': "i' = i" using c by simp
    have False using r full(3,6) i' bump_room(1) [OF class_layout [OF ok i] class_cur_ok [OF ok i]] by (simp add: av)
    then show thesis ..
  qed
qed

text \<open>The classes of second-level tables, pages and first-level tables.\<close>

lemma table_classes:
  assumes "classes_ok s"
  shows "find_class 1024 (size_classes s) = Some 6" "find_class 4096 (size_classes s) = Some 8"
    "find_class 16384 (size_classes s) = Some 10"
    "block_size (cls s 6) = 1024" "block_size (cls s 8) = 4096" "block_size (cls s 10) = 16384"
proof -
  have b: "block_size (cls s i) = block_size (boot_classes ! i)" if "i < 21" for i by (rule static_boot(1) [OF assms that])
  show bs: "block_size (cls s 6) = 1024" "block_size (cls s 8) = 4096" "block_size (cls s 10) = 16384"
    using b [of 6] b [of 8] b [of 10] by (simp_all add: boot_classes_eval)
  have u: "find_class sz (size_classes s) = Some i"
    if "i < 21" "sz \<le> block_size (cls s i)" "\<forall>j < i. block_size (cls s j) < sz" for sz i
  proof -
    have "sz \<le> 0x1000000" using that(1,2) class_layout [OF assms that(1)] by (auto simp: layout_ok_def dest: order_trans)
    then obtain k where k: "find_class sz (size_classes s) = Some k" "k < 21" "sz \<le> block_size (cls s k)"
      "\<And>j. j < k \<Longrightarrow> block_size (cls s j) < sz" by (rule find_class_boot [OF assms]) blast
    have "k = i"
    proof (rule ccontr)
      assume "k \<noteq> i"
      then consider "k < i" | "i < k" by linarith
      then show False using that(2,3) k(3,4) by cases (auto simp: not_less [symmetric])
    qed
    then show ?thesis using k(1) by simp
  qed
  have small: "\<forall>j < 6. block_size (cls s j) < 1024" "\<forall>j < 8. block_size (cls s j) < 4096" "\<forall>j < 10. block_size (cls s j) < 16384"
    using class_sorted [OF assms, of _ 6] class_sorted [OF assms, of _ 8] class_sorted [OF assms, of _ 10] bs by simp_all
  show "find_class 1024 (size_classes s) = Some 6" by (rule u) (use bs small in simp_all)
  show "find_class 4096 (size_classes s) = Some 8" by (rule u) (use bs small in simp_all)
  show "find_class 16384 (size_classes s) = Some 10" by (rule u) (use bs small in simp_all)
qed

section \<open>Blocks of the allocator\<close>

lemma block_bounds:
  assumes "kinv s fl live" "i < 21" "p \<in> used (cls s i)"
  shows "0xC1010000 \<le> unat p" "unat p + unat (block_size (cls s i)) \<le> 0xCCBD0000"
proof -
  have ok: "classes_ok s" using assms(1) by (simp add: kinv_def)
  note l = class_layout [OF ok assms(2)] class_cur_ok [OF ok assms(2)]
  have "0xC1010000 \<le> arena_start (cls s i)" "arena_start (cls s i) \<le> p" "current (cls s i) \<le> arena_end (cls s i)"
    "arena_end (cls s i) \<le> 0xCCBD0000"
    using l assms(3) by (auto simp: layout_ok_def cur_ok_def used_def)
  then show "0xC1010000 \<le> unat p" "unat p + unat (block_size (cls s i)) \<le> 0xCCBD0000"
    using used_fits [OF ok assms(2,3)] by (simp_all add: word_le_nat_alt)
qed

lemma blocks_apart:
  assumes "kinv s fl live" "i < 21" "j < 21" "p \<in> used (cls s i)" "q \<in> used (cls s j)" "p \<noteq> q"
    "in_block p (unat (block_size (cls s i))) x"
  shows "\<not> in_block q (unat (block_size (cls s j))) x"
  using blocks_disjoint_law [OF assms(1-6)] assms(7) by (auto simp: block_bytes_def in_block_def)

lemma live_bound:
  assumes "kinv s fl live" "p \<in> live"
  shows "unat p < 0xCCBD0000"
proof -
  obtain i where i: "i < 21" "p \<in> used (cls s i)" using assms by (auto simp: kinv_def)
  have "16 \<le> unat (block_size (cls s i))"
    using class_layout [of s i] assms(1) i(1) by (simp add: kinv_def layout_ok_def word_le_nat_alt)
  then show ?thesis using block_bounds(2) [OF assms(1) i] by linarith
qed

text \<open>Masking with the alignment of a block.\<close>

lemma aligned_mask:
  assumes "2 ^ k dvd unat (p :: u32)"
  shows "p AND NOT (mask k) = p"
proof -
  have "take_bit k p = 0" using assms by (metis dvd_eq_mod_eq_0 take_bit_eq_mod unsigned_take_bit_eq unat_eq_zero)
  then have "\<not> (n < k \<and> bit p n)" for n using bit_take_bit_iff [of k p n] by simp
  then show ?thesis by (intro bit_word_eqI) (auto simp: bit_simps)
qed

lemma masks: "(0xFFFFFC00 :: u32) = NOT (mask 10)" "(0xFFFFF000 :: u32) = NOT (mask 12)" "(0xFFF :: u32) = mask 12"
    "(0xFF :: u32) = mask 8" "(3 :: u32) = mask 2"
  by (simp_all add: mask_eq_exp_minus_1)

lemma block_aligned:
  assumes "kinv s fl live"
  shows "p \<in> used (cls s 6) \<Longrightarrow> p AND 0xFFFFFC00 = p" "p \<in> used (cls s 8) \<Longrightarrow> p AND 0xFFFFF000 = p"
proof -
  have ok: "classes_ok s" using assms by (simp add: kinv_def)
  show "p AND 0xFFFFFC00 = p" if "p \<in> used (cls s 6)"
    using alignment_law [OF assms _ that] table_classes(4) [OF ok] unfolding masks by (intro aligned_mask) simp
  show "p AND 0xFFFFF000 = p" if "p \<in> used (cls s 8)"
    using alignment_law [OF assms _ that] table_classes(5) [OF ok] unfolding masks by (intro aligned_mask) simp
qed

text \<open>The fields of the entries the code writes.\<close>

lemma table_entry_fields:
  assumes "t AND 0xFFFFFC00 = (t :: u32)"
  shows "((t AND 0xFFFFFC00) OR 1) AND 3 = 1" "((t AND 0xFFFFFC00) OR 1) AND 0xFFFFFC00 = t"
proof -
  have a: "(t OR 1) AND mask 2 = (t AND NOT (mask 10) OR 1) AND mask 2" using assms by (simp add: masks)
  have "((t AND NOT (mask 10)) OR 1) AND mask 2 = 1" by (rule bit_word_eqI) (auto simp: bit_simps)
  then show "((t AND 0xFFFFFC00) OR 1) AND 3 = 1" by (simp add: masks)
  have "((t AND NOT (mask 10)) OR 1) AND NOT (mask 10) = t AND NOT (mask 10)" by (rule bit_word_eqI) (auto simp: bit_simps)
  then show "((t AND 0xFFFFFC00) OR 1) AND 0xFFFFFC00 = t" using assms by (simp add: masks)
qed

lemma new_entry_fields:
  "make_L2_page_entry p 0xFF 1 1 AND 3 = 2" "make_L2_page_entry p 0xFF 1 1 AND 0xFFFFF000 = p AND 0xFFFFF000"
  "drop_bit 4 (make_L2_page_entry p 0xFF 1 1) AND 3 = 3"
proof -
  have e: "make_L2_page_entry p 0xFF 1 1 = (p AND NOT (mask 12)) OR push_bit 4 (mask 8) OR push_bit 2 (mask 2) OR 2"
    unfolding make_L2_page_entry_def masks(2) by (simp add: mask_eq_exp_minus_1)
  have two: "bit (2 :: u32) n \<longleftrightarrow> n = 1" for n using bit_exp_iff [where ?'a = u32, of 1 n] by auto
  show "make_L2_page_entry p 0xFF 1 1 AND 3 = 2" unfolding e unfolding masks
    by (rule bit_word_eqI) (auto simp: bit_simps two less_2_cases_iff)
  show "make_L2_page_entry p 0xFF 1 1 AND 0xFFFFF000 = p AND 0xFFFFF000" unfolding e unfolding masks
    by (rule bit_word_eqI) (auto simp: bit_simps two less_2_cases_iff)
  show "drop_bit 4 (make_L2_page_entry p 0xFF 1 1) AND 3 = 3" unfolding e unfolding masks
    by (rule bit_word_eqI) (auto simp: bit_simps two less_2_cases_iff)
qed

lemma open_entry_fields:
  defines "f \<equiv> \<lambda>e :: u32. (e AND NOT (push_bit 4 0xFF)) OR push_bit 4 0xFF"
  shows "f e AND 3 = e AND 3" "f e AND 0xFFFFF000 = e AND 0xFFFFF000" "drop_bit 4 (f e) AND 3 = 3"
proof -
  have e: "f e = (e AND NOT (push_bit 4 (mask 8))) OR push_bit 4 (mask 8)" by (simp add: f_def masks [symmetric])
  show "f e AND 3 = e AND 3" "f e AND 0xFFFFF000 = e AND 0xFFFFF000" "drop_bit 4 (f e) AND 3 = 3"
    unfolding e masks by (rule bit_word_eqI, auto simp: bit_simps)+
qed

section \<open>Entries\<close>

text \<open>\<open>e1\<close> is an entry of the first-level table, \<open>pte\<close> the entry of the second-level table below it, when there
  is one.\<close>

definition e1 :: "memory \<Rightarrow> u32 \<Rightarrow> u32 \<Rightarrow> u32" where
  "e1 m l1 i = load32 m (l1 + 4 * i)"

definition coarse :: "memory \<Rightarrow> u32 \<Rightarrow> u32 \<Rightarrow> bool" where
  "coarse m l1 i \<longleftrightarrow> e1 m l1 i AND 3 = 1"

definition tbl :: "memory \<Rightarrow> u32 \<Rightarrow> u32 \<Rightarrow> u32" where
  "tbl m l1 i = e1 m l1 i AND 0xFFFFFC00"

definition pte :: "memory \<Rightarrow> u32 \<Rightarrow> u32 \<Rightarrow> u32 \<Rightarrow> u32" where
  "pte m l1 i j = load32 m (tbl m l1 i + 4 * j)"

abbreviation l1i :: "u32 \<Rightarrow> u32" where "l1i va \<equiv> drop_bit 20 va AND 0xFFF"
abbreviation l2i :: "u32 \<Rightarrow> u32" where "l2i va \<equiv> drop_bit 12 va AND 0xFF"

lemma translate_entries:
  "translate m l1 va =
     (if e1 m l1 (l1i va) AND 3 = 2 then Some ((e1 m l1 (l1i va) AND 0xFFF00000) OR (va AND 0xFFFFF), drop_bit 10 (e1 m l1 (l1i va)) AND 3)
      else if coarse m l1 (l1i va)
      then if pte m l1 (l1i va) (l2i va) AND 2 \<noteq> 0
           then Some ((pte m l1 (l1i va) (l2i va) AND 0xFFFFF000) OR (va AND 0xFFF), drop_bit 4 (pte m l1 (l1i va) (l2i va)) AND 3) else None
      else None)"
  by (simp add: translate_def Let_def e1_def coarse_def pte_def tbl_def)

lemma index_bounds: "l1i va < 4096" "l2i va < 256"
  using word_and_le1 [of "drop_bit 20 va" "0xFFF"] word_and_le1 [of "drop_bit 12 va" "0xFF"]
  by (auto simp: word_le_nat_alt word_less_nat_alt)

text \<open>A table with its second-level tables and pages as blocks of the allocator.\<close>

definition page_ok :: "kalloc_state \<Rightarrow> u32 set \<Rightarrow> u32 \<Rightarrow> bool" where
  "page_ok k live e \<longleftrightarrow> e AND 3 = 0 \<or> (e AND 2 \<noteq> 0 \<and> (0xFFF00000 \<le> e AND 0xFFFFF000
     \<or> (e AND 0xFFFFF000 \<in> live \<and> e AND 0xFFFFF000 \<in> used (cls k 8))))"

definition pt_inv :: "vm_state \<Rightarrow> u32 \<Rightarrow> (nat \<Rightarrow> u32 list) \<Rightarrow> u32 set \<Rightarrow> bool" where
  "pt_inv vm l1 fl live \<longleftrightarrow> kinv (vm_ka vm) fl live \<and> l1 \<in> live \<and> l1 \<in> used (cls (vm_ka vm) 10)
     \<and> (\<forall>i < 4096. coarse (vm_mem vm) l1 i \<longrightarrow> tbl (vm_mem vm) l1 i \<in> live \<and> tbl (vm_mem vm) l1 i \<in> used (cls (vm_ka vm) 6))
     \<and> (\<forall>i < 4096. \<forall>i' < 4096. coarse (vm_mem vm) l1 i \<longrightarrow> coarse (vm_mem vm) l1 i' \<longrightarrow> tbl (vm_mem vm) l1 i = tbl (vm_mem vm) l1 i' \<longrightarrow> i = i')
     \<and> (\<forall>i < 4096. \<forall>j < 256. coarse (vm_mem vm) l1 i \<longrightarrow> page_ok (vm_ka vm) live (pte (vm_mem vm) l1 i j))"

text \<open>Memory that agrees on the first-level table, and on a second-level one, has the same entries.\<close>

lemma e1_cong:
  assumes "\<And>x. in_block l1 16384 x \<Longrightarrow> m' x = m x" "unat l1 + 16384 \<le> 4294967296" "i < 4096"
  shows "e1 m' l1 i = e1 m l1 i"
proof -
  have i: "unat i < 4096" using assms(3) by (simp add: word_less_nat_alt)
  have "unat l1 + 4 * 4096 \<le> 4294967296" using assms(2) by simp
  note sl = slot_in_block [OF this i, simplified]
  show ?thesis unfolding e1_def
  proof (rule load32_block [OF assms(1) sl(1) _ assms(2)])
    show "unat (l1 + 4 * i) + 3 < unat l1 + 16384" using sl(2) by linarith
  qed simp
qed

lemma pte_cong:
  assumes "\<And>x. in_block l1 16384 x \<Longrightarrow> m' x = m x" "unat l1 + 16384 \<le> 4294967296" "i < 4096"
    "\<And>x. in_block (tbl m l1 i) 1024 x \<Longrightarrow> m' x = m x" "unat (tbl m l1 i) + 1024 \<le> 4294967296" "j < 256"
  shows "pte m' l1 i j = pte m l1 i j"
proof -
  have j: "unat j < 256" using assms(6) by (simp add: word_less_nat_alt)
  have "tbl m' l1 i = tbl m l1 i" using e1_cong [OF assms(1-3)] by (simp add: tbl_def)
  moreover have "unat (tbl m l1 i) + 4 * 256 \<le> 4294967296" using assms(5) by simp
  note sl = slot_in_block [OF this j, simplified]
  have "load32 m' (tbl m l1 i + 4 * j) = load32 m (tbl m l1 i + 4 * j)"
  proof (rule load32_block [OF assms(4) sl(1) _ assms(5)])
    show "unat (tbl m l1 i + 4 * j) + 3 < unat (tbl m l1 i) + 1024" using sl(2) by linarith
  qed simp
  ultimately show ?thesis by (simp add: pte_def)
qed

section \<open>Steps that keep the structure\<close>

lemma pt_invD:
  assumes "pt_inv vm l1 fl live"
  shows "kinv (vm_ka vm) fl live" "classes_ok (vm_ka vm)" "l1 \<in> live" "l1 \<in> used (cls (vm_ka vm) 10)" "unat l1 + 16384 \<le> 4294967296"
    "i < 4096 \<Longrightarrow> coarse (vm_mem vm) l1 i \<Longrightarrow> tbl (vm_mem vm) l1 i \<in> live"
    "i < 4096 \<Longrightarrow> coarse (vm_mem vm) l1 i \<Longrightarrow> tbl (vm_mem vm) l1 i \<in> used (cls (vm_ka vm) 6)"
    "i < 4096 \<Longrightarrow> coarse (vm_mem vm) l1 i \<Longrightarrow> unat (tbl (vm_mem vm) l1 i) + 1024 \<le> 4294967296"
    "i < 4096 \<Longrightarrow> j < 256 \<Longrightarrow> coarse (vm_mem vm) l1 i \<Longrightarrow> page_ok (vm_ka vm) live (pte (vm_mem vm) l1 i j)"
    "i < 4096 \<Longrightarrow> i' < 4096 \<Longrightarrow> coarse (vm_mem vm) l1 i \<Longrightarrow> coarse (vm_mem vm) l1 i' \<Longrightarrow> tbl (vm_mem vm) l1 i = tbl (vm_mem vm) l1 i' \<Longrightarrow> i = i'"
proof -
  show k: "kinv (vm_ka vm) fl live" "l1 \<in> live" "l1 \<in> used (cls (vm_ka vm) 10)" using assms by (simp_all add: pt_inv_def)
  then show c: "classes_ok (vm_ka vm)" by (simp add: kinv_def)
  show "unat l1 + 16384 \<le> 4294967296" using block_bounds(2) [OF k(1) _ k(3)] table_classes(6) [OF c] by simp
  show t: "tbl (vm_mem vm) l1 i \<in> live" "tbl (vm_mem vm) l1 i \<in> used (cls (vm_ka vm) 6)" if "i < 4096" "coarse (vm_mem vm) l1 i" for i
    using assms that by (auto simp: pt_inv_def)
  show "unat (tbl (vm_mem vm) l1 i) + 1024 \<le> 4294967296" if "i < 4096" "coarse (vm_mem vm) l1 i"
    using block_bounds(2) [OF k(1) _ t(2) [OF that]] table_classes(4) [OF c] by simp
  show "page_ok (vm_ka vm) live (pte (vm_mem vm) l1 i j)" if "i < 4096" "j < 256" "coarse (vm_mem vm) l1 i"
    using assms that by (auto simp: pt_inv_def)
  show "i = i'" if "i < 4096" "i' < 4096" "coarse (vm_mem vm) l1 i" "coarse (vm_mem vm) l1 i'" "tbl (vm_mem vm) l1 i = tbl (vm_mem vm) l1 i'"
    using assms that by (auto simp: pt_inv_def)
qed

text \<open>The bytes of the tables.\<close>

definition in_tables :: "memory \<Rightarrow> u32 \<Rightarrow> u32 \<Rightarrow> bool" where
  "in_tables m l1 x \<longleftrightarrow> in_block l1 16384 x \<or> (\<exists>i < 4096. coarse m l1 i \<and> in_block (tbl m l1 i) 1024 x)"

lemma tables_frame:
  assumes "pt_inv vm l1 fl live" "\<And>x. in_tables (vm_mem vm) l1 x \<Longrightarrow> m' x = vm_mem vm x"
  shows "i < 4096 \<Longrightarrow> e1 m' l1 i = e1 (vm_mem vm) l1 i"
    "i < 4096 \<Longrightarrow> coarse (vm_mem vm) l1 i \<Longrightarrow> j < 256 \<Longrightarrow> pte m' l1 i j = pte (vm_mem vm) l1 i j"
proof -
  show "e1 m' l1 i = e1 (vm_mem vm) l1 i" if "i < 4096"
    by (rule e1_cong [OF assms(2) pt_invD(5) [OF assms(1)] that]) (simp add: in_tables_def)
  show "pte m' l1 i j = pte (vm_mem vm) l1 i j" if i: "i < 4096" "coarse (vm_mem vm) l1 i" and j: "j < 256"
    by (rule pte_cong [OF assms(2) pt_invD(5) [OF assms(1)] i(1) assms(2) pt_invD(8) [OF assms(1) i] j])
      (use i in \<open>auto simp: in_tables_def\<close>)
qed

lemma pt_inv_frame:
  assumes "pt_inv vm l1 fl live" "\<And>x. in_tables (vm_mem vm) l1 x \<Longrightarrow> m' x = vm_mem vm x"
    "kinv k' fl' live'" "live \<subseteq> live'" "\<And>j. j < 21 \<Longrightarrow> used (cls (vm_ka vm) j) \<subseteq> used (cls k' j)"
  shows "pt_inv (vm\<lparr>vm_ka := k', vm_mem := m'\<rparr>) l1 fl' live'"
proof -
  note d = pt_invD [OF assms(1)]
  have f: "e1 m' l1 i = e1 (vm_mem vm) l1 i" "coarse (vm_mem vm) l1 i \<Longrightarrow> j < 256 \<Longrightarrow> pte m' l1 i j = pte (vm_mem vm) l1 i j"
    if "i < 4096" for i j
    by (rule tables_frame [OF assms(1) assms(2)], assumption, rule that)+
  have c: "coarse m' l1 i = coarse (vm_mem vm) l1 i" "tbl m' l1 i = tbl (vm_mem vm) l1 i" if "i < 4096" for i
    using f(1) [OF that] by (simp_all add: coarse_def tbl_def)
  have u: "used (cls (vm_ka vm) 6) \<subseteq> used (cls k' 6)" "used (cls (vm_ka vm) 8) \<subseteq> used (cls k' 8)" "used (cls (vm_ka vm) 10) \<subseteq> used (cls k' 10)"
    using assms(5) by simp_all
  have p: "page_ok k' live' e" if "page_ok (vm_ka vm) live e" for e
    using that u(2) assms(4) by (auto simp: page_ok_def)
  have a: "l1 \<in> live'" "l1 \<in> used (cls k' 10)" using d(3,4) u(3) assms(4) by auto
  have b: "tbl m' l1 i \<in> live' \<and> tbl m' l1 i \<in> used (cls k' 6)" if "i < 4096" "coarse m' l1 i" for i
    using d(6,7) [OF that(1)] that(2) c [OF that(1)] u(1) assms(4) by auto
  have e: "i = i'" if "i < 4096" "i' < 4096" "coarse m' l1 i" "coarse m' l1 i'" "tbl m' l1 i = tbl m' l1 i'" for i i'
    using d(10) [OF that(1,2)] that(3-5) c [OF that(1)] c [OF that(2)] by simp
  have g: "page_ok k' live' (pte m' l1 i j)" if "i < 4096" "j < 256" "coarse m' l1 i" for i j
    using p [OF d(9) [OF that(1,2)]] f(2) [OF that(1) _ that(2)] that(3) c [OF that(1)] by simp
  show ?thesis unfolding pt_inv_def using assms(3) a b e g by simp
qed

text \<open>A fresh block overlaps no table.\<close>

lemma fresh_not_tables:
  assumes "pt_inv vm l1 fl live" "kinv k' fl' live'" "live \<subseteq> live'" "\<And>j. j < 21 \<Longrightarrow> used (cls (vm_ka vm) j) \<subseteq> used (cls k' j)"
    "c < 21" "q \<in> used (cls k' c)" "q \<notin> live" "in_block q (unat (block_size (cls k' c))) x"
  shows "\<not> in_tables (vm_mem vm) l1 x"
proof -
  note d = pt_invD [OF assms(1)]
  have ok: "classes_ok k'" using assms(2) by (simp add: kinv_def)
  have "l1 \<in> used (cls k' 10)" using d(4) assms(4) [of 10] by auto
  then have "\<not> in_block l1 16384 x"
    using blocks_apart [OF assms(2,5) _ assms(6) _ _ assms(8), of 10 l1] d(3) assms(7) table_classes(6) [OF ok] by auto
  moreover have "\<not> in_block (tbl (vm_mem vm) l1 i) 1024 x" if "i < 4096" "coarse (vm_mem vm) l1 i" for i
  proof -
    have "tbl (vm_mem vm) l1 i \<in> used (cls k' 6)" using d(7) [OF that] assms(4) [of 6] by auto
    then show ?thesis
      using blocks_apart [OF assms(2,5) _ assms(6) _ _ assms(8), of 6] d(6) [OF that] assms(7) table_classes(4) [OF ok] by auto
  qed
  ultimately show ?thesis by (auto simp: in_tables_def)
qed

lemma memset_block:
  assumes "unat p + unat n \<le> 4294967296"
  shows "memset p v n m x = (if in_block p (unat n) x then v else m x)"
proof -
  have "unat (x - p) < unat n \<longleftrightarrow> in_block p (unat n) x"
    using assms unat_sub_cases [of x p] by (auto simp: in_block_def)
  then show ?thesis by (simp add: memset_filled filled_def)
qed

text \<open>Allocating and clearing a block.\<close>

lemma alloc_cleared:
  assumes "pt_inv vm l1 fl live" "find_class n (size_classes (vm_ka vm)) = Some c" "0 < avail (vm_ka vm) fl c"
    "block_size (cls (vm_ka vm) c) = n"
  obtains p vm' fl' where "valloc n vm = Some (p, vm')" "vm_mem vm' = vm_mem vm" "vm_active vm' = vm_active vm" "vm_kuser vm' = vm_kuser vm"
    "p \<notin> live" "p \<in> used (cls (vm_ka vm') c)" "pt_inv (vm'\<lparr>vm_mem := memset p 0 n (vm_mem vm')\<rparr>) l1 fl' (insert p live)"
    "\<And>j. j < 21 \<Longrightarrow> avail (vm_ka vm') fl' j = (if j = c then avail (vm_ka vm) fl c - 1 else avail (vm_ka vm) fl j)"
    "\<And>x. in_block p (unat n) x \<Longrightarrow> \<not> in_tables (vm_mem vm) l1 x" "unat p + unat n \<le> 0xCCBD0000" "0xC1010000 \<le> unat p"
proof -
  note d = pt_invD [OF assms(1)]
  obtain p k' fl' where k: "kalloc n (vm_ka vm) = Some (p, k')" "p \<notin> live" "p \<in> used (cls k' c)" "kinv k' fl' (insert p live)"
    "\<And>j. j < 21 \<Longrightarrow> avail k' fl' j = (if j = c then avail (vm_ka vm) fl c - 1 else avail (vm_ka vm) fl j)"
    "\<And>j. j < 21 \<Longrightarrow> used (cls (vm_ka vm) j) \<subseteq> used (cls k' j)"
    by (rule kalloc_room [OF d(1) assms(2,3)]) blast
  have c: "c < 21" using find_class_Some [OF assms(2)] classes_ok_length [OF d(2)] by simp
  have ok: "classes_ok k'" using k(4) by (simp add: kinv_def)
  have bs: "block_size (cls k' c) = n" using static_boot(1) [OF ok c] static_boot(1) [OF d(2) c] assms(4) by simp
  have bb: "unat p + unat n \<le> 0xCCBD0000" "0xC1010000 \<le> unat p" using block_bounds [OF k(4) c k(3)] bs by simp_all
  have nt: "\<not> in_tables (vm_mem vm) l1 x" if "in_block p (unat n) x" for x
    by (rule fresh_not_tables [OF assms(1) k(4) _ k(6) c k(3) k(2)]) (use that bs in auto)
  have "pt_inv (vm\<lparr>vm_ka := k', vm_mem := memset p 0 n (vm_mem vm)\<rparr>) l1 fl' (insert p live)"
    by (rule pt_inv_frame [OF assms(1) _ k(4) _ k(6)]) (use nt bb in \<open>auto simp: memset_block\<close>)
  then have "pt_inv ((vm\<lparr>vm_ka := k'\<rparr>)\<lparr>vm_mem := memset p 0 n (vm_mem (vm\<lparr>vm_ka := k'\<rparr>))\<rparr>) l1 fl' (insert p live)" by simp
  then show thesis using that [of p "vm\<lparr>vm_ka := k'\<rparr>"] k bb nt by (simp add: valloc_def)
qed

lemma tables_apart:
  assumes "pt_inv vm l1 fl live" "t \<in> used (cls (vm_ka vm) 6)"
  shows "in_block t 1024 x \<Longrightarrow> \<not> in_block l1 16384 x"
    "t' \<in> used (cls (vm_ka vm) 6) \<Longrightarrow> t' \<noteq> t \<Longrightarrow> in_block t 1024 x \<Longrightarrow> \<not> in_block t' 1024 x"
proof -
  note d = pt_invD [OF assms(1)]
  note bs = table_classes [OF d(2)]
  have "t \<noteq> l1" using used_disjoint [OF d(2), of 6 10 l1] d(4) assms(2) by auto
  then show "in_block t 1024 x \<Longrightarrow> \<not> in_block l1 16384 x"
    using blocks_apart [OF d(1), of 6 10 t l1 x] assms(2) d(4) bs by simp
  show "t' \<in> used (cls (vm_ka vm) 6) \<Longrightarrow> t' \<noteq> t \<Longrightarrow> in_block t 1024 x \<Longrightarrow> \<not> in_block t' 1024 x"
    using blocks_apart [OF d(1), of 6 6 t t' x] assms(2) bs by auto
qed

lemma set_pte:
  assumes "pt_inv vm l1 fl live" "i < 4096" "coarse (vm_mem vm) l1 i" "j < 256" "page_ok (vm_ka vm) live v"
  defines "m' \<equiv> store32 (tbl (vm_mem vm) l1 i + 4 * j) v (vm_mem vm)"
  shows "pt_inv (vm\<lparr>vm_mem := m'\<rparr>) l1 fl live"
    "i' < 4096 \<Longrightarrow> e1 m' l1 i' = e1 (vm_mem vm) l1 i'"
    "i' < 4096 \<Longrightarrow> coarse (vm_mem vm) l1 i' \<Longrightarrow> j' < 256 \<Longrightarrow> pte m' l1 i' j' = (if i' = i \<and> j' = j then v else pte (vm_mem vm) l1 i' j')"
    "\<not> in_tables (vm_mem vm) l1 x \<Longrightarrow> m' x = vm_mem vm x"
proof -
  let ?m = "vm_mem vm" and ?t = "tbl (vm_mem vm) l1 i"
  note d = pt_invD [OF assms(1)]
  have t: "?t \<in> used (cls (vm_ka vm) 6)" by (rule d(7) [OF assms(2,3)])
  have tb: "unat ?t + 4 * 256 \<le> 4294967296" using d(8) [OF assms(2,3)] by simp
  have j: "unat j < 256" using assms(4) by (simp add: word_less_nat_alt)
  have out: "m' x = ?m x" if "\<not> in_block ?t 1024 x" for x
    unfolding m'_def using store_slot_outside [OF tb j] that by simp
  have e: "e1 m' l1 i' = e1 ?m l1 i'" if "i' < 4096" for i'
    by (rule e1_cong [OF out d(5) that]) (use tables_apart(1) [OF assms(1) t] in blast)
  have cc: "coarse m' l1 i' = coarse ?m l1 i'" "tbl m' l1 i' = tbl ?m l1 i'" if "i' < 4096" for i'
    using e [OF that] by (simp_all add: coarse_def tbl_def)
  have q: "pte m' l1 i' j' = (if i' = i \<and> j' = j then v else pte ?m l1 i' j')"
    if i': "i' < 4096" "coarse ?m l1 i'" and j': "j' < 256" for i' j'
  proof (cases "i' = i")
    case True
    have j'n: "unat j' < 256" using j' by (simp add: word_less_nat_alt)
    show ?thesis using True cc(2) [OF assms(2)] load32_store32 [of "?t + 4 * j" v ?m] store_slot_other [OF tb j j'n]
      by (auto simp: pte_def m'_def)
  next
    case False
    then have "tbl ?m l1 i' \<noteq> ?t" using d(10) [OF i'(1) assms(2) i'(2) assms(3)] by blast
    then have "pte m' l1 i' j' = pte ?m l1 i' j'"
      using tables_apart [OF assms(1) t] d(7) [OF i']
      by (intro pte_cong [OF out d(5) i'(1) out d(8) [OF i'] j']) blast+
    then show ?thesis using False by simp
  qed
  show "i' < 4096 \<Longrightarrow> e1 m' l1 i' = e1 ?m l1 i'" by (rule e)
  show "i' < 4096 \<Longrightarrow> coarse ?m l1 i' \<Longrightarrow> j' < 256 \<Longrightarrow> pte m' l1 i' j' = (if i' = i \<and> j' = j then v else pte ?m l1 i' j')"
    by (rule q)
  show "\<not> in_tables ?m l1 x \<Longrightarrow> m' x = ?m x" using out assms(2,3) by (auto simp: in_tables_def)
  have "page_ok (vm_ka vm) live (pte m' l1 i' j')" if "i' < 4096" "j' < 256" "coarse ?m l1 i'" for i' j'
    using d(9) [OF that] q [OF that(1,3,2)] assms(5) by simp
  then show "pt_inv (vm\<lparr>vm_mem := m'\<rparr>) l1 fl live"
    using assms(1) cc unfolding pt_inv_def by simp
qed

text \<open>Pointing an entry of the first-level table to a cleared table.\<close>

lemma set_table:
  assumes "pt_inv vm l1 fl live" "i < 4096" "\<not> coarse (vm_mem vm) l1 i" "t \<in> live" "t \<in> used (cls (vm_ka vm) 6)"
    "\<forall>i' < 4096. coarse (vm_mem vm) l1 i' \<longrightarrow> tbl (vm_mem vm) l1 i' \<noteq> t" "\<forall>x. in_block t 1024 x \<longrightarrow> vm_mem vm x = 0"
  defines "m' \<equiv> store32 (l1 + 4 * i) ((t AND 0xFFFFFC00) OR 1) (vm_mem vm)"
  shows "pt_inv (vm\<lparr>vm_mem := m'\<rparr>) l1 fl live" "coarse m' l1 i" "tbl m' l1 i = t"
    "i' < 4096 \<Longrightarrow> i' \<noteq> i \<Longrightarrow> e1 m' l1 i' = e1 (vm_mem vm) l1 i'"
    "j < 256 \<Longrightarrow> pte m' l1 i j = 0"
    "i' < 4096 \<Longrightarrow> i' \<noteq> i \<Longrightarrow> coarse (vm_mem vm) l1 i' \<Longrightarrow> j < 256 \<Longrightarrow> pte m' l1 i' j = pte (vm_mem vm) l1 i' j"
    "\<not> in_tables (vm_mem vm) l1 x \<Longrightarrow> m' x = vm_mem vm x"
proof -
  let ?m = "vm_mem vm"
  note d = pt_invD [OF assms(1)]
  have ne: "tbl ?m l1 i' \<noteq> t" if "i' < 4096" "coarse ?m l1 i'" for i' using assms(6) that by blast
  have zero: "?m x = 0" if "in_block t 1024 x" for x using assms(7) that by blast
  have lb: "unat l1 + 4 * 4096 \<le> 4294967296" using d(5) by simp
  have i: "unat i < 4096" using assms(2) by (simp add: word_less_nat_alt)
  have al: "t AND 0xFFFFFC00 = t" by (rule block_aligned(1) [OF d(1) assms(5)])
  have out: "m' x = ?m x" if "\<not> in_block l1 16384 x" for x
    unfolding m'_def using store_slot_outside [OF lb i] that by simp
  have "e1 m' l1 i = (t AND 0xFFFFFC00) OR 1" by (simp add: e1_def m'_def load32_store32)
  then show c: "coarse m' l1 i" "tbl m' l1 i = t" using table_entry_fields [OF al] by (simp_all add: coarse_def tbl_def)
  have e: "e1 m' l1 i' = e1 ?m l1 i'" if "i' < 4096" "i' \<noteq> i" for i'
    using store_slot_other [OF lb i _ that(2) [symmetric]] that(1) by (simp add: e1_def m'_def word_less_nat_alt)
  have cc: "coarse m' l1 i' = coarse ?m l1 i'" "tbl m' l1 i' = tbl ?m l1 i'" if "i' < 4096" "i' \<noteq> i" for i'
    using e [OF that] by (simp_all add: coarse_def tbl_def)
  have tb: "unat t + 4 * 256 \<le> 4294967296" using block_bounds(2) [OF d(1) _ assms(5)] table_classes(4) [OF d(2)] by simp
  have z: "pte m' l1 i j = 0" if "j < 256" for j
  proof -
    have j: "unat j < 256" using that by (simp add: word_less_nat_alt)
    note sl = slot_in_block [OF tb j, simplified]
    have "load32 m' (t + 4 * j) = load32 (\<lambda>_. 0) (t + 4 * j)"
    proof (rule load32_block [OF _ sl(1)])
      show "m' x = 0" if "in_block t 1024 x" for x
        using out tables_apart(1) [OF assms(1,5) that] zero [OF that] by simp
      show "unat (t + 4 * j) + 3 < unat t + 1024" using sl(2) by linarith
    qed (use tb in simp)
    then show ?thesis using c by (simp add: pte_def load32_def)
  qed
  have q: "pte m' l1 i' j = pte ?m l1 i' j" if i': "i' < 4096" "i' \<noteq> i" "coarse ?m l1 i'" and j: "j < 256" for i' j
  proof -
    have jn: "unat j < 256" using j by (simp add: word_less_nat_alt)
    have tb': "unat (tbl ?m l1 i') + 4 * 256 \<le> 4294967296" using d(8) [OF i'(1,3)] by simp
    note sl = slot_in_block [OF tb' jn, simplified]
    have "load32 m' (tbl ?m l1 i' + 4 * j) = load32 ?m (tbl ?m l1 i' + 4 * j)"
    proof (rule load32_block [OF out sl(1)])
      show "\<not> in_block l1 16384 x" if "in_block (tbl ?m l1 i') 1024 x" for x
        by (rule tables_apart(1) [OF assms(1) d(7) [OF i'(1,3)] that])
      show "unat (tbl ?m l1 i' + 4 * j) + 3 < unat (tbl ?m l1 i') + 1024" using sl(2) by linarith
    qed (use tb' in simp)
    then show ?thesis using cc(2) [OF i'(1,2)] by (simp add: pte_def)
  qed
  show "i' < 4096 \<Longrightarrow> i' \<noteq> i \<Longrightarrow> e1 m' l1 i' = e1 ?m l1 i'" "j < 256 \<Longrightarrow> pte m' l1 i j = 0"
    "i' < 4096 \<Longrightarrow> i' \<noteq> i \<Longrightarrow> coarse ?m l1 i' \<Longrightarrow> j < 256 \<Longrightarrow> pte m' l1 i' j = pte ?m l1 i' j" by (rule e z q; assumption)+
  show "\<not> in_tables ?m l1 x \<Longrightarrow> m' x = ?m x" using out by (auto simp: in_tables_def)
  have t2: "tbl m' l1 i' \<in> live \<and> tbl m' l1 i' \<in> used (cls (vm_ka vm) 6)" if "i' < 4096" "coarse m' l1 i'" for i'
    using that c assms(4,5) cc [of i'] d(6,7) [of i'] by (cases "i' = i") auto
  have inj: "a = b" if "a < 4096" "b < 4096" "coarse m' l1 a" "coarse m' l1 b" "tbl m' l1 a = tbl m' l1 b" for a b
  proof (rule ccontr)
    assume "a \<noteq> b"
    then consider "a = i" "b \<noteq> i" | "a \<noteq> i" "b = i" | "a \<noteq> i" "b \<noteq> i" by blast
    then show False
    proof cases
      case 1
      then show ?thesis using that c cc [OF that(2) 1(2)] ne [OF that(2)] by simp
    next
      case 2
      then show ?thesis using that c cc [OF that(1) 2(1)] ne [OF that(1)] by simp
    next
      case 3
      then show ?thesis using that cc [OF that(1) 3(1)] cc [OF that(2) 3(2)] d(10) [OF that(1,2)] \<open>a \<noteq> b\<close> by simp
    qed
  qed
  have p: "page_ok (vm_ka vm) live (pte m' l1 i' j)" if "i' < 4096" "j < 256" "coarse m' l1 i'" for i' j
    using that z q cc [of i'] d(9) [of i' j] by (cases "i' = i") (auto simp: page_ok_def)
  show "pt_inv (vm\<lparr>vm_mem := m'\<rparr>) l1 fl live"
    unfolding pt_inv_def using d(1,3,4) t2 inj p by simp
qed

section \<open>Mapping a page\<close>

text \<open>The first half of \<open>map_page\<close> makes sure there is a second-level table.\<close>

definition ensure_table :: "u32 \<Rightarrow> u32 \<Rightarrow> vm_state \<Rightarrow> vm_state option" where
  "ensure_table l1 i vm =
     (if load32 (vm_mem vm) (l1 + 4 * i) AND 3 \<noteq> 1
      then do {
        (l2_table, vm') \<leftarrow> valloc 1024 vm;
        Some (vm'\<lparr>vm_mem := store32 (l1 + 4 * i) ((l2_table AND 0xFFFFFC00) OR 1) (memset l2_table 0 1024 (vm_mem vm'))\<rparr>)
      }
      else Some vm)"

definition map_entry :: "u32 \<Rightarrow> u32 \<Rightarrow> u32 \<Rightarrow> vm_state \<Rightarrow> vm_state option" where
  "map_entry l1 i j vm1 =
     (if pte (vm_mem vm1) l1 i j AND 3 = 0
      then do {
        (new_page, vm2) \<leftarrow> valloc 4096 vm1;
        Some (vm2\<lparr>vm_mem := store32 (tbl (vm_mem vm1) l1 i + 4 * j) (make_L2_page_entry new_page 0xFF 1 1)
          (memset new_page 0 4096 (vm_mem vm2))\<rparr>)
      }
      else Some (vm1\<lparr>vm_mem := store32 (tbl (vm_mem vm1) l1 i + 4 * j)
        ((pte (vm_mem vm1) l1 i j AND NOT (push_bit 4 0xFF)) OR push_bit 4 0xFF) (vm_mem vm1)\<rparr>))"

lemma map_page_halves: "map_page l1 va vm = Option.bind (ensure_table l1 (l1i va) vm) (map_entry l1 (l1i va) (l2i va))"
  by (cases "valloc 1024 vm") (simp_all add: map_page_def ensure_table_def map_entry_def Let_def pte_def tbl_def e1_def split_beta)

lemma ensure_table_law:
  assumes "pt_inv vm l1 fl live" "i < 4096" "0 < avail (vm_ka vm) fl 6"
  obtains vm1 fl1 live1 where "ensure_table l1 i vm = Some vm1" "pt_inv vm1 l1 fl1 live1" "live \<subseteq> live1"
    "coarse (vm_mem vm1) l1 i" "vm_active vm1 = vm_active vm" "vm_kuser vm1 = vm_kuser vm"
    "avail (vm_ka vm) fl 6 \<le> avail (vm_ka vm1) fl1 6 + 1" "avail (vm_ka vm1) fl1 8 = avail (vm_ka vm) fl 8"
    "\<And>i'. i' < 4096 \<Longrightarrow> i' \<noteq> i \<or> coarse (vm_mem vm) l1 i \<Longrightarrow> e1 (vm_mem vm1) l1 i' = e1 (vm_mem vm) l1 i'"
    "\<And>i' j. i' < 4096 \<Longrightarrow> coarse (vm_mem vm) l1 i' \<Longrightarrow> j < 256 \<Longrightarrow> pte (vm_mem vm1) l1 i' j = pte (vm_mem vm) l1 i' j"
    "\<And>j. \<not> coarse (vm_mem vm) l1 i \<Longrightarrow> j < 256 \<Longrightarrow> pte (vm_mem vm1) l1 i j = 0"
    "\<And>x. \<not> in_tables (vm_mem vm1) l1 x \<Longrightarrow> vm_mem vm1 x = vm_mem vm x"
proof (cases "coarse (vm_mem vm) l1 i")
  case True
  then have "ensure_table l1 i vm = Some vm" by (simp add: ensure_table_def coarse_def e1_def)
  then show thesis using that [of vm fl live] assms(1) True by simp
next
  case False
  note d = pt_invD [OF assms(1)]
  note tc = table_classes [OF d(2)]
  obtain t vm' fl' where a: "valloc 1024 vm = Some (t, vm')" "vm_mem vm' = vm_mem vm" "vm_active vm' = vm_active vm" "vm_kuser vm' = vm_kuser vm"
    "t \<notin> live" "t \<in> used (cls (vm_ka vm') 6)" "pt_inv (vm'\<lparr>vm_mem := memset t 0 1024 (vm_mem vm')\<rparr>) l1 fl' (insert t live)"
    "\<And>j. j < 21 \<Longrightarrow> avail (vm_ka vm') fl' j = (if j = 6 then avail (vm_ka vm) fl 6 - 1 else avail (vm_ka vm) fl j)"
    "\<And>x. in_block t (unat (1024 :: u32)) x \<Longrightarrow> \<not> in_tables (vm_mem vm) l1 x" "unat t + unat (1024 :: u32) \<le> 0xCCBD0000"
    by (rule alloc_cleared [OF assms(1) tc(1) assms(3) tc(4)]) blast
  let ?v = "vm'\<lparr>vm_mem := memset t 0 1024 (vm_mem vm')\<rparr>"
  have ms: "vm_mem ?v x = (if in_block t 1024 x then 0 else vm_mem vm x)" for x
    using a(2,10) by (simp add: memset_block)
  have same: "e1 (vm_mem ?v) l1 i' = e1 (vm_mem vm) l1 i'"
    "coarse (vm_mem vm) l1 i' \<Longrightarrow> j < 256 \<Longrightarrow> pte (vm_mem ?v) l1 i' j = pte (vm_mem vm) l1 i' j" if "i' < 4096" for i' j
    by (rule tables_frame [OF assms(1)]; use a(9) ms that in auto)+
  have cs: "coarse (vm_mem ?v) l1 i' = coarse (vm_mem vm) l1 i'" "tbl (vm_mem ?v) l1 i' = tbl (vm_mem vm) l1 i'" if "i' < 4096" for i'
    using same(1) [OF that] by (simp_all only: coarse_def tbl_def)
  have h: "\<not> coarse (vm_mem ?v) l1 i" using False cs(1) [OF assms(2)] by simp
  have ne: "\<forall>i' < 4096. coarse (vm_mem ?v) l1 i' \<longrightarrow> tbl (vm_mem ?v) l1 i' \<noteq> t"
    using cs d(6) a(5) by metis
  have z: "\<forall>x. in_block t 1024 x \<longrightarrow> vm_mem ?v x = 0" using ms by simp
  have tu: "t \<in> used (cls (vm_ka ?v) 6)" using a(6) by simp
  note st = set_table [OF a(7) assms(2) h insertI1 tu ne z]
  define m1 where "m1 = store32 (l1 + 4 * i) ((t AND 0xFFFFFC00) OR 1) (vm_mem ?v)"
  note st = st [folded m1_def]
  let ?vm1 = "?v\<lparr>vm_mem := m1\<rparr>"
  have e: "ensure_table l1 i vm = Some ?vm1"
    using False a(1) by (simp add: ensure_table_def coarse_def e1_def m1_def)
  show thesis
  proof (rule that [OF e st(1)])
    show "coarse (vm_mem ?vm1) l1 i" using st(2) by simp
    show "live \<subseteq> insert t live" by blast
    show "avail (vm_ka vm) fl 6 \<le> avail (vm_ka ?vm1) fl' 6 + 1" "avail (vm_ka ?vm1) fl' 8 = avail (vm_ka vm) fl 8"
      using a(8) [of 6] a(8) [of 8] by simp_all
    show "e1 (vm_mem ?vm1) l1 i' = e1 (vm_mem vm) l1 i'" if "i' < 4096" "i' \<noteq> i \<or> coarse (vm_mem vm) l1 i" for i'
      using st(4) [OF that(1)] same(1) [OF that(1)] that(2) False by simp
    show "pte (vm_mem ?vm1) l1 i' j = pte (vm_mem vm) l1 i' j" if "i' < 4096" "coarse (vm_mem vm) l1 i'" "j < 256" for i' j
      using st(6) [OF that(1) _ _ that(3)] same(2) [OF that] cs(1) [OF that(1)] that(2) False by (cases "i' = i") auto
    show "pte (vm_mem ?vm1) l1 i j = 0" if "j < 256" for j using st(5) [OF that] by simp
    show "vm_mem ?vm1 x = vm_mem vm x" if x: "\<not> in_tables (vm_mem ?vm1) l1 x" for x
    proof -
      have "\<not> in_block l1 16384 x" "\<not> in_block t 1024 x" using x st(2,3) assms(2) by (auto simp: in_tables_def)
      moreover have "\<not> in_block (tbl (vm_mem ?v) l1 i') 1024 x" if "i' < 4096" "coarse (vm_mem ?v) l1 i'" for i'
      proof -
        have "i' \<noteq> i" using that(2) h by blast
        then have "e1 m1 l1 i' = e1 (vm_mem ?v) l1 i'" using st(4) that(1) by blast
        then have "coarse m1 l1 i'" "tbl m1 l1 i' = tbl (vm_mem ?v) l1 i'" using that(2) by (simp_all only: coarse_def tbl_def)
        moreover have "\<not> in_tables m1 l1 x" using x by simp
        ultimately show ?thesis using that(1) unfolding in_tables_def by metis
      qed
      ultimately have "\<not> in_tables (vm_mem ?v) l1 x" by (auto simp: in_tables_def)
      then show ?thesis using st(7) [of x] ms [of x] \<open>\<not> in_block t 1024 x\<close> by simp
    qed
  qed (use a(3,4) in simp_all)
qed

text \<open>The second half: the entry gets a page, or keeps its own.\<close>

lemma low_bits: "(e :: u32) AND 3 = 0 \<Longrightarrow> e AND 2 = 0" "e AND 3 = 2 \<Longrightarrow> e AND 2 \<noteq> 0"
proof -
  have "e AND 2 = (e AND 3) AND 2" by (simp add: and.assoc)
  then show "e AND 3 = 0 \<Longrightarrow> e AND 2 = 0" "e AND 3 = 2 \<Longrightarrow> e AND 2 \<noteq> 0" by simp_all
qed

lemma page_ok_aligned: "kinv k fl live \<Longrightarrow> p \<in> live \<Longrightarrow> p \<in> used (cls k 8) \<Longrightarrow> page_ok k live (make_L2_page_entry p 0xFF 1 1)"
  using block_aligned(2) [of k fl live p] new_entry_fields [of p] low_bits(2) [OF new_entry_fields(1) [of p]] by (simp add: page_ok_def)

lemma map_entry_law:
  assumes "pt_inv vm l1 fl live" "i < 4096" "coarse (vm_mem vm) l1 i" "j < 256" "0 < avail (vm_ka vm) fl 8"
  obtains vm1 fl1 live1 e where "map_entry l1 i j vm = Some vm1" "pt_inv vm1 l1 fl1 live1" "live \<subseteq> live1"
    "vm_active vm1 = vm_active vm" "vm_kuser vm1 = vm_kuser vm"
    "avail (vm_ka vm) fl 8 \<le> avail (vm_ka vm1) fl1 8 + 1" "avail (vm_ka vm1) fl1 6 = avail (vm_ka vm) fl 6"
    "\<And>i'. i' < 4096 \<Longrightarrow> e1 (vm_mem vm1) l1 i' = e1 (vm_mem vm) l1 i'"
    "\<And>i' j'. i' < 4096 \<Longrightarrow> coarse (vm_mem vm) l1 i' \<Longrightarrow> j' < 256 \<Longrightarrow>
      pte (vm_mem vm1) l1 i' j' = (if i' = i \<and> j' = j then e else pte (vm_mem vm) l1 i' j')"
    "e AND 2 \<noteq> 0" "drop_bit 4 e AND 3 = 3"
    "if pte (vm_mem vm) l1 i j AND 3 = 0
     then e AND 0xFFFFF000 \<in> live1 - live \<and> e AND 0xFFFFF000 \<in> used (cls (vm_ka vm1) 8) \<and> (\<forall>x. in_block (e AND 0xFFFFF000) 4096 x \<longrightarrow> vm_mem vm1 x = 0)
     else e AND 0xFFFFF000 = pte (vm_mem vm) l1 i j AND 0xFFFFF000"
    "\<And>x. \<not> in_tables (vm_mem vm) l1 x \<Longrightarrow> \<not> (pte (vm_mem vm) l1 i j AND 3 = 0 \<and> in_block (e AND 0xFFFFF000) 4096 x) \<Longrightarrow> vm_mem vm1 x = vm_mem vm x"
proof (cases "pte (vm_mem vm) l1 i j AND 3 = 0")
  case False
  note d = pt_invD [OF assms(1)]
  let ?e = "pte (vm_mem vm) l1 i j"
  define f where "f = (?e AND NOT (push_bit 4 0xFF)) OR push_bit 4 0xFF"
  note o = open_entry_fields [of ?e, folded f_def]
  have p: "page_ok (vm_ka vm) live ?e" by (rule d(9) [OF assms(2,4,3)])
  have two: "w AND 2 = (w AND 3) AND 2" for w :: u32 by (simp add: and.assoc)
  have f2: "f AND 2 = ?e AND 2" using o(1) two [of f] two [of ?e] by simp
  have pf: "page_ok (vm_ka vm) live f" using p o(1,2) f2 unfolding page_ok_def by simp
  note st = set_pte [OF assms(1-4) pf]
  have m: "map_entry l1 i j vm = Some (vm\<lparr>vm_mem := store32 (tbl (vm_mem vm) l1 i + 4 * j) f (vm_mem vm)\<rparr>)"
    using False by (simp add: map_entry_def f_def)
  have "f AND 2 \<noteq> 0" using p False f2 by (auto simp: page_ok_def)
  then show thesis
    by (intro that [of _ fl live f, OF m st(1)]) (use st(2,3,4) o(2,3) False in simp_all)
next
  case True
  note d = pt_invD [OF assms(1)]
  note tc = table_classes [OF d(2)]
  obtain p vm' fl' where a: "valloc 4096 vm = Some (p, vm')" "vm_mem vm' = vm_mem vm" "vm_active vm' = vm_active vm" "vm_kuser vm' = vm_kuser vm"
    "p \<notin> live" "p \<in> used (cls (vm_ka vm') 8)" "pt_inv (vm'\<lparr>vm_mem := memset p 0 4096 (vm_mem vm')\<rparr>) l1 fl' (insert p live)"
    "\<And>j. j < 21 \<Longrightarrow> avail (vm_ka vm') fl' j = (if j = 8 then avail (vm_ka vm) fl 8 - 1 else avail (vm_ka vm) fl j)"
    "\<And>x. in_block p (unat (4096 :: u32)) x \<Longrightarrow> \<not> in_tables (vm_mem vm) l1 x" "unat p + unat (4096 :: u32) \<le> 0xCCBD0000"
    by (rule alloc_cleared [OF assms(1) tc(2) assms(5) tc(5)]) blast
  let ?v = "vm'\<lparr>vm_mem := memset p 0 4096 (vm_mem vm')\<rparr>"
  let ?e = "make_L2_page_entry p 0xFF 1 1"
  have ms: "vm_mem ?v x = (if in_block p 4096 x then 0 else vm_mem vm x)" for x
    using a(2,10) by (simp add: memset_block)
  have same: "e1 (vm_mem ?v) l1 i' = e1 (vm_mem vm) l1 i'"
    "coarse (vm_mem vm) l1 i' \<Longrightarrow> j < 256 \<Longrightarrow> pte (vm_mem ?v) l1 i' j = pte (vm_mem vm) l1 i' j" if "i' < 4096" for i' j
    by (rule tables_frame [OF assms(1)]; use a(9) ms that in auto)+
  have cs: "coarse (vm_mem ?v) l1 i' = coarse (vm_mem vm) l1 i'" "tbl (vm_mem ?v) l1 i' = tbl (vm_mem vm) l1 i'" if "i' < 4096" for i'
    using same(1) [OF that] by (simp_all only: coarse_def tbl_def)
  have c: "coarse (vm_mem ?v) l1 i" using cs(1) [OF assms(2)] assms(3) by blast
  have k: "kinv (vm_ka ?v) fl' (insert p live)" by (rule pt_invD(1) [OF a(7)])
  have pu: "p \<in> used (cls (vm_ka ?v) 8)" using a(6) by simp
  note al = block_aligned(2) [OF k pu]
  note nf = new_entry_fields [of p]
  note st = set_pte [OF a(7) assms(2) c assms(4) page_ok_aligned [OF k insertI1 pu]]
  let ?m1 = "store32 (tbl (vm_mem ?v) l1 i + 4 * j) ?e (vm_mem ?v)"
  let ?vm1 = "?v\<lparr>vm_mem := ?m1\<rparr>"
  have m: "map_entry l1 i j vm = Some ?vm1"
    using True a(1) cs(2) [OF assms(2)] by (simp add: map_entry_def)
  have tabs: "in_tables (vm_mem ?v) l1 x = in_tables (vm_mem vm) l1 x" for x
    using cs unfolding in_tables_def by metis
  have eb: "?e AND 0xFFFFF000 = p" using nf(2) al by simp
  show thesis
  proof (rule that [of _ fl' "insert p live" ?e, OF m st(1)])
    show "live \<subseteq> insert p live" by blast
    show "avail (vm_ka vm) fl 8 \<le> avail (vm_ka ?vm1) fl' 8 + 1" "avail (vm_ka ?vm1) fl' 6 = avail (vm_ka vm) fl 6"
      using a(8) [of 6] a(8) [of 8] by simp_all
    show "e1 (vm_mem ?vm1) l1 i' = e1 (vm_mem vm) l1 i'" if "i' < 4096" for i' using st(2) [OF that] same(1) [OF that] by simp
    show "pte (vm_mem ?vm1) l1 i' j' = (if i' = i \<and> j' = j then ?e else pte (vm_mem vm) l1 i' j')"
      if "i' < 4096" "coarse (vm_mem vm) l1 i'" "j' < 256" for i' j'
      using st(3) [OF that(1) _ that(3)] cs(1) [OF that(1)] that(2) same(2) [OF that] by simp
    show "?e AND 2 \<noteq> 0" "drop_bit 4 ?e AND 3 = 3" using nf low_bits(2) by blast+
    have "in_block p 4096 x \<Longrightarrow> ?m1 x = 0" for x using st(4) [of x] a(9) [of x] tabs [of x] ms [of x] by simp
    then show "if pte (vm_mem vm) l1 i j AND 3 = 0
      then ?e AND 0xFFFFF000 \<in> insert p live - live \<and> ?e AND 0xFFFFF000 \<in> used (cls (vm_ka ?vm1) 8) \<and> (\<forall>x. in_block (?e AND 0xFFFFF000) 4096 x \<longrightarrow> vm_mem ?vm1 x = 0)
      else ?e AND 0xFFFFF000 = pte (vm_mem vm) l1 i j AND 0xFFFFF000" unfolding eb using True a(5,6) by simp
    show "vm_mem ?vm1 x = vm_mem vm x" if "\<not> in_tables (vm_mem vm) l1 x" "\<not> (pte (vm_mem vm) l1 i j AND 3 = 0 \<and> in_block (?e AND 0xFFFFF000) 4096 x)" for x
      using st(4) [of x] tabs [of x] ms [of x] that True unfolding eb by simp
  qed (use a(3,4) in simp_all)
qed

text \<open>Both halves. A page is mapped when all its addresses go to one frame with full access.\<close>

definition mapped_at :: "memory \<Rightarrow> u32 \<Rightarrow> u32 \<Rightarrow> u32 \<Rightarrow> bool" where
  "mapped_at m l1 va p \<longleftrightarrow> (\<forall>va'. l1i va' = l1i va \<longrightarrow> l2i va' = l2i va \<longrightarrow> translate m l1 va' = Some (p OR (va' AND 0xFFF), 3))"

definition has_page :: "memory \<Rightarrow> u32 \<Rightarrow> u32 \<Rightarrow> bool" where
  "has_page m l1 va \<longleftrightarrow> coarse m l1 (l1i va) \<and> pte m l1 (l1i va) (l2i va) AND 3 \<noteq> 0"

definition same_page :: "u32 \<Rightarrow> u32 \<Rightarrow> bool" where
  "same_page va va' \<longleftrightarrow> l1i va' = l1i va \<and> l2i va' = l2i va"

lemma coarse_not_section: "coarse m l1 i \<Longrightarrow> e1 m l1 i AND 3 \<noteq> 2"
  by (simp add: coarse_def)

lemma translate_coarse:
  "coarse m l1 (l1i va) \<Longrightarrow> translate m l1 va =
    (if pte m l1 (l1i va) (l2i va) AND 2 \<noteq> 0
     then Some ((pte m l1 (l1i va) (l2i va) AND 0xFFFFF000) OR (va AND 0xFFF), drop_bit 4 (pte m l1 (l1i va) (l2i va)) AND 3) else None)"
  unfolding translate_entries using coarse_not_section [of m l1 "l1i va"] by simp

lemma translate_same:
  assumes "e1 m' l1 (l1i va) = e1 m l1 (l1i va)"
    "coarse m l1 (l1i va) \<Longrightarrow> pte m' l1 (l1i va) (l2i va) = pte m l1 (l1i va) (l2i va)"
  shows "translate m' l1 va = translate m l1 va"
  using assms unfolding translate_entries coarse_def by simp

lemma map_page_law:
  assumes "pt_inv vm l1 fl live" "0 < avail (vm_ka vm) fl 6" "0 < avail (vm_ka vm) fl 8"
  obtains vm' fl' live' p where "map_page l1 va vm = Some vm'" "pt_inv vm' l1 fl' live'" "live \<subseteq> live'"
    "vm_active vm' = vm_active vm" "vm_kuser vm' = vm_kuser vm"
    "avail (vm_ka vm) fl 6 \<le> avail (vm_ka vm') fl' 6 + 1" "avail (vm_ka vm) fl 8 \<le> avail (vm_ka vm') fl' 8 + 1"
    "mapped_at (vm_mem vm') l1 va p" "has_page (vm_mem vm') l1 va"
    "\<And>va'. \<not> same_page va va' \<Longrightarrow> l1i va' \<noteq> l1i va \<or> coarse (vm_mem vm) l1 (l1i va) \<Longrightarrow>
      translate (vm_mem vm') l1 va' = translate (vm_mem vm) l1 va' \<and> has_page (vm_mem vm') l1 va' = has_page (vm_mem vm) l1 va'"
    "\<And>i. i < 4096 \<Longrightarrow> coarse (vm_mem vm') l1 i \<longleftrightarrow> coarse (vm_mem vm) l1 i \<or> i = l1i va"
    "\<And>va'. \<not> same_page va va' \<Longrightarrow> has_page (vm_mem vm') l1 va' = has_page (vm_mem vm) l1 va'"
    "if has_page (vm_mem vm) l1 va then p \<notin> live' - live \<and> (\<exists>ap. translate (vm_mem vm) l1 va = Some (p OR (va AND 0xFFF), ap))
     else p \<in> live' - live \<and> p \<in> used (cls (vm_ka vm') 8) \<and> (\<forall>x. in_block p 4096 x \<longrightarrow> vm_mem vm' x = 0)"
    "\<And>x. \<not> in_tables (vm_mem vm') l1 x \<Longrightarrow> \<not> (p \<in> live' - live \<and> in_block p 4096 x) \<Longrightarrow> vm_mem vm' x = vm_mem vm x"
    "\<And>x. in_tables (vm_mem vm) l1 x \<Longrightarrow> in_tables (vm_mem vm') l1 x"
proof -
  let ?i = "l1i va" and ?j = "l2i va" and ?m = "vm_mem vm"
  note ib = index_bounds
  obtain vm1 fl1 live1 where a: "ensure_table l1 ?i vm = Some vm1" "pt_inv vm1 l1 fl1 live1" "live \<subseteq> live1"
    "coarse (vm_mem vm1) l1 ?i" "vm_active vm1 = vm_active vm" "vm_kuser vm1 = vm_kuser vm"
    "avail (vm_ka vm) fl 6 \<le> avail (vm_ka vm1) fl1 6 + 1" "avail (vm_ka vm1) fl1 8 = avail (vm_ka vm) fl 8"
    and ae: "\<And>i'. i' < 4096 \<Longrightarrow> i' \<noteq> ?i \<or> coarse ?m l1 ?i \<Longrightarrow> e1 (vm_mem vm1) l1 i' = e1 ?m l1 i'"
    and ap: "\<And>i' j. i' < 4096 \<Longrightarrow> coarse ?m l1 i' \<Longrightarrow> j < 256 \<Longrightarrow> pte (vm_mem vm1) l1 i' j = pte ?m l1 i' j"
    and az: "\<And>j. \<not> coarse ?m l1 ?i \<Longrightarrow> j < 256 \<Longrightarrow> pte (vm_mem vm1) l1 ?i j = 0"
    and ax: "\<And>x. \<not> in_tables (vm_mem vm1) l1 x \<Longrightarrow> vm_mem vm1 x = ?m x"
    by (rule ensure_table_law [OF assms(1) ib(1) assms(2)]) blast
  have av: "0 < avail (vm_ka vm1) fl1 8" using a(8) assms(3) by simp
  obtain vm2 fl2 live2 e where b: "map_entry l1 ?i ?j vm1 = Some vm2" "pt_inv vm2 l1 fl2 live2" "live1 \<subseteq> live2"
    "vm_active vm2 = vm_active vm1" "vm_kuser vm2 = vm_kuser vm1"
    "avail (vm_ka vm1) fl1 8 \<le> avail (vm_ka vm2) fl2 8 + 1" "avail (vm_ka vm2) fl2 6 = avail (vm_ka vm1) fl1 6"
    and be: "\<And>i'. i' < 4096 \<Longrightarrow> e1 (vm_mem vm2) l1 i' = e1 (vm_mem vm1) l1 i'"
    and bp: "\<And>i' j'. i' < 4096 \<Longrightarrow> coarse (vm_mem vm1) l1 i' \<Longrightarrow> j' < 256 \<Longrightarrow>
      pte (vm_mem vm2) l1 i' j' = (if i' = ?i \<and> j' = ?j then e else pte (vm_mem vm1) l1 i' j')"
    and bf: "e AND 2 \<noteq> 0" "drop_bit 4 e AND 3 = 3"
    and bn: "if pte (vm_mem vm1) l1 ?i ?j AND 3 = 0
     then e AND 0xFFFFF000 \<in> live2 - live1 \<and> e AND 0xFFFFF000 \<in> used (cls (vm_ka vm2) 8) \<and> (\<forall>x. in_block (e AND 0xFFFFF000) 4096 x \<longrightarrow> vm_mem vm2 x = 0)
     else e AND 0xFFFFF000 = pte (vm_mem vm1) l1 ?i ?j AND 0xFFFFF000"
    and bx: "\<And>x. \<not> in_tables (vm_mem vm1) l1 x \<Longrightarrow> \<not> (pte (vm_mem vm1) l1 ?i ?j AND 3 = 0 \<and> in_block (e AND 0xFFFFF000) 4096 x) \<Longrightarrow> vm_mem vm2 x = vm_mem vm1 x"
    by (rule map_entry_law [OF a(2) ib(1) a(4) ib(2) av]) blast
  let ?p = "e AND 0xFFFFF000"
  have c2: "coarse (vm_mem vm2) l1 i \<longleftrightarrow> coarse (vm_mem vm1) l1 i" "tbl (vm_mem vm2) l1 i = tbl (vm_mem vm1) l1 i" if "i < 4096" for i
    using be [OF that] by (simp_all only: coarse_def tbl_def)
  have c1: "coarse (vm_mem vm1) l1 i \<longleftrightarrow> coarse ?m l1 i \<or> i = ?i" if "i < 4096" for i
    using ae [OF that] a(4) unfolding coarse_def by (cases "i = l1i va") auto
  have tabs: "in_tables (vm_mem vm2) l1 x = in_tables (vm_mem vm1) l1 x" for x
    using c2 unfolding in_tables_def by metis
  have hp: "has_page ?m l1 va \<longleftrightarrow> pte (vm_mem vm1) l1 ?i ?j AND 3 \<noteq> 0"
  proof (cases "coarse ?m l1 ?i")
    case True
    then show ?thesis using ap [OF ib(1) True ib(2)] by (simp add: has_page_def)
  next
    case False
    then show ?thesis using az [OF False ib(2)] by (simp add: has_page_def)
  qed
  have e3: "e AND 3 \<noteq> 0" using bf(1) low_bits(1) by blast
  have self: "coarse (vm_mem vm2) l1 ?i" "pte (vm_mem vm2) l1 ?i ?j = e"
    using c2(1) [OF ib(1)] a(4) bp [OF ib(1) a(4) ib(2)] by simp_all
  have pg: "mapped_at (vm_mem vm2) l1 va ?p"
    unfolding mapped_at_def using translate_coarse self bf by (metis (no_types, lifting))
  have oth: "has_page (vm_mem vm2) l1 va' = has_page ?m l1 va'" if ns: "\<not> same_page va va'" for va'
  proof (cases "coarse ?m l1 (l1i va')")
    case True
    have "coarse (vm_mem vm1) l1 (l1i va')" using c1 [OF ib(1)] True by blast
    moreover have "pte (vm_mem vm2) l1 (l1i va') (l2i va') = pte ?m l1 (l1i va') (l2i va')"
      using bp [OF ib(1) calculation ib(2)] ap [OF ib(1) True ib(2)] ns by (auto simp: same_page_def)
    ultimately show ?thesis using True c2(1) [OF ib(1), of va'] by (simp add: has_page_def)
  next
    case False
    show ?thesis
    proof (cases "l1i va' = ?i")
      case True
      then have "l2i va' \<noteq> ?j" using ns by (simp add: same_page_def)
      then have "pte (vm_mem vm2) l1 ?i (l2i va') = 0" using bp [OF ib(1) a(4) ib(2)] az [OF _ ib(2)] False True by simp
      then show ?thesis using True False by (simp add: has_page_def)
    next
      case no: False
      then have "\<not> coarse (vm_mem vm2) l1 (l1i va')" using c2(1) [OF ib(1)] c1 [OF ib(1)] False by blast
      then show ?thesis using False by (simp add: has_page_def)
    qed
  qed
  have tr: "translate (vm_mem vm2) l1 va' = translate ?m l1 va'"
    if ns: "\<not> same_page va va'" and mb: "l1i va' \<noteq> ?i \<or> coarse ?m l1 ?i" for va'
  proof (rule translate_same)
    show "e1 (vm_mem vm2) l1 (l1i va') = e1 ?m l1 (l1i va')" using be [OF ib(1)] ae [OF ib(1) mb] by simp
    assume c: "coarse ?m l1 (l1i va')"
    have "coarse (vm_mem vm1) l1 (l1i va')" using c1 [OF ib(1)] c by blast
    then show "pte (vm_mem vm2) l1 (l1i va') (l2i va') = pte ?m l1 (l1i va') (l2i va')"
      using bp [OF ib(1) _ ib(2)] ap [OF ib(1) c ib(2)] ns by (auto simp: same_page_def)
  qed
  have old: "?p \<notin> live2 - live \<and> (\<exists>x. translate ?m l1 va = Some (?p OR (va AND 0xFFF), x))" if h: "has_page ?m l1 va"
  proof -
    have c: "coarse ?m l1 ?i" using h by (simp add: has_page_def)
    have q: "pte (vm_mem vm1) l1 ?i ?j = pte ?m l1 ?i ?j" by (rule ap [OF ib(1) c ib(2)])
    have "page_ok (vm_ka vm) live (pte ?m l1 ?i ?j)" by (rule pt_invD(9) [OF assms(1) ib(1) ib(2) c])
    then have po: "pte ?m l1 ?i ?j AND 2 \<noteq> 0" "0xFFF00000 \<le> pte ?m l1 ?i ?j AND 0xFFFFF000 \<or> pte ?m l1 ?i ?j AND 0xFFFFF000 \<in> live"
      using h by (auto simp: page_ok_def has_page_def)
    have pe: "?p = pte ?m l1 ?i ?j AND 0xFFFFF000" using bn h hp q by simp
    have "?p \<notin> live2 - live"
    proof
      assume n: "?p \<in> live2 - live"
      then have "0xFFF00000 \<le> unat ?p" using po(2) unfolding pe by (simp add: word_le_nat_alt)
      then show False using live_bound [OF pt_invD(1) [OF b(2)]] n by fastforce
    qed
    then show ?thesis using translate_coarse [OF c] po(1) pe by simp
  qed
  show thesis
  proof (rule that [OF _ b(2) _ _ _ _ _ pg])
    show "map_page l1 va vm = Some vm2" using a(1) b(1) by (simp add: map_page_halves)
    show "live \<subseteq> live2" using a(3) b(3) by blast
    show "has_page (vm_mem vm2) l1 va" using self e3 by (simp add: has_page_def)
    show "translate (vm_mem vm2) l1 va' = translate ?m l1 va' \<and> has_page (vm_mem vm2) l1 va' = has_page ?m l1 va'"
      if "\<not> same_page va va'" "l1i va' \<noteq> ?i \<or> coarse ?m l1 ?i" for va' using tr [OF that] oth [OF that(1)] by blast
    show "coarse (vm_mem vm2) l1 i \<longleftrightarrow> coarse ?m l1 i \<or> i = ?i" if "i < 4096" for i using c1 [OF that] c2(1) [OF that] by simp
    show "if has_page ?m l1 va then ?p \<notin> live2 - live \<and> (\<exists>ap. translate ?m l1 va = Some (?p OR (va AND 0xFFF), ap))
      else ?p \<in> live2 - live \<and> ?p \<in> used (cls (vm_ka vm2) 8) \<and> (\<forall>x. in_block ?p 4096 x \<longrightarrow> vm_mem vm2 x = 0)"
      using old bn hp a(3) by auto
    show "vm_mem vm2 x = ?m x" if "\<not> in_tables (vm_mem vm2) l1 x" "\<not> (?p \<in> live2 - live \<and> in_block ?p 4096 x)" for x
    proof -
      have "\<not> (pte (vm_mem vm1) l1 ?i ?j AND 3 = 0 \<and> in_block ?p 4096 x)" using that(2) bn a(3) by auto
      then show ?thesis using bx [of x] ax [of x] that(1) tabs by simp
    qed
    show "in_tables (vm_mem vm2) l1 x" if "in_tables ?m l1 x" for x
    proof -
      have "coarse (vm_mem vm2) l1 i" "tbl (vm_mem vm2) l1 i = tbl ?m l1 i" if "i < 4096" "coarse ?m l1 i" for i
      proof -
        have "e1 (vm_mem vm2) l1 i = e1 ?m l1 i" using be [OF that(1)] ae [OF that(1)] that(2) by (cases "i = ?i") auto
        then show "coarse (vm_mem vm2) l1 i" "tbl (vm_mem vm2) l1 i = tbl ?m l1 i" using that(2) by (simp_all only: coarse_def tbl_def)
      qed
      then show ?thesis using that unfolding in_tables_def by metis
    qed
  qed (use a b oth in simp_all)
qed

section \<open>Mapping a range\<close>

text \<open>Addresses with the same offset in the same page are equal.\<close>

lemma same_page_eq:
  assumes "same_page va va'" "va AND 0xFFF = va' AND 0xFFF"
  shows "va' = va"
proof (rule bit_word_eqI)
  fix n assume "n < LENGTH(32)"
  then consider "n < 12" | "12 \<le> n" "n < 20" | "20 \<le> n" "n < 32" by fastforce
  then show "bit va' n = bit va n"
  proof cases
    case 1
    then show ?thesis using arg_cong [OF assms(2), of "\<lambda>w. bit w n"] unfolding masks by (simp add: bit_simps)
  next
    case 2
    have "bit (l2i va') (n - 12) = bit (l2i va) (n - 12)" using assms(1) by (simp add: same_page_def)
    moreover have "n - 12 < 8" using 2 by linarith
    ultimately show ?thesis using 2 unfolding masks by (simp add: bit_simps)
  next
    case 3
    have "bit (l1i va') (n - 20) = bit (l1i va) (n - 20)" using assms(1) by (simp add: same_page_def)
    moreover have "n - 20 < 12" using 3 by linarith
    ultimately show ?thesis using 3 unfolding masks by (simp add: bit_simps)
  qed
qed

lemma page_steps:
  assumes "va AND 0xFFF = 0" "k < 1048576"
  shows "(va + 0x1000 * of_nat k) AND 0xFFF = 0" "same_page va (va + 0x1000 * of_nat k) \<Longrightarrow> k = 0"
proof -
  show a: "(va + 0x1000 * of_nat k) AND 0xFFF = 0"
  proof -
    have "take_bit 12 va = 0" using assms(1) unfolding masks by (simp add: take_bit_eq_mask)
    then have "va = push_bit 12 (drop_bit 12 va)" using bits_ident [of 12 va] by simp
    moreover have "(0x1000 * of_nat k :: u32) = push_bit 12 (of_nat k)" by (simp add: push_bit_eq_mult)
    ultimately have "va + 0x1000 * of_nat k = push_bit 12 (drop_bit 12 va + of_nat k)" by (metis push_bit_add)
    then have "take_bit 12 (va + 0x1000 * of_nat k) = 0" by (simp add: take_bit_push_bit del: push_bit_of_nat)
    then show ?thesis unfolding masks by (simp add: take_bit_eq_mask)
  qed
  assume "same_page va (va + 0x1000 * of_nat k)"
  then have "va + 0x1000 * of_nat k = va" using same_page_eq a assms(1) by metis
  then have z: "0x1000 * of_nat k = (0 :: u32)" by simp
  have "(0x1000 * of_nat k :: u32) = of_nat (4096 * k)" by simp
  then have "unat (of_nat (4096 * k) :: u32) = 0" using z by simp
  then show "k = 0" using assms(2) unat_of_nat_u32 [of "4096 * k"] by simp
qed

text \<open>A block stays in its class, and pages and tables do not overlap.\<close>

lemma used_live:
  assumes "kinv k' fl' live'" "classes_ok k" "i < 21" "p \<in> used (cls k i)" "p \<in> live'"
  shows "p \<in> used (cls k' i)"
proof -
  have ok: "classes_ok k'" using assms(1) by (simp add: kinv_def)
  obtain j where j: "j < 21" "p \<in> used (cls k' j)" using assms(1,5) by (auto simp: kinv_def)
  have a: "arena_start (cls k' i) \<le> p" "p < arena_end (cls k' i)"
    using used_in_arena [OF assms(2,3,4)] static_boot [OF ok assms(3)] static_boot [OF assms(2,3)] by simp_all
  have "i = j"
  proof (rule ccontr)
    assume "i \<noteq> j"
    then consider "i < j" | "j < i" by linarith
    then show False
      using class_sorted [OF ok] used_in_arena [OF ok j] assms(3) j(1) a
      by cases (meson leD le_less_trans less_le_trans)+
  qed
  then show ?thesis using j by simp
qed

lemma page_not_tables:
  assumes "pt_inv vm l1 fl live" "p \<in> used (cls (vm_ka vm) 8)" "in_block p 4096 x"
  shows "\<not> in_tables (vm_mem vm) l1 x"
proof -
  note d = pt_invD [OF assms(1)]
  note tc = table_classes [OF d(2)]
  have ne: "p \<noteq> q" if "q \<in> used (cls (vm_ka vm) j)" "j < 21" "j \<noteq> 8" for q j
    using used_disjoint [OF d(2), of 8 j q] assms(2) that by auto
  have "\<not> in_block l1 16384 x"
    using blocks_apart [OF d(1) _ _ assms(2) d(4) ne [OF d(4)]] assms(3) tc by simp
  moreover have "\<not> in_block (tbl (vm_mem vm) l1 i) 1024 x" if "i < 4096" "coarse (vm_mem vm) l1 i" for i
    using blocks_apart [OF d(1) _ _ assms(2) d(7) [OF that] ne [OF d(7) [OF that]]] assms(3) tc by simp
  ultimately show ?thesis by (auto simp: in_tables_def)
qed

text \<open>What mapping \<open>n\<close> pages from \<open>va\<close> promises.\<close>

definition range_mapped :: "u32 \<Rightarrow> u32 \<Rightarrow> nat \<Rightarrow> vm_state \<Rightarrow> u32 set \<Rightarrow> vm_state \<Rightarrow> u32 set \<Rightarrow> bool" where
  "range_mapped l1 va n vm live vm' live' \<longleftrightarrow>
     (\<forall>k < n. \<exists>p. mapped_at (vm_mem vm') l1 (va + 0x1000 * of_nat k) p
        \<and> (if has_page (vm_mem vm) l1 (va + 0x1000 * of_nat k)
           then \<exists>ap. translate (vm_mem vm) l1 (va + 0x1000 * of_nat k) = Some (p OR ((va + 0x1000 * of_nat k) AND 0xFFF), ap)
           else p \<in> live' - live \<and> p \<in> used (cls (vm_ka vm') 8) \<and> (\<forall>x. in_block p 4096 x \<longrightarrow> vm_mem vm' x = 0)))
    \<and> (\<forall>va'. (\<forall>k < n. \<not> same_page (va + 0x1000 * of_nat k) va') \<longrightarrow>
        (\<forall>k < n. l1i va' \<noteq> l1i (va + 0x1000 * of_nat k)) \<or> coarse (vm_mem vm) l1 (l1i va') \<longrightarrow>
        translate (vm_mem vm') l1 va' = translate (vm_mem vm) l1 va')
    \<and> (\<forall>x. \<not> in_tables (vm_mem vm') l1 x \<longrightarrow> (\<forall>p \<in> live' - live. p \<in> used (cls (vm_ka vm') 8) \<longrightarrow> \<not> in_block p 4096 x)
        \<longrightarrow> vm_mem vm' x = vm_mem vm x)"

text \<open>Pages outside the range keep their entries, and two pages that were not there before get two frames.\<close>

definition range_fresh :: "u32 \<Rightarrow> u32 \<Rightarrow> nat \<Rightarrow> vm_state \<Rightarrow> vm_state \<Rightarrow> bool" where
  "range_fresh l1 va n vm vm' \<longleftrightarrow>
     (\<forall>va'. (\<forall>k < n. \<not> same_page (va + 0x1000 * of_nat k) va') \<longrightarrow> has_page (vm_mem vm') l1 va' = has_page (vm_mem vm) l1 va')
    \<and> (\<forall>j < n. \<forall>k < n. j \<noteq> k \<longrightarrow> \<not> has_page (vm_mem vm) l1 (va + 0x1000 * of_nat j) \<longrightarrow> \<not> has_page (vm_mem vm) l1 (va + 0x1000 * of_nat k) \<longrightarrow>
        translate (vm_mem vm') l1 (va + 0x1000 * of_nat j) \<noteq> translate (vm_mem vm') l1 (va + 0x1000 * of_nat k))"

lemma mapped_start: "mapped_at m l1 va p \<Longrightarrow> va AND 0xFFF = 0 \<Longrightarrow> translate m l1 va = Some (p, 3)"
  by (simp add: mapped_at_def)

lemma map_pages_law:
  assumes "pt_inv vm l1 fl live" "n \<le> avail (vm_ka vm) fl 6" "n \<le> avail (vm_ka vm) fl 8" "va AND 0xFFF = 0" "n \<le> 1048576"
  shows "\<exists>vm' fl' live'. map_pages n l1 va vm = Some vm' \<and> pt_inv vm' l1 fl' live' \<and> live \<subseteq> live'
    \<and> vm_active vm' = vm_active vm \<and> vm_kuser vm' = vm_kuser vm
    \<and> avail (vm_ka vm) fl 6 \<le> avail (vm_ka vm') fl' 6 + n \<and> avail (vm_ka vm) fl 8 \<le> avail (vm_ka vm') fl' 8 + n
    \<and> range_mapped l1 va n vm live vm' live' \<and> (\<forall>x. in_tables (vm_mem vm) l1 x \<longrightarrow> in_tables (vm_mem vm') l1 x)
    \<and> range_fresh l1 va n vm vm'"
  using assms
proof (induction n arbitrary: vm fl live va)
  case 0
  then show ?case by (intro exI [of _ vm] exI [of _ fl] exI [of _ live]) (simp add: range_mapped_def range_fresh_def)
next
  case (Suc n)
  note ps = page_steps [OF Suc.prems(4)]
  obtain vm1 fl1 live1 p where a: "map_page l1 va vm = Some vm1" "pt_inv vm1 l1 fl1 live1" "live \<subseteq> live1"
    "vm_active vm1 = vm_active vm" "vm_kuser vm1 = vm_kuser vm"
    "avail (vm_ka vm) fl 6 \<le> avail (vm_ka vm1) fl1 6 + 1" "avail (vm_ka vm) fl 8 \<le> avail (vm_ka vm1) fl1 8 + 1"
    and am: "mapped_at (vm_mem vm1) l1 va p"
    and ao: "\<And>va'. \<not> same_page va va' \<Longrightarrow> l1i va' \<noteq> l1i va \<or> coarse (vm_mem vm) l1 (l1i va) \<Longrightarrow>
      translate (vm_mem vm1) l1 va' = translate (vm_mem vm) l1 va' \<and> has_page (vm_mem vm1) l1 va' = has_page (vm_mem vm) l1 va'"
    and ac: "\<And>i. i < 4096 \<Longrightarrow> coarse (vm_mem vm1) l1 i \<longleftrightarrow> coarse (vm_mem vm) l1 i \<or> i = l1i va"
    and ah: "\<And>va'. \<not> same_page va va' \<Longrightarrow> has_page (vm_mem vm1) l1 va' = has_page (vm_mem vm) l1 va'"
    and an: "if has_page (vm_mem vm) l1 va then p \<notin> live1 - live \<and> (\<exists>ap. translate (vm_mem vm) l1 va = Some (p OR (va AND 0xFFF), ap))
     else p \<in> live1 - live \<and> p \<in> used (cls (vm_ka vm1) 8) \<and> (\<forall>x. in_block p 4096 x \<longrightarrow> vm_mem vm1 x = 0)"
    and ax: "\<And>x. \<not> in_tables (vm_mem vm1) l1 x \<Longrightarrow> \<not> (p \<in> live1 - live \<and> in_block p 4096 x) \<Longrightarrow> vm_mem vm1 x = vm_mem vm x"
    and at: "\<And>x. in_tables (vm_mem vm) l1 x \<Longrightarrow> in_tables (vm_mem vm1) l1 x"
    by (rule map_page_law [OF Suc.prems(1), of va]) (use Suc.prems(2,3) in \<open>linarith, linarith, blast\<close>)
  have va1: "(va + 0x1000) AND 0xFFF = 0" using ps(1) [of 1] by simp
  obtain vm' fl' live' where b: "map_pages n l1 (va + 0x1000) vm1 = Some vm'" "pt_inv vm' l1 fl' live'" "live1 \<subseteq> live'"
    "vm_active vm' = vm_active vm1" "vm_kuser vm' = vm_kuser vm1"
    "avail (vm_ka vm1) fl1 6 \<le> avail (vm_ka vm') fl' 6 + n" "avail (vm_ka vm1) fl1 8 \<le> avail (vm_ka vm') fl' 8 + n"
    "range_mapped l1 (va + 0x1000) n vm1 live1 vm' live'" "\<forall>x. in_tables (vm_mem vm1) l1 x \<longrightarrow> in_tables (vm_mem vm') l1 x"
    "range_fresh l1 (va + 0x1000) n vm1 vm'"
    using Suc.IH [OF a(2) _ _ va1] a(6,7) Suc.prems(2,3,5) by fastforce
  have sh: "va + 0x1000 + 0x1000 * of_nat k = va + 0x1000 * of_nat (Suc k)" for k by (simp add: algebra_simps)
  note r = b(8) [unfolded range_mapped_def sh]
  have rf: "(\<forall>k < n. \<not> same_page (va + 0x1000 * of_nat (Suc k)) va') \<Longrightarrow> has_page (vm_mem vm') l1 va' = has_page (vm_mem vm1) l1 va'"
    "i < n \<Longrightarrow> j < n \<Longrightarrow> i \<noteq> j \<Longrightarrow> \<not> has_page (vm_mem vm1) l1 (va + 0x1000 * of_nat (Suc i)) \<Longrightarrow> \<not> has_page (vm_mem vm1) l1 (va + 0x1000 * of_nat (Suc j))
      \<Longrightarrow> translate (vm_mem vm') l1 (va + 0x1000 * of_nat (Suc i)) \<noteq> translate (vm_mem vm') l1 (va + 0x1000 * of_nat (Suc j))" for va' i j
    using b(10) [unfolded range_fresh_def sh] by blast+
  have k: "classes_ok (vm_ka vm1)" "kinv (vm_ka vm') fl' live'" using pt_invD(2) [OF a(2)] pt_invD(1) [OF b(2)] by simp_all
  let ?va = "\<lambda>k. va + 0x1000 * of_nat k :: u32"
  have ns: "\<not> same_page va (?va (Suc k))" if "k < n" for k using ps(2) [of "Suc k"] that Suc.prems(5) by auto
  have r1: "\<exists>p. mapped_at (vm_mem vm') l1 (?va (Suc k)) p
      \<and> (if has_page (vm_mem vm1) l1 (?va (Suc k)) then \<exists>ap. translate (vm_mem vm1) l1 (?va (Suc k)) = Some (p OR (?va (Suc k) AND 0xFFF), ap)
         else p \<in> live' - live1 \<and> p \<in> used (cls (vm_ka vm') 8) \<and> (\<forall>x. in_block p 4096 x \<longrightarrow> vm_mem vm' x = 0))" if "k < n" for k
    using r that by blast
  have r2: "translate (vm_mem vm') l1 va' = translate (vm_mem vm1) l1 va'"
    if "\<forall>k < n. \<not> same_page (?va (Suc k)) va'" "(\<forall>k < n. l1i va' \<noteq> l1i (?va (Suc k))) \<or> coarse (vm_mem vm1) l1 (l1i va')" for va'
    using r that by blast
  have r3: "vm_mem vm' x = vm_mem vm1 x"
    if "\<not> in_tables (vm_mem vm') l1 x" "\<forall>p \<in> live' - live1. p \<in> used (cls (vm_ka vm') 8) \<longrightarrow> \<not> in_block p 4096 x" for x
    using r that by blast
  have u8: "p \<in> used (cls (vm_ka vm') 8)" if "p \<in> live1 - live" "p \<in> used (cls (vm_ka vm1) 8)"
    using used_live [OF k(2,1) _ that(2)] that(1) b(3) by auto
  have first: "mapped_at (vm_mem vm') l1 va p"
    unfolding mapped_at_def
  proof (intro allI impI)
    fix va' assume v: "l1i va' = l1i va" "l2i va' = l2i va"
    have "\<not> same_page (?va (Suc k)) va'" if "k < n" for k
      using ns [OF that] v unfolding same_page_def by metis
    moreover have "coarse (vm_mem vm1) l1 (l1i va')" using ac [OF index_bounds(1)] v(1) by blast
    ultimately have "translate (vm_mem vm') l1 va' = translate (vm_mem vm1) l1 va'" using r2 by blast
    then show "translate (vm_mem vm') l1 va' = Some (p OR (va' AND 0xFFF), 3)" using am v unfolding mapped_at_def by simp
  qed
  have first_new: "\<forall>x. in_block p 4096 x \<longrightarrow> vm_mem vm' x = 0" "p \<in> live' - live \<and> p \<in> used (cls (vm_ka vm') 8)"
    if h: "\<not> has_page (vm_mem vm) l1 va"
  proof -
    have p: "p \<in> live1 - live" "p \<in> used (cls (vm_ka vm1) 8)" "\<forall>x. in_block p 4096 x \<longrightarrow> vm_mem vm1 x = 0" using an h by auto
    note pu = u8 [OF p(1,2)]
    have "vm_mem vm' x = vm_mem vm1 x" if x: "in_block p 4096 x" for x
    proof (rule r3)
      show "\<not> in_tables (vm_mem vm') l1 x" by (rule page_not_tables [OF b(2) pu x])
      show "\<forall>q \<in> live' - live1. q \<in> used (cls (vm_ka vm') 8) \<longrightarrow> \<not> in_block q 4096 x"
        using blocks_apart [OF k(2) _ _ pu, of 8] x p(1) table_classes(5) [OF pt_invD(2) [OF b(2)]] by auto
    qed
    then show "\<forall>x. in_block p 4096 x \<longrightarrow> vm_mem vm' x = 0" using p(3) by simp
    show "p \<in> live' - live \<and> p \<in> used (cls (vm_ka vm') 8)" using p(1) b(3) pu by blast
  qed
  have later: "has_page (vm_mem vm1) l1 (?va (Suc k)) = has_page (vm_mem vm) l1 (?va (Suc k))"
    "has_page (vm_mem vm) l1 (?va (Suc k)) \<Longrightarrow> translate (vm_mem vm1) l1 (?va (Suc k)) = translate (vm_mem vm) l1 (?va (Suc k))" if "k < n" for k
  proof -
    show "has_page (vm_mem vm1) l1 (?va (Suc k)) = has_page (vm_mem vm) l1 (?va (Suc k))" by (rule ah [OF ns [OF that]])
    assume h: "has_page (vm_mem vm) l1 (?va (Suc k))"
    have "l1i (?va (Suc k)) \<noteq> l1i va \<or> coarse (vm_mem vm) l1 (l1i va)"
      using h by (cases "l1i (?va (Suc k)) = l1i va") (auto simp: has_page_def)
    then show "translate (vm_mem vm1) l1 (?va (Suc k)) = translate (vm_mem vm) l1 (?va (Suc k))" using ao [OF ns [OF that]] by blast
  qed
  have "range_mapped l1 va (Suc n) vm live vm' live'"
    unfolding range_mapped_def
  proof (intro conjI allI impI)
    fix j assume j: "j < Suc n"
    show "\<exists>p. mapped_at (vm_mem vm') l1 (?va j) p
        \<and> (if has_page (vm_mem vm) l1 (?va j) then \<exists>ap. translate (vm_mem vm) l1 (?va j) = Some (p OR (?va j AND 0xFFF), ap)
           else p \<in> live' - live \<and> p \<in> used (cls (vm_ka vm') 8) \<and> (\<forall>x. in_block p 4096 x \<longrightarrow> vm_mem vm' x = 0))"
    proof (cases j)
      case 0
      then have e: "?va j = va" by simp
      show ?thesis unfolding e
      proof (intro exI conjI)
        show "mapped_at (vm_mem vm') l1 va p" by (rule first)
        show "if has_page (vm_mem vm) l1 va then \<exists>ap. translate (vm_mem vm) l1 va = Some (p OR (va AND 0xFFF), ap)
          else p \<in> live' - live \<and> p \<in> used (cls (vm_ka vm') 8) \<and> (\<forall>x. in_block p 4096 x \<longrightarrow> vm_mem vm' x = 0)"
          using an first_new by (cases "has_page (vm_mem vm) l1 va") auto
      qed
    next
      case (Suc k)
      then have kn: "k < n" using j by simp
      obtain q where q: "mapped_at (vm_mem vm') l1 (?va (Suc k)) q"
        "if has_page (vm_mem vm1) l1 (?va (Suc k)) then \<exists>ap. translate (vm_mem vm1) l1 (?va (Suc k)) = Some (q OR (?va (Suc k) AND 0xFFF), ap)
         else q \<in> live' - live1 \<and> q \<in> used (cls (vm_ka vm') 8) \<and> (\<forall>x. in_block q 4096 x \<longrightarrow> vm_mem vm' x = 0)"
        using r1 [OF kn] by blast
      show ?thesis unfolding Suc
      proof (intro exI conjI)
        show "mapped_at (vm_mem vm') l1 (?va (Suc k)) q" by (rule q(1))
        show "if has_page (vm_mem vm) l1 (?va (Suc k)) then \<exists>ap. translate (vm_mem vm) l1 (?va (Suc k)) = Some (q OR (?va (Suc k) AND 0xFFF), ap)
          else q \<in> live' - live \<and> q \<in> used (cls (vm_ka vm') 8) \<and> (\<forall>x. in_block q 4096 x \<longrightarrow> vm_mem vm' x = 0)"
        proof (cases "has_page (vm_mem vm) l1 (?va (Suc k))")
          case True
          then show ?thesis using q(2) later [OF kn] by simp
        next
          case False
          then have "q \<in> live' - live1 \<and> q \<in> used (cls (vm_ka vm') 8) \<and> (\<forall>x. in_block q 4096 x \<longrightarrow> vm_mem vm' x = 0)"
            using q(2) later(1) [OF kn] by simp
          then show ?thesis using False a(3) by auto
        qed
      qed
    qed
  next
    fix va' assume v: "\<forall>k < Suc n. \<not> same_page (?va k) va'"
      "(\<forall>k < Suc n. l1i va' \<noteq> l1i (?va k)) \<or> coarse (vm_mem vm) l1 (l1i va')"
    have v0: "\<not> same_page va va'" "l1i va' \<noteq> l1i va \<or> coarse (vm_mem vm) l1 (l1i va)"
      using v(1) [rule_format, of 0] v(2) by (auto dest: spec [of _ 0])
    have "(\<forall>k < n. l1i va' \<noteq> l1i (?va (Suc k))) \<or> coarse (vm_mem vm1) l1 (l1i va')"
      using v(2) ac [OF index_bounds(1)] by auto
    moreover have "\<forall>k < n. \<not> same_page (?va (Suc k)) va'" using v(1) by (metis Suc_mono)
    ultimately have "translate (vm_mem vm') l1 va' = translate (vm_mem vm1) l1 va'" using r2 by blast
    then show "translate (vm_mem vm') l1 va' = translate (vm_mem vm) l1 va'" using ao [OF v0] by simp
  next
    fix x assume x: "\<not> in_tables (vm_mem vm') l1 x"
      "\<forall>p \<in> live' - live. p \<in> used (cls (vm_ka vm') 8) \<longrightarrow> \<not> in_block p 4096 x"
    have "\<forall>p \<in> live' - live1. p \<in> used (cls (vm_ka vm') 8) \<longrightarrow> \<not> in_block p 4096 x" using x(2) a(3) by blast
    then have 1: "vm_mem vm' x = vm_mem vm1 x" using r3 x(1) by blast
    have "\<not> (p \<in> live1 - live \<and> in_block p 4096 x)"
    proof
      assume p: "p \<in> live1 - live \<and> in_block p 4096 x"
      then have "\<not> has_page (vm_mem vm) l1 va" using an by auto
      then show False using first_new(2) x(2) p by blast
    qed
    then show "vm_mem vm' x = vm_mem vm x" using 1 ax [of x] x(1) b(9) by auto
  qed
  moreover have "range_fresh l1 va (Suc n) vm vm'"
    unfolding range_fresh_def
  proof (intro conjI allI impI)
    fix va' assume v: "\<forall>k < Suc n. \<not> same_page (?va k) va'"
    have "has_page (vm_mem vm') l1 va' = has_page (vm_mem vm1) l1 va'" using rf(1) v by (metis Suc_mono)
    then show "has_page (vm_mem vm') l1 va' = has_page (vm_mem vm) l1 va'" using ah v [rule_format, of 0] by simp
  next
    fix i j assume h: "i < Suc n" "j < Suc n" "i \<noteq> j" "\<not> has_page (vm_mem vm) l1 (?va i)" "\<not> has_page (vm_mem vm) l1 (?va j)"
    have new0: "translate (vm_mem vm') l1 (?va 0) \<noteq> translate (vm_mem vm') l1 (?va (Suc k))"
      if k: "k < n" "\<not> has_page (vm_mem vm) l1 (?va 0)" "\<not> has_page (vm_mem vm) l1 (?va (Suc k))" for k
    proof -
      obtain q where q: "mapped_at (vm_mem vm') l1 (?va (Suc k)) q" "q \<in> live' - live1"
        using r1 [OF k(1)] later(1) [OF k(1)] k(3) by auto
      have "p \<in> live1" using an k(2) by simp
      then show ?thesis using mapped_start [OF first Suc.prems(4)] mapped_start [OF q(1) ps(1)] k(1) Suc.prems(5) q(2) by auto
    qed
    show "translate (vm_mem vm') l1 (?va i) \<noteq> translate (vm_mem vm') l1 (?va j)"
    proof (cases i)
      case 0
      then obtain k where "j = Suc k" using h(3) by (cases j) auto
      then show ?thesis using new0 h 0 by simp
    next
      case i: (Suc k)
      show ?thesis
      proof (cases j)
        case 0
        then show ?thesis using new0 [of k] h i by simp
      next
        case j: (Suc l)
        then show ?thesis using rf(2) [of k l] h i later(1) [of k] later(1) [of l] by simp
      qed
    qed
  qed
  ultimately show ?case using a b at by (intro exI [of _ vm'] exI [of _ fl'] exI [of _ live']) auto
qed

section \<open>User space\<close>

definition page_count :: "u32 \<Rightarrow> u32 \<Rightarrow> nat" where
  "page_count start sz = (unat start mod 4096 + unat sz + 4095) div 4096"

lemma unat_and_mask: "unat (w AND mask k :: u32) = unat w mod 2 ^ k"
proof -
  have "unat (take_bit k w) = take_bit k (unat w)" by (simp add: unsigned_take_bit_eq)
  then show ?thesis by (simp add: take_bit_eq_mod flip: take_bit_eq_mask)
qed

lemma unat_align_down: "unat (w AND NOT (mask k) :: u32) = unat w - unat w mod 2 ^ k"
proof -
  have "w = (w AND mask k) + (w AND NOT (mask k))"
    by (subst disjunctive_add) (auto simp: bit_simps bit_eq_iff)
  then have "w AND NOT (mask k) = w - (w AND mask k)" by (metis add_diff_cancel_left')
  moreover have "w AND mask k \<le> w" by (rule word_and_le2)
  ultimately show ?thesis by (simp add: unat_sub_le unat_and_mask)
qed

lemma page_floor: "unat (w AND NOT 0xFFF :: u32) = unat w - unat w mod 4096"
  using unat_align_down [of w 12] by (simp only: masks) simp

lemma unat_low12: "unat (w AND 0xFFF :: u32) = unat w mod 4096"
  using unat_and_mask [of w 12] by (simp only: masks) simp

lemma unat_page_no: "unat (drop_bit 12 w :: u32) = unat w div 4096"
  by (simp add: drop_bit_eq_div unat_div)

lemma make_sure_pages:
  assumes "unat start + unat sz + 4095 < 4294967296"
  shows "make_sure_user_space l1 start sz vm = map_pages (page_count start sz) l1 (start AND NOT 0xFFF) vm"
    "page_count start sz \<le> 1048576"
proof -
  let ?a = "start AND NOT 0xFFF" and ?b = "(start + sz + 0xFFF) AND NOT 0xFFF"
  have s: "unat (start + sz + 0xFFF) = unat start + unat sz + 4095"
    using assms by (subst unat_add_no_wrap; simp add: unat_add_no_wrap)
  have a: "unat ?a = unat start - unat start mod 4096" by (rule page_floor)
  have b: "unat ?b = unat start + unat sz + 4095 - (unat start + unat sz + 4095) mod 4096"
    using page_floor [of "start + sz + 0xFFF"] by (simp add: s)
  define q where "q = unat start div 4096"
  define e where "e = (unat start + unat sz + 4095) div 4096"
  have sa: "unat start = 4096 * q + unat start mod 4096" by (simp add: q_def)
  have "unat start + unat sz + 4095 = 4096 * q + (unat start mod 4096 + unat sz + 4095)" using sa by linarith
  then have eq: "e = q + page_count start sz" by (simp add: e_def page_count_def)
  have aq: "unat ?a = 4096 * q" using a sa by linarith
  have be: "unat ?b = 4096 * e" using b by (simp add: e_def minus_mod_eq_mult_div)
  have lt: "?a < ?b \<longleftrightarrow> 0 < page_count start sz" using aq be eq by (simp add: word_less_nat_alt)
  have "unat (drop_bit 12 (?b - ?a)) = page_count start sz" if "?a < ?b"
  proof -
    have "unat (?b - ?a) = 4096 * page_count start sz" using that aq be eq by (subst unat_sub_le) simp_all
    then show ?thesis unfolding unat_page_no by simp
  qed
  then show "make_sure_user_space l1 start sz vm = map_pages (page_count start sz) l1 ?a vm"
    using lt by (cases "?a < ?b") (simp_all add: make_sure_user_space_def Let_def)
  have "e \<le> 1048576" using assms by (simp add: e_def)
  then show "page_count start sz \<le> 1048576" using eq by simp
qed

text \<open>The page that holds an address of the range.\<close>

lemma same_page_number:
  assumes "unat (va :: u32) div 4096 = unat va' div 4096"
  shows "same_page va va'"
proof -
  have "drop_bit 12 va = drop_bit 12 va'"
    using assms unfolding u32_eq_nat_iff unat_page_no .
  moreover have "drop_bit 20 w = drop_bit 8 (drop_bit 12 w)" for w :: u32 by simp
  ultimately show ?thesis unfolding same_page_def by metis
qed

lemma page_of_address:
  assumes "unat start + unat sz + 4095 < 4294967296" "start \<le> va" "unat va < unat start + unat sz"
  obtains k where "k < page_count start sz" "same_page ((start AND NOT 0xFFF) + 0x1000 * of_nat k) va"
proof -
  define q where "q = unat start div 4096"
  define k where "k = unat va div 4096 - q"
  have sa: "unat start = 4096 * q + unat start mod 4096" by (simp add: q_def)
  have le: "q \<le> unat va div 4096" unfolding q_def using assms(2) by (intro div_le_mono) (simp add: word_le_nat_alt)
  have "unat va \<le> 4096 * q + (unat start mod 4096 + unat sz + 4095) - 4096" using assms(3) sa by linarith
  moreover have "4096 \<le> unat start mod 4096 + unat sz + 4095" using assms(2,3) by (simp add: word_le_nat_alt)
  ultimately have "unat va div 4096 < q + page_count start sz"
    unfolding page_count_def by (simp add: div_less_iff_less_mult)
  then have kl: "k < page_count start sz" using le by (simp add: k_def)
  have aq: "unat (start AND NOT 0xFFF) = 4096 * q" using page_floor [of start] sa by linarith
  have "4096 * k \<le> unat va" unfolding k_def using le by (simp add: right_diff_distrib')
  then have kb: "4096 * k < 4294967296" using unat_less_2p32 [of va] by linarith
  have "4096 * (q + k) \<le> unat va" using le by (simp add: k_def)
  then have qk: "4096 * q + 4096 * k < 4294967296" using unat_less_2p32 [of va] unfolding distrib_left by linarith
  have "unat ((start AND NOT 0xFFF) + of_nat (4096 * k)) = 4096 * q + 4096 * k"
    using qk aq kb by (subst unat_add_no_wrap) (simp_all add: unat_of_nat_u32 del: of_nat_mult)
  then have "unat ((start AND NOT 0xFFF) + 0x1000 * of_nat k) = 4096 * (q + k)" by (simp add: add_mult_distrib2)
  then have "unat ((start AND NOT 0xFFF) + 0x1000 * of_nat k) div 4096 = unat va div 4096" using le by (simp add: k_def)
  then show thesis using that [OF kl same_page_number] by blast
qed

lemma frame_address:
  assumes "unat p + 4096 \<le> 4294967296" "p AND 0xFFFFF000 = (p :: u32)"
  shows "in_block p 4096 (p OR (va AND 0xFFF))"
proof -
  have "p OR (va AND 0xFFF) = p + (va AND 0xFFF)"
  proof -
    have "p AND (va AND 0xFFF) = (p AND 0xFFFFF000) AND (va AND 0xFFF)" using assms(2) by simp
    also have "\<dots> = 0" unfolding masks by (rule bit_word_eqI) (auto simp: bit_simps)
    finally show ?thesis by (metis word_plus_and_or add_0)
  qed
  moreover have "unat (va AND 0xFFF) \<le> 0xFFF" using word_and_le1 [of va "0xFFF"] by (simp add: word_le_nat_alt)
  ultimately show ?thesis using assms(1) by (simp add: in_block_def unat_add_no_wrap)
qed

text \<open>The frame of a page the user has: it overlaps no table.\<close>

lemma has_page_frame:
  assumes "pt_inv vm l1 fl live" "has_page (vm_mem vm) l1 va"
  obtains P ap where "\<And>va'. same_page va va' \<Longrightarrow> translate (vm_mem vm) l1 va' = Some (P OR (va' AND 0xFFF), ap)"
    "P AND 0xFFFFF000 = P" "unat P + 4096 \<le> 4294967296" "0xFFF00000 \<le> P \<or> P \<in> live \<and> P \<in> used (cls (vm_ka vm) 8)"
proof -
  let ?e = "pte (vm_mem vm) l1 (l1i va) (l2i va)"
  have c: "coarse (vm_mem vm) l1 (l1i va)" using assms(2) by (simp add: has_page_def)
  have "page_ok (vm_ka vm) live ?e" by (rule pt_invD(9) [OF assms(1) index_bounds c])
  then have e: "?e AND 2 \<noteq> 0" "0xFFF00000 \<le> ?e AND 0xFFFFF000 \<or> ?e AND 0xFFFFF000 \<in> live \<and> ?e AND 0xFFFFF000 \<in> used (cls (vm_ka vm) 8)"
    using assms(2) by (auto simp: page_ok_def has_page_def)
  have "?e AND 0xFFFFF000 \<le> 0xFFFFF000" by (rule word_and_le1)
  then have "unat (?e AND 0xFFFFF000) + 4096 \<le> 4294967296" by (simp add: word_le_nat_alt)
  moreover have "translate (vm_mem vm) l1 va' = Some ((?e AND 0xFFFFF000) OR (va' AND 0xFFF), drop_bit 4 ?e AND 3)" if "same_page va va'" for va'
    using translate_coarse [of "vm_mem vm" l1 va'] c e(1) that by (simp add: same_page_def)
  ultimately show thesis using that e(2) by (simp add: and.assoc)
qed

lemma tables_low:
  assumes "pt_inv vm l1 fl live" "in_tables (vm_mem vm) l1 x"
  shows "unat x < 0xCCBD0000"
proof -
  note d = pt_invD [OF assms(1)]
  have "unat l1 + 16384 \<le> 0xCCBD0000" using block_bounds(2) [OF d(1) _ d(4)] table_classes(6) [OF d(2)] by simp
  moreover have "unat (tbl (vm_mem vm) l1 i) + 1024 \<le> 0xCCBD0000" if "i < 4096" "coarse (vm_mem vm) l1 i" for i
    using block_bounds(2) [OF d(1) _ d(7) [OF that]] table_classes(4) [OF d(2)] by simp
  ultimately show ?thesis using assms(2) unfolding in_tables_def in_block_def by fastforce
qed

lemma make_sure_full_law:
  assumes "pt_inv vm l1 fl live" "unat start + unat sz + 4095 < 4294967296"
    "page_count start sz \<le> avail (vm_ka vm) fl 6" "page_count start sz \<le> avail (vm_ka vm) fl 8"
  obtains vm' fl' live' where "make_sure_user_space l1 start sz vm = Some vm'" "pt_inv vm' l1 fl' live'" "live \<subseteq> live'"
    "vm_active vm' = vm_active vm" "vm_kuser vm' = vm_kuser vm"
    "avail (vm_ka vm) fl 6 \<le> avail (vm_ka vm') fl' 6 + page_count start sz" "avail (vm_ka vm) fl 8 \<le> avail (vm_ka vm') fl' 8 + page_count start sz"
    "range_mapped l1 (start AND NOT 0xFFF) (page_count start sz) vm live vm' live'" "range_fresh l1 (start AND NOT 0xFFF) (page_count start sz) vm vm'"
proof -
  have "(start AND NOT 0xFFF) AND 0xFFF = 0" by (simp add: and.assoc)
  from map_pages_law [OF assms(1,3,4) this make_sure_pages(2) [OF assms(2)]] show thesis
    using that make_sure_pages(1) [OF assms(2), of l1 vm] by metis
qed

lemma make_sure_law:
  assumes "pt_inv vm l1 fl live" "unat start + unat sz + 4095 < 4294967296"
    "page_count start sz \<le> avail (vm_ka vm) fl 6" "page_count start sz \<le> avail (vm_ka vm) fl 8"
  obtains vm' fl' live' where "make_sure_user_space l1 start sz vm = Some vm'" "pt_inv vm' l1 fl' live'" "live \<subseteq> live'"
    "vm_active vm' = vm_active vm" "vm_kuser vm' = vm_kuser vm"
    "avail (vm_ka vm) fl 6 \<le> avail (vm_ka vm') fl' 6 + page_count start sz" "avail (vm_ka vm) fl 8 \<le> avail (vm_ka vm') fl' 8 + page_count start sz"
    "range_mapped l1 (start AND NOT 0xFFF) (page_count start sz) vm live vm' live'"
  using make_sure_full_law [OF assms] by metis

text \<open>A frame the user had overlaps no table and no new page afterwards.\<close>

lemma old_frame_apart:
  assumes "pt_inv vm l1 fl live" "pt_inv vm' l1 fl' live'" "live \<subseteq> live'"
    "0xFFF00000 \<le> P \<or> P \<in> live \<and> P \<in> used (cls (vm_ka vm) 8)" "in_block P 4096 x"
  shows "\<not> in_tables (vm_mem vm') l1 x" "q \<in> live' - live \<Longrightarrow> q \<in> used (cls (vm_ka vm') 8) \<Longrightarrow> \<not> in_block q 4096 x"
proof -
  note d' = pt_invD [OF assms(2)]
  have bs: "block_size (cls (vm_ka vm') 8) = 4096" using table_classes(5) [OF d'(2)] .
  show "\<not> in_tables (vm_mem vm') l1 x"
    using assms(4)
  proof
    assume "0xFFF00000 \<le> P"
    then have "0xFFF00000 \<le> unat x" using assms(5) by (simp add: word_le_nat_alt in_block_def)
    then show ?thesis using tables_low [OF assms(2), of x] by fastforce
  next
    assume l: "P \<in> live \<and> P \<in> used (cls (vm_ka vm) 8)"
    then have "P \<in> used (cls (vm_ka vm') 8)" using used_live [OF d'(1) pt_invD(2) [OF assms(1)], of 8 P] assms(3) by auto
    then show ?thesis by (rule page_not_tables [OF assms(2) _ assms(5)])
  qed
  assume q: "q \<in> live' - live" "q \<in> used (cls (vm_ka vm') 8)"
  show "\<not> in_block q 4096 x"
    using assms(4)
  proof
    assume "0xFFF00000 \<le> P"
    then have "0xFFF00000 \<le> unat x" using assms(5) by (simp add: word_le_nat_alt in_block_def)
    moreover have "unat q + 4096 \<le> 0xCCBD0000" using block_bounds(2) [OF d'(1) _ q(2)] bs by simp
    ultimately show ?thesis by (simp add: in_block_def)
  next
    assume l: "P \<in> live \<and> P \<in> used (cls (vm_ka vm) 8)"
    then have "P \<in> used (cls (vm_ka vm') 8)" using used_live [OF d'(1) pt_invD(2) [OF assms(1)], of 8 P] assms(3) by auto
    then show ?thesis using blocks_apart [OF d'(1) _ _ _ q(2), of 8 P x] assms(5) q(1) l bs by auto
  qed
qed

text \<open>What the user sees at an address of the range afterwards: what was there when the page was there, else
  zeros.\<close>

lemma range_mapped_byte:
  assumes "pt_inv vm l1 fl live" "pt_inv vm' l1 fl' live'" "live \<subseteq> live'" "range_mapped l1 a n vm live vm' live'"
    "k < n" "same_page (a + 0x1000 * of_nat k) va" "(a + 0x1000 * of_nat k) AND 0xFFF = 0"
  shows "\<exists>pa. translate (vm_mem vm') l1 va = Some (pa, 3) \<and> \<not> in_tables (vm_mem vm') l1 pa
    \<and> (if has_page (vm_mem vm) l1 va then (\<exists>ap. translate (vm_mem vm) l1 va = Some (pa, ap)) \<and> vm_mem vm' pa = vm_mem vm pa
       else vm_mem vm' pa = 0)"
proof -
  let ?a = "a + 0x1000 * of_nat k"
  have hp: "has_page (vm_mem vm) l1 va = has_page (vm_mem vm) l1 ?a" using assms(6) by (simp add: has_page_def same_page_def)
  obtain p where p: "mapped_at (vm_mem vm') l1 ?a p"
    "if has_page (vm_mem vm) l1 ?a then \<exists>ap. translate (vm_mem vm) l1 ?a = Some (p OR (?a AND 0xFFF), ap)
     else p \<in> live' - live \<and> p \<in> used (cls (vm_ka vm') 8) \<and> (\<forall>x. in_block p 4096 x \<longrightarrow> vm_mem vm' x = 0)"
    using assms(4,5) unfolding range_mapped_def by blast
  have t: "translate (vm_mem vm') l1 va = Some (p OR (va AND 0xFFF), 3)"
    using p(1) assms(6) by (simp add: mapped_at_def same_page_def)
  note d' = pt_invD [OF assms(2)]
  have bs: "block_size (cls (vm_ka vm') 8) = 4096" using table_classes(5) [OF d'(2)] .
  let ?x = "p OR (va AND 0xFFF)"
  show ?thesis
  proof (cases "has_page (vm_mem vm) l1 va")
    case False
    then have q: "p \<in> used (cls (vm_ka vm') 8)" "\<forall>x. in_block p 4096 x \<longrightarrow> vm_mem vm' x = 0" using p(2) hp by simp_all
    have "unat p + 4096 \<le> 4294967296" using block_bounds(2) [OF d'(1) _ q(1)] bs by simp
    then have ib: "in_block p 4096 ?x" using frame_address block_aligned(2) [OF d'(1) q(1)] by blast
    then show ?thesis using t False q page_not_tables [OF assms(2) q(1) ib] by auto
  next
    case True
    then have hpa: "has_page (vm_mem vm) l1 ?a" using hp by simp
    obtain P ap where P: "\<And>va'. same_page ?a va' \<Longrightarrow> translate (vm_mem vm) l1 va' = Some (P OR (va' AND 0xFFF), ap)"
      "P AND 0xFFFFF000 = P" "unat P + 4096 \<le> 4294967296" "0xFFF00000 \<le> P \<or> P \<in> live \<and> P \<in> used (cls (vm_ka vm) 8)"
      by (rule has_page_frame [OF assms(1) hpa]) blast
    have "translate (vm_mem vm) l1 ?a = Some (P OR (?a AND 0xFFF), ap)" by (rule P(1)) (simp add: same_page_def)
    then have pP: "p = P" using p(2) hpa assms(7) by auto
    have ib: "in_block P 4096 ?x" unfolding pP using frame_address [OF P(3,2)] .
    have nt: "\<not> in_tables (vm_mem vm') l1 ?x" "\<forall>q \<in> live' - live. q \<in> used (cls (vm_ka vm') 8) \<longrightarrow> \<not> in_block q 4096 ?x"
      using old_frame_apart [OF assms(1,2,3) P(4) ib] by blast+
    have "vm_mem vm' ?x = vm_mem vm ?x" using assms(4) nt unfolding range_mapped_def by blast
    moreover have "\<exists>ap. translate (vm_mem vm) l1 va = Some (?x, ap)" using P(1) [OF assms(6)] pP by simp
    ultimately show ?thesis using t True nt(1) by auto
  qed
qed

section \<open>Reading and writing one user page\<close>

text \<open>The bytes of a frame as a list; an address of the page is the page's first address and an offset.\<close>

definition page_list :: "memory \<Rightarrow> u32 \<Rightarrow> u8 list" where
  "page_list m p = map (\<lambda>k. m (p + of_nat k)) [0..<4096]"

definition user_page :: "vm_state \<Rightarrow> u32 \<Rightarrow> (nat \<Rightarrow> u32 list) \<Rightarrow> u32 set \<Rightarrow> u32 \<Rightarrow> u32 \<Rightarrow> bool" where
  "user_page vm l1 fl live base p \<longleftrightarrow> pt_inv vm l1 fl live \<and> vm_active vm = l1 \<and> base AND 0xFFF = 0
     \<and> mapped_at (vm_mem vm) l1 base p \<and> p \<in> used (cls (vm_ka vm) 8)"

lemma length_page_list [simp]: "length (page_list m p) = 4096"
  by (simp add: page_list_def)

lemma aligned_unat: "base AND 0xFFF = (0 :: u32) \<Longrightarrow> unat base = 4096 * (unat base div 4096)"
  using unat_low12 [of base] mult_div_mod_eq [of 4096 "unat base"] by simp

lemma page_offset:
  assumes "base AND 0xFFF = (0 :: u32)" "off < 4096"
  shows "same_page base (base + of_nat off)" "(base + of_nat off) AND 0xFFF = of_nat off" "unat (base + of_nat off) = unat base + off"
proof -
  define q where "q = unat base div 4096"
  have q: "unat base = 4096 * q" using aligned_unat [OF assms(1)] by (simp add: q_def)
  have "4096 * q < 4294967296" using unat_less_2p32 [of base] q by simp
  then have "q < 1048576" by simp
  then have "unat base + off < 4294967296" using q assms(2) by simp
  then show u: "unat (base + of_nat off) = unat base + off" by (rule unat_plus_small)
  show "same_page base (base + of_nat off)" using u q assms(2) by (intro same_page_number) simp
  have "unat ((base + of_nat off) AND 0xFFF) = off" using u q assms(2) by (simp add: unat_low12)
  then show "(base + of_nat off) AND 0xFFF = of_nat off" using assms(2) by (simp only: u32_eq_nat_iff unat_of_nat_u32)
qed

lemma frame_offset:
  assumes "kinv k fl live" "p \<in> used (cls k 8)" "off < 4096"
  shows "p OR of_nat off = p + of_nat off" "unat (p + of_nat off) = unat p + off" "in_block p 4096 (p + of_nat off)"
proof -
  have ok: "classes_ok k" using assms(1) by (simp add: kinv_def)
  have al: "p AND 0xFFFFF000 = p" by (rule block_aligned(2) [OF assms(1,2)])
  have b: "unat p + 4096 \<le> 0xCCBD0000" using block_bounds(2) [OF assms(1) _ assms(2)] table_classes(5) [OF ok] by simp
  then show u: "unat (p + of_nat off) = unat p + off" using assms(3) by (intro unat_plus_small) simp
  then show "in_block p 4096 (p + of_nat off)" using assms(3) by (simp add: in_block_def)
  have z: "(of_nat off :: u32) AND 0xFFF = of_nat off"
    using unat_low12 [of "of_nat off"] assms(3) by (simp add: u32_eq_nat_iff unat_of_nat_u32)
  have "p AND of_nat off = (p AND 0xFFFFF000) AND (of_nat off AND 0xFFF)" using al z by simp
  also have "\<dots> = 0" unfolding masks by (rule bit_word_eqI) (auto simp: bit_simps)
  finally show "p OR of_nat off = p + of_nat off" by (metis word_plus_and_or add_0)
qed

lemma user_page_translate:
  assumes "user_page vm l1 fl live base p" "off < 4096"
  shows "translate (vm_mem vm) l1 (base + of_nat off) = Some (p + of_nat off, 3)"
proof -
  have u: "base AND 0xFFF = 0" "mapped_at (vm_mem vm) l1 base p" "p \<in> used (cls (vm_ka vm) 8)" "pt_inv vm l1 fl live"
    using assms(1) by (simp_all add: user_page_def)
  note o = page_offset [OF u(1) assms(2)]
  show ?thesis using u(2) o(1,2) frame_offset(1) [OF pt_invD(1) [OF u(4)] u(3) assms(2)]
    unfolding mapped_at_def same_page_def by metis
qed

lemma translate_frame:
  assumes "pt_inv vm l1 fl live" "\<And>x. in_tables (vm_mem vm) l1 x \<Longrightarrow> m' x = vm_mem vm x"
  shows "translate m' l1 va = translate (vm_mem vm) l1 va"
proof (rule translate_same)
  show "e1 m' l1 (l1i va) = e1 (vm_mem vm) l1 (l1i va)"
    by (rule tables_frame(1) [OF assms(1) assms(2) index_bounds(1)])
  show "pte m' l1 (l1i va) (l2i va) = pte (vm_mem vm) l1 (l1i va) (l2i va)" if "coarse (vm_mem vm) l1 (l1i va)"
    by (rule tables_frame(2) [OF assms(1) assms(2) index_bounds(1) that index_bounds(2)])
qed

text \<open>Storing a byte.\<close>

lemma user_page_store:
  fixes b :: u8
  assumes "user_page vm l1 fl live base p" "off < 4096"
  defines "vm' \<equiv> vm\<lparr>vm_mem := (vm_mem vm)(p + of_nat off := b)\<rparr>"
  shows "user_store (base + of_nat off) b vm = Some vm'" "user_page vm' l1 fl live base p"
    "page_list (vm_mem vm') p = (page_list (vm_mem vm) p)[off := b]"
proof -
  have u: "base AND 0xFFF = 0" "mapped_at (vm_mem vm) l1 base p" "p \<in> used (cls (vm_ka vm) 8)" "pt_inv vm l1 fl live" "vm_active vm = l1"
    using assms(1) by (simp_all add: user_page_def)
  note k = pt_invD(1) [OF u(4)]
  note fo = frame_offset [OF k u(3)]
  show "user_store (base + of_nat off) b vm = Some vm'"
    using user_page_translate [OF assms(1,2)] u(5) by (simp add: user_store_def vm'_def)
  have nt: "vm_mem vm' x = vm_mem vm x" if "in_tables (vm_mem vm) l1 x" for x
    using page_not_tables [OF u(4,3) fo(3) [OF assms(2)]] that by (auto simp: vm'_def)
  have "pt_inv (vm\<lparr>vm_ka := vm_ka vm, vm_mem := vm_mem vm'\<rparr>) l1 fl live"
    by (rule pt_inv_frame [OF u(4) nt k order_refl order_refl])
  then have pi: "pt_inv vm' l1 fl live" by (simp add: vm'_def)
  have "mapped_at (vm_mem vm') l1 base p" using u(2) translate_frame [OF u(4) nt] by (simp add: mapped_at_def)
  then show "user_page vm' l1 fl live base p" using u pi by (simp add: user_page_def vm'_def)
  have ne: "p + of_nat i \<noteq> p + of_nat off" if "i < 4096" "i \<noteq> off" for i
  proof
    assume "p + of_nat i = p + of_nat off"
    then have "unat (p + of_nat i) = unat (p + of_nat off)" by (rule arg_cong)
    then show False using fo(2) [OF that(1)] fo(2) [OF assms(2)] that(2) by linarith
  qed
  show "page_list (vm_mem vm') p = (page_list (vm_mem vm) p)[off := b]"
  proof (rule nth_equalityI)
    fix i assume "i < length (page_list (vm_mem vm') p)"
    then have i: "i < 4096" by simp
    then have v: "page_list m p ! i = m (p + of_nat i)" for m by (simp add: page_list_def)
    show "page_list (vm_mem vm') p ! i = (page_list (vm_mem vm) p)[off := b] ! i"
      unfolding v using ne [OF i] i v [of "vm_mem vm"] by (cases "i = off") (simp_all add: vm'_def)
  qed simp
qed

lemma user_write_page:
  assumes "user_page vm l1 fl live base p" "off + length bs \<le> 4096"
  shows "\<exists>vm'. user_write (base + of_nat off) bs vm = Some vm' \<and> user_page vm' l1 fl live base p
    \<and> page_list (vm_mem vm') p = blit (page_list (vm_mem vm) p) off bs"
  using assms
proof (induction bs arbitrary: off vm)
  case Nil
  then show ?case by (simp add: blit_def)
next
  case (Cons b bs)
  then have o: "off < 4096" by simp
  note st = user_page_store [OF Cons.prems(1) o, of b]
  let ?vm = "vm\<lparr>vm_mem := (vm_mem vm)(p + of_nat off := b)\<rparr>"
  have n: "base + of_nat off + 1 = base + of_nat (off + 1)" by (simp add: algebra_simps)
  have "off + 1 + length bs \<le> 4096" using Cons.prems(2) by simp
  from Cons.IH [OF st(2) this]
  obtain vm' where r: "user_write (base + of_nat (off + 1)) bs ?vm = Some vm'" "user_page vm' l1 fl live base p"
    "page_list (vm_mem vm') p = blit (page_list (vm_mem ?vm) p) (off + 1) bs" by blast
  have "blit ((page_list (vm_mem vm) p)[off := b]) (off + 1) bs = blit (page_list (vm_mem vm) p) off (b # bs)"
    using o by (simp add: blit_def take_Suc_conv_app_nth take_update_swap list_update_append)
  then have e: "page_list (vm_mem vm') p = blit (page_list (vm_mem vm) p) off (b # bs)" unfolding r(3) st(3) .
  have "user_write (base + of_nat off) (b # bs) vm = user_write (base + of_nat off + 1) bs ?vm" by (simp only: user_write.simps st(1) bind.bind_lunit)
  then show ?case using r(1,2) e unfolding n by auto
qed

lemma user_read_page:
  assumes "user_page vm l1 fl live base p" "off + n \<le> 4096"
  shows "user_read n (base + of_nat off) vm = Some (slice (page_list (vm_mem vm) p) off n)"
  using assms(2)
proof (induction n arbitrary: off)
  case 0
  then show ?case by (simp add: slice_def)
next
  case (Suc n)
  then have o: "off < 4096" by simp
  have l: "user_load vm (base + of_nat off) = Some (page_list (vm_mem vm) p ! off)"
    using user_page_translate [OF assms(1) o] assms(1) o by (simp add: user_load_def user_page_def page_list_def)
  have "base + of_nat off + 1 = base + of_nat (off + 1)" by (simp add: algebra_simps)
  moreover have "off + 1 + n \<le> 4096" using Suc.prems by simp
  ultimately have "user_read n (base + of_nat off + 1) vm = Some (slice (page_list (vm_mem vm) p) (off + 1) n)"
    using Suc.IH [of "off + 1"] by (simp only:)
  moreover have "slice (page_list (vm_mem vm) p) off (Suc n)
      = page_list (vm_mem vm) p ! off # slice (page_list (vm_mem vm) p) (off + 1) n"
    using o by (simp add: slice_def Cons_nth_drop_Suc [symmetric])
  ultimately show ?case using l by simp
qed

section \<open>Fresh frames\<close>

text \<open>An address that was in no block handed out before, and that no other page of the table leads to.\<close>

definition fresh_frame :: "vm_state \<Rightarrow> u32 set \<Rightarrow> vm_state \<Rightarrow> u32 \<Rightarrow> u32 \<Rightarrow> u32 \<Rightarrow> bool" where
  "fresh_frame vm live vm' l1 va pa \<longleftrightarrow>
     (\<forall>i < 21. \<forall>b \<in> live. b \<in> used (cls (vm_ka vm) i) \<longrightarrow> \<not> in_block b (unat (block_size (cls (vm_ka vm) i))) pa)
     \<and> (\<forall>va2 ap. \<not> same_page va va2 \<longrightarrow> has_page (vm_mem vm') l1 va2 \<longrightarrow> translate (vm_mem vm') l1 va2 \<noteq> Some (pa, ap))"

lemma range_frame_fresh:
  assumes "pt_inv vm l1 fl live" "pt_inv vm' l1 fl' live'" "live \<subseteq> live'" "range_mapped l1 a n vm live vm' live'" "range_fresh l1 a n vm vm'"
    "k < n" "same_page (a + 0x1000 * of_nat k) va" "\<And>k. k < n \<Longrightarrow> (a + 0x1000 * of_nat k) AND 0xFFF = 0"
    "\<not> has_page (vm_mem vm) l1 va" "translate (vm_mem vm') l1 va = Some (pa, 3)"
  shows "fresh_frame vm live vm' l1 va pa"
proof -
  let ?A = "\<lambda>k. a + 0x1000 * of_nat k :: u32"
  note d' = pt_invD [OF assms(2)]
  have bs: "block_size (cls (vm_ka vm') 8) = 4096" using table_classes(5) [OF d'(2)] .
  have new: "\<exists>q. mapped_at (vm_mem vm') l1 (?A j) q \<and> q \<in> live' - live \<and> q \<in> used (cls (vm_ka vm') 8)
      \<and> translate (vm_mem vm') l1 w = Some (q OR (w AND 0xFFF), 3) \<and> in_block q 4096 (q OR (w AND 0xFFF))"
    if jw: "j < n" "\<not> has_page (vm_mem vm) l1 (?A j)" "same_page (?A j) w" for j w
  proof -
    obtain q where q: "mapped_at (vm_mem vm') l1 (?A j) q" "q \<in> live' - live" "q \<in> used (cls (vm_ka vm') 8)"
      using assms(4) jw(1,2) unfolding range_mapped_def by meson
    have "unat q + 4096 \<le> 4294967296" using block_bounds(2) [OF d'(1) _ q(3)] bs by simp
    then have "in_block q 4096 (q OR (w AND 0xFFF))" using frame_address block_aligned(2) [OF d'(1) q(3)] by blast
    then show ?thesis using q jw(3) by (auto simp: mapped_at_def same_page_def)
  qed
  have hk: "\<not> has_page (vm_mem vm) l1 (?A k)" using assms(7,9) by (simp add: has_page_def same_page_def)
  obtain p where p: "mapped_at (vm_mem vm') l1 (?A k) p" "p \<in> live' - live" "p \<in> used (cls (vm_ka vm') 8)" "in_block p 4096 pa"
    using new [OF assms(6) hk assms(7)] assms(10) by auto
  have "\<not> in_block b (unat (block_size (cls (vm_ka vm) i))) pa" if b: "i < 21" "b \<in> live" "b \<in> used (cls (vm_ka vm) i)" for i b
  proof -
    have "b \<in> used (cls (vm_ka vm') i)" by (rule used_live [OF d'(1) pt_invD(2) [OF assms(1)] b(1,3)]) (use b(2) assms(3) in blast)
    moreover have "block_size (cls (vm_ka vm') i) = block_size (cls (vm_ka vm) i)"
      using static_boot [OF d'(2) b(1)] static_boot [OF pt_invD(2) [OF assms(1)] b(1)] by simp
    ultimately show ?thesis using blocks_apart [OF d'(1) _ b(1) p(3), of b pa] p(2,4) b(2) bs by auto
  qed
  moreover have "translate (vm_mem vm') l1 va2 \<noteq> Some (pa, ap)" if v: "\<not> same_page va va2" "has_page (vm_mem vm') l1 va2" for va2 ap
  proof
    assume t: "translate (vm_mem vm') l1 va2 = Some (pa, ap)"
    have old: False if o: "has_page (vm_mem vm) l1 va2" "translate (vm_mem vm) l1 va2 = Some (pa, ap2)" for ap2
    proof -
      obtain P ap3 where P: "translate (vm_mem vm) l1 va2 = Some (P OR (va2 AND 0xFFF), ap3)"
        "P AND 0xFFFFF000 = P" "unat P + 4096 \<le> 4294967296" "0xFFF00000 \<le> P \<or> P \<in> live \<and> P \<in> used (cls (vm_ka vm) 8)"
        by (rule has_page_frame [OF assms(1) o(1)]) (simp add: same_page_def)
      have "in_block P 4096 pa" using frame_address [OF P(3,2)] P(1) o(2) by auto
      then show False using old_frame_apart(2) [OF assms(1,2,3) P(4) _ p(2,3)] p(4) by blast
    qed
    show False
    proof (cases "\<exists>j < n. same_page (?A j) va2")
      case False
      then have h: "has_page (vm_mem vm) l1 va2" using assms(5) v(2) unfolding range_fresh_def by blast
      then have "coarse (vm_mem vm) l1 (l1i va2)" by (simp add: has_page_def)
      then have "translate (vm_mem vm') l1 va2 = translate (vm_mem vm) l1 va2" using assms(4) False unfolding range_mapped_def by blast
      then show False using old [OF h] t by metis
    next
      case True
      then obtain j where j: "j < n" "same_page (?A j) va2" by blast
      have jk: "j \<noteq> k" using j(2) v(1) assms(7) by (auto simp: same_page_def)
      show False
      proof (cases "has_page (vm_mem vm) l1 (?A j)")
        case True
        then have h: "has_page (vm_mem vm) l1 va2" using j(2) by (simp add: has_page_def same_page_def)
        then show False using range_mapped_byte [OF assms(1-4) j assms(8) [OF j(1)]] old t by auto
      next
        case False
        obtain q where q: "mapped_at (vm_mem vm') l1 (?A j) q" "q \<in> used (cls (vm_ka vm') 8)" "in_block q 4096 pa"
          using new [OF j(1) False j(2)] t by auto
        then have "q = p" using blocks_apart [OF d'(1) _ _ p(3) q(2), of pa] p(4) bs by auto
        then have "translate (vm_mem vm') l1 (?A j) = translate (vm_mem vm') l1 (?A k)"
          using mapped_start [OF p(1) assms(8) [OF assms(6)]] mapped_start [OF q(1) assms(8) [OF j(1)]] by simp
        then show False using assms(5,6) j(1) jk False hk unfolding range_fresh_def by blast
      qed
    qed
  qed
  ultimately show ?thesis unfolding fresh_frame_def by blast
qed

text \<open>A page the user had keeps its frame and its contents, in the range or outside.\<close>

lemma range_keeps_page:
  assumes "pt_inv vm l1 fl live" "pt_inv vm' l1 fl' live'" "live \<subseteq> live'" "range_mapped l1 a n vm live vm' live'"
    "\<And>k. k < n \<Longrightarrow> (a + 0x1000 * of_nat k) AND 0xFFF = 0" "has_page (vm_mem vm) l1 va" "translate (vm_mem vm) l1 va = Some (pa, ap)"
  shows "(\<exists>ap'. translate (vm_mem vm') l1 va = Some (pa, ap')) \<and> vm_mem vm' pa = vm_mem vm pa"
proof (cases "\<exists>k < n. same_page (a + 0x1000 * of_nat k) va")
  case True
  then show ?thesis using range_mapped_byte [OF assms(1-4) _ _ assms(5)] assms(6,7) by fastforce
next
  case False
  have "coarse (vm_mem vm) l1 (l1i va)" using assms(6) by (simp add: has_page_def)
  then have t: "translate (vm_mem vm') l1 va = Some (pa, ap)" using assms(4,7) False unfolding range_mapped_def by metis
  obtain P ap3 where P: "translate (vm_mem vm) l1 va = Some (P OR (va AND 0xFFF), ap3)"
    "P AND 0xFFFFF000 = P" "unat P + 4096 \<le> 4294967296" "0xFFF00000 \<le> P \<or> P \<in> live \<and> P \<in> used (cls (vm_ka vm) 8)"
    by (rule has_page_frame [OF assms(1,6)]) (simp add: same_page_def)
  have "in_block P 4096 pa" using frame_address [OF P(3,2)] P(1) assms(7) by auto
  then have "vm_mem vm' pa = vm_mem vm pa"
    using old_frame_apart [OF assms(1,2,3) P(4)] assms(4) unfolding range_mapped_def by blast
  then show ?thesis using t by blast
qed

section \<open>The kernel's own megabytes\<close>

text \<open>The megabytes that the kernel reaches through the table of the process: its image, its heap and the helper page from
  \<open>0xC0000000\<close> (\<open>memmap.ld\<close>, \<open>kmalloc.c\<close>), the boot stack below \<open>0x8000000\<close> (\<open>start.S\<close>), the stacks of the processor modes
  between \<open>0x9000000\<close> and \<open>0x9100000\<close> (\<open>helpers.S\<close>), the device registers from \<open>0x20000000\<close>, and those of the frame buffer, \<open>fbs\<close>,
  which the GPU places. Nothing in \<open>vm.c\<close> keeps a page of a process out of them: the kernel would take away its own
  mapping. The statements on growing memory therefore ask for a range outside them.\<close>

definition kernel_section :: "u32 set \<Rightarrow> u32 \<Rightarrow> bool" where
  "kernel_section fbs i \<longleftrightarrow> 0xC00 \<le> i \<or> i = 0x07F \<or> i = 0x090 \<or> 0x200 \<le> i \<and> i < 0x210 \<or> i \<in> fbs"

definition user_range :: "u32 set \<Rightarrow> u32 \<Rightarrow> u32 \<Rightarrow> bool" where
  "user_range fbs start sz \<longleftrightarrow> (\<forall>k < page_count start sz. \<not> kernel_section fbs (l1i ((start AND NOT 0xFFF) + 0x1000 * of_nat k)))"

lemma make_sure_maps_law:
  assumes "pt_inv vm l1 fl live" "unat start + unat sz + 4095 < 4294967296"
    "page_count start sz \<le> avail (vm_ka vm) fl 6" "page_count start sz \<le> avail (vm_ka vm) fl 8" "user_range fbs start sz"
  shows "\<exists>vm' fl' live'. make_sure_user_space l1 start sz vm = Some vm' \<and> pt_inv vm' l1 fl' live'
    \<and> (\<forall>va. start \<le> va \<longrightarrow> unat va < unat start + unat sz \<longrightarrow>
        (\<exists>pa. translate (vm_mem vm') l1 va = Some (pa, 3) \<and> \<not> in_tables (vm_mem vm') l1 pa
          \<and> (\<not> has_page (vm_mem vm) l1 va \<longrightarrow> vm_mem vm' pa = 0 \<and> fresh_frame vm live vm' l1 va pa)))
    \<and> (\<forall>va pa ap. has_page (vm_mem vm) l1 va \<longrightarrow> translate (vm_mem vm) l1 va = Some (pa, ap) \<longrightarrow>
        (\<exists>ap'. translate (vm_mem vm') l1 va = Some (pa, ap')) \<and> vm_mem vm' pa = vm_mem vm pa)
    \<and> (\<forall>va. kernel_section fbs (l1i va) \<or> (\<forall>k < page_count start sz. l1i va \<noteq> l1i ((start AND NOT 0xFFF) + 0x1000 * of_nat k)) \<longrightarrow>
        translate (vm_mem vm') l1 va = translate (vm_mem vm) l1 va)"
proof -
  let ?a = "start AND NOT 0xFFF" and ?n = "page_count start sz"
  obtain vm' fl' live' where r: "make_sure_user_space l1 start sz vm = Some vm'" "pt_inv vm' l1 fl' live'" "live \<subseteq> live'"
    "range_mapped l1 ?a ?n vm live vm' live'" "range_fresh l1 ?a ?n vm vm'"
    by (rule make_sure_full_law [OF assms(1-4)]) blast
  have al: "(?a + 0x1000 * of_nat k) AND 0xFFF = 0" if "k < ?n" for k
    using page_steps(1) [of ?a k] that make_sure_pages(2) [OF assms(2)] by (simp add: and.assoc)
  have "\<exists>pa. translate (vm_mem vm') l1 va = Some (pa, 3) \<and> \<not> in_tables (vm_mem vm') l1 pa
      \<and> (\<not> has_page (vm_mem vm) l1 va \<longrightarrow> vm_mem vm' pa = 0 \<and> fresh_frame vm live vm' l1 va pa)"
    if va: "start \<le> va" "unat va < unat start + unat sz" for va
  proof -
    obtain k where k: "k < ?n" "same_page (?a + 0x1000 * of_nat k) va" by (rule page_of_address [OF assms(2) va]) blast
    show ?thesis using range_mapped_byte [OF assms(1) r(2,3,4) k al [OF k(1)]] range_frame_fresh [OF assms(1) r(2-5) k al] by fastforce
  qed
  moreover note range_keeps_page [OF assms(1) r(2,3,4) al]
  moreover have "translate (vm_mem vm') l1 va = translate (vm_mem vm) l1 va"
    if "kernel_section fbs (l1i va) \<or> (\<forall>k < ?n. l1i va \<noteq> l1i (?a + 0x1000 * of_nat k))" for va
  proof -
    have l: "\<forall>k < ?n. l1i va \<noteq> l1i (?a + 0x1000 * of_nat k)" using that assms(5) unfolding user_range_def by metis
    then have "\<forall>k < ?n. \<not> same_page (?a + 0x1000 * of_nat k) va" by (auto simp: same_page_def)
    then show ?thesis using r(4) l unfolding range_mapped_def by blast
  qed
  ultimately show ?thesis using r(1,2) by blast
qed

section \<open>Claims\<close>

text \<open>C22: Making room for user memory. On a consistent table, with enough free tables and pages, and for a range outside the
  megabytes that the kernel itself uses, \<open>make_sure_user_space\<close> succeeds and leaves a consistent table in which every address
  of the range is readable and writable for the user, at a frame outside all tables. Where there was no page, the frame is
  fresh: it was in no block handed out before, no other page of the table leads to it, and it holds zeros. Every page there was,
  in the range or not, keeps its frame and its contents. The kernel's megabytes, and all other megabytes that the range does not
  touch, are translated as before.\<close>

theorem make_sure_user_space_maps:
  assumes "pt_inv vm l1 fl live" "unat start + unat sz + 4095 < 4294967296"
    "page_count start sz \<le> avail (vm_ka vm) fl 6" "page_count start sz \<le> avail (vm_ka vm) fl 8" "user_range fbs start sz"
  shows "\<exists>vm' fl' live'. make_sure_user_space l1 start sz vm = Some vm' \<and> pt_inv vm' l1 fl' live'
    \<and> (\<forall>va. start \<le> va \<longrightarrow> unat va < unat start + unat sz \<longrightarrow>
        (\<exists>pa. translate (vm_mem vm') l1 va = Some (pa, 3) \<and> \<not> in_tables (vm_mem vm') l1 pa
          \<and> (\<not> has_page (vm_mem vm) l1 va \<longrightarrow> vm_mem vm' pa = 0 \<and> fresh_frame vm live vm' l1 va pa)))
    \<and> (\<forall>va pa ap. has_page (vm_mem vm) l1 va \<longrightarrow> translate (vm_mem vm) l1 va = Some (pa, ap) \<longrightarrow>
        (\<exists>ap'. translate (vm_mem vm') l1 va = Some (pa, ap')) \<and> vm_mem vm' pa = vm_mem vm pa)
    \<and> (\<forall>va. kernel_section fbs (l1i va) \<or> (\<forall>k < page_count start sz. l1i va \<noteq> l1i ((start AND NOT 0xFFF) + 0x1000 * of_nat k)) \<longrightarrow>
        translate (vm_mem vm') l1 va = translate (vm_mem vm) l1 va)"
  by (rule make_sure_maps_law [OF assms])

text \<open>A fresh machine whose only block is an empty first-level table.\<close>

definition fresh_vm :: vm_state where
  "fresh_vm = \<lparr>vm_mem = (\<lambda>_. 0), vm_ka = boot_state\<lparr>size_classes := boot_classes[10 := (boot_classes ! 10)\<lparr>current := 0xC77F4000\<rparr>]\<rparr>,
     vm_kuser = [], vm_active = 0xC77F0000\<rparr>"

lemma fresh_vm_inv: "\<exists>fl. pt_inv fresh_vm 0xC77F0000 fl {0xC77F0000} \<and> 2 \<le> avail (vm_ka fresh_vm) fl 6 \<and> 2 \<le> avail (vm_ka fresh_vm) fl 8"
proof -
  have c: "size_classes boot_state = boot_classes" by (simp add: boot_state_def kalloc_init_classes)
  have "find_class 16384 boot_classes = Some 10" using table_classes(3) [of boot_state] boot_state_inv c by (simp add: kinv_def)
  then have k: "kalloc 16384 boot_state = Some (0xC77F0000, vm_ka fresh_vm)"
  proof -
    have b: "boot_classes ! 10 = \<lparr>block_size = 16384, arena_start = 0xC77F0000, arena_end = 0xC87F0000, current = 0xC77F0000\<rparr>"
      by (simp add: boot_classes_eval)
    show ?thesis using boot_ring_empty [of 10] \<open>find_class 16384 boot_classes = Some 10\<close>
      by (simp add: kalloc_def Let_def c fresh_vm_def b)
  qed
  obtain fl where f: "kinv (vm_ka fresh_vm) fl {0xC77F0000}" using kalloc_step(2) [OF boot_state_inv k] by auto
  have u: "0xC77F0000 \<in> used (cls (vm_ka fresh_vm) 10)" by (simp add: fresh_vm_def used_def boot_classes_eval)
  have "e1 (vm_mem fresh_vm) l1 i = 0" for l1 i by (simp add: e1_def fresh_vm_def load32_def)
  then have "\<not> coarse (vm_mem fresh_vm) l1 i" for l1 i by (simp add: coarse_def)
  then have "pt_inv fresh_vm 0xC77F0000 fl {0xC77F0000}" using f u by (simp add: pt_inv_def)
  moreover have "2 \<le> avail (vm_ka fresh_vm) fl 6" "2 \<le> avail (vm_ka fresh_vm) fl 8"
    by (simp_all add: avail_def fresh_vm_def boot_classes_eval)
  ultimately show ?thesis by blast
qed

theorem make_sure_user_space_maps_witness:
  "\<exists>vm' pa. make_sure_user_space 0xC77F0000 0x8800 0x1000 fresh_vm = Some vm'
     \<and> translate (vm_mem vm') 0xC77F0000 0x97FF = Some (pa, 3) \<and> vm_mem vm' pa = 0 \<and> fresh_frame fresh_vm {0xC77F0000} vm' 0xC77F0000 0x97FF pa
     \<and> translate (vm_mem vm') 0xC77F0000 0xC0008000 = translate (vm_mem fresh_vm) 0xC77F0000 0xC0008000"
proof -
  obtain fl where f: "pt_inv fresh_vm 0xC77F0000 fl {0xC77F0000}" "2 \<le> avail (vm_ka fresh_vm) fl 6" "2 \<le> avail (vm_ka fresh_vm) fl 8"
    using fresh_vm_inv by blast
  have np: "\<not> has_page (vm_mem fresh_vm) 0xC77F0000 0x97FF" by (simp add: has_page_def coarse_def e1_def fresh_vm_def load32_def)
  have pc: "page_count 0x8800 0x1000 = 2" by (simp add: page_count_def)
  have u: "user_range {0x1E0} 0x8800 0x1000" by (simp add: user_range_def pc kernel_section_def less_2_cases_iff)
  have h: "unat (0x8800 :: u32) + unat (0x1000 :: u32) + 4095 < 4294967296" "(0x8800 :: u32) \<le> 0x97FF"
    "unat (0x97FF :: u32) < unat (0x8800 :: u32) + unat (0x1000 :: u32)" "kernel_section {0x1E0} (l1i 0xC0008000)"
    by (simp_all add: kernel_section_def)
  note t = make_sure_user_space_maps [OF f(1), of "0x8800" "0x1000", unfolded pc, OF h(1) f(2,3) u]
  then show ?thesis using h np by blast
qed

end
