(* ===== verification/Elf.thy ===== *)
theory Elf
  imports VmInv Sched Cstr
begin

text \<open>
  Loading a program: final/src/elf.c and final/include/elf.h. The file is the list of its bytes, arguments
  and environment are lists of strings, and the loader writes user memory through the active page table,
  which is the thread's. A read past the end of the file, and a write to an address that is not mapped,
  have no value.
\<close>

section \<open>Headers\<close>

record elf32_ehdr =
  e_ident :: "u8 list"
  e_type :: u16
  e_machine :: u16
  e_version :: u32
  e_entry :: u32
  e_phoff :: u32
  e_shoff :: u32
  e_flags :: u32
  e_ehsize :: u16
  e_phentsize :: u16
  e_phnum :: u16
  e_shentsize :: u16
  e_shnum :: u16
  e_shstrndx :: u16

record elf32_phdr =
  p_type :: u32
  p_offset :: u32
  p_vaddr :: u32
  p_paddr :: u32
  p_filesz :: u32
  p_memsz :: u32
  p_flags :: u32
  p_align :: u32

definition ehdr_at :: "u8 list \<Rightarrow> elf32_ehdr" where
  "ehdr_at b = \<lparr>e_ident = slice b 0 16, e_type = read_u16 b 16, e_machine = read_u16 b 18, e_version = read_u32 b 20,
     e_entry = read_u32 b 24, e_phoff = read_u32 b 28, e_shoff = read_u32 b 32, e_flags = read_u32 b 36, e_ehsize = read_u16 b 40,
     e_phentsize = read_u16 b 42, e_phnum = read_u16 b 44, e_shentsize = read_u16 b 46, e_shnum = read_u16 b 48,
     e_shstrndx = read_u16 b 50\<rparr>"

text \<open>The \<open>i\<close>th program header: \<open>elf + eh->e_phoff + i * sizeof(elf32_phdr)\<close>.\<close>

definition phdr_at :: "u8 list \<Rightarrow> elf32_ehdr \<Rightarrow> nat \<Rightarrow> elf32_phdr option" where
  "phdr_at b eh i =
     (let off = unat (e_phoff eh + of_nat i * 32) in
      if off + 32 \<le> length b
      then Some \<lparr>p_type = read_u32 b off, p_offset = read_u32 b (off + 4), p_vaddr = read_u32 b (off + 8),
        p_paddr = read_u32 b (off + 12), p_filesz = read_u32 b (off + 16), p_memsz = read_u32 b (off + 20),
        p_flags = read_u32 b (off + 24), p_align = read_u32 b (off + 28)\<rparr>
      else None)"

definition ELF_ERR :: u32 where "ELF_ERR = 0xFFFFFFFF"
definition PAGE_SZ :: u32 where "PAGE_SZ = 4096"
definition USER_TOP :: u32 where "USER_TOP = 0xC0000000"
definition STACK_TOP :: u32 where "STACK_TOP = USER_TOP - 0x10"
definition PT_LOAD :: u32 where "PT_LOAD = 1"
definition PF_W :: u32 where "PF_W = 2"
definition EM_ARM :: u16 where "EM_ARM = 40"

definition ALIGN_DOWN :: "u32 \<Rightarrow> u32 \<Rightarrow> u32" where "ALIGN_DOWN x a = x AND NOT (a - 1)"
definition ALIGN_UP :: "u32 \<Rightarrow> u32 \<Rightarrow> u32" where "ALIGN_UP x a = (x + (a - 1)) AND NOT (a - 1)"

text \<open>The checks, in the order of the code.\<close>

definition elf_bad :: "elf32_ehdr \<Rightarrow> bool" where
  "elf_bad eh \<longleftrightarrow> e_ident eh ! 0 \<noteq> 0x7F \<or> e_ident eh ! 1 \<noteq> 69 \<or> e_ident eh ! 2 \<noteq> 76 \<or> e_ident eh ! 3 \<noteq> 70
     \<or> e_ident eh ! 4 \<noteq> 1 \<or> e_ident eh ! 5 \<noteq> 1 \<or> e_machine eh \<noteq> EM_ARM \<or> e_phoff eh = 0 \<or> e_phnum eh = 0"

section \<open>Segments\<close>

definition u32_max :: "u32 \<Rightarrow> u32 \<Rightarrow> u32" where "u32_max a b = (if a > b then a else b)"

text \<open>\<open>memcpy\<close> to the null pointer copies nothing.\<close>

definition load_segment :: "u8 list \<Rightarrow> u32 \<Rightarrow> elf32_phdr \<Rightarrow> u32 \<Rightarrow> vm_state \<Rightarrow> (u32 \<times> vm_state) option" where
  "load_segment elf l1 ph max_rw_end vm =
     (if p_type ph \<noteq> PT_LOAD then Some (max_rw_end, vm)
      else let va_start = ALIGN_DOWN (p_vaddr ph) PAGE_SZ;
               va_end = ALIGN_UP (p_vaddr ph + p_memsz ph) PAGE_SZ;
               page_off = p_vaddr ph - va_start;
               dest = va_start + page_off
           in do {
             vm1 \<leftarrow> make_sure_user_space l1 va_start (va_end - va_start) vm;
             vm2 \<leftarrow> (if dest = 0 \<or> p_filesz ph = 0 then Some vm1
                     else if unat (p_offset ph) + unat (p_filesz ph) \<le> length elf
                     then user_write dest (slice elf (unat (p_offset ph)) (unat (p_filesz ph))) vm1
                     else None);
             vm3 \<leftarrow> user_write (dest + p_filesz ph) (replicate (unat (p_memsz ph - p_filesz ph)) 0) vm2;
             Some (if p_flags ph AND PF_W \<noteq> 0 then u32_max max_rw_end (p_vaddr ph + p_memsz ph) else max_rw_end, vm3)
           })"

fun load_segments :: "nat \<Rightarrow> nat \<Rightarrow> u8 list \<Rightarrow> elf32_ehdr \<Rightarrow> u32 \<Rightarrow> u32 \<Rightarrow> vm_state \<Rightarrow> (u32 \<times> vm_state) option" where
  "load_segments 0 i elf eh l1 max_rw_end vm = Some (max_rw_end, vm)"
| "load_segments (Suc n) i elf eh l1 max_rw_end vm = do {
     ph \<leftarrow> phdr_at elf eh i;
     (m, vm1) \<leftarrow> load_segment elf l1 ph max_rw_end vm;
     load_segments n (i + 1) elf eh l1 m vm1
   }"

text \<open>The address of the program headers in memory.\<close>

fun find_at_phdr :: "nat \<Rightarrow> nat \<Rightarrow> u8 list \<Rightarrow> elf32_ehdr \<Rightarrow> u32 option" where
  "find_at_phdr 0 i elf eh = Some 0"
| "find_at_phdr (Suc n) i elf eh = do {
     ph \<leftarrow> phdr_at elf eh i;
     if p_type ph = PT_LOAD \<and> e_phoff eh \<ge> p_offset ph \<and> e_phoff eh < p_offset ph + p_filesz ph
     then Some (p_vaddr ph + (e_phoff eh - p_offset ph))
     else find_at_phdr n (i + 1) elf eh
   }"

section \<open>The stack\<close>

text \<open>Copying the strings; the pointers to the copies are returned.\<close>

fun copy_strings :: "bytes list \<Rightarrow> u32 \<Rightarrow> vm_state \<Rightarrow> (u32 list \<times> u32 \<times> vm_state) option" where
  "copy_strings [] sp vm = Some ([], sp, vm)"
| "copy_strings (a # as) sp vm =
     (let len = of_nat (length (cstring a) + 1); sp1 = ALIGN_DOWN (sp - len) 8
      in do {
        vm1 \<leftarrow> user_write sp1 (cstring a @ [0]) vm;
        (ps, sp2, vm2) \<leftarrow> copy_strings as sp1 vm1;
        Some (sp1 # ps, sp2, vm2)
      })"

text \<open>The loop that swaps the pointers from the ends inwards.\<close>

definition swap_ends :: "u32 list \<Rightarrow> nat \<Rightarrow> u32 list" where
  "swap_ends a i = a[i := a ! (length a - 1 - i), length a - 1 - i := a ! i]"

definition reverse_pointers :: "u32 list \<Rightarrow> u32 list" where
  "reverse_pointers a = foldl swap_ends a [0..<length a div 2]"

text \<open>\<open>PUSH\<close>.\<close>

fun push_words :: "u32 list \<Rightarrow> u32 \<Rightarrow> vm_state \<Rightarrow> (u32 \<times> vm_state) option" where
  "push_words [] sp vm = Some (sp, vm)"
| "push_words (v # vs) sp vm = do { vm1 \<leftarrow> user_write (sp - 4) (u32_bytes v) vm; push_words vs (sp - 4) vm1 }"

definition auxv :: "elf32_ehdr \<Rightarrow> u32 \<Rightarrow> u32 \<Rightarrow> u32 list" where
  "auxv eh at_phdr at_random =
     [0, 0, at_random, 25, 0, 26, 0x197, 16, 0, 14, 0, 13, 0, 12, 0, 11, e_entry eh, 9, ucast (e_phnum eh), 5, 32, 4,
      at_phdr, 3, PAGE_SZ, 6]"

definition init_stack :: "elf32_ehdr \<Rightarrow> u32 \<Rightarrow> bytes list \<Rightarrow> bytes list \<Rightarrow> vm_state \<Rightarrow> (u32 \<times> vm_state) option" where
  "init_stack eh at_phdr argv envp vm = do {
     (arg_ptrs, sp1, vm1) \<leftarrow> copy_strings argv STACK_TOP vm;
     (env_ptrs, sp2, vm2) \<leftarrow> copy_strings envp sp1 vm1;
     let sp3 = ALIGN_DOWN sp2 8 - 16 in do {
       vm3 \<leftarrow> user_write sp3 (replicate 16 0x11) vm2;
       push_words (auxv eh at_phdr sp3 @ [0] @ env_ptrs @ [0] @ reverse_pointers arg_ptrs @ [of_nat (length argv)]) sp3 vm3
     }
   }"

definition load_elf :: "u8 list \<Rightarrow> bytes list \<Rightarrow> bytes list \<Rightarrow> rpi_thread \<Rightarrow> vm_state \<Rightarrow> (u32 \<times> rpi_thread \<times> vm_state) option" where
  "load_elf elf argv envp pcb vm =
     (if length elf < 52 then None
      else let eh = ehdr_at elf; pcb0 = pcb\<lparr>tls_base := 0, brk_min := 0, brk := 0\<rparr> in
        if elf_bad eh then Some (ELF_ERR, pcb0, vm)
        else do {
          (max_rw_end, vm1) \<leftarrow> load_segments (unat (e_phnum eh)) 0 elf eh (l1_pt pcb) 0 vm;
          let pcb1 = pcb0\<lparr>brk_min := ALIGN_UP max_rw_end PAGE_SZ, brk := ALIGN_UP max_rw_end PAGE_SZ\<rparr>;
              stack = ALIGN_DOWN STACK_TOP 4096
          in do {
            vm2 \<leftarrow> make_sure_user_space (l1_pt pcb) stack 4096 vm1;
            vm3 \<leftarrow> user_write stack (replicate 4096 0) vm2;
            at_phdr \<leftarrow> find_at_phdr (unat (e_phnum eh)) 0 elf eh;
            (sp, vm4) \<leftarrow> init_stack eh at_phdr argv envp vm3;
            Some (e_entry eh, pcb1\<lparr>ctx := (ctx pcb1)\<lparr>user_sp := sp\<rparr>\<rparr>, vm4)
          }
        })"

section \<open>The pointers are reversed\<close>

lemma swap_ends_nth:
  "k \<le> length a div 2 \<Longrightarrow> i < length a \<Longrightarrow>
   foldl swap_ends a [0..<k] ! i = (if i < k \<or> length a - 1 - i < k then a ! (length a - 1 - i) else a ! i)
   \<and> length (foldl swap_ends a [0..<k]) = length a"
proof (induction k arbitrary: i)
  case (Suc k)
  let ?b = "foldl swap_ends a [0..<k]"
  have l: "length ?b = length a" using Suc.IH [of i] Suc.prems by simp
  have k: "k < length a" "length a - 1 - k < length a" "k < length a - 1 - k" using Suc.prems by linarith+
  have b: "?b ! j = (if j < k \<or> length a - 1 - j < k then a ! (length a - 1 - j) else a ! j)" if "j < length a" for j
    using Suc.IH [OF _ that] Suc.prems(1) by simp
  have bk: "?b ! k = a ! k" "?b ! (length a - 1 - k) = a ! (length a - 1 - k)"
    using b [OF k(1)] b [OF k(2)] k by auto
  have "swap_ends ?b k ! i = (if i = length a - 1 - k then a ! k else if i = k then a ! (length a - 1 - k) else ?b ! i)"
    using Suc.prems(2) k bk by (auto simp: swap_ends_def l nth_list_update)
  moreover have "i = length a - 1 - k \<longleftrightarrow> length a - 1 - i = k" using Suc.prems(2) k by linarith
  moreover have "foldl swap_ends a [0..<Suc k] = swap_ends ?b k" by simp
  moreover have "length (swap_ends ?b k) = length a" using l by (simp add: swap_ends_def)
  moreover have "?b ! i = (if i < k \<or> length a - 1 - i < k then a ! (length a - 1 - i) else a ! i)" by (rule b [OF Suc.prems(2)])
  ultimately show ?case by (auto simp: less_Suc_eq)
qed simp

lemma reverse_pointers_rev: "reverse_pointers a = rev a"
proof (rule nth_equalityI)
  show l: "length (reverse_pointers a) = length (rev a)"
    unfolding reverse_pointers_def using swap_ends_nth [of "length a div 2" a 0] by (cases a) simp_all
  fix i assume "i < length (reverse_pointers a)"
  then have i: "i < length a" using l by simp
  have "\<not> (i < length a div 2 \<or> length a - 1 - i < length a div 2) \<Longrightarrow> length a - 1 - i = i" using i by linarith
  then show "reverse_pointers a ! i = rev a ! i"
    using swap_ends_nth [OF order_refl i] i unfolding reverse_pointers_def by (auto simp: rev_nth)
qed

section \<open>The stack page\<close>

text \<open>Offsets in the page: where a string goes, and where the stack pointer is afterwards.\<close>

definition slot_below :: "nat \<Rightarrow> bytes \<Rightarrow> nat" where
  "slot_below off a = (let d = off - (length (cstring a) + 1) in d - d mod 8)"

fun slots :: "bytes list \<Rightarrow> nat \<Rightarrow> nat list" where
  "slots [] off = []"
| "slots (a # as) off = slot_below off a # slots as (slot_below off a)"

fun slots_end :: "bytes list \<Rightarrow> nat \<Rightarrow> nat" where
  "slots_end [] off = off"
| "slots_end (a # as) off = slots_end as (slot_below off a)"

definition strings_need :: "bytes list \<Rightarrow> nat" where
  "strings_need as = sum_list (map (\<lambda>a. length (cstring a) + 8) as)"

lemma slot_below_bounds:
  assumes "length (cstring a) + 8 \<le> off"
  shows "slot_below off a + (length (cstring a) + 1) \<le> off" "off \<le> slot_below off a + (length (cstring a) + 8)" "8 dvd slot_below off a"
proof -
  define d where "d = off - (length (cstring a) + 1)"
  have d: "d + (length (cstring a) + 1) = off" "d mod 8 < 8" using assms by (simp_all add: d_def)
  have s: "slot_below off a = d - d mod 8" by (simp add: slot_below_def d_def Let_def)
  show "slot_below off a + (length (cstring a) + 1) \<le> off" "off \<le> slot_below off a + (length (cstring a) + 8)"
    unfolding s using d by linarith+
  show "8 dvd slot_below off a" unfolding s by (rule dvd_minus_mod)
qed

lemma slots_end_bounds: "strings_need as \<le> off \<Longrightarrow> slots_end as off \<le> off \<and> off \<le> slots_end as off + strings_need as"
proof (induction as arbitrary: off)
  case (Cons a as)
  then have "length (cstring a) + 8 \<le> off" by (simp add: strings_need_def)
  note b = slot_below_bounds [OF this]
  have "strings_need as \<le> slot_below off a" using b(2) Cons.prems by (simp add: strings_need_def)
  from Cons.IH [OF this] b show ?case by (simp add: strings_need_def)
qed (simp add: strings_need_def)

lemma align_offset:
  assumes "base AND 0xFFF = (0 :: u32)" "off < 4096"
  shows "ALIGN_DOWN (base + of_nat off) 8 = base + of_nat (off - off mod 8)"
proof -
  define q where "q = unat base div 4096"
  have q: "unat base = 4096 * q" using aligned_unat [OF assms(1)] by (simp add: q_def)
  have m: "(4096 * q + off) mod 8 = off mod 8"
  proof -
    have "4096 * q + off = off + 8 * (512 * q)" by simp
    then show ?thesis by (metis mod_mult_self2)
  qed
  have "(8 :: u32) - 1 = mask 3" by (simp add: mask_eq_exp_minus_1)
  then have "unat (ALIGN_DOWN (base + of_nat off) 8) = unat (base + of_nat off) - unat (base + of_nat off) mod 2 ^ 3"
    unfolding ALIGN_DOWN_def by (simp only: unat_align_down)
  also have "\<dots> = unat base + (off - off mod 8)" using page_offset(3) [OF assms] q m mod_less_eq_dividend [of off 8] by simp
  also have "\<dots> = unat (base + of_nat (off - off mod 8))" using page_offset(3) [OF assms(1), of "off - off mod 8"] assms(2) by simp
  finally show ?thesis by (simp only: u32_eq_nat_iff)
qed

lemma sub_offset: "n \<le> off \<Longrightarrow> base + of_nat off - of_nat n = base + of_nat (off - n :: nat)" for base :: u32
  by (simp add: of_nat_diff)

lemma blit_above: "length b \<ge> j + n \<Longrightarrow> i + length xs \<le> j \<Longrightarrow> slice (blit b i xs) j n = slice b j n"
  by (rule slice_blit_other) simp_all

lemma copy_strings_law:
  assumes "user_page vm l1 fl live base p" "off < 4096" "strings_need as \<le> off"
  shows "\<exists>vm'. copy_strings as (base + of_nat off) vm = Some (map (\<lambda>o'. base + of_nat o') (slots as off), base + of_nat (slots_end as off), vm')
    \<and> user_page vm' l1 fl live base p
    \<and> (\<forall>i < length as. slots as off ! i + length (cstring (as ! i)) + 1 \<le> 4096
        \<and> slice (page_list (vm_mem vm') p) (slots as off ! i) (length (cstring (as ! i)) + 1) = cstring (as ! i) @ [0]
        \<and> slots_end as off \<le> slots as off ! i)
    \<and> (\<forall>j n. off \<le> j \<longrightarrow> j + n \<le> 4096 \<longrightarrow> slice (page_list (vm_mem vm') p) j n = slice (page_list (vm_mem vm) p) j n)"
  using assms
proof (induction as arbitrary: off vm)
  case Nil
  then show ?case by simp
next
  case (Cons a as)
  let ?s = "slot_below off a" and ?bs = "cstring a @ [0]"
  have "length (cstring a) + 8 \<le> off" using Cons.prems(3) by (simp add: strings_need_def)
  note b = slot_below_bounds [OF this]
  have al: "base AND 0xFFF = 0" using Cons.prems(1) by (simp add: user_page_def)
  have sp: "ALIGN_DOWN (base + of_nat off - of_nat (length (cstring a) + 1)) 8 = base + of_nat ?s"
    using align_offset [OF al, of "off - (length (cstring a) + 1)"] sub_offset [of "length (cstring a) + 1" off base] b(1) Cons.prems(2)
    by (simp only: slot_below_def Let_def)
  have "?s + length ?bs \<le> 4096" using b(1) Cons.prems(2) by simp
  from user_write_page [OF Cons.prems(1) this]
  obtain vm1 where w: "user_write (base + of_nat ?s) ?bs vm = Some vm1" "user_page vm1 l1 fl live base p"
    "page_list (vm_mem vm1) p = blit (page_list (vm_mem vm) p) ?s ?bs" by blast
  have need: "strings_need as \<le> ?s" using b(2) Cons.prems(3) by (simp add: strings_need_def)
  have s: "?s < 4096" using b(1) Cons.prems(2) by simp
  from Cons.IH [OF w(2) s need]
  obtain vm' where r: "copy_strings as (base + of_nat ?s) vm1 = Some (map (\<lambda>o'. base + of_nat o') (slots as ?s), base + of_nat (slots_end as ?s), vm')"
    "user_page vm' l1 fl live base p"
    and str: "\<forall>i < length as. slots as ?s ! i + length (cstring (as ! i)) + 1 \<le> 4096
        \<and> slice (page_list (vm_mem vm') p) (slots as ?s ! i) (length (cstring (as ! i)) + 1) = cstring (as ! i) @ [0]
        \<and> slots_end as ?s \<le> slots as ?s ! i"
    and keep: "\<forall>j n. ?s \<le> j \<longrightarrow> j + n \<le> 4096 \<longrightarrow> slice (page_list (vm_mem vm') p) j n = slice (page_list (vm_mem vm1) p) j n"
    by blast
  have first: "slice (page_list (vm_mem vm') p) ?s (length (cstring a) + 1) = cstring a @ [0]"
    using keep b(1) Cons.prems(2) w(3) by (subst keep [rule_format]) simp_all
  have above: "slice (page_list (vm_mem vm') p) j n = slice (page_list (vm_mem vm) p) j n" if "off \<le> j" "j + n \<le> 4096" for j n
  proof -
    have "slice (page_list (vm_mem vm') p) j n = slice (page_list (vm_mem vm1) p) j n" using keep that b(1) by simp
    also have "\<dots> = slice (page_list (vm_mem vm) p) j n" unfolding w(3) by (rule blit_above) (use that b(1) in simp_all)
    finally show ?thesis .
  qed
  have e: "copy_strings (a # as) (base + of_nat off) vm
      = Some (map (\<lambda>o'. base + of_nat o') (slots (a # as) off), base + of_nat (slots_end (a # as) off), vm')"
    using w(1) r(1) sp by (simp add: Let_def del: of_nat_add of_nat_Suc)
  have "slots_end as ?s \<le> ?s" using slots_end_bounds [OF need] by simp
  then have "\<forall>i < length (a # as). slots (a # as) off ! i + length (cstring ((a # as) ! i)) + 1 \<le> 4096
        \<and> slice (page_list (vm_mem vm') p) (slots (a # as) off ! i) (length (cstring ((a # as) ! i)) + 1) = cstring ((a # as) ! i) @ [0]
        \<and> slots_end (a # as) off \<le> slots (a # as) off ! i"
    using str first b(1) Cons.prems(2) by (auto simp: nth_Cons split: nat.splits)
  then show ?case using e r(2) above by blast
qed

lemma push_words_law:
  assumes "user_page vm l1 fl live base p" "off \<le> 4096" "4 * length vs \<le> off"
  shows "\<exists>vm'. push_words vs (base + of_nat off) vm = Some (base + of_nat (off - 4 * length vs), vm') \<and> user_page vm' l1 fl live base p
    \<and> slice (page_list (vm_mem vm') p) (off - 4 * length vs) (4 * length vs) = concat (map u32_bytes (rev vs))
    \<and> (\<forall>j n. off \<le> j \<longrightarrow> j + n \<le> 4096 \<longrightarrow> slice (page_list (vm_mem vm') p) j n = slice (page_list (vm_mem vm) p) j n)"
  using assms
proof (induction vs arbitrary: off vm)
  case Nil
  then show ?case by (simp add: slice_def)
next
  case (Cons v vs)
  let ?o = "off - 4"
  have o: "4 \<le> off" "?o \<le> 4096" "4 * length vs \<le> ?o" using Cons.prems by simp_all
  have lv: "length (u32_bytes v) = 4" by (simp add: u32_bytes_def)
  have sp: "base + of_nat off - 4 = base + of_nat ?o" using sub_offset [OF o(1), of base] by simp
  have "?o + length (u32_bytes v) \<le> 4096" using o Cons.prems(2) lv by simp
  from user_write_page [OF Cons.prems(1) this]
  obtain vm1 where w: "user_write (base + of_nat ?o) (u32_bytes v) vm = Some vm1" "user_page vm1 l1 fl live base p"
    "page_list (vm_mem vm1) p = blit (page_list (vm_mem vm) p) ?o (u32_bytes v)" by blast
  from Cons.IH [OF w(2) o(2,3)]
  obtain vm' where r: "push_words vs (base + of_nat ?o) vm1 = Some (base + of_nat (?o - 4 * length vs), vm')" "user_page vm' l1 fl live base p"
    "slice (page_list (vm_mem vm') p) (?o - 4 * length vs) (4 * length vs) = concat (map u32_bytes (rev vs))"
    and keep: "\<forall>j n. ?o \<le> j \<longrightarrow> j + n \<le> 4096 \<longrightarrow> slice (page_list (vm_mem vm') p) j n = slice (page_list (vm_mem vm1) p) j n"
    by blast
  have e: "push_words (v # vs) (base + of_nat off) vm = Some (base + of_nat (off - 4 * length (v # vs)), vm')"
    unfolding push_words.simps sp w(1) bind.bind_lunit r(1) by (simp add: diff_diff_eq)
  have last: "slice (page_list (vm_mem vm') p) ?o 4 = u32_bytes v"
    using o Cons.prems(2) w(3) lv by (subst keep [rule_format]) simp_all
  have "?o - 4 * length vs + 4 * length vs = ?o" using o(3) by simp
  then have "slice (page_list (vm_mem vm') p) (?o - 4 * length vs) (4 * length vs + 4) = concat (map u32_bytes (rev (v # vs)))"
    using r(3) last by (simp add: slice_add)
  moreover have "off - 4 * length (v # vs) = ?o - 4 * length vs" "4 * length (v # vs) = 4 * length vs + 4" by simp_all
  moreover have "slice (page_list (vm_mem vm') p) j n = slice (page_list (vm_mem vm) p) j n" if "off \<le> j" "j + n \<le> 4096" for j n
  proof -
    have "slice (page_list (vm_mem vm') p) j n = slice (page_list (vm_mem vm1) p) j n" using keep that by simp
    also have "\<dots> = slice (page_list (vm_mem vm) p) j n" unfolding w(3) by (rule blit_above) (use that o lv in simp_all)
    finally show ?thesis .
  qed
  ultimately show ?case using e r(2) by (metis (no_types, lifting))
qed

section \<open>Claims\<close>

text \<open>The bytes the block of pointers takes, with the room for alignment.\<close>

definition stack_need :: "bytes list \<Rightarrow> bytes list \<Rightarrow> nat" where
  "stack_need argv envp = strings_need argv + strings_need envp + 8 + 16 + 4 * (29 + length argv + length envp)"

definition stack_words :: "elf32_ehdr \<Rightarrow> u32 \<Rightarrow> u32 \<Rightarrow> u32 list \<Rightarrow> u32 list \<Rightarrow> u32 list" where
  "stack_words eh at_phdr at_random arg_ptrs env_ptrs =
     [of_nat (length arg_ptrs)] @ arg_ptrs @ [0] @ rev env_ptrs @ [0] @ rev (auxv eh at_phdr at_random)"

lemma length_auxv [simp]: "length (auxv eh a r) = 26"
  by (simp add: auxv_def)

lemma length_slots [simp]: "length (slots as off) = length as"
  by (induction as arbitrary: off) simp_all

lemma mod8_words:
  assumes "4 * n \<le> 8 * c"
  shows "(8 * c - 4 * n) mod 8 = (if even n then 0 else 4 :: nat)"
proof (cases "even n")
  case True
  then obtain m where "n = 2 * m" by blast
  then have "8 * c - 4 * n = 8 * (c - m)" by (simp add: right_diff_distrib')
  then show ?thesis using True by simp
next
  case False
  then obtain m where m: "n = 2 * m + 1" using oddE by blast
  then have "8 * c - 4 * n = 4 + 8 * (c - m - 1)" using assms by simp
  then have "(8 * c - 4 * n) mod 8 = 4" by simp
  then show ?thesis using False by simp
qed

lemma init_stack_law:
  assumes "user_page vm l1 fl live 0xBFFFF000 p" "stack_need argv envp \<le> 0xFF0"
  shows "\<exists>sp vm' args envs rnd. init_stack eh at_phdr argv envp vm = Some (sp, vm')
    \<and> user_read (4 * (29 + length argv + length envp)) sp vm' = Some (concat (map u32_bytes (stack_words eh at_phdr rnd args envs)))
    \<and> length args = length argv \<and> (\<forall>i < length argv. user_read (length (cstring (argv ! i)) + 1) (args ! i) vm' = Some (cstring (argv ! i) @ [0]))
    \<and> length envs = length envp \<and> (\<forall>i < length envp. user_read (length (cstring (envp ! i)) + 1) (envs ! i) vm' = Some (cstring (envp ! i) @ [0]))
    \<and> user_read 16 rnd vm' = Some (replicate 16 0x11)
    \<and> unat sp mod 8 = (if odd (length argv + length envp) then 0 else 4) \<and> user_page vm' l1 fl live 0xBFFFF000 p"
proof -
  let ?base = "0xBFFFF000 :: u32"
  have al: "?base AND 0xFFF = 0" by simp
  have top: "STACK_TOP = ?base + of_nat 0xFF0" by (simp add: STACK_TOP_def USER_TOP_def)
  have n1: "strings_need argv \<le> 0xFF0" using assms(2) by (simp add: stack_need_def)
  obtain vm1 where a: "copy_strings argv STACK_TOP vm = Some (map (\<lambda>o'. ?base + of_nat o') (slots argv 0xFF0), ?base + of_nat (slots_end argv 0xFF0), vm1)"
    "user_page vm1 l1 fl live ?base p"
    and as: "\<forall>i < length argv. slots argv 0xFF0 ! i + length (cstring (argv ! i)) + 1 \<le> 4096
        \<and> slice (page_list (vm_mem vm1) p) (slots argv 0xFF0 ! i) (length (cstring (argv ! i)) + 1) = cstring (argv ! i) @ [0]
        \<and> slots_end argv 0xFF0 \<le> slots argv 0xFF0 ! i"
    using copy_strings_law [OF assms(1) _ n1] unfolding top by auto
  define oa where "oa = slots_end argv 0xFF0"
  have oa: "oa \<le> 0xFF0" "0xFF0 \<le> oa + strings_need argv" using slots_end_bounds [OF n1] by (simp_all add: oa_def)
  have n2: "strings_need envp \<le> oa" "oa < 4096" using oa assms(2) by (simp_all add: stack_need_def)
  obtain vm2 where e: "copy_strings envp (?base + of_nat oa) vm1 = Some (map (\<lambda>o'. ?base + of_nat o') (slots envp oa), ?base + of_nat (slots_end envp oa), vm2)"
    "user_page vm2 l1 fl live ?base p"
    and es: "\<forall>i < length envp. slots envp oa ! i + length (cstring (envp ! i)) + 1 \<le> 4096
        \<and> slice (page_list (vm_mem vm2) p) (slots envp oa ! i) (length (cstring (envp ! i)) + 1) = cstring (envp ! i) @ [0]
        \<and> slots_end envp oa \<le> slots envp oa ! i"
    and ek: "\<forall>j n. oa \<le> j \<longrightarrow> j + n \<le> 4096 \<longrightarrow> slice (page_list (vm_mem vm2) p) j n = slice (page_list (vm_mem vm1) p) j n"
    using copy_strings_law [OF a(2) n2(2,1)] by auto
  define oe where "oe = slots_end envp oa"
  have oe: "oe \<le> oa" "oa \<le> oe + strings_need envp" using slots_end_bounds [OF n2(1)] by (simp_all add: oe_def)
  define r where "r = oe - oe mod 8 - 16"
  have big: "16 + 4 * (29 + length argv + length envp) \<le> oe - oe mod 8"
  proof -
    have "oe mod 8 < 8" by simp
    then show ?thesis using oe oa assms(2) unfolding stack_need_def by linarith
  qed
  have oel: "oe < 4096" using oe oa by simp
  have rb: "r + 16 = oe - oe mod 8" "r + 16 \<le> oe" "4 * (29 + length argv + length envp) \<le> r" using big by (simp_all add: r_def)
  have sp3: "ALIGN_DOWN (?base + of_nat oe) 8 - 16 = ?base + of_nat r"
    using align_offset [OF al oel] sub_offset [of 16 "oe - oe mod 8" ?base] rb(1) by (simp add: r_def)
  have "r + length (replicate 16 (0x11 :: u8)) \<le> 4096" using rb(2) oel by simp
  from user_write_page [OF e(2) this]
  obtain vm3 where w: "user_write (?base + of_nat r) (replicate 16 0x11) vm2 = Some vm3" "user_page vm3 l1 fl live ?base p"
    "page_list (vm_mem vm3) p = blit (page_list (vm_mem vm2) p) r (replicate 16 0x11)" by blast
  define args where "args = map (\<lambda>o'. ?base + of_nat o') (slots argv 0xFF0)"
  define envs where "envs = map (\<lambda>o'. ?base + of_nat o') (slots envp oa)"
  define vs where "vs = auxv eh at_phdr (?base + of_nat r) @ [0] @ envs @ [0] @ rev args @ [of_nat (length argv)]"
  have lvs: "length vs = 29 + length argv + length envp" by (simp add: vs_def args_def envs_def)
  have pr: "4 * length vs \<le> r" using rb(3) lvs by simp
  have rl: "r \<le> 4096" using rb(2) oel by simp
  obtain vm4 where f: "push_words vs (?base + of_nat r) vm3 = Some (?base + of_nat (r - 4 * length vs), vm4)" "user_page vm4 l1 fl live ?base p"
    "slice (page_list (vm_mem vm4) p) (r - 4 * length vs) (4 * length vs) = concat (map u32_bytes (rev vs))"
    and fk: "\<forall>j n. r \<le> j \<longrightarrow> j + n \<le> 4096 \<longrightarrow> slice (page_list (vm_mem vm4) p) j n = slice (page_list (vm_mem vm3) p) j n"
    using push_words_law [OF w(2) rl pr] by blast
  have up: "slice (page_list (vm_mem vm4) p) j n = slice (page_list (vm_mem vm2) p) j n" if "r + 16 \<le> j" "j + n \<le> 4096" for j n
  proof -
    have "slice (page_list (vm_mem vm4) p) j n = slice (page_list (vm_mem vm3) p) j n" using fk that by simp
    also have "\<dots> = slice (page_list (vm_mem vm2) p) j n" unfolding w(3) by (rule blit_above) (use that in simp_all)
    finally show ?thesis .
  qed
  have run: "init_stack eh at_phdr argv envp vm = Some (?base + of_nat (r - 4 * length vs), vm4)"
    using a(1) e(1) w(1) f(1) sp3 unfolding init_stack_def
    by (simp add: oa_def [symmetric] oe_def [symmetric] args_def [symmetric] envs_def [symmetric] reverse_pointers_rev vs_def)
  note rd = user_read_page [OF f(2)]
  have words: "user_read (4 * (29 + length argv + length envp)) (?base + of_nat (r - 4 * length vs)) vm4
      = Some (concat (map u32_bytes (stack_words eh at_phdr (?base + of_nat r) args envs)))"
  proof -
    have "rev vs = stack_words eh at_phdr (?base + of_nat r) args envs" by (simp add: vs_def stack_words_def args_def)
    then show ?thesis using rd [of "r - 4 * length vs" "4 * length vs"] f(3) pr rl lvs by simp
  qed
  have ra: "user_read (length (cstring (argv ! i)) + 1) (args ! i) vm4 = Some (cstring (argv ! i) @ [0])" if i: "i < length argv" for i
  proof -
    let ?s = "slots argv 0xFF0 ! i" and ?n = "length (cstring (argv ! i)) + 1"
    have b: "?s + ?n \<le> 4096" "slice (page_list (vm_mem vm1) p) ?s ?n = cstring (argv ! i) @ [0]" "oa \<le> ?s"
      using as [rule_format, OF i] by (simp_all add: oa_def)
    have "slice (page_list (vm_mem vm4) p) ?s ?n = slice (page_list (vm_mem vm2) p) ?s ?n" by (rule up) (use b oe rb in linarith)+
    also have "\<dots> = cstring (argv ! i) @ [0]" using ek b by simp
    finally show ?thesis using rd [OF b(1)] i by (simp add: args_def)
  qed
  have re: "user_read (length (cstring (envp ! i)) + 1) (envs ! i) vm4 = Some (cstring (envp ! i) @ [0])" if i: "i < length envp" for i
  proof -
    let ?s = "slots envp oa ! i" and ?n = "length (cstring (envp ! i)) + 1"
    have b: "?s + ?n \<le> 4096" "slice (page_list (vm_mem vm2) p) ?s ?n = cstring (envp ! i) @ [0]" "oe \<le> ?s"
      using es [rule_format, OF i] by (simp_all add: oe_def)
    have "slice (page_list (vm_mem vm4) p) ?s ?n = slice (page_list (vm_mem vm2) p) ?s ?n" by (rule up) (use b rb in linarith)+
    then show ?thesis using rd [OF b(1)] i b(2) by (simp add: envs_def)
  qed
  have rr: "user_read 16 (?base + of_nat r) vm4 = Some (replicate 16 0x11)"
  proof -
    have "slice (page_list (vm_mem vm4) p) r 16 = slice (page_list (vm_mem vm3) p) r 16" using fk rb(2) oel by simp
    also have "\<dots> = replicate 16 0x11" unfolding w(3) using rb(2) oel by (intro slice_blit_same) simp_all
    finally show ?thesis using rd [of r 16] rb(2) oel by simp
  qed
  have md: "unat (?base + of_nat (r - 4 * length vs)) mod 8 = (if odd (length argv + length envp) then 0 else 4)"
  proof -
    have c: "r = 8 * (oe div 8 - 2)" unfolding r_def by (simp add: minus_mod_eq_mult_div right_diff_distrib')
    have "unat (?base + of_nat (r - 4 * length vs)) = 0xBFFFF000 + (r - 4 * length vs)"
      using page_offset(3) [OF al, of "r - 4 * length vs"] rl pr lvs by simp
    moreover have "(0xBFFFF000 + (r - 4 * length vs)) mod 8 = (r - 4 * length vs) mod 8"
    proof -
      have "0xBFFFF000 + (r - 4 * length vs) = (r - 4 * length vs) + 8 * 402652672" by simp
      then show ?thesis by (metis mod_mult_self2)
    qed
    moreover have "(r - 4 * length vs) mod 8 = (if even (length vs) then 0 else 4)"
      using mod8_words [of "length vs" "oe div 8 - 2"] pr c by simp
    ultimately show ?thesis using lvs by simp
  qed
  have la: "length args = length argv" "length envs = length envp" by (simp_all add: args_def envs_def)
  define sp rnd where "sp = ?base + of_nat (r - 4 * length vs)" and "rnd = ?base + of_nat r"
  show ?thesis
  proof (intro exI conjI allI impI)
    show "init_stack eh at_phdr argv envp vm = Some (sp, vm4)" unfolding sp_def by (rule run)
    show "user_read (4 * (29 + length argv + length envp)) sp vm4 = Some (concat (map u32_bytes (stack_words eh at_phdr rnd args envs)))"
      unfolding sp_def rnd_def by (rule words)
    show "user_read 16 rnd vm4 = Some (replicate 16 0x11)" unfolding rnd_def by (rule rr)
    show "unat sp mod 8 = (if odd (length argv + length envp) then 0 else 4)" unfolding sp_def by (rule md)
  qed (fact la ra re f(2))+
qed

text \<open>The page that \<open>load_elf\<close> makes for the stack is such a page.\<close>

lemma made_user_page:
  assumes "pt_inv vm l1 fl live" "vm_active vm = l1" "base AND 0xFFF = 0" "unat base + 8191 < 4294967296"
    "1 \<le> avail (vm_ka vm) fl 6" "1 \<le> avail (vm_ka vm) fl 8" "\<not> has_page (vm_mem vm) l1 base"
  shows "\<exists>vm' fl' live' p. make_sure_user_space l1 base 4096 vm = Some vm' \<and> user_page vm' l1 fl' live' base p"
proof -
  have m: "unat base mod 4096 = 0" using unat_low12 [of base] assms(3) by simp
  have pc: "page_count base 4096 = 1" by (simp add: page_count_def m)
  have f: "base AND NOT 0xFFF = base" using page_floor [of base] m by (simp add: u32_eq_nat_iff)
  obtain vm' fl' live' where r: "make_sure_user_space l1 base 4096 vm = Some vm'" "pt_inv vm' l1 fl' live'" "live \<subseteq> live'"
    "vm_active vm' = vm_active vm" "range_mapped l1 base 1 vm live vm' live'"
    by (rule make_sure_law [OF assms(1), of base 4096, unfolded pc f, OF _ assms(5,6)]) (use assms(4) in auto)
  have "\<exists>p. mapped_at (vm_mem vm') l1 base p \<and> p \<in> used (cls (vm_ka vm') 8)"
    using r(5) assms(7) unfolding range_mapped_def by fastforce
  then show ?thesis using r assms(2,3) unfolding user_page_def by blast
qed

text \<open>C25: The stack a program starts with. With the stack page mapped and room for the strings, building the stack
  succeeds and the user finds, from its stack pointer upwards, the number of arguments, the argument
  pointers in order, a null, the environment pointers - last first - a null and the auxiliary vector, each
  pointer leading to its string. The stack pointer is a multiple of 8, which the procedure call standard
  asks for, only when the number of strings is odd.\<close>

theorem init_stack_layout:
  assumes "user_page vm l1 fl live 0xBFFFF000 p" "stack_need argv envp \<le> 0xFF0"
  shows "\<exists>sp vm' args envs rnd. init_stack eh at_phdr argv envp vm = Some (sp, vm')
    \<and> user_read (4 * (29 + length argv + length envp)) sp vm' = Some (concat (map u32_bytes (stack_words eh at_phdr rnd args envs)))
    \<and> length args = length argv \<and> (\<forall>i < length argv. user_read (length (cstring (argv ! i)) + 1) (args ! i) vm' = Some (cstring (argv ! i) @ [0]))
    \<and> length envs = length envp \<and> (\<forall>i < length envp. user_read (length (cstring (envp ! i)) + 1) (envs ! i) vm' = Some (cstring (envp ! i) @ [0]))
    \<and> user_read 16 rnd vm' = Some (replicate 16 0x11)
    \<and> unat sp mod 8 = (if odd (length argv + length envp) then 0 else 4) \<and> user_page vm' l1 fl live 0xBFFFF000 p"
  by (rule init_stack_law [OF assms])

theorem init_stack_layout_witness:
  "\<exists>vm sp vm'. init_stack (ehdr_at (replicate 52 0)) 0 [[115, 104]] [[80], [84]] vm = Some (sp, vm') \<and> unat sp mod 8 = 0"
proof -
  obtain fl where f: "pt_inv fresh_vm 0xC77F0000 fl {0xC77F0000}" "2 \<le> avail (vm_ka fresh_vm) fl 6" "2 \<le> avail (vm_ka fresh_vm) fl 8"
    using fresh_vm_inv by blast
  have h: "\<not> has_page (vm_mem fresh_vm) 0xC77F0000 0xBFFFF000" by (simp add: has_page_def coarse_def e1_def fresh_vm_def load32_def)
  obtain vm' fl' live' p where "user_page vm' 0xC77F0000 fl' live' 0xBFFFF000 p"
    using made_user_page [OF f(1), of "0xBFFFF000"] h f(2,3) by (auto simp: fresh_vm_def)
  moreover have "stack_need [[115, 104]] [[80], [84]] \<le> 0xFF0" by (simp add: stack_need_def strings_need_def)
  ultimately obtain sp vm'' where st: "init_stack (ehdr_at (replicate 52 0)) 0 [[115, 104]] [[80], [84]] vm' = Some (sp, vm'')"
    and m: "unat sp mod 8 = (if odd (length [[115 :: u8, 104]] + length [[80 :: u8], [84]]) then 0 else 4)"
    using init_stack_layout [of vm' "0xC77F0000" fl' live' p "[[115, 104]]" "[[80], [84]]" "ehdr_at (replicate 52 0)" 0]
    by blast
  from m have m: "unat sp mod 8 = 0" by simp
  show ?thesis by (rule exI, rule exI, rule exI, rule conjI [OF st m])
qed

end
