(* ===== verification/Kernel.thy ===== *)
theory Kernel
  imports Elf
begin

text \<open>
  The whole kernel's state, and what ties the scheduler to the rest of it: final/src/int.c and the parts of
  sched.c and tty.c that wait. The scheduler's state, the open files, the terminal, the screen and the
  volume are those of their theories; the descriptor calls work on the current thread's table. The
  script \<open>k_keys\<close> says what every coming timer tick finds on the keyboard: it is the outside world, and a
  wait that outlasts it has no value. Reading and writing user memory goes through the active page table;
  touching an address that is not mapped has no value.
\<close>

section \<open>State\<close>

record kernel =
  k_sched :: sched
  k_files :: "nat \<Rightarrow> kfile option"
  k_next_file :: nat
  k_tty :: tty_state
  k_screen :: "u8 list"
  k_fs :: fs_state
  k_keys :: "u8 list list"

abbreviation k_cur :: "kernel \<Rightarrow> rpi_thread" where
  "k_cur k \<equiv> cur_thread (k_sched k)"

definition upd_cur :: "(rpi_thread \<Rightarrow> rpi_thread) \<Rightarrow> kernel \<Rightarrow> kernel" where
  "upd_cur f k = k\<lparr>k_sched := upd_thread (cur (k_sched k)) f (k_sched k)\<rparr>"

definition set_vm :: "vm_state \<Rightarrow> kernel \<Rightarrow> kernel" where
  "set_vm vm k = k\<lparr>k_sched := (k_sched k)\<lparr>svm := vm\<rparr>\<rparr>"

text \<open>The directory string of the current thread: another thread's chdir may have freed it.\<close>

definition cwd_of :: "kernel \<Rightarrow> bytes option" where
  "cwd_of k = strings (k_sched k) (cwd (k_cur k))"

definition io_of :: "kernel \<Rightarrow> io_state" where
  "io_of k = \<lparr>io_fdt = fdt (k_cur k), io_files = k_files k, io_next = k_next_file k, io_tty = k_tty k, io_screen = k_screen k,
     io_fs = k_fs k, io_cwd = (case cwd_of k of None \<Rightarrow> [] | Some w \<Rightarrow> w)\<rparr>"

definition put_io :: "io_state \<Rightarrow> kernel \<Rightarrow> kernel" where
  "put_io st k = upd_cur (\<lambda>th. th\<lparr>fdt := io_fdt st\<rparr>)
     (k\<lparr>k_files := io_files st, k_next_file := io_next st, k_tty := io_tty st, k_screen := io_screen st, k_fs := io_fs st\<rparr>)"

definition with_io :: "(io_state \<Rightarrow> (u32 \<times> io_state) option) \<Rightarrow> kernel \<Rightarrow> (u32 \<times> kernel) option" where
  "with_io f k = map_option (\<lambda>(r, st). (r, put_io st k)) (f (io_of k))"

section \<open>User memory\<close>

abbreviation k_vm :: "kernel \<Rightarrow> vm_state" where
  "k_vm k \<equiv> svm (k_sched k)"

definition k_write :: "u32 \<Rightarrow> u8 list \<Rightarrow> kernel \<Rightarrow> kernel option" where
  "k_write va bs k = map_option (\<lambda>vm. set_vm vm k) (user_write va bs (k_vm k))"

definition user_word :: "u32 \<Rightarrow> vm_state \<Rightarrow> u32 option" where
  "user_word va vm = map_option (\<lambda>bs. read_u32 bs 0) (user_read 4 va vm)"

fun user_string :: "nat \<Rightarrow> u32 \<Rightarrow> vm_state \<Rightarrow> bytes option" where
  "user_string 0 va vm = None"
| "user_string (Suc n) va vm = do {
     b \<leftarrow> user_load vm va;
     if b = 0 then Some [] else map_option (\<lambda>s. b # s) (user_string n (va + 1) vm)
   }"

text \<open>The words of an array up to its null entry.\<close>

fun user_words :: "nat \<Rightarrow> u32 \<Rightarrow> vm_state \<Rightarrow> u32 list option" where
  "user_words 0 va vm = None"
| "user_words (Suc n) va vm = do {
     w \<leftarrow> user_word va vm;
     if w = 0 then Some [] else map_option (\<lambda>ws. w # ws) (user_words n (va + 4) vm)
   }"

fun user_strings :: "nat \<Rightarrow> u32 list \<Rightarrow> vm_state \<Rightarrow> bytes list option" where
  "user_strings n [] vm = Some []"
| "user_strings n (p # ps) vm = do { s \<leftarrow> user_string n p vm; map_option (\<lambda>ss. s # ss) (user_strings n ps vm) }"

section \<open>A timer tick\<close>

text \<open>The two calls every timer interrupt makes.\<close>

definition timer_tick :: "u8 list \<Rightarrow> kernel \<Rightarrow> kernel" where
  "timer_tick keys k =
     (case tty_system_process_tty keys (k_tty k) of (shown, t) \<Rightarrow>
        k\<lparr>k_tty := t, k_screen := k_screen k @ shown, k_sched := tick_try_to_wake_up (k_sched k)\<rparr>)"

section \<open>Scheduling\<close>

text \<open>What a trap ends with: a return to the context it came from, a switch to the current thread's saved
  context, a new kernel started at an address, or a reboot.\<close>

datatype trap_end = Returned saved_context kernel | Resumed kernel | Replaced u32 "u8 list" | Rebooted

text \<open>\<open>while (sleeping_q && !ready_q)\<close> with interrupts on: each round is one timer interrupt taken in
  supervisor mode.\<close>

fun idle_wait :: "u8 list list \<Rightarrow> kernel \<Rightarrow> kernel option" where
  "idle_wait keys k =
     (if sleeping_q (k_sched k) \<noteq> [] \<and> ready_q (k_sched k) = []
      then (case keys of [] \<Rightarrow> None | ks # rest \<Rightarrow> idle_wait rest (timer_tick ks k))
      else Some (k\<lparr>k_keys := keys\<rparr>))"

fun k_do_sched :: "nat \<Rightarrow> saved_context option \<Rightarrow> kernel \<Rightarrow> trap_end option" where
  "k_do_sched fuel saved_sp k =
     (case t_pop (save_ctx saved_sp (k_sched k)) of (nxt, s1) \<Rightarrow>
        (if (case nxt of None \<Rightarrow> False | Some t \<Rightarrow> \<not> exited (threads s1 t) \<and> ready (threads s1 t))
         then Some (Resumed (k\<lparr>k_sched := switch_to (the nxt) s1\<rparr>))
         else if exited (cur_thread s1) \<or> \<not> ready (cur_thread s1) then
           (case idle_wait (k_keys k) (k\<lparr>k_sched := s1\<rparr>) of None \<Rightarrow> None
            | Some k2 \<Rightarrow>
                if ready_q (k_sched k2) \<noteq> [] then (case fuel of 0 \<Rightarrow> None | Suc n \<Rightarrow> k_do_sched n saved_sp k2)
                else Some Rebooted)
         else Some (Resumed (k\<lparr>k_sched := s1\<rparr>))))"

declare idle_wait.simps [simp del] k_do_sched.simps [simp del]

definition k_svc_sleep :: "nat \<Rightarrow> u32 \<Rightarrow> kernel \<Rightarrow> trap_end option" where
  "k_svc_sleep fuel n k =
     (let k1 = upd_cur (\<lambda>th. th\<lparr>ready := False\<rparr>) k
      in k_do_sched fuel None (k1\<lparr>k_sched := s_push (cur (k_sched k1), n) (k_sched k1)\<rparr>))"

definition k_exit :: "nat \<Rightarrow> saved_context \<Rightarrow> kernel \<Rightarrow> trap_end option" where
  "k_exit fuel c k =
     (let k1 = upd_cur (\<lambda>th. th\<lparr>exited := True\<rparr>) k
      in k_do_sched fuel (Some c) (set_vm (free_L1_page_table (l1_pt (k_cur k1)) (k_vm k1)) k1))"

section \<open>The kernel's scheduling refines the scheduler\<close>

text \<open>Forgetting the terminal and the screen gives the scheduler of its own theory, for as many ticks as
  the script has.\<close>

definition sched_end :: "trap_end \<Rightarrow> outcome option" where
  "sched_end r = (case r of Resumed k \<Rightarrow> Some (Resume (k_sched k)) | Rebooted \<Rightarrow> Some Panic | _ \<Rightarrow> None)"

lemma timer_tick_sched: "k_sched (timer_tick keys k) = tick_try_to_wake_up (k_sched k)"
  by (simp add: timer_tick_def split: prod.splits)

lemma idle_loop_mono: "idle_loop n s = Some s' \<Longrightarrow> n \<le> m \<Longrightarrow> idle_loop m s = Some s'"
proof (induction n arbitrary: s m)
  case 0
  then have "\<not> (sleeping_q s \<noteq> [] \<and> ready_q s = [])" "s' = s" by (subst (asm) idle_loop.simps, auto split: if_splits)+
  then show ?case by (subst idle_loop.simps) auto
next
  case (Suc n)
  then obtain j where j: "m = Suc j" "n \<le> j" by (cases m) auto
  show ?case
  proof (cases "sleeping_q s \<noteq> [] \<and> ready_q s = []")
    case True
    then have "idle_loop n (tick_try_to_wake_up s) = Some s'" using Suc.prems(1) by (subst (asm) idle_loop.simps) simp
    then have "idle_loop j (tick_try_to_wake_up s) = Some s'" using Suc.IH j(2) by blast
    then show ?thesis using True j(1) by (subst idle_loop.simps) simp
  next
    case False
    then show ?thesis using Suc.prems(1) by (subst idle_loop.simps, subst (asm) idle_loop.simps) auto
  qed
qed

lemma idle_wait_law:
  "idle_wait keys k = Some k' \<Longrightarrow> idle_loop (length keys) (k_sched k) = Some (k_sched k') \<and> length (k_keys k') \<le> length keys"
proof (induction keys arbitrary: k)
  case Nil
  then show ?case by (subst (asm) idle_wait.simps, subst idle_loop.simps) (auto split: if_splits)
next
  case (Cons ks rest)
  show ?case
  proof (cases "sleeping_q (k_sched k) \<noteq> [] \<and> ready_q (k_sched k) = []")
    case True
    then have "idle_wait rest (timer_tick ks k) = Some k'" using Cons.prems by (subst (asm) idle_wait.simps) simp
    then show ?thesis using Cons.IH True timer_tick_sched by (subst idle_loop.simps) fastforce
  next
    case False
    then have "k' = k\<lparr>k_keys := ks # rest\<rparr>" using Cons.prems by (subst (asm) idle_wait.simps) auto
    then show ?thesis using False by (subst idle_loop.simps) auto
  qed
qed

lemma idle_wait_total:
  assumes "idle_loop n (k_sched k) = Some s'" "n \<le> length keys"
  shows "\<exists>k'. idle_wait keys k = Some k'"
  using assms
proof (induction keys arbitrary: n k)
  case Nil
  then have "\<not> (sleeping_q (k_sched k) \<noteq> [] \<and> ready_q (k_sched k) = [])" by (subst (asm) idle_loop.simps) auto
  then show ?case by (subst idle_wait.simps) simp
next
  case (Cons ks rest)
  show ?case
  proof (cases "sleeping_q (k_sched k) \<noteq> [] \<and> ready_q (k_sched k) = []")
    case True
    then obtain j where "n = Suc j" "idle_loop j (tick_try_to_wake_up (k_sched k)) = Some s'"
      using Cons.prems(1) by (subst (asm) idle_loop.simps) (auto split: nat.splits)
    then show ?thesis using Cons.IH [of j "timer_tick ks k"] Cons.prems(2) True
      by (subst idle_wait.simps) (simp add: timer_tick_sched)
  qed (subst idle_wait.simps, auto)
qed

lemma cs_do_sched_mono: "cs_do_sched fuel n c s = Some r \<Longrightarrow> n \<le> m \<Longrightarrow> cs_do_sched fuel m c s = Some r"
proof (induction fuel arbitrary: s)
  case 0
  show ?case
  proof (cases s rule: cs_do_sched_cases)
    case (switch t q)
    then show ?thesis using 0 cs_do_sched_head by metis
  next
    case go
    then show ?thesis using 0 cs_do_sched_continue by metis
  next
    case stop
    obtain s2 where s2: "idle_loop n ((save_ctx c s)\<lparr>ready_q := tl (ready_q s)\<rparr>) = Some s2"
      using 0(1) cs_do_sched_wait [OF stop] by (cases "idle_loop n ((save_ctx c s)\<lparr>ready_q := tl (ready_q s)\<rparr>)") auto
    then show ?thesis using 0 cs_do_sched_wait [OF stop] idle_loop_mono [OF s2 0(2)] by (simp split: if_splits)
  qed
next
  case (Suc j)
  show ?case
  proof (cases s rule: cs_do_sched_cases)
    case (switch t q)
    then show ?thesis using Suc.prems cs_do_sched_head by metis
  next
    case go
    then show ?thesis using Suc.prems cs_do_sched_continue by metis
  next
    case stop
    obtain s2 where s2: "idle_loop n ((save_ctx c s)\<lparr>ready_q := tl (ready_q s)\<rparr>) = Some s2"
      using Suc.prems(1) cs_do_sched_wait [OF stop] by (cases "idle_loop n ((save_ctx c s)\<lparr>ready_q := tl (ready_q s)\<rparr>)") auto
    then show ?thesis
      using Suc.prems Suc.IH [of s2] cs_do_sched_wait [OF stop] idle_loop_mono [OF s2 Suc.prems(2)] by (simp split: if_splits)
  qed
qed

text \<open>The same three ways on the kernel's state.\<close>

lemma k_do_sched_head:
  assumes "ready_q (k_sched k) = t # q" "\<not> exited (threads (k_sched k) t)" "ready (threads (k_sched k) t)"
  shows "k_do_sched fuel c k = Some (Resumed (k\<lparr>k_sched := switch_to t ((save_ctx c (k_sched k))\<lparr>ready_q := q\<rparr>)\<rparr>))"
  using assms by (subst k_do_sched.simps) (simp add: t_pop_law save_ctx_fields)

lemma k_do_sched_continue:
  assumes "ready_q (k_sched k) = [] \<or> exited (threads (k_sched k) (hd (ready_q (k_sched k)))) \<or> \<not> ready (threads (k_sched k) (hd (ready_q (k_sched k))))"
    "\<not> exited (k_cur k)" "ready (k_cur k)"
  shows "k_do_sched fuel c k = Some (Resumed (k\<lparr>k_sched := (save_ctx c (k_sched k))\<lparr>ready_q := tl (ready_q (k_sched k))\<rparr>\<rparr>))"
  using assms by (subst k_do_sched.simps) (auto simp: t_pop_law save_ctx_fields)

lemma k_do_sched_wait:
  assumes "ready_q (k_sched k) = [] \<or> exited (threads (k_sched k) (hd (ready_q (k_sched k)))) \<or> \<not> ready (threads (k_sched k) (hd (ready_q (k_sched k))))"
    "exited (k_cur k) \<or> \<not> ready (k_cur k)"
  shows "k_do_sched fuel c k =
    (case idle_wait (k_keys k) (k\<lparr>k_sched := (save_ctx c (k_sched k))\<lparr>ready_q := tl (ready_q (k_sched k))\<rparr>\<rparr>) of None \<Rightarrow> None
     | Some k2 \<Rightarrow> if ready_q (k_sched k2) \<noteq> [] then (case fuel of 0 \<Rightarrow> None | Suc n \<Rightarrow> k_do_sched n c k2) else Some Rebooted)"
  using assms by (subst k_do_sched.simps) (auto simp: t_pop_law save_ctx_fields)

text \<open>What the wait leaves alone.\<close>

definition io_same :: "kernel \<Rightarrow> kernel \<Rightarrow> bool" where
  "io_same a b \<longleftrightarrow> k_files b = k_files a \<and> k_next_file b = k_next_file a \<and> k_fs b = k_fs a \<and> (tty_inv (k_tty a) \<longrightarrow> tty_inv (k_tty b))"

lemma io_same_tick: "io_same k (timer_tick keys k)"
proof -
  have "tty_inv (k_tty k) \<Longrightarrow> tty_inv (snd (tty_system_process_tty keys (k_tty k)))"
    using process_tty_inv by (metis prod.collapse)
  then show ?thesis by (auto simp: io_same_def timer_tick_def split: prod.splits)
qed

lemma idle_wait_io: "idle_wait keys k = Some k' \<Longrightarrow> io_same k k'"
proof (induction keys arbitrary: k)
  case Nil
  then show ?case by (subst (asm) idle_wait.simps) (auto simp: io_same_def split: if_splits)
next
  case (Cons ks rest)
  show ?case
  proof (cases "sleeping_q (k_sched k) \<noteq> [] \<and> ready_q (k_sched k) = []")
    case True
    then have "idle_wait rest (timer_tick ks k) = Some k'" using Cons.prems by (subst (asm) idle_wait.simps) simp
    then show ?thesis using Cons.IH io_same_tick [of k ks] unfolding io_same_def by (metis (no_types, lifting))
  next
    case False
    then have "k' = k\<lparr>k_keys := ks # rest\<rparr>" using Cons.prems by (subst (asm) idle_wait.simps) auto
    then show ?thesis by (simp add: io_same_def)
  qed
qed

lemma k_do_sched_refines_law:
  assumes "k_do_sched fuel c k = Some r"
  shows "\<exists>out. sched_end r = Some out \<and> cs_do_sched fuel (length (k_keys k)) c (k_sched k) = Some out"
    "r = Resumed k' \<Longrightarrow> io_same k k'"
proof -
  have "(\<exists>out. sched_end r = Some out \<and> cs_do_sched fuel (length (k_keys k)) c (k_sched k) = Some out)
    \<and> (\<forall>k'. r = Resumed k' \<longrightarrow> io_same k k')"
    using assms
  proof (induction fuel arbitrary: k rule: less_induct)
    case (less fuel)
    show ?case
    proof (cases "k_sched k" rule: cs_do_sched_cases)
      case (switch t q)
      then show ?thesis using less.prems k_do_sched_head [OF switch] cs_do_sched_head [OF switch]
        by (auto simp: sched_end_def io_same_def)
    next
      case go
      then show ?thesis using less.prems k_do_sched_continue [OF go] cs_do_sched_continue [OF go]
        by (auto simp: sched_end_def io_same_def)
    next
      case stop
      let ?p = "k\<lparr>k_sched := (save_ctx c (k_sched k))\<lparr>ready_q := tl (ready_q (k_sched k))\<rparr>\<rparr>"
      obtain k2 where k2: "idle_wait (k_keys k) ?p = Some k2"
        using less.prems k_do_sched_wait [OF stop] by (cases "idle_wait (k_keys k) ?p") auto
      note w = idle_wait_law [OF k2]
      have io: "io_same k k2" using idle_wait_io [OF k2] by (simp add: io_same_def)
      show ?thesis
      proof (cases "ready_q (k_sched k2) = []")
        case True
        then show ?thesis using less.prems k_do_sched_wait [OF stop] cs_do_sched_wait [OF stop] k2 w by (auto simp: sched_end_def)
      next
        case False
        then obtain n where n: "fuel = Suc n" "k_do_sched n c k2 = Some r"
          using less.prems k_do_sched_wait [OF stop] k2 by (auto split: nat.splits)
        then obtain out where out: "sched_end r = Some out" "cs_do_sched n (length (k_keys k2)) c (k_sched k2) = Some out"
          and io2: "\<forall>k'. r = Resumed k' \<longrightarrow> io_same k2 k'" using less.IH [of n k2] by auto
        have "cs_do_sched n (length (k_keys k)) c (k_sched k2) = Some out" using cs_do_sched_mono [OF out(2)] w by blast
        then have "cs_do_sched fuel (length (k_keys k)) c (k_sched k) = Some out"
          using cs_do_sched_wait [OF stop] w n(1) False by simp
        moreover have "\<forall>k'. r = Resumed k' \<longrightarrow> io_same k k'" using io io2 unfolding io_same_def by simp
        ultimately show ?thesis using out(1) by blast
      qed
    qed
  qed
  then show "\<exists>out. sched_end r = Some out \<and> cs_do_sched fuel (length (k_keys k)) c (k_sched k) = Some out"
    "r = Resumed k' \<Longrightarrow> io_same k k'" by blast+
qed

text \<open>With enough ticks in the script and enough fuel for the queue, scheduling comes to an end.\<close>

lemma k_do_sched_total_law:
  assumes "sched_ok (k_sched k)" "length (ready_q (k_sched k)) < fuel"
    "\<And>t n. (t, n) \<in> set (sleeping_q (k_sched k)) \<Longrightarrow> wait n \<le> length (k_keys k)"
  shows "\<exists>r. k_do_sched fuel c k = Some r"
  using assms
proof (induction fuel arbitrary: k)
  case 0
  then show ?case by simp
next
  case (Suc n)
  show ?case
  proof (cases "k_sched k" rule: cs_do_sched_cases)
    case (switch t q)
    then show ?thesis using k_do_sched_head by blast
  next
    case go
    then show ?thesis using k_do_sched_continue by blast
  next
    case stop
    let ?s = "(save_ctx c (k_sched k))\<lparr>ready_q := tl (ready_q (k_sched k))\<rparr>"
    let ?p = "k\<lparr>k_sched := ?s\<rparr>"
    have "\<And>t m. (t, m) \<in> set (sleeping_q ?s) \<Longrightarrow> wait m \<le> length (k_keys k)" using Suc.prems(3) by (simp add: save_ctx_fields)
    then obtain s2 where s2: "idle_loop (length (k_keys k)) ?s = Some s2" using idle_loop_total by blast
    then obtain k2 where k2: "idle_wait (k_keys k) ?p = Some k2" using idle_wait_total [of "length (k_keys k)" ?p s2 "k_keys k"] by auto
    have e2: "k_sched k2 = s2" using idle_wait_law [OF k2] s2 by simp
    note w = sched_waited [OF Suc.prems(1) stop s2]
    have e: "k_do_sched (Suc n) c k = (if ready_q s2 \<noteq> [] then k_do_sched n c k2 else Some Rebooted)"
      using k_do_sched_wait [OF stop] k2 e2 by simp
    show ?thesis
    proof (cases "sleeping_q ?s \<noteq> [] \<and> ready_q ?s = []")
      case True
      consider "ready_q s2 = []" | t q where "ready_q s2 = t # q" "\<not> exited (threads s2 t)" "ready (threads s2 t)"
        | "ready_q s2 \<noteq> []" "ready_q s2 = tl (ready_q (k_sched k))" using w(4) by blast
      then show ?thesis
      proof cases
        case 2
        then show ?thesis using e e2 k_do_sched_head [of k2] by auto
      qed (use e True in auto)
    next
      case False
      then have "k2 = ?p" using k2 by (subst (asm) idle_wait.simps) auto
      then have f: "ready_q (k_sched k2) = tl (ready_q (k_sched k))" "sleeping_q (k_sched k2) = sleeping_q (k_sched k)"
        "k_keys k2 = k_keys k" by (simp_all add: save_ctx_fields)
      show ?thesis
      proof (cases "ready_q s2 = []")
        case False
        then have "length (ready_q (k_sched k2)) < n" using Suc.prems(2) f(1) e2 by (cases "ready_q (k_sched k)") auto
        then show ?thesis using e False Suc.IH [of k2] Suc.prems(3) w(1) e2 f by simp
      qed (use e in simp)
    qed
  qed
qed

section \<open>Round robin\<close>

text \<open>Who runs next, said without the scheduler's code. The first of the ready queue runs if it can, and the thread that ran goes
  to the back; if it cannot, it is dropped and the thread that ran goes on. If that one cannot run either, the first thread
  of the queue that can runs; if there is none, those whose count runs out first wake, in the order of the sleeping queue, and
  the first of them runs; the thread that ran is queued behind them if it is one of those, even when it is the one that
  runs. The result is the thread, the ready queue and the number of ticks that went by; with no sleeper there is none.\<close>

definition can_run :: "sched \<Rightarrow> nat \<Rightarrow> bool" where
  "can_run s t \<longleftrightarrow> \<not> exited (threads s t) \<and> ready (threads s t)"

definition first_wait :: "(nat \<times> u32) list \<Rightarrow> nat" where
  "first_wait q = Min (set (map (\<lambda>(t, m). wait m) q))"

definition waits_for :: "nat \<Rightarrow> (nat \<times> u32) list \<Rightarrow> nat list" where
  "waits_for n q = map fst (filter (\<lambda>(t, m). wait m = n) q)"

definition sleep_after :: "nat \<Rightarrow> (nat \<times> u32) list \<Rightarrow> (nat \<times> u32) list" where
  "sleep_after n q = map (\<lambda>(t, m). (t, m - of_nat n)) (filter (\<lambda>(t, m). wait m \<noteq> n) q)"

definition next_up :: "sched \<Rightarrow> (nat \<times> nat list \<times> nat) option" where
  "next_up s =
     (let c = cur s; q = ready_q s in
      if q \<noteq> [] \<and> can_run s (hd q) then Some (hd q, tl q @ (if can_run s c then [c] else []), 0)
      else if can_run s c then Some (c, tl q, 0)
      else case dropWhile (\<lambda>t. \<not> can_run s t) q of
        t # q' \<Rightarrow> Some (t, q', 0)
      | [] \<Rightarrow> if sleeping_q s = [] then None
             else let n = first_wait (sleeping_q s); w = waits_for n (sleeping_q s) in Some (hd w, tl w @ (if c \<in> set w then [c] else []), n))"

text \<open>What the switch to that thread leaves: the interrupted context saved in the thread that ran, the sleepers counted
  down, those awake whose count ran out, the page table and the thread pointer of the thread that runs in the processor, the
  keyboard polled at every tick, files and volume as they were.\<close>

definition switched :: "saved_context option \<Rightarrow> nat \<Rightarrow> nat list \<Rightarrow> nat \<Rightarrow> kernel \<Rightarrow> kernel \<Rightarrow> bool" where
  "switched c t q n k k' \<longleftrightarrow>
     (let s = k_sched k; s' = k_sched k' in
      cur s' = t \<and> ready_q s' = q \<and> sleeping_q s' = sleep_after n (sleeping_q s)
      \<and> (\<forall>u. threads s' u = (threads s u)\<lparr>ready := ready (threads s u) \<or> u \<in> set (waits_for n (sleeping_q s)),
              ctx := (case c of Some x \<Rightarrow> if u = cur s then x else ctx (threads s u) | None \<Rightarrow> ctx (threads s u))\<rparr>)
      \<and> svm s' = (svm s)\<lparr>vm_active := l1_pt (threads s t)\<rparr> \<and> (t \<noteq> cur s \<longrightarrow> tls_reg s' = tls_base (threads s t))
      \<and> k_keys k' = drop n (k_keys k) \<and> k_tty k' = k_tty (fold timer_tick (take n (k_keys k)) k)
      \<and> k_screen k' = k_screen (fold timer_tick (take n (k_keys k)) k) \<and> k_files k' = k_files k \<and> k_fs k' = k_fs k)"

lemma wait_one: "wait m = 1 \<longleftrightarrow> m = 1"
  by (cases "m = 0") (simp_all add: wait_def u32_eq_nat_iff)

lemma wait_less: "Suc n \<le> wait m \<Longrightarrow> n \<noteq> 0 \<Longrightarrow> m \<noteq> 1"
  using wait_one [of m] by fastforce

lemma sleep_after_zero: "sleep_after 0 q = q" "waits_for 0 q = []"
proof -
  have "wait m \<noteq> 0" for m using wait_pos [of m] by simp
  then show "sleep_after 0 q = q" "waits_for 0 q = []" by (simp_all add: sleep_after_def waits_for_def case_prod_beta)
qed

lemma one_tick: "wakes q = waits_for 1 q" "sleeps_on q = sleep_after 1 q"
  by (simp_all add: wakes_def waits_for_def sleeps_on_def sleep_after_def wait_one del: One_nat_def)

text \<open>A tick that wakes nobody brings every sleeper one tick nearer.\<close>

lemma quiet_tick:
  assumes "\<forall>(t, m) \<in> set q. Suc n \<le> wait m" "n \<noteq> 0"
  shows "wakes q = []" "waits_for n (sleeps_on q) = waits_for (Suc n) q" "sleep_after n (sleeps_on q) = sleep_after (Suc n) q"
    "\<forall>(t, m) \<in> set (sleeps_on q). n \<le> wait m"
proof -
  have "wakes q = [] \<and> waits_for n (sleeps_on q) = waits_for (Suc n) q \<and> sleep_after n (sleeps_on q) = sleep_after (Suc n) q
      \<and> (\<forall>(t, m) \<in> set (sleeps_on q). n \<le> wait m)"
    using assms
  proof (induction q)
    case Nil
    then show ?case by (simp add: wakes_simps waits_for_def sleep_after_def)
  next
    case (Cons x q)
    obtain t m where x: "x = (t, m)" by (cases x)
    have m: "m \<noteq> 1" "wait m = Suc (wait (m - 1))" using wait_less [of n m] wait_less_one [of m] Cons.prems x by auto
    have "m - 1 - of_nat n = m - of_nat (Suc n)" by simp
    then show ?case using Cons x m by (simp add: wakes_simps waits_for_def sleep_after_def)
  qed
  then show "wakes q = []" "waits_for n (sleeps_on q) = waits_for (Suc n) q" "sleep_after n (sleeps_on q) = sleep_after (Suc n) q"
    "\<forall>(t, m) \<in> set (sleeps_on q). n \<le> wait m" by blast+
qed

lemma timer_tick_fields:
  "k_files (timer_tick ks k) = k_files k" "k_fs (timer_tick ks k) = k_fs k" "k_keys (timer_tick ks k) = k_keys k"
  by (simp_all add: timer_tick_def split: prod.splits)

text \<open>Waiting with an empty ready queue takes as many ticks as the first sleeper needs.\<close>

lemma idle_wait_first:
  assumes "ready_q (k_sched k) = []" "\<forall>(t, m) \<in> set (sleeping_q (k_sched k)). n \<le> wait m" "waits_for n (sleeping_q (k_sched k)) \<noteq> []" "0 < n" "n \<le> length keys"
  shows "idle_wait keys k = Some ((fold timer_tick (take n keys) k)\<lparr>k_keys := drop n keys\<rparr>)
    \<and> k_sched (fold timer_tick (take n keys) k) = (k_sched k)\<lparr>ready_q := waits_for n (sleeping_q (k_sched k)),
        sleeping_q := sleep_after n (sleeping_q (k_sched k)),
        threads := (\<lambda>t. if t \<in> set (waits_for n (sleeping_q (k_sched k))) then (threads (k_sched k) t)\<lparr>ready := True\<rparr> else threads (k_sched k) t)\<rparr>
    \<and> k_files (fold timer_tick (take n keys) k) = k_files k \<and> k_fs (fold timer_tick (take n keys) k) = k_fs k"
  using assms
proof (induction n arbitrary: keys k)
  case (Suc n)
  let ?q = "sleeping_q (k_sched k)"
  obtain ks rest where keys: "keys = ks # rest" using Suc.prems(5) by (cases keys) auto
  have sl: "?q \<noteq> []" using Suc.prems(3) by (auto simp: waits_for_def)
  have step: "idle_wait keys k = idle_wait rest (timer_tick ks k)" using sl Suc.prems(1) by (subst idle_wait.simps) (simp add: keys)
  have tk: "k_sched (timer_tick ks k) = (k_sched k)\<lparr>sleeping_q := sleeps_on ?q, ready_q := wakes ?q,
      threads := (\<lambda>t. if t \<in> set (wakes ?q) then (threads (k_sched k) t)\<lparr>ready := True\<rparr> else threads (k_sched k) t)\<rparr>"
    using Suc.prems(1) by (simp add: timer_tick_sched tick_law)
  show ?case
  proof (cases "n = 0")
    case True
    have "wakes ?q \<noteq> []" using Suc.prems(3) True by (simp add: one_tick)
    then have "idle_wait rest (timer_tick ks k) = Some ((timer_tick ks k)\<lparr>k_keys := rest\<rparr>)" by (subst idle_wait.simps) (simp add: tk)
    then show ?thesis using step True by (simp add: keys tk timer_tick_fields one_tick)
  next
    case False
    note qt = quiet_tick [OF Suc.prems(2) False]
    have "idle_wait rest (timer_tick ks k) = Some ((fold timer_tick (take n rest) (timer_tick ks k))\<lparr>k_keys := drop n rest\<rparr>)
      \<and> k_sched (fold timer_tick (take n rest) (timer_tick ks k)) = (k_sched (timer_tick ks k))\<lparr>ready_q := waits_for n (sleeps_on ?q),
        sleeping_q := sleep_after n (sleeps_on ?q),
        threads := (\<lambda>t. if t \<in> set (waits_for n (sleeps_on ?q)) then (threads (k_sched k) t)\<lparr>ready := True\<rparr> else threads (k_sched k) t)\<rparr>
      \<and> k_files (fold timer_tick (take n rest) (timer_tick ks k)) = k_files (timer_tick ks k)
      \<and> k_fs (fold timer_tick (take n rest) (timer_tick ks k)) = k_fs (timer_tick ks k)"
      using Suc.IH [of "timer_tick ks k" rest] qt Suc.prems(3,5) False by (simp add: tk keys cong: if_cong)
    then show ?thesis using step qt(2,3) by (simp add: keys tk timer_tick_fields)
  qed
qed simp

lemma first_wait_props:
  assumes "q \<noteq> []"
  shows "0 < first_wait q" "\<forall>(t, m) \<in> set q. first_wait q \<le> wait m" "waits_for (first_wait q) q \<noteq> []"
proof -
  let ?W = "set (map (\<lambda>(t, m). wait m) q)"
  have f: "finite ?W" "?W \<noteq> {}" using assms by simp_all
  have "first_wait q \<in> ?W" unfolding first_wait_def by (rule Min_in [OF f])
  then obtain t m where m: "(t, m) \<in> set q" "first_wait q = wait m" by auto
  then show "0 < first_wait q" using wait_pos by simp
  show "waits_for (first_wait q) q \<noteq> []" using m by (force simp: waits_for_def filter_empty_conv)
  show "\<forall>(t, m) \<in> set q. first_wait q \<le> wait m" unfolding first_wait_def using f(1) by (auto intro!: Min_le)
qed

lemma ticks_tty:
  "k_tty a = k_tty b \<Longrightarrow> k_screen a = k_screen b \<Longrightarrow> k_tty (fold timer_tick ks a) = k_tty (fold timer_tick ks b)
    \<and> k_screen (fold timer_tick ks a) = k_screen (fold timer_tick ks b)"
proof (induction ks arbitrary: a b)
  case (Cons x ks)
  have "k_tty (timer_tick x a) = k_tty (timer_tick x b)" "k_screen (timer_tick x a) = k_screen (timer_tick x b)"
    unfolding timer_tick_def case_prod_beta Cons.prems by simp_all
  then show ?case unfolding fold_simps(2) by (rule Cons.IH)
qed simp

lemma save_ctx_thread:
  "threads (save_ctx c s) u = (threads s u)\<lparr>ctx := (case c of Some x \<Rightarrow> if u = cur s then x else ctx (threads s u) | None \<Rightarrow> ctx (threads s u))\<rparr>"
  by (simp add: save_ctx_def upd_thread_def split: option.split)

lemma switch_to_fields:
  "cur (switch_to t s) = t" "sleeping_q (switch_to t s) = sleeping_q s" "threads (switch_to t s) = threads s"
  "ready_q (switch_to t s) = ready_q s @ (if can_run s (cur s) then [cur s] else [])"
  "svm (switch_to t s) = (svm s)\<lparr>vm_active := l1_pt (threads s t)\<rparr>" "tls_reg (switch_to t s) = tls_base (threads s t)"
  by (simp_all add: switch_to_def t_push_def can_run_def switch_L1_page_table_def Let_def)

text \<open>Dropping a head that cannot run, when the thread that ran cannot either.\<close>

lemma next_up_drop:
  assumes "ready_q s = x # y # q" "\<not> can_run s x" "\<not> can_run s (cur s)"
  shows "next_up ((save_ctx c s)\<lparr>ready_q := y # q\<rparr>) = next_up s"
proof -
  have r: "can_run ((save_ctx c s)\<lparr>ready_q := y # q\<rparr>) = can_run s" by (simp add: can_run_def fun_eq_iff save_ctx_fields)
  have f: "cur ((save_ctx c s)\<lparr>ready_q := y # q\<rparr>) = cur s" "sleeping_q ((save_ctx c s)\<lparr>ready_q := y # q\<rparr>) = sleeping_q s"
    "ready_q ((save_ctx c s)\<lparr>ready_q := y # q\<rparr>) = y # q" by (simp_all add: save_ctx_fields)
  show ?thesis unfolding next_up_def Let_def r f using assms by simp
qed

lemma switched_drop:
  assumes "switched c t q n (k\<lparr>k_sched := (save_ctx c (k_sched k))\<lparr>ready_q := q0\<rparr>\<rparr>) k'"
  shows "switched c t q n k k'"
proof -
  let ?k = "k\<lparr>k_sched := (save_ctx c (k_sched k))\<lparr>ready_q := q0\<rparr>\<rparr>"
  note tt = ticks_tty [of ?k k "take n (k_keys k)"]
  show ?thesis using assms tt unfolding switched_def Let_def by (auto simp: save_ctx_fields save_ctx_thread split: option.splits)
qed

lemma round_robin_law:
  assumes "sched_ok (k_sched k)" "length (ready_q (k_sched k)) < fuel" "\<forall>(t, n) \<in> set (sleeping_q (k_sched k)). wait n \<le> length (k_keys k)"
  shows "case next_up (k_sched k) of
      None \<Rightarrow> k_do_sched fuel c k = Some Rebooted \<and> (\<forall>t < next_thread (k_sched k). exited (threads (k_sched k) t))
    | Some (t, q, n) \<Rightarrow> \<exists>k'. k_do_sched fuel c k = Some (Resumed k') \<and> switched c t q n k k'"
  using assms
proof (induction fuel arbitrary: k)
  case (Suc fuel)
  let ?s = "k_sched k"
  show ?case
  proof (cases ?s rule: cs_do_sched_cases)
    case (switch t q)
    have "next_up ?s = Some (t, q @ (if can_run ?s (cur ?s) then [cur ?s] else []), 0)" using switch by (simp add: next_up_def can_run_def)
    moreover have "switched c t (q @ (if can_run ?s (cur ?s) then [cur ?s] else [])) 0 k (k\<lparr>k_sched := switch_to t ((save_ctx c ?s)\<lparr>ready_q := q\<rparr>)\<rparr>)"
      by (simp add: switched_def switch_to_fields save_ctx_fields save_ctx_thread sleep_after_zero can_run_def)
    ultimately show ?thesis using k_do_sched_head [OF switch] by simp
  next
    case go
    have "next_up ?s = Some (cur ?s, tl (ready_q ?s), 0)" using go by (auto simp: next_up_def can_run_def)
    moreover have "vm_active (svm ?s) = l1_pt (k_cur k)" using Suc.prems(1) by (simp add: sched_ok_def)
    then have "(svm ?s)\<lparr>vm_active := l1_pt (k_cur k)\<rparr> = svm ?s" by simp
    then have "switched c (cur ?s) (tl (ready_q ?s)) 0 k (k\<lparr>k_sched := (save_ctx c ?s)\<lparr>ready_q := tl (ready_q ?s)\<rparr>\<rparr>)"
      by (simp add: switched_def save_ctx_fields save_ctx_thread sleep_after_zero)
    ultimately show ?thesis using k_do_sched_continue [OF go] by simp
  next
    case stop
    let ?p = "k\<lparr>k_sched := (save_ctx c ?s)\<lparr>ready_q := tl (ready_q ?s)\<rparr>\<rparr>"
    note w = k_do_sched_wait [OF stop, of "Suc fuel" c]
    have nc: "\<not> can_run ?s (cur ?s)" using stop(2) by (simp add: can_run_def)
    have i: "sched_inv ?s" using Suc.prems(1) by (simp add: sched_ok_def)
    show ?thesis
    proof (cases "tl (ready_q ?s)")
      case (Cons y q)
      then obtain x where x: "ready_q ?s = x # y # q" by (cases "ready_q ?s") auto
      have nx: "\<not> can_run ?s x" using stop(1) x by (simp add: can_run_def)
      have "idle_wait (k_keys k) ?p = Some ?p" using Cons by (subst idle_wait.simps) simp
      then have e: "k_do_sched (Suc fuel) c k = k_do_sched fuel c ?p" using w Cons by simp
      have ih: "case next_up (k_sched ?p) of
          None \<Rightarrow> k_do_sched fuel c ?p = Some Rebooted \<and> (\<forall>t < next_thread (k_sched ?p). exited (threads (k_sched ?p) t))
        | Some (t, q, n) \<Rightarrow> \<exists>k'. k_do_sched fuel c ?p = Some (Resumed k') \<and> switched c t q n ?p k'"
        by (rule Suc.IH) (use Suc.prems drop_ok [OF Suc.prems(1) stop(1), of c] x in \<open>simp_all add: save_ctx_fields\<close>)
      have nu: "next_up (k_sched ?p) = next_up ?s" using next_up_drop [OF x nx nc, of c] x by simp
      show ?thesis
      proof (cases "next_up ?s")
        case None
        then show ?thesis using ih nu e by (simp add: save_ctx_fields)
      next
        case (Some r)
        obtain t q' n where r: "r = (t, q', n)" by (cases r) auto
        then obtain k' where "k_do_sched fuel c ?p = Some (Resumed k')" "switched c t q' n ?p k'" using ih nu Some by auto
        then show ?thesis using Some r e by (auto intro: switched_drop)
      qed
    next
      case Nil
      have dw: "dropWhile (\<lambda>t. \<not> can_run ?s t) (ready_q ?s) = []" "\<not> (ready_q ?s \<noteq> [] \<and> can_run ?s (hd (ready_q ?s)))"
        using stop(1) Nil by (cases "ready_q ?s"; auto simp: can_run_def)+
      show ?thesis
      proof (cases "sleeping_q ?s = []")
        case True
        have "idle_wait (k_keys k) ?p = Some ?p" using True by (subst idle_wait.simps) (simp add: save_ctx_fields)
        then have e: "k_do_sched (Suc fuel) c k = Some Rebooted" using w Nil by simp
        have n: "next_up ?s = None" unfolding next_up_def Let_def dw(1) if_not_P [OF dw(2)] if_not_P [OF nc] using True by simp
        have "exited (threads ?s t)" if "t < next_thread ?s" for t
          using sched_invD(5,6) [OF i that] sched_invD(6) [OF i sched_invD(1) [OF i]] stop Nil True that
          by (cases "ready_q ?s") (auto simp: asleep_def)
        then show ?thesis using e n by simp
      next
        case False
        let ?q = "sleeping_q ?s"
        let ?n = "first_wait ?q"
        let ?w = "waits_for ?n ?q"
        note fw = first_wait_props [OF False]
        obtain t m where tm: "(t, m) \<in> set ?q" "wait m = ?n" using fw(3) by (auto simp: waits_for_def filter_empty_conv)
        then have "?n \<le> length (k_keys k)" using Suc.prems(3) by auto
        then have iw: "idle_wait (k_keys k) ?p = Some ((fold timer_tick (take ?n (k_keys k)) ?p)\<lparr>k_keys := drop ?n (k_keys k)\<rparr>)"
          "k_sched (fold timer_tick (take ?n (k_keys k)) ?p) = (save_ctx c ?s)\<lparr>ready_q := ?w, sleeping_q := sleep_after ?n ?q,
            threads := (\<lambda>t. if t \<in> set ?w then (threads (save_ctx c ?s) t)\<lparr>ready := True\<rparr> else threads (save_ctx c ?s) t)\<rparr>"
          "k_files (fold timer_tick (take ?n (k_keys k)) ?p) = k_files k" "k_fs (fold timer_tick (take ?n (k_keys k)) ?p) = k_fs k"
          using idle_wait_first [of ?p ?n "k_keys k"] Nil fw by (simp_all add: save_ctx_fields cong: if_cong)
        define k2 where "k2 = (fold timer_tick (take ?n (k_keys k)) ?p)\<lparr>k_keys := drop ?n (k_keys k)\<rparr>"
        have s2: "k_sched k2 = (save_ctx c ?s)\<lparr>ready_q := ?w, sleeping_q := sleep_after ?n ?q,
            threads := (\<lambda>t. if t \<in> set ?w then (threads (save_ctx c ?s) t)\<lparr>ready := True\<rparr> else threads (save_ctx c ?s) t)\<rparr>"
          using iw(2) by (simp add: k2_def)
        obtain y ys where y: "?w = y # ys" using fw(3) by (cases ?w) auto
        have live: "\<not> exited (threads ?s u)" if "u \<in> set ?w" for u
        proof -
          have "u \<in> asleep ?s" using that by (force simp: waits_for_def asleep_def)
          then show ?thesis using sched_invD(6) [OF i sched_invD(3) [OF i]] by blast
        qed
        obtain f where f: "Suc fuel = Suc f" by simp
        have e: "k_do_sched (Suc fuel) c k = k_do_sched fuel c k2" using w iw(1) y s2 by (simp add: k2_def)
        have "k_do_sched fuel c k2 = Some (Resumed (k2\<lparr>k_sched := switch_to y ((save_ctx c (k_sched k2))\<lparr>ready_q := ys\<rparr>)\<rparr>))"
          by (rule k_do_sched_head) (use s2 y live in \<open>simp_all add: save_ctx_fields\<close>)
        moreover have "next_up ?s = Some (y, ys @ (if cur ?s \<in> set ?w then [cur ?s] else []), ?n)"
          unfolding next_up_def Let_def dw(1) if_not_P [OF dw(2)] if_not_P [OF nc] using False y by simp
        moreover have "switched c y (ys @ (if cur ?s \<in> set ?w then [cur ?s] else [])) ?n k
            (k2\<lparr>k_sched := switch_to y ((save_ctx c (k_sched k2))\<lparr>ready_q := ys\<rparr>)\<rparr>)"
        proof -
          let ?sk = "switch_to y ((save_ctx c (k_sched k2))\<lparr>ready_q := ys\<rparr>)"
          have f2: "cur (k_sched k2) = cur ?s" "sleeping_q (k_sched k2) = sleep_after ?n ?q" "svm (k_sched k2) = svm ?s"
            by (simp_all add: s2 save_ctx_fields)
          have t2: "threads (k_sched k2) u = (threads ?s u)\<lparr>ready := ready (threads ?s u) \<or> u \<in> set ?w,
              ctx := (case c of Some x \<Rightarrow> if u = cur ?s then x else ctx (threads ?s u) | None \<Rightarrow> ctx (threads ?s u))\<rparr>" for u
            unfolding s2 by (cases "u \<in> set ?w") (simp_all add: save_ctx_thread)
          then have t3: "threads (save_ctx c (k_sched k2)) u = (threads ?s u)\<lparr>ready := ready (threads ?s u) \<or> u \<in> set ?w,
              ctx := (case c of Some x \<Rightarrow> if u = cur ?s then x else ctx (threads ?s u) | None \<Rightarrow> ctx (threads ?s u))\<rparr>" for u
            by (cases c) (simp_all add: save_ctx_thread f2)
          have cr: "can_run ((save_ctx c (k_sched k2))\<lparr>ready_q := ys\<rparr>) (cur ?s) \<longleftrightarrow> cur ?s \<in> set ?w"
            using nc live by (auto simp: can_run_def t3)
          have sk: "cur ?sk = y" "ready_q ?sk = ys @ (if cur ?s \<in> set ?w then [cur ?s] else [])" "sleeping_q ?sk = sleep_after ?n ?q"
            "threads ?sk = threads (save_ctx c (k_sched k2))" "svm ?sk = (svm ?s)\<lparr>vm_active := l1_pt (threads ?s y)\<rparr>" "tls_reg ?sk = tls_base (threads ?s y)"
            using cr by (simp_all add: switch_to_fields save_ctx_fields f2 t3 del: if_split)
          note tt = ticks_tty [of ?p k "take ?n (k_keys k)"]
          have i2: "k_keys k2 = drop ?n (k_keys k)" "k_tty k2 = k_tty (fold timer_tick (take ?n (k_keys k)) k)"
            "k_screen k2 = k_screen (fold timer_tick (take ?n (k_keys k)) k)" "k_files k2 = k_files k" "k_fs k2 = k_fs k"
            using tt iw(3,4) by (simp_all add: k2_def)
          show ?thesis unfolding switched_def Let_def by (simp add: sk t3 i2 del: if_split)
        qed
        ultimately show ?thesis using e by auto
      qed
    qed
  qed
qed simp

section \<open>Fixture\<close>

text \<open>One section maps the first megabyte to itself; a software interrupt instruction is at 0x8000, a second
  thread is asleep.\<close>

definition demo_mem :: memory where
  "demo_mem = (\<lambda>_. 0)(0x4000 := 2, 0x4001 := 0x0C, 0x8003 := 0xEF)"

definition demo_kernel :: kernel where
  "demo_kernel = \<lparr>k_sched = demo_sched\<lparr>svm := (svm demo_sched)\<lparr>vm_mem := demo_mem\<rparr>\<rparr>, k_files = Map.empty, k_next_file = 1,
     k_tty = fst tty_init, k_screen = [], k_fs = tree_fs, k_keys = replicate 5 []\<rparr>"

section \<open>Claims\<close>


text \<open>The first thread sleeps for two ticks in the fixture, the second for three.\<close>

definition resting_kernel :: kernel where
  "resting_kernel = demo_kernel\<lparr>k_sched := s_push (0, 2) (upd_thread 0 (\<lambda>th. th\<lparr>ready := False\<rparr>) (k_sched demo_kernel))\<rparr>"


end
