(* ===== verification/Syscall.thy ===== *)
theory Syscall
  imports Kernel
begin

text \<open>
  System calls: final/src/syscall.c, the dispatch on the number in r7 and every call behind it, over the
  kernel's state. Arguments are the registers of the trapped context; strings, buffers and structures are
  read and written through the page table. A buffer is read before and written back after the call that
  fills it, so it has to be mapped as a whole. A call ends with a value for r0, or by the scheduler
  running a thread (then it does not come back here). \<open>fuel\<close> bounds the walks over directories, file
  chains, strings and the ready queue.
\<close>

section \<open>Registers\<close>

definition reg :: "saved_context \<Rightarrow> nat \<Rightarrow> u32" where
  "reg c i = regs c ! i"

definition set_r0 :: "u32 \<Rightarrow> saved_context \<Rightarrow> saved_context" where
  "set_r0 v c = c\<lparr>regs := (regs c)[0 := v]\<rparr>"

definition gives :: "saved_context \<Rightarrow> (u32 \<times> kernel) option \<Rightarrow> trap_end option" where
  "gives c r = map_option (\<lambda>(v, k). Returned (set_r0 v c) k) r"

section \<open>Memory\<close>

definition set_brk_impl :: "u32 \<Rightarrow> kernel \<Rightarrow> (u32 \<times> kernel) option" where
  "set_brk_impl b k =
     (let old_brk = brk (k_cur k) in
      if b = 0 then Some (old_brk, k)
      else if b < brk_min (k_cur k) then Some (old_brk, k)
      else if old_brk < b then
        (let size_needed = b - old_brk;
             end_va = (old_brk + size_needed + 0xFFF) AND NOT 0xFFF;
             start_page = old_brk AND NOT 0xFFF
         in do {
           vm1 \<leftarrow> make_sure_user_space (l1_pt (k_cur k)) old_brk size_needed (k_vm k);
           vm2 \<leftarrow> user_write start_page (replicate (unat (end_va - start_page)) 0) vm1;
           Some (end_va, upd_cur (\<lambda>th. th\<lparr>brk := end_va\<rparr>) (set_vm vm2 k))
         })
      else Some (b, upd_cur (\<lambda>th. th\<lparr>brk := b\<rparr>) k))"

definition getrandom_impl :: "u32 \<Rightarrow> u32 \<Rightarrow> kernel \<Rightarrow> (u32 \<times> kernel) option" where
  "getrandom_impl buf buflen k = map_option (\<lambda>k'. (buflen, k')) (k_write buf (replicate (unat buflen) 0x11) k)"

text \<open>\<open>ts\<close> points to two words, or three for the 64-bit call.\<close>

definition clock_gettime_impl :: "bool \<Rightarrow> u32 \<Rightarrow> kernel \<Rightarrow> (u32 \<times> kernel) option" where
  "clock_gettime_impl wide ts k =
     (if ts = 0 then Some (0, k) else map_option (\<lambda>k'. (0, k')) (k_write ts (replicate (if wide then 12 else 8) 0) k))"

section \<open>Descriptors\<close>

text \<open>A descriptor that is not open is reported before the buffer is touched.\<close>

definition buffer :: "u32 \<Rightarrow> u32 \<Rightarrow> nat \<Rightarrow> kernel \<Rightarrow> u8 list option" where
  "buffer fd va n k = (if fd_get (fdt (k_cur k)) fd = 0 then Some [] else user_read n va (k_vm k))"

definition write_impl :: "nat \<Rightarrow> fat_meta \<Rightarrow> u32 \<Rightarrow> u32 \<Rightarrow> u32 \<Rightarrow> kernel \<Rightarrow> (u32 \<times> kernel) option" where
  "write_impl fuel meta fd buf count k = do {
     bs \<leftarrow> buffer fd buf (unat count) k;
     with_io (sys_write fuel meta fd bs count) k
   }"

text \<open>While a read waits, every timer interrupt also wakes threads.\<close>

definition read_impl :: "nat \<Rightarrow> fat_meta \<Rightarrow> u32 \<Rightarrow> u32 \<Rightarrow> u32 \<Rightarrow> kernel \<Rightarrow> (u32 \<times> kernel) option" where
  "read_impl fuel meta fd buf count k = do {
     bs \<leftarrow> buffer fd buf (unat count) k;
     (r, bs', keys, st) \<leftarrow> sys_read fuel meta fd bs count (k_keys k) (io_of k);
     let k1 = (put_io st k)\<lparr>k_keys := keys\<rparr>;
         k2 = k1\<lparr>k_sched := (tick_try_to_wake_up ^^ (length (k_keys k) - length keys)) (k_sched k1)\<rparr>
     in map_option (\<lambda>k'. (r, k')) (k_write buf bs' k2)
   }"

fun writev_loop :: "nat \<Rightarrow> nat \<Rightarrow> fat_meta \<Rightarrow> u32 \<Rightarrow> u32 \<Rightarrow> u32 \<Rightarrow> kernel \<Rightarrow> (u32 \<times> kernel) option" where
  "writev_loop 0 fuel meta fd iov acc k = Some (acc, k)"
| "writev_loop (Suc n) fuel meta fd iov acc k = do {
     iov_base \<leftarrow> user_word iov (k_vm k);
     iov_len \<leftarrow> user_word (iov + 4) (k_vm k);
     (r, k1) \<leftarrow> write_impl fuel meta fd iov_base iov_len k;
     writev_loop n fuel meta fd (iov + 8) (acc + r) k1
   }"

definition writev_impl :: "nat \<Rightarrow> fat_meta \<Rightarrow> u32 \<Rightarrow> u32 \<Rightarrow> u32 \<Rightarrow> kernel \<Rightarrow> (u32 \<times> kernel) option" where
  "writev_impl fuel meta fd iov iovcnt k = writev_loop (nat (sint iovcnt)) fuel meta fd iov 0 k"

text \<open>A path argument; null is passed on.\<close>

definition path_arg :: "nat \<Rightarrow> u32 \<Rightarrow> kernel \<Rightarrow> bytes option option" where
  "path_arg fuel va k = (if va = 0 then Some None else map_option Some (user_string fuel va (k_vm k)))"

text \<open>The calls that read the working directory need it to be there still.\<close>

definition openat_impl :: "nat \<Rightarrow> fat_meta \<Rightarrow> u32 \<Rightarrow> u32 \<Rightarrow> u32 \<Rightarrow> u32 \<Rightarrow> kernel \<Rightarrow> (u32 \<times> kernel) option" where
  "openat_impl fuel meta dirfd pathname flgs mode k = do {
     path \<leftarrow> path_arg fuel pathname k;
     w \<leftarrow> cwd_of k;
     with_io (sys_openat fuel meta dirfd path flgs mode) k
   }"

definition create_call :: "nat \<Rightarrow> fat_meta \<Rightarrow> u32 \<Rightarrow> u32 \<Rightarrow> kernel \<Rightarrow> (u32 \<times> kernel) option" where
  "create_call fuel meta pathname mode k = do {
     path \<leftarrow> path_arg fuel pathname k;
     w \<leftarrow> cwd_of k;
     with_io (sys_create fuel meta path mode) k
   }"

text \<open>How much of the memory behind the argument a request uses.\<close>

definition ioctl_len :: "u32 \<Rightarrow> nat" where
  "ioctl_len cmd =
     (if cmd = TERMIOS_CMD_TCGETS \<or> cmd = TERMIOS_CMD_TCSETS \<or> cmd = TERMIOS_CMD_TCSETSW \<or> cmd = TERMIOS_CMD_TCSETSF
      then termios_size
      else if cmd = TERMIOS_CMD_TIOCGWINSZ then 8 else 0)"

definition is_tty :: "u32 \<Rightarrow> kernel \<Rightarrow> bool" where
  "is_tty fd k = (case k_files k (fd_get (fdt (k_cur k)) fd) of None \<Rightarrow> False | Some f \<Rightarrow> ops f = TtyOps)"

definition ioctl_impl :: "u32 \<Rightarrow> u32 \<Rightarrow> u32 \<Rightarrow> kernel \<Rightarrow> (u32 \<times> kernel) option" where
  "ioctl_impl fd cmd arg k = do {
     bs \<leftarrow> (if is_tty fd k then buffer fd arg (ioctl_len cmd) k else Some []);
     (r, bs', st) \<leftarrow> sys_ioctl fd cmd bs (io_of k);
     map_option (\<lambda>k'. (r, k')) (k_write arg bs' (put_io st k))
   }"

definition fcntl64_impl :: "u32 \<Rightarrow> u32 \<Rightarrow> u32 \<Rightarrow> kernel \<Rightarrow> (u32 \<times> kernel) option" where
  "fcntl64_impl fd cmd arg k =
     (if 0 \<le> sint fd \<and> sint fd < 3 then Some (0, k) else with_io (sys_fcntl fd cmd arg) k)"

definition llseek_impl :: "u32 \<Rightarrow> u32 \<Rightarrow> u32 \<Rightarrow> u32 \<Rightarrow> u32 \<Rightarrow> kernel \<Rightarrow> (u32 \<times> kernel) option" where
  "llseek_impl fd offset_high offset_low result whence k = do {
     (off, k1) \<leftarrow> with_io (sys_lseek fd (ucast ((push_bit 32 (ucast offset_high) :: u64) OR ucast offset_low)) whence) k;
     if sint off < 0 then Some (off, k1)
     else map_option (\<lambda>k'. (0, k')) (k_write result (u32_bytes off @ [0, 0, 0, 0]) k1)
   }"

definition dup_call :: "u32 \<Rightarrow> io_state \<Rightarrow> (u32 \<times> io_state) option" where
  "dup_call oldfd st =
     (let a = fd_get (io_fdt st) oldfd in
      if a = 0 then Some (- 2, st)
      else (case alloc_fd (io_fdt st) a of (newfd, t) \<Rightarrow>
        if sint newfd < 0 then Some (newfd, st\<lparr>io_fdt := t\<rparr>)
        else do {
          f \<leftarrow> io_files st a;
          Some (newfd, put_file a (f\<lparr>refcnt := refcnt f + 1\<rparr>) (st\<lparr>io_fdt := t\<rparr>))
        }))"

text \<open>\<open>struct pollfd\<close>: a word and two half-words. The last component is the wait.\<close>

fun poll_words :: "nat \<Rightarrow> u32 \<Rightarrow> vm_state \<Rightarrow> pollfd list option" where
  "poll_words 0 va vm = Some []"
| "poll_words (Suc n) va vm = do {
     bs \<leftarrow> user_read 8 va vm;
     ps \<leftarrow> poll_words n (va + 8) vm;
     Some (\<lparr>pl_fd = read_u32 bs 0, pl_events = read_u16 bs 4, pl_revents = read_u16 bs 6\<rparr> # ps)
   }"

definition pollfd_bytes :: "pollfd \<Rightarrow> u8 list" where
  "pollfd_bytes p = u32_bytes (pl_fd p) @ u16_bytes (pl_events p) @ u16_bytes (pl_revents p)"

definition rewind_sleep :: "nat \<Rightarrow> u32 \<Rightarrow> kernel \<Rightarrow> trap_end option" where
  "rewind_sleep fuel n k = k_svc_sleep fuel n (upd_cur (\<lambda>th. th\<lparr>ctx := (ctx th)\<lparr>resume_pc := resume_pc (ctx th) - 4\<rparr>\<rparr>) k)"

definition poll_call :: "nat \<Rightarrow> saved_context \<Rightarrow> u32 \<Rightarrow> u32 \<Rightarrow> u32 \<Rightarrow> kernel \<Rightarrow> trap_end option" where
  "poll_call fuel c fds nfds timeout k = do {
     ps \<leftarrow> poll_words (unat nfds) fds (k_vm k);
     case sys_fd_poll ps timeout (io_of k) of (r, ps', sleeps) \<Rightarrow> do {
       k1 \<leftarrow> k_write fds (concat (map pollfd_bytes ps')) k;
       if sleeps then rewind_sleep fuel 1 k1 else Some (Returned (set_r0 r c) k1)
     }
   }"

section \<open>Processes\<close>

text \<open>\<open>cs_svc_sleep\<close> does not come back, so the loop of \<open>waitpid_impl\<close> makes one round at most; the saved
  context is the one after the call instruction.\<close>

definition waitpid_impl :: "nat \<Rightarrow> saved_context \<Rightarrow> u32 \<Rightarrow> u32 \<Rightarrow> kernel \<Rightarrow> trap_end option" where
  "waitpid_impl fuel c pid status k =
     (if see_if_pid_still_exists pid (k_sched k) then k_svc_sleep fuel 1 k
      else gives c (if status = 0 then Some (pid, k) else map_option (\<lambda>k'. (pid, k')) (k_write status (u32_bytes 0) k)))"

definition wait4_impl :: "nat \<Rightarrow> saved_context \<Rightarrow> u32 \<Rightarrow> kernel \<Rightarrow> trap_end option" where
  "wait4_impl fuel c pid k =
     (if (if pid = - 1 then number_of_childs (tid (k_cur k)) (k_sched k) > 0 else see_if_pid_still_exists pid (k_sched k))
      then rewind_sleep fuel 5 k
      else Some (Returned (set_r0 pid c) k))"

definition sys_set_tid_address_impl :: "u32 \<Rightarrow> kernel \<Rightarrow> u32 \<times> kernel" where
  "sys_set_tid_address_impl tidptr k = (tid (k_cur k), upd_cur (\<lambda>th. th\<lparr>clear_tid := tidptr\<rparr>) k)"

definition set_tls_call :: "u32 \<Rightarrow> kernel \<Rightarrow> kernel" where
  "set_tls_call v k = (let k1 = upd_cur (\<lambda>th. th\<lparr>tls_base := v\<rparr>) k in k1\<lparr>k_sched := (k_sched k1)\<lparr>tls_reg := v\<rparr>\<rparr>)"

definition fork_call :: "saved_context \<Rightarrow> kernel \<Rightarrow> trap_end option" where
  "fork_call c k = map_option (\<lambda>s. Returned c (k\<lparr>k_sched := s\<rparr>)) (rpi_fork c (k_sched k))"

section \<open>Directories and status\<close>

definition get_cwd_impl :: "u32 \<Rightarrow> u32 \<Rightarrow> kernel \<Rightarrow> kernel option" where
  "get_cwd_impl buf sz k = do {
     w \<leftarrow> cwd_of k;
     let len = strlen (Some w) in
     if sz < len + 1 then (if sz > 0 then k_write buf [0] k else Some k)
     else if buf = 0 then Some k
     else k_write buf (cstring w @ [0]) k
   }"

text \<open>\<open>memcpy\<close> to null copies nothing. The call then returns the length of the string in the caller's buffer.\<close>

definition getcwd_call :: "nat \<Rightarrow> u32 \<Rightarrow> u32 \<Rightarrow> kernel \<Rightarrow> (u32 \<times> kernel) option" where
  "getcwd_call fuel buf sz k = do {
     k1 \<leftarrow> get_cwd_impl buf sz k;
     s \<leftarrow> (if buf = 0 then Some [] else user_string fuel buf (k_vm k1));
     Some (of_nat (length s), k1)
   }"

definition chdir_impl :: "nat \<Rightarrow> fat_meta \<Rightarrow> u32 \<Rightarrow> kernel \<Rightarrow> (u32 \<times> kernel) option" where
  "chdir_impl fuel meta pathp k = do {
     path \<leftarrow> user_string fuel pathp (k_vm k);
     (r, fs) \<leftarrow> mount_probe fuel meta path (k_fs k);
     let k1 = k\<lparr>k_fs := fs\<rparr> in
     if r \<noteq> 0 then Some (- 22, k1)
     else do {
       w \<leftarrow> cwd_of k1;
       let s = k_sched k1;
           s1 = s\<lparr>strings := (strings s)(cwd (cur_thread s) := None, next_string s := Some path), next_string := next_string s + 1\<rparr>
       in Some (0, k1\<lparr>k_sched := upd_thread (cur s) (\<lambda>th. th\<lparr>cwd := next_string s\<rparr>) s1\<rparr>)
     }
   }"

definition u64_bytes :: "u64 \<Rightarrow> u8 list" where
  "u64_bytes v = u32_bytes (ucast v) @ u32_bytes (ucast (drop_bit 32 v))"

definition stat_bytes :: "stat64 \<Rightarrow> u8 list" where
  "stat_bytes s = u64_bytes (st_dev s) @ [0, 0, 0, 0] @ u32_bytes (old_st_ino s) @ u32_bytes (st_mode s) @ u32_bytes (st_nlink s)
     @ u32_bytes (st_uid s) @ u32_bytes (st_gid s) @ u64_bytes (st_rdev s) @ replicate 8 0 @ u64_bytes (st_size s)
     @ u32_bytes (st_blksize s) @ [0, 0, 0, 0] @ u64_bytes (st_blocks s) @ u32_bytes (st_atime s) @ u32_bytes (st_atime_nsec s)
     @ u32_bytes (st_mtime s) @ u32_bytes (st_mtime_nsec s) @ u32_bytes (st_ctime s) @ u32_bytes (st_ctime_nsec s)
     @ u64_bytes (st_ino s)"

text \<open>The status of an open file, as \<open>AT_EMPTY_PATH\<close> asks for: a terminal is a character device.\<close>

definition fd_stat :: "kfile \<Rightarrow> stat64" where
  "fd_stat f =
     (case Option.bind (priv f) priv_dirent of
        Some de \<Rightarrow> stat_base\<lparr>st_size := ucast (de_file_size de), st_blocks := ucast ((de_file_size de + 511) div 512),
          st_mode := if de_attr de AND 0x10 \<noteq> 0 then S_DIR else S_REG\<rparr>
      | None \<Rightarrow> stat_base\<lparr>st_mode := 0x21ED\<rparr>)"

definition fstatat64_impl :: "nat \<Rightarrow> fat_meta \<Rightarrow> u32 \<Rightarrow> u32 \<Rightarrow> u32 \<Rightarrow> u32 \<Rightarrow> kernel \<Rightarrow> (u32 \<times> kernel) option" where
  "fstatat64_impl fuel meta dirfd pathp statbuf flgs k = do {
     path \<leftarrow> path_arg fuel pathp k;
     if flgs AND 0x1000 \<noteq> 0 \<and> (case path of None \<Rightarrow> True | Some p \<Rightarrow> p = [])
     then let a = fd_get (fdt (k_cur k)) dirfd in
       if a = 0 then Some (- EBADF, k)
       else do {
         f \<leftarrow> k_files k a;
         map_option (\<lambda>k'. (0, k')) (k_write statbuf (stat_bytes (fd_stat f)) k)
       }
     else do {
       p \<leftarrow> path;
       w \<leftarrow> cwd_of k;
       (r, st, fs) \<leftarrow> mount_fstatat64 fuel meta w dirfd p zero_stat (k_fs k);
       let k1 = k\<lparr>k_fs := fs\<rparr> in
       if r = 0 then map_option (\<lambda>k'. (r, k')) (k_write statbuf (stat_bytes st) k1) else Some (r, k1)
     }
   }"

definition getdent64_impl :: "nat \<Rightarrow> fat_meta \<Rightarrow> u32 \<Rightarrow> u32 \<Rightarrow> u32 \<Rightarrow> kernel \<Rightarrow> (u32 \<times> kernel) option" where
  "getdent64_impl fuel meta fd dirp count k = do {
     bs \<leftarrow> buffer fd dirp (unat count) k;
     let a = fd_get (fdt (k_cur k)) fd in do {
       f \<leftarrow> (if a = 0 then Some None else map_option Some (k_files k a));
       (r, f', bs', fs) \<leftarrow> mount_get_dirents64 fuel meta f bs count (k_fs k);
       let k1 = k\<lparr>k_fs := fs, k_files := (case f' of None \<Rightarrow> k_files k | Some g \<Rightarrow> (k_files k)(a := Some g))\<rparr>
       in map_option (\<lambda>k'. (r, k')) (k_write dirp bs' k1)
     }
   }"

section \<open>Running a program\<close>

text \<open>Copies of the argument strings in kernel memory, and the array that points to them.\<close>

fun copy_in :: "bytes list \<Rightarrow> vm_state \<Rightarrow> (u32 list \<times> vm_state) option" where
  "copy_in [] vm = Some ([], vm)"
| "copy_in (s # ss) vm = do {
     (p, vm1) \<leftarrow> valloc (of_nat (length s) + 1) vm;
     (ps, vm2) \<leftarrow> copy_in ss (vm1\<lparr>vm_mem := put_bytes p (s @ [0]) (vm_mem vm1)\<rparr>);
     Some (p # ps, vm2)
   }"

definition copy_vector :: "bytes list \<Rightarrow> vm_state \<Rightarrow> vm_state option" where
  "copy_vector ss vm = do {
     (a, vm1) \<leftarrow> valloc ((of_nat (length ss) + 1) * 4) vm;
     (ps, vm2) \<leftarrow> copy_in ss vm1;
     Some (vm2\<lparr>vm_mem := put_bytes a (concat (map u32_bytes (ps @ [0]))) (vm_mem vm2)\<rparr>)
   }"

text \<open>Finding the file: the probe and the second lookup ignore the working directory, the first lookup does not.\<close>

definition find_program :: "nat \<Rightarrow> fat_meta \<Rightarrow> bytes \<Rightarrow> kernel \<Rightarrow> (fat_dirent option \<times> fs_state) option" where
  "find_program fuel meta filename k = do {
     (r, fs1) \<leftarrow> mount_probe fuel meta filename (k_fs k);
     if r \<noteq> 0 then Some (None, fs1)
     else do {
       w \<leftarrow> cwd_of k;
       (de, fs2) \<leftarrow> mount_get_dirent fuel meta w (Some filename) True False fs1;
       if de = None then mount_get_dirent fuel meta w (Some filename) False False fs2 else Some (de, fs2)
     }
   }"

text \<open>The file into a block of kernel memory, and what \<open>load_elf\<close> is given.\<close>

definition read_program :: "nat \<Rightarrow> fat_meta \<Rightarrow> bytes \<Rightarrow> fat_dirent \<Rightarrow> kernel \<Rightarrow> (u32 \<times> u8 list \<times> kernel) option" where
  "read_program fuel meta filename de k = do {
     (file_buf, vm1) \<leftarrow> valloc (de_file_size de) (k_vm k);
     (n, file, fs) \<leftarrow> mount_read_w_offset fuel meta filename
       (map (\<lambda>i. vm_mem vm1 (file_buf + of_nat i)) [0..<unat (de_file_size de)]) (de_file_size de) 0 (k_fs k);
     Some (file_buf, file, (set_vm (vm1\<lparr>vm_mem := put_bytes file_buf file (vm_mem vm1)\<rparr>) k)\<lparr>k_fs := fs\<rparr>)
   }"

definition copy_args :: "nat \<Rightarrow> u32 \<Rightarrow> u32 \<Rightarrow> vm_state \<Rightarrow> (bytes list \<times> bytes list \<times> vm_state) option" where
  "copy_args fuel argvp envpp vm = do {
     ps \<leftarrow> user_words fuel argvp vm;
     args \<leftarrow> user_strings fuel ps vm;
     vm1 \<leftarrow> copy_vector args vm;
     qs \<leftarrow> (if envpp = 0 then Some [] else user_words fuel envpp vm1);
     envs \<leftarrow> user_strings fuel qs vm1;
     vm2 \<leftarrow> (if envs = [] then Some vm1 else copy_vector envs vm1);
     Some (args, envs, vm2)
   }"

text \<open>The new image: a fresh table, the old one freed, the file loaded, its block given back.\<close>

definition replace_image :: "u32 \<Rightarrow> u8 list \<Rightarrow> bytes list \<Rightarrow> bytes list \<Rightarrow> kernel \<Rightarrow> (u32 \<times> kernel) option" where
  "replace_image file_buf file args envs k = do {
     (new_l1, vm1) \<leftarrow> make_initial_L1_table (k_vm k);
     let vm2 = free_L1_page_table (l1_pt (k_cur k)) (switch_L1_page_table new_l1 vm1) in do {
       (user_pc, pcb, vm3) \<leftarrow> load_elf file args envs ((k_cur k)\<lparr>l1_pt := new_l1\<rparr>) vm2;
       let k1 = upd_cur (\<lambda>th. pcb) (set_vm (vfree file_buf vm3) k) in
       if user_pc = ELF_ERR then Some (- 22, k1)
       else Some (0, upd_cur (\<lambda>th. th\<lparr>ctx := (ctx th)\<lparr>resume_pc := user_pc,
                regs := replicate 13 0 @ drop 13 (regs (ctx th))\<rparr>, ready := True\<rparr>) k1)
     }
   }"

definition execve_impl :: "nat \<Rightarrow> fat_meta \<Rightarrow> u32 \<Rightarrow> u32 \<Rightarrow> u32 \<Rightarrow> kernel \<Rightarrow> (u32 \<times> kernel) option" where
  "execve_impl fuel meta filenamep argvp envpp k = do {
     filename \<leftarrow> user_string fuel filenamep (k_vm k);
     (entry, fs) \<leftarrow> find_program fuel meta filename k;
     let k1 = k\<lparr>k_fs := fs\<rparr> in
     case entry of
       None \<Rightarrow> Some (- 22, k1)
     | Some de \<Rightarrow> do {
         (file_buf, file, k2) \<leftarrow> read_program fuel meta filename de k1;
         (args, envs, vm) \<leftarrow> copy_args fuel argvp envpp (k_vm k2);
         replace_image file_buf file args envs (set_vm vm k2)
       }
   }"

text \<open>r0 gets the result, and then the whole context is replaced by the thread's saved one.\<close>

definition execve_call :: "nat \<Rightarrow> fat_meta \<Rightarrow> saved_context \<Rightarrow> kernel \<Rightarrow> trap_end option" where
  "execve_call fuel meta c k =
     map_option (\<lambda>(r, k'). Returned (ctx (k_cur k')) k') (execve_impl fuel meta (reg c 0) (reg c 1) (reg c 2) k)"

section \<open>The dispatch\<close>

definition posix_switch :: "nat \<Rightarrow> fat_meta \<Rightarrow> saved_context \<Rightarrow> kernel \<Rightarrow> trap_end option" where
  "posix_switch fuel meta c k =
     (let n = reg c 7; r0 = reg c 0; r1 = reg c 1; r2 = reg c 2; r3 = reg c 3;
          value = (\<lambda>v. Some (Returned (set_r0 v c) k)) in
      if n = 248 \<or> n = 1 then k_exit fuel c k
      else if n = 2 then value (- ENOSYS)
      else if n = 3 then gives c (read_impl fuel meta r0 r1 r2 k)
      else if n = 4 then gives c (write_impl fuel meta r0 r1 r2 k)
      else if n = 5 then value (- 1)
      else if n = 6 then value 0
      else if n = 7 then waitpid_impl fuel c r0 r1 k
      else if n = 8 \<or> n = 9 \<or> n = 10 then value (- ENOSYS)
      else if n = 11 then execve_call fuel meta c k
      else if n = 12 then gives c (chdir_impl fuel meta r0 k)
      else if n = 14 \<or> n = 15 \<or> n = 16 \<or> n = 20 then value (tid (k_cur k))
      else if n = 45 then gives c (set_brk_impl r0 k)
      else if n = 140 then gives c (llseek_impl r0 r1 r2 r3 (reg c 4) k)
      else if n = 146 then gives c (writev_impl fuel meta r0 r1 r2 k)
      else if n = 168 then poll_call fuel c r0 r1 r2 k
      else if n = 183 then gives c (getcwd_call fuel r0 r1 k)
      else if n = 54 then gives c (ioctl_impl r0 r1 r2 k)
      else if n = 114 then wait4_impl fuel c r0 k
      else if n = 322 then gives c (openat_impl fuel meta r0 r1 r2 r3 k)
      else if n = 221 then gives c (fcntl64_impl r0 r1 r2 k)
      else if n = 33 then value 0
      else if n = 41 then gives c (with_io (dup_call r0) k)
      else if n = 63 then gives c (with_io (sys_dup2 r0 r1) k)
      else if n = 85 then gives c (map_option (\<lambda>(r, k'). (0, k')) (create_call fuel meta r0 r1 k))
      else if n = 44 \<or> n = 64 \<or> n = 125 \<or> n = 174 \<or> n = 175 \<or> n = 201 then value 0
      else if n = 263 \<or> n = 403 then gives c (clock_gettime_impl (n = 403) r1 k)
      else if n = 120 \<or> n = 190 then fork_call c k
      else if n = 191 \<or> n = 192 then value (- ENOSYS)
      else if n = 217 then gives c (getdent64_impl fuel meta r0 r1 r2 k)
      else if n = 327 then gives c (fstatat64_impl fuel meta r0 r1 r2 r3 k)
      else if n = 332 \<or> n = 397 then value (- ENOSYS)
      else if n = 384 then gives c (getrandom_impl r0 r1 k)
      else if n = 256 then (case sys_set_tid_address_impl r0 k of (v, k') \<Rightarrow> Some (Returned (set_r0 v c) k'))
      else if n = 338 \<or> n = 398 then value (- ENOSYS)
      else if n = 439 then value 0
      else if n = 0xF0005 then Some (Returned (set_r0 0 c) (set_tls_call r0 k))
      else value (- ENOSYS))"

text \<open>The context is saved before the call, in case it sleeps, and again after it.\<close>

definition save_cur :: "saved_context \<Rightarrow> kernel \<Rightarrow> kernel" where
  "save_cur c k = upd_cur (\<lambda>th. th\<lparr>ctx := c\<rparr>) k"

definition posix_syscall :: "nat \<Rightarrow> fat_meta \<Rightarrow> saved_context \<Rightarrow> kernel \<Rightarrow> trap_end option" where
  "posix_syscall fuel meta c k =
     map_option (\<lambda>r. case r of Returned c' k' \<Rightarrow> Returned c' (save_cur c' k') | _ \<Rightarrow> r) (posix_switch fuel meta c (save_cur c k))"

end
