(* ===== verification/Trap.thy ===== *)
theory Trap
  imports Syscall
begin

text \<open>
  Traps: final/src/int.c (timer and GPIO interrupts, software interrupts, aborts), the kernel helpers of
  final/src/kuser.c and \<open>kernel_replace_file\<close> of final/src/krep.c. A trap takes the saved context of what
  it interrupted and ends in one of the ways of \<open>trap_end\<close>. The values a handler reads from the interrupt
  controller and the fault registers are its arguments. Interrupt masking and barriers have no effect on
  the state: traps do not nest here but for the ticks that waiting takes.
\<close>

section \<open>Kernel helpers\<close>

definition kuser_cmpxchg :: "saved_context \<Rightarrow> kernel \<Rightarrow> trap_end option" where
  "kuser_cmpxchg c k =
     (let oldv = reg c 0; newv = reg c 1; ptr = reg c 2 in
      if ptr < 0x10000 \<or> ptr > 0xC0000000 then Some (Returned (set_r0 1 c) k)
      else do {
        v \<leftarrow> user_word ptr (k_vm k);
        if v = oldv then map_option (\<lambda>k'. Returned (set_r0 0 c) k') (k_write ptr (u32_bytes newv) k)
        else Some (Returned (set_r0 1 c) k)
      })"

definition kuser_memory_barrier :: "saved_context \<Rightarrow> kernel \<Rightarrow> trap_end option" where
  "kuser_memory_barrier c k = Some (Returned (set_r0 0 c) k)"

definition kuser_get_tls :: "saved_context \<Rightarrow> kernel \<Rightarrow> trap_end option" where
  "kuser_get_tls c k = Some (Returned (set_r0 (tls_reg (k_sched k)) c) k)"

text \<open>\<open>kernel_replace_file\<close> up to the file's contents, or its error.\<close>

definition kernel_image :: "nat \<Rightarrow> fat_meta \<Rightarrow> bytes \<Rightarrow> fs_state \<Rightarrow> ((u32 + u8 list) \<times> fs_state) option" where
  "kernel_image fuel meta path fs =
     (if 256 \<le> length path then None
      else case split_path (safe_path path) of (r, parent, name) \<Rightarrow>
        if r \<noteq> 0 then Some (Inl (- ENOENT), fs)
        else do {
          (parent_clus, fs1) \<leftarrow> get_dir_cluster_number fuel meta parent fs;
          if parent_clus = 0 then Some (Inl (- ENOENT), fs1)
          else do {
            (entry, fs2) \<leftarrow> get_entry_from_directory fuel meta parent_clus name False fs1;
            case entry of
              None \<Rightarrow> Some (Inl (- ENOENT), fs2)
            | Some e \<Rightarrow>
                if de_file_size e = 0 then Some (Inl (- 22), fs2)
                else do {
                  (file_data, fs3) \<leftarrow> fat32_read_file fuel meta (dirent_cluster e) (de_file_size e) fs2;
                  Some (Inr file_data, fs3)
                }
          }
        })"

definition kernel_replace_file :: "nat \<Rightarrow> fat_meta \<Rightarrow> saved_context \<Rightarrow> u32 \<Rightarrow> u32 \<Rightarrow> kernel \<Rightarrow> trap_end option" where
  "kernel_replace_file fuel meta c pathp new_kernel_addr k = do {
     path \<leftarrow> user_string fuel pathp (k_vm k);
     (r, fs) \<leftarrow> kernel_image fuel meta path (k_fs k);
     case r of
       Inl e \<Rightarrow> Some (Returned (set_r0 e c) (k\<lparr>k_fs := fs\<rparr>))
     | Inr file_data \<Rightarrow> Some (Replaced new_kernel_addr file_data)
   }"

section \<open>Handlers\<close>

definition from_user :: "saved_context \<Rightarrow> bool" where
  "from_user c \<longleftrightarrow> cpsr c AND 0x1F = 0x10"

text \<open>The keys are what this interrupt finds on the keyboard; the two pending words are the GPIO line read
  before and after it is cleared.\<close>

definition generic_irq_handler :: "nat \<Rightarrow> saved_context \<Rightarrow> u32 \<Rightarrow> u32 \<Rightarrow> u32 \<Rightarrow> u8 list \<Rightarrow> kernel \<Rightarrow> trap_end option" where
  "generic_irq_handler fuel c irq_basic_pending pending2 pending2_after keys k =
     (let k1 = (if from_user c then save_cur c k else k) in
      if irq_basic_pending AND 1 \<noteq> 0 then
        (let k2 = timer_tick keys k1 in
         if from_user c then k_do_sched fuel (Some c) k2 else Some (Returned c k2))
      else if pending2 AND push_bit 17 1 \<noteq> 0 then
        (if pending2_after AND push_bit 17 1 \<noteq> 0 then Some Rebooted else Some (Returned c k1))
      else Some (Returned c k1))"

definition swi_int_c :: "nat \<Rightarrow> fat_meta \<Rightarrow> saved_context \<Rightarrow> kernel \<Rightarrow> trap_end option" where
  "swi_int_c fuel meta c k = do {
     w \<leftarrow> user_word (resume_pc c - 4) (k_vm k);
     let swi_number = w AND 0x00FFFFFF in
     if swi_number = 0 then posix_syscall fuel meta c k
     else if swi_number = 1 then k_do_sched fuel (Some c) k
     else if swi_number = 2 then k_exit fuel c k
     else if swi_number = 3 then kernel_replace_file fuel meta c (reg c 0) (reg c 1) k
     else if swi_number = 0xA0 then kuser_memory_barrier c k
     else if swi_number = 0xA1 then kuser_cmpxchg c k
     else if swi_number = 0xA2 then kuser_get_tls c k
     else Some (Returned c k)
   }"

text \<open>The tests on the fault status are switched off in the code (\<open>|| 1\<close>).\<close>

definition data_abort_int_c :: "saved_context \<Rightarrow> u32 \<Rightarrow> kernel \<Rightarrow> trap_end option" where
  "data_abort_int_c c far k =
     (if \<not> from_user c then Some Rebooted
      else if \<not> (far \<le> user_sp c + 128 \<and> user_sp c - 128 \<le> far) then Some Rebooted
      else do {
        (new_page, vm) \<leftarrow> make_L2_page_on_the_fly_and_make_valid far (k_vm k);
        Some (Returned (c\<lparr>resume_pc := resume_pc c - 8\<rparr>) (set_vm vm k))
      })"

definition prefetch_abort_int_c :: "saved_context \<Rightarrow> kernel \<Rightarrow> trap_end option" where
  "prefetch_abort_int_c c k = Some Rebooted"

text \<open>The instruction is printed when its address is a user one.\<close>

definition undefined_int_c :: "saved_context \<Rightarrow> kernel \<Rightarrow> trap_end option" where
  "undefined_int_c c k =
     (if 0x10000 \<le> resume_pc c \<and> resume_pc c < 0xC0000000 then map_option (\<lambda>w. Rebooted) (user_word (resume_pc c) (k_vm k))
      else Some Rebooted)"

section \<open>What the calls keep\<close>

text \<open>Most calls leave the queues, who is alive and awake, every thread's page table and the table in use
  as they are.\<close>

definition sched_same :: "sched \<Rightarrow> sched \<Rightarrow> bool" where
  "sched_same s s' \<longleftrightarrow> cur s' = cur s \<and> next_thread s' = next_thread s \<and> ready_q s' = ready_q s \<and> sleeping_q s' = sleeping_q s
     \<and> (\<forall>t. exited (threads s' t) = exited (threads s t) \<and> ready (threads s' t) = ready (threads s t)
          \<and> l1_pt (threads s' t) = l1_pt (threads s t))
     \<and> vm_active (svm s') = vm_active (svm s)"

definition calm :: "kernel \<Rightarrow> kernel \<Rightarrow> bool" where
  "calm k k' \<longleftrightarrow> sched_same (k_sched k) (k_sched k') \<and> (tty_inv (k_tty k) \<longrightarrow> tty_inv (k_tty k'))"

definition kernel_ok :: "kernel \<Rightarrow> bool" where
  "kernel_ok k \<longleftrightarrow> running (k_sched k) \<and> tty_inv (k_tty k)"

lemma sched_same_running: "sched_same s s' \<Longrightarrow> running s \<Longrightarrow> running s'"
  unfolding sched_same_def running_def sched_ok_def sched_inv_def asleep_def by metis

lemma calm_ok: "calm k k' \<Longrightarrow> kernel_ok k \<Longrightarrow> kernel_ok k'"
  unfolding calm_def kernel_ok_def using sched_same_running by blast

lemma calm_refl [intro]: "calm k k"
  by (simp add: calm_def sched_same_def)

lemma calm_trans: "calm a b \<Longrightarrow> calm b c \<Longrightarrow> calm a c"
  by (simp add: calm_def sched_same_def)

lemma calm_upd_cur:
  "(\<And>th. exited (f th) = exited th \<and> ready (f th) = ready th \<and> l1_pt (f th) = l1_pt th) \<Longrightarrow> calm k (upd_cur f k)"
  by (simp add: calm_def sched_same_def upd_cur_def upd_thread_def)

lemma calm_set_vm: "vm_active vm = vm_active (k_vm k) \<Longrightarrow> calm k (set_vm vm k)"
  by (simp add: calm_def sched_same_def set_vm_def)

lemma calm_fields:
  "calm k (k\<lparr>k_fs := fs\<rparr>)" "calm k (k\<lparr>k_files := fl\<rparr>)" "calm k (k\<lparr>k_keys := ks\<rparr>)"
  by (simp_all add: calm_def sched_same_def)

named_theorems calms

lemmas [calms] = calm_refl calm_fields

lemma user_store_active: "user_store va b vm = Some vm' \<Longrightarrow> vm_active vm' = vm_active vm"
  by (auto simp: user_store_def)

lemma user_write_active: "user_write va bs vm = Some vm' \<Longrightarrow> vm_active vm' = vm_active vm"
  by (induction bs arbitrary: va vm) (auto simp: bind_eq_Some_conv dest!: user_store_active)

lemma map_page_active: "map_page l1 va vm = Some vm' \<Longrightarrow> vm_active vm' = vm_active vm"
  by (auto simp: map_page_def Let_def bind_eq_Some_conv split: if_splits dest!: valloc_active)

lemma map_pages_active: "map_pages n l1 va vm = Some vm' \<Longrightarrow> vm_active vm' = vm_active vm"
  by (induction n arbitrary: va vm) (auto simp: bind_eq_Some_conv dest!: map_page_active)

lemma make_sure_active: "make_sure_user_space l1 va n vm = Some vm' \<Longrightarrow> vm_active vm' = vm_active vm"
  unfolding make_sure_user_space_def Let_def by (rule map_pages_active)

lemma calm_write: "k_write va bs k = Some k' \<Longrightarrow> calm k k'"
  by (auto simp: k_write_def intro!: calm_set_vm dest: user_write_active)

lemma calm_put_io:
  assumes "tty_inv (k_tty k) \<Longrightarrow> tty_inv (io_tty st)"
  shows "calm k (put_io st k)"
  using assms by (simp add: calm_def sched_same_def put_io_def upd_cur_def upd_thread_def)

lemma calm_with_io:
  assumes "with_io f k = Some (r, k')" "\<And>st. f (io_of k) = Some (r, st) \<Longrightarrow> tty_inv (k_tty k) \<Longrightarrow> tty_inv (io_tty st)"
  shows "calm k k'"
  using assms by (auto simp: with_io_def intro!: calm_put_io)

section \<open>The calls\<close>

lemma not_tty [simp]: "ops f \<noteq> TtyOps \<longleftrightarrow> ops f = MountOps"
  by (cases "ops f") simp_all

lemma io_tty_of: "io_tty (io_of k) = k_tty k"
  by (simp add: io_of_def)

lemma io_tty_put [simp]: "io_tty (put_file a f st) = io_tty st"
  by (simp add: put_file_def)

lemma length_user_read: "user_read n va vm = Some bs \<Longrightarrow> length bs = n"
  by (induction n arbitrary: va bs) (auto simp: bind_eq_Some_conv)

lemma sys_write_tty:
  assumes "sys_write fuel meta fd bs n st = Some (r, st')" "fd_get (io_fdt st) fd \<noteq> 0 \<Longrightarrow> length bs = unat n" "tty_inv (io_tty st)"
  shows "tty_inv (io_tty st')"
proof (cases "fd_get (io_fdt st) fd = 0")
  case False
  then have "tty_inv (snd (tty_write bs n (io_tty st)))" using write_law(2) [OF assms(3), of n bs] assms(2) by simp
  with assms(1,3) False show ?thesis
    by (auto simp: sys_write_def Let_def bind_eq_Some_conv split: file_ops.splits prod.splits)
qed (use assms in \<open>simp add: sys_write_def Let_def\<close>)

lemma sys_read_tty:
  assumes "sys_read fuel meta fd bs n ticks st = Some (r, bs', ticks', st')" "tty_inv (io_tty st)"
  shows "tty_inv (io_tty st')"
  using assms(1,2) by (auto simp: sys_read_def Let_def bind_eq_Some_conv split: file_ops.splits if_splits dest: tty_read_inv)

lemma sys_close_tty: "sys_close fd st = Some (r, st') \<Longrightarrow> io_tty st' = io_tty st"
  by (auto simp: sys_close_def Let_def bind_eq_Some_conv split: if_splits)

lemma sys_dup2_tty: "sys_dup2 a b st = Some (r, st') \<Longrightarrow> io_tty st' = io_tty st"
  by (auto simp: sys_dup2_def Let_def bind_eq_Some_conv split: if_splits dest!: sys_close_tty)

lemma dup_call_tty: "dup_call a st = Some (r, st') \<Longrightarrow> io_tty st' = io_tty st"
  by (auto simp: dup_call_def Let_def bind_eq_Some_conv split: if_splits prod.splits)

lemma sys_lseek_tty: "sys_lseek fd off w st = Some (r, st') \<Longrightarrow> io_tty st' = io_tty st"
  by (auto simp: sys_lseek_def Let_def bind_eq_Some_conv split: if_splits file_ops.splits)

lemma sys_fcntl_tty: "sys_fcntl fd cmd arg st = Some (r, st') \<Longrightarrow> io_tty st' = io_tty st"
  by (auto simp: sys_fcntl_def mount_fcntl_def Let_def bind_eq_Some_conv split: if_splits file_ops.splits prod.splits)

lemma sys_openat_tty: "sys_openat fuel meta d p fl mode st = Some (r, st') \<Longrightarrow> io_tty st' = io_tty st"
  by (cases "alloc_fd (io_fdt st) (io_next st)")
    (auto simp: sys_openat_def Let_def bind_eq_Some_conv split: if_splits option.splits)

lemma ioctl_tty:
  assumes "tty_inv t" "ioctl_len cmd \<le> length arg"
  shows "tty_inv (snd (snd (tty_ioctl cmd arg t)))"
  using assms by (auto simp: tty_ioctl_def ioctl_len_def tty_inv_def split: if_splits)

lemma fdt_of: "io_fdt (io_of k) = fdt (k_cur k)"
  by (simp add: io_of_def)

lemma buffer_length: "buffer fd va n k = Some bs \<Longrightarrow> fd_get (fdt (k_cur k)) fd \<noteq> 0 \<Longrightarrow> length bs = n"
  by (simp add: buffer_def length_user_read)

lemma write_impl_calm: "write_impl fuel meta fd buf count k = Some (r, k') \<Longrightarrow> calm k k'"
  unfolding write_impl_def bind_eq_Some_conv
  by (auto intro!: calm_with_io dest!: sys_write_tty simp: io_tty_of fdt_of dest: buffer_length)

lemma writev_loop_calm: "writev_loop n fuel meta fd iov acc k = Some (r, k') \<Longrightarrow> calm k k'"
  by (induction n arbitrary: iov acc k) (auto simp: bind_eq_Some_conv dest!: write_impl_calm intro: calm_trans)

lemma openat_impl_calm: "openat_impl fuel meta d p fl mode k = Some (r, k') \<Longrightarrow> calm k k'"
  unfolding openat_impl_def bind_eq_Some_conv by (auto intro!: calm_with_io dest!: sys_openat_tty simp: io_tty_of)

lemma create_call_calm: "create_call fuel meta p mode k = Some (r, k') \<Longrightarrow> calm k k'"
  unfolding create_call_def bind_eq_Some_conv sys_create_def by (auto intro!: calm_with_io dest!: sys_openat_tty simp: io_tty_of)

lemma sys_ioctl_tty:
  assumes "sys_ioctl fd cmd bs st = Some (r, bs', st')" "tty_inv (io_tty st)"
    "\<And>f. io_files st (fd_get (io_fdt st) fd) = Some f \<Longrightarrow> ops f = TtyOps \<Longrightarrow> fd_get (io_fdt st) fd \<noteq> 0 \<Longrightarrow> ioctl_len cmd \<le> length bs"
  shows "tty_inv (io_tty st')"
proof (cases "fd_get (io_fdt st) fd = 0")
  case False
  then obtain f where f: "io_files st (fd_get (io_fdt st) fd) = Some f"
    using assms(1) by (auto simp: sys_ioctl_def Let_def bind_eq_Some_conv)
  show ?thesis
  proof (cases "ops f")
    case TtyOps
    then have "tty_inv (snd (snd (tty_ioctl cmd bs (io_tty st))))" using assms(3) [OF f] False ioctl_tty [OF assms(2)] by blast
    then show ?thesis using assms(1) False f TtyOps by (auto simp: sys_ioctl_def Let_def split: prod.splits)
  next
    case MountOps
    then show ?thesis using assms(1,2) False f by (simp add: sys_ioctl_def Let_def)
  qed
qed (use assms in \<open>simp add: sys_ioctl_def Let_def\<close>)

lemma ioctl_impl_calm:
  assumes "ioctl_impl fd cmd arg k = Some (r, k')"
  shows "calm k k'"
proof -
  obtain bs bs' st where b: "(if is_tty fd k then buffer fd arg (ioctl_len cmd) k else Some []) = Some bs"
    "sys_ioctl fd cmd bs (io_of k) = Some (r, bs', st)" "k_write arg bs' (put_io st k) = Some k'"
    using assms by (auto simp: ioctl_impl_def bind_eq_Some_conv)
  have "ioctl_len cmd \<le> length bs"
    if "io_files (io_of k) (fd_get (io_fdt (io_of k)) fd) = Some f" "ops f = TtyOps" "fd_get (io_fdt (io_of k)) fd \<noteq> 0" for f
    using that b(1) buffer_length [of fd arg "ioctl_len cmd" k bs] by (simp add: is_tty_def io_of_def)
  then have "tty_inv (k_tty k) \<Longrightarrow> tty_inv (io_tty st)" using sys_ioctl_tty [OF b(2)] io_tty_of by metis
  then show ?thesis using calm_put_io calm_write [OF b(3)] calm_trans by blast
qed

lemma fcntl64_impl_calm: "fcntl64_impl fd cmd arg k = Some (r, k') \<Longrightarrow> calm k k'"
  unfolding fcntl64_impl_def
  by (auto intro!: calm_with_io calm_refl dest!: sys_fcntl_tty simp: io_tty_of split: if_splits)

lemma llseek_impl_calm:
  assumes "llseek_impl fd hi lo res wh k = Some (r, k')"
  shows "calm k k'"
proof -
  obtain off k1 where k1: "with_io (sys_lseek fd (ucast ((push_bit 32 (ucast hi) :: u64) OR ucast lo)) wh) k = Some (off, k1)"
    "k' = k1 \<or> k_write res (u32_bytes off @ [0, 0, 0, 0]) k1 = Some k'"
    using assms by (auto simp: llseek_impl_def bind_eq_Some_conv split: if_splits)
  have "calm k k1" using k1(1) by (auto intro!: calm_with_io dest!: sys_lseek_tty simp: io_tty_of)
  then show ?thesis using k1(2) calm_write calm_trans by blast
qed

lemma dup_calm: "with_io (dup_call fd) k = Some (r, k') \<Longrightarrow> calm k k'" "with_io (sys_dup2 fd fd') k = Some (r, k') \<Longrightarrow> calm k k'"
  by (auto intro!: calm_with_io dest!: dup_call_tty sys_dup2_tty simp: io_tty_of)

lemma getdent64_impl_calm: "getdent64_impl fuel meta fd dirp count k = Some (r, k') \<Longrightarrow> calm k k'"
  unfolding getdent64_impl_def Let_def bind_eq_Some_conv
  by (auto dest!: calm_write simp: calm_def split: option.splits)

lemma fstatat64_impl_calm: "fstatat64_impl fuel meta d p buf fl k = Some (r, k') \<Longrightarrow> calm k k'"
  unfolding fstatat64_impl_def Let_def bind_eq_Some_conv
  by (auto dest!: calm_write simp: bind_eq_Some_conv calm_refl split: if_splits option.splits) (auto simp: calm_def sched_same_def)

lemma getcwd_call_calm: "getcwd_call fuel buf n k = Some (r, k') \<Longrightarrow> calm k k'"
  unfolding getcwd_call_def get_cwd_impl_def Let_def bind_eq_Some_conv
  by (auto dest!: calm_write simp: calm_refl split: if_splits)

lemma chdir_impl_calm: "chdir_impl fuel meta p k = Some (r, k') \<Longrightarrow> calm k k'"
  unfolding chdir_impl_def Let_def bind_eq_Some_conv
  by (auto simp: bind_eq_Some_conv calm_def sched_same_def upd_thread_def split: if_splits)

lemma set_brk_impl_cases:
  assumes "set_brk_impl b k = Some (r, k')"
  obtains "k' = k" "r = brk (k_cur k)" "b = 0 \<or> b < brk_min (k_cur k)"
    | "k' = upd_cur (\<lambda>th. th\<lparr>brk := b\<rparr>) k" "r = b" "b \<le> brk (k_cur k)"
    | vm1 vm2 bs where "brk (k_cur k) < b"
        "make_sure_user_space (l1_pt (k_cur k)) (brk (k_cur k)) (b - brk (k_cur k)) (k_vm k) = Some vm1"
        "user_write (brk (k_cur k) AND NOT 0xFFF) bs vm1 = Some vm2"
        "k' = upd_cur (\<lambda>th. th\<lparr>brk := r\<rparr>) (set_vm vm2 k)" "r = (b + 0xFFF) AND NOT 0xFFF"
        "bs = replicate (unat (r - (brk (k_cur k) AND NOT 0xFFF))) 0"
proof -
  let ?old = "brk (k_cur k)"
  consider "b = 0 \<or> b < brk_min (k_cur k)" | "\<not> (b = 0 \<or> b < brk_min (k_cur k))" "b \<le> ?old"
    | "\<not> (b = 0 \<or> b < brk_min (k_cur k))" "?old < b" by fastforce
  then show ?thesis
  proof cases
    case 3
    let ?e = "(b + 0xFFF) AND NOT 0xFFF :: u32" and ?s = "?old AND NOT 0xFFF"
    have z: "?old + (b - ?old) = b" by simp
    have e: "make_sure_user_space (l1_pt (k_cur k)) ?old (b - ?old) (k_vm k) \<bind> (\<lambda>vm1.
        user_write ?s (replicate (unat (?e - ?s)) 0) vm1 \<bind> (\<lambda>vm2. Some (?e, upd_cur (\<lambda>th. th\<lparr>brk := ?e\<rparr>) (set_vm vm2 k)))) = Some (r, k')"
      using assms 3 unfolding set_brk_impl_def Let_def z by presburger
    obtain vm1 where v1: "make_sure_user_space (l1_pt (k_cur k)) ?old (b - ?old) (k_vm k) = Some vm1"
      and e1: "user_write ?s (replicate (unat (?e - ?s)) 0) vm1 \<bind> (\<lambda>vm2. Some (?e, upd_cur (\<lambda>th. th\<lparr>brk := ?e\<rparr>) (set_vm vm2 k))) = Some (r, k')"
      using e unfolding bind_eq_Some_conv [of "make_sure_user_space (l1_pt (k_cur k)) ?old (b - ?old) (k_vm k)"] by blast
    obtain vm2 where v2: "user_write ?s (replicate (unat (?e - ?s)) 0) vm1 = Some vm2"
      and e2: "Some (?e, upd_cur (\<lambda>th. th\<lparr>brk := ?e\<rparr>) (set_vm vm2 k)) = Some (r, k')"
      using e1 unfolding bind_eq_Some_conv by blast
    from e2 have "r = ?e" "k' = upd_cur (\<lambda>th. th\<lparr>brk := r\<rparr>) (set_vm vm2 k)" unfolding option.inject prod.inject by blast+
    with v1 v2 that(3) 3(2) show ?thesis by blast
  next
    case 1
    then have "Some (?old, k) = Some (r, k')" using assms by (simp only: set_brk_impl_def Let_def split: if_splits) simp_all
    then have "k' = k" "r = ?old" unfolding option.inject prod.inject by blast+
    then show ?thesis using that(1) 1 by blast
  next
    case 2
    then have "Some (b, upd_cur (\<lambda>th. th\<lparr>brk := b\<rparr>) k) = Some (r, k')"
      using assms unfolding set_brk_impl_def Let_def by (metis linorder_not_less)
    then have "k' = upd_cur (\<lambda>th. th\<lparr>brk := b\<rparr>) k" "r = b" unfolding option.inject prod.inject by blast+
    then show ?thesis using that(2) 2(2) by blast
  qed
qed

lemma set_brk_impl_calm:
  assumes "set_brk_impl b k = Some (r, k')"
  shows "calm k k'"
proof -
  have u: "calm k (upd_cur (\<lambda>th. th\<lparr>brk := v\<rparr>) k)" for k v by (rule calm_upd_cur) simp
  from assms show ?thesis
  proof (cases rule: set_brk_impl_cases)
    case (3 vm1 vm2 bs)
    have "vm_active vm2 = vm_active (k_vm k)" using make_sure_active [OF 3(2)] user_write_active [OF 3(3)] by simp
    then show ?thesis unfolding 3(4) using calm_set_vm u calm_trans by blast
  qed (simp_all add: u calm_refl)
qed

lemma getrandom_impl_calm: "getrandom_impl buf n k = Some (r, k') \<Longrightarrow> calm k k'"
  by (auto simp: getrandom_impl_def dest: calm_write)

lemma clock_gettime_impl_calm: "clock_gettime_impl w ts k = Some (r, k') \<Longrightarrow> calm k k'"
  by (auto simp: clock_gettime_impl_def calm_refl dest: calm_write split: if_splits)

lemmas call_calms = write_impl_calm writev_loop_calm openat_impl_calm create_call_calm ioctl_impl_calm fcntl64_impl_calm
  llseek_impl_calm dup_calm getdent64_impl_calm fstatat64_impl_calm getcwd_call_calm chdir_impl_calm set_brk_impl_calm
  getrandom_impl_calm clock_gettime_impl_calm

section \<open>The calls that schedule\<close>

definition trap_ok :: "trap_end \<Rightarrow> bool" where
  "trap_ok r \<longleftrightarrow> (case r of Returned c k \<Rightarrow> kernel_ok k | Resumed k \<Rightarrow> kernel_ok k | _ \<Rightarrow> True)"

lemma k_do_sched_ok:
  assumes "k_do_sched fuel c k = Some r" "sched_ok (k_sched k)" "tty_inv (k_tty k)"
  shows "trap_ok r"
proof -
  obtain out where out: "sched_end r = Some out" "cs_do_sched fuel (length (k_keys k)) c (k_sched k) = Some out"
    using k_do_sched_refines_law(1) [OF assms(1)] by blast
  have res: "sched_result c (k_sched k) out" by (rule cs_do_sched_law [OF out(2) assms(2)])
  show ?thesis
  proof (cases r)
    case (Resumed k')
    then have "running (k_sched k')" using res out(1) by (auto simp: sched_end_def sched_result_def)
    moreover have "tty_inv (k_tty k')" using k_do_sched_refines_law(2) [OF assms(1) Resumed] assms(3) by (simp add: io_same_def)
    ultimately show ?thesis using Resumed by (simp add: trap_ok_def kernel_ok_def)
  qed (use out(1) in \<open>simp_all add: sched_end_def trap_ok_def\<close>)
qed

lemma k_svc_sleep_ok:
  assumes "k_svc_sleep fuel n k = Some r" "kernel_ok k"
  shows "trap_ok r"
proof -
  let ?s = "s_push (cur (k_sched k), n) (upd_thread (cur (k_sched k)) (\<lambda>th. th\<lparr>ready := False\<rparr>) (k_sched k))"
  have "k_do_sched fuel None (k\<lparr>k_sched := ?s\<rparr>) = Some r"
    using assms(1) by (simp add: k_svc_sleep_def upd_cur_def upd_thread_def Let_def)
  then show ?thesis by (rule k_do_sched_ok) (use assms(2) sleep_ok in \<open>simp_all add: kernel_ok_def\<close>)
qed

lemma k_exit_ok:
  assumes "k_exit fuel c k = Some r" "kernel_ok k"
  shows "trap_ok r"
proof -
  let ?s = "(upd_thread (cur (k_sched k)) (\<lambda>th. th\<lparr>exited := True\<rparr>) (k_sched k))
    \<lparr>svm := free_L1_page_table (l1_pt (k_cur k)) (k_vm k)\<rparr>"
  have "k_do_sched fuel (Some c) (k\<lparr>k_sched := ?s\<rparr>) = Some r"
    using assms(1) by (simp add: k_exit_def upd_cur_def upd_thread_def set_vm_def Let_def)
  then show ?thesis by (rule k_do_sched_ok) (use assms(2) exit_ok in \<open>simp_all add: kernel_ok_def\<close>)
qed

lemma save_cur_calm: "calm k (save_cur c k)"
  unfolding save_cur_def by (rule calm_upd_cur) simp

lemma rewind_sleep_ok: "rewind_sleep fuel n k = Some r \<Longrightarrow> kernel_ok k \<Longrightarrow> trap_ok r"
  unfolding rewind_sleep_def by (erule k_svc_sleep_ok) (erule calm_ok [rotated], rule calm_upd_cur, simp)

lemma ticks_running: "running s \<Longrightarrow> running ((tick_try_to_wake_up ^^ n) s)"
  by (induction n) (simp_all add: sched_step_running [OF sched_step.tick])

lemma read_impl_ok:
  assumes "read_impl fuel meta fd buf count k = Some (r, k')" "kernel_ok k"
  shows "kernel_ok k'"
proof -
  obtain bs bs' keys st n where b: "sys_read fuel meta fd bs count (k_keys k) (io_of k) = Some (r, bs', keys, st)"
    "k_write buf bs' (((put_io st k)\<lparr>k_keys := keys\<rparr>)\<lparr>k_sched := (tick_try_to_wake_up ^^ n) (k_sched ((put_io st k)\<lparr>k_keys := keys\<rparr>))\<rparr>)
       = Some k'"
    using assms(1) unfolding read_impl_def Let_def bind_eq_Some_conv by auto
  have "calm k (put_io st k)" using calm_put_io sys_read_tty [OF b(1)] io_tty_of by metis
  then have "kernel_ok (put_io st k)" using assms(2) calm_ok by blast
  then have "kernel_ok (((put_io st k)\<lparr>k_keys := keys\<rparr>)\<lparr>k_sched := (tick_try_to_wake_up ^^ n) (k_sched ((put_io st k)\<lparr>k_keys := keys\<rparr>))\<rparr>)"
    by (simp add: kernel_ok_def ticks_running)
  then show ?thesis using calm_write [OF b(2)] calm_ok by blast
qed

lemma timer_tick_ok: "kernel_ok k \<Longrightarrow> kernel_ok (timer_tick keys k)"
  using io_same_tick [of k keys] sched_step_running [OF sched_step.tick]
  by (simp add: kernel_ok_def timer_tick_sched io_same_def)

section \<open>Running a program\<close>

lemma load_segment_active: "load_segment elf l1 ph m vm = Some (m', vm') \<Longrightarrow> vm_active vm' = vm_active vm"
  unfolding load_segment_def Let_def
  by (auto simp: bind_eq_Some_conv simp del: replicate.simps split: if_splits dest!: user_write_active make_sure_active)

lemma load_segments_active: "load_segments n i elf eh l1 m vm = Some (m', vm') \<Longrightarrow> vm_active vm' = vm_active vm"
  by (induction n arbitrary: i m vm) (auto simp: bind_eq_Some_conv dest!: load_segment_active)

lemma copy_strings_active: "copy_strings ss sp vm = Some (ps, sp', vm') \<Longrightarrow> vm_active vm' = vm_active vm"
  by (induction ss arbitrary: sp vm ps) (auto simp: bind_eq_Some_conv Let_def simp del: user_write.simps dest!: user_write_active)

lemma push_words_active: "push_words ws sp vm = Some (sp', vm') \<Longrightarrow> vm_active vm' = vm_active vm"
  by (induction ws arbitrary: sp vm) (auto simp: bind_eq_Some_conv simp del: user_write.simps dest!: user_write_active)

lemma init_stack_active:
  assumes "init_stack eh at argv envp vm = Some (sp, vm')"
  shows "vm_active vm' = vm_active vm"
proof -
  obtain a b c d e f g h ws i where "copy_strings argv STACK_TOP vm = Some (a, b, c)" "copy_strings envp b c = Some (d, e, f)"
    "user_write g h f = Some i" "push_words ws g i = Some (sp, vm')"
    using assms unfolding init_stack_def Let_def by (auto simp: bind_eq_Some_conv simp del: user_write.simps replicate.simps)
  then show ?thesis by (auto dest!: copy_strings_active push_words_active user_write_active)
qed

lemma load_elf_keeps:
  assumes "load_elf elf argv envp pcb vm = Some (pc, pcb', vm')"
  shows "vm_active vm' = vm_active vm" "exited pcb' = exited pcb" "ready pcb' = ready pcb" "l1_pt pcb' = l1_pt pcb"
proof -
  have n: "\<not> length elf < 52" using assms by (auto simp: load_elf_def)
  have "vm_active vm' = vm_active vm \<and> exited pcb' = exited pcb \<and> ready pcb' = ready pcb \<and> l1_pt pcb' = l1_pt pcb"
  proof (cases "elf_bad (ehdr_at elf)")
    case True
    then show ?thesis using assms n by (auto simp: load_elf_def Let_def)
  next
    case False
    obtain m vm1 l vm2 s bs vm3 at sp where
      a: "load_segments (unat (e_phnum (ehdr_at elf))) 0 elf (ehdr_at elf) (l1_pt pcb) 0 vm = Some (m, vm1)"
        "make_sure_user_space (l1_pt pcb) s l vm1 = Some vm2" "user_write s bs vm2 = Some vm3"
        "init_stack (ehdr_at elf) at argv envp vm3 = Some (sp, vm')"
      and p: "exited pcb' = exited pcb" "ready pcb' = ready pcb" "l1_pt pcb' = l1_pt pcb"
      using assms n False unfolding load_elf_def Let_def bind_eq_Some_conv
      by (auto simp: bind_eq_Some_conv simp del: user_write.simps replicate.simps)
    have "vm_active vm' = vm_active vm"
      using load_segments_active [OF a(1)] make_sure_active [OF a(2)] user_write_active [OF a(3)] init_stack_active [OF a(4)] by simp
    then show ?thesis using p by blast
  qed
  then show "vm_active vm' = vm_active vm" "exited pcb' = exited pcb" "ready pcb' = ready pcb" "l1_pt pcb' = l1_pt pcb" by blast+
qed

lemma copy_in_active: "copy_in ss vm = Some (ps, vm') \<Longrightarrow> vm_active vm' = vm_active vm"
  by (induction ss arbitrary: vm ps) (auto simp: bind_eq_Some_conv dest!: valloc_active)

lemma copy_vector_active: "copy_vector ss vm = Some vm' \<Longrightarrow> vm_active vm' = vm_active vm"
  by (auto simp: copy_vector_def bind_eq_Some_conv dest!: valloc_active copy_in_active)

lemma copy_args_active: "copy_args fuel a e vm = Some (args, envs, vm') \<Longrightarrow> vm_active vm' = vm_active vm"
  by (auto simp: copy_args_def bind_eq_Some_conv split: if_splits dest!: copy_vector_active)

lemma read_program_calm: "read_program fuel meta name de k = Some (p, bs, k') \<Longrightarrow> calm k k'"
  by (auto simp: read_program_def bind_eq_Some_conv calm_def sched_same_def set_vm_def dest!: valloc_active)

lemma running_new_table:
  assumes "running s" "exited th = exited (cur_thread s)" "ready th = ready (cur_thread s)" "l1_pt th = vm_active vm"
  shows "running ((upd_thread (cur s) (\<lambda>_. th) s)\<lparr>svm := vm\<rparr>)"
  using assms unfolding running_def sched_ok_def sched_inv_def asleep_def by (auto simp: upd_thread_def)

lemma replace_image_ok:
  assumes "replace_image p bs args envs k = Some (r, k')" "kernel_ok k"
  shows "kernel_ok k'"
proof -
  obtain l1 vm1 where l1: "make_initial_L1_table (k_vm k) = Some (l1, vm1)"
    using assms(1) by (auto simp: replace_image_def bind_eq_Some_conv)
  let ?vm2 = "free_L1_page_table (l1_pt (k_cur k)) (switch_L1_page_table l1 vm1)"
  let ?th = "(k_cur k)\<lparr>l1_pt := l1\<rparr>"
  obtain pc pcb vm3 where le: "load_elf bs args envs ?th ?vm2 = Some (pc, pcb, vm3)"
    using assms(1) l1 by (auto simp: replace_image_def bind_eq_Some_conv)
  let ?k1 = "upd_cur (\<lambda>th. pcb) (set_vm (vfree p vm3) k)"
  have k': "k' = (if pc = ELF_ERR then ?k1 else upd_cur (\<lambda>th. th\<lparr>ctx := (ctx th)\<lparr>resume_pc := pc,
                regs := replicate 13 0 @ drop 13 (regs (ctx th))\<rparr>, ready := True\<rparr>) ?k1)"
    using assms(1) l1 le by (simp add: replace_image_def Let_def split: if_splits)
  note keeps = load_elf_keeps [OF le]
  have a: "vm_active (vfree p vm3) = l1" using keeps(1) by (simp add: vm_active_simps switch_L1_page_table_def)
  have t: "k_tty ?k1 = k_tty k" by (simp add: upd_cur_def set_vm_def)
  have run: "running ((upd_thread (cur (k_sched k)) (\<lambda>_. th) (k_sched k))\<lparr>svm := vfree p vm3\<rparr>)"
    if "exited th = exited pcb" "ready th = ready pcb" "l1_pt th = l1_pt pcb" for th
    by (rule running_new_table) (use assms(2) that keeps(2-4) a in \<open>simp_all add: kernel_ok_def\<close>)
  have e1: "k_sched ?k1 = (upd_thread (cur (k_sched k)) (\<lambda>_. pcb) (k_sched k))\<lparr>svm := vfree p vm3\<rparr>"
    by (simp add: upd_cur_def set_vm_def upd_thread_def)
  let ?f = "\<lambda>th. th\<lparr>ctx := (ctx th)\<lparr>resume_pc := pc, regs := replicate 13 0 @ drop 13 (regs (ctx th))\<rparr>, ready := True\<rparr>"
  have e2: "k_sched (upd_cur ?f ?k1) = (upd_thread (cur (k_sched k)) (\<lambda>_. ?f pcb) (k_sched k))\<lparr>svm := vfree p vm3\<rparr>"
    by (simp add: upd_cur_def set_vm_def upd_thread_def)
  have r: "ready pcb" using keeps(3) assms(2) by (simp add: kernel_ok_def running_def)
  have "running (k_sched k')"
  proof (cases "pc = ELF_ERR")
    case True
    then have "k' = ?k1" using k' by simp
    then show ?thesis using run [of pcb] e1 by simp
  next
    case False
    then show ?thesis using run [of "?f pcb"] r unfolding k' by (simp add: e2)
  qed
  moreover have "k_tty k' = k_tty k" unfolding k' using t by (simp add: upd_cur_def)
  ultimately show ?thesis using assms(2) by (simp add: kernel_ok_def)
qed

lemma execve_impl_ok:
  assumes "execve_impl fuel meta a b d k = Some (r, k')" "kernel_ok k"
  shows "kernel_ok k'"
proof -
  obtain name entry fs where n: "user_string fuel a (k_vm k) = Some name" "find_program fuel meta name k = Some (entry, fs)"
    using assms(1) by (auto simp: execve_impl_def bind_eq_Some_conv)
  have k1: "kernel_ok (k\<lparr>k_fs := fs\<rparr>)" using assms(2) by (simp add: kernel_ok_def)
  show ?thesis
  proof (cases entry)
    case None
    then show ?thesis using assms(1) n k1 by (simp add: execve_impl_def)
  next
    case (Some de)
    then obtain p bs k2 args envs vm where e: "read_program fuel meta name de (k\<lparr>k_fs := fs\<rparr>) = Some (p, bs, k2)"
      "copy_args fuel b d (k_vm k2) = Some (args, envs, vm)" "replace_image p bs args envs (set_vm vm k2) = Some (r, k')"
      using assms(1) n by (auto simp: execve_impl_def bind_eq_Some_conv)
    have "kernel_ok k2" using calm_ok [OF read_program_calm [OF e(1)] k1] .
    then have "kernel_ok (set_vm vm k2)" using calm_ok calm_set_vm copy_args_active [OF e(2)] by blast
    then show ?thesis using replace_image_ok [OF e(3)] by blast
  qed
qed

section \<open>Every trap keeps the kernel well\<close>

definition ok_end :: "trap_end option \<Rightarrow> bool" where
  "ok_end r \<longleftrightarrow> (\<forall>e. r = Some e \<longrightarrow> trap_ok e)"

named_theorems ends

lemma ok_if [ends]: "ok_end a \<Longrightarrow> ok_end b \<Longrightarrow> ok_end (if P then a else b)"
  by simp

lemma ok_returned [ends]: "kernel_ok k \<Longrightarrow> ok_end (Some (Returned c k))"
  by (simp add: ok_end_def trap_ok_def)

lemma ok_rebooted [ends]: "ok_end (Some Rebooted)" "ok_end None"
  by (simp_all add: ok_end_def trap_ok_def)

lemma ok_gives: "(\<And>v k'. r = Some (v, k') \<Longrightarrow> kernel_ok k') \<Longrightarrow> ok_end (gives c r)"
  by (auto simp: ok_end_def gives_def trap_ok_def)

lemma ok_gives_calm: "kernel_ok k \<Longrightarrow> (\<And>v k'. r = Some (v, k') \<Longrightarrow> calm k k') \<Longrightarrow> ok_end (gives c r)"
  by (rule ok_gives) (blast intro: calm_ok)

lemma ok_bind: "(\<And>x. m = Some x \<Longrightarrow> ok_end (f x)) \<Longrightarrow> ok_end (m \<bind> f)"
  by (cases m) (simp_all add: ends)

lemma ok_map_returned: "(\<And>k'. m = Some k' \<Longrightarrow> kernel_ok k') \<Longrightarrow> ok_end (map_option (\<lambda>k'. Returned c k') m)"
  by (auto simp: ok_end_def trap_ok_def)

lemma ok_calls [ends]:
  assumes "kernel_ok k"
  shows "ok_end (gives c (write_impl fuel meta r0 r1 r2 k))" "ok_end (gives c (writev_impl fuel meta r0 r1 r2 k))"
    "ok_end (gives c (openat_impl fuel meta r0 r1 r2 r3 k))" "ok_end (gives c (ioctl_impl r0 r1 r2 k))"
    "ok_end (gives c (fcntl64_impl r0 r1 r2 k))" "ok_end (gives c (llseek_impl r0 r1 r2 r3 r4 k))"
    "ok_end (gives c (with_io (dup_call r0) k))" "ok_end (gives c (with_io (sys_dup2 r0 r1) k))"
    "ok_end (gives c (getdent64_impl fuel meta r0 r1 r2 k))" "ok_end (gives c (fstatat64_impl fuel meta r0 r1 r2 r3 k))"
    "ok_end (gives c (getcwd_call fuel r0 r1 k))" "ok_end (gives c (chdir_impl fuel meta r0 k))"
    "ok_end (gives c (set_brk_impl r0 k))" "ok_end (gives c (getrandom_impl r0 r1 k))"
    "ok_end (gives c (clock_gettime_impl w r1 k))"
    "ok_end (gives c (map_option (\<lambda>(r, k'). (0, k')) (create_call fuel meta r0 r1 k)))"
  unfolding writev_impl_def
  by ((rule ok_gives_calm [OF assms], erule call_calms) | (rule ok_gives_calm [OF assms], use create_call_calm in fastforce))+

lemma ok_read [ends]: "kernel_ok k \<Longrightarrow> ok_end (gives c (read_impl fuel meta r0 r1 r2 k))"
  by (rule ok_gives) (rule read_impl_ok)

lemma ok_sleeps [ends]:
  "kernel_ok k \<Longrightarrow> ok_end (k_svc_sleep fuel n k)" "kernel_ok k \<Longrightarrow> ok_end (rewind_sleep fuel n k)"
  "kernel_ok k \<Longrightarrow> ok_end (k_exit fuel c k)" "kernel_ok k \<Longrightarrow> ok_end (k_do_sched fuel d k)"
  using k_svc_sleep_ok rewind_sleep_ok k_exit_ok k_do_sched_ok unfolding ok_end_def kernel_ok_def running_def by blast+

lemma ok_poll [ends]: "kernel_ok k \<Longrightarrow> ok_end (poll_call fuel c f n t k)"
  unfolding poll_call_def
  by (auto intro!: ok_bind ends split: prod.split dest!: calm_write intro: calm_ok)

lemma ok_waits [ends]:
  "kernel_ok k \<Longrightarrow> ok_end (waitpid_impl fuel c p st k)" "kernel_ok k \<Longrightarrow> ok_end (wait4_impl fuel c p k)"
  unfolding waitpid_impl_def wait4_impl_def
  by (auto intro!: ends ok_gives_calm split: if_splits dest: calm_write)

lemma ok_fork [ends]: "kernel_ok k \<Longrightarrow> ok_end (fork_call c k)"
  by (auto simp: ok_end_def fork_call_def trap_ok_def kernel_ok_def dest: fork_running)

lemma ok_execve [ends]: "kernel_ok k \<Longrightarrow> ok_end (execve_call fuel meta c k)"
  by (auto simp: ok_end_def execve_call_def trap_ok_def dest: execve_impl_ok)

lemma set_tls_ok [ends]: "kernel_ok k \<Longrightarrow> kernel_ok (set_tls_call v k)"
  by (erule calm_ok [rotated]) (simp add: set_tls_call_def calm_def sched_same_def upd_cur_def upd_thread_def)

lemma ok_tid [ends]: "kernel_ok k \<Longrightarrow> ok_end (case sys_set_tid_address_impl p k of (v, k') \<Rightarrow> Some (Returned (set_r0 v c) k'))"
  by (auto simp: sys_set_tid_address_impl_def intro!: ends calm_ok [OF calm_upd_cur])

lemma ok_posix_switch: "kernel_ok k \<Longrightarrow> ok_end (posix_switch fuel meta c k)"
  unfolding posix_switch_def Let_def by (intro ends)

lemma ok_posix [ends]:
  assumes "kernel_ok k"
  shows "ok_end (posix_syscall fuel meta c k)"
proof -
  have "kernel_ok (save_cur c k)" by (rule calm_ok [OF save_cur_calm assms])
  then have "ok_end (posix_switch fuel meta c (save_cur c k))" by (rule ok_posix_switch)
  moreover have "trap_ok (case e of Returned c' k' \<Rightarrow> Returned c' (save_cur c' k') | _ \<Rightarrow> e)" if "trap_ok e" for e
    using that calm_ok [OF save_cur_calm] by (cases e) (auto simp: trap_ok_def)
  ultimately show ?thesis by (auto simp: ok_end_def posix_syscall_def)
qed

lemma ok_cmpxchg [ends]: "kernel_ok k \<Longrightarrow> ok_end (kuser_cmpxchg c k)"
  unfolding kuser_cmpxchg_def Let_def
  by (intro ends ok_bind ok_map_returned) (auto dest: calm_write intro: calm_ok)

lemma ok_kuser [ends]: "kernel_ok k \<Longrightarrow> ok_end (kuser_memory_barrier c k)" "kernel_ok k \<Longrightarrow> ok_end (kuser_get_tls c k)"
  by (simp_all add: kuser_memory_barrier_def kuser_get_tls_def ends)

lemma kernel_ok_fs: "kernel_ok k \<Longrightarrow> kernel_ok (k\<lparr>k_fs := fs\<rparr>)"
  by (simp add: kernel_ok_def)

lemma ok_krep [ends]: "kernel_ok k \<Longrightarrow> ok_end (kernel_replace_file fuel meta c p a k)"
  unfolding kernel_replace_file_def
  by (intro ok_bind) (auto simp: ok_end_def trap_ok_def kernel_ok_fs split: prod.splits sum.splits)

lemma ok_swi: "kernel_ok k \<Longrightarrow> ok_end (swi_int_c fuel meta c k)"
  unfolding swi_int_c_def Let_def by (intro ok_bind ends)

lemma ok_irq: "kernel_ok k \<Longrightarrow> ok_end (generic_irq_handler fuel c b p p' keys k)"
  unfolding generic_irq_handler_def Let_def
  by (intro ends timer_tick_ok) (simp_all add: calm_ok [OF save_cur_calm])

lemma ok_abort: "kernel_ok k \<Longrightarrow> ok_end (data_abort_int_c c far k)"
  unfolding data_abort_int_c_def
  by (auto intro!: ok_bind ends calm_ok [OF calm_set_vm] simp: make_L2_page_on_the_fly_and_make_valid_def dest: make_sure_active)

section \<open>The machine\<close>

text \<open>The running program stores to its memory, or a trap is taken and the kernel comes back to a program.\<close>

fun comes_back :: "trap_end \<Rightarrow> kernel option" where
  "comes_back (Returned c k) = Some k"
| "comes_back (Resumed k) = Some k"
| "comes_back (Replaced a code) = None"
| "comes_back Rebooted = None"

inductive machine_step :: "nat \<Rightarrow> fat_meta \<Rightarrow> kernel \<Rightarrow> kernel \<Rightarrow> bool" for fuel meta where
  user: "user_store va b (k_vm k) = Some vm \<Longrightarrow> machine_step fuel meta k (set_vm vm k)"
| irq: "generic_irq_handler fuel c basic p p' keys k = Some e \<Longrightarrow> comes_back e = Some k' \<Longrightarrow> machine_step fuel meta k k'"
| swi: "swi_int_c fuel meta c k = Some e \<Longrightarrow> comes_back e = Some k' \<Longrightarrow> machine_step fuel meta k k'"
| abort: "data_abort_int_c c far k = Some e \<Longrightarrow> comes_back e = Some k' \<Longrightarrow> machine_step fuel meta k k'"

lemma comes_back_ok: "ok_end r \<Longrightarrow> r = Some e \<Longrightarrow> comes_back e = Some k' \<Longrightarrow> kernel_ok k'"
  by (cases e) (auto simp: ok_end_def trap_ok_def)

lemma machine_step_ok:
  assumes "machine_step fuel meta k k'" "kernel_ok k"
  shows "kernel_ok k'"
  using assms
proof cases
  case (user va b vm)
  then show ?thesis using calm_ok [OF calm_set_vm assms(2)] user_store_active by simp
qed (use assms(2) in \<open>blast intro: comes_back_ok ok_irq ok_swi ok_abort\<close>)+

lemma machine_steps_ok: "(machine_step fuel meta)\<^sup>*\<^sup>* k k' \<Longrightarrow> kernel_ok k \<Longrightarrow> kernel_ok k'"
  by (induction rule: rtranclp_induct) (blast intro: machine_step_ok)+

section \<open>Timer interrupts\<close>

lemma save_cur_sched: "k_sched (save_cur c k) = save_ctx (Some c) (k_sched k)"
  by (simp add: save_cur_def upd_cur_def save_ctx_def)

text \<open>A timer interrupt in user mode: the ready queue moves up by one place.\<close>

lemma irq_moves_up:
  assumes "kernel_ok k" "from_user c" "i < length (ready_q (k_sched k))" "ready_q (k_sched k) ! i = t" "t \<notin> set (take i (ready_q (k_sched k)))"
    "\<not> exited (threads (k_sched k) t)" "ready (threads (k_sched k) t)" "t \<noteq> cur (k_sched k)"
  shows "\<exists>k'. generic_irq_handler fuel c 1 p p' keys k = Some (Resumed k') \<and> kernel_ok k'
    \<and> ctx (threads (k_sched k') t) = ctx (threads (k_sched k) t) \<and> \<not> exited (threads (k_sched k') t) \<and> ready (threads (k_sched k') t)
    \<and> (if i = 0 then cur (k_sched k') = t
       else i - 1 < length (ready_q (k_sched k')) \<and> ready_q (k_sched k') ! (i - 1) = t \<and> t \<notin> set (take (i - 1) (ready_q (k_sched k')))
         \<and> t \<noteq> cur (k_sched k'))"
proof -
  let ?s = "k_sched k"
  let ?k2 = "timer_tick keys (save_cur c k)"
  let ?s2 = "k_sched ?k2"
  have s2: "?s2 = tick_try_to_wake_up (save_ctx (Some c) ?s)" by (simp add: timer_tick_sched save_cur_sched)
  have ok2: "kernel_ok ?k2" by (rule timer_tick_ok [OF calm_ok [OF save_cur_calm assms(1)]])
  have e: "generic_irq_handler fuel c 1 p p' keys k = k_do_sched fuel (Some c) ?k2"
    using assms(2) by (simp add: generic_irq_handler_def)
  obtain h q where q: "ready_q ?s = h # q" using assms(3) by (cases "ready_q ?s") auto
  have f: "ready_q ?s2 = h # (q @ wakes (sleeping_q ?s))" "cur ?s2 = cur ?s" "exited (threads ?s2 u) = exited (threads ?s u)"
    "ready (threads ?s u) \<Longrightarrow> ready (threads ?s2 u)" "t \<noteq> cur ?s \<Longrightarrow> ctx (threads ?s2 t) = ctx (threads ?s t)" for u
    unfolding s2 tick_fields save_ctx_fields q by (simp_all add: save_ctx_def upd_thread_def)
  have run: "\<not> exited (cur_thread ?s2)" "ready (cur_thread ?s2)" using ok2 by (simp_all add: kernel_ok_def running_def)
  have tq: "i \<noteq> 0 \<Longrightarrow> i - 1 < length q \<and> q ! (i - 1) = t \<and> t \<notin> set (take (i - 1) q) \<and> t \<noteq> h"
    using assms(3-5) q by (cases i) auto
  have sv: "ctx (threads (save_ctx (Some c) ?s2) t) = ctx (threads ?s t)" using f(2,5) assms(8) by (simp add: save_ctx_def upd_thread_def)
  show ?thesis
  proof (cases "\<not> exited (threads ?s2 h) \<and> ready (threads ?s2 h)")
    case True
    let ?k' = "?k2\<lparr>k_sched := switch_to h ((save_ctx (Some c) ?s2)\<lparr>ready_q := q @ wakes (sleeping_q ?s)\<rparr>)\<rparr>"
    have r: "k_do_sched fuel (Some c) ?k2 = Some (Resumed ?k')" using k_do_sched_head [OF f(1)] True by blast
    have th: "threads (k_sched ?k') u = threads (save_ctx (Some c) ?s2) u" for u by (simp add: switch_to_def Let_def t_push_def)
    have "kernel_ok ?k'" using k_do_sched_ok [OF r] ok2 by (simp add: trap_ok_def kernel_ok_def running_def)
    moreover have "cur (k_sched ?k') = h" "ready_q (k_sched ?k') = q @ (wakes (sleeping_q ?s) @ [cur ?s])"
      using run by (simp_all add: switch_to_def Let_def t_push_def save_ctx_fields f(2))
    moreover have "ctx (threads (k_sched ?k') t) = ctx (threads ?s t)" "\<not> exited (threads (k_sched ?k') t)" "ready (threads (k_sched ?k') t)"
      unfolding th using sv assms(6,7) f(3,4) by (simp_all add: save_ctx_fields)
    ultimately obtain k' where k': "generic_irq_handler fuel c 1 p p' keys k = Some (Resumed k')" "kernel_ok k'" "cur (k_sched k') = h"
      "ready_q (k_sched k') = q @ (wakes (sleeping_q ?s) @ [cur ?s])" "ctx (threads (k_sched k') t) = ctx (threads ?s t)"
      "\<not> exited (threads (k_sched k') t)" "ready (threads (k_sched k') t)" using r e by metis
    have "i = 0 \<Longrightarrow> h = t" using assms(4) q by simp
    then show ?thesis using k' tq by (intro exI [of _ k'], cases "i = 0") (auto simp: nth_append)
  next
    case False
    then have "h \<noteq> t" using assms(6,7) f(3,4) by auto
    then have ne: "i \<noteq> 0" using assms(4) q by (cases i) auto
    let ?k' = "?k2\<lparr>k_sched := (save_ctx (Some c) ?s2)\<lparr>ready_q := q @ wakes (sleeping_q ?s)\<rparr>\<rparr>"
    have r: "k_do_sched fuel (Some c) ?k2 = Some (Resumed ?k')"
      using k_do_sched_continue [of ?k2, OF _ run] False f(1) by simp
    have "kernel_ok ?k'" using k_do_sched_ok [OF r] ok2 by (simp add: trap_ok_def kernel_ok_def running_def)
    moreover have "cur (k_sched ?k') = cur ?s" "ready_q (k_sched ?k') = q @ wakes (sleeping_q ?s)"
      "ctx (threads (k_sched ?k') t) = ctx (threads ?s t)" "\<not> exited (threads (k_sched ?k') t)" "ready (threads (k_sched ?k') t)"
      using sv assms(6,7) f(2-4) by (simp_all add: save_ctx_fields)
    ultimately obtain k' where k': "generic_irq_handler fuel c 1 p p' keys k = Some (Resumed k')" "kernel_ok k'" "cur (k_sched k') = cur ?s"
      "ready_q (k_sched k') = q @ wakes (sleeping_q ?s)" "ctx (threads (k_sched k') t) = ctx (threads ?s t)"
      "\<not> exited (threads (k_sched k') t)" "ready (threads (k_sched k') t)" using r e by metis
    then show ?thesis using tq [OF ne] ne assms(8) by (intro exI [of _ k']) (auto simp: nth_append)
  qed
qed

text \<open>A run of timer interrupts, each with the context it interrupts and the keys it finds.\<close>

fun timer_irqs :: "nat \<Rightarrow> (saved_context \<times> u8 list) list \<Rightarrow> kernel \<Rightarrow> kernel option" where
  "timer_irqs fuel [] k = Some k"
| "timer_irqs fuel ((c, keys) # xs) k = do {
     e \<leftarrow> generic_irq_handler fuel c 1 0 0 keys k;
     k' \<leftarrow> comes_back e;
     timer_irqs fuel xs k'
   }"

lemma timer_irqs_reach:
  assumes "kernel_ok k" "i < length (ready_q (k_sched k))" "ready_q (k_sched k) ! i = t" "t \<notin> set (take i (ready_q (k_sched k)))"
    "\<not> exited (threads (k_sched k) t)" "ready (threads (k_sched k) t)" "t \<noteq> cur (k_sched k)"
    "length xs = i + 1" "\<forall>(c, keys) \<in> set xs. from_user c"
  shows "\<exists>k'. timer_irqs fuel xs k = Some k' \<and> kernel_ok k' \<and> cur (k_sched k') = t
    \<and> ctx (k_cur k') = ctx (threads (k_sched k) t)"
  using assms
proof (induction i arbitrary: k xs)
  case 0
  then obtain c keys where x: "xs = [(c, keys)]" "from_user c" by (cases xs) auto
  from irq_moves_up [OF 0(1) x(2) 0(2-7), of fuel 0 0 keys] show ?case unfolding x by auto
next
  case (Suc i)
  then obtain c keys ys where x: "xs = (c, keys) # ys" "from_user c" "length ys = i + 1" "\<forall>(c, keys) \<in> set ys. from_user c"
    by (cases xs) auto
  from irq_moves_up [OF Suc.prems(1) x(2) Suc.prems(2-7), of fuel 0 0 keys]
  obtain k1 where k1: "generic_irq_handler fuel c 1 0 0 keys k = Some (Resumed k1)" "kernel_ok k1"
    "ctx (threads (k_sched k1) t) = ctx (threads (k_sched k) t)" "\<not> exited (threads (k_sched k1) t)" "ready (threads (k_sched k1) t)"
    "i < length (ready_q (k_sched k1))" "ready_q (k_sched k1) ! i = t" "t \<notin> set (take i (ready_q (k_sched k1)))" "t \<noteq> cur (k_sched k1)"
    by auto
  from Suc.IH [OF k1(2,6,7,8,4,5,9) x(3,4)] show ?case using k1(1,3) unfolding x by auto
qed

section \<open>Fixtures\<close>

lemma demo_ok: "kernel_ok demo_kernel"
proof -
  have "running (k_sched demo_kernel)"
    by (rule sched_same_running [OF _ demo_running]) (simp add: sched_same_def demo_kernel_def demo_sched_def)
  moreover have "tty_inv (k_tty demo_kernel)" by (simp add: demo_kernel_def tty_init_def tty_inv_def termios_size_def NCCS_def)
  ultimately show ?thesis by (simp add: kernel_ok_def)
qed

definition user_ctx :: saved_context where
  "user_ctx = \<lparr>user_sp = 0x9000, user_lr = 0, cpsr = 0x10, regs = replicate 13 0, resume_pc = 0x8004\<rparr>"

section \<open>Claims\<close>

text \<open>C27: Whatever the running program stores and whatever sequence of timer and GPIO interrupts, software
  interrupts (system calls of every number, yields, exits, helpers) and data aborts is taken, the kernel
  that comes back runs a thread that has not exited and is awake, with that thread's page table in use,
  no live thread is lost from the queues, and the terminal's counts stay within its buffers.\<close>

theorem traps_safe:
  assumes "(machine_step fuel meta)\<^sup>*\<^sup>* k k'" "kernel_ok k"
  shows "\<not> exited (k_cur k') \<and> ready (k_cur k') \<and> vm_active (k_vm k') = l1_pt (k_cur k') \<and> sched_inv (k_sched k') \<and> tty_inv (k_tty k')"
  using machine_steps_ok [OF assms] by (simp add: kernel_ok_def running_def sched_ok_def)

lemma timer_tick_screen: "k_screen (timer_tick keys k) = k_screen k @ fst (tty_system_process_tty keys (k_tty k))"
  by (simp add: timer_tick_def split: prod.splits)

lemma demo_irq:
  "\<exists>k'. generic_irq_handler 1 user_ctx 1 0 0 [104, 105] demo_kernel = Some (Resumed k') \<and> k_screen k' = [104, 105]"
proof -
  have "fst (tty_system_process_tty [104, 105] (fst tty_init)) = [104, 105]" by code_simp
  then have e: "fst (tty_system_process_tty [104, 105] (k_tty demo_kernel)) = [104, 105]" by (simp add: demo_kernel_def)
  have r: "ready_q (k_sched (timer_tick [104, 105] (save_cur user_ctx demo_kernel))) = []"
    by (simp add: timer_tick_sched tick_fields save_cur_sched save_ctx_fields demo_kernel_def demo_sched_def wakes_simps)
  have l: "\<not> exited (k_cur (timer_tick [104, 105] (save_cur user_ctx demo_kernel)))" "ready (k_cur (timer_tick [104, 105] (save_cur user_ctx demo_kernel)))"
    using timer_tick_ok [OF calm_ok [OF save_cur_calm demo_ok], of "[104, 105]"] by (simp_all add: kernel_ok_def running_def)
  have sc: "k_screen (timer_tick [104, 105] (save_cur user_ctx demo_kernel)) = [104, 105]"
    unfolding timer_tick_screen using e by (simp add: save_cur_def upd_cur_def) (simp add: demo_kernel_def)
  have "generic_irq_handler 1 user_ctx 1 0 0 [104, 105] demo_kernel = k_do_sched 1 (Some user_ctx) (timer_tick [104, 105] (save_cur user_ctx demo_kernel))"
    by (simp add: generic_irq_handler_def from_user_def user_ctx_def)
  then show ?thesis using k_do_sched_continue [of "timer_tick [104, 105] (save_cur user_ctx demo_kernel)", OF disjI1 [OF r] l] sc by auto
qed

theorem traps_safe_witness:
  "\<exists>k'. (machine_step 1 small_meta)\<^sup>*\<^sup>* demo_kernel k' \<and> k_screen k' = [104, 105] \<and> ready (k_cur k')"
proof -
  obtain k' where k': "generic_irq_handler 1 user_ctx 1 0 0 [104, 105] demo_kernel = Some (Resumed k')" "k_screen k' = [104, 105]"
    using demo_irq by blast
  then have r: "(machine_step 1 small_meta)\<^sup>*\<^sup>* demo_kernel k'" by (intro r_into_rtranclp machine_step.irq [OF k'(1)]) (rule comes_back.simps)
  with traps_safe [OF r demo_ok] k'(2) show ?thesis by blast
qed

text \<open>C28: No ready thread starves. A live, awake thread at place \<open>i\<close> of the ready queue (its first place there)
  runs after exactly \<open>i + 1\<close> timer interrupts taken in user mode, whatever the keys and the contexts
  interrupted are, and it goes on exactly where it was.\<close>

theorem ready_thread_runs:
  assumes "kernel_ok k" "i < length (ready_q (k_sched k))" "ready_q (k_sched k) ! i = t" "t \<notin> set (take i (ready_q (k_sched k)))"
    "\<not> exited (threads (k_sched k) t)" "ready (threads (k_sched k) t)" "t \<noteq> cur (k_sched k)"
    "length xs = i + 1" "\<forall>(c, keys) \<in> set xs. from_user c"
  shows "\<exists>k'. timer_irqs fuel xs k = Some k' \<and> cur (k_sched k') = t \<and> ctx (k_cur k') = ctx (threads (k_sched k) t)"
  using timer_irqs_reach [OF assms, of fuel] by blast

definition woken_kernel :: kernel where
  "woken_kernel = (let s = (tick_try_to_wake_up ^^ 3) (k_sched demo_kernel) in demo_kernel\<lparr>k_sched := s\<rparr>)"

lemma woken_fields:
  "kernel_ok woken_kernel" "ready_q (k_sched woken_kernel) = [1]" "cur (k_sched woken_kernel) = 0"
  "\<not> exited (threads (k_sched woken_kernel) 1)" "ready (threads (k_sched woken_kernel) 1)"
  using demo_ok ticks_running [of "k_sched demo_kernel" 3]
  by (simp_all add: kernel_ok_def woken_kernel_def Let_def eval_nat_numeral tick_fields demo_kernel_def demo_sched_def demo_thread_def wakes_simps)

theorem ready_thread_runs_witness:
  "\<exists>k'. timer_irqs 1 [(user_ctx, [104])] woken_kernel = Some k' \<and> cur (k_sched k') = 1"
proof -
  have "\<exists>k'. timer_irqs 1 [(user_ctx, [104])] woken_kernel = Some k' \<and> cur (k_sched k') = 1 \<and> ctx (k_cur k') = ctx (threads (k_sched woken_kernel) 1)"
    by (rule ready_thread_runs [where i = 0]) (use woken_fields in \<open>simp_all add: from_user_def user_ctx_def\<close>)
  then show ?thesis by blast
qed

end
