(* ===== verification/Calls.thy ===== *)
theory Calls
  imports Trap
begin

text \<open>
  What single traps do to the program that takes them: the compare-and-swap helper, stack growth, growing
  the heap, reading a file into user memory, waiting for a child, fork and a failing execve. The laws of
  the page tables, the file system and the scheduler are composed through the dispatch.
\<close>

section \<open>A word of a user page\<close>

lemma u32_bytes_length [simp]: "length (u32_bytes v) = 4"
  by (simp add: u32_bytes_def)

lemma read_u32_bytes: "read_u32 (u32_bytes v) 0 = v"
proof -
  have "read_u32 (write_u32 (replicate 4 0) 0 v) 0 = v" by (rule read_write_u32_same) simp
  moreover have "write_u32 (replicate 4 0) 0 v = u32_bytes v" by (simp add: write_u32_def u32_bytes_def eval_nat_numeral)
  ultimately show ?thesis by simp
qed

lemma k_vm_set [simp]: "k_vm (set_vm vm k) = vm" "k_files (set_vm vm k) = k_files k" "k_fs (set_vm vm k) = k_fs k"
  by (simp_all add: set_vm_def)

lemma k_write_page:
  assumes "user_page (k_vm k) l1 fl live base p" "off + length bs \<le> 4096"
  obtains vm where "k_write (base + of_nat off) bs k = Some (set_vm vm k)" "user_page vm l1 fl live base p"
    "page_list (vm_mem vm) p = blit (page_list (vm_mem (k_vm k)) p) off bs"
  using user_write_page [OF assms] that by (auto simp: k_write_def)

lemma user_word_page:
  assumes "user_page vm l1 fl live base p" "off + 4 \<le> 4096"
  shows "user_word (base + of_nat off) vm = Some (read_u32 (slice (page_list (vm_mem vm) p) off 4) 0)"
  using user_read_page [OF assms] by (simp add: user_word_def)

lemma cmpxchg_law:
  assumes "user_page (k_vm k) l1 fl live base p" "off + 4 \<le> 4096" "reg c 2 = base + of_nat off"
    "0x10000 \<le> reg c 2" "reg c 2 \<le> 0xC0000000"
  shows "\<exists>v. user_word (reg c 2) (k_vm k) = Some v
    \<and> (if v = reg c 0
       then \<exists>vm. kuser_cmpxchg c k = Some (Returned (set_r0 0 c) (set_vm vm k)) \<and> user_word (reg c 2) vm = Some (reg c 1)
         \<and> page_list (vm_mem vm) p = blit (page_list (vm_mem (k_vm k)) p) off (u32_bytes (reg c 1))
       else kuser_cmpxchg c k = Some (Returned (set_r0 1 c) k))"
proof -
  define v where "v = read_u32 (slice (page_list (vm_mem (k_vm k)) p) off 4) 0"
  have v: "user_word (reg c 2) (k_vm k) = Some v" using user_word_page [OF assms(1,2)] by (simp add: v_def assms(3))
  have e: "kuser_cmpxchg c k = (if v = reg c 0 then map_option (\<lambda>k'. Returned (set_r0 0 c) k') (k_write (reg c 2) (u32_bytes (reg c 1)) k)
      else Some (Returned (set_r0 1 c) k))"
  proof -
    have "\<not> (reg c 2 < 0x10000 \<or> reg c 2 > 0xC0000000)" using assms(4,5) by auto
    then show ?thesis using v by (simp only: kuser_cmpxchg_def Let_def if_False bind.bind_lunit)
  qed
  show ?thesis
  proof (cases "v = reg c 0")
    case True
    have o: "off + length (u32_bytes (reg c 1)) \<le> 4096" using assms(2) by simp
    obtain vm where vm: "k_write (base + of_nat off) (u32_bytes (reg c 1)) k = Some (set_vm vm k)" "user_page vm l1 fl live base p"
      "page_list (vm_mem vm) p = blit (page_list (vm_mem (k_vm k)) p) off (u32_bytes (reg c 1))"
      by (rule k_write_page [OF assms(1) o])
    have "slice (blit (page_list (vm_mem (k_vm k)) p) off (u32_bytes (reg c 1))) off 4 = u32_bytes (reg c 1)"
      using slice_blit_same [of off "u32_bytes (reg c 1)" "page_list (vm_mem (k_vm k)) p"] assms(2) by simp
    then have "user_word (reg c 2) vm = Some (reg c 1)"
      using user_word_page [OF vm(2) assms(2)] vm(3) by (simp add: assms(3) read_u32_bytes)
    then show ?thesis using v e True vm(1,3) by (auto simp: assms(3))
  qed (use v e in simp)
qed

section \<open>Stack growth\<close>

lemma floor_same_page: "same_page (va AND NOT 0xFFF) va"
proof (rule same_page_number)
  show "unat (va AND NOT 0xFFF) div 4096 = unat va div 4096" unfolding page_floor by (simp add: minus_mod_eq_mult_div)
qed

lemma floor_floor: "(va AND NOT 0xFFF) AND NOT 0xFFF = (va AND NOT 0xFFF :: u32)" "(va AND NOT 0xFFF :: u32) AND 0xFFF = 0"
  by (simp_all add: and.assoc)

lemma same_page_range:
  assumes "same_page far va"
  shows "far AND NOT 0xFFF \<le> va" "unat va < unat (far AND NOT 0xFFF) + 4096"
proof -
  have "same_page (va AND NOT 0xFFF) (far AND NOT 0xFFF)"
    using assms floor_same_page [of va] floor_same_page [of far] by (simp add: same_page_def)
  then have f: "far AND NOT 0xFFF = va AND NOT 0xFFF" by (rule same_page_eq) (simp only: floor_floor)
  have "unat va mod 4096 \<le> unat va" "unat va mod 4096 < 4096" by simp_all
  then show "far AND NOT 0xFFF \<le> va" "unat va < unat (far AND NOT 0xFFF) + 4096"
    unfolding f word_le_nat_alt page_floor by linarith+
qed

lemma stack_grows_law:
  assumes "pt_inv (k_vm k) l1 fl live" "vm_active (k_vm k) = l1" "from_user c" "far \<le> user_sp c + 128" "user_sp c - 128 \<le> far"
    "\<not> kernel_section fbs (l1i far)" "0 < avail (vm_ka (k_vm k)) fl 6" "0 < avail (vm_ka (k_vm k)) fl 8"
  shows "\<exists>vm fl' live'. data_abort_int_c c far k = Some (Returned (c\<lparr>resume_pc := resume_pc c - 8\<rparr>) (set_vm vm k)) \<and> pt_inv vm l1 fl' live'
    \<and> (\<forall>va. same_page far va \<longrightarrow> (\<exists>pa. translate (vm_mem vm) l1 va = Some (pa, 3) \<and> \<not> in_tables (vm_mem vm) l1 pa
        \<and> (\<not> has_page (vm_mem (k_vm k)) l1 far \<longrightarrow> vm_mem vm pa = 0 \<and> fresh_frame (k_vm k) live vm l1 va pa)))
    \<and> (\<forall>va pa ap. has_page (vm_mem (k_vm k)) l1 va \<longrightarrow> translate (vm_mem (k_vm k)) l1 va = Some (pa, ap) \<longrightarrow>
        (\<exists>ap'. translate (vm_mem vm) l1 va = Some (pa, ap')) \<and> vm_mem vm pa = vm_mem (k_vm k) pa)
    \<and> (\<forall>va. kernel_section fbs (l1i va) \<longrightarrow> translate (vm_mem vm) l1 va = translate (vm_mem (k_vm k)) l1 va)"
proof -
  let ?a = "far AND NOT 0xFFF"
  have m: "unat ?a mod 4096 = 0" unfolding page_floor by (simp add: minus_mod_eq_mult_div)
  have n: "page_count ?a 4096 = 1" by (simp only: page_count_def m) simp
  have "l1i far < 0xC00" using assms(6) by (simp add: kernel_section_def not_le)
  then have "unat (l1i far) < 0xC00" by (simp add: word_less_nat_alt)
  moreover have "unat (l1i far) = unat far div 1048576"
  proof -
    have "l1i far = drop_bit 20 far AND mask 12" by (simp add: mask_eq_exp_minus_1)
    then show ?thesis using unat_less_2p32 [of far] by (simp only: unat_and_mask) (simp add: drop_bit_eq_div unat_div div_less_iff_less_mult)
  qed
  ultimately have "unat far < 0xC0000000" by simp
  moreover have "unat ?a \<le> unat far" unfolding page_floor by simp
  ultimately have b: "unat ?a + unat (4096 :: u32) + 4095 < 4294967296" by simp
  have av: "page_count ?a 4096 \<le> avail (vm_ka (k_vm k)) fl 6" "page_count ?a 4096 \<le> avail (vm_ka (k_vm k)) fl 8" using assms(7,8) n by simp_all
  have la: "l1i ?a = l1i far" using floor_same_page [of far] by (simp add: same_page_def)
  have u: "user_range fbs ?a 4096" unfolding user_range_def n floor_floor(1) using assms(6) la by simp
  obtain vm fl' live' where r: "make_sure_user_space l1 ?a 4096 (k_vm k) = Some vm" "pt_inv vm l1 fl' live'"
    "\<forall>va. ?a \<le> va \<longrightarrow> unat va < unat ?a + unat (4096 :: u32) \<longrightarrow>
        (\<exists>pa. translate (vm_mem vm) l1 va = Some (pa, 3) \<and> \<not> in_tables (vm_mem vm) l1 pa
          \<and> (\<not> has_page (vm_mem (k_vm k)) l1 va \<longrightarrow> vm_mem vm pa = 0 \<and> fresh_frame (k_vm k) live vm l1 va pa))"
    "\<forall>va pa ap. has_page (vm_mem (k_vm k)) l1 va \<longrightarrow> translate (vm_mem (k_vm k)) l1 va = Some (pa, ap) \<longrightarrow>
        (\<exists>ap'. translate (vm_mem vm) l1 va = Some (pa, ap')) \<and> vm_mem vm pa = vm_mem (k_vm k) pa"
    "\<forall>va. kernel_section fbs (l1i va) \<longrightarrow> translate (vm_mem vm) l1 va = translate (vm_mem (k_vm k)) l1 va"
    using make_sure_maps_law [OF assms(1) b av u] by blast
  have "data_abort_int_c c far k = Some (Returned (c\<lparr>resume_pc := resume_pc c - 8\<rparr>) (set_vm vm k))"
    using r(1) assms(2-5) by (simp add: data_abort_int_c_def make_L2_page_on_the_fly_and_make_valid_def)
  moreover have "\<exists>pa. translate (vm_mem vm) l1 va = Some (pa, 3) \<and> \<not> in_tables (vm_mem vm) l1 pa
      \<and> (\<not> has_page (vm_mem (k_vm k)) l1 far \<longrightarrow> vm_mem vm pa = 0 \<and> fresh_frame (k_vm k) live vm l1 va pa)" if va: "same_page far va" for va
  proof -
    have h: "has_page (vm_mem (k_vm k)) l1 va = has_page (vm_mem (k_vm k)) l1 far" using va by (simp add: has_page_def same_page_def)
    have f: "unat (4096 :: u32) = 4096" by simp
    show ?thesis using r(3) [rule_format, OF same_page_range(1) [OF va], unfolded f, OF same_page_range(2) [OF va]] unfolding h .
  qed
  ultimately show ?thesis using r(2,4,5) by blast
qed

section \<open>Growing the heap\<close>

text \<open>Every byte of a range can be written, and none is part of a page table.\<close>

definition writable :: "vm_state \<Rightarrow> u32 \<Rightarrow> u32 \<Rightarrow> nat \<Rightarrow> bool" where
  "writable vm l1 va n \<longleftrightarrow> (\<forall>i < n. \<exists>pa. translate (vm_mem vm) l1 (va + of_nat i) = Some (pa, 3) \<and> \<not> in_tables (vm_mem vm) l1 pa)"

lemma store_writable:
  fixes b :: u8
  assumes "pt_inv vm l1 fl live" "vm_active vm = l1" "translate (vm_mem vm) l1 va = Some (pa, 3)" "\<not> in_tables (vm_mem vm) l1 pa"
  defines "vm' \<equiv> vm\<lparr>vm_mem := (vm_mem vm)(pa := b)\<rparr>"
  shows "user_store va b vm = Some vm'" "pt_inv vm' l1 fl live" "\<And>x. translate (vm_mem vm') l1 x = translate (vm_mem vm) l1 x"
    "\<And>x. in_tables (vm_mem vm') l1 x = in_tables (vm_mem vm) l1 x"
proof -
  show "user_store va b vm = Some vm'" using assms(2,3) by (simp add: user_store_def vm'_def)
  have nt: "vm_mem vm' x = vm_mem vm x" if "in_tables (vm_mem vm) l1 x" for x using that assms(4) by (auto simp: vm'_def)
  have "pt_inv (vm\<lparr>vm_ka := vm_ka vm, vm_mem := vm_mem vm'\<rparr>) l1 fl live"
    by (rule pt_inv_frame [OF assms(1) nt pt_invD(1) [OF assms(1)] order_refl order_refl])
  then show "pt_inv vm' l1 fl live" by (simp add: vm'_def)
  show "translate (vm_mem vm') l1 x = translate (vm_mem vm) l1 x" for x by (rule translate_frame [OF assms(1) nt])
  have "e1 (vm_mem vm') l1 i = e1 (vm_mem vm) l1 i" if "i < 4096" for i by (rule tables_frame(1) [OF assms(1) nt that])
  then show "in_tables (vm_mem vm') l1 x = in_tables (vm_mem vm) l1 x" for x unfolding in_tables_def coarse_def tbl_def by fastforce
qed

lemma user_write_zeros:
  assumes "pt_inv vm l1 fl live" "vm_active vm = l1" "writable vm l1 va n"
  shows "\<exists>vm'. user_write va (replicate n 0) vm = Some vm' \<and> pt_inv vm' l1 fl live \<and> vm_active vm' = l1
    \<and> (\<forall>x. translate (vm_mem vm') l1 x = translate (vm_mem vm) l1 x)
    \<and> (\<forall>x. vm_mem vm' x = (if \<exists>i < n. translate (vm_mem vm) l1 (va + of_nat i) = Some (x, 3) then 0 else vm_mem vm x))"
  using assms
proof (induction n arbitrary: va vm)
  case 0
  then show ?case by simp
next
  case (Suc n)
  obtain pa where pa: "translate (vm_mem vm) l1 va = Some (pa, 3)" "\<not> in_tables (vm_mem vm) l1 pa"
  proof -
    obtain pa where "translate (vm_mem vm) l1 (va + of_nat 0) = Some (pa, 3)" "\<not> in_tables (vm_mem vm) l1 pa"
      using Suc.prems(3) zero_less_Suc unfolding writable_def by blast
    then show thesis using that by simp
  qed
  note st = store_writable [OF Suc.prems(1,2) pa, of 0]
  define vm1 where "vm1 = vm\<lparr>vm_mem := (vm_mem vm)(pa := 0)\<rparr>"
  note st = st [folded vm1_def]
  have v1: "vm_active vm1 = l1" "vm_mem vm1 x = (if x = pa then 0 else vm_mem vm x)" for x using Suc.prems(2) by (simp_all add: vm1_def)
  have sh: "va + 1 + of_nat i = va + of_nat (Suc i)" for i :: nat by simp
  have "writable vm1 l1 (va + 1) n"
  proof (unfold writable_def st(3,4) sh, intro allI impI)
    fix i
    assume "i < n"
    then have "Suc i < Suc n" by simp
    with Suc.prems(3) show "\<exists>pa. translate (vm_mem vm) l1 (va + of_nat (Suc i)) = Some (pa, 3) \<and> \<not> in_tables (vm_mem vm) l1 pa"
      unfolding writable_def by blast
  qed
  then obtain vm' where r: "user_write (va + 1) (replicate n 0) vm1 = Some vm'" "pt_inv vm' l1 fl live" "vm_active vm' = l1"
    "\<forall>x. translate (vm_mem vm') l1 x = translate (vm_mem vm1) l1 x"
    "\<forall>x. vm_mem vm' x = (if \<exists>i < n. translate (vm_mem vm1) l1 (va + 1 + of_nat i) = Some (x, 3) then 0 else vm_mem vm1 x)"
    using Suc.IH [OF st(2) v1(1)] by blast
  have ex: "(\<exists>i < Suc n. translate (vm_mem vm) l1 (va + of_nat i) = Some (x, 3))
      \<longleftrightarrow> x = pa \<or> (\<exists>i < n. translate (vm_mem vm) l1 (va + of_nat (Suc i)) = Some (x, 3))" for x
    using pa(1) by (subst Ex_less_Suc2) auto
  have "user_write va (replicate (Suc n) 0) vm = Some vm'" using st(1) r(1) by simp
  moreover have "\<forall>x. vm_mem vm' x = (if \<exists>i < Suc n. translate (vm_mem vm) l1 (va + of_nat i) = Some (x, 3) then 0 else vm_mem vm x)"
    using r(5) unfolding st(3) sh ex v1(2) by auto
  ultimately show ?case using r(2,3) r(4) [unfolded st(3)] by (intro exI [of _ vm'] conjI)
qed

text \<open>The pages of a range, from the floor of its start to the ceiling of its end.\<close>

lemma page_in_range:
  assumes "unat start + unat sz + 4095 < 4294967296" "i < 4096 * page_count start sz"
  obtains k where "k < page_count start sz" "same_page ((start AND NOT 0xFFF) + 0x1000 * of_nat k) ((start AND NOT 0xFFF) + of_nat i)"
    "((start AND NOT 0xFFF) + 0x1000 * of_nat k) AND 0xFFF = (0 :: u32)"
    "unat ((start AND NOT 0xFFF) + of_nat i) = unat (start AND NOT 0xFFF) + i"
proof -
  define a where "a = start AND NOT 0xFFF"
  define n where "n = page_count start sz"
  have ua: "unat a = unat start - unat start mod 4096" unfolding a_def by (rule page_floor)
  obtain q where q: "unat a = 4096 * q" using ua by (simp add: minus_mod_eq_mult_div)
  have nb: "4096 * n \<le> unat start mod 4096 + unat sz + 4095" unfolding n_def page_count_def by simp
  have b: "4096 * q + 4096 * n < 4294967296"
  proof -
    have "unat start mod 4096 \<le> unat start" by simp
    then show ?thesis using nb ua q assms(1) by linarith
  qed
  define k where "k = i div 4096"
  have k: "k < n" using assms(2) by (simp add: k_def n_def div_less_iff_less_mult)
  have i: "4096 * k \<le> i" by (simp add: k_def)
  have ib: "unat a + i < 4294967296" using assms(2) b q by (simp add: n_def)
  have ui: "unat (a + of_nat i) = unat a + i" using ib by (rule unat_plus_small)
  have "unat (a + of_nat (4096 * k)) = unat a + 4096 * k" using ib i by (intro unat_plus_small) linarith
  then have uk: "unat (a + 0x1000 * of_nat k) = 4096 * (q + k)" using q by simp
  have "unat (a + of_nat i) div 4096 = q + k" unfolding ui q k_def by simp
  then have sp: "same_page (a + 0x1000 * of_nat k) (a + of_nat i)" using uk by (intro same_page_number) simp
  have "unat ((a + 0x1000 * of_nat k) AND 0xFFF) = 0" unfolding unat_low12 uk by simp
  then have "(a + 0x1000 * of_nat k) AND 0xFFF = 0" by (simp only: unat_eq_0)
  then show thesis using that k sp ui unfolding a_def n_def by blast
qed

lemma range_writable:
  assumes "pt_inv vm l1 fl live" "unat start + unat sz + 4095 < 4294967296"
    "page_count start sz \<le> avail (vm_ka vm) fl 6" "page_count start sz \<le> avail (vm_ka vm) fl 8"
  obtains vm' fl' live' where "make_sure_user_space l1 start sz vm = Some vm'" "pt_inv vm' l1 fl' live'" "vm_active vm' = vm_active vm"
    "writable vm' l1 (start AND NOT 0xFFF) (4096 * page_count start sz)"
proof -
  obtain vm' fl' live' where r: "make_sure_user_space l1 start sz vm = Some vm'" "pt_inv vm' l1 fl' live'" "live \<subseteq> live'"
    "vm_active vm' = vm_active vm" "range_mapped l1 (start AND NOT 0xFFF) (page_count start sz) vm live vm' live'"
    by (rule make_sure_law [OF assms]) blast
  have "writable vm' l1 (start AND NOT 0xFFF) (4096 * page_count start sz)"
  proof (unfold writable_def, intro allI impI)
    fix i
    assume "i < 4096 * page_count start sz"
    then obtain k where "k < page_count start sz" "same_page ((start AND NOT 0xFFF) + 0x1000 * of_nat k) ((start AND NOT 0xFFF) + of_nat i)"
      "((start AND NOT 0xFFF) + 0x1000 * of_nat k) AND 0xFFF = (0 :: u32)" using page_in_range [OF assms(2)] by blast
    then show "\<exists>pa. translate (vm_mem vm') l1 ((start AND NOT 0xFFF) + of_nat i) = Some (pa, 3) \<and> \<not> in_tables (vm_mem vm') l1 pa"
      using range_mapped_byte [OF assms(1) r(2,3,5)] by blast
  qed
  then show thesis using that r(1,2,4) by blast
qed

lemma brk_numbers:
  fixes old b :: u32
  assumes "old < b" "unat b + 4095 < 4294967296"
  defines "r \<equiv> (b + 0xFFF) AND NOT 0xFFF" and "a \<equiv> old AND NOT 0xFFF"
  shows "b \<le> r" "r AND 0xFFF = 0" "unat (r - a) = 4096 * page_count old (b - old)" "unat r = unat a + 4096 * page_count old (b - old)"
    "unat old + unat (b - old) + 4095 < 4294967296"
proof -
  have s: "unat (b - old) = unat b - unat old" "unat old < unat b"
    using assms(1) unat_sub_le [of old b] by (simp_all add: word_less_nat_alt word_le_nat_alt)
  then show "unat old + unat (b - old) + 4095 < 4294967296" using assms(2) by simp
  have t: "unat (b + 0xFFF) = unat b + 4095" using assms(2) by (subst unat_add_no_wrap) simp_all
  have r: "unat r = unat b + 4095 - (unat b + 4095) mod 4096" unfolding r_def page_floor t ..
  have a: "unat a = unat old - unat old mod 4096" unfolding a_def by (rule page_floor)
  have "(unat b + 4095) mod 4096 \<le> 4095" using mod_less_divisor [of 4096 "unat b + 4095"] by linarith
  then show "b \<le> r" using r by (simp add: word_le_nat_alt)
  show "r AND 0xFFF = 0" unfolding r_def by (simp only: floor_floor)
  define q where "q = unat old div 4096"
  have q: "unat old = 4096 * q + unat old mod 4096" by (simp add: q_def)
  have e: "unat b + 4095 = 4096 * q + (unat old mod 4096 + unat (b - old) + 4095)" using s q by linarith
  have "4096 * ((unat b + 4095) div 4096) = 4096 * q + 4096 * page_count old (b - old)" unfolding e page_count_def by simp
  moreover have "unat r = 4096 * ((unat b + 4095) div 4096)" unfolding r by (simp add: minus_mod_eq_mult_div)
  moreover have "unat a = 4096 * q" unfolding a using q by linarith
  ultimately show u: "unat r = unat a + 4096 * page_count old (b - old)" by simp
  then have "a \<le> r" by (simp add: word_le_nat_alt)
  then show "unat (r - a) = 4096 * page_count old (b - old)" using u by (simp add: unat_sub_le)
qed

lemma brk_grows_law:
  assumes "pt_inv (k_vm k) (l1_pt (k_cur k)) fl live" "vm_active (k_vm k) = l1_pt (k_cur k)"
    "brk_min (k_cur k) \<le> b" "brk (k_cur k) < b" "unat b + 4095 < 4294967296"
    "page_count (brk (k_cur k)) (b - brk (k_cur k)) \<le> avail (vm_ka (k_vm k)) fl 6"
    "page_count (brk (k_cur k)) (b - brk (k_cur k)) \<le> avail (vm_ka (k_vm k)) fl 8"
  shows "\<exists>r k'. set_brk_impl b k = Some (r, k') \<and> b \<le> r \<and> r AND 0xFFF = 0 \<and> brk (k_cur k') = r
    \<and> (\<forall>va. (brk (k_cur k) AND NOT 0xFFF) \<le> va \<longrightarrow> va < r \<longrightarrow>
        user_load (k_vm k') va = Some 0 \<and> (\<exists>pa. translate (vm_mem (k_vm k')) (l1_pt (k_cur k)) va = Some (pa, 3)))"
proof -
  let ?old = "brk (k_cur k)" and ?l1 = "l1_pt (k_cur k)"
  define a where "a = ?old AND NOT 0xFFF"
  define r where "r = (b + 0xFFF) AND NOT (0xFFF :: u32)"
  define n where "n = 4096 * page_count ?old (b - ?old)"
  note num = brk_numbers [OF assms(4,5), folded r_def a_def, folded n_def]
  obtain vm1 fl' live' where v1: "make_sure_user_space ?l1 ?old (b - ?old) (k_vm k) = Some vm1" "pt_inv vm1 ?l1 fl' live'"
    "vm_active vm1 = vm_active (k_vm k)" "writable vm1 ?l1 a n"
    using range_writable [OF assms(1) num(5) assms(6,7)] unfolding a_def n_def by metis
  obtain vm2 where v2: "user_write a (replicate n 0) vm1 = Some vm2" "vm_active vm2 = ?l1"
    "\<forall>x. translate (vm_mem vm2) ?l1 x = translate (vm_mem vm1) ?l1 x"
    "\<forall>x. vm_mem vm2 x = (if \<exists>i < n. translate (vm_mem vm1) ?l1 (a + of_nat i) = Some (x, 3) then 0 else vm_mem vm1 x)"
    using user_write_zeros [OF v1(2) _ v1(4)] v1(3) assms(2) by auto
  have c: "\<not> b = 0" "\<not> b < brk_min (k_cur k)" using assms(3,4) by auto
  have z: "?old + (b - ?old) = b" by simp
  let ?k' = "upd_cur (\<lambda>th. th\<lparr>brk := r\<rparr>) (set_vm vm2 k)"
  have "set_brk_impl b k = Some (r, ?k')"
    unfolding set_brk_impl_def Let_def z r_def [symmetric] a_def [symmetric] num(3)
    using c assms(4) v1(1) v2(1) by (simp only: if_False if_True bind.bind_lunit)
  moreover have "brk (k_cur ?k') = r" "k_vm ?k' = vm2" by (simp_all add: upd_cur_def upd_thread_def set_vm_def)
  moreover have "user_load vm2 va = Some 0 \<and> (\<exists>pa. translate (vm_mem vm2) ?l1 va = Some (pa, 3))" if va: "a \<le> va" "va < r" for va
  proof -
    define i where "i = unat va - unat a"
    have i: "i < n" "va = a + of_nat i"
      using va num(4) unat_sub_le [of a va] by (simp_all add: i_def word_le_nat_alt word_less_nat_alt)
    obtain pa where pa: "translate (vm_mem vm1) ?l1 (a + of_nat i) = Some (pa, 3)" using v1(4) i(1) unfolding writable_def by blast
    then have "vm_mem vm2 pa = 0" using v2(4) i(1) by metis
    then show ?thesis using pa v2(2,3) i(2) by (simp add: user_load_def)
  qed
  ultimately show ?thesis using num(1,2) unfolding a_def by metis
qed

section \<open>Through the dispatch\<close>

text \<open>One rule for each number used below.\<close>

lemma switch_numbers:
  "reg c 7 = 3 \<Longrightarrow> posix_switch fuel meta c k = gives c (read_impl fuel meta (reg c 0) (reg c 1) (reg c 2) k)"
  "reg c 7 = 11 \<Longrightarrow> posix_switch fuel meta c k = execve_call fuel meta c k"
  "reg c 7 = 45 \<Longrightarrow> posix_switch fuel meta c k = gives c (set_brk_impl (reg c 0) k)"
  "reg c 7 = 114 \<Longrightarrow> posix_switch fuel meta c k = wait4_impl fuel c (reg c 0) k"
  "reg c 7 = 7 \<Longrightarrow> posix_switch fuel meta c k = waitpid_impl fuel c (reg c 0) (reg c 1) k"
  "reg c 7 = 120 \<or> reg c 7 = 190 \<Longrightarrow> posix_switch fuel meta c k = fork_call c k"
  unfolding posix_switch_def Let_def by auto

lemma save_cur_fields [simp]:
  "k_vm (save_cur c k) = k_vm k" "k_files (save_cur c k) = k_files k" "k_fs (save_cur c k) = k_fs k" "k_keys (save_cur c k) = k_keys k"
  "k_tty (save_cur c k) = k_tty k" "threads (k_sched (save_cur c k)) (cur (k_sched k)) = (k_cur k)\<lparr>ctx := c\<rparr>" "cur (k_sched (save_cur c k)) = cur (k_sched k)"
  "cwd_of (save_cur c k) = cwd_of k"
  by (simp_all add: save_cur_def upd_cur_def upd_thread_def cwd_of_def)

lemma posix_returned:
  "posix_switch fuel meta c (save_cur c k) = Some (Returned c' k') \<Longrightarrow> posix_syscall fuel meta c k = Some (Returned c' (save_cur c' k'))"
  by (simp add: posix_syscall_def)

lemma posix_resumed:
  "posix_switch fuel meta c (save_cur c k) = Some (Resumed k') \<Longrightarrow> posix_syscall fuel meta c k = Some (Resumed k')"
  by (simp add: posix_syscall_def)

section \<open>Reading a file\<close>

lemma put_io_fields [simp]:
  "k_vm (put_io st k) = k_vm k" "k_files (put_io st k) = io_files st" "k_fs (put_io st k) = io_fs st" "k_keys (put_io st k) = k_keys k"
  by (simp_all add: put_io_def upd_cur_def upd_thread_def)

lemma read_call_law:
  assumes "user_page (k_vm k) l1 fl live base p" "off + unat n \<le> 4096" "reg c 7 = 3" "reg c 1 = base + of_nat off" "reg c 2 = n"
    "fd_get (fdt (k_cur k)) (reg c 0) = a" "a \<noteq> 0" "k_files k a = Some f" "ops f = MountOps"
    "coherent (k_fs k)" "geom_ok meta" "opened meta (disk (k_fs k)) f de cs"
    "unat n + 512 * spc meta < 2 ^ 32" "unat (pos f) + unat n < 2 ^ 32"
  defines "m \<equiv> min (unat n) (unat (de_file_size de) - unat (pos f))"
  shows "\<exists>k'. posix_syscall (length cs) meta c k = Some (Returned (set_r0 (of_nat m) c) k')
    \<and> user_read m (base + of_nat off) (k_vm k') = Some (slice (file_bytes meta (disk (k_fs k)) cs de) (unat (pos f)) m)
    \<and> k_files k' a = Some (f\<lparr>pos := pos f + of_nat m\<rparr>) \<and> disk (k_fs k') = disk (k_fs k)"
proof -
  let ?k = "save_cur c k"
  define bs where "bs = slice (page_list (vm_mem (k_vm k)) p) off (unat n)"
  have lb: "length bs = unat n" using assms(2) by (simp add: bs_def length_slice)
  have b: "buffer (reg c 0) (base + of_nat off) (unat n) ?k = Some bs"
    using user_read_page [OF assms(1,2)] assms(6,7) by (simp add: buffer_def bs_def)
  have ub: "unat n \<le> length bs" using lb by simp
  obtain fs' where r: "mount_read (length cs) meta f bs n (k_fs k)
      = Some (of_nat m, f\<lparr>pos := pos f + of_nat m\<rparr>, blit bs 0 (slice (file_bytes meta (disk (k_fs k)) cs de) (unat (pos f)) m), fs')"
    "disk fs' = disk (k_fs k)" "coherent fs'"
    using mount_read_law [OF assms(10,11,12) ub assms(13,14)] unfolding m_def by metis
  define d where "d = slice (file_bytes meta (disk (k_fs k)) cs de) (unat (pos f)) m"
  have fl: "length (file_bytes meta (disk (k_fs k)) cs de) = unat (de_file_size de)"
    using assms(12) by (simp add: file_bytes_def opened_def)
  have ld: "length d = m" by (simp add: d_def slice_def fl m_def)
  have mn: "m \<le> unat n" by (simp add: m_def)
  let ?f' = "f\<lparr>pos := pos f + of_nat m\<rparr>"
  let ?st = "put_file a ?f' ((io_of ?k)\<lparr>io_fs := fs'\<rparr>)"
  have sr: "sys_read (length cs) meta (reg c 0) bs n (k_keys k) (io_of ?k) = Some (of_nat m, blit bs 0 d, k_keys k, ?st)"
    using assms(6-9) r(1) by (simp add: sys_read_def Let_def io_of_def d_def)
  let ?k1 = "put_io ?st ?k"
  have up: "user_page (k_vm ?k1) l1 fl live base p" using assms(1) by simp
  have bl: "off + length (blit bs 0 d) \<le> 4096" using lb ld mn assms(2) by (simp add: length_blit)
  obtain vm where w: "k_write (base + of_nat off) (blit bs 0 d) ?k1 = Some (set_vm vm ?k1)" "user_page vm l1 fl live base p"
    "page_list (vm_mem vm) p = blit (page_list (vm_mem (k_vm ?k1)) p) off (blit bs 0 d)"
    by (rule k_write_page [OF up bl])
  have kk: "?k1\<lparr>k_keys := k_keys k\<rparr> = ?k1" by (simp add: put_io_def upd_cur_def save_cur_def)
  have ri: "read_impl (length cs) meta (reg c 0) (reg c 1) (reg c 2) ?k = Some (of_nat m, set_vm vm ?k1)"
    unfolding read_impl_def assms(4,5) b save_cur_fields sr Let_def bind.bind_lunit prod.case
    by (simp only: bind.bind_lunit prod.case kk diff_self_eq_0 funpow_0 option.map kernel.surjective [symmetric] kernel.update_convs)
      (simp add: w(1))
  let ?k' = "save_cur (set_r0 (of_nat m) c) (set_vm vm ?k1)"
  have "posix_syscall (length cs) meta c k = Some (Returned (set_r0 (of_nat m) c) ?k')"
    by (rule posix_returned) (simp only: switch_numbers(1) [OF assms(3)] ri gives_def option.map prod.case)
  moreover have "user_read m (base + of_nat off) (k_vm ?k') = Some d"
  proof -
    have om: "off + m \<le> 4096" using mn assms(2) by simp
    have "slice (blit (page_list (vm_mem (k_vm ?k1)) p) off (blit bs 0 d)) off m = d"
      using lb ld mn assms(2) by (simp add: slice_def blit_def)
    then show ?thesis using user_read_page [OF w(2) om] w(3) by simp
  qed
  moreover have "k_files ?k' a = Some ?f'" "disk (k_fs ?k') = disk (k_fs k)" using r(2) by (simp_all add: put_file_def)
  ultimately show ?thesis unfolding d_def by blast
qed

section \<open>Waiting for a child\<close>

lemma see_pid_cong:
  assumes "cur s' = cur s" "ready_q s' = ready_q s" "sleeping_q s' = sleeping_q s"
    "\<And>t. tid (threads s' t) = tid (threads s t) \<and> exited (threads s' t) = exited (threads s t)"
  shows "see_if_pid_still_exists pid s' = see_if_pid_still_exists pid s"
proof -
  have l: "live_pid s' pid = live_pid s pid" using assms(4) by (simp add: live_pid_def fun_eq_iff)
  show ?thesis unfolding see_if_pid_still_exists_def l assms(1-3) ..
qed

lemma see_pid_save: "see_if_pid_still_exists pid (k_sched (save_cur c k)) = see_if_pid_still_exists pid (k_sched k)"
  by (rule see_pid_cong) (simp_all add: save_cur_def upd_cur_def upd_thread_def)

text \<open>A call that sleeps comes back to some thread, and leaves every saved context as it is.\<close>

lemma k_svc_sleep_law:
  assumes "kernel_ok k" "length (ready_q (k_sched k)) < fuel" "wait n \<le> length (k_keys k)"
    "\<forall>(t, m) \<in> set (sleeping_q (k_sched k)). wait m \<le> length (k_keys k)"
  shows "\<exists>k'. k_svc_sleep fuel n k = Some (Resumed k') \<and> kernel_ok k' \<and> (\<forall>t. ctx (threads (k_sched k') t) = ctx (threads (k_sched k) t))"
proof -
  let ?s = "s_push (cur (k_sched k), n) (upd_thread (cur (k_sched k)) (\<lambda>th. th\<lparr>ready := False\<rparr>) (k_sched k))"
  let ?k = "k\<lparr>k_sched := ?s\<rparr>"
  have e: "k_svc_sleep fuel n k = k_do_sched fuel None ?k" by (simp add: k_svc_sleep_def upd_cur_def upd_thread_def Let_def)
  have run: "running (k_sched k)" using assms(1) by (simp add: kernel_ok_def)
  have ok: "sched_ok (k_sched ?k)" using sleep_ok [OF run] by simp
  have q: "length (ready_q (k_sched ?k)) < fuel" using assms(2) by (simp add: s_push_def upd_thread_def)
  have w: "wait m \<le> length (k_keys ?k)" if "(t, m) \<in> set (sleeping_q (k_sched ?k))" for t m
    using assms(3,4) that by (auto simp: s_push_def upd_thread_def)
  have "\<exists>r. k_do_sched fuel None ?k = Some r" by (rule k_do_sched_total_law [OF ok q]) (rule w)
  then obtain r where r: "k_do_sched fuel None ?k = Some r" by blast
  obtain out where out: "sched_end r = Some out" "cs_do_sched fuel (length (k_keys ?k)) None (k_sched ?k) = Some out"
    using k_do_sched_refines_law(1) [OF r] by blast
  have "wait m \<le> length (k_keys k)" if "(t, m) \<in> insert (cur (k_sched k), n) (set (sleeping_q (k_sched k)))" for t m
    using assms(3,4) that by auto
  then have "\<exists>s'. cs_svc_sleep fuel (length (k_keys k)) n (k_sched k) = Some (Resume s') \<and> running s'
      \<and> (\<forall>t. ctx (threads s' t) = ctx (threads (k_sched k) t))"
    by (rule sleep_resumes [OF run assms(2)])
  then obtain s' where s': "cs_svc_sleep fuel (length (k_keys k)) n (k_sched k) = Some (Resume s')" "\<forall>t. ctx (threads s' t) = ctx (threads (k_sched k) t)"
    by blast
  then have "out = Resume s'" using out(2) by (simp add: cs_svc_sleep_def)
  then obtain k' where k': "r = Resumed k'" "k_sched k' = s'" using out(1) by (cases r) (auto simp: sched_end_def)
  have "trap_ok r" using k_svc_sleep_ok e r assms(1) by metis
  then show ?thesis using e r k' s'(2) by (auto simp: trap_ok_def)
qed

lemma rewind_fields:
  assumes "kernel_ok k"
  shows "kernel_ok (upd_cur (\<lambda>th. th\<lparr>ctx := (ctx th)\<lparr>resume_pc := resume_pc (ctx th) - 4\<rparr>\<rparr>) k)"
  by (rule calm_ok [OF calm_upd_cur assms]) simp

text \<open>A child is left: for -1 a live thread whose parent is the caller, otherwise a live thread with that pid.\<close>

definition child_left :: "sched \<Rightarrow> u32 \<Rightarrow> bool" where
  "child_left s pid \<longleftrightarrow> (\<exists>t < next_thread s. \<not> exited (threads s t)
     \<and> (if pid = - 1 then ppid (threads s t) = tid (cur_thread s) else tid (threads s t) = pid))"

lemma number_of_childs_law:
  assumes "sched_inv s"
  shows "0 < number_of_childs parent s \<longleftrightarrow> (\<exists>t < next_thread s. ppid (threads s t) = parent \<and> \<not> exited (threads s t))"
proof -
  note d = sched_invD [OF assms]
  have "0 < number_of_childs parent s \<longleftrightarrow> (\<exists>t. (t = cur s \<or> t \<in> set (ready_q s) \<or> t \<in> asleep s) \<and> ppid (threads s t) = parent \<and> \<not> exited (threads s t))"
    by (auto simp: number_of_childs_def Let_def filter_empty_conv asleep_def)
  then show ?thesis using d(1,2,3,5) by blast
qed

lemma waits_for_child:
  assumes "kernel_ok k"
  shows "(if pid = - 1 then 0 < number_of_childs (tid (k_cur (save_cur c k))) (k_sched (save_cur c k))
      else see_if_pid_still_exists pid (k_sched (save_cur c k))) \<longleftrightarrow> child_left (k_sched k) pid"
proof -
  have "sched_inv (k_sched (save_cur c k))"
    using calm_ok [OF save_cur_calm assms, of c] by (simp add: kernel_ok_def running_def sched_ok_def)
  note l = number_of_childs_law [OF this] see_if_pid_still_exists_law [OF this]
  have f: "next_thread (k_sched (save_cur c k)) = next_thread (k_sched k)" "ppid (threads (k_sched (save_cur c k)) t) = ppid (threads (k_sched k) t)"
    "tid (threads (k_sched (save_cur c k)) t) = tid (threads (k_sched k) t)" "exited (threads (k_sched (save_cur c k)) t) = exited (threads (k_sched k) t)"
    for t by (simp_all add: save_cur_def upd_cur_def upd_thread_def)
  show ?thesis unfolding l f child_left_def by auto
qed

text \<open>Sleeping, in detail: how long the caller sleeps, and who may run meanwhile.\<close>

lemma sleep_detail:
  assumes "kernel_ok k" "length (ready_q (k_sched k)) < fuel" "wait m \<le> length (k_keys k)"
    "\<forall>(t, m) \<in> set (sleeping_q (k_sched k)). wait m \<le> length (k_keys k)"
  shows "\<exists>k' n. k_svc_sleep fuel m k = Some (Resumed k') \<and> kernel_ok k' \<and> n \<le> wait m
    \<and> (\<forall>t. ctx (threads (k_sched k') t) = ctx (threads (k_sched k) t))
    \<and> sleeping_q (k_sched k') = sleep_after n (sleeping_q (k_sched k) @ [(cur (k_sched k), m)])
    \<and> (ready (threads (k_sched k') (cur (k_sched k))) \<longleftrightarrow> n = wait m) \<and> (n < wait m \<longrightarrow> cur (k_sched k') \<noteq> cur (k_sched k))
    \<and> ((\<exists>t \<in> set (ready_q (k_sched k)). t \<noteq> cur (k_sched k) \<and> can_run (k_sched k) t) \<longrightarrow> n = 0) \<and> k_keys k' = drop n (k_keys k)"
proof -
  let ?s = "k_sched k"
  let ?s2 = "s_push (cur ?s, m) (upd_thread (cur ?s) (\<lambda>th. th\<lparr>ready := False\<rparr>) ?s)"
  let ?k = "k\<lparr>k_sched := ?s2\<rparr>"
  have e: "k_svc_sleep fuel m k = k_do_sched fuel None ?k" by (simp add: k_svc_sleep_def upd_cur_def upd_thread_def Let_def)
  have run: "running ?s" using assms(1) by (simp add: kernel_ok_def)
  have inv: "sched_inv ?s" using run by (simp add: running_def sched_ok_def)
  have f: "cur ?s2 = cur ?s" "ready_q ?s2 = ready_q ?s" "sleeping_q ?s2 = sleeping_q ?s @ [(cur ?s, m)]" "next_thread ?s2 = next_thread ?s"
    "exited (threads ?s2 t) = exited (threads ?s t)" "ready (threads ?s2 t) \<longleftrightarrow> t \<noteq> cur ?s \<and> ready (threads ?s t)" "ctx (threads ?s2 t) = ctx (threads ?s t)" for t
    by (simp_all add: s_push_def upd_thread_def)
  have cr: "can_run ?s2 t \<longleftrightarrow> t \<noteq> cur ?s \<and> can_run ?s t" for t by (auto simp: can_run_def f)
  have c: "\<not> exited (cur_thread ?s)" "cur ?s < next_thread ?s" "cur ?s \<notin> asleep ?s"
    using run sched_invD(1,6) [OF inv] by (auto simp: running_def)
  have ks: "k_sched ?k = ?s2" "k_keys ?k = k_keys k" by simp_all
  have a1: "sched_ok (k_sched ?k)" unfolding ks using sleep_ok [OF run] .
  have a2: "length (ready_q (k_sched ?k)) < fuel" unfolding ks f using assms(2) .
  have a3: "\<forall>(t, n) \<in> set (sleeping_q (k_sched ?k)). wait n \<le> length (k_keys ?k)" unfolding ks f using assms(3,4) by auto
  have rr: "case next_up ?s2 of
      None \<Rightarrow> k_do_sched fuel None ?k = Some Rebooted \<and> (\<forall>t < next_thread ?s2. exited (threads ?s2 t))
    | Some (t, q, n) \<Rightarrow> \<exists>k'. k_do_sched fuel None ?k = Some (Resumed k') \<and> switched None t q n ?k k'"
    using round_robin_law [OF a1 a2 a3, of None] unfolding ks .
  obtain t q n where nu: "next_up ?s2 = Some (t, q, n)" using rr c by (cases "next_up ?s2") (auto simp: f)
  then obtain k' where k': "k_do_sched fuel None ?k = Some (Resumed k')" "switched None t q n ?k k'" using rr by auto
  note sw = k'(2) [unfolded switched_def Let_def ks f]
  have n: "n = 0 \<or> n = first_wait (sleeping_q ?s @ [(cur ?s, m)])"
    using nu unfolding next_up_def Let_def f cr by (auto split: if_splits list.splits)
  have nm: "n \<le> wait m" using n first_wait_props(2) [of "sleeping_q ?s @ [(cur ?s, m)]"] by auto
  have "cur ?s \<in> set (waits_for n (sleeping_q ?s @ [(cur ?s, m)])) \<longleftrightarrow> n = wait m"
    using c(3) by (force simp: waits_for_def asleep_def)
  then have rdy: "ready (threads (k_sched k') (cur ?s)) \<longleftrightarrow> n = wait m" using sw by (simp add: f)
  have ok: "kernel_ok k'" using k_svc_sleep_ok [of fuel m k "Resumed k'"] e k'(1) assms(1) by (simp add: trap_ok_def)
  have "n < wait m \<longrightarrow> cur (k_sched k') \<noteq> cur ?s" using ok rdy by (auto simp: kernel_ok_def running_def)
  moreover have "n = 0" if "\<exists>t \<in> set (ready_q ?s). t \<noteq> cur ?s \<and> can_run ?s t"
  proof -
    have "dropWhile (\<lambda>t. \<not> can_run ?s2 t) (ready_q ?s) \<noteq> []" using that by (auto simp: dropWhile_eq_Nil_conv cr)
    then show ?thesis using nu unfolding next_up_def Let_def f by (auto split: if_splits list.splits)
  qed
  moreover have "ctx (threads (k_sched k') u) = ctx (threads ?s u)" for u using sw by (simp add: f)
  ultimately show ?thesis using e k'(1) ok nm rdy sw by (intro exI [of _ k'] exI [of _ n]) auto
qed

lemma wait4_law:
  assumes "kernel_ok k" "reg c 7 = 114" "length (ready_q (k_sched k)) < fuel" "5 \<le> length (k_keys k)"
    "\<forall>(t, m) \<in> set (sleeping_q (k_sched k)). wait m \<le> length (k_keys k)"
  shows "if child_left (k_sched k) (reg c 0)
    then \<exists>k' n. posix_syscall fuel meta c k = Some (Resumed k') \<and> kernel_ok k' \<and> n \<le> 5
      \<and> ctx (threads (k_sched k') (cur (k_sched k))) = c\<lparr>resume_pc := resume_pc c - 4\<rparr>
      \<and> sleeping_q (k_sched k') = sleep_after n (sleeping_q (k_sched k) @ [(cur (k_sched k), 5)])
      \<and> (ready (threads (k_sched k') (cur (k_sched k))) \<longleftrightarrow> n = 5) \<and> (n < 5 \<longrightarrow> cur (k_sched k') \<noteq> cur (k_sched k))
      \<and> ((\<exists>t \<in> set (ready_q (k_sched k)). t \<noteq> cur (k_sched k) \<and> can_run (k_sched k) t) \<longrightarrow> n = 0) \<and> k_keys k' = drop n (k_keys k)
    else \<exists>k'. posix_syscall fuel meta c k = Some (Returned (set_r0 (reg c 0) c) k')"
proof (cases "child_left (k_sched k) (reg c 0)")
  case True
  let ?k = "upd_cur (\<lambda>th. th\<lparr>ctx := (ctx th)\<lparr>resume_pc := resume_pc (ctx th) - 4\<rparr>\<rparr>) (save_cur c k)"
  have sw: "posix_switch fuel meta c (save_cur c k) = k_svc_sleep fuel 5 ?k"
    unfolding switch_numbers(4) [OF assms(2)] wait4_impl_def waits_for_child [OF assms(1)] rewind_sleep_def using True by simp
  have ok: "kernel_ok ?k" using rewind_fields [OF calm_ok [OF save_cur_calm assms(1)]] .
  have f: "ready_q (k_sched ?k) = ready_q (k_sched k)" "sleeping_q (k_sched ?k) = sleeping_q (k_sched k)" "k_keys ?k = k_keys k"
    "cur (k_sched ?k) = cur (k_sched k)" "can_run (k_sched ?k) t = can_run (k_sched k) t"
    "ctx (threads (k_sched ?k) (cur (k_sched k))) = c\<lparr>resume_pc := resume_pc c - 4\<rparr>" for t
    by (simp_all add: upd_cur_def save_cur_def upd_thread_def can_run_def)
  have w: "wait 5 = 5" by (simp add: wait_def)
  have "wait 5 \<le> length (k_keys ?k)" using assms(4) w f(3) by simp
  from sleep_detail [OF ok assms(3) [folded f(1)] this assms(5) [folded f(2,3)], unfolded f(1-5) w]
  obtain k' n where k': "k_svc_sleep fuel 5 ?k = Some (Resumed k')" "kernel_ok k'" "n \<le> 5"
    "\<forall>t. ctx (threads (k_sched k') t) = ctx (threads (k_sched ?k) t)"
    "sleeping_q (k_sched k') = sleep_after n (sleeping_q (k_sched k) @ [(cur (k_sched k), 5)])"
    "ready (threads (k_sched k') (cur (k_sched k))) \<longleftrightarrow> n = 5" "n < 5 \<longrightarrow> cur (k_sched k') \<noteq> cur (k_sched k)"
    "(\<exists>t \<in> set (ready_q (k_sched k)). t \<noteq> cur (k_sched k) \<and> can_run (k_sched k) t) \<longrightarrow> n = 0" "k_keys k' = drop n (k_keys k)"
    by (elim exE conjE) (rule that; assumption)
  have "posix_syscall fuel meta c k = Some (Resumed k')" using sw k'(1) by (intro posix_resumed) simp
  moreover have "ctx (threads (k_sched k') (cur (k_sched k))) = c\<lparr>resume_pc := resume_pc c - 4\<rparr>" using k'(4) f(6) by simp
  ultimately show ?thesis using True k'(2,3,5-9) by auto
next
  case False
  have "posix_switch fuel meta c (save_cur c k) = Some (Returned (set_r0 (reg c 0) c) (save_cur c k))"
    unfolding switch_numbers(4) [OF assms(2)] wait4_impl_def waits_for_child [OF assms(1)] using False by simp
  then show ?thesis using posix_returned False by fastforce
qed

text \<open>\<open>waitpid\<close> does not rewind: the caller goes on after one sleep, whether or not the child has gone.\<close>

lemma waitpid_goes_on:
  assumes "kernel_ok k" "reg c 7 = 7" "see_if_pid_still_exists (reg c 0) (k_sched k)" "length (ready_q (k_sched k)) < fuel"
    "1 \<le> length (k_keys k)" "\<forall>(t, m) \<in> set (sleeping_q (k_sched k)). wait m \<le> length (k_keys k)"
  shows "\<exists>k'. posix_syscall fuel meta c k = Some (Resumed k') \<and> ctx (threads (k_sched k') (cur (k_sched k))) = c"
proof -
  let ?k = "save_cur c k"
  have sw: "posix_switch fuel meta c ?k = k_svc_sleep fuel 1 ?k"
    using assms(3) by (simp add: switch_numbers(5) [OF assms(2)] waitpid_impl_def see_pid_save)
  have f: "ready_q (k_sched ?k) = ready_q (k_sched k)" "sleeping_q (k_sched ?k) = sleeping_q (k_sched k)" "wait 1 = 1"
    by (simp_all add: upd_cur_def save_cur_def upd_thread_def wait_def)
  have ok: "kernel_ok ?k" by (rule calm_ok [OF save_cur_calm assms(1)])
  have "\<exists>k'. k_svc_sleep fuel 1 ?k = Some (Resumed k') \<and> kernel_ok k' \<and> (\<forall>t. ctx (threads (k_sched k') t) = ctx (threads (k_sched ?k) t))"
    by (rule k_svc_sleep_law [OF ok]) (use assms(4-6) f in simp_all)
  then obtain k' where k': "k_svc_sleep fuel 1 ?k = Some (Resumed k')" "\<forall>t. ctx (threads (k_sched k') t) = ctx (threads (k_sched ?k) t)"
    by blast
  then have "posix_syscall fuel meta c k = Some (Resumed k')" by (intro posix_resumed) (simp add: sw)
  then show ?thesis using k'(2) by (simp add: save_cur_def upd_cur_def upd_thread_def)
qed

section \<open>Fork and a failing execve\<close>

lemma fork_law:
  assumes "kernel_ok k" "reg c 7 = 120 \<or> reg c 7 = 190" "rpi_fork c (k_sched (save_cur c k)) = Some s"
  shows "\<exists>k'. posix_syscall fuel meta c k = Some (Returned c k') \<and> kernel_ok k'
    \<and> (let t = next_thread (k_sched k); s' = k_sched k' in ready_q s' = ready_q (k_sched k) @ [t] \<and> ctx (threads s' t) = set_r0 0 c
      \<and> tid (threads s' t) = next_tid (k_sched k) \<and> ppid (threads s' t) = tid (k_cur k) \<and> fdt (threads s' t) = fdt (k_cur k)
      \<and> ready (threads s' t) \<and> \<not> exited (threads s' t) \<and> ctx (threads s' (cur (k_sched k))) = c)"
proof -
  let ?k = "save_cur c k"
  have lt: "cur (k_sched k) < next_thread (k_sched k)"
    using assms(1) by (simp add: kernel_ok_def running_def sched_ok_def sched_inv_def)
  have sw: "posix_switch fuel meta c ?k = Some (Returned c (?k\<lparr>k_sched := s\<rparr>))"
    using assms(3) by (simp add: switch_numbers(6) [OF assms(2)] fork_call_def)
  let ?k' = "save_cur c (?k\<lparr>k_sched := s\<rparr>)"
  have "ok_end (posix_switch fuel meta c ?k)" by (rule ok_posix_switch [OF calm_ok [OF save_cur_calm assms(1)]])
  then have "kernel_ok (?k\<lparr>k_sched := s\<rparr>)" unfolding sw by (simp add: ok_end_def trap_ok_def)
  then have ok: "kernel_ok ?k'" by (rule calm_ok [OF save_cur_calm])
  obtain pt vm where f: "fork_page_table (l1_pt (k_cur ?k)) (k_vm ?k) = Some (pt, vm)"
    using assms(3) by (auto simp: rpi_fork_def bind_eq_Some_conv)
  have n: "next_thread (k_sched ?k) = next_thread (k_sched k)" "next_tid (k_sched ?k) = next_tid (k_sched k)"
    "ready_q (k_sched ?k) = ready_q (k_sched k)" by (simp_all add: save_cur_def upd_cur_def upd_thread_def)
  have "let t = next_thread (k_sched k); s' = k_sched ?k' in ready_q s' = ready_q (k_sched k) @ [t] \<and> ctx (threads s' t) = set_r0 0 c
      \<and> tid (threads s' t) = next_tid (k_sched k) \<and> ppid (threads s' t) = tid (k_cur k) \<and> fdt (threads s' t) = fdt (k_cur k)
      \<and> ready (threads s' t) \<and> \<not> exited (threads s' t) \<and> ctx (threads s' (cur (k_sched k))) = c"
    using assms(3) f lt n
    by (auto simp: rpi_fork_def Let_def t_push_def upd_thread_def save_cur_def upd_cur_def set_r0_def)
  then show ?thesis using posix_returned [OF sw] ok by blast
qed

text \<open>A file that was found and read, and whose header \<open>load_elf\<close> turns down.\<close>

definition bad_image :: "nat \<Rightarrow> fat_meta \<Rightarrow> bytes \<Rightarrow> fat_dirent \<Rightarrow> kernel \<Rightarrow> bool" where
  "bad_image fuel meta filename de k \<longleftrightarrow> (case read_program fuel meta filename de k of
     None \<Rightarrow> False | Some (file_buf, img, k2) \<Rightarrow> elf_bad (ehdr_at img))"

lemma execve_missing_law:
  assumes "reg c 7 = 11" "user_string fuel (reg c 0) (k_vm k) = Some filename" "find_program fuel meta filename k = Some (None, fs)"
  shows "\<exists>k'. posix_syscall fuel meta c k = Some (Returned c k') \<and> k_vm k' = k_vm k
    \<and> map_option fst (execve_impl fuel meta (reg c 0) (reg c 1) (reg c 2) (save_cur c k)) = Some (- 22)"
proof -
  have fp: "find_program fuel meta filename (save_cur c k) = Some (None, fs)" using assms(3)
    unfolding find_program_def by (simp cong: if_cong)
  have ex: "execve_impl fuel meta (reg c 0) (reg c 1) (reg c 2) (save_cur c k) = Some (- 22, (save_cur c k)\<lparr>k_fs := fs\<rparr>)"
    using assms(2) fp by (simp add: execve_impl_def Let_def)
  then have "posix_switch fuel meta c (save_cur c k) = Some (Returned c ((save_cur c k)\<lparr>k_fs := fs\<rparr>))"
    unfolding switch_numbers(2) [OF assms(1)] execve_call_def by simp
  from posix_returned [OF this] show ?thesis
    by (intro exI [of _ "save_cur c ((save_cur c k)\<lparr>k_fs := fs\<rparr>)"]) (simp add: ex del: One_nat_def)
qed

lemma execve_bad_law:
  assumes "reg c 7 = 11" "user_string fuel (reg c 0) (k_vm k) = Some filename" "find_program fuel meta filename k = Some (Some de, fs)"
    "bad_image fuel meta filename de ((save_cur c k)\<lparr>k_fs := fs\<rparr>)"
    "execve_impl fuel meta (reg c 0) (reg c 1) (reg c 2) (save_cur c k) = Some (v, k1)"
  shows "v = - 22 \<and> (\<exists>k' vm vm1 file_buf. posix_syscall fuel meta c k = Some (Returned c k')
    \<and> make_initial_L1_table vm = Some (l1_pt (k_cur k'), vm1) \<and> brk (k_cur k') = 0
    \<and> k_vm k' = vfree file_buf (free_L1_page_table (l1_pt (k_cur k)) (switch_L1_page_table (l1_pt (k_cur k')) vm1)))"
proof -
  let ?k = "save_cur c k"
  have fp: "find_program fuel meta filename ?k = Some (Some de, fs)" using assms(3)
    unfolding find_program_def by (simp cong: if_cong)
  obtain file_buf img k2 where rp: "read_program fuel meta filename de (?k\<lparr>k_fs := fs\<rparr>) = Some (file_buf, img, k2)" "elf_bad (ehdr_at img)"
    using assms(4) by (auto simp: bad_image_def split: option.splits)
  obtain args envs vm where ca: "copy_args fuel (reg c 1) (reg c 2) (k_vm k2) = Some (args, envs, vm)"
    "replace_image file_buf img args envs (set_vm vm k2) = Some (v, k1)"
  proof -
    have "Option.bind (copy_args fuel (reg c 1) (reg c 2) (k_vm k2)) (\<lambda>(args, envs, vm). replace_image file_buf img args envs (set_vm vm k2)) = Some (v, k1)"
      using assms(2,5) fp rp(1) by (simp add: execve_impl_def Let_def)
    then show thesis using that by (auto simp: bind_eq_Some_conv)
  qed
  have kc: "k_cur k2 = (k_cur k)\<lparr>ctx := c\<rparr>" "k_cur (set_vm vm k2) = k_cur k2"
    using rp(1) by (auto simp: read_program_def bind_eq_Some_conv set_vm_def)
  obtain new_l1 vm1 where mi: "make_initial_L1_table (k_vm (set_vm vm k2)) = Some (new_l1, vm1)"
    using ca(2) by (auto simp: replace_image_def bind_eq_Some_conv)
  let ?vm2 = "free_L1_page_table (l1_pt (k_cur (set_vm vm k2))) (switch_L1_page_table new_l1 vm1)"
  let ?pcb = "((k_cur (set_vm vm k2))\<lparr>l1_pt := new_l1\<rparr>)\<lparr>tls_base := 0, brk_min := 0, brk := 0\<rparr>"
  have lf: "\<not> length img < 52" using ca(2) mi by (auto simp: replace_image_def load_elf_def Let_def bind_eq_Some_conv)
  have "load_elf img args envs ((k_cur (set_vm vm k2))\<lparr>l1_pt := new_l1\<rparr>) ?vm2 = Some (ELF_ERR, ?pcb, ?vm2)"
    using lf rp(2) by (simp add: load_elf_def Let_def)
  then have v: "v = - 22" "k1 = upd_cur (\<lambda>th. ?pcb) (set_vm (vfree file_buf ?vm2) (set_vm vm k2))"
    using ca(2) mi by (simp_all add: replace_image_def Let_def)
  have k1: "k_cur k1 = ?pcb" "k_vm k1 = vfree file_buf ?vm2" unfolding v(2) by (simp_all add: upd_cur_def upd_thread_def set_vm_def)
  have "posix_switch fuel meta c ?k = Some (Returned c k1)"
    unfolding switch_numbers(2) [OF assms(1)] execve_call_def assms(5) by (simp add: k1 kc)
  from posix_returned [OF this] have "posix_syscall fuel meta c k = Some (Returned c (save_cur c k1))" .
  moreover have "l1_pt (k_cur (save_cur c k1)) = new_l1" "brk (k_cur (save_cur c k1)) = 0" by (simp_all add: k1)
  moreover have "k_vm (save_cur c k1) = vfree file_buf (free_L1_page_table (l1_pt (k_cur k)) (switch_L1_page_table new_l1 vm1))" by (simp add: k1 kc)
  ultimately show ?thesis using v(1) mi by metis
qed

section \<open>Claims\<close>

text \<open>The fixtures: a kernel whose one thread runs on the table of \<open>fresh_vm\<close>, with a heap that ends at 0x8100 and a
  file of 700 bytes open as descriptor 3.\<close>

definition paged_kernel :: "vm_state \<Rightarrow> kernel" where
  "paged_kernel vm = demo_kernel\<lparr>k_sched := demo_sched\<lparr>svm := vm,
     threads := (\<lambda>t. demo_thread\<lparr>l1_pt := 0xC77F0000, brk := 0x8100, brk_min := 0x8000, fdt := (replicate 64 0)[3 := 4]\<rparr>)\<rparr>,
     k_files := [4 \<mapsto> sh_file]\<rparr>"

definition call_ctx :: "u32 list \<Rightarrow> saved_context" where
  "call_ctx rs = user_ctx\<lparr>regs := rs @ replicate (13 - length rs) 0\<rparr>"

lemma paged_fields [simp]:
  "k_vm (paged_kernel vm) = vm" "k_fs (paged_kernel vm) = tree_fs" "k_files (paged_kernel vm) = [4 \<mapsto> sh_file]"
  "l1_pt (k_cur (paged_kernel vm)) = 0xC77F0000" "brk (k_cur (paged_kernel vm)) = 0x8100" "brk_min (k_cur (paged_kernel vm)) = 0x8000"
  "fdt (k_cur (paged_kernel vm)) = (replicate 64 0)[3 := 4]"
  by (simp_all add: paged_kernel_def demo_kernel_def demo_sched_def)

lemma fresh_facts:
  obtains fl where "pt_inv fresh_vm 0xC77F0000 fl {0xC77F0000}" "2 \<le> avail (vm_ka fresh_vm) fl 6" "2 \<le> avail (vm_ka fresh_vm) fl 8"
    "vm_active fresh_vm = 0xC77F0000" "\<And>va. \<not> has_page (vm_mem fresh_vm) 0xC77F0000 va"
proof -
  have "\<not> has_page (vm_mem fresh_vm) 0xC77F0000 va" for va by (simp add: has_page_def coarse_def e1_def fresh_vm_def load32_def)
  then show thesis using that fresh_vm_inv by (auto simp: fresh_vm_def)
qed

lemma a_user_page: "\<exists>vm fl live p. user_page vm 0xC77F0000 fl live 0xBFFFF000 p"
proof -
  obtain fl where f: "pt_inv fresh_vm 0xC77F0000 fl {0xC77F0000}" "2 \<le> avail (vm_ka fresh_vm) fl 6" "2 \<le> avail (vm_ka fresh_vm) fl 8"
    "vm_active fresh_vm = 0xC77F0000" "\<And>va. \<not> has_page (vm_mem fresh_vm) 0xC77F0000 va" by (rule fresh_facts) blast
  show ?thesis using made_user_page [OF f(1,4), of "0xBFFFF000"] f(2,3,5) by auto
qed

text \<open>The kernel's compare-and-swap helper, on a word of a user page: when the word holds the expected value it
  is replaced, nothing else in the page changes and the caller gets 0; otherwise memory stays as it is and
  the caller gets 1. Nothing runs between the comparison and the store.\<close>

theorem cmpxchg_atomic:
  assumes "user_page (k_vm k) l1 fl live base p" "off + 4 \<le> 4096" "reg c 2 = base + of_nat off"
    "0x10000 \<le> reg c 2" "reg c 2 \<le> 0xC0000000"
  shows "\<exists>v. user_word (reg c 2) (k_vm k) = Some v
    \<and> (if v = reg c 0
       then \<exists>vm. kuser_cmpxchg c k = Some (Returned (set_r0 0 c) (set_vm vm k)) \<and> user_word (reg c 2) vm = Some (reg c 1)
         \<and> page_list (vm_mem vm) p = blit (page_list (vm_mem (k_vm k)) p) off (u32_bytes (reg c 1))
       else kuser_cmpxchg c k = Some (Returned (set_r0 1 c) k))"
  by (rule cmpxchg_law [OF assms])

theorem cmpxchg_atomic_witness:
  "\<exists>c k k'. kuser_cmpxchg c k = Some (Returned (set_r0 0 c) k') \<and> user_word 0xBFFFF010 (k_vm k') = Some 7"
proof -
  obtain vm fl live p where u: "user_page vm 0xC77F0000 fl live 0xBFFFF000 p" using a_user_page by blast
  obtain v where v: "user_word (0xBFFFF000 + of_nat 16) vm = Some v" using user_word_page [OF u, of 16] by simp
  define c where "c = call_ctx [v, 7, 0xBFFFF010]"
  have r: "reg c 0 = v" "reg c 1 = 7" "reg c 2 = 0xBFFFF010" by (simp_all add: c_def call_ctx_def reg_def)
  have pg: "user_page (k_vm (paged_kernel vm)) 0xC77F0000 fl live 0xBFFFF000 p" using u by simp
  obtain v' where v': "user_word (reg c 2) vm = Some v'" and w: "if v' = reg c 0
      then \<exists>vm'. kuser_cmpxchg c (paged_kernel vm) = Some (Returned (set_r0 0 c) (set_vm vm' (paged_kernel vm)))
        \<and> user_word (reg c 2) vm' = Some (reg c 1)
        \<and> page_list (vm_mem vm') p = blit (page_list (vm_mem (k_vm (paged_kernel vm))) p) 16 (u32_bytes (reg c 1))
      else kuser_cmpxchg c (paged_kernel vm) = Some (Returned (set_r0 1 c) (paged_kernel vm))"
    using cmpxchg_atomic [OF pg, of 16 c] r(3) by auto
  have "v' = reg c 0" using v v' r by simp
  then obtain vm' where "kuser_cmpxchg c (paged_kernel vm) = Some (Returned (set_r0 0 c) (set_vm vm' (paged_kernel vm)))"
    "user_word (reg c 2) vm' = Some (reg c 1)" using w by auto
  then show ?thesis using r k_vm_set(1) by metis
qed

text \<open>C29: Growing the stack. A data abort taken from user mode at an address within 128 bytes of the stack pointer, outside
  the megabytes that the kernel itself uses, maps the whole page of the address: each of its addresses can then be
  read and written, outside every page table, and if the page is new, its frame is fresh and holds zeros. Every page the process
  had keeps its frame and contents, the kernel's megabytes are translated as before, the tables are consistent, and the
  trap returns to the instruction that faulted.\<close>

theorem stack_grows:
  assumes "pt_inv (k_vm k) l1 fl live" "vm_active (k_vm k) = l1" "from_user c" "far \<le> user_sp c + 128" "user_sp c - 128 \<le> far"
    "\<not> kernel_section fbs (l1i far)" "0 < avail (vm_ka (k_vm k)) fl 6" "0 < avail (vm_ka (k_vm k)) fl 8"
  shows "\<exists>vm fl' live'. data_abort_int_c c far k = Some (Returned (c\<lparr>resume_pc := resume_pc c - 8\<rparr>) (set_vm vm k)) \<and> pt_inv vm l1 fl' live'
    \<and> (\<forall>va. same_page far va \<longrightarrow> (\<exists>pa. translate (vm_mem vm) l1 va = Some (pa, 3) \<and> \<not> in_tables (vm_mem vm) l1 pa
        \<and> (\<not> has_page (vm_mem (k_vm k)) l1 far \<longrightarrow> vm_mem vm pa = 0 \<and> fresh_frame (k_vm k) live vm l1 va pa)))
    \<and> (\<forall>va pa ap. has_page (vm_mem (k_vm k)) l1 va \<longrightarrow> translate (vm_mem (k_vm k)) l1 va = Some (pa, ap) \<longrightarrow>
        (\<exists>ap'. translate (vm_mem vm) l1 va = Some (pa, ap')) \<and> vm_mem vm pa = vm_mem (k_vm k) pa)
    \<and> (\<forall>va. kernel_section fbs (l1i va) \<longrightarrow> translate (vm_mem vm) l1 va = translate (vm_mem (k_vm k)) l1 va)"
  by (rule stack_grows_law [OF assms])

theorem stack_grows_witness:
  "\<exists>vm pa pb. data_abort_int_c user_ctx 0x8FFC (paged_kernel fresh_vm)
      = Some (Returned (user_ctx\<lparr>resume_pc := 0x7FFC\<rparr>) (set_vm vm (paged_kernel fresh_vm)))
    \<and> translate (vm_mem vm) 0xC77F0000 0x8FFC = Some (pa, 3) \<and> vm_mem vm pa = 0
    \<and> translate (vm_mem vm) 0xC77F0000 0x8000 = Some (pb, 3) \<and> vm_mem vm pb = 0"
proof -
  obtain fl where f: "pt_inv fresh_vm 0xC77F0000 fl {0xC77F0000}" "2 \<le> avail (vm_ka fresh_vm) fl 6" "2 \<le> avail (vm_ka fresh_vm) fl 8"
    "vm_active fresh_vm = 0xC77F0000" "\<And>va. \<not> has_page (vm_mem fresh_vm) 0xC77F0000 va" by (rule fresh_facts) blast
  have c: "from_user user_ctx" "(0x8FFC :: u32) \<le> user_sp user_ctx + 128" "user_sp user_ctx - 128 \<le> 0x8FFC" "\<not> kernel_section {} (l1i 0x8FFC)"
    "resume_pc user_ctx - 8 = 0x7FFC" by (simp_all add: user_ctx_def from_user_def kernel_section_def)
  have p: "same_page 0x8FFC 0x8FFC" "same_page 0x8FFC 0x8000" by (simp_all add: same_page_def)
  have av: "0 < avail (vm_ka fresh_vm) fl 6" "0 < avail (vm_ka fresh_vm) fl 8" using f(2,3) by simp_all
  have pf: "pt_inv (k_vm (paged_kernel fresh_vm)) 0xC77F0000 fl {0xC77F0000}" "vm_active (k_vm (paged_kernel fresh_vm)) = 0xC77F0000"
    "0 < avail (vm_ka (k_vm (paged_kernel fresh_vm))) fl 6" "0 < avail (vm_ka (k_vm (paged_kernel fresh_vm))) fl 8"
    using f(1,4) av by simp_all
  obtain vm where "data_abort_int_c user_ctx 0x8FFC (paged_kernel fresh_vm)
      = Some (Returned (user_ctx\<lparr>resume_pc := 0x7FFC\<rparr>) (set_vm vm (paged_kernel fresh_vm)))"
    and "\<forall>va. same_page 0x8FFC va \<longrightarrow> (\<exists>pa. translate (vm_mem vm) 0xC77F0000 va = Some (pa, 3) \<and> vm_mem vm pa = 0)"
    using stack_grows [OF pf(1,2) c(1-4) pf(3,4)] f(5) unfolding c(5) paged_fields by meson
  then show ?thesis using p by blast
qed



text \<open>C31: The read system call, from the trap to the user's memory. For an open file of the card and a buffer inside
  a user page, the caller gets the number of bytes that are left, at most as many as it asked for, its buffer
  holds those bytes of the file from the position on, the position moves on by as many, and the card is as
  it was.\<close>

theorem read_call_delivers:
  assumes "user_page (k_vm k) l1 fl live base p" "off + unat n \<le> 4096" "reg c 7 = 3" "reg c 1 = base + of_nat off" "reg c 2 = n"
    "fd_get (fdt (k_cur k)) (reg c 0) = a" "a \<noteq> 0" "k_files k a = Some f" "ops f = MountOps"
    "coherent (k_fs k)" "geom_ok meta" "opened meta (disk (k_fs k)) f de cs"
    "unat n + 512 * spc meta < 2 ^ 32" "unat (pos f) + unat n < 2 ^ 32"
  shows "let m = min (unat n) (unat (de_file_size de) - unat (pos f)) in
    \<exists>k'. posix_syscall (length cs) meta c k = Some (Returned (set_r0 (of_nat m) c) k')
    \<and> user_read m (base + of_nat off) (k_vm k') = Some (slice (file_bytes meta (disk (k_fs k)) cs de) (unat (pos f)) m)
    \<and> k_files k' a = Some (f\<lparr>pos := pos f + of_nat m\<rparr>) \<and> disk (k_fs k') = disk (k_fs k)"
  unfolding Let_def by (rule read_call_law [OF assms])

theorem read_call_delivers_witness:
  "\<exists>vm k'. posix_syscall 1 small_meta (call_ctx [3, 0xBFFFF010, 100, 0, 0, 0, 0, 3]) (paged_kernel vm)
      = Some (Returned (set_r0 100 (call_ctx [3, 0xBFFFF010, 100, 0, 0, 0, 0, 3])) k')
    \<and> user_read 100 0xBFFFF010 (k_vm k') = Some (slice (file_bytes small_meta (disk tree_fs) [4] sh_entry) 0 100)"
proof -
  let ?c = "call_ctx [3, 0xBFFFF010, 100, 0, 0, 0, 0, 3]"
  obtain vm fl live p where "user_page vm 0xC77F0000 fl live 0xBFFFF000 p" using a_user_page by blast
  then have pg: "user_page (k_vm (paged_kernel vm)) 0xC77F0000 fl live 0xBFFFF000 p" by simp
  have r: "reg ?c 7 = 3" "reg ?c 1 = 0xBFFFF000 + of_nat 16" "reg ?c 2 = 100" "reg ?c 0 = 3"
    by (simp_all add: call_ctx_def reg_def)
  have g: "fd_get (fdt (k_cur (paged_kernel vm))) (reg ?c 0) = 4" unfolding r paged_fields by (simp add: fd_get_def MAX_FD_def)
  have o: "ops sh_file = MountOps" "pos sh_file = 0" "de_file_size sh_entry = 700" by (simp_all add: sh_file_def sh_entry_def)
  have h: "16 + unat (100 :: u32) \<le> 4096" "(4 :: nat) \<noteq> 0" "k_files (paged_kernel vm) 4 = Some sh_file"
    "unat (100 :: u32) + 512 * spc small_meta < 2 ^ 32" "unat (pos sh_file) + unat (100 :: u32) < 2 ^ 32"
    by (simp_all add: small_meta_def o)
  have d: "coherent (k_fs (paged_kernel vm))" "opened small_meta (disk (k_fs (paged_kernel vm))) sh_file sh_entry [4]"
    using tree_coherent sh_opened by simp_all
  from read_call_delivers [OF pg h(1) r(1-3) g h(2,3) o(1) d(1) small_geom d(2) h(4,5)]
  show ?thesis by (auto simp: Let_def o)
qed

text \<open>C32: Waiting for a child, one trap of it. While a child is left - any live child for pid -1, else a live thread with
  that pid - \<open>wait4\<close> puts the caller to sleep for five ticks, with its resume address moved back onto the call, so
  that it asks again when it wakes. The trap ends after at most five ticks: at once with another thread, when one of the ready queue
  can run; otherwise with the sleeper that wakes first. When fewer than five went by, the caller is not the one that
  runs, is not ready, and sleeps on for the rest of its five ticks. When no child is left the call returns the pid it was given. In
  both cases the trap comes to an end, given fuel for the ready queue and a script that outlasts the sleepers.\<close>

theorem wait4_waits:
  assumes "kernel_ok k" "reg c 7 = 114" "length (ready_q (k_sched k)) < fuel" "5 \<le> length (k_keys k)"
    "\<forall>(t, m) \<in> set (sleeping_q (k_sched k)). wait m \<le> length (k_keys k)"
  shows "if child_left (k_sched k) (reg c 0)
    then \<exists>k' n. posix_syscall fuel meta c k = Some (Resumed k') \<and> kernel_ok k' \<and> n \<le> 5
      \<and> ctx (threads (k_sched k') (cur (k_sched k))) = c\<lparr>resume_pc := resume_pc c - 4\<rparr>
      \<and> sleeping_q (k_sched k') = sleep_after n (sleeping_q (k_sched k) @ [(cur (k_sched k), 5)])
      \<and> (ready (threads (k_sched k') (cur (k_sched k))) \<longleftrightarrow> n = 5) \<and> (n < 5 \<longrightarrow> cur (k_sched k') \<noteq> cur (k_sched k))
      \<and> ((\<exists>t \<in> set (ready_q (k_sched k)). t \<noteq> cur (k_sched k) \<and> can_run (k_sched k) t) \<longrightarrow> n = 0) \<and> k_keys k' = drop n (k_keys k)
    else \<exists>k'. posix_syscall fuel meta c k = Some (Returned (set_r0 (reg c 0) c) k')"
  by (rule wait4_law [OF assms])

theorem wait4_waits_witness:
  "\<exists>k' n. posix_syscall 1 small_meta (call_ctx [2, 0, 0, 0, 0, 0, 0, 114]) demo_kernel = Some (Resumed k')
    \<and> resume_pc (ctx (threads (k_sched k') 0)) = 0x8000 \<and> sleeping_q (k_sched k') = sleep_after n [(1, 3), (0, 5)] \<and> n \<le> 5"
proof -
  let ?c = "call_ctx [2, 0, 0, 0, 0, 0, 0, 114]"
  have r: "reg ?c 7 = 114" "reg ?c 0 = 2" "resume_pc ?c = 0x8004" by (simp_all add: call_ctx_def reg_def user_ctx_def)
  have q: "ready_q (k_sched demo_kernel) = []" "sleeping_q (k_sched demo_kernel) = [(1, 3)]" "length (k_keys demo_kernel) = 5"
    "cur (k_sched demo_kernel) = 0" by (simp_all add: demo_kernel_def demo_sched_def)
  have e: "child_left (k_sched demo_kernel) (reg ?c 0)"
    unfolding r child_left_def by (rule exI [of _ 1]) (simp add: demo_kernel_def demo_sched_def demo_thread_def)
  have h: "length (ready_q (k_sched demo_kernel)) < 1" "5 \<le> length (k_keys demo_kernel)"
    "\<forall>(t, m) \<in> set (sleeping_q (k_sched demo_kernel)). wait m \<le> length (k_keys demo_kernel)" by (simp_all add: q wait_def)
  show ?thesis using wait4_waits [OF demo_ok r(1) h, of small_meta] e r(3) q(2,4) by auto
qed

text \<open>C33: A failing execve, in its two ways to fail. When the file cannot be found, or when it is found and its header is not
  one the loader takes, the call goes back to its caller with every register as it was, r0 included: the error value it
  computes, -EINVAL, is written to the context and lost when the saved context is copied over it, so the caller sees the
  address of the file name. In the first case its memory is as it was. In the second its image is gone: the thread's page table is
  a newly made initial one and its own has been freed, and its heap is empty.\<close>

theorem execve_error_lost:
  assumes "reg c 7 = 11" "user_string fuel (reg c 0) (k_vm k) = Some filename" "find_program fuel meta filename k = Some (entry, fs)"
    "case entry of None \<Rightarrow> True | Some de \<Rightarrow> bad_image fuel meta filename de ((save_cur c k)\<lparr>k_fs := fs\<rparr>)
       \<and> execve_impl fuel meta (reg c 0) (reg c 1) (reg c 2) (save_cur c k) \<noteq> None"
  shows "\<exists>k'. posix_syscall fuel meta c k = Some (Returned c k')
    \<and> map_option fst (execve_impl fuel meta (reg c 0) (reg c 1) (reg c 2) (save_cur c k)) = Some (- 22)
    \<and> (if entry = None then k_vm k' = k_vm k
       else \<exists>vm vm1 file_buf. make_initial_L1_table vm = Some (l1_pt (k_cur k'), vm1) \<and> brk (k_cur k') = 0
         \<and> k_vm k' = vfree file_buf (free_L1_page_table (l1_pt (k_cur k)) (switch_L1_page_table (l1_pt (k_cur k')) vm1)))"
proof (cases entry)
  case None
  then show ?thesis using execve_missing_law [OF assms(1,2)] assms(3) by fastforce
next
  case (Some de)
  then obtain v k1 where "bad_image fuel meta filename de ((save_cur c k)\<lparr>k_fs := fs\<rparr>)"
    "execve_impl fuel meta (reg c 0) (reg c 1) (reg c 2) (save_cur c k) = Some (v, k1)" using assms(4) by auto
  with execve_bad_law [OF assms(1,2) assms(3) [unfolded Some] this] Some show ?thesis by auto
qed

theorem execve_error_lost_witness:
  "\<exists>k'. posix_syscall 2 small_meta (call_ctx [0x4001, 0, 0, 0, 0, 0, 0, 11]) demo_kernel
    = Some (Returned (call_ctx [0x4001, 0, 0, 0, 0, 0, 0, 11]) k')"
proof -
  let ?c = "call_ctx [0x4001, 0, 0, 0, 0, 0, 0, 11]"
  have r: "reg ?c 7 = 11" "reg ?c 0 = 0x4001" by (simp_all add: call_ctx_def reg_def)
  have s: "user_string 2 (reg ?c 0) (k_vm demo_kernel) = Some [12]"
  proof -
    have v: "vm_mem (k_vm demo_kernel) = demo_mem" "vm_active (k_vm demo_kernel) = 0x4000" by (simp_all add: demo_kernel_def demo_sched_def)
    have e: "load32 demo_mem 0x4000 = 0xC02" by (simp add: load32_def demo_mem_def)
    have t: "translate demo_mem 0x4000 0x4001 = Some (0x4001, 3)" by (simp add: translate_def Let_def e)
    have "user_load (k_vm demo_kernel) 0x4001 = Some (demo_mem 0x4001)" by (simp add: user_load_def v t)
    then have l: "user_load (k_vm demo_kernel) 0x4001 = Some 12" by (simp add: demo_mem_def)
    have "translate demo_mem 0x4000 0x4002 = Some (0x4002, 3)" by (simp add: translate_def Let_def e)
    then have "user_load (k_vm demo_kernel) 0x4002 = Some (demo_mem 0x4002)" by (simp add: user_load_def v)
    moreover have "(12 :: u8) \<noteq> 0" by simp
    moreover have "demo_mem 0x4002 = 0" by (simp add: demo_mem_def)
    ultimately have s: "user_string (Suc (Suc 0)) 0x4001 (k_vm demo_kernel) = Some [12]" using l by simp
    show ?thesis unfolding r numeral_2_eq_2 by (rule s)
  qed
  have "find_program 2 small_meta [12] demo_kernel = Some (None, tree_fs)"
  proof -
    have "str_eq (safe_path [12]) [47] = False" "split_path (safe_path [12]) = (- EINVAL, [], [])" by code_simp+
    then have "mount_probe 2 small_meta [12] tree_fs = Some (- ENOENT, tree_fs)" by (simp add: mount_probe_def Names.EINVAL_def)
    moreover have "k_fs demo_kernel = tree_fs" by (simp add: demo_kernel_def)
    moreover have "- ENOENT \<noteq> (0 :: u32)" by (simp add: ENOENT_def)
    ultimately show ?thesis by (simp add: find_program_def)
  qed
  with execve_error_lost [OF r(1) s, of small_meta None tree_fs] show ?thesis by auto
qed

end
