(* ===== verification/Display.thy ===== *)
theory Display
  imports MemOps
begin

text \<open>
  The frame buffer of lib/src/fb.c: the property message that asks the firmware for it, pixels, characters,
  scrolling and inverting. Pixels are words in the byte memory, the font is read from the same memory, and
  the firmware - what it writes back into the message - is an argument. The abstract screen is a grid of 30
  lines of 80 cells, each a character, its colour and whether it is shown inverted.
\<close>

section \<open>The code\<close>

record display =
  d_mem :: memory
  d_fb :: u32
  d_pitch :: u32
  d_font :: u32
  font_rows :: u16
  font_cols :: u16

text \<open>The message: total size, request code, tags of id, buffer size, value size and values, and the end tag.\<close>

definition fb_request :: "u32 list" where
  "fb_request = [30 * 4, 0,
     0x48003, 8, 8, 640, 480,
     0x48004, 8, 8, 640, 480,
     0x48005, 4, 4, 32,
     0x48006, 4, 4, 1,
     0x40001, 8, 4, 16, 0,
     0x40008, 4, 0, 0,
     0]"

definition framebuffer_init :: "(u32 list \<Rightarrow> u32 list) \<Rightarrow> u32 \<Rightarrow> display \<Rightarrow> display" where
  "framebuffer_init mailbox_call f d =
     (let mbox = mailbox_call fb_request
      in d\<lparr>d_font := f, font_rows := ucast (d_mem d f), font_cols := ucast (d_mem d (f + 1)),
           d_fb := mbox ! 23 AND 0x3FFFFFFF, d_pitch := mbox ! 28\<rparr>)"

definition fb_release :: "u32 list" where
  "fb_release = [8 * 4, 0, 0x48001, 0, 0, 0, 0, 0]"

definition framebuffer_free :: "(u32 list \<Rightarrow> u32 list) \<Rightarrow> display \<Rightarrow> display" where
  "framebuffer_free mailbox_call d = (let mbox = mailbox_call fb_release in d\<lparr>d_fb := 0, d_pitch := 0\<rparr>)"

definition pixel_addr :: "display \<Rightarrow> u32 \<Rightarrow> u32 \<Rightarrow> u32" where
  "pixel_addr d x y = d_fb d + 4 * (y * (d_pitch d div 4) + x)"

definition putpixel :: "u32 \<Rightarrow> u32 \<Rightarrow> u32 \<Rightarrow> display \<Rightarrow> display" where
  "putpixel x y rgb d = d\<lparr>d_mem := store32 (pixel_addr d x y) rgb (d_mem d)\<rparr>"

definition draw_char :: "u8 \<Rightarrow> u32 \<Rightarrow> u32 \<Rightarrow> u32 \<Rightarrow> display \<Rightarrow> display" where
  "draw_char c x y color_code d =
     (let map = d_font d + (ucast c - 0x20) * ucast (font_rows d) + 2; rows = unat (font_rows d); cols = unat (font_cols d)
      in fold (\<lambda>i. fold (\<lambda>j d. putpixel (x + of_nat j) (y + of_nat i)
           (if drop_bit (cols - 1 - j) (d_mem d (map + of_nat i)) AND 1 \<noteq> 0 then color_code else 0) d) [0..<cols]) [0..<rows] d)"

definition handle_scroll :: "u32 \<Rightarrow> display \<Rightarrow> u32 \<times> display" where
  "handle_scroll y d =
     (let rows = ucast (font_rows d) in
      if y \<ge> 480 - rows
      then (y - rows, d\<lparr>d_mem :=
        memset_fast (d_fb d + 4 * ((480 - rows) * (d_pitch d div 4))) 0 (rows * d_pitch d)
          (snd (memmove_fast (d_fb d) (d_fb d + 4 * (rows * (d_pitch d div 4))) ((480 - rows) * d_pitch d) (d_mem d)))\<rparr>)
      else (y, d))"

text \<open>One turn of the loop over the string; the cursor is the pair of its coordinates.\<close>

definition print_char :: "u8 \<Rightarrow> u32 \<Rightarrow> (u32 \<times> u32) \<times> display \<Rightarrow> (u32 \<times> u32) \<times> display" where
  "print_char c color_code s =
     (case s of ((x, y), d) \<Rightarrow>
        if (c < 0x20 \<or> c > 0x7E) \<and> c \<noteq> 10 then s
        else case (if c = 10 then (case handle_scroll (y + ucast (font_rows d)) d of (y', d') \<Rightarrow> ((0, y'), d'))
                   else ((x + ucast (font_cols d), y), draw_char c x y color_code d)) of ((x1, y1), d1) \<Rightarrow>
          if x1 \<ge> d_pitch d1 div 4
          then (case handle_scroll (y1 + ucast (font_rows d1)) d1 of (y2, d2) \<Rightarrow> ((0, y2), d2))
          else ((x1, y1), d1))"

fun printToScreenColored :: "u8 list \<Rightarrow> u32 \<Rightarrow> (u32 \<times> u32) \<times> display \<Rightarrow> (u32 \<times> u32) \<times> display" where
  "printToScreenColored [] color_code s = s"
| "printToScreenColored (c # str) color_code s =
     (if c = 0 then s else printToScreenColored str color_code (print_char c color_code s))"

definition printToScreen :: "u8 list \<Rightarrow> (u32 \<times> u32) \<times> display \<Rightarrow> (u32 \<times> u32) \<times> display" where
  "printToScreen str s = printToScreenColored str 0xFFFFFFFF s"

definition fb_clear :: "display \<Rightarrow> display" where
  "fb_clear d = d\<lparr>d_mem := memset_fast (d_fb d) 0 (480 * d_pitch d) (d_mem d)\<rparr>"

text \<open>The coordinates are 16 bits wide, their sums are not.\<close>

definition fb_invert :: "u16 \<Rightarrow> u16 \<Rightarrow> u16 \<Rightarrow> u16 \<Rightarrow> display \<Rightarrow> display" where
  "fb_invert x y width height d =
     fold (\<lambda>i. fold (\<lambda>j d. putpixel (ucast x + of_nat j) (ucast y + of_nat i)
       (NOT (load32 (d_mem d) (pixel_addr d (ucast x + of_nat j) (ucast y + of_nat i)))) d) [0..<unat width]) [0..<unat height] d"

definition fb_invert_char :: "u16 \<Rightarrow> u16 \<Rightarrow> display \<Rightarrow> display" where
  "fb_invert_char x y d = fb_invert x y (font_cols d) (font_rows d) d"

section \<open>Pixels\<close>

text \<open>The geometry the kernel asks for: 640 by 480 pixels of 32 bits, a font of 95 glyphs of 8 by 16, in memory outside the
  frame buffer.\<close>

definition in_fb :: "display \<Rightarrow> u32 \<Rightarrow> bool" where
  "in_fb d a \<longleftrightarrow> in_block (d_fb d) 1228800 a"

definition std :: "display \<Rightarrow> bool" where
  "std d \<longleftrightarrow> font_rows d = 16 \<and> font_cols d = 8 \<and> d_pitch d = 2560 \<and> unat (d_fb d) + 1228800 \<le> 4294967296
     \<and> (\<forall>k < 1522. \<not> in_fb d (d_font d + of_nat k))"

definition px :: "display \<Rightarrow> nat \<Rightarrow> nat \<Rightarrow> u32" where
  "px d x y = load32 (d_mem d) (d_fb d + 4 * of_nat (640 * y + x))"

lemma px_store: "px (d\<lparr>d_mem := m\<rparr>) x y = load32 m (d_fb d + 4 * of_nat (640 * y + x))"
  by (simp add: px_def)

text \<open>Two displays of the same geometry and font, with equal memory outside the frame buffer.\<close>

definition only_pixels :: "display \<Rightarrow> display \<Rightarrow> bool" where
  "only_pixels d d' \<longleftrightarrow> d_fb d' = d_fb d \<and> d_pitch d' = d_pitch d \<and> d_font d' = d_font d \<and> font_rows d' = font_rows d
     \<and> font_cols d' = font_cols d \<and> (\<forall>a. \<not> in_fb d a \<longrightarrow> d_mem d' a = d_mem d a)"

lemma only_pixels_refl [simp]: "only_pixels d d"
  by (simp add: only_pixels_def)

lemma only_pixels_trans: "only_pixels a b \<Longrightarrow> only_pixels b c \<Longrightarrow> only_pixels a c"
  by (simp add: only_pixels_def in_fb_def)

lemma only_pixels_std: "only_pixels d d' \<Longrightarrow> std d \<Longrightarrow> std d'"
  by (simp add: only_pixels_def std_def in_fb_def)

definition glyph :: "display \<Rightarrow> u8 \<Rightarrow> nat \<Rightarrow> nat \<Rightarrow> bool" where
  "glyph d c i j \<longleftrightarrow> bit (d_mem d (d_font d + (ucast c - 0x20) * 16 + 2 + of_nat i)) (7 - j)"

lemma glyph_same:
  assumes "only_pixels d d'" "std d" "0x20 \<le> c" "c \<le> 0x7E" "i < 16"
  shows "glyph d' c i j = glyph d c i j"
proof -
  have c: "32 \<le> unat c" "unat c \<le> 126" using assms(3,4) by (simp_all add: word_le_nat_alt)
  define k where "k = (unat c - 32) * 16 + 2 + i"
  have k: "k < 1522" using c assms(5) by (simp add: k_def)
  have e: "(ucast c :: u32) - 0x20 = of_nat (unat c - 32)" using c(1) by (simp add: of_nat_diff)
  have a: "d_font d + (ucast c - 0x20) * 16 + 2 + of_nat i = d_font d + of_nat k"
    unfolding e k_def by (simp only: of_nat_add of_nat_mult of_nat_numeral add.assoc)
  have "\<not> in_fb d (d_font d + of_nat k)" using assms(2) k by (simp add: std_def)
  then have "d_font d' = d_font d" "d_mem d' (d_font d + of_nat k) = d_mem d (d_font d + of_nat k)"
    using assms(1) by (simp_all add: only_pixels_def)
  then show ?thesis unfolding glyph_def by (simp only: a)
qed

lemma pixel_addr_std:
  assumes "std d"
  shows "pixel_addr d (of_nat x) (of_nat y) = d_fb d + 4 * of_nat (640 * y + x)"
proof -
  have "d_pitch d div 4 = 640" using assms by (simp add: std_def)
  then show ?thesis by (simp only: pixel_addr_def of_nat_add of_nat_mult of_nat_numeral mult.commute)
qed

lemma pixel_index: "x < 640 \<Longrightarrow> y < 480 \<Longrightarrow> 640 * y + x < (307200 :: nat)"
  by linarith

lemma putpixel_law:
  assumes "std d" "x < 640" "y < 480"
  shows "only_pixels d (putpixel (of_nat x) (of_nat y) v d)"
    "x' < 640 \<Longrightarrow> y' < 480 \<Longrightarrow> px (putpixel (of_nat x) (of_nat y) v d) x' y' = (if x' = x \<and> y' = y then v else px d x' y')"
proof -
  let ?k = "of_nat (640 * y + x) :: u32"
  have b: "unat (d_fb d) + 4 * 307200 \<le> 4294967296" using assms(1) by (simp add: std_def)
  have k: "unat ?k = 640 * y + x" using pixel_index [OF assms(2,3)] by (intro unat_of_nat_u32) simp
  have kb: "unat ?k < 307200" using k pixel_index [OF assms(2,3)] by simp
  have e: "putpixel (of_nat x) (of_nat y) v d = d\<lparr>d_mem := store32 (d_fb d + 4 * ?k) v (d_mem d)\<rparr>"
    unfolding putpixel_def pixel_addr_std [OF assms(1)] ..
  show "only_pixels d (putpixel (of_nat x) (of_nat y) v d)"
    using store_slot_outside [OF b kb] by (simp add: e only_pixels_def in_fb_def)
  assume xy: "x' < 640" "y' < 480"
  let ?k' = "of_nat (640 * y' + x') :: u32"
  have k': "unat ?k' = 640 * y' + x'" using pixel_index [OF xy] by (intro unat_of_nat_u32) simp
  have kb': "unat ?k' < 307200" using k' pixel_index [OF xy] by simp
  show "px (putpixel (of_nat x) (of_nat y) v d) x' y' = (if x' = x \<and> y' = y then v else px d x' y')"
  proof (cases "x' = x \<and> y' = y")
    case True
    then show ?thesis by (simp add: e px_def load32_store32)
  next
    case False
    have "640 * y' + x' \<noteq> 640 * y + x"
    proof
      assume eq: "640 * y' + x' = 640 * y + x"
      have "(640 * y' + x') mod 640 = x'" "(640 * y + x) mod 640 = x" using xy assms(2) by simp_all
      then have "x' = x" using eq by simp
      then show False using eq False by simp
    qed
    then have "?k \<noteq> ?k'" using k k' by metis
    have "px (putpixel (of_nat x) (of_nat y) v d) x' y' = load32 (store32 (d_fb d + 4 * ?k) v (d_mem d)) (d_fb d + 4 * ?k')"
      unfolding e px_store ..
    also have "\<dots> = px d x' y'" unfolding px_def by (rule store_slot_other [OF b kb kb' \<open>?k \<noteq> ?k'\<close>])
    finally show ?thesis using False by auto
  qed
qed

section \<open>Rectangles\<close>

text \<open>Filling a rectangle pixel by pixel, where the value of a pixel may depend on what it was.\<close>

definition painted :: "display \<Rightarrow> nat \<Rightarrow> nat \<Rightarrow> (nat \<Rightarrow> nat \<Rightarrow> bool) \<Rightarrow> (nat \<Rightarrow> nat \<Rightarrow> u32) \<Rightarrow> display \<Rightarrow> bool" where
  "painted d x0 y0 S V d' \<longleftrightarrow> only_pixels d d'
     \<and> (\<forall>x < 640. \<forall>y < 480. px d' x y = (if x0 \<le> x \<and> y0 \<le> y \<and> S (y - y0) (x - x0) then V (y - y0) (x - x0) else px d x y))"

lemma painted_none: "painted d x0 y0 (\<lambda>i j. False) V d"
  by (simp add: painted_def)

lemma painted_step:
  assumes "std d" "painted d x0 y0 S V d'" "x0 + j < 640" "y0 + i < 480" "\<And>i' j'. S' i' j' \<longleftrightarrow> S i' j' \<or> (i' = i \<and> j' = j)"
  shows "painted d x0 y0 S' V (putpixel (of_nat x0 + of_nat j) (of_nat y0 + of_nat i) (V i j) d')"
proof -
  have o: "only_pixels d d'" using assms(2) by (simp add: painted_def)
  have a: "of_nat x0 + of_nat j = (of_nat (x0 + j) :: u32)" "of_nat y0 + of_nat i = (of_nat (y0 + i) :: u32)" by simp_all
  note p = putpixel_law [OF only_pixels_std [OF o assms(1)] assms(3,4), where v = "V i j"]
  have "only_pixels d (putpixel (of_nat (x0 + j)) (of_nat (y0 + i)) (V i j) d')" by (rule only_pixels_trans [OF o p(1)])
  moreover have "px (putpixel (of_nat (x0 + j)) (of_nat (y0 + i)) (V i j) d') x y
      = (if x0 \<le> x \<and> y0 \<le> y \<and> S' (y - y0) (x - x0) then V (y - y0) (x - x0) else px d x y)" if "x < 640" "y < 480" for x y
    using p(2) [OF that] assms(2) that unfolding painted_def assms(5) by auto
  ultimately show ?thesis unfolding a painted_def by blast
qed

lemma paint_row:
  assumes "std d" "painted d x0 y0 S V d0" "x0 + w \<le> 640" "y0 + i < 480"
    "\<And>j d'. j < w \<Longrightarrow> painted d x0 y0 (\<lambda>i' j'. S i' j' \<or> (i' = i \<and> j' < j)) V d' \<Longrightarrow> v j d' = V i j"
  shows "painted d x0 y0 (\<lambda>i' j'. S i' j' \<or> (i' = i \<and> j' < w)) V
    (fold (\<lambda>j d. putpixel (of_nat x0 + of_nat j) (of_nat y0 + of_nat i) (v j d) d) [0..<w] d0)"
  using assms(3,5)
proof (induction w)
  case 0
  then show ?case using assms(2) by simp
next
  case (Suc w)
  let ?d = "fold (\<lambda>j d. putpixel (of_nat x0 + of_nat j) (of_nat y0 + of_nat i) (v j d) d) [0..<w] d0"
  have p: "painted d x0 y0 (\<lambda>i' j'. S i' j' \<or> (i' = i \<and> j' < w)) V ?d" by (rule Suc.IH) (use Suc.prems in auto)
  have v: "v w ?d = V i w" by (rule Suc.prems(2) [OF _ p]) simp
  have "painted d x0 y0 (\<lambda>i' j'. S i' j' \<or> (i' = i \<and> j' < Suc w)) V (putpixel (of_nat x0 + of_nat w) (of_nat y0 + of_nat i) (V i w) ?d)"
    by (rule painted_step [OF assms(1) p _ assms(4)]) (use Suc.prems(1) in \<open>auto simp: less_Suc_eq\<close>)
  then show ?case by (simp add: v)
qed

lemma paint_rect:
  assumes "std d" "x0 + w \<le> 640" "y0 + h \<le> 480"
    "\<And>i j d'. i < h \<Longrightarrow> j < w \<Longrightarrow> painted d x0 y0 (\<lambda>i' j'. j' < w \<and> (i' < i \<or> i' = i \<and> j' < j)) V d' \<Longrightarrow> v i j d' = V i j"
  shows "painted d x0 y0 (\<lambda>i' j'. i' < h \<and> j' < w) V
    (fold (\<lambda>i. fold (\<lambda>j d. putpixel (of_nat x0 + of_nat j) (of_nat y0 + of_nat i) (v i j d) d) [0..<w]) [0..<h] d)"
  using assms(3,4)
proof (induction h)
  case 0
  then show ?case by (simp add: painted_none)
next
  case (Suc h)
  let ?d = "fold (\<lambda>i. fold (\<lambda>j d. putpixel (of_nat x0 + of_nat j) (of_nat y0 + of_nat i) (v i j d) d) [0..<w]) [0..<h] d"
  have p: "painted d x0 y0 (\<lambda>i' j'. i' < h \<and> j' < w) V ?d" by (rule Suc.IH) (use Suc.prems in auto)
  have "painted d x0 y0 (\<lambda>i' j'. (i' < h \<and> j' < w) \<or> (i' = h \<and> j' < w)) V
      (fold (\<lambda>j d. putpixel (of_nat x0 + of_nat j) (of_nat y0 + of_nat h) (v h j d) d) [0..<w] ?d)"
  proof (rule paint_row [OF assms(1) p assms(2)])
    show "y0 + h < 480" using Suc.prems(1) by simp
    fix j d'
    assume j: "j < w" and d': "painted d x0 y0 (\<lambda>i' j'. (i' < h \<and> j' < w) \<or> (i' = h \<and> j' < j)) V d'"
    have "(\<lambda>i' j'. (i' < h \<and> j' < w) \<or> (i' = h \<and> j' < j)) = (\<lambda>i' j'. j' < w \<and> (i' < h \<or> i' = h \<and> j' < j))"
      using j by (auto simp: fun_eq_iff)
    then show "v h j d' = V h j" using Suc.prems(2) [OF _ j] d' by simp
  qed
  moreover have "(\<lambda>i' j'. (i' < h \<and> j' < w) \<or> (i' = h \<and> j' < w)) = (\<lambda>i' j'. i' < Suc h \<and> j' < w)" by (auto simp: fun_eq_iff)
  ultimately show ?case by simp
qed

text \<open>Characters and inverted cells.\<close>

lemma draw_char_law:
  assumes "std d" "0x20 \<le> c" "c \<le> 0x7E" "x0 + 8 \<le> 640" "y0 + 16 \<le> 480"
  shows "painted d x0 y0 (\<lambda>i j. i < 16 \<and> j < 8) (\<lambda>i j. if glyph d c i j then col else 0) (draw_char c (of_nat x0) (of_nat y0) col d)"
proof -
  have rc: "unat (font_rows d) = 16" "unat (font_cols d) = 8" "ucast (font_rows d) = (16 :: u32)" using assms(1) by (simp_all add: std_def)
  have "painted d x0 y0 (\<lambda>i j. i < 16 \<and> j < 8) (\<lambda>i j. if glyph d c i j then col else 0)
    (fold (\<lambda>i. fold (\<lambda>j d'. putpixel (of_nat x0 + of_nat j) (of_nat y0 + of_nat i)
       (if drop_bit (8 - 1 - j) (d_mem d' (d_font d + (ucast c - 0x20) * 16 + 2 + of_nat i)) AND 1 \<noteq> 0 then col else 0) d') [0..<8]) [0..<16] d)"
  proof (rule paint_rect [OF assms(1,4,5)])
    fix i j :: nat and d'
    assume ij: "i < 16" "j < 8" and p: "painted d x0 y0 (\<lambda>i' j'. j' < 8 \<and> (i' < i \<or> i' = i \<and> j' < j)) (\<lambda>i j. if glyph d c i j then col else 0) d'"
    have o: "only_pixels d d'" using p by (simp add: painted_def)
    have g: "glyph d' c i j = glyph d c i j" by (rule glyph_same [OF o assms(1-3) ij(1)])
    have f: "d_font d' = d_font d" using o by (simp add: only_pixels_def)
    have e: "8 - 1 - j = 7 - j" by simp
    have "drop_bit (7 - j) b AND 1 \<noteq> 0 \<longleftrightarrow> bit b (7 - j)" for b :: u8
      by (simp only: and_one_eq bit_iff_odd_drop_bit even_iff_mod_2_eq_zero)
    then show "(if drop_bit (8 - 1 - j) (d_mem d' (d_font d + (ucast c - 0x20) * 16 + 2 + of_nat i)) AND 1 \<noteq> 0 then col else 0)
        = (if glyph d c i j then col else 0)" using g unfolding glyph_def f e by (simp only:)
  qed
  then show ?thesis unfolding draw_char_def Let_def rc .
qed

lemma ucast_u16_of_nat:
  assumes "n < 65536"
  shows "(ucast (of_nat n :: u16) :: u32) = of_nat n"
proof -
  have "unat (ucast (of_nat n :: u16) :: u32) = take_bit 32 (unat (of_nat n :: u16))" by (simp add: unsigned_ucast_eq)
  also have "unat (of_nat n :: u16) = n" using assms by (simp add: unat_of_nat take_bit_nat_eq_self)
  finally show ?thesis using assms by (simp add: u32_eq_nat_iff unat_of_nat_u32 take_bit_nat_eq_self)
qed

lemma invert_char_law:
  assumes "std d" "x0 + 8 \<le> 640" "y0 + 16 \<le> 480"
  shows "painted d x0 y0 (\<lambda>i j. i < 16 \<and> j < 8) (\<lambda>i j. NOT (px d (x0 + j) (y0 + i))) (fb_invert_char (of_nat x0) (of_nat y0) d)"
proof -
  have rc: "unat (font_rows d) = 16" "unat (font_cols d) = 8" using assms(1) by (simp_all add: std_def)
  have u: "ucast (of_nat x0 :: u16) = (of_nat x0 :: u32)" "ucast (of_nat y0 :: u16) = (of_nat y0 :: u32)"
    using assms(2,3) by (simp_all add: ucast_u16_of_nat)
  have "painted d x0 y0 (\<lambda>i j. i < 16 \<and> j < 8) (\<lambda>i j. NOT (px d (x0 + j) (y0 + i)))
    (fold (\<lambda>i. fold (\<lambda>j d'. putpixel (of_nat x0 + of_nat j) (of_nat y0 + of_nat i)
       (NOT (load32 (d_mem d') (pixel_addr d' (of_nat x0 + of_nat j) (of_nat y0 + of_nat i)))) d') [0..<8]) [0..<16] d)"
  proof (rule paint_rect [OF assms])
    fix i j :: nat and d'
    assume ij: "i < 16" "j < 8" and p: "painted d x0 y0 (\<lambda>i' j'. j' < 8 \<and> (i' < i \<or> i' = i \<and> j' < j)) (\<lambda>i j. NOT (px d (x0 + j) (y0 + i))) d'"
    have s: "std d'" using p assms(1) only_pixels_std by (auto simp: painted_def)
    have a: "of_nat x0 + of_nat j = (of_nat (x0 + j) :: u32)" "of_nat y0 + of_nat i = (of_nat (y0 + i) :: u32)" by simp_all
    have "load32 (d_mem d') (pixel_addr d' (of_nat x0 + of_nat j) (of_nat y0 + of_nat i)) = px d' (x0 + j) (y0 + i)"
      unfolding a pixel_addr_std [OF s] px_def ..
    also have "\<dots> = px d (x0 + j) (y0 + i)" using p ij assms(2,3) unfolding painted_def by auto
    finally show "NOT (load32 (d_mem d') (pixel_addr d' (of_nat x0 + of_nat j) (of_nat y0 + of_nat i))) = NOT (px d (x0 + j) (y0 + i))" by simp
  qed
  then show ?thesis unfolding fb_invert_char_def fb_invert_def rc u .
qed

section \<open>Scrolling and clearing\<close>

lemma scroll_numbers:
  assumes "std d"
  shows "480 - ucast (font_rows d) = (464 :: u32)" "4 * ((480 - ucast (font_rows d)) * (d_pitch d div 4)) = (1187840 :: u32)"
    "ucast (font_rows d) * d_pitch d = (40960 :: u32)" "4 * (ucast (font_rows d) * (d_pitch d div 4)) = (40960 :: u32)"
    "(480 - ucast (font_rows d)) * d_pitch d = (1187840 :: u32)" "480 * d_pitch d = 1228800" "ucast (font_rows d) = (16 :: u32)"
    "ucast (font_cols d) = (8 :: u32)" "d_pitch d div 4 = 640"
  using assms by (simp_all add: std_def)

lemma fb_offset:
  assumes "std d" "n < 1228800"
  shows "unat (d_fb d + of_nat n - d_fb d) = n"
  using assms by (simp add: unat_of_nat_u32)

text \<open>The memory after a scroll, by offset from the start of the frame buffer.\<close>

definition scrolled :: "u32 \<Rightarrow> memory \<Rightarrow> memory" where
  "scrolled b m = filled (b + 1187840) 0 40960 (moved b (b + 40960) 1187840 m)"

lemma handle_scroll_mem:
  assumes "std d" "464 \<le> y"
  shows "handle_scroll y d = (y - 16, d\<lparr>d_mem := scrolled (d_fb d) (d_mem d)\<rparr>)"
proof -
  have lt: "d_fb d < d_fb d + 40960" "d_fb d \<noteq> d_fb d + 40960"
    using assms(1) by (simp_all add: std_def word_less_nat_alt unat_add_no_wrap)
  have "unat (d_fb d - (d_fb d + 40960)) = 4294926336" by simp
  then have "copy_forward (d_fb d) (d_fb d + 40960) (unat (1187840 :: u32)) (d_mem d) = moved (d_fb d) (d_fb d + 40960) 1187840 (d_mem d)"
    by (subst copy_forward_moved) simp_all
  then have "snd (memmove_fast (d_fb d) (d_fb d + 40960) 1187840 (d_mem d)) = moved (d_fb d) (d_fb d + 40960) 1187840 (d_mem d)"
    using lt by (simp add: memmove_fast_def)
  then show ?thesis
    using assms by (simp add: handle_scroll_def Let_def std_def memset_fast_filled scrolled_def)
qed

lemma scrolled_at:
  assumes "n < 1228800"
  shows "scrolled b m (b + of_nat n) = (if n < 1187840 then m (b + of_nat (n + 40960)) else 0)"
proof (cases "n < 1187840")
  case True
  have "unat (b + of_nat n - (b + 1187840)) = n + 4294967296 - 1187840"
    using True unat_sub_cases [of "of_nat n" 1187840] by (simp add: unat_of_nat_u32)
  moreover have "unat (b + of_nat n - b) = n" using assms by (simp add: unat_of_nat_u32)
  ultimately show ?thesis using True by (simp add: scrolled_def filled_def moved_def algebra_simps)
next
  case False
  have "unat (b + of_nat n - (b + 1187840)) = n - 1187840"
    using False assms unat_sub_cases [of "of_nat n" 1187840] by (simp add: unat_of_nat_u32)
  moreover have "n - 1187840 < 40960" using assms by simp
  ultimately show ?thesis using False by (simp add: scrolled_def filled_def)
qed

lemma outside_offset:
  assumes "std d" "\<not> in_fb d a"
  shows "1228800 \<le> unat (a - d_fb d)"
  using assms unat_sub_cases [of a "d_fb d"] unat_less_2p32 [of a] by (auto simp: std_def in_fb_def in_block_def)

lemma scrolled_outside:
  assumes "std d" "\<not> in_fb d a"
  shows "scrolled (d_fb d) m a = m a"
proof -
  have "unat (a - (d_fb d + 1187840)) \<ge> 40960"
    using outside_offset [OF assms] unat_sub_cases [of "a - d_fb d" 1187840] by (simp add: diff_diff_eq split: if_splits)
  then show ?thesis using outside_offset [OF assms] by (simp add: scrolled_def filled_def moved_def)
qed

lemma px_bytes:
  "px d x y = ucast (d_mem d (d_fb d + of_nat (4 * (640 * y + x)))) OR push_bit 8 (ucast (d_mem d (d_fb d + of_nat (4 * (640 * y + x) + 1))))
     OR push_bit 16 (ucast (d_mem d (d_fb d + of_nat (4 * (640 * y + x) + 2)))) OR push_bit 24 (ucast (d_mem d (d_fb d + of_nat (4 * (640 * y + x) + 3))))"
  unfolding px_def load32_def by (simp only: of_nat_add of_nat_mult of_nat_numeral of_nat_1 add.assoc)

lemma px_upd: "d_mem (d\<lparr>d_mem := m\<rparr>) = m" "d_fb (d\<lparr>d_mem := m\<rparr>) = d_fb d"
  by simp_all

lemma handle_scroll_law:
  assumes "std d" "464 \<le> y"
  shows "fst (handle_scroll y d) = y - 16" "only_pixels d (snd (handle_scroll y d))"
    "u < 640 \<Longrightarrow> v < 480 \<Longrightarrow> px (snd (handle_scroll y d)) u v = (if v < 464 then px d u (v + 16) else 0)"
proof -
  note h = handle_scroll_mem [OF assms]
  show "fst (handle_scroll y d) = y - 16" by (simp add: h)
  show "only_pixels d (snd (handle_scroll y d))" using scrolled_outside [OF assms(1)] by (simp add: h only_pixels_def)
  assume uv: "u < 640" "v < 480"
  define k where "k = 4 * (640 * v + u)"
  have k: "k + t < 1228800" "k + t < 1187840 \<longleftrightarrow> v < 464" if "t \<le> 3" for t
    using uv that unfolding k_def by auto
  have k2: "4 * (640 * (v + 16) + u) = k + 40960" unfolding k_def by simp
  have s: "scrolled (d_fb d) (d_mem d) (d_fb d + of_nat (k + t)) = (if v < 464 then d_mem d (d_fb d + of_nat (k + 40960 + t)) else 0)" if "t \<le> 3" for t
  proof -
    have e: "k + t + 40960 = k + 40960 + t" by simp
    show ?thesis using scrolled_at [OF k(1) [OF that], of "d_fb d" "d_mem d"] unfolding k(2) [OF that] e .
  qed
  have s0: "scrolled (d_fb d) (d_mem d) (d_fb d + of_nat k) = (if v < 464 then d_mem d (d_fb d + of_nat (k + 40960)) else 0)"
    using s [of 0] by simp
  have s1: "scrolled (d_fb d) (d_mem d) (d_fb d + of_nat (k + 1)) = (if v < 464 then d_mem d (d_fb d + of_nat (k + 40960 + 1)) else 0)"
    "scrolled (d_fb d) (d_mem d) (d_fb d + of_nat (k + 2)) = (if v < 464 then d_mem d (d_fb d + of_nat (k + 40960 + 2)) else 0)"
    "scrolled (d_fb d) (d_mem d) (d_fb d + of_nat (k + 3)) = (if v < 464 then d_mem d (d_fb d + of_nat (k + 40960 + 3)) else 0)"
    by (rule s, simp)+
  have "px (d\<lparr>d_mem := scrolled (d_fb d) (d_mem d)\<rparr>) u v = (if v < 464 then px d u (v + 16) else 0)"
    unfolding px_bytes k2 k_def [symmetric]
    by (cases "v < 464") (simp_all only: px_upd s0 s1 if_True if_False simp_thms unsigned_0 push_bit_of_0 or.left_neutral)
  then show "px (snd (handle_scroll y d)) u v = (if v < 464 then px d u (v + 16) else 0)" unfolding h by simp
qed

lemma no_scroll: "std d \<Longrightarrow> y < 464 \<Longrightarrow> handle_scroll y d = (y, d)"
  by (simp add: handle_scroll_def Let_def scroll_numbers not_le)

lemma fb_clear_law:
  assumes "std d"
  shows "only_pixels d (fb_clear d)" "x < 640 \<Longrightarrow> y < 480 \<Longrightarrow> px (fb_clear d) x y = 0"
proof -
  have c: "fb_clear d = d\<lparr>d_mem := filled (d_fb d) 0 1228800 (d_mem d)\<rparr>"
    by (simp add: fb_clear_def scroll_numbers [OF assms] memset_fast_filled)
  show "only_pixels d (fb_clear d)" using outside_offset [OF assms] by (fastforce simp: c only_pixels_def filled_def)
  assume xy: "x < 640" "y < 480"
  define k where "k = 4 * (640 * y + x)"
  have "unat (d_fb d + of_nat (k + t) - d_fb d) < 1228800" if "t \<le> 3" for t
    using fb_offset [OF assms, of "k + t"] xy that by (simp add: k_def)
  then have "filled (d_fb d) 0 1228800 (d_mem d) (d_fb d + of_nat (k + t)) = 0" if "t \<le> 3" for t
    using that by (simp add: filled_def)
  from this [of 0] this [of 1] this [of 2] this [of 3] show "px (fb_clear d) x y = 0" unfolding c px_bytes k_def [symmetric] by simp
qed

section \<open>The screen as text\<close>

record cell =
  ch :: u8
  colour :: u32
  inverted :: bool

definition printable :: "u8 \<Rightarrow> bool" where
  "printable c \<longleftrightarrow> 0x20 \<le> c \<and> c \<le> 0x7E"

definition blank :: cell where
  "blank = \<lparr>ch = 0x20, colour = 0, inverted = False\<rparr>"

definition cell_pixel :: "display \<Rightarrow> cell \<Rightarrow> nat \<Rightarrow> nat \<Rightarrow> u32" where
  "cell_pixel d k i j = (let p = (if glyph d (ch k) i j then colour k else 0) in if inverted k then NOT p else p)"

definition put_cell :: "nat \<Rightarrow> nat \<Rightarrow> cell \<Rightarrow> (nat \<Rightarrow> nat \<Rightarrow> cell) \<Rightarrow> nat \<Rightarrow> nat \<Rightarrow> cell" where
  "put_cell r c k g = g(r := (g r)(c := k))"

text \<open>What the frame buffer shows.\<close>

definition shows_text :: "display \<Rightarrow> (nat \<Rightarrow> nat \<Rightarrow> cell) \<Rightarrow> bool" where
  "shows_text d g \<longleftrightarrow> std d \<and> (\<forall>r < 30. \<forall>c < 80. printable (ch (g r c))
     \<and> (\<forall>i < 16. \<forall>j < 8. px d (8 * c + j) (16 * r + i) = cell_pixel d (g r c) i j))"

text \<open>The abstract printer: lines scroll up when the cursor reaches the last line by a line feed.\<close>

definition scroll_text :: "nat \<Rightarrow> (nat \<Rightarrow> nat \<Rightarrow> cell) \<Rightarrow> nat \<times> (nat \<Rightarrow> nat \<Rightarrow> cell)" where
  "scroll_text r g = (if 29 \<le> r then (r - 1, \<lambda>r c. if r < 29 then g (r + 1) c else blank) else (r, g))"

definition newline_text :: "(nat \<times> nat) \<times> (nat \<Rightarrow> nat \<Rightarrow> cell) \<Rightarrow> (nat \<times> nat) \<times> (nat \<Rightarrow> nat \<Rightarrow> cell)" where
  "newline_text s = (case s of ((c, r), g) \<Rightarrow> case scroll_text (r + 1) g of (r', g') \<Rightarrow> ((0, r'), g'))"

definition put_text :: "u8 \<Rightarrow> u32 \<Rightarrow> (nat \<times> nat) \<times> (nat \<Rightarrow> nat \<Rightarrow> cell) \<Rightarrow> (nat \<times> nat) \<times> (nat \<Rightarrow> nat \<Rightarrow> cell)" where
  "put_text b col s =
     (if b = 10 then newline_text s
      else if \<not> printable b then s
      else case s of ((c, r), g) \<Rightarrow>
        let s' = ((c + 1, r), put_cell r c \<lparr>ch = b, colour = col, inverted = False\<rparr> g)
        in if c + 1 < 80 then s' else newline_text s')"

fun print_text :: "u8 list \<Rightarrow> u32 \<Rightarrow> (nat \<times> nat) \<times> (nat \<Rightarrow> nat \<Rightarrow> cell) \<Rightarrow> (nat \<times> nat) \<times> (nat \<Rightarrow> nat \<Rightarrow> cell)" where
  "print_text [] col s = s"
| "print_text (b # bs) col s = print_text bs col (put_text b col s)"

text \<open>The relation between the two: the cursor counts pixels in the code and cells in the text.\<close>

definition text_rel :: "(u32 \<times> u32) \<times> display \<Rightarrow> (nat \<times> nat) \<times> (nat \<Rightarrow> nat \<Rightarrow> cell) \<Rightarrow> bool" where
  "text_rel s t \<longleftrightarrow> (case s of ((x, y), d) \<Rightarrow> case t of ((c, r), g) \<Rightarrow>
     c < 80 \<and> r < 30 \<and> x = of_nat (8 * c) \<and> y = of_nat (16 * r) \<and> shows_text d g)"

lemma cell_pixel_same:
  assumes "only_pixels d d'" "std d" "printable (ch k)" "i < 16"
  shows "cell_pixel d' k i j = cell_pixel d k i j"
  using glyph_same [OF assms(1,2) _ _ assms(4)] assms(3) by (simp add: cell_pixel_def printable_def)

lemma cell_coords:
  assumes "j < 8" "j' < (8 :: nat)" "8 * c \<le> 8 * c' + j'" "8 * c' + j' - 8 * c < 8"
  shows "c' = c"
  using assms by linarith

lemma shows_pixel:
  "shows_text d g \<Longrightarrow> r < 30 \<Longrightarrow> c < 80 \<Longrightarrow> i < 16 \<Longrightarrow> j < 8 \<Longrightarrow> px d (8 * c + j) (16 * r + i) = cell_pixel d (g r c) i j"
  by (simp add: shows_text_def)

lemma painted_cell:
  assumes "shows_text d g" "c < 80" "r < 30" "printable (ch k)"
    "painted d (8 * c) (16 * r) (\<lambda>i j. i < 16 \<and> j < 8) V d'" "\<And>i j. i < 16 \<Longrightarrow> j < 8 \<Longrightarrow> V i j = cell_pixel d k i j"
  shows "shows_text d' (put_cell r c k g)"
proof -
  have s: "std d" using assms(1) by (simp add: shows_text_def)
  have o: "only_pixels d d'" using assms(5) by (simp add: painted_def)
  have "printable (ch (put_cell r c k g r' c')) \<and> (\<forall>i < 16. \<forall>j < 8. px d' (8 * c' + j) (16 * r' + i) = cell_pixel d' (put_cell r c k g r' c') i j)"
    if b: "r' < 30" "c' < 80" for r' c'
  proof -
    have old: "printable (ch (g r' c'))" "\<And>i j. i < 16 \<Longrightarrow> j < 8 \<Longrightarrow> px d (8 * c' + j) (16 * r' + i) = cell_pixel d (g r' c') i j"
      using assms(1) b by (auto simp: shows_text_def)
    have p: "printable (ch (put_cell r c k g r' c'))" using old(1) assms(4) by (auto simp: put_cell_def)
    have "px d' (8 * c' + j) (16 * r' + i) = cell_pixel d' (put_cell r c k g r' c') i j" if ij: "i < 16" "j < 8" for i j
    proof -
      have x: "8 * c' + j < 640" "16 * r' + i < 480" using b ij by simp_all
      have q: "px d' (8 * c' + j) (16 * r' + i) = (if 8 * c \<le> 8 * c' + j \<and> 16 * r \<le> 16 * r' + i \<and> 16 * r' + i - 16 * r < 16 \<and> 8 * c' + j - 8 * c < 8
          then V (16 * r' + i - 16 * r) (8 * c' + j - 8 * c) else px d (8 * c' + j) (16 * r' + i))"
        using assms(5) x unfolding painted_def by blast
      have in_rect: "8 * c \<le> 8 * c' + j \<and> 16 * r \<le> 16 * r' + i \<and> 16 * r' + i - 16 * r < 16 \<and> 8 * c' + j - 8 * c < 8 \<longleftrightarrow> r' = r \<and> c' = c"
        using ij by auto
      have "px d' (8 * c' + j) (16 * r' + i) = cell_pixel d (put_cell r c k g r' c') i j"
      proof (cases "r' = r \<and> c' = c")
        case True
        then show ?thesis unfolding q in_rect using assms(6) [OF ij] by (simp add: put_cell_def)
      next
        case False
        then show ?thesis unfolding q in_rect using old(2) [OF ij] by (auto simp: put_cell_def)
      qed
      then show ?thesis using cell_pixel_same [OF o s p ij(1)] by simp
    qed
    then show ?thesis using p by blast
  qed
  then show ?thesis using only_pixels_std [OF o s] by (simp add: shows_text_def)
qed

lemma draw_char_text:
  assumes "shows_text d g" "c < 80" "r < 30" "printable b"
  shows "shows_text (draw_char b (of_nat (8 * c)) (of_nat (16 * r)) col d) (put_cell r c \<lparr>ch = b, colour = col, inverted = False\<rparr> g)"
  by (rule painted_cell [OF assms(1-3) _ draw_char_law])
    (use assms in \<open>auto simp: shows_text_def printable_def cell_pixel_def\<close>)

lemma invert_text:
  assumes "shows_text d g" "c < 80" "r < 30"
  shows "shows_text (fb_invert_char (of_nat (8 * c)) (of_nat (16 * r)) d) (put_cell r c ((g r c)\<lparr>inverted := \<not> inverted (g r c)\<rparr>) g)"
proof (rule painted_cell [OF assms _ invert_char_law])
  show "std d" using assms(1) by (simp add: shows_text_def)
  show "8 * c + 8 \<le> 640" "16 * r + 16 \<le> 480" using assms(2,3) by simp_all
  show "printable (ch ((g r c)\<lparr>inverted := \<not> inverted (g r c)\<rparr>))" using assms by (simp add: shows_text_def)
  fix i j :: nat
  assume "i < 16" "j < 8"
  then have "px d (8 * c + j) (16 * r + i) = cell_pixel d (g r c) i j" using assms by (simp add: shows_text_def)
  then show "NOT (px d (8 * c + j) (16 * r + i)) = cell_pixel d ((g r c)\<lparr>inverted := \<not> inverted (g r c)\<rparr>) i j"
    by (simp add: cell_pixel_def Let_def)
qed

lemma clear_text:
  assumes "std d"
  shows "shows_text (fb_clear d) (\<lambda>r c. blank)"
  using fb_clear_law [OF assms] only_pixels_std [OF _ assms]
  by (simp add: shows_text_def blank_def printable_def cell_pixel_def Let_def)

lemma scroll_shows:
  assumes "shows_text d g" "29 \<le> r" "r \<le> 30"
  shows "fst (handle_scroll (of_nat (16 * r)) d) = of_nat (16 * fst (scroll_text r g))"
    "shows_text (snd (handle_scroll (of_nat (16 * r)) d)) (snd (scroll_text r g))"
proof -
  have s: "std d" using assms(1) by (simp add: shows_text_def)
  have y: "(464 :: u32) \<le> of_nat (16 * r)" using assms(2,3) by (simp add: word_le_nat_alt unat_of_nat_u32 del: of_nat_mult)
  note l = handle_scroll_law [OF s y]
  have "(of_nat (16 * r) :: u32) - 16 = of_nat (16 * (r - 1))" using assms(2) by (simp add: of_nat_diff algebra_simps)
  then show "fst (handle_scroll (of_nat (16 * r)) d) = of_nat (16 * fst (scroll_text r g))" using l(1) assms(2) by (simp add: scroll_text_def)
  let ?d = "snd (handle_scroll (of_nat (16 * r)) d)" and ?g = "\<lambda>r c. if r < 29 then g (r + 1) c else blank"
  have "printable (ch (?g r' c')) \<and> (\<forall>i < 16. \<forall>j < 8. px ?d (8 * c' + j) (16 * r' + i) = cell_pixel ?d (?g r' c') i j)"
    if b: "r' < 30" "c' < 80" for r' c'
  proof -
    have p: "printable (ch (?g r' c'))" using assms(1) b by (simp add: shows_text_def blank_def printable_def)
    have "px ?d (8 * c' + j) (16 * r' + i) = cell_pixel ?d (?g r' c') i j" if ij: "i < 16" "j < 8" for i j
    proof -
      have x: "8 * c' + j < 640" "16 * r' + i < 480" using b ij by simp_all
      have in_top: "16 * r' + i < 464 \<longleftrightarrow> r' < 29" using ij by auto
      have "px ?d (8 * c' + j) (16 * r' + i) = cell_pixel d (?g r' c') i j"
      proof (cases "r' < 29")
        case True
        then have "px d (8 * c' + j) (16 * (r' + 1) + i) = cell_pixel d (g (r' + 1) c') i j"
          using b ij by (intro shows_pixel [OF assms(1)]) simp_all
        moreover have "16 * r' + i + 16 = 16 * (r' + 1) + i" by simp
        ultimately show ?thesis using True unfolding l(3) [OF x] in_top by (simp only: if_True)
      next
        case False
        then show ?thesis unfolding l(3) [OF x] in_top by (simp add: blank_def cell_pixel_def)
      qed
      then show ?thesis using cell_pixel_same [OF l(2) s p ij(1)] by simp
    qed
    then show ?thesis using p by blast
  qed
  then show "shows_text ?d (snd (scroll_text r g))" using only_pixels_std [OF l(2) s] assms(2) by (simp add: shows_text_def scroll_text_def)
qed

lemma row_plus: "of_nat (16 * r) + ucast (font_rows d) = (of_nat (16 * (r + 1)) :: u32)" if "std d"
  using scroll_numbers(7) [OF that] by (simp add: algebra_simps)

lemma newline_rel:
  assumes "shows_text d g" "r < 30"
  shows "text_rel (case handle_scroll (of_nat (16 * r) + ucast (font_rows d)) d of (y', d') \<Rightarrow> ((0, y'), d')) (newline_text ((c, r), g))"
proof -
  have s: "std d" using assms(1) by (simp add: shows_text_def)
  show ?thesis
  proof (cases "r + 1 < 29")
    case True
    have "(of_nat (16 * (r + 1)) :: u32) < 464" using True by (simp add: word_less_nat_alt unat_of_nat_u32 del: of_nat_mult of_nat_add)
    then show ?thesis unfolding row_plus [OF s] no_scroll [OF s \<open>of_nat (16 * (r + 1)) < 464\<close>]
      using True assms by (simp add: newline_text_def scroll_text_def text_rel_def)
  next
    case False
    have sc: "29 \<le> r + 1" "r + 1 \<le> 30" using False assms(2) by simp_all
    obtain y' d' where h: "handle_scroll (of_nat (16 * (r + 1))) d = (y', d')" by (metis surj_pair)
    obtain r' g' where t: "scroll_text (r + 1) g = (r', g')" by (metis surj_pair)
    have "r' < 30" using t sc by (auto simp: scroll_text_def split: if_splits)
    then show ?thesis using scroll_shows [OF assms(1) sc] unfolding row_plus [OF s] newline_text_def text_rel_def prod.case h t fst_conv snd_conv
      by simp
  qed
qed

lemma put_char_rel:
  assumes "text_rel s t"
  shows "text_rel (print_char b col s) (put_text b col t)"
proof -
  obtain x y d where s: "s = ((x, y), d)" by (metis surj_pair)
  obtain c r g where t: "t = ((c, r), g)" by (metis surj_pair)
  have r: "c < 80" "r < 30" "x = of_nat (8 * c)" "y = of_nat (16 * r)" "shows_text d g" using assms by (simp_all add: text_rel_def s t)
  have sd: "std d" using r(5) by (simp add: shows_text_def)
  consider "b = 10" | "b \<noteq> 10" "\<not> printable b" | "b \<noteq> 10" "printable b" by blast
  then show ?thesis
  proof cases
    case 1
    obtain y' d' where h: "handle_scroll (of_nat (16 * r) + ucast (font_rows d)) d = (y', d')" by (metis surj_pair)
    have rel: "text_rel ((0, y'), d') (newline_text ((c, r), g))" using newline_rel [OF r(5,2), of c] unfolding h by simp
    obtain c' r' g' where "newline_text ((c, r), g) = ((c', r'), g')" by (metis surj_pair)
    then have "std d'" using rel by (simp add: text_rel_def shows_text_def)
    then have "print_char b col s = ((0, y'), d')" using 1 by (simp add: s r(4) print_char_def h [unfolded of_nat_mult of_nat_numeral] scroll_numbers(9))
    then show ?thesis using rel 1 by (simp add: put_text_def t)
  next
    case 2
    then have "print_char b col s = s" "put_text b col t = t" by (auto simp: print_char_def s put_text_def printable_def not_le)
    then show ?thesis using assms by simp
  next
    case 3
    let ?d = "draw_char b x y col d" and ?g = "put_cell r c \<lparr>ch = b, colour = col, inverted = False\<rparr> g"
    have sh: "shows_text ?d ?g" unfolding r(3,4) by (rule draw_char_text [OF r(5,1,2) 3(2)])
    then have sd': "std ?d" by (simp add: shows_text_def)
    have x: "x + ucast (font_cols d) = of_nat (8 * (c + 1))" using r(3) scroll_numbers(8) [OF sd] by (simp add: algebra_simps)
    have u: "unat (of_nat (8 * (c + 1)) :: u32) = 8 * (c + 1)" using r(1) by (intro unat_of_nat_u32) simp
    have le: "(of_nat (8 * (c + 1)) :: u32) \<ge> d_pitch ?d div 4 \<longleftrightarrow> \<not> c + 1 < 80"
      unfolding scroll_numbers(9) [OF sd'] word_le_nat_alt u by auto
    have "print_char b col s = (if d_pitch ?d div 4 \<le> x + ucast (font_cols d) then (case handle_scroll (y + ucast (font_rows ?d)) ?d of (y2, d2) \<Rightarrow> ((0, y2), d2))
        else ((x + ucast (font_cols d), y), ?d))"
      using 3 by (auto simp: s print_char_def printable_def not_less)
    then have pc: "print_char b col s = (if \<not> c + 1 < 80 then (case handle_scroll (y + ucast (font_rows ?d)) ?d of (y2, d2) \<Rightarrow> ((0, y2), d2))
        else ((of_nat (8 * (c + 1)), y), ?d))"
      unfolding x le .
    show ?thesis
    proof (cases "c + 1 < 80")
      case True
      then show ?thesis using 3 sh r(2,4) unfolding pc by (simp add: put_text_def t text_rel_def)
    next
      case False
      have "put_text b col t = newline_text ((c + 1, r), ?g)" using 3 False by (simp add: put_text_def t)
      moreover have "print_char b col s = (case handle_scroll (y + ucast (font_rows ?d)) ?d of (y2, d2) \<Rightarrow> ((0, y2), d2))"
        unfolding pc using False by simp
      ultimately show ?thesis using newline_rel [OF sh r(2)] unfolding r(4) by simp
    qed
  qed
qed

lemma handle_scroll_only_pixels: "std d \<Longrightarrow> only_pixels d (snd (handle_scroll y d))"
  using handle_scroll_law(2) no_scroll by (cases "464 \<le> y") (auto simp: not_le)

lemma print_char_only_pixels:
  assumes "text_rel s t"
  shows "only_pixels (snd s) (snd (print_char b col s))"
proof -
  obtain x y d where s: "s = ((x, y), d)" by (metis surj_pair)
  obtain c r g where t: "t = ((c, r), g)" by (metis surj_pair)
  have r: "c < 80" "r < 30" "x = of_nat (8 * c)" "y = of_nat (16 * r)" "std d"
    using assms by (simp_all add: text_rel_def s t shows_text_def)
  have scroll: "only_pixels d d'' " if "only_pixels d d'" "handle_scroll v d' = (v', d'')" for d' d'' v v'
    using handle_scroll_only_pixels [OF only_pixels_std [OF that(1) r(5)], of v] only_pixels_trans [OF that(1)] that(2) by simp
  have draw: "only_pixels d (draw_char b x y col d)" if "0x20 \<le> b" "b \<le> 0x7E"
    using draw_char_law [OF r(5) that, of "8 * c" "16 * r" col] r(1,2) unfolding r(3,4) by (simp add: painted_def)
  define s1 where "s1 = (if b = 10 then (case handle_scroll (y + ucast (font_rows d)) d of (y', d') \<Rightarrow> ((0, y'), d'))
    else ((x + ucast (font_cols d), y), draw_char b x y col d))"
  obtain x1 y1 d1 where s1: "s1 = ((x1, y1), d1)" by (metis surj_pair)
  show ?thesis
  proof (cases "(b < 0x20 \<or> b > 0x7E) \<and> b \<noteq> 10")
    case True
    then show ?thesis by (simp add: s print_char_def)
  next
    case False
    have o: "only_pixels d d1"
      using s1 False draw scroll [OF only_pixels_refl] unfolding s1_def by (auto simp: not_less split: prod.splits if_splits)
    obtain y2 d2 where h: "handle_scroll (y1 + ucast (font_rows d1)) d1 = (y2, d2)" by (metis surj_pair)
    have "print_char b col s = (if x1 \<ge> d_pitch d1 div 4 then ((0, y2), d2) else ((x1, y1), d1))"
      using False s1 unfolding s print_char_def prod.case s1_def [symmetric] by (simp only: if_False prod.case h s1)
    then show ?thesis using o scroll [OF o h] by (simp add: s)
  qed
qed

lemma print_rel:
  assumes "text_rel s t" "0 \<notin> set str"
  shows "text_rel (printToScreenColored str col s) (print_text str col t)"
  using assms
proof (induction str arbitrary: s t)
  case Nil
  then show ?case by simp
next
  case (Cons b str)
  then show ?case using put_char_rel [OF Cons.prems(1)] by auto
qed

end
