(* ===== verification/Terminal.thy ===== *)
theory Terminal
  imports Display
begin

text \<open>
  The screen side of the terminal: final/src/terminal.c, built for the physical screen. Bytes are printed at a
  cursor or parsed as escape sequences; the cursor is shown by inverting its cell. Parameters are C ints, here
  32-bit words whose overflow wraps.
\<close>

section \<open>The code\<close>

datatype ansi = ANSI_NORM | ANSI_ESC | ANSI_CSI

record terminal =
  t_x :: u32
  t_y :: u32
  ansi_state :: ansi
  ansi_params :: "u32 list"
  ansi_param_count :: nat
  ANSI_COLOR_CODE :: u32
  t_display :: display

definition ANSI_MAX_X :: u32 where "ANSI_MAX_X = 640"

definition ANSI_MAX_Y :: u32 where "ANSI_MAX_Y = 480"

definition terminal_init :: "display \<Rightarrow> terminal" where
  "terminal_init d = \<lparr>t_x = 0, t_y = 0, ansi_state = ANSI_NORM, ansi_params = replicate 5 0, ansi_param_count = 0,
     ANSI_COLOR_CODE = 0xFFFFFFFF, t_display = d\<rparr>"

definition invert_cursor :: "terminal \<Rightarrow> terminal" where
  "invert_cursor t = t\<lparr>t_display := fb_invert_char (ucast (t_x t)) (ucast (t_y t)) (t_display t)\<rparr>"

definition move_cursor_to :: "u32 \<Rightarrow> u32 \<Rightarrow> terminal \<Rightarrow> terminal" where
  "move_cursor_to row col t =
     (let t1 = invert_cursor t; new_x = col * 8; new_y = row * 16
      in invert_cursor (t1\<lparr>t_x := if new_x \<ge> ANSI_MAX_X then ANSI_MAX_X - 8 else new_x,
           t_y := if new_y \<ge> ANSI_MAX_Y then ANSI_MAX_Y - 16 else new_y\<rparr>))"

definition terminal_handle_backspace :: "terminal \<Rightarrow> terminal" where
  "terminal_handle_backspace t =
     (if t_x t \<ge> 8 then t\<lparr>t_x := t_x t - 8\<rparr>
      else if t_y t \<ge> 16 then t\<lparr>t_y := t_y t - 16, t_x := ANSI_MAX_X - 8\<rparr>
      else t)"

text \<open>The colours of the parameters 30 to 37; any other leaves the colour as it is.\<close>

definition ansi_color :: "u32 \<Rightarrow> u32 \<Rightarrow> u32" where
  "ansi_color p old =
     (if p = 30 then 0xFF000000 else if p = 31 then 0xFFFF0000 else if p = 32 then 0xFF00FF00 else if p = 33 then 0xFFFFFF00
      else if p = 34 then 0xFF0000FF else if p = 35 then 0xFFFF00FF else if p = 36 then 0xFF00FFFF
      else if p = 37 then 0xFFFFFFFF else old)"

definition ansi_handle_final :: "u8 \<Rightarrow> terminal \<Rightarrow> terminal" where
  "ansi_handle_final c t =
     (let n = ansi_param_count t; p = (\<lambda>i. ansi_params t ! i);
          t1 = (if c = 65 then (if t_y t \<ge> 16 then t\<lparr>t_y := t_y t - 16\<rparr> else t)
            else if c = 66 then t\<lparr>t_y := t_y t + 16\<rparr>
            else if c = 67 then t\<lparr>t_x := t_x t + 8\<rparr>
            else if c = 68 then (if t_x t \<ge> 8 then t\<lparr>t_x := t_x t - 8\<rparr> else t)
            else if c = 72 then
              (if n = 1 then move_cursor_to (p 0 - 1) 0 t
               else if n = 2 then move_cursor_to (p 0 - 1) (p 1 - 1) t
               else t\<lparr>t_x := 0, t_y := 0\<rparr>)
            else if c = 74 then
              (let param = (if n \<ge> 1 then p 0 else 0) in
               if param = 0 \<or> param = 2 \<or> param = 3 then t\<lparr>t_display := fb_clear (t_display t), t_x := 0, t_y := 0\<rparr> else t)
            else if c = 109 then
              (if n = 0 \<or> (n = 1 \<and> p 0 = 0) \<or> (n = 2 \<and> p 0 = 0 \<and> p 1 = 0) then t\<lparr>ANSI_COLOR_CODE := 0xFFFFFFFF\<rparr>
               else t\<lparr>ANSI_COLOR_CODE := ansi_color (p (n - 1)) (ANSI_COLOR_CODE t)\<rparr>)
            else t)
      in t1\<lparr>ansi_param_count := 0, ansi_params := replicate 5 0, ansi_state := ANSI_NORM\<rparr>)"

definition terminal_print :: "u8 \<Rightarrow> terminal \<Rightarrow> terminal" where
  "terminal_print c t =
     (case printToScreenColored [c, 0] (ANSI_COLOR_CODE t) ((t_x t, t_y t), t_display t) of
        ((x, y), d) \<Rightarrow> t\<lparr>t_x := x, t_y := y, t_display := d\<rparr>)"

definition terminal_putc :: "u8 \<Rightarrow> terminal \<Rightarrow> terminal" where
  "terminal_putc c t =
     (case ansi_state t of
        ANSI_NORM \<Rightarrow>
          if c = 0x1B then t\<lparr>ansi_state := ANSI_ESC\<rparr>
          else let t1 = invert_cursor t
               in invert_cursor (if c = 8 then terminal_handle_backspace t1 else terminal_print c t1)
      | ANSI_ESC \<Rightarrow>
          if c = 91 then t\<lparr>ansi_state := ANSI_CSI, ansi_param_count := 0, ansi_params := replicate 5 0\<rparr>
          else t\<lparr>ansi_state := ANSI_NORM\<rparr>
      | ANSI_CSI \<Rightarrow>
          let n = (if ansi_param_count t = 0 then 1 else ansi_param_count t); t1 = t\<lparr>ansi_param_count := n\<rparr> in
          if 48 \<le> c \<and> c \<le> 57
          then t1\<lparr>ansi_params := (ansi_params t)[n - 1 := ansi_params t ! (n - 1) * 10 + (ucast c - 48)]\<rparr>
          else if c = 63 then t1
          else if c = 59 then t1\<lparr>ansi_param_count := if n + 1 \<ge> 5 then 4 else n + 1\<rparr>
          else ansi_handle_final c t1)"

definition terminal_puts :: "u8 list \<Rightarrow> terminal \<Rightarrow> terminal" where
  "terminal_puts bs t = fold terminal_putc bs t"

section \<open>Staying on the screen\<close>

text \<open>The cursor is a cell of the screen, the screen shows text, and the parameters are within their array.\<close>

definition at_cell :: "terminal \<Rightarrow> nat \<Rightarrow> nat \<Rightarrow> (nat \<Rightarrow> nat \<Rightarrow> cell) \<Rightarrow> bool" where
  "at_cell t c r g \<longleftrightarrow> text_rel ((t_x t, t_y t), t_display t) ((c, r), g) \<and> length (ansi_params t) = 5 \<and> ansi_param_count t \<le> 4"

definition flip :: "nat \<Rightarrow> nat \<Rightarrow> (nat \<Rightarrow> nat \<Rightarrow> cell) \<Rightarrow> nat \<Rightarrow> nat \<Rightarrow> cell" where
  "flip c r g = put_cell r c ((g r c)\<lparr>inverted := \<not> inverted (g r c)\<rparr>) g"

lemma flip_flip [simp]: "flip c r (flip c r g) = g"
  by (simp add: flip_def put_cell_def fun_eq_iff)

lemma at_cellD:
  assumes "at_cell t c r g"
  shows "c < 80" "r < 30" "t_x t = of_nat (8 * c)" "t_y t = of_nat (16 * r)" "shows_text (t_display t) g" "std (t_display t)"
    "unat (t_x t) = 8 * c" "unat (t_y t) = 16 * r" "length (ansi_params t) = 5" "ansi_param_count t \<le> 4"
proof -
  show "c < 80" "r < 30" "t_x t = of_nat (8 * c)" "t_y t = of_nat (16 * r)" "shows_text (t_display t) g"
    "length (ansi_params t) = 5" "ansi_param_count t \<le> 4" using assms by (simp_all add: at_cell_def text_rel_def)
  then show "std (t_display t)" "unat (t_x t) = 8 * c" "unat (t_y t) = 16 * r"
    by (simp_all add: shows_text_def unat_of_nat_u32 del: of_nat_mult)
qed

lemma at_cellI:
  assumes "c < 80" "r < 30" "t_x t = of_nat (8 * c)" "t_y t = of_nat (16 * r)" "shows_text (t_display t) g"
    "length (ansi_params t) = 5" "ansi_param_count t \<le> 4"
  shows "at_cell t c r g"
  using assms by (simp add: at_cell_def text_rel_def)

lemma invert_cursor_law:
  assumes "at_cell t c r g"
  shows "at_cell (invert_cursor t) c r (flip c r g)" "only_pixels (t_display t) (t_display (invert_cursor t))"
proof -
  note a = at_cellD [OF assms]
  have u: "ucast (t_x t) = (of_nat (8 * c) :: u16)" "ucast (t_y t) = (of_nat (16 * r) :: u16)"
    unfolding a(3,4) unsigned_of_nat using a(1,2) by (simp_all add: take_bit_nat_eq_self)
  have "shows_text (fb_invert_char (of_nat (8 * c)) (of_nat (16 * r)) (t_display t)) (flip c r g)"
    unfolding flip_def by (rule invert_text [OF a(5,1,2)])
  then show "at_cell (invert_cursor t) c r (flip c r g)"
    by (intro at_cellI) (use a u in \<open>simp_all add: invert_cursor_def\<close>)
  have "painted (t_display t) (8 * c) (16 * r) (\<lambda>i j. i < 16 \<and> j < 8) (\<lambda>i j. NOT (px (t_display t) (8 * c + j) (16 * r + i)))
      (fb_invert_char (of_nat (8 * c)) (of_nat (16 * r)) (t_display t))"
    by (rule invert_char_law [OF a(6)]) (use a(1,2) in simp_all)
  then show "only_pixels (t_display t) (t_display (invert_cursor t))" unfolding invert_cursor_def u by (simp add: painted_def)
qed

text \<open>Moving the cursor leaves the screen as it is, apart from the two cells it is drawn in.\<close>

lemma mult8_cell:
  assumes "col * 8 < (640 :: u32)"
  shows "\<exists>c < 80. col * 8 = of_nat (8 * c)"
proof -
  have "8 dvd unat (col * 8)"
  proof -
    have "unat (col * 8) = (unat col * 8) mod 2 ^ 32" by (simp add: unat_word_ariths)
    moreover have "8 dvd (unat col * 8) mod 2 ^ 32" by (rule dvd_mod) simp_all
    ultimately show ?thesis by simp
  qed
  then obtain c where c: "unat (col * 8) = 8 * c" by (rule dvdE)
  then have "c < 80" using assms by (simp add: word_less_nat_alt)
  moreover from this have "unat (of_nat (8 * c) :: u32) = 8 * c" by (intro unat_of_nat_u32) simp
  then have "col * 8 = of_nat (8 * c)" unfolding u32_eq_nat_iff c ..
  ultimately show ?thesis by blast
qed

lemma mult16_cell:
  assumes "row * 16 < (480 :: u32)"
  shows "\<exists>r < 30. row * 16 = of_nat (16 * r)"
proof -
  have "16 dvd unat (row * 16)"
  proof -
    have "unat (row * 16) = (unat row * 16) mod 2 ^ 32" by (simp add: unat_word_ariths)
    moreover have "16 dvd (unat row * 16) mod 2 ^ 32" by (rule dvd_mod) simp_all
    ultimately show ?thesis by simp
  qed
  then obtain r where r: "unat (row * 16) = 16 * r" by (rule dvdE)
  then have "r < 30" using assms by (simp add: word_less_nat_alt)
  moreover from this have "unat (of_nat (16 * r) :: u32) = 16 * r" by (intro unat_of_nat_u32) simp
  then have "row * 16 = of_nat (16 * r)" unfolding u32_eq_nat_iff r ..
  ultimately show ?thesis by blast
qed

lemma place_cursor:
  assumes "at_cell t c r g" "c' < 80" "r' < 30"
  shows "at_cell (t\<lparr>t_x := of_nat (8 * c'), t_y := of_nat (16 * r')\<rparr>) c' r' g"
  using at_cellD [OF assms(1)] assms(2,3) by (intro at_cellI) simp_all

lemma move_cursor_law:
  assumes "at_cell t c r g"
  obtains c' r' where "at_cell (move_cursor_to row col t) c' r' (flip c' r' (flip c r g))"
    "only_pixels (t_display t) (t_display (move_cursor_to row col t))"
    "\<And>k. k < 80 \<Longrightarrow> col = of_nat k \<Longrightarrow> c' = k" "\<And>k. k < 30 \<Longrightarrow> row = of_nat k \<Longrightarrow> r' = k"
proof -
  let ?x = "if col * 8 \<ge> ANSI_MAX_X then ANSI_MAX_X - 8 else col * 8" and ?y = "if row * 16 \<ge> ANSI_MAX_Y then ANSI_MAX_Y - 16 else row * 16"
  have "\<exists>c' < 80. ?x = of_nat (8 * c')"
    using mult8_cell [of col] by (cases "col * 8 < (640 :: u32)") (auto simp: ANSI_MAX_X_def not_le intro: exI [of _ 79])
  then obtain c' where c': "c' < 80" "?x = of_nat (8 * c')" by blast
  have "\<exists>r' < 30. ?y = of_nat (16 * r')"
    using mult16_cell [of row] by (cases "row * 16 < (480 :: u32)") (auto simp: ANSI_MAX_Y_def not_le intro: exI [of _ 29])
  then obtain r' where r': "r' < 30" "?y = of_nat (16 * r')" by blast
  note i1 = invert_cursor_law [OF assms]
  note i2 = invert_cursor_law [OF place_cursor [OF i1(1) c'(1) r'(1)]]
  have m: "move_cursor_to row col t = invert_cursor ((invert_cursor t)\<lparr>t_x := of_nat (8 * c'), t_y := of_nat (16 * r')\<rparr>)"
    unfolding move_cursor_to_def Let_def c'(2) r'(2) ..
  have o: "only_pixels (t_display t) (t_display (move_cursor_to row col t))" unfolding m
    by (rule only_pixels_trans [OF i1(2)]) (use i2(2) in simp)
  have cx: "c' = k" if k: "k < 80" "col = of_nat k" for k
  proof -
    have e: "col * 8 = of_nat (8 * k)" using k(2) by simp
    have u: "unat (of_nat (8 * k) :: u32) = 8 * k" using k(1) by (intro unat_of_nat_u32) simp
    have "\<not> col * 8 \<ge> ANSI_MAX_X" unfolding e ANSI_MAX_X_def word_le_nat_alt u using k(1) by simp
    then have "(of_nat (8 * k) :: u32) = of_nat (8 * c')" using c'(2) e by simp
    then have "unat (of_nat (8 * k) :: u32) = unat (of_nat (8 * c') :: u32)" by (rule arg_cong)
    then show "c' = k" unfolding u using c'(1) by (subst (asm) unat_of_nat_u32) simp_all
  qed
  have ry: "r' = k" if k: "k < 30" "row = of_nat k" for k
  proof -
    have e: "row * 16 = of_nat (16 * k)" using k(2) by simp
    have u: "unat (of_nat (16 * k) :: u32) = 16 * k" using k(1) by (intro unat_of_nat_u32) simp
    have "\<not> row * 16 \<ge> ANSI_MAX_Y" unfolding e ANSI_MAX_Y_def word_le_nat_alt u using k(1) by simp
    then have "(of_nat (16 * k) :: u32) = of_nat (16 * r')" using r'(2) e by simp
    then have "unat (of_nat (16 * k) :: u32) = unat (of_nat (16 * r') :: u32)" by (rule arg_cong)
    then show "r' = k" unfolding u using r'(1) by (subst (asm) unat_of_nat_u32) simp_all
  qed
  show thesis using that [of c' r'] i2(1) o cx ry unfolding m by blast
qed

text \<open>Printing through the cursor.\<close>

lemma print_only_pixels:
  assumes "text_rel s t" "0 \<notin> set str"
  shows "only_pixels (snd s) (snd (printToScreenColored str col s))"
  using assms
proof (induction str arbitrary: s t)
  case Nil
  then show ?case by simp
next
  case (Cons b str)
  have "only_pixels (snd s) (snd (print_char b col s))" by (rule print_char_only_pixels [OF Cons.prems(1)])
  moreover have "only_pixels (snd (print_char b col s)) (snd (printToScreenColored str col (print_char b col s)))"
    by (rule Cons.IH [OF put_char_rel [OF Cons.prems(1)]]) (use Cons.prems(2) in auto)
  ultimately show ?case using Cons.prems(2) only_pixels_trans by auto
qed

lemma print_one: "printToScreenColored [b, 0] col s = (if b = 0 then s else print_char b col s)"
  by simp

lemma terminal_print_law:
  assumes "at_cell t c r g" "(if b = 0 then ((c, r), g) else put_text b (ANSI_COLOR_CODE t) ((c, r), g)) = ((c', r'), g')"
  shows "at_cell (terminal_print b t) c' r' g'" "only_pixels (t_display t) (t_display (terminal_print b t))"
    "ansi_state (terminal_print b t) = ansi_state t" "ANSI_COLOR_CODE (terminal_print b t) = ANSI_COLOR_CODE t"
proof -
  have rel: "text_rel ((t_x t, t_y t), t_display t) ((c, r), g)" using assms(1) by (simp add: at_cell_def)
  obtain x y d where p: "printToScreenColored [b, 0] (ANSI_COLOR_CODE t) ((t_x t, t_y t), t_display t) = ((x, y), d)" by (metis surj_pair)
  have e: "terminal_print b t = t\<lparr>t_x := x, t_y := y, t_display := d\<rparr>" unfolding terminal_print_def p by simp
  have "text_rel ((x, y), d) ((c', r'), g')"
    using put_char_rel [OF rel, of b "ANSI_COLOR_CODE t"] rel assms(2) unfolding p [symmetric] print_one by (auto split: if_splits)
  then show "at_cell (terminal_print b t) c' r' g'" using assms(1) by (simp add: e at_cell_def)
  have "only_pixels (t_display t) d"
    using print_char_only_pixels [OF rel, of b "ANSI_COLOR_CODE t"] p unfolding print_one by (auto split: if_splits)
  then show "only_pixels (t_display t) (t_display (terminal_print b t))" by (simp add: e)
  show "ansi_state (terminal_print b t) = ansi_state t" "ANSI_COLOR_CODE (terminal_print b t) = ANSI_COLOR_CODE t" by (simp_all add: e)
qed

definition back_cell :: "nat \<times> nat \<Rightarrow> nat \<times> nat" where
  "back_cell p = (case p of (c, r) \<Rightarrow> if 1 \<le> c then (c - 1, r) else if 1 \<le> r then (79, r - 1) else (c, r))"

lemma step_left: "1 \<le> c \<Longrightarrow> of_nat (8 * c) - 8 = (of_nat (8 * (c - 1)) :: u32)"
  by (simp add: of_nat_diff algebra_simps)

lemma step_up: "1 \<le> r \<Longrightarrow> of_nat (16 * r) - 16 = (of_nat (16 * (r - 1)) :: u32)"
  by (simp add: of_nat_diff algebra_simps)

lemma at_cell_tests:
  assumes "at_cell t c r g"
  shows "t_x t \<ge> 8 \<longleftrightarrow> 1 \<le> c" "t_y t \<ge> 16 \<longleftrightarrow> 1 \<le> r"
  using at_cellD(7,8) [OF assms] by (auto simp: word_le_nat_alt)

lemma backspace_law:
  assumes "at_cell t c r g"
  shows "at_cell (terminal_handle_backspace t) (fst (back_cell (c, r))) (snd (back_cell (c, r))) g"
    "t_display (terminal_handle_backspace t) = t_display t"
  using at_cellD [OF assms] at_cell_tests [OF assms] step_left [of c] step_up [of r]
  by (auto simp: terminal_handle_backspace_def back_cell_def ANSI_MAX_X_def intro!: at_cellI)

text \<open>The parser's part of a byte.\<close>

definition next_ansi :: "ansi \<Rightarrow> u8 \<Rightarrow> ansi" where
  "next_ansi st b = (case st of
     ANSI_NORM \<Rightarrow> if b = 0x1B then ANSI_ESC else ANSI_NORM
   | ANSI_ESC \<Rightarrow> if b = 91 then ANSI_CSI else ANSI_NORM
   | ANSI_CSI \<Rightarrow> if 48 \<le> b \<and> b \<le> 57 \<or> b = 63 \<or> b = 59 then ANSI_CSI else ANSI_NORM)"

text \<open>The two sequences that move the cursor without a bound: down and right.\<close>

definition unbounded_move :: "ansi \<Rightarrow> u8 \<Rightarrow> bool" where
  "unbounded_move st b \<longleftrightarrow> st = ANSI_CSI \<and> (b = 66 \<or> b = 67)"

fun stays :: "ansi \<Rightarrow> u8 list \<Rightarrow> bool" where
  "stays st [] = True"
| "stays st (b # bs) = (\<not> unbounded_move st b \<and> stays (next_ansi st b) bs)"

definition inside :: "display \<Rightarrow> terminal \<Rightarrow> bool" where
  "inside d t \<longleftrightarrow> only_pixels d (t_display t) \<and> (\<exists>c r g. at_cell t c r g)"

lemma insideI: "at_cell t c r g \<Longrightarrow> only_pixels d (t_display t) \<Longrightarrow> inside d t"
  unfolding inside_def by blast

lemma inside_reset: "inside d t \<Longrightarrow> inside d (t\<lparr>ansi_param_count := 0, ansi_params := replicate 5 0, ansi_state := st\<rparr>)"
  by (auto simp: inside_def at_cell_def)

lemma inside_fields:
  assumes "inside d t" "length ps = 5" "n \<le> 4"
  shows "inside d (t\<lparr>ansi_param_count := n, ansi_params := ps\<rparr>)" "inside d (t\<lparr>ansi_param_count := n\<rparr>)"
  using assms by (auto simp: inside_def at_cell_def)

lemma inside_state: "inside d t \<Longrightarrow> inside d (t\<lparr>ansi_state := st\<rparr>)" "inside d t \<Longrightarrow> inside d (t\<lparr>ANSI_COLOR_CODE := col\<rparr>)"
  by (auto simp: inside_def at_cell_def)

lemma inside_invert: "inside d t \<Longrightarrow> inside d (invert_cursor t)"
  using invert_cursor_law only_pixels_trans unfolding inside_def by blast

lemma inside_home: "inside d t \<Longrightarrow> inside d (t\<lparr>t_x := 0, t_y := 0\<rparr>)"
proof -
  assume "inside d t"
  then obtain c r g where o: "only_pixels d (t_display t)" and a: "at_cell t c r g" unfolding inside_def by blast
  have "at_cell (t\<lparr>t_x := 0, t_y := 0\<rparr>) 0 0 g" using place_cursor [OF a, of 0 0] by simp
  then show ?thesis by (rule insideI) (use o in simp)
qed

lemma inside_clear: "inside d t \<Longrightarrow> inside d (t\<lparr>t_display := fb_clear (t_display t), t_x := 0, t_y := 0\<rparr>)"
proof -
  assume "inside d t"
  then obtain c r g where o: "only_pixels d (t_display t)" and a: "at_cell t c r g" unfolding inside_def by blast
  note s = at_cellD(6) [OF a]
  have "at_cell (t\<lparr>t_display := fb_clear (t_display t), t_x := 0, t_y := 0\<rparr>) 0 0 (\<lambda>r c. blank)"
    using clear_text [OF s] at_cellD [OF a] by (intro at_cellI) simp_all
  then show ?thesis by (rule insideI) (use only_pixels_trans [OF o fb_clear_law(1) [OF s]] in simp)
qed

lemma inside_move: "inside d t \<Longrightarrow> inside d (move_cursor_to row col t)"
  unfolding inside_def by (meson move_cursor_law only_pixels_trans)

lemma inside_left_up:
  assumes "inside d t"
  shows "inside d (if t_y t \<ge> 16 then t\<lparr>t_y := t_y t - 16\<rparr> else t)" "inside d (if t_x t \<ge> 8 then t\<lparr>t_x := t_x t - 8\<rparr> else t)"
proof -
  obtain c r g where o: "only_pixels d (t_display t)" and a: "at_cell t c r g" using assms unfolding inside_def by blast
  have "at_cell (t\<lparr>t_y := t_y t - 16\<rparr>) c (r - 1) g" if "1 \<le> r"
    using at_cellD [OF a] step_up [OF that] by (intro at_cellI) simp_all
  then show "inside d (if t_y t \<ge> 16 then t\<lparr>t_y := t_y t - 16\<rparr> else t)" using a o at_cell_tests(2) [OF a] by (auto intro: insideI)
  have "at_cell (t\<lparr>t_x := t_x t - 8\<rparr>) (c - 1) r g" if "1 \<le> c"
    using at_cellD [OF a] step_left [OF that] by (intro at_cellI) simp_all
  then show "inside d (if t_x t \<ge> 8 then t\<lparr>t_x := t_x t - 8\<rparr> else t)" using a o at_cell_tests(1) [OF a] by (auto intro: insideI)
qed

lemma inside_final:
  assumes "inside d t" "b \<noteq> 66" "b \<noteq> 67"
  shows "inside d (ansi_handle_final b t)"
  unfolding ansi_handle_final_def Let_def
  by (rule inside_reset) (use assms in \<open>simp add: inside_move inside_home inside_clear inside_left_up inside_state del: if_split split: if_split_asm\<close>)

lemma inside_print: "inside d t \<Longrightarrow> inside d (terminal_print b t)"
proof -
  assume "inside d t"
  then obtain c r g where o: "only_pixels d (t_display t)" and a: "at_cell t c r g" unfolding inside_def by blast
  obtain c' r' g' where "(if b = 0 then ((c, r), g) else put_text b (ANSI_COLOR_CODE t) ((c, r), g)) = ((c', r'), g')" by (metis surj_pair)
  note p = terminal_print_law [OF a this]
  show ?thesis by (rule insideI [OF p(1) only_pixels_trans [OF o p(2)]])
qed

lemma inside_backspace: "inside d t \<Longrightarrow> inside d (terminal_handle_backspace t)"
  unfolding inside_def using backspace_law by metis

lemma inside_putc:
  assumes "inside d t" "\<not> unbounded_move (ansi_state t) b"
  shows "inside d (terminal_putc b t)" "ansi_state (terminal_putc b t) = next_ansi (ansi_state t) b"
proof -
  obtain c r g where a: "at_cell t c r g" using assms(1) unfolding inside_def by blast
  let ?n = "if ansi_param_count t = 0 then 1 else ansi_param_count t"
  have n: "?n \<le> 4" using at_cellD(10) [OF a] by simp
  have t1: "inside d (t\<lparr>ansi_param_count := ?n\<rparr>)" by (rule inside_fields(2) [OF assms(1) _ n, of "replicate 5 0"]) simp
  have p: "inside d (t\<lparr>ansi_param_count := ?n, ansi_params := (ansi_params t)[?n - 1 := v]\<rparr>)" for v
    by (rule inside_fields(1) [OF assms(1) _ n]) (simp add: at_cellD(9) [OF a])
  have m: "inside d (t\<lparr>ansi_param_count := k\<rparr>)" if "k \<le> 4" for k
    by (rule inside_fields(2) [OF assms(1) _ that, of "replicate 5 0"]) simp
  have e: "inside d (t\<lparr>ansi_state := ANSI_CSI, ansi_param_count := 0, ansi_params := replicate 5 0\<rparr>)"
    using assms(1) by (auto simp: inside_def at_cell_def)
  show "inside d (terminal_putc b t)"
  proof (cases "ansi_state t")
    case ANSI_NORM
    then show ?thesis using assms(1) by (simp add: terminal_putc_def Let_def inside_state inside_invert inside_print inside_backspace)
  next
    case ANSI_ESC
    then show ?thesis using assms(1) e by (simp add: terminal_putc_def inside_state)
  next
    case ANSI_CSI
    then have b: "b \<noteq> 66" "b \<noteq> 67" using assms(2) by (simp_all add: unbounded_move_def)
    have f: "inside d (ansi_handle_final b (t\<lparr>ansi_param_count := ?n\<rparr>))" by (rule inside_final [OF t1 b])
    show ?thesis unfolding terminal_putc_def ANSI_CSI ansi.case Let_def
      using p t1 f m [of 4] m [of "?n + 1"] by (simp split del: if_split) (auto split: if_split)
  qed
  show "ansi_state (terminal_putc b t) = next_ansi (ansi_state t) b"
    by (cases "ansi_state t") (auto simp: terminal_putc_def next_ansi_def Let_def invert_cursor_def terminal_handle_backspace_def
      terminal_print_def ansi_handle_final_def split: prod.split)
qed

lemma inside_puts: "inside d t \<Longrightarrow> stays (ansi_state t) bs \<Longrightarrow> inside d (terminal_puts bs t)"
proof (induction bs arbitrary: t)
  case Nil
  then show ?case by (simp add: terminal_puts_def)
next
  case (Cons b bs)
  have nb: "\<not> unbounded_move (ansi_state t) b" using Cons.prems(2) by simp
  note p = inside_putc [OF Cons.prems(1) nb]
  have "inside d (terminal_puts bs (terminal_putc b t))" by (rule Cons.IH [OF p(1)]) (use Cons.prems(2) p(2) in simp)
  then show ?case by (simp add: terminal_puts_def)
qed

section \<open>What the screen shows\<close>

text \<open>At rest the cursor's cell is inverted: \<open>g\<close> is the text without the cursor.\<close>

definition cursor_at :: "terminal \<Rightarrow> nat \<Rightarrow> nat \<Rightarrow> (nat \<Rightarrow> nat \<Rightarrow> cell) \<Rightarrow> bool" where
  "cursor_at t c r g \<longleftrightarrow> at_cell t c r (flip c r g)"

definition type_text :: "u32 \<Rightarrow> u8 \<Rightarrow> (nat \<times> nat) \<times> (nat \<Rightarrow> nat \<Rightarrow> cell) \<Rightarrow> (nat \<times> nat) \<times> (nat \<Rightarrow> nat \<Rightarrow> cell)" where
  "type_text col b s = (if b = 8 then (back_cell (fst s), snd s) else put_text b col s)"

lemma put_text_nul: "put_text 0 col s = s"
  by (simp add: put_text_def printable_def)

lemma type_law:
  assumes "cursor_at t c r g" "ansi_state t = ANSI_NORM" "b \<noteq> 0x1B" "type_text (ANSI_COLOR_CODE t) b ((c, r), g) = ((c', r'), g')"
  shows "cursor_at (terminal_putc b t) c' r' g'" "ansi_state (terminal_putc b t) = ANSI_NORM"
    "ANSI_COLOR_CODE (terminal_putc b t) = ANSI_COLOR_CODE t"
proof -
  let ?t = "invert_cursor t"
  have i: "at_cell ?t c r g" using invert_cursor_law(1) [of t c r "flip c r g"] assms(1) by (simp add: cursor_at_def)
  have f: "ansi_state ?t = ANSI_NORM" "ANSI_COLOR_CODE ?t = ANSI_COLOR_CODE t" using assms(2) by (simp_all add: invert_cursor_def)
  let ?u = "if b = 8 then terminal_handle_backspace ?t else terminal_print b ?t"
  have "at_cell ?u c' r' g' \<and> ansi_state ?u = ANSI_NORM \<and> ANSI_COLOR_CODE ?u = ANSI_COLOR_CODE t"
  proof (cases "b = 8")
    case True
    then have "g' = g" "back_cell (c, r) = (c', r')" using assms(4) by (simp_all add: type_text_def)
    then show ?thesis using backspace_law [OF i] True f by (simp add: terminal_handle_backspace_def)
  next
    case False
    then have "put_text b (ANSI_COLOR_CODE ?t) ((c, r), g) = ((c', r'), g')" using assms(4) f by (simp add: type_text_def)
    then have "(if b = 0 then ((c, r), g) else put_text b (ANSI_COLOR_CODE ?t) ((c, r), g)) = ((c', r'), g')"
      using put_text_nul [of "ANSI_COLOR_CODE ?t" "((c, r), g)"] by auto
    from terminal_print_law [OF i this] show ?thesis using False f by simp
  qed
  then have u: "at_cell ?u c' r' g'" "ansi_state ?u = ANSI_NORM" "ANSI_COLOR_CODE ?u = ANSI_COLOR_CODE t" by simp_all
  have e: "terminal_putc b t = invert_cursor ?u" using assms(2,3) by (simp add: terminal_putc_def Let_def)
  show "cursor_at (terminal_putc b t) c' r' g'" unfolding e cursor_at_def by (rule invert_cursor_law(1) [OF u(1)])
  show "ansi_state (terminal_putc b t) = ANSI_NORM" "ANSI_COLOR_CODE (terminal_putc b t) = ANSI_COLOR_CODE t"
    unfolding e using u(2,3) by (simp_all add: invert_cursor_def)
qed

lemma type_all_law:
  assumes "cursor_at t c r g" "ansi_state t = ANSI_NORM" "0x1B \<notin> set bs" "fold (type_text (ANSI_COLOR_CODE t)) bs ((c, r), g) = ((c', r'), g')"
  shows "cursor_at (terminal_puts bs t) c' r' g' \<and> ansi_state (terminal_puts bs t) = ANSI_NORM"
  using assms
proof (induction bs arbitrary: t c r g)
  case Nil
  then show ?case by (simp add: terminal_puts_def)
next
  case (Cons b bs)
  obtain c1 r1 g1 where o: "type_text (ANSI_COLOR_CODE t) b ((c, r), g) = ((c1, r1), g1)" by (metis surj_pair)
  have nb: "b \<noteq> 0x1B" using Cons.prems(3) by auto
  note l = type_law [OF Cons.prems(1,2) nb o]
  have "cursor_at (terminal_puts bs (terminal_putc b t)) c' r' g' \<and> ansi_state (terminal_puts bs (terminal_putc b t)) = ANSI_NORM"
    by (rule Cons.IH [OF l(1,2)]) (use Cons.prems(3,4) o l(3) in auto)
  then show ?case by (simp add: terminal_puts_def)
qed

section \<open>Placing the cursor\<close>

definition digits_value :: "u32 \<Rightarrow> u8 list \<Rightarrow> u32" where
  "digits_value = foldl (\<lambda>n d. n * 10 + (ucast d - 48))"

lemma digit_step:
  assumes "ansi_state t = ANSI_CSI" "48 \<le> d" "d \<le> 57" "n = (if ansi_param_count t = 0 then 1 else ansi_param_count t)"
  shows "terminal_putc d t = t\<lparr>ansi_param_count := n, ansi_params := (ansi_params t)[n - 1 := ansi_params t ! (n - 1) * 10 + (ucast d - 48)]\<rparr>"
  using assms by (simp add: terminal_putc_def Let_def)

lemma digits_law:
  assumes "ansi_state t = ANSI_CSI" "\<forall>d \<in> set ds. 48 \<le> d \<and> d \<le> 57" "1 \<le> ansi_param_count t" "ansi_param_count t \<le> length (ansi_params t)"
  shows "terminal_puts ds t = t\<lparr>ansi_params := (ansi_params t)[ansi_param_count t - 1 := digits_value (ansi_params t ! (ansi_param_count t - 1)) ds]\<rparr>"
  using assms
proof (induction ds arbitrary: t)
  case Nil
  then show ?case by (simp add: terminal_puts_def digits_value_def)
next
  case (Cons d ds)
  let ?k = "ansi_param_count t - 1"
  let ?t = "t\<lparr>ansi_params := (ansi_params t)[?k := ansi_params t ! ?k * 10 + (ucast d - 48)]\<rparr>"
  have s: "terminal_putc d t = ?t" using Cons.prems by (subst digit_step [of t d "ansi_param_count t"]) auto
  have k: "?k < length (ansi_params t)" using Cons.prems(3,4) by simp
  have "terminal_puts ds ?t = ?t\<lparr>ansi_params := (ansi_params ?t)[?k := digits_value (ansi_params ?t ! ?k) ds]\<rparr>"
    using Cons.IH [of ?t] Cons.prems by simp
  then show ?case using k by (simp add: terminal_puts_def s digits_value_def)
qed

lemma first_digits_law:
  assumes "ansi_state t = ANSI_CSI" "\<forall>d \<in> set ds. 48 \<le> d \<and> d \<le> 57" "ds \<noteq> []" "ansi_param_count t = 0" "ansi_params t = replicate 5 0"
  shows "terminal_puts ds t = t\<lparr>ansi_param_count := 1, ansi_params := (replicate 5 0)[0 := digits_value 0 ds]\<rparr>"
proof -
  obtain d ds' where ds: "ds = d # ds'" using assms(3) by (cases ds) auto
  let ?t = "t\<lparr>ansi_param_count := 1, ansi_params := (replicate 5 0)[0 := ucast d - 48]\<rparr>"
  have s: "terminal_putc d t = ?t" using assms ds by (subst digit_step [of t d 1]) auto
  have "terminal_puts ds' ?t = ?t\<lparr>ansi_params := (ansi_params ?t)[0 := digits_value (ansi_params ?t ! 0) ds']\<rparr>"
    using digits_law [of ?t ds'] assms ds by simp
  then show ?thesis by (simp add: ds terminal_puts_def s digits_value_def)
qed

lemma terminal_puts_append: "terminal_puts (a @ b) t = terminal_puts b (terminal_puts a t)"
  by (simp add: terminal_puts_def)

lemma place_law:
  assumes "cursor_at t c r g" "ansi_state t = ANSI_NORM" "\<forall>d \<in> set rs \<union> set cs. 48 \<le> d \<and> d \<le> 57"
    "digits_value 0 rs = of_nat (Suc r')" "r' < 30" "digits_value 0 cs = of_nat (Suc c')" "c' < 80"
  shows "cursor_at (terminal_puts ([0x1B, 91] @ rs @ [59] @ cs @ [72]) t) c' r' g"
    "ansi_state (terminal_puts ([0x1B, 91] @ rs @ [59] @ cs @ [72]) t) = ANSI_NORM"
proof -
  have nz: "of_nat (Suc n) \<noteq> (0 :: u32)" if "n < 80" for n
  proof -
    have "unat (of_nat (Suc n) :: u32) = Suc n" using that by (intro unat_of_nat_u32) simp
    then show ?thesis by (metis Suc_neq_Zero unat_0)
  qed
  have ne: "rs \<noteq> []" "cs \<noteq> []" using assms(4-7) nz [of r'] nz [of c'] by (auto simp: digits_value_def)
  define t1 where "t1 = t\<lparr>ansi_state := ANSI_CSI, ansi_param_count := 0, ansi_params := replicate 5 0\<rparr>"
  have s1: "terminal_puts [0x1B, 91] t = t1" using assms(2) by (simp add: terminal_puts_def terminal_putc_def t1_def)
  define t2 where "t2 = t1\<lparr>ansi_param_count := 1, ansi_params := (replicate 5 0)[0 := of_nat (Suc r')]\<rparr>"
  have s2: "terminal_puts rs t1 = t2" unfolding t2_def assms(4) [symmetric]
    by (rule first_digits_law) (use assms(3) ne in \<open>simp_all add: t1_def\<close>)
  define t3 where "t3 = t2\<lparr>ansi_param_count := 2\<rparr>"
  have s3: "terminal_puts [59] t2 = t3" by (simp add: terminal_puts_def terminal_putc_def t3_def t2_def t1_def)
  define t4 where "t4 = t3\<lparr>ansi_params := (replicate 5 0)[0 := of_nat (Suc r'), 1 := of_nat (Suc c')]\<rparr>"
  have s4: "terminal_puts cs t3 = t4"
  proof -
    have "terminal_puts cs t3 = t3\<lparr>ansi_params := (ansi_params t3)[ansi_param_count t3 - 1 := digits_value (ansi_params t3 ! (ansi_param_count t3 - 1)) cs]\<rparr>"
      by (rule digits_law) (use assms(3) in \<open>simp_all add: t3_def t2_def t1_def\<close>)
    then show ?thesis unfolding t4_def assms(6) [symmetric] by (simp add: t3_def t2_def t1_def)
  qed
  let ?m = "move_cursor_to (of_nat (Suc r') - 1) (of_nat (Suc c') - 1) t4"
  have s5: "terminal_puts [72] t4 = ?m\<lparr>ansi_param_count := 0, ansi_params := replicate 5 0, ansi_state := ANSI_NORM\<rparr>"
  proof -
    have p: "ansi_state t4 = ANSI_CSI" "ansi_param_count t4 = 2" "t4\<lparr>ansi_param_count := 2\<rparr> = t4"
      "ansi_params t4 ! 0 = of_nat (Suc r')" "ansi_params t4 ! Suc 0 = of_nat (Suc c')"
      by (simp_all add: t4_def t3_def t2_def t1_def)
    show ?thesis by (simp add: terminal_puts_def terminal_putc_def ansi_handle_final_def p)
  qed
  have all: "terminal_puts ([0x1B, 91] @ rs @ [59] @ cs @ [72]) t = ?m\<lparr>ansi_param_count := 0, ansi_params := replicate 5 0, ansi_state := ANSI_NORM\<rparr>"
    unfolding terminal_puts_append s1 s2 s3 s4 s5 ..
  have a4: "at_cell t4 c r (flip c r g)" using assms(1) by (simp add: cursor_at_def at_cell_def t4_def t3_def t2_def t1_def)
  obtain c1 r1 where m: "at_cell ?m c1 r1 (flip c1 r1 (flip c r (flip c r g)))"
    "\<And>k. k < 80 \<Longrightarrow> of_nat (Suc c') - 1 = (of_nat k :: u32) \<Longrightarrow> c1 = k" "\<And>k. k < 30 \<Longrightarrow> of_nat (Suc r') - 1 = (of_nat k :: u32) \<Longrightarrow> r1 = k"
    by (rule move_cursor_law [OF a4, of "of_nat (Suc r') - 1" "of_nat (Suc c') - 1"]) blast
  have "c1 = c'" "r1 = r'" using m(2) [OF assms(7)] m(3) [OF assms(5)] by simp_all
  then show "cursor_at (terminal_puts ([0x1B, 91] @ rs @ [59] @ cs @ [72]) t) c' r' g"
    using m(1) unfolding all by (simp add: cursor_at_def at_cell_def)
  show "ansi_state (terminal_puts ([0x1B, 91] @ rs @ [59] @ cs @ [72]) t) = ANSI_NORM" unfolding all by simp
qed

text \<open>The other movements do not redraw the cursor: its old cell stays inverted. Moving down from the last line
  leaves the screen, and what is printed there is written past the frame buffer.\<close>

lemma cursor_up_ghost:
  assumes "cursor_at t c r g" "ansi_state t = ANSI_CSI" "1 \<le> r"
  shows "at_cell (terminal_putc 65 t) c (r - 1) (flip c r g)"
proof -
  have a: "at_cell t c r (flip c r g)" using assms(1) by (simp add: cursor_at_def)
  then have "16 \<le> t_y t" using at_cell_tests(2) assms(3) by blast
  then have e: "t_y (terminal_putc 65 t) = t_y t - 16" "t_x (terminal_putc 65 t) = t_x t" "t_display (terminal_putc 65 t) = t_display t"
    "ansi_params (terminal_putc 65 t) = replicate 5 0" "ansi_param_count (terminal_putc 65 t) = 0"
    using assms(2) by (simp_all add: terminal_putc_def Let_def ansi_handle_final_def)
  show ?thesis by (rule at_cellI) (use at_cellD [OF a] e step_up [OF assms(3)] in simp_all)
qed

lemma cursor_down_leaves:
  assumes "at_cell t c 29 g" "ansi_state t = ANSI_CSI"
  shows "t_y (terminal_putc 66 t) = 480" "\<not> in_fb (t_display t) (pixel_addr (t_display t) (t_x t) 480)"
proof -
  note a = at_cellD [OF assms(1)]
  show "t_y (terminal_putc 66 t) = 480" using assms(2) a(4) by (simp add: terminal_putc_def Let_def ansi_handle_final_def)
  have "pixel_addr (t_display t) (of_nat (8 * c)) (of_nat 480) - d_fb (t_display t) = of_nat (1228800 + 32 * c)"
    unfolding pixel_addr_std [OF a(6)] by (simp add: algebra_simps)
  moreover have "unat (of_nat (1228800 + 32 * c) :: u32) = 1228800 + 32 * c" using a(1) by (intro unat_of_nat_u32) simp
  ultimately have "unat (pixel_addr (t_display t) (t_x t) 480 - d_fb (t_display t)) \<ge> 1228800" unfolding a(3) by simp
  then show "\<not> in_fb (t_display t) (pixel_addr (t_display t) (t_x t) 480)"
    unfolding in_fb_def in_block_def unat_sub_cases by (auto split: if_splits)
qed

section \<open>Claims\<close>

definition demo_display :: display where
  "demo_display = \<lparr>d_mem = (\<lambda>_. 0), d_fb = 0x1C000000, d_pitch = 2560, d_font = 0x9000, font_rows = 16, font_cols = 8\<rparr>"

lemma demo_std: "std demo_display"
proof -
  have "\<not> in_fb demo_display (d_font demo_display + of_nat k)" if "k < 1522" for k
    using that unat_plus_small [of "0x9000" k] by (simp add: in_fb_def in_block_def demo_display_def)
  then show ?thesis by (simp add: std_def) (simp add: demo_display_def)
qed

lemma demo_cursor: "cursor_at (invert_cursor (terminal_init (fb_clear demo_display))) 0 0 (\<lambda>r c. blank)"
proof -
  have "at_cell (terminal_init (fb_clear demo_display)) 0 0 (\<lambda>r c. blank)"
    using clear_text [OF demo_std] by (intro at_cellI) (simp_all add: terminal_init_def)
  then show ?thesis unfolding cursor_at_def by (rule invert_cursor_law(1))
qed

text \<open>C39: Whatever bytes are written, as long as no escape sequence moves the cursor down or right, the cursor is a
  cell of the screen, the parameters are within their array, the screen shows text, and no memory outside
  the frame buffer has changed. (Those two sequences have no bound; see \<open>cursor_down_leaves\<close>.)\<close>

theorem terminal_stays_inside:
  assumes "at_cell t c r g" "stays (ansi_state t) bs"
  shows "\<exists>c' r' g'. at_cell (terminal_puts bs t) c' r' g' \<and> only_pixels (t_display t) (t_display (terminal_puts bs t))"
  using inside_puts [OF insideI [OF assms(1) only_pixels_refl] assms(2)] unfolding inside_def by blast

theorem terminal_stays_inside_witness:
  "\<exists>c r g. at_cell (terminal_puts [0x1B, 91, 57, 57, 59, 55, 72, 10, 66] (terminal_init (fb_clear demo_display))) c r g"
proof -
  have a: "at_cell (terminal_init (fb_clear demo_display)) 0 0 (\<lambda>r c. blank)"
    using clear_text [OF demo_std] by (intro at_cellI) (simp_all add: terminal_init_def)
  have "stays (ansi_state (terminal_init (fb_clear demo_display))) [0x1B, 91, 57, 57, 59, 55, 72, 10, 66]"
    by (simp add: terminal_init_def unbounded_move_def next_ansi_def)
  from terminal_stays_inside [OF a this] show ?thesis by blast
qed

text \<open>C40: The terminal refines a text screen of 30 lines of 80 cells. Written bytes other than escape - printed
  characters, line feeds that scroll when the cursor reaches the last line, wrapping at the right margin,
  backspaces - change the pixels as they change the text, and the cursor's cell, alone, is shown inverted.\<close>

theorem terminal_refines_text:
  assumes "cursor_at t c r g" "ansi_state t = ANSI_NORM" "0x1B \<notin> set bs" "fold (type_text (ANSI_COLOR_CODE t)) bs ((c, r), g) = ((c', r'), g')"
  shows "cursor_at (terminal_puts bs t) c' r' g' \<and> ansi_state (terminal_puts bs t) = ANSI_NORM"
  by (rule type_all_law [OF assms])

theorem terminal_refines_text_witness:
  "\<exists>g. cursor_at (terminal_puts [104, 105, 10, 33] (invert_cursor (terminal_init (fb_clear demo_display)))) 1 1 g \<and> ch (g 0 1) = 105"
proof -
  let ?t = "invert_cursor (terminal_init (fb_clear demo_display))"
  have f: "ansi_state ?t = ANSI_NORM" by (simp add: invert_cursor_def terminal_init_def)
  obtain p g where o: "fold (type_text (ANSI_COLOR_CODE ?t)) [104, 105, 10, 33] ((0, 0), \<lambda>r c. blank) = (p, g)" by (metis surj_pair)
  then have pg: "p = (1, 1)" "ch (g 0 1) = 105"
    by (auto simp: type_text_def put_text_def printable_def put_cell_def newline_text_def scroll_text_def)
  have "cursor_at (terminal_puts [104, 105, 10, 33] ?t) 1 1 g \<and> ansi_state (terminal_puts [104, 105, 10, 33] ?t) = ANSI_NORM"
    by (rule terminal_refines_text [OF demo_cursor f]) (use o pg(1) in simp_all)
  then show ?thesis using pg(2) by blast
qed

text \<open>The sequence ESC [ row ; column H, with the numbers in decimal and counted from 1, moves the cursor to that
  cell: the text is as it was and the cursor's cell, alone, is shown inverted.\<close>

theorem cursor_placed:
  assumes "cursor_at t c r g" "ansi_state t = ANSI_NORM" "\<forall>d \<in> set rs \<union> set cs. 48 \<le> d \<and> d \<le> 57"
    "digits_value 0 rs = of_nat (Suc r')" "r' < 30" "digits_value 0 cs = of_nat (Suc c')" "c' < 80"
  shows "cursor_at (terminal_puts ([0x1B, 91] @ rs @ [59] @ cs @ [72]) t) c' r' g"
  by (rule place_law(1) [OF assms])

theorem cursor_placed_witness:
  "cursor_at (terminal_puts ([0x1B, 91] @ [49, 50] @ [59] @ [56, 48] @ [72]) (invert_cursor (terminal_init (fb_clear demo_display)))) 79 11 (\<lambda>r c. blank)"
  by (rule cursor_placed [OF demo_cursor]) (simp_all add: digits_value_def invert_cursor_def terminal_init_def)

end
