(* ===== verification/Keyboard.thy ===== *)
theory Keyboard
  imports Prelude "HOL-Library.Monad_Syntax"
begin

text \<open>
  The keyboard: final/src/keyboard.c and the tables of lib/include/hid.h. A report has the modifier bits and the codes of up to
  six pressed keys; what a poll of the USB endpoint returns is an argument. A code of 128 or more is outside the
  tables and the maps of pressed keys, and has no value.
\<close>

section \<open>The code\<close>

definition hid_scancode_to_ascii :: "u8 list" where
  "hid_scancode_to_ascii =
    [0, 0, 0, 0, 97, 98, 99, 100, 101, 102, 103, 104, 105, 106, 107, 108,
     109, 110, 111, 112, 113, 114, 115, 116, 117, 118, 119, 120, 121, 122,
     49, 50, 51, 52, 53, 54, 55, 56, 57, 48, 10, 0x1B, 8, 9,
     32, 45, 61, 91, 93, 92, 35, 59, 39, 96, 44, 46, 47, 0] @ replicate 70 0"

definition hid_scancode_to_ascii_shift :: "u8 list" where
  "hid_scancode_to_ascii_shift =
    [0, 0, 0, 0, 65, 66, 67, 68, 69, 70, 71, 72, 73, 74, 75, 76,
     77, 78, 79, 80, 81, 82, 83, 84, 85, 86, 87, 88, 89, 90,
     33, 64, 35, 36, 37, 94, 38, 42, 40, 41, 10, 0x1B, 8, 9,
     32, 95, 43, 123, 125, 124, 126, 58, 34, 126, 60, 62, 63, 0] @ replicate 70 0"

record hid_keyboard_report =
  modifiers :: u8
  reserved :: u8
  keys :: "u8 list"

record keyboard =
  last_pressed_map :: "u8 list"
  pressed_map :: "u8 list"

definition keyboard_boot :: keyboard where
  "keyboard_boot = \<lparr>last_pressed_map = replicate 128 0, pressed_map = replicate 128 0\<rparr>"

text \<open>The character of a key: shifted or not, and with control the low five bits of those from 0x40 on.\<close>

definition key_char :: "u8 \<Rightarrow> u8 \<Rightarrow> u8" where
  "key_char mods key =
     (let shift = mods AND 0x22; ctrl = mods AND 0x11;
          c = (if shift \<noteq> 0 then hid_scancode_to_ascii_shift else hid_scancode_to_ascii) ! unat key
      in if ctrl \<noteq> 0 \<and> c \<ge> 0x40 \<and> c \<le> 0x7F then c AND 0x1F else c)"

fun report_keys :: "u8 \<Rightarrow> u8 list \<Rightarrow> u32 \<Rightarrow> keyboard \<Rightarrow> (u32 \<times> keyboard) option" where
  "report_keys mods [] ret k = Some (ret, k)"
| "report_keys mods (key # rest) ret k =
     (if key = 0 then report_keys mods rest ret k
      else if 128 \<le> key then None
      else let k1 = k\<lparr>pressed_map := (pressed_map k)[unat key := 1]\<rparr>; c = key_char mods key
        in report_keys mods rest (if last_pressed_map k ! unat key = 0 \<and> c \<noteq> 0 then ucast c else ret) k1)"

definition process_keyboard_report :: "hid_keyboard_report \<Rightarrow> keyboard \<Rightarrow> (u32 \<times> keyboard) option" where
  "process_keyboard_report rep k = do {
     (ret, k1) \<leftarrow> report_keys (modifiers rep) (keys rep) (- 1) k;
     Some (ret, k1\<lparr>last_pressed_map := pressed_map k1, pressed_map := replicate 128 0\<rparr>)
   }"

text \<open>A poll: a report, nothing yet (three codes), or an error, after which the device is enumerated again. The flag says
  whether it was.\<close>

definition keyboard_poll_once :: "int \<Rightarrow> hid_keyboard_report \<Rightarrow> keyboard \<Rightarrow> (u32 \<times> bool \<times> keyboard) option" where
  "keyboard_poll_once r rep k =
     (if r = 0 then map_option (\<lambda>(c, k'). (c, False, k')) (process_keyboard_report rep k)
      else if r = - 3 \<or> r = - 5 \<or> r = - 6 then Some (- 1, False, k)
      else Some (- 1, True, k))"

section \<open>Events\<close>

definition report_ok :: "hid_keyboard_report \<Rightarrow> bool" where
  "report_ok rep \<longleftrightarrow> length (keys rep) = 6 \<and> (\<forall>key \<in> set (keys rep). key < 128)"

text \<open>The keys that are down: the non-zero codes of a report.\<close>

definition down :: "hid_keyboard_report \<Rightarrow> u8 set" where
  "down rep = set (keys rep) - {0}"

definition holds :: "u8 list \<Rightarrow> u8 set \<Rightarrow> bool" where
  "holds xs D \<longleftrightarrow> length xs = 128 \<and> (\<forall>key < 128. xs ! unat key \<noteq> 0 \<longleftrightarrow> key \<in> D)"

text \<open>The characters of the keys a report adds, in the order of its slots, and the event: the last of them.\<close>

definition new_chars :: "u8 \<Rightarrow> u8 list \<Rightarrow> u8 set \<Rightarrow> u8 list" where
  "new_chars mods ks D = filter (\<lambda>c. c \<noteq> 0) (map (key_char mods) (filter (\<lambda>key. key \<noteq> 0 \<and> key \<notin> D) ks))"

definition event :: "u8 list \<Rightarrow> u32 \<Rightarrow> u32" where
  "event cs none = (if cs = [] then none else ucast (last cs))"

lemma holds_insert:
  assumes "holds xs D" "key < 128"
  shows "holds (xs[unat key := 1]) (insert key D)"
  using assms by (auto simp: holds_def nth_list_update word_less_nat_alt dest: unsigned_word_eqI)

lemma report_keys_law:
  assumes "holds (last_pressed_map k) D" "holds (pressed_map k) E" "\<forall>key \<in> set ks. key < 128"
  shows "\<exists>k'. report_keys mods ks ret k = Some (event (new_chars mods ks D) ret, k')
    \<and> last_pressed_map k' = last_pressed_map k \<and> holds (pressed_map k') (E \<union> (set ks - {0}))"
  using assms
proof (induction ks arbitrary: ret k E)
  case Nil
  then show ?case by (simp add: event_def new_chars_def)
next
  case (Cons key ks)
  have b: "key < 128" "\<not> 128 \<le> key" using Cons.prems(3) by auto
  show ?case
  proof (cases "key = 0")
    case True
    have "new_chars mods (key # ks) D = new_chars mods ks D" by (simp add: True new_chars_def)
    then show ?thesis using Cons.IH [OF Cons.prems(1,2)] Cons.prems(3) True by simp
  next
    case False
    let ?k = "k\<lparr>pressed_map := (pressed_map k)[unat key := 1]\<rparr>"
    let ?ret = "if last_pressed_map k ! unat key = 0 \<and> key_char mods key \<noteq> 0 then ucast (key_char mods key) else ret"
    have n: "last_pressed_map k ! unat key = 0 \<longleftrightarrow> key \<notin> D" using Cons.prems(1) b(1) by (auto simp: holds_def)
    have e: "event (new_chars mods (key # ks) D) ret = event (new_chars mods ks D) ?ret"
      unfolding n using False by (simp add: new_chars_def event_def)
    have "holds (last_pressed_map ?k) D" "holds (pressed_map ?k) (insert key E)"
      using Cons.prems(1) holds_insert [OF Cons.prems(2) b(1)] by simp_all
    from Cons.IH [OF this, of ?ret] Cons.prems(3) obtain k' where
      "report_keys mods ks ?ret ?k = Some (event (new_chars mods ks D) ?ret, k')" "last_pressed_map k' = last_pressed_map k"
      "holds (pressed_map k') (insert key E \<union> (set ks - {0}))" by auto
    moreover have "insert key E \<union> (set ks - {0}) = E \<union> (set (key # ks) - {0})" using False by auto
    ultimately show ?thesis using False b(2) unfolding e by (simp add: Let_def)
  qed
qed

lemma process_report_law:
  assumes "holds (last_pressed_map k) D" "pressed_map k = replicate 128 0" "report_ok rep"
  shows "\<exists>k'. process_keyboard_report rep k = Some (event (new_chars (modifiers rep) (keys rep) D) (- 1), k')
    \<and> holds (last_pressed_map k') (down rep) \<and> pressed_map k' = replicate 128 0"
proof -
  have z: "holds (pressed_map k) {}" unfolding assms(2) by (simp add: holds_def word_less_nat_alt)
  obtain k' where "report_keys (modifiers rep) (keys rep) (- 1) k = Some (event (new_chars (modifiers rep) (keys rep) D) (- 1), k')"
    "holds (pressed_map k') ({} \<union> (set (keys rep) - {0}))"
    using report_keys_law [OF assms(1) z] assms(3) unfolding report_ok_def by blast
  then show ?thesis by (simp add: process_keyboard_report_def down_def)
qed

lemma boot_holds: "holds (last_pressed_map keyboard_boot) {}" "pressed_map keyboard_boot = replicate 128 0"
  by (simp_all add: holds_def keyboard_boot_def word_less_nat_alt)

text \<open>All reports in turn, with the events they give.\<close>

fun process_reports :: "hid_keyboard_report list \<Rightarrow> keyboard \<Rightarrow> (u32 list \<times> keyboard) option" where
  "process_reports [] k = Some ([], k)"
| "process_reports (rep # reps) k = do {
     (c, k1) \<leftarrow> process_keyboard_report rep k;
     (cs, k2) \<leftarrow> process_reports reps k1;
     Some (c # cs, k2)
   }"

fun events :: "u8 set \<Rightarrow> hid_keyboard_report list \<Rightarrow> u32 list" where
  "events D [] = []"
| "events D (rep # reps) = event (new_chars (modifiers rep) (keys rep) D) (- 1) # events (down rep) reps"

lemma process_reports_law:
  assumes "holds (last_pressed_map k) D" "pressed_map k = replicate 128 0" "\<forall>rep \<in> set reps. report_ok rep"
  shows "\<exists>k'. process_reports reps k = Some (events D reps, k')"
  using assms
proof (induction reps arbitrary: k D)
  case Nil
  then show ?case by simp
next
  case (Cons rep reps)
  obtain k' where k': "process_keyboard_report rep k = Some (event (new_chars (modifiers rep) (keys rep) D) (- 1), k')"
    "holds (last_pressed_map k') (down rep)" "pressed_map k' = replicate 128 0"
    using process_report_law [OF Cons.prems(1,2)] Cons.prems(3) by auto
  from Cons.IH [OF k'(2,3)] Cons.prems(3) obtain k2 where "process_reports reps k' = Some (events (down rep) reps, k2)" by auto
  then show ?case using k'(1) by simp
qed

text \<open>A key that stays down gives no further events, and of two keys that go down in one report only the last is seen.\<close>

lemma held_keys_silent: "down rep \<subseteq> D \<Longrightarrow> event (new_chars (modifiers rep) (keys rep) D) (- 1) = - 1"
proof -
  assume "down rep \<subseteq> D"
  then have "filter (\<lambda>key. key \<noteq> 0 \<and> key \<notin> D) (keys rep) = []" by (auto simp: down_def filter_empty_conv)
  then show ?thesis by (simp add: new_chars_def event_def)
qed

lemma two_keys_one_event:
  "map_option fst (process_reports [\<lparr>modifiers = 0, reserved = 0, keys = [4, 5, 0, 0, 0, 0]\<rparr>] keyboard_boot) = Some [98]"
  by code_simp

section \<open>Claims\<close>

text \<open>From start-up, and for every sequence of reports with codes in range, each report gives one event: the
  character - by the modifiers of the report - of the last of the keys that are down in it and were not in the
  report before and have a character, and no event when there is none; so a held key is reported once.\<close>

theorem keyboard_events:
  assumes "\<forall>rep \<in> set reps. report_ok rep"
  shows "\<exists>k'. process_reports reps keyboard_boot = Some (events {} reps, k')"
  by (rule process_reports_law [OF boot_holds assms])

theorem keyboard_events_witness:
  "map_option fst (process_reports [\<lparr>modifiers = 2, reserved = 0, keys = [4, 0, 0, 0, 0, 0]\<rparr>, \<lparr>modifiers = 0, reserved = 0, keys = [4, 5, 0, 0, 0, 0]\<rparr>] keyboard_boot) = Some [65, 98]"
proof -
  have "events {} [\<lparr>modifiers = 2, reserved = 0, keys = [4, 0, 0, 0, 0, 0]\<rparr>, \<lparr>modifiers = 0, reserved = 0, keys = [4, 5, 0, 0, 0, 0]\<rparr>] = [65, 98]"
    by (simp add: new_chars_def event_def down_def key_char_def Let_def hid_scancode_to_ascii_def hid_scancode_to_ascii_shift_def)
  then show ?thesis
    using keyboard_events [of "[\<lparr>modifiers = 2, reserved = 0, keys = [4, 0, 0, 0, 0, 0]\<rparr>, \<lparr>modifiers = 0, reserved = 0, keys = [4, 5, 0, 0, 0, 0]\<rparr>]"]
    by (auto simp: report_ok_def)
qed

end
