(* ===== verification/Device.thy ===== *)
theory Device
  imports Pimath "HOL-Library.Monad_Syntax"
begin

text \<open>
  Device registers and the small drivers over them: lib/src/regs.c, lib/src/gpio.c, lib/src/serial.c,
  lib/src/pictl.c, final/src/timer.c. The state of a device is what it has seen: the history of reads, writes and
  waits, newest first. The hardware is a function of that history and the place read, given as an argument, so
  that a statement for all hardware covers every device, working or not. A loop that polls takes a bound on its
  reads; \<open>None\<close> is a loop that goes on.
\<close>

section \<open>The bus\<close>

text \<open>Registers are addressed in memory; \<open>Mem\<close> is memory that a device reads and writes by itself; the cycle counter is
  read through the coprocessor. \<open>Wait n\<close> is a busy wait of \<open>n\<close> units that its callers do not look into.\<close>

datatype port = Mmio u32 | Mem u32 | CycleCounter

datatype access = Rd port u32 | Wr port u32 | Wait nat

type_synonym history = "access list"
type_synonym hardware = "history \<Rightarrow> port \<Rightarrow> u32"

definition rd :: "hardware \<Rightarrow> port \<Rightarrow> history \<Rightarrow> u32 \<times> history" where
  "rd hw p h = (hw h p, Rd p (hw h p) # h)"

definition GET32 :: "hardware \<Rightarrow> u32 \<Rightarrow> history \<Rightarrow> u32 \<times> history" where
  "GET32 hw addr h = rd hw (Mmio addr) h"

definition PUT32 :: "u32 \<Rightarrow> u32 \<Rightarrow> history \<Rightarrow> history" where
  "PUT32 addr v h = Wr (Mmio addr) v # h"

definition MMIO_BASE :: u32 where "MMIO_BASE = 0x20000000"

text \<open>Reading until a test holds, as \<open>while (!...) ;\<close> does.\<close>

fun spin :: "nat \<Rightarrow> hardware \<Rightarrow> u32 \<Rightarrow> (u32 \<Rightarrow> bool) \<Rightarrow> history \<Rightarrow> (u32 \<times> history) option" where
  "spin 0 hw addr P h = None"
| "spin (Suc n) hw addr P h = (case GET32 hw addr h of (v, h1) \<Rightarrow> if P v then Some (v, h1) else spin n hw addr P h1)"

text \<open>A history that the hardware explains: every value read is the one it gives at that point.\<close>

fun explains :: "hardware \<Rightarrow> history \<Rightarrow> bool" where
  "explains hw [] \<longleftrightarrow> True"
| "explains hw (Rd p v # h) \<longleftrightarrow> v = hw h p \<and> explains hw h"
| "explains hw (a # h) \<longleftrightarrow> explains hw h"

section \<open>GPIO (lib/src/gpio.c)\<close>

definition ADD_GPFSEL :: u32 where "ADD_GPFSEL = MMIO_BASE + 0x200000"
definition ADD_GPSET :: u32 where "ADD_GPSET = MMIO_BASE + 0x20001C"
definition ADD_GPCLR :: u32 where "ADD_GPCLR = MMIO_BASE + 0x200028"
definition ADD_GPLEV :: u32 where "ADD_GPLEV = MMIO_BASE + 0x200034"

definition GPIO_INPUT :: u32 where "GPIO_INPUT = 0"
definition GPIO_OUTPUT :: u32 where "GPIO_OUTPUT = 1"
definition GPIO_ALT3 :: u32 where "GPIO_ALT3 = 7"

definition gpio_pin_set_func :: "hardware \<Rightarrow> u32 \<Rightarrow> u32 \<Rightarrow> history \<Rightarrow> history" where
  "gpio_pin_set_func hw pin func h =
     (let addr = ADD_GPFSEL + (pin div 10) * 4; shift = unat ((pin mod 10) * 3)
      in case GET32 hw addr h of (v, h1) \<Rightarrow>
        let v1 = v AND NOT (push_bit shift 7); v2 = v1 OR push_bit shift func
        in PUT32 addr v2 h1)"

definition gpio_set_output :: "hardware \<Rightarrow> u32 \<Rightarrow> history \<Rightarrow> history" where
  "gpio_set_output hw pin h =
     (let addr = ADD_GPFSEL + (pin div 10) * 4; shift = unat ((pin mod 10) * 3)
      in case GET32 hw addr h of (v, h1) \<Rightarrow> PUT32 addr ((v AND NOT (push_bit shift 7)) OR push_bit shift 1) h1)"

definition gpio_set_input :: "hardware \<Rightarrow> u32 \<Rightarrow> history \<Rightarrow> history" where
  "gpio_set_input hw pin h =
     (let addr = ADD_GPFSEL + (pin div 10) * 4; shift = unat ((pin mod 10) * 3)
      in case GET32 hw addr h of (v, h1) \<Rightarrow> PUT32 addr ((v AND NOT (push_bit shift 7)) OR push_bit shift 0) h1)"

definition gpio_set_on :: "u32 \<Rightarrow> history \<Rightarrow> history" where
  "gpio_set_on pin h = PUT32 (ADD_GPSET + (pin div 32) * 4) (push_bit (unat (pin mod 32)) 1) h"

definition gpio_set_off :: "u32 \<Rightarrow> history \<Rightarrow> history" where
  "gpio_set_off pin h = PUT32 (ADD_GPCLR + (pin div 32) * 4) (push_bit (unat (pin mod 32)) 1) h"

definition gpio_read :: "hardware \<Rightarrow> u32 \<Rightarrow> history \<Rightarrow> u32 \<times> history" where
  "gpio_read hw pin h = (case GET32 hw (ADD_GPLEV + (pin div 32) * 4) h of (v, h1) \<Rightarrow>
     (drop_bit (unat (pin mod 32)) v AND 1, h1))"

section \<open>The serial line (lib/src/serial.c)\<close>

definition ADD_AUX_ENABLES :: u32 where "ADD_AUX_ENABLES = MMIO_BASE + 0x215004"
definition ADD_AUX_MU_IO_REG :: u32 where "ADD_AUX_MU_IO_REG = MMIO_BASE + 0x215040"
definition ADD_AUX_MU_IIR_REG :: u32 where "ADD_AUX_MU_IIR_REG = MMIO_BASE + 0x215048"
definition ADD_AUX_MU_LCR_REG :: u32 where "ADD_AUX_MU_LCR_REG = MMIO_BASE + 0x21504C"
definition ADD_AUX_MU_LSR_REG :: u32 where "ADD_AUX_MU_LSR_REG = MMIO_BASE + 0x215054"
definition ADD_AUX_MU_CNTL_REG :: u32 where "ADD_AUX_MU_CNTL_REG = MMIO_BASE + 0x215060"
definition ADD_AUX_MU_STAT_REG :: u32 where "ADD_AUX_MU_STAT_REG = MMIO_BASE + 0x215064"
definition ADD_AUX_MU_BAUD_REG :: u32 where "ADD_AUX_MU_BAUD_REG = MMIO_BASE + 0x215068"

definition ok_to_read :: "hardware \<Rightarrow> history \<Rightarrow> bool \<times> history" where
  "ok_to_read hw h = (case GET32 hw ADD_AUX_MU_STAT_REG h of (v, h1) \<Rightarrow> (v AND 1 \<noteq> 0, h1))"

definition ok_to_write :: "hardware \<Rightarrow> history \<Rightarrow> bool \<times> history" where
  "ok_to_write hw h = (case GET32 hw ADD_AUX_MU_STAT_REG h of (v, h1) \<Rightarrow> (v AND 2 \<noteq> 0, h1))"

definition uart_init :: "history \<Rightarrow> history" where
  "uart_init h =
     (let h1 = PUT32 ADD_AUX_ENABLES 1 h;
          h2 = PUT32 ADD_AUX_MU_CNTL_REG 0 h1;
          h3 = PUT32 ADD_AUX_MU_BAUD_REG 27 h2;
          h4 = PUT32 ADD_AUX_MU_LCR_REG 3 h3;
          h5 = PUT32 ADD_AUX_MU_IIR_REG 6 h4
      in PUT32 ADD_AUX_MU_CNTL_REG 3 h5)"

fun wait_to_write :: "nat \<Rightarrow> hardware \<Rightarrow> history \<Rightarrow> history option" where
  "wait_to_write 0 hw h = None"
| "wait_to_write (Suc n) hw h = (case ok_to_write hw h of (ok, h1) \<Rightarrow> if ok then Some h1 else wait_to_write n hw h1)"

definition uart_putc :: "nat \<Rightarrow> hardware \<Rightarrow> u8 \<Rightarrow> history \<Rightarrow> history option" where
  "uart_putc n hw c h = do {
     h1 \<leftarrow> wait_to_write n hw h;
     Some (PUT32 ADD_AUX_MU_IO_REG (ucast c AND 0xFF) h1)
   }"

text \<open>A string is its bytes before the terminator.\<close>

fun uart_puts :: "nat \<Rightarrow> hardware \<Rightarrow> u8 list \<Rightarrow> history \<Rightarrow> history option" where
  "uart_puts n hw [] h = Some h"
| "uart_puts n hw (c # cs) h = do {
     h1 \<leftarrow> uart_putc n hw c h;
     uart_puts n hw cs h1
   }"

function decimal_digits :: "u32 \<Rightarrow> u8 list" where
  "decimal_digits num = (if num > 0 then (ucast (num mod 10) + 48) # decimal_digits (num div 10) else [])"
  by pat_completeness auto
termination
proof (relation "measure unat")
  show "wf (measure (unat :: u32 \<Rightarrow> nat))" by simp
  fix num :: u32 assume "0 < num"
  then have "0 < unat num" by (simp add: word_less_nat_alt)
  then show "(num div 10, num) \<in> measure unat" by (simp add: unat_div_distrib)
qed

declare decimal_digits.simps [simp del]

definition uart_printInt :: "nat \<Rightarrow> hardware \<Rightarrow> u32 \<Rightarrow> history \<Rightarrow> history option" where
  "uart_printInt n hw num h =
     (if num = 0 then uart_putc n hw 48 h
      else uart_puts n hw (rev (decimal_digits num)) h)"

fun wait_to_read :: "nat \<Rightarrow> hardware \<Rightarrow> history \<Rightarrow> history option" where
  "wait_to_read 0 hw h = None"
| "wait_to_read (Suc n) hw h = (case ok_to_read hw h of (ok, h1) \<Rightarrow> if ok then Some h1 else wait_to_read n hw h1)"

definition uart_getc :: "nat \<Rightarrow> hardware \<Rightarrow> history \<Rightarrow> (u8 \<times> history) option" where
  "uart_getc n hw h = do {
     h1 \<leftarrow> wait_to_read n hw h;
     case GET32 hw ADD_AUX_MU_IO_REG h1 of (v, h2) \<Rightarrow> Some (ucast (v AND 0xFF), h2)
   }"

definition uart_wait_tx :: "nat \<Rightarrow> hardware \<Rightarrow> history \<Rightarrow> history option" where
  "uart_wait_tx n hw h = map_option snd (spin n hw ADD_AUX_MU_LSR_REG (\<lambda>v. v AND push_bit 6 1 \<noteq> 0) h)"

section \<open>Time (lib/src/pictl.c, final/src/timer.c)\<close>

definition timer_get_usec_raw :: "hardware \<Rightarrow> history \<Rightarrow> u32 \<times> history" where
  "timer_get_usec_raw hw h = GET32 hw 0x20003004 h"

definition timer_get_usec :: "hardware \<Rightarrow> history \<Rightarrow> u32 \<times> history" where
  "timer_get_usec hw h = timer_get_usec_raw hw h"

definition timer_get_msec :: "hardware \<Rightarrow> history \<Rightarrow> u32 \<times> history" where
  "timer_get_msec hw h =
     (case timer_get_usec_raw hw h of (lo, h1) \<Rightarrow> case GET32 hw 0x20003008 h1 of (hi, h2) \<Rightarrow>
        let usec = (ucast lo OR push_bit 32 (ucast hi) :: u64) in (ucast (drop_bit 10 usec), h2))"

text \<open>The reading loop of \<open>uart_getc_timeout\<close>: \<open>None\<close> inside is the time running out.\<close>

fun getc_loop :: "nat \<Rightarrow> hardware \<Rightarrow> u32 \<Rightarrow> history \<Rightarrow> (bool \<times> history) option" where
  "getc_loop 0 hw target h = None"
| "getc_loop (Suc n) hw target h =
     (case ok_to_read hw h of (ok, h1) \<Rightarrow>
        if ok then Some (True, h1)
        else case timer_get_msec hw h1 of (t, h2) \<Rightarrow> if t \<ge> target then Some (False, h2) else getc_loop n hw target h2)"

definition uart_getc_timeout :: "nat \<Rightarrow> hardware \<Rightarrow> u32 \<Rightarrow> history \<Rightarrow> (u8 option \<times> history) option" where
  "uart_getc_timeout n hw timeout_ms h =
     (case timer_get_msec hw h of (t, h1) \<Rightarrow> do {
        (got, h2) \<leftarrow> getc_loop n hw (t + timeout_ms) h1;
        if got then (case GET32 hw ADD_AUX_MU_IO_REG h2 of (v, h3) \<Rightarrow> Some (Some (ucast (v AND 0xFF)), h3))
        else Some (None, h2)
      })"

fun wait_till_deadline :: "nat \<Rightarrow> hardware \<Rightarrow> u32 \<Rightarrow> history \<Rightarrow> history option" where
  "wait_till_deadline 0 hw deadline h = None"
| "wait_till_deadline (Suc n) hw deadline h =
     (case rd hw CycleCounter h of (t, h1) \<Rightarrow> if t < deadline then wait_till_deadline n hw deadline h1 else Some h1)"

text \<open>\<open>cycle_cnt_init\<close> starts the counter.\<close>

definition delay_cycles :: "nat \<Rightarrow> hardware \<Rightarrow> u32 \<Rightarrow> history \<Rightarrow> history option" where
  "delay_cycles n hw cycles h =
     (case rd hw CycleCounter (Wr CycleCounter 1 # h) of (start, h1) \<Rightarrow> wait_till_deadline n hw (start + cycles) h1)"

definition delay_ms :: "nat \<Rightarrow> hardware \<Rightarrow> u32 \<Rightarrow> history \<Rightarrow> history option" where
  "delay_ms n hw ms h =
     (case rd hw CycleCounter (Wr CycleCounter 1 # h) of (start, h1) \<Rightarrow>
        let cycles_to_wait = ms * 700000 in wait_till_deadline n hw (start + cycles_to_wait) h1)"

definition PTR_TIMER_LOAD :: u32 where "PTR_TIMER_LOAD = MMIO_BASE + 0xB400"
definition PTR_TIMER_CONTROL :: u32 where "PTR_TIMER_CONTROL = MMIO_BASE + 0xB408"

definition enable_timer :: "u32 \<Rightarrow> u32 \<Rightarrow> history \<Rightarrow> history" where
  "enable_timer intv pre h =
     (let h1 = PUT32 PTR_TIMER_LOAD intv h;
          ctrl = 0;
          ctrl1 = ctrl OR push_bit 7 1;
          ctrl2 = ctrl1 OR push_bit 5 1;
          ctrl3 = ctrl2 OR push_bit 2 pre;
          ctrl4 = ctrl3 OR push_bit 1 1
      in PUT32 PTR_TIMER_CONTROL ctrl4 h1)"

definition disable_timer :: "hardware \<Rightarrow> history \<Rightarrow> history" where
  "disable_timer hw h = (case GET32 hw PTR_TIMER_CONTROL h of (ctrl, h1) \<Rightarrow>
     PUT32 PTR_TIMER_CONTROL (ctrl AND NOT (push_bit 7 1)) h1)"

end
