(* ===== verification/EmmcHost.thy ===== *)
theory EmmcHost
  imports Device Emmc
begin

text \<open>
  The register level of lib/src/emmc.c: the commands on the host controller, the transfer of blocks through its data
  port, the clock, the mailbox request for the base clock, and the identification of the card up to its
  initialised state. The controller and the card are hardware: a function of the history of register accesses
  (\<open>Device\<close>). What the firmware leaves in the message buffer is an argument too. Waiting is an event of
  the history, and the two loops without a bound of their own take one, \<open>None\<close> when it runs out; \<open>None\<close> is also a
  transfer past the end of its buffer. Messages are not printed here, but what they read of the controller is read.
\<close>

section \<open>Registers\<close>

definition EMMC_BASE :: u32 where "EMMC_BASE = MMIO_BASE + 0x00300000"

definition block_size_count_reg :: u32 where "block_size_count_reg = EMMC_BASE + 0x04"
definition arg1_reg :: u32 where "arg1_reg = EMMC_BASE + 0x08"
definition cmd_xfer_mode_reg :: u32 where "cmd_xfer_mode_reg = EMMC_BASE + 0x0C"
definition response_reg :: "nat \<Rightarrow> u32" where "response_reg i = EMMC_BASE + 0x10 + 4 * of_nat i"
definition data_reg :: u32 where "data_reg = EMMC_BASE + 0x20"
definition status_reg :: u32 where "status_reg = EMMC_BASE + 0x24"
definition control0_reg :: u32 where "control0_reg = EMMC_BASE + 0x28"
definition control1_reg :: u32 where "control1_reg = EMMC_BASE + 0x2C"
definition int_flags_reg :: u32 where "int_flags_reg = EMMC_BASE + 0x30"
definition int_mask_reg :: u32 where "int_mask_reg = EMMC_BASE + 0x34"
definition int_enable_reg :: u32 where "int_enable_reg = EMMC_BASE + 0x38"
definition control2_reg :: u32 where "control2_reg = EMMC_BASE + 0x3C"

definition EMMC_CTRL1_RESET_DATA :: u32 where "EMMC_CTRL1_RESET_DATA = push_bit 26 1"
definition EMMC_CTRL1_RESET_CMD :: u32 where "EMMC_CTRL1_RESET_CMD = push_bit 25 1"
definition EMMC_CTRL1_RESET_HOST :: u32 where "EMMC_CTRL1_RESET_HOST = push_bit 24 1"
definition EMMC_CTRL1_RESET_ALL :: u32 where
  "EMMC_CTRL1_RESET_ALL = EMMC_CTRL1_RESET_DATA OR EMMC_CTRL1_RESET_CMD OR EMMC_CTRL1_RESET_HOST"
definition EMMC_CTRL1_CLK_ENABLE :: u32 where "EMMC_CTRL1_CLK_ENABLE = push_bit 2 1"
definition EMMC_CTRL1_CLK_STABLE :: u32 where "EMMC_CTRL1_CLK_STABLE = push_bit 1 1"
definition EMMC_CTRL1_CLK_INT_EN :: u32 where "EMMC_CTRL1_CLK_INT_EN = push_bit 0 1"
definition EMMC_STATUS_DAT_INHIBIT :: u32 where "EMMC_STATUS_DAT_INHIBIT = push_bit 1 1"
definition EMMC_STATUS_CMD_INHIBIT :: u32 where "EMMC_STATUS_CMD_INHIBIT = push_bit 0 1"

definition SD_CLOCK_ID :: u32 where "SD_CLOCK_ID = 400000"
definition SD_CLOCK_HIGH :: u32 where "SD_CLOCK_HIGH = 50000000"

definition CTGoIdle :: u32 where "CTGoIdle = 0"
definition CTSendCide :: u32 where "CTSendCide = 2"
definition CTSendRelativeAddr :: u32 where "CTSendRelativeAddr = 3"
definition CTIOSetOpCond :: u32 where "CTIOSetOpCond = 5"
definition CTSelectCard :: u32 where "CTSelectCard = 7"
definition CTSendIfCond :: u32 where "CTSendIfCond = 8"
definition CTSetBlockLen :: u32 where "CTSetBlockLen = 16"
definition CTOcrCheck :: u32 where "CTOcrCheck = 41"
definition CTSendSCR :: u32 where "CTSendSCR = 51"
definition CTApp :: u32 where "CTApp = 55"

definition SDECommandTimeout :: nat where "SDECommandTimeout = 0"

section \<open>The device\<close>

text \<open>\<open>buffer\<close> is the bytes \<open>device.buffer\<close> points at: those of the caller, or the eight of the configuration register
  while that is read. \<open>devices\<close> are the names in the table of block devices.\<close>

record sd_device =
  last_success :: bool
  transfer_blocks :: u32
  last_command :: emmc_cmd
  last_command_value :: u32
  block_size :: u32
  last_response :: "u32 list"
  sdhc :: bool
  ocr :: u16
  rca :: u32
  offset64 :: u64
  buffer :: "u8 list"
  base_clock :: u32
  last_error :: u32
  last_interrupt :: u32
  scr :: "u8 list"
  scr_version :: u32
  property_data :: "u32 list"
  devices :: "string option list"
  hist :: history

definition emmc_rd :: "hardware \<Rightarrow> u32 \<Rightarrow> sd_device \<Rightarrow> u32 \<times> sd_device" where
  "emmc_rd hw r d = (case GET32 hw r (hist d) of (v, h) \<Rightarrow> (v, d\<lparr>hist := h\<rparr>))"

definition emmc_wr :: "u32 \<Rightarrow> u32 \<Rightarrow> sd_device \<Rightarrow> sd_device" where
  "emmc_wr r v d = d\<lparr>hist := PUT32 r v (hist d)\<rparr>"

definition emmc_delay :: "nat \<Rightarrow> sd_device \<Rightarrow> sd_device" where
  "emmc_delay ms d = d\<lparr>hist := Wait ms # hist d\<rparr>"

section \<open>The table of block devices\<close>

fun first_free :: "string option list \<Rightarrow> string \<Rightarrow> string option list option" where
  "first_free [] name = None"
| "first_free (x # xs) name = (if x = None then Some (Some name # xs) else map_option ((#) x) (first_free xs name))"

definition io_device_register :: "string \<Rightarrow> sd_device \<Rightarrow> bool \<times> sd_device" where
  "io_device_register name d = (case first_free (devices d) name of
     Some ds \<Rightarrow> (True, d\<lparr>devices := ds\<rparr>) | None \<Rightarrow> (False, d))"

text \<open>An empty slot before the name is reached is a null pointer followed.\<close>

fun find_device :: "string option list \<Rightarrow> string \<Rightarrow> string option option" where
  "find_device [] name = Some None"
| "find_device (None # xs) name = None"
| "find_device (Some x # xs) name = (if x = name then Some (Some x) else find_device xs name)"

definition io_device_find :: "string \<Rightarrow> sd_device \<Rightarrow> string option option" where
  "io_device_find name d = find_device (devices d) name"

section \<open>The mailbox\<close>

definition MBX :: u32 where "MBX = MMIO_BASE + 0xB880"
definition MAIL_EMPTY :: u32 where "MAIL_EMPTY = 0x40000000"
definition MAIL_FULL :: u32 where "MAIL_FULL = 0x80000000"
definition MAIL_TAGS :: u32 where "MAIL_TAGS = 8"
definition RPI_FIRMWARE_GET_CLOCK_RATE :: u32 where "RPI_FIRMWARE_GET_CLOCK_RATE = 0x00030002"
definition RPI_FIRMWARE_GET_DOMAIN_STATE :: u32 where "RPI_FIRMWARE_GET_DOMAIN_STATE = 0x00030030"
definition CT_EMMC :: u32 where "CT_EMMC = 1"

definition mailbox_write :: "nat \<Rightarrow> hardware \<Rightarrow> u32 \<Rightarrow> u32 \<Rightarrow> sd_device \<Rightarrow> sd_device option" where
  "mailbox_write n hw channel data d = do {
     (_, h) \<leftarrow> spin n hw (MBX + 0x18) (\<lambda>v. v AND MAIL_FULL = 0) (hist d);
     Some (emmc_wr (MBX + 0x20) ((data AND 0xFFFFFFF0) OR (channel AND 0xF)) (d\<lparr>hist := h\<rparr>))
   }"

fun mailbox_read :: "nat \<Rightarrow> hardware \<Rightarrow> u32 \<Rightarrow> sd_device \<Rightarrow> (u32 \<times> sd_device) option" where
  "mailbox_read 0 hw channel d = None"
| "mailbox_read (Suc n) hw channel d = do {
     (_, h) \<leftarrow> spin (Suc n) hw (MBX + 0x18) (\<lambda>v. v AND MAIL_EMPTY = 0) (hist d);
     case emmc_rd hw MBX (d\<lparr>hist := h\<rparr>) of (data, d1) \<Rightarrow>
       if data AND 0xF = channel then Some (data AND 0xFFFFFFF0, d1) else mailbox_read n hw channel d1
   }"

text \<open>A tag is its words (one the code leaves uninitialised is 0); \<open>fw\<close> gives the message buffer as the firmware leaves it, \<open>at\<close> is the address of the buffer.\<close>

definition mailbox_process :: "nat \<Rightarrow> hardware \<Rightarrow> (u32 list \<Rightarrow> u32 list) \<Rightarrow> u32 \<Rightarrow> u32 list \<Rightarrow> sd_device
    \<Rightarrow> (u32 list \<times> sd_device) option" where
  "mailbox_process n hw fw at tag d =
     (let tag_size = 4 * of_nat (length tag) :: u32;
          pd1 = blit (property_data d) 2 tag;
          pd2 = pd1[0 := tag_size + 12, 1 := 0];
          pd3 = pd2[unat (math_div (tag_size + 12) 4 - 1) := 0]
      in if 8192 < length tag + 3 then None
         else do {
           d1 \<leftarrow> mailbox_write n hw MAIL_TAGS at (d\<lparr>property_data := pd3\<rparr>);
           (_, d2) \<leftarrow> mailbox_read n hw MAIL_TAGS (emmc_delay 100 d1);
           let pd4 = fw (property_data d2);
           Some (slice pd4 2 (length tag), d2\<lparr>property_data := pd4\<rparr>)
         })"

definition mailbox_generic_command :: "nat \<Rightarrow> hardware \<Rightarrow> (u32 list \<Rightarrow> u32 list) \<Rightarrow> u32 \<Rightarrow> u32 \<Rightarrow> u32 \<Rightarrow> u32 \<Rightarrow> sd_device
    \<Rightarrow> (u32 \<times> sd_device) option" where
  "mailbox_generic_command n hw fw at tag_id ident value d = do {
     (tag, d1) \<leftarrow> mailbox_process n hw fw at [tag_id, 8, 0, ident, value] d;
     Some (tag ! 4, d1)
   }"

definition mailbox_clock_rate :: "nat \<Rightarrow> hardware \<Rightarrow> (u32 list \<Rightarrow> u32 list) \<Rightarrow> u32 \<Rightarrow> u32 \<Rightarrow> sd_device
    \<Rightarrow> (u32 \<times> sd_device) option" where
  "mailbox_clock_rate n hw fw at ct d = do {
     (tag, d1) \<leftarrow> mailbox_process n hw fw at [RPI_FIRMWARE_GET_CLOCK_RATE, 8, 0, ct, 0] d;
     Some (tag ! 4, d1)
   }"

definition mailbox_power_check :: "nat \<Rightarrow> hardware \<Rightarrow> (u32 list \<Rightarrow> u32 list) \<Rightarrow> u32 \<Rightarrow> u32 \<Rightarrow> sd_device
    \<Rightarrow> (bool \<times> sd_device) option" where
  "mailbox_power_check n hw fw at type d = do {
     (tag, d1) \<leftarrow> mailbox_process n hw fw at [RPI_FIRMWARE_GET_DOMAIN_STATE, 8, 0, type, - 1] d;
     Some (tag ! 4 \<noteq> 0 \<and> tag ! 4 \<noteq> - 1, d1)
   }"

section \<open>Commands\<close>

fun wait_loop :: "nat \<Rightarrow> hardware \<Rightarrow> u32 \<Rightarrow> u32 \<Rightarrow> bool \<Rightarrow> sd_device \<Rightarrow> bool \<times> sd_device" where
  "wait_loop 0 hw r msk wanted d = (False, d)"
| "wait_loop (Suc n) hw r msk wanted d = (case emmc_rd hw r d of (v, d1) \<Rightarrow>
     if (if v AND msk \<noteq> 0 then wanted else \<not> wanted) then (True, d1) else wait_loop n hw r msk wanted (emmc_delay 1 d1))"

definition wait_reg_mask :: "hardware \<Rightarrow> u32 \<Rightarrow> u32 \<Rightarrow> bool \<Rightarrow> nat \<Rightarrow> sd_device \<Rightarrow> bool \<times> sd_device" where
  "wait_reg_mask hw r msk wanted timeout d = wait_loop (Suc timeout) hw r msk wanted d"

definition EMMC_MAX_RESET_ATTEMPTS :: nat where "EMMC_MAX_RESET_ATTEMPTS = 1000"

fun reset_spin :: "nat \<Rightarrow> hardware \<Rightarrow> u32 \<Rightarrow> sd_device \<Rightarrow> sd_device" where
  "reset_spin 0 hw b d = d"
| "reset_spin (Suc n) hw b d = (case emmc_rd hw control2_reg d of (v, d1) \<Rightarrow>
     if v AND b = 0 then d1 else if n = 0 then emmc_delay 1 d1 else reset_spin n hw b d1)"

definition reset_line :: "hardware \<Rightarrow> u32 \<Rightarrow> sd_device \<Rightarrow> sd_device" where
  "reset_line hw b d = (case emmc_rd hw control2_reg d of (v, d1) \<Rightarrow>
     reset_spin (Suc EMMC_MAX_RESET_ATTEMPTS) hw b (emmc_wr control2_reg (v OR b) d1))"

definition emmc_host_reset_cmd_dat :: "hardware \<Rightarrow> sd_device \<Rightarrow> sd_device" where
  "emmc_host_reset_cmd_dat hw d =
     (let d1 = emmc_wr int_flags_reg 0xFFFFFFFF d;
          d2 = reset_line hw (push_bit 1 1) d1;
          d3 = reset_line hw (push_bit 2 1) d2
      in emmc_wr int_flags_reg 0xFFFFFFFF d3)"

definition sd_error_mask :: "nat \<Rightarrow> u32" where
  "sd_error_mask err = push_bit (16 + err) 1"

definition set_last_error :: "u32 \<Rightarrow> sd_device \<Rightarrow> sd_device" where
  "set_last_error intr_val d = d\<lparr>last_error := intr_val AND 0xFFFF0000, last_interrupt := intr_val\<rparr>"

text \<open>The words of one block: \<open>len\<close> bytes are left, \<open>p\<close> is the place in the buffer.\<close>

function write_words :: "hardware \<Rightarrow> u32 \<Rightarrow> nat \<Rightarrow> sd_device \<Rightarrow> sd_device option" where
  "write_words hw len p d =
     (if len = 0 then Some d
      else if p + 4 > length (buffer d) then None
      else write_words hw (len - 4) (p + 4) (emmc_wr data_reg (read_u32 (buffer d) p) d))"
  by pat_completeness auto
termination by (relation "measure (\<lambda>(hw, len, p, d). length (buffer d) - p)") (auto simp: emmc_wr_def)

function read_words :: "hardware \<Rightarrow> u32 \<Rightarrow> nat \<Rightarrow> sd_device \<Rightarrow> sd_device option" where
  "read_words hw len p d =
     (if len = 0 then Some d
      else if p + 4 > length (buffer d) then None
      else read_words hw (len - 4) (p + 4)
        ((snd (emmc_rd hw data_reg d))\<lparr>buffer := write_u32 (buffer d) p (fst (emmc_rd hw data_reg d))\<rparr>))"
  by pat_completeness auto
termination by (relation "measure (\<lambda>(hw, len, p, d). length (buffer d) - p)") auto

declare write_words.simps [simp del] read_words.simps [simp del]

fun data_blocks :: "hardware \<Rightarrow> u32 \<Rightarrow> bool \<Rightarrow> nat \<Rightarrow> nat \<Rightarrow> sd_device \<Rightarrow> (bool \<times> sd_device) option" where
  "data_blocks hw wrIrpt write 0 p d = Some (True, d)"
| "data_blocks hw wrIrpt write (Suc n) p d =
     (case wait_reg_mask hw int_flags_reg (wrIrpt OR 0x8000) True 20000 d of (_, d1) \<Rightarrow>
      case emmc_rd hw int_flags_reg d1 of (intr_val, d2) \<Rightarrow>
      let d3 = emmc_wr int_flags_reg (wrIrpt OR 0x8000) d2
      in if intr_val AND (0xFFFF0000 OR wrIrpt) \<noteq> wrIrpt then Some (False, set_last_error intr_val d3)
         else do {
           d4 \<leftarrow> (if write then write_words hw (block_size d3) p d3 else read_words hw (block_size d3) p d3);
           data_blocks hw wrIrpt write n (p + unat (block_size d3)) d4
         })"

definition do_data_transfer :: "hardware \<Rightarrow> emmc_cmd \<Rightarrow> sd_device \<Rightarrow> (bool \<times> sd_device) option" where
  "do_data_transfer hw cmd d =
     (let (wrIrpt, write) = (if direction cmd \<noteq> 0 then (push_bit 5 1, False) else (push_bit 4 1, True))
      in data_blocks hw wrIrpt write (unat (transfer_blocks d)) 0 d)"

text \<open>Waiting for the inhibit bits to clear: 2001 reads at most.\<close>

fun inhibit_loop :: "nat \<Rightarrow> hardware \<Rightarrow> sd_device \<Rightarrow> bool \<times> sd_device" where
  "inhibit_loop 0 hw d = (False, d)"
| "inhibit_loop (Suc n) hw d = (case emmc_rd hw status_reg d of (v, d1) \<Rightarrow>
     if v AND 3 = 0 then (True, d1)
     else let d2 = emmc_delay 1 d1 in if n = 0 then (False, d2) else inhibit_loop n hw d2)"

fun done_loop :: "nat \<Rightarrow> hardware \<Rightarrow> sd_device \<Rightarrow> bool \<times> sd_device" where
  "done_loop 0 hw d = (False, d)"
| "done_loop (Suc n) hw d = (case emmc_rd hw int_flags_reg d of (v, d1) \<Rightarrow>
     if v AND 0x8001 \<noteq> 0 then (True, d1) else done_loop n hw (emmc_delay 1 d1))"

definition read_response :: "hardware \<Rightarrow> nat \<Rightarrow> sd_device \<Rightarrow> sd_device" where
  "read_response hw i d = (case emmc_rd hw (response_reg i) d of (v, d1) \<Rightarrow> d1\<lparr>last_response := (last_response d1)[i := v]\<rparr>)"

definition read_responses :: "hardware \<Rightarrow> emmc_cmd \<Rightarrow> sd_device \<Rightarrow> sd_device" where
  "read_responses hw cmd d =
     (if response_type cmd = RT48 \<or> response_type cmd = RT48Busy then read_response hw 0 d
      else if response_type cmd = RT136
      then read_response hw 3 (read_response hw 2 (read_response hw 1 (read_response hw 0 d)))
      else d)"

text \<open>The end of a command with data or a busy card.\<close>

definition finish_transfer :: "hardware \<Rightarrow> sd_device \<Rightarrow> bool \<times> sd_device" where
  "finish_transfer hw d =
     (case wait_reg_mask hw int_flags_reg 0x8002 True 2000 d of (_, d1) \<Rightarrow>
      case emmc_rd hw int_flags_reg d1 of (intr_val, d2) \<Rightarrow>
      let d3 = emmc_wr int_flags_reg 0xFFFF0002 d2
      in if intr_val AND 0xFFFF0002 \<noteq> 2 \<and> intr_val AND 0xFFFF0002 \<noteq> 0x100002
         then (False, set_last_error intr_val d3)
         else (True, emmc_wr int_flags_reg 0xFFFF0002 d3))"

text \<open>The rest of a command after it was issued.\<close>

definition after_issue :: "hardware \<Rightarrow> emmc_cmd \<Rightarrow> nat \<Rightarrow> sd_device \<Rightarrow> (bool \<times> sd_device) option" where
  "after_issue hw cmd timeout d4 =
     (case done_loop timeout hw (emmc_delay 2 d4) of (finished, d5) \<Rightarrow>
       if \<not> finished then Some (False, d5\<lparr>last_success := False\<rparr>)
       else case emmc_rd hw int_flags_reg d5 of (intr_val, d6) \<Rightarrow>
         let d7 = emmc_wr int_flags_reg 0xFFFF0001 d6
         in if intr_val AND 0xFFFF0001 \<noteq> 1 then Some (False, (set_last_error intr_val d7)\<lparr>last_success := False\<rparr>)
            else do {
              (_, d8) \<leftarrow> (if is_data cmd \<noteq> 0 then do_data_transfer hw cmd (read_responses hw cmd d7)
                        else Some (True, read_responses hw cmd d7));
              let (ok, d9) = (if response_type cmd = RT48Busy \<or> is_data cmd \<noteq> 0 then finish_transfer hw d8 else (True, d8));
              Some (if ok then (True, d9\<lparr>last_success := True\<rparr>) else (False, d9))
            })"

definition issue_command :: "hardware \<Rightarrow> emmc_cmd \<Rightarrow> u32 \<Rightarrow> nat \<Rightarrow> sd_device \<Rightarrow> (bool \<times> sd_device) option" where
  "issue_command hw cmd arg timeout d0 =
     (let d = d0\<lparr>last_command_value := TO_REG cmd\<rparr>
      in if 0xFFFF < transfer_blocks d then Some (False, d)
         else case inhibit_loop 2001 hw d of (ready, d1) \<Rightarrow>
           if \<not> ready then Some (False, emmc_host_reset_cmd_dat hw (snd (emmc_rd hw status_reg d1)))
           else let d2 = emmc_wr block_size_count_reg (block_size d1 OR push_bit 16 (transfer_blocks d1)) d1;
                    d3 = emmc_wr arg1_reg arg d2;
                    d4 = emmc_wr cmd_xfer_mode_reg (last_command_value d3) d3
             in after_issue hw cmd timeout d4)"

text \<open>An index past the table has no value.\<close>

definition command_at :: "u32 \<Rightarrow> emmc_cmd option" where
  "command_at command = (if unat command < length commands then Some (commands ! unat command) else None)"

definition host_command :: "hardware \<Rightarrow> u32 \<Rightarrow> u32 \<Rightarrow> nat \<Rightarrow> sd_device \<Rightarrow> (bool \<times> sd_device) option" where
  "host_command hw command arg timeout d =
     (if command AND 0x80000000 \<noteq> 0 then Some (False, d)
      else do {
        c \<leftarrow> command_at command;
        let d1 = d\<lparr>last_command := c\<rparr>;
        if TO_REG c = TO_REG RES_CMD then Some (False, d1) else issue_command hw c arg timeout d1
      })"

fun reset_command_loop :: "nat \<Rightarrow> hardware \<Rightarrow> sd_device \<Rightarrow> bool \<times> sd_device" where
  "reset_command_loop 0 hw d = (False, snd (emmc_rd hw control1_reg d))"
| "reset_command_loop (Suc n) hw d = (case emmc_rd hw control1_reg d of (v, d1) \<Rightarrow>
     if v AND EMMC_CTRL1_RESET_CMD = 0 then (True, d1) else reset_command_loop n hw (emmc_delay 1 d1))"

definition reset_command :: "hardware \<Rightarrow> sd_device \<Rightarrow> bool \<times> sd_device" where
  "reset_command hw d = (case emmc_rd hw control1_reg d of (v, d1) \<Rightarrow>
     reset_command_loop 10000 hw (emmc_wr control1_reg (v OR EMMC_CTRL1_RESET_CMD) d1))"

definition emmc_app_command :: "hardware \<Rightarrow> u32 \<Rightarrow> u32 \<Rightarrow> nat \<Rightarrow> sd_device \<Rightarrow> (bool \<times> sd_device) option" where
  "emmc_app_command hw command arg timeout d = do {
     c \<leftarrow> command_at command;
     if cmd_index c \<ge> 60 then Some (False, d)
     else do {
       app \<leftarrow> command_at CTApp;
       let d1 = d\<lparr>last_command := app\<rparr>;
       let rca_arg = (if rca d1 \<noteq> 0 then push_bit 16 (rca d1) else 0);
       (ok, d2) \<leftarrow> issue_command hw app rca_arg 2000 d1;
       if ok then issue_command hw c arg 2000 (d2\<lparr>last_command := c\<rparr>) else Some (False, d2)
     }
   }"

section \<open>The clock\<close>

text \<open>The search for the highest bit, and whether bits are left below it.\<close>

fun find_div :: "nat \<Rightarrow> u32 \<Rightarrow> int" where
  "find_div 0 target_div = - 1"
| "find_div (Suc fb) target_div =
     (let bt = push_bit fb 1
      in if target_div AND bt \<noteq> 0 then (if target_div AND NOT bt \<noteq> 0 then int fb + 1 else int fb)
         else find_div fb target_div)"

definition get_clock_divider :: "u32 \<Rightarrow> u32 \<Rightarrow> u32" where
  "get_clock_divider clock target_rate =
     (let target_div = (if target_rate \<le> clock
                        then (if math_mod clock target_rate \<noteq> 0 then 0 else math_div clock target_rate) else 1);
          div1 = find_div 32 target_div;
          div2 = (if div1 = - 1 then 31 else div1);
          div3 = (if div2 \<ge> 32 then 31 else div2);
          div4 = (if div3 \<noteq> 0 then 2 ^ nat (div3 - 1) else div3);
          div5 = (if div4 \<ge> 0x400 then 0x3FF else div4);
          freqSel = (word_of_int div5 :: u32) AND 0xFF;
          upper = drop_bit 8 (word_of_int div5 :: u32) AND 3
      in push_bit 8 freqSel OR push_bit 6 upper OR push_bit 5 0)"

fun inhibit_clear :: "nat \<Rightarrow> hardware \<Rightarrow> sd_device \<Rightarrow> sd_device option" where
  "inhibit_clear 0 hw d = None"
| "inhibit_clear (Suc n) hw d = (case emmc_rd hw status_reg d of (v, d1) \<Rightarrow>
     if v AND (EMMC_STATUS_CMD_INHIBIT OR EMMC_STATUS_DAT_INHIBIT) = 0 then Some d1
     else inhibit_clear n hw (emmc_delay 1 d1))"

definition switch_clock_rate :: "nat \<Rightarrow> hardware \<Rightarrow> u32 \<Rightarrow> u32 \<Rightarrow> sd_device \<Rightarrow> (bool \<times> sd_device) option" where
  "switch_clock_rate n hw clock target_rate d =
     (let divider = get_clock_divider clock target_rate
      in do {
        d1 \<leftarrow> inhibit_clear n hw d;
        case emmc_rd hw control1_reg d1 of (v, d2) \<Rightarrow>
          let c1 = v AND NOT EMMC_CTRL1_CLK_ENABLE;
              d3 = emmc_delay 3 (emmc_wr control1_reg c1 d2);
              c2 = c1 AND NOT 0xFFC0;
              d4 = emmc_delay 3 (emmc_wr control1_reg (c2 OR divider) d3);
              d5 = emmc_delay 3 (emmc_wr control1_reg ((c2 OR divider) OR EMMC_CTRL1_CLK_ENABLE) d4)
          in Some (True, d5)
      })"

definition emmc_setup_clock :: "nat \<Rightarrow> hardware \<Rightarrow> (u32 list \<Rightarrow> u32 list) \<Rightarrow> u32 \<Rightarrow> sd_device \<Rightarrow> (bool \<times> sd_device) option" where
  "emmc_setup_clock n hw fw at d = do {
     (rate, d1) \<leftarrow> mailbox_clock_rate n hw fw at CT_EMMC (emmc_wr control2_reg 0 d);
     case emmc_rd hw control1_reg (d1\<lparr>base_clock := rate\<rparr>) of (v, d2) \<Rightarrow>
       let n1 = v OR EMMC_CTRL1_CLK_INT_EN;
           n2 = n1 OR get_clock_divider rate SD_CLOCK_ID;
           n3 = n2 AND NOT (push_bit 16 0xF);
           n4 = n3 OR push_bit 16 11
       in case wait_reg_mask hw control1_reg EMMC_CTRL1_CLK_STABLE True 2000 (emmc_wr control1_reg n4 d2) of (settled, d3) \<Rightarrow>
         if \<not> settled then Some (False, snd (emmc_rd hw control1_reg d3))
         else case emmc_rd hw control1_reg (emmc_delay 30 d3) of (w, d4) \<Rightarrow>
           Some (True, emmc_delay 30 (emmc_wr control1_reg (w OR 4) d4))
   }"

section \<open>Identifying the card\<close>

abbreviation resp0 :: "sd_device \<Rightarrow> u32" where
  "resp0 d \<equiv> last_response d ! 0"

definition check_v2_card :: "hardware \<Rightarrow> sd_device \<Rightarrow> (bool \<times> sd_device) option" where
  "check_v2_card hw d = do {
     (ok, d1) \<leftarrow> host_command hw CTSendIfCond 0x1AA 200 d;
     Some (if \<not> ok then
             (if last_error d1 = 0 then (False, d1)
              else if last_error d1 AND push_bit 16 1 \<noteq> 0
              then (case reset_command hw d1 of (r, d2) \<Rightarrow>
                if \<not> r then (False, d2) else (False, emmc_wr int_flags_reg (sd_error_mask SDECommandTimeout) d2))
              else (False, d1))
           else if resp0 d1 AND 0xFFF \<noteq> 0x1AA then (False, d1)
           else (True, d1))
   }"

definition check_usable_card :: "hardware \<Rightarrow> sd_device \<Rightarrow> (bool \<times> sd_device) option" where
  "check_usable_card hw d = do {
     (ok, d1) \<leftarrow> host_command hw CTIOSetOpCond 0 1000 d;
     Some (if \<not> ok then
             (if last_error d1 = 0 then (True, d1)
              else if last_error d1 AND push_bit 16 1 \<noteq> 0
              then (case reset_command hw d1 of (r, d2) \<Rightarrow>
                if \<not> r then (False, d2) else (True, emmc_wr int_flags_reg (sd_error_mask SDECommandTimeout) d2))
              else (False, d1))
           else (True, d1))
   }"

fun check_sdhc_support :: "nat \<Rightarrow> hardware \<Rightarrow> bool \<Rightarrow> sd_device \<Rightarrow> (bool \<times> sd_device) option" where
  "check_sdhc_support 0 hw v2_card d = None"
| "check_sdhc_support (Suc n) hw v2_card d = do {
     let v2_flags = (if v2_card then push_bit 30 1 else 0);
     (ok, d1) \<leftarrow> emmc_app_command hw CTOcrCheck (0x00FF8000 OR v2_flags) 2000 d;
     if \<not> ok then Some (False, d1)
     else if drop_bit 31 (resp0 d1) AND 1 \<noteq> 0
     then Some (True, d1\<lparr>ocr := ucast (drop_bit 8 (resp0 d1) AND 0xFFFF), sdhc := drop_bit 30 (resp0 d1) AND 1 \<noteq> 0\<rparr>)
     else check_sdhc_support n hw v2_card (emmc_delay 500 d1)
   }"

text \<open>The loop of five attempts leaves in its first round, one way or the other.\<close>

definition check_ocr :: "hardware \<Rightarrow> sd_device \<Rightarrow> (bool \<times> sd_device) option" where
  "check_ocr hw d = do {
     (passed, d1) \<leftarrow> emmc_app_command hw CTOcrCheck 0 2000 d;
     if passed then Some (True, d1\<lparr>ocr := ucast (drop_bit 8 (resp0 d1) AND 0xFFFF)\<rparr>) else Some (False, d1)
   }"

definition check_rca :: "hardware \<Rightarrow> sd_device \<Rightarrow> (bool \<times> sd_device) option" where
  "check_rca hw d = do {
     (ok, d1) \<leftarrow> host_command hw CTSendCide 0 2000 d;
     if \<not> ok then Some (False, d1)
     else do {
       (ok2, d2) \<leftarrow> host_command hw CTSendRelativeAddr 0 2000 d1;
       if \<not> ok2 then Some (False, d2)
       else let d3 = d2\<lparr>rca := drop_bit 16 (resp0 d2) AND 0xFFFF\<rparr>
         in if drop_bit 8 (resp0 d3) AND 1 = 0 then Some (False, d3) else Some (True, d3)
     }
   }"

definition select_card :: "hardware \<Rightarrow> sd_device \<Rightarrow> (bool \<times> sd_device) option" where
  "select_card hw d = do {
     (ok, d1) \<leftarrow> host_command hw CTSelectCard (push_bit 16 (rca d)) 2000 d;
     if \<not> ok then Some (False, d1)
     else let status = drop_bit 9 (resp0 d1) AND 0xF
       in if status \<noteq> 3 \<and> status \<noteq> 4 then Some (False, d1) else Some (True, d1)
   }"

definition BSWAP32 :: "u32 \<Rightarrow> u32" where
  "BSWAP32 x = (push_bit 24 x AND 0xFF000000) OR (push_bit 8 x AND 0x00FF0000)
     OR (drop_bit 8 x AND 0x0000FF00) OR (drop_bit 24 x AND 0x000000FF)"

definition version_of :: "u32 \<Rightarrow> u32" where
  "version_of scr0 =
     (let spec = drop_bit 24 scr0 AND 0xF; spec3 = drop_bit 15 scr0 AND 1; spec4 = drop_bit 10 scr0 AND 1
      in if spec = 0 then 1 else if spec = 1 then 11
         else if spec = 2 then (if spec3 = 0 then 2
                                else if spec3 = 1 then (if spec4 = 0 then 3 else if spec4 = 1 then 4 else 0xFFFFFFFF)
                                else 0xFFFFFFFF)
         else 0xFFFFFFFF)"

text \<open>\<open>device.buffer\<close> points at the configuration register while it is read, so what lands in the buffer is the register.\<close>

definition set_scr :: "hardware \<Rightarrow> sd_device \<Rightarrow> (bool \<times> sd_device) option" where
  "set_scr hw d = do {
     (ok, d1) \<leftarrow> (if \<not> sdhc d then host_command hw CTSetBlockLen 512 2000 d else Some (True, d));
     if \<not> ok then Some (False, d1)
     else case emmc_rd hw block_size_count_reg d1 of (bsc, d2) \<Rightarrow>
       let d3 = emmc_wr block_size_count_reg ((bsc AND NOT 0xFFF) OR 0x200) d2;
           d4 = d3\<lparr>buffer := scr d3, block_size := 8, transfer_blocks := 1\<rparr>
       in do {
         (ok2, d5) \<leftarrow> emmc_app_command hw CTSendSCR 0 30000 d4;
         let d6 = d5\<lparr>scr := buffer d5\<rparr>;
         if \<not> ok2 then Some (False, d6)
         else let d7 = d6\<lparr>block_size := 512\<rparr>; scr0 = BSWAP32 (read_u32 (scr d7) 0)
           in Some (True, d7\<lparr>scr_version := version_of scr0\<rparr>)
       }
   }"

definition then_check :: "(sd_device \<Rightarrow> (bool \<times> sd_device) option) \<Rightarrow> bool \<times> sd_device \<Rightarrow> (bool \<times> sd_device) option" where
  "then_check f r = (if fst r then f (snd r) else Some r)"

text \<open>The two halves of the identification, each ending at its first failing check.\<close>

definition probe_card :: "nat \<Rightarrow> hardware \<Rightarrow> sd_device \<Rightarrow> (bool \<times> sd_device) option" where
  "probe_card n hw d = do {
     (v2_card, d1) \<leftarrow> check_v2_card hw d;
     r2 \<leftarrow> check_usable_card hw d1;
     r3 \<leftarrow> then_check (check_ocr hw) r2;
     then_check (check_sdhc_support n hw v2_card) r3
   }"

definition enter_data_mode :: "nat \<Rightarrow> hardware \<Rightarrow> sd_device \<Rightarrow> (bool \<times> sd_device) option" where
  "enter_data_mode n hw d = do {
     (_, d1) \<leftarrow> switch_clock_rate n hw (base_clock d) SD_CLOCK_HIGH d;
     r2 \<leftarrow> check_rca hw (emmc_delay 10 d1);
     r3 \<leftarrow> then_check (select_card hw) r2;
     r4 \<leftarrow> then_check (set_scr hw) r3;
     then_check (\<lambda>d4. Some (True, emmc_wr int_flags_reg 0xFFFFFFFF d4)) r4
   }"

definition emmc_card_reset :: "nat \<Rightarrow> hardware \<Rightarrow> (u32 list \<Rightarrow> u32 list) \<Rightarrow> u32 \<Rightarrow> sd_device \<Rightarrow> (bool \<times> sd_device) option" where
  "emmc_card_reset n hw fw at d =
     (case wait_reg_mask hw control1_reg EMMC_CTRL1_RESET_ALL False 2000 (emmc_wr control1_reg EMMC_CTRL1_RESET_HOST d) of (idle, d1) \<Rightarrow>
      if \<not> idle then Some (False, d1)
      else do {
        (clocked, d2) \<leftarrow> emmc_setup_clock n hw fw at d1;
        if \<not> clocked then Some (False, d2)
        else let d3 = emmc_wr int_mask_reg 0xFFFFFFFF (emmc_wr int_flags_reg 0xFFFFFFFF (emmc_wr int_enable_reg 0 d2));
                 d4 = (emmc_delay 203 d3)\<lparr>transfer_blocks := 0, last_command_value := 0, last_success := False, block_size := 0\<rparr>
          in do {
            r5 \<leftarrow> host_command hw CTGoIdle 0 2000 d4;
            r6 \<leftarrow> then_check (probe_card n hw) r5;
            then_check (enter_data_mode n hw) r6
          }
      })"

fun reset_tries :: "nat \<Rightarrow> nat \<Rightarrow> hardware \<Rightarrow> (u32 list \<Rightarrow> u32 list) \<Rightarrow> u32 \<Rightarrow> sd_device \<Rightarrow> (bool \<times> sd_device) option" where
  "reset_tries 0 n hw fw at d = Some (False, d)"
| "reset_tries (Suc k) n hw fw at d = do {
     (success, d1) \<leftarrow> emmc_card_reset n hw fw at d;
     if success then Some (True, d1) else reset_tries k n hw fw at (emmc_delay 100 d1)
   }"

fun set_pins :: "hardware \<Rightarrow> (u32 \<times> u32) list \<Rightarrow> sd_device \<Rightarrow> sd_device" where
  "set_pins hw [] d = d"
| "set_pins hw ((pin, func) # ps) d = set_pins hw ps (d\<lparr>hist := gpio_pin_set_func hw pin func (hist d)\<rparr>)"

definition emmc_init :: "nat \<Rightarrow> hardware \<Rightarrow> (u32 list \<Rightarrow> u32 list) \<Rightarrow> u32 \<Rightarrow> sd_device \<Rightarrow> (bool \<times> sd_device) option" where
  "emmc_init n hw fw at d =
     (let d1 = snd (io_device_register ''disk'' d);
          d2 = set_pins hw [(34, GPIO_INPUT), (35, GPIO_INPUT), (36, GPIO_INPUT), (37, GPIO_INPUT), (38, GPIO_INPUT), (39, GPIO_INPUT),
                 (48, GPIO_ALT3), (49, GPIO_ALT3), (50, GPIO_ALT3), (51, GPIO_ALT3), (52, GPIO_ALT3)] d1;
          d3 = d2\<lparr>transfer_blocks := 0, last_command_value := 0, last_success := False, block_size := 0, sdhc := False,
                 ocr := 0, rca := 0, offset64 := 0, base_clock := 0\<rparr>
      in reset_tries 10 n hw fw at d3)"

definition emmc_get_status :: "hardware \<Rightarrow> sd_device \<Rightarrow> u32 \<times> sd_device" where
  "emmc_get_status hw d = emmc_rd hw status_reg d"

definition emmc_get_card_status :: "hardware \<Rightarrow> sd_device \<Rightarrow> (u32 \<times> sd_device) option" where
  "emmc_get_card_status hw d = do {
     (_, d1) \<leftarrow> issue_command hw (commands ! 13) (push_bit 16 (rca d)) 2000 d;
     Some (resp0 d1, d1)
   }"

section \<open>The clock stays below the rate\<close>

lemma find_div_at:
  assumes "2 ^ k \<le> unat t" "unat t < 2 ^ Suc k" "k < fb" "fb \<le> 32"
  shows "find_div fb t = (if unat t = 2 ^ k then int k else int k + 1)"
  using assms
proof (induction fb)
  case (Suc fb)
  have bt: "t AND push_bit fb 1 \<noteq> 0 \<longleftrightarrow> bit t fb" using and_exp_eq_0_iff_not_bit [of t fb] by (simp add: push_bit_eq_mult)
  have odd_div: "bit t fb \<longleftrightarrow> odd (unat t div 2 ^ fb)"
    using bit_unsigned_iff [of t fb, where ?'a = nat] by (simp add: bit_iff_odd [of "unat t"])
  show ?case
  proof (cases "k = fb")
    case True
    have "unat t div 2 ^ fb = 1"
    proof (rule div_nat_eqI)
      show "2 ^ fb * 1 \<le> unat t" using Suc.prems(1) True by simp
      show "unat t < 2 ^ fb * Suc 1" using Suc.prems(2) True by simp
    qed
    then have b: "bit t fb" using odd_div by simp
    have "t AND NOT (push_bit fb 1) = 0 \<longleftrightarrow> unat t = 2 ^ fb"
    proof
      assume z: "t AND NOT (push_bit fb 1) = 0"
      have "t = push_bit fb 1"
      proof (rule bit_word_eqI)
        fix n assume n: "n < LENGTH(32)"
        have "\<not> bit (t AND NOT (push_bit fb 1)) n" using z by simp
        then show "bit t n = bit (push_bit fb (1 :: u32)) n" using b n by (cases "n = fb") (auto simp: bit_simps)
      qed
      then show "unat t = 2 ^ fb" using Suc.prems(4) by (simp add: push_bit_eq_mult unat_two_power)
    next
      assume "unat t = 2 ^ fb"
      then have "t = push_bit fb 1" using Suc.prems(4) by (simp add: u32_eq_nat_iff push_bit_eq_mult unat_two_power)
      then show "t AND NOT (push_bit fb 1) = 0" by simp
    qed
    then show ?thesis using b bt True by (simp add: Let_def)
  next
    case False
    then have k: "k < fb" using Suc.prems(3) by simp
    have "(2 :: nat) ^ Suc k \<le> 2 ^ fb" using k by (intro power_increasing) simp_all
    then have "\<not> bit t fb" using Suc.prems(2) odd_div by simp
    then show ?thesis using bt Suc.IH [OF Suc.prems(1,2) k] Suc.prems(4) by (simp add: Let_def)
  qed
qed simp

lemma find_div_zero: "find_div fb 0 = - 1"
  by (induction fb) simp_all

text \<open>The divisor in bits 15 to 6 of the control register, and the clock the controller derives from it.\<close>

definition divider_of :: "u32 \<Rightarrow> u32" where
  "divider_of r = (drop_bit 8 r AND 0xFF) OR push_bit 8 (drop_bit 6 r AND 3)"

definition sd_clock :: "nat \<Rightarrow> u32 \<Rightarrow> nat" where
  "sd_clock clock r = (let n = unat (divider_of r) in if n = 0 then clock else clock div (2 * n))"

lemma divider_of_encode:
  assumes "unat x \<le> 0x3FF"
  shows "divider_of (push_bit 8 (x AND 0xFF) OR push_bit 6 (drop_bit 8 x AND 3) OR push_bit 5 0) = x"
    "(push_bit 8 (x AND 0xFF) OR push_bit 6 (drop_bit 8 x AND 3) OR push_bit 5 0) AND NOT 0xFFC0 = (0 :: u32)"
proof -
  have m: "(3 :: u32) = mask 2" "(0xFFC0 :: u32) = push_bit 6 (mask 10)" by (simp_all add: mask_eq_exp_minus_1)
  have "x = take_bit 10 x" using assms by (simp add: u32_eq_nat_iff unsigned_take_bit_eq take_bit_nat_eq_self)
  then have hi: "\<not> bit x n" if "10 \<le> n" for n using that by (metis bit_take_bit_iff not_le)
  show "divider_of (push_bit 8 (x AND 0xFF) OR push_bit 6 (drop_bit 8 x AND 3) OR push_bit 5 0) = x"
    unfolding divider_of_def ff_mask m
  proof (rule bit_word_eqI)
    fix n assume n: "n < LENGTH(32)"
    consider "n < 8" | "n = 8 \<or> n = 9" | "10 \<le> n" by linarith
    then show "bit ((drop_bit 8 (push_bit 8 (x AND mask 8) OR push_bit 6 (drop_bit 8 x AND mask 2) OR push_bit 5 0) AND mask 8)
        OR push_bit 8 (drop_bit 6 (push_bit 8 (x AND mask 8) OR push_bit 6 (drop_bit 8 x AND mask 2) OR push_bit 5 0) AND mask 2)) n = bit x n"
      by cases (use n hi in \<open>auto simp: bit_simps\<close>)
  qed
  show "(push_bit 8 (x AND 0xFF) OR push_bit 6 (drop_bit 8 x AND 3) OR push_bit 5 0) AND NOT 0xFFC0 = (0 :: u32)"
    unfolding ff_mask m by (rule bit_word_eqI) (auto simp: bit_simps)
qed

text \<open>The divisor, from the value of the search.\<close>

definition divider_value :: "int \<Rightarrow> nat" where
  "divider_value v = (if v = 0 then 0 else if 0 < v \<and> v \<le> 10 then 2 ^ nat (v - 1) else 0x3FF)"

lemma divider_value_steps:
  assumes "- 1 \<le> v"
  defines "w \<equiv> (if v = - 1 then 31 else v)"
  defines "u \<equiv> (if w \<ge> 32 then 31 else w)"
  defines "y \<equiv> (if u \<noteq> 0 then 2 ^ nat (u - 1) else u)"
  shows "(if y \<ge> 0x400 then 0x3FF else y) = int (divider_value v)" "divider_value v \<le> 0x3FF"
proof -
  have big: "(0x400 :: int) \<le> 2 ^ nat (w - 1)" if "10 < w" for w :: int
  proof -
    have "(2 :: int) ^ 10 \<le> 2 ^ nat (w - 1)" using that by (intro power_increasing) simp_all
    then show ?thesis by simp
  qed
  have small: "(2 :: int) ^ nat (w - 1) < 0x400" if "w \<le> 10" for w :: int
  proof -
    have "(2 :: int) ^ nat (w - 1) \<le> 2 ^ 9" using that by (intro power_increasing) simp_all
    then show ?thesis by simp
  qed
  show "(if y \<ge> 0x400 then 0x3FF else y) = int (divider_value v)"
    using big [of u] small [of u] assms(1) by (auto simp: y_def u_def w_def divider_value_def split: if_splits)
  have "(2 :: nat) ^ nat (v - 1) \<le> 2 ^ 9" if "v \<le> 10" using that by (intro power_increasing) simp_all
  then show "divider_value v \<le> 0x3FF" by (auto simp: divider_value_def)
qed

lemma get_clock_divider_value:
  fixes clock target_rate :: u32
  defines "q \<equiv> (if target_rate \<le> clock then (if clock mod target_rate \<noteq> 0 then 0 else clock div target_rate) else 1)"
  assumes "target_rate \<noteq> 0" "find_div 32 q = v" "- 1 \<le> v"
  shows "unat (divider_of (get_clock_divider clock target_rate)) = divider_value v"
    "get_clock_divider clock target_rate AND NOT 0xFFC0 = 0"
proof -
  have mm: "math_div clock target_rate = clock div target_rate" "math_mod clock target_rate = clock mod target_rate"
    using udivmod_div_mod [OF assms(2)] by (simp_all add: math_div_def math_mod_def)
  have g: "get_clock_divider clock target_rate = push_bit 8 ((word_of_int (int (divider_value v)) :: u32) AND 0xFF)
      OR push_bit 6 (drop_bit 8 (word_of_int (int (divider_value v)) :: u32) AND 3) OR push_bit 5 0"
    unfolding get_clock_divider_def Let_def mm q_def [symmetric] assms(3) divider_value_steps(1) [OF assms(4)] ..
  have "unat (word_of_int (int (divider_value v)) :: u32) = divider_value v"
    using divider_value_steps(2) [OF assms(4)] by (simp add: unat_of_nat_u32)
  then show "unat (divider_of (get_clock_divider clock target_rate)) = divider_value v"
    "get_clock_divider clock target_rate AND NOT 0xFFC0 = 0"
    unfolding g using divider_of_encode [of "word_of_int (int (divider_value v))"] divider_value_steps(2) [OF assms(4)] by simp_all
qed

text \<open>C2: The clock of the card. For every base clock up to 2046 times the rate asked for, the divider that
  \<open>get_clock_divider\<close> computes gives a clock no higher than that rate, exactly the rate when the base clock is it times
  a power of two up to 1024, and touches only bits 15 to 6 of the register.\<close>

theorem clock_below_target:
  assumes "0 < target_rate" "unat clock \<le> 2046 * unat target_rate"
  shows "sd_clock (unat clock) (get_clock_divider clock target_rate) \<le> unat target_rate
    \<and> (\<forall>k \<le> 10. unat clock = unat target_rate * 2 ^ k \<longrightarrow> sd_clock (unat clock) (get_clock_divider clock target_rate) = unat target_rate)
    \<and> get_clock_divider clock target_rate AND NOT 0xFFC0 = 0"
proof -
  have t0: "target_rate \<noteq> 0" "0 < unat target_rate" using assms(1) by (auto simp: word_gt_0 unat_gt_0)
  define q where "q = (if target_rate \<le> clock then (if clock mod target_rate \<noteq> 0 then 0 else clock div target_rate) else 1)"
  note dval = get_clock_divider_value [OF t0(1), of clock, folded q_def]
  consider (above) "clock < target_rate" | (rough) "target_rate \<le> clock" "clock mod target_rate \<noteq> 0"
    | (even) "target_rate \<le> clock" "clock mod target_rate = 0" by fastforce
  then show ?thesis
  proof cases
    case above
    have c: "unat clock < unat target_rate" using above by (simp add: word_less_nat_alt)
    have "q = 1" using above by (auto simp: q_def)
    then have "find_div 32 q = 0" using find_div_at [of 0 1 32] by simp
    note v = dval [OF this]
    have "unat clock \<noteq> unat target_rate * 2 ^ k" for k
    proof
      assume "unat clock = unat target_rate * 2 ^ k"
      moreover have "unat target_rate * 1 \<le> unat target_rate * 2 ^ k" by (rule mult_left_mono) simp_all
      ultimately show False using c by simp
    qed
    then show ?thesis using v c by (simp add: sd_clock_def divider_value_def)
  next
    case rough
    have "q = 0" using rough by (auto simp: q_def)
    then have "find_div 32 q = - 1" by (simp only: find_div_zero)
    note v = dval [OF this]
    have "\<not> unat target_rate dvd unat clock" using rough(2) by (simp add: word_mod_zero_iff)
    then have "unat clock \<noteq> unat target_rate * 2 ^ k" for k by auto
    moreover have "unat clock div 2046 \<le> unat target_rate" using assms(2) div_le_mono [OF assms(2), of 2046] by simp
    ultimately show ?thesis using v by (simp add: sd_clock_def divider_value_def)
  next
    case even
    have dv: "unat target_rate dvd unat clock" using even(2) by (simp add: word_mod_zero_iff)
    have uq: "unat q = unat clock div unat target_rate" using even by (simp add: q_def unat_div_distrib)
    have cq: "unat clock = unat target_rate * unat q" using dv uq by simp
    have q1: "0 < unat q" using even(1) cq t0(2) by (cases "unat q") (auto simp: word_le_nat_alt)
    have q2: "unat q \<le> 2046" using assms(2) cq t0(2) by simp
    obtain k where k: "2 ^ k \<le> unat q" "unat q < 2 ^ Suc k" using ex_power_ivl1 [of 2 "unat q"] q1 by auto
    have k10: "k \<le> 10"
    proof (rule ccontr)
      assume "\<not> k \<le> 10"
      then have "(2 :: nat) ^ 11 \<le> 2 ^ k" by (intro power_increasing) simp_all
      then show False using k(1) q2 by simp
    qed
    define v where "v = (if unat q = 2 ^ k then int k else int k + 1)"
    have "find_div 32 q = v" using find_div_at [OF k, of 32] k10 by (simp add: v_def)
    note val = dval [OF this]
    have "- 1 \<le> v" by (simp add: v_def)
    note val = val [OF this]
    have exact: "unat q = 2 ^ j" if "unat clock = unat target_rate * 2 ^ j" for j using that cq t0(2) by simp
    show ?thesis
    proof (cases "unat q = 2 ^ k")
      case True
      have s: "sd_clock (unat clock) (get_clock_divider clock target_rate) = unat target_rate"
      proof (cases k)
        case 0
        then show ?thesis using val(1) True cq by (simp add: sd_clock_def v_def divider_value_def)
      next
        case (Suc j)
        have "unat (divider_of (get_clock_divider clock target_rate)) = 2 ^ j"
          using val(1) True k10 Suc by (simp add: v_def divider_value_def)
        then show ?thesis using cq True Suc t0(2) by (simp add: sd_clock_def Let_def)
      qed
      then show ?thesis using val(2) by (metis order_refl)
    next
      case False
      have n: "unat q \<noteq> 2 ^ j" for j
      proof
        assume j: "unat q = 2 ^ j"
        then have "(2 :: nat) ^ k \<le> 2 ^ j" "(2 :: nat) ^ j < 2 ^ Suc k" using k by simp_all
        then have "k \<le> j" "j < Suc k" using power_increasing_iff [of "2 :: nat" k j] power_strict_increasing_iff [of "2 :: nat" j "Suc k"] by (simp_all del: power_Suc)
        then show False using j False by simp
      qed
      then have ne: "unat clock \<noteq> unat target_rate * 2 ^ j" for j using exact by blast
      have "sd_clock (unat clock) (get_clock_divider clock target_rate) \<le> unat target_rate"
      proof (cases "k = 10")
        case True
        then have "unat (divider_of (get_clock_divider clock target_rate)) = 0x3FF" using val(1) False by (simp add: v_def divider_value_def)
        moreover have "unat clock div 2046 \<le> unat target_rate" using div_le_mono [OF assms(2), of 2046] by simp
        ultimately show ?thesis by (simp add: sd_clock_def)
      next
        case small: False
        then have d: "unat (divider_of (get_clock_divider clock target_rate)) = 2 ^ k" using val(1) False k10 by (simp add: v_def divider_value_def)
        have "unat clock \<le> unat target_rate * (2 * 2 ^ k)" using cq k(2) by simp
        then have "unat clock div (2 * 2 ^ k) \<le> unat target_rate * (2 * 2 ^ k) div (2 * 2 ^ k)" by (rule div_le_mono)
        then show ?thesis using d by (simp add: sd_clock_def Let_def)
      qed
      then show ?thesis using val(2) ne by blast
    qed
  qed
qed

text \<open>250 MHz gives the identification clock 244140 Hz and, for the transfers, 31.25 MHz.\<close>

theorem clock_below_target_witness:
  "sd_clock 250000000 (get_clock_divider 250000000 SD_CLOCK_ID) \<le> 400000 \<and> get_clock_divider 250000000 SD_CLOCK_ID AND NOT 0xFFC0 = 0"
  using clock_below_target [of SD_CLOCK_ID 250000000] by (simp add: SD_CLOCK_ID_def)

end
