(* ===== verification/EmmcProto.thy ===== *)
theory EmmcProto
  imports EmmcHost
begin

text \<open>
  The command protocol of the card's host controller. The first part holds for all hardware: a command is issued only
  when the controller is free, and success means that it reported completion. The second part describes the accesses of a
  whole data transaction by what the controller answers, and shows that the driver carries it out and delivers or
  sends the blocks, as the command layer of \<open>Emmc\<close> does.
\<close>

section \<open>Histories\<close>

lemma explains_append: "explains hw (xs @ h) \<Longrightarrow> explains hw h"
  by (induction hw xs rule: explains.induct) auto

lemma emmc_rd_eq: "emmc_rd hw r d = (hw (hist d) (Mmio r), d\<lparr>hist := Rd (Mmio r) (hw (hist d) (Mmio r)) # hist d\<rparr>)"
  by (simp add: emmc_rd_def GET32_def rd_def)

lemma emmc_rd_explained:
  assumes "explains hw (Rd (Mmio r) v # hist d)"
  shows "emmc_rd hw r d = (v, d\<lparr>hist := Rd (Mmio r) v # hist d\<rparr>)"
  using assms by (simp add: emmc_rd_eq)

lemma emmc_wr_eq: "emmc_wr r v d = d\<lparr>hist := Wr (Mmio r) v # hist d\<rparr>"
  by (simp add: emmc_wr_def PUT32_def)

lemma emmc_delay_eq: "emmc_delay n d = d\<lparr>hist := Wait n # hist d\<rparr>"
  by (simp add: emmc_delay_def)

lemmas bus_steps = emmc_wr_eq emmc_delay_eq

section \<open>All hardware\<close>

text \<open>A step that only adds accesses, explained by the hardware, none of them a write of the command register.\<close>

definition quiet :: "hardware \<Rightarrow> sd_device \<Rightarrow> sd_device \<Rightarrow> bool" where
  "quiet hw d d' \<longleftrightarrow> (\<exists>xs. hist d' = xs @ hist d \<and> (\<forall>v. Wr (Mmio cmd_xfer_mode_reg) v \<notin> set xs))
     \<and> (explains hw (hist d) \<longrightarrow> explains hw (hist d'))"

lemma quietI:
  assumes "hist d' = xs @ hist d" "\<And>v. Wr (Mmio cmd_xfer_mode_reg) v \<notin> set xs" "explains hw (hist d) \<Longrightarrow> explains hw (hist d')"
  shows "quiet hw d d'"
  using assms by (auto simp: quiet_def)

lemma quiet_refl: "hist d' = hist d \<Longrightarrow> quiet hw d d'"
  by (simp add: quiet_def)

lemma quiet_trans:
  assumes "quiet hw a b" "quiet hw b c"
  shows "quiet hw a c"
proof -
  obtain xs ys where x: "hist b = xs @ hist a" "\<forall>v. Wr (Mmio cmd_xfer_mode_reg) v \<notin> set xs"
    and y: "hist c = ys @ hist b" "\<forall>v. Wr (Mmio cmd_xfer_mode_reg) v \<notin> set ys"
    using assms unfolding quiet_def by blast
  have "hist c = (ys @ xs) @ hist a" "\<forall>v. Wr (Mmio cmd_xfer_mode_reg) v \<notin> set (ys @ xs)" using x y by auto
  moreover have "explains hw (hist a) \<longrightarrow> explains hw (hist c)" using assms by (simp add: quiet_def)
  ultimately show ?thesis unfolding quiet_def by blast
qed

lemma quiet_field:
  assumes "hist e = hist d" "quiet hw e d'"
  shows "quiet hw d d'"
  using assms by (simp add: quiet_def)

lemma quiet_rd: "quiet hw d (snd (emmc_rd hw r d))"
  by (rule quietI [where xs = "[Rd (Mmio r) (hw (hist d) (Mmio r))]"]) (simp_all add: emmc_rd_eq)

lemma quiet_wr: "r \<noteq> cmd_xfer_mode_reg \<Longrightarrow> quiet hw d (emmc_wr r v d)"
  by (rule quietI [where xs = "[Wr (Mmio r) v]"]) (simp_all add: emmc_wr_eq)

lemma quiet_delay: "quiet hw d (emmc_delay n d)"
  by (rule quietI [where xs = "[Wait n]"]) (simp_all add: emmc_delay_eq)

lemma emmc_regs_distinct:
  "int_flags_reg \<noteq> cmd_xfer_mode_reg" "control2_reg \<noteq> cmd_xfer_mode_reg" "data_reg \<noteq> cmd_xfer_mode_reg"
  "block_size_count_reg \<noteq> cmd_xfer_mode_reg" "arg1_reg \<noteq> cmd_xfer_mode_reg"
  by (simp_all add: int_flags_reg_def control2_reg_def data_reg_def block_size_count_reg_def arg1_reg_def cmd_xfer_mode_reg_def)

lemma quiet_wait: "quiet hw d (snd (wait_loop n hw r msk wanted d))"
proof (induction n arbitrary: d)
  case (Suc n)
  obtain v d1 where r: "emmc_rd hw r d = (v, d1)" by fastforce
  have 1: "quiet hw d d1" using quiet_rd [of hw d r] r by simp
  have 2: "quiet hw d (snd (wait_loop n hw r msk wanted (emmc_delay 1 d1)))" by (rule quiet_trans [OF quiet_trans [OF 1 quiet_delay] Suc.IH])
  show ?case using 1 2 by (simp add: r)
qed (simp add: quiet_refl)

lemma quiet_inhibit: "quiet hw d (snd (inhibit_loop n hw d))"
proof (induction n arbitrary: d)
  case (Suc n)
  obtain v d1 where r: "emmc_rd hw status_reg d = (v, d1)" by fastforce
  have 1: "quiet hw d d1" using quiet_rd [of hw d status_reg] r by simp
  have 2: "quiet hw d (emmc_delay 1 d1)" by (rule quiet_trans [OF 1 quiet_delay])
  have 3: "quiet hw d (snd (inhibit_loop n hw (emmc_delay 1 d1)))" by (rule quiet_trans [OF 2 Suc.IH])
  show ?case using 1 2 3 by (simp add: r Let_def)
qed (simp add: quiet_refl)

lemma quiet_done: "quiet hw d (snd (done_loop n hw d))"
proof (induction n arbitrary: d)
  case (Suc n)
  obtain v d1 where r: "emmc_rd hw int_flags_reg d = (v, d1)" by fastforce
  have 1: "quiet hw d d1" using quiet_rd [of hw d int_flags_reg] r by simp
  have 2: "quiet hw d (snd (done_loop n hw (emmc_delay 1 d1)))" by (rule quiet_trans [OF quiet_trans [OF 1 quiet_delay] Suc.IH])
  show ?case using 1 2 by (simp add: r)
qed (simp add: quiet_refl)

lemma quiet_reset_spin: "quiet hw d (reset_spin n hw b d)"
proof (induction n arbitrary: d)
  case (Suc n)
  obtain v d1 where r: "emmc_rd hw control2_reg d = (v, d1)" by fastforce
  have 1: "quiet hw d d1" using quiet_rd [of hw d control2_reg] r by simp
  have 2: "quiet hw d (emmc_delay 1 d1)" by (rule quiet_trans [OF 1 quiet_delay])
  have 3: "quiet hw d (reset_spin n hw b d1)" by (rule quiet_trans [OF 1 Suc.IH])
  show ?case using 1 2 3 by (simp add: r)
qed (simp add: quiet_refl)

lemma quiet_reset_line: "quiet hw d (reset_line hw b d)"
proof -
  obtain v d1 where r: "emmc_rd hw control2_reg d = (v, d1)" by fastforce
  have 1: "quiet hw d d1" using quiet_rd [of hw d control2_reg] r by simp
  show ?thesis unfolding reset_line_def r prod.case
    by (rule quiet_trans [OF quiet_trans [OF 1 quiet_wr [OF emmc_regs_distinct(2)]] quiet_reset_spin])
qed

lemma quiet_host_reset: "quiet hw d (emmc_host_reset_cmd_dat hw d)"
  unfolding emmc_host_reset_cmd_dat_def Let_def
  by (rule quiet_trans [OF quiet_trans [OF quiet_trans [OF quiet_wr [OF emmc_regs_distinct(1)] quiet_reset_line] quiet_reset_line]
        quiet_wr [OF emmc_regs_distinct(1)]])

lemma quiet_read_words: "read_words hw len p d = Some d' \<Longrightarrow> quiet hw d d'"
proof (induction hw len p d rule: read_words.induct)
  case (1 hw len p d)
  let ?e = "(snd (emmc_rd hw data_reg d))\<lparr>buffer := write_u32 (buffer d) p (fst (emmc_rd hw data_reg d))\<rparr>"
  show ?case
  proof (cases "len = 0")
    case True
    then have "d' = d" using "1.prems" by (simp add: read_words.simps [of hw 0 p d])
    then show ?thesis by (simp add: quiet_refl)
  next
    case False
    then have f: "\<not> p + 4 > length (buffer d)" "read_words hw (len - 4) (p + 4) ?e = Some d'"
      using "1.prems" by (simp_all add: read_words.simps [of hw len p d] split: if_splits)
    have "quiet hw ?e d'" by (rule "1.IH" [OF False f])
    moreover have "quiet hw d ?e" using quiet_rd [of hw d data_reg] by (simp add: quiet_def)
    ultimately show ?thesis by (rule quiet_trans [rotated])
  qed
qed

lemma quiet_write_words: "write_words hw len p d = Some d' \<Longrightarrow> quiet hw d d'"
proof (induction hw len p d rule: write_words.induct)
  case (1 hw len p d)
  let ?e = "emmc_wr data_reg (read_u32 (buffer d) p) d"
  show ?case
  proof (cases "len = 0")
    case True
    then have "d' = d" using "1.prems" by (simp add: write_words.simps [of hw 0 p d])
    then show ?thesis by (simp add: quiet_refl)
  next
    case False
    then have f: "\<not> p + 4 > length (buffer d)" "write_words hw (len - 4) (p + 4) ?e = Some d'"
      using "1.prems" by (simp_all add: write_words.simps [of hw len p d] split: if_splits)
    have "quiet hw ?e d'" by (rule "1.IH" [OF False f])
    then show ?thesis using quiet_wr [OF emmc_regs_distinct(3)] by (rule quiet_trans [rotated])
  qed
qed

lemma quiet_data_blocks: "data_blocks hw w write n p d = Some (r, d') \<Longrightarrow> quiet hw d d'"
proof (induction n arbitrary: p d)
  case 0
  then show ?case by (simp add: quiet_refl)
next
  case (Suc n)
  obtain b d1 where w: "wait_reg_mask hw int_flags_reg (w OR 0x8000) True 20000 d = (b, d1)" by fastforce
  obtain v d2 where v: "emmc_rd hw int_flags_reg d1 = (v, d2)" by fastforce
  let ?d3 = "emmc_wr int_flags_reg (w OR 0x8000) d2"
  have "quiet hw d d1" using quiet_wait [of hw d] w by (simp add: wait_reg_mask_def del: wait_loop.simps) (metis snd_conv)
  moreover have "quiet hw d1 d2" using quiet_rd [of hw d1 int_flags_reg] v by simp
  ultimately have 3: "quiet hw d ?d3" using quiet_wr [OF emmc_regs_distinct(1)] quiet_trans by blast
  show ?case
  proof (cases "v AND (0xFFFF0000 OR w) \<noteq> w")
    case True
    then have "d' = set_last_error v ?d3" using Suc.prems by (simp add: w v Let_def)
    then have "hist d' = hist ?d3" by (simp add: set_last_error_def)
    then show ?thesis using quiet_trans [OF 3 quiet_refl] by blast
  next
    case False
    then obtain d4 where d4: "(if write then write_words hw (block_size ?d3) p ?d3 else read_words hw (block_size ?d3) p ?d3) = Some d4"
      and d': "data_blocks hw w write n (p + unat (block_size ?d3)) d4 = Some (r, d')"
      using Suc.prems by (auto simp: w v Let_def bind_eq_Some_conv)
    have "quiet hw ?d3 d4" using d4 quiet_write_words quiet_read_words by (auto split: if_splits)
    then show ?thesis using quiet_trans [OF quiet_trans [OF 3] Suc.IH [OF d']] by blast
  qed
qed

lemma quiet_response: "quiet hw d (read_response hw i d)"
  using quiet_rd [of hw d "response_reg i"] by (simp add: read_response_def emmc_rd_eq quiet_def)

lemma quiet_responses: "quiet hw d (read_responses hw cmd d)"
  unfolding read_responses_def using quiet_response quiet_trans quiet_refl by (auto; meson)

lemma quiet_finish: "quiet hw d (snd (finish_transfer hw d))"
proof -
  obtain b d1 where w: "wait_reg_mask hw int_flags_reg 0x8002 True 2000 d = (b, d1)" by fastforce
  obtain v d2 where v: "emmc_rd hw int_flags_reg d1 = (v, d2)" by fastforce
  have "quiet hw d d1" using quiet_wait [of hw d] w by (simp add: wait_reg_mask_def del: wait_loop.simps) (metis snd_conv)
  moreover have "quiet hw d1 d2" using quiet_rd [of hw d1 int_flags_reg] v by simp
  ultimately have 3: "quiet hw d (emmc_wr int_flags_reg 0xFFFF0002 d2)" (is "quiet hw d ?d3") using quiet_wr [OF emmc_regs_distinct(1)] quiet_trans by blast
  then have "quiet hw d (emmc_wr int_flags_reg 0xFFFF0002 ?d3)" using quiet_wr [OF emmc_regs_distinct(1)] quiet_trans by blast
  moreover have "quiet hw d (set_last_error v ?d3)" using quiet_trans [OF 3 quiet_refl] by (simp add: set_last_error_def)
  ultimately show ?thesis by (simp add: finish_transfer_def w v Let_def)
qed

lemma inhibit_free:
  "inhibit_loop n hw d = (True, d1) \<Longrightarrow> \<exists>v es. v AND 3 = 0 \<and> hist d1 = (Rd (Mmio status_reg) v # es) @ hist d"
proof (induction n arbitrary: d)
  case (Suc n)
  let ?v = "hw (hist d) (Mmio status_reg)" and ?d1 = "d\<lparr>hist := Rd (Mmio status_reg) (hw (hist d) (Mmio status_reg)) # hist d\<rparr>"
  show ?case
  proof (cases "?v AND 3 = 0")
    case True
    then have "d1 = ?d1" using Suc.prems by (simp add: emmc_rd_eq)
    then show ?thesis using True by auto
  next
    case False
    then have "inhibit_loop n hw (emmc_delay 1 ?d1) = (True, d1)" using Suc.prems by (auto simp: emmc_rd_eq Let_def split: if_splits)
    then obtain v es where v: "v AND 3 = 0" "hist d1 = (Rd (Mmio status_reg) v # es) @ hist (emmc_delay 1 ?d1)" using Suc.IH by blast
    then have "hist d1 = (Rd (Mmio status_reg) v # es @ [Wait 1, Rd (Mmio status_reg) ?v]) @ hist d" by (simp add: emmc_delay_eq)
    then show ?thesis using v(1) by blast
  qed
qed simp

text \<open>The writes that issue a command.\<close>

definition issue_log :: "emmc_cmd \<Rightarrow> u32 \<Rightarrow> sd_device \<Rightarrow> history" where
  "issue_log cmd arg d = [Wr (Mmio cmd_xfer_mode_reg) (TO_REG cmd), Wr (Mmio arg1_reg) arg,
     Wr (Mmio block_size_count_reg) (block_size d OR push_bit 16 (transfer_blocks d))]"

lemma issue_command_split:
  assumes "inhibit_loop 2001 hw (d\<lparr>last_command_value := TO_REG cmd\<rparr>) = (ready, d1)" "transfer_blocks d \<le> 0xFFFF"
  shows "issue_command hw cmd arg timeout d =
    (if \<not> ready then Some (False, emmc_host_reset_cmd_dat hw (snd (emmc_rd hw status_reg d1)))
     else after_issue hw cmd timeout (emmc_wr cmd_xfer_mode_reg (last_command_value d1) (emmc_wr arg1_reg arg
       (emmc_wr block_size_count_reg (block_size d1 OR push_bit 16 (transfer_blocks d1)) d1))))"
proof -
  have "\<not> 0xFFFF < transfer_blocks (d\<lparr>last_command_value := TO_REG cmd\<rparr>)" using assms(2) by (simp add: not_less)
  then show ?thesis by (simp only: issue_command_def Let_def assms(1) prod.case if_False) (simp add: emmc_wr_eq)
qed

lemma inhibit_keeps: "inhibit_loop n hw d = (b, d1) \<Longrightarrow> d1 = d\<lparr>hist := hist d1\<rparr>"
  by (induction n arbitrary: d) (fastforce simp: emmc_rd_eq emmc_delay_def Let_def split: if_splits)+

text \<open>The accesses after a command was issued, the newest first, when the controller finished it: the flags are read with command
  completion and no error and acknowledged; for a command with data or a busy card, the last accesses are a later read of
  the flags with the end of the transfer and no error but the data timeout, and its two acknowledgements.\<close>

definition ended_transfer :: "history \<Rightarrow> bool" where
  "ended_transfer b \<longleftrightarrow> (\<exists>w c. b = Wr (Mmio int_flags_reg) 0xFFFF0002 # Wr (Mmio int_flags_reg) 0xFFFF0002 # Rd (Mmio int_flags_reg) w # c
     \<and> (w AND 0xFFFF0002 = 2 \<or> w AND 0xFFFF0002 = 0x100002))"

definition completed :: "emmc_cmd \<Rightarrow> history \<Rightarrow> bool" where
  "completed cmd later \<longleftrightarrow> (\<exists>b w a. later = b @ Wr (Mmio int_flags_reg) 0xFFFF0001 # Rd (Mmio int_flags_reg) w # a \<and> w AND 0xFFFF0001 = 1
     \<and> (is_data cmd \<noteq> 0 \<or> response_type cmd = RT48Busy \<longrightarrow> ended_transfer b))"

lemma finish_ended_transfer:
  assumes "finish_transfer hw d = (True, d')"
  shows "\<exists>b. hist d' = b @ hist d \<and> ended_transfer b"
proof -
  obtain x d1 where w: "wait_reg_mask hw int_flags_reg 0x8002 True 2000 d = (x, d1)" by fastforce
  have "quiet hw d d1" using quiet_wait [of hw d] w by (simp add: wait_reg_mask_def del: wait_loop.simps) (metis snd_conv)
  then obtain c where c: "hist d1 = c @ hist d" by (auto simp: quiet_def)
  let ?w = "hw (hist d1) (Mmio int_flags_reg)"
  have e: "?w AND 0xFFFF0002 = 2 \<or> ?w AND 0xFFFF0002 = 0x100002"
    "hist d' = Wr (Mmio int_flags_reg) 0xFFFF0002 # Wr (Mmio int_flags_reg) 0xFFFF0002 # Rd (Mmio int_flags_reg) ?w # c @ hist d"
    using assms w c by (auto simp: finish_transfer_def emmc_rd_eq emmc_wr_eq Let_def split: if_splits)
  then show ?thesis by (intro exI [of _ "Wr (Mmio int_flags_reg) 0xFFFF0002 # Wr (Mmio int_flags_reg) 0xFFFF0002 # Rd (Mmio int_flags_reg) ?w # c"])
      (auto simp: ended_transfer_def)
qed

lemma ended_transfer_append: "ended_transfer b \<Longrightarrow> ended_transfer (b @ c)"
  by (auto simp: ended_transfer_def)

lemma after_issue_quiet:
  assumes "after_issue hw cmd timeout d4 = Some (r, d')"
  shows "quiet hw d4 d'" "r \<Longrightarrow> \<exists>xs. hist d' = xs @ hist d4 \<and> completed cmd xs"
proof -
  obtain f d5 where f: "done_loop timeout hw (emmc_delay 2 d4) = (f, d5)" by fastforce
  obtain v d6 where v: "emmc_rd hw int_flags_reg d5 = (v, d6)" by fastforce
  let ?d7 = "emmc_wr int_flags_reg 0xFFFF0001 d6"
  note a = assms [unfolded after_issue_def f v prod.case Let_def]
  have 5: "quiet hw d4 d5" using quiet_trans [OF quiet_delay quiet_done] f by (metis snd_conv)
  have 6: "quiet hw d4 d6" using quiet_trans [OF 5 quiet_rd] v by (metis snd_conv)
  have 7: "quiet hw d4 ?d7" by (rule quiet_trans [OF 6 quiet_wr [OF emmc_regs_distinct(1)]])
  have "quiet hw d4 d' \<and> (r \<longrightarrow> (\<exists>xs. hist d' = xs @ hist d4 \<and> completed cmd xs))"
  proof (cases "f \<and> v AND 0xFFFF0001 = 1")
    case False
    then have "\<not> r \<and> (hist d' = hist d5 \<or> hist d' = hist ?d7)"
      using a by (auto simp: set_last_error_def split: if_splits)
    then show ?thesis using quiet_trans [OF 5 quiet_refl] quiet_trans [OF 7 quiet_refl] by blast
  next
    case True
    then obtain x d8 where 8: "(if is_data cmd \<noteq> 0 then do_data_transfer hw cmd (read_responses hw cmd ?d7)
        else Some (True, read_responses hw cmd ?d7)) = Some (x, d8)"
      and fin: "(case (if response_type cmd = RT48Busy \<or> is_data cmd \<noteq> 0 then finish_transfer hw d8 else (True, d8)) of
        (ok, d9) \<Rightarrow> Some (if ok then (True, d9\<lparr>last_success := True\<rparr>) else (False, d9))) = Some (r, d')"
      using a by (auto simp: bind_eq_Some_conv)
    have "quiet hw ?d7 (read_responses hw cmd ?d7)" by (rule quiet_responses)
    moreover have "quiet hw (read_responses hw cmd ?d7) d8"
      using 8 quiet_data_blocks quiet_refl by (fastforce simp: do_data_transfer_def split: if_splits prod.splits)
    ultimately have 78: "quiet hw ?d7 d8" by (rule quiet_trans)
    obtain ok d9 where 9: "(if response_type cmd = RT48Busy \<or> is_data cmd \<noteq> 0 then finish_transfer hw d8 else (True, d8)) = (ok, d9)" by fastforce
    have "quiet hw d8 d9" using 9 quiet_finish [of hw d8] quiet_refl [of d8 d8] by (auto split: if_splits)
    moreover have h9: "hist d' = hist d9" using fin 9 by (auto split: if_splits)
    ultimately have 89: "quiet hw ?d7 d'" using quiet_trans [OF 78] quiet_trans quiet_refl by blast
    obtain ys where ys: "hist d5 = ys @ hist d4" using 5 by (auto simp: quiet_def)
    have d6: "hist ?d7 = Wr (Mmio int_flags_reg) 0xFFFF0001 # Rd (Mmio int_flags_reg) v # hist d5" using v by (auto simp: emmc_rd_eq emmc_wr_eq)
    have "\<exists>xs. hist d' = xs @ hist d4 \<and> completed cmd xs" if r
    proof -
      have ok: "ok" using fin 9 \<open>r\<close> by (auto split: if_splits)
      obtain xs where xs: "hist d' = xs @ hist ?d7" "is_data cmd \<noteq> 0 \<or> response_type cmd = RT48Busy \<longrightarrow> ended_transfer xs"
      proof (cases "is_data cmd \<noteq> 0 \<or> response_type cmd = RT48Busy")
        case True
        then have "finish_transfer hw d8 = (True, d9)" using 9 ok by (auto split: if_splits)
        then obtain b where b: "hist d9 = b @ hist d8" "ended_transfer b" using finish_ended_transfer by blast
        obtain c where "hist d8 = c @ hist ?d7" using 78 by (auto simp: quiet_def)
        then have "hist d' = (b @ c) @ hist ?d7" using h9 b(1) by simp
        then show ?thesis using that ended_transfer_append [OF b(2)] by blast
      next
        case False
        obtain xs where "hist d' = xs @ hist ?d7" using 89 by (auto simp: quiet_def)
        then show ?thesis using that False by blast
      qed
      have "hist d' = (xs @ Wr (Mmio int_flags_reg) 0xFFFF0001 # Rd (Mmio int_flags_reg) v # ys) @ hist d4"
        using xs(1) ys d6 by simp
      moreover have "completed cmd (xs @ Wr (Mmio int_flags_reg) 0xFFFF0001 # Rd (Mmio int_flags_reg) v # ys)"
        using xs(2) True unfolding completed_def by blast
      ultimately show ?thesis by blast
    qed
    then show ?thesis using quiet_trans [OF 7 89] by blast
  qed
  then show "quiet hw d4 d'" "r \<Longrightarrow> \<exists>xs. hist d' = xs @ hist d4 \<and> completed cmd xs" by blast+
qed

text \<open>C3: The command protocol, for all hardware. Every value the driver acts on is one the hardware gave. If issuing a
  command ends, then either no command was written and it reports failure, or exactly one was: directly after the
  status register was read with both inhibit bits clear, the block size and count and then the argument of that command
  were written. Success is reported only if the flags were then read with command completion and no error bit, and
  acknowledged, and, for a command with data or with a busy response, if the last read of the flags after that had transfer
  completion and no error bit but the data timeout, which the driver tolerates. Whether the loop that moves the blocks got
  through is not part of it: the code ignores that result (\<open>lost_transfer_succeeds\<close>).\<close>

theorem command_protocol:
  assumes "issue_command hw cmd arg timeout d = Some (r, d')" "explains hw (hist d)"
  shows "explains hw (hist d') \<and> (\<exists>xs. hist d' = xs @ hist d
    \<and> (\<not> r \<and> (\<forall>v. Wr (Mmio cmd_xfer_mode_reg) v \<notin> set xs)
      \<or> (\<exists>later v earlier. xs = later @ issue_log cmd arg d @ Rd (Mmio status_reg) v # earlier \<and> v AND 3 = 0
          \<and> (\<forall>v. Wr (Mmio cmd_xfer_mode_reg) v \<notin> set later \<union> set earlier)
          \<and> (r \<longrightarrow> completed cmd later))))"
proof (cases "transfer_blocks d \<le> 0xFFFF")
  case False
  then have "\<not> r" "hist d' = hist d" using assms(1) by (auto simp: issue_command_def Let_def not_le)
  then show ?thesis using assms(2) by auto
next
  case True
  obtain ready d1 where i: "inhibit_loop 2001 hw (d\<lparr>last_command_value := TO_REG cmd\<rparr>) = (ready, d1)" by fastforce
  note sp = issue_command_split [OF i True, of arg timeout]
  have q1: "quiet hw (d\<lparr>last_command_value := TO_REG cmd\<rparr>) d1" using quiet_inhibit [of hw "d\<lparr>last_command_value := TO_REG cmd\<rparr>" 2001] i by simp
  then have q: "quiet hw d d1" by (rule quiet_field [rotated]) simp
  show ?thesis
  proof (cases ready)
    case False
    then have d': "\<not> r" "d' = emmc_host_reset_cmd_dat hw (snd (emmc_rd hw status_reg d1))" using assms(1) sp by simp_all
    have "quiet hw d d'" unfolding d'(2) by (rule quiet_trans [OF quiet_trans [OF q quiet_rd] quiet_host_reset])
    then show ?thesis using d'(1) assms(2) unfolding quiet_def by blast
  next
    case ready: True
    let ?d4 = "emmc_wr cmd_xfer_mode_reg (last_command_value d1) (emmc_wr arg1_reg arg
       (emmc_wr block_size_count_reg (block_size d1 OR push_bit 16 (transfer_blocks d1)) d1))"
    have ai: "after_issue hw cmd timeout ?d4 = Some (r, d')" using assms(1) sp ready by simp
    note aq = after_issue_quiet [OF ai]
    obtain v es where free: "v AND 3 = 0" "hist d1 = (Rd (Mmio status_reg) v # es) @ hist d"
      using inhibit_free [of 2001 hw "d\<lparr>last_command_value := TO_REG cmd\<rparr>" d1] i ready by auto
    have es: "\<forall>v. Wr (Mmio cmd_xfer_mode_reg) v \<notin> set es" using q free(2) by (auto simp: quiet_def)
    obtain ls where ls: "hist d' = ls @ hist ?d4" "\<forall>v. Wr (Mmio cmd_xfer_mode_reg) v \<notin> set ls" using aq(1) by (auto simp: quiet_def)
    have k: "d1 = d\<lparr>last_command_value := TO_REG cmd, hist := hist d1\<rparr>" using inhibit_keeps [OF i] by simp
    have h4: "hist ?d4 = issue_log cmd arg d @ hist d1" by (subst (1 2 3) k) (simp add: emmc_wr_eq issue_log_def)
    have ex4: "explains hw (hist ?d4)" using q assms(2) by (simp add: h4 issue_log_def quiet_def)
    have "explains hw (hist d')" using aq(1) ex4 by (simp add: quiet_def)
    moreover have "hist d' = (ls @ issue_log cmd arg d @ Rd (Mmio status_reg) v # es) @ hist d" using ls(1) h4 free(2) by simp
    moreover have "\<forall>v. Wr (Mmio cmd_xfer_mode_reg) v \<notin> set ls \<union> set es" using ls(2) es by auto
    moreover have "r \<longrightarrow> completed cmd ls" using aq(2) ls(1) by fastforce
    ultimately show ?thesis using free(1) by blast
  qed
qed

section \<open>A data transaction\<close>

text \<open>Reads that fail their test, each followed by a wait, the oldest first.\<close>

fun polls :: "u32 \<Rightarrow> u32 list \<Rightarrow> history" where
  "polls r [] = []"
| "polls r (p # ps) = polls r ps @ [Wait 1, Rd (Mmio r) p]"

lemma polls_first:
  assumes "explains hw (xs @ polls r (p # ps) @ hist d)"
  shows "emmc_rd hw r d = (p, d\<lparr>hist := Rd (Mmio r) p # hist d\<rparr>)"
    "explains hw (xs @ polls r ps @ hist (emmc_delay 1 (d\<lparr>hist := Rd (Mmio r) p # hist d\<rparr>)))"
proof -
  have "explains hw ((xs @ polls r ps @ [Wait 1]) @ Rd (Mmio r) p # hist d)" using assms by simp
  then show "emmc_rd hw r d = (p, d\<lparr>hist := Rd (Mmio r) p # hist d\<rparr>)" using explains_append emmc_rd_explained by blast
  show "explains hw (xs @ polls r ps @ hist (emmc_delay 1 (d\<lparr>hist := Rd (Mmio r) p # hist d\<rparr>)))" using assms by (simp add: emmc_delay_eq)
qed

lemma wait_polls:
  assumes "explains hw ([Rd (Mmio r) v] @ polls r ps @ hist d)" "\<forall>p \<in> set ps. p AND msk = 0" "v AND msk \<noteq> 0" "length ps < n"
  shows "wait_loop n hw r msk True d = (True, d\<lparr>hist := Rd (Mmio r) v # polls r ps @ hist d\<rparr>)"
  using assms
proof (induction ps arbitrary: d n)
  case Nil
  then obtain m where "n = Suc m" by (cases n) auto
  then show ?case using Nil emmc_rd_explained [of hw r v d] by simp
next
  case (Cons p ps)
  then obtain m where m: "n = Suc m" by (cases n) auto
  note f = polls_first [OF Cons.prems(1)]
  show ?case using Cons.IH [OF f(2)] Cons.prems(2-4) by (simp add: m f(1) emmc_delay_eq)
qed

lemma done_polls:
  assumes "explains hw ([Rd (Mmio int_flags_reg) v] @ polls int_flags_reg ps @ hist d)" "\<forall>p \<in> set ps. p AND 0x8001 = 0" "v AND 0x8001 \<noteq> 0" "length ps < n"
  shows "done_loop n hw d = (True, d\<lparr>hist := Rd (Mmio int_flags_reg) v # polls int_flags_reg ps @ hist d\<rparr>)"
  using assms
proof (induction ps arbitrary: d n)
  case Nil
  then obtain m where "n = Suc m" by (cases n) auto
  then show ?case using Nil emmc_rd_explained [of hw int_flags_reg v d] by simp
next
  case (Cons p ps)
  then obtain m where m: "n = Suc m" by (cases n) auto
  note f = polls_first [OF Cons.prems(1)]
  show ?case using Cons.IH [OF f(2)] Cons.prems(2-4) by (simp add: m f(1) emmc_delay_eq)
qed

lemma inhibit_polls:
  assumes "explains hw ([Rd (Mmio status_reg) v] @ polls status_reg ps @ hist d)" "\<forall>p \<in> set ps. p AND 3 \<noteq> 0" "v AND 3 = 0" "length ps < n"
  shows "inhibit_loop n hw d = (True, d\<lparr>hist := Rd (Mmio status_reg) v # polls status_reg ps @ hist d\<rparr>)"
  using assms
proof (induction ps arbitrary: d n)
  case Nil
  then obtain m where "n = Suc m" by (cases n) auto
  then show ?case using Nil emmc_rd_explained [of hw status_reg v d] by simp
next
  case (Cons p ps)
  then obtain m where m: "n = Suc m" "m \<noteq> 0" by (cases n) auto
  note f = polls_first [OF Cons.prems(1)]
  show ?case using Cons.IH [OF f(2)] Cons.prems(2-4) by (simp add: m f(1) emmc_delay_eq Let_def)
qed

text \<open>The words of a block on the data port, the oldest access last.\<close>

definition word_bytes :: "u32 \<Rightarrow> u8 list" where
  "word_bytes v = [ucast (v AND 0xFF), ucast (drop_bit 8 v AND 0xFF), ucast (drop_bit 16 v AND 0xFF), ucast (drop_bit 24 v AND 0xFF)]"

abbreviation words_bytes :: "u32 list \<Rightarrow> u8 list" where
  "words_bytes ws \<equiv> concat (map word_bytes ws)"

definition port_reads :: "u32 list \<Rightarrow> history" where
  "port_reads ws = rev (map (Rd (Mmio data_reg)) ws)"

definition port_writes :: "u32 list \<Rightarrow> history" where
  "port_writes ws = rev (map (Wr (Mmio data_reg)) ws)"

lemma length_word_bytes [simp]: "length (word_bytes v) = 4"
  by (simp add: word_bytes_def)

lemma length_words_bytes [simp]: "length (words_bytes ws) = 4 * length ws"
  by (induction ws) simp_all

lemma write_u32_blit: "p + 4 \<le> length buf \<Longrightarrow> write_u32 buf p v = blit buf p (word_bytes v)"
  by (rule nth_equalityI) (auto simp: write_u32_def nth_blit word_bytes_def nth_list_update less_Suc_eq nth_Cons' numeral_eq_Suc)

lemma read_words_served:
  assumes "explains hw (port_reads ws @ hist d)" "unat len = 4 * length ws" "p + 4 * length ws \<le> length (buffer d)"
  shows "read_words hw len p d = Some (d\<lparr>buffer := blit (buffer d) p (words_bytes ws), hist := port_reads ws @ hist d\<rparr>)"
  using assms
proof (induction ws arbitrary: d p len)
  case Nil
  then have "len = 0" by (simp add: unat_eq_0)
  then show ?case by (simp add: read_words.simps port_reads_def)
next
  case (Cons w ws)
  have l: "len \<noteq> 0" "unat (len - 4) = 4 * length ws" using Cons.prems(2) by (auto simp: unat_sub_le word_le_nat_alt)
  have e: "explains hw (port_reads ws @ Rd (Mmio data_reg) w # hist d)" using Cons.prems(1) by (simp add: port_reads_def)
  note r = emmc_rd_explained [OF explains_append [OF e]]
  let ?d = "d\<lparr>hist := Rd (Mmio data_reg) w # hist d, buffer := write_u32 (buffer d) p w\<rparr>"
  have ih: "read_words hw (len - 4) (p + 4) ?d = Some (?d\<lparr>buffer := blit (buffer ?d) (p + 4) (words_bytes ws), hist := port_reads ws @ hist ?d\<rparr>)"
    by (rule Cons.IH) (use e l(2) Cons.prems(3) in simp_all)
  have b: "blit (write_u32 (buffer d) p w) (p + 4) (words_bytes ws) = blit (buffer d) p (words_bytes (w # ws))"
    using blit_blit [of p "word_bytes w" "words_bytes ws" "buffer d"] Cons.prems(3) by (simp add: write_u32_blit)
  have "read_words hw len p d = read_words hw (len - 4) (p + 4) ?d"
    using l(1) Cons.prems(3) by (subst read_words.simps) (simp add: r)
  then show ?case unfolding ih using b by (simp add: port_reads_def)
qed

lemma write_words_sent:
  assumes "unat len = 4 * length ws" "p + 4 * length ws \<le> length (buffer d)" "slice (buffer d) p (4 * length ws) = words_bytes ws"
  shows "write_words hw len p d = Some (d\<lparr>hist := port_writes ws @ hist d\<rparr>)"
  using assms
proof (induction ws arbitrary: d p len)
  case Nil
  then have "len = 0" by (simp add: unat_eq_0)
  then show ?case by (simp add: write_words.simps port_writes_def)
next
  case (Cons w ws)
  have l: "len \<noteq> 0" "unat (len - 4) = 4 * length ws" using Cons.prems(1) by (auto simp: unat_sub_le word_le_nat_alt)
  have sl: "slice (buffer d) p 4 @ slice (buffer d) (p + 4) (4 * length ws) = word_bytes w @ words_bytes ws"
    using Cons.prems(3) slice_add [of "buffer d" p 4 "4 * length ws"] by (simp add: add.commute)
  have s: "slice (buffer d) p 4 = word_bytes w" "slice (buffer d) (p + 4) (4 * length ws) = words_bytes ws"
    using sl Cons.prems(2) by (simp_all add: append_eq_append_conv)
  have "read_u32 (buffer d) p = w"
  proof -
    have "buffer d ! (p + k) = word_bytes w ! k" if "k < 4" for k
      using nth_slice [of p 4 "buffer d" k] s(1) that Cons.prems(2) by simp
    from this [of 0] this [of 1] this [of 2] this [of 3]
    show ?thesis using u32_bytes_join [of w] by (simp add: read_u32_def word_bytes_def numeral_eq_Suc)
  qed
  then have "write_words hw len p d = write_words hw (len - 4) (p + 4) (emmc_wr data_reg w d)"
    using l(1) Cons.prems(2) by (subst write_words.simps) simp
  also have "\<dots> = Some ((emmc_wr data_reg w d)\<lparr>hist := port_writes ws @ hist (emmc_wr data_reg w d)\<rparr>)"
    by (rule Cons.IH) (use l(2) Cons.prems(2) s(2) in \<open>simp_all add: emmc_wr_eq\<close>)
  finally show ?case by (simp add: emmc_wr_eq port_writes_def)
qed

text \<open>A block: the flags while the port is not ready, the flags when it is, and the words.\<close>

record block_turn =
  not_ready :: "u32 list"
  ready_flags :: u32
  port_words :: "u32 list"

definition turn_ok :: "u32 \<Rightarrow> u32 \<Rightarrow> block_turn \<Rightarrow> bool" where
  "turn_ok irpt bs t \<longleftrightarrow> (\<forall>v \<in> set (not_ready t). v AND (irpt OR 0x8000) = 0) \<and> length (not_ready t) \<le> 20000
     \<and> ready_flags t AND (0xFFFF0000 OR irpt) = irpt \<and> 4 * length (port_words t) = unat bs"

definition turn_log :: "u32 \<Rightarrow> (u32 list \<Rightarrow> history) \<Rightarrow> block_turn \<Rightarrow> history" where
  "turn_log irpt port t = port (port_words t) @ [Wr (Mmio int_flags_reg) (irpt OR 0x8000), Rd (Mmio int_flags_reg) (ready_flags t),
     Rd (Mmio int_flags_reg) (ready_flags t)] @ polls int_flags_reg (not_ready t)"

fun turns_log :: "u32 \<Rightarrow> (u32 list \<Rightarrow> history) \<Rightarrow> block_turn list \<Rightarrow> history" where
  "turns_log irpt port [] = []"
| "turns_log irpt port (t # ts) = turns_log irpt port ts @ turn_log irpt port t"

abbreviation turn_bytes :: "block_turn list \<Rightarrow> u8 list" where
  "turn_bytes ts \<equiv> concat (map (\<lambda>t. words_bytes (port_words t)) ts)"

lemma masked_bits: "v AND m = k \<Longrightarrow> k AND n \<noteq> 0 \<Longrightarrow> v AND n \<noteq> (0 :: u32)"
proof
  assume k: "v AND m = k" "k AND n \<noteq> 0" "v AND n = 0"
  have "k AND n = (v AND n) AND m" unfolding k(1) [symmetric] by (simp only: and.assoc and.commute [of m n])
  then show False using k(2,3) by simp
qed

lemma length_turn_bytes: "\<forall>t \<in> set ts. turn_ok irpt bs t \<Longrightarrow> length (turn_bytes ts) = length ts * unat bs"
proof (induction ts)
  case (Cons t ts)
  have "4 * length (port_words t) = unat bs" using Cons.prems by (simp add: turn_ok_def)
  then show ?case using Cons by simp
qed simp

lemma turn_start:
  assumes "turn_ok irpt bs t" "irpt = 0x20 \<or> irpt = 0x10" "explains hw (turn_log irpt port t @ hist d)"
  shows "wait_reg_mask hw int_flags_reg (irpt OR 0x8000) True 20000 d
      = (True, d\<lparr>hist := Rd (Mmio int_flags_reg) (ready_flags t) # polls int_flags_reg (not_ready t) @ hist d\<rparr>)" (is "_ = (True, ?d1)")
    "emmc_rd hw int_flags_reg (d\<lparr>hist := Rd (Mmio int_flags_reg) (ready_flags t) # polls int_flags_reg (not_ready t) @ hist d\<rparr>)
      = (ready_flags t, d\<lparr>hist := Rd (Mmio int_flags_reg) (ready_flags t) # Rd (Mmio int_flags_reg) (ready_flags t) # polls int_flags_reg (not_ready t) @ hist d\<rparr>)"
proof -
  have e: "explains hw ((port (port_words t) @ [Wr (Mmio int_flags_reg) (irpt OR 0x8000)]) @
      Rd (Mmio int_flags_reg) (ready_flags t) # Rd (Mmio int_flags_reg) (ready_flags t) # polls int_flags_reg (not_ready t) @ hist d)"
    using assms(3) by (simp add: turn_log_def)
  note e2 = explains_append [OF e]
  have rdy: "ready_flags t AND (irpt OR 0x8000) \<noteq> 0"
    by (rule masked_bits [of _ "0xFFFF0000 OR irpt" irpt]) (use assms(1,2) in \<open>auto simp: turn_ok_def\<close>)
  show "wait_reg_mask hw int_flags_reg (irpt OR 0x8000) True 20000 d = (True, ?d1)"
    unfolding wait_reg_mask_def
    by (rule wait_polls [OF _ _ rdy]) (use e2 assms(1) in \<open>simp_all add: turn_ok_def\<close>)
  show "emmc_rd hw int_flags_reg ?d1
      = (ready_flags t, d\<lparr>hist := Rd (Mmio int_flags_reg) (ready_flags t) # Rd (Mmio int_flags_reg) (ready_flags t) # polls int_flags_reg (not_ready t) @ hist d\<rparr>)"
  proof -
    have "hist ?d1 = Rd (Mmio int_flags_reg) (ready_flags t) # polls int_flags_reg (not_ready t) @ hist d" by simp
    then have "explains hw (Rd (Mmio int_flags_reg) (ready_flags t) # hist ?d1)" using e2 by (simp only:)
    from emmc_rd_explained [OF this] show ?thesis by simp
  qed
qed

lemma read_turns:
  assumes "\<forall>t \<in> set ts. turn_ok 0x20 (block_size d) t" "explains hw (turns_log 0x20 port_reads ts @ hist d)"
    "p + length ts * unat (block_size d) \<le> length (buffer d)"
  shows "data_blocks hw 0x20 False (length ts) p d = Some (True, d\<lparr>buffer := blit (buffer d) p (turn_bytes ts), hist := turns_log 0x20 port_reads ts @ hist d\<rparr>)"
  using assms
proof (induction ts arbitrary: d p)
  case (Cons t ts)
  have ok: "turn_ok 0x20 (block_size d) t" using Cons.prems(1) by simp
  have e: "explains hw (turn_log 0x20 port_reads t @ hist d)" by (rule explains_append) (use Cons.prems(2) in simp)
  note st = turn_start [OF ok _ e, simplified]
  let ?d2 = "d\<lparr>hist := Rd (Mmio int_flags_reg) (ready_flags t) # Rd (Mmio int_flags_reg) (ready_flags t) # polls int_flags_reg (not_ready t) @ hist d\<rparr>"
  let ?d3 = "emmc_wr int_flags_reg (0x20 OR 0x8000) ?d2"
  have n: "4 * length (port_words t) = unat (block_size d)" "ready_flags t AND (0xFFFF0000 OR 0x20) = 0x20" using ok by (simp_all add: turn_ok_def)
  have room: "p + unat (block_size d) \<le> length (buffer d)" using Cons.prems(3) by simp
  have rw: "read_words hw (block_size ?d3) p ?d3 = Some (?d3\<lparr>buffer := blit (buffer ?d3) p (words_bytes (port_words t)), hist := port_reads (port_words t) @ hist ?d3\<rparr>)"
    by (rule read_words_served) (use e n room in \<open>simp_all add: emmc_wr_eq turn_log_def\<close>)
  let ?d4 = "?d3\<lparr>buffer := blit (buffer ?d3) p (words_bytes (port_words t)), hist := port_reads (port_words t) @ hist ?d3\<rparr>"
  have h4: "hist ?d4 = turn_log 0x20 port_reads t @ hist d" by (simp add: emmc_wr_eq turn_log_def)
  have b4: "block_size ?d4 = block_size d" "length (buffer ?d4) = length (buffer d)" using room n by (simp_all add: emmc_wr_eq)
  have ih: "data_blocks hw 0x20 False (length ts) (p + unat (block_size d)) ?d4
      = Some (True, ?d4\<lparr>buffer := blit (buffer ?d4) (p + unat (block_size d)) (turn_bytes ts), hist := turns_log 0x20 port_reads ts @ hist ?d4\<rparr>)"
  proof (rule Cons.IH)
    show "\<forall>t \<in> set ts. turn_ok 0x20 (block_size ?d4) t" using Cons.prems(1) b4 by simp
    show "explains hw (turns_log 0x20 port_reads ts @ hist ?d4)" using Cons.prems(2) by (simp only: h4) simp
    show "p + unat (block_size d) + length ts * unat (block_size ?d4) \<le> length (buffer ?d4)" using Cons.prems(3) b4 by simp
  qed
  have bb: "blit (blit (buffer d) p (words_bytes (port_words t))) (p + unat (block_size d)) (turn_bytes ts) = blit (buffer d) p (turn_bytes (t # ts))"
    using blit_blit [of p "words_bytes (port_words t)" "turn_bytes ts" "buffer d"] Cons.prems(3) n length_turn_bytes [of ts "0x20" "block_size d"] Cons.prems(1) by simp
  have "data_blocks hw 0x20 False (length (t # ts)) p d = data_blocks hw 0x20 False (length ts) (p + unat (block_size d)) ?d4"
    using st n(2) rw by (simp add: Let_def emmc_wr_eq)
  also have "\<dots> = Some (True, d\<lparr>buffer := blit (buffer d) p (turn_bytes (t # ts)), hist := turns_log 0x20 port_reads (t # ts) @ hist d\<rparr>)"
    unfolding ih bb [symmetric] by (simp add: emmc_wr_eq turn_log_def)
  finally show ?case .
qed simp

lemma write_turns:
  assumes "\<forall>t \<in> set ts. turn_ok 0x10 (block_size d) t" "explains hw (turns_log 0x10 port_writes ts @ hist d)"
    "p + length ts * unat (block_size d) \<le> length (buffer d)" "slice (buffer d) p (length ts * unat (block_size d)) = turn_bytes ts"
  shows "data_blocks hw 0x10 True (length ts) p d = Some (True, d\<lparr>hist := turns_log 0x10 port_writes ts @ hist d\<rparr>)"
  using assms
proof (induction ts arbitrary: d p)
  case (Cons t ts)
  have ok: "turn_ok 0x10 (block_size d) t" using Cons.prems(1) by simp
  have e: "explains hw (turn_log 0x10 port_writes t @ hist d)" by (rule explains_append) (use Cons.prems(2) in simp)
  note st = turn_start [OF ok _ e, simplified]
  let ?d2 = "d\<lparr>hist := Rd (Mmio int_flags_reg) (ready_flags t) # Rd (Mmio int_flags_reg) (ready_flags t) # polls int_flags_reg (not_ready t) @ hist d\<rparr>"
  let ?d3 = "emmc_wr int_flags_reg (0x10 OR 0x8000) ?d2"
  have n: "4 * length (port_words t) = unat (block_size d)" "ready_flags t AND (0xFFFF0000 OR 0x10) = 0x10" using ok by (simp_all add: turn_ok_def)
  have room: "p + unat (block_size d) \<le> length (buffer d)" using Cons.prems(3) by simp
  have sl: "slice (buffer d) p (unat (block_size d)) @ slice (buffer d) (p + unat (block_size d)) (length ts * unat (block_size d))
      = words_bytes (port_words t) @ turn_bytes ts"
    using Cons.prems(4) slice_add [of "buffer d" p "unat (block_size d)" "length ts * unat (block_size d)"] by simp
  have len: "length (slice (buffer d) p (unat (block_size d))) = length (words_bytes (port_words t))" using room n by simp
  have s: "slice (buffer d) p (unat (block_size d)) = words_bytes (port_words t)"
    "slice (buffer d) (p + unat (block_size d)) (length ts * unat (block_size d)) = turn_bytes ts"
    using append_eq_append_conv [OF disjI1, OF len] sl by simp_all
  have ww: "write_words hw (block_size ?d3) p ?d3 = Some (?d3\<lparr>hist := port_writes (port_words t) @ hist ?d3\<rparr>)"
    by (rule write_words_sent) (use n room s(1) in \<open>simp_all add: emmc_wr_eq\<close>)
  let ?d4 = "?d3\<lparr>hist := port_writes (port_words t) @ hist ?d3\<rparr>"
  have h4: "hist ?d4 = turn_log 0x10 port_writes t @ hist d" by (simp add: emmc_wr_eq turn_log_def)
  have b4: "block_size ?d4 = block_size d" "buffer ?d4 = buffer d" by (simp_all add: emmc_wr_eq)
  have ih: "data_blocks hw 0x10 True (length ts) (p + unat (block_size d)) ?d4 = Some (True, ?d4\<lparr>hist := turns_log 0x10 port_writes ts @ hist ?d4\<rparr>)"
  proof (rule Cons.IH)
    show "\<forall>t \<in> set ts. turn_ok 0x10 (block_size ?d4) t" using Cons.prems(1) b4 by simp
    show "explains hw (turns_log 0x10 port_writes ts @ hist ?d4)" using Cons.prems(2) by (simp only: h4) simp
    show "p + unat (block_size d) + length ts * unat (block_size ?d4) \<le> length (buffer ?d4)" using Cons.prems(3) b4 by simp
    show "slice (buffer ?d4) (p + unat (block_size d)) (length ts * unat (block_size ?d4)) = turn_bytes ts" using s(2) b4 by simp
  qed
  have "data_blocks hw 0x10 True (length (t # ts)) p d = data_blocks hw 0x10 True (length ts) (p + unat (block_size d)) ?d4"
    using st n(2) ww by (simp add: Let_def emmc_wr_eq)
  also have "\<dots> = Some (True, d\<lparr>hist := turns_log 0x10 port_writes (t # ts) @ hist d\<rparr>)"
    unfolding ih by (simp add: emmc_wr_eq turn_log_def)
  finally show ?case .
qed simp

text \<open>A whole command with data: the status while the controller is busy and when it is free, the flags while the
  command is pending and when it is complete, the response, the blocks, and the flags until the transfer has ended.\<close>

record transaction =
  busy_status :: "u32 list"
  free_status :: u32
  pending_flags :: "u32 list"
  complete_flags :: u32
  response_word :: u32
  turns :: "block_turn list"
  moving_flags :: "u32 list"
  ended_flags :: u32

definition transaction_ok :: "u32 \<Rightarrow> nat \<Rightarrow> sd_device \<Rightarrow> transaction \<Rightarrow> bool" where
  "transaction_ok irpt timeout d t \<longleftrightarrow>
     (\<forall>v \<in> set (busy_status t). v AND 3 \<noteq> 0) \<and> length (busy_status t) \<le> 2000 \<and> free_status t AND 3 = 0
   \<and> (\<forall>v \<in> set (pending_flags t). v AND 0x8001 = 0) \<and> length (pending_flags t) < timeout \<and> complete_flags t AND 0xFFFF0001 = 1
   \<and> (\<forall>b \<in> set (turns t). turn_ok irpt (block_size d) b) \<and> length (turns t) = unat (transfer_blocks d)
   \<and> (\<forall>v \<in> set (moving_flags t). v AND 0x8002 = 0) \<and> length (moving_flags t) \<le> 2000 \<and> ended_flags t AND 0xFFFF0002 = 2"

definition issued_log :: "emmc_cmd \<Rightarrow> u32 \<Rightarrow> sd_device \<Rightarrow> transaction \<Rightarrow> history" where
  "issued_log cmd arg d t = [Rd (Mmio (response_reg 0)) (response_word t), Wr (Mmio int_flags_reg) 0xFFFF0001, Rd (Mmio int_flags_reg) (complete_flags t),
     Rd (Mmio int_flags_reg) (complete_flags t)] @ polls int_flags_reg (pending_flags t) @ Wait 2 # issue_log cmd arg d
     @ Rd (Mmio status_reg) (free_status t) # polls status_reg (busy_status t)"

definition ended_log :: "transaction \<Rightarrow> history" where
  "ended_log t = [Wr (Mmio int_flags_reg) 0xFFFF0002, Wr (Mmio int_flags_reg) 0xFFFF0002, Rd (Mmio int_flags_reg) (ended_flags t),
     Rd (Mmio int_flags_reg) (ended_flags t)] @ polls int_flags_reg (moving_flags t)"

definition transaction_log :: "u32 \<Rightarrow> (u32 list \<Rightarrow> history) \<Rightarrow> emmc_cmd \<Rightarrow> u32 \<Rightarrow> sd_device \<Rightarrow> transaction \<Rightarrow> history" where
  "transaction_log irpt port cmd arg d t = ended_log t @ turns_log irpt port (turns t) @ issued_log cmd arg d t"

lemma finish_ended:
  assumes "explains hw (ended_log t @ hist d)" "\<forall>v \<in> set (moving_flags t). v AND 0x8002 = 0" "length (moving_flags t) \<le> 2000"
    "ended_flags t AND 0xFFFF0002 = 2"
  shows "finish_transfer hw d = (True, d\<lparr>hist := ended_log t @ hist d\<rparr>)"
proof -
  let ?f = "Rd (Mmio int_flags_reg) (ended_flags t)" and ?p = "polls int_flags_reg (moving_flags t) @ hist d"
  have "explains hw ([Wr (Mmio int_flags_reg) 0xFFFF0002, Wr (Mmio int_flags_reg) 0xFFFF0002] @ ?f # ?f # ?p)" using assms(1) by (simp only: ended_log_def append_Cons append_Nil append_assoc)
  note e2 = explains_append [OF this]
  have "explains hw ([?f] @ ?f # ?p)" using e2 by (simp only: append_Cons append_Nil)
  note e1 = explains_append [OF this]
  have rdy: "ended_flags t AND 0x8002 \<noteq> 0" by (rule masked_bits [OF assms(4)]) simp
  have w: "wait_reg_mask hw int_flags_reg 0x8002 True 2000 d = (True, d\<lparr>hist := ?f # ?p\<rparr>)"
    unfolding wait_reg_mask_def by (rule wait_polls [OF _ assms(2) rdy]) (use e1 assms(3) in simp_all)
  have "hist (d\<lparr>hist := ?f # ?p\<rparr>) = ?f # ?p" by simp
  then have "explains hw (?f # hist (d\<lparr>hist := ?f # ?p\<rparr>))" using e2 by (simp only:)
  from emmc_rd_explained [OF this]
  have r: "emmc_rd hw int_flags_reg (d\<lparr>hist := ?f # ?p\<rparr>) = (ended_flags t, d\<lparr>hist := ?f # ?f # ?p\<rparr>)" by simp
  show ?thesis unfolding finish_transfer_def w prod.case r Let_def using assms(4) by (simp add: emmc_wr_eq ended_log_def)
qed

lemma issue_reaches_data:
  assumes "explains hw (issued_log cmd arg d t @ hist d)" "transaction_ok irpt timeout d t" "transfer_blocks d \<le> 0xFFFF"
    "is_data cmd \<noteq> 0" "response_type cmd = RT48" "last_response d \<noteq> []"
  shows "issue_command hw cmd arg timeout d = do {
     (_, d8) \<leftarrow> do_data_transfer hw cmd (d\<lparr>last_command_value := TO_REG cmd, last_response := (last_response d)[0 := response_word t],
       hist := issued_log cmd arg d t @ hist d\<rparr>);
     case finish_transfer hw d8 of (ok, d9) \<Rightarrow> Some (if ok then (True, d9\<lparr>last_success := True\<rparr>) else (False, d9))
   }"
proof -
  note ok = assms(2) [unfolded transaction_ok_def]
  let ?s = "Rd (Mmio status_reg) (free_status t) # polls status_reg (busy_status t) @ hist d"
  let ?c = "Rd (Mmio int_flags_reg) (complete_flags t)" and ?q = "polls int_flags_reg (pending_flags t) @ Wait 2 # issue_log cmd arg d @ ?s"
    and ?r = "Rd (Mmio (response_reg 0)) (response_word t)"
  have e0: "explains hw ([?r, Wr (Mmio int_flags_reg) 0xFFFF0001] @ ?c # ?c # ?q)" using assms(1) by (simp only: issued_log_def append_Cons append_Nil append_assoc)
  note e1 = explains_append [OF e0]
  have e2: "explains hw ([?c] @ polls int_flags_reg (pending_flags t) @ Wait 2 # issue_log cmd arg d @ ?s)"
    by (rule explains_append [where xs = "[?c]"]) (use e1 in \<open>simp only: append_Cons append_Nil\<close>)
  have e3: "explains hw ([Rd (Mmio status_reg) (free_status t)] @ polls status_reg (busy_status t) @ hist d)"
    by (rule explains_append [where xs = "(?c # polls int_flags_reg (pending_flags t)) @ Wait 2 # issue_log cmd arg d"]) (use e2 in \<open>simp only: append_Cons append_Nil append_assoc\<close>)
  let ?d0 = "d\<lparr>last_command_value := TO_REG cmd\<rparr>"
  have i: "inhibit_loop 2001 hw ?d0 = (True, ?d0\<lparr>hist := ?s\<rparr>)" using inhibit_polls [of hw "free_status t" "busy_status t" ?d0 2001] e3 ok by simp
  let ?d4 = "?d0\<lparr>hist := issue_log cmd arg d @ ?s\<rparr>"
  have sp: "issue_command hw cmd arg timeout d = after_issue hw cmd timeout ?d4"
    using issue_command_split [OF i assms(3), of arg timeout] by (simp add: emmc_wr_eq issue_log_def)
  have rdy: "complete_flags t AND 0x8001 \<noteq> 0" by (rule masked_bits [of _ "0xFFFF0001" 1]) (use ok in simp_all)
  have dn: "done_loop timeout hw (emmc_delay 2 ?d4) = (True, ?d0\<lparr>hist := ?c # ?q\<rparr>)"
    using done_polls [of hw "complete_flags t" "pending_flags t" "emmc_delay 2 ?d4" timeout] e2 rdy ok by (simp add: emmc_delay_eq)
  have "hist (?d0\<lparr>hist := ?c # ?q\<rparr>) = ?c # ?q" by simp
  then have "explains hw (?c # hist (?d0\<lparr>hist := ?c # ?q\<rparr>))" using e1 by (simp only:)
  from emmc_rd_explained [OF this]
  have r1: "emmc_rd hw int_flags_reg (?d0\<lparr>hist := ?c # ?q\<rparr>) = (complete_flags t, ?d0\<lparr>hist := ?c # ?c # ?q\<rparr>)" by simp
  let ?d7 = "?d0\<lparr>hist := Wr (Mmio int_flags_reg) 0xFFFF0001 # ?c # ?c # ?q\<rparr>"
  have "hist ?d7 = Wr (Mmio int_flags_reg) 0xFFFF0001 # ?c # ?c # ?q" by simp
  then have "explains hw (?r # hist ?d7)" using e0 by (simp only: append_Cons append_Nil)
  from emmc_rd_explained [OF this]
  have r2: "read_responses hw cmd ?d7 = d\<lparr>last_command_value := TO_REG cmd, last_response := (last_response d)[0 := response_word t],
       hist := issued_log cmd arg d t @ hist d\<rparr>"
    using assms(5) by (simp add: read_responses_def read_response_def issued_log_def)
  have cf: "\<not> complete_flags t AND 0xFFFF0001 \<noteq> 1" using ok by simp
  show ?thesis
    unfolding sp after_issue_def dn prod.case r1 Let_def using cf assms(4) r2
    by (simp add: emmc_wr_eq case_prod_beta)
qed

text \<open>The device after a read that ran through: the command, the card's response, the blocks and the accesses are noted, and
  nothing else is changed.\<close>

definition read_done :: "emmc_cmd \<Rightarrow> u32 \<Rightarrow> sd_device \<Rightarrow> transaction \<Rightarrow> sd_device" where
  "read_done cmd arg d t = d\<lparr>last_command_value := TO_REG cmd, last_response := (last_response d)[0 := response_word t],
     buffer := blit (buffer d) 0 (turn_bytes (turns t)), hist := transaction_log 0x20 port_reads cmd arg d t @ hist d, last_success := True\<rparr>"

lemma read_transaction:
  assumes "explains hw (transaction_log 0x20 port_reads cmd arg d t @ hist d)" "transaction_ok 0x20 timeout d t" "transfer_blocks d \<le> 0xFFFF"
    "is_data cmd \<noteq> 0" "response_type cmd = RT48" "direction cmd \<noteq> 0" "last_response d \<noteq> []"
    "unat (transfer_blocks d) * unat (block_size d) \<le> length (buffer d)"
  shows "issue_command hw cmd arg timeout d = Some (True, read_done cmd arg d t)"
proof -
  note ok = assms(2) [unfolded transaction_ok_def]
  let ?i = "issued_log cmd arg d t @ hist d"
  have e1: "explains hw (turns_log 0x20 port_reads (turns t) @ ?i)"
    by (rule explains_append [where xs = "ended_log t"]) (use assms(1) in \<open>simp only: transaction_log_def append_assoc\<close>)
  note e2 = explains_append [OF e1]
  define d7 where "d7 = d\<lparr>last_command_value := TO_REG cmd, last_response := (last_response d)[0 := response_word t], hist := ?i\<rparr>"
  have f: "block_size d7 = block_size d" "buffer d7 = buffer d" "hist d7 = ?i" "transfer_blocks d7 = transfer_blocks d" by (simp_all add: d7_def)
  define d8 where "d8 = d7\<lparr>buffer := blit (buffer d7) 0 (turn_bytes (turns t)), hist := turns_log 0x20 port_reads (turns t) @ hist d7\<rparr>"
  have r: "do_data_transfer hw cmd d7 = Some (True, d8)"
    unfolding do_data_transfer_def d8_def using read_turns [of "turns t" d7 hw 0] assms(6,8) e1 f ok by simp
  have "hist d8 = turns_log 0x20 port_reads (turns t) @ ?i" by (simp add: d8_def f)
  then have "explains hw (ended_log t @ hist d8)" using assms(1) by (simp only: transaction_log_def append_assoc)
  then have fin: "finish_transfer hw d8 = (True, d8\<lparr>hist := ended_log t @ hist d8\<rparr>)" by (rule finish_ended) (use ok in simp_all)
  have "issue_command hw cmd arg timeout d = Some (True, d8\<lparr>hist := ended_log t @ hist d8, last_success := True\<rparr>)"
    unfolding issue_reaches_data [OF e2 assms(2-5,7)] d7_def [symmetric] by (simp add: r fin)
  then show ?thesis by (simp add: d8_def d7_def read_done_def transaction_log_def)
qed

lemma write_transaction:
  assumes "explains hw (transaction_log 0x10 port_writes cmd arg d t @ hist d)" "transaction_ok 0x10 timeout d t" "transfer_blocks d \<le> 0xFFFF"
    "is_data cmd \<noteq> 0" "response_type cmd = RT48" "direction cmd = 0" "last_response d \<noteq> []"
    "unat (transfer_blocks d) * unat (block_size d) = length (buffer d)" "turn_bytes (turns t) = buffer d"
  obtains d' where "issue_command hw cmd arg timeout d = Some (True, d')" "buffer d' = buffer d"
    "hist d' = transaction_log 0x10 port_writes cmd arg d t @ hist d"
proof -
  note ok = assms(2) [unfolded transaction_ok_def]
  let ?i = "issued_log cmd arg d t @ hist d"
  have e1: "explains hw (turns_log 0x10 port_writes (turns t) @ ?i)"
    by (rule explains_append [where xs = "ended_log t"]) (use assms(1) in \<open>simp only: transaction_log_def append_assoc\<close>)
  note e2 = explains_append [OF e1]
  define d7 where "d7 = d\<lparr>last_command_value := TO_REG cmd, last_response := (last_response d)[0 := response_word t], hist := ?i\<rparr>"
  have f: "block_size d7 = block_size d" "buffer d7 = buffer d" "hist d7 = ?i" "transfer_blocks d7 = transfer_blocks d" by (simp_all add: d7_def)
  define d8 where "d8 = d7\<lparr>hist := turns_log 0x10 port_writes (turns t) @ hist d7\<rparr>"
  have r: "do_data_transfer hw cmd d7 = Some (True, d8)"
    unfolding do_data_transfer_def d8_def using write_turns [of "turns t" d7 hw 0] assms(6,8,9) e1 f ok by simp
  have "hist d8 = turns_log 0x10 port_writes (turns t) @ ?i" by (simp add: d8_def f)
  then have "explains hw (ended_log t @ hist d8)" using assms(1) by (simp only: transaction_log_def append_assoc)
  then have fin: "finish_transfer hw d8 = (True, d8\<lparr>hist := ended_log t @ hist d8\<rparr>)" by (rule finish_ended) (use ok in simp_all)
  show thesis
  proof (rule that [of "d8\<lparr>hist := ended_log t @ hist d8, last_success := True\<rparr>"])
    show "issue_command hw cmd arg timeout d = Some (True, d8\<lparr>hist := ended_log t @ hist d8, last_success := True\<rparr>)"
      unfolding issue_reaches_data [OF e2 assms(2-5,7)] d7_def [symmetric] by (simp add: r fin)
  qed (simp_all add: d8_def f transaction_log_def)
qed

text \<open>The device of the command layer that a register-level device stands for.\<close>

definition stands_for :: "sd_device \<Rightarrow> emmc_device \<Rightarrow> bool" where
  "stands_for d a \<longleftrightarrow> emmc_device.transfer_blocks a = transfer_blocks d \<and> emmc_device.block_size a = block_size d
     \<and> emmc_device.sdhc a = sdhc d \<and> block_size d = 512 \<and> emmc_ok a \<and> transfer_blocks d \<le> 0xFFFF
     \<and> length (buffer d) = 512 * unat (transfer_blocks d) \<and> length (last_response d) = 4"

lemma commands_17_24:
  "command_at CTReadBlock = Some (commands ! 17)" "command_at CTReadMultiple = Some (commands ! 18)" "command_at CTWriteBlock = Some (commands ! 24)"
  "TO_REG (commands ! 18) \<noteq> TO_REG RES_CMD" "is_data (commands ! 18) = 1" "direction (commands ! 18) = 1"
  "response_type (commands ! 17) = RT48" "response_type (commands ! 18) = RT48" "response_type (commands ! 24) = RT48"
  by (simp_all add: command_at_def CTReadBlock_def CTReadMultiple_def CTWriteBlock_def commands_def mk_cmd_def RES_CMD_def TO_REG_def RT48_def)

lemma length_card_read: "\<forall>b. length (blocks c b) = 512 \<Longrightarrow> length (card_read c b n) = 512 * n"
  by (induction n arbitrary: b) simp_all

lemma stands_forD:
  assumes "stands_for d a"
  shows "\<not> 0xFFFF < emmc_device.transfer_blocks a" "card_answers (sd_card a) = (True, sd_card a)"
    "\<forall>b. length (blocks (sd_card a) b) = 512" "last_response d \<noteq> []" "transfer_blocks d \<le> 0xFFFF"
    "length (buffer d) = 512 * unat (transfer_blocks d)" "block_size d = 512" "emmc_device.transfer_blocks a = transfer_blocks d"
  using assms by (auto simp: stands_for_def not_less emmc_ok_def card_answers_def)

lemma transaction_same:
  "transaction_log irpt port cmd arg (d\<lparr>last_command := c\<rparr>) t = transaction_log irpt port cmd arg d t"
  "transaction_ok irpt timeout (d\<lparr>last_command := c\<rparr>) t = transaction_ok irpt timeout d t"
  by (simp_all add: transaction_log_def issued_log_def issue_log_def transaction_ok_def)

text \<open>C4: Reading below the command layer. If the controller carries out the accesses of a read command, with as many
  not-ready answers as the driver's waits allow, and its data port gives the blocks of the card, then the driver's
  command succeeds. The device it leaves has noted the command, the response, the accesses and the blocks, and nothing else
  is changed in it; it stands for the device of the command layer again, and its buffer is the one that the command
  layer of the data path has for this card.\<close>

theorem read_refines_card:
  assumes "stands_for d a" "command \<in> {CTReadBlock, CTReadMultiple}" "cmd = commands ! unat command" "transaction_ok 0x20 timeout d t"
    "explains hw (transaction_log 0x20 port_reads cmd arg d t @ hist d)"
    "turn_bytes (turns t) = card_read (sd_card a) (card_block_no (sd_card a) arg) (unat (transfer_blocks d))"
  shows "\<exists>d'. host_command hw command arg timeout d = Some (True, d') \<and> d' = read_done cmd arg (d\<lparr>last_command := cmd\<rparr>) t
    \<and> stands_for d' a \<and> emmc_command command arg (buffer d) a = (True, buffer d', a)"
proof -
  note s = stands_forD [OF assms(1)]
  have cm: "command_at command = Some cmd" "TO_REG cmd \<noteq> TO_REG RES_CMD" "is_data cmd = 1" "direction cmd = 1" "response_type cmd = RT48"
    "command AND 0x80000000 = 0"
    using assms(2,3) commands_17_24 read_command_valid by (auto simp: CTReadBlock_def CTReadMultiple_def)
  let ?d = "d\<lparr>last_command := cmd\<rparr>"
  let ?d' = "read_done cmd arg ?d t"
  have "issue_command hw cmd arg timeout ?d = Some (True, ?d')"
    by (rule read_transaction) (use assms(4,5) s cm in \<open>simp_all add: transaction_same\<close>)
  then have "host_command hw command arg timeout d = Some (True, ?d')" using cm by (simp add: host_command_def)
  moreover have b: "buffer ?d' = blit (buffer d) 0 (card_read (sd_card a) (card_block_no (sd_card a) arg) (unat (transfer_blocks d)))"
    using assms(6) by (simp add: read_done_def)
  then have "emmc_command command arg (buffer d) a = (True, buffer ?d', a)"
    using s cm assms(2,3) by (simp add: emmc_command_def emmc_issue_command_def Let_def)
  moreover have "length (card_read (sd_card a) (card_block_no (sd_card a) arg) (unat (transfer_blocks d))) = length (buffer d)"
    using s(6) length_card_read [OF s(3)] by simp
  then have "stands_for ?d' a" using assms(1) b by (simp add: stands_for_def) (simp add: read_done_def)
  ultimately show ?thesis by blast
qed

text \<open>Writing below the command layer. If the controller carries out the accesses of a write command and its port takes
  the words of the buffer, then the driver's command succeeds, exactly those words have gone through the data port,
  in order, and they are what the command layer stores on the card.\<close>

theorem write_refines_card:
  assumes "stands_for d a" "cmd = commands ! 24" "transaction_ok 0x10 timeout d t"
    "explains hw (transaction_log 0x10 port_writes cmd arg d t @ hist d)" "turn_bytes (turns t) = buffer d"
  shows "\<exists>d'. host_command hw CTWriteBlock arg timeout d = Some (True, d') \<and> hist d' = transaction_log 0x10 port_writes cmd arg d t @ hist d
    \<and> emmc_command CTWriteBlock arg (buffer d) a = (True, buffer d, a\<lparr>sd_card := (sd_card a)\<lparr>blocks :=
        card_write (blocks (sd_card a)) (card_block_no (sd_card a) arg) (unat (transfer_blocks d)) (turn_bytes (turns t))\<rparr>\<rparr>)"
proof -
  note s = stands_forD [OF assms(1)]
  have cm: "command_at CTWriteBlock = Some cmd" "TO_REG cmd \<noteq> TO_REG RES_CMD" "is_data cmd = 1" "direction cmd = 0" "response_type cmd = RT48"
    "CTWriteBlock AND 0x80000000 = 0" "unat CTWriteBlock = 24"
    using assms(2) commands_17_24 write_command_valid by (auto simp: CTWriteBlock_def)
  let ?d = "d\<lparr>last_command := cmd\<rparr>"
  obtain d' where d': "issue_command hw cmd arg timeout ?d = Some (True, d')" "hist d' = transaction_log 0x10 port_writes cmd arg ?d t @ hist ?d"
    by (rule write_transaction [of hw cmd arg ?d t timeout]) (use assms(3-5) s cm in \<open>simp_all add: transaction_same\<close>)
  have "host_command hw CTWriteBlock arg timeout d = Some (True, d')" using d'(1) cm by (simp add: host_command_def)
  moreover have "hist d' = transaction_log 0x10 port_writes cmd arg d t @ hist d" using d'(2) by (simp add: transaction_same)
  moreover have "emmc_command CTWriteBlock arg (buffer d) a = (True, buffer d, a\<lparr>sd_card := (sd_card a)\<lparr>blocks :=
        card_write (blocks (sd_card a)) (card_block_no (sd_card a) arg) (unat (transfer_blocks d)) (turn_bytes (turns t))\<rparr>\<rparr>)"
    using s cm assms(2,5) by (simp add: emmc_command_def emmc_issue_command_def Let_def)
  ultimately show ?thesis by blast
qed

section \<open>A controller that replays a history\<close>

definition replay :: "history \<Rightarrow> hardware" where
  "replay T h p = (if length h < length T then (case rev T ! length h of Rd q v \<Rightarrow> v | _ \<Rightarrow> 0) else 0)"

lemma replay_explains: "explains (replay T) T"
proof -
  have "explains (replay T) h" if "T = xs @ h" for xs h
    using that
  proof (induction h arbitrary: xs)
    case (Cons a h)
    have "T = (xs @ [a]) @ h" using Cons.prems by simp
    then have "explains (replay T) h" by (rule Cons.IH)
    moreover have at: "rev T ! length h = a" "length h < length T" using Cons.prems by (simp_all add: nth_append)
    have "replay T h p = v" if "a = Rd p v" for p v using at that by (simp add: replay_def)
    ultimately show ?case by (cases a) simp_all
  qed simp
  then show ?thesis by blast
qed

definition test_device :: sd_device where
  "test_device = \<lparr>last_success = False, transfer_blocks = 1, last_command = RES_CMD, last_command_value = 0, block_size = 512,
     last_response = [0, 0, 0, 0], sdhc = True, ocr = 0, rca = 0, offset64 = 0, buffer = replicate 512 0, base_clock = 0, last_error = 0,
     last_interrupt = 0, scr = replicate 8 0, scr_version = 0, property_data = [], devices = replicate 10 None, hist = []\<rparr>"

definition test_card :: emmc_device where
  "test_card = \<lparr>emmc_device.transfer_blocks = 1, block_size = 512, sdhc = True, dev_offset = 0,
     sd_card = \<lparr>blocks = (\<lambda>_. replicate 512 0), byte_addressed = False, outcomes = []\<rparr>\<rparr>"

definition test_transaction :: "u32 \<Rightarrow> transaction" where
  "test_transaction irpt = \<lparr>busy_status = [1, 3], free_status = 0, pending_flags = [0], complete_flags = 1, response_word = 0x900,
     turns = [\<lparr>not_ready = [0, 0], ready_flags = irpt, port_words = replicate 128 0\<rparr>], moving_flags = [], ended_flags = 2\<rparr>"

lemma zero_words: "words_bytes (replicate n 0) = replicate (4 * n) 0"
  by (induction n) (simp_all add: word_bytes_def numeral_eq_Suc)

lemma test_facts:
  "stands_for test_device test_card" "transaction_ok 0x20 5000 test_device (test_transaction 0x20)" "transaction_ok 0x10 5000 test_device (test_transaction 0x10)"
  "turn_bytes (turns (test_transaction irpt)) = replicate 512 0" "hist test_device = []" "buffer test_device = replicate 512 0"
  using zero_words [of 128]
  by (simp_all add: stands_for_def test_device_def test_card_def emmc_ok_def transaction_ok_def test_transaction_def turn_ok_def)

theorem read_refines_card_witness:
  "\<exists>hw d'. host_command hw CTReadBlock 7 5000 test_device = Some (True, d') \<and> stands_for d' test_card
     \<and> emmc_command CTReadBlock 7 (buffer test_device) test_card = (True, buffer d', test_card)"
proof -
  let ?T = "transaction_log 0x20 port_reads (commands ! 17) 7 test_device (test_transaction 0x20)"
  have "explains (replay ?T) (?T @ hist test_device)" using replay_explains [of ?T] by (simp add: test_facts)
  then show ?thesis
    using read_refines_card [OF test_facts(1) _ _ test_facts(2), of CTReadBlock "commands ! 17" "replay ?T" 7] test_facts(4)
    by (auto simp: CTReadBlock_def test_card_def test_device_def numeral_eq_Suc [of one])
qed

theorem write_refines_card_witness:
  "\<exists>hw d'. host_command hw CTWriteBlock 7 5000 test_device = Some (True, d')
    \<and> hist d' = transaction_log 0x10 port_writes (commands ! 24) 7 test_device (test_transaction 0x10)"
proof -
  let ?T = "transaction_log 0x10 port_writes (commands ! 24) 7 test_device (test_transaction 0x10)"
  have "explains (replay ?T) (?T @ hist test_device)" using replay_explains [of ?T] by (simp add: test_facts)
  then show ?thesis
    using write_refines_card [OF test_facts(1) refl test_facts(3), of "replay ?T" 7] test_facts(4,5,6) by auto
qed

theorem command_protocol_witness:
  "\<exists>hw d' xs. issue_command hw (commands ! 17) 7 5000 test_device = Some (True, d') \<and> hist d' = xs @ hist test_device
     \<and> (\<exists>later v earlier. xs = later @ issue_log (commands ! 17) 7 test_device @ Rd (Mmio status_reg) v # earlier \<and> v AND 3 = 0
        \<and> completed (commands ! 17) later)"
proof -
  let ?T = "transaction_log 0x20 port_reads (commands ! 17) 7 test_device (test_transaction 0x20)"
  have e: "explains (replay ?T) (?T @ hist test_device)" using replay_explains [of ?T] by (simp add: test_facts)
  note c = commands_17_24 read_command_valid
  have d': "issue_command (replay ?T) (commands ! 17) 7 5000 test_device = Some (True, read_done (commands ! 17) 7 test_device (test_transaction 0x20))"
    by (rule read_transaction [OF e test_facts(2)]) (use c in \<open>simp_all add: test_device_def\<close>)
  have "explains (replay ?T) (hist test_device)" by (simp add: test_facts)
  from command_protocol [OF d' this] d' show ?thesis by blast
qed

end
