(* ===== verification/EmmcInit.thy ===== *)
theory EmmcInit
  imports EmmcProto
begin

text \<open>
  Bringing the card up: what \<open>emmc_init\<close> guarantees when it reports success, whatever the hardware does, in terms of the
  commands written and the state of the driver, and how the outcome of a transfer is lost.
\<close>

section \<open>The commands of a history\<close>

fun issued :: "history \<Rightarrow> u32 list" where
  "issued [] = []"
| "issued (Wr p v # h) = (if p = Mmio cmd_xfer_mode_reg then issued h @ [v] else issued h)"
| "issued (_ # h) = issued h"

lemma issued_append: "issued (xs @ h) = issued h @ issued xs"
  by (induction xs rule: issued.induct) auto

lemma issued_none: "\<forall>v. Wr (Mmio cmd_xfer_mode_reg) v \<notin> set xs \<Longrightarrow> issued xs = []"
  by (induction xs rule: issued.induct) auto

definition ran :: "sd_device \<Rightarrow> u32 list \<Rightarrow> sd_device \<Rightarrow> bool" where
  "ran d ks d' \<longleftrightarrow> issued (hist d') = issued (hist d) @ ks"

lemma ran_trans: "ran a xs b \<Longrightarrow> ran b ys c \<Longrightarrow> ran a (xs @ ys) c"
  by (simp add: ran_def)

lemma ran_quiet: "quiet hw d d' \<Longrightarrow> ran d [] d'"
  unfolding quiet_def ran_def using issued_none by (auto simp: issued_append)

lemma ran_hist: "hist d1' = hist d1 \<Longrightarrow> hist d2' = hist d2 \<Longrightarrow> ran d1 ks d2 \<Longrightarrow> ran d1' ks d2'"
  by (simp add: ran_def)

section \<open>What commands leave alone\<close>

definition conf where
  "conf d = (transfer_blocks d, block_size d, sdhc d, ocr d, rca d, offset64 d, base_clock d, devices d, scr d)"

lemma conf_steps [simp]:
  "conf (snd (emmc_rd hw r d)) = conf d" "conf (emmc_wr r v d) = conf d" "conf (emmc_delay n d) = conf d"
  "conf (d\<lparr>hist := h\<rparr>) = conf d" "conf (d\<lparr>last_success := b\<rparr>) = conf d" "conf (d\<lparr>last_response := rs\<rparr>) = conf d"
  "conf (d\<lparr>last_command := c\<rparr>) = conf d" "conf (d\<lparr>last_command_value := v\<rparr>) = conf d" "conf (d\<lparr>buffer := buf\<rparr>) = conf d"
  "conf (set_last_error v d) = conf d"
  by (simp_all add: conf_def emmc_rd_eq emmc_wr_eq emmc_delay_eq set_last_error_def)

lemma conf_rd: "emmc_rd hw r d = (v, d1) \<Longrightarrow> conf d1 = conf d"
  using conf_steps(1) [of hw r d] by simp

lemma conf_wait: "conf (snd (wait_loop n hw r msk wanted d)) = conf d"
  by (induction n arbitrary: d) (auto simp: conf_rd split: prod.splits)

lemma conf_inhibit: "conf (snd (inhibit_loop n hw d)) = conf d"
  by (induction n arbitrary: d) (auto simp: conf_rd Let_def split: prod.splits)

lemma conf_done: "conf (snd (done_loop n hw d)) = conf d"
  by (induction n arbitrary: d) (auto simp: conf_rd split: prod.splits)

lemma conf_reset_spin: "conf (reset_spin n hw b d) = conf d"
  by (induction n arbitrary: d) (auto simp: conf_rd split: prod.splits)

lemma conf_host_reset: "conf (emmc_host_reset_cmd_dat hw d) = conf d"
  by (auto simp: emmc_host_reset_cmd_dat_def reset_line_def conf_reset_spin conf_rd Let_def split: prod.splits)

lemma conf_read_words: "read_words hw len p d = Some d' \<Longrightarrow> conf d' = conf d"
proof (induction hw len p d rule: read_words.induct)
  case (1 hw len p d)
  show ?case
  proof (cases "len = 0")
    case True
    then show ?thesis using "1.prems" by (simp add: read_words.simps [of hw 0 p d])
  next
    case False
    then show ?thesis using "1.prems" "1.IH" by (simp add: read_words.simps [of hw len p d] split: if_splits)
  qed
qed

lemma conf_write_words: "write_words hw len p d = Some d' \<Longrightarrow> conf d' = conf d"
proof (induction hw len p d rule: write_words.induct)
  case (1 hw len p d)
  show ?case
  proof (cases "len = 0")
    case True
    then show ?thesis using "1.prems" by (simp add: write_words.simps [of hw 0 p d])
  next
    case False
    then show ?thesis using "1.prems" "1.IH" by (simp add: write_words.simps [of hw len p d] split: if_splits)
  qed
qed

lemma conf_data_blocks: "data_blocks hw w write n p d = Some (r, d') \<Longrightarrow> conf d' = conf d"
proof (induction n arbitrary: p d)
  case (Suc n)
  obtain b d1 where w: "wait_reg_mask hw int_flags_reg (w OR 0x8000) True 20000 d = (b, d1)" by fastforce
  obtain v d2 where v: "emmc_rd hw int_flags_reg d1 = (v, d2)" by fastforce
  let ?d3 = "emmc_wr int_flags_reg (w OR 0x8000) d2"
  have "conf d1 = conf d" using conf_wait [of 20001 hw int_flags_reg "w OR 0x8000" True d] w by (simp add: wait_reg_mask_def del: wait_loop.simps)
  then have 3: "conf ?d3 = conf d" using conf_rd [OF v] by simp
  show ?case
  proof (cases "v AND (0xFFFF0000 OR w) \<noteq> w")
    case True
    then show ?thesis using Suc.prems 3 by (auto simp: w v Let_def)
  next
    case False
    then obtain d4 where d4: "(if write then write_words hw (block_size ?d3) p ?d3 else read_words hw (block_size ?d3) p ?d3) = Some d4"
      and d': "data_blocks hw w write n (p + unat (block_size ?d3)) d4 = Some (r, d')"
      using Suc.prems by (auto simp: w v Let_def bind_eq_Some_conv)
    have "conf d4 = conf ?d3" using d4 conf_write_words conf_read_words by (auto split: if_splits)
    then show ?thesis using Suc.IH [OF d'] 3 by simp
  qed
qed simp

lemma conf_responses: "conf (read_responses hw cmd d) = conf d"
  by (auto simp: read_responses_def read_response_def conf_rd split: prod.splits)

lemma conf_finish: "conf (snd (finish_transfer hw d)) = conf d"
proof -
  obtain b d1 where w: "wait_reg_mask hw int_flags_reg 0x8002 True 2000 d = (b, d1)" by fastforce
  obtain v d2 where v: "emmc_rd hw int_flags_reg d1 = (v, d2)" by fastforce
  have "conf d1 = conf d" using conf_wait [of 2001 hw int_flags_reg "0x8002" True d] w by (simp add: wait_reg_mask_def del: wait_loop.simps)
  then show ?thesis using conf_rd [OF v] by (simp add: finish_transfer_def w v Let_def)
qed

lemma conf_after_issue:
  assumes "after_issue hw cmd timeout d4 = Some (r, d')"
  shows "conf d' = conf d4"
proof -
  obtain f d5 where f: "done_loop timeout hw (emmc_delay 2 d4) = (f, d5)" by fastforce
  obtain v d6 where v: "emmc_rd hw int_flags_reg d5 = (v, d6)" by fastforce
  have 5: "conf d5 = conf d4" using conf_done [of timeout hw "emmc_delay 2 d4"] f by simp
  have 6: "conf d6 = conf d4" using conf_rd [OF v] 5 by simp
  note a = assms [unfolded after_issue_def f v prod.case Let_def]
  show ?thesis
  proof (cases "f \<and> v AND 0xFFFF0001 = 1")
    case False
    then show ?thesis using a 5 6 by (auto split: if_splits)
  next
    case True
    let ?r = "read_responses hw cmd (emmc_wr int_flags_reg 0xFFFF0001 d6)"
    obtain x d8 where 8: "(if is_data cmd \<noteq> 0 then do_data_transfer hw cmd ?r else Some (True, ?r)) = Some (x, d8)"
      and fin: "(case (if response_type cmd = RT48Busy \<or> is_data cmd \<noteq> 0 then finish_transfer hw d8 else (True, d8)) of
        (ok, d9) \<Rightarrow> Some (if ok then (True, d9\<lparr>last_success := True\<rparr>) else (False, d9))) = Some (r, d')"
      using a True by (auto simp: bind_eq_Some_conv)
    have 78: "conf d8 = conf d4" using 8 conf_data_blocks 6 by (fastforce simp: do_data_transfer_def conf_responses split: if_splits prod.splits)
    have "conf d' = conf d8" using fin conf_finish [of hw d8] by (auto split: if_splits prod.splits)
    then show ?thesis using 78 by simp
  qed
qed

lemma issue_command_law:
  assumes "issue_command hw cmd arg timeout d = Some (r, d')"
  shows "conf d' = conf d" "\<exists>ks. ran d ks d' \<and> (ks = [] \<and> \<not> r \<or> ks = [TO_REG cmd])"
proof -
  have "conf d' = conf d \<and> (\<exists>ks. ran d ks d' \<and> (ks = [] \<and> \<not> r \<or> ks = [TO_REG cmd]))"
  proof (cases "transfer_blocks d \<le> 0xFFFF")
    case False
    then have "\<not> r" "d' = d\<lparr>last_command_value := TO_REG cmd\<rparr>" using assms by (auto simp: issue_command_def Let_def not_le)
    then show ?thesis by (auto simp: ran_def)
  next
    case True
    obtain ready d1 where i: "inhibit_loop 2001 hw (d\<lparr>last_command_value := TO_REG cmd\<rparr>) = (ready, d1)" by fastforce
    note sp = issue_command_split [OF i True, of arg timeout]
    have q1: "quiet hw (d\<lparr>last_command_value := TO_REG cmd\<rparr>) d1" using quiet_inhibit [of hw "d\<lparr>last_command_value := TO_REG cmd\<rparr>" 2001] i by simp
    then have q: "quiet hw d d1" by (rule quiet_field [rotated]) simp
    have c1: "conf d1 = conf d" using conf_inhibit [of 2001 hw "d\<lparr>last_command_value := TO_REG cmd\<rparr>"] i by simp
    show ?thesis
    proof (cases ready)
      case False
      then have d': "\<not> r" "d' = emmc_host_reset_cmd_dat hw (snd (emmc_rd hw status_reg d1))" using assms sp by simp_all
      then show ?thesis using c1 conf_host_reset ran_quiet [OF quiet_trans [OF quiet_trans [OF q quiet_rd] quiet_host_reset]]
        by (auto simp: conf_rd)
    next
      case ready: True
      let ?d3 = "emmc_wr arg1_reg arg (emmc_wr block_size_count_reg (block_size d1 OR push_bit 16 (transfer_blocks d1)) d1)"
      let ?d4 = "emmc_wr cmd_xfer_mode_reg (last_command_value d1) ?d3"
      have ai: "after_issue hw cmd timeout ?d4 = Some (r, d')" using assms sp ready by simp
      have "d1 = d\<lparr>last_command_value := TO_REG cmd, hist := hist d1\<rparr>" using inhibit_keeps [OF i] by simp
      then have lv: "last_command_value d1 = TO_REG cmd" by (metis sd_device.select_convs(4) sd_device.surjective sd_device.update_convs(4,19))
      have "ran d1 [TO_REG cmd] ?d4" by (simp add: ran_def emmc_wr_eq lv emmc_regs_distinct)
      then have "ran d ([] @ [TO_REG cmd] @ []) d'"
        using ran_trans [OF ran_quiet [OF q] ran_trans] ran_quiet [OF after_issue_quiet(1) [OF ai]] by blast
      then show ?thesis using conf_after_issue [OF ai] c1 by auto
    qed
  qed
  then show "conf d' = conf d" "\<exists>ks. ran d ks d' \<and> (ks = [] \<and> \<not> r \<or> ks = [TO_REG cmd])" by blast+
qed

section \<open>The commands of the identification\<close>

definition cmd_word :: "u32 \<Rightarrow> u32" where
  "cmd_word c = TO_REG (commands ! unat c)"

lemma host_command_law:
  assumes "host_command hw command arg timeout d = Some (r, d')"
  shows "conf d' = conf d" "\<exists>ks. ran d ks d' \<and> (ks = [] \<and> \<not> r \<or> ks = [cmd_word command])"
proof -
  have "conf d' = conf d \<and> (\<exists>ks. ran d ks d' \<and> (ks = [] \<and> \<not> r \<or> ks = [cmd_word command]))"
  proof (cases "command AND 0x80000000 \<noteq> 0")
    case True
    then show ?thesis using assms by (simp add: host_command_def ran_def)
  next
    case False
    then obtain c where c: "command_at command = Some c" using assms by (auto simp: host_command_def bind_eq_Some_conv)
    then have cw: "TO_REG c = cmd_word command" by (simp add: command_at_def cmd_word_def split: if_splits)
    let ?d = "d\<lparr>last_command := c\<rparr>"
    show ?thesis
    proof (cases "TO_REG c = TO_REG RES_CMD")
      case True
      then have "\<not> r" "d' = ?d" using assms False c by (auto simp: host_command_def)
      then show ?thesis by (auto simp: ran_def)
    next
      case valid: False
      then have i: "issue_command hw c arg timeout ?d = Some (r, d')" using assms False c by (simp add: host_command_def)
      obtain ks where "ran ?d ks d'" "ks = [] \<and> \<not> r \<or> ks = [TO_REG c]" using issue_command_law(2) [OF i] by blast
      moreover have "conf d' = conf d" using issue_command_law(1) [OF i] by simp
      ultimately show ?thesis using cw ran_hist [of d ?d d' d' ks] by auto
    qed
  qed
  then show "conf d' = conf d" "\<exists>ks. ran d ks d' \<and> (ks = [] \<and> \<not> r \<or> ks = [cmd_word command])" by blast+
qed

lemma host_command_ok:
  assumes "host_command hw command arg timeout d = Some (True, d')"
  shows "conf d' = conf d" "ran d [cmd_word command] d'"
  using host_command_law [OF assms] by auto

lemma app_command_ok:
  assumes "emmc_app_command hw command arg timeout d = Some (True, d')"
  shows "conf d' = conf d" "ran d [cmd_word CTApp, cmd_word command] d'"
proof -
  obtain c app d2 where c: "command_at command = Some c" "command_at CTApp = Some app"
    and 1: "issue_command hw app (if rca d \<noteq> 0 then push_bit 16 (rca d) else 0) 2000 (d\<lparr>last_command := app\<rparr>) = Some (True, d2)"
    and 2: "issue_command hw c arg 2000 (d2\<lparr>last_command := c\<rparr>) = Some (True, d')"
    using assms by (fastforce simp: emmc_app_command_def Let_def bind_eq_Some_conv split: if_splits)
  have w: "TO_REG c = cmd_word command" "TO_REG app = cmd_word CTApp" using c by (simp_all add: command_at_def cmd_word_def split: if_splits)
  have "ran (d\<lparr>last_command := app\<rparr>) [cmd_word CTApp] d2" "ran (d2\<lparr>last_command := c\<rparr>) [cmd_word command] d'"
    using issue_command_law(2) [OF 1] issue_command_law(2) [OF 2] w by auto
  then show "ran d [cmd_word CTApp, cmd_word command] d'" by (simp add: ran_def)
  show "conf d' = conf d" using issue_command_law(1) [OF 1] issue_command_law(1) [OF 2] by simp
qed

lemma reset_loop_law: "conf (snd (reset_command_loop n hw d)) = conf d" "quiet hw d (snd (reset_command_loop n hw d))"
proof (induction n arbitrary: d)
  case (Suc n)
  {
    case 1
    show ?case using Suc(1) by (auto simp: conf_rd split: prod.splits)
  next
    case 2
    obtain v d1 where r: "emmc_rd hw control1_reg d = (v, d1)" by fastforce
    have 1: "quiet hw d d1" using quiet_rd [of hw d control1_reg] r by simp
    have "quiet hw d (snd (reset_command_loop n hw (emmc_delay 1 d1)))" by (rule quiet_trans [OF quiet_trans [OF 1 quiet_delay] Suc(2)])
    then show ?case using 1 by (simp add: r)
  }
qed (simp_all add: quiet_rd conf_rd)

lemma control1_distinct: "control1_reg \<noteq> cmd_xfer_mode_reg"
  by (simp add: control1_reg_def cmd_xfer_mode_reg_def)

lemma reset_command_law: "conf (snd (reset_command hw d)) = conf d" "ran d [] (snd (reset_command hw d))"
proof -
  obtain v d1 where r: "emmc_rd hw control1_reg d = (v, d1)" by fastforce
  have 1: "quiet hw d d1" using quiet_rd [of hw d control1_reg] r by simp
  show "conf (snd (reset_command hw d)) = conf d" using conf_rd [OF r] by (simp add: reset_command_def r reset_loop_law del: reset_command_loop.simps)
  show "ran d [] (snd (reset_command hw d))" unfolding reset_command_def r prod.case
    by (rule ran_quiet [OF quiet_trans [OF quiet_trans [OF 1 quiet_wr [OF control1_distinct]] reset_loop_law(2)]])
qed

lemma ran_wr: "r \<noteq> cmd_xfer_mode_reg \<Longrightarrow> ran d ks d' \<Longrightarrow> ran d ks (emmc_wr r v d')"
  by (simp add: ran_def emmc_wr_eq)

lemma check_v2_card_law:
  assumes "check_v2_card hw d = Some (b, d')"
  shows "conf d' = conf d" "\<exists>ks. ran d ks d' \<and> (ks = [] \<or> ks = [cmd_word CTSendIfCond])"
proof -
  obtain ok d1 where 1: "host_command hw CTSendIfCond 0x1AA 200 d = Some (ok, d1)" using assms by (auto simp: check_v2_card_def bind_eq_Some_conv)
  obtain ks where ks: "ran d ks d1" "ks = [] \<or> ks = [cmd_word CTSendIfCond]" using host_command_law(2) [OF 1] by blast
  obtain r d2 where 2: "reset_command hw d1 = (r, d2)" by fastforce
  have c2: "conf d2 = conf d" "ran d1 [] d2" using reset_command_law(1) [of hw d1] reset_command_law(2) [of d1 hw] 2 host_command_law(1) [OF 1] by simp_all
  have "ran d ks d2" using ran_trans [OF ks(1) c2(2)] by simp
  then have "ran d ks (emmc_wr int_flags_reg (sd_error_mask SDECommandTimeout) d2)" by (rule ran_wr [OF emmc_regs_distinct(1)])
  moreover have "d' = d1 \<or> d' = d2 \<or> d' = emmc_wr int_flags_reg (sd_error_mask SDECommandTimeout) d2"
    using assms 1 2 by (auto simp: check_v2_card_def split: if_splits)
  ultimately have r: "ran d ks d'" and "conf d' = conf d"
    using ks(1) \<open>ran d ks d2\<close> c2(1) host_command_law(1) [OF 1] by auto
  then show "conf d' = conf d" "\<exists>ks. ran d ks d' \<and> (ks = [] \<or> ks = [cmd_word CTSendIfCond])" using ks(2) by auto
qed

lemma check_usable_card_law:
  assumes "check_usable_card hw d = Some (b, d')"
  shows "conf d' = conf d" "\<exists>ks. ran d ks d' \<and> (ks = [] \<or> ks = [cmd_word CTIOSetOpCond])"
proof -
  obtain ok d1 where 1: "host_command hw CTIOSetOpCond 0 1000 d = Some (ok, d1)" using assms by (auto simp: check_usable_card_def bind_eq_Some_conv)
  obtain ks where ks: "ran d ks d1" "ks = [] \<or> ks = [cmd_word CTIOSetOpCond]" using host_command_law(2) [OF 1] by blast
  obtain r d2 where 2: "reset_command hw d1 = (r, d2)" by fastforce
  have c2: "conf d2 = conf d" "ran d1 [] d2" using reset_command_law(1) [of hw d1] reset_command_law(2) [of d1 hw] 2 host_command_law(1) [OF 1] by simp_all
  have "ran d ks d2" using ran_trans [OF ks(1) c2(2)] by simp
  then have "ran d ks (emmc_wr int_flags_reg (sd_error_mask SDECommandTimeout) d2)" by (rule ran_wr [OF emmc_regs_distinct(1)])
  moreover have "d' = d1 \<or> d' = d2 \<or> d' = emmc_wr int_flags_reg (sd_error_mask SDECommandTimeout) d2"
    using assms 1 2 by (auto simp: check_usable_card_def split: if_splits)
  ultimately have r: "ran d ks d'" and "conf d' = conf d"
    using ks(1) \<open>ran d ks d2\<close> c2(1) host_command_law(1) [OF 1] by auto
  then show "conf d' = conf d" "\<exists>ks. ran d ks d' \<and> (ks = [] \<or> ks = [cmd_word CTIOSetOpCond])" using ks(2) by auto
qed

abbreviation ocr_round :: "u32 list" where
  "ocr_round \<equiv> [cmd_word CTApp, cmd_word CTOcrCheck]"

lemma check_ocr_ok:
  assumes "check_ocr hw d = Some (True, d')"
  shows "ran d ocr_round d'" "block_size d' = block_size d"
proof -
  obtain d1 where 1: "emmc_app_command hw CTOcrCheck 0 2000 d = Some (True, d1)"
    and d': "d' = d1\<lparr>ocr := ucast (drop_bit 8 (resp0 d1) AND 0xFFFF)\<rparr>"
    using assms by (auto simp: check_ocr_def bind_eq_Some_conv split: if_splits)
  note a = app_command_ok [OF 1]
  show "ran d ocr_round d'" using a(2) d' by (simp add: ran_def)
  show "block_size d' = block_size d" using a(1) d' by (simp add: conf_def)
qed

lemma check_sdhc_ok:
  assumes "check_sdhc_support n hw v2 d = Some (True, d')"
  shows "\<exists>k. ran d (concat (replicate (Suc k) ocr_round)) d'"
  using assms
proof (induction n arbitrary: d)
  case (Suc n)
  let ?arg = "0x00FF8000 OR (if v2 then push_bit 30 1 else 0) :: u32"
  obtain d1 where 1: "emmc_app_command hw CTOcrCheck ?arg 2000 d = Some (True, d1)"
    and rest: "if drop_bit 31 (resp0 d1) AND 1 \<noteq> 0
      then d' = d1\<lparr>ocr := ucast (drop_bit 8 (resp0 d1) AND 0xFFFF), sdhc := drop_bit 30 (resp0 d1) AND 1 \<noteq> 0\<rparr>
      else check_sdhc_support n hw v2 (emmc_delay 500 d1) = Some (True, d')"
    using Suc.prems by (auto simp: bind_eq_Some_conv Let_def split: if_splits)
  note a = app_command_ok [OF 1]
  show ?case
  proof (cases "drop_bit 31 (resp0 d1) AND 1 \<noteq> 0")
    case True
    then have "ran d (concat (replicate (Suc 0) ocr_round)) d'" using rest a(2) by (simp add: ran_def)
    then show ?thesis by blast
  next
    case False
    then obtain k where "ran (emmc_delay 500 d1) (concat (replicate (Suc k) ocr_round)) d'" using rest Suc.IH by auto
    then have "ran d (concat (replicate (Suc (Suc k)) ocr_round)) d'" using a(2) by (simp add: ran_def emmc_delay_eq)
    then show ?thesis by blast
  qed
qed simp

lemma check_rca_ok:
  assumes "check_rca hw d = Some (True, d')"
  shows "ran d [cmd_word CTSendCide, cmd_word CTSendRelativeAddr] d'" "sdhc d' = sdhc d"
proof -
  obtain d1 d2 where 1: "host_command hw CTSendCide 0 2000 d = Some (True, d1)" and 2: "host_command hw CTSendRelativeAddr 0 2000 d1 = Some (True, d2)"
    and d': "d' = d2\<lparr>rca := drop_bit 16 (resp0 d2) AND 0xFFFF\<rparr>"
    using assms by (auto simp: check_rca_def bind_eq_Some_conv Let_def split: if_splits)
  show "ran d [cmd_word CTSendCide, cmd_word CTSendRelativeAddr] d'" using host_command_ok [OF 1] host_command_ok [OF 2] d' by (simp add: ran_def)
  show "sdhc d' = sdhc d" using host_command_ok(1) [OF 1] host_command_ok(1) [OF 2] d' by (simp add: conf_def)
qed

lemma select_card_ok:
  assumes "select_card hw d = Some (True, d')"
  shows "ran d [cmd_word CTSelectCard] d'" "sdhc d' = sdhc d"
proof -
  have 1: "host_command hw CTSelectCard (push_bit 16 (rca d)) 2000 d = Some (True, d')"
    using assms by (auto simp: select_card_def bind_eq_Some_conv Let_def split: if_splits)
  show "ran d [cmd_word CTSelectCard] d'" "sdhc d' = sdhc d" using host_command_ok [OF 1] by (simp_all add: conf_def)
qed

lemma set_scr_ok:
  assumes "set_scr hw d = Some (True, d')"
  shows "ran d ((if sdhc d then [] else [cmd_word CTSetBlockLen]) @ [cmd_word CTApp, cmd_word CTSendSCR]) d'"
    "sdhc d' = sdhc d" "block_size d' = 512" "transfer_blocks d' = 1"
proof -
  obtain d1 where 1: "(if \<not> sdhc d then host_command hw CTSetBlockLen 512 2000 d else Some (True, d)) = Some (True, d1)"
    using assms by (auto simp: set_scr_def bind_eq_Some_conv split: if_splits prod.splits)
  obtain v d2 where v: "emmc_rd hw block_size_count_reg d1 = (v, d2)" by fastforce
  let ?d3 = "emmc_wr block_size_count_reg ((v AND NOT 0xFFF) OR 0x200) d2"
  let ?d4 = "?d3\<lparr>buffer := scr ?d3, block_size := 8, transfer_blocks := 1\<rparr>"
  obtain d5 where 5: "emmc_app_command hw CTSendSCR 0 30000 ?d4 = Some (True, d5)"
    and d': "d' = d5\<lparr>scr := buffer d5, block_size := 512, scr_version := version_of (BSWAP32 (read_u32 (buffer d5) 0))\<rparr>"
    using assms 1 v by (auto simp: set_scr_def bind_eq_Some_conv Let_def split: if_splits prod.splits)
  have r1: "ran d (if sdhc d then [] else [cmd_word CTSetBlockLen]) d1" "sdhc d1 = sdhc d"
    using 1 host_command_ok [of hw CTSetBlockLen 512 2000 d d1] by (auto simp: ran_def conf_def split: if_splits)
  have q: "quiet hw d1 ?d3" using quiet_trans [OF quiet_rd quiet_wr [OF emmc_regs_distinct(4)], of hw d1] v by (metis snd_conv)
  have r3: "ran d1 [] ?d4" using ran_quiet [OF q] by (simp add: ran_def)
  have f: "sdhc ?d4 = sdhc d" using v r1(2) by (auto simp: emmc_rd_eq emmc_wr_eq)
  note a = app_command_ok [OF 5]
  have r5: "ran ?d4 [cmd_word CTApp, cmd_word CTSendSCR] d'" using a(2) d' by (simp add: ran_def)
  show "ran d ((if sdhc d then [] else [cmd_word CTSetBlockLen]) @ [cmd_word CTApp, cmd_word CTSendSCR]) d'"
    using ran_trans [OF r1(1) ran_trans [OF r3 r5]] by simp
  show "sdhc d' = sdhc d" "block_size d' = 512" "transfer_blocks d' = 1" using a(1) d' f by (simp_all add: conf_def)
qed

lemma spin_issued: "spin n hw addr P h = Some (v, h') \<Longrightarrow> issued h' = issued h"
proof (induction n arbitrary: h)
  case (Suc n)
  then show ?case using Suc.IH [of "Rd (Mmio addr) (hw h (Mmio addr)) # h"] by (auto simp: GET32_def rd_def split: if_splits)
qed simp

lemma mailbox_read_issued: "mailbox_read n hw c d = Some (v, d') \<Longrightarrow> ran d [] d'"
proof (induction n arbitrary: d)
  case (Suc n)
  obtain x h where s: "spin (Suc n) hw (MBX + 0x18) (\<lambda>v. v AND MAIL_EMPTY = 0) (hist d) = Some (x, h)" using Suc.prems by (auto simp: bind_eq_Some_conv simp del: spin.simps)
  obtain y d1 where r: "emmc_rd hw MBX (d\<lparr>hist := h\<rparr>) = (y, d1)" by fastforce
  have "ran (d\<lparr>hist := h\<rparr>) [] d1" using ran_quiet [OF quiet_rd [of hw "d\<lparr>hist := h\<rparr>" MBX]] r by simp
  then have 1: "ran d [] d1" using spin_issued [OF s] by (simp add: ran_def)
  have "d' = d1 \<or> mailbox_read n hw c d1 = Some (v, d')" using Suc.prems s r by (auto simp del: spin.simps split: if_splits)
  then show ?case using 1 Suc.IH ran_trans [OF 1] by auto
qed simp

lemma MBX_distinct: "MBX + 0x20 \<noteq> cmd_xfer_mode_reg"
  by (simp add: MBX_def MMIO_BASE_def cmd_xfer_mode_reg_def EMMC_BASE_def)

lemma mailbox_process_issued:
  assumes "mailbox_process n hw fw at tag d = Some (tag', d')"
  shows "ran d [] d'"
proof -
  define e where "e = d\<lparr>property_data := (blit (property_data d) 2 tag)[0 := 4 * of_nat (length tag) + 12, 1 := 0,
    unat (math_div (4 * of_nat (length tag) + 12) 4 - 1) := 0]\<rparr>"
  obtain d1 x d2 where 1: "mailbox_write n hw MAIL_TAGS at e = Some d1" and 2: "mailbox_read n hw MAIL_TAGS (emmc_delay 100 d1) = Some (x, d2)"
    and d': "hist d' = hist d2"
    using assms by (auto simp: mailbox_process_def Let_def bind_eq_Some_conv e_def split: if_splits)
  obtain y h where s: "spin n hw (MBX + 0x18) (\<lambda>v. v AND MAIL_FULL = 0) (hist e) = Some (y, h)"
    and d1: "d1 = emmc_wr (MBX + 0x20) ((at AND 0xFFFFFFF0) OR (MAIL_TAGS AND 0xF)) (e\<lparr>hist := h\<rparr>)"
    using 1 by (auto simp: mailbox_write_def bind_eq_Some_conv)
  have "ran d [] d1" using spin_issued [OF s] MBX_distinct unfolding d1 by (simp add: ran_def emmc_wr_eq e_def)
  then show ?thesis using mailbox_read_issued [OF 2] d' by (simp add: ran_def emmc_delay_eq)
qed

lemma setup_clock_issued:
  assumes "emmc_setup_clock n hw fw at d = Some (b, d')"
  shows "ran d [] d'"
proof -
  obtain rate d1 where 1: "mailbox_clock_rate n hw fw at CT_EMMC (emmc_wr control2_reg 0 d) = Some (rate, d1)"
    using assms by (auto simp: emmc_setup_clock_def bind_eq_Some_conv)
  then obtain tag where "mailbox_process n hw fw at [RPI_FIRMWARE_GET_CLOCK_RATE, 8, 0, CT_EMMC, 0] (emmc_wr control2_reg 0 d) = Some (tag, d1)"
    by (auto simp: mailbox_clock_rate_def bind_eq_Some_conv)
  then have "ran (emmc_wr control2_reg 0 d) [] d1" by (rule mailbox_process_issued)
  then have r1: "ran d [] (d1\<lparr>base_clock := rate\<rparr>)" by (simp add: ran_def emmc_wr_eq emmc_regs_distinct)
  obtain v d2 where v: "emmc_rd hw control1_reg (d1\<lparr>base_clock := rate\<rparr>) = (v, d2)" by fastforce
  define w where "w = emmc_wr control1_reg ((((v OR EMMC_CTRL1_CLK_INT_EN) OR get_clock_divider rate SD_CLOCK_ID) AND NOT (push_bit 16 0xF)) OR push_bit 16 11) d2"
  obtain st d3 where st: "wait_reg_mask hw control1_reg EMMC_CTRL1_CLK_STABLE True 2000 w = (st, d3)" by fastforce
  obtain u d4 where u: "emmc_rd hw control1_reg (emmc_delay 30 d3) = (u, d4)" by fastforce
  have q3: "quiet hw (d1\<lparr>base_clock := rate\<rparr>) d3"
    using quiet_trans [OF quiet_trans [OF quiet_rd quiet_wr [OF control1_distinct]] quiet_wait] v st unfolding w_def wait_reg_mask_def
    by (metis snd_conv)
  have q4: "quiet hw (d1\<lparr>base_clock := rate\<rparr>) (emmc_delay 30 (emmc_wr control1_reg (u OR 4) d4))"
    using quiet_trans [OF quiet_trans [OF quiet_trans [OF quiet_trans [OF q3 quiet_delay] quiet_rd] quiet_wr [OF control1_distinct]] quiet_delay] u
    by (metis snd_conv)
  have q5: "quiet hw (d1\<lparr>base_clock := rate\<rparr>) (snd (emmc_rd hw control1_reg d3))" by (rule quiet_trans [OF q3 quiet_rd])
  have "d' = snd (emmc_rd hw control1_reg d3) \<or> d' = emmc_delay 30 (emmc_wr control1_reg (u OR 4) d4)"
    using assms 1 v st u by (auto simp: emmc_setup_clock_def Let_def w_def split: if_splits)
  then show ?thesis using ran_trans [OF r1 ran_quiet [OF q5]] ran_trans [OF r1 ran_quiet [OF q4]] by auto
qed

lemma inhibit_clear_quiet: "inhibit_clear n hw d = Some d' \<Longrightarrow> quiet hw d d'"
proof (induction n arbitrary: d)
  case (Suc n)
  obtain v d1 where r: "emmc_rd hw status_reg d = (v, d1)" by fastforce
  have 1: "quiet hw d d1" using quiet_rd [of hw d status_reg] r by simp
  have "d' = d1 \<or> inhibit_clear n hw (emmc_delay 1 d1) = Some d'" using Suc.prems r by (auto split: if_splits)
  then show ?case using 1 Suc.IH quiet_trans [OF quiet_trans [OF 1 quiet_delay]] by blast
qed simp

lemma inhibit_clear_sdhc: "inhibit_clear n hw d = Some d' \<Longrightarrow> sdhc d' = sdhc d"
proof (induction n arbitrary: d)
  case (Suc n)
  obtain x e where r: "emmc_rd hw status_reg d = (x, e)" by fastforce
  then have e: "sdhc e = sdhc d" by (auto simp: emmc_rd_eq)
  have "d' = e \<or> inhibit_clear n hw (emmc_delay 1 e) = Some d'" using Suc.prems r by (auto split: if_splits)
  then show ?case using Suc.IH [of "emmc_delay 1 e"] e by (auto simp: emmc_delay_eq)
qed simp

lemma switch_clock_issued:
  assumes "switch_clock_rate n hw clock rate d = Some (b, d')"
  shows "ran d [] d'" "sdhc d' = sdhc d"
proof -
  obtain d1 where 1: "inhibit_clear n hw d = Some d1" using assms by (auto simp: switch_clock_rate_def Let_def bind_eq_Some_conv)
  obtain v d2 where v: "emmc_rd hw control1_reg d1 = (v, d2)" by fastforce
  have q2: "quiet hw d d2" using quiet_trans [OF inhibit_clear_quiet [OF 1] quiet_rd] v by (metis snd_conv)
  have d': "hist d' = [Wait 3, Wr (Mmio control1_reg) ((((v AND NOT EMMC_CTRL1_CLK_ENABLE) AND NOT 0xFFC0) OR get_clock_divider clock rate) OR EMMC_CTRL1_CLK_ENABLE),
      Wait 3, Wr (Mmio control1_reg) (((v AND NOT EMMC_CTRL1_CLK_ENABLE) AND NOT 0xFFC0) OR get_clock_divider clock rate),
      Wait 3, Wr (Mmio control1_reg) (v AND NOT EMMC_CTRL1_CLK_ENABLE)] @ hist d2" "sdhc d' = sdhc d2"
    using assms 1 v by (auto simp: switch_clock_rate_def Let_def emmc_wr_eq emmc_delay_eq)
  show "ran d [] d'" using ran_quiet [OF q2] d'(1) control1_distinct by (simp add: ran_def)
  have "sdhc d1 = sdhc d" by (rule inhibit_clear_sdhc [OF 1])
  then show "sdhc d' = sdhc d" using d'(2) v by (auto simp: emmc_rd_eq)
qed

text \<open>The commands of a successful identification; the version and the I/O command may go unanswered, unsent even, the
  capacity is asked for until the card is ready, and only a card addressed by bytes has its block length set.\<close>

definition bring_up :: "u32 list \<Rightarrow> u32 list \<Rightarrow> nat \<Rightarrow> bool \<Rightarrow> u32 list" where
  "bring_up v2 io k high = [cmd_word CTGoIdle] @ v2 @ io @ ocr_round @ concat (replicate (Suc k) ocr_round)
     @ [cmd_word CTSendCide, cmd_word CTSendRelativeAddr] @ [cmd_word CTSelectCard]
     @ (if high then [] else [cmd_word CTSetBlockLen]) @ [cmd_word CTApp, cmd_word CTSendSCR]"

lemma then_check_ok: "then_check f r = Some (True, d') \<longleftrightarrow> fst r \<and> f (snd r) = Some (True, d')"
  by (cases r) (auto simp: then_check_def)

lemma probe_card_ok:
  assumes "probe_card n hw d = Some (True, d')"
  shows "\<exists>v2 io k. ran d (v2 @ io @ ocr_round @ concat (replicate (Suc k) ocr_round)) d'
    \<and> (v2 = [] \<or> v2 = [cmd_word CTSendIfCond]) \<and> (io = [] \<or> io = [cmd_word CTIOSetOpCond])"
proof -
  obtain v2c e1 e2 e3 where 6: "check_v2_card hw d = Some (v2c, e1)" "check_usable_card hw e1 = Some (True, e2)" "check_ocr hw e2 = Some (True, e3)"
    "check_sdhc_support n hw v2c e3 = Some (True, d')"
    using assms by (auto simp: probe_card_def bind_eq_Some_conv then_check_def split: if_splits)
  obtain v2 where v2: "ran d v2 e1" "v2 = [] \<or> v2 = [cmd_word CTSendIfCond]" using check_v2_card_law(2) [OF 6(1)] by blast
  obtain io where io: "ran e1 io e2" "io = [] \<or> io = [cmd_word CTIOSetOpCond]" using check_usable_card_law(2) [OF 6(2)] by blast
  obtain k where k: "ran e3 (concat (replicate (Suc k) ocr_round)) d'" using check_sdhc_ok [OF 6(4)] by blast
  have "ran d (v2 @ io @ ocr_round @ concat (replicate (Suc k) ocr_round)) d'"
    by (rule ran_trans [OF v2(1) ran_trans [OF io(1) ran_trans [OF check_ocr_ok(1) [OF 6(3)] k]]])
  then show ?thesis using v2(2) io(2) by blast
qed

lemma enter_data_mode_ok:
  assumes "enter_data_mode n hw d = Some (True, d')"
  shows "block_size d' = 512" "transfer_blocks d' = 1"
    "ran d ([cmd_word CTSendCide, cmd_word CTSendRelativeAddr] @ [cmd_word CTSelectCard]
       @ (if sdhc d' then [] else [cmd_word CTSetBlockLen]) @ [cmd_word CTApp, cmd_word CTSendSCR]) d'"
proof -
  obtain x f1 f2 f3 f4 where 7: "switch_clock_rate n hw (base_clock d) SD_CLOCK_HIGH d = Some (x, f1)" "check_rca hw (emmc_delay 10 f1) = Some (True, f2)"
    "select_card hw f2 = Some (True, f3)" "set_scr hw f3 = Some (True, f4)" "d' = emmc_wr int_flags_reg 0xFFFFFFFF f4"
    using assms by (auto simp: enter_data_mode_def bind_eq_Some_conv then_check_def split: if_splits)
  note s = set_scr_ok [OF 7(4)]
  have ss: "sdhc d' = sdhc f3" using 7(5) s(2) by (simp add: emmc_wr_eq)
  have "ran d [] (emmc_delay 10 f1)" using switch_clock_issued(1) [OF 7(1)] by (simp add: ran_def emmc_delay_eq)
  moreover have "ran f3 ((if sdhc d' then [] else [cmd_word CTSetBlockLen]) @ [cmd_word CTApp, cmd_word CTSendSCR]) d'"
    using ran_wr [OF emmc_regs_distinct(1) s(1)] 7(5) ss by simp
  ultimately show "ran d ([cmd_word CTSendCide, cmd_word CTSendRelativeAddr] @ [cmd_word CTSelectCard]
       @ (if sdhc d' then [] else [cmd_word CTSetBlockLen]) @ [cmd_word CTApp, cmd_word CTSendSCR]) d'"
    using ran_trans [OF _ ran_trans [OF check_rca_ok(1) [OF 7(2)] ran_trans [OF select_card_ok(1) [OF 7(3)]]]] by fastforce
  show "block_size d' = 512" "transfer_blocks d' = 1" using s(3,4) 7(5) by (simp_all add: emmc_wr_eq)
qed

lemma card_reset_ok:
  assumes "emmc_card_reset n hw fw at d = Some (True, d')"
  shows "block_size d' = 512" "transfer_blocks d' = 1"
    "\<exists>v2 io k. ran d (bring_up v2 io k (sdhc d')) d' \<and> (v2 = [] \<or> v2 = [cmd_word CTSendIfCond]) \<and> (io = [] \<or> io = [cmd_word CTIOSetOpCond])"
proof -
  obtain b d1 where w: "wait_reg_mask hw control1_reg EMMC_CTRL1_RESET_ALL False 2000 (emmc_wr control1_reg EMMC_CTRL1_RESET_HOST d) = (b, d1)" by fastforce
  note a = assms [unfolded emmc_card_reset_def w prod.case Let_def]
  obtain d2 where 2: "b" "emmc_setup_clock n hw fw at d1 = Some (True, d2)"
    using a by (auto simp: bind_eq_Some_conv split: if_splits)
  let ?d3 = "emmc_wr int_mask_reg 0xFFFFFFFF (emmc_wr int_flags_reg 0xFFFFFFFF (emmc_wr int_enable_reg 0 d2))"
  let ?d4 = "(emmc_delay 203 ?d3)\<lparr>transfer_blocks := 0, last_command_value := 0, last_success := False, block_size := 0\<rparr>"
  obtain d5 d6 where 5: "host_command hw CTGoIdle 0 2000 ?d4 = Some (True, d5)" and 6: "probe_card n hw d5 = Some (True, d6)"
    and 7: "enter_data_mode n hw d6 = Some (True, d')"
    using a 2 by (auto simp: bind_eq_Some_conv then_check_def split: if_splits)
  have "quiet hw d d1"
    using quiet_trans [OF quiet_wr [OF control1_distinct] quiet_wait] w unfolding wait_reg_mask_def by (metis snd_conv)
  then have "ran d [] d2" using ran_trans [OF ran_quiet setup_clock_issued [OF 2(2)]] by simp
  moreover have "int_mask_reg \<noteq> cmd_xfer_mode_reg" "int_enable_reg \<noteq> cmd_xfer_mode_reg"
    by (simp_all add: int_mask_reg_def int_enable_reg_def cmd_xfer_mode_reg_def)
  ultimately have r4: "ran d [] ?d4" using emmc_regs_distinct by (simp add: ran_def emmc_wr_eq emmc_delay_eq)
  obtain v2 io k where p: "ran d5 (v2 @ io @ ocr_round @ concat (replicate (Suc k) ocr_round)) d6"
    "v2 = [] \<or> v2 = [cmd_word CTSendIfCond]" "io = [] \<or> io = [cmd_word CTIOSetOpCond]"
    using probe_card_ok [OF 6] by blast
  note e = enter_data_mode_ok [OF 7]
  have "ran d (bring_up v2 io k (sdhc d')) d'"
    using ran_trans [OF ran_trans [OF r4 host_command_ok(2) [OF 5]] ran_trans [OF p(1) e(3)]] by (simp add: bring_up_def)
  then show "\<exists>v2 io k. ran d (bring_up v2 io k (sdhc d')) d' \<and> (v2 = [] \<or> v2 = [cmd_word CTSendIfCond]) \<and> (io = [] \<or> io = [cmd_word CTIOSetOpCond])"
    using p(2,3) by blast
  show "block_size d' = 512" "transfer_blocks d' = 1" by (rule e(1), rule e(2))
qed

lemma reset_tries_ok:
  "reset_tries m n hw fw at d = Some (True, d') \<Longrightarrow> \<exists>e. emmc_card_reset n hw fw at e = Some (True, d')"
  by (induction m arbitrary: d) (auto simp: bind_eq_Some_conv split: if_splits)

text \<open>C5: Bringing the card up, for all hardware and firmware. If \<open>emmc_init\<close> reports success, the driver is set for
  single blocks of 512 bytes, and the last commands written to the controller are the identification sequence of an
  SD card, in order: reset, interface condition, I/O probe, operating conditions until ready, identification,
  address, selection, the block length exactly for a card that is not high capacity, and the configuration register.\<close>

theorem init_brings_card_up:
  assumes "emmc_init n hw fw at d = Some (True, d')"
  shows "block_size d' = 512 \<and> transfer_blocks d' = 1
    \<and> (\<exists>before v2 io k. issued (hist d') = before @ bring_up v2 io k (sdhc d')
        \<and> (v2 = [] \<or> v2 = [cmd_word CTSendIfCond]) \<and> (io = [] \<or> io = [cmd_word CTIOSetOpCond]))"
proof -
  obtain e where e: "emmc_card_reset n hw fw at e = Some (True, d')"
    using assms reset_tries_ok unfolding emmc_init_def Let_def by blast
  show ?thesis using card_reset_ok [OF e] unfolding ran_def by blast
qed

section \<open>A controller that answers at once\<close>

text \<open>The flags of a finished command and a ready port, a settled clock, and a card that is ready, addressed by
  sectors and selected.\<close>

definition prompt_hw :: hardware where
  "prompt_hw h p = (if p = Mmio int_flags_reg then 0x23 else if p = Mmio control1_reg then 2
     else if p = Mmio (response_reg 0) then 0xC0000900 else if p = Mmio MBX then 8 else 0)"

definition cold_device :: sd_device where
  "cold_device = test_device\<lparr>property_data := replicate 8 0\<rparr>"

lemma prompt_reads:
  "emmc_rd prompt_hw int_flags_reg d = (0x23, d\<lparr>hist := Rd (Mmio int_flags_reg) 0x23 # hist d\<rparr>)"
  "emmc_rd prompt_hw status_reg d = (0, d\<lparr>hist := Rd (Mmio status_reg) 0 # hist d\<rparr>)"
  "emmc_rd prompt_hw control1_reg d = (2, d\<lparr>hist := Rd (Mmio control1_reg) 2 # hist d\<rparr>)"
  "emmc_rd prompt_hw (response_reg 0) d = (0xC0000900, d\<lparr>hist := Rd (Mmio (response_reg 0)) 0xC0000900 # hist d\<rparr>)"
  "emmc_rd prompt_hw MBX d = (8, d\<lparr>hist := Rd (Mmio MBX) 8 # hist d\<rparr>)"
  by (simp_all add: emmc_rd_eq prompt_hw_def int_flags_reg_def status_reg_def control1_reg_def response_reg_def MBX_def
      EMMC_BASE_def MMIO_BASE_def)

lemma prompt_loops:
  "0 < n \<Longrightarrow> inhibit_loop n prompt_hw d = (True, d\<lparr>hist := Rd (Mmio status_reg) 0 # hist d\<rparr>)"
  "0 < n \<Longrightarrow> done_loop n prompt_hw d = (True, d\<lparr>hist := Rd (Mmio int_flags_reg) 0x23 # hist d\<rparr>)"
  "0x23 AND msk \<noteq> 0 \<Longrightarrow> wait_reg_mask prompt_hw int_flags_reg msk True m d = (True, d\<lparr>hist := Rd (Mmio int_flags_reg) 0x23 # hist d\<rparr>)"
  "2 AND msk \<noteq> 0 \<Longrightarrow> wait_reg_mask prompt_hw control1_reg msk True m d = (True, d\<lparr>hist := Rd (Mmio control1_reg) 2 # hist d\<rparr>)"
  "2 AND msk = 0 \<Longrightarrow> wait_reg_mask prompt_hw control1_reg msk False m d = (True, d\<lparr>hist := Rd (Mmio control1_reg) 2 # hist d\<rparr>)"
  by (cases n; simp add: prompt_reads wait_reg_mask_def)+

text \<open>Commands succeed, and leave a response.\<close>

definition responded :: "sd_device \<Rightarrow> bool" where
  "responded d \<longleftrightarrow> length (last_response d) = 4 \<and> resp0 d = 0xC0000900"

lemma responses_length: "length (last_response (read_responses hw cmd d)) = length (last_response d)"
  by (auto simp: read_responses_def read_response_def emmc_rd_eq)

lemma responded_read:
  assumes "length (last_response d) = 4" "response_type cmd = RT48 \<or> response_type cmd = RT48Busy \<or> response_type cmd = RT136"
  shows "responded (read_responses prompt_hw cmd d)"
  using assms by (auto simp: responded_def read_responses_def read_response_def emmc_rd_eq prompt_reads RT48_def RT48Busy_def RT136_def
      prompt_hw_def response_reg_def int_flags_reg_def control1_reg_def EMMC_BASE_def MMIO_BASE_def)

lemma prompt_finish:
  "finish_transfer prompt_hw d = (True, d\<lparr>hist := [Wr (Mmio int_flags_reg) 0xFFFF0002, Wr (Mmio int_flags_reg) 0xFFFF0002,
      Rd (Mmio int_flags_reg) 0x23, Rd (Mmio int_flags_reg) 0x23] @ hist d\<rparr>)"
  by (simp add: finish_transfer_def prompt_loops prompt_reads emmc_wr_eq Let_def)

lemma prompt_data:
  assumes "direction cmd = 1" "transfer_blocks d = 1" "block_size d = 8" "length (buffer d) = 8"
  shows "\<exists>b h. do_data_transfer prompt_hw cmd d = Some (True, d\<lparr>buffer := b, hist := h\<rparr>) \<and> length b = 8"
proof -
  have rw: "\<exists>b h. read_words hw 8 0 e = Some (e\<lparr>buffer := b, hist := h\<rparr>) \<and> length b = 8" if "length (buffer e) = 8" for hw e
  proof -
    have 1: "\<exists>b h. read_words hw 4 4 e = Some (e\<lparr>buffer := b, hist := h\<rparr>) \<and> length b = 8" if "length (buffer e) = 8" for e
    proof -
      let ?v = "hw (hist e) (Mmio data_reg)"
      have "read_words hw 4 4 e = Some (e\<lparr>hist := Rd (Mmio data_reg) ?v # hist e, buffer := write_u32 (buffer e) 4 ?v\<rparr>)"
        using that by (simp add: read_words.simps emmc_rd_eq)
      moreover have "e\<lparr>hist := Rd (Mmio data_reg) ?v # hist e, buffer := write_u32 (buffer e) 4 ?v\<rparr>
        = e\<lparr>buffer := write_u32 (buffer e) 4 ?v, hist := Rd (Mmio data_reg) ?v # hist e\<rparr>" by simp
      ultimately show ?thesis using that by (metis length_write_u32)
    qed
    show ?thesis
      using that 1 [of "e\<lparr>hist := Rd (Mmio data_reg) (hw (hist e) (Mmio data_reg)) # hist e, buffer := write_u32 (buffer e) 0 (hw (hist e) (Mmio data_reg))\<rparr>"]
      by (subst read_words.simps) (auto simp: emmc_rd_eq)
  qed
  let ?e = "emmc_wr int_flags_reg (0x20 OR 0x8000) (d\<lparr>hist := Rd (Mmio int_flags_reg) 0x23 # Rd (Mmio int_flags_reg) 0x23 # hist d\<rparr>)"
  obtain b h where "read_words prompt_hw 8 0 ?e = Some (?e\<lparr>buffer := b, hist := h\<rparr>)" "length b = 8" using rw [of ?e prompt_hw] assms(4) by (auto simp: emmc_wr_eq)
  then have "data_blocks prompt_hw 0x20 False (Suc 0) 0 d = Some (True, ?e\<lparr>buffer := b, hist := h\<rparr>)"
    using assms(3) by (simp add: prompt_loops prompt_reads Let_def emmc_wr_eq)
  then have "do_data_transfer prompt_hw cmd d = Some (True, d\<lparr>buffer := b, hist := h\<rparr>)"
    using assms(1,2) by (simp add: do_data_transfer_def emmc_wr_eq)
  then show ?thesis using \<open>length b = 8\<close> by blast
qed

lemma prompt_after:
  assumes "0 < timeout"
  shows "after_issue prompt_hw cmd timeout e =
    (let d7 = emmc_wr int_flags_reg 0xFFFF0001 (e\<lparr>hist := Rd (Mmio int_flags_reg) 0x23 # Rd (Mmio int_flags_reg) 0x23 # hist (emmc_delay 2 e)\<rparr>)
     in do {
       (_, d8) \<leftarrow> (if is_data cmd \<noteq> 0 then do_data_transfer prompt_hw cmd (read_responses prompt_hw cmd d7)
                 else Some (True, read_responses prompt_hw cmd d7));
       Some (True, (if response_type cmd = RT48Busy \<or> is_data cmd \<noteq> 0
          then d8\<lparr>hist := [Wr (Mmio int_flags_reg) 0xFFFF0002, Wr (Mmio int_flags_reg) 0xFFFF0002,
            Rd (Mmio int_flags_reg) 0x23, Rd (Mmio int_flags_reg) 0x23] @ hist d8\<rparr> else d8)\<lparr>last_success := True\<rparr>)
     })"
  using assms by (simp add: after_issue_def prompt_loops prompt_reads prompt_finish emmc_delay_eq Let_def)

text \<open>A command that succeeds.\<close>

definition prompt_ok :: "emmc_cmd \<Rightarrow> sd_device \<Rightarrow> sd_device \<Rightarrow> bool" where
  "prompt_ok cmd d d' \<longleftrightarrow> length (last_response d') = 4 \<and> property_data d' = property_data d \<and> length (buffer d') = length (buffer d)
     \<and> (response_type cmd = RT48 \<or> response_type cmd = RT48Busy \<or> response_type cmd = RT136 \<longrightarrow> responded d')"

lemma prompt_issue:
  assumes "transfer_blocks d \<le> 0xFFFF" "length (last_response d) = 4" "0 < timeout"
    "is_data cmd = 0 \<or> direction cmd = 1 \<and> transfer_blocks d = 1 \<and> block_size d = 8 \<and> length (buffer d) = 8"
  shows "\<exists>d'. issue_command prompt_hw cmd arg timeout d = Some (True, d') \<and> conf d' = conf d \<and> prompt_ok cmd d d'"
proof -
  let ?d1 = "d\<lparr>last_command_value := TO_REG cmd, hist := Rd (Mmio status_reg) 0 # hist d\<rparr>"
  have i: "inhibit_loop 2001 prompt_hw (d\<lparr>last_command_value := TO_REG cmd\<rparr>) = (True, ?d1)" using prompt_loops(1) [of 2001] by simp
  let ?d4 = "emmc_wr cmd_xfer_mode_reg (last_command_value ?d1) (emmc_wr arg1_reg arg
       (emmc_wr block_size_count_reg (block_size ?d1 OR push_bit 16 (transfer_blocks ?d1)) ?d1))"
  let ?d7 = "emmc_wr int_flags_reg 0xFFFF0001 (?d4\<lparr>hist := Rd (Mmio int_flags_reg) 0x23 # Rd (Mmio int_flags_reg) 0x23 # hist (emmc_delay 2 ?d4)\<rparr>)"
  let ?d8 = "read_responses prompt_hw cmd ?d7"
  have l: "length (last_response ?d7) = 4" using assms(2) by (simp add: emmc_wr_eq)
  have k: "buffer ?d8 = buffer d" "transfer_blocks ?d8 = transfer_blocks d" "block_size ?d8 = block_size d" "property_data ?d8 = property_data d"
    by (simp_all add: read_responses_def read_response_def emmc_rd_eq emmc_wr_eq)
  obtain b h where t: "(if is_data cmd \<noteq> 0 then do_data_transfer prompt_hw cmd ?d8 else Some (True, ?d8)) = Some (True, ?d8\<lparr>buffer := b, hist := h\<rparr>)"
    "length b = length (buffer d)"
  proof (cases "is_data cmd = 0")
    case True
    have "?d8 = ?d8\<lparr>buffer := buffer ?d8, hist := hist ?d8\<rparr>" by simp
    then show thesis using that [of "hist ?d8" "buffer ?d8"] True k(1) by simp
  next
    case False
    then have f: "direction cmd = 1" "transfer_blocks ?d8 = 1" "block_size ?d8 = 8" "length (buffer ?d8) = 8" using assms(4) k by simp_all
    obtain b h where bh: "do_data_transfer prompt_hw cmd ?d8 = Some (True, ?d8\<lparr>buffer := b, hist := h\<rparr>)" "length b = 8" using prompt_data [OF f] by blast
    then show thesis using that [of h b] False f(4) k(1) by simp
  qed
  let ?d9 = "?d8\<lparr>buffer := b, hist := h\<rparr>"
  have "\<exists>h'. after_issue prompt_hw cmd timeout ?d4 = Some (True, ?d9\<lparr>hist := h', last_success := True\<rparr>)"
  proof (cases "response_type cmd = RT48Busy \<or> is_data cmd \<noteq> 0")
    case True
    then have "after_issue prompt_hw cmd timeout ?d4 = Some (True, (?d9\<lparr>hist := [Wr (Mmio int_flags_reg) 0xFFFF0002, Wr (Mmio int_flags_reg) 0xFFFF0002,
            Rd (Mmio int_flags_reg) 0x23, Rd (Mmio int_flags_reg) 0x23] @ hist ?d9\<rparr>)\<lparr>last_success := True\<rparr>)"
      unfolding prompt_after [OF assms(3)] Let_def t(1) by simp
    then show ?thesis by blast
  next
    case False
    then have "after_issue prompt_hw cmd timeout ?d4 = Some (True, ?d9\<lparr>last_success := True\<rparr>)"
      unfolding prompt_after [OF assms(3)] Let_def t(1) by simp
    moreover have "?d9\<lparr>last_success := True\<rparr> = ?d9\<lparr>hist := hist ?d9, last_success := True\<rparr>" by simp
    ultimately show ?thesis by metis
  qed
  then obtain h' where h': "issue_command prompt_hw cmd arg timeout d = Some (True, ?d9\<lparr>hist := h', last_success := True\<rparr>)"
    using issue_command_split [OF i assms(1), of arg timeout] by auto
  moreover have "prompt_ok cmd d (?d9\<lparr>hist := h', last_success := True\<rparr>)"
    using responded_read [OF l] responses_length [of prompt_hw cmd ?d7] l k t(2) by (auto simp: prompt_ok_def responded_def)
  ultimately show ?thesis using issue_command_law(1) [OF h'] by blast
qed

text \<open>Between commands of the identification.\<close>

definition idle_ok :: "sd_device \<Rightarrow> bool" where
  "idle_ok d \<longleftrightarrow> length (last_response d) = 4 \<and> transfer_blocks d = 0 \<and> length (scr d) = 8"

lemma prompt_kept: "conf d' = conf d \<Longrightarrow> prompt_ok cmd d d' \<Longrightarrow> idle_ok d \<Longrightarrow> idle_ok d'"
  by (simp add: idle_ok_def prompt_ok_def conf_def)

lemma prompt_host:
  assumes "command_at command = Some cmd" "command AND 0x80000000 = 0" "TO_REG cmd \<noteq> TO_REG RES_CMD" "is_data cmd = 0" "idle_ok d" "0 < timeout"
  shows "\<exists>d'. host_command prompt_hw command arg timeout d = Some (True, d') \<and> conf d' = conf d \<and> idle_ok d'
    \<and> (response_type cmd = RT48 \<or> response_type cmd = RT48Busy \<or> response_type cmd = RT136 \<longrightarrow> responded d')"
proof -
  let ?d = "d\<lparr>last_command := cmd\<rparr>"
  obtain d' where d': "issue_command prompt_hw cmd arg timeout ?d = Some (True, d')" "conf d' = conf ?d" "prompt_ok cmd ?d d'"
    using prompt_issue [of ?d timeout cmd arg] assms by (auto simp: idle_ok_def)
  have "host_command prompt_hw command arg timeout d = Some (True, d')" using assms(1-3) d'(1) by (simp add: host_command_def)
  moreover have "idle_ok d'" using prompt_kept [OF d'(2,3)] assms(5) by (simp add: idle_ok_def)
  ultimately show ?thesis using d'(2,3) by (auto simp: prompt_ok_def)
qed

lemma table:
  "command_at CTGoIdle = Some (commands ! 0)" "command_at CTSendIfCond = Some (commands ! 8)" "command_at CTIOSetOpCond = Some (commands ! 5)"
  "command_at CTSendCide = Some (commands ! 2)" "command_at CTSendRelativeAddr = Some (commands ! 3)" "command_at CTSelectCard = Some (commands ! 7)"
  "command_at CTApp = Some (commands ! 55)" "command_at CTOcrCheck = Some (commands ! 41)" "command_at CTSendSCR = Some (commands ! 51)"
  by (simp_all add: command_at_def CTGoIdle_def CTSendIfCond_def CTIOSetOpCond_def CTSendCide_def CTSendRelativeAddr_def CTSelectCard_def
      CTApp_def CTOcrCheck_def CTSendSCR_def commands_def)

lemma table_late:
  "commands ! 41 = mk_cmd 0 0 0 0 0 0 RT48 0 0 0 0 0 41 0" "commands ! 51 = mk_cmd 0 0 0 1 0 0 RT48 0 1 0 1 0 51 0"
  "commands ! 55 = mk_cmd 0 0 0 0 0 0 RT48 0 1 0 0 0 55 0"
  by (simp_all add: commands_def nth_append)

lemma table_kinds:
  "\<forall>i \<in> {0, 2, 3, 5, 7, 8, 41, 55}. is_data (commands ! i) = 0 \<and> TO_REG (commands ! i) \<noteq> TO_REG RES_CMD \<and> cmd_index (commands ! i) < 60"
  "\<forall>i \<in> {3, 7, 8, 41, 51, 55}. response_type (commands ! i) = RT48 \<or> response_type (commands ! i) = RT48Busy \<or> response_type (commands ! i) = RT136"
  "is_data (commands ! 51) = 1" "direction (commands ! 51) = 1" "cmd_index (commands ! 51) < 60"
proof -
  note e = mk_cmd_def RES_CMD_def TO_REG_def RT48_def RT48Busy_def RT136_def
  show "\<forall>i \<in> {0, 2, 3, 5, 7, 8, 41, 55}. is_data (commands ! i) = 0 \<and> TO_REG (commands ! i) \<noteq> TO_REG RES_CMD \<and> cmd_index (commands ! i) < 60"
    unfolding ball_simps(5,7) table_late by (simp add: commands_def e)
  show "\<forall>i \<in> {3, 7, 8, 41, 51, 55}. response_type (commands ! i) = RT48 \<or> response_type (commands ! i) = RT48Busy \<or> response_type (commands ! i) = RT136"
    unfolding ball_simps(5,7) table_late by (simp add: commands_def e)
  show "is_data (commands ! 51) = 1" "direction (commands ! 51) = 1" "cmd_index (commands ! 51) < 60"
    by (simp_all add: table_late e)
qed

lemma prompt_host_at:
  assumes "command_at command = Some (commands ! i)" "i \<in> {0, 2, 3, 5, 7, 8}" "command AND 0x80000000 = 0" "idle_ok d" "0 < timeout"
  shows "\<exists>d'. host_command prompt_hw command arg timeout d = Some (True, d') \<and> conf d' = conf d \<and> idle_ok d' \<and> (i \<in> {3, 7, 8} \<longrightarrow> responded d')"
proof -
  have k: "is_data (commands ! i) = 0" "TO_REG (commands ! i) \<noteq> TO_REG RES_CMD" using table_kinds(1) assms(2) by auto
  have r: "i \<in> {3, 7, 8} \<Longrightarrow> response_type (commands ! i) = RT48 \<or> response_type (commands ! i) = RT48Busy \<or> response_type (commands ! i) = RT136"
    using table_kinds(2) by auto
  show ?thesis using prompt_host [OF assms(1,3) k(2,1) assms(4,5)] r by blast
qed

lemma prompt_app:
  assumes "command_at command = Some cmd" "cmd_index cmd < 60" "length (last_response d) = 4" "transfer_blocks d \<le> 0xFFFF"
    "is_data cmd = 0 \<or> direction cmd = 1 \<and> transfer_blocks d = 1 \<and> block_size d = 8 \<and> length (buffer d) = 8"
  shows "\<exists>d'. emmc_app_command prompt_hw command arg timeout d = Some (True, d') \<and> conf d' = conf d \<and> prompt_ok cmd d d'"
proof -
  let ?d = "d\<lparr>last_command := commands ! 55\<rparr>"
  have 55: "is_data (commands ! 55) = 0" using table_kinds(1) by simp
  obtain d1 where d1: "issue_command prompt_hw (commands ! 55) (if rca ?d \<noteq> 0 then push_bit 16 (rca ?d) else 0) 2000 ?d = Some (True, d1)"
    "conf d1 = conf ?d" "prompt_ok (commands ! 55) ?d d1"
    using prompt_issue [of ?d 2000 "commands ! 55"] 55 assms(3,4) by auto
  let ?d1 = "d1\<lparr>last_command := cmd\<rparr>"
  obtain d' where d': "issue_command prompt_hw cmd arg 2000 ?d1 = Some (True, d')" "conf d' = conf ?d1" "prompt_ok cmd ?d1 d'"
    using prompt_issue [of ?d1 2000 cmd arg] assms d1(2,3) by (auto simp: conf_def prompt_ok_def)
  have "emmc_app_command prompt_hw command arg timeout d = Some (True, d')"
    using assms(1,2) table(7) d1(1) d'(1) by (simp add: emmc_app_command_def Let_def not_le)
  moreover have "conf d' = conf d" "prompt_ok cmd d d'" using d1(2,3) d'(2,3) by (simp_all add: prompt_ok_def)
  ultimately show ?thesis by blast
qed

lemma prompt_probe:
  assumes "idle_ok d" "0 < n"
  shows "\<exists>d'. probe_card n prompt_hw d = Some (True, d') \<and> idle_ok d' \<and> sdhc d'"
proof -
  have k41: "is_data (commands ! 41) = 0" "cmd_index (commands ! 41) < 60"
    "response_type (commands ! 41) = RT48 \<or> response_type (commands ! 41) = RT48Busy \<or> response_type (commands ! 41) = RT136"
    using table_kinds(1,2) by auto
  obtain d1 where 1: "host_command prompt_hw CTSendIfCond 0x1AA 200 d = Some (True, d1)" "idle_ok d1" "responded d1"
    using prompt_host_at [OF table(2) _ _ assms(1), where timeout = 200 and arg = "0x1AA"] by (auto simp: CTSendIfCond_def)
  have c1: "check_v2_card prompt_hw d = Some (False, d1)" using 1 by (simp add: check_v2_card_def responded_def)
  obtain d2 where 2: "host_command prompt_hw CTIOSetOpCond 0 1000 d1 = Some (True, d2)" "idle_ok d2"
    using prompt_host_at [OF table(3) _ _ 1(2), where timeout = 1000 and arg = 0] by (auto simp: CTIOSetOpCond_def)
  have c2: "check_usable_card prompt_hw d1 = Some (True, d2)" using 2 by (simp add: check_usable_card_def)
  obtain d3 where 3: "emmc_app_command prompt_hw CTOcrCheck 0 2000 d2 = Some (True, d3)" "conf d3 = conf d2" "prompt_ok (commands ! 41) d2 d3"
    using prompt_app [OF table(8), where d = d2 and arg = 0 and timeout = 2000] k41 2(2) by (auto simp: idle_ok_def)
  let ?d3 = "d3\<lparr>ocr := ucast (drop_bit 8 (resp0 d3) AND 0xFFFF)\<rparr>"
  have i3: "idle_ok ?d3" using prompt_kept [OF 3(2,3) 2(2)] by (simp add: idle_ok_def)
  have c3: "check_ocr prompt_hw d2 = Some (True, ?d3)" using 3(1) by (simp add: check_ocr_def)
  obtain d4 where 4: "emmc_app_command prompt_hw CTOcrCheck 0x00FF8000 2000 ?d3 = Some (True, d4)" "conf d4 = conf ?d3" "prompt_ok (commands ! 41) ?d3 d4"
    using prompt_app [OF table(8), where d = ?d3 and arg = "0x00FF8000" and timeout = 2000] k41 i3 by (auto simp: idle_ok_def)
  have r4: "resp0 d4 = 0xC0000900" "idle_ok d4" using 4(3) k41(3) prompt_kept [OF 4(2,3) i3] by (simp_all add: prompt_ok_def responded_def)
  obtain m where m: "n = Suc m" using assms(2) by (cases n) auto
  let ?d4 = "d4\<lparr>ocr := ucast (drop_bit 8 (resp0 d4) AND 0xFFFF), sdhc := True\<rparr>"
  have "check_sdhc_support n prompt_hw False ?d3 = Some (True, ?d4)" using 4(1) r4(1) by (simp add: m)
  then have "probe_card n prompt_hw d = Some (True, ?d4)" using c1 c2 c3 by (simp add: probe_card_def then_check_def)
  moreover have "idle_ok ?d4" using r4(2) by (simp add: idle_ok_def)
  ultimately show ?thesis by auto
qed

lemma prompt_data_mode:
  assumes "idle_ok d" "sdhc d" "0 < n"
  shows "\<exists>d'. enter_data_mode n prompt_hw d = Some (True, d')"
proof -
  obtain m where m: "n = Suc m" using assms(3) by (cases n) auto
  obtain x d1 where 1: "switch_clock_rate n prompt_hw (base_clock d) SD_CLOCK_HIGH d = Some (x, d1)" "idle_ok (emmc_delay 10 d1)" "sdhc (emmc_delay 10 d1)"
    using assms(1,2) by (simp add: switch_clock_rate_def Let_def m prompt_reads emmc_wr_eq emmc_delay_eq idle_ok_def)
  obtain d2 where 2: "host_command prompt_hw CTSendCide 0 2000 (emmc_delay 10 d1) = Some (True, d2)" "idle_ok d2" "conf d2 = conf (emmc_delay 10 d1)"
    using prompt_host_at [OF table(4) _ _ 1(2), where timeout = 2000 and arg = 0] by (auto simp: CTSendCide_def)
  obtain d3 where 3: "host_command prompt_hw CTSendRelativeAddr 0 2000 d2 = Some (True, d3)" "idle_ok d3" "responded d3" "conf d3 = conf d2"
    using prompt_host_at [OF table(5) _ _ 2(2), where timeout = 2000 and arg = 0] by (auto simp: CTSendRelativeAddr_def)
  let ?d3 = "d3\<lparr>rca := drop_bit 16 (resp0 d3) AND 0xFFFF\<rparr>"
  have c3: "check_rca prompt_hw (emmc_delay 10 d1) = Some (True, ?d3)" using 2(1) 3(1,3) by (simp add: check_rca_def responded_def Let_def)
  have i3: "idle_ok ?d3" "sdhc ?d3" using 3(2,4) 2(3) 1(3) by (simp_all add: idle_ok_def conf_def)
  obtain d4 where 4: "host_command prompt_hw CTSelectCard (push_bit 16 (rca ?d3)) 2000 ?d3 = Some (True, d4)" "idle_ok d4" "responded d4" "conf d4 = conf ?d3"
    using prompt_host_at [OF table(6) _ _ i3(1), where timeout = 2000 and arg = "push_bit 16 (rca ?d3)"] by (auto simp: CTSelectCard_def)
  have c4: "select_card prompt_hw ?d3 = Some (True, d4)" using 4(1,3) by (simp add: select_card_def responded_def Let_def)
  have s4: "sdhc d4" using 4(4) i3(2) by (simp add: conf_def)
  obtain v d5 where v: "emmc_rd prompt_hw block_size_count_reg d4 = (v, d5)" by fastforce
  let ?d5 = "(emmc_wr block_size_count_reg ((v AND NOT 0xFFF) OR 0x200) d5)"
  let ?d6 = "?d5\<lparr>buffer := scr ?d5, block_size := 8, transfer_blocks := 1\<rparr>"
  have k6: "length (last_response ?d6) = 4" "length (scr ?d5) = 8" using v 4(2) by (auto simp: emmc_rd_eq emmc_wr_eq idle_ok_def)
  obtain d7 where 7: "emmc_app_command prompt_hw CTSendSCR 0 30000 ?d6 = Some (True, d7)"
    using prompt_app [OF table(9), where d = ?d6 and arg = 0 and timeout = 30000] table_kinds(3-5) k6 by auto
  have "\<exists>d'. set_scr prompt_hw d4 = Some (True, d')" using s4 v 7 by (simp add: set_scr_def Let_def)
  then show ?thesis using 1(1) c3 c4 by (auto simp: enter_data_mode_def then_check_def)
qed

lemma prompt_clock:
  assumes "0 < n" "length (property_data d) = 8" "length (last_response d) = 4" "length (scr d) = 8"
  shows "\<exists>d'. emmc_setup_clock n prompt_hw (\<lambda>x. x) 0 d = Some (True, d') \<and> length (last_response d') = 4 \<and> length (scr d') = 8"
proof -
  obtain m where m: "n = Suc m" using assms(1) by (cases n) auto
  have z: "prompt_hw h (Mmio (MBX + 0x18)) = 0" for h
    by (simp add: prompt_hw_def MBX_def int_flags_reg_def control1_reg_def response_reg_def EMMC_BASE_def MMIO_BASE_def)
  have sp: "spin (Suc k) prompt_hw (MBX + 0x18) (\<lambda>v. v AND c = 0) h = Some (0, Rd (Mmio (MBX + 0x18)) 0 # h)" for k c h
    by (simp add: GET32_def rd_def z)
  have "\<exists>rate d1. mailbox_clock_rate n prompt_hw (\<lambda>x. x) 0 CT_EMMC (emmc_wr control2_reg 0 d) = Some (rate, d1)
      \<and> last_response d1 = last_response d \<and> scr d1 = scr d"
    by (simp add: mailbox_clock_rate_def mailbox_process_def mailbox_write_def m sp prompt_reads MAIL_TAGS_def Let_def emmc_wr_eq emmc_delay_eq
        del: spin.simps)
  then show ?thesis using assms(3,4) by (auto simp: emmc_setup_clock_def prompt_reads prompt_loops Let_def emmc_wr_eq emmc_delay_eq
      EMMC_CTRL1_CLK_STABLE_def)
qed

lemma prompt_reset:
  assumes "0 < n" "length (property_data d) = 8" "length (last_response d) = 4" "length (scr d) = 8"
  shows "\<exists>d'. emmc_card_reset n prompt_hw (\<lambda>x. x) 0 d = Some (True, d')"
proof -
  have w: "\<exists>h. wait_reg_mask prompt_hw control1_reg EMMC_CTRL1_RESET_ALL False 2000 (emmc_wr control1_reg EMMC_CTRL1_RESET_HOST d)
      = (True, d\<lparr>hist := h\<rparr>)"
    by (simp add: prompt_loops EMMC_CTRL1_RESET_ALL_def EMMC_CTRL1_RESET_DATA_def EMMC_CTRL1_RESET_CMD_def EMMC_CTRL1_RESET_HOST_def emmc_wr_eq)
      blast
  then obtain h where w: "wait_reg_mask prompt_hw control1_reg EMMC_CTRL1_RESET_ALL False 2000 (emmc_wr control1_reg EMMC_CTRL1_RESET_HOST d)
      = (True, d\<lparr>hist := h\<rparr>)" by blast
  obtain d2 where 2: "emmc_setup_clock n prompt_hw (\<lambda>x. x) 0 (d\<lparr>hist := h\<rparr>) = Some (True, d2)" "length (last_response d2) = 4" "length (scr d2) = 8"
    using prompt_clock [of n "d\<lparr>hist := h\<rparr>"] assms by auto
  let ?d3 = "emmc_wr int_mask_reg 0xFFFFFFFF (emmc_wr int_flags_reg 0xFFFFFFFF (emmc_wr int_enable_reg 0 d2))"
  let ?d4 = "(emmc_delay 203 ?d3)\<lparr>transfer_blocks := 0, last_command_value := 0, last_success := False, block_size := 0\<rparr>"
  have i4: "idle_ok ?d4" using 2(2,3) by (simp add: idle_ok_def emmc_wr_eq emmc_delay_eq)
  obtain d5 where 5: "host_command prompt_hw CTGoIdle 0 2000 ?d4 = Some (True, d5)" "idle_ok d5"
    using prompt_host_at [OF table(1) _ _ i4, where timeout = 2000 and arg = 0] by (auto simp: CTGoIdle_def)
  obtain d6 where 6: "probe_card n prompt_hw d5 = Some (True, d6)" "idle_ok d6" "sdhc d6" using prompt_probe [OF 5(2) assms(1)] by blast
  obtain d' where "enter_data_mode n prompt_hw d6 = Some (True, d')" using prompt_data_mode [OF 6(2,3) assms(1)] by blast
  then show ?thesis using w 2(1) 5(1) 6(1) by (simp add: emmc_card_reset_def then_check_def Let_def)
qed

lemma set_pins_hist: "\<exists>h. set_pins hw ps d = d\<lparr>hist := h\<rparr>"
proof (induction ps arbitrary: d)
  case Nil
  have "set_pins hw [] d = d\<lparr>hist := hist d\<rparr>" by simp
  then show ?case by blast
next
  case (Cons p ps)
  obtain a b where p: "p = (a, b)" by fastforce
  obtain h where "set_pins hw ps (d\<lparr>hist := gpio_pin_set_func hw a b (hist d)\<rparr>) = d\<lparr>hist := gpio_pin_set_func hw a b (hist d)\<rparr>\<lparr>hist := h\<rparr>"
    using Cons.IH by blast
  then have "set_pins hw (p # ps) d = d\<lparr>hist := h\<rparr>" by (simp add: p)
  then show ?case by blast
qed

lemma reset_tries_first: "emmc_card_reset n hw fw at d = Some (True, d') \<Longrightarrow> 0 < k \<Longrightarrow> reset_tries k n hw fw at d = Some (True, d')"
  by (cases k) simp_all

lemma cold_device_facts:
  "length (property_data cold_device) = 8" "length (last_response cold_device) = 4" "length (scr cold_device) = 8" "devices cold_device = replicate 10 None"
  by (simp_all add: cold_device_def test_device_def)

lemma prompt_init:
  assumes "0 < n"
  shows "\<exists>d'. emmc_init n prompt_hw (\<lambda>x. x) 0 cold_device = Some (True, d')"
proof -
  obtain h where h: "set_pins prompt_hw [(34, GPIO_INPUT), (35, GPIO_INPUT), (36, GPIO_INPUT), (37, GPIO_INPUT), (38, GPIO_INPUT), (39, GPIO_INPUT),
      (48, GPIO_ALT3), (49, GPIO_ALT3), (50, GPIO_ALT3), (51, GPIO_ALT3), (52, GPIO_ALT3)] (snd (io_device_register ''disk'' cold_device))
    = (snd (io_device_register ''disk'' cold_device))\<lparr>hist := h\<rparr>"
    using set_pins_hist by blast
  let ?d = "(snd (io_device_register ''disk'' cold_device))\<lparr>hist := h, transfer_blocks := 0, last_command_value := 0, last_success := False,
    block_size := 0, sdhc := False, ocr := 0, rca := 0, offset64 := 0, base_clock := 0\<rparr>"
  have "\<exists>d'. emmc_card_reset n prompt_hw (\<lambda>x. x) 0 ?d = Some (True, d')"
    by (rule prompt_reset [OF assms]) (use cold_device_facts in \<open>auto simp: io_device_register_def split: option.splits\<close>)
  then obtain d' where d': "emmc_card_reset n prompt_hw (\<lambda>x. x) 0 ?d = Some (True, d')" by blast
  have "reset_tries 10 n prompt_hw (\<lambda>x. x) 0 ?d = Some (True, d')" by (rule reset_tries_first [OF d']) simp
  then have "emmc_init n prompt_hw (\<lambda>x. x) 0 cold_device = Some (True, d')" unfolding emmc_init_def Let_def h by simp
  then show ?thesis by blast
qed

theorem init_brings_card_up_witness:
  "\<exists>d'. emmc_init 1 prompt_hw (\<lambda>x. x) 0 cold_device = Some (True, d') \<and> block_size d' = 512
     \<and> (\<exists>before v2 io k. issued (hist d') = before @ bring_up v2 io k (sdhc d'))"
proof -
  obtain d' where "emmc_init 1 prompt_hw (\<lambda>x. x) 0 cold_device = Some (True, d')" using prompt_init [of 1] by auto
  then show ?thesis using init_brings_card_up by blast
qed

section \<open>A transfer that is lost\<close>

text \<open>\<open>emmc_issue_command\<close> drops the result of \<open>do_data_transfer\<close>. A controller that completes the command and the transfer but
  never gets its port ready leaves the buffer as it was, and the command is reported as a success.\<close>

definition deaf_hw :: hardware where
  "deaf_hw h p = (if p = Mmio int_flags_reg then 3 else 0)"

lemma deaf_reads:
  "emmc_rd deaf_hw int_flags_reg d = (3, d\<lparr>hist := Rd (Mmio int_flags_reg) 3 # hist d\<rparr>)"
  "emmc_rd deaf_hw status_reg d = (0, d\<lparr>hist := Rd (Mmio status_reg) 0 # hist d\<rparr>)"
  by (simp_all add: emmc_rd_eq deaf_hw_def int_flags_reg_def status_reg_def)

lemma deaf_wait: "3 AND msk = 0 \<Longrightarrow> \<exists>h. wait_loop n deaf_hw int_flags_reg msk True d = (False, d\<lparr>hist := h\<rparr>)"
proof (induction n arbitrary: d)
  case 0
  have "d = d\<lparr>hist := hist d\<rparr>" by simp
  then show ?case by (metis wait_loop.simps(1))
next
  case (Suc n)
  let ?e = "emmc_delay 1 (d\<lparr>hist := Rd (Mmio int_flags_reg) 3 # hist d\<rparr>)"
  obtain h where h: "wait_loop n deaf_hw int_flags_reg msk True ?e = (False, ?e\<lparr>hist := h\<rparr>)" using Suc.IH [of ?e] Suc.prems by blast
  then have "wait_loop (Suc n) deaf_hw int_flags_reg msk True d = (False, ?e\<lparr>hist := h\<rparr>)" using Suc.prems by (simp add: deaf_reads)
  moreover have "?e\<lparr>hist := h\<rparr> = d\<lparr>hist := h\<rparr>" by (simp add: emmc_delay_eq)
  ultimately show ?case by metis
qed

lemma deaf_ready: "3 AND msk \<noteq> 0 \<Longrightarrow> 0 < n \<Longrightarrow> wait_loop n deaf_hw int_flags_reg msk True d = (True, d\<lparr>hist := Rd (Mmio int_flags_reg) 3 # hist d\<rparr>)"
  by (cases n) (simp_all add: deaf_reads)

lemma deaf_inhibit: "0 < n \<Longrightarrow> inhibit_loop n deaf_hw d = (True, d\<lparr>hist := Rd (Mmio status_reg) 0 # hist d\<rparr>)"
  by (cases n) (simp_all add: deaf_reads)

lemma lost_transfer_succeeds:
  assumes "transfer_blocks d = 1" "0 < timeout" "is_data cmd = 1" "direction cmd = 1"
  shows "\<exists>d'. issue_command deaf_hw cmd arg timeout d = Some (True, d') \<and> buffer d' = buffer d"
proof -
  let ?d1 = "d\<lparr>last_command_value := TO_REG cmd, hist := Rd (Mmio status_reg) 0 # hist d\<rparr>"
  have i: "inhibit_loop 2001 deaf_hw (d\<lparr>last_command_value := TO_REG cmd\<rparr>) = (True, ?d1)"
    using deaf_inhibit [of 2001] by simp
  let ?d4 = "emmc_wr cmd_xfer_mode_reg (last_command_value ?d1) (emmc_wr arg1_reg arg
       (emmc_wr block_size_count_reg (block_size ?d1 OR push_bit 16 (transfer_blocks ?d1)) ?d1))"
  obtain m where m: "timeout = Suc m" using assms(2) by (cases timeout) auto
  have dn: "done_loop timeout deaf_hw (emmc_delay 2 ?d4) = (True, ?d4\<lparr>hist := Rd (Mmio int_flags_reg) 3 # hist (emmc_delay 2 ?d4)\<rparr>)"
    by (simp add: m deaf_reads emmc_delay_eq)
  let ?d7 = "emmc_wr int_flags_reg 0xFFFF0001 (?d4\<lparr>hist := Rd (Mmio int_flags_reg) 3 # Rd (Mmio int_flags_reg) 3 # hist (emmc_delay 2 ?d4)\<rparr>)"
  let ?d8 = "read_responses deaf_hw cmd ?d7"
  have b8: "buffer ?d8 = buffer d" "transfer_blocks ?d8 = 1"
    using assms(1) by (simp_all add: read_responses_def read_response_def emmc_rd_eq emmc_wr_eq)
  obtain h where w: "wait_loop 20001 deaf_hw int_flags_reg (0x20 OR 0x8000) True ?d8 = (False, ?d8\<lparr>hist := h\<rparr>)"
    using deaf_wait [of "0x20 OR 0x8000" 20001 ?d8] by auto
  obtain d9 where d9: "do_data_transfer deaf_hw cmd ?d8 = Some (False, d9)" "buffer d9 = buffer d"
    using w b8 assms(4) by (simp add: do_data_transfer_def wait_reg_mask_def deaf_reads Let_def set_last_error_def emmc_wr_eq del: wait_loop.simps)
  have "\<exists>h. finish_transfer deaf_hw d9 = (True, d9\<lparr>hist := h\<rparr>)"
    by (simp add: finish_transfer_def wait_reg_mask_def deaf_ready deaf_reads Let_def emmc_wr_eq del: wait_loop.simps) blast
  then obtain h' where f: "finish_transfer deaf_hw d9 = (True, d9\<lparr>hist := h'\<rparr>)" by blast
  have "after_issue deaf_hw cmd timeout ?d4 = Some (True, d9\<lparr>hist := h', last_success := True\<rparr>)"
    unfolding after_issue_def dn prod.case using assms(3) d9(1) f by (simp add: deaf_reads Let_def del: done_loop.simps)
  then show ?thesis using issue_command_split [OF i, of arg timeout] assms(1) d9(2) by auto
qed

end
