(* ===== verification/Usb.thy ===== *)
theory Usb
  imports Device
begin

text \<open>
  The USB host driver lib/src/piusb.c with lib/include/piusb.h: power, reset and host mode of the controller, transfers on a
  channel, the stages of control transfers with their retries, the standard requests, interrupt polling, and the
  enumeration of a keyboard. The controller and the device on the bus are hardware, a function of the history of
  accesses (\<open>Device\<close>). The DMA buffers are memory shared with the controller: what the driver puts into them
  and what it reads from them are accesses of the history. Polls without a bound take one; \<open>None\<close> is a loop that goes
  on, or an access outside a buffer. Return codes are integers as in the code. Cache maintenance has no effect here.
\<close>

section \<open>Registers (lib/include/piusb.h)\<close>

definition USB_BASE :: u32 where "USB_BASE = 0x20980000"
definition USB_CORE_BASE :: u32 where "USB_CORE_BASE = USB_BASE + 0x0000"
definition USB_HOST_BASE :: u32 where "USB_HOST_BASE = USB_BASE + 0x0400"

definition GOTGCTL :: u32 where "GOTGCTL = USB_CORE_BASE + 0x00"
definition GAHBCFG :: u32 where "GAHBCFG = USB_CORE_BASE + 0x08"
definition GUSBCFG :: u32 where "GUSBCFG = USB_CORE_BASE + 0x0C"
definition GRSTCTL :: u32 where "GRSTCTL = USB_CORE_BASE + 0x10"
definition GINTMSK :: u32 where "GINTMSK = USB_CORE_BASE + 0x18"
definition GRXFSIZ :: u32 where "GRXFSIZ = USB_CORE_BASE + 0x24"
definition GNPTXFSIZ :: u32 where "GNPTXFSIZ = USB_CORE_BASE + 0x28"
definition HPTXFSIZ :: u32 where "HPTXFSIZ = USB_CORE_BASE + 0x100"
definition HCFG :: u32 where "HCFG = USB_HOST_BASE + 0x00"
definition HFIR :: u32 where "HFIR = USB_HOST_BASE + 0x04"
definition HFNUM :: u32 where "HFNUM = USB_HOST_BASE + 0x08"
definition HAINTMSK :: u32 where "HAINTMSK = USB_HOST_BASE + 0x18"
definition HPRT :: u32 where "HPRT = USB_HOST_BASE + 0x40"
definition ARM_USB_POWER :: u32 where "ARM_USB_POWER = USB_BASE + 0xE00"

definition HCCHAR :: "u32 \<Rightarrow> u32" where "HCCHAR n = USB_HOST_BASE + 0x100 + n * 0x20"
definition HCSPLT :: "u32 \<Rightarrow> u32" where "HCSPLT n = USB_HOST_BASE + 0x104 + n * 0x20"
definition HCINT :: "u32 \<Rightarrow> u32" where "HCINT n = USB_HOST_BASE + 0x108 + n * 0x20"
definition HCINTMSK :: "u32 \<Rightarrow> u32" where "HCINTMSK n = USB_HOST_BASE + 0x10C + n * 0x20"
definition HCTSIZ :: "u32 \<Rightarrow> u32" where "HCTSIZ n = USB_HOST_BASE + 0x110 + n * 0x20"
definition HCDMA :: "u32 \<Rightarrow> u32" where "HCDMA n = USB_HOST_BASE + 0x114 + n * 0x20"

definition GAHBCFG_GLBLINTRMSK :: u32 where "GAHBCFG_GLBLINTRMSK = push_bit 0 1"
definition GAHBCFG_HBSTLEN_INCR4 :: u32 where "GAHBCFG_HBSTLEN_INCR4 = push_bit 1 3"
definition GAHBCFG_DMAEN :: u32 where "GAHBCFG_DMAEN = push_bit 5 1"
definition GRSTCTL_CSRST :: u32 where "GRSTCTL_CSRST = push_bit 0 1"
definition GRSTCTL_AHBIDLE :: u32 where "GRSTCTL_AHBIDLE = push_bit 31 1"
definition GRSTCTL_TXFFLSH :: u32 where "GRSTCTL_TXFFLSH = push_bit 5 1"
definition GRSTCTL_RXFFLSH :: u32 where "GRSTCTL_RXFFLSH = push_bit 4 1"

definition HCCHAR_CHENA :: u32 where "HCCHAR_CHENA = push_bit 31 1"
definition HCCHAR_CHDIS :: u32 where "HCCHAR_CHDIS = push_bit 30 1"
definition HCCHAR_ODDFRM :: u32 where "HCCHAR_ODDFRM = push_bit 29 1"
definition HCCHAR_LSDEV :: u32 where "HCCHAR_LSDEV = push_bit 17 1"
definition HCCHAR_EPDIR_IN :: u32 where "HCCHAR_EPDIR_IN = push_bit 15 1"
definition HCCHAR_MPS_MASK :: u32 where "HCCHAR_MPS_MASK = 0x7FF"

definition HCINT_XFERCOMP :: u32 where "HCINT_XFERCOMP = push_bit 0 1"
definition HCINT_CHHLTD :: u32 where "HCINT_CHHLTD = push_bit 1 1"
definition HCINT_AHBERR :: u32 where "HCINT_AHBERR = push_bit 2 1"
definition HCINT_STALL :: u32 where "HCINT_STALL = push_bit 3 1"
definition HCINT_NAK :: u32 where "HCINT_NAK = push_bit 4 1"
definition HCINT_ACK :: u32 where "HCINT_ACK = push_bit 5 1"
definition HCINT_XACTERR :: u32 where "HCINT_XACTERR = push_bit 7 1"
definition HCINT_BBLERR :: u32 where "HCINT_BBLERR = push_bit 8 1"
definition HCINT_FRMOVRUN :: u32 where "HCINT_FRMOVRUN = push_bit 9 1"
definition HCINT_DATATGLERR :: u32 where "HCINT_DATATGLERR = push_bit 10 1"
definition HCTSIZ_XFERSIZE_MASK :: u32 where "HCTSIZ_XFERSIZE_MASK = 0x7FFFF"

definition PID_DATA0 :: u8 where "PID_DATA0 = 0"
definition PID_DATA1 :: u8 where "PID_DATA1 = 2"
definition PID_SETUP :: u8 where "PID_SETUP = 3"
definition EP_TYPE_CONTROL :: u8 where "EP_TYPE_CONTROL = 0"
definition EP_TYPE_INTERRUPT :: u8 where "EP_TYPE_INTERRUPT = 3"
definition CH_CONTROL_OUT :: u32 where "CH_CONTROL_OUT = 0"
definition CH_CONTROL_IN :: u32 where "CH_CONTROL_IN = 1"
definition CH_INTERRUPT :: u32 where "CH_INTERRUPT = 2"
definition CH_INTERRUPT2 :: u32 where "CH_INTERRUPT2 = 3"

definition BUS_ADDRESS :: "u32 \<Rightarrow> u32" where
  "BUS_ADDRESS addr = (addr AND NOT 0xC0000000) OR 0x40000000"

section \<open>State\<close>

record usb_setup =
  bmRequestType :: u8
  bRequest :: u8
  wValue :: u16
  wIndex :: u16
  wLength :: u16

record usb_hid_state =
  endpoint :: u8
  ep_mps :: u16
  interval :: u8
  interrupt_toggle :: u8

text \<open>The context with the device state, the two endpoints and the place of the DMA buffers in memory, together with the two
  buffers that are static in \<open>usb_hid_full_init\<close> and the history of accesses.\<close>

record usb_context =
  speed :: u32
  address :: u8
  max_packet_size :: u8
  hid :: usb_hid_state
  aux :: usb_hid_state
  dma_at :: u32
  data_buf_idx :: nat
  int_buf_idx :: nat
  last_hcint :: u32
  dev_desc :: "u8 list"
  config_buf :: "u8 list"
  bus :: history

definition setup_buf :: "usb_context \<Rightarrow> u32" where "setup_buf u = dma_at u"
definition data_buf :: "usb_context \<Rightarrow> nat \<Rightarrow> u32" where "data_buf u i = dma_at u + 32 + 64 * of_nat i"
definition status_buf :: "usb_context \<Rightarrow> u32" where "status_buf u = dma_at u + 1056"
definition int_buf :: "usb_context \<Rightarrow> nat \<Rightarrow> u32" where "int_buf u i = dma_at u + 1088 + 64 * of_nat i"
definition mbox_buf :: "usb_context \<Rightarrow> u32" where "mbox_buf u = dma_at u + 5184"

definition usb_context_init :: "usb_context \<Rightarrow> usb_context" where
  "usb_context_init u = u\<lparr>speed := 1, address := 0, max_packet_size := 8,
     hid := \<lparr>endpoint = 1, ep_mps = 8, interval = 10, interrupt_toggle = PID_DATA0\<rparr>,
     aux := \<lparr>endpoint = 0, ep_mps = 0, interval = 0, interrupt_toggle = PID_DATA0\<rparr>,
     data_buf_idx := 0, int_buf_idx := 0, last_hcint := 0\<rparr>"

definition readl :: "hardware \<Rightarrow> u32 \<Rightarrow> usb_context \<Rightarrow> u32 \<times> usb_context" where
  "readl hw a u = (case GET32 hw a (bus u) of (v, h) \<Rightarrow> (v, u\<lparr>bus := h\<rparr>))"

definition writel :: "u32 \<Rightarrow> u32 \<Rightarrow> usb_context \<Rightarrow> usb_context" where
  "writel v a u = u\<lparr>bus := PUT32 a v (bus u)\<rparr>"

definition udelay :: "nat \<Rightarrow> usb_context \<Rightarrow> usb_context" where
  "udelay n u = u\<lparr>bus := Wait n # bus u\<rparr>"

definition mem_read :: "hardware \<Rightarrow> u32 \<Rightarrow> usb_context \<Rightarrow> u32 \<times> usb_context" where
  "mem_read hw a u = (case rd hw (Mem a) (bus u) of (v, h) \<Rightarrow> (v, u\<lparr>bus := h\<rparr>))"

definition mem_write :: "u32 \<Rightarrow> u32 \<Rightarrow> usb_context \<Rightarrow> usb_context" where
  "mem_write a v u = u\<lparr>bus := Wr (Mem a) v # bus u\<rparr>"

text \<open>A byte loop that fills a buffer, and one that reads from it.\<close>

fun bytes_out :: "u32 \<Rightarrow> u8 list \<Rightarrow> usb_context \<Rightarrow> usb_context" where
  "bytes_out a [] u = u"
| "bytes_out a (b # bs) u = bytes_out (a + 1) bs (mem_write a (ucast b) u)"

fun bytes_in :: "hardware \<Rightarrow> u32 \<Rightarrow> nat \<Rightarrow> usb_context \<Rightarrow> u8 list \<times> usb_context" where
  "bytes_in hw a 0 u = ([], u)"
| "bytes_in hw a (Suc n) u = (case mem_read hw a u of (v, u1) \<Rightarrow>
     case bytes_in hw (a + 1) n u1 of (bs, u2) \<Rightarrow> (ucast v # bs, u2))"

definition spin_on :: "nat \<Rightarrow> hardware \<Rightarrow> u32 \<Rightarrow> (u32 \<Rightarrow> bool) \<Rightarrow> usb_context \<Rightarrow> usb_context option" where
  "spin_on n hw a P u = map_option (\<lambda>(v, h). u\<lparr>bus := h\<rparr>) (spin n hw a P (bus u))"

section \<open>Power, reset and host mode\<close>

definition MAILBOX :: u32 where "MAILBOX = MMIO_BASE + 0xB880"
definition MAILBOX_FULL :: u32 where "MAILBOX_FULL = 0x80000000"
definition MAILBOX_EMPTY :: u32 where "MAILBOX_EMPTY = 0x40000000"
definition RPI_FIRMWARE_SET_POWER_STATE :: u32 where "RPI_FIRMWARE_SET_POWER_STATE = 0x00028001"

fun words_out :: "u32 \<Rightarrow> u32 list \<Rightarrow> usb_context \<Rightarrow> usb_context" where
  "words_out a [] u = u"
| "words_out a (w # ws) u = words_out (a + 4) ws (mem_write a w u)"

definition usb_power_on :: "nat \<Rightarrow> hardware \<Rightarrow> usb_context \<Rightarrow> (bool \<times> usb_context) option" where
  "usb_power_on n hw u =
     (let u1 = words_out (mbox_buf u) [8 * 4, 0, RPI_FIRMWARE_SET_POWER_STATE, 8, 0, 3, push_bit 0 1 OR push_bit 1 1, 0] u;
          addr = (mbox_buf u AND NOT 0xF) OR 8
      in do {
        u2 \<leftarrow> spin_on n hw (MAILBOX + 0x18) (\<lambda>v. v AND MAILBOX_FULL = 0) u1;
        u3 \<leftarrow> spin_on n hw (MAILBOX + 0x18) (\<lambda>v. v AND MAILBOX_EMPTY = 0) (writel addr (MAILBOX + 0x20) u2);
        case readl hw MAILBOX u3 of (_, u4) \<Rightarrow> case mem_read hw (mbox_buf u + 4) u4 of (v, u5) \<Rightarrow>
          Some (v = 0x80000000, u5)
      })"

definition usb_core_reset :: "nat \<Rightarrow> hardware \<Rightarrow> usb_context \<Rightarrow> usb_context option" where
  "usb_core_reset n hw u = do {
     u1 \<leftarrow> spin_on n hw GRSTCTL (\<lambda>v. v AND GRSTCTL_AHBIDLE \<noteq> 0) u;
     case readl hw GRSTCTL u1 of (v, u2) \<Rightarrow> do {
       u3 \<leftarrow> spin_on n hw GRSTCTL (\<lambda>v. v AND GRSTCTL_CSRST = 0) (writel (v OR GRSTCTL_CSRST) GRSTCTL u2);
       Some (udelay 100000 u3)
     }
   }"

definition usb_flush_tx_fifo :: "nat \<Rightarrow> hardware \<Rightarrow> u32 \<Rightarrow> usb_context \<Rightarrow> usb_context option" where
  "usb_flush_tx_fifo n hw fifo_num u = do {
     u1 \<leftarrow> spin_on n hw GRSTCTL (\<lambda>v. v AND GRSTCTL_TXFFLSH = 0) (writel (push_bit 6 fifo_num OR GRSTCTL_TXFFLSH) GRSTCTL u);
     Some (udelay 1000 u1)
   }"

definition usb_flush_rx_fifo :: "nat \<Rightarrow> hardware \<Rightarrow> usb_context \<Rightarrow> usb_context option" where
  "usb_flush_rx_fifo n hw u = do {
     u1 \<leftarrow> spin_on n hw GRSTCTL (\<lambda>v. v AND GRSTCTL_RXFFLSH = 0) (writel GRSTCTL_RXFFLSH GRSTCTL u);
     Some (udelay 1000 u1)
   }"

text \<open>Clearing single bits, one after the other.\<close>

fun clear_bits :: "nat list \<Rightarrow> u32 \<Rightarrow> u32" where
  "clear_bits [] v = v"
| "clear_bits (b # bs) v = clear_bits bs (v AND NOT (push_bit b 1))"

definition usb_force_host_mode :: "nat \<Rightarrow> hardware \<Rightarrow> usb_context \<Rightarrow> usb_context option" where
  "usb_force_host_mode n hw u =
     (let u1 = udelay 100000 (writel 0 GAHBCFG u);
          u2 = udelay 100000 (writel 0 GOTGCTL u1);
          u3 = udelay 10000 (writel 0 GINTMSK u2)
      in case readl hw GUSBCFG u3 of (c1, u4) \<Rightarrow>
        let u5 = udelay 50000 (writel (clear_bits [4, 3, 17, 19, 20, 22, 8, 9] c1) GUSBCFG u4)
        in case readl hw GUSBCFG u5 of (c2, u6) \<Rightarrow>
          let u7 = udelay 200000 (writel ((c2 OR push_bit 29 1) AND NOT (push_bit 30 1)) GUSBCFG u6)
          in do {
            u8 \<leftarrow> usb_core_reset n hw u7;
            case readl hw GUSBCFG u8 of (c3, u9) \<Rightarrow>
              Some (udelay 500000 (writel ((clear_bits [4, 3, 8, 9] c3 OR push_bit 29 1) AND NOT (push_bit 30 1)) GUSBCFG u9))
          })"

definition usb_host_init :: "nat \<Rightarrow> hardware \<Rightarrow> usb_context \<Rightarrow> usb_context option" where
  "usb_host_init n hw u =
     (let u1 = udelay 10000 (writel 0 ARM_USB_POWER u);
          u2 = writel 48000 HFIR (writel (push_bit 0 1) HCFG u1);
          u3 = writel (push_bit 16 1024 OR 2048) HPTXFSIZ (writel (push_bit 16 1024 OR 1024) GNPTXFSIZ (writel 1024 GRXFSIZ u2))
      in do {
        u4 \<leftarrow> usb_flush_tx_fifo n hw 0x10 u3;
        u5 \<leftarrow> usb_flush_rx_fifo n hw u4;
        let ahbcfg = GAHBCFG_GLBLINTRMSK OR GAHBCFG_DMAEN OR GAHBCFG_HBSTLEN_INCR4;
        let u6 = writel (push_bit 0 1 OR push_bit 1 1 OR push_bit 2 1 OR push_bit 3 1) HAINTMSK (writel ahbcfg GAHBCFG u5);
        let gintmsk = push_bit 25 1 OR push_bit 3 1 OR push_bit 24 1;
        Some (udelay 50000 (writel gintmsk GINTMSK u6))
      })"

definition usb_port_power_on :: "usb_context \<Rightarrow> usb_context" where
  "usb_port_power_on u = udelay 200000 (writel (push_bit 12 1) HPRT u)"

definition usb_port_reset :: "hardware \<Rightarrow> usb_context \<Rightarrow> usb_context" where
  "usb_port_reset hw u =
     (case readl hw HPRT u of (hprt, u1) \<Rightarrow>
        let hprt1 = clear_bits [1, 2, 3, 5] hprt OR push_bit 8 1;
            u2 = udelay 60000 (writel hprt1 HPRT u1)
        in case readl hw HPRT u2 of (hprt2, u3) \<Rightarrow>
          let u4 = udelay 50000 (writel (clear_bits [1, 2, 3, 5, 8] hprt2) HPRT u3)
          in case readl hw HPRT u4 of (hprt3, u5) \<Rightarrow> u5\<lparr>speed := drop_bit 17 hprt3 AND 3\<rparr>)"

section \<open>Transfers on a channel\<close>

text \<open>Reading until a test holds, at most \<open>n + 1\<close> times.\<close>

fun spin_bounded :: "nat \<Rightarrow> hardware \<Rightarrow> u32 \<Rightarrow> (u32 \<Rightarrow> bool) \<Rightarrow> usb_context \<Rightarrow> usb_context" where
  "spin_bounded n hw a P u = (case readl hw a u of (v, u1) \<Rightarrow>
     if P v then u1 else (case n of 0 \<Rightarrow> u1 | Suc m \<Rightarrow> spin_bounded m hw a P u1))"

definition usb_transfer_channel_halt :: "hardware \<Rightarrow> u32 \<Rightarrow> usb_context \<Rightarrow> usb_context" where
  "usb_transfer_channel_halt hw ch u =
     (case readl hw (HCCHAR ch) u of (hcchar, u1) \<Rightarrow>
        let u2 = writel (hcchar OR HCCHAR_CHDIS OR HCCHAR_CHENA) (HCCHAR ch) u1;
            u3 = spin_bounded 100000 hw (HCINT ch) (\<lambda>v. v AND HCINT_CHHLTD \<noteq> 0) u2;
            u4 = spin_bounded 100000 hw (HCCHAR ch) (\<lambda>v. v AND HCCHAR_CHENA = 0) u3
        in writel HCINT_CHHLTD (HCINT ch) u4)"

text \<open>The code of a channel that has halted.\<close>

definition halted_code :: "u32 \<Rightarrow> int" where
  "halted_code hcint =
     (if hcint AND HCINT_XFERCOMP \<noteq> 0 then 0
      else if hcint AND HCINT_STALL \<noteq> 0 then - 2
      else if hcint AND HCINT_NAK \<noteq> 0 then - 3
      else if hcint AND HCINT_FRMOVRUN \<noteq> 0 then - 5
      else if hcint AND HCINT_DATATGLERR \<noteq> 0 then - 6
      else if hcint AND (HCINT_XACTERR OR HCINT_AHBERR OR HCINT_BBLERR) \<noteq> 0 then - 1
      else if hcint AND HCINT_ACK \<noteq> 0 then 0
      else - 3)"

fun wait_channel :: "nat \<Rightarrow> hardware \<Rightarrow> u32 \<Rightarrow> usb_context \<Rightarrow> int \<times> usb_context" where
  "wait_channel 0 hw ch u =
     (case readl hw (HCINT ch) u of (hcint, u1) \<Rightarrow> (- 4, usb_transfer_channel_halt hw ch (u1\<lparr>last_hcint := hcint\<rparr>)))"
| "wait_channel (Suc n) hw ch u =
     (case readl hw (HCINT ch) u of (hcint, u1) \<Rightarrow>
        if hcint AND HCINT_CHHLTD \<noteq> 0 then (halted_code hcint, writel hcint (HCINT ch) (u1\<lparr>last_hcint := hcint\<rparr>))
        else if hcint AND HCINT_XFERCOMP \<noteq> 0 then (0, writel hcint (HCINT ch) (u1\<lparr>last_hcint := hcint\<rparr>))
        else wait_channel n hw ch u1)"

definition usb_transfer_channel_wait :: "hardware \<Rightarrow> u32 \<Rightarrow> usb_context \<Rightarrow> int \<times> usb_context" where
  "usb_transfer_channel_wait hw ch u = wait_channel 5000000 hw ch u"

definition usb_transfer_channel_start :: "hardware \<Rightarrow> u32 \<Rightarrow> u8 \<Rightarrow> u8 \<Rightarrow> u8 \<Rightarrow> bool \<Rightarrow> u16 \<Rightarrow> u8 \<Rightarrow> u32 \<Rightarrow> u32 \<Rightarrow> u32
    \<Rightarrow> usb_context \<Rightarrow> usb_context" where
  "usb_transfer_channel_start hw ch devaddr ep eptype dir_in mps pid xfersize pktcnt dma_addr u =
     (case readl hw (HCINT ch) u of (i, u0) \<Rightarrow>
      let u1 = (if i AND HCINT_CHHLTD \<noteq> 0 then writel HCINT_CHHLTD (HCINT ch) u0 else u0)
      in case readl hw (HCCHAR ch) u1 of (c, u2) \<Rightarrow>
      let u3 = writel (c OR HCCHAR_CHDIS OR HCCHAR_CHENA) (HCCHAR ch) u2;
          u4 = spin_bounded 100000 hw (HCINT ch) (\<lambda>v. v AND HCINT_CHHLTD \<noteq> 0) u3;
          u5 = writel HCINT_CHHLTD (HCINT ch) u4;
          u6 = spin_bounded 100000 hw (HCCHAR ch) (\<lambda>v. v AND HCCHAR_CHENA = 0) u5;
          u7 = writel 0 (HCSPLT ch) (writel 0x7FF (HCINTMSK ch) (writel 0xFFFFFFFF (HCINT ch) u6));
          u8 = writel (push_bit 29 (ucast pid) OR push_bit 19 pktcnt OR (xfersize AND HCTSIZ_XFERSIZE_MASK)) (HCTSIZ ch) u7;
          u9 = writel dma_addr (HCDMA ch) u8;
          hcchar = push_bit 22 (ucast devaddr) OR push_bit 11 (ucast ep) OR push_bit 18 (ucast eptype) OR push_bit 20 1
            OR (ucast mps AND HCCHAR_MPS_MASK);
          hcchar1 = (if dir_in then hcchar OR HCCHAR_EPDIR_IN else hcchar);
          hcchar2 = (if speed u9 = 2 then hcchar1 OR HCCHAR_LSDEV else hcchar1)
      in case readl hw HFNUM u9 of (f, u10) \<Rightarrow>
        let hcchar3 = (if f AND 1 \<noteq> 0 then hcchar2 OR HCCHAR_ODDFRM else hcchar2)
        in writel (hcchar3 OR HCCHAR_CHENA) (HCCHAR ch) u10)"

end
