(* ===== verification/UsbControl.thy ===== *)
theory UsbControl
  imports Usb
begin

text \<open>
  Control transfers and the standard requests of lib/src/piusb.c. A transfer is a setup stage, a data stage and a status
  stage, each with its own number of attempts. A data stage writes into the buffer of the caller, a list of bytes
  beside the context; \<open>None\<close> is an access outside a buffer, or a data stage that has used up its bound on packets.
\<close>

section \<open>Stages\<close>

definition setup_bytes :: "usb_setup \<Rightarrow> u8 list" where
  "setup_bytes s = [bmRequestType s, bRequest s, ucast (wValue s), ucast (drop_bit 8 (wValue s)),
     ucast (wIndex s), ucast (drop_bit 8 (wIndex s)), ucast (wLength s), ucast (drop_bit 8 (wLength s))]"

definition usb_setup_stage_dma_xfer :: "hardware \<Rightarrow> u8 \<Rightarrow> usb_setup \<Rightarrow> usb_context \<Rightarrow> int \<times> usb_context" where
  "usb_setup_stage_dma_xfer hw devaddr s u =
     (let u1 = bytes_out (setup_buf u) (setup_bytes s) u;
          u2 = usb_transfer_channel_start hw CH_CONTROL_OUT devaddr 0 EP_TYPE_CONTROL False (ucast (max_packet_size u1)) PID_SETUP
                 8 1 (BUS_ADDRESS (setup_buf u1)) u1
      in usb_transfer_channel_wait hw CH_CONTROL_OUT u2)"

text \<open>The loop over the packets of a data stage.\<close>

fun data_in_packets :: "nat \<Rightarrow> hardware \<Rightarrow> u8 \<Rightarrow> u32 \<Rightarrow> u8 \<Rightarrow> u32 \<Rightarrow> u8 list \<times> usb_context \<Rightarrow> (int \<times> u8 list \<times> usb_context) option" where
  "data_in_packets 0 hw devaddr len pid off (dst, u) = None"
| "data_in_packets (Suc n) hw devaddr len pid off (dst, u) =
     (if \<not> off < len then Some (0, dst, u)
      else let mps = ucast (max_packet_size u) :: u32;
               chunk = (if len - off > mps then mps else len - off);
               pkt_buf = data_buf u (data_buf_idx u);
               u1 = u\<lparr>data_buf_idx := (data_buf_idx u + 1) mod 16\<rparr>;
               u2 = bytes_out pkt_buf (replicate 64 0xCC) u1;
               u3 = usb_transfer_channel_start hw CH_CONTROL_IN devaddr 0 EP_TYPE_CONTROL True (ucast (max_packet_size u2)) pid
                      chunk 1 (BUS_ADDRESS pkt_buf) u2
           in case usb_transfer_channel_wait hw CH_CONTROL_IN u3 of (ret, u4) \<Rightarrow>
              case readl hw (HCTSIZ CH_CONTROL_IN) u4 of (hctsiz_after, u5) \<Rightarrow>
              if ret \<noteq> 0 then Some (ret, dst, u5)
              else let received = chunk - (hctsiz_after AND HCTSIZ_XFERSIZE_MASK)
                in if 64 < received \<or> length dst < unat off + unat received then None
                   else case bytes_in hw pkt_buf (unat received) u5 of (bs, u6) \<Rightarrow>
                     let dst1 = blit dst (unat off) bs
                     in if received < ucast (max_packet_size u6) then Some (0, dst1, u6)
                        else data_in_packets n hw devaddr len (if pid = PID_DATA0 then PID_DATA1 else PID_DATA0) (off + received) (dst1, u6))"

definition usb_setup_stage_dma_data_in :: "nat \<Rightarrow> hardware \<Rightarrow> u8 \<Rightarrow> u32 \<Rightarrow> u8 list \<times> usb_context \<Rightarrow> (int \<times> u8 list \<times> usb_context) option" where
  "usb_setup_stage_dma_data_in n hw devaddr len r =
     (if len = 0 then Some (0, r) else data_in_packets n hw devaddr len PID_DATA1 0 r)"

definition do_status_out_stage :: "hardware \<Rightarrow> u8 \<Rightarrow> usb_context \<Rightarrow> int \<times> usb_context" where
  "do_status_out_stage hw devaddr u =
     usb_transfer_channel_wait hw CH_CONTROL_OUT
       (usb_transfer_channel_start hw CH_CONTROL_OUT devaddr 0 EP_TYPE_CONTROL False (ucast (max_packet_size u)) PID_DATA1 0 1
          (BUS_ADDRESS (status_buf u)) u)"

definition usb_setup_stage_dma_status_in :: "hardware \<Rightarrow> u8 \<Rightarrow> usb_context \<Rightarrow> int \<times> usb_context" where
  "usb_setup_stage_dma_status_in hw devaddr u =
     usb_transfer_channel_wait hw CH_CONTROL_IN
       (usb_transfer_channel_start hw CH_CONTROL_IN devaddr 0 EP_TYPE_CONTROL True (ucast (max_packet_size u)) PID_DATA1 0 1
          (BUS_ADDRESS (status_buf u)) u)"

text \<open>The buffer of the packet is one of sixteen of 64 bytes; more bytes than that leave it.\<close>

definition usb_dma_data_out :: "hardware \<Rightarrow> u8 \<Rightarrow> u8 list \<Rightarrow> u32 \<Rightarrow> usb_context \<Rightarrow> (int \<times> usb_context) option" where
  "usb_dma_data_out hw devaddr src len u =
     (if len = 0 then Some (0, u)
      else if 64 < len \<or> length src < unat len then None
      else let pkt_buf = data_buf u (data_buf_idx u);
               u1 = u\<lparr>data_buf_idx := (data_buf_idx u + 1) mod 16\<rparr>;
               u2 = bytes_out pkt_buf (take (unat len) src) u1
           in Some (usb_transfer_channel_wait hw CH_CONTROL_OUT
                (usb_transfer_channel_start hw CH_CONTROL_OUT devaddr 0 EP_TYPE_CONTROL False (ucast (max_packet_size u2)) PID_DATA1
                   len 1 (BUS_ADDRESS pkt_buf) u2)))"

section \<open>Transfers\<close>

text \<open>A stage with its attempts: \<open>again\<close> are the codes worth another one after a pause; the last code is the result.\<close>

fun retry :: "nat \<Rightarrow> (int \<Rightarrow> bool) \<Rightarrow> ('s \<Rightarrow> 's) \<Rightarrow> ('s \<Rightarrow> (int \<times> 's) option) \<Rightarrow> 's \<Rightarrow> (int \<times> 's) option" where
  "retry 0 again pause f s = None"
| "retry (Suc n) again pause f s = do {
     (ret, s1) \<leftarrow> f s;
     if ret = 0 \<or> \<not> again ret then Some (ret, s1)
     else if n = 0 then Some (ret, pause s1)
     else retry n again pause f (pause s1)
   }"

definition setup_stage :: "hardware \<Rightarrow> u8 \<Rightarrow> usb_setup \<Rightarrow> usb_context \<Rightarrow> (int \<times> usb_context) option" where
  "setup_stage hw devaddr s u =
     retry 100 (\<lambda>r. r = - 3) (udelay 1000) (\<lambda>v. Some (usb_setup_stage_dma_xfer hw devaddr s v)) u"

definition usb_control_in :: "nat \<Rightarrow> hardware \<Rightarrow> u8 \<Rightarrow> usb_setup \<Rightarrow> u16 \<Rightarrow> u8 list \<times> usb_context \<Rightarrow> (int \<times> u8 list \<times> usb_context) option" where
  "usb_control_in n hw devaddr s len r = (case r of (dst, u) \<Rightarrow> do {
     (ret, u1) \<leftarrow> setup_stage hw devaddr s u;
     if ret \<noteq> 0 then Some (ret, dst, u1)
     else do {
       (ret2, dst2, u2) \<leftarrow>
         (if len > 0
          then retry 500 (\<lambda>r. r = - 3) (map_prod id (udelay 1000)) (usb_setup_stage_dma_data_in n hw devaddr (ucast len)) (dst, udelay 2000 u1)
          else Some (0, dst, udelay 2000 u1));
       if ret2 \<noteq> 0 then Some (ret2, dst2, u2)
       else do {
         (ret3, u3) \<leftarrow> retry 100 (\<lambda>r. r = - 3) (udelay 1000) (\<lambda>v. Some (do_status_out_stage hw devaddr v)) (udelay 2000 u2);
         Some (ret3, dst2, u3)
       }
     }
   })"

text \<open>The status stage of a request without data to the host: a stall or a device that never answers counts as success.\<close>

definition status_in_stage :: "hardware \<Rightarrow> u8 \<Rightarrow> usb_context \<Rightarrow> (int \<times> usb_context) option" where
  "status_in_stage hw devaddr u = do {
     (ret, u1) \<leftarrow> retry 100 (\<lambda>r. r = - 3 \<or> r = - 2) (udelay 2000) (\<lambda>v. Some (usb_setup_stage_dma_status_in hw devaddr v)) u;
     Some (if ret \<noteq> 0 \<and> ret \<noteq> - 3 \<and> ret \<noteq> - 2 then ret else 0, u1)
   }"

definition usb_control_out_data :: "hardware \<Rightarrow> u8 \<Rightarrow> usb_setup \<Rightarrow> u8 list \<Rightarrow> u16 \<Rightarrow> usb_context \<Rightarrow> (int \<times> usb_context) option" where
  "usb_control_out_data hw devaddr s dat len u = do {
     (ret, u1) \<leftarrow> setup_stage hw devaddr s u;
     if ret \<noteq> 0 then Some (ret, u1)
     else do {
       (ret2, u2) \<leftarrow> retry 100 (\<lambda>r. r = - 3) (udelay 1000) (usb_dma_data_out hw devaddr dat (ucast len)) (udelay 2000 u1);
       if ret2 \<noteq> 0 then Some (ret2, u2) else status_in_stage hw devaddr (udelay 2000 u2)
     }
   }"

definition usb_control_out_nodata :: "hardware \<Rightarrow> u8 \<Rightarrow> usb_setup \<Rightarrow> usb_context \<Rightarrow> (int \<times> usb_context) option" where
  "usb_control_out_nodata hw devaddr s u = do {
     (ret, u1) \<leftarrow> setup_stage hw devaddr s u;
     if ret \<noteq> 0 then Some (ret, u1) else status_in_stage hw devaddr (udelay 5000 u1)
   }"

section \<open>Requests\<close>

definition usb_get_device_descriptor :: "nat \<Rightarrow> hardware \<Rightarrow> u8 \<Rightarrow> u8 \<Rightarrow> u8 list \<times> usb_context \<Rightarrow> (int \<times> u8 list \<times> usb_context) option" where
  "usb_get_device_descriptor n hw devaddr len r =
     usb_control_in n hw devaddr \<lparr>bmRequestType = 0x80, bRequest = 6, wValue = 0x0100, wIndex = 0, wLength = ucast len\<rparr> (ucast len) r"

definition usb_get_config_descriptor :: "nat \<Rightarrow> hardware \<Rightarrow> u8 \<Rightarrow> u16 \<Rightarrow> u8 list \<times> usb_context \<Rightarrow> (int \<times> u8 list \<times> usb_context) option" where
  "usb_get_config_descriptor n hw devaddr len r =
     usb_control_in n hw devaddr \<lparr>bmRequestType = 0x80, bRequest = 6, wValue = 0x0200, wIndex = 0, wLength = len\<rparr> len r"

definition usb_set_address :: "hardware \<Rightarrow> u8 \<Rightarrow> usb_context \<Rightarrow> (int \<times> usb_context) option" where
  "usb_set_address hw new_addr u = do {
     (ret, u1) \<leftarrow> setup_stage hw 0 \<lparr>bmRequestType = 0, bRequest = 5, wValue = ucast new_addr, wIndex = 0, wLength = 0\<rparr> u;
     if ret \<noteq> 0 then Some (ret, u1)
     else do {
       (ret2, u2) \<leftarrow> retry 20 (\<lambda>r. r = - 3 \<or> r = - 1) (udelay 1000)
         (\<lambda>v. Some (usb_setup_stage_dma_status_in hw 0 v)) (udelay 5000 u1);
       if ret2 = 0 then Some (0, udelay 5000 u2)
       else do {
         (ret3, u3) \<leftarrow> retry 20 (\<lambda>r. r = - 3 \<or> r = - 1) (udelay 1000)
           (\<lambda>v. Some (usb_setup_stage_dma_status_in hw new_addr v)) (udelay 10000 u2);
         if ret3 = 0 then Some (0, u3) else Some (0, udelay 5000 u3)
       }
     }
   }"

definition usb_set_configuration :: "hardware \<Rightarrow> u8 \<Rightarrow> u8 \<Rightarrow> usb_context \<Rightarrow> (int \<times> usb_context) option" where
  "usb_set_configuration hw devaddr config u =
     usb_control_out_nodata hw devaddr \<lparr>bmRequestType = 0, bRequest = 9, wValue = ucast config, wIndex = 0, wLength = 0\<rparr> u"

definition usb_hid_set_idle :: "hardware \<Rightarrow> u8 \<Rightarrow> u8 \<Rightarrow> usb_context \<Rightarrow> (int \<times> usb_context) option" where
  "usb_hid_set_idle hw devaddr iface u = do {
     (_, u1) \<leftarrow> usb_control_out_nodata hw devaddr \<lparr>bmRequestType = 0x21, bRequest = 0x0A, wValue = 0, wIndex = ucast iface, wLength = 0\<rparr> u;
     Some (0, u1)
   }"

definition usb_hid_set_protocol :: "hardware \<Rightarrow> u8 \<Rightarrow> u8 \<Rightarrow> u8 \<Rightarrow> usb_context \<Rightarrow> (int \<times> usb_context) option" where
  "usb_hid_set_protocol hw devaddr iface protocol u = do {
     (_, u1) \<leftarrow> usb_control_out_nodata hw devaddr
       \<lparr>bmRequestType = 0x21, bRequest = 0x0B, wValue = ucast protocol, wIndex = ucast iface, wLength = 0\<rparr> u;
     Some (0, u1)
   }"

definition usb_hid_set_report :: "hardware \<Rightarrow> u8 \<Rightarrow> u8 \<Rightarrow> u8 \<Rightarrow> u8 \<Rightarrow> u8 list \<Rightarrow> u16 \<Rightarrow> usb_context \<Rightarrow> (int \<times> usb_context) option" where
  "usb_hid_set_report hw devaddr iface report_type report_id dat len u =
     usb_control_out_data hw devaddr \<lparr>bmRequestType = 0x21, bRequest = 0x09, wValue = push_bit 8 (ucast report_type) OR ucast report_id,
       wIndex = ucast iface, wLength = len\<rparr> dat len u"

end
