(* ===== verification/UsbHid.thy ===== *)
theory UsbHid
  imports UsbControl Keyboard
begin

text \<open>
  The keyboard on the bus: polling of interrupt endpoints, the search of the configuration for its endpoints and the
  enumeration of lib/src/piusb.c, and the driver of final/src/keyboard.c on top, in the build for the physical screen.
  A read past the configuration buffer, an endless loop and a report longer than its buffer are \<open>None\<close>.
\<close>

section \<open>Interrupt endpoints\<close>

text \<open>The endpoint state that the code has a pointer to is passed in and out, as is the buffer.\<close>

definition arm_channel :: "hardware \<Rightarrow> u32 \<Rightarrow> nat \<Rightarrow> u8 \<Rightarrow> usb_hid_state \<Rightarrow> u16 \<Rightarrow> usb_context \<Rightarrow> usb_context" where
  "arm_channel hw ch buf_idx devaddr ep len u =
     usb_transfer_channel_start hw ch devaddr (endpoint ep) EP_TYPE_INTERRUPT True (ep_mps ep) (interrupt_toggle ep)
       (ucast len) 1 (BUS_ADDRESS (int_buf u buf_idx)) u"

definition flip_toggle :: "usb_hid_state \<Rightarrow> usb_hid_state" where
  "flip_toggle ep = ep\<lparr>interrupt_toggle := interrupt_toggle ep XOR 2\<rparr>"

definition usb_interrupt_poll_ch :: "hardware \<Rightarrow> u32 \<Rightarrow> nat \<Rightarrow> u8 \<Rightarrow> usb_hid_state \<Rightarrow> u8 list \<Rightarrow> u16 \<Rightarrow> usb_context
    \<Rightarrow> (int \<times> usb_hid_state \<times> u8 list \<times> usb_context) option" where
  "usb_interrupt_poll_ch hw ch buf_idx devaddr ep buf len u =
     (case readl hw (HCINT ch) u of (hcint, u1) \<Rightarrow>
        if hcint AND HCINT_CHHLTD = 0 then Some (- 3, ep, buf, u1)
        else if hcint AND (HCINT_STALL OR HCINT_XACTERR OR HCINT_AHBERR) \<noteq> 0 then Some (- 1, ep, buf, u1)
        else if hcint AND HCINT_DATATGLERR \<noteq> 0
        then (let u2 = writel hcint (HCINT ch) u1; ep1 = flip_toggle ep
              in Some (- 6, ep1, buf, arm_channel hw ch buf_idx devaddr ep1 len u2))
        else if hcint AND HCINT_XFERCOMP \<noteq> 0
        then (if length buf < unat len then None
              else case bytes_in hw (int_buf u1 buf_idx) (unat len) u1 of (bs, u2) \<Rightarrow>
                let ep1 = flip_toggle ep
                in Some (0, ep1, blit buf 0 bs, arm_channel hw ch buf_idx devaddr ep1 len u2))
        else Some (- 3, ep, buf, arm_channel hw ch buf_idx devaddr ep len u1))"

definition usb_interrupt_init_ch :: "hardware \<Rightarrow> u32 \<Rightarrow> nat \<Rightarrow> u8 \<Rightarrow> usb_hid_state \<Rightarrow> usb_context \<Rightarrow> usb_context" where
  "usb_interrupt_init_ch hw ch buf_idx devaddr ep u = arm_channel hw ch buf_idx devaddr ep (ep_mps ep) u"

section \<open>The configuration\<close>

record config_scan =
  is_keyboard :: bool
  is_hid :: bool
  protocol :: u8
  found_keyboard :: bool
  found_aux :: bool
  kb_ep :: usb_hid_state
  aux_ep :: usb_hid_state

definition byte_at :: "u8 list \<Rightarrow> nat \<Rightarrow> u8 option" where
  "byte_at buf i = (if i < length buf then Some (buf ! i) else None)"

definition u16_of :: "u8 \<Rightarrow> u8 \<Rightarrow> u16" where
  "u16_of lo hi = ucast lo OR push_bit 8 (ucast hi)"

definition scan_interface :: "u8 list \<Rightarrow> nat \<Rightarrow> config_scan \<Rightarrow> config_scan option" where
  "scan_interface buf p s = do {
     iface_class \<leftarrow> byte_at buf (p + 5);
     iface_subclass \<leftarrow> byte_at buf (p + 6);
     iface_protocol \<leftarrow> byte_at buf (p + 7);
     Some (s\<lparr>is_keyboard := iface_class = 3 \<and> iface_subclass = 1 \<and> iface_protocol = 1,
             is_hid := iface_class = 3, protocol := iface_protocol\<rparr>)
   }"

definition scan_endpoint :: "u8 list \<Rightarrow> nat \<Rightarrow> config_scan \<Rightarrow> config_scan option" where
  "scan_endpoint buf p s = do {
     ep_addr \<leftarrow> byte_at buf (p + 2);
     ep_attr \<leftarrow> byte_at buf (p + 3);
     mps_lo \<leftarrow> byte_at buf (p + 4);
     mps_hi \<leftarrow> byte_at buf (p + 5);
     ep_int \<leftarrow> byte_at buf (p + 6);
     let mps = u16_of mps_lo mps_hi;
     Some (if \<not> found_keyboard s \<and> is_keyboard s \<and> ep_attr AND 3 = 3 \<and> ep_addr AND 0x80 \<noteq> 0
           then s\<lparr>kb_ep := (kb_ep s)\<lparr>endpoint := ep_addr AND 0x7F, ep_mps := mps, interval := ep_int\<rparr>, found_keyboard := True\<rparr>
           else if \<not> found_aux s \<and> is_hid s \<and> \<not> is_keyboard s \<and> protocol s \<noteq> 2 \<and> ep_attr AND 3 = 3 \<and> ep_addr AND 0x80 \<noteq> 0
           then s\<lparr>aux_ep := (aux_ep s)\<lparr>endpoint := ep_addr AND 0x7F, ep_mps := mps, interval := ep_int, interrupt_toggle := PID_DATA0\<rparr>, found_aux := True\<rparr>
           else s)
   }"

function scan_config :: "u8 list \<Rightarrow> nat \<Rightarrow> nat \<Rightarrow> config_scan \<Rightarrow> config_scan option" where
  "scan_config buf fin p s =
     (if \<not> p < fin then Some s
      else case (byte_at buf p, byte_at buf (p + 1)) of
        (Some len, Some type) \<Rightarrow>
          if len = 0 then Some s
          else (case (if type = 4 \<and> len \<ge> 9 then scan_interface buf p s else Some s) of
            None \<Rightarrow> None
          | Some s1 \<Rightarrow> (case (if type = 5 \<and> len \<ge> 7 then scan_endpoint buf p s1 else Some s1) of
              None \<Rightarrow> None
            | Some s2 \<Rightarrow> scan_config buf fin (p + unat len) s2))
      | _ \<Rightarrow> None)"
  by pat_completeness auto
termination
proof (relation "measure (\<lambda>(buf, fin, p, s). fin - p)")
  fix buf :: "u8 list" and fin p :: nat and s :: config_scan and r :: "u8 option \<times> u8 option" and a b :: "u8 option" and len type :: u8
    and x y :: config_scan
  assume "\<not> \<not> p < fin" "\<not> len = 0"
  then show "((buf, fin, p + unat len, y), buf, fin, p, s) \<in> measure (\<lambda>(buf, fin, p, s). fin - p)"
    using unat_gt_0 [of len] by auto
qed simp

declare scan_config.simps [simp del]

definition scan_start :: "usb_context \<Rightarrow> config_scan" where
  "scan_start u = \<lparr>is_keyboard = False, is_hid = False, protocol = 0, found_keyboard = False, found_aux = False,
     kb_ep = hid u, aux_ep = aux u\<rparr>"

text \<open>Fetching the configuration and looking for the endpoints: the nine bytes of its header give the length.\<close>

definition find_endpoints :: "nat \<Rightarrow> hardware \<Rightarrow> usb_context \<Rightarrow> usb_context option" where
  "find_endpoints n hw u = do {
     (ret, cfg, u1) \<leftarrow> usb_get_config_descriptor n hw (address u) 9 (config_buf u, u);
     if ret \<noteq> 0 then Some (u1\<lparr>config_buf := cfg\<rparr>)
     else let total_len = u16_of (cfg ! 2) (cfg ! 3)
       in if total_len > 256 then Some (u1\<lparr>config_buf := cfg\<rparr>)
          else do {
            (_, cfg2, u2) \<leftarrow> usb_get_config_descriptor n hw (address u1) total_len (cfg, u1);
            s \<leftarrow> scan_config cfg2 (unat total_len) 0 (scan_start u2);
            Some (u2\<lparr>config_buf := cfg2, hid := kb_ep s, aux := aux_ep s\<rparr>)
          }
   }"

section \<open>Enumeration\<close>

fun wait_device :: "nat \<Rightarrow> hardware \<Rightarrow> usb_context \<Rightarrow> usb_context option" where
  "wait_device 0 hw u = None"
| "wait_device (Suc n) hw u = (case readl hw HPRT u of (v, u1) \<Rightarrow>
     if v AND 1 \<noteq> 0 then Some u1 else wait_device n hw (udelay 100000 u1))"

definition start_controller :: "nat \<Rightarrow> hardware \<Rightarrow> usb_context \<Rightarrow> usb_context option" where
  "start_controller n hw u = do {
     (powered, u1) \<leftarrow> usb_power_on n hw u;
     if \<not> powered then None
     else do {
       u2 \<leftarrow> usb_force_host_mode n hw (udelay 100000 u1);
       u3 \<leftarrow> usb_host_init n hw u2;
       u4 \<leftarrow> wait_device n hw (usb_port_power_on u3);
       Some ((usb_port_reset hw (udelay 200000 u4))\<lparr>max_packet_size := 8\<rparr>)
     }
   }"

definition read_descriptors :: "nat \<Rightarrow> hardware \<Rightarrow> usb_context \<Rightarrow> usb_context option" where
  "read_descriptors n hw u = do {
     (ret, dd, u1) \<leftarrow> usb_get_device_descriptor n hw (address u) 8 (replicate 18 0, u);
     let u2 = (if ret = 0 then u1\<lparr>max_packet_size := dd ! 7\<rparr> else u1);
     (_, dd2, u3) \<leftarrow> usb_get_device_descriptor n hw (address u2) 18 (replicate 18 0, u2);
     find_endpoints n hw (u3\<lparr>dev_desc := dd2\<rparr>)
   }"

definition configure_device :: "hardware \<Rightarrow> usb_context \<Rightarrow> usb_context option" where
  "configure_device hw u = do {
     (_, u1) \<leftarrow> usb_set_configuration hw (address u) 1 u;
     (_, u2) \<leftarrow> usb_hid_set_protocol hw (address u1) 0 0 (udelay 50000 u1);
     (_, u3) \<leftarrow> usb_hid_set_report hw (address u2) 0 2 0 [1] 1 (udelay 50000 u2);
     Some (udelay 50000 u3)
   }"

definition usb_hid_full_init :: "nat \<Rightarrow> hardware \<Rightarrow> usb_context \<Rightarrow> (int \<times> usb_context) option" where
  "usb_hid_full_init n hw u = do {
     u1 \<leftarrow> start_controller n hw (usb_context_init u);
     (ret, u2) \<leftarrow> usb_set_address hw 1 u1;
     if ret \<noteq> 0 then None
     else do {
       u3 \<leftarrow> read_descriptors n hw (u2\<lparr>address := 1\<rparr>);
       u4 \<leftarrow> configure_device hw u3;
       Some (0, u4)
     }
   }"

section \<open>The keyboard driver (final/src/keyboard.c)\<close>

text \<open>The static context, the two report buffers and the maps of pressed keys.\<close>

record usb_keyboard =
  usb_ctx :: usb_context
  report :: "u8 list"
  aux_report :: "u8 list"
  kb_maps :: keyboard

definition USB_DMA_SIZE :: nat where "USB_DMA_SIZE = 5312"

text \<open>Copying a context copies its DMA buffers; the copy has its own.\<close>

definition keyboard_init :: "hardware \<Rightarrow> u32 \<Rightarrow> usb_context \<Rightarrow> usb_context" where
  "keyboard_init hw static_at u =
     (case bytes_in hw (dma_at u) USB_DMA_SIZE u of (bs, u1) \<Rightarrow> (bytes_out static_at bs u1)\<lparr>dma_at := static_at\<rparr>)"

definition ADD_IRQ_DISABLE1 :: u32 where "ADD_IRQ_DISABLE1 = MMIO_BASE + 0xB21C"
definition ADD_IRQ_DISABLE2 :: u32 where "ADD_IRQ_DISABLE2 = MMIO_BASE + 0xB220"

text \<open>\<open>heap\<close> is where the buffers of the context lie that the allocator returns.\<close>

definition do_usb :: "nat \<Rightarrow> hardware \<Rightarrow> u32 \<Rightarrow> usb_keyboard \<Rightarrow> usb_keyboard option" where
  "do_usb n hw heap k =
     (let u0 = writel 0xFFFFFFFF ADD_IRQ_DISABLE2 (writel 0xFFFFFFFF ADD_IRQ_DISABLE1 (usb_ctx k))
      in do {
        (_, u1) \<leftarrow> usb_hid_full_init n hw (usb_context_init (u0\<lparr>dma_at := heap\<rparr>));
        let u2 = udelay 200000 u1;
        let u3 = u2\<lparr>hid := (hid u2)\<lparr>interrupt_toggle := PID_DATA0\<rparr>\<rparr>;
        let u4 = usb_interrupt_init_ch hw CH_INTERRUPT 0 (address u3) (hid u3) u3;
        let u5 = (if endpoint (aux u4) \<noteq> 0
                  then (let u = u4\<lparr>aux := (aux u4)\<lparr>interrupt_toggle := PID_DATA0\<rparr>\<rparr>
                        in usb_interrupt_init_ch hw CH_INTERRUPT2 1 (address u) (aux u) u)
                  else u4);
        Some (k\<lparr>usb_ctx := keyboard_init hw (dma_at (usb_ctx k)) u5\<rparr>)
      })"

definition report_of :: "u8 list \<Rightarrow> hid_keyboard_report" where
  "report_of bs = \<lparr>modifiers = bs ! 0, reserved = bs ! 1, keys = [bs ! 2, bs ! 3, bs ! 4, bs ! 5, bs ! 6, bs ! 7]\<rparr>"

definition poll_aux :: "hardware \<Rightarrow> usb_keyboard \<Rightarrow> usb_keyboard option" where
  "poll_aux hw k =
     (let u = usb_ctx k
      in if endpoint (aux u) \<noteq> 0
         then do {
           (_, ep, buf, u1) \<leftarrow> usb_interrupt_poll_ch hw CH_INTERRUPT2 1 (address u) (aux u) (aux_report k) (ep_mps (aux u)) u;
           Some (k\<lparr>usb_ctx := u1\<lparr>aux := ep\<rparr>, aux_report := buf\<rparr>)
         }
         else Some k)"

definition poll_report :: "hardware \<Rightarrow> usb_keyboard \<Rightarrow> (int \<times> usb_keyboard) option" where
  "poll_report hw k =
     (let u = usb_ctx k
      in do {
        (ret, ep, buf, u1) \<leftarrow> usb_interrupt_poll_ch hw CH_INTERRUPT 0 (address u) (hid u) (report k) 8 u;
        Some (ret, k\<lparr>usb_ctx := u1\<lparr>hid := ep\<rparr>, report := buf\<rparr>)
      })"

definition keyboard_poll_usb :: "nat \<Rightarrow> hardware \<Rightarrow> u32 \<Rightarrow> usb_keyboard \<Rightarrow> (u32 \<times> usb_keyboard) option" where
  "keyboard_poll_usb n hw heap k = do {
     k1 \<leftarrow> poll_aux hw k;
     (ret, k2) \<leftarrow> poll_report hw k1;
     (c, lost, maps) \<leftarrow> keyboard_poll_once ret (report_of (report k2)) (kb_maps k2);
     let k3 = k2\<lparr>kb_maps := maps\<rparr>;
     if lost then do {
       k4 \<leftarrow> do_usb n hw heap k3;
       Some (- 1, k4)
     }
     else Some (c, k3)
   }"

end
