(* ===== verification/UsbConfig.thy ===== *)
theory UsbConfig
  imports UsbHid
begin

text \<open>
  What the search of lib/src/piusb.c finds in a configuration: a configuration is a list of descriptors, each starting with its
  length and its type, and the endpoints belong to the interface before them.
\<close>

section \<open>Configurations\<close>

definition descriptor_ok :: "u8 list \<Rightarrow> bool" where
  "descriptor_ok d \<longleftrightarrow> 2 \<le> length d \<and> unat (d ! 0) = length d"

definition is_interface :: "u8 list \<Rightarrow> bool" where
  "is_interface d \<longleftrightarrow> d ! 1 = 4 \<and> 9 \<le> length d"

definition is_endpoint :: "u8 list \<Rightarrow> bool" where
  "is_endpoint d \<longleftrightarrow> d ! 1 = 5 \<and> 7 \<le> length d"

text \<open>The endpoints, each with the interface it belongs to.\<close>

fun endpoints_of :: "u8 list option \<Rightarrow> u8 list list \<Rightarrow> (u8 list option \<times> u8 list) list" where
  "endpoints_of i [] = []"
| "endpoints_of i (d # ds) =
     (if is_interface d then endpoints_of (Some d) ds
      else if is_endpoint d then (i, d) # endpoints_of i ds
      else endpoints_of i ds)"

definition boot_keyboard :: "u8 list option \<Rightarrow> bool" where
  "boot_keyboard i = (case i of None \<Rightarrow> False | Some d \<Rightarrow> d ! 5 = 3 \<and> d ! 6 = 1 \<and> d ! 7 = 1)"

definition other_hid :: "u8 list option \<Rightarrow> bool" where
  "other_hid i = (case i of None \<Rightarrow> False | Some d \<Rightarrow> d ! 5 = 3 \<and> \<not> boot_keyboard i \<and> d ! 7 \<noteq> 2)"

definition interrupt_in :: "u8 list \<Rightarrow> bool" where
  "interrupt_in e \<longleftrightarrow> e ! 3 AND 3 = 3 \<and> e ! 2 AND 0x80 \<noteq> 0"

definition keyboard_endpoint :: "u8 list list \<Rightarrow> (u8 list option \<times> u8 list) option" where
  "keyboard_endpoint ds = find (\<lambda>(i, e). boot_keyboard i \<and> interrupt_in e) (endpoints_of None ds)"

definition aux_endpoint :: "u8 list list \<Rightarrow> (u8 list option \<times> u8 list) option" where
  "aux_endpoint ds = find (\<lambda>(i, e). other_hid i \<and> interrupt_in e) (endpoints_of None ds)"

text \<open>The state an endpoint descriptor gives, over the one before.\<close>

definition endpoint_state :: "u8 list \<Rightarrow> usb_hid_state \<Rightarrow> usb_hid_state" where
  "endpoint_state e h = h\<lparr>endpoint := e ! 2 AND 0x7F, ep_mps := u16_of (e ! 4) (e ! 5), interval := e ! 6\<rparr>"

section \<open>The scan follows the descriptors\<close>

definition scan_descriptor :: "u8 list \<Rightarrow> config_scan \<Rightarrow> config_scan" where
  "scan_descriptor d s =
     (if is_interface d
      then s\<lparr>is_keyboard := boot_keyboard (Some d), is_hid := d ! 5 = 3, protocol := d ! 7\<rparr>
      else if is_endpoint d
      then (if \<not> found_keyboard s \<and> is_keyboard s \<and> interrupt_in d
            then s\<lparr>kb_ep := endpoint_state d (kb_ep s), found_keyboard := True\<rparr>
            else if \<not> found_aux s \<and> is_hid s \<and> \<not> is_keyboard s \<and> protocol s \<noteq> 2 \<and> interrupt_in d
            then s\<lparr>aux_ep := endpoint_state d (aux_ep s)\<lparr>interrupt_toggle := PID_DATA0\<rparr>, found_aux := True\<rparr>
            else s)
      else s)"

lemma byte_at_inside: "i < length d \<Longrightarrow> byte_at (pre @ d @ rest) (length pre + i) = Some (d ! i)"
  by (simp add: byte_at_def nth_append)

lemma scan_step:
  assumes "descriptor_ok d" "length pre < fin"
  shows "scan_config (pre @ d @ rest) fin (length pre) s = scan_config (pre @ d @ rest) fin (length (pre @ d)) (scan_descriptor d s)"
proof -
  note at = byte_at_inside [of _ d pre rest]
  have len: "2 \<le> length d" "unat (d ! 0) = length d" using assms(1) by (simp_all add: descriptor_ok_def)
  then have nz: "d ! 0 \<noteq> 0" by auto
  have b: "byte_at (pre @ d @ rest) (length pre) = Some (d ! 0)" "byte_at (pre @ d @ rest) (length pre + 1) = Some (d ! 1)"
    using at [of 0] at [of 1] len by (simp_all flip: One_nat_def) (use len(1) in \<open>cases d; simp\<close>)
  have ge: "9 \<le> d ! 0 \<longleftrightarrow> 9 \<le> length d" "7 \<le> d ! 0 \<longleftrightarrow> 7 \<le> length d" using len(2) by (simp_all add: word_le_nat_alt)
  have i: "(if d ! 1 = 4 \<and> 9 \<le> d ! 0 then scan_interface (pre @ d @ rest) (length pre) s else Some s)
      = Some (if is_interface d then s\<lparr>is_keyboard := boot_keyboard (Some d), is_hid := d ! 5 = 3, protocol := d ! 7\<rparr> else s)"
    by (simp add: scan_interface_def is_interface_def ge at boot_keyboard_def)
  have e: "(if d ! 1 = 5 \<and> 7 \<le> d ! 0 then scan_endpoint (pre @ d @ rest) (length pre)
        (if is_interface d then s\<lparr>is_keyboard := boot_keyboard (Some d), is_hid := d ! 5 = 3, protocol := d ! 7\<rparr> else s)
      else Some (if is_interface d then s\<lparr>is_keyboard := boot_keyboard (Some d), is_hid := d ! 5 = 3, protocol := d ! 7\<rparr> else s))
      = Some (scan_descriptor d s)"
    by (auto simp: scan_endpoint_def scan_descriptor_def is_interface_def is_endpoint_def ge at at [of 2, simplified] Let_def endpoint_state_def interrupt_in_def)
  show ?thesis
    by (subst scan_config.simps) (simp only: assms(2) simp_thms if_False b prod.case option.case nz i e len(2) length_append)
qed

lemma scan_follows:
  assumes "\<forall>d \<in> set ds. descriptor_ok d"
  shows "scan_config (pre @ concat ds @ rest) (length pre + length (concat ds)) (length pre) s = Some (fold scan_descriptor ds s)"
  using assms
proof (induction ds arbitrary: pre s)
  case Nil
  show ?case by (subst scan_config.simps) simp
next
  case (Cons d ds)
  have "0 < length d" using Cons.prems by (auto simp: descriptor_ok_def)
  then have "length pre < length pre + length (concat (d # ds))" by simp
  note st = scan_step [of d pre _ "concat ds @ rest" s, OF _ this]
  show ?case using st Cons.prems Cons.IH [of "pre @ d" "scan_descriptor d s"] by (simp add: add.assoc)
qed

section \<open>It takes the first ones\<close>

definition scans :: "u8 list option \<Rightarrow> config_scan \<Rightarrow> bool" where
  "scans i s \<longleftrightarrow> is_keyboard s = boot_keyboard i \<and> (is_hid s \<and> \<not> is_keyboard s \<and> protocol s \<noteq> 2 \<longleftrightarrow> other_hid i)"

abbreviation picked :: "bool \<Rightarrow> usb_hid_state \<Rightarrow> (usb_hid_state \<Rightarrow> usb_hid_state) \<Rightarrow> (u8 list option \<times> u8 list) option \<Rightarrow> usb_hid_state" where
  "picked found h f r \<equiv> (if found then h else case r of None \<Rightarrow> h | Some (i, e) \<Rightarrow> f (endpoint_state e h))"

lemma scan_picks:
  assumes "scans i s"
  shows "kb_ep (fold scan_descriptor ds s)
        = picked (found_keyboard s) (kb_ep s) id (find (\<lambda>(i, e). boot_keyboard i \<and> interrupt_in e) (endpoints_of i ds))
      \<and> aux_ep (fold scan_descriptor ds s)
        = picked (found_aux s) (aux_ep s) (\<lambda>h. h\<lparr>interrupt_toggle := PID_DATA0\<rparr>)
            (find (\<lambda>(i, e). other_hid i \<and> interrupt_in e) (endpoints_of i ds))"
  using assms
proof (induction ds arbitrary: i s)
  case (Cons d ds)
  define k where "k \<longleftrightarrow> \<not> is_interface d \<and> is_endpoint d \<and> is_keyboard s \<and> interrupt_in d"
  define a where "a \<longleftrightarrow> \<not> is_interface d \<and> is_endpoint d \<and> is_hid s \<and> \<not> is_keyboard s \<and> protocol s \<noteq> 2 \<and> interrupt_in d"
  have one: "kb_ep (scan_descriptor d s) = (if k \<and> \<not> found_keyboard s then endpoint_state d (kb_ep s) else kb_ep s)"
    "aux_ep (scan_descriptor d s) = (if a \<and> \<not> found_aux s then (endpoint_state d (aux_ep s))\<lparr>interrupt_toggle := PID_DATA0\<rparr> else aux_ep s)"
    "found_keyboard (scan_descriptor d s) = (found_keyboard s \<or> k)" "found_aux (scan_descriptor d s) = (found_aux s \<or> a)"
    by (auto simp: scan_descriptor_def k_def a_def)
  have i: "scans (if is_interface d then Some d else i) (scan_descriptor d s)"
    using Cons.prems by (auto simp: scans_def scan_descriptor_def other_hid_def)
  have f: "find (\<lambda>(i, e). boot_keyboard i \<and> interrupt_in e) (endpoints_of i (d # ds)) = (if k then Some (i, d)
      else find (\<lambda>(i, e). boot_keyboard i \<and> interrupt_in e) (endpoints_of (if is_interface d then Some d else i) ds))"
    "find (\<lambda>(i, e). other_hid i \<and> interrupt_in e) (endpoints_of i (d # ds)) = (if a then Some (i, d)
      else find (\<lambda>(i, e). other_hid i \<and> interrupt_in e) (endpoints_of (if is_interface d then Some d else i) ds))"
    using Cons.prems by (auto simp: k_def a_def scans_def)
  show ?case by (simp only: fold_Cons comp_apply Cons.IH [OF i] f one) simp
qed (auto split: option.splits)

text \<open>C38: Finding the keyboard. On a configuration that is a list of well-formed descriptors, whatever follows it in the buffer,
  the search ends and takes for the keyboard the first interrupt-in endpoint of a boot keyboard interface, and as the
  auxiliary endpoint the first interrupt-in endpoint of any other input device that is not a mouse; without one, the
  state stays as it was.\<close>

theorem config_scan_finds:
  assumes "\<forall>d \<in> set ds. descriptor_ok d"
  shows "\<exists>s. scan_config (concat ds @ rest) (length (concat ds)) 0 (scan_start u) = Some s
    \<and> kb_ep s = (case keyboard_endpoint ds of None \<Rightarrow> hid u | Some (i, e) \<Rightarrow> endpoint_state e (hid u))
    \<and> aux_ep s = (case aux_endpoint ds of None \<Rightarrow> aux u | Some (i, e) \<Rightarrow> (endpoint_state e (aux u))\<lparr>interrupt_toggle := PID_DATA0\<rparr>)"
proof -
  have "scans None (scan_start u)" by (simp add: scans_def scan_start_def boot_keyboard_def other_hid_def)
  note p = scan_picks [OF this, of ds]
  have "scan_config (concat ds @ rest) (length (concat ds)) 0 (scan_start u) = Some (fold scan_descriptor ds (scan_start u))"
    using scan_follows [OF assms, of "[]" rest "scan_start u"] by simp
  then show ?thesis using p by (auto simp: scan_start_def keyboard_endpoint_def aux_endpoint_def split: option.splits)
qed

text \<open>A receiver with a mouse before the keyboard, and a consumer-control interface after it.\<close>

definition receiver :: "u8 list list" where
  "receiver = [[9, 2, 84, 0, 3, 1, 0, 0xA0, 49],
     [9, 4, 0, 0, 1, 3, 1, 2, 0], [9, 0x21, 0x11, 1, 0, 1, 0x22, 50, 0], [7, 5, 0x81, 3, 8, 0, 2],
     [9, 4, 1, 0, 1, 3, 1, 1, 0], [9, 0x21, 0x11, 1, 0, 1, 0x22, 65, 0], [7, 5, 0x82, 3, 8, 0, 10],
     [9, 4, 2, 0, 1, 3, 0, 0, 0], [9, 0x21, 0x11, 1, 0, 1, 0x22, 90, 0], [7, 5, 0x84, 3, 20, 0, 4]]"

definition fresh_context :: usb_context where
  "fresh_context = usb_context_init \<lparr>speed = 0, address = 0, max_packet_size = 0,
     hid = \<lparr>endpoint = 0, ep_mps = 0, interval = 0, interrupt_toggle = 0\<rparr>,
     aux = \<lparr>endpoint = 0, ep_mps = 0, interval = 0, interrupt_toggle = 0\<rparr>, dma_at = 0xC6FF0020, data_buf_idx = 0, int_buf_idx = 0,
     last_hcint = 0, dev_desc = replicate 18 0, config_buf = replicate 256 0, bus = []\<rparr>"

theorem config_scan_finds_witness:
  "\<exists>s. scan_config (concat receiver @ replicate 172 0) (length (concat receiver)) 0 (scan_start fresh_context) = Some s
    \<and> endpoint (kb_ep s) = 2 \<and> ep_mps (kb_ep s) = 8 \<and> endpoint (aux_ep s) = 4 \<and> ep_mps (aux_ep s) = 20"
proof -
  have ok: "\<forall>d \<in> set receiver. descriptor_ok d" by (simp add: receiver_def descriptor_ok_def)
  have k: "keyboard_endpoint receiver = Some (Some [9, 4, 1, 0, 1, 3, 1, 1, 0], [7, 5, 0x82, 3, 8, 0, 10])"
    and a: "aux_endpoint receiver = Some (Some [9, 4, 2, 0, 1, 3, 0, 0, 0], [7, 5, 0x84, 3, 20, 0, 4])"
    by code_simp+
  show ?thesis using config_scan_finds [OF ok, of "replicate 172 0" fresh_context]
    by (auto simp: k a endpoint_state_def u16_of_def)
qed

end
