(* ===== verification/UsbProto.thy ===== *)
theory UsbProto
  imports UsbConfig
begin

text \<open>
  What the USB driver of lib/src/piusb.c puts on the bus, for all hardware. A view keeps the accesses of one kind, in order; the
  trace of a channel is its programming and the reads of shared memory. A data stage programs its packets with alternating data toggles and
  collects their bytes; a polled endpoint follows the toggle protocol.
\<close>

section \<open>Traces\<close>

definition view :: "(access \<Rightarrow> bool) \<Rightarrow> usb_context \<Rightarrow> history" where
  "view P u = rev (filter P (bus u))"

text \<open>A view that shows neither waits nor reads of registers, and of a channel neither the acknowledgements of its flags, nor its
  flag mask and split register, nor the writes that disable it.\<close>

definition blind :: "(access \<Rightarrow> bool) \<Rightarrow> u32 \<Rightarrow> bool" where
  "blind P ch \<longleftrightarrow> (\<forall>r v. \<not> P (Rd (Mmio r) v)) \<and> (\<forall>n. \<not> P (Wait n))
     \<and> (\<forall>r v. r = HCINT ch \<or> r = HCINTMSK ch \<or> r = HCSPLT ch \<longrightarrow> \<not> P (Wr (Mmio r) v))
     \<and> (\<forall>v. v AND HCCHAR_CHDIS \<noteq> 0 \<longrightarrow> \<not> P (Wr (Mmio (HCCHAR ch)) v))"

text \<open>Two such views: the size and address of every transfer of the channel with the reads of shared memory, and everything
  that \<open>blind\<close> does not rule out - every access to shared memory and every other write of any register.\<close>

definition traced :: "u32 \<Rightarrow> access \<Rightarrow> bool" where
  "traced ch a = (case a of Wr (Mmio r) v \<Rightarrow> r = HCTSIZ ch \<or> r = HCDMA ch | Rd (Mem m) v \<Rightarrow> True | _ \<Rightarrow> False)"

definition touched :: "u32 \<Rightarrow> access \<Rightarrow> bool" where
  "touched ch a = (case a of
     Wr (Mmio r) v \<Rightarrow> \<not> (r = HCINT ch \<or> r = HCINTMSK ch \<or> r = HCSPLT ch \<or> r = HCCHAR ch \<and> v AND HCCHAR_CHDIS \<noteq> 0)
   | Wr (Mem m) v \<Rightarrow> True | Rd (Mem m) v \<Rightarrow> True | _ \<Rightarrow> False)"

abbreviation trace :: "u32 \<Rightarrow> usb_context \<Rightarrow> history" where
  "trace ch u \<equiv> view (traced ch) u"

lemma channel_registers:
  "HCINT ch \<noteq> HCTSIZ ch" "HCINT ch \<noteq> HCDMA ch" "HCCHAR ch \<noteq> HCTSIZ ch" "HCCHAR ch \<noteq> HCDMA ch" "HCINTMSK ch \<noteq> HCTSIZ ch"
  "HCINTMSK ch \<noteq> HCDMA ch" "HCSPLT ch \<noteq> HCTSIZ ch" "HCSPLT ch \<noteq> HCDMA ch" "HCCHAR ch \<noteq> HCINT ch" "HCCHAR ch \<noteq> HCINTMSK ch" "HCCHAR ch \<noteq> HCSPLT ch"
  by (simp_all add: HCINT_def HCTSIZ_def HCDMA_def HCCHAR_def HCINTMSK_def HCSPLT_def)

lemma blind_traced: "blind (traced ch) ch"
  using channel_registers [of ch] by (auto simp: blind_def traced_def)

lemma blind_touched: "blind (touched ch) ch"
  by (simp add: blind_def touched_def)

text \<open>Everything but the history and the debugging copy of the flags stays, and the hardware explains what was added.\<close>

definition same_usb :: "hardware \<Rightarrow> usb_context \<Rightarrow> usb_context \<Rightarrow> bool" where
  "same_usb hw u u' \<longleftrightarrow> u' = u\<lparr>bus := bus u', last_hcint := last_hcint u'\<rparr> \<and> (explains hw (bus u) \<longrightarrow> explains hw (bus u'))"

lemma same_usb_trans: "same_usb hw a b \<Longrightarrow> same_usb hw b c \<Longrightarrow> same_usb hw a c"
  by (cases a; cases b; cases c) (auto simp: same_usb_def)

lemma same_usb_refl [simp]: "same_usb hw u u"
  by (simp add: same_usb_def)

lemma same_usbD:
  assumes "same_usb hw u u'"
  shows "speed u' = speed u" "address u' = address u" "max_packet_size u' = max_packet_size u" "hid u' = hid u" "aux u' = aux u"
    "dma_at u' = dma_at u" "data_buf_idx u' = data_buf_idx u" "config_buf u' = config_buf u" "dev_desc u' = dev_desc u"
    "int_buf_idx u' = int_buf_idx u" "explains hw (bus u) \<Longrightarrow> explains hw (bus u')"
  using assms by (cases u; cases u'; auto simp: same_usb_def)+

text \<open>A step that the view of a channel does not show.\<close>

definition unseen :: "(access \<Rightarrow> bool) \<Rightarrow> hardware \<Rightarrow> usb_context \<Rightarrow> usb_context \<Rightarrow> bool" where
  "unseen P hw u u' \<longleftrightarrow> same_usb hw u u' \<and> view P u' = view P u"

lemma unseen_trans: "unseen P hw a b \<Longrightarrow> unseen P hw b c \<Longrightarrow> unseen P hw a c"
  unfolding unseen_def using same_usb_trans by metis

lemma unseenI: "bus u' = a # bus u \<Longrightarrow> u' = u\<lparr>bus := bus u', last_hcint := last_hcint u'\<rparr> \<Longrightarrow> \<not> P a
    \<Longrightarrow> (explains hw (bus u) \<Longrightarrow> explains hw (a # bus u)) \<Longrightarrow> unseen P hw u u'"
  by (simp add: unseen_def same_usb_def view_def)

lemma readl_eq: "readl hw a u = (hw (bus u) (Mmio a), u\<lparr>bus := Rd (Mmio a) (hw (bus u) (Mmio a)) # bus u\<rparr>)"
  by (simp add: readl_def GET32_def rd_def)

lemma readl_unseen: "blind P ch \<Longrightarrow> unseen P hw u (snd (readl hw a u))"
  by (rule unseenI [where a = "Rd (Mmio a) (hw (bus u) (Mmio a))"]) (simp_all add: readl_eq blind_def)

lemma writel_unseen: "\<not> P (Wr (Mmio a) v) \<Longrightarrow> unseen P hw u (writel v a u)"
  by (rule unseenI [where a = "Wr (Mmio a) v"]) (simp_all add: writel_def PUT32_def)

lemma udelay_unseen: "blind P ch \<Longrightarrow> unseen P hw u (udelay n u)"
  by (rule unseenI [where a = "Wait n"]) (simp_all add: udelay_def blind_def)

lemma disabling: "(c OR HCCHAR_CHDIS OR HCCHAR_CHENA) AND HCCHAR_CHDIS \<noteq> 0"
proof -
  have "bit ((c OR HCCHAR_CHDIS OR HCCHAR_CHENA) AND HCCHAR_CHDIS) 30" by (simp add: HCCHAR_CHDIS_def bit_simps)
  then show ?thesis by (metis bit_0_eq bot_apply bot_bool_def)
qed

lemma channel_unseen:
  "blind P ch \<Longrightarrow> unseen P hw u (writel v (HCINT ch) u)"
  "blind P ch \<Longrightarrow> unseen P hw u (writel (c OR HCCHAR_CHDIS OR HCCHAR_CHENA) (HCCHAR ch) u)"
  "blind P ch \<Longrightarrow> unseen P hw u (writel v (HCINTMSK ch) u)"
  "blind P ch \<Longrightarrow> unseen P hw u (writel v (HCSPLT ch) u)"
  using disabling [of c] by (simp_all add: writel_unseen blind_def)

declare spin_bounded.simps [simp del]

lemma spin_bounded_unseen: "blind Q ch \<Longrightarrow> unseen Q hw u (spin_bounded n hw a P u)"
proof (induction n arbitrary: u)
  case 0
  then show ?case using readl_unseen [OF 0, of hw u a] by (auto simp: spin_bounded.simps [of 0] split: prod.splits)
next
  case (Suc n)
  obtain v u1 where r: "readl hw a u = (v, u1)" by fastforce
  have "unseen Q hw u u1" using readl_unseen [OF Suc.prems, of hw u a] r by simp
  then show ?case using unseen_trans Suc.IH [OF Suc.prems, of u1] by (auto simp: spin_bounded.simps [of "Suc n"] r)
qed

lemma halt_unseen: "blind P ch \<Longrightarrow> unseen P hw u (usb_transfer_channel_halt hw ch u)"
proof -
  assume b: "blind P ch"
  obtain v u1 where r: "readl hw (HCCHAR ch) u = (v, u1)" by fastforce
  then have "unseen P hw u u1" using readl_unseen [OF b, of hw u "HCCHAR ch"] by simp
  then show ?thesis unfolding usb_transfer_channel_halt_def r prod.case Let_def
    by (rule unseen_trans [OF unseen_trans [OF unseen_trans [OF unseen_trans [OF _ channel_unseen(2) [OF b]]
        spin_bounded_unseen [OF b]] spin_bounded_unseen [OF b]] channel_unseen(1) [OF b]])
qed

lemma flags_unseen: "unseen P hw u u' \<Longrightarrow> unseen P hw u (u'\<lparr>last_hcint := v\<rparr>)"
  by (cases u; cases u') (auto simp: unseen_def same_usb_def view_def)

lemma wait_channel_unseen: "blind P ch \<Longrightarrow> unseen P hw u (snd (wait_channel n hw ch u))"
proof (induction n arbitrary: u)
  case 0
  obtain v u1 where r: "readl hw (HCINT ch) u = (v, u1)" by fastforce
  have "unseen P hw u (u1\<lparr>last_hcint := v\<rparr>)" using readl_unseen [OF 0, of hw u "HCINT ch"] r by (simp add: flags_unseen)
  then show ?case using unseen_trans halt_unseen [OF 0] by (auto simp: r)
next
  case (Suc n)
  obtain v u1 where r: "readl hw (HCINT ch) u = (v, u1)" by fastforce
  have one: "unseen P hw u u1" using readl_unseen [OF Suc.prems, of hw u "HCINT ch"] r by simp
  have "unseen P hw u (writel v (HCINT ch) (u1\<lparr>last_hcint := v\<rparr>))"
    by (rule unseen_trans [OF flags_unseen [OF one] channel_unseen(1) [OF Suc.prems]])
  then show ?case using unseen_trans [OF one] Suc.IH [OF Suc.prems, of u1] by (simp add: r)
qed

lemma transfer_wait_unseen: "blind P ch \<Longrightarrow> unseen P hw u (snd (usb_transfer_channel_wait hw ch u))"
  by (simp add: usb_transfer_channel_wait_def wait_channel_unseen)

text \<open>The programming of one transfer.\<close>

definition size_word :: "u8 \<Rightarrow> u32 \<Rightarrow> u32 \<Rightarrow> u32" where
  "size_word pid xfersize pktcnt = push_bit 29 (ucast pid) OR push_bit 19 pktcnt OR (xfersize AND HCTSIZ_XFERSIZE_MASK)"

definition armed :: "u32 \<Rightarrow> u8 \<Rightarrow> u32 \<Rightarrow> u32 \<Rightarrow> history" where
  "armed ch pid xfersize dma_addr = [Wr (Mmio (HCTSIZ ch)) (size_word pid xfersize 1), Wr (Mmio (HCDMA ch)) dma_addr]"

lemma writel_view: "same_usb hw u (writel v a u)" "view P (writel v a u) = view P u @ filter P [Wr (Mmio a) v]"
  by (simp_all add: writel_def PUT32_def view_def same_usb_def)

text \<open>The word that starts it: the device and endpoint, the direction, the packet size, a low-speed device, an odd frame.\<close>

definition start_word :: "u8 \<Rightarrow> u8 \<Rightarrow> u8 \<Rightarrow> bool \<Rightarrow> u16 \<Rightarrow> u32 \<Rightarrow> bool \<Rightarrow> u32" where
  "start_word devaddr ep eptype dir_in mps spd odd_frame =
     (let w = push_bit 22 (ucast devaddr) OR push_bit 11 (ucast ep) OR push_bit 18 (ucast eptype) OR push_bit 20 1 OR (ucast mps AND HCCHAR_MPS_MASK);
          w1 = (if dir_in then w OR HCCHAR_EPDIR_IN else w);
          w2 = (if spd = 2 then w1 OR HCCHAR_LSDEV else w1)
      in (if odd_frame then w2 OR HCCHAR_ODDFRM else w2) OR HCCHAR_CHENA)"

lemma start_word_enables: "start_word devaddr ep eptype dir_in mps spd odd_frame AND HCCHAR_CHDIS = 0"
proof -
  have "\<not> bit (start_word devaddr ep eptype dir_in mps spd odd_frame) 30"
    by (auto simp: start_word_def Let_def HCCHAR_MPS_MASK_def HCCHAR_EPDIR_IN_def HCCHAR_LSDEV_def HCCHAR_ODDFRM_def HCCHAR_CHENA_def bit_simps
        dest: bit_imp_le_length)
  then show ?thesis using and_exp_eq_0_iff_not_bit [of "start_word devaddr ep eptype dir_in mps spd odd_frame" 30] by (simp add: HCCHAR_CHDIS_def)
qed

lemma transfer_start_view:
  assumes b: "blind P ch"
  shows "same_usb hw u (usb_transfer_channel_start hw ch devaddr ep eptype dir mps pid xfersize 1 dma_addr u)
    \<and> (\<exists>odd_frame. view P (usb_transfer_channel_start hw ch devaddr ep eptype dir mps pid xfersize 1 dma_addr u)
      = view P u @ filter P (armed ch pid xfersize dma_addr @ [Wr (Mmio (HCCHAR ch)) (start_word devaddr ep eptype dir mps (speed u) odd_frame)]))"
proof -
  obtain i u0 where r0: "readl hw (HCINT ch) u = (i, u0)" by fastforce
  define u1 where "u1 = (if i AND HCINT_CHHLTD \<noteq> 0 then writel HCINT_CHHLTD (HCINT ch) u0 else u0)"
  obtain c u2 where r2: "readl hw (HCCHAR ch) u1 = (c, u2)" by fastforce
  define u6 where "u6 = spin_bounded 100000 hw (HCCHAR ch) (\<lambda>v. v AND HCCHAR_CHENA = 0) (writel HCINT_CHHLTD (HCINT ch)
    (spin_bounded 100000 hw (HCINT ch) (\<lambda>v. v AND HCINT_CHHLTD \<noteq> 0) (writel (c OR HCCHAR_CHDIS OR HCCHAR_CHENA) (HCCHAR ch) u2)))"
  define u7 where "u7 = writel 0 (HCSPLT ch) (writel 0x7FF (HCINTMSK ch) (writel 0xFFFFFFFF (HCINT ch) u6))"
  define u9 where "u9 = writel dma_addr (HCDMA ch) (writel (size_word pid xfersize 1) (HCTSIZ ch) u7)"
  obtain f u10 where r10: "readl hw HFNUM u9 = (f, u10)" by fastforce
  have s: "usb_transfer_channel_start hw ch devaddr ep eptype dir mps pid xfersize 1 dma_addr u
      = writel (start_word devaddr ep eptype dir mps (speed u9) (f AND 1 \<noteq> 0)) (HCCHAR ch) u10"
    unfolding usb_transfer_channel_start_def r0 prod.case Let_def u1_def [symmetric] r2 u6_def [symmetric] size_word_def [symmetric]
      u7_def [symmetric] u9_def [symmetric] r10 start_word_def ..
  have "unseen P hw u u0" using readl_unseen [OF b, of hw u "HCINT ch"] r0 by simp
  then have "unseen P hw u u1" using unseen_trans channel_unseen(1) [OF b] by (auto simp: u1_def)
  then have "unseen P hw u u2" using unseen_trans readl_unseen [OF b, of hw u1 "HCCHAR ch"] r2 by auto
  then have "unseen P hw u u6" unfolding u6_def
    by (rule unseen_trans [OF unseen_trans [OF unseen_trans [OF unseen_trans [OF _ channel_unseen(2) [OF b]]
        spin_bounded_unseen [OF b]] channel_unseen(1) [OF b]] spin_bounded_unseen [OF b]])
  then have 7: "unseen P hw u u7" unfolding u7_def
    by (rule unseen_trans [OF unseen_trans [OF unseen_trans [OF _ channel_unseen(1) [OF b]] channel_unseen(3) [OF b]] channel_unseen(4) [OF b]])
  have 9: "same_usb hw u u9" "view P u9 = view P u @ filter P (armed ch pid xfersize dma_addr)"
    using 7 same_usb_trans [OF same_usb_trans [OF _ writel_view(1)] writel_view(1)]
    by (auto simp: u9_def unseen_def writel_view(2) armed_def)
  have 10: "unseen P hw u9 u10" using readl_unseen [OF b, of hw u9 HFNUM] r10 by simp
  then have "same_usb hw u u10" using same_usb_trans [OF 9(1)] by (simp add: unseen_def)
  then show ?thesis unfolding s using 9 10 same_usb_trans [OF _ writel_view(1)] same_usbD(1) [OF 9(1)]
    by (auto simp: writel_view(2) unseen_def)
qed

lemma transfer_start_hidden:
  assumes "blind P ch" "\<And>v. \<not> P (Wr (Mmio (HCCHAR ch)) v)"
  shows "same_usb hw u (usb_transfer_channel_start hw ch devaddr ep eptype dir mps pid xfersize 1 dma_addr u)
    \<and> view P (usb_transfer_channel_start hw ch devaddr ep eptype dir mps pid xfersize 1 dma_addr u)
      = view P u @ filter P (armed ch pid xfersize dma_addr)"
  using transfer_start_view [OF assms(1), of hw u devaddr ep eptype dir mps pid xfersize dma_addr] assms(2) by auto

text \<open>The laws for the trace of the channel itself.\<close>

lemma readl_law: "same_usb hw u (snd (readl hw a u))" "trace ch (snd (readl hw a u)) = trace ch u"
  using readl_unseen [OF blind_traced] by (simp_all add: unseen_def)

lemma transfer_wait_law:
  "same_usb hw u (snd (usb_transfer_channel_wait hw ch u))" "trace ch (snd (usb_transfer_channel_wait hw ch u)) = trace ch u"
  using transfer_wait_unseen [OF blind_traced] by (simp_all add: unseen_def)

lemma transfer_start_law:
  "same_usb hw u (usb_transfer_channel_start hw ch devaddr ep eptype dir mps pid xfersize 1 dma_addr u)"
  "trace ch (usb_transfer_channel_start hw ch devaddr ep eptype dir mps pid xfersize 1 dma_addr u) = trace ch u @ armed ch pid xfersize dma_addr"
  using transfer_start_hidden [OF blind_traced] channel_registers by (simp_all add: armed_def traced_def)

text \<open>Bytes put into shared memory, oldest first.\<close>

fun writes_to :: "u32 \<Rightarrow> u8 list \<Rightarrow> history" where
  "writes_to a [] = []"
| "writes_to a (b # bs) = Wr (Mem a) (ucast b) # writes_to (a + 1) bs"

lemma bytes_out_view: "same_usb hw u (bytes_out a bs u) \<and> view P (bytes_out a bs u) = view P u @ filter P (writes_to a bs)"
proof (induction bs arbitrary: a u)
  case (Cons b bs)
  have one: "same_usb hw u (mem_write a (ucast b) u)" "view P (mem_write a (ucast b) u) = view P u @ filter P [Wr (Mem a) (ucast b)]"
    by (simp_all add: mem_write_def same_usb_def view_def)
  show ?case using same_usb_trans [OF one(1)] Cons.IH [of "mem_write a (ucast b) u" "a + 1"] one(2) by simp
qed simp

lemma bytes_out_law [simp]: "same_usb hw u (bytes_out a bs u)" "trace ch (bytes_out a bs u) = trace ch u"
proof -
  have "filter (traced ch) (writes_to a bs) = []" by (induction bs arbitrary: a) (simp_all add: traced_def)
  then show "same_usb hw u (bytes_out a bs u)" "trace ch (bytes_out a bs u) = trace ch u" using bytes_out_view by simp_all
qed

text \<open>The reads of consecutive bytes, with the words that came over the bus.\<close>

fun reads_from :: "u32 \<Rightarrow> u32 list \<Rightarrow> history" where
  "reads_from a [] = []"
| "reads_from a (v # vs) = Rd (Mem a) v # reads_from (a + 1) vs"

lemma bytes_in_view:
  assumes "bytes_in hw a n u = (bs, u')"
  shows "same_usb hw u u' \<and> (\<exists>vs. bs = map ucast vs \<and> length vs = n \<and> (\<forall>P. view P u' = view P u @ filter P (reads_from a vs)))"
  using assms
proof (induction n arbitrary: a u bs)
  case (Suc n)
  define v where "v = hw (bus u) (Mem a)"
  define u1 where "u1 = u\<lparr>bus := Rd (Mem a) v # bus u\<rparr>"
  have r: "mem_read hw a u = (v, u1)" by (simp add: mem_read_def rd_def v_def u1_def)
  have 1: "same_usb hw u u1" "view P u1 = view P u @ filter P [Rd (Mem a) v]" for P by (simp_all add: u1_def v_def same_usb_def view_def)
  obtain cs where c: "bytes_in hw (a + 1) n u1 = (cs, u')" "bs = ucast v # cs"
    using Suc.prems by (auto simp: r split: prod.splits)
  obtain vs where vs: "cs = map ucast vs" "length vs = n" "\<forall>P. view P u' = view P u1 @ filter P (reads_from (a + 1) vs)" "same_usb hw u1 u'"
    using Suc.IH [OF c(1)] by blast
  have "\<forall>P. view P u' = view P u @ filter P (reads_from a (v # vs))" using vs(3) 1(2) by simp
  moreover have "bs = map ucast (v # vs)" "length (v # vs) = Suc n" using vs(1,2) c(2) by simp_all
  ultimately show ?case using same_usb_trans [OF 1(1) vs(4)] by blast
qed simp

lemma bytes_in_law:
  assumes "bytes_in hw a n u = (bs, u')"
  shows "same_usb hw u u' \<and> (\<exists>vs. bs = map ucast vs \<and> length vs = n \<and> trace ch u' = trace ch u @ reads_from a vs)"
proof -
  have "filter (traced ch) (reads_from a vs) = reads_from a vs" for vs by (induction vs arbitrary: a) (simp_all add: traced_def)
  then show ?thesis using bytes_in_view [OF assms] by metis
qed

section \<open>A data stage\<close>

definition other_pid :: "u8 \<Rightarrow> u8" where
  "other_pid pid = (if pid = PID_DATA0 then PID_DATA1 else PID_DATA0)"

text \<open>The packets, each a list of words read, fill what is left and end with the first one shorter than the packet size.\<close>

fun packets_fit :: "nat \<Rightarrow> nat \<Rightarrow> u32 list list \<Rightarrow> bool" where
  "packets_fit mps left [] \<longleftrightarrow> left = 0"
| "packets_fit mps left (p # ps) \<longleftrightarrow> 0 < left \<and> length p \<le> min left mps
     \<and> (if length p < mps then ps = [] else packets_fit mps (left - length p) ps)"

text \<open>What a packet shows: the buffer filled with 0xCC, the transfer programmed and started, and the bytes read from the buffer.
  Each packet comes with the parity of the frame that it was started in.\<close>

fun packets_trace :: "usb_context \<Rightarrow> u8 \<Rightarrow> nat \<Rightarrow> u8 \<Rightarrow> nat \<Rightarrow> (bool \<times> u32 list) list \<Rightarrow> history" where
  "packets_trace u devaddr i pid left [] = []"
| "packets_trace u devaddr i pid left ((odd_frame, p) # ps) =
     writes_to (data_buf u i) (replicate 64 0xCC)
     @ armed CH_CONTROL_IN pid (of_nat (min left (unat (max_packet_size u)))) (BUS_ADDRESS (data_buf u i))
     @ Wr (Mmio (HCCHAR CH_CONTROL_IN)) (start_word devaddr 0 EP_TYPE_CONTROL True (ucast (max_packet_size u)) (speed u) odd_frame)
     # reads_from (data_buf u i) p
     @ packets_trace u devaddr ((i + 1) mod 16) (other_pid pid) (left - length p) ps"

lemma packets_trace_cong:
  "dma_at v = dma_at u \<Longrightarrow> max_packet_size v = max_packet_size u \<Longrightarrow> speed v = speed u
    \<Longrightarrow> packets_trace v devaddr i pid left ps = packets_trace u devaddr i pid left ps"
  by (induction v devaddr i pid left ps rule: packets_trace.induct) (simp_all add: data_buf_def)

lemma touched_bytes: "filter (touched ch) (writes_to a bs) = writes_to a bs" "filter (touched ch) (reads_from a vs) = reads_from a vs"
proof -
  show "filter (touched ch) (writes_to a bs) = writes_to a bs" by (induction bs arbitrary: a) (simp_all add: touched_def)
  show "filter (touched ch) (reads_from a vs) = reads_from a vs" by (induction vs arbitrary: a) (simp_all add: touched_def)
qed

lemma touched_start:
  "filter (touched ch) (armed ch pid xfersize dma_addr @ [Wr (Mmio (HCCHAR ch)) (start_word devaddr ep eptype dir_in mps spd odd_frame)])
    = armed ch pid xfersize dma_addr @ [Wr (Mmio (HCCHAR ch)) (start_word devaddr ep eptype dir_in mps spd odd_frame)]"
  using channel_registers [of ch] start_word_enables by (auto simp: armed_def touched_def HCTSIZ_def HCDMA_def HCINT_def HCINTMSK_def HCSPLT_def HCCHAR_def)

lemma blit_join: "p \<le> length buf \<Longrightarrow> blit (blit buf p xs) (p + length xs) ys = blit buf p (xs @ ys)"
  by (simp add: blit_def add.commute add.left_commute)

lemma unat_byte: "unat (ucast (b :: u8) :: u32) = unat b"
proof -
  have "unat b < 4294967296" by (rule less_trans [OF unat_less_2p8]) simp
  then show ?thesis by (simp add: unsigned_ucast_eq take_bit_eq_mod)
qed

lemma unat_half: "unat (ucast (b :: u16) :: u32) = unat b"
proof -
  have "unat b < 65536" using unsigned_less [of b, where ?'a = nat] by simp
  then have "unat b < 4294967296" by simp
  then show ?thesis by (simp add: unsigned_ucast_eq take_bit_eq_mod)
qed

lemma packet_chunk:
  fixes off len mps hctsiz :: u32
  assumes "off < len" "mps < 256"
    and "\<not> 64 < (if len - off > mps then mps else len - off) - (hctsiz AND HCTSIZ_XFERSIZE_MASK)"
  shows "unat ((if len - off > mps then mps else len - off) - (hctsiz AND HCTSIZ_XFERSIZE_MASK)) \<le> min (unat len - unat off) (unat mps)"
    "(if len - off > mps then mps else len - off) = of_nat (min (unat len - unat off) (unat mps))"
proof -
  let ?c = "if len - off > mps then mps else len - off"
  let ?r = "hctsiz AND HCTSIZ_XFERSIZE_MASK"
  have d: "unat (len - off) = unat len - unat off" using assms(1) by (intro unat_sub_le) simp
  have c: "unat ?c = min (unat len - unat off) (unat mps)" using d by (simp add: word_less_nat_alt)
  then show "?c = of_nat (min (unat len - unat off) (unat mps))" by (simp only: c [symmetric]) simp
  have "?r \<le> HCTSIZ_XFERSIZE_MASK" by (metis word_and_le1)
  then have r: "unat ?r < 2 ^ 19" by (simp add: HCTSIZ_XFERSIZE_MASK_def word_le_nat_alt)
  have "?r \<le> ?c"
  proof (rule ccontr)
    assume "\<not> ?r \<le> ?c"
    then have lt: "unat ?c < unat ?r" by (simp add: word_less_nat_alt not_le)
    have "unat (?c - ?r) = 2 ^ 32 - unat ?r + unat ?c"
      using lt unat_sub_if_size [of ?c ?r] r unat_less_2p32 [of ?r] by (simp add: word_size del: if_split)
    then have "64 < unat (?c - ?r)" using r by simp
    then show False using assms(3) by (simp add: word_less_nat_alt)
  qed
  then have "unat (?c - ?r) \<le> unat ?c" by (simp only: unat_sub_le diff_le_self)
  then show "unat (?c - ?r) \<le> min (unat len - unat off) (unat mps)" by (simp only: c)
qed

lemma data_in_packets_law:
  assumes "data_in_packets n hw devaddr len pid off (dst, u) = Some (0, dst', u')" "off \<le> len" "unat off \<le> length dst"
  shows "\<exists>ps. packets_fit (unat (max_packet_size u)) (unat len - unat off) (map snd ps)
    \<and> dst' = blit dst (unat off) (map ucast (concat (map snd ps)))
    \<and> view (touched CH_CONTROL_IN) u' = view (touched CH_CONTROL_IN) u @ packets_trace u devaddr (data_buf_idx u) pid (unat len - unat off) ps
    \<and> (explains hw (bus u) \<longrightarrow> explains hw (bus u'))"
  using assms
proof (induction n arbitrary: pid off dst u)
  case (Suc n)
  show ?case
  proof (cases "off < len")
    case False
    then have "dst' = dst" "u' = u" "unat len - unat off = 0" using Suc.prems(1,2) by auto
    then have "packets_fit (unat (max_packet_size u)) (unat len - unat off) (map snd []) \<and> dst' = blit dst (unat off) (map ucast (concat (map snd [])))
      \<and> view (touched CH_CONTROL_IN) u' = view (touched CH_CONTROL_IN) u @ packets_trace u devaddr (data_buf_idx u) pid (unat len - unat off) []
      \<and> (explains hw (bus u) \<longrightarrow> explains hw (bus u'))" using Suc.prems(3) by simp
    then show ?thesis by blast
  next
    case True
    define chunk where "chunk = (if len - off > ucast (max_packet_size u) then ucast (max_packet_size u) else len - off)"
    define a where "a = data_buf u (data_buf_idx u)"
    define u1 where "u1 = u\<lparr>data_buf_idx := (data_buf_idx u + 1) mod 16\<rparr>"
    define u2 where "u2 = bytes_out a (replicate 64 0xCC) u1"
    define u3 where "u3 = usb_transfer_channel_start hw CH_CONTROL_IN devaddr 0 EP_TYPE_CONTROL True (ucast (max_packet_size u2)) pid
      chunk 1 (BUS_ADDRESS a) u2"
    obtain ret u4 where w: "usb_transfer_channel_wait hw CH_CONTROL_IN u3 = (ret, u4)" by fastforce
    obtain z u5 where z: "readl hw (HCTSIZ CH_CONTROL_IN) u4 = (z, u5)" by fastforce
    define received where "received = chunk - (z AND HCTSIZ_XFERSIZE_MASK)"
    obtain bs u6 where b: "bytes_in hw a (unat received) u5 = (bs, u6)" by fastforce
    note step = Suc.prems(1) [unfolded data_in_packets.simps Let_def, folded chunk_def a_def u1_def, folded u2_def, folded u3_def,
        unfolded w prod.case z, folded received_def, unfolded b prod.case]
    have r0: "ret = 0" "\<not> 64 < received" "unat off + unat received \<le> length dst" using step True by (auto split: if_splits)
    have 2: "same_usb hw u1 u2" "view (touched CH_CONTROL_IN) u2 = view (touched CH_CONTROL_IN) u1 @ writes_to a (replicate 64 0xCC)"
      using bytes_out_view [of hw u1 a "replicate 64 0xCC" "touched CH_CONTROL_IN"] by (simp_all add: u2_def touched_bytes)
    have su: "speed u2 = speed u" "max_packet_size u2 = max_packet_size u" using same_usbD(1,3) [OF 2(1)] by (simp_all add: u1_def)
    obtain odd_frame where 3: "same_usb hw u1 u3" "view (touched CH_CONTROL_IN) u3 = view (touched CH_CONTROL_IN) u1 @ writes_to a (replicate 64 0xCC)
        @ armed CH_CONTROL_IN pid chunk (BUS_ADDRESS a)
        @ [Wr (Mmio (HCCHAR CH_CONTROL_IN)) (start_word devaddr 0 EP_TYPE_CONTROL True (ucast (max_packet_size u)) (speed u) odd_frame)]"
      using transfer_start_view [OF blind_touched, of hw u2 CH_CONTROL_IN devaddr 0 EP_TYPE_CONTROL True "ucast (max_packet_size u2)" pid chunk "BUS_ADDRESS a"]
        same_usb_trans [OF 2(1)] 2(2) unfolding touched_start su u3_def [unfolded su, symmetric] by auto
    have 4: "same_usb hw u1 u4" "view (touched CH_CONTROL_IN) u4 = view (touched CH_CONTROL_IN) u3"
      using same_usb_trans [OF 3(1)] w by (metis transfer_wait_law(1) snd_conv, metis unseen_def transfer_wait_unseen [OF blind_touched] snd_conv)
    have 5: "same_usb hw u1 u5" "view (touched CH_CONTROL_IN) u5 = view (touched CH_CONTROL_IN) u3"
      using same_usb_trans [OF 4(1)] z 4(2) by (metis readl_law(1) snd_conv, metis unseen_def readl_unseen [OF blind_touched] snd_conv)
    obtain p where p: "bs = map ucast p" "length p = unat received" "view (touched CH_CONTROL_IN) u6 = view (touched CH_CONTROL_IN) u5 @ reads_from a p"
      and "same_usb hw u5 u6" using bytes_in_view [OF b] touched_bytes(2) by metis
    then have 6: "same_usb hw u1 u6" using same_usb_trans [OF 5(1)] by blast
    have t1: "view (touched CH_CONTROL_IN) u1 = view (touched CH_CONTROL_IN) u" by (simp add: u1_def view_def)
    have m: "unat (ucast (max_packet_size u) :: u32) = unat (max_packet_size u)" by (rule unat_byte)
    have mlt: "(ucast (max_packet_size u) :: u32) < 256" using unat_less_2p8 [of "max_packet_size u"] m by (simp add: word_less_nat_alt)
    note ch = packet_chunk [OF True mlt, folded chunk_def, of z, folded received_def, OF r0(2), unfolded m]
    let ?left = "unat len - unat off"
    have left: "0 < ?left" using True by (simp add: word_less_nat_alt)
    have mp: "max_packet_size u6 = max_packet_size u" using same_usbD(3) [OF 6] by (simp add: u1_def)
    have tr6: "view (touched CH_CONTROL_IN) u6 = view (touched CH_CONTROL_IN) u @ writes_to a (replicate 64 0xCC)
        @ armed CH_CONTROL_IN pid (of_nat (min ?left (unat (max_packet_size u)))) (BUS_ADDRESS a)
        @ Wr (Mmio (HCCHAR CH_CONTROL_IN)) (start_word devaddr 0 EP_TYPE_CONTROL True (ucast (max_packet_size u)) (speed u) odd_frame) # reads_from a p"
      using p(3) 5(2) 3(2) t1 ch(2) by simp
    have ex6: "explains hw (bus u) \<longrightarrow> explains hw (bus u6)" using same_usbD(11) [OF 6] by (simp add: u1_def)
    have dst1: "blit dst (unat off) bs = blit dst (unat off) (map ucast p)" by (simp add: p(1))
    show ?thesis
    proof (cases "received < ucast (max_packet_size u)")
      case short: True
      then have "dst' = blit dst (unat off) (map ucast p)" "u' = u6" using step True r0 mp p(1) by auto
      moreover have "length p < unat (max_packet_size u)" using short p(2) m by (simp add: word_less_nat_alt)
      ultimately have "packets_fit (unat (max_packet_size u)) ?left (map snd [(odd_frame, p)]) \<and> dst' = blit dst (unat off) (map ucast (concat (map snd [(odd_frame, p)])))
        \<and> view (touched CH_CONTROL_IN) u' = view (touched CH_CONTROL_IN) u @ packets_trace u devaddr (data_buf_idx u) pid ?left [(odd_frame, p)]
        \<and> (explains hw (bus u) \<longrightarrow> explains hw (bus u'))" using left ch(1) p(2) tr6 ex6 by (simp add: a_def)
      then show ?thesis by blast
    next
      case full: False
      have rec: "data_in_packets n hw devaddr len (other_pid pid) (off + received) (blit dst (unat off) bs, u6) = Some (0, dst', u')"
        using step True r0 mp full by (simp add: other_pid_def)
      have sum: "unat (off + received) = unat off + unat received"
        by (intro unat_add_no_wrap) (insert unat_less_2p32 [of len] ch(1) left, simp only: min.bounded_iff, linarith)
      have le: "off + received \<le> len"
        unfolding word_le_nat_alt sum using ch(1) left by (simp only: min.bounded_iff) linarith
      have "unat (off + received) \<le> length (blit dst (unat off) bs)" using r0(3) sum p(1,2) by (simp add: length_blit)
      from Suc.IH [OF rec le this] obtain ps where ps: "packets_fit (unat (max_packet_size u6)) (unat len - unat (off + received)) (map snd ps)"
        "dst' = blit (blit dst (unat off) bs) (unat (off + received)) (map ucast (concat (map snd ps)))"
        "view (touched CH_CONTROL_IN) u' = view (touched CH_CONTROL_IN) u6 @ packets_trace u6 devaddr (data_buf_idx u6) (other_pid pid) (unat len - unat (off + received)) ps"
        "explains hw (bus u6) \<longrightarrow> explains hw (bus u')" by blast
      have idx: "data_buf_idx u6 = (data_buf_idx u + 1) mod 16" "dma_at u6 = dma_at u" "speed u6 = speed u" using same_usbD(1,6,7) [OF 6] by (simp_all add: u1_def)
      have pl: "length p = unat (max_packet_size u)" using full ch(1) p(2) m by (simp add: word_less_nat_alt)
      have "packets_fit (unat (max_packet_size u)) ?left (map snd ((odd_frame, p) # ps))"
        using ps(1) left ch(1) p(2) pl mp sum by simp
      moreover have "dst' = blit dst (unat off) (map ucast (concat (map snd ((odd_frame, p) # ps))))"
        using ps(2) sum p(1,2) r0(3) blit_join [of "unat off" dst "map ucast p" "map ucast (concat (map snd ps))"] by simp
      moreover have "view (touched CH_CONTROL_IN) u' = view (touched CH_CONTROL_IN) u @ packets_trace u devaddr (data_buf_idx u) pid ?left ((odd_frame, p) # ps)"
        using ps(3) tr6 idx mp sum p(2) packets_trace_cong [of u6 u] by (simp add: a_def)
      ultimately show ?thesis using ps(4) ex6 by blast
    qed
  qed
qed simp

text \<open>C36: The data stage, for all hardware. If it succeeds, it has taken packets that fill the length asked for or end with a
  short one. For each packet it filled the next of the sixteen buffers with 0xCC, programmed the channel for what was
  left, at most a packet, into that buffer, with the data toggle alternating from DATA1, started it for endpoint 0 of the device,
  inwards, and then read the bytes of the packet from that buffer. There was no other access to shared memory and no
  other write of a register in between, but for the acknowledgements of the channel's flags, its flag mask and split register, and
  the writes that disable the channel. The buffer of the caller holds the bytes of the packets in order.\<close>

theorem data_stage_assembles:
  assumes "usb_setup_stage_dma_data_in n hw devaddr len (dst, u) = Some (0, dst', u')"
  shows "\<exists>ps. packets_fit (unat (max_packet_size u)) (unat len) (map snd ps) \<and> dst' = blit dst 0 (map ucast (concat (map snd ps)))
    \<and> view (touched CH_CONTROL_IN) u' = view (touched CH_CONTROL_IN) u @ packets_trace u devaddr (data_buf_idx u) PID_DATA1 (unat len) ps
    \<and> (explains hw (bus u) \<longrightarrow> explains hw (bus u'))"
proof (cases "len = 0")
  case True
  then have "packets_fit (unat (max_packet_size u)) (unat len) (map snd []) \<and> dst' = blit dst 0 (map ucast (concat (map snd [])))
      \<and> view (touched CH_CONTROL_IN) u' = view (touched CH_CONTROL_IN) u @ packets_trace u devaddr (data_buf_idx u) PID_DATA1 (unat len) []
      \<and> (explains hw (bus u) \<longrightarrow> explains hw (bus u'))"
    using assms by (simp add: usb_setup_stage_dma_data_in_def)
  then show ?thesis by blast
next
  case False
  then have "data_in_packets n hw devaddr len PID_DATA1 0 (dst, u) = Some (0, dst', u')"
    using assms by (simp add: usb_setup_stage_dma_data_in_def)
  from data_in_packets_law [OF this] show ?thesis by simp
qed

text \<open>A controller that completes every transfer in full, at once.\<close>

definition prompt :: "hardware \<Rightarrow> u32 \<Rightarrow> bool" where
  "prompt hw ch \<longleftrightarrow> (\<forall>h. hw h (Mmio (HCINT ch)) = 3) \<and> (\<forall>h. hw h (Mmio (HCCHAR ch)) = 0) \<and> (\<forall>h. hw h (Mmio (HCTSIZ ch)) = 0)"

lemma prompt_wait: "prompt hw ch \<Longrightarrow> fst (usb_transfer_channel_wait hw ch u) = 0"
proof -
  assume p: "prompt hw ch"
  have "0 < m \<Longrightarrow> fst (wait_channel m hw ch u) = 0" for m
    using p by (cases m) (simp_all add: prompt_def readl_eq HCINT_CHHLTD_def halted_code_def HCINT_XFERCOMP_def)
  then show ?thesis by (simp add: usb_transfer_channel_wait_def)
qed

definition still :: "hardware \<Rightarrow> bool" where
  "still hw \<longleftrightarrow> (\<forall>h b. hw h (Mem b) = hw [] (Mem b))"

lemma memory_bytes:
  assumes "still hw"
  shows "fst (bytes_in hw a n u) = map (\<lambda>i. ucast (hw [] (Mem (a + of_nat i)))) [0..<n]"
proof (induction n arbitrary: a u)
  case (Suc n)
  obtain bs u2 where b: "bytes_in hw (a + 1) n (snd (mem_read hw a u)) = (bs, u2)" by fastforce
  have "bs = map (\<lambda>i. ucast (hw [] (Mem (a + 1 + of_nat i)))) [0..<n]"
    using Suc.IH [of "a + 1" "snd (mem_read hw a u)"] b by simp
  then show ?case using b assms [unfolded still_def, rule_format, of "bus u" a]
    by (simp add: mem_read_def rd_def upt_conv_Cons map_Suc_upt [symmetric] comp_def add.assoc del: upt_Suc)
qed simp

text \<open>Then a data stage ends, within one round for each byte; with memory that nobody changes its first packet is known.\<close>

lemma data_in_ends:
  assumes "prompt hw CH_CONTROL_IN" "still hw"
    and "0 < max_packet_size u" "max_packet_size u \<le> 64" "unat len \<le> length dst" "off \<le> len" "unat len - unat off < n"
  shows "\<exists>dst' u'. data_in_packets n hw devaddr len pid off (dst, u) = Some (0, dst', u') \<and> length dst' = length dst
    \<and> max_packet_size u' = max_packet_size u \<and> (\<forall>i < unat off. dst' ! i = dst ! i)
    \<and> (\<forall>j < min (unat len - unat off) (unat (max_packet_size u)).
        dst' ! (unat off + j) = ucast (hw [] (Mem (data_buf u (data_buf_idx u) + of_nat j))))"
  using assms(3-7)
proof (induction n arbitrary: pid off dst u)
  case (Suc n)
  show ?case
  proof (cases "off < len")
    case True
    define chunk where "chunk = (if len - off > ucast (max_packet_size u) then ucast (max_packet_size u) else len - off)"
    define a where "a = data_buf u (data_buf_idx u)"
    define u1 where "u1 = u\<lparr>data_buf_idx := (data_buf_idx u + 1) mod 16\<rparr>"
    define u2 where "u2 = bytes_out a (replicate 64 0xCC) u1"
    define u3 where "u3 = usb_transfer_channel_start hw CH_CONTROL_IN devaddr 0 EP_TYPE_CONTROL True (ucast (max_packet_size u2)) pid
      chunk 1 (BUS_ADDRESS a) u2"
    obtain ret u4 where w: "usb_transfer_channel_wait hw CH_CONTROL_IN u3 = (ret, u4)" by fastforce
    have ret: "ret = 0" using prompt_wait [OF assms(1), of u3] w by simp
    obtain z u5 where z: "readl hw (HCTSIZ CH_CONTROL_IN) u4 = (z, u5)" by fastforce
    have z0: "z = 0" using z assms(1) by (auto simp: readl_eq prompt_def)
    obtain bs u6 where b: "bytes_in hw a (unat chunk) u5 = (bs, u6)" by fastforce
    have m: "unat (ucast (max_packet_size u) :: u32) = unat (max_packet_size u)" by (rule unat_byte)
    have d: "unat (len - off) = unat len - unat off" using True by (intro unat_sub_le) simp
    have c: "unat chunk = min (unat len - unat off) (unat (max_packet_size u))" using d m by (simp add: chunk_def word_less_nat_alt)
    have left: "0 < unat len - unat off" using True by (simp add: word_less_nat_alt)
    have mm: "0 < unat (max_packet_size u)" "unat (max_packet_size u) \<le> 64"
      using Suc.prems(1,2) by (simp_all add: word_less_nat_alt word_le_nat_alt)
    have c64: "\<not> 64 < chunk" using c mm by (simp add: word_less_nat_alt)
    have fits: "\<not> length dst < unat off + unat chunk" using c Suc.prems(3) left by simp
    have "same_usb hw u1 u2" by (simp add: u2_def)
    then have "same_usb hw u1 u3" unfolding u3_def by (rule same_usb_trans [OF _ transfer_start_law(1)])
    then have "same_usb hw u1 u4" using w same_usb_trans by (metis transfer_wait_law(1) snd_conv)
    then have "same_usb hw u1 u5" using z same_usb_trans by (metis readl_law(1) snd_conv)
    then have "same_usb hw u1 u6" using bytes_in_view [OF b] same_usb_trans by blast
    then have mp: "max_packet_size u6 = max_packet_size u" by (simp add: same_usbD(3) u1_def)
    have bs: "bs = map (\<lambda>i. ucast (hw [] (Mem (a + of_nat i)))) [0..<unat chunk]"
      using memory_bytes [OF assms(2), of a "unat chunk" u5] b by simp
    then have lb: "length bs = unat chunk" by simp
    have ld: "length (blit dst (unat off) bs) = length dst" using fits lb by (intro length_blit) simp
    have kept: "\<forall>i < unat off. blit dst (unat off) bs ! i = dst ! i" using fits lb by (simp add: nth_blit)
    have first: "\<forall>j < unat chunk. blit dst (unat off) bs ! (unat off + j) = ucast (hw [] (Mem (a + of_nat j)))"
      using fits lb by (simp add: nth_blit) (simp add: bs)
    have eq: "data_in_packets (Suc n) hw devaddr len pid off (dst, u) = (if chunk < ucast (max_packet_size u6)
        then Some (0, blit dst (unat off) bs, u6)
        else data_in_packets n hw devaddr len (other_pid pid) (off + chunk) (blit dst (unat off) bs, u6))"
      unfolding data_in_packets.simps(2) Let_def chunk_def [symmetric] a_def [symmetric] u1_def [symmetric] u2_def [symmetric]
        u3_def [symmetric] w prod.case z ret z0
      using True c64 fits b by (simp add: other_pid_def)
    show ?thesis
    proof (cases "chunk < ucast (max_packet_size u6)")
      case True
      then show ?thesis using ld kept first mp unfolding eq c [symmetric] a_def by simp
    next
      case False
      have sum: "unat (off + chunk) = unat off + unat chunk"
        by (intro unat_add_no_wrap) (insert unat_less_2p32 [of len] c left, linarith)
      have "\<exists>dst' u'. data_in_packets n hw devaddr len (other_pid pid) (off + chunk) (blit dst (unat off) bs, u6) = Some (0, dst', u')
          \<and> length dst' = length (blit dst (unat off) bs) \<and> max_packet_size u' = max_packet_size u6
          \<and> (\<forall>i < unat (off + chunk). dst' ! i = blit dst (unat off) bs ! i)
          \<and> (\<forall>j < min (unat len - unat (off + chunk)) (unat (max_packet_size u6)).
              dst' ! (unat (off + chunk) + j) = ucast (hw [] (Mem (data_buf u6 (data_buf_idx u6) + of_nat j))))"
      proof (rule Suc.IH)
        show "0 < max_packet_size u6" "max_packet_size u6 \<le> 64" using Suc.prems(1,2) mp by simp_all
        show "unat len \<le> length (blit dst (unat off) bs)" using ld Suc.prems(3) by simp
        show "off + chunk \<le> len" unfolding word_le_nat_alt sum using c left by linarith
        show "unat len - unat (off + chunk) < n" using sum c mm left Suc.prems(5) by simp
      qed
      then obtain dst' u' where r: "data_in_packets n hw devaddr len (other_pid pid) (off + chunk) (blit dst (unat off) bs, u6) = Some (0, dst', u')"
        "length dst' = length dst" "max_packet_size u' = max_packet_size u" "\<forall>i < unat off + unat chunk. dst' ! i = blit dst (unat off) bs ! i"
        unfolding ld mp sum by blast
      have "\<forall>i < unat off. dst' ! i = dst ! i" using r(4) kept by simp
      moreover have "\<forall>j < unat chunk. dst' ! (unat off + j) = ucast (hw [] (Mem (a + of_nat j)))" using r(4) first by simp
      ultimately show ?thesis using False r(1-3) unfolding eq c [symmetric] a_def by simp
    qed
  qed (auto simp: word_less_nat_alt)
qed simp

text \<open>Memory holds the offset in its buffer of 64 bytes, and 0 at offset 3.\<close>

definition prompt_usb :: hardware where
  "prompt_usb h p = (case p of
     Mmio r \<Rightarrow> (if r = GRSTCTL then 0x80000000 else if r = HPRT then 1
       else if r = HCINT 0 \<or> r = HCINT 1 \<or> r = HCINT 2 \<or> r = HCINT 3 then 3 else 0)
   | Mem a \<Rightarrow> (if a = 0xC6FF0020 + 5188 then 0x80000000
       else let i = (a - 0xC6FF0040) mod 64 in if i = 3 then 0 else i)
   | CycleCounter \<Rightarrow> 0)"

lemma prompt_memory: "still prompt_usb"
  by (simp add: still_def prompt_usb_def)

lemma prompt_usb: "prompt prompt_usb CH_CONTROL_OUT" "prompt prompt_usb CH_CONTROL_IN"
  by (simp_all add: prompt_def prompt_usb_def HCINT_def HCCHAR_def HCTSIZ_def CH_CONTROL_OUT_def CH_CONTROL_IN_def
      GRSTCTL_def HPRT_def USB_CORE_BASE_def USB_HOST_BASE_def USB_BASE_def)

lemma prompt_mem:
  assumes "i < 16" "j < 64"
  shows "prompt_usb h (Mem (0xC6FF0020 + 32 + 64 * of_nat i + of_nat j)) = of_nat (if j = 3 then 0 else j)"
proof -
  let ?a = "0xC6FF0020 + 32 + 64 * of_nat i + of_nat j :: u32"
  define k where "k = 64 * i + j"
  have k: "k < 1024" "k mod 64 = j" using assms by (simp_all add: k_def)
  have o: "?a - 0xC6FF0040 = of_nat k" by (simp add: k_def)
  have u: "unat (of_nat k :: u32) = k" using k(1) by (simp add: unat_of_nat_u32)
  have m: "(of_nat k :: u32) mod 64 = of_nat j"
    using assms(2) k(2) by (simp add: u32_eq_nat_iff unat_mod_distrib u unat_of_nat_u32)
  have "?a \<noteq> 0xC6FF0020 + 5188"
  proof
    assume "?a = 0xC6FF0020 + 5188"
    then have "of_nat k = (5156 :: u32)" using o by simp
    then have "k = 5156" using u by simp
    then show False using k(1) by simp
  qed
  moreover have "(of_nat j :: u32) = 3 \<longleftrightarrow> j = 3" using assms(2) by (simp add: u32_eq_nat_iff unat_of_nat_u32)
  ultimately show ?thesis unfolding prompt_usb_def port.case o m Let_def by simp
qed

text \<open>Eighteen bytes, eight in a packet.\<close>

theorem data_stage_assembles_witness:
  "\<exists>dst u' ps. usb_setup_stage_dma_data_in 19 prompt_usb 1 18 (replicate 18 0, fresh_context) = Some (0, dst, u')
    \<and> packets_fit 8 18 (map snd ps) \<and> dst = blit (replicate 18 0) 0 (map ucast (concat (map snd ps)))
    \<and> view (touched CH_CONTROL_IN) u' = packets_trace fresh_context 1 0 PID_DATA1 18 ps \<and> explains prompt_usb (bus u')"
proof -
  have f: "max_packet_size fresh_context = 8" "data_buf_idx fresh_context = 0" "bus fresh_context = []"
    by (simp_all add: fresh_context_def usb_context_init_def)
  have "\<exists>dst u'. data_in_packets 19 prompt_usb 1 18 PID_DATA1 0 (replicate 18 0, fresh_context) = Some (0, dst, u')"
    using data_in_ends [OF prompt_usb(2) prompt_memory, of fresh_context 18 "replicate 18 0" 0 19 1 PID_DATA1] f by auto
  then obtain dst u' where r: "usb_setup_stage_dma_data_in 19 prompt_usb 1 18 (replicate 18 0, fresh_context) = Some (0, dst, u')"
    by (auto simp: usb_setup_stage_dma_data_in_def)
  show ?thesis using data_stage_assembles [OF r] r by (auto simp: f view_def)
qed

end
