(* ===== verification/UsbPoll.thy ===== *)
theory UsbPoll
  imports UsbProto
begin

text \<open>
  The keyboard end to end: polls of the interrupt endpoint (lib/src/piusb.c) as a machine with one toggle bit, whose
  reports go through the decoder of final/src/keyboard.c.
\<close>

section \<open>The endpoint as a machine\<close>

text \<open>What a poll finds: the transfer still runs, it failed, the toggle was wrong, a report came, or the channel stopped without
  one.\<close>

datatype outcome = Running | Failed | Wrong_toggle | Report "u32 list" | Stopped

definition outcome_of :: "u32 \<Rightarrow> u32 list \<Rightarrow> outcome" where
  "outcome_of hcint ws =
     (if hcint AND HCINT_CHHLTD = 0 then Running
      else if hcint AND (HCINT_STALL OR HCINT_XACTERR OR HCINT_AHBERR) \<noteq> 0 then Failed
      else if hcint AND HCINT_DATATGLERR \<noteq> 0 then Wrong_toggle
      else if hcint AND HCINT_XFERCOMP \<noteq> 0 then Report ws
      else Stopped)"

fun code_of :: "outcome \<Rightarrow> int" where
  "code_of Running = - 3" | "code_of Failed = - 1" | "code_of Wrong_toggle = - 6" | "code_of (Report ws) = 0" | "code_of Stopped = - 3"

fun next_toggle :: "outcome \<Rightarrow> u8 \<Rightarrow> u8" where
  "next_toggle Wrong_toggle t = t XOR 2" | "next_toggle (Report ws) t = t XOR 2" | "next_toggle _ t = t"

text \<open>What a poll does on the bus: it reads the report before the channel is armed again, with the next toggle; a channel that
  runs or failed is left alone.\<close>

fun poll_trace :: "u32 \<Rightarrow> u32 \<Rightarrow> u32 \<Rightarrow> outcome \<Rightarrow> u8 \<Rightarrow> history" where
  "poll_trace ch a len Running t = []"
| "poll_trace ch a len Failed t = []"
| "poll_trace ch a len (Report ws) t = reads_from a ws @ armed ch (next_toggle (Report ws) t) len (BUS_ADDRESS a)"
| "poll_trace ch a len c t = armed ch (next_toggle c t) len (BUS_ADDRESS a)"

fun report_after :: "outcome \<Rightarrow> u8 list \<Rightarrow> u8 list" where
  "report_after (Report ws) buf = blit buf 0 (map ucast ws)"
| "report_after _ buf = buf"

lemma arm_channel_law:
  "same_usb hw u (arm_channel hw ch i devaddr ep len u)"
  "trace ch (arm_channel hw ch i devaddr ep len u) = trace ch u @ armed ch (interrupt_toggle ep) (ucast len) (BUS_ADDRESS (int_buf u i))"
  by (simp_all add: arm_channel_def transfer_start_law)

lemma toggle_flip: "flip_toggle ep = ep\<lparr>interrupt_toggle := interrupt_toggle ep XOR 2\<rparr>"
  by (simp add: flip_toggle_def)

lemma poll_law:
  assumes "usb_interrupt_poll_ch hw ch i devaddr ep buf len u = Some (ret, ep', buf', u')"
  shows "\<exists>ws. length ws = unat len \<and> (let c = outcome_of (hw (bus u) (Mmio (HCINT ch))) ws in
      ret = code_of c \<and> ep' = ep\<lparr>interrupt_toggle := next_toggle c (interrupt_toggle ep)\<rparr> \<and> buf' = report_after c buf
      \<and> trace ch u' = trace ch u @ poll_trace ch (int_buf u i) (ucast len) c (interrupt_toggle ep) \<and> same_usb hw u u')"
proof -
  define f where "f = hw (bus u) (Mmio (HCINT ch))"
  obtain u1 where r: "readl hw (HCINT ch) u = (f, u1)" by (simp add: readl_eq f_def)
  have u1: "same_usb hw u u1" "trace ch u1 = trace ch u"
    using readl_law(1) [of hw u "HCINT ch"] readl_law(2) [of ch hw "HCINT ch" u] r by simp_all
  have buf_same: "int_buf v i = int_buf u i" if "same_usb hw u v" for v using same_usbD(6) [OF that] by (simp add: int_buf_def)
  note a = assms [unfolded usb_interrupt_poll_ch_def r prod.case]
  let ?goal = "\<lambda>c. ret = code_of c \<and> ep' = ep\<lparr>interrupt_toggle := next_toggle c (interrupt_toggle ep)\<rparr> \<and> buf' = report_after c buf
      \<and> trace ch u' = trace ch u @ poll_trace ch (int_buf u i) (ucast len) c (interrupt_toggle ep) \<and> same_usb hw u u'"
  have any: "length (replicate (unat len) 0) = unat len" by simp
  consider (run) "f AND HCINT_CHHLTD = 0"
    | (fail) "f AND HCINT_CHHLTD \<noteq> 0" "f AND (HCINT_STALL OR HCINT_XACTERR OR HCINT_AHBERR) \<noteq> 0"
    | (tgl) "f AND HCINT_CHHLTD \<noteq> 0" "\<not> f AND (HCINT_STALL OR HCINT_XACTERR OR HCINT_AHBERR) \<noteq> 0" "f AND HCINT_DATATGLERR \<noteq> 0"
    | (rep) "f AND HCINT_CHHLTD \<noteq> 0" "\<not> f AND (HCINT_STALL OR HCINT_XACTERR OR HCINT_AHBERR) \<noteq> 0" "\<not> f AND HCINT_DATATGLERR \<noteq> 0"
        "f AND HCINT_XFERCOMP \<noteq> 0"
    | (stop) "f AND HCINT_CHHLTD \<noteq> 0" "\<not> f AND (HCINT_STALL OR HCINT_XACTERR OR HCINT_AHBERR) \<noteq> 0" "\<not> f AND HCINT_DATATGLERR \<noteq> 0"
        "\<not> f AND HCINT_XFERCOMP \<noteq> 0"
    by blast
  then have "\<exists>ws. length ws = unat len \<and> ?goal (outcome_of f ws)"
  proof cases
    case run
    then have "?goal (outcome_of f (replicate (unat len) 0))" using a u1 by (simp add: outcome_of_def)
    then show ?thesis using any by blast
  next
    case fail
    then have "?goal (outcome_of f (replicate (unat len) 0))" using a u1 by (simp add: outcome_of_def)
    then show ?thesis using any by blast
  next
    case tgl
    define u2 where "u2 = writel f (HCINT ch) u1"
    have 2: "same_usb hw u u2" "trace ch u2 = trace ch u"
      using unseen_trans [OF _ channel_unseen(1) [OF blind_traced]] u1 unfolding u2_def unseen_def by blast+
    have "ret = - 6" "ep' = flip_toggle ep" "buf' = buf" "u' = arm_channel hw ch i devaddr (flip_toggle ep) len u2"
      using a tgl by (auto simp: u2_def Let_def)
    then have "?goal (outcome_of f (replicate (unat len) 0))"
      using tgl 2 arm_channel_law same_usb_trans [OF 2(1) arm_channel_law(1)] buf_same [OF 2(1)]
      by (simp add: outcome_of_def toggle_flip)
    then show ?thesis using any by blast
  next
    case rep
    obtain bs u2 where b: "bytes_in hw (int_buf u1 i) (unat len) u1 = (bs, u2)" by fastforce
    obtain ws where ws: "bs = map ucast ws" "length ws = unat len" "trace ch u2 = trace ch u1 @ reads_from (int_buf u1 i) ws"
      and "same_usb hw u1 u2" using bytes_in_law [OF b, of ch] by blast
    then have 2: "same_usb hw u u2" using same_usb_trans [OF u1(1)] by blast
    have "ret = 0" "ep' = flip_toggle ep" "buf' = blit buf 0 bs" "u' = arm_channel hw ch i devaddr (flip_toggle ep) len u2"
      using a rep b by (auto simp: Let_def split: if_splits)
    then have "?goal (outcome_of f ws)"
      using rep ws(1,3) u1(2) arm_channel_law same_usb_trans [OF 2 arm_channel_law(1)] buf_same [OF 2] buf_same [OF u1(1)]
      by (simp add: outcome_of_def toggle_flip)
    then show ?thesis using ws(2) by blast
  next
    case stop
    have "ret = - 3" "ep' = ep" "buf' = buf" "u' = arm_channel hw ch i devaddr ep len u1" using a stop by auto
    then have "?goal (outcome_of f (replicate (unat len) 0))"
      using stop u1 arm_channel_law same_usb_trans [OF u1(1) arm_channel_law(1)] buf_same [OF u1(1)] by (simp add: outcome_of_def)
    then show ?thesis using any by blast
  qed
  then show ?thesis by (simp add: f_def Let_def)
qed

section \<open>Keys\<close>

text \<open>Successive polls of the keyboard, with the characters they return.\<close>

fun poll_keys :: "nat \<Rightarrow> nat \<Rightarrow> hardware \<Rightarrow> u32 \<Rightarrow> usb_keyboard \<Rightarrow> (u32 list \<times> usb_keyboard) option" where
  "poll_keys 0 n hw heap k = Some ([], k)"
| "poll_keys (Suc m) n hw heap k = do {
     (c, k1) \<leftarrow> keyboard_poll_usb n hw heap k;
     (cs, k2) \<leftarrow> poll_keys m n hw heap k1;
     Some (c # cs, k2)
   }"

text \<open>The outcomes decoded: a character or none for a report, none otherwise.\<close>

fun decoded :: "outcome list \<Rightarrow> keyboard \<Rightarrow> (u32 list \<times> keyboard) option" where
  "decoded [] m = Some ([], m)"
| "decoded (Report ws # os) m = do {
     (c, m1) \<leftarrow> process_keyboard_report (report_of (map ucast ws)) m;
     (cs, m2) \<leftarrow> decoded os m1;
     Some (c # cs, m2)
   }"
| "decoded (_ # os) m = do {
     (cs, m2) \<leftarrow> decoded os m;
     Some (- 1 # cs, m2)
   }"

fun polls_trace :: "u32 \<Rightarrow> outcome list \<Rightarrow> u8 \<Rightarrow> history" where
  "polls_trace a [] t = []"
| "polls_trace a (c # os) t = poll_trace CH_INTERRUPT a 8 c t @ polls_trace a os (next_toggle c t)"

definition healthy :: "hardware \<Rightarrow> bool" where
  "healthy hw \<longleftrightarrow> (\<forall>h. hw h (Mmio (HCINT CH_INTERRUPT)) AND (HCINT_STALL OR HCINT_XACTERR OR HCINT_AHBERR) = 0)"

definition poll_step :: "hardware \<Rightarrow> outcome \<Rightarrow> u32 \<Rightarrow> usb_keyboard \<Rightarrow> usb_keyboard \<Rightarrow> bool" where
  "poll_step hw x c k k' \<longleftrightarrow> decoded [x] (kb_maps k) = Some ([c], kb_maps k') \<and> x \<noteq> Failed \<and> (\<forall>ws. x = Report ws \<longrightarrow> length ws = 8)
    \<and> hid (usb_ctx k') = (hid (usb_ctx k))\<lparr>interrupt_toggle := next_toggle x (interrupt_toggle (hid (usb_ctx k)))\<rparr>
    \<and> trace CH_INTERRUPT (usb_ctx k') = trace CH_INTERRUPT (usb_ctx k)
        @ poll_trace CH_INTERRUPT (int_buf (usb_ctx k) 0) 8 x (interrupt_toggle (hid (usb_ctx k)))
    \<and> (explains hw (bus (usb_ctx k)) \<longrightarrow> explains hw (bus (usb_ctx k')))
    \<and> endpoint (aux (usb_ctx k')) = 0 \<and> length (report k') = 8 \<and> dma_at (usb_ctx k') = dma_at (usb_ctx k)"

lemma poll_once_law:
  assumes "keyboard_poll_usb n hw heap k = Some (c, k')" "healthy hw" "endpoint (aux (usb_ctx k)) = 0" "length (report k) = 8"
  shows "\<exists>x. poll_step hw x c k k'"
proof -
  let ?u = "usb_ctx k"
  obtain ret ep buf u1 where p: "usb_interrupt_poll_ch hw CH_INTERRUPT 0 (address ?u) (hid ?u) (report k) 8 ?u = Some (ret, ep, buf, u1)"
    using assms(1,3) by (auto simp: keyboard_poll_usb_def poll_aux_def poll_report_def bind_eq_Some_conv Let_def)
  obtain ws where w: "length ws = 8" and all: "let x = outcome_of (hw (bus ?u) (Mmio (HCINT CH_INTERRUPT))) ws in
      ret = code_of x \<and> ep = (hid ?u)\<lparr>interrupt_toggle := next_toggle x (interrupt_toggle (hid ?u))\<rparr> \<and> buf = report_after x (report k)
      \<and> trace CH_INTERRUPT u1 = trace CH_INTERRUPT ?u @ poll_trace CH_INTERRUPT (int_buf ?u 0) (ucast (8 :: u16)) x (interrupt_toggle (hid ?u)) \<and> same_usb hw ?u u1"
    using poll_law [OF p] by auto
  define x where "x = outcome_of (hw (bus ?u) (Mmio (HCINT CH_INTERRUPT))) ws"
  have facts: "ret = code_of x" "ep = (hid ?u)\<lparr>interrupt_toggle := next_toggle x (interrupt_toggle (hid ?u))\<rparr>" "buf = report_after x (report k)"
    "trace CH_INTERRUPT u1 = trace CH_INTERRUPT ?u @ poll_trace CH_INTERRUPT (int_buf ?u 0) 8 x (interrupt_toggle (hid ?u))" "same_usb hw ?u u1"
    using all by (simp_all add: x_def [symmetric] Let_def)
  have nf: "x \<noteq> Failed" using assms(2) by (simp add: x_def outcome_of_def healthy_def)
  have rw: "x = Report vs \<Longrightarrow> vs = ws" for vs by (auto simp: x_def outcome_of_def split: if_splits)
  define k2 where "k2 = k\<lparr>usb_ctx := u1\<lparr>hid := ep\<rparr>, report := buf\<rparr>"
  have p2: "poll_aux hw k = Some k" "poll_report hw k = Some (ret, k2)"
    using assms(3) p by (simp_all add: poll_aux_def poll_report_def Let_def k2_def)
  have lb: "length buf = 8" using facts(3) w assms(4) rw by (cases x) auto
  note s = same_usbD [OF facts(5)]
  have tr: "trace CH_INTERRUPT (u1\<lparr>hid := ep\<rparr>) = trace CH_INTERRUPT u1" by (simp add: view_def)
  have kk: "\<exists>maps. k' = k2\<lparr>kb_maps := maps\<rparr> \<and> decoded [x] (kb_maps k) = Some ([c], maps)"
  proof (cases x)
    case (Report vs)
    then have b: "buf = map ucast ws" "ret = 0" using facts(1,3) rw w assms(4) by simp_all
    show ?thesis using assms(1) b Report rw
      by (auto simp: keyboard_poll_usb_def p2 keyboard_poll_once_def k2_def bind_eq_Some_conv)
  qed (use assms(1) facts(1) nf in \<open>auto simp: keyboard_poll_usb_def p2 keyboard_poll_once_def k2_def\<close>)
  then obtain maps where m: "k' = k2\<lparr>kb_maps := maps\<rparr>" "decoded [x] (kb_maps k) = Some ([c], maps)" by blast
  have "hid (usb_ctx k') = (hid ?u)\<lparr>interrupt_toggle := next_toggle x (interrupt_toggle (hid ?u))\<rparr>"
    "trace CH_INTERRUPT (usb_ctx k') = trace CH_INTERRUPT ?u @ poll_trace CH_INTERRUPT (int_buf ?u 0) 8 x (interrupt_toggle (hid ?u))"
    "explains hw (bus ?u) \<longrightarrow> explains hw (bus (usb_ctx k'))" "endpoint (aux (usb_ctx k')) = 0" "length (report k') = 8"
    "dma_at (usb_ctx k') = dma_at ?u" "kb_maps k' = maps"
    using facts(2,4) lb s(5,6,11) assms(3) tr by (simp_all add: m(1) k2_def)
  moreover have "\<forall>vs. x = Report vs \<longrightarrow> length vs = 8" using rw w by blast
  ultimately have "poll_step hw x c k k'" using m(2) nf by (simp add: poll_step_def)
  then show ?thesis by blast
qed

text \<open>C35: The keyboard end to end, for all hardware that reports no error on the channel. Any number of polls of a keyboard
  without an auxiliary endpoint is a run of the endpoint machine: the data toggle flips exactly with a report and with a
  toggle error, a report of eight bytes is read before its buffer is handed back, the channel is armed again whenever it
  has stopped, always with the current toggle, and the polls return the characters of the reports, in order.\<close>

theorem polls_follow_protocol:
  assumes "poll_keys m n hw heap k = Some (cs, k')" "healthy hw" "endpoint (aux (usb_ctx k)) = 0" "length (report k) = 8"
  shows "\<exists>os. length os = m \<and> (\<forall>ws. Report ws \<in> set os \<longrightarrow> length ws = 8) \<and> decoded os (kb_maps k) = Some (cs, kb_maps k')
    \<and> interrupt_toggle (hid (usb_ctx k')) = fold next_toggle os (interrupt_toggle (hid (usb_ctx k)))
    \<and> trace CH_INTERRUPT (usb_ctx k') = trace CH_INTERRUPT (usb_ctx k)
        @ polls_trace (int_buf (usb_ctx k) 0) os (interrupt_toggle (hid (usb_ctx k)))
    \<and> (explains hw (bus (usb_ctx k)) \<longrightarrow> explains hw (bus (usb_ctx k')))"
  using assms
proof (induction m arbitrary: k cs)
  case 0
  have e: "cs = []" "k' = k" using "0.prems"(1) by simp_all
  show ?case unfolding e by (intro exI [of _ "[]"]) simp
next
  case (Suc m)
  obtain c k1 cs1 where 1: "keyboard_poll_usb n hw heap k = Some (c, k1)" and 2: "poll_keys m n hw heap k1 = Some (cs1, k')" "cs = c # cs1"
    using Suc.prems(1) by (auto simp: bind_eq_Some_conv)
  obtain x where "poll_step hw x c k k1" using poll_once_law [OF 1 Suc.prems(2,3,4)] by blast
  then have x: "decoded [x] (kb_maps k) = Some ([c], kb_maps k1)" "\<forall>ws. x = Report ws \<longrightarrow> length ws = 8"
    "hid (usb_ctx k1) = (hid (usb_ctx k))\<lparr>interrupt_toggle := next_toggle x (interrupt_toggle (hid (usb_ctx k)))\<rparr>"
    "trace CH_INTERRUPT (usb_ctx k1) = trace CH_INTERRUPT (usb_ctx k)
        @ poll_trace CH_INTERRUPT (int_buf (usb_ctx k) 0) 8 x (interrupt_toggle (hid (usb_ctx k)))"
    "explains hw (bus (usb_ctx k)) \<longrightarrow> explains hw (bus (usb_ctx k1))"
    "endpoint (aux (usb_ctx k1)) = 0" "length (report k1) = 8" "dma_at (usb_ctx k1) = dma_at (usb_ctx k)"
    unfolding poll_step_def by blast+
  from Suc.IH [OF 2(1) Suc.prems(2) x(6,7)] obtain os where os: "length os = m" "\<forall>ws. Report ws \<in> set os \<longrightarrow> length ws = 8"
    "decoded os (kb_maps k1) = Some (cs1, kb_maps k')"
    "interrupt_toggle (hid (usb_ctx k')) = fold next_toggle os (interrupt_toggle (hid (usb_ctx k1)))"
    "trace CH_INTERRUPT (usb_ctx k') = trace CH_INTERRUPT (usb_ctx k1)
        @ polls_trace (int_buf (usb_ctx k1) 0) os (interrupt_toggle (hid (usb_ctx k1)))"
    "explains hw (bus (usb_ctx k1)) \<longrightarrow> explains hw (bus (usb_ctx k'))" by blast
  have "decoded (x # os) (kb_maps k) = Some (cs, kb_maps k')" using x(1) os(3) 2(2) by (cases x) (auto simp: bind_eq_Some_conv)
  moreover have "int_buf (usb_ctx k1) 0 = int_buf (usb_ctx k) 0" using x(8) by (simp add: int_buf_def)
  moreover have "interrupt_toggle (hid (usb_ctx k1)) = next_toggle x (interrupt_toggle (hid (usb_ctx k)))" by (simp add: x(3))
  ultimately show ?case using os x(2,4,5) by (intro exI [of _ "x # os"] conjI) simp_all
qed

section \<open>A run\<close>

text \<open>The prompt controller delivers the same report at every poll: right shift and the keys 34 to 39.\<close>

definition prompt_report :: "u8 list" where
  "prompt_report = [32, 33, 34, 35, 36, 37, 38, 39]"

definition test_keyboard :: usb_keyboard where
  "test_keyboard = \<lparr>usb_ctx = fresh_context, report = replicate 8 0, aux_report = replicate 24 0, kb_maps = keyboard_boot\<rparr>"

lemma prompt_poll:
  assumes "dma_at (usb_ctx k) = 0xC6FF0020" "endpoint (aux (usb_ctx k)) = 0" "length (report k) = 8"
    "process_keyboard_report (report_of prompt_report) (kb_maps k) = Some (c, maps)"
  shows "\<exists>k'. keyboard_poll_usb n prompt_usb heap k = Some (c, k') \<and> kb_maps k' = maps \<and> dma_at (usb_ctx k') = 0xC6FF0020
    \<and> endpoint (aux (usb_ctx k')) = 0 \<and> length (report k') = 8"
proof -
  let ?u = "usb_ctx k"
  have f: "prompt_usb (bus ?u) (Mmio (HCINT CH_INTERRUPT)) = 3"
    by (simp add: prompt_usb_def CH_INTERRUPT_def HCINT_def GRSTCTL_def HPRT_def USB_CORE_BASE_def USB_HOST_BASE_def USB_BASE_def)
  obtain u1 where r: "readl prompt_usb (HCINT CH_INTERRUPT) ?u = (3, u1)" using f by (simp add: readl_eq)
  have d: "dma_at u1 = dma_at ?u" using same_usbD(6) [OF readl_law(1) [of prompt_usb ?u "HCINT CH_INTERRUPT"]] r by simp
  obtain bs u2 where b: "bytes_in prompt_usb (int_buf u1 0) 8 u1 = (bs, u2)" by fastforce
  have bs: "bs = prompt_report"
    using memory_bytes [OF prompt_memory, of "int_buf u1 0" 8 u1] b d assms(1)
    by (simp add: int_buf_def prompt_usb_def upt_conv_Cons prompt_report_def)
  obtain ep u3 where p: "usb_interrupt_poll_ch prompt_usb CH_INTERRUPT 0 (address ?u) (hid ?u) (report k) 8 ?u = Some (0, ep, prompt_report, u3)"
    using r b bs assms(3)
    by (simp add: usb_interrupt_poll_ch_def HCINT_CHHLTD_def HCINT_STALL_def HCINT_XACTERR_def HCINT_AHBERR_def HCINT_DATATGLERR_def
        HCINT_XFERCOMP_def Let_def prompt_report_def)
  have s: "dma_at u3 = dma_at ?u" "aux u3 = aux ?u" using poll_law [OF p] same_usbD(5,6) by (auto simp: Let_def)
  have "keyboard_poll_usb n prompt_usb heap k = Some (c, k\<lparr>usb_ctx := u3\<lparr>hid := ep\<rparr>, report := prompt_report, kb_maps := maps\<rparr>)"
    using assms(2,4) p by (simp add: keyboard_poll_usb_def poll_aux_def poll_report_def keyboard_poll_once_def Let_def)
  then show ?thesis using s assms(1,2) by (simp add: prompt_report_def)
qed

lemma prompt_healthy: "healthy prompt_usb"
  by (simp add: healthy_def prompt_usb_def CH_INTERRUPT_def HCINT_def GRSTCTL_def HPRT_def USB_CORE_BASE_def USB_HOST_BASE_def USB_BASE_def
      HCINT_STALL_def HCINT_XACTERR_def HCINT_AHBERR_def)

text \<open>Two polls: the closing parenthesis, then nothing, for the keys are still down.\<close>

theorem polls_follow_protocol_witness:
  "\<exists>k' os. poll_keys 2 0 prompt_usb 0 test_keyboard = Some ([41, - 1], k') \<and> length os = 2
    \<and> decoded os keyboard_boot = Some ([41, - 1], kb_maps k')
    \<and> trace CH_INTERRUPT (usb_ctx k') = polls_trace (int_buf fresh_context 0) os PID_DATA0 \<and> explains prompt_usb (bus (usb_ctx k'))"
proof -
  have t: "dma_at (usb_ctx test_keyboard) = 0xC6FF0020" "endpoint (aux (usb_ctx test_keyboard)) = 0" "length (report test_keyboard) = 8"
    "kb_maps test_keyboard = keyboard_boot" "bus (usb_ctx test_keyboard) = []" "interrupt_toggle (hid (usb_ctx test_keyboard)) = PID_DATA0"
    "usb_ctx test_keyboard = fresh_context"
    by (simp_all add: test_keyboard_def fresh_context_def usb_context_init_def)
  have fc: "bus fresh_context = []" "interrupt_toggle (hid fresh_context) = PID_DATA0" by (simp_all add: fresh_context_def usb_context_init_def)
  define held where "held = (replicate 128 0 :: u8 list)[34 := 1, 35 := 1, 36 := 1, 37 := 1, 38 := 1, 39 := 1]"
  have p1: "process_keyboard_report (report_of prompt_report) keyboard_boot = Some (41, \<lparr>last_pressed_map = held, pressed_map = replicate 128 0\<rparr>)"
    unfolding held_def by code_simp
  have p2: "process_keyboard_report (report_of prompt_report) \<lparr>last_pressed_map = held, pressed_map = replicate 128 0\<rparr>
      = Some (- 1, \<lparr>last_pressed_map = held, pressed_map = replicate 128 0\<rparr>)"
    unfolding held_def by code_simp
  obtain k1 where k1: "keyboard_poll_usb 0 prompt_usb 0 test_keyboard = Some (41, k1)"
    "kb_maps k1 = \<lparr>last_pressed_map = held, pressed_map = replicate 128 0\<rparr>" "dma_at (usb_ctx k1) = 0xC6FF0020"
    "endpoint (aux (usb_ctx k1)) = 0" "length (report k1) = 8"
    using prompt_poll [OF t(1,2,3), unfolded t(4), OF p1, of 0 0] by blast
  obtain k2 where k2: "keyboard_poll_usb 0 prompt_usb 0 k1 = Some (- 1, k2)"
    using prompt_poll [OF k1(3,4,5), unfolded k1(2), OF p2, of 0 0] by blast
  have r: "poll_keys 2 0 prompt_usb 0 test_keyboard = Some ([41, - 1], k2)" by (simp add: numeral_2_eq_2 k1(1) k2)
  show ?thesis using polls_follow_protocol [OF r prompt_healthy t(2,3)] r by (auto simp: t fc view_def)
qed

end
