(* ===== verification/UsbInit.thy ===== *)
theory UsbInit
  imports UsbPoll
begin

text \<open>
  The order of the requests of the enumeration in lib/src/piusb.c, for all hardware: the setup packets that the driver writes
  into the setup buffer, each as often as it was tried.
\<close>

section \<open>Setup packets\<close>

definition in_setup :: "u32 \<Rightarrow> access \<Rightarrow> bool" where
  "in_setup at x = (case x of Wr (Mem a) v \<Rightarrow> a - at < 8 | _ \<Rightarrow> False)"

definition ctx_ok :: "u32 \<Rightarrow> usb_context \<Rightarrow> bool" where
  "ctx_ok at u \<longleftrightarrow> dma_at u = at \<and> data_buf_idx u < 16"

definition packets_of :: "u32 \<Rightarrow> usb_setup list \<Rightarrow> history" where
  "packets_of at rs = concat (map (\<lambda>s. writes_to at (setup_bytes s)) rs)"

text \<open>A step that sends these requests, and keeps the place of the buffers, their sizes and the address of the device.\<close>

definition asks :: "hardware \<Rightarrow> u32 \<Rightarrow> usb_context \<Rightarrow> usb_setup list \<Rightarrow> usb_context \<Rightarrow> bool" where
  "asks hw at u rs u' \<longleftrightarrow> (ctx_ok at u \<longrightarrow> ctx_ok at u' \<and> address u' = address u \<and> length (config_buf u') = length (config_buf u)
     \<and> view (in_setup at) u' = view (in_setup at) u @ packets_of at rs \<and> (explains hw (bus u) \<longrightarrow> explains hw (bus u')))"

lemma asks_refl: "asks hw at u [] u"
  by (simp add: asks_def packets_of_def)

lemma asks_trans: "asks hw at a rs b \<Longrightarrow> asks hw at b qs c \<Longrightarrow> asks hw at a (rs @ qs) c"
  by (auto simp: asks_def packets_of_def)

lemma asks_more: "asks hw at a rs b \<Longrightarrow> asks hw at b [] c \<Longrightarrow> asks hw at a rs c"
  using asks_trans [of hw at a rs b "[]" c] by simp

lemma asks_fields [simp]:
  "asks hw at u rs (u'\<lparr>max_packet_size := m\<rparr>) = asks hw at u rs u'" "asks hw at u rs (u'\<lparr>hid := x\<rparr>) = asks hw at u rs u'"
  "asks hw at u rs (u'\<lparr>aux := x\<rparr>) = asks hw at u rs u'" "asks hw at u rs (u'\<lparr>dev_desc := d\<rparr>) = asks hw at u rs u'"
  "asks hw at u rs (u'\<lparr>speed := s\<rparr>) = asks hw at u rs u'"
  "asks hw at (u\<lparr>max_packet_size := m\<rparr>) rs u' = asks hw at u rs u'" "asks hw at (u\<lparr>dev_desc := d\<rparr>) rs u' = asks hw at u rs u'"
  by (simp_all add: asks_def ctx_ok_def view_def)

lemma asks_config: "length d = length (config_buf u') \<Longrightarrow> asks hw at u rs (u'\<lparr>config_buf := d\<rparr>) = asks hw at u rs u'"
  by (simp add: asks_def ctx_ok_def view_def)

lemma setup_blind: "blind (in_setup at) ch"
  by (simp add: blind_def in_setup_def)

lemma asks_unseen: "unseen (in_setup at) hw u u' \<Longrightarrow> asks hw at u [] u'"
  by (auto simp: unseen_def asks_def ctx_ok_def packets_of_def same_usbD)

lemma asks_same: "same_usb hw u u' \<Longrightarrow> view (in_setup at) u' = view (in_setup at) u @ packets_of at rs \<Longrightarrow> asks hw at u rs u'"
  by (auto simp: asks_def ctx_ok_def same_usbD)

lemma asks_readl: "asks hw at u rs u' \<Longrightarrow> asks hw at u rs (snd (readl hw a u'))"
  by (rule asks_more [OF _ asks_unseen [OF readl_unseen [OF setup_blind]]])

lemma asks_writel: "asks hw at u rs u' \<Longrightarrow> asks hw at u rs (writel v a u')"
  by (rule asks_more, assumption) (simp add: asks_def ctx_ok_def writel_def PUT32_def view_def in_setup_def packets_of_def)

lemma asks_udelay: "asks hw at u rs u' \<Longrightarrow> asks hw at u rs (udelay n u')"
  by (rule asks_more [OF _ asks_unseen [OF udelay_unseen [OF setup_blind]]])

lemma spin_kept: "spin n hw a P h = Some (v, h') \<Longrightarrow> filter (in_setup at) h' = filter (in_setup at) h \<and> (explains hw h \<longrightarrow> explains hw h')"
  by (induction n arbitrary: h) (auto simp: GET32_def rd_def in_setup_def split: if_splits)

lemma asks_spin: "spin_on n hw a P u' = Some u'' \<Longrightarrow> asks hw at u rs u' \<Longrightarrow> asks hw at u rs u''"
  by (rule asks_more, assumption)
    (auto simp: spin_on_def asks_def ctx_ok_def view_def packets_of_def dest: spin_kept [of _ _ _ _ _ _ _ at])

lemmas asks_steps = asks_readl asks_writel asks_udelay asks_refl

text \<open>Writes beside the setup buffer.\<close>

lemma far_write:
  assumes "8 \<le> d" "d < 4294967296"
  shows "\<not> in_setup at (Wr (Mem (at + of_nat d)) v)"
proof -
  have "unat (of_nat d :: u32) = d" using assms(2) by (simp add: unat_of_nat take_bit_eq_mod)
  then show ?thesis using assms(1) by (simp add: in_setup_def word_less_nat_alt)
qed

lemma far_bytes: "8 \<le> d \<Longrightarrow> d + length bs < 4294967296 \<Longrightarrow> filter (in_setup at) (writes_to (at + of_nat d) bs) = []"
proof (induction bs arbitrary: d)
  case (Cons b bs)
  have a: "at + of_nat d + 1 = at + of_nat (Suc d)" by simp
  show ?case unfolding writes_to.simps a using Cons.IH [of "Suc d"] Cons.prems far_write [of d at] by (simp del: of_nat_Suc)
qed simp

lemma far_words:
  "8 \<le> d \<Longrightarrow> d + 4 * length ws < 4294967296 \<Longrightarrow> dma_at u = at \<Longrightarrow> asks hw at u [] (words_out (at + of_nat d) ws u)"
proof (induction ws arbitrary: d u)
  case (Cons w ws)
  have a: "at + of_nat d + 4 = at + of_nat (d + 4)" by simp
  have "asks hw at u [] (mem_write (at + of_nat d) w u)"
    using far_write [of d at w] Cons.prems by (simp add: asks_def ctx_ok_def mem_write_def view_def packets_of_def)
  then show ?case using Cons.IH [of "d + 4" "mem_write (at + of_nat d) w u"] Cons.prems asks_more
    by (simp add: a mem_write_def del: of_nat_add)
qed (simp add: asks_refl)

section \<open>Stages and transfers\<close>

lemma start_asks: "asks hw at u [] (usb_transfer_channel_start hw ch devaddr ep eptype dir mps pid xfersize 1 dma_addr u)"
  using transfer_start_hidden [OF setup_blind [of at ch], of hw u devaddr ep eptype dir mps pid xfersize dma_addr]
  by (intro asks_same) (simp_all add: armed_def in_setup_def packets_of_def)

lemma wait_asks: "asks hw at u rs u' \<Longrightarrow> asks hw at u rs (snd (usb_transfer_channel_wait hw ch u'))"
  by (rule asks_more [OF _ asks_unseen [OF transfer_wait_unseen [OF setup_blind]]])

lemma setup_in_buffer: "filter (in_setup at) (writes_to at (setup_bytes s)) = writes_to at (setup_bytes s)"
  by (simp add: setup_bytes_def in_setup_def)

lemma setup_asks:
  assumes "dma_at u = at"
  shows "asks hw at u [s] (snd (usb_setup_stage_dma_xfer hw devaddr s u))"
proof -
  have "asks hw at u [s] (bytes_out at (setup_bytes s) u)"
    using bytes_out_view [of hw u at "setup_bytes s" "in_setup at"] by (intro asks_same) (simp_all add: setup_in_buffer packets_of_def)
  then show ?thesis unfolding usb_setup_stage_dma_xfer_def Let_def setup_buf_def assms by (intro wait_asks asks_more [OF _ start_asks])
qed

lemma status_asks: "asks hw at u [] (snd (do_status_out_stage hw devaddr u))" "asks hw at u [] (snd (usb_setup_stage_dma_status_in hw devaddr u))"
  unfolding do_status_out_stage_def usb_setup_stage_dma_status_in_def by (intro wait_asks start_asks)+

lemma data_buffer_asks:
  assumes "ctx_ok at u" "length bs \<le> 64"
  shows "asks hw at u [] (bytes_out (data_buf u (data_buf_idx u)) bs (u\<lparr>data_buf_idx := (data_buf_idx u + 1) mod 16\<rparr>))"
proof -
  have d: "data_buf u (data_buf_idx u) = at + of_nat (32 + 64 * data_buf_idx u)" using assms(1) by (simp add: data_buf_def ctx_ok_def)
  have f: "filter (in_setup at) (writes_to (data_buf u (data_buf_idx u)) bs) = []"
    unfolding d using assms by (intro far_bytes) (simp_all add: ctx_ok_def)
  let ?v = "u\<lparr>data_buf_idx := (data_buf_idx u + 1) mod 16\<rparr>"
  have 1: "asks hw at u [] ?v" using assms(1) by (simp add: asks_def ctx_ok_def view_def packets_of_def)
  have 2: "asks hw at ?v [] (bytes_out (data_buf u (data_buf_idx u)) bs ?v)"
    by (rule asks_same [OF conjunct1 [OF bytes_out_view]]) (simp only: conjunct2 [OF bytes_out_view] f packets_of_def list.map concat.simps)
  show ?thesis by (rule asks_more [OF 1 2])
qed

lemma data_in_asks:
  "data_in_packets n hw devaddr len pid off (dst, u) = Some (ret, dst', u') \<Longrightarrow> ctx_ok at u \<Longrightarrow> asks hw at u [] u' \<and> length dst' = length dst"
proof (induction n arbitrary: pid off dst u)
  case (Suc n)
  show ?case
  proof (cases "off < len")
    case False
    then show ?thesis using Suc.prems(1) by (simp add: asks_refl)
  next
    case True
    define chunk where "chunk = (if len - off > ucast (max_packet_size u) then ucast (max_packet_size u) else len - off)"
    define a where "a = data_buf u (data_buf_idx u)"
    define u1 where "u1 = u\<lparr>data_buf_idx := (data_buf_idx u + 1) mod 16\<rparr>"
    define u2 where "u2 = bytes_out a (replicate 64 0xCC) u1"
    define u3 where "u3 = usb_transfer_channel_start hw CH_CONTROL_IN devaddr 0 EP_TYPE_CONTROL True (ucast (max_packet_size u2)) pid
      chunk 1 (BUS_ADDRESS a) u2"
    obtain ret0 u4 where w: "usb_transfer_channel_wait hw CH_CONTROL_IN u3 = (ret0, u4)" by fastforce
    obtain z u5 where z: "readl hw (HCTSIZ CH_CONTROL_IN) u4 = (z, u5)" by fastforce
    define received where "received = chunk - (z AND HCTSIZ_XFERSIZE_MASK)"
    obtain bs u6 where b: "bytes_in hw a (unat received) u5 = (bs, u6)" by fastforce
    note step = Suc.prems(1) [unfolded data_in_packets.simps Let_def, folded chunk_def a_def u1_def, folded u2_def, folded u3_def,
        unfolded w prod.case z, folded received_def, unfolded b prod.case]
    have 2: "asks hw at u [] u2" unfolding u2_def a_def u1_def by (rule data_buffer_asks [OF Suc.prems(2)]) simp
    have 3: "asks hw at u [] u3" unfolding u3_def by (rule asks_more [OF 2 start_asks])
    have 4: "asks hw at u [] u4" using wait_asks [OF 3, of CH_CONTROL_IN] w by simp
    have 5: "asks hw at u [] u5" using asks_readl [OF 4, of "HCTSIZ CH_CONTROL_IN"] z by simp
    have rf: "filter (in_setup at) (reads_from m vs) = []" for m vs by (induction vs arbitrary: m) (simp_all add: in_setup_def)
    have "asks hw at u5 [] u6" using bytes_in_view [OF b] by (auto intro!: asks_same simp: rf packets_of_def)
    then have 6: "asks hw at u [] u6" by (rule asks_more [OF 5])
    then have ok6: "ctx_ok at u6" using Suc.prems(2) by (simp add: asks_def)
    have lb: "length (blit dst (unat off) bs) = length dst" if "\<not> length dst < unat off + unat received"
      using that bytes_in_view [OF b] by auto
    consider "u' = u5" "dst' = dst" | "u' = u6" "dst' = blit dst (unat off) bs" "\<not> length dst < unat off + unat received"
      | "data_in_packets n hw devaddr len (if pid = PID_DATA0 then PID_DATA1 else PID_DATA0) (off + received) (blit dst (unat off) bs, u6)
          = Some (ret, dst', u')" "\<not> length dst < unat off + unat received"
      using step True by (auto split: if_splits)
    then show ?thesis using 5 6 lb Suc.IH [OF _ ok6] asks_more [OF 6] by cases auto
  qed
qed simp

lemma data_out_asks:
  assumes "usb_dma_data_out hw devaddr src len u = Some (ret, u')" "ctx_ok at u"
  shows "asks hw at u [] u'"
proof (cases "len = 0")
  case True
  then show ?thesis using assms(1) by (simp add: usb_dma_data_out_def asks_refl)
next
  case False
  let ?u2 = "bytes_out (data_buf u (data_buf_idx u)) (take (unat len) src) (u\<lparr>data_buf_idx := (data_buf_idx u + 1) mod 16\<rparr>)"
  have l: "\<not> (64 < len \<or> length src < unat len)" using assms(1) False by (auto simp: usb_dma_data_out_def split: if_splits)
  then have "length (take (unat len) src) \<le> 64" by (simp add: word_less_nat_alt)
  then have 2: "asks hw at u [] ?u2" by (rule data_buffer_asks [OF assms(2)])
  have "u' = snd (usb_transfer_channel_wait hw CH_CONTROL_OUT (usb_transfer_channel_start hw CH_CONTROL_OUT devaddr 0 EP_TYPE_CONTROL False
      (ucast (max_packet_size ?u2)) PID_DATA1 len 1 (BUS_ADDRESS (data_buf u (data_buf_idx u))) ?u2))"
    using assms(1) False l by (auto simp: usb_dma_data_out_def Let_def)
  then show ?thesis using wait_asks [OF asks_more [OF 2 start_asks]] by simp
qed

text \<open>A stage that is tried several times sends its request as often.\<close>

lemma retry_asks:
  assumes "retry n again pause f s = Some (ret, s')" "ctx_ok at (ctx s)"
    and "\<And>s r s1. f s = Some (r, s1) \<Longrightarrow> ctx_ok at (ctx s) \<Longrightarrow> asks hw at (ctx s) rs (ctx s1)"
    and "\<And>s. asks hw at (ctx s) [] (ctx (pause s))"
  shows "\<exists>k. 1 \<le> k \<and> k \<le> n \<and> asks hw at (ctx s) (concat (replicate k rs)) (ctx s')"
  using assms(1,2)
proof (induction n arbitrary: s)
  case (Suc n)
  obtain r s1 where f: "f s = Some (r, s1)"
    and more: "(if r = 0 \<or> \<not> again r then Some (r, s1) else if n = 0 then Some (r, pause s1) else retry n again pause f (pause s1)) = Some (ret, s')"
    using Suc.prems(1) by (auto simp: bind_eq_Some_conv)
  have 1: "asks hw at (ctx s) rs (ctx s1)" by (rule assms(3) [OF f Suc.prems(2)])
  have 2: "asks hw at (ctx s) rs (ctx (pause s1))" by (rule asks_more [OF 1 assms(4)])
  have ok2: "ctx_ok at (ctx (pause s1))" using 2 Suc.prems(2) by (simp add: asks_def)
  consider "s' = s1" | "s' = pause s1" | "retry n again pause f (pause s1) = Some (ret, s')" "n \<noteq> 0" using more by (auto split: if_splits)
  then show ?case
  proof cases
    case 3
    obtain k where "1 \<le> k" "k \<le> n" "asks hw at (ctx (pause s1)) (concat (replicate k rs)) (ctx s')" using Suc.IH [OF 3(1) ok2] by blast
    then show ?thesis using asks_trans [OF 2] by (intro exI [of _ "Suc k"]) simp
  qed (use 1 2 in \<open>auto intro!: exI [of _ 1]\<close>)
qed simp

lemma retry_silent:
  assumes "retry n again pause f s = Some (ret, s')" "ctx_ok at (ctx s)"
    and "\<And>s r s1. f s = Some (r, s1) \<Longrightarrow> ctx_ok at (ctx s) \<Longrightarrow> asks hw at (ctx s) [] (ctx s1)"
    and "\<And>s. asks hw at (ctx s) [] (ctx (pause s))"
  shows "asks hw at (ctx s) [] (ctx s')"
proof -
  have "\<exists>k. 1 \<le> k \<and> k \<le> n \<and> asks hw at (ctx s) (concat (replicate k [])) (ctx s')" by (rule retry_asks) (fact assms)+
  then obtain k where "asks hw at (ctx s) (concat (replicate k [])) (ctx s')" by blast
  moreover have "concat (replicate k []) = []" by (induction k) simp_all
  ultimately show ?thesis by simp
qed

lemma retry_keeps:
  assumes "retry n again pause f s = Some (ret, s')" "Q s" "\<And>s r s1. f s = Some (r, s1) \<Longrightarrow> Q s \<Longrightarrow> Q s1" "\<And>s. Q s \<Longrightarrow> Q (pause s)"
  shows "Q s'"
  using assms(1,2)
proof (induction n arbitrary: s)
  case (Suc n)
  obtain r s1 where f: "f s = Some (r, s1)"
    and more: "(if r = 0 \<or> \<not> again r then Some (r, s1) else if n = 0 then Some (r, pause s1) else retry n again pause f (pause s1)) = Some (ret, s')"
    using Suc.prems(1) by (auto simp: bind_eq_Some_conv)
  have "Q s1" by (rule assms(3) [OF f Suc.prems(2)])
  then show ?case using more assms(4) Suc.IH by (auto split: if_splits)
qed simp

definition asked :: "hardware \<Rightarrow> u32 \<Rightarrow> usb_context \<Rightarrow> usb_setup \<Rightarrow> usb_context \<Rightarrow> bool" where
  "asked hw at u s u' \<longleftrightarrow> (\<exists>k. 1 \<le> k \<and> k \<le> 100 \<and> asks hw at u (replicate k s) u')"

lemma asked_more: "asked hw at u s a \<Longrightarrow> asks hw at a [] b \<Longrightarrow> asked hw at u s b"
  unfolding asked_def using asks_more by blast

lemma asked_ok: "asked hw at u s u' \<Longrightarrow> ctx_ok at u \<Longrightarrow> ctx_ok at u'"
  by (auto simp: asked_def asks_def)

lemma asked_length: "asked hw at u s u' \<Longrightarrow> ctx_ok at u \<Longrightarrow> length (config_buf u') = length (config_buf u)"
  by (auto simp: asked_def asks_def)

lemma setup_stage_asked:
  assumes "setup_stage hw devaddr s u = Some (ret, u')" "ctx_ok at u"
  shows "asked hw at u s u'"
proof -
  have "\<exists>k. 1 \<le> k \<and> k \<le> 100 \<and> asks hw at (id u) (concat (replicate k [s])) (id u')"
  proof (rule retry_asks [where ctx = id and f = "\<lambda>v. Some (usb_setup_stage_dma_xfer hw devaddr s v)" and pause = "udelay 1000"])
    show "retry 100 (\<lambda>r. r = - 3) (udelay 1000) (\<lambda>v. Some (usb_setup_stage_dma_xfer hw devaddr s v)) u = Some (ret, u')"
      using assms(1) by (simp add: setup_stage_def)
    fix v r v1 assume v: "Some (usb_setup_stage_dma_xfer hw devaddr s v) = Some (r, v1)" "ctx_ok at (id v)"
    then have "v1 = snd (usb_setup_stage_dma_xfer hw devaddr s v)" "dma_at v = at" by (auto simp: ctx_ok_def)
    then show "asks hw at (id v) [s] (id v1)" by (simp add: setup_asks)
  qed (simp_all add: assms(2) asks_udelay asks_refl)
  then show ?thesis by (auto simp: asked_def concat_replicate_single)
qed

lemma silent_udelay: "asked hw at u s u' \<Longrightarrow> asked hw at u s (udelay n u')"
  by (rule asked_more [OF _ asks_udelay [OF asks_refl]])

lemma control_in_asked:
  assumes "usb_control_in n hw devaddr s len (dst, u) = Some (ret, dst', u')" "ctx_ok at u"
  shows "asked hw at u s u' \<and> length dst' = length dst"
proof -
  obtain r1 u1 where 1: "setup_stage hw devaddr s u = Some (r1, u1)"
    using assms(1) by (auto simp: usb_control_in_def bind_eq_Some_conv)
  have a1: "asked hw at u s u1" by (rule setup_stage_asked [OF 1 assms(2)])
  show ?thesis
  proof (cases "r1 = 0")
    case False
    then show ?thesis using assms(1) 1 a1 by (simp add: usb_control_in_def)
  next
    case True
    let ?data = "if len > 0 then retry 500 (\<lambda>r. r = - 3) (map_prod id (udelay 1000)) (usb_setup_stage_dma_data_in n hw devaddr (ucast len)) (dst, udelay 2000 u1)
      else Some (0, dst, udelay 2000 u1)"
    obtain r2 d2 u2 where 2: "?data = Some (r2, d2, u2)"
      using assms(1) 1 True by (auto simp: usb_control_in_def bind_eq_Some_conv)
    have a1': "asked hw at u s (udelay 2000 u1)" by (rule silent_udelay [OF a1])
    have ok1: "ctx_ok at (udelay 2000 u1)" by (rule asked_ok [OF a1' assms(2)])
    have data: "asks hw at (udelay 2000 u1) [] u2 \<and> length d2 = length dst"
    proof (cases "len > 0")
      case False
      then show ?thesis using 2 by (simp add: asks_refl)
    next
      case l: True
      have "asks hw at (snd (dst, udelay 2000 u1)) [] (snd (d2, u2))"
      proof (rule retry_silent [where ctx = snd])
        show "retry 500 (\<lambda>r. r = - 3) (map_prod id (udelay 1000)) (usb_setup_stage_dma_data_in n hw devaddr (ucast len)) (dst, udelay 2000 u1) = Some (r2, d2, u2)"
          using 2 l by simp
        fix v r v1 assume "usb_setup_stage_dma_data_in n hw devaddr (ucast len) v = Some (r, v1)" "ctx_ok at (snd v)"
        then show "asks hw at (snd v) [] (snd v1)"
          by (cases v; cases v1) (auto simp: usb_setup_stage_dma_data_in_def asks_refl dest: data_in_asks split: if_splits)
      qed (simp_all add: ok1 asks_udelay asks_refl)
      moreover have "length (fst (d2, u2)) = length dst \<and> ctx_ok at (snd (d2, u2))"
      proof (rule retry_keeps [where Q = "\<lambda>v. length (fst v) = length dst \<and> ctx_ok at (snd v)"])
        show "retry 500 (\<lambda>r. r = - 3) (map_prod id (udelay 1000)) (usb_setup_stage_dma_data_in n hw devaddr (ucast len)) (dst, udelay 2000 u1) = Some (r2, d2, u2)"
          using 2 l by simp
        fix v r v1 assume "usb_setup_stage_dma_data_in n hw devaddr (ucast len) v = Some (r, v1)" "length (fst v) = length dst \<and> ctx_ok at (snd v)"
        then show "length (fst v1) = length dst \<and> ctx_ok at (snd v1)"
          by (cases v; cases v1) (auto simp: usb_setup_stage_dma_data_in_def asks_def dest: data_in_asks split: if_splits)
      qed (use ok1 in \<open>simp_all add: ctx_ok_def udelay_def\<close>)
      ultimately show ?thesis by simp
    qed
    then have a2: "asked hw at u s u2" and l2: "length d2 = length dst" using asked_more [OF a1'] by blast+
    show ?thesis
    proof (cases "r2 = 0")
      case False
      then show ?thesis using assms(1) 1 True 2 a2 l2 by (simp add: usb_control_in_def)
    next
      case r2: True
      obtain r3 u3 where 3: "retry 100 (\<lambda>r. r = - 3) (udelay 1000) (\<lambda>v. Some (do_status_out_stage hw devaddr v)) (udelay 2000 u2) = Some (r3, u3)"
        and e: "u' = u3" "dst' = d2" using assms(1) 1 True 2 r2 by (auto simp: usb_control_in_def bind_eq_Some_conv)
      have a2': "asked hw at u s (udelay 2000 u2)" by (rule silent_udelay [OF a2])
      have "asks hw at (id (udelay 2000 u2)) [] (id u3)"
      proof (rule retry_silent [where ctx = id, OF 3])
        fix v r v1 assume "Some (do_status_out_stage hw devaddr v) = Some (r, v1)"
        then show "asks hw at (id v) [] (id v1)" using status_asks(1) [of hw at v devaddr] by simp
      qed (simp_all add: asked_ok [OF a2' assms(2)] asks_udelay asks_refl)
      then show ?thesis using asked_more [OF a2'] e l2 by simp
    qed
  qed
qed

lemma status_in_silent:
  assumes "retry n again (udelay m) (\<lambda>v. Some (usb_setup_stage_dma_status_in hw devaddr v)) u = Some (ret, u')" "ctx_ok at u"
  shows "asks hw at u [] u'"
proof -
  have "asks hw at (id u) [] (id u')"
  proof (rule retry_silent [where ctx = id, OF assms(1)])
    fix v r v1 assume "Some (usb_setup_stage_dma_status_in hw devaddr v) = Some (r, v1)"
    then show "asks hw at (id v) [] (id v1)" using status_asks(2) [of hw at v devaddr] by simp
  qed (simp_all add: assms(2) asks_udelay asks_refl)
  then show ?thesis by simp
qed

lemma status_stage_silent: "status_in_stage hw devaddr u = Some (ret, u') \<Longrightarrow> ctx_ok at u \<Longrightarrow> asks hw at u [] u'"
  by (auto simp: status_in_stage_def bind_eq_Some_conv dest: status_in_silent)

lemma control_out_asked:
  assumes "usb_control_out_nodata hw devaddr s u = Some (ret, u') \<or> usb_control_out_data hw devaddr s dat len u = Some (ret, u')" "ctx_ok at u"
  shows "asked hw at u s u'"
proof -
  obtain r1 u1 where 1: "setup_stage hw devaddr s u = Some (r1, u1)"
    using assms(1) by (auto simp: usb_control_out_nodata_def usb_control_out_data_def bind_eq_Some_conv)
  have a1: "asked hw at u s u1" by (rule setup_stage_asked [OF 1 assms(2)])
  have later: "asked hw at u s (udelay m v)" "ctx_ok at (udelay m v)" if "asked hw at u s v" for v m
    using silent_udelay [OF that] asked_ok [OF silent_udelay [OF that] assms(2)] by blast+
  show ?thesis
  proof (cases "r1 = 0")
    case False
    then show ?thesis using assms(1) 1 a1 by (auto simp: usb_control_out_nodata_def usb_control_out_data_def)
  next
    case True
    consider "status_in_stage hw devaddr (udelay 5000 u1) = Some (ret, u')"
      | r2 u2 where "retry 100 (\<lambda>r. r = - 3) (udelay 1000) (usb_dma_data_out hw devaddr dat (ucast len)) (udelay 2000 u1) = Some (r2, u2)"
          "u' = u2 \<or> status_in_stage hw devaddr (udelay 2000 u2) = Some (ret, u')"
      using assms(1) 1 True by (auto simp: usb_control_out_nodata_def usb_control_out_data_def bind_eq_Some_conv split: if_splits)
    then show ?thesis
    proof cases
      case 1
      then show ?thesis using asked_more [OF later(1) [OF a1]] status_stage_silent [OF _ later(2) [OF a1]] by blast
    next
      case 2
      have "asks hw at (id (udelay 2000 u1)) [] (id u2)"
        by (rule retry_silent [where ctx = id, OF 2(1)]) (auto simp: later(2) [OF a1] asks_udelay asks_refl dest: data_out_asks)
      then have a2: "asked hw at u s u2" using asked_more [OF later(1) [OF a1]] by simp
      then show ?thesis using 2(2) asked_more [OF later(1) [OF a2]] status_stage_silent [OF _ later(2) [OF a2]] by blast
    qed
  qed
qed

lemma set_address_asked:
  assumes "usb_set_address hw new_addr u = Some (ret, u')" "ctx_ok at u"
  shows "asked hw at u \<lparr>bmRequestType = 0, bRequest = 5, wValue = ucast new_addr, wIndex = 0, wLength = 0\<rparr> u'"
proof -
  let ?s = "\<lparr>bmRequestType = 0, bRequest = 5, wValue = ucast new_addr, wIndex = 0, wLength = 0\<rparr>"
  obtain r1 u1 where 1: "setup_stage hw 0 ?s u = Some (r1, u1)"
    using assms(1) by (auto simp: usb_set_address_def bind_eq_Some_conv)
  have a1: "asked hw at u ?s u1" by (rule setup_stage_asked [OF 1 assms(2)])
  have later: "asked hw at u ?s (udelay m v)" "ctx_ok at (udelay m v)" if "asked hw at u ?s v" for v m
    using silent_udelay [OF that] asked_ok [OF silent_udelay [OF that] assms(2)] by blast+
  show ?thesis
  proof (cases "r1 = 0")
    case False
    then show ?thesis using assms(1) 1 a1 by (simp add: usb_set_address_def)
  next
    case True
    obtain r2 u2 where 2: "retry 20 (\<lambda>r. r = - 3 \<or> r = - 1) (udelay 1000) (\<lambda>v. Some (usb_setup_stage_dma_status_in hw 0 v)) (udelay 5000 u1) = Some (r2, u2)"
      and more: "(if r2 = 0 then Some (0, udelay 5000 u2) else
        Option.bind (retry 20 (\<lambda>r. r = - 3 \<or> r = - 1) (udelay 1000) (\<lambda>v. Some (usb_setup_stage_dma_status_in hw new_addr v)) (udelay 10000 u2))
          (\<lambda>(ret3, u3). if ret3 = 0 then Some (0, u3) else Some (0, udelay 5000 u3))) = Some (ret, u')"
      using assms(1) 1 True by (auto simp: usb_set_address_def bind_eq_Some_conv)
    have a2: "asked hw at u ?s u2" using asked_more [OF later(1) [OF a1]] status_in_silent [OF 2 later(2) [OF a1]] by blast
    show ?thesis
    proof (cases "r2 = 0")
      case True
      then have "u' = udelay 5000 u2" using more by simp
      then show ?thesis using later(1) [OF a2] by simp
    next
      case False
      then obtain r3 u3 where 3: "retry 20 (\<lambda>r. r = - 3 \<or> r = - 1) (udelay 1000) (\<lambda>v. Some (usb_setup_stage_dma_status_in hw new_addr v)) (udelay 10000 u2) = Some (r3, u3)"
        and e: "u' = u3 \<or> u' = udelay 5000 u3" using more by (auto simp: bind_eq_Some_conv split: if_splits)
      have "asked hw at u ?s u3" using asked_more [OF later(1) [OF a2]] status_in_silent [OF 3 later(2) [OF a2]] by blast
      then show ?thesis using e later(1) by auto
    qed
  qed
qed

section \<open>The enumeration\<close>

text \<open>The controller sends nothing while it is set up.\<close>

lemma power_on_asks: "usb_power_on n hw u = Some (b, u') \<Longrightarrow> dma_at u = at \<Longrightarrow> asks hw at u [] u'"
proof -
  assume a: "usb_power_on n hw u = Some (b, u')" "dma_at u = at"
  let ?u1 = "words_out (mbox_buf u) [8 * 4, 0, RPI_FIRMWARE_SET_POWER_STATE, 8, 0, 3, push_bit 0 1 OR push_bit 1 1, 0] u"
  have m: "mbox_buf u = at + of_nat 5184" by (simp add: mbox_buf_def a(2))
  have 1: "asks hw at u [] ?u1" unfolding m by (rule far_words) (simp_all add: a(2))
  obtain u2 u3 where 2: "spin_on n hw (MAILBOX + 0x18) (\<lambda>v. v AND MAILBOX_FULL = 0) ?u1 = Some u2"
    and 3: "spin_on n hw (MAILBOX + 0x18) (\<lambda>v. v AND MAILBOX_EMPTY = 0) (writel ((mbox_buf u AND NOT 0xF) OR 8) (MAILBOX + 0x20) u2) = Some u3"
    and u': "u' = snd (mem_read hw (mbox_buf u + 4) (snd (readl hw MAILBOX u3)))"
    using a(1) by (auto simp: usb_power_on_def Let_def bind_eq_Some_conv case_prod_beta)
  have 4: "asks hw at u [] (snd (readl hw MAILBOX u3))"
    by (intro asks_readl asks_spin [OF 3] asks_writel asks_spin [OF 2] 1)
  have "asks hw at (snd (readl hw MAILBOX u3)) [] u'"
    by (simp add: u' mem_read_def rd_def asks_def ctx_ok_def view_def in_setup_def packets_of_def)
  then show ?thesis by (rule asks_more [OF 4])
qed

lemma core_reset_asks:
  assumes "usb_core_reset n hw v = Some v'" "asks hw at u rs v"
  shows "asks hw at u rs v'"
proof -
  obtain w x where 1: "spin_on n hw GRSTCTL (\<lambda>v. v AND GRSTCTL_AHBIDLE \<noteq> 0) v = Some w"
    and 2: "spin_on n hw GRSTCTL (\<lambda>v. v AND GRSTCTL_CSRST = 0) (writel (fst (readl hw GRSTCTL w) OR GRSTCTL_CSRST) GRSTCTL (snd (readl hw GRSTCTL w))) = Some x"
    and "v' = udelay 100000 x"
    using assms(1) by (auto simp: usb_core_reset_def bind_eq_Some_conv case_prod_beta)
  then show ?thesis by (simp, intro asks_udelay asks_spin [OF 2] asks_writel asks_readl asks_spin [OF 1] assms(2))
qed

lemma host_mode_asks:
  assumes "usb_force_host_mode n hw u = Some u'"
  shows "asks hw at u [] u'"
proof -
  let ?d = "\<lambda>r. snd (readl hw GUSBCFG r)"
  obtain c1 c2 c3 v where r: "usb_core_reset n hw (udelay 200000 (writel c2 GUSBCFG (?d (udelay 50000 (writel c1 GUSBCFG
      (?d (udelay 10000 (writel 0 GINTMSK (udelay 100000 (writel 0 GOTGCTL (udelay 100000 (writel 0 GAHBCFG u)))))))))))) = Some v"
    and u': "u' = udelay 500000 (writel c3 GUSBCFG (?d v))"
    using assms by (auto simp: usb_force_host_mode_def Let_def bind_eq_Some_conv case_prod_beta)
  have "asks hw at u [] v" by (rule core_reset_asks [OF r]) (intro asks_steps)
  then show ?thesis unfolding u' by (intro asks_udelay asks_writel asks_readl)
qed

lemma flush_asks:
  "usb_flush_tx_fifo n hw f v = Some v' \<Longrightarrow> asks hw at u rs v \<Longrightarrow> asks hw at u rs v'"
  "usb_flush_rx_fifo n hw v = Some v' \<Longrightarrow> asks hw at u rs v \<Longrightarrow> asks hw at u rs v'"
  by (auto simp: usb_flush_tx_fifo_def usb_flush_rx_fifo_def bind_eq_Some_conv intro!: asks_udelay elim!: asks_spin asks_writel)

lemma host_init_asks:
  assumes "usb_host_init n hw u = Some u'"
  shows "asks hw at u [] u'"
proof -
  obtain v w where 1: "usb_flush_tx_fifo n hw 0x10 (writel (push_bit 16 1024 OR 2048) HPTXFSIZ (writel (push_bit 16 1024 OR 1024) GNPTXFSIZ
      (writel 1024 GRXFSIZ (writel 48000 HFIR (writel (push_bit 0 1) HCFG (udelay 10000 (writel 0 ARM_USB_POWER u))))))) = Some v"
    and 2: "usb_flush_rx_fifo n hw v = Some w"
    and u': "u' = udelay 50000 (writel (push_bit 25 1 OR push_bit 3 1 OR push_bit 24 1) GINTMSK
      (writel (push_bit 0 1 OR push_bit 1 1 OR push_bit 2 1 OR push_bit 3 1) HAINTMSK
        (writel (GAHBCFG_GLBLINTRMSK OR GAHBCFG_DMAEN OR GAHBCFG_HBSTLEN_INCR4) GAHBCFG w)))"
    using assms by (auto simp: usb_host_init_def Let_def bind_eq_Some_conv)
  show ?thesis unfolding u' by (intro asks_udelay asks_writel flush_asks(2) [OF 2] flush_asks(1) [OF 1] asks_refl)
qed

lemma wait_device_asks: "wait_device n hw v = Some v' \<Longrightarrow> asks hw at u rs v \<Longrightarrow> asks hw at u rs v'"
proof (induction n arbitrary: v)
  case (Suc n)
  obtain x w where r: "readl hw HPRT v = (x, w)" by fastforce
  have w: "asks hw at u rs w" using asks_readl [OF Suc.prems(2), of HPRT] r by simp
  show ?case using Suc.prems(1) Suc.IH [OF _ asks_udelay [OF w]] w by (auto simp: r split: if_splits)
qed simp

lemma port_reset_asks: "asks hw at u rs v \<Longrightarrow> asks hw at u rs (usb_port_reset hw v)"
  unfolding usb_port_reset_def Let_def case_prod_beta asks_fields by (intro asks_readl asks_udelay asks_writel)

lemma start_controller_asks:
  assumes "start_controller n hw u = Some u'" "dma_at u = at"
  shows "asks hw at u [] u'"
proof -
  obtain b u1 u2 u3 u4 where 1: "usb_power_on n hw u = Some (b, u1)" and 2: "usb_force_host_mode n hw (udelay 100000 u1) = Some u2"
    and 3: "usb_host_init n hw u2 = Some u3" and 4: "wait_device n hw (usb_port_power_on u3) = Some u4"
    and u': "u' = (usb_port_reset hw (udelay 200000 u4))\<lparr>max_packet_size := 8\<rparr>"
    using assms(1) by (auto simp: start_controller_def bind_eq_Some_conv split: if_splits)
  have "asks hw at u [] u3"
    by (rule asks_more [OF asks_more [OF asks_udelay [OF power_on_asks [OF 1 assms(2)]] host_mode_asks [OF 2]] host_init_asks [OF 3]])
  then have "asks hw at u [] (usb_port_power_on u3)" by (simp add: usb_port_power_on_def asks_udelay asks_writel)
  from wait_device_asks [OF 4 this] show ?thesis unfolding u' asks_fields by (intro port_reset_asks asks_udelay)
qed

text \<open>The requests in their order; the whole configuration is fetched only if its header came and gives a length that fits.\<close>

definition get_descriptor :: "u16 \<Rightarrow> u16 \<Rightarrow> usb_setup" where
  "get_descriptor kind len = \<lparr>bmRequestType = 0x80, bRequest = 6, wValue = kind, wIndex = 0, wLength = len\<rparr>"

definition enumeration :: "u16 option \<Rightarrow> usb_setup list" where
  "enumeration full =
     [\<lparr>bmRequestType = 0, bRequest = 5, wValue = 1, wIndex = 0, wLength = 0\<rparr>,
      get_descriptor 0x0100 8, get_descriptor 0x0100 18, get_descriptor 0x0200 9]
     @ (case full of None \<Rightarrow> [] | Some len \<Rightarrow> [get_descriptor 0x0200 len])
     @ [\<lparr>bmRequestType = 0, bRequest = 9, wValue = 1, wIndex = 0, wLength = 0\<rparr>,
        \<lparr>bmRequestType = 0x21, bRequest = 0x0B, wValue = 0, wIndex = 0, wLength = 0\<rparr>,
        \<lparr>bmRequestType = 0x21, bRequest = 0x09, wValue = 0x0200, wIndex = 0, wLength = 1\<rparr>]"

text \<open>A list of requests with the number of times each is sent.\<close>

definition repeated :: "usb_setup list \<Rightarrow> usb_setup list \<Rightarrow> bool" where
  "repeated rs sent \<longleftrightarrow> (\<exists>ks. length ks = length rs \<and> (\<forall>k \<in> set ks. 1 \<le> k \<and> k \<le> 100) \<and> sent = concat (map2 replicate ks rs))"

lemma repeated_nil: "repeated [] []"
  by (simp add: repeated_def)

lemma asked_snoc:
  assumes "asks hw at u sent v" "repeated rs sent" "asked hw at v s w"
  shows "\<exists>sent'. asks hw at u sent' w \<and> repeated (rs @ [s]) sent'"
proof -
  obtain k where k: "1 \<le> k" "k \<le> 100" "asks hw at v (replicate k s) w" using assms(3) by (auto simp: asked_def)
  obtain ks where ks: "length ks = length rs" "\<forall>k \<in> set ks. 1 \<le> k \<and> k \<le> 100" "sent = concat (map2 replicate ks rs)"
    using assms(2) by (auto simp: repeated_def)
  have "repeated (rs @ [s]) (sent @ replicate k s)"
    unfolding repeated_def by (rule exI [of _ "ks @ [k]"]) (use ks k in \<open>auto simp: zip_append\<close>)
  then show ?thesis using asks_trans [OF assms(1) k(3)] by blast
qed

definition progress :: "hardware \<Rightarrow> u32 \<Rightarrow> usb_context \<Rightarrow> usb_setup list \<Rightarrow> usb_context \<Rightarrow> bool" where
  "progress hw at u rs v \<longleftrightarrow> (\<exists>sent. asks hw at u sent v \<and> repeated rs sent)"

lemma progress_step: "progress hw at u rs v \<Longrightarrow> asked hw at v s w \<Longrightarrow> progress hw at u (rs @ [s]) w"
  unfolding progress_def using asked_snoc by blast

lemma progress_more: "progress hw at u rs v \<Longrightarrow> asks hw at v [] w \<Longrightarrow> progress hw at u rs w"
  unfolding progress_def using asks_more by blast

lemma progress_ok: "progress hw at u rs v \<Longrightarrow> ctx_ok at u \<Longrightarrow> ctx_ok at v"
  by (auto simp: progress_def asks_def)

lemma progress_fields [simp]:
  "progress hw at u rs (u'\<lparr>max_packet_size := m\<rparr>) = progress hw at u rs u'" "progress hw at u rs (u'\<lparr>hid := x\<rparr>) = progress hw at u rs u'"
  "progress hw at u rs (u'\<lparr>aux := x\<rparr>) = progress hw at u rs u'" "progress hw at u rs (u'\<lparr>dev_desc := d\<rparr>) = progress hw at u rs u'"
  by (simp_all add: progress_def)

lemma progress_config: "length d = length (config_buf v) \<Longrightarrow> progress hw at u rs (v\<lparr>config_buf := d\<rparr>) = progress hw at u rs v"
  by (simp add: progress_def asks_config)

lemma progress_length: "progress hw at u rs v \<Longrightarrow> ctx_ok at u \<Longrightarrow> length (config_buf v) = length (config_buf u)"
  by (auto simp: progress_def asks_def)

lemma progress_address: "progress hw at u rs v \<Longrightarrow> ctx_ok at u \<Longrightarrow> address v = address u"
  by (auto simp: progress_def asks_def)

lemma descriptor_progress:
  assumes "usb_control_in n hw devaddr s len (dst, v) = Some (ret, dst', w)" "progress hw at u rs v" "ctx_ok at u"
  shows "progress hw at u (rs @ [s]) w"
  by (rule progress_step [OF assms(2) conjunct1 [OF control_in_asked [OF assms(1) progress_ok [OF assms(2,3)]]]])

lemma find_endpoints_progress:
  assumes "find_endpoints n hw v = Some w" "progress hw at u rs v" "ctx_ok at u"
  shows "\<exists>full. progress hw at u (rs @ get_descriptor 0x0200 9 # (case full of None \<Rightarrow> [] | Some len \<Rightarrow> [get_descriptor 0x0200 len])) w
    \<and> (\<forall>len. full = Some len \<longrightarrow> len \<le> 256)"
proof -
  obtain ret cfg u1 where 1: "usb_get_config_descriptor n hw (address v) 9 (config_buf v, v) = Some (ret, cfg, u1)"
    using assms(1) by (auto simp: find_endpoints_def bind_eq_Some_conv)
  have p1: "progress hw at u (rs @ [get_descriptor 0x0200 9]) u1"
    using descriptor_progress [OF 1 [unfolded usb_get_config_descriptor_def] assms(2,3)] by (simp add: get_descriptor_def)
  have l1: "length cfg = length (config_buf u)"
    using control_in_asked [OF 1 [unfolded usb_get_config_descriptor_def] progress_ok [OF assms(2,3)]] progress_length [OF assms(2,3)] by simp
  let ?len = "u16_of (cfg ! 2) (cfg ! 3)"
  show ?thesis
  proof (cases "ret = 0 \<and> ?len \<le> 256")
    case False
    then have "w = u1\<lparr>config_buf := cfg\<rparr>"
      using assms(1) 1 by (auto simp: find_endpoints_def Let_def not_less split: if_splits)
    then show ?thesis using p1 l1 progress_length [OF p1 assms(3)] by (intro exI [of _ None]) (simp add: progress_config)
  next
    case True
    have nl: "\<not> 256 < ?len" using True by (simp add: not_less)
    obtain r2 cfg2 u2 where 2: "usb_get_config_descriptor n hw (address u1) ?len (cfg, u1) = Some (r2, cfg2, u2)"
      and "\<exists>s :: config_scan. w = u2\<lparr>config_buf := cfg2, hid := kb_ep s, aux := aux_ep s\<rparr>"
      using assms(1) 1 True nl by (auto simp: find_endpoints_def bind_eq_Some_conv Let_def simp del: not_less)
    then obtain s :: config_scan where w: "w = u2\<lparr>config_buf := cfg2, hid := kb_ep s, aux := aux_ep s\<rparr>" by blast
    have l2: "length cfg2 = length (config_buf u)"
      using control_in_asked [OF 2 [unfolded usb_get_config_descriptor_def] progress_ok [OF p1 assms(3)]] l1 by simp
    have p2: "progress hw at u ((rs @ [get_descriptor 0x0200 9]) @ [get_descriptor 0x0200 ?len]) u2"
      using descriptor_progress [OF 2 [unfolded usb_get_config_descriptor_def] p1 assms(3)] by (simp add: get_descriptor_def)
    then have "progress hw at u ((rs @ [get_descriptor 0x0200 9]) @ [get_descriptor 0x0200 ?len]) (u2\<lparr>config_buf := cfg2\<rparr>)"
      using l2 progress_length [OF p2 assms(3)] by (simp add: progress_config)
    then show ?thesis using True w by (intro exI [of _ "Some ?len"]) simp
  qed
qed

lemma enumeration_law:
  assumes "usb_hid_full_init n hw u = Some (ret, u')"
  shows "ret = 0 \<and> address u' = 1 \<and> dma_at u' = dma_at u \<and> (explains hw (bus u) \<longrightarrow> explains hw (bus u'))
    \<and> (\<exists>full sent. (\<forall>len. full = Some len \<longrightarrow> len \<le> 256) \<and> repeated (enumeration full) sent
        \<and> view (in_setup (dma_at u)) u' = view (in_setup (dma_at u)) u @ packets_of (dma_at u) sent)"
proof -
  define at where "at = dma_at u"
  define u0 where "u0 = usb_context_init u"
  have ok0: "ctx_ok at u0" by (simp add: ctx_ok_def at_def u0_def usb_context_init_def)
  obtain u1 r u2 u3 where 1: "start_controller n hw u0 = Some u1" and 2: "usb_set_address hw 1 u1 = Some (r, u2)"
    and 3: "read_descriptors n hw (u2\<lparr>address := 1\<rparr>) = Some u3" and 4: "configure_device hw u3 = Some u'" and ret: "ret = 0"
    using assms by (auto simp: usb_hid_full_init_def u0_def bind_eq_Some_conv split: if_splits)
  have a1: "asks hw at u0 [] u1" using start_controller_asks [OF 1] ok0 by (simp add: ctx_ok_def)
  then have ok1: "ctx_ok at u1" using ok0 by (simp add: asks_def)
  have a2: "asked hw at u1 \<lparr>bmRequestType = 0, bRequest = 5, wValue = 1, wIndex = 0, wLength = 0\<rparr> u2"
    using set_address_asked [OF 2 ok1] by simp
  have "progress hw at u0 [] u1" using a1 repeated_nil by (auto simp: progress_def)
  from progress_step [OF this a2]
  obtain sent0 where s0: "asks hw at u0 sent0 u2" "repeated [\<lparr>bmRequestType = 0, bRequest = 5, wValue = 1, wIndex = 0, wLength = 0\<rparr>] sent0"
    by (auto simp: progress_def)
  text \<open>From here on the device has its address; the start is the same with it.\<close>
  define w where "w = u0\<lparr>address := 1\<rparr>"
  have okw: "ctx_ok at w" using ok0 by (simp add: w_def ctx_ok_def)
  have "asks hw at w sent0 (u2\<lparr>address := 1\<rparr>)" using s0(1) ok0 by (auto simp: asks_def w_def ctx_ok_def view_def)
  then have p2: "progress hw at w [\<lparr>bmRequestType = 0, bRequest = 5, wValue = 1, wIndex = 0, wLength = 0\<rparr>] (u2\<lparr>address := 1\<rparr>)"
    using s0(2) by (auto simp: progress_def)
  obtain r5 d5 u5 r6 d6 u6 where 5: "usb_get_device_descriptor n hw 1 8 (replicate 18 0, u2\<lparr>address := 1\<rparr>) = Some (r5, d5, u5)"
    and 6: "usb_get_device_descriptor n hw (address u5) 18 (replicate 18 0, if r5 = 0 then u5\<lparr>max_packet_size := d5 ! 7\<rparr> else u5) = Some (r6, d6, u6)"
    and 7: "find_endpoints n hw (u6\<lparr>dev_desc := d6\<rparr>) = Some u3"
    using 3 by (auto simp: read_descriptors_def bind_eq_Some_conv Let_def split: if_splits)
  note p5 = descriptor_progress [OF 5 [unfolded usb_get_device_descriptor_def] p2 okw]
  then have "progress hw at w ([\<lparr>bmRequestType = 0, bRequest = 5, wValue = 1, wIndex = 0, wLength = 0\<rparr>] @ [get_descriptor 0x0100 8])
      (if r5 = 0 then u5\<lparr>max_packet_size := d5 ! 7\<rparr> else u5)" by (simp add: get_descriptor_def)
  note p6 = descriptor_progress [OF 6 [unfolded usb_get_device_descriptor_def] this okw]
  then have "progress hw at w [\<lparr>bmRequestType = 0, bRequest = 5, wValue = 1, wIndex = 0, wLength = 0\<rparr>, get_descriptor 0x0100 8, get_descriptor 0x0100 18]
      (u6\<lparr>dev_desc := d6\<rparr>)" by (simp add: get_descriptor_def)
  from find_endpoints_progress [OF 7 this okw] obtain full where full: "\<forall>len. full = Some len \<longrightarrow> len \<le> 256"
    and p7: "progress hw at w ([\<lparr>bmRequestType = 0, bRequest = 5, wValue = 1, wIndex = 0, wLength = 0\<rparr>, get_descriptor 0x0100 8, get_descriptor 0x0100 18]
      @ get_descriptor 0x0200 9 # (case full of None \<Rightarrow> [] | Some len \<Rightarrow> [get_descriptor 0x0200 len])) u3" by blast
  obtain r8 u8 r9 u9 r10 u10 where 8: "usb_set_configuration hw (address u3) 1 u3 = Some (r8, u8)"
    and 9: "usb_hid_set_protocol hw (address u8) 0 0 (udelay 50000 u8) = Some (r9, u9)"
    and 10: "usb_hid_set_report hw (address u9) 0 2 0 [1] 1 (udelay 50000 u9) = Some (r10, u10)" and u': "u' = udelay 50000 u10"
    using 4 by (auto simp: configure_device_def bind_eq_Some_conv udelay_def)
  note p8 = progress_step [OF p7 control_out_asked [OF disjI1 [OF 8 [unfolded usb_set_configuration_def]] progress_ok [OF p7 okw]]]
  note p8' = progress_more [OF p8 asks_udelay [OF asks_refl, of _ _ _ 50000]]
  obtain r9' where 9: "usb_control_out_nodata hw (address u8) \<lparr>bmRequestType = 0x21, bRequest = 0x0B, wValue = ucast (0 :: u8), wIndex = ucast (0 :: u8), wLength = 0\<rparr>
      (udelay 50000 u8) = Some (r9', u9)" using 9 by (auto simp: usb_hid_set_protocol_def bind_eq_Some_conv)
  note p9 = progress_step [OF p8' control_out_asked [OF disjI1 [OF 9] progress_ok [OF p8' okw]]]
  note p9' = progress_more [OF p9 asks_udelay [OF asks_refl, of _ _ _ 50000]]
  note p10 = progress_step [OF p9' control_out_asked [OF disjI2 [OF 10 [unfolded usb_hid_set_report_def]] progress_ok [OF p9' okw]]]
  note p11 = progress_more [OF p10 asks_udelay [OF asks_refl, of _ _ _ 50000], folded u']
  have fin: "progress hw at w (enumeration full) u'" using p11 by (simp add: enumeration_def)
  then obtain sent where sent: "asks hw at w sent u'" "repeated (enumeration full) sent" by (auto simp: progress_def)
  have base: "view (in_setup at) w = view (in_setup at) u" "bus w = bus u" "address w = 1"
    by (simp_all add: w_def u0_def usb_context_init_def view_def)
  have "address u' = 1 \<and> dma_at u' = at \<and> view (in_setup at) u' = view (in_setup at) u @ packets_of at sent
      \<and> (explains hw (bus u) \<longrightarrow> explains hw (bus u'))"
    using sent(1) okw base by (simp add: asks_def ctx_ok_def)
  then show ?thesis using ret full sent(2) unfolding at_def by blast
qed

text \<open>C37: The enumeration, for all hardware. If it returns, it reports success with the device at address 1, and the setup packets
  written to the setup buffer are, in this order and each between 1 and 100 times: set address 1, the device descriptor's
  first eight bytes, all eighteen, the configuration header, the whole configuration if its length fits the buffer, set
  configuration 1, the boot protocol and the report that lights the number lock.\<close>

theorem enumeration_order:
  assumes "usb_hid_full_init n hw u = Some (ret, u')"
  shows "ret = 0 \<and> address u' = 1 \<and> dma_at u' = dma_at u \<and> (explains hw (bus u) \<longrightarrow> explains hw (bus u'))
    \<and> (\<exists>full sent. (\<forall>len. full = Some len \<longrightarrow> len \<le> 256) \<and> repeated (enumeration full) sent
        \<and> view (in_setup (dma_at u)) u' = view (in_setup (dma_at u)) u @ packets_of (dma_at u) sent)"
  by (rule enumeration_law [OF assms])

section \<open>A run\<close>

lemma retry_first: "f s = Some (0, s1) \<Longrightarrow> 0 < n \<Longrightarrow> retry n again pause f s = Some (0, s1)"
  by (cases n) simp_all

lemma prompt_stages:
  "usb_setup_stage_dma_xfer prompt_usb devaddr s u = (0, snd (usb_setup_stage_dma_xfer prompt_usb devaddr s u))"
  "do_status_out_stage prompt_usb devaddr u = (0, snd (do_status_out_stage prompt_usb devaddr u))"
  "usb_setup_stage_dma_status_in prompt_usb devaddr u = (0, snd (usb_setup_stage_dma_status_in prompt_usb devaddr u))"
  using prompt_wait [OF prompt_usb(1)] prompt_wait [OF prompt_usb(2)]
  by (simp_all add: prod_eq_iff usb_setup_stage_dma_xfer_def do_status_out_stage_def usb_setup_stage_dma_status_in_def Let_def)

lemma stage_mps:
  "max_packet_size (snd (usb_setup_stage_dma_xfer hw devaddr s u)) = max_packet_size u"
  "max_packet_size (snd (do_status_out_stage hw devaddr u)) = max_packet_size u"
  "max_packet_size (snd (usb_setup_stage_dma_status_in hw devaddr u)) = max_packet_size u"
proof -
  have w: "max_packet_size (snd (usb_transfer_channel_wait hw ch v)) = max_packet_size v" for ch v by (rule same_usbD(3) [OF transfer_wait_law(1)])
  have t: "max_packet_size (usb_transfer_channel_start hw ch devaddr ep eptype dir mps pid xfersize 1 dma_addr v) = max_packet_size v"
    for ch devaddr ep eptype dir mps pid xfersize dma_addr v by (rule same_usbD(3) [OF transfer_start_law(1)])
  have b: "max_packet_size (bytes_out a bs v) = max_packet_size v" for a bs v by (rule same_usbD(3) [OF bytes_out_law(1)])
  show "max_packet_size (snd (usb_setup_stage_dma_xfer hw devaddr s u)) = max_packet_size u"
    "max_packet_size (snd (do_status_out_stage hw devaddr u)) = max_packet_size u"
    "max_packet_size (snd (usb_setup_stage_dma_status_in hw devaddr u)) = max_packet_size u"
    by (simp_all add: usb_setup_stage_dma_xfer_def do_status_out_stage_def usb_setup_stage_dma_status_in_def Let_def w t b)
qed

lemma prompt_setup: "\<exists>u'. setup_stage prompt_usb devaddr s u = Some (0, u') \<and> max_packet_size u' = max_packet_size u"
proof -
  have "setup_stage prompt_usb devaddr s u = Some (0, snd (usb_setup_stage_dma_xfer prompt_usb devaddr s u))"
    unfolding setup_stage_def by (rule retry_first) (simp_all add: prompt_stages(1) [symmetric])
  then show ?thesis by (simp add: stage_mps)
qed

lemma prompt_status:
  "0 < n \<Longrightarrow> \<exists>u'. retry n again (udelay m) (\<lambda>v. Some (usb_setup_stage_dma_status_in prompt_usb devaddr v)) u = Some (0, u')
     \<and> max_packet_size u' = max_packet_size u"
  using retry_first [of "\<lambda>v. Some (usb_setup_stage_dma_status_in prompt_usb devaddr v)"] prompt_stages(3) stage_mps(3) by blast

lemma prompt_status_stage: "\<exists>u'. status_in_stage prompt_usb devaddr u = Some (0, u')"
  using prompt_status [of 100 "\<lambda>r. r = - 3 \<or> r = - 2" 2000 devaddr u] by (auto simp: status_in_stage_def)

lemma prompt_control_in:
  assumes "0 < max_packet_size u" "max_packet_size u \<le> 64" "0 < len" "unat len \<le> length dst" "unat len < n" "ctx_ok 0xC6FF0020 u"
  shows "\<exists>dst' u'. usb_control_in n prompt_usb devaddr s len (dst, u) = Some (0, dst', u') \<and> max_packet_size u' = max_packet_size u
    \<and> length dst' = length dst \<and> (\<forall>j < min (unat len) (unat (max_packet_size u)). dst' ! j = of_nat (if j = 3 then 0 else j)) \<and> ctx_ok 0xC6FF0020 u'"
proof -
  obtain u1 where 1: "setup_stage prompt_usb devaddr s u = Some (0, u1)" and m1: "max_packet_size u1 = max_packet_size u"
    using prompt_setup by blast
  have ok1: "ctx_ok 0xC6FF0020 (udelay 2000 u1)" by (rule asked_ok [OF silent_udelay [OF setup_stage_asked [OF 1 assms(6)]] assms(6)])
  have l: "unat (ucast len :: u32) = unat len" by (rule unat_half)
  have nz: "(ucast len :: u32) \<noteq> 0" using assms(3) l by (metis unat_gt_0 unat_0 word_gt_0)
  let ?v = "udelay 2000 u1"
  have v: "max_packet_size ?v = max_packet_size u" using m1 by (simp add: udelay_def)
  have mem: "prompt_usb [] (Mem (data_buf ?v (data_buf_idx ?v) + of_nat j)) = of_nat (if j = 3 then 0 else j)" if "j < 64" for j
    using prompt_mem [of "data_buf_idx ?v" j "[]"] that ok1 by (simp add: ctx_ok_def data_buf_def)
  have mm: "unat (max_packet_size u) \<le> 64" using assms(2) by (simp add: word_le_nat_alt)
  obtain dst' u2 where 2: "data_in_packets n prompt_usb devaddr (ucast len) PID_DATA1 0 (dst, ?v) = Some (0, dst', u2)" "length dst' = length dst"
    "max_packet_size u2 = max_packet_size u"
    and byte: "\<forall>j < min (unat len) (unat (max_packet_size u)). dst' ! j = ucast (prompt_usb [] (Mem (data_buf ?v (data_buf_idx ?v) + of_nat j)))"
    using data_in_ends [OF prompt_usb(2) prompt_memory, of ?v "ucast len" dst 0 n devaddr PID_DATA1] assms(1,2,4,5) v l by auto
  have vals: "\<forall>j < min (unat len) (unat (max_packet_size u)). dst' ! j = of_nat (if j = 3 then 0 else j)"
  proof (intro allI impI)
    fix j assume j: "j < min (unat len) (unat (max_packet_size u))"
    then have "j < 64" using mm by simp
    then have "(ucast (of_nat (if j = 3 then 0 else j) :: u32) :: u8) = of_nat (if j = 3 then 0 else j)"
      by (simp add: unsigned_of_nat take_bit_eq_mod)
    then show "dst' ! j = of_nat (if j = 3 then 0 else j)" using byte j mem [OF \<open>j < 64\<close>] by simp
  qed
  have r2: "retry 500 (\<lambda>r. r = - 3) (map_prod id (udelay 1000)) (usb_setup_stage_dma_data_in n prompt_usb devaddr (ucast len)) (dst, ?v) = Some (0, dst', u2)"
    by (rule retry_first) (simp_all add: usb_setup_stage_dma_data_in_def nz 2(1))
  define u3 where "u3 = snd (do_status_out_stage prompt_usb devaddr (udelay 2000 u2))"
  have r3: "retry 100 (\<lambda>r. r = - 3) (udelay 1000) (\<lambda>v. Some (do_status_out_stage prompt_usb devaddr v)) (udelay 2000 u2) = Some (0, u3)"
    by (rule retry_first) (simp_all add: prompt_stages(2) [symmetric] u3_def)
  have r: "usb_control_in n prompt_usb devaddr s len (dst, u) = Some (0, dst', u3)"
    using assms(3) by (simp add: usb_control_in_def 1 r2 r3)
  have "max_packet_size u3 = max_packet_size u" using 2(3) by (simp add: u3_def stage_mps udelay_def)
  then show ?thesis using r 2(2) vals asked_ok [OF conjunct1 [OF control_in_asked [OF r assms(6)]] assms(6)] by blast
qed

lemma prompt_out:
  "\<exists>u'. usb_control_out_nodata prompt_usb devaddr s u = Some (0, u')" "\<exists>u'. usb_control_out_data prompt_usb devaddr s [1] 1 u = Some (0, u')"
proof -
  obtain u1 where 1: "setup_stage prompt_usb devaddr s u = Some (0, u1)" using prompt_setup by blast
  obtain u2 where "status_in_stage prompt_usb devaddr (udelay 5000 u1) = Some (0, u2)" using prompt_status_stage by blast
  then show "\<exists>u'. usb_control_out_nodata prompt_usb devaddr s u = Some (0, u')" by (simp add: usb_control_out_nodata_def 1)
  obtain u3 where "usb_dma_data_out prompt_usb devaddr [1] (ucast (1 :: u16)) (udelay 2000 u1) = Some (0, u3)"
    using prompt_wait [OF prompt_usb(1)] by (auto simp: usb_dma_data_out_def Let_def prod_eq_iff)
  then have 3: "retry 100 (\<lambda>r. r = - 3) (udelay 1000) (usb_dma_data_out prompt_usb devaddr [1] (ucast (1 :: u16))) (udelay 2000 u1) = Some (0, u3)"
    by (rule retry_first) simp
  obtain u4 where "status_in_stage prompt_usb devaddr (udelay 2000 u3) = Some (0, u4)" using prompt_status_stage by blast
  then show "\<exists>u'. usb_control_out_data prompt_usb devaddr s [1] 1 u = Some (0, u')"
    using 3 by (simp add: usb_control_out_data_def 1)
qed

lemma prompt_spin: "P (prompt_usb [] (Mmio a)) \<Longrightarrow> \<exists>u'. spin_on (Suc n) prompt_usb a P u = Some u'"
  by (simp add: spin_on_def GET32_def rd_def prompt_usb_def)

lemma prompt_flags: "prompt_usb h (Mmio GRSTCTL) = 0x80000000" "prompt_usb h (Mmio HPRT) = 1" "prompt_usb h (Mmio (MAILBOX + 0x18)) = 0"
  by (simp_all add: prompt_usb_def GRSTCTL_def HPRT_def USB_CORE_BASE_def USB_HOST_BASE_def USB_BASE_def MAILBOX_def MMIO_BASE_def HCINT_def)

lemma prompt_start:
  assumes "dma_at u = 0xC6FF0020"
  shows "\<exists>u'. start_controller (Suc n) prompt_usb u = Some u' \<and> max_packet_size u' = 8"
proof -
  have v: "fst (mem_read prompt_usb (mbox_buf u + 4) x) = 0x80000000" for x
    by (simp add: mem_read_def rd_def prompt_usb_def mbox_buf_def assms)
  obtain u5 where 5: "usb_power_on (Suc n) prompt_usb u = Some (True, u5)"
    using v prompt_flags(3) by (simp add: usb_power_on_def Let_def spin_on_def GET32_def rd_def case_prod_beta)
  have core: "\<exists>y. usb_core_reset (Suc n) prompt_usb x = Some y" for x
  proof -
    obtain a where a: "spin_on (Suc n) prompt_usb GRSTCTL (\<lambda>v. v AND GRSTCTL_AHBIDLE \<noteq> 0) x = Some a"
      using prompt_spin [of "\<lambda>v. v AND GRSTCTL_AHBIDLE \<noteq> 0" GRSTCTL] by (auto simp: prompt_flags GRSTCTL_AHBIDLE_def)
    obtain b where "spin_on (Suc n) prompt_usb GRSTCTL (\<lambda>v. v AND GRSTCTL_CSRST = 0)
        (writel (fst (readl prompt_usb GRSTCTL a) OR GRSTCTL_CSRST) GRSTCTL (snd (readl prompt_usb GRSTCTL a))) = Some b"
      using prompt_spin [of "\<lambda>v. v AND GRSTCTL_CSRST = 0" GRSTCTL] by (auto simp: prompt_flags GRSTCTL_CSRST_def)
    then show ?thesis by (simp add: usb_core_reset_def a case_prod_beta)
  qed
  have force: "\<exists>y. usb_force_host_mode (Suc n) prompt_usb x = Some y" for x
    using core by (simp add: usb_force_host_mode_def Let_def case_prod_beta) (metis (no_types, lifting) bind.bind_lunit)
  have flush: "\<exists>y. usb_flush_tx_fifo (Suc n) prompt_usb f x = Some y" "\<exists>y. usb_flush_rx_fifo (Suc n) prompt_usb x = Some y" for f x
    using prompt_spin [of "\<lambda>v. v AND GRSTCTL_TXFFLSH = 0" GRSTCTL] prompt_spin [of "\<lambda>v. v AND GRSTCTL_RXFFLSH = 0" GRSTCTL]
    by (auto simp: usb_flush_tx_fifo_def usb_flush_rx_fifo_def prompt_flags GRSTCTL_TXFFLSH_def GRSTCTL_RXFFLSH_def bind_eq_Some_conv)
  have init: "\<exists>y. usb_host_init (Suc n) prompt_usb x = Some y" for x
    using flush by (simp add: usb_host_init_def Let_def) (metis (no_types, lifting) bind.bind_lunit)
  have dev: "\<exists>y. wait_device (Suc n) prompt_usb x = Some y" for x
    by (simp add: readl_eq prompt_flags)
  show ?thesis using 5 force init dev by (simp add: start_controller_def) (metis (no_types, lifting) bind.bind_lunit usb_context.select_convs(3) usb_context.surjective usb_context.update_convs(3))
qed

lemma udelay_mps: "max_packet_size (udelay n u) = max_packet_size u"
  by (simp add: udelay_def)

lemma prompt_address:
  assumes "ctx_ok 0xC6FF0020 u"
  shows "\<exists>u'. usb_set_address prompt_usb 1 u = Some (0, u') \<and> max_packet_size u' = max_packet_size u \<and> ctx_ok 0xC6FF0020 u'
    \<and> length (config_buf u') = length (config_buf u)"
proof -
  obtain u1 where 1: "setup_stage prompt_usb 0 \<lparr>bmRequestType = 0, bRequest = 5, wValue = ucast (1 :: u8), wIndex = 0, wLength = 0\<rparr> u = Some (0, u1)"
    "max_packet_size u1 = max_packet_size u" using prompt_setup by blast
  obtain u2 where 2: "retry 20 (\<lambda>r. r = - 3 \<or> r = - 1) (udelay 1000) (\<lambda>v. Some (usb_setup_stage_dma_status_in prompt_usb 0 v)) (udelay 5000 u1) = Some (0, u2)"
    "max_packet_size u2 = max_packet_size (udelay 5000 u1)"
    using prompt_status [of 20 "\<lambda>r. r = - 3 \<or> r = - 1" 1000 0 "udelay 5000 u1"] by auto
  have r: "usb_set_address prompt_usb 1 u = Some (0, udelay 5000 u2)" using 1(1) 2(1) by (simp add: usb_set_address_def)
  have "asked prompt_usb 0xC6FF0020 u \<lparr>bmRequestType = 0, bRequest = 5, wValue = ucast (1 :: u8), wIndex = 0, wLength = 0\<rparr> (udelay 5000 u2)"
    by (rule set_address_asked [OF r assms])
  then show ?thesis using r 1(2) 2(2) asked_ok asked_length assms by (metis (no_types, lifting) udelay_mps)
qed

lemma prompt_fetch:
  assumes "0 < max_packet_size u" "max_packet_size u \<le> 64" "0 < len" "unat len \<le> length dst" "unat len < 20" "ctx_ok 0xC6FF0020 u"
  obtains dst' u' where "usb_control_in 20 prompt_usb devaddr s len (dst, u) = Some (0, dst', u')" "max_packet_size u' = max_packet_size u"
    "length dst' = length dst" "\<And>j. j < unat len \<Longrightarrow> j < unat (max_packet_size u) \<Longrightarrow> dst' ! j = of_nat (if j = 3 then 0 else j)"
    "ctx_ok 0xC6FF0020 u'" "length (config_buf u') = length (config_buf u)"
proof -
  obtain dst' u' where r: "usb_control_in 20 prompt_usb devaddr s len (dst, u) = Some (0, dst', u')" and m: "max_packet_size u' = max_packet_size u"
    "length dst' = length dst" "\<forall>j < min (unat len) (unat (max_packet_size u)). dst' ! j = of_nat (if j = 3 then 0 else j)" "ctx_ok 0xC6FF0020 u'"
    using prompt_control_in [OF assms] by blast
  have "length (config_buf u') = length (config_buf u)"
    by (rule asked_length [OF conjunct1 [OF control_in_asked [OF r assms(6)]] assms(6)])
  then show thesis using that [OF r] m by simp
qed

lemma prompt_endpoints:
  assumes "max_packet_size u = 7" "ctx_ok 0xC6FF0020 u" "length (config_buf u) = 256"
  shows "\<exists>u'. find_endpoints 20 prompt_usb u = Some u'"
proof -
  obtain cfg u1 where 1: "usb_get_config_descriptor 20 prompt_usb (address u) 9 (config_buf u, u) = Some (0, cfg, u1)"
    and m1: "max_packet_size u1 = 7" "length cfg = 256" "ctx_ok 0xC6FF0020 u1" and b: "\<And>j. j < 9 \<Longrightarrow> j < 7 \<Longrightarrow> cfg ! j = of_nat (if j = 3 then 0 else j)"
    unfolding usb_get_config_descriptor_def
    by (rule prompt_fetch [of u 9 "config_buf u" "address u" "\<lparr>bmRequestType = 0x80, bRequest = 6, wValue = 0x0200, wIndex = 0, wLength = 9\<rparr>"])
      (use assms in simp_all)
  have len: "u16_of (cfg ! 2) (cfg ! 3) = 2" using b [of 2] b [of 3] by (simp add: u16_of_def)
  obtain cfg2 u2 where 2: "usb_get_config_descriptor 20 prompt_usb (address u1) 2 (cfg, u1) = Some (0, cfg2, u2)"
    and m2: "length cfg2 = 256" and c: "\<And>j. j < 2 \<Longrightarrow> j < 7 \<Longrightarrow> cfg2 ! j = of_nat (if j = 3 then 0 else j)"
    unfolding usb_get_config_descriptor_def
    by (rule prompt_fetch [of u1 2 cfg "address u1" "\<lparr>bmRequestType = 0x80, bRequest = 6, wValue = 0x0200, wIndex = 0, wLength = 2\<rparr>"])
      (use m1 in simp_all)
  have "scan_config cfg2 (unat (2 :: u16)) 0 (scan_start u2) = Some (scan_start u2)"
    using c [of 0] m2 by (simp add: scan_config.simps [of cfg2] byte_at_def)
  then show ?thesis using 1 2 len by (simp add: find_endpoints_def)
qed

lemma prompt_descriptors:
  assumes "max_packet_size u = 8" "ctx_ok 0xC6FF0020 u" "length (config_buf u) = 256"
  shows "\<exists>u'. read_descriptors 20 prompt_usb u = Some u'"
proof -
  obtain d u1 where 1: "usb_get_device_descriptor 20 prompt_usb (address u) 8 (replicate 18 0, u) = Some (0, d, u1)"
    and m1: "ctx_ok 0xC6FF0020 u1" "length (config_buf u1) = 256" and b: "\<And>j. j < 8 \<Longrightarrow> j < 8 \<Longrightarrow> d ! j = of_nat (if j = 3 then 0 else j)"
    unfolding usb_get_device_descriptor_def
    by (rule prompt_fetch [of u "ucast (8 :: u8)" "replicate 18 0" "address u" "\<lparr>bmRequestType = 0x80, bRequest = 6, wValue = 0x0100, wIndex = 0, wLength = ucast (8 :: u8)\<rparr>"])
      (use assms in simp_all)
  define v where "v = u1\<lparr>max_packet_size := d ! 7\<rparr>"
  have v: "max_packet_size v = 7" "ctx_ok 0xC6FF0020 v" "length (config_buf v) = 256" using m1 b [of 7] by (simp_all add: v_def ctx_ok_def)
  obtain d2 u2 where 2: "usb_get_device_descriptor 20 prompt_usb (address v) 18 (replicate 18 0, v) = Some (0, d2, u2)"
    and m2: "max_packet_size u2 = 7" "ctx_ok 0xC6FF0020 u2" "length (config_buf u2) = 256"
    unfolding usb_get_device_descriptor_def
    by (rule prompt_fetch [of v "ucast (18 :: u8)" "replicate 18 0" "address v" "\<lparr>bmRequestType = 0x80, bRequest = 6, wValue = 0x0100, wIndex = 0, wLength = ucast (18 :: u8)\<rparr>"])
      (use v in simp_all)
  obtain u3 where "find_endpoints 20 prompt_usb (u2\<lparr>dev_desc := d2\<rparr>) = Some u3"
    using prompt_endpoints [of "u2\<lparr>dev_desc := d2\<rparr>"] m2 by (auto simp: ctx_ok_def)
  then show ?thesis using 1 2 by (simp add: read_descriptors_def Let_def v_def)
qed

lemma prompt_configure: "\<exists>u'. configure_device prompt_usb u = Some u'"
proof -
  obtain u1 where 1: "usb_set_configuration prompt_usb (address u) 1 u = Some (0, u1)"
    unfolding usb_set_configuration_def using prompt_out(1) by blast
  obtain u2 where "usb_control_out_nodata prompt_usb (address u1)
      \<lparr>bmRequestType = 0x21, bRequest = 0x0B, wValue = ucast (0 :: u8), wIndex = ucast (0 :: u8), wLength = 0\<rparr> (udelay 50000 u1) = Some (0, u2)"
    using prompt_out(1) by blast
  then have 2: "usb_hid_set_protocol prompt_usb (address u1) 0 0 (udelay 50000 u1) = Some (0, u2)" by (simp add: usb_hid_set_protocol_def)
  obtain u3 where "usb_hid_set_report prompt_usb (address u2) 0 2 0 [1] 1 (udelay 50000 u2) = Some (0, u3)"
    unfolding usb_hid_set_report_def using prompt_out(2) by blast
  then show ?thesis using 1 2 by (simp add: configure_device_def)
qed

lemma prompt_enumeration:
  assumes "dma_at u = 0xC6FF0020" "length (config_buf u) = 256"
  shows "\<exists>u'. usb_hid_full_init 20 prompt_usb u = Some (0, u')"
proof -
  let ?u = "usb_context_init u"
  have ok: "ctx_ok 0xC6FF0020 ?u" "dma_at ?u = 0xC6FF0020" "length (config_buf ?u) = 256"
    using assms by (simp_all add: ctx_ok_def usb_context_init_def)
  obtain u1 where 1: "start_controller 20 prompt_usb ?u = Some u1" "max_packet_size u1 = 8"
    using prompt_start [OF ok(2), of 19] by auto
  have "ctx_ok 0xC6FF0020 u1 \<and> length (config_buf u1) = 256"
    using start_controller_asks [OF 1(1) ok(2)] ok by (simp add: asks_def)
  then obtain u2 where 2: "usb_set_address prompt_usb 1 u1 = Some (0, u2)" "max_packet_size u2 = 8" "ctx_ok 0xC6FF0020 u2" "length (config_buf u2) = 256"
    using prompt_address 1(2) by fastforce
  obtain u3 where 3: "read_descriptors 20 prompt_usb (u2\<lparr>address := 1\<rparr>) = Some u3"
    using prompt_descriptors [of "u2\<lparr>address := 1\<rparr>"] 2 by (auto simp: ctx_ok_def)
  obtain u4 where "configure_device prompt_usb u3 = Some u4" using prompt_configure by blast
  then show ?thesis using 1 2 3 by (simp add: usb_hid_full_init_def)
qed

text \<open>The controller that completes every transfer: the enumeration returns, within twenty steps of each loop.\<close>

theorem enumeration_order_witness:
  "\<exists>u'. usb_hid_full_init 20 prompt_usb fresh_context = Some (0, u') \<and> address u' = 1 \<and> explains prompt_usb (bus u')
    \<and> (\<exists>full sent. (\<forall>len. full = Some len \<longrightarrow> len \<le> 256) \<and> repeated (enumeration full) sent
        \<and> view (in_setup 0xC6FF0020) u' = packets_of 0xC6FF0020 sent)"
proof -
  obtain u' where r: "usb_hid_full_init 20 prompt_usb fresh_context = Some (0, u')"
    using prompt_enumeration [of fresh_context] by (auto simp: fresh_context_def usb_context_init_def)
  have f: "dma_at fresh_context = 0xC6FF0020" "bus fresh_context = []" by (simp_all add: fresh_context_def usb_context_init_def)
  have v: "view (in_setup 0xC6FF0020) fresh_context = []" by (simp add: view_def f)
  show ?thesis using enumeration_order [OF r, unfolded f v] r by auto
qed

end
