(* ===== verification/VmFork.thy ===== *)
theory VmFork
  imports VmInv
begin

text \<open>
  What \<open>fork_page_table\<close> promises: the child's table maps every small page of the parent to a page of its own
  with the same bytes, and nothing of what the parent has changes. Everything the copy writes lies in
  blocks that were not in use before, which is what the lemmas follow through the two loops.
\<close>

section \<open>Blocks taken since\<close>

text \<open>The bytes of a set of blocks.\<close>

definition in_blocks :: "kalloc_state \<Rightarrow> u32 set \<Rightarrow> u32 \<Rightarrow> bool" where
  "in_blocks k S x \<longleftrightarrow> (\<exists>c < 21. \<exists>q \<in> S. q \<in> used (cls k c) \<and> in_block q (unat (block_size (cls k c))) x)"

lemma in_blocks_mono:
  assumes "in_blocks k S x" "S \<subseteq> S'" "classes_ok k" "classes_ok k'" "\<And>j. j < 21 \<Longrightarrow> used (cls k j) \<subseteq> used (cls k' j)"
  shows "in_blocks k' S' x"
proof -
  obtain c q where c: "c < 21" "q \<in> S" "q \<in> used (cls k c)" "in_block q (unat (block_size (cls k c))) x" using assms(1) by (auto simp: in_blocks_def)
  moreover have "block_size (cls k' c) = block_size (cls k c)" using static_boot(1) [OF assms(4) c(1)] static_boot(1) [OF assms(3) c(1)] by simp
  ultimately show ?thesis using assms(2,5) unfolding in_blocks_def by (metis subsetD)
qed

lemma not_in_blocks:
  assumes "kinv k fl L" "c < 21" "p \<in> used (cls k c)" "p \<notin> S" "in_block p (unat (block_size (cls k c))) x"
  shows "\<not> in_blocks k S x"
proof
  assume "in_blocks k S x"
  then obtain d q where d: "d < 21" "q \<in> S" "q \<in> used (cls k d)" "in_block q (unat (block_size (cls k d))) x" by (auto simp: in_blocks_def)
  then have "p \<noteq> q" using assms(4) by blast
  then show False using blocks_apart [OF assms(1,2) d(1) assms(3) d(3) _ assms(5)] d(4) by blast
qed

text \<open>A step from one allocator and memory to another: the blocks in use grow, and memory changes only in new ones and where the
  step says.\<close>

definition grows :: "(u32 \<Rightarrow> bool) \<Rightarrow> vm_state \<Rightarrow> u32 set \<Rightarrow> vm_state \<Rightarrow> u32 set \<Rightarrow> bool" where
  "grows W vm L vm' L' \<longleftrightarrow> L \<subseteq> L' \<and> (\<forall>j < 21. used (cls (vm_ka vm) j) \<subseteq> used (cls (vm_ka vm') j))
     \<and> vm_active vm' = vm_active vm \<and> vm_kuser vm' = vm_kuser vm
     \<and> (\<forall>x. \<not> in_blocks (vm_ka vm') (L' - L) x \<longrightarrow> \<not> W x \<longrightarrow> vm_mem vm' x = vm_mem vm x)"

lemma grows_refl: "grows W vm L vm L"
  by (simp add: grows_def)

lemma grows_trans:
  assumes "grows W a A b B" "grows W b B c C" "classes_ok (vm_ka b)" "classes_ok (vm_ka c)"
  shows "grows W a A c C"
proof -
  note g = assms(1,2) [unfolded grows_def]
  have "vm_mem c x = vm_mem a x" if "\<not> in_blocks (vm_ka c) (C - A) x" "\<not> W x" for x
  proof -
    have "\<not> in_blocks (vm_ka c) (C - B) x" using that(1) g in_blocks_mono [OF _ _ assms(4,4), of "C - B" x "C - A"] by blast
    moreover have "\<not> in_blocks (vm_ka b) (B - A) x" using that(1) g in_blocks_mono [OF _ _ assms(3,4), of "B - A" x "C - A"] by blast
    ultimately show ?thesis using g that(2) by auto
  qed
  moreover have "A \<subseteq> C" "used (cls (vm_ka a) j) \<subseteq> used (cls (vm_ka c) j)" if "j < 21" for j using g that by blast+
  moreover have "A \<subseteq> C" "vm_active c = vm_active a" "vm_kuser c = vm_kuser a" using g by auto
  ultimately show ?thesis unfolding grows_def by simp
qed

text \<open>Pages that can be copied: blocks of the page class in use, or addresses above every arena.\<close>

definition page_src :: "kalloc_state \<Rightarrow> u32 set \<Rightarrow> u32 \<Rightarrow> bool" where
  "page_src k L s \<longleftrightarrow> s AND 0xFFF = 0 \<and> (0xFFF00000 \<le> s \<or> s \<in> L \<and> s \<in> used (cls k 8))"

lemma page_src_mono:
  assumes "page_src k L s" "L \<subseteq> L'" "used (cls k 8) \<subseteq> used (cls k' 8)"
  shows "page_src k' L' s"
  using assms by (auto simp: page_src_def)

lemma high_not_in_blocks:
  assumes "kinv k fl L" "0xFFF00000 \<le> unat x"
  shows "\<not> in_blocks k S x"
proof
  assume "in_blocks k S x"
  then obtain d q where d: "d < 21" "q \<in> used (cls k d)" "in_block q (unat (block_size (cls k d))) x" by (auto simp: in_blocks_def)
  then show False using block_bounds(2) [OF assms(1) d(1,2)] assms(2) by (simp add: in_block_def)
qed

lemma page_src_bound: "page_src k L s \<Longrightarrow> unat s + 4096 \<le> 4294967296"
proof -
  assume "page_src k L s"
  then have "unat s mod 4096 = 0" using unat_low12 [of s] by (simp add: page_src_def)
  then obtain q where q: "unat s = 4096 * q" by (metis dvd_eq_mod_eq_0 dvdE)
  then have "q < 1048576" using unat_less_2p32 [of s] by simp
  then show ?thesis using q by linarith
qed

lemma page_src_apart:
  assumes "kinv k fl L" "page_src k L0 s" "in_block s 4096 x" "S \<inter> L0 = {}"
  shows "\<not> in_blocks k S x"
proof (cases "0xFFF00000 \<le> s")
  case True
  then have "0xFFF00000 \<le> unat x" using assms(3) by (simp add: in_block_def word_le_nat_alt)
  then show ?thesis by (rule high_not_in_blocks [OF assms(1)])
next
  case False
  have ok: "classes_ok k" using assms(1) by (simp add: kinv_def)
  have s: "s \<in> L0" "s \<in> used (cls k 8)" using assms(2) False by (simp_all add: page_src_def)
  show ?thesis by (rule not_in_blocks [OF assms(1) _ s(2)]) (use s(1) assms(3,4) table_classes(5) [OF ok] in auto)
qed

text \<open>Allocating a block: it is new, and a copy into it is exact.\<close>

lemma alloc_block:
  assumes "kinv (vm_ka vm) fl L" "find_class n (size_classes (vm_ka vm)) = Some c" "0 < avail (vm_ka vm) fl c"
    "block_size (cls (vm_ka vm) c) = n"
  obtains p k' fl' where "valloc n vm = Some (p, vm\<lparr>vm_ka := k'\<rparr>)" "p \<notin> L" "p \<in> used (cls k' c)" "kinv k' fl' (insert p L)"
    "\<And>j. j < 21 \<Longrightarrow> avail k' fl' j = (if j = c then avail (vm_ka vm) fl c - 1 else avail (vm_ka vm) fl j)"
    "\<And>j. j < 21 \<Longrightarrow> used (cls (vm_ka vm) j) \<subseteq> used (cls k' j)"
    "\<And>x. in_block p (unat n) x \<Longrightarrow> in_blocks k' {p} x" "\<And>x S. p \<notin> S \<Longrightarrow> in_block p (unat n) x \<Longrightarrow> \<not> in_blocks k' S x"
    "unat p + unat n \<le> 0xCCBD0000" "0xC1010000 \<le> unat p"
proof -
  have ok0: "classes_ok (vm_ka vm)" using assms(1) by (simp add: kinv_def)
  obtain p k' fl' where k: "kalloc n (vm_ka vm) = Some (p, k')" "p \<notin> L" "p \<in> used (cls k' c)" "kinv k' fl' (insert p L)"
    "\<And>j. j < 21 \<Longrightarrow> avail k' fl' j = (if j = c then avail (vm_ka vm) fl c - 1 else avail (vm_ka vm) fl j)"
    "\<And>j. j < 21 \<Longrightarrow> used (cls (vm_ka vm) j) \<subseteq> used (cls k' j)"
    by (rule kalloc_room [OF assms(1-3)]) blast
  have c: "c < 21" using find_class_Some [OF assms(2)] classes_ok_length [OF ok0] by simp
  have ok: "classes_ok k'" using k(4) by (simp add: kinv_def)
  have bs: "block_size (cls k' c) = n" using static_boot(1) [OF ok c] static_boot(1) [OF ok0 c] assms(4) by simp
  have "in_blocks k' {p} x" if "in_block p (unat n) x" for x using that c k(3) bs by (auto simp: in_blocks_def)
  moreover have "\<not> in_blocks k' S x" if "p \<notin> S" "in_block p (unat n) x" for x S
    by (rule not_in_blocks [OF k(4) c k(3) that(1)]) (use that(2) bs in simp)
  ultimately show thesis using that [of p k'] k block_bounds [OF k(4) c k(3)] bs by (simp add: valloc_def)
qed

lemma memcpy_page:
  assumes "\<And>x. in_block s n x \<Longrightarrow> \<not> in_block p n x" "unat p + n \<le> 4294967296" "unat s + n \<le> 4294967296" "p \<noteq> 0" "s \<noteq> 0" "0 < n" "n = unat w"
  shows "memcpy p s w m x = (if in_block p n x then m (s + (x - p)) else m x)"
proof -
  have ps: "n \<le> unat (p - s)"
  proof -
    have "unat s + n \<le> unat p \<or> unat p + n \<le> unat s"
    proof (rule ccontr)
      assume "\<not> ?thesis"
      then have "unat s < unat p + n" "unat p < unat s + n" by simp_all
      then have "in_block s n (if unat s \<le> unat p then p else s)" "in_block p n (if unat s \<le> unat p then p else s)"
        using assms(6) by (auto simp: in_block_def)
      then show False using assms(1) by blast
    qed
    then show ?thesis using unat_sub_cases [of p s] assms(2,3) by auto
  qed
  have "unat (x - p) < n \<longleftrightarrow> in_block p n x" using assms(2) unat_sub_cases [of x p] by (auto simp: in_block_def)
  then show ?thesis using memcpy_moved [OF assms(4,5), of w m] ps assms(7) by (simp add: moved_def)
qed

section \<open>The pages of one table\<close>

fun pages_from :: "nat \<Rightarrow> u32 \<Rightarrow> u32 \<Rightarrow> memory \<Rightarrow> nat" where
  "pages_from 0 j t m = 0"
| "pages_from (Suc n) j t m = (if load32 m (t + 4 * j) AND 3 = 2 then 1 else 0) + pages_from n (j + 1) t m"

text \<open>Slots \<open>j\<close> to \<open>j + n - 1\<close>.\<close>

definition slot_in :: "u32 \<Rightarrow> nat \<Rightarrow> u32 \<Rightarrow> bool" where
  "slot_in j n i \<longleftrightarrow> unat j \<le> unat i \<and> unat i < unat j + n"

lemma slot_in_next:
  assumes "unat j + Suc n \<le> 4096"
  shows "unat (j + 1) = unat j + 1" "slot_in j (Suc n) i \<longleftrightarrow> i = j \<or> slot_in (j + 1) n i" "\<not> slot_in (j + 1) n j"
proof -
  show u: "unat (j + 1) = unat j + 1" using assms by (subst unat_add_no_wrap) simp_all
  show "slot_in j (Suc n) i \<longleftrightarrow> i = j \<or> slot_in (j + 1) n i" unfolding slot_in_def u by (auto simp: u32_eq_nat_iff)
  show "\<not> slot_in (j + 1) n j" unfolding slot_in_def u by simp
qed

lemma pages_from_cong:
  assumes "unat j + n \<le> 4096" "\<And>i. slot_in j n i \<Longrightarrow> load32 m' (t + 4 * i) = load32 m (t + 4 * i)"
  shows "pages_from n j t m' = pages_from n j t m"
  using assms
proof (induction n arbitrary: j)
  case 0
  then show ?case by simp
next
  case (Suc n)
  note s = slot_in_next [OF Suc.prems(1)]
  have "pages_from n (j + 1) t m' = pages_from n (j + 1) t m"
    by (rule Suc.IH) (use Suc.prems s in auto)
  moreover have "load32 m' (t + 4 * j) = load32 m (t + 4 * j)" by (rule Suc.prems(2)) (simp add: s(2))
  ultimately show ?case by simp
qed

text \<open>An entry of the child for a page that was copied.\<close>

definition own_page :: "vm_state \<Rightarrow> u32 set \<Rightarrow> vm_state \<Rightarrow> u32 set \<Rightarrow> u32 \<Rightarrow> u32 \<Rightarrow> bool" where
  "own_page vm L vm' L' e e' \<longleftrightarrow> (\<exists>q \<in> L' - L. q \<in> used (cls (vm_ka vm') 8) \<and> e' = make_L2_page_entry q 0xFF 1 1
     \<and> (\<forall>n < 4096. vm_mem vm' (q + of_nat n) = vm_mem vm ((e AND 0xFFFFF000) + of_nat n)))"

lemma offset_in_block: "n < k \<Longrightarrow> unat p + k \<le> 4294967296 \<Longrightarrow> in_block p k (p + of_nat n)"
  by (simp add: in_block_def unat_plus_small)

lemma page_src_not_table:
  assumes "kinv k fl L" "page_src k L0 s" "t \<in> used (cls k 6)" "in_block s 4096 x"
  shows "\<not> in_block t 1024 x"
proof (cases "0xFFF00000 \<le> s")
  case True
  have ok: "classes_ok k" using assms(1) by (simp add: kinv_def)
  show ?thesis using block_bounds(2) [OF assms(1) _ assms(3)] table_classes(4) [OF ok] assms(4) True by (simp add: in_block_def word_le_nat_alt)
next
  case False
  have ok: "classes_ok k" using assms(1) by (simp add: kinv_def)
  have s: "s \<in> used (cls k 8)" using assms(2) False by (simp add: page_src_def)
  then have "s \<noteq> t" using used_disjoint [OF ok, of 8 6 s] assms(3) by auto
  then show ?thesis using blocks_apart [OF assms(1) _ _ s assms(3)] table_classes [OF ok] assms(4) by simp
qed

text \<open>Copying one page into the table \<open>t\<close>.\<close>

lemma copy_page:
  assumes k: "kinv (vm_ka vm) fl L" and t: "t \<in> L" "t \<in> used (cls (vm_ka vm) 6)" and j: "unat j < 256"
    and src: "page_src (vm_ka vm) L s" and av: "0 < avail (vm_ka vm) fl 8"
  obtains p vm1 fl1 where "valloc 4096 vm = Some (p, vm\<lparr>vm_ka := vm_ka vm1\<rparr>)" "p \<notin> L" "p \<in> used (cls (vm_ka vm1) 8)"
    "vm1 = vm\<lparr>vm_ka := vm_ka vm1, vm_mem := store32 (t + 4 * j) (make_L2_page_entry p 0xFF 1 1) (memcpy p s 4096 (vm_mem vm))\<rparr>"
    "kinv (vm_ka vm1) fl1 (insert p L)" "grows (in_block t 1024) vm L vm1 (insert p L)"
    "\<And>c. c < 21 \<Longrightarrow> avail (vm_ka vm1) fl1 c = (if c = 8 then avail (vm_ka vm) fl 8 - 1 else avail (vm_ka vm) fl c)"
    "\<And>i. unat i < 256 \<Longrightarrow> load32 (vm_mem vm1) (t + 4 * i) = (if i = j then make_L2_page_entry p 0xFF 1 1 else load32 (vm_mem vm) (t + 4 * i))"
    "\<And>n. n < 4096 \<Longrightarrow> vm_mem vm1 (p + of_nat n) = vm_mem vm (s + of_nat n)"
    "\<And>x. \<not> in_block t 1024 x \<Longrightarrow> \<not> in_block p 4096 x \<Longrightarrow> vm_mem vm1 x = vm_mem vm x"
proof -
  have ok: "classes_ok (vm_ka vm)" using k by (simp add: kinv_def)
  obtain p k' fl1 where a: "valloc 4096 vm = Some (p, vm\<lparr>vm_ka := k'\<rparr>)" "p \<notin> L" "p \<in> used (cls k' 8)" "kinv k' fl1 (insert p L)"
    "\<And>c. c < 21 \<Longrightarrow> avail k' fl1 c = (if c = 8 then avail (vm_ka vm) fl 8 - 1 else avail (vm_ka vm) fl c)"
    "\<And>c. c < 21 \<Longrightarrow> used (cls (vm_ka vm) c) \<subseteq> used (cls k' c)"
    "\<And>x. in_block p (unat (4096 :: u32)) x \<Longrightarrow> in_blocks k' {p} x" "\<And>x S. p \<notin> S \<Longrightarrow> in_block p (unat (4096 :: u32)) x \<Longrightarrow> \<not> in_blocks k' S x"
    "unat p + unat (4096 :: u32) \<le> 0xCCBD0000" "0xC1010000 \<le> unat p"
    by (rule alloc_block [OF k table_classes(2) [OF ok] av table_classes(5) [OF ok]]) blast
  have ok': "classes_ok k'" using a(4) by (simp add: kinv_def)
  have src': "page_src k' L s" by (rule page_src_mono [OF src]) (use a(6) in simp_all)
  have sb: "unat s + 4096 \<le> 4294967296" by (rule page_src_bound [OF src])
  have s0: "s \<noteq> 0"
  proof
    assume "s = 0"
    then have "s \<in> used (cls (vm_ka vm) 8)" using src by (simp add: page_src_def word_le_nat_alt)
    then show False using block_bounds(1) [OF k, of 8 s] \<open>s = 0\<close> by simp
  qed
  have sp: "\<not> in_block p 4096 x" if "in_block s 4096 x" for x
    using page_src_apart [OF a(4) src' that, of "{p}"] a(2,7) by auto
  have tu: "t \<in> used (cls k' 6)" using t(2) a(6) [of 6] by auto
  have tb: "unat t + 4 * 256 \<le> 4294967296" using block_bounds(2) [OF k _ t(2)] table_classes(4) [OF ok] by simp
  have tp: "\<not> in_block p 4096 x" if "in_block t 1024 x" for x
  proof
    assume "in_block p 4096 x"
    then have "\<not> in_blocks k' {t} x" using a(8) [of "{t}" x] a(2) t(1) by auto
    moreover have "in_blocks k' {t} x" unfolding in_blocks_def
      by (rule exI [of _ 6]) (use tu that table_classes(4) [OF ok'] in simp)
    ultimately show False by blast
  qed
  let ?m = "memcpy p s 4096 (vm_mem vm)" and ?v = "make_L2_page_entry p 0xFF 1 1"
  define vm1 where "vm1 = vm\<lparr>vm_ka := k', vm_mem := store32 (t + 4 * j) ?v ?m\<rparr>"
  have p0: "p \<noteq> 0" using a(10) by auto
  have cp: "?m x = (if in_block p 4096 x then vm_mem vm (s + (x - p)) else vm_mem vm x)" for x
    by (rule memcpy_page [OF sp]) (use a(9) sb p0 s0 in simp_all)
  have st: "vm_mem vm1 x = ?m x" if "\<not> in_block t 1024 x" for x
    using store_slot_outside [OF tb j] that by (simp add: vm1_def)
  have same: "vm_mem vm1 x = vm_mem vm x" if "\<not> in_block t 1024 x" "\<not> in_block p 4096 x" for x
    using st [OF that(1)] cp that(2) by simp
  have content: "vm_mem vm1 (p + of_nat n) = vm_mem vm (s + of_nat n)" if "n < 4096" for n
  proof -
    have "in_block p 4096 (p + of_nat n)" by (rule offset_in_block [OF that]) (use a(9) in simp)
    moreover have "p + of_nat n - p = of_nat n" by simp
    ultimately show ?thesis using st [of "p + of_nat n"] tp cp by auto
  qed
  have ls: "load32 ?m (t + 4 * i) = load32 (vm_mem vm) (t + 4 * i)" if "unat i < 256" for i
  proof -
    note sl = slot_in_block [OF tb that, simplified]
    show ?thesis
    proof (rule load32_block [OF _ sl(1)])
      show "?m x = vm_mem vm x" if "in_block t 1024 x" for x using cp tp [OF that] by simp
      show "unat (t + 4 * i) + 3 < unat t + 1024" using sl(2) by linarith
    qed (use tb in simp)
  qed
  have slots: "load32 (vm_mem vm1) (t + 4 * i) = (if i = j then ?v else load32 (vm_mem vm) (t + 4 * i))" if "unat i < 256" for i
    using load32_store32 [of "t + 4 * j" ?v ?m] store_slot_other [OF tb j that, of ?v ?m] ls [OF that] by (auto simp: vm1_def)
  have "in_blocks k' {p} x" if "in_block p 4096 x" for x using a(7) that by simp
  then have pn: "in_blocks k' (insert p L - L) x" if "in_block p 4096 x" for x
    using that a(2) by (simp add: insert_Diff_if)
  have g: "grows (in_block t 1024) vm L vm1 (insert p L)"
    unfolding grows_def using a(6) same pn by (auto simp: vm1_def)
  show thesis
    by (rule that [of p vm1 fl1]) (use a(1-5) g slots content same in \<open>simp_all add: vm1_def\<close>)
qed

text \<open>The loop over the entries of a table.\<close>

lemma growsD:
  assumes "grows W vm L vm' L'"
  shows "L \<subseteq> L'" "j < 21 \<Longrightarrow> used (cls (vm_ka vm) j) \<subseteq> used (cls (vm_ka vm') j)" "vm_active vm' = vm_active vm" "vm_kuser vm' = vm_kuser vm"
    "\<not> in_blocks (vm_ka vm') (L' - L) x \<Longrightarrow> \<not> W x \<Longrightarrow> vm_mem vm' x = vm_mem vm x"
  using assms by (simp_all add: grows_def)

lemma fork_pages_law:
  assumes "kinv (vm_ka vm) fl L" "t \<in> L" "t \<in> used (cls (vm_ka vm) 6)" "unat j + n \<le> 256"
    "\<And>i. slot_in j n i \<Longrightarrow> load32 (vm_mem vm) (t + 4 * i) AND 3 = 2 \<Longrightarrow> page_src (vm_ka vm) L (load32 (vm_mem vm) (t + 4 * i) AND 0xFFFFF000)"
    "pages_from n j t (vm_mem vm) \<le> avail (vm_ka vm) fl 8"
  shows "\<exists>vm' fl' L'. fork_pages n j t vm = Some vm' \<and> kinv (vm_ka vm') fl' L' \<and> grows (in_block t 1024) vm L vm' L'
    \<and> (\<forall>c < 21. avail (vm_ka vm') fl' c = (if c = 8 then avail (vm_ka vm) fl 8 - pages_from n j t (vm_mem vm) else avail (vm_ka vm) fl c))
    \<and> (\<forall>i. unat i < 256 \<longrightarrow> (let e = load32 (vm_mem vm) (t + 4 * i); e' = load32 (vm_mem vm') (t + 4 * i) in
          if slot_in j n i \<and> e AND 3 = 2 then own_page vm L vm' L' e e' else e' = e))"
  using assms
proof (induction n arbitrary: j vm fl L)
  case 0
  have "\<not> slot_in j 0 i" for i by (simp add: slot_in_def)
  then show ?case using 0(1) grows_refl by (intro exI [of _ vm] exI [of _ fl] exI [of _ L]) (simp add: Let_def)
next
  case (Suc n)
  have jn: "unat j + Suc n \<le> 4096" "unat j < 256" using Suc.prems(4) by simp_all
  note si = slot_in_next [OF jn(1)]
  let ?m = "vm_mem vm"
  define e where "e = load32 ?m (t + 4 * j)"
  show ?case
  proof (cases "e AND 3 = 2")
    case False
    have ex: "fork_pages (Suc n) j t vm = fork_pages n (j + 1) t vm" using False by (simp add: e_def Let_def)
    have pf: "pages_from (Suc n) j t ?m = pages_from n (j + 1) t ?m" using False by (simp add: e_def)
    have ih: "\<exists>vm' fl' L'. fork_pages n (j + 1) t vm = Some vm' \<and> kinv (vm_ka vm') fl' L' \<and> grows (in_block t 1024) vm L vm' L'
      \<and> (\<forall>c < 21. avail (vm_ka vm') fl' c = (if c = 8 then avail (vm_ka vm) fl 8 - pages_from n (j + 1) t ?m else avail (vm_ka vm) fl c))
      \<and> (\<forall>i. unat i < 256 \<longrightarrow> (let e = load32 ?m (t + 4 * i); e' = load32 (vm_mem vm') (t + 4 * i) in
            if slot_in (j + 1) n i \<and> e AND 3 = 2 then own_page vm L vm' L' e e' else e' = e))"
      by (rule Suc.IH [OF Suc.prems(1-3)]) (use Suc.prems(4-6) si pf in auto)
    have sl: "slot_in j (Suc n) i \<and> load32 ?m (t + 4 * i) AND 3 = 2 \<longleftrightarrow> slot_in (j + 1) n i \<and> load32 ?m (t + 4 * i) AND 3 = 2" for i
      using False si(2) by (auto simp: e_def)
    show ?thesis unfolding ex pf Let_def sl using ih [unfolded Let_def] .
  next
    case True
    have src: "page_src (vm_ka vm) L (e AND 0xFFFFF000)" unfolding e_def by (rule Suc.prems(5)) (use True si(2) in \<open>simp_all add: e_def\<close>)
    have av: "0 < avail (vm_ka vm) fl 8" using Suc.prems(6) True by (simp add: e_def)
    obtain p vm1 fl1 where c: "valloc 4096 vm = Some (p, vm\<lparr>vm_ka := vm_ka vm1\<rparr>)" "p \<notin> L" "p \<in> used (cls (vm_ka vm1) 8)"
      "vm1 = vm\<lparr>vm_ka := vm_ka vm1, vm_mem := store32 (t + 4 * j) (make_L2_page_entry p 0xFF 1 1) (memcpy p (e AND 0xFFFFF000) 4096 ?m)\<rparr>"
      "kinv (vm_ka vm1) fl1 (insert p L)" "grows (in_block t 1024) vm L vm1 (insert p L)"
      "\<And>c. c < 21 \<Longrightarrow> avail (vm_ka vm1) fl1 c = (if c = 8 then avail (vm_ka vm) fl 8 - 1 else avail (vm_ka vm) fl c)"
      "\<And>i. unat i < 256 \<Longrightarrow> load32 (vm_mem vm1) (t + 4 * i) = (if i = j then make_L2_page_entry p 0xFF 1 1 else load32 ?m (t + 4 * i))"
      "\<And>n. n < 4096 \<Longrightarrow> vm_mem vm1 (p + of_nat n) = ?m ((e AND 0xFFFFF000) + of_nat n)"
      "\<And>x. \<not> in_block t 1024 x \<Longrightarrow> \<not> in_block p 4096 x \<Longrightarrow> vm_mem vm1 x = ?m x"
      by (rule copy_page [OF Suc.prems(1-3) jn(2) src av]) blast
    note g1 = growsD [OF c(6)]
    have ex: "fork_pages (Suc n) j t vm = fork_pages n (j + 1) t vm1"
      using True c(1,4) by (simp add: e_def [symmetric] Let_def)
    have ld: "load32 (vm_mem vm1) (t + 4 * i) = load32 ?m (t + 4 * i)" if "slot_in (j + 1) n i" for i
    proof -
      have "unat i < 256" "i \<noteq> j" using that si(1,3) Suc.prems(4) by (auto simp: slot_in_def)
      then show ?thesis using c(8) by simp
    qed
    have pf: "pages_from n (j + 1) t (vm_mem vm1) = pages_from n (j + 1) t ?m"
      by (rule pages_from_cong [OF _ ld]) (use si(1) jn(1) in simp)
    have pf1: "pages_from (Suc n) j t ?m = Suc (pages_from n (j + 1) t ?m)" using True by (simp add: e_def)
    have t1: "t \<in> insert p L" "t \<in> used (cls (vm_ka vm1) 6)" using Suc.prems(2,3) g1(2) [of 6] by auto
    have src1: "page_src (vm_ka vm1) (insert p L) (load32 (vm_mem vm1) (t + 4 * i) AND 0xFFFFF000)"
      if "slot_in (j + 1) n i" "load32 (vm_mem vm1) (t + 4 * i) AND 3 = 2" for i
    proof -
      have "page_src (vm_ka vm) L (load32 ?m (t + 4 * i) AND 0xFFFFF000)"
        by (rule Suc.prems(5)) (use that ld [OF that(1)] si(2) in simp_all)
      then show ?thesis unfolding ld [OF that(1)] using page_src_mono [OF _ g1(1) g1(2) [of 8]] by simp
    qed
    have "\<exists>vm' fl' L'. fork_pages n (j + 1) t vm1 = Some vm' \<and> kinv (vm_ka vm') fl' L' \<and> grows (in_block t 1024) vm1 (insert p L) vm' L'
      \<and> (\<forall>c < 21. avail (vm_ka vm') fl' c = (if c = 8 then avail (vm_ka vm1) fl1 8 - pages_from n (j + 1) t (vm_mem vm1) else avail (vm_ka vm1) fl1 c))
      \<and> (\<forall>i. unat i < 256 \<longrightarrow> (let e = load32 (vm_mem vm1) (t + 4 * i); e' = load32 (vm_mem vm') (t + 4 * i) in
            if slot_in (j + 1) n i \<and> e AND 3 = 2 then own_page vm1 (insert p L) vm' L' e e' else e' = e))"
      by (rule Suc.IH [OF c(5) t1 _ src1]) (use Suc.prems(4,6) si(1) pf pf1 c(7) [of 8] in auto)
    then obtain vm' fl' L' where ih: "fork_pages n (j + 1) t vm1 = Some vm'" "kinv (vm_ka vm') fl' L'" "grows (in_block t 1024) vm1 (insert p L) vm' L'"
      "\<And>c. c < 21 \<Longrightarrow> avail (vm_ka vm') fl' c = (if c = 8 then avail (vm_ka vm1) fl1 8 - pages_from n (j + 1) t (vm_mem vm1) else avail (vm_ka vm1) fl1 c)"
      "\<And>i. unat i < 256 \<Longrightarrow> (if slot_in (j + 1) n i \<and> load32 (vm_mem vm1) (t + 4 * i) AND 3 = 2
            then own_page vm1 (insert p L) vm' L' (load32 (vm_mem vm1) (t + 4 * i)) (load32 (vm_mem vm') (t + 4 * i))
            else load32 (vm_mem vm') (t + 4 * i) = load32 (vm_mem vm1) (t + 4 * i))"
      unfolding Let_def by blast
    note g2 = growsD [OF ih(3)]
    have oks: "classes_ok (vm_ka vm1)" "classes_ok (vm_ka vm')" using c(5) ih(2) by (simp_all add: kinv_def)
    have g: "grows (in_block t 1024) vm L vm' L'" by (rule grows_trans [OF c(6) ih(3) oks])
    have kept: "vm_mem vm' (p + of_nat n) = vm_mem vm1 (p + of_nat n)" if "n < 4096" for n
    proof (rule g2(5))
      have p8: "p \<in> used (cls (vm_ka vm') 8)" using g2(2) [of 8] c(3) by auto
      have pb: "unat p + 4096 \<le> 4294967296" using block_bounds(2) [OF ih(2) _ p8] table_classes(5) [OF oks(2)] by simp
      have ib: "in_block p 4096 (p + of_nat n)" by (rule offset_in_block [OF that pb])
      show "\<not> in_blocks (vm_ka vm') (L' - insert p L) (p + of_nat n)"
        by (rule not_in_blocks [OF ih(2) _ p8]) (use ib table_classes(5) [OF oks(2)] in auto)
      have "t \<in> used (cls (vm_ka vm') 6)" using t1(2) g2(2) [of 6] by auto
      moreover have "p \<noteq> t" using c(2) Suc.prems(2) by auto
      ultimately show "\<not> in_block t 1024 (p + of_nat n)"
        using blocks_apart [OF ih(2) _ _ p8, of 6 t "p + of_nat n"] ib table_classes [OF oks(2)] by simp
    qed
    have own: "own_page vm L vm' L' x x'" if "own_page vm1 (insert p L) vm' L' x x'" "page_src (vm_ka vm) L (x AND 0xFFFFF000)" for x x'
    proof -
      have "vm_mem vm1 ((x AND 0xFFFFF000) + of_nat n) = ?m ((x AND 0xFFFFF000) + of_nat n)" if "n < 4096" for n
      proof -
        have ib: "in_block (x AND 0xFFFFF000) 4096 ((x AND 0xFFFFF000) + of_nat n)"
          by (rule offset_in_block [OF that page_src_bound]) fact
        have ps: "page_src (vm_ka vm1) L (x AND 0xFFFFF000)"
          by (rule page_src_mono) (use \<open>page_src (vm_ka vm) L (x AND 0xFFFFF000)\<close> g1(2) [of 8] in auto)
        show ?thesis
        proof (rule c(10))
          show "\<not> in_block t 1024 ((x AND 0xFFFFF000) + of_nat n)" by (rule page_src_not_table [OF c(5) ps t1(2) ib])
          have "\<not> in_blocks (vm_ka vm1) {p} ((x AND 0xFFFFF000) + of_nat n)" by (rule page_src_apart [OF c(5) ps ib]) (use c(2) in auto)
          then show "\<not> in_block p 4096 ((x AND 0xFFFFF000) + of_nat n)"
            using c(3) table_classes(5) [OF oks(1)] unfolding in_blocks_def by fastforce
        qed
      qed
      then show ?thesis using that(1) unfolding own_page_def by fastforce
    qed
    have first: "own_page vm L vm' L' e (load32 (vm_mem vm') (t + 4 * j))"
    proof -
      have "load32 (vm_mem vm') (t + 4 * j) = make_L2_page_entry p 0xFF 1 1" using ih(5) [OF jn(2)] si(3) c(8) [OF jn(2)] by simp
      moreover have "p \<in> L' - L" "p \<in> used (cls (vm_ka vm') 8)" using g2(1) g2(2) [of 8] c(2,3) by auto
      ultimately show ?thesis using kept c(9) unfolding own_page_def by auto
    qed
    have slots: "if slot_in j (Suc n) i \<and> load32 ?m (t + 4 * i) AND 3 = 2
        then own_page vm L vm' L' (load32 ?m (t + 4 * i)) (load32 (vm_mem vm') (t + 4 * i))
        else load32 (vm_mem vm') (t + 4 * i) = load32 ?m (t + 4 * i)" if i: "unat i < 256" for i
    proof (cases "i = j")
      case True
      then show ?thesis using first \<open>e AND 3 = 2\<close> si(2) by (simp add: e_def)
    next
      case False
      have l1: "load32 (vm_mem vm1) (t + 4 * i) = load32 ?m (t + 4 * i)" using c(8) [OF i] False by simp
      show ?thesis
      proof (cases "slot_in j (Suc n) i \<and> load32 ?m (t + 4 * i) AND 3 = 2")
        case True
        then have "own_page vm1 (insert p L) vm' L' (load32 ?m (t + 4 * i)) (load32 (vm_mem vm') (t + 4 * i))"
          using ih(5) [OF i] False si(2) unfolding l1 by simp
        then show ?thesis using own Suc.prems(5) True by simp
      next
        case no: False
        then show ?thesis using ih(5) [OF i] False si(2) unfolding l1 by auto
      qed
    qed
    have avs: "avail (vm_ka vm') fl' c = (if c = 8 then avail (vm_ka vm) fl 8 - pages_from (Suc n) j t ?m else avail (vm_ka vm) fl c)" if "c < 21" for c
      using ih(4) [OF that] c(7) [OF that] c(7) [of 8] pf pf1 by simp
    show ?thesis unfolding ex Let_def using ih(1,2) g avs slots by blast
  qed
qed

section \<open>The tables\<close>

text \<open>Blocks in use, and pages that can be copied, keep their bytes when only new blocks and a first-level table are written.\<close>

lemma kept_block:
  assumes "grows (in_block nl 16384) vm L vm' L'" "kinv (vm_ka vm') fl' L'" "nl \<in> used (cls (vm_ka vm') 10)"
    "c < 21" "c \<noteq> 10" "q \<in> L" "q \<in> used (cls (vm_ka vm') c)" "in_block q (unat (block_size (cls (vm_ka vm') c))) x"
  shows "vm_mem vm' x = vm_mem vm x"
proof (rule growsD(5) [OF assms(1)])
  have ok: "classes_ok (vm_ka vm')" using assms(2) by (simp add: kinv_def)
  show "\<not> in_blocks (vm_ka vm') (L' - L) x" by (rule not_in_blocks [OF assms(2,4,7) _ assms(8)]) (use assms(6) in simp)
  have "q \<noteq> nl" using used_disjoint [OF ok assms(4), of 10 q] assms(3,5,7) by auto
  then show "\<not> in_block nl 16384 x" using blocks_apart [OF assms(2,4) _ assms(7,3) _ assms(8)] table_classes(6) [OF ok] by simp
qed

lemma kept_src:
  assumes "grows (in_block nl 16384) vm L vm' L'" "kinv (vm_ka vm') fl' L'" "nl \<in> used (cls (vm_ka vm') 10)"
    "page_src (vm_ka vm) L s" "in_block s 4096 x"
  shows "vm_mem vm' x = vm_mem vm x"
proof (cases "0xFFF00000 \<le> s")
  case True
  have ok: "classes_ok (vm_ka vm')" using assms(2) by (simp add: kinv_def)
  have x: "0xFFF00000 \<le> unat x" using assms(5) True by (simp add: in_block_def word_le_nat_alt)
  show ?thesis
  proof (rule growsD(5) [OF assms(1)])
    show "\<not> in_blocks (vm_ka vm') (L' - L) x" by (rule high_not_in_blocks [OF assms(2) x])
    show "\<not> in_block nl 16384 x" using block_bounds(2) [OF assms(2) _ assms(3)] table_classes(6) [OF ok] x by (simp add: in_block_def)
  qed
next
  case False
  have ok: "classes_ok (vm_ka vm')" using assms(2) by (simp add: kinv_def)
  have "s \<in> L" "s \<in> used (cls (vm_ka vm') 8)" using assms(4) False growsD(2) [OF assms(1), of 8] by (auto simp: page_src_def)
  then show ?thesis by (intro kept_block [OF assms(1-3), of 8 s]) (use assms(5) table_classes(5) [OF ok] in simp_all)
qed

lemma kept_slot:
  assumes "grows (in_block nl 16384) vm L vm' L'" "kinv (vm_ka vm') fl' L'" "nl \<in> used (cls (vm_ka vm') 10)"
    "t \<in> L" "t \<in> used (cls (vm_ka vm') 6)" "unat j < 256"
  shows "load32 (vm_mem vm') (t + 4 * j) = load32 (vm_mem vm) (t + 4 * j)"
proof -
  have ok: "classes_ok (vm_ka vm')" using assms(2) by (simp add: kinv_def)
  have tb: "unat t + 4 * 256 \<le> 4294967296" using block_bounds(2) [OF assms(2) _ assms(5)] table_classes(4) [OF ok] by simp
  note sl = slot_in_block [OF tb assms(6), simplified]
  show ?thesis
  proof (rule load32_block [OF _ sl(1)])
    show "vm_mem vm' x = vm_mem vm x" if "in_block t 1024 x" for x
      by (rule kept_block [OF assms(1-3) _ _ assms(4,5)]) (use that table_classes(4) [OF ok] in simp_all)
    show "unat (t + 4 * j) + 3 < unat t + 1024" using sl(2) by linarith
  qed (use tb in simp)
qed

text \<open>An entry of the child for a table that was copied.\<close>

definition own_table :: "vm_state \<Rightarrow> u32 set \<Rightarrow> vm_state \<Rightarrow> u32 set \<Rightarrow> u32 \<Rightarrow> u32 \<Rightarrow> bool" where
  "own_table vm L vm' L' e e' \<longleftrightarrow> (\<exists>t \<in> L' - L. t \<in> used (cls (vm_ka vm') 6) \<and> e' = (t AND 0xFFFFFC00) OR (e AND 0x3FF)
     \<and> (\<forall>j. unat j < 256 \<longrightarrow> (let p = load32 (vm_mem vm) ((e AND 0xFFFFFC00) + 4 * j); p' = load32 (vm_mem vm') (t + 4 * j)
          in if p AND 3 = 2 then own_page vm L vm' L' p p' else p' = p)))"

text \<open>A table that can be copied.\<close>

definition table_src :: "vm_state \<Rightarrow> u32 set \<Rightarrow> u32 \<Rightarrow> bool" where
  "table_src vm L b \<longleftrightarrow> b \<in> L \<and> b \<in> used (cls (vm_ka vm) 6)
     \<and> (\<forall>j. unat j < 256 \<longrightarrow> load32 (vm_mem vm) (b + 4 * j) AND 3 = 2 \<longrightarrow> page_src (vm_ka vm) L (load32 (vm_mem vm) (b + 4 * j) AND 0xFFFFF000))"

lemma own_page_later:
  assumes "own_page vm L vm1 L1 e e'" "grows (in_block nl 16384) vm1 L1 vm2 L2" "kinv (vm_ka vm2) fl2 L2" "nl \<in> used (cls (vm_ka vm2) 10)" "L \<subseteq> L1"
  shows "own_page vm L vm2 L2 e e'"
proof -
  have ok: "classes_ok (vm_ka vm2)" using assms(3) by (simp add: kinv_def)
  obtain q where q: "q \<in> L1 - L" "q \<in> used (cls (vm_ka vm1) 8)" "e' = make_L2_page_entry q 0xFF 1 1"
    "\<And>n. n < 4096 \<Longrightarrow> vm_mem vm1 (q + of_nat n) = vm_mem vm ((e AND 0xFFFFF000) + of_nat n)" using assms(1) by (auto simp: own_page_def)
  have q8: "q \<in> used (cls (vm_ka vm2) 8)" using q(2) growsD(2) [OF assms(2), of 8] by auto
  have qb: "unat q + 4096 \<le> 4294967296" using block_bounds(2) [OF assms(3) _ q8] table_classes(5) [OF ok] by simp
  have "vm_mem vm2 (q + of_nat n) = vm_mem vm1 (q + of_nat n)" if "n < 4096" for n
    by (rule kept_block [OF assms(2-4) _ _ _ q8]) (use q(1) offset_in_block [OF that qb] table_classes(5) [OF ok] in simp_all)
  moreover have "q \<in> L2 - L" using q(1) growsD(1) [OF assms(2)] by auto
  ultimately show ?thesis using q q8 unfolding own_page_def by auto
qed

lemma own_table_later:
  assumes "own_table vm L vm1 L1 e e'" "grows (in_block nl 16384) vm1 L1 vm2 L2" "kinv (vm_ka vm2) fl2 L2" "nl \<in> used (cls (vm_ka vm2) 10)" "L \<subseteq> L1"
  shows "own_table vm L vm2 L2 e e'"
proof -
  obtain t where t: "t \<in> L1 - L" "t \<in> used (cls (vm_ka vm1) 6)" "e' = (t AND 0xFFFFFC00) OR (e AND 0x3FF)"
    "\<And>j. unat j < 256 \<Longrightarrow> if load32 (vm_mem vm) ((e AND 0xFFFFFC00) + 4 * j) AND 3 = 2
        then own_page vm L vm1 L1 (load32 (vm_mem vm) ((e AND 0xFFFFFC00) + 4 * j)) (load32 (vm_mem vm1) (t + 4 * j))
        else load32 (vm_mem vm1) (t + 4 * j) = load32 (vm_mem vm) ((e AND 0xFFFFFC00) + 4 * j)"
    using assms(1) unfolding own_table_def Let_def by blast
  have t6: "t \<in> used (cls (vm_ka vm2) 6)" using t(2) growsD(2) [OF assms(2), of 6] by auto
  have l: "load32 (vm_mem vm2) (t + 4 * j) = load32 (vm_mem vm1) (t + 4 * j)" if "unat j < 256" for j
    by (rule kept_slot [OF assms(2-4) _ t6 that]) (use t(1) in simp)
  have "if load32 (vm_mem vm) ((e AND 0xFFFFFC00) + 4 * j) AND 3 = 2
      then own_page vm L vm2 L2 (load32 (vm_mem vm) ((e AND 0xFFFFFC00) + 4 * j)) (load32 (vm_mem vm2) (t + 4 * j))
      else load32 (vm_mem vm2) (t + 4 * j) = load32 (vm_mem vm) ((e AND 0xFFFFFC00) + 4 * j)" if "unat j < 256" for j
    using t(4) [OF that] own_page_later [OF _ assms(2-5)] unfolding l [OF that] by (auto split: if_splits)
  moreover have "t \<in> L2 - L" using t(1) growsD(1) [OF assms(2)] by auto
  ultimately show ?thesis using t(3) t6 unfolding own_table_def Let_def by blast
qed

lemma own_table_earlier:
  assumes "own_table vm1 L1 vm2 L2 e e'" "grows (in_block nl 16384) vm L vm1 L1" "kinv (vm_ka vm1) fl1 L1" "nl \<in> used (cls (vm_ka vm1) 10)"
    "table_src vm L (e AND 0xFFFFFC00)"
  shows "own_table vm L vm2 L2 e e'"
proof -
  let ?b = "e AND 0xFFFFFC00"
  have b: "?b \<in> L" "?b \<in> used (cls (vm_ka vm1) 6)" using assms(5) growsD(2) [OF assms(2), of 6] by (auto simp: table_src_def)
  have l: "load32 (vm_mem vm1) (?b + 4 * j) = load32 (vm_mem vm) (?b + 4 * j)" if "unat j < 256" for j
    by (rule kept_slot [OF assms(2-4) b that])
  obtain t where t: "t \<in> L2 - L1" "t \<in> used (cls (vm_ka vm2) 6)" "e' = (t AND 0xFFFFFC00) OR (e AND 0x3FF)"
    "\<And>j. unat j < 256 \<Longrightarrow> if load32 (vm_mem vm1) (?b + 4 * j) AND 3 = 2
        then own_page vm1 L1 vm2 L2 (load32 (vm_mem vm1) (?b + 4 * j)) (load32 (vm_mem vm2) (t + 4 * j))
        else load32 (vm_mem vm2) (t + 4 * j) = load32 (vm_mem vm1) (?b + 4 * j)"
    using assms(1) unfolding own_table_def Let_def by blast
  have own: "own_page vm L vm2 L2 p p'" if "own_page vm1 L1 vm2 L2 p p'" "page_src (vm_ka vm) L (p AND 0xFFFFF000)" for p p'
  proof -
    have "vm_mem vm1 ((p AND 0xFFFFF000) + of_nat n) = vm_mem vm ((p AND 0xFFFFF000) + of_nat n)" if "n < 4096" for n
      by (rule kept_src [OF assms(2-4) \<open>page_src (vm_ka vm) L (p AND 0xFFFFF000)\<close> offset_in_block [OF that page_src_bound]]) fact
    then show ?thesis using that(1) growsD(1) [OF assms(2)] unfolding own_page_def by fastforce
  qed
  have "if load32 (vm_mem vm) (?b + 4 * j) AND 3 = 2
      then own_page vm L vm2 L2 (load32 (vm_mem vm) (?b + 4 * j)) (load32 (vm_mem vm2) (t + 4 * j))
      else load32 (vm_mem vm2) (t + 4 * j) = load32 (vm_mem vm) (?b + 4 * j)" if "unat j < 256" for j
    using t(4) [OF that] own assms(5) that unfolding l [OF that] table_src_def by (auto split: if_splits)
  moreover have "t \<in> L2 - L" using t(1) growsD(1) [OF assms(2)] by auto
  ultimately show ?thesis using t(2,3) unfolding own_table_def Let_def by blast
qed

text \<open>Copying one table with its pages into entry \<open>i\<close> of \<open>nl\<close>.\<close>

lemma copy_table:
  assumes k: "kinv (vm_ka vm) fl L" and nl: "nl \<in> L" "nl \<in> used (cls (vm_ka vm) 10)" and i: "unat i < 4096"
    and src: "table_src vm L (e AND 0xFFFFFC00)"
    and av: "0 < avail (vm_ka vm) fl 6" "pages_from 256 0 (e AND 0xFFFFFC00) (vm_mem vm) \<le> avail (vm_ka vm) fl 8"
  obtains t vm1 vm2 vm3 fl3 L3 where "valloc 1024 vm = Some (t, vm1)"
    "fork_pages 256 0 t (vm1\<lparr>vm_mem := memcpy t (e AND 0xFFFFFC00) 1024 (vm_mem vm1)\<rparr>) = Some vm2"
    "vm3 = vm2\<lparr>vm_mem := store32 (nl + 4 * i) ((t AND 0xFFFFFC00) OR (e AND 0x3FF)) (vm_mem vm2)\<rparr>"
    "kinv (vm_ka vm3) fl3 L3" "grows (in_block nl 16384) vm L vm3 L3"
    "avail (vm_ka vm3) fl3 6 = avail (vm_ka vm) fl 6 - 1"
    "avail (vm_ka vm3) fl3 8 = avail (vm_ka vm) fl 8 - pages_from 256 0 (e AND 0xFFFFFC00) (vm_mem vm)"
    "own_table vm L vm3 L3 e (load32 (vm_mem vm3) (nl + 4 * i))"
    "\<And>j. unat j < 4096 \<Longrightarrow> j \<noteq> i \<Longrightarrow> load32 (vm_mem vm3) (nl + 4 * j) = load32 (vm_mem vm) (nl + 4 * j)"
proof -
  let ?b = "e AND 0xFFFFFC00" and ?m = "vm_mem vm"
  have ok: "classes_ok (vm_ka vm)" using k by (simp add: kinv_def)
  have b: "?b \<in> L" "?b \<in> used (cls (vm_ka vm) 6)" using src by (simp_all add: table_src_def)
  obtain t k' fl1 where a: "valloc 1024 vm = Some (t, vm\<lparr>vm_ka := k'\<rparr>)" "t \<notin> L" "t \<in> used (cls k' 6)" "kinv k' fl1 (insert t L)"
    "\<And>c. c < 21 \<Longrightarrow> avail k' fl1 c = (if c = 6 then avail (vm_ka vm) fl 6 - 1 else avail (vm_ka vm) fl c)"
    "\<And>c. c < 21 \<Longrightarrow> used (cls (vm_ka vm) c) \<subseteq> used (cls k' c)"
    "\<And>x. in_block t (unat (1024 :: u32)) x \<Longrightarrow> in_blocks k' {t} x" "\<And>x S. t \<notin> S \<Longrightarrow> in_block t (unat (1024 :: u32)) x \<Longrightarrow> \<not> in_blocks k' S x"
    "unat t + unat (1024 :: u32) \<le> 0xCCBD0000" "0xC1010000 \<le> unat t"
    by (rule alloc_block [OF k table_classes(1) [OF ok] av(1) table_classes(4) [OF ok]]) blast
  have ok': "classes_ok k'" using a(4) by (simp add: kinv_def)
  have bu: "?b \<in> used (cls k' 6)" using b(2) a(6) [of 6] by auto
  have bb: "unat ?b + 1024 \<le> 0xCCBD0000" "0xC1010000 \<le> unat ?b"
    using block_bounds [OF k _ b(2)] table_classes(4) [OF ok] by simp_all
  have bt: "\<not> in_block t 1024 x" if "in_block ?b 1024 x" for x
    using blocks_apart [OF a(4) _ _ bu a(3), of x] table_classes(4) [OF ok'] that a(2) b(1) by auto
  have nz: "t \<noteq> 0" "?b \<noteq> 0" using a(10) bb(2) by auto
  let ?mt = "memcpy t ?b 1024 ?m"
  have cp: "?mt x = (if in_block t 1024 x then ?m (?b + (x - t)) else ?m x)" for x
    by (rule memcpy_page [OF bt]) (use a(9) bb nz in simp_all)
  define vma where "vma = vm\<lparr>vm_ka := k', vm_mem := ?mt\<rparr>"
  have ka: "kinv (vm_ka vma) fl1 (insert t L)" "t \<in> insert t L" "t \<in> used (cls (vm_ka vma) 6)" using a(3,4) by (simp_all add: vma_def)
  have tn: "insert t L - L = {t}" using a(2) by auto
  have ga: "grows (in_block nl 16384) vm L vma (insert t L)"
    unfolding grows_def tn using a(6,7) cp by (auto simp: vma_def)
  have tb: "unat t + 4 * 256 \<le> 4294967296" using a(9) by simp
  have bb4: "unat ?b + 4 * 256 \<le> 4294967296" using bb by simp
  have lt: "load32 ?mt (t + 4 * j) = load32 ?m (?b + 4 * j)" if "unat j < 256" for j
  proof -
    have "?mt (t + 4 * j + of_nat d) = ?m (?b + 4 * j + of_nat d)" if "d \<le> 3" for d
    proof -
      have u: "unat (t + 4 * j) = unat t + 4 * unat j" by (rule slot_unat [OF tb \<open>unat j < 256\<close>])
      have "unat (t + 4 * j + of_nat d) = unat t + 4 * unat j + d"
        using u \<open>unat j < 256\<close> that a(9) by (subst unat_plus_small) simp_all
      then have "in_block t 1024 (t + 4 * j + of_nat d)" using \<open>unat j < 256\<close> that by (simp add: in_block_def)
      then show ?thesis unfolding cp by (simp add: algebra_simps)
    qed
    from this [of 0] this [of 1] this [of 2] this [of 3] show ?thesis by (simp add: load32_def add.assoc)
  qed
  have srcs: "page_src (vm_ka vma) (insert t L) (load32 (vm_mem vma) (t + 4 * j) AND 0xFFFFF000)"
    if "slot_in 0 256 j" "load32 (vm_mem vma) (t + 4 * j) AND 3 = 2" for j
  proof -
    have j: "unat j < 256" using that(1) by (simp add: slot_in_def)
    have "page_src (vm_ka vm) L (load32 ?m (?b + 4 * j) AND 0xFFFFF000)"
      using src j that(2) lt [OF j] unfolding table_src_def by (simp add: vma_def)
    then show ?thesis using page_src_mono [OF _ _ a(6) [of 8], of L _ "insert t L"] lt [OF j] by (auto simp: vma_def)
  qed
  have pf: "pages_from 256 0 t (vm_mem vma) = pages_from 256 0 ?b ?m"
  proof -
    have "pages_from n j t ?mt = pages_from n j ?b ?m" if "unat j + n \<le> 256" for n j
      using that
    proof (induction n arbitrary: j)
      case (Suc n)
      have "unat (j + 1) = unat j + 1" using Suc.prems by (subst unat_add_no_wrap) simp_all
      then show ?case using Suc.IH [of "j + 1"] Suc.prems lt [of j] by simp
    qed simp
    from this [of 0 256] show ?thesis by (simp add: vma_def)
  qed
  have av8: "pages_from 256 0 t (vm_mem vma) \<le> avail (vm_ka vma) fl1 8" using av(2) a(5) [of 8] pf by (simp add: vma_def)
  have "unat (0 :: u32) + 256 \<le> 256" by simp
  from fork_pages_law [OF ka this srcs av8] obtain vm2 fl2 L2 where p: "fork_pages 256 0 t vma = Some vm2" "kinv (vm_ka vm2) fl2 L2"
    "grows (in_block t 1024) vma (insert t L) vm2 L2"
    "\<And>c. c < 21 \<Longrightarrow> avail (vm_ka vm2) fl2 c = (if c = 8 then avail (vm_ka vma) fl1 8 - pages_from 256 0 t (vm_mem vma) else avail (vm_ka vma) fl1 c)"
    "\<And>j. unat j < 256 \<Longrightarrow> if slot_in 0 256 j \<and> load32 (vm_mem vma) (t + 4 * j) AND 3 = 2
          then own_page vma (insert t L) vm2 L2 (load32 (vm_mem vma) (t + 4 * j)) (load32 (vm_mem vm2) (t + 4 * j))
          else load32 (vm_mem vm2) (t + 4 * j) = load32 (vm_mem vma) (t + 4 * j)" unfolding Let_def by blast
  note g2 = growsD [OF p(3)]
  have ok2: "classes_ok (vm_ka vm2)" using p(2) by (simp add: kinv_def)
  have t2: "t \<in> L2" "t \<in> used (cls (vm_ka vm2) 6)" using g2(1) g2(2) [of 6] ka(3) by auto
  have tin: "in_blocks (vm_ka vm2) (L2 - L) x" if "in_block t 1024 x" for x
    unfolding in_blocks_def by (rule exI [of _ 6]) (use t2 a(2) that table_classes(4) [OF ok2] in auto)
  have inj: "in_blocks (vm_ka vm2) (L2 - L) x" if "in_blocks (vm_ka vm2) (L2 - insert t L) x" for x
    using in_blocks_mono [OF that _ ok2 ok2] by auto
  have g02: "grows (in_block nl 16384) vm L vm2 L2"
  proof -
    have "vm_mem vm2 x = ?m x" if "\<not> in_blocks (vm_ka vm2) (L2 - L) x" for x
    proof -
      have nt: "\<not> in_block t 1024 x" using tin that by blast
      then show ?thesis using g2(5) [of x] inj that cp by (auto simp: vma_def)
    qed
    moreover have "L \<subseteq> L2" "vm_active vm2 = vm_active vm" "vm_kuser vm2 = vm_kuser vm" using g2(1,3,4) by (auto simp: vma_def)
    moreover have "used (cls (vm_ka vm) c) \<subseteq> used (cls (vm_ka vm2) c)" if "c < 21" for c
      using a(6) [OF that] g2(2) [OF that] by (auto simp: vma_def)
    ultimately show ?thesis unfolding grows_def by blast
  qed
  define vm3 where "vm3 = vm2\<lparr>vm_mem := store32 (nl + 4 * i) ((t AND 0xFFFFFC00) OR (e AND 0x3FF)) (vm_mem vm2)\<rparr>"
  have nl2: "nl \<in> used (cls (vm_ka vm2) 10)" "nl \<in> L2" using nl growsD(1) [OF g02] growsD(2) [OF g02, of 10] by auto
  have nb: "unat nl + 4 * 4096 \<le> 4294967296" using block_bounds(2) [OF p(2) _ nl2(1)] table_classes(6) [OF ok2] by simp
  have out: "vm_mem vm3 x = vm_mem vm2 x" if "\<not> in_block nl 16384 x" for x
    using store_slot_outside [OF nb i] that by (simp add: vm3_def)
  have g23: "grows (in_block nl 16384) vm2 L2 vm3 L2" unfolding grows_def using out by (simp add: vm3_def)
  have k3: "kinv (vm_ka vm3) fl2 L2" using p(2) by (simp add: vm3_def)
  have nl3: "nl \<in> used (cls (vm_ka vm3) 10)" using nl2 by (simp add: vm3_def)
  have ok3: "classes_ok (vm_ka vm3)" using ok2 by (simp add: vm3_def)
  have g: "grows (in_block nl 16384) vm L vm3 L2" by (rule grows_trans [OF g02 g23 ok2 ok3])
  have nlv: "load32 (vm_mem vm2) (nl + 4 * j) = load32 ?m (nl + 4 * j)" if j: "unat j < 4096" for j
  proof -
    note sl = slot_in_block [OF nb j, simplified]
    show ?thesis
    proof (rule load32_block [OF _ sl(1)])
      show "vm_mem vm2 x = ?m x" if x: "in_block nl 16384 x" for x
      proof -
        have nlk: "nl \<in> used (cls k' 10)" "t \<noteq> nl" using nl a(2) a(6) [of 10] by auto
        have "\<not> in_block t 1024 x" using blocks_apart [OF a(4) _ _ nlk(1) a(3)] x nlk(2) table_classes [OF ok'] by auto
        moreover have "\<not> in_blocks (vm_ka vm2) (L2 - insert t L) x"
          by (rule not_in_blocks [OF p(2) _ nl2(1)]) (use nl(1) x table_classes(6) [OF ok2] in auto)
        ultimately show ?thesis using g2(5) [of x] cp by (simp add: vma_def)
      qed
      show "unat (nl + 4 * j) + 3 < unat nl + 16384" using sl(2) by linarith
    qed (use nb in simp)
  qed
  have others: "load32 (vm_mem vm3) (nl + 4 * j) = load32 ?m (nl + 4 * j)" if "unat j < 4096" "j \<noteq> i" for j
    using store_slot_other [OF nb i that(1)] that(2) nlv [OF that(1)] by (simp add: vm3_def)
  have own2: "own_page vm L vm3 L2 q q'" if "own_page vma (insert t L) vm2 L2 q q'" "page_src (vm_ka vm) L (q AND 0xFFFFF000)" for q q'
  proof -
    have "vm_mem vma ((q AND 0xFFFFF000) + of_nat n) = ?m ((q AND 0xFFFFF000) + of_nat n)" if "n < 4096" for n
      by (rule kept_src [OF ga ka(1) _ \<open>page_src (vm_ka vm) L (q AND 0xFFFFF000)\<close> offset_in_block [OF that page_src_bound]])
        (use \<open>page_src (vm_ka vm) L (q AND 0xFFFFF000)\<close> nl(2) a(6) [of 10] in \<open>auto simp: vma_def\<close>)
    then have "own_page vm L vm2 L2 q q'" using that(1) unfolding own_page_def by fastforce
    then show ?thesis by (rule own_page_later [OF _ g23 k3 nl3]) (use growsD(1) [OF g02] in blast)
  qed
  have l3: "load32 (vm_mem vm3) (t + 4 * j) = load32 (vm_mem vm2) (t + 4 * j)" if "unat j < 256" for j
    by (rule kept_slot [OF g23 k3 nl3 t2(1) _ that]) (use t2(2) in \<open>simp add: vm3_def\<close>)
  have ent: "load32 (vm_mem vm3) (nl + 4 * i) = (t AND 0xFFFFFC00) OR (e AND 0x3FF)" by (simp add: vm3_def load32_store32)
  have slots: "if load32 ?m (?b + 4 * j) AND 3 = 2 then own_page vm L vm3 L2 (load32 ?m (?b + 4 * j)) (load32 (vm_mem vm3) (t + 4 * j))
      else load32 (vm_mem vm3) (t + 4 * j) = load32 ?m (?b + 4 * j)" if j: "unat j < 256" for j
  proof -
    have s: "slot_in 0 256 j" using j by (simp add: slot_in_def)
    have l: "load32 (vm_mem vma) (t + 4 * j) = load32 ?m (?b + 4 * j)" using lt [OF j] by (simp add: vma_def)
    show ?thesis using p(5) [OF j] s own2 src j unfolding l l3 [OF j] table_src_def by (auto split: if_splits)
  qed
  have own: "own_table vm L vm3 L2 e (load32 (vm_mem vm3) (nl + 4 * i))"
  proof -
    have "t \<in> used (cls (vm_ka vm3) 6)" using t2(2) by (simp add: vm3_def)
    then show ?thesis unfolding own_table_def Let_def ent by (intro bexI [of _ t] conjI allI impI slots) (use t2(1) a(2) in simp_all)
  qed
  have avs: "avail (vm_ka vm3) fl2 6 = avail (vm_ka vm) fl 6 - 1" "avail (vm_ka vm3) fl2 8 = avail (vm_ka vm) fl 8 - pages_from 256 0 ?b ?m"
    using p(4) [of 6] p(4) [of 8] a(5) [of 6] a(5) [of 8] pf by (simp_all add: vm3_def vma_def)
  have pv: "fork_pages 256 0 t ((vm\<lparr>vm_ka := k'\<rparr>)\<lparr>vm_mem := memcpy t ?b 1024 (vm_mem (vm\<lparr>vm_ka := k'\<rparr>))\<rparr>) = Some vm2"
    using p(1) by (simp add: vma_def)
  show thesis by (rule that [OF a(1) pv vm3_def k3 g avs own others])
qed

text \<open>The loop over the first-level table: which entries it copies, and how many tables and pages that takes.\<close>

definition forked :: "u32 \<Rightarrow> u32 \<Rightarrow> bool" where
  "forked i e \<longleftrightarrow> \<not> (512 \<le> i \<and> i < 516) \<and> e AND 3 = 1"

fun fork_need :: "nat \<Rightarrow> u32 \<Rightarrow> u32 \<Rightarrow> memory \<Rightarrow> nat \<times> nat" where
  "fork_need 0 i nl m = (0, 0)"
| "fork_need (Suc n) i nl m = (let e = load32 m (nl + 4 * i) in case fork_need n (i + 1) nl m of (a, b) \<Rightarrow>
     if forked i e then (a + 1, b + pages_from 256 0 (e AND 0xFFFFFC00) m) else (a, b))"

lemma fork_need_cong:
  assumes "unat i + n \<le> 4096" "\<And>j. slot_in i n j \<Longrightarrow> load32 m' (nl' + 4 * j) = load32 m (nl + 4 * j)"
    "\<And>j. slot_in i n j \<Longrightarrow> forked j (load32 m (nl + 4 * j)) \<Longrightarrow>
      pages_from 256 0 (load32 m (nl + 4 * j) AND 0xFFFFFC00) m' = pages_from 256 0 (load32 m (nl + 4 * j) AND 0xFFFFFC00) m"
  shows "fork_need n i nl' m' = fork_need n i nl m"
  using assms
proof (induction n arbitrary: i)
  case 0
  then show ?case by simp
next
  case (Suc n)
  note s = slot_in_next [OF Suc.prems(1)]
  have "fork_need n (i + 1) nl' m' = fork_need n (i + 1) nl m" by (rule Suc.IH) (use Suc.prems s in auto)
  moreover have "load32 m' (nl' + 4 * i) = load32 m (nl + 4 * i)" by (rule Suc.prems(2)) (simp add: s(2))
  moreover have "forked i (load32 m (nl + 4 * i)) \<Longrightarrow>
      pages_from 256 0 (load32 m (nl + 4 * i) AND 0xFFFFFC00) m' = pages_from 256 0 (load32 m (nl + 4 * i) AND 0xFFFFFC00) m"
    by (rule Suc.prems(3)) (simp_all add: s(2))
  ultimately show ?case by (simp add: Let_def split: prod.split)
qed

lemma table_src_later:
  assumes "table_src vm L b" "grows (in_block nl 16384) vm L vm' L'" "kinv (vm_ka vm') fl' L'" "nl \<in> used (cls (vm_ka vm') 10)"
  shows "table_src vm' L' b" "unat j < 256 \<Longrightarrow> load32 (vm_mem vm') (b + 4 * j) = load32 (vm_mem vm) (b + 4 * j)"
    "pages_from 256 0 b (vm_mem vm') = pages_from 256 0 b (vm_mem vm)"
proof -
  note g = growsD [OF assms(2)]
  have b: "b \<in> L" "b \<in> used (cls (vm_ka vm') 6)" using assms(1) g(2) [of 6] by (auto simp: table_src_def)
  have l: "load32 (vm_mem vm') (b + 4 * j) = load32 (vm_mem vm) (b + 4 * j)" if "unat j < 256" for j
    by (rule kept_slot [OF assms(2-4) b that])
  then show "unat j < 256 \<Longrightarrow> load32 (vm_mem vm') (b + 4 * j) = load32 (vm_mem vm) (b + 4 * j)" .
  show "table_src vm' L' b" using b g(1) page_src_mono [OF _ g(1) g(2) [of 8]] assms(1) l by (auto simp: table_src_def)
  show "pages_from 256 0 b (vm_mem vm') = pages_from 256 0 b (vm_mem vm)"
    by (rule pages_from_cong) (use l in \<open>simp_all add: slot_in_def\<close>)
qed

lemma fork_tables_law:
  assumes "kinv (vm_ka vm) fl L" "nl \<in> L" "nl \<in> used (cls (vm_ka vm) 10)" "unat i + n \<le> 4096"
    "\<And>j. slot_in i n j \<Longrightarrow> forked j (load32 (vm_mem vm) (nl + 4 * j)) \<Longrightarrow> table_src vm L (load32 (vm_mem vm) (nl + 4 * j) AND 0xFFFFFC00)"
    "fst (fork_need n i nl (vm_mem vm)) \<le> avail (vm_ka vm) fl 6" "snd (fork_need n i nl (vm_mem vm)) \<le> avail (vm_ka vm) fl 8"
  shows "\<exists>vm' fl' L'. fork_tables n i nl vm = Some vm' \<and> kinv (vm_ka vm') fl' L' \<and> grows (in_block nl 16384) vm L vm' L'
    \<and> (\<forall>j. unat j < 4096 \<longrightarrow> (let e = load32 (vm_mem vm) (nl + 4 * j); e' = load32 (vm_mem vm') (nl + 4 * j) in
          if slot_in i n j \<and> forked j e then own_table vm L vm' L' e e' else e' = e))"
  using assms
proof (induction n arbitrary: i vm fl L)
  case 0
  have "\<not> slot_in i 0 j" for j by (simp add: slot_in_def)
  then show ?case using 0(1) grows_refl by (intro exI [of _ vm] exI [of _ fl] exI [of _ L]) (simp add: Let_def)
next
  case (Suc n)
  have jn: "unat i < 4096" using Suc.prems(4) by simp
  note si = slot_in_next [OF Suc.prems(4)]
  let ?m = "vm_mem vm"
  define e where "e = load32 ?m (nl + 4 * i)"
  show ?case
  proof (cases "forked i e")
    case False
    have ex: "fork_tables (Suc n) i nl vm = fork_tables n (i + 1) nl vm" using False by (auto simp: e_def Let_def forked_def)
    have pf: "fork_need (Suc n) i nl ?m = fork_need n (i + 1) nl ?m" using False by (simp add: e_def Let_def split: prod.split)
    have ih: "\<exists>vm' fl' L'. fork_tables n (i + 1) nl vm = Some vm' \<and> kinv (vm_ka vm') fl' L' \<and> grows (in_block nl 16384) vm L vm' L'
      \<and> (\<forall>j. unat j < 4096 \<longrightarrow> (let e = load32 ?m (nl + 4 * j); e' = load32 (vm_mem vm') (nl + 4 * j) in
            if slot_in (i + 1) n j \<and> forked j e then own_table vm L vm' L' e e' else e' = e))"
    proof (rule Suc.IH [OF Suc.prems(1-3)])
      show "table_src vm L (load32 ?m (nl + 4 * j) AND 0xFFFFFC00)" if "slot_in (i + 1) n j" "forked j (load32 ?m (nl + 4 * j))" for j
        by (rule Suc.prems(5)) (use that si(2) in simp_all)
    qed (use Suc.prems(4,6,7) si pf in simp_all)
    have sl: "slot_in i (Suc n) j \<and> forked j (load32 ?m (nl + 4 * j)) \<longleftrightarrow> slot_in (i + 1) n j \<and> forked j (load32 ?m (nl + 4 * j))" for j
      using False si(2) by (auto simp: e_def)
    show ?thesis unfolding ex Let_def sl using ih [unfolded Let_def] .
  next
    case True
    have src: "table_src vm L (e AND 0xFFFFFC00)" unfolding e_def by (rule Suc.prems(5)) (use True si(2) in \<open>simp_all add: e_def\<close>)
    obtain a b where ab: "fork_need n (i + 1) nl ?m = (a, b)" by (metis surj_pair)
    have need: "fork_need (Suc n) i nl ?m = (a + 1, b + pages_from 256 0 (e AND 0xFFFFFC00) ?m)" using True ab by (simp add: e_def [symmetric])
    have nd: "a + 1 \<le> avail (vm_ka vm) fl 6" "b + pages_from 256 0 (e AND 0xFFFFFC00) ?m \<le> avail (vm_ka vm) fl 8"
      using Suc.prems(6,7) unfolding need by simp_all
    then have av: "0 < avail (vm_ka vm) fl 6" "pages_from 256 0 (e AND 0xFFFFFC00) ?m \<le> avail (vm_ka vm) fl 8" by simp_all
    obtain t vm1 vm2 vm3 fl3 L3 where c: "valloc 1024 vm = Some (t, vm1)"
      "fork_pages 256 0 t (vm1\<lparr>vm_mem := memcpy t (e AND 0xFFFFFC00) 1024 (vm_mem vm1)\<rparr>) = Some vm2"
      "vm3 = vm2\<lparr>vm_mem := store32 (nl + 4 * i) ((t AND 0xFFFFFC00) OR (e AND 0x3FF)) (vm_mem vm2)\<rparr>"
      "kinv (vm_ka vm3) fl3 L3" "grows (in_block nl 16384) vm L vm3 L3"
      "avail (vm_ka vm3) fl3 6 = avail (vm_ka vm) fl 6 - 1"
      "avail (vm_ka vm3) fl3 8 = avail (vm_ka vm) fl 8 - pages_from 256 0 (e AND 0xFFFFFC00) ?m"
      "own_table vm L vm3 L3 e (load32 (vm_mem vm3) (nl + 4 * i))"
      "\<And>j. unat j < 4096 \<Longrightarrow> j \<noteq> i \<Longrightarrow> load32 (vm_mem vm3) (nl + 4 * j) = load32 ?m (nl + 4 * j)"
      by (rule copy_table [OF Suc.prems(1-3) jn src av]) blast
    note g3 = growsD [OF c(5)]
    have nl3: "nl \<in> L3" "nl \<in> used (cls (vm_ka vm3) 10)" using Suc.prems(2,3) g3(1) g3(2) [of 10] by auto
    have ld: "load32 (vm_mem vm3) (nl + 4 * j) = load32 ?m (nl + 4 * j)" if "slot_in (i + 1) n j" for j
      by (rule c(9)) (use that si(1,3) Suc.prems(4) in \<open>auto simp: slot_in_def\<close>)
    have later: "table_src vm3 L3 (load32 ?m (nl + 4 * j) AND 0xFFFFFC00)"
      "pages_from 256 0 (load32 ?m (nl + 4 * j) AND 0xFFFFFC00) (vm_mem vm3) = pages_from 256 0 (load32 ?m (nl + 4 * j) AND 0xFFFFFC00) ?m"
      if "slot_in (i + 1) n j" "forked j (load32 ?m (nl + 4 * j))" for j
    proof -
      have "table_src vm L (load32 ?m (nl + 4 * j) AND 0xFFFFFC00)" by (rule Suc.prems(5)) (use that si(2) in simp_all)
      from table_src_later [OF this c(5,4) nl3(2)] show "table_src vm3 L3 (load32 ?m (nl + 4 * j) AND 0xFFFFFC00)"
        "pages_from 256 0 (load32 ?m (nl + 4 * j) AND 0xFFFFFC00) (vm_mem vm3) = pages_from 256 0 (load32 ?m (nl + 4 * j) AND 0xFFFFFC00) ?m" by blast+
    qed
    have need3: "fork_need n (i + 1) nl (vm_mem vm3) = (a, b)"
      unfolding ab [symmetric] by (rule fork_need_cong [OF _ ld later(2)]) (use si(1) Suc.prems(4) in simp)
    have "\<exists>vm' fl' L'. fork_tables n (i + 1) nl vm3 = Some vm' \<and> kinv (vm_ka vm') fl' L' \<and> grows (in_block nl 16384) vm3 L3 vm' L'
      \<and> (\<forall>j. unat j < 4096 \<longrightarrow> (let e = load32 (vm_mem vm3) (nl + 4 * j); e' = load32 (vm_mem vm') (nl + 4 * j) in
            if slot_in (i + 1) n j \<and> forked j e then own_table vm3 L3 vm' L' e e' else e' = e))"
    proof (rule Suc.IH [OF c(4) nl3])
      show "table_src vm3 L3 (load32 (vm_mem vm3) (nl + 4 * j) AND 0xFFFFFC00)"
        if "slot_in (i + 1) n j" "forked j (load32 (vm_mem vm3) (nl + 4 * j))" for j
        using later(1) [OF that(1)] that(2) unfolding ld [OF that(1)] .
    qed (use si(1) Suc.prems(4) nd c(6,7) need3 in simp_all)
    then obtain vm' fl' L' where ih: "fork_tables n (i + 1) nl vm3 = Some vm'" "kinv (vm_ka vm') fl' L'" "grows (in_block nl 16384) vm3 L3 vm' L'"
      "\<And>j. unat j < 4096 \<Longrightarrow> if slot_in (i + 1) n j \<and> forked j (load32 (vm_mem vm3) (nl + 4 * j))
            then own_table vm3 L3 vm' L' (load32 (vm_mem vm3) (nl + 4 * j)) (load32 (vm_mem vm') (nl + 4 * j))
            else load32 (vm_mem vm') (nl + 4 * j) = load32 (vm_mem vm3) (nl + 4 * j)"
      unfolding Let_def by blast
    note g4 = growsD [OF ih(3)]
    have nl4: "nl \<in> used (cls (vm_ka vm') 10)" using nl3(2) g4(2) [of 10] by auto
    have oks: "classes_ok (vm_ka vm3)" "classes_ok (vm_ka vm')" using c(4) ih(2) by (simp_all add: kinv_def)
    have g: "grows (in_block nl 16384) vm L vm' L'" by (rule grows_trans [OF c(5) ih(3) oks])
    have ex: "fork_tables (Suc n) i nl vm = Some vm'"
      using True c(1-3) ih(1) by (simp add: e_def [symmetric] forked_def Let_def)
    have slots: "if slot_in i (Suc n) j \<and> forked j (load32 ?m (nl + 4 * j))
        then own_table vm L vm' L' (load32 ?m (nl + 4 * j)) (load32 (vm_mem vm') (nl + 4 * j))
        else load32 (vm_mem vm') (nl + 4 * j) = load32 ?m (nl + 4 * j)" if j: "unat j < 4096" for j
    proof (cases "j = i")
      case eq: True
      have "load32 (vm_mem vm') (nl + 4 * i) = load32 (vm_mem vm3) (nl + 4 * i)" using ih(4) [OF jn] si(3) by simp
      moreover have "own_table vm L vm' L' e (load32 (vm_mem vm3) (nl + 4 * i))" by (rule own_table_later [OF c(8) ih(3,2) nl4 g3(1)])
      ultimately show ?thesis using eq True si(2) by (simp add: e_def)
    next
      case ne: False
      have l: "load32 (vm_mem vm3) (nl + 4 * j) = load32 ?m (nl + 4 * j)" by (rule c(9) [OF j ne])
      have own: "own_table vm L vm' L' (load32 ?m (nl + 4 * j)) x"
        if "own_table vm3 L3 vm' L' (load32 ?m (nl + 4 * j)) x" "slot_in (i + 1) n j" "forked j (load32 ?m (nl + 4 * j))" for x
        by (rule own_table_earlier [OF that(1) c(5,4) nl3(2)]) (rule Suc.prems(5), use that si(2) in simp_all)
      show ?thesis using ih(4) [OF j] own ne si(2) unfolding l by (auto split: if_splits)
    qed
    show ?thesis unfolding Let_def using ex ih(2) g slots by blast
  qed
qed

section \<open>The copy of a page table\<close>

lemma grows_weaken:
  assumes "grows W vm L vm' L'" "\<And>x. W x \<Longrightarrow> W' x \<or> in_blocks (vm_ka vm') (L' - L) x"
  shows "grows W' vm L vm' L'"
  using assms unfolding grows_def by blast

lemma parent_table_src:
  assumes "pt_inv vm l1 fl live" "i < 4096" "coarse (vm_mem vm) l1 i"
  shows "table_src vm live (tbl (vm_mem vm) l1 i)"
proof -
  note d = pt_invD [OF assms(1)]
  have "page_src (vm_ka vm) live (load32 (vm_mem vm) (tbl (vm_mem vm) l1 i + 4 * j) AND 0xFFFFF000)"
    if j: "unat j < 256" "load32 (vm_mem vm) (tbl (vm_mem vm) l1 i + 4 * j) AND 3 = 2" for j
  proof -
    have "page_ok (vm_ka vm) live (pte (vm_mem vm) l1 i j)" by (rule d(9) [OF assms(2) _ assms(3)]) (use j(1) in \<open>simp add: word_less_nat_alt\<close>)
    moreover have "(x AND 0xFFFFF000) AND 0xFFF = (0 :: u32)" for x unfolding masks by (rule bit_word_eqI) (auto simp: bit_simps)
    ultimately show ?thesis using j(2) by (auto simp: page_ok_def page_src_def pte_def)
  qed
  then show ?thesis using d(6,7) [OF assms(2,3)] by (simp add: table_src_def)
qed

lemma fork_table_law:
  assumes inv: "pt_inv vm l1 fl live" and room: "0 < avail (vm_ka vm) fl 10"
    "fst (fork_need 4095 0 l1 (vm_mem vm)) \<le> avail (vm_ka vm) fl 6" "snd (fork_need 4095 0 l1 (vm_mem vm)) \<le> avail (vm_ka vm) fl 8"
  obtains nl vm' fl' L' where "fork_page_table l1 vm = Some (nl, vm')" "kinv (vm_ka vm') fl' L'" "grows (\<lambda>x. False) vm live vm' L'"
    "nl \<in> L' - live" "nl \<in> used (cls (vm_ka vm') 10)"
    "\<And>j. j < 4096 \<Longrightarrow> if j < 4095 \<and> forked j (e1 (vm_mem vm) l1 j) then own_table vm live vm' L' (e1 (vm_mem vm) l1 j) (e1 (vm_mem vm') nl j)
      else e1 (vm_mem vm') nl j = e1 (vm_mem vm) l1 j"
proof -
  note d = pt_invD [OF inv]
  let ?m = "vm_mem vm"
  obtain nl k' fl1 where a: "valloc 16384 vm = Some (nl, vm\<lparr>vm_ka := k'\<rparr>)" "nl \<notin> live" "nl \<in> used (cls k' 10)" "kinv k' fl1 (insert nl live)"
    "\<And>c. c < 21 \<Longrightarrow> avail k' fl1 c = (if c = 10 then avail (vm_ka vm) fl 10 - 1 else avail (vm_ka vm) fl c)"
    "\<And>c. c < 21 \<Longrightarrow> used (cls (vm_ka vm) c) \<subseteq> used (cls k' c)"
    "\<And>x. in_block nl (unat (16384 :: u32)) x \<Longrightarrow> in_blocks k' {nl} x"
    "unat nl + unat (16384 :: u32) \<le> 0xCCBD0000" "0xC1010000 \<le> unat nl"
    by (rule alloc_block [OF d(1) table_classes(3) [OF d(2)] room(1) table_classes(6) [OF d(2)]]) blast
  have ok': "classes_ok k'" using a(4) by (simp add: kinv_def)
  have l1u: "l1 \<in> used (cls k' 10)" "l1 \<noteq> nl" using d(3,4) a(2) a(6) [of 10] by auto
  have l1b: "unat l1 + 16384 \<le> 0xCCBD0000" "0xC1010000 \<le> unat l1" using block_bounds [OF d(1) _ d(4)] table_classes(6) [OF d(2)] by simp_all
  have ap: "\<not> in_block nl 16384 x" if "in_block l1 16384 x" for x
    using blocks_apart [OF a(4) _ _ l1u(1) a(3) l1u(2), of x] table_classes(6) [OF ok'] that by simp
  have nz: "nl \<noteq> 0" "l1 \<noteq> 0" using a(9) l1b(2) by auto
  let ?mt = "memcpy nl l1 16384 ?m"
  have cp: "?mt x = (if in_block nl 16384 x then ?m (l1 + (x - nl)) else ?m x)" for x
    by (rule memcpy_page [OF ap]) (use a(8) l1b nz in simp_all)
  define vma where "vma = vm\<lparr>vm_ka := k', vm_mem := ?mt\<rparr>"
  have ka: "kinv (vm_ka vma) fl1 (insert nl live)" "nl \<in> insert nl live" "nl \<in> used (cls (vm_ka vma) 10)" using a(3,4) by (simp_all add: vma_def)
  have nd: "insert nl live - live = {nl}" using a(2) by auto
  have ga: "grows (in_block nl 16384) vm live vma (insert nl live)"
    unfolding grows_def nd using a(6,7) cp by (auto simp: vma_def)
  have nb: "unat nl + 4 * 4096 \<le> 4294967296" using a(8) by simp
  have lt: "load32 (vm_mem vma) (nl + 4 * j) = load32 ?m (l1 + 4 * j)" if j: "unat j < 4096" for j
  proof -
    have "?mt (nl + 4 * j + of_nat k) = ?m (l1 + 4 * j + of_nat k)" if "k \<le> 3" for k
    proof -
      have "unat (nl + 4 * j + of_nat k) = unat nl + 4 * unat j + k"
        using slot_unat [OF nb j] j that a(8) by (subst unat_plus_small) simp_all
      then have "in_block nl 16384 (nl + 4 * j + of_nat k)" using j that by (simp add: in_block_def)
      then show ?thesis unfolding cp by (simp add: algebra_simps)
    qed
    from this [of 0] this [of 1] this [of 2] this [of 3] show ?thesis by (simp add: vma_def load32_def add.assoc)
  qed
  have co: "coarse ?m l1 j" "tbl ?m l1 j = load32 ?m (l1 + 4 * j) AND 0xFFFFFC00" if "forked j (load32 ?m (l1 + 4 * j))" for j
    using that by (simp_all add: forked_def coarse_def e1_def tbl_def)
  have s0: "table_src vm live (load32 ?m (l1 + 4 * j) AND 0xFFFFFC00)" if "unat j < 4096" "forked j (load32 ?m (l1 + 4 * j))" for j
    using parent_table_src [OF inv _ co(1) [OF that(2)]] that(1) co(2) [OF that(2)] by (simp add: word_less_nat_alt)
  note later = table_src_later [OF s0 ga ka(1,3)]
  have srcs: "table_src vma (insert nl live) (load32 (vm_mem vma) (nl + 4 * j) AND 0xFFFFFC00)"
    if "slot_in 0 4095 j" "forked j (load32 (vm_mem vma) (nl + 4 * j))" for j
  proof -
    have j: "unat j < 4096" using that(1) by (simp add: slot_in_def)
    show ?thesis using later(1) [OF j] that(2) unfolding lt [OF j] by blast
  qed
  have need: "fork_need 4095 0 nl (vm_mem vma) = fork_need 4095 0 l1 ?m"
  proof (rule fork_need_cong)
    show "load32 (vm_mem vma) (nl + 4 * j) = load32 ?m (l1 + 4 * j)" if "slot_in 0 4095 j" for j
      by (rule lt) (use that in \<open>simp add: slot_in_def\<close>)
    show "pages_from 256 0 (load32 ?m (l1 + 4 * j) AND 0xFFFFFC00) (vm_mem vma) = pages_from 256 0 (load32 ?m (l1 + 4 * j) AND 0xFFFFFC00) ?m"
      if "slot_in 0 4095 j" "forked j (load32 ?m (l1 + 4 * j))" for j
      by (rule later(3)) (use that in \<open>simp_all add: slot_in_def\<close>)
  qed simp
  have av: "fst (fork_need 4095 0 nl (vm_mem vma)) \<le> avail (vm_ka vma) fl1 6" "snd (fork_need 4095 0 nl (vm_mem vma)) \<le> avail (vm_ka vma) fl1 8"
    unfolding need using room(2,3) a(5) [of 6] a(5) [of 8] by (simp_all add: vma_def)
  have "unat (0 :: u32) + 4095 \<le> 4096" by simp
  from fork_tables_law [OF ka this srcs av] obtain vm' fl' L' where f: "fork_tables 4095 0 nl vma = Some vm'" "kinv (vm_ka vm') fl' L'"
    "grows (in_block nl 16384) vma (insert nl live) vm' L'"
    "\<And>j. unat j < 4096 \<Longrightarrow> if slot_in 0 4095 j \<and> forked j (load32 (vm_mem vma) (nl + 4 * j))
        then own_table vma (insert nl live) vm' L' (load32 (vm_mem vma) (nl + 4 * j)) (load32 (vm_mem vm') (nl + 4 * j))
        else load32 (vm_mem vm') (nl + 4 * j) = load32 (vm_mem vma) (nl + 4 * j)" unfolding Let_def by blast
  note g = growsD [OF f(3)]
  have oks: "classes_ok (vm_ka vma)" "classes_ok (vm_ka vm')" using ka(1) f(2) by (simp_all add: kinv_def)
  have nl': "nl \<in> L' - live" "nl \<in> used (cls (vm_ka vm') 10)" using g(1) g(2) [of 10] a(2) ka(3) by auto
  have "in_blocks (vm_ka vm') (L' - live) x" if "in_block nl 16384 x" for x
    unfolding in_blocks_def by (rule exI [of _ 10]) (use nl' that table_classes(6) [OF oks(2)] in auto)
  then have gr: "grows (\<lambda>x. False) vm live vm' L'" by (intro grows_weaken [OF grows_trans [OF ga f(3) oks]]) simp
  have slots: "if j < 4095 \<and> forked j (e1 ?m l1 j) then own_table vm live vm' L' (e1 ?m l1 j) (e1 (vm_mem vm') nl j)
      else e1 (vm_mem vm') nl j = e1 ?m l1 j" if "j < 4096" for j
  proof -
    have j: "unat j < 4096" "slot_in 0 4095 j \<longleftrightarrow> j < 4095" using that by (simp_all add: word_less_nat_alt slot_in_def)
    have own: "own_table vm live vm' L' (load32 ?m (l1 + 4 * j)) x"
      if "own_table vma (insert nl live) vm' L' (load32 ?m (l1 + 4 * j)) x" "forked j (load32 ?m (l1 + 4 * j))" for x
      by (rule own_table_earlier [OF that(1) ga ka(1,3) s0 [OF j(1) that(2)]])
    show ?thesis using f(4) [OF j(1)] own unfolding lt [OF j(1)] j(2) e1_def by (auto split: if_splits)
  qed
  have "fork_page_table l1 vm = Some (nl, vm')"
    using f(1) a(1) by (simp add: fork_page_table_def vma_def)
  then show thesis using that f(2) gr nl' slots by blast
qed

section \<open>Parent and child\<close>

text \<open>The addresses of the parent that the copy gives pages of their own: small pages of the tables it visits.\<close>

definition private_page :: "memory \<Rightarrow> u32 \<Rightarrow> u32 \<Rightarrow> bool" where
  "private_page m l1 va \<longleftrightarrow> l1i va < 4095 \<and> forked (l1i va) (e1 m l1 (l1i va)) \<and> pte m l1 (l1i va) (l2i va) AND 3 = 2"

definition load_as :: "u32 \<Rightarrow> vm_state \<Rightarrow> u32 \<Rightarrow> u8 option" where
  "load_as l1 vm va = user_load (vm\<lparr>vm_active := l1\<rparr>) va"

definition store_as :: "u32 \<Rightarrow> u32 \<Rightarrow> u8 \<Rightarrow> vm_state \<Rightarrow> vm_state option" where
  "store_as l1 va b vm = user_store va b (vm\<lparr>vm_active := l1\<rparr>)"

lemma copied_entry_fields:
  assumes "t AND 0xFFFFFC00 = (t :: u32)" "e AND 3 = (1 :: u32)"
  shows "((t AND 0xFFFFFC00) OR (e AND 0x3FF)) AND 3 = 1" "((t AND 0xFFFFFC00) OR (e AND 0x3FF)) AND 0xFFFFFC00 = t"
proof -
  have m: "(0x3FF :: u32) = mask 10" by (simp add: mask_eq_exp_minus_1)
  have "((t AND NOT (mask 10)) OR (e AND mask 10)) AND mask 2 = e AND mask 2" by (rule bit_word_eqI) (auto simp: bit_simps)
  then show "((t AND 0xFFFFFC00) OR (e AND 0x3FF)) AND 3 = 1" using assms(2) by (simp only: masks m)
  have "((t AND NOT (mask 10)) OR (e AND mask 10)) AND NOT (mask 10) = t AND NOT (mask 10)" by (rule bit_word_eqI) (auto simp: bit_simps)
  then show "((t AND 0xFFFFFC00) OR (e AND 0x3FF)) AND 0xFFFFFC00 = t" using assms(1) by (simp only: masks m)
qed

lemma page_frame_offset: "s AND 0xFFF = (0 :: u32) \<Longrightarrow> s OR (va AND 0xFFF) = s + of_nat (unat (va AND 0xFFF))"
proof -
  assume s: "s AND 0xFFF = 0"
  have "s AND (va AND 0xFFF) = (s AND 0xFFF) AND va" by (simp only: and.assoc and.commute and.left_commute)
  then have "s AND (va AND 0xFFF) = 0" using s by simp
  then have "s OR (va AND 0xFFF) = s + (va AND 0xFFF)" by (metis word_plus_and_or add_0)
  then show ?thesis by simp
qed

lemma low12_bound: "unat (va AND 0xFFF :: u32) < 4096"
  using word_and_le1 [of va "0xFFF"] by (simp add: word_le_nat_alt)

text \<open>Where a private address of the parent leads.\<close>

lemma private_parent:
  assumes "pt_inv vm l1 fl live" "private_page (vm_mem vm) l1 va"
  defines "s \<equiv> pte (vm_mem vm) l1 (l1i va) (l2i va) AND 0xFFFFF000"
  shows "page_src (vm_ka vm) live s" "\<exists>ap. translate (vm_mem vm) l1 va = Some (s + of_nat (unat (va AND 0xFFF)), ap)"
    "in_block s 4096 (s + of_nat (unat (va AND 0xFFF)))" "coarse (vm_mem vm) l1 (l1i va)"
proof -
  note ib = index_bounds
  show c: "coarse (vm_mem vm) l1 (l1i va)" using assms(2) by (simp add: private_page_def forked_def coarse_def)
  have j: "unat (l2i va) < 256" using ib(2) [of va] by (simp add: word_less_nat_alt)
  have p: "pte (vm_mem vm) l1 (l1i va) (l2i va) AND 3 = 2" using assms(2) by (simp add: private_page_def)
  show src: "page_src (vm_ka vm) live s" unfolding s_def pte_def
    using parent_table_src [OF assms(1) ib(1) c] j p unfolding table_src_def pte_def by blast
  then have "s OR (va AND 0xFFF) = s + of_nat (unat (va AND 0xFFF))" by (intro page_frame_offset) (simp add: page_src_def)
  moreover have "pte (vm_mem vm) l1 (l1i va) (l2i va) AND 2 \<noteq> 0" using p low_bits(2) by blast
  ultimately show "\<exists>ap. translate (vm_mem vm) l1 va = Some (s + of_nat (unat (va AND 0xFFF)), ap)"
    unfolding translate_coarse [OF c] s_def by simp
  show "in_block s 4096 (s + of_nat (unat (va AND 0xFFF)))" by (rule offset_in_block [OF low12_bound page_src_bound [OF src]])
qed

lemma in_tables_used:
  assumes "pt_inv vm l1 fl live" "kinv k fl' L'" "live \<subseteq> L'" "\<And>j. j < 21 \<Longrightarrow> used (cls (vm_ka vm) j) \<subseteq> used (cls k j)" "in_tables (vm_mem vm) l1 x"
  shows "\<not> in_blocks k (L' - live) x"
proof
  assume "in_blocks k (L' - live) x"
  then obtain c q where c: "c < 21" "q \<in> L' - live" "q \<in> used (cls k c)" "in_block q (unat (block_size (cls k c))) x" by (auto simp: in_blocks_def)
  from fresh_not_tables [OF assms(1-4) c(1,3) _ c(4)] c(2) assms(5) show False by blast
qed

lemma fork_views:
  assumes inv: "pt_inv vm l1 fl live" and room: "0 < avail (vm_ka vm) fl 10"
    "fst (fork_need 4095 0 l1 (vm_mem vm)) \<le> avail (vm_ka vm) fl 6" "snd (fork_need 4095 0 l1 (vm_mem vm)) \<le> avail (vm_ka vm) fl 8"
  obtains nl vm' F where "fork_page_table l1 vm = Some (nl, vm')" "\<And>x. \<not> F x \<Longrightarrow> vm_mem vm' x = vm_mem vm x"
    "\<And>x. in_tables (vm_mem vm) l1 x \<Longrightarrow> \<not> F x"
    "\<And>va. private_page (vm_mem vm) l1 va \<Longrightarrow> \<exists>pa ap. translate (vm_mem vm) l1 va = Some (pa, ap) \<and> \<not> F pa"
    "\<And>va. private_page (vm_mem vm) l1 va \<Longrightarrow> \<exists>pa ap pa'. translate (vm_mem vm) l1 va = Some (pa, ap)
      \<and> F pa' \<and> vm_mem vm' pa' = vm_mem vm pa
      \<and> (\<forall>m. (\<forall>x. F x \<longrightarrow> m x = vm_mem vm' x) \<longrightarrow> translate m nl va = Some (pa', 3))"
proof -
  obtain nl vm' fl' L' where f: "fork_page_table l1 vm = Some (nl, vm')" "kinv (vm_ka vm') fl' L'" "grows (\<lambda>x. False) vm live vm' L'"
    "nl \<in> L' - live" "nl \<in> used (cls (vm_ka vm') 10)"
    and fe: "\<And>j. j < 4096 \<Longrightarrow> if j < 4095 \<and> forked j (e1 (vm_mem vm) l1 j) then own_table vm live vm' L' (e1 (vm_mem vm) l1 j) (e1 (vm_mem vm') nl j)
      else e1 (vm_mem vm') nl j = e1 (vm_mem vm) l1 j"
    by (rule fork_table_law [OF inv room]) blast
  note g = growsD [OF f(3)]
  note ib = index_bounds
  have ok: "classes_ok (vm_ka vm')" using f(2) by (simp add: kinv_def)
  let ?F = "in_blocks (vm_ka vm') (L' - live)"
  have old: "\<exists>pa ap. translate (vm_mem vm) l1 va = Some (pa, ap) \<and> \<not> ?F pa" if "private_page (vm_mem vm) l1 va" for va
  proof -
    note pp = private_parent [OF inv that]
    have "page_src (vm_ka vm') live (pte (vm_mem vm) l1 (l1i va) (l2i va) AND 0xFFFFF000)" by (rule page_src_mono [OF pp(1)]) (use g(2) [of 8] in auto)
    then show ?thesis using pp(2) page_src_apart [OF f(2) _ pp(3)] by blast
  qed
  have new: "\<exists>pa ap pa'. translate (vm_mem vm) l1 va = Some (pa, ap) \<and> ?F pa' \<and> vm_mem vm' pa' = vm_mem vm pa
      \<and> (\<forall>m. (\<forall>x. ?F x \<longrightarrow> m x = vm_mem vm' x) \<longrightarrow> translate m nl va = Some (pa', 3))" if pv: "private_page (vm_mem vm) l1 va" for va
  proof -
    let ?i = "l1i va" and ?j = "l2i va" and ?n = "unat (va AND 0xFFF)"
    note pp = private_parent [OF inv pv]
    have fk: "?i < 4095" "forked ?i (e1 (vm_mem vm) l1 ?i)" using pv by (simp_all add: private_page_def)
    have j: "unat ?j < 256" using ib(2) [of va] by (simp add: word_less_nat_alt)
    obtain t where t: "t \<in> L' - live" "t \<in> used (cls (vm_ka vm') 6)" "e1 (vm_mem vm') nl ?i = (t AND 0xFFFFFC00) OR (e1 (vm_mem vm) l1 ?i AND 0x3FF)"
      "own_page vm live vm' L' (pte (vm_mem vm) l1 ?i ?j) (load32 (vm_mem vm') (t + 4 * ?j))"
      using fe [OF ib(1), of va] fk pv j unfolding own_table_def Let_def private_page_def pte_def tbl_def by auto
    obtain q where q: "q \<in> L' - live" "q \<in> used (cls (vm_ka vm') 8)" "load32 (vm_mem vm') (t + 4 * ?j) = make_L2_page_entry q 0xFF 1 1"
      "\<And>n. n < 4096 \<Longrightarrow> vm_mem vm' (q + of_nat n) = vm_mem vm ((pte (vm_mem vm) l1 ?i ?j AND 0xFFFFF000) + of_nat n)"
      using t(4) unfolding own_page_def by blast
    have al: "t AND 0xFFFFFC00 = t" "q AND 0xFFFFF000 = q" using block_aligned [OF f(2)] t(2) q(2) by simp_all
    have e3: "e1 (vm_mem vm) l1 ?i AND 3 = 1" using fk(2) by (simp add: forked_def)
    note ef = copied_entry_fields [OF al(1) e3]
    have qb: "unat q + 4096 \<le> 4294967296" using block_bounds(2) [OF f(2) _ q(2)] table_classes(5) [OF ok] by simp
    have Fq: "?F (q + of_nat ?n)" unfolding in_blocks_def
      by (rule exI [of _ 8]) (use q(1,2) offset_in_block [OF low12_bound qb] table_classes(5) [OF ok] in auto)
    have nlF: "?F x" if "in_block nl 16384 x" for x
      unfolding in_blocks_def by (rule exI [of _ 10]) (use f(4,5) that table_classes(6) [OF ok] in auto)
    have tF: "?F x" if "in_block t 1024 x" for x
      unfolding in_blocks_def by (rule exI [of _ 6]) (use t(1,2) that table_classes(4) [OF ok] in auto)
    have nlb: "unat nl + 16384 \<le> 4294967296" using block_bounds(2) [OF f(2) _ f(5)] table_classes(6) [OF ok] by simp
    have tb: "unat t + 1024 \<le> 4294967296" using block_bounds(2) [OF f(2) _ t(2)] table_classes(4) [OF ok] by simp
    have tr: "translate m nl va = Some (q + of_nat ?n, 3)" if m: "\<forall>x. ?F x \<longrightarrow> m x = vm_mem vm' x" for m
    proof -
      have me: "e1 m nl ?i = e1 (vm_mem vm') nl ?i" by (rule e1_cong [OF _ nlb ib(1)]) (use m nlF in blast)
      have c: "coarse m nl ?i" "tbl m nl ?i = t" using me ef t(3) by (simp_all add: coarse_def tbl_def)
      have t': "tbl (vm_mem vm') nl ?i = t" using ef(2) t(3) by (simp add: tbl_def)
      have "pte m nl ?i ?j = pte (vm_mem vm') nl ?i ?j"
        by (rule pte_cong [OF _ nlb ib(1) _ _ ib(2)]) (use m nlF tF tb t' in auto)
      then have p: "pte m nl ?i ?j = make_L2_page_entry q 0xFF 1 1" using q(3) by (simp add: pte_def t')
      have "pte m nl ?i ?j AND 2 \<noteq> 0" unfolding p by (rule low_bits(2) [OF new_entry_fields(1)])
      moreover have "q AND 0xFFF = 0"
      proof -
        have "(q AND 0xFFFFF000) AND 0xFFF = 0" unfolding masks by (rule bit_word_eqI) (auto simp: bit_simps)
        then show ?thesis using al(2) by simp
      qed
      ultimately show ?thesis
        unfolding translate_coarse [OF c(1)] unfolding p new_entry_fields al(2) by (simp add: page_frame_offset)
    qed
    show ?thesis using pp(2) Fq q(4) [OF low12_bound] tr by blast
  qed
  show thesis
  proof (rule that [of nl vm' ?F, OF f(1)])
    show "vm_mem vm' x = vm_mem vm x" if "\<not> ?F x" for x using g(5) that by blast
    show "\<not> ?F x" if "in_tables (vm_mem vm) l1 x" for x by (rule in_tables_used [OF inv f(2) g(1,2) that])
    show "private_page (vm_mem vm) l1 va \<Longrightarrow> \<exists>pa ap. translate (vm_mem vm) l1 va = Some (pa, ap) \<and> \<not> ?F pa" for va by (rule old)
    show "private_page (vm_mem vm) l1 va \<Longrightarrow> \<exists>pa ap pa'. translate (vm_mem vm) l1 va = Some (pa, ap)
      \<and> ?F pa' \<and> vm_mem vm' pa' = vm_mem vm pa
      \<and> (\<forall>m. (\<forall>x. ?F x \<longrightarrow> m x = vm_mem vm' x) \<longrightarrow> translate m nl va = Some (pa', 3))" for va by (rule new)
  qed
qed

section \<open>An address space with one page\<close>

lemma pages_from_le: "pages_from n j t m \<le> n"
  by (induction n arbitrary: j) (auto intro: le_SucI)

lemma fork_need_none:
  assumes "\<And>j. slot_in i n j \<Longrightarrow> \<not> forked j (load32 m (l1 + 4 * j))" "unat i + n \<le> 4096"
  shows "fork_need n i l1 m = (0, 0)"
  using assms
proof (induction n arbitrary: i)
  case (Suc n)
  note sn = slot_in_next [OF Suc.prems(2)]
  have "fork_need n (i + 1) l1 m = (0, 0)" by (rule Suc.IH) (use Suc.prems sn in auto)
  moreover have "\<not> forked i (load32 m (l1 + 4 * i))" using Suc.prems(1) [of i] sn(2) [of i] by simp
  ultimately show ?case by (simp add: Let_def)
qed simp

lemma fork_need_first:
  assumes "\<And>j. 0 < j \<Longrightarrow> j < 4096 \<Longrightarrow> \<not> forked j (load32 m (l1 + 4 * j))"
  shows "fst (fork_need 4095 0 l1 m) \<le> 1" "snd (fork_need 4095 0 l1 m) \<le> 256"
proof -
  have "fork_need 4094 (0 + 1) l1 m = (0, 0)"
    by (rule fork_need_none) (use assms in \<open>auto simp: slot_in_def word_less_nat_alt\<close>)
  then have "fst (fork_need (Suc 4094) 0 l1 m) \<le> 1" "snd (fork_need (Suc 4094) 0 l1 m) \<le> 256"
    unfolding fork_need.simps using pages_from_le [of 256 0 "load32 m l1 AND 0xFFFFFC00" m] by (simp_all add: Let_def)
  then show "fst (fork_need 4095 0 l1 m) \<le> 1" "snd (fork_need 4095 0 l1 m) \<le> 256" by simp_all
qed

lemma one_page_vm:
  obtains vm l1 fl live where "pt_inv vm l1 fl live" "private_page (vm_mem vm) l1 0x8123" "0 < avail (vm_ka vm) fl 10"
    "fst (fork_need 4095 0 l1 (vm_mem vm)) \<le> avail (vm_ka vm) fl 6" "snd (fork_need 4095 0 l1 (vm_mem vm)) \<le> avail (vm_ka vm) fl 8"
proof -
  let ?l = "0xC77F0000 :: u32"
  obtain fl where f: "pt_inv fresh_vm ?l fl {?l}" using fresh_vm_inv by blast
  have av: "2 \<le> avail (vm_ka fresh_vm) fl 6" "300 \<le> avail (vm_ka fresh_vm) fl 8" "1 \<le> avail (vm_ka fresh_vm) fl 10"
    by (simp_all add: avail_def fresh_vm_def boot_classes_eval)
  have z: "e1 (vm_mem fresh_vm) ?l i = 0" for i by (simp add: e1_def fresh_vm_def load32_def)
  have ok0: "classes_ok (vm_ka fresh_vm)" by (rule pt_invD(2) [OF f])
  obtain t vm1 fl1 where a: "valloc 1024 fresh_vm = Some (t, vm1)" "vm_mem vm1 = vm_mem fresh_vm" "t \<in> used (cls (vm_ka vm1) 6)"
      "pt_inv (vm1\<lparr>vm_mem := memset t 0 1024 (vm_mem vm1)\<rparr>) ?l fl1 (insert t {?l})"
    and a2: "\<And>j. j < 21 \<Longrightarrow> avail (vm_ka vm1) fl1 j = (if j = 6 then avail (vm_ka fresh_vm) fl 6 - 1 else avail (vm_ka fresh_vm) fl j)"
    by (rule alloc_cleared [OF f table_classes(1) [OF ok0] _ table_classes(4) [OF ok0]]) (use av in auto)
  let ?v1 = "vm1\<lparr>vm_mem := memset t 0 1024 (vm_mem vm1)\<rparr>"
  have zero: "vm_mem ?v1 = (\<lambda>_. 0)" using a(2) by (auto simp: memset_filled filled_def fresh_vm_def)
  have z1: "e1 (vm_mem ?v1) ?l i = 0" for i by (simp add: e1_def zero load32_def)
  then have nc: "\<not> coarse (vm_mem ?v1) ?l i" for i by (simp add: coarse_def)
  have tu: "t \<in> used (cls (vm_ka ?v1) 6)" using a(3) by simp
  note st = set_table [OF a(4) _ nc _ tu, of 0]
  define vm2 where "vm2 = ?v1\<lparr>vm_mem := store32 (?l + 4 * 0) ((t AND 0xFFFFFC00) OR 1) (vm_mem ?v1)\<rparr>"
  have s: "pt_inv vm2 ?l fl1 (insert t {?l})" "coarse (vm_mem vm2) ?l 0" "vm_ka vm2 = vm_ka vm1"
    "\<And>i. i < 4096 \<Longrightarrow> i \<noteq> 0 \<Longrightarrow> e1 (vm_mem vm2) ?l i = 0"
    using st(1,2,4) nc zero z1 unfolding vm2_def by auto
  have ok2: "classes_ok (vm_ka vm2)" by (rule pt_invD(2) [OF s(1)])
  obtain p vm3 fl3 where b: "vm_mem vm3 = vm_mem vm2" "p \<in> used (cls (vm_ka vm3) 8)"
      "pt_inv (vm3\<lparr>vm_mem := memset p 0 4096 (vm_mem vm3)\<rparr>) ?l fl3 (insert p (insert t {?l}))"
      "\<And>x. in_block p (unat (4096 :: u32)) x \<Longrightarrow> \<not> in_tables (vm_mem vm2) ?l x" "unat p + unat (4096 :: u32) \<le> 0xCCBD0000"
    and b2: "\<And>j. j < 21 \<Longrightarrow> avail (vm_ka vm3) fl3 j = (if j = 8 then avail (vm_ka vm2) fl1 8 - 1 else avail (vm_ka vm2) fl1 j)"
    by (rule alloc_cleared [OF s(1) table_classes(2) [OF ok2] _ table_classes(5) [OF ok2]]) (use av a2 [of 8] s(3) in auto)
  let ?v3 = "vm3\<lparr>vm_mem := memset p 0 4096 (vm_mem vm3)\<rparr>"
  have same: "e1 (vm_mem ?v3) ?l i = e1 (vm_mem vm2) ?l i" if "i < 4096" for i
    by (rule e1_cong [OF _ _ that]) (use b in \<open>auto simp: memset_block in_tables_def\<close>)
  have c3: "coarse (vm_mem ?v3) ?l 0" using s(2) same [of 0] by (simp add: coarse_def)
  let ?e = "make_L2_page_entry p 0xFF 1 1"
  have al: "p AND 0xFFFFF000 = p" by (rule block_aligned(2) [OF pt_invD(1) [OF b(3)]]) (use b(2) in simp)
  have pok: "page_ok (vm_ka ?v3) (insert p (insert t {?l})) ?e"
    using b(2) low_bits(2) [OF new_entry_fields(1)] by (simp add: page_ok_def new_entry_fields al)
  have ix: "l1i 0x8123 = 0" "l2i 0x8123 = 8" by simp_all
  note sp = set_pte [OF b(3) _ c3 _ pok, of 8]
  define vm4 where "vm4 = ?v3\<lparr>vm_mem := store32 (tbl (vm_mem ?v3) ?l 0 + 4 * 8) ?e (vm_mem ?v3)\<rparr>"
  have g: "pt_inv vm4 ?l fl3 (insert p (insert t {?l}))" "vm_ka vm4 = vm_ka vm3"
    "\<And>i. i < 4096 \<Longrightarrow> e1 (vm_mem vm4) ?l i = e1 (vm_mem vm2) ?l i" "pte (vm_mem vm4) ?l 0 8 = ?e"
    using sp(1,2) sp(3) [of 0 8] c3 same unfolding vm4_def by auto
  have "e1 (vm_mem vm4) ?l 0 AND 3 = 1" using g(3) [of 0] s(2) by (simp add: coarse_def)
  then have pp: "private_page (vm_mem vm4) ?l 0x8123"
    unfolding private_page_def ix using g(4) new_entry_fields(1) by (simp add: forked_def)
  have nf: "\<not> forked j (load32 (vm_mem vm4) (?l + 4 * j))" if "0 < j" "j < 4096" for j
  proof -
    have "e1 (vm_mem vm4) ?l j = 0" using g(3) [OF that(2)] s(4) [OF that(2)] that(1) by (simp add: word_gt_0)
    then show ?thesis by (simp add: e1_def forked_def)
  qed
  note fn = fork_need_first [OF nf]
  show thesis
  proof (rule that [OF g(1) pp])
    show "0 < avail (vm_ka vm4) fl3 10" using av a2 [of 10] b2 [of 10] s(3) g(2) by simp
    show "fst (fork_need 4095 0 ?l (vm_mem vm4)) \<le> avail (vm_ka vm4) fl3 6" using fn(1) av a2 [of 6] b2 [of 6] s(3) g(2) by simp
    show "snd (fork_need 4095 0 ?l (vm_mem vm4)) \<le> avail (vm_ka vm4) fl3 8" using fn(2) av a2 [of 8] b2 [of 8] s(3) g(2) by simp
  qed
qed

section \<open>The copy is apart\<close>

text \<open>C24: Forking an address space. With room for the tables and pages, the copy succeeds; at every private address
  - the small pages of all tables but the last and the device window - the child reads what the parent
  read, the parent still does, and from then on they are apart: a store of one does not change what the
  other reads at any private address.\<close>

theorem fork_isolates:
  assumes "pt_inv vm l1 fl live" "0 < avail (vm_ka vm) fl 10"
    "fst (fork_need 4095 0 l1 (vm_mem vm)) \<le> avail (vm_ka vm) fl 6" "snd (fork_need 4095 0 l1 (vm_mem vm)) \<le> avail (vm_ka vm) fl 8"
  shows "\<exists>nl vm'. fork_page_table l1 vm = Some (nl, vm')
    \<and> (\<forall>va. private_page (vm_mem vm) l1 va \<longrightarrow> load_as l1 vm va \<noteq> None \<and> load_as nl vm' va = load_as l1 vm va \<and> load_as l1 vm' va = load_as l1 vm va)
    \<and> (\<forall>va va2 b. private_page (vm_mem vm) l1 va \<longrightarrow> private_page (vm_mem vm) l1 va2 \<longrightarrow>
        (\<exists>vm2. store_as nl va b vm' = Some vm2 \<and> load_as l1 vm2 va2 = load_as l1 vm va2)
        \<and> (\<exists>vm2. store_as l1 va b vm' = Some vm2 \<and> load_as nl vm2 va2 = load_as l1 vm va2))"
proof -
  obtain nl vm' F where f: "fork_page_table l1 vm = Some (nl, vm')" "\<And>x. \<not> F x \<Longrightarrow> vm_mem vm' x = vm_mem vm x"
    "\<And>x. in_tables (vm_mem vm) l1 x \<Longrightarrow> \<not> F x"
    and p: "\<And>va. private_page (vm_mem vm) l1 va \<Longrightarrow> \<exists>pa ap. translate (vm_mem vm) l1 va = Some (pa, ap) \<and> \<not> F pa"
    and c: "\<And>va. private_page (vm_mem vm) l1 va \<Longrightarrow> \<exists>pa ap pa'. translate (vm_mem vm) l1 va = Some (pa, ap)
      \<and> F pa' \<and> vm_mem vm' pa' = vm_mem vm pa
      \<and> (\<forall>m. (\<forall>x. F x \<longrightarrow> m x = vm_mem vm' x) \<longrightarrow> translate m nl va = Some (pa', 3))"
    by (rule fork_views [OF assms]) blast
  have tp: "translate m l1 va = translate (vm_mem vm) l1 va" if "\<forall>x. \<not> F x \<longrightarrow> m x = vm_mem vm x" for m va
    by (rule translate_frame [OF assms(1)]) (use that f(3) in blast)
  have kept: "\<forall>x. \<not> F x \<longrightarrow> vm_mem vm' x = vm_mem vm x" using f(2) by blast
  have copy: "load_as l1 vm va \<noteq> None \<and> load_as nl vm' va = load_as l1 vm va \<and> load_as l1 vm' va = load_as l1 vm va"
    if v: "private_page (vm_mem vm) l1 va" for va
  proof -
    obtain pa ap pa' where a: "translate (vm_mem vm) l1 va = Some (pa, ap)" "vm_mem vm' pa' = vm_mem vm pa" "translate (vm_mem vm') nl va = Some (pa', 3)"
      using c [OF v] by blast
    moreover have "\<not> F pa" using p [OF v] a(1) by auto
    ultimately show ?thesis using kept tp [OF kept] by (simp add: load_as_def user_load_def)
  qed
  have child: "\<exists>vm2. store_as nl va b vm' = Some vm2 \<and> load_as l1 vm2 va2 = load_as l1 vm va2"
    if v: "private_page (vm_mem vm) l1 va" "private_page (vm_mem vm) l1 va2" for va va2 b
  proof -
    obtain pa' where a: "F pa'" "translate (vm_mem vm') nl va = Some (pa', 3)" using c [OF v(1)] by blast
    obtain pa2 ap2 where b: "translate (vm_mem vm) l1 va2 = Some (pa2, ap2)" "\<not> F pa2" using p [OF v(2)] by blast
    let ?m = "(vm_mem vm')(pa' := b)"
    have same: "?m x = vm_mem vm x" if "\<not> F x" for x using that a(1) f(2) by auto
    then have "translate ?m l1 va2 = Some (pa2, ap2)" using tp [of ?m va2] b(1) by simp
    then show ?thesis using a(2) b same [OF b(2)] by (simp add: store_as_def user_store_def load_as_def user_load_def)
  qed
  have parent: "\<exists>vm2. store_as l1 va b vm' = Some vm2 \<and> load_as nl vm2 va2 = load_as l1 vm va2"
    if v: "private_page (vm_mem vm) l1 va" "private_page (vm_mem vm) l1 va2" for va va2 b
  proof -
    obtain pa ap where a: "translate (vm_mem vm) l1 va = Some (pa, ap)" "\<not> F pa" using p [OF v(1)] by blast
    then have a': "translate (vm_mem vm') l1 va = Some (pa, ap)" using tp [OF kept] by simp
    obtain pa2 ap2 pa' where b: "translate (vm_mem vm) l1 va2 = Some (pa2, ap2)" "F pa'" "vm_mem vm' pa' = vm_mem vm pa2"
      "\<And>m. \<forall>x. F x \<longrightarrow> m x = vm_mem vm' x \<Longrightarrow> translate m nl va2 = Some (pa', 3)" using c [OF v(2)] by blast
    let ?m = "(vm_mem vm')(pa := b)"
    have "translate ?m nl va2 = Some (pa', 3)" by (rule b(4)) (use a(2) in auto)
    then show ?thesis using a' b(1-3) a(2) by (auto simp: store_as_def user_store_def load_as_def user_load_def)
  qed
  show ?thesis using f(1) copy child parent by blast
qed

theorem fork_isolates_witness:
  "\<exists>vm l1 nl vm' vm2. private_page (vm_mem vm) l1 0x8123 \<and> fork_page_table l1 vm = Some (nl, vm')
     \<and> store_as nl 0x8123 7 vm' = Some vm2 \<and> load_as l1 vm2 0x8123 = load_as l1 vm 0x8123"
proof -
  obtain vm l1 fl live where v: "pt_inv vm l1 fl live" "private_page (vm_mem vm) l1 0x8123" "0 < avail (vm_ka vm) fl 10"
    "fst (fork_need 4095 0 l1 (vm_mem vm)) \<le> avail (vm_ka vm) fl 6" "snd (fork_need 4095 0 l1 (vm_mem vm)) \<le> avail (vm_ka vm) fl 8"
    by (rule one_page_vm) blast
  show ?thesis using fork_isolates [OF v(1,3,4,5)] v(2) by blast
qed

end
