(* ===== verification/VmBoot.thy ===== *)
theory VmBoot
  imports VmFork
begin

text \<open>
  The first page table (\<open>make_initial_L1_table\<close> of final/src/vm.c with \<open>kuser_init\<close> of final/src/kuser.c): it has the structure
  that the other operations keep, maps every address to itself for the kernel alone, and shows the
  helper page to user code.
\<close>

section \<open>The two loops\<close>

lemma e1_store:
  assumes "unat l1 + 16384 \<le> 4294967296" "i < 4096" "k < 4096"
  shows "e1 (store32 (l1 + 4 * i) v m) l1 k = (if k = i then v else e1 m l1 k)"
proof -
  have b: "unat l1 + 4 * 4096 \<le> 4294967296" "unat i < 4096" "unat k < 4096" using assms by (simp_all add: word_less_nat_alt)
  show ?thesis using store_slot_other [OF b] load32_store32 by (auto simp: e1_def)
qed

lemma fill_sections_law:
  assumes "unat l1 + 16384 \<le> 4294967296" "unat i + n \<le> 4096"
  shows "(\<forall>k < 4096. e1 (fill_sections n i f l1 m) l1 k
      = (if i \<le> k \<and> unat k < unat i + n then push_bit 20 k OR push_bit 10 1 OR f else e1 m l1 k))
    \<and> (\<forall>x. \<not> in_block l1 16384 x \<longrightarrow> fill_sections n i f l1 m x = m x)"
  using assms(2)
proof (induction n arbitrary: i m)
  case 0
  then show ?case by (auto simp: word_le_nat_alt)
next
  case (Suc n)
  have i: "unat i < 4096" "i < 4096" using Suc.prems by (simp_all add: word_less_nat_alt)
  have s: "unat (i + 1) = unat i + 1" using i(1) unat_plus_small [of i 1] by simp
  let ?v = "push_bit 20 i OR push_bit 10 1 OR f" and ?m = "store32 (l1 + 4 * i) (push_bit 20 i OR push_bit 10 1 OR f) m"
  have ih: "(\<forall>k < 4096. e1 (fill_sections n (i + 1) f l1 ?m) l1 k
      = (if i + 1 \<le> k \<and> unat k < unat (i + 1) + n then push_bit 20 k OR push_bit 10 1 OR f else e1 ?m l1 k))
    \<and> (\<forall>x. \<not> in_block l1 16384 x \<longrightarrow> fill_sections n (i + 1) f l1 ?m x = ?m x)"
    using Suc.IH [of "i + 1" ?m] Suc.prems s by simp
  have out: "?m x = m x" if "\<not> in_block l1 16384 x" for x
    using store_slot_outside [of l1 4096 i x] assms(1) i that by simp
  have "e1 (fill_sections (Suc n) i f l1 m) l1 k
      = (if i \<le> k \<and> unat k < unat i + Suc n then push_bit 20 k OR push_bit 10 1 OR f else e1 m l1 k)" if k: "k < 4096" for k
  proof -
    consider "k = i" | "k < i" | "i < k" by (rule linorder_cases [of k i]) auto
    then show ?thesis using ih k e1_store [OF assms(1) i(2) k] s by cases (auto simp: word_le_nat_alt word_less_nat_alt)
  qed
  then show ?case using ih out by simp
qed

text \<open>The entries of the table for the last megabyte.\<close>

definition last_entry :: "u32 \<Rightarrow> u32 \<Rightarrow> u32" where
  "last_entry kuser_page j =
     (let va = push_bit 20 4095 OR push_bit 12 j
      in if va = 0xFFFF0000 then make_L2_page_entry kuser_page 0xFF 1 1 else make_L2_page_entry va 0x55 1 1)"

lemma fill_last_law:
  assumes "unat l2 + 1024 \<le> 4294967296" "unat j + n \<le> 256"
  shows "(\<forall>k < 256. load32 (fill_last_table n j l2 kp m) (l2 + 4 * k)
      = (if j \<le> k \<and> unat k < unat j + n then last_entry kp k else load32 m (l2 + 4 * k)))
    \<and> (\<forall>x. \<not> in_block l2 1024 x \<longrightarrow> fill_last_table n j l2 kp m x = m x)"
  using assms(2)
proof (induction n arbitrary: j m)
  case 0
  then show ?case by (auto simp: word_le_nat_alt)
next
  case (Suc n)
  have j: "unat j < 256" "j < 256" using Suc.prems by (simp_all add: word_less_nat_alt)
  have s: "unat (j + 1) = unat j + 1" using j(1) unat_plus_small [of j 1] by simp
  have b: "unat l2 + 4 * 256 \<le> 4294967296" using assms(1) by simp
  let ?m = "store32 (l2 + 4 * j) (last_entry kp j) m"
  have f: "fill_last_table (Suc n) j l2 kp m = fill_last_table n (j + 1) l2 kp ?m" by (simp add: last_entry_def Let_def)
  have ih: "(\<forall>k < 256. load32 (fill_last_table n (j + 1) l2 kp ?m) (l2 + 4 * k)
      = (if j + 1 \<le> k \<and> unat k < unat (j + 1) + n then last_entry kp k else load32 ?m (l2 + 4 * k)))
    \<and> (\<forall>x. \<not> in_block l2 1024 x \<longrightarrow> fill_last_table n (j + 1) l2 kp ?m x = ?m x)"
    using Suc.IH [of "j + 1" ?m] Suc.prems s by simp
  have out: "?m x = m x" if "\<not> in_block l2 1024 x" for x
    using store_slot_outside [OF b j(1)] that by simp
  have "load32 (fill_last_table (Suc n) j l2 kp m) (l2 + 4 * k)
      = (if j \<le> k \<and> unat k < unat j + Suc n then last_entry kp k else load32 m (l2 + 4 * k))" if k: "k < 256" for k
  proof -
    have kn: "unat k < 256" using k by (simp add: word_less_nat_alt)
    have e: "load32 ?m (l2 + 4 * k) = (if k = j then last_entry kp j else load32 m (l2 + 4 * k))"
      using store_slot_other [OF b j(1) kn] load32_store32 by auto
    consider "k = j" | "k < j" | "j < k" by (rule linorder_cases [of k j]) auto
    then show ?thesis unfolding f using ih k e s by cases (auto simp: word_le_nat_alt word_less_nat_alt)
  qed
  then show ?case using ih out unfolding f by simp
qed

section \<open>Their entries\<close>

lemma section_fields:
  fixes k :: u32
  assumes "k < 4096" "f = 2 \<or> f = 0xE"
  shows "(push_bit 20 k OR push_bit 10 1 OR f) AND 3 = 2" "(push_bit 20 k OR push_bit 10 1 OR f) AND 0xFFF00000 = push_bit 20 k"
    "drop_bit 10 (push_bit 20 k OR push_bit 10 1 OR f) AND 3 = 1"
proof -
  have m: "(0xFFF00000 :: u32) = NOT (mask 20)" by (simp add: mask_eq_exp_minus_1)
  define c where "c = push_bit 10 (1 :: u32)"
  have c: "bit c n \<longleftrightarrow> n = 10" for n using bit_exp_iff [where ?'a = u32, of 10 n] by (auto simp: c_def)
  have f: "\<not> bit f 0" "bit f 1" "4 \<le> n \<Longrightarrow> \<not> bit f n" for n
  proof -
    show "\<not> bit f 0" "bit f 1" using assms(2) by (elim disjE; simp)+
    have "take_bit 4 f = f" using assms(2) by (elim disjE; simp)
    then show "4 \<le> n \<Longrightarrow> \<not> bit f n" by (metis bit_take_bit_iff not_less)
  qed
  have two: "bit (2 :: u32) n \<longleftrightarrow> n = 1" for n using bit_exp_iff [where ?'a = u32, of 1 n] by auto
  have low: "n < 2 \<Longrightarrow> bit f n \<longleftrightarrow> n = 1" for n using f(1,2) by (cases "n = 0") (auto simp: less_2_cases_iff)
  show "(push_bit 20 k OR push_bit 10 1 OR f) AND 3 = 2" unfolding c_def [symmetric] masks(5)
    by (rule bit_word_eqI) (use low c in \<open>auto simp: bit_simps two\<close>)
  show "(push_bit 20 k OR push_bit 10 1 OR f) AND 0xFFF00000 = push_bit 20 k" unfolding c_def [symmetric] m
    by (rule bit_word_eqI) (use f(3) c in \<open>auto simp: bit_simps\<close>)
  show "drop_bit 10 (push_bit 20 k OR push_bit 10 1 OR f) AND 3 = 1" unfolding c_def [symmetric] masks(5)
    by (rule bit_word_eqI) (use f(3) c in \<open>auto simp: bit_simps\<close>)
qed

lemma kernel_entry_fields:
  "make_L2_page_entry p 0x55 1 1 AND 3 = 2" "make_L2_page_entry p 0x55 1 1 AND 0xFFFFF000 = p AND 0xFFFFF000"
  "drop_bit 4 (make_L2_page_entry p 0x55 1 1) AND 3 = 1"
proof -
  define c where "c = (push_bit 4 0x55 :: u32)"
  have cs: "c = 0x550" by (simp add: c_def)
  have c: "\<not> bit c 0" "\<not> bit c 1" "bit c 4" "\<not> bit c 5" "12 \<le> n \<Longrightarrow> \<not> bit c n" for n
  proof -
    have "take_bit 12 c = c" by (simp add: cs)
    then show "12 \<le> n \<Longrightarrow> \<not> bit c n" by (metis bit_take_bit_iff not_less)
  qed (simp_all add: cs)
  have e: "make_L2_page_entry p 0x55 1 1 = (p AND NOT (mask 12)) OR c OR push_bit 2 (mask 2) OR 2"
    unfolding make_L2_page_entry_def masks(2) by (simp add: mask_eq_exp_minus_1 cs)
  have two: "bit (2 :: u32) n \<longleftrightarrow> n = 1" for n using bit_exp_iff [where ?'a = u32, of 1 n] by auto
  show "make_L2_page_entry p 0x55 1 1 AND 3 = 2" unfolding e unfolding masks
    by (rule bit_word_eqI) (use c in \<open>auto simp: bit_simps two less_2_cases_iff\<close>)
  show "make_L2_page_entry p 0x55 1 1 AND 0xFFFFF000 = p AND 0xFFFFF000" unfolding e unfolding masks
    by (rule bit_word_eqI) (use c in \<open>auto simp: bit_simps two less_2_cases_iff\<close>)
  show "drop_bit 4 (make_L2_page_entry p 0x55 1 1) AND 3 = 1" unfolding e unfolding masks
    by (rule bit_word_eqI) (use c in \<open>auto simp: bit_simps two less_2_cases_iff\<close>)
qed

text \<open>Addresses of the last megabyte and their pages.\<close>

lemma last_page:
  fixes va :: u32
  shows "push_bit 20 (l1i va) OR (va AND 0xFFFFF) = va"
    "l1i va = 4095 \<Longrightarrow> push_bit 20 4095 OR push_bit 12 (l2i va) = va AND 0xFFFFF000"
    "(va AND 0xFFFFF000) OR (va AND 0xFFF) = va"
proof -
  have m: "(0xFFFFF :: u32) = mask 20" "(0xFFF :: u32) = mask 12" "(0xFF :: u32) = mask 8" "(0xFFFFF000 :: u32) = NOT (mask 12)"
    "(4095 :: u32) = mask 12"
    by (simp_all add: mask_eq_exp_minus_1)
  show "push_bit 20 (l1i va) OR (va AND 0xFFFFF) = va" unfolding m by (rule bit_word_eqI) (auto simp: bit_simps)
  show "(va AND 0xFFFFF000) OR (va AND 0xFFF) = va" unfolding m by (rule bit_word_eqI) (auto simp: bit_simps)
  assume "l1i va = 4095"
  then have "drop_bit 20 va AND mask 12 = mask 12" by (simp add: m)
  then have b: "bit va n" if "20 \<le> n" "n < 32" for n
  proof -
    have "n - 20 < 12" using that by linarith
    then have "bit (drop_bit 20 va AND mask 12) (n - 20)" using \<open>drop_bit 20 va AND mask 12 = mask 12\<close> by (simp add: bit_simps)
    then show ?thesis using that by (simp add: bit_simps)
  qed
  show "push_bit 20 4095 OR push_bit 12 (l2i va) = va AND 0xFFFFF000" unfolding m
    by (rule bit_word_eqI) (use b in \<open>auto simp: bit_simps\<close>)
qed

section \<open>The table\<close>

lemma put_bytes_law:
  "unat a + length bs \<le> 4294967296 \<Longrightarrow> put_bytes a bs m x = (if in_block a (length bs) x then bs ! (unat x - unat a) else m x)"
proof (induction bs arbitrary: a m)
  case Nil
  then show ?case by (auto simp: in_block_def)
next
  case (Cons b bs)
  show ?case
  proof (cases "bs = []")
    case True
    then show ?thesis by (auto simp: in_block_def u32_eq_nat_iff)
  next
    case False
    then have a: "unat (a + 1) = unat a + 1" using Cons.prems unat_plus_small [of a 1] by (cases bs) auto
    have ih: "put_bytes (a + 1) bs (m(a := b)) x = (if in_block (a + 1) (length bs) x then bs ! (unat x - unat (a + 1)) else (m(a := b)) x)"
      by (rule Cons.IH) (use Cons.prems a in simp)
    consider "x = a" | "x \<noteq> a" "unat a < unat x" | "x \<noteq> a" "unat x < unat a" by (metis linorder_neqE_nat word_unat_eq_iff)
    then show ?thesis
      by cases (use ih in \<open>auto simp: in_block_def a nth_Cons'\<close>)
  qed
qed

lemma last_entry_page:
  fixes j :: u32
  defines "va \<equiv> push_bit 20 4095 OR push_bit 12 j"
  shows "va AND 0xFFFFF000 = va" "0xFFF00000 \<le> va"
proof -
  have "va = push_bit 12 (push_bit 8 4095 OR j)" by (simp add: va_def push_bit_or)
  then show "va AND 0xFFFFF000 = va" unfolding masks by (simp only:) (rule bit_word_eqI, auto simp: bit_push_bit_iff bit_simps)
  show "0xFFF00000 \<le> va" using le_word_or2 [of "push_bit 20 4095 :: u32" "push_bit 12 j"] by (simp add: va_def)
qed

lemma last_entry_fields:
  assumes "j < 256"
  shows "last_entry kp j AND 2 \<noteq> 0"
    "last_entry kp j AND 0xFFFFF000 = (if push_bit 20 4095 OR push_bit 12 j = (0xFFFF0000 :: u32) then kp AND 0xFFFFF000 else push_bit 20 4095 OR push_bit 12 j)"
    "drop_bit 4 (last_entry kp j) AND 3 = (if push_bit 20 4095 OR push_bit 12 j = (0xFFFF0000 :: u32) then 3 else 1)"
  using last_entry_page(1) [of j]
  by (auto simp: last_entry_def Let_def new_entry_fields(2,3) kernel_entry_fields(2,3) low_bits(2) [OF new_entry_fields(1)]
      low_bits(2) [OF kernel_entry_fields(1)] simp del: push_bit_numeral)

text \<open>Every address is its own frame, for the kernel alone, except those of the helper page.\<close>

definition kernel_map :: "memory \<Rightarrow> u32 \<Rightarrow> u32 \<Rightarrow> bool" where
  "kernel_map m l1 kp \<longleftrightarrow> (\<forall>va. translate m l1 va
     = (if va AND 0xFFFFF000 = 0xFFFF0000 then Some (kp OR (va AND 0xFFF), 3) else Some (va, 1)))"

lemma kernel_map_entries:
  assumes "\<And>i. i < 4095 \<Longrightarrow> \<exists>f. (f = 2 \<or> f = 0xE) \<and> e1 m l1 i = push_bit 20 i OR push_bit 10 1 OR f"
    "coarse m l1 4095" "\<And>j. j < 256 \<Longrightarrow> pte m l1 4095 j = last_entry kp j" "kp AND 0xFFFFF000 = kp"
  shows "kernel_map m l1 kp"
  unfolding kernel_map_def
proof
  fix va :: u32
  show "translate m l1 va = (if va AND 0xFFFFF000 = 0xFFFF0000 then Some (kp OR (va AND 0xFFF), 3) else Some (va, 1))"
  proof (cases "l1i va = 4095")
    case True
    note e = last_entry_fields [OF index_bounds(2) [of va], of kp]
    have p: "push_bit 20 4095 OR push_bit 12 (l2i va) = va AND 0xFFFFF000" by (rule last_page(2) [OF True])
    have "e1 m l1 4095 AND 3 \<noteq> 2" using assms(2) by (simp add: coarse_def)
    then have "translate m l1 va = Some ((last_entry kp (l2i va) AND 0xFFFFF000) OR (va AND 0xFFF), drop_bit 4 (last_entry kp (l2i va)) AND 3)"
      using True assms(2) assms(3) [OF index_bounds(2)] e(1) by (simp add: translate_entries)
    then show ?thesis using e(2,3) assms(4) last_page(3) [of va] unfolding p by simp
  next
    case False
    then have i: "l1i va < 4095" using index_bounds(1) [of va] by (simp add: word_less_nat_alt u32_eq_nat_iff)
    then obtain f where f: "f = 2 \<or> f = 0xE" "e1 m l1 (l1i va) = push_bit 20 (l1i va) OR push_bit 10 1 OR f" using assms(1) by blast
    have t: "translate m l1 va = Some (push_bit 20 (l1i va) OR (va AND 0xFFFFF), 1)"
      using section_fields [OF index_bounds(1) f(1), of va] by (simp add: translate_entries f(2) del: push_bit_of_1)
    have "va AND 0xFFFFF000 \<noteq> 0xFFFF0000"
    proof
      assume a: "va AND 0xFFFFF000 = 0xFFFF0000"
      have "drop_bit 20 (va AND 0xFFFFF000) = drop_bit 20 va AND drop_bit 20 0xFFFFF000" by (rule drop_bit_and)
      then have "l1i va = 4095" by (simp add: a)
      then show False using False by simp
    qed
    then show ?thesis using t last_page(1) [of va] by simp
  qed
qed

text \<open>The memory after the three loops, for the table at \<open>l1\<close>, the one for the last megabyte at \<open>l2\<close> and the helper page.\<close>

definition initial_memory :: "u32 \<Rightarrow> u32 \<Rightarrow> u32 \<Rightarrow> vm_state \<Rightarrow> memory" where
  "initial_memory l1 l2 kp vm = fill_last_table 256 0 l2 kp (put_bytes kp (vm_kuser vm)
     (store32 (l1 + 16380) ((l2 AND 0xFFFFFC00) OR 1)
       (fill_sections 1023 3072 0xE l1 (fill_sections 2560 512 2 l1 (fill_sections 512 0 2 l1 (vm_mem vm))))))"

definition apart3 :: "u32 \<Rightarrow> u32 \<Rightarrow> u32 \<Rightarrow> bool" where
  "apart3 l1 l2 kp \<longleftrightarrow> (\<forall>x. (in_block l2 1024 x \<longrightarrow> \<not> in_block l1 16384 x) \<and> (in_block kp 4096 x \<longrightarrow> \<not> in_block l1 16384 x)
     \<and> (in_block kp 4096 x \<longrightarrow> \<not> in_block l2 1024 x))
     \<and> unat l1 + 16384 \<le> 4294967296 \<and> unat l2 + 1024 \<le> 4294967296 \<and> unat kp + 4096 \<le> 4294967296"

lemma initial_blocks:
  assumes inv: "kinv (vm_ka vm) fl L" and room: "0 < avail (vm_ka vm) fl 10" "0 < avail (vm_ka vm) fl 6" "0 < avail (vm_ka vm) fl 8"
  obtains l1 l2 kp k fl' where "make_initial_L1_table vm = Some (l1, vm\<lparr>vm_ka := k, vm_mem := initial_memory l1 l2 kp vm\<rparr>)"
    "kinv k fl' (insert kp (insert l2 (insert l1 L)))" "l1 \<notin> L" "l2 \<notin> L" "kp \<notin> L" "l1 \<in> used (cls k 10)" "l2 \<in> used (cls k 6)" "kp \<in> used (cls k 8)"
    "apart3 l1 l2 kp" "\<And>j. j < 21 \<Longrightarrow> used (cls (vm_ka vm) j) \<subseteq> used (cls k j)"
    "avail k fl' 6 + 1 = avail (vm_ka vm) fl 6" "avail k fl' 8 + 1 = avail (vm_ka vm) fl 8"
    "\<And>c. c < 21 \<Longrightarrow> c \<notin> {6, 8, 10} \<Longrightarrow> avail k fl' c = avail (vm_ka vm) fl c"
proof -
  have ok: "classes_ok (vm_ka vm)" using inv by (simp add: kinv_def)
  obtain l1 k1 fl1 where a1: "valloc 16384 vm = Some (l1, vm\<lparr>vm_ka := k1\<rparr>)" "l1 \<notin> L" "l1 \<in> used (cls k1 10)" "kinv k1 fl1 (insert l1 L)"
    "\<And>c. c < 21 \<Longrightarrow> avail k1 fl1 c = (if c = 10 then avail (vm_ka vm) fl 10 - 1 else avail (vm_ka vm) fl c)"
    "\<And>c. c < 21 \<Longrightarrow> used (cls (vm_ka vm) c) \<subseteq> used (cls k1 c)" "unat l1 + unat (16384 :: u32) \<le> 0xCCBD0000"
    by (rule alloc_block [OF inv table_classes(3) [OF ok] room(1) table_classes(6) [OF ok]]) blast
  have ok1: "classes_ok k1" using a1(4) by (simp add: kinv_def)
  define m3 where "m3 = fill_sections 1023 3072 0xE l1 (fill_sections 2560 512 2 l1 (fill_sections 512 0 2 l1 (vm_mem vm)))"
  let ?v1 = "vm\<lparr>vm_ka := k1, vm_mem := m3\<rparr>"
  obtain l2 k2 fl2 where a2: "valloc 1024 ?v1 = Some (l2, ?v1\<lparr>vm_ka := k2\<rparr>)" "l2 \<notin> insert l1 L" "l2 \<in> used (cls k2 6)" "kinv k2 fl2 (insert l2 (insert l1 L))"
    "\<And>c. c < 21 \<Longrightarrow> avail k2 fl2 c = (if c = 6 then avail k1 fl1 6 - 1 else avail k1 fl1 c)"
    "\<And>c. c < 21 \<Longrightarrow> used (cls k1 c) \<subseteq> used (cls k2 c)" "unat l2 + unat (1024 :: u32) \<le> 0xCCBD0000"
    by (rule alloc_block [of ?v1 fl1 "insert l1 L" 1024 6]) (use a1(4,5) room(2) table_classes [OF ok1] in auto)
  have ok2: "classes_ok k2" using a2(4) by (simp add: kinv_def)
  define m4 where "m4 = store32 (l1 + 16380) ((l2 AND 0xFFFFFC00) OR 1) m3"
  let ?v2 = "vm\<lparr>vm_ka := k2, vm_mem := m4\<rparr>"
  obtain kp k3 fl3 where a3: "valloc 4096 ?v2 = Some (kp, ?v2\<lparr>vm_ka := k3\<rparr>)" "kp \<notin> insert l2 (insert l1 L)" "kp \<in> used (cls k3 8)"
    "kinv k3 fl3 (insert kp (insert l2 (insert l1 L)))"
    "\<And>c. c < 21 \<Longrightarrow> avail k3 fl3 c = (if c = 8 then avail k2 fl2 8 - 1 else avail k2 fl2 c)"
    "\<And>c. c < 21 \<Longrightarrow> used (cls k2 c) \<subseteq> used (cls k3 c)" "unat kp + unat (4096 :: u32) \<le> 0xCCBD0000"
    by (rule alloc_block [of ?v2 fl2 "insert l2 (insert l1 L)" 4096 8]) (use a1(5) a2(4,5) room(3) table_classes [OF ok2] in auto)
  have ok3: "classes_ok k3" using a3(4) by (simp add: kinv_def)
  have run: "make_initial_L1_table vm = Some (l1, vm\<lparr>vm_ka := k3, vm_mem := initial_memory l1 l2 kp vm\<rparr>)"
    by (simp add: make_initial_L1_table_def a1(1) Let_def m3_def [symmetric] a2(1) [simplified] m4_def [symmetric] kuser_init_def
        a3(1) [simplified] initial_memory_def)
  have u: "l1 \<in> used (cls k3 10)" "l2 \<in> used (cls k3 6)" using a1(3) a2(3) a2(6) [of 10] a3(6) [of 10] a3(6) [of 6] by auto
  have bs: "block_size (cls k3 10) = 16384" "block_size (cls k3 6) = 1024" "block_size (cls k3 8) = 4096" using table_classes [OF ok3] by simp_all
  have ne: "l1 \<noteq> l2" "l1 \<noteq> kp" "l2 \<noteq> kp" using a2(2) a3(2) by auto
  have "apart3 l1 l2 kp" unfolding apart3_def
    using blocks_apart [OF a3(4), of 6 10 l2 l1] blocks_apart [OF a3(4), of 8 10 kp l1] blocks_apart [OF a3(4), of 8 6 kp l2] u a3(3) bs ne
      a1(7) a2(7) a3(7) by auto
  moreover have "used (cls (vm_ka vm) j) \<subseteq> used (cls k3 j)" if "j < 21" for j using a1(6) a2(6) a3(6) that by (meson subset_trans)
  moreover have "avail k3 fl3 6 + 1 = avail (vm_ka vm) fl 6" "avail k3 fl3 8 + 1 = avail (vm_ka vm) fl 8"
    using a1(5) a2(5) a3(5) room by simp_all
  moreover have "avail k3 fl3 c = avail (vm_ka vm) fl c" if "c < 21" "c \<notin> {6, 8, 10}" for c
    using a1(5) a2(5) a3(5) that by simp
  ultimately show thesis using that [OF run a3(4) a1(2)] a2(2) a3(2,3) u by blast
qed

text \<open>What the loops leave in the three blocks, and that they touch nothing else.\<close>

lemma initial_memory_law:
  assumes "apart3 l1 l2 kp" "length (vm_kuser vm) \<le> 4096"
  defines "m \<equiv> initial_memory l1 l2 kp vm"
  shows "i < 4095 \<Longrightarrow> \<exists>f. (f = 2 \<or> f = 0xE) \<and> e1 m l1 i = push_bit 20 i OR push_bit 10 1 OR f"
    "e1 m l1 4095 = (l2 AND 0xFFFFFC00) OR 1" "j < 256 \<Longrightarrow> load32 m (l2 + 4 * j) = last_entry kp j"
    "k < length (vm_kuser vm) \<Longrightarrow> m (kp + of_nat k) = vm_kuser vm ! k"
    "\<not> in_block l1 16384 x \<Longrightarrow> \<not> in_block l2 1024 x \<Longrightarrow> \<not> in_block kp 4096 x \<Longrightarrow> m x = vm_mem vm x"
proof -
  have bd: "unat l1 + 16384 \<le> 4294967296" "unat l2 + 1024 \<le> 4294967296" "unat kp + 4096 \<le> 4294967296"
    and apart: "in_block l2 1024 x \<Longrightarrow> \<not> in_block l1 16384 x" "in_block kp 4096 x \<Longrightarrow> \<not> in_block l1 16384 x"
      "in_block kp 4096 x \<Longrightarrow> \<not> in_block l2 1024 x" for x using assms(1) by (auto simp: apart3_def)
  define m3 where "m3 = fill_sections 1023 3072 0xE l1 (fill_sections 2560 512 2 l1 (fill_sections 512 0 2 l1 (vm_mem vm)))"
  define m4 where "m4 = store32 (l1 + 4 * 4095) ((l2 AND 0xFFFFFC00) OR 1) m3"
  define m5 where "m5 = put_bytes kp (vm_kuser vm) m4"
  have m: "m = fill_last_table 256 0 l2 kp m5" by (simp add: m_def initial_memory_def m3_def m4_def m5_def)
  have last: "(\<forall>k < 256. load32 m (l2 + 4 * k) = last_entry kp k) \<and> (\<forall>x. \<not> in_block l2 1024 x \<longrightarrow> m x = m5 x)"
    using fill_last_law [OF bd(2), of 0 256 kp m5] by (simp add: m word_less_nat_alt)
  have put: "m5 x = (if in_block kp (length (vm_kuser vm)) x then vm_kuser vm ! (unat x - unat kp) else m4 x)" for x
    unfolding m5_def by (rule put_bytes_law) (use bd(3) assms(2) in simp)
  have small: "in_block kp (length (vm_kuser vm)) x \<Longrightarrow> in_block kp 4096 x" for x using assms(2) by (auto simp: in_block_def)
  have l1_same: "m x = m4 x" if "in_block l1 16384 x" for x
    using last put [of x] small apart that by (metis (no_types, lifting))
  have e: "e1 m l1 i = (if i = 4095 then (l2 AND 0xFFFFFC00) OR 1 else e1 m3 l1 i)" if "i < 4096" for i
    using e1_cong [OF l1_same bd(1) that] e1_store [OF bd(1), of 4095 i] that by (simp add: m4_def)
  note f1 = fill_sections_law [OF bd(1), of 0 512 2 "vm_mem vm", simplified]
  note f2 = fill_sections_law [OF bd(1), of 512 2560 2 "fill_sections 512 0 2 l1 (vm_mem vm)", simplified]
  note f3 = fill_sections_law [OF bd(1), of 3072 1023 "0xE" "fill_sections 2560 512 2 l1 (fill_sections 512 0 2 l1 (vm_mem vm))", simplified, folded m3_def]
  show "\<exists>f. (f = 2 \<or> f = 0xE) \<and> e1 m l1 i = push_bit 20 i OR push_bit 10 1 OR f" if "i < 4095"
  proof -
    have i: "i < 4096" "i \<noteq> 4095" "unat i < 4095" using that by (auto simp: word_less_nat_alt)
    have m: "e1 m l1 i = e1 m3 l1 i" using e [OF i(1)] i(2) by simp
    consider "unat i < 512" | "512 \<le> unat i" "unat i < 3072" | "3072 \<le> unat i" by linarith
    then show ?thesis unfolding m
      by cases (use f1 f2 f3 i in \<open>auto simp: word_le_nat_alt word_less_nat_alt\<close>)
  qed
  show "e1 m l1 4095 = (l2 AND 0xFFFFFC00) OR 1" using e [of 4095] by simp
  show "j < 256 \<Longrightarrow> load32 m (l2 + 4 * j) = last_entry kp j" using last by blast
  show "m (kp + of_nat k) = vm_kuser vm ! k" if "k < length (vm_kuser vm)"
  proof -
    have x: "unat (kp + of_nat k) = unat kp + k" using bd(3) that assms(2) by (intro unat_plus_small) linarith
    then have ib: "in_block kp (length (vm_kuser vm)) (kp + of_nat k)" using that by (simp add: in_block_def)
    then have "m (kp + of_nat k) = m5 (kp + of_nat k)" using last apart(3) [OF small [OF ib]] by blast
    then show ?thesis using put [of "kp + of_nat k"] ib x by simp
  qed
  have m3_out: "m3 x = vm_mem vm x" if "\<not> in_block l1 16384 x" for x using f1 f2 f3 that by simp
  show "m x = vm_mem vm x" if "\<not> in_block l1 16384 x" "\<not> in_block l2 1024 x" "\<not> in_block kp 4096 x"
    using last put [of x] small that m3_out store_slot_outside [of l1 4096 4095 x] bd(1) by (auto simp: m4_def)
qed

lemma initial_structure:
  assumes "apart3 l1 l2 kp" "length (vm_kuser vm) \<le> 4096" "kinv k fl (insert kp (insert l2 (insert l1 L)))"
    "l1 \<in> used (cls k 10)" "l2 \<in> used (cls k 6)" "kp \<in> used (cls k 8)"
  defines "m \<equiv> initial_memory l1 l2 kp vm"
  shows "pt_inv (vm\<lparr>vm_ka := k, vm_mem := m\<rparr>) l1 fl (insert kp (insert l2 (insert l1 L)))" "kernel_map m l1 kp"
proof -
  let ?vm = "vm\<lparr>vm_ka := k, vm_mem := m\<rparr>" and ?L = "insert kp (insert l2 (insert l1 L))"
  note law = initial_memory_law [OF assms(1,2), folded m_def]
  have al: "l2 AND 0xFFFFFC00 = l2" "kp AND 0xFFFFF000 = kp" using block_aligned [OF assms(3)] assms(5,6) by simp_all
  have c4095: "coarse m l1 4095" "tbl m l1 4095 = l2"
    using law(2) table_entry_fields [OF al(1)] by (simp_all add: coarse_def tbl_def)
  have only: "i = 4095" if "i < 4096" "coarse m l1 i" for i
  proof (rule ccontr)
    assume "i \<noteq> 4095"
    then have "i < 4095" using that(1) by (simp add: word_less_nat_alt u32_eq_nat_iff)
    then obtain f where "f = 2 \<or> f = 0xE" "e1 m l1 i = push_bit 20 i OR push_bit 10 1 OR f" using law(1) by blast
    then have "e1 m l1 i AND 3 = 2" using section_fields(1) [OF that(1)] by simp
    then show False using that(2) by (simp add: coarse_def)
  qed
  have p: "pte m l1 4095 j = last_entry kp j" if "j < 256" for j using law(3) that by (simp add: pte_def c4095(2))
  have pok: "page_ok k ?L (last_entry kp j)" if "j < 256" for j
    using last_entry_fields(1,2) [OF that, of kp] last_entry_page(2) [of j] al(2) assms(6) by (auto simp: page_ok_def)
  show "pt_inv ?vm l1 fl ?L"
    unfolding pt_inv_def
  proof (intro conjI allI impI)
    fix i i' j :: u32
    assume i: "i < 4096" "coarse (vm_mem ?vm) l1 i"
    then have i4: "i = 4095" using only by simp
    show "tbl (vm_mem ?vm) l1 i \<in> ?L" "tbl (vm_mem ?vm) l1 i \<in> used (cls (vm_ka ?vm) 6)" using c4095 assms(5) i4 by simp_all
    show "page_ok (vm_ka ?vm) ?L (pte (vm_mem ?vm) l1 i j)" if "j < 256" using p [OF that] pok [OF that] i4 by simp
    show "i = i'" if "i' < 4096" "coarse (vm_mem ?vm) l1 i'" using only [of i'] that i4 by simp
  qed (use assms(3,4) in simp_all)
  show "kernel_map m l1 kp" by (rule kernel_map_entries [OF law(1) c4095(1) p al(2)])
qed

lemma first_table:
  assumes "kinv (vm_ka vm) fl L" "0 < avail (vm_ka vm) fl 10" "0 < avail (vm_ka vm) fl 6" "0 < avail (vm_ka vm) fl 8" "length (vm_kuser vm) \<le> 4096"
  obtains l1 vm' fl' L' kp where "make_initial_L1_table vm = Some (l1, vm')" "pt_inv vm' l1 fl' L'" "grows (\<lambda>x. False) vm L vm' L'"
    "kernel_map (vm_mem vm') l1 kp" "kp \<in> L' - L" "kp \<in> used (cls (vm_ka vm') 8)"
    "\<And>k. k < length (vm_kuser vm) \<Longrightarrow> vm_mem vm' (kp + of_nat k) = vm_kuser vm ! k"
    "avail (vm_ka vm') fl' 6 + 1 = avail (vm_ka vm) fl 6" "avail (vm_ka vm') fl' 8 + 1 = avail (vm_ka vm) fl 8"
    "\<And>i. i < 4095 \<Longrightarrow> \<not> coarse (vm_mem vm') l1 i"
    "\<And>c. c < 21 \<Longrightarrow> c \<notin> {6, 8, 10} \<Longrightarrow> avail (vm_ka vm') fl' c = avail (vm_ka vm) fl c"
proof -
  obtain l1 l2 kp k fl' where b: "make_initial_L1_table vm = Some (l1, vm\<lparr>vm_ka := k, vm_mem := initial_memory l1 l2 kp vm\<rparr>)"
    "kinv k fl' (insert kp (insert l2 (insert l1 L)))" "l1 \<notin> L" "l2 \<notin> L" "kp \<notin> L" "l1 \<in> used (cls k 10)" "l2 \<in> used (cls k 6)" "kp \<in> used (cls k 8)"
    "apart3 l1 l2 kp" "\<And>j. j < 21 \<Longrightarrow> used (cls (vm_ka vm) j) \<subseteq> used (cls k j)"
    "avail k fl' 6 + 1 = avail (vm_ka vm) fl 6" "avail k fl' 8 + 1 = avail (vm_ka vm) fl 8"
    "\<And>c. c < 21 \<Longrightarrow> c \<notin> {6, 8, 10} \<Longrightarrow> avail k fl' c = avail (vm_ka vm) fl c"
    by (rule initial_blocks [OF assms(1-4)]) blast
  let ?vm = "vm\<lparr>vm_ka := k, vm_mem := initial_memory l1 l2 kp vm\<rparr>" and ?L = "insert kp (insert l2 (insert l1 L))"
  have ok: "classes_ok k" using b(2) by (simp add: kinv_def)
  have blocks: "in_blocks k (?L - L) x" if "in_block l1 16384 x \<or> in_block l2 1024 x \<or> in_block kp 4096 x" for x
  proof -
    have n: "l1 \<in> ?L - L" "l2 \<in> ?L - L" "kp \<in> ?L - L" using b(3-5) by auto
    have c: "10 < (21 :: nat)" "6 < (21 :: nat)" "8 < (21 :: nat)" by simp_all
    have z: "unat (block_size (cls k 10)) = 16384" "unat (block_size (cls k 6)) = 1024" "unat (block_size (cls k 8)) = 4096"
      using table_classes [OF ok] by simp_all
    show ?thesis unfolding in_blocks_def using that n b(6-8) c z by metis
  qed
  have g: "grows (\<lambda>x. False) vm L ?vm ?L"
    unfolding grows_def using b(10) initial_memory_law(5) [OF b(9) assms(5)] blocks by auto
  have nc: "\<not> coarse (vm_mem ?vm) l1 i" if i: "i < 4095" for i
  proof -
    obtain f where f: "f = 2 \<or> f = 0xE" "e1 (vm_mem ?vm) l1 i = push_bit 20 i OR push_bit 10 1 OR f"
      using initial_memory_law(1) [OF b(9) assms(5) i] by auto
    have "i < 4096" using i by (simp add: word_less_nat_alt)
    then show ?thesis using section_fields(1) f by (simp add: coarse_def)
  qed
  show thesis
    by (rule that [of l1 ?vm fl' ?L kp])
      (use b(1,5,8,11-13) g nc initial_structure [OF b(9) assms(5) b(2,6-8)] initial_memory_law(4) [OF b(9) assms(5)] in simp_all)
qed

lemma initial_table_law:
  assumes "kinv (vm_ka vm) fl L" "0 < avail (vm_ka vm) fl 10" "0 < avail (vm_ka vm) fl 6" "0 < avail (vm_ka vm) fl 8" "length (vm_kuser vm) \<le> 4096"
  shows "\<exists>l1 vm' fl' L' kp. make_initial_L1_table vm = Some (l1, vm') \<and> pt_inv vm' l1 fl' L' \<and> grows (\<lambda>x. False) vm L vm' L'
    \<and> kernel_map (vm_mem vm') l1 kp \<and> kp \<in> L' - L \<and> kp \<in> used (cls (vm_ka vm') 8)
    \<and> (\<forall>k < length (vm_kuser vm). vm_mem vm' (kp + of_nat k) = vm_kuser vm ! k)
    \<and> avail (vm_ka vm') fl' 6 + 1 = avail (vm_ka vm) fl 6 \<and> avail (vm_ka vm') fl' 8 + 1 = avail (vm_ka vm) fl 8"
  by (rule first_table [OF assms]) blast

text \<open>C23: The first page table. With room in the allocator \<open>make_initial_L1_table\<close> returns a table with the structure that every
  other operation on tables keeps (\<open>pt_inv\<close>), on blocks nobody had; no other memory changes. It maps every address to
  itself with access for the kernel only, but for one page: the helper page at 0xFFFF0000, open to user code, lies
  in a block of its own that holds the helper code.\<close>

theorem initial_table:
  assumes "kinv (vm_ka vm) fl L" "0 < avail (vm_ka vm) fl 10" "0 < avail (vm_ka vm) fl 6" "0 < avail (vm_ka vm) fl 8" "length (vm_kuser vm) \<le> 4096"
  shows "\<exists>l1 vm' fl' L' kp. make_initial_L1_table vm = Some (l1, vm') \<and> pt_inv vm' l1 fl' L' \<and> grows (\<lambda>x. False) vm L vm' L'
    \<and> kernel_map (vm_mem vm') l1 kp \<and> kp \<in> L' - L \<and> kp \<in> used (cls (vm_ka vm') 8)
    \<and> (\<forall>k < length (vm_kuser vm). vm_mem vm' (kp + of_nat k) = vm_kuser vm ! k)
    \<and> avail (vm_ka vm') fl' 6 + 1 = avail (vm_ka vm) fl 6 \<and> avail (vm_ka vm') fl' 8 + 1 = avail (vm_ka vm) fl 8"
  by (rule initial_table_law) (fact assms)+

text \<open>After boot of the allocator there is room.\<close>

definition boot_vm :: "u8 list \<Rightarrow> vm_state" where
  "boot_vm code = \<lparr>vm_mem = (\<lambda>_. 0), vm_ka = boot_state, vm_kuser = code, vm_active = 0\<rparr>"

lemma boot_room: "c \<in> {6, 8, 10} \<Longrightarrow> 8000 < avail boot_state (\<lambda>_. []) c \<or> 900 < avail boot_state (\<lambda>_. []) c"
  by (auto simp: avail_def boot_state_def kalloc_init_classes boot_classes_eval)

theorem initial_table_witness:
  "\<exists>l1 vm' fl' L' kp. make_initial_L1_table (boot_vm [0xFE, 0xFF, 0xFF, 0xEA]) = Some (l1, vm') \<and> pt_inv vm' l1 fl' L'
    \<and> kernel_map (vm_mem vm') l1 kp \<and> vm_mem vm' (kp + 3) = 0xEA"
proof -
  have b: "0 < avail (vm_ka (boot_vm code)) (\<lambda>_. []) c" if "c \<in> {6, 8, 10}" for c code
    using boot_room [OF that] by (auto simp: boot_vm_def)
  have i: "kinv (vm_ka (boot_vm code)) (\<lambda>_. []) {}" for code using boot_state_inv by (simp add: boot_vm_def)
  obtain l1 vm' fl' L' kp where r: "make_initial_L1_table (boot_vm [0xFE, 0xFF, 0xFF, 0xEA]) = Some (l1, vm')" "pt_inv vm' l1 fl' L'"
    "kernel_map (vm_mem vm') l1 kp" "\<forall>k < 4. vm_mem vm' (kp + of_nat k) = [0xFE, 0xFF, 0xFF, 0xEA] ! k"
    using initial_table [OF i, of "[0xFE, 0xFF, 0xFF, 0xEA]"] b by (auto simp: boot_vm_def)
  have "vm_mem vm' (kp + 3) = 0xEA" using r(4) [rule_format, of 3] by simp
  then show ?thesis using r(1-3) by blast
qed

end
