(* ===== verification/BootImage.thy ===== *)
theory BootImage
  imports Trap VmBoot
begin

text \<open>
  A card with one program, and memory as boot leaves it: the run that shows that \<open>notmain\<close> reaches user mode. The
  program is an ELF header with a single empty segment. What these lemmas compute - mounting the volume, listing the root, reading the
  file, the first blocks and the first table, loading the image - follows from the laws of the components.
\<close>

section \<open>A card with a program\<close>

definition elf_block :: "u8 list" where
  "elf_block = (replicate 512 0)[0 := 0x7F, 1 := 69, 2 := 76, 3 := 70, 4 := 1, 5 := 1, 6 := 1, 16 := 2, 18 := 40, 20 := 1, 25 := 0x80, 28 := 52,
     44 := 1]"

definition root_block :: "u8 list" where
  "root_block = (replicate 512 0)[0 := 83, 1 := 72, 2 := 32, 3 := 32, 4 := 32, 5 := 32, 6 := 32, 7 := 32, 8 := 69, 9 := 76, 10 := 70, 11 := 0x20,
     26 := 3, 28 := 84]"

definition shell_blocks :: "u32 \<Rightarrow> u8 list" where
  "shell_blocks b = (if b = 2 then (replicate 512 0)[8 := 0xF8, 9 := 0xFF, 10 := 0xFF, 11 := 0x0F, 12 := 0xF8, 13 := 0xFF, 14 := 0xFF, 15 := 0x0F]
     else if b = 3 then root_block else if b = 5 then elf_block else volume_blocks b)"

definition shell_fs :: fs_state where
  "shell_fs = blank_fs\<lparr>dev := blank_device\<lparr>sd_card := \<lparr>blocks = shell_blocks, byte_addressed = False, outcomes = []\<rparr>\<rparr>\<rparr>"

lemma shell_coherent: "coherent shell_fs" "emmc_ok (dev shell_fs)" "disk shell_fs = shell_blocks"
  by (simp_all add: coherent_def shell_fs_def blank_fs_def blank_device_def emmc_ok_def shell_blocks_def volume_blocks_def disk_def
      root_block_def elf_block_def)

lemma shell_mounts:
  obtains meta fs where "fat32_init False shell_fs = (Some meta, fs)" "coherent fs" "disk fs = shell_blocks" "geom_ok meta" "sec_per_clus meta = 2"
    "fat_start_lba meta = 2" "data_start_lba meta = 3" "bpb_root_clus (meta_bpb meta) = 2"
proof -
  have v: "shell_blocks 0 = volume_blocks 0" "shell_blocks 1 = volume_blocks 1" by (simp_all add: shell_blocks_def)
  have z: "shell_fs\<lparr>fs_cache_valid := (\<lambda>s. 0)\<rparr> = shell_fs" by (simp add: shell_fs_def blank_fs_def)
  obtain t where t: "fs_parse_mbr_section (volume_blocks 0) = Some t" using volume_parse(2) by blast
  obtain b where b: "fat32_parse_bpb_section (volume_blocks 1) = Some b" using volume_parse(1) by blast
  obtain fs1 where r: "fs_read_sector (local_buf 512 shell_fs) 0 shell_fs = (volume_blocks 0, fs1)"
    "disk fs1 = shell_blocks" "coherent fs1"
    using fs.rd_cases [OF shell_coherent(1) _ length_local_buf, of 0] shell_coherent(3) v by (auto simp: sector_ok_def)
  obtain fs2 where r2: "fs_read_sector (local_buf 512 fs1) 1 fs1 = (volume_blocks 1, fs2)" "disk fs2 = shell_blocks" "coherent fs2"
    using fs.rd_cases [OF r(3) _ length_local_buf, of 1] r(2) v by (auto simp: sector_ok_def)
  have i: "fat32_init False shell_fs = (Some (meta_of t 1 b), fs2)"
    using r(1) r2(1) t b parse_mbr_Some [OF t] volume_lba by (simp add: fat32_init_def z)
  have "b = bpb_at (volume_blocks 1)" using parse_bpb_Some [OF b] by simp
  then have "bpb_bytes_per_sec b = 512" "bpb_sec_per_clus b = 2" "bpb_rsvd_sec_cnt b = 1" "bpb_num_fats b = 1" "bpb_fat_sz32 b = 1" "bpb_root_clus b = 2"
    by (simp_all add: bpb_at_def volume_blocks_def read_u16_def read_u32_def)
  then show thesis by (intro that [OF i r2(3,2)]) (simp_all add: meta_of_def Let_def geom_ok_def)
qed

lemma shell_chain:
  assumes "geom_ok meta" "sec_per_clus meta = 2" "fat_start_lba meta = 2" "data_start_lba meta = 3" "c = 2 \<or> c = 3"
  shows "file_chain meta shell_blocks c [c]"
proof -
  have d: "data_ok meta c" using assms by (auto simp: data_ok_def clus_ok_def geom_ok_def)
  have "next_of meta shell_blocks c = 0x0FFFFFF8"
    using assms by (auto simp: next_of_def fat_entry_def fat_sector_def fat_index_def geom_ok_def shell_blocks_def read_u32_def)
  then show ?thesis using assms(5) d by (auto simp: file_chain_simps)
qed

definition shell_entry :: list_entry where
  "shell_entry = \<lparr>le_dirent = dirent_at root_block 0, le_lfn_count = 0\<rparr>"

lemma shell_listing:
  assumes "geom_ok meta" "sec_per_clus meta = 2" "fat_start_lba meta = 2" "data_start_lba meta = 3"
  shows "dir_entries meta shell_blocks 2 = [shell_entry]"
proof -
  have lb: "length (shell_blocks b) = 512" for b by (simp add: shell_blocks_def volume_blocks_def root_block_def elf_block_def)
  have c: "cluster_content meta shell_blocks 2 = root_block @ shell_blocks 4"
  proof -
    have n: "spc meta = Suc (Suc 0)" using assms(2) by simp
    show ?thesis using assms(4) by (simp add: cluster_content_def fat32_cluster_to_lba_def n) (simp add: shell_blocks_def)
  qed
  have l: "length root_block = 512" by (simp add: root_block_def)
  have e: "dirent_at (root_block @ shell_blocks 4) 0 = dirent_at root_block 0"
    by (simp add: dirent_at_def slice_def read_u16_def read_u32_def nth_append l)
  have s: "16 * spc meta = Suc (Suc 30)" using assms(2) by simp
  show ?thesis unfolding dir_entries_def c s list_sector.simps
    by (simp add: nth_append l e shell_entry_def) (simp add: root_block_def FAT_ATTR_LFN_def FAT_ATTR_VOLUMEID_def)
qed

section \<open>Loading it\<close>

lemma elf_header:
  "length (take 84 elf_block) = 84" "\<not> elf_bad (ehdr_at (take 84 elf_block))" "e_phnum (ehdr_at (take 84 elf_block)) = 1"
  "e_entry (ehdr_at (take 84 elf_block)) = 0x8000" "e_phoff (ehdr_at (take 84 elf_block)) = 52"
  by (simp_all add: elf_block_def ehdr_at_def elf_bad_def EM_ARM_def slice_def read_u16_def read_u32_def)

lemma elf_segment: "\<exists>ph. phdr_at (take 84 elf_block) (ehdr_at (take 84 elf_block)) 0 = Some ph \<and> p_type ph = 0"
  by (simp add: phdr_at_def elf_header Let_def) (simp add: elf_block_def read_u32_def)

lemma stack_page: "ALIGN_DOWN STACK_TOP 4096 = 0xBFFFF000"
  by (simp add: ALIGN_DOWN_def STACK_TOP_def USER_TOP_def)

lemma load_shell:
  assumes "pt_inv vm l1 fl L" "vm_active vm = l1" "1 \<le> avail (vm_ka vm) fl 6" "1 \<le> avail (vm_ka vm) fl 8"
    "\<not> has_page (vm_mem vm) l1 0xBFFFF000" "l1_pt pcb = l1" "stack_need argv envp \<le> 0xFF0"
  shows "\<exists>pcb' vm'. load_elf (take 84 elf_block) argv envp pcb vm = Some (0x8000, pcb', vm')"
proof -
  obtain ph where ph: "phdr_at (take 84 elf_block) (ehdr_at (take 84 elf_block)) 0 = Some ph" "p_type ph = 0" using elf_segment by blast
  have one: "unat (e_phnum (ehdr_at (take 84 elf_block))) = Suc 0" by (simp add: elf_header)
  have seg: "load_segments (Suc 0) 0 (take 84 elf_block) (ehdr_at (take 84 elf_block)) l1 0 vm = Some (0, vm)"
    "find_at_phdr (Suc 0) 0 (take 84 elf_block) (ehdr_at (take 84 elf_block)) = Some 0"
    using ph by (simp_all add: load_segment_def PT_LOAD_def)
  obtain vm2 fl2 L2 p where 2: "make_sure_user_space l1 0xBFFFF000 4096 vm = Some vm2" "user_page vm2 l1 fl2 L2 0xBFFFF000 p"
    using made_user_page [OF assms(1,2), of "0xBFFFF000"] assms(3-5) by auto
  obtain vm3 where 3: "user_write 0xBFFFF000 (replicate 4096 0) vm2 = Some vm3" "user_page vm3 l1 fl2 L2 0xBFFFF000 p"
    using user_write_page [OF 2(2), of 0 "replicate 4096 0"] by auto
  obtain sp vm4 where 4: "init_stack (ehdr_at (take 84 elf_block)) 0 argv envp vm3 = Some (sp, vm4)"
    using init_stack_law [OF 3(2) assms(7)] by blast
  show ?thesis
    using 2(1) 3(1) 4 seg assms(6) elf_header(1,2,4)
    by (simp add: load_elf_def Let_def one stack_page del: replicate.simps user_write.simps load_segments.simps find_at_phdr.simps)
qed

section \<open>Memory at boot\<close>

definition helper_code :: "u8 list" where "helper_code = [0xFE, 0xFF, 0xFF, 0xEA]"

lemma boot_class: "find_class 5408 (size_classes boot_state) = Some 9" "cls boot_state 9 = boot_classes ! 9"
  by (simp_all add: boot_state_def kalloc_init_classes) (simp add: boot_classes_eval)

lemma boot_room_small: "1 < avail boot_state (\<lambda>_. []) 3"
  by (simp add: avail_def boot_state_def kalloc_init_classes) (simp add: boot_classes_eval)

lemma usb_block:
  obtains k fl where "valloc 5408 (boot_vm helper_code) = Some (0xC6FF0000, (boot_vm helper_code)\<lparr>vm_ka := k\<rparr>)"
    "kinv k fl {0xC6FF0000}" "\<And>c. c \<in> {3, 6, 8, 10} \<Longrightarrow> 1 < avail k fl c"
proof -
  have a9: "0 < avail boot_state (\<lambda>_. []) 9" by (simp add: avail_def boot_class boot_classes_eval)
  obtain p k fl where k: "kalloc 5408 boot_state = Some (p, k)" "kinv k fl (insert p {})"
    "\<And>j. j < 21 \<Longrightarrow> avail k fl j = (if j = 9 then avail boot_state (\<lambda>_. []) 9 - 1 else avail boot_state (\<lambda>_. []) j)"
    by (rule kalloc_room [OF boot_state_inv boot_class(1) a9]) blast
  have "dlist (heap boot_state) (fhead boot_state 9) []" using kinv_class(1) [OF boot_state_inv, of 9] by simp
  then have "lnext (heap boot_state (fhead boot_state 9)) = fhead boot_state 9" by (simp add: dlist_def)
  then have "\<exists>k. kalloc 5408 boot_state = Some (0xC6FF0000, k)" by (simp add: kalloc_def Let_def boot_class boot_classes_eval)
  then have p: "p = 0xC6FF0000" using k(1) by auto
  have room: "1 < avail k fl c" if c: "c \<in> {3, 6, 8, 10}" for c
  proof -
    have "c < 21" "c \<noteq> 9" "1 < avail boot_state (\<lambda>_. []) c" using boot_room [of c] boot_room_small c by auto
    then show ?thesis using k(3) [of c] by simp
  qed
  show thesis by (rule that [OF _ _ room]) (use k(1,2) in \<open>simp_all add: p valloc_def boot_vm_def\<close>)
qed

lemma boot_table:
  obtains vm1 l1 vm2 fl L where "valloc 5408 (boot_vm helper_code) = Some (0xC6FF0000, vm1)" "mmu_init vm1 = Some (l1, vm2)"
    "pt_inv vm2 l1 fl L" "vm_active vm2 = l1" "\<And>c. c \<in> {3, 6, 8} \<Longrightarrow> 0 < avail (vm_ka vm2) fl c" "\<not> coarse (vm_mem vm2) l1 0xBFF"
    "user_word 0xFFFF0000 vm2 = Some 0xEAFFFFFE"
proof -
  obtain k fl where k: "valloc 5408 (boot_vm helper_code) = Some (0xC6FF0000, (boot_vm helper_code)\<lparr>vm_ka := k\<rparr>)"
    "kinv k fl {0xC6FF0000}" "\<And>c. c \<in> {3, 6, 8, 10} \<Longrightarrow> 1 < avail k fl c" by (rule usb_block) blast
  let ?vm1 = "(boot_vm helper_code)\<lparr>vm_ka := k\<rparr>"
  have u: "vm_kuser ?vm1 = helper_code" by (simp add: boot_vm_def)
  obtain l1 vm' fl' L' kp where t: "make_initial_L1_table ?vm1 = Some (l1, vm')" "pt_inv vm' l1 fl' L'" "kernel_map (vm_mem vm') l1 kp"
    "kp \<in> used (cls (vm_ka vm') 8)" "\<And>k. k < length (vm_kuser ?vm1) \<Longrightarrow> vm_mem vm' (kp + of_nat k) = vm_kuser ?vm1 ! k"
    "avail (vm_ka vm') fl' 6 + 1 = avail (vm_ka ?vm1) fl 6" "avail (vm_ka vm') fl' 8 + 1 = avail (vm_ka ?vm1) fl 8"
    "\<And>i. i < 4095 \<Longrightarrow> \<not> coarse (vm_mem vm') l1 i" "\<And>c. c < 21 \<Longrightarrow> c \<notin> {6, 8, 10} \<Longrightarrow> avail (vm_ka vm') fl' c = avail (vm_ka ?vm1) fl c"
    by (rule first_table [of ?vm1 fl "{0xC6FF0000}"]) (use k(2) k(3) [of 6] k(3) [of 8] k(3) [of 10] u in \<open>simp_all add: helper_code_def\<close>)
  let ?vm2 = "vm'\<lparr>vm_active := l1\<rparr>"
  have m: "mmu_init ?vm1 = Some (l1, ?vm2)" by (simp add: mmu_init_def t(1))
  have inv: "pt_inv ?vm2 l1 fl' L'" using t(2) by (simp add: pt_inv_def)
  have room: "0 < avail (vm_ka ?vm2) fl' c" if c: "c \<in> {3, 6, 8}" for c
    using t(6,7) t(9) [of 3] k(3) [of 3] k(3) [of 6] k(3) [of 8] c by auto
  have ld: "user_load ?vm2 (0xFFFF0000 + of_nat i) = Some (helper_code ! i)" if i: "i < 4" for i
  proof -
    have kp: "kp OR of_nat i = kp + of_nat i" using frame_offset(1) [OF pt_invD(1) [OF t(2)] t(4), of i] i by simp
    have "i \<in> {0, 1, 2, 3}" using i by auto
    then have "(0xFFFF0000 + of_nat i :: u32) AND 0xFFFFF000 = 0xFFFF0000" "(0xFFFF0000 + of_nat i :: u32) AND 0xFFF = of_nat i" by auto
    then have "translate (vm_mem vm') l1 (0xFFFF0000 + of_nat i) = Some (kp + of_nat i, 3)"
      using t(3) kp by (simp add: kernel_map_def)
    then show ?thesis using t(5) [of i] u i by (simp add: user_load_def helper_code_def)
  qed
  have "user_read 4 0xFFFF0000 ?vm2 = Some helper_code"
    using ld [of 0] ld [of 1] ld [of 2] ld [of 3] by (simp add: numeral_eq_Suc helper_code_def)
  then have v: "user_word 0xFFFF0000 ?vm2 = Some 0xEAFFFFFE" by (simp add: user_word_def helper_code_def read_u32_def)
  show thesis by (rule that [OF k(1) m inv _ room _ v]) (use t(8) [of "0xBFF"] in simp_all)
qed

section \<open>The program in memory\<close>

lemma file_class:
  assumes "classes_ok s"
  shows "find_class 84 (size_classes s) = Some 3" "unat (size_class.block_size (cls s 3)) = 128"
proof -
  have b: "size_class.block_size (cls s i) = size_class.block_size (boot_classes ! i)" if "i < 21" for i by (rule static_boot(1) [OF assms that])
  obtain i where i: "find_class 84 (size_classes s) = Some i" "i < 21" "84 \<le> size_class.block_size (cls s i)" "\<And>j. j < i \<Longrightarrow> size_class.block_size (cls s j) < 84"
    by (rule find_class_boot [OF assms, of 84]) auto
  have "\<not> 3 < i" using i(4) [of 3] b [of 3] by (auto simp: boot_classes_eval)
  moreover have "i \<noteq> j" if "j \<in> {0, 1, 2}" for j
  proof
    assume "i = j"
    then have "84 \<le> size_class.block_size (boot_classes ! j)" using i(2,3) b [of i] by simp
    then show False using that by (auto simp: boot_classes_eval)
  qed
  then have "i \<noteq> 0" "i \<noteq> 1" "i \<noteq> 2" by simp_all
  ultimately have "i = 3" by linarith
  then show "find_class 84 (size_classes s) = Some 3" "unat (size_class.block_size (cls s 3)) = 128" using i(1) b [of 3] by (simp_all add: boot_classes_eval)
qed

lemma shell_loads:
  assumes "pt_inv vm l1 fl L" "vm_active vm = l1" "\<And>c. c \<in> {3, 6, 8} \<Longrightarrow> 0 < avail (vm_ka vm) fl c" "\<not> coarse (vm_mem vm) l1 0xBFF"
    "l1_pt pcb = l1" "stack_need argv envp \<le> 0xFF0"
  shows "\<exists>p vm1 pcb' vm2. valloc 84 vm = Some (p, vm1) \<and> p \<noteq> 0
    \<and> load_elf (take 84 elf_block) argv envp pcb (vm1\<lparr>vm_mem := put_bytes p (take 84 elf_block) (vm_mem vm1)\<rparr>) = Some (0x8000, pcb', vm2)"
proof -
  note kv = pt_invD(1) [OF assms(1)]
  have ok: "classes_ok (vm_ka vm)" using kv by (simp add: kinv_def)
  have room: "0 < avail (vm_ka vm) fl 3" "0 < avail (vm_ka vm) fl 6" "0 < avail (vm_ka vm) fl 8" using assms(3) by auto
  obtain p k' fl' where k: "kalloc 84 (vm_ka vm) = Some (p, k')" "p \<notin> L" "p \<in> used (cls k' 3)" "kinv k' fl' (insert p L)"
    "\<And>j. j < 21 \<Longrightarrow> avail k' fl' j = (if j = 3 then avail (vm_ka vm) fl 3 - 1 else avail (vm_ka vm) fl j)"
    "\<And>j. j < 21 \<Longrightarrow> used (cls (vm_ka vm) j) \<subseteq> used (cls k' j)"
    by (rule kalloc_room [OF kv file_class(1) [OF ok] room(1)]) blast
  have ok': "classes_ok k'" using k(4) by (simp add: kinv_def)
  have bb: "0xC1010000 \<le> unat p" "unat p + 128 \<le> 0xCCBD0000"
    using block_bounds [OF k(4) _ k(3)] file_class(2) [OF ok'] by auto
  define m where "m = put_bytes p (take 84 elf_block) (vm_mem vm)"
  have same: "m x = vm_mem vm x" if x: "in_tables (vm_mem vm) l1 x" for x
  proof -
    have "\<not> in_block p 128 x"
      using fresh_not_tables [OF assms(1) k(4) _ k(6), of 3 p x] k(2,3) file_class(2) [OF ok'] x by auto
    then have "\<not> in_block p (length (take 84 elf_block)) x" by (auto simp: elf_header in_block_def)
    then show ?thesis unfolding m_def using put_bytes_law [of p "take 84 elf_block" "vm_mem vm" x] bb(2) by (simp add: elf_header)
  qed
  have inv: "pt_inv (vm\<lparr>vm_ka := k', vm_mem := m\<rparr>) l1 fl' (insert p L)"
    by (rule pt_inv_frame [OF assms(1) same k(4) _ k(6)]) auto
  have "e1 m l1 0xBFF = e1 (vm_mem vm) l1 0xBFF" by (rule tables_frame(1) [OF assms(1) same]) auto
  then have "\<not> has_page m l1 0xBFFFF000" using assms(4) by (simp add: has_page_def coarse_def)
  then obtain pcb' vm2 where "load_elf (take 84 elf_block) argv envp pcb (vm\<lparr>vm_ka := k', vm_mem := m\<rparr>) = Some (0x8000, pcb', vm2)"
    using load_shell [OF inv, of pcb argv envp] assms(2,5,6) k(5) [of 6] k(5) [of 8] room by auto
  moreover have "p \<noteq> 0" using bb(1) by auto
  ultimately show ?thesis using k(1) by (auto simp: valloc_def m_def)
qed

end
