(* ===== verification/Boot.thy ===== *)
theory Boot
  imports BootImage UsbInit EmmcInit Terminal
begin

text \<open>
  Boot: \<open>notmain\<close> and \<open>exec\<close> of final/main.c, \<open>kuser_verify\<close> of final/src/kuser.c. The board is the kernel with the
  state of its drivers; each driver has its own hardware, a function of the accesses it has made. The exception
  vectors, the mode stacks and the interrupt mask have no state here, and the messages go to the serial line. The blocks
  boot allocates are those whose addresses matter: the context of the keyboard, the page tables and the program.
\<close>

section \<open>The board\<close>

record board =
  b_kernel :: kernel
  b_keyboard :: usb_keyboard
  b_terminal :: terminal
  b_card :: sd_device
  b_regs :: history

text \<open>User mode entered with a stack pointer and an address, a new kernel started at an address, or a reboot.\<close>

datatype booted = In_user u32 u32 board | New_kernel u32 "u8 list" | Rebooting

text \<open>What the loader of the image leaves: the statics of sched.c.\<close>

definition powered_on :: "board \<Rightarrow> bool" where
  "powered_on b \<longleftrightarrow> (let s = k_sched (b_kernel b) in
     cur s = 0 \<and> next_thread s = 1 \<and> ready_q s = [] \<and> sleeping_q s = [] \<and> \<not> exited (cur_thread s))"

section \<open>The first program\<close>

definition name_matches :: "bytes \<Rightarrow> list_entry \<Rightarrow> bool" where
  "name_matches filename e = strn_eq filename (de_name (le_dirent e)) 11"

definition shell_args :: "bytes list" where "shell_args = [map of_char ''sh'']"

definition shell_envs :: "bytes list" where "shell_envs = [map of_char ''PATH=/bin'', map of_char ''TERM=linux'']"

definition PTR_IRQ_ENABLE_BASIC :: u32 where "PTR_IRQ_ENABLE_BASIC = MMIO_BASE + 0xB218"

text \<open>A string for the working directory, in a block of its own.\<close>

definition start_in_root :: "sched \<Rightarrow> sched" where
  "start_in_root s = upd_thread (cur s) (\<lambda>th. th\<lparr>cwd := next_string s\<rparr>)
     (s\<lparr>strings := (strings s)(next_string s := Some [47]), next_string := next_string s + 1\<rparr>)"

text \<open>The stack pointer and the address user mode starts with, or nothing when \<open>exec\<close> returns. Without a block for the
  file its data goes through a null pointer.\<close>

definition exec :: "nat \<Rightarrow> fat_meta \<Rightarrow> bytes \<Rightarrow> board \<Rightarrow> ((u32 \<times> u32) option \<times> board) option" where
  "exec fuel meta filename b =
     (let k = b_kernel b in do {
        (es, fs1) \<leftarrow> fat32_list_fat fuel meta (bpb_root_clus (meta_bpb meta)) (k_fs k);
        case find (name_matches filename) es of
          None \<Rightarrow> Some (None, b\<lparr>b_kernel := k\<lparr>k_fs := fs1\<rparr>\<rparr>)
        | Some targ \<Rightarrow> do {
            (data, fs2) \<leftarrow> fat32_read_file fuel meta (dirent_cluster (le_dirent targ)) (de_file_size (le_dirent targ)) fs1;
            (file_data, vm1) \<leftarrow> valloc (de_file_size (le_dirent targ)) (k_vm k);
            (code_start, pcb, vm2) \<leftarrow> (if file_data = 0 then None
               else load_elf data shell_args shell_envs (k_cur k) (vm1\<lparr>vm_mem := put_bytes file_data data (vm_mem vm1)\<rparr>));
            let k1 = upd_cur (\<lambda>th. pcb) (set_vm vm2 (k\<lparr>k_fs := fs2\<rparr>)) in
            if code_start = ELF_ERR then Some (None, b\<lparr>b_kernel := k1\<rparr>)
            else let k2 = set_vm (vfree file_data vm2) (k1\<lparr>k_sched := start_in_root (k_sched k1)\<rparr>)
              in Some (Some (user_sp (ctx (k_cur k1)), code_start),
                   b\<lparr>b_kernel := k2, b_regs := PUT32 PTR_IRQ_ENABLE_BASIC 1 (b_regs b)\<rparr>)
          }
      })"

section \<open>Boot\<close>

text \<open>The banner has the date and the time of the build in it.\<close>

definition linux_banner :: "bytes \<Rightarrow> bytes \<Rightarrow> bytes" where
  \<open>linux_banner date time =
     concat (map (\<lambda>l. map of_char l @ [10])
       [''  _   _             _                                            '',
        '' | |_(_) __ _ _ __ | | ___ _   _ _   _        ___ ___  _ __ ___  '',
        '' | __| |/ _` | `_ '' @ [CHR 0x5C] @ ''| |/ _ '' @ [CHR 0x5C] @ '' | | | | | |      / __/ _ '' @ [CHR 0x5C] @ ''| `_ ` _ '' @ [CHR 0x5C] @ '' '',
        '' | |_| | (_| | | | | |  __/ |_| | |_| |  _  | (_| (_) | | | | | |'',
        ''  '' @ [CHR 0x5C] @ ''__|_|'' @ [CHR 0x5C] @ ''__,_|_| |_|_|'' @ [CHR 0x5C] @ ''___|'' @ [CHR 0x5C] @ ''__, |'' @ [CHR 0x5C] @ ''__,_| (_)  '' @ [CHR 0x5C] @ ''___'' @ [CHR 0x5C] @ ''___/|_| |_| |_|'',
        ''                           |___/                                 '',
        ''----------------------------------------'',
        ''Kernel for CS140E Final Project''])
     @ map of_char ''Compiled on '' @ [0x1B] @ map of_char ''[1;32m'' @ date @ [32] @ time @ [0x1B] @ map of_char ''[0m'' @ [10]
     @ [0x1B] @ map of_char ''[1;31m          LINUX BUILT '' @ [0x1B] @ map of_char ''[0m'' @ [10]
     @ map of_char ''----------------------------------------'' @ [10]\<close>

text \<open>The instruction at the start of the helper page, a branch to itself.\<close>

definition kuser_verify :: "vm_state \<Rightarrow> bool option" where
  "kuser_verify vm = map_option (\<lambda>w. w = 0xEAFFFFFE) (user_word 0xFFFF0000 vm)"

text \<open>The structure the driver of the keyboard allocates has its DMA buffers at offset 32.\<close>

definition USB_CONTEXT_SIZE :: u32 where "USB_CONTEXT_SIZE = 5408"

definition TIMER_PRE_16 :: u32 where "TIMER_PRE_16 = 1"

text \<open>From the terminal to the first thread and its page table.\<close>

definition start_memory :: "nat \<Rightarrow> hardware \<Rightarrow> (u32 list \<Rightarrow> u32 list) \<Rightarrow> u32 \<Rightarrow> board \<Rightarrow> board option" where
  "start_memory n usb_hw mailbox_call font b =
     (let k = b_kernel b; vm0 = (k_vm k)\<lparr>vm_ka := kalloc_init (vm_ka (k_vm k))\<rparr>
      in case tty_init of (tty, f0, f1, f2) \<Rightarrow> do {
        (p, vm1) \<leftarrow> valloc USB_CONTEXT_SIZE vm0;
        kb \<leftarrow> do_usb n usb_hw (p + 32) (b_keyboard b);
        let t = (b_terminal b)\<lparr>t_display := framebuffer_init mailbox_call font (t_display (b_terminal b))\<rparr> in do {
          (l1, vm2) \<leftarrow> mmu_init vm1;
          let k1 = set_vm vm2 (k\<lparr>k_tty := tty, k_files := (k_files k)(fd0 \<mapsto> f0, fd1 \<mapsto> f1, fd2 \<mapsto> f2)\<rparr>) in
          Some (b\<lparr>b_kernel := upd_cur (\<lambda>th. th\<lparr>l1_pt := l1, tid := 1, ready := True\<rparr>) k1, b_keyboard := kb, b_terminal := t\<rparr>)
        }
      })"

text \<open>A volume that cannot be mounted is a null pointer that \<open>exec\<close> follows. The result of \<open>emmc_init\<close> is not looked at.\<close>

definition notmain :: "nat \<Rightarrow> hardware \<Rightarrow> hardware \<Rightarrow> (u32 list \<Rightarrow> u32 list) \<Rightarrow> (u32 list \<Rightarrow> u32 list) \<Rightarrow> u32 \<Rightarrow> u32
    \<Rightarrow> bytes \<Rightarrow> bytes \<Rightarrow> nat \<Rightarrow> board \<Rightarrow> booted option" where
  "notmain n usb_hw emmc_hw fb_call fw mbox_at font date time fuel b = do {
     b1 \<leftarrow> start_memory n usb_hw fb_call font b;
     verified \<leftarrow> kuser_verify (k_vm (b_kernel b1));
     if \<not> verified then Some Rebooting
     else do {
       (_, card) \<leftarrow> emmc_init n emmc_hw fw mbox_at (b_card b1);
       let b2 = b1\<lparr>b_regs := enable_timer 0xFF TIMER_PRE_16 (b_regs b1), b_card := card\<rparr> in
       case fat32_init False (k_fs (b_kernel b2)) of (fat_meta_obj, fs) \<Rightarrow> do {
         meta \<leftarrow> fat_meta_obj;
         let k = upd_cur (\<lambda>th. th\<lparr>fdt := init_fdtable\<rparr>) ((b_kernel b2)\<lparr>k_fs := fs\<rparr>);
             t = fold terminal_putc (cstring (linux_banner date time)) (b_terminal b2) in do {
           (r, b3) \<leftarrow> exec fuel meta (map of_char ''SH      ELF'') (b2\<lparr>b_kernel := k, b_terminal := t\<rparr>);
           case r of
             Some (sp, pc) \<Rightarrow> Some (In_user sp pc b3)
           | None \<Rightarrow> map_option (\<lambda>(r, _). case r of Inl _ \<Rightarrow> Rebooting | Inr data \<Rightarrow> New_kernel 0xC0008000 data)
               (kernel_image fuel meta (map of_char ''/dmode/kernel.elf'') (k_fs (b_kernel b3)))
         }
       }
     }
   }"

section \<open>The keyboard\<close>

lemma arm_address: "address (usb_interrupt_init_ch hw chan i d ep u) = address u"
  unfolding usb_interrupt_init_ch_def by (rule same_usbD(2) [OF arm_channel_law(1)])

lemma keyboard_init_address: "address (keyboard_init hw at u) = address u"
proof -
  obtain bs u1 where b: "bytes_in hw (dma_at u) USB_DMA_SIZE u = (bs, u1)" by fastforce
  then have "address u1 = address u" using bytes_in_law same_usbD(2) by blast
  then show ?thesis using same_usbD(2) [OF bytes_out_law(1) [of _ u1 at bs]] by (simp add: keyboard_init_def b)
qed

lemma do_usb_address:
  assumes "do_usb n hw p k = Some k'"
  shows "address (usb_ctx k') = 1"
proof -
  obtain u r u1 where 1: "usb_hid_full_init n hw u = Some (r, u1)"
    and k': "usb_ctx k' = keyboard_init hw (dma_at (usb_ctx k))
      (let u2 = udelay 200000 u1; u3 = u2\<lparr>hid := (hid u2)\<lparr>interrupt_toggle := PID_DATA0\<rparr>\<rparr>;
           u4 = usb_interrupt_init_ch hw CH_INTERRUPT 0 (address u3) (hid u3) u3
       in if endpoint (aux u4) \<noteq> 0
          then (let u = u4\<lparr>aux := (aux u4)\<lparr>interrupt_toggle := PID_DATA0\<rparr>\<rparr> in usb_interrupt_init_ch hw CH_INTERRUPT2 1 (address u) (aux u) u)
          else u4)"
    using assms by (auto simp: do_usb_def bind_eq_Some_conv Let_def)
  have "address u1 = 1" using enumeration_law [OF 1] by simp
  then show ?thesis by (simp add: k' Let_def keyboard_init_address arm_address udelay_def)
qed

section \<open>Boot to the first table\<close>

lemma boot_running:
  assumes "powered_on b" "vm_active vm = l1"
  shows "running (k_sched (upd_cur (\<lambda>th. th\<lparr>l1_pt := l1, tid := 1, ready := True\<rparr>)
    (set_vm vm ((b_kernel b)\<lparr>k_tty := t, k_files := fs\<rparr>))))"
  using assms by (auto simp: powered_on_def Let_def running_def sched_ok_def sched_inv_def asleep_def upd_cur_def set_vm_def upd_thread_def)

lemma tty_init_ok: "tty_inv (fst tty_init)"
  by (simp add: tty_init_def tty_inv_def termios_size_def NCCS_def)

lemma start_memory_law:
  assumes "start_memory n hw call font b = Some b1" "powered_on b"
  shows "kernel_ok (b_kernel b1)" "tid (k_cur (b_kernel b1)) = 1" "k_tty (b_kernel b1) = fst tty_init"
    "address (usb_ctx (b_keyboard b1)) = 1" "b_regs b1 = b_regs b"
    "k_files (b_kernel b1) fd0 = Some (fst (snd tty_init)) \<and> k_files (b_kernel b1) fd1 = Some (fst (snd (snd tty_init)))
      \<and> k_files (b_kernel b1) fd2 = Some (snd (snd (snd tty_init)))" "k_fs (b_kernel b1) = k_fs (b_kernel b)"
proof -
  obtain tty f0 f1 f2 where t: "tty_init = (tty, f0, f1, f2)" by (cases tty_init) auto
  obtain p vm1 kb l1 vm2 where r: "do_usb n hw (p + 32) (b_keyboard b) = Some kb" "mmu_init vm1 = Some (l1, vm2)"
    and b1: "b_kernel b1 = upd_cur (\<lambda>th. th\<lparr>l1_pt := l1, tid := 1, ready := True\<rparr>)
        (set_vm vm2 ((b_kernel b)\<lparr>k_tty := tty, k_files := (k_files (b_kernel b))(fd0 \<mapsto> f0, fd1 \<mapsto> f1, fd2 \<mapsto> f2)\<rparr>))"
      "b_keyboard b1 = kb" "b_regs b1 = b_regs b"
    using assms(1) by (auto simp: start_memory_def t Let_def bind_eq_Some_conv)
  have a: "vm_active vm2 = l1" using r(2) by (auto simp: mmu_init_def bind_eq_Some_conv)
  have k: "k_tty (b_kernel b1) = tty" "k_files (b_kernel b1) fd0 = Some f0 \<and> k_files (b_kernel b1) fd1 = Some f1
      \<and> k_files (b_kernel b1) fd2 = Some f2" "tid (k_cur (b_kernel b1)) = 1" "k_fs (b_kernel b1) = k_fs (b_kernel b)"
    using assms(2) by (simp_all add: b1 upd_cur_def set_vm_def upd_thread_def powered_on_def Let_def fd0_def fd1_def fd2_def)
  show "kernel_ok (b_kernel b1)" unfolding kernel_ok_def k(1)
    using boot_running [OF assms(2) a] tty_init_ok by (simp add: b1 t)
  show "tid (k_cur (b_kernel b1)) = 1" "k_tty (b_kernel b1) = fst tty_init"
    "k_files (b_kernel b1) fd0 = Some (fst (snd tty_init)) \<and> k_files (b_kernel b1) fd1 = Some (fst (snd (snd tty_init)))
      \<and> k_files (b_kernel b1) fd2 = Some (snd (snd (snd tty_init)))" "k_fs (b_kernel b1) = k_fs (b_kernel b)"
    using k by (simp_all add: t)
  show "address (usb_ctx (b_keyboard b1)) = 1" "b_regs b1 = b_regs b" using do_usb_address [OF r(1)] b1 by simp_all
qed

section \<open>The first program is set up\<close>

lemma load_elf_fields:
  assumes "load_elf elf argv envp pcb vm = Some (pc, pcb', vm')"
  shows "tid pcb' = tid pcb" "fdt pcb' = fdt pcb" "pc \<noteq> ELF_ERR \<Longrightarrow> pc = e_entry (ehdr_at elf)"
  using assms by (auto simp: load_elf_def Let_def bind_eq_Some_conv simp del: user_write.simps replicate.simps split: if_splits)

lemma start_in_root_fields:
  "sched_same s (start_in_root s)" "ctx (cur_thread (start_in_root s)) = ctx (cur_thread s)" "tid (cur_thread (start_in_root s)) = tid (cur_thread s)"
  "fdt (cur_thread (start_in_root s)) = fdt (cur_thread s)" "strings (start_in_root s) (cwd (cur_thread (start_in_root s))) = Some [47]"
  by (simp_all add: start_in_root_def sched_same_def upd_thread_def)

lemma exec_law:
  assumes "exec fuel meta name b = Some (Some (sp, pc), b')" "kernel_ok (b_kernel b)"
  shows "kernel_ok (b_kernel b')" "tid (k_cur (b_kernel b')) = tid (k_cur (b_kernel b))" "fdt (k_cur (b_kernel b')) = fdt (k_cur (b_kernel b))"
    "cwd_of (b_kernel b') = Some [47]" "user_sp (ctx (k_cur (b_kernel b'))) = sp" "k_tty (b_kernel b') = k_tty (b_kernel b)"
    "k_files (b_kernel b') = k_files (b_kernel b)" "b_keyboard b' = b_keyboard b" "b_regs b' = PUT32 PTR_IRQ_ENABLE_BASIC 1 (b_regs b)"
    "\<exists>es fs1 e elf fs2. fat32_list_fat fuel meta (bpb_root_clus (meta_bpb meta)) (k_fs (b_kernel b)) = Some (es, fs1)
       \<and> find (name_matches name) es = Some e
       \<and> fat32_read_file fuel meta (dirent_cluster (le_dirent e)) (de_file_size (le_dirent e)) fs1 = Some (elf, fs2)
       \<and> \<not> elf_bad (ehdr_at elf) \<and> pc = e_entry (ehdr_at elf)"
proof -
  let ?k = "b_kernel b"
  obtain es fs1 e where e: "fat32_list_fat fuel meta (bpb_root_clus (meta_bpb meta)) (k_fs ?k) = Some (es, fs1)"
    "find (name_matches name) es = Some e"
    using assms(1) by (auto simp: exec_def Let_def bind_eq_Some_conv split: option.splits)
  obtain elf fs2 p vm1 pcb vm2 where
    f: "fat32_read_file fuel meta (dirent_cluster (le_dirent e)) (de_file_size (le_dirent e)) fs1 = Some (elf, fs2)"
    and v: "valloc (de_file_size (le_dirent e)) (k_vm ?k) = Some (p, vm1)"
    and l: "load_elf elf shell_args shell_envs (k_cur ?k) (vm1\<lparr>vm_mem := put_bytes p elf (vm_mem vm1)\<rparr>) = Some (pc, pcb, vm2)"
    and pc: "pc \<noteq> ELF_ERR" and sp: "sp = user_sp (ctx (k_cur (upd_cur (\<lambda>th. pcb) (set_vm vm2 (?k\<lparr>k_fs := fs2\<rparr>)))))"
    and b': "b' = b\<lparr>b_kernel := set_vm (vfree p vm2) ((upd_cur (\<lambda>th. pcb) (set_vm vm2 (?k\<lparr>k_fs := fs2\<rparr>)))
        \<lparr>k_sched := start_in_root (k_sched (upd_cur (\<lambda>th. pcb) (set_vm vm2 (?k\<lparr>k_fs := fs2\<rparr>))))\<rparr>),
      b_regs := PUT32 PTR_IRQ_ENABLE_BASIC 1 (b_regs b)\<rparr>"
    using assms(1) e by (auto simp: exec_def Let_def bind_eq_Some_conv split: if_splits)
  note keeps = load_elf_keeps [OF l] and fields = load_elf_fields [OF l]
  let ?s = "(upd_thread (cur (k_sched ?k)) (\<lambda>_. pcb) (k_sched ?k))\<lparr>svm := vm2\<rparr>"
  have s: "k_sched (upd_cur (\<lambda>th. pcb) (set_vm vm2 (?k\<lparr>k_fs := fs2\<rparr>))) = ?s"
    by (simp add: upd_cur_def set_vm_def upd_thread_def)
  have cp: "cur_thread ?s = pcb" by (simp add: upd_thread_def)
  have "running (k_sched ?k)" using assms(2) by (simp add: kernel_ok_def)
  moreover have "l1_pt pcb = vm_active vm2"
    using keeps(1,4) valloc_active [OF v] assms(2) by (simp add: kernel_ok_def running_def sched_ok_def)
  ultimately have run: "running ?s" using running_new_table keeps(2,3) by blast
  have sb: "k_sched (b_kernel b') = (start_in_root ?s)\<lparr>svm := vfree p vm2\<rparr>" by (simp add: b' s set_vm_def [of "vfree p vm2"])
  have "sched_same ?s ((start_in_root ?s)\<lparr>svm := vfree p vm2\<rparr>)"
    using start_in_root_fields(1) [of ?s] by (simp add: sched_same_def vfree_def)
  then have "running (k_sched (b_kernel b'))" unfolding sb by (rule sched_same_running) (rule run)
  then show "kernel_ok (b_kernel b')" using assms(2) by (simp add: kernel_ok_def b' set_vm_def upd_cur_def)
  have t: "k_cur (b_kernel b') = cur_thread (start_in_root ?s)" by (simp add: sb)
  show "tid (k_cur (b_kernel b')) = tid (k_cur ?k)" "fdt (k_cur (b_kernel b')) = fdt (k_cur ?k)" "user_sp (ctx (k_cur (b_kernel b'))) = sp"
    unfolding t sp s using start_in_root_fields [of ?s] cp fields(1,2) by simp_all
  show "cwd_of (b_kernel b') = Some [47]" unfolding cwd_of_def sb using start_in_root_fields(5) [of ?s] by simp
  show "k_tty (b_kernel b') = k_tty ?k" "k_files (b_kernel b') = k_files ?k" "b_keyboard b' = b_keyboard b"
    "b_regs b' = PUT32 PTR_IRQ_ENABLE_BASIC 1 (b_regs b)"
    by (simp_all add: b' set_vm_def upd_cur_def)
  have "\<not> elf_bad (ehdr_at elf)" using l pc by (auto simp: load_elf_def Let_def split: if_splits)
  then show "\<exists>es fs1 e elf fs2. fat32_list_fat fuel meta (bpb_root_clus (meta_bpb meta)) (k_fs ?k) = Some (es, fs1)
       \<and> find (name_matches name) es = Some e
       \<and> fat32_read_file fuel meta (dirent_cluster (le_dirent e)) (de_file_size (le_dirent e)) fs1 = Some (elf, fs2)
       \<and> \<not> elf_bad (ehdr_at elf) \<and> pc = e_entry (ehdr_at elf)"
    using e f fields(3) [OF pc] by blast
qed

section \<open>Boot to user mode\<close>

definition standard_files :: "kernel \<Rightarrow> bool" where
  "standard_files k \<longleftrightarrow> fdt (k_cur k) = init_fdtable \<and> k_files k fd0 = Some (fst (snd tty_init))
     \<and> k_files k fd1 = Some (fst (snd (snd tty_init))) \<and> k_files k fd2 = Some (snd (snd (snd tty_init)))"

text \<open>What the first program finds: the kernel's invariant, the first thread with the terminal as its standard files and the
  root as its directory, the program counter at the entry of a program from the root directory of a mounted volume.\<close>

definition user_start :: "nat \<Rightarrow> fs_state \<Rightarrow> u32 \<Rightarrow> u32 \<Rightarrow> board \<Rightarrow> bool" where
  "user_start fuel volume sp pc b \<longleftrightarrow> (let k = b_kernel b in
     kernel_ok k \<and> tid (k_cur k) = 1 \<and> user_sp (ctx (k_cur k)) = sp \<and> standard_files k \<and> cwd_of k = Some [47] \<and> k_tty k = fst tty_init
     \<and> address (usb_ctx (b_keyboard b)) = 1
     \<and> (\<exists>meta fs es fs1 e elf fs2. fat32_init False volume = (Some meta, fs)
          \<and> fat32_list_fat fuel meta (bpb_root_clus (meta_bpb meta)) fs = Some (es, fs1)
          \<and> find (name_matches (map of_char ''SH      ELF'')) es = Some e
          \<and> fat32_read_file fuel meta (dirent_cluster (le_dirent e)) (de_file_size (le_dirent e)) fs1 = Some (elf, fs2)
          \<and> \<not> elf_bad (ehdr_at elf) \<and> pc = e_entry (ehdr_at elf)))"

lemma notmain_law:
  assumes "notmain n usb_hw emmc_hw fb_call fw mbox_at font date time fuel b = Some (In_user sp pc b')" "powered_on b"
  shows "user_start fuel (k_fs (b_kernel b)) sp pc b'"
    "b_regs b' = PUT32 PTR_IRQ_ENABLE_BASIC 1 (enable_timer 0xFF TIMER_PRE_16 (b_regs b))"
proof -
  obtain b1 where b1: "start_memory n usb_hw fb_call font b = Some b1" using assms(1) by (auto simp: notmain_def bind_eq_Some_conv)
  note s = start_memory_law [OF b1 assms(2)]
  obtain w c card where w: "kuser_verify (k_vm (b_kernel b1)) = Some True" and c: "emmc_init n emmc_hw fw mbox_at (b_card b1) = Some (c, card)"
    using assms(1) b1 by (auto simp: notmain_def bind_eq_Some_conv split: if_splits)
  obtain m fs where i: "fat32_init False (k_fs (b_kernel b1)) = (m, fs)" by fastforce
  obtain meta where m: "m = Some meta"
    using assms(1) b1 w c i by (cases m) (auto simp: notmain_def Let_def)
  let ?b = "b1\<lparr>b_regs := enable_timer 0xFF TIMER_PRE_16 (b_regs b1), b_card := card,
        b_kernel := upd_cur (\<lambda>th. th\<lparr>fdt := init_fdtable\<rparr>) ((b_kernel b1)\<lparr>k_fs := fs\<rparr>),
        b_terminal := fold terminal_putc (cstring (linux_banner date time)) (b_terminal b1)\<rparr>"
  obtain r b3 where r: "exec fuel meta (map of_char ''SH      ELF'') ?b = Some (r, b3)"
    using assms(1) b1 w c i m by (auto simp: notmain_def Let_def bind_eq_Some_conv simp del: list.map)
  have e: "exec fuel meta (map of_char ''SH      ELF'') ?b = Some (Some (sp, pc), b')"
    using assms(1) b1 w c i m r by (cases r) (auto simp: notmain_def Let_def simp del: list.map split: prod.splits sum.splits, metis sum.exhaust)
  let ?k = "upd_cur (\<lambda>th. th\<lparr>fdt := init_fdtable\<rparr>) ((b_kernel b1)\<lparr>k_fs := fs\<rparr>)"
  have ok: "kernel_ok ?k" by (rule calm_ok [OF calm_upd_cur kernel_ok_fs [OF s(1)]]) simp_all
  have bk: "b_kernel ?b = ?k" "b_regs ?b = enable_timer 0xFF TIMER_PRE_16 (b_regs b1)" "b_keyboard ?b = b_keyboard b1" by simp_all
  note x = exec_law [OF e, unfolded bk, OF ok]
  have "standard_files (b_kernel b')" unfolding standard_files_def x(3,7) using s(6) by (simp add: upd_cur_def upd_thread_def)
  moreover have "tid (k_cur (b_kernel b')) = 1" unfolding x(2) using s(2) by (simp add: upd_cur_def upd_thread_def)
  moreover have "k_tty (b_kernel b') = fst tty_init" unfolding x(6) using s(3) by (simp add: upd_cur_def)
  ultimately show "user_start fuel (k_fs (b_kernel b)) sp pc b'"
    using x(1,4,5,8,10) s i m unfolding user_start_def Let_def by (auto simp: upd_cur_def)
  show "b_regs b' = PUT32 PTR_IRQ_ENABLE_BASIC 1 (enable_timer 0xFF TIMER_PRE_16 (b_regs b))" unfolding x(9) s(5) by simp
qed

section \<open>A run\<close>

lemma shell_name: "slice root_block 0 11 = map of_char ''SH      ELF''"
  by code_simp

lemma shell_found:
  "name_matches (map of_char ''SH      ELF'') shell_entry" "dirent_cluster (le_dirent shell_entry) = 3" "de_file_size (le_dirent shell_entry) = 84"
proof -
  show "name_matches (map of_char ''SH      ELF'') shell_entry"
    unfolding name_matches_def shell_entry_def dirent_at_def list_entry.simps fat_dirent.simps shell_name by code_simp
qed (simp_all add: shell_entry_def dirent_at_def root_block_def dirent_cluster_def read_u16_def read_u32_def)

lemma shell_exec:
  assumes "fat32_init False shell_fs = (Some meta, fs)" "coherent fs" "disk fs = shell_blocks" "geom_ok meta" "sec_per_clus meta = 2"
    "fat_start_lba meta = 2" "data_start_lba meta = 3" "bpb_root_clus (meta_bpb meta) = 2" "k_fs (b_kernel b) = fs"
    "pt_inv (k_vm (b_kernel b)) l1 fl L" "vm_active (k_vm (b_kernel b)) = l1" "\<And>c. c \<in> {3, 6, 8} \<Longrightarrow> 0 < avail (vm_ka (k_vm (b_kernel b))) fl c"
    "\<not> coarse (vm_mem (k_vm (b_kernel b))) l1 0xBFF" "l1_pt (k_cur (b_kernel b)) = l1"
  shows "\<exists>sp b'. exec 1 meta (map of_char ''SH      ELF'') b = Some (Some (sp, 0x8000), b')"
proof -
  note geo = assms(4-7)
  obtain fs1 where l: "fat32_list_fat 1 meta 2 fs = Some ([shell_entry], fs1)" "disk fs1 = shell_blocks" "coherent fs1"
    using list_fat_loop_law [OF assms(2) shell_chain [OF geo, of 2, folded assms(3)], of 1 "[]"] shell_listing [OF geo] assms(3)
    by (auto simp: fat32_list_fat_def)
  have lb: "length root_block = 512" "length elf_block = 512" by (simp_all add: root_block_def elf_block_def)
  have n: "spc meta = Suc (Suc 0)" using assms(5) by simp
  have lba: "fat32_cluster_to_lba meta 3 = 5" using assms(5,7) by (simp add: fat32_cluster_to_lba_def)
  have c: "cluster_content meta shell_blocks 3 = elf_block @ shell_blocks 6"
    by (simp add: cluster_content_def lba n) (simp add: shell_blocks_def)
  have t: "take (unat (84 :: u32)) (file_content meta (disk fs1) [3]) = take 84 elf_block"
    by (simp add: file_content_def l(2) c lb)
  have ch: "file_chain meta (disk fs1) 3 [3]" unfolding l(2) by (rule shell_chain [OF geo]) simp
  obtain fs2 where r: "fat32_read_file 1 meta 3 84 fs1 = Some (take 84 elf_block, fs2)"
    by (rule read_file_law [OF l(3) assms(4) ch, of 84 1]) (use t in \<open>simp_all add: file_content_def l(2) c lb\<close>)
  obtain p vm1 pcb vm2 where v: "valloc 84 (k_vm (b_kernel b)) = Some (p, vm1)" "p \<noteq> 0"
    and e: "load_elf (take 84 elf_block) shell_args shell_envs (k_cur (b_kernel b))
      (vm1\<lparr>vm_mem := put_bytes p (take 84 elf_block) (vm_mem vm1)\<rparr>) = Some (0x8000, pcb, vm2)"
    using shell_loads [OF assms(10-14), of shell_args shell_envs] by (auto simp: stack_need_def strings_need_def shell_args_def shell_envs_def)
  show ?thesis using l(1) r v e shell_found by (simp add: exec_def Let_def assms(8,9) ELF_ERR_def del: list.map)
qed

lemma prompt_do_usb:
  assumes "length (config_buf (usb_ctx k)) = 256"
  shows "\<exists>k'. do_usb 20 prompt_usb 0xC6FF0020 k = Some k'"
proof -
  let ?u = "usb_context_init ((writel 0xFFFFFFFF ADD_IRQ_DISABLE2 (writel 0xFFFFFFFF ADD_IRQ_DISABLE1 (usb_ctx k)))\<lparr>dma_at := 0xC6FF0020\<rparr>)"
  have "dma_at ?u = 0xC6FF0020" "length (config_buf ?u) = 256" using assms by (simp_all add: usb_context_init_def writel_def)
  then obtain u' where "usb_hid_full_init 20 prompt_usb ?u = Some (0, u')" using prompt_enumeration by blast
  then show ?thesis by (simp add: do_usb_def Let_def)
qed

text \<open>The board at power-on: the statics are zero, the allocator is not set up, the card has the program.\<close>

definition root_t :: rpi_thread where
  "root_t = \<lparr>tid = 0, exited = False, ready = False,
     ctx = \<lparr>user_sp = 0, user_lr = 0, cpsr = 0, regs = replicate 13 0, resume_pc = 0\<rparr>,
     l1_pt = 0, tls_base = 0, brk = 0, brk_min = 0, clear_tid = 0, fdt = [], cwd = 0, svc_sp = 0, ppid = 0\<rparr>"

definition cold_kernel :: kernel where
  "cold_kernel = \<lparr>k_sched = \<lparr>threads = (\<lambda>t. root_t), next_thread = 1, ready_q = [], sleeping_q = [], cur = 0, next_tid = 2,
       svm = (boot_vm helper_code)\<lparr>vm_ka := \<lparr>size_classes = [], heap = \<lambda>_. \<lparr>lnext = 0, lprev = 0\<rparr>, sc_base = 0xC0100000\<rparr>\<rparr>,
       tls_reg = 0, strings = Map.empty, next_string = 1\<rparr>,
     k_files = Map.empty, k_next_file = 4, k_tty = fst tty_init, k_screen = [], k_fs = shell_fs, k_keys = []\<rparr>"

definition cold_board :: board where
  "cold_board = \<lparr>b_kernel = cold_kernel, b_keyboard = test_keyboard,
     b_terminal = \<lparr>t_x = 0, t_y = 0, ansi_state = ANSI_NORM, ansi_params = replicate 16 0, ansi_param_count = 0, ANSI_COLOR_CODE = 0,
       t_display = \<lparr>d_mem = (\<lambda>_. 0), d_fb = 0, d_pitch = 0, d_font = 0, font_rows = 0, font_cols = 0\<rparr>\<rparr>,
     b_card = cold_device, b_regs = []\<rparr>"

lemma cold_powered_on: "powered_on cold_board"
  by (simp add: powered_on_def cold_board_def cold_kernel_def root_t_def)

lemma cold_memory: "(k_vm cold_kernel)\<lparr>vm_ka := kalloc_init (vm_ka (k_vm cold_kernel))\<rparr> = boot_vm helper_code"
  by (simp add: cold_kernel_def boot_vm_def boot_state_def)

lemma cold_start:
  obtains b1 l1 fl L where "start_memory 20 prompt_usb call font cold_board = Some b1" "kuser_verify (k_vm (b_kernel b1)) = Some True"
    "pt_inv (k_vm (b_kernel b1)) l1 fl L" "vm_active (k_vm (b_kernel b1)) = l1" "\<And>c. c \<in> {3, 6, 8} \<Longrightarrow> 0 < avail (vm_ka (k_vm (b_kernel b1))) fl c"
    "\<not> coarse (vm_mem (k_vm (b_kernel b1))) l1 0xBFF" "l1_pt (k_cur (b_kernel b1)) = l1" "k_fs (b_kernel b1) = shell_fs" "b_card b1 = cold_device"
proof -
  obtain vm1 l1 vm2 fl L where t: "valloc 5408 (boot_vm helper_code) = Some (0xC6FF0000, vm1)" "mmu_init vm1 = Some (l1, vm2)"
    "pt_inv vm2 l1 fl L" "vm_active vm2 = l1" "\<And>c. c \<in> {3, 6, 8} \<Longrightarrow> 0 < avail (vm_ka vm2) fl c" "\<not> coarse (vm_mem vm2) l1 0xBFF"
    "user_word 0xFFFF0000 vm2 = Some 0xEAFFFFFE" by (rule boot_table) blast
  obtain kb where kb: "do_usb 20 prompt_usb 0xC6FF0020 test_keyboard = Some kb"
    using prompt_do_usb [of test_keyboard] by (auto simp: test_keyboard_def fresh_context_def usb_context_init_def)
  obtain tty f0 f1 f2 where i: "tty_init = (tty, f0, f1, f2)" by (cases tty_init) auto
  let ?k = "upd_cur (\<lambda>th. th\<lparr>l1_pt := l1, tid := 1, ready := True\<rparr>)
    (set_vm vm2 (cold_kernel\<lparr>k_tty := tty, k_files := (k_files cold_kernel)(fd0 \<mapsto> f0, fd1 \<mapsto> f1, fd2 \<mapsto> f2)\<rparr>))"
  obtain t where s: "start_memory 20 prompt_usb call font cold_board = Some (cold_board\<lparr>b_kernel := ?k, b_keyboard := kb, b_terminal := t\<rparr>)"
    using t(1,2) kb by (simp add: start_memory_def i cold_memory USB_CONTEXT_SIZE_def cold_board_def Let_def)
  have v: "k_vm ?k = vm2" by (simp add: upd_cur_def set_vm_def upd_thread_def)
  have l: "l1_pt (k_cur ?k) = l1" by (simp add: upd_cur_def upd_thread_def)
  show thesis
    by (rule that [OF s]) (use t l in \<open>simp_all add: v kuser_verify_def cold_board_def\<close>, simp_all add: upd_cur_def set_vm_def cold_kernel_def)
qed

lemma cold_boot: "\<exists>sp b'. notmain 20 prompt_usb prompt_hw (\<lambda>x. x) (\<lambda>x. x) 0 0 date time 1 cold_board = Some (In_user sp 0x8000 b')"
proof -
  obtain b1 l1 fl L where b1: "start_memory 20 prompt_usb (\<lambda>x. x) 0 cold_board = Some b1" "kuser_verify (k_vm (b_kernel b1)) = Some True"
    and i: "pt_inv (k_vm (b_kernel b1)) l1 fl L" "vm_active (k_vm (b_kernel b1)) = l1" "\<And>c. c \<in> {3, 6, 8} \<Longrightarrow> 0 < avail (vm_ka (k_vm (b_kernel b1))) fl c"
      "\<not> coarse (vm_mem (k_vm (b_kernel b1))) l1 0xBFF" "l1_pt (k_cur (b_kernel b1)) = l1"
    and r: "k_fs (b_kernel b1) = shell_fs" "b_card b1 = cold_device" by (rule cold_start) blast
  obtain card where c: "emmc_init 20 prompt_hw (\<lambda>x. x) 0 cold_device = Some (True, card)" using prompt_init [of 20] by auto
  obtain meta fs where m: "fat32_init False shell_fs = (Some meta, fs)" "coherent fs" "disk fs = shell_blocks" "geom_ok meta" "sec_per_clus meta = 2"
    "fat_start_lba meta = 2" "data_start_lba meta = 3" "bpb_root_clus (meta_bpb meta) = 2" by (rule shell_mounts) blast
  let ?b = "b1\<lparr>b_regs := enable_timer 0xFF TIMER_PRE_16 (b_regs b1), b_card := card,
        b_kernel := upd_cur (\<lambda>th. th\<lparr>fdt := init_fdtable\<rparr>) ((b_kernel b1)\<lparr>k_fs := fs\<rparr>),
        b_terminal := fold terminal_putc (cstring (linux_banner date time)) (b_terminal b1)\<rparr>"
  have v: "k_vm (b_kernel ?b) = k_vm (b_kernel b1)" "k_fs (b_kernel ?b) = fs" "l1_pt (k_cur (b_kernel ?b)) = l1"
    using i(5) by (simp_all add: upd_cur_def upd_thread_def)
  obtain sp b' where "exec 1 meta (map of_char ''SH      ELF'') ?b = Some (Some (sp, 0x8000), b')"
    using shell_exec [OF m v(2), unfolded v(1), OF i(1-4) v(3)] by blast
  then show ?thesis using b1 c m(1) r by (simp add: notmain_def Let_def del: list.map)
qed

section \<open>Claims\<close>

text \<open>C34: Boot. When \<open>notmain\<close>, run on a board whose statics are as the image has them, gets to user mode, then the card's volume was mounted
  and the program is the first file in its root directory that goes by the name of the shell, a file with a valid ELF header; execution
  starts at its entry with the stack that was built for it. The first thread has number 1, the terminal as its three standard files
  and the root as its working directory; the keyboard was enumerated at address 1; the timer runs and its interrupt was enabled
  last. From then on, whatever the program stores and whatever traps are taken, a live, awake thread runs on its own page table,
  no live thread is lost and the terminal's queues stay within bounds.\<close>

theorem boot_reaches_user:
  assumes "notmain n usb_hw emmc_hw fb_call fw mbox_at font date time fuel b = Some (In_user sp pc b')" "powered_on b"
    "(machine_step fuel' meta)\<^sup>*\<^sup>* (b_kernel b') k"
  shows "user_start fuel (k_fs (b_kernel b)) sp pc b'
    \<and> b_regs b' = PUT32 PTR_IRQ_ENABLE_BASIC 1 (enable_timer 0xFF TIMER_PRE_16 (b_regs b))
    \<and> \<not> exited (k_cur k) \<and> ready (k_cur k) \<and> vm_active (k_vm k) = l1_pt (k_cur k) \<and> sched_inv (k_sched k) \<and> tty_inv (k_tty k)"
proof -
  note s = notmain_law [OF assms(1,2)]
  have "kernel_ok (b_kernel b')" using s(1) by (simp add: user_start_def Let_def)
  then have "kernel_ok k" by (rule machine_steps_ok [OF assms(3)])
  with s show ?thesis by (simp add: kernel_ok_def running_def sched_ok_def)
qed

text \<open>A board with a controller, a card and a keyboard that answer at once, and a program of one empty segment on the card.\<close>

theorem boot_reaches_user_witness:
  "\<exists>sp b'. notmain 20 prompt_usb prompt_hw (\<lambda>x. x) (\<lambda>x. x) 0 0 [74, 117, 110] [49, 50] 1 cold_board = Some (In_user sp 0x8000 b')
     \<and> user_start 1 shell_fs sp 0x8000 b' \<and> ready (k_cur (b_kernel b'))"
proof -
  obtain sp b' where r: "notmain 20 prompt_usb prompt_hw (\<lambda>x. x) (\<lambda>x. x) 0 0 [74, 117, 110] [49, 50] 1 cold_board = Some (In_user sp 0x8000 b')"
    using cold_boot by blast
  have "k_fs (b_kernel cold_board) = shell_fs" by (simp add: cold_board_def cold_kernel_def)
  then show ?thesis using boot_reaches_user [OF r cold_powered_on rtranclp.rtrancl_refl] r by auto
qed

end
